(* ===== verification/AG_Prelude.thy ===== *)
theory AG_Prelude
  imports
    Main
    "HOL-Library.Word"
    "HOL-Library.Multiset"
    "HOL-Library.Monad_Syntax"
    "HOL-Library.Sublist"
begin

section \<open>Conventions, word types and list facts shared by the development\<close>

text \<open>
  Conventions used by every theory of the development.

  \<^item> \<open>'a option\<close> in result position is the panic monad: \<open>None\<close> says that the Rust code
    panics (a failed \<^verbatim>\<open>assert!\<close>, a slice index out of range, an \<open>unwrap\<close> of nothing),
    reads memory outside the contract of an unsafe accessor, or does not return; \<open>Some x\<close>
    says that it returns \<open>x\<close>. A Rust \<open>Option<T>\<close> inside it is a second \<open>option\<close>.
    Sequencing is \<open>do { x \<leftarrow> m; k x }\<close> of \<open>Monad_Syntax\<close>.
  \<^item> \<^verbatim>\<open>debug_assert!\<close> is compiled out of release builds and is no branch of the model;
    the component theories prove the asserted facts as lemmas where they matter.
  \<^item> \<open>Result<T, E>\<close> is \<open>E + T\<close> with the error on the left.
  \<^item> \<open>u8\<close>, \<open>u32\<close> are words where the code masks, packs or truncates them; \<open>usize\<close> lengths
    and indices, and \<open>u64\<close> counters that grow by one per event, are \<open>nat\<close>.
\<close>

type_synonym u8 = "8 word"
type_synonym u16 = "16 word"
type_synonym u32 = "32 word"
type_synonym u64 = "64 word"

named_theorems panic_simps \<open>what the panic-monad operations return on well-formed arguments\<close>
named_theorems wf_intros \<open>introduction rules for well-formedness invariants\<close>
named_theorems slot_simps \<open>facts on slot sets, tags and frames\<close>

subsection \<open>The panic monad\<close>

definition assert_opt :: "bool \<Rightarrow> unit option" where
  "assert_opt b = (if b then Some () else None)"

lemma assert_opt_simps [simp]:
  "assert_opt True = Some ()"
  "assert_opt False = None"
  "(assert_opt b = Some u) = b"
  by (simp_all add: assert_opt_def)

lemma bind_assert_opt [simp]: "(assert_opt b \<bind> f = Some y) = (b \<and> f () = Some y)"
  by (simp add: assert_opt_def)

text \<open>Indexing \<^verbatim>\<open>xs[i]\<close> and the slices \<^verbatim>\<open>&xs[a..b]\<close>: out of range panics.\<close>

definition nth_opt :: "'a list \<Rightarrow> nat \<Rightarrow> 'a option" where
  "nth_opt xs i = (if i < length xs then Some (xs ! i) else None)"

definition slice_opt :: "'a list \<Rightarrow> nat \<Rightarrow> nat \<Rightarrow> 'a list option" where
  "slice_opt xs a b = (if a \<le> b \<and> b \<le> length xs then Some (take (b - a) (drop a xs)) else None)"

definition set_opt :: "'a list \<Rightarrow> nat \<Rightarrow> 'a \<Rightarrow> 'a list option" where
  "set_opt xs i x = (if i < length xs then Some (xs[i := x]) else None)"

lemma nth_opt_Some [panic_simps]: "i < length xs \<Longrightarrow> nth_opt xs i = Some (xs ! i)"
  by (simp add: nth_opt_def)

lemma nth_opt_None [panic_simps]: "length xs \<le> i \<Longrightarrow> nth_opt xs i = None"
  by (simp add: nth_opt_def)

lemma slice_opt_Some [panic_simps]:
  "a \<le> b \<Longrightarrow> b \<le> length xs \<Longrightarrow> slice_opt xs a b = Some (take (b - a) (drop a xs))"
  by (simp add: slice_opt_def)

lemma set_opt_Some [panic_simps]: "i < length xs \<Longrightarrow> set_opt xs i x = Some (xs[i := x])"
  by (simp add: set_opt_def)

subsection \<open>Strictly ascending lists\<close>

abbreviation ssorted :: "'a::linorder list \<Rightarrow> bool" where
  "ssorted \<equiv> sorted_wrt (<)"

lemma ssorted_distinct: "ssorted xs \<Longrightarrow> distinct xs"
  by (simp add: strict_sorted_iff)

lemma ssorted_sorted: "ssorted xs \<Longrightarrow> sorted xs"
  by (simp add: strict_sorted_iff)

lemma ssorted_set_eq: "ssorted xs \<Longrightarrow> ssorted ys \<Longrightarrow> set xs = set ys \<Longrightarrow> xs = ys"
  by (simp add: strict_sorted_equal)

lemma ssorted_append:
  "ssorted (xs @ ys) \<longleftrightarrow> ssorted xs \<and> ssorted ys \<and> (\<forall>x\<in>set xs. \<forall>y\<in>set ys. x < y)"
  by (simp add: sorted_wrt_append)

lemma ssorted_take: "ssorted xs \<Longrightarrow> ssorted (take n xs)"
  by (rule sorted_wrt_take)

lemma ssorted_drop: "ssorted xs \<Longrightarrow> ssorted (drop n xs)"
  by (rule sorted_wrt_drop)

lemma ssorted_nth_less: "ssorted xs \<Longrightarrow> i < j \<Longrightarrow> j < length xs \<Longrightarrow> xs ! i < xs ! j"
  by (rule sorted_wrt_nth_less)

lemma ssorted_take_less_drop:
  assumes "ssorted xs" and "x \<in> set (take n xs)" and "y \<in> set (drop n xs)"
  shows "x < y"
proof -
  from assms(1) have "ssorted (take n xs @ drop n xs)" by simp
  with assms(2,3) show ?thesis unfolding ssorted_append by blast
qed

text \<open>The number of elements below \<open>v\<close> is the insertion position of \<open>v\<close>.\<close>

definition below_count :: "'a::linorder list \<Rightarrow> 'a \<Rightarrow> nat" where
  "below_count xs v = length (filter (\<lambda>x. x < v) xs)"

lemma below_count_le: "below_count xs v \<le> length xs"
  by (simp add: below_count_def)

lemma sorted_filter_less_take:
  "sorted xs \<Longrightarrow> filter (\<lambda>x. x < v) xs = take (below_count xs v) xs"
  unfolding below_count_def
proof (induction xs)
  case Nil
  then show ?case by simp
next
  case (Cons a xs)
  show ?case
  proof (cases "a < v")
    case True
    with Cons show ?thesis by simp
  next
    case False
    with Cons.prems have "filter (\<lambda>x. x < v) xs = []"
      by (auto simp: filter_empty_conv)
    with False show ?thesis by simp
  qed
qed

lemma sorted_take_below: "sorted xs \<Longrightarrow> x \<in> set (take (below_count xs v) xs) \<Longrightarrow> x < v"
  by (simp flip: sorted_filter_less_take)

lemma sorted_drop_below:
  assumes "sorted xs" and "x \<in> set (drop (below_count xs v) xs)"
  shows "v \<le> x"
proof -
  have "filter (\<lambda>x. x < v) xs @ filter (\<lambda>x. x < v) (drop (below_count xs v) xs)
      = filter (\<lambda>x. x < v) (take (below_count xs v) xs)
          @ filter (\<lambda>x. x < v) (drop (below_count xs v) xs)"
    using assms(1) by (simp flip: sorted_filter_less_take)
  also have "\<dots> = filter (\<lambda>x. x < v) xs"
    by (simp flip: filter_append)
  finally have "filter (\<lambda>x. x < v) (drop (below_count xs v) xs) = []" by simp
  with assms(2) show ?thesis by (auto simp: filter_empty_conv not_less)
qed

lemma sorted_insert_at_below:
  assumes "ssorted xs" and "v \<notin> set xs"
  shows "ssorted (take (below_count xs v) xs @ v # drop (below_count xs v) xs)"
proof -
  have s: "sorted xs" using assms(1) by (rule ssorted_sorted)
  have lo: "\<forall>x\<in>set (take (below_count xs v) xs). x < v"
    using sorted_take_below [OF s] by blast
  have hi: "\<forall>x\<in>set (drop (below_count xs v) xs). v < x"
  proof
    fix x assume x: "x \<in> set (drop (below_count xs v) xs)"
    then have "v \<le> x" using sorted_drop_below [OF s] by blast
    moreover have "x \<noteq> v" using x assms(2) by (auto dest: in_set_dropD)
    ultimately show "v < x" by simp
  qed
  have mid: "\<forall>x\<in>set (take (below_count xs v) xs). \<forall>y\<in>set (drop (below_count xs v) xs). x < y"
    using ssorted_take_less_drop [OF assms(1)] by blast
  show ?thesis
    unfolding ssorted_append sorted_wrt.simps
    using lo hi mid ssorted_take [OF assms(1)] ssorted_drop [OF assms(1)] by auto
qed

subsection \<open>Functions that agree outside a set\<close>

definition agree_off :: "'a set \<Rightarrow> ('a \<Rightarrow> 'b) \<Rightarrow> ('a \<Rightarrow> 'b) \<Rightarrow> bool" where
  "agree_off S m m' \<longleftrightarrow> (\<forall>i. i \<notin> S \<longrightarrow> m' i = m i)"

lemma agree_off_refl [simp]: "agree_off S m m"
  by (simp add: agree_off_def)

lemma agree_off_upd: "i \<in> S \<Longrightarrow> agree_off S m (m(i := v))"
  by (auto simp: agree_off_def)

lemma agree_off_mono: "agree_off S m m' \<Longrightarrow> S \<subseteq> T \<Longrightarrow> agree_off T m m'"
  by (auto simp: agree_off_def)

lemma agree_off_trans: "agree_off S m m' \<Longrightarrow> agree_off T m' m'' \<Longrightarrow> agree_off (S \<union> T) m m''"
  by (simp add: agree_off_def)

lemma agree_off_trans_subset:
  "agree_off S m m' \<Longrightarrow> agree_off T m' m'' \<Longrightarrow> T \<subseteq> S \<Longrightarrow> agree_off S m m''"
  by (metis agree_off_trans sup.absorb_iff1)

lemma agree_offD: "agree_off S m m' \<Longrightarrow> i \<notin> S \<Longrightarrow> m' i = m i"
  by (simp add: agree_off_def)

subsection \<open>Words of small naturals\<close>

lemma unat_of_nat_u32 [simp]: "n < 2 ^ 32 \<Longrightarrow> unat (of_nat n :: u32) = n"
  unfolding unat_of_nat by simp

lemma unat_of_nat_u64 [simp]: "n < 2 ^ 64 \<Longrightarrow> unat (of_nat n :: u64) = n"
  unfolding unat_of_nat by simp

subsection \<open>Folds over an index range\<close>

lemma fold_upt_snoc: "fold f [0..<Suc n] s = f n (fold f [0..<n] s)"
  by simp

lemma take_Suc_nth: "i < length xs \<Longrightarrow> take (Suc i) xs = take i xs @ [xs ! i]"
  by (rule take_Suc_conv_app_nth)

subsection \<open>The floor of the binary logarithm\<close>

text \<open>\<^verbatim>\<open>ilog2\<close> of a positive integer, as the standard library has it.\<close>

fun ilog2 :: "nat \<Rightarrow> nat" where
  "ilog2 n = (if n < 2 then 0 else Suc (ilog2 (n div 2)))"

declare ilog2.simps [simp del]

lemma ilog2_bounds: "0 < n \<Longrightarrow> 2 ^ ilog2 n \<le> n \<and> n < 2 ^ Suc (ilog2 n)"
proof (induction n rule: ilog2.induct)
  case (1 n)
  show ?case
  proof (cases "n < 2")
    case True
    then have "ilog2 n = 0" by (subst ilog2.simps) simp
    then show ?thesis using True 1(2) by simp
  next
    case False
    then have "2 ^ ilog2 (n div 2) \<le> n div 2 \<and> n div 2 < 2 ^ Suc (ilog2 (n div 2))" using 1 by simp
    moreover have "ilog2 n = Suc (ilog2 (n div 2))" using False by (subst ilog2.simps) simp
    ultimately show ?thesis by auto
  qed
qed

end
