(* ===== verification/Free_List.thy ===== *)
theory Free_List
  imports AG_Prelude
begin

unbundle bit_operations_syntax

section \<open>The lock-free free list of the shared-memory ring\<close>

text \<open>
  Models \<^verbatim>\<open>FreeList\<close> of \<^verbatim>\<open>crates/aether-mem/src/ring.rs\<close>: a Treiber stack of slot indices whose head packs an index and
  a 32-bit tag against the ABA problem. A thread is a value of \<open>fl_pc\<close>, which says where it is in \<^verbatim>\<open>acquire\<close> or
  \<^verbatim>\<open>release_many\<close> and holds its local variables; \<open>fl_atomic\<close> does its next load, store, swap or compare-and-exchange.
  \<open>fl_step\<close> interleaves the atomic operations of any number of threads, sequentially consistent. \<open>weak\<close> lets
  \<^verbatim>\<open>compare_exchange_weak\<close> fail without cause. Backoff only spins and is left out; debug assertions are off.
\<close>

definition FREE_LIST_EMPTY :: u32 where "FREE_LIST_EMPTY = 2 ^ 32 - 1"
definition FREE_LIST_LEASED :: u32 where "FREE_LIST_LEASED = 2 ^ 32 - 2"

definition pack_free_head :: "u32 \<Rightarrow> u32 \<Rightarrow> u64" where
  "pack_free_head index tag = push_bit 32 (ucast tag) OR ucast index"

definition unpack_free_head :: "u64 \<Rightarrow> u32 \<times> u32" where
  "unpack_free_head value = (ucast value, ucast (drop_bit 32 value))"

subsection \<open>State and construction\<close>

record free_list =
  fl_head :: u64
  fl_next :: "u32 list"
  fl_slot_count :: nat

definition free_list_new :: "nat \<Rightarrow> free_list option" where
  "free_list_new slot_count = do {
     assert_opt (1 \<le> slot_count);
     assert_opt (slot_count \<le> unat FREE_LIST_LEASED);
     Some \<lparr>fl_head = pack_free_head 0 0,
       fl_next = map (\<lambda>i. if i + 1 < slot_count then of_nat (i + 1) else FREE_LIST_EMPTY) [0..<slot_count],
       fl_slot_count = slot_count\<rparr> }"

subsection \<open>The atomic operations of a thread\<close>

datatype fl_pc =
    Idle
  | AcqLoad
  | AcqNext u64
  | AcqCas u64 u32
  | AcqMark u32
  | AcqDone "nat option"
  | RelSwap "nat list" "nat option" "nat option"
  | RelLink nat "nat list" "nat option" nat
  | RelLoad nat nat
  | RelStore nat nat u64
  | RelCas nat nat u64
  | RelDone
  | Panicked

text \<open>
  \<^verbatim>\<open>acquire\<close>: load the head, read the successor of its slot, exchange the head, mark the slot leased.
  \<^verbatim>\<open>release_many\<close>: swap every index out and link it behind the previous one, then load the head, link the last index to it
  and exchange the head for the first. An index out of range is skipped, one that is not leased panics.
\<close>

fun fl_atomic :: "bool \<Rightarrow> free_list \<Rightarrow> fl_pc \<Rightarrow> (free_list \<times> fl_pc) option" where
  "fl_atomic weak l AcqLoad =
     (let state = fl_head l in
      if fst (unpack_free_head state) = FREE_LIST_EMPTY then Some (l, AcqDone None) else Some (l, AcqNext state))"
| "fl_atomic weak l (AcqNext state) =
     (case nth_opt (fl_next l) (unat (fst (unpack_free_head state))) of
        None \<Rightarrow> Some (l, AcqDone None)
      | Some next \<Rightarrow> Some (l, AcqCas state next))"
| "fl_atomic weak l (AcqCas state next) =
     (let (head, tag) = unpack_free_head state in
      if fl_head l = state \<and> \<not> weak then Some (l\<lparr>fl_head := pack_free_head next (tag + 1)\<rparr>, AcqMark head)
      else Some (l, AcqLoad))"
| "fl_atomic weak l (AcqMark head) = do {
     next \<leftarrow> set_opt (fl_next l) (unat head) FREE_LIST_LEASED;
     Some (l\<lparr>fl_next := next\<rparr>, AcqDone (Some (unat head))) }"
| "fl_atomic weak l (RelSwap [] first prev) =
     (case (first, prev) of (Some first, Some tail) \<Rightarrow> Some (l, RelLoad first tail) | _ \<Rightarrow> Some (l, RelDone))"
| "fl_atomic weak l (RelSwap (index # indices) first prev) =
     (if fl_slot_count l \<le> index then Some (l, RelSwap indices first prev)
      else do {
        observed \<leftarrow> nth_opt (fl_next l) index;
        next \<leftarrow> set_opt (fl_next l) index FREE_LIST_EMPTY;
        let l = l\<lparr>fl_next := next\<rparr>;
        if observed \<noteq> FREE_LIST_LEASED then Some (l, Panicked)
        else case prev of
            Some p \<Rightarrow> Some (l, RelLink index indices first p)
          | None \<Rightarrow> Some (l, RelSwap indices (Some index) (Some index)) })"
| "fl_atomic weak l (RelLink index indices first p) = do {
     next \<leftarrow> set_opt (fl_next l) p (of_nat index);
     Some (l\<lparr>fl_next := next\<rparr>, RelSwap indices first (Some index)) }"
| "fl_atomic weak l (RelLoad first tail) = Some (l, RelStore first tail (fl_head l))"
| "fl_atomic weak l (RelStore first tail state) = do {
     next \<leftarrow> set_opt (fl_next l) tail (fst (unpack_free_head state));
     Some (l\<lparr>fl_next := next\<rparr>, RelCas first tail state) }"
| "fl_atomic weak l (RelCas first tail state) =
     (let (head, tag) = unpack_free_head state in
      if fl_head l = state \<and> \<not> weak then Some (l\<lparr>fl_head := pack_free_head (of_nat first) (tag + 1)\<rparr>, RelDone)
      else Some (l, RelLoad first tail))"
| "fl_atomic weak l _ = None"

text \<open>A call that runs alone, to its end.\<close>

fun run_alone :: "nat \<Rightarrow> free_list \<Rightarrow> fl_pc \<Rightarrow> (free_list \<times> fl_pc) option" where
  "run_alone 0 l pc = None"
| "run_alone (Suc fuel) l pc = (case pc of AcqDone r \<Rightarrow> Some (l, pc) | RelDone \<Rightarrow> Some (l, pc)
     | _ \<Rightarrow> do { (l, pc) \<leftarrow> fl_atomic False l pc; run_alone fuel l pc })"

definition fl_acquire :: "free_list \<Rightarrow> (nat option \<times> free_list) option" where
  "fl_acquire l = do { (l, pc) \<leftarrow> run_alone 5 l AcqLoad; case pc of AcqDone r \<Rightarrow> Some (r, l) | _ \<Rightarrow> None }"

definition fl_release_many :: "nat list \<Rightarrow> free_list \<Rightarrow> free_list option" where
  "fl_release_many indices l = do { (l, pc) \<leftarrow> run_alone (2 * length indices + 5) l (RelSwap indices None None); Some l }"

definition fl_release :: "nat \<Rightarrow> free_list \<Rightarrow> free_list option" where
  "fl_release index = fl_release_many [index]"

subsection \<open>Any number of threads\<close>

text \<open>
  \<open>fs_owned\<close> is what each thread has been given and has not released; \<open>fs_muts\<close> counts the exchanges of the head and
  \<open>fs_stamp\<close> is that count at a thread's last load of the head: both are not part of the code and only state what the tag is for.
\<close>

record fl_system =
  fs_list :: free_list
  fs_pc :: "nat \<Rightarrow> fl_pc"
  fs_owned :: "nat \<Rightarrow> nat set"
  fs_muts :: nat
  fs_stamp :: "nat \<Rightarrow> nat"

fun loads_head :: "fl_pc \<Rightarrow> bool" where
  "loads_head AcqLoad \<longleftrightarrow> True"
| "loads_head (RelLoad first tail) \<longleftrightarrow> True"
| "loads_head _ \<longleftrightarrow> False"

definition fl_system_new :: "free_list \<Rightarrow> fl_system" where
  "fl_system_new l = \<lparr>fs_list = l, fs_pc = (\<lambda>_. Idle), fs_owned = (\<lambda>_. {}), fs_muts = 0, fs_stamp = (\<lambda>_. 0)\<rparr>"

definition fl_internal :: "fl_system \<Rightarrow> nat \<Rightarrow> free_list \<Rightarrow> fl_pc \<Rightarrow> fl_system" where
  "fl_internal s t l pc = s\<lparr>fs_list := l, fs_pc := (fs_pc s)(t := pc),
     fs_muts := (if fl_head l = fl_head (fs_list s) then fs_muts s else Suc (fs_muts s)),
     fs_stamp := (if loads_head (fs_pc s t) then (fs_stamp s)(t := fs_muts s) else fs_stamp s)\<rparr>"

text \<open>Callers release what they own, once; a lease may be handed to another thread.\<close>

inductive fl_step :: "fl_system \<Rightarrow> fl_system \<Rightarrow> bool" where
  atomic: "fl_atomic weak (fs_list s) (fs_pc s t) = Some (l, pc) \<Longrightarrow> fl_step s (fl_internal s t l pc)"
| call_acquire: "fs_pc s t = Idle \<Longrightarrow> fl_step s (s\<lparr>fs_pc := (fs_pc s)(t := AcqLoad)\<rparr>)"
| call_release: "fs_pc s t = Idle \<Longrightarrow> set indices \<subseteq> fs_owned s t \<Longrightarrow> distinct indices \<Longrightarrow>
    fl_step s (s\<lparr>fs_pc := (fs_pc s)(t := RelSwap indices None None), fs_owned := (fs_owned s)(t := fs_owned s t - set indices)\<rparr>)"
| acquired: "fs_pc s t = AcqDone r \<Longrightarrow>
    fl_step s (s\<lparr>fs_pc := (fs_pc s)(t := Idle), fs_owned := (fs_owned s)(t := fs_owned s t \<union> set_option r)\<rparr>)"
| released: "fs_pc s t = RelDone \<Longrightarrow> fl_step s (s\<lparr>fs_pc := (fs_pc s)(t := Idle)\<rparr>)"
| hand_over: "i \<in> fs_owned s t \<Longrightarrow> t \<noteq> u \<Longrightarrow>
    fl_step s (s\<lparr>fs_owned := (fs_owned s)(t := fs_owned s t - {i}, u := insert i (fs_owned s u))\<rparr>)"

text \<open>
  The documented window of the tag: no thread sleeps through \<open>2 ^ 32\<close> exchanges between its load of the head and its own
  exchange. \<open>fl_run\<close> is the runs that keep it.
\<close>

fun holds_head :: "fl_pc \<Rightarrow> bool" where
  "holds_head (AcqNext state) \<longleftrightarrow> True"
| "holds_head (AcqCas state next) \<longleftrightarrow> True"
| "holds_head (RelStore first tail state) \<longleftrightarrow> True"
| "holds_head (RelCas first tail state) \<longleftrightarrow> True"
| "holds_head _ \<longleftrightarrow> False"

definition in_window :: "fl_system \<Rightarrow> bool" where
  "in_window s \<longleftrightarrow> (\<forall>t. holds_head (fs_pc s t) \<longrightarrow> fs_muts s < fs_stamp s t + 2 ^ 32)"

inductive fl_run :: "fl_system \<Rightarrow> fl_system \<Rightarrow> bool" where
  start: "fl_run s s"
| step: "fl_run s s1 \<Longrightarrow> in_window s1 \<Longrightarrow> fl_step s1 s2 \<Longrightarrow> fl_run s s2"

end
