(* ===== verification/Shared_Ring.thy ===== *)
theory Shared_Ring
  imports Free_List
begin

unbundle bit_operations_syntax

section \<open>Slot regions and the shared-memory ring\<close>

text \<open>
  Models \<^verbatim>\<open>SlotRegion\<close>, \<^verbatim>\<open>SharedMemoryRing\<close> and the guards \<^verbatim>\<open>RingSlot\<close> and \<^verbatim>\<open>DetachedSlot\<close> of
  \<^verbatim>\<open>crates/aether-mem/src/ring.rs\<close>. The region is a zeroed byte memory, addressed from its base; an access past
  \<open>rg_total_size\<close> is \<open>None\<close>. What the system decides is a parameter: \<open>page\<close> is the answer of \<^verbatim>\<open>sysconf\<close>, \<open>huge\<close> and
  \<open>granted\<close> say whether the two kinds of allocation succeed, and a hook is its span with its answer for a size. The
  guards call the free list one call at a time (\<open>fl_acquire\<close>, \<open>fl_release\<close>); \<open>Free_List\<close> has the interleaved calls.
\<close>

type_synonym hook_error = "string \<times> int option"

datatype hook_span = HookSlots | HookMapping

record memory_hook =
  mh_span :: hook_span
  mh_on_alloc :: "nat \<Rightarrow> hook_error option"

datatype ring_error = InvalidSlotCount | InvalidSlotSize | InvalidSlotAlign | SizeOverflow | AllocationFailed

definition PAGE_SIZE :: nat where "PAGE_SIZE = 4096"
definition HUGE_PAGE_SIZE :: nat where "HUGE_PAGE_SIZE = 2 * 1024 * 1024"

definition runtime_page_size :: "int \<Rightarrow> nat" where
  "runtime_page_size raw = (if 0 < raw then max (nat raw) PAGE_SIZE else PAGE_SIZE)"

subsection \<open>Regions\<close>

record slot_region =
  rg_mem :: "nat \<Rightarrow> u8"
  rg_total_size :: nat
  rg_addressable_size :: nat
  rg_slot_size :: nat
  rg_page_align :: nat
  rg_slot_count :: nat
  rg_uses_huge_pages :: bool
  rg_hooks :: "memory_hook list"

definition checked_usize :: "nat \<Rightarrow> nat option" where
  "checked_usize n = (if n < 2 ^ 64 then Some n else None)"

text \<open>\<^verbatim>\<open>(n + (align - 1)) & !(align - 1)\<close>, with the sum checked.\<close>

definition mask_up :: "nat \<Rightarrow> nat \<Rightarrow> nat option" where
  "mask_up n align = map_option (\<lambda>s. unat ((of_nat s :: u64) AND NOT (of_nat (align - 1)))) (checked_usize (n + (align - 1)))"

definition is_power_of_two :: "nat \<Rightarrow> bool" where
  "is_power_of_two n \<longleftrightarrow> (\<exists>k\<in>{..<64}. n = 2 ^ k)"

definition span_len :: "slot_region \<Rightarrow> hook_span \<Rightarrow> nat" where
  "span_len R span = (case span of HookSlots \<Rightarrow> rg_addressable_size R | HookMapping \<Rightarrow> rg_total_size R)"

definition run_alloc_hooks :: "slot_region \<Rightarrow> hook_error list" where
  "run_alloc_hooks R = List.map_filter (\<lambda>h. mh_on_alloc h (span_len R (mh_span h))) (rg_hooks R)"

definition try_alloc_huge :: "bool \<Rightarrow> nat \<Rightarrow> nat \<Rightarrow> nat \<Rightarrow> nat \<Rightarrow> memory_hook list \<Rightarrow> slot_region option" where
  "try_alloc_huge huge slot_count slot_size addressable_size page_align hooks =
     (case mask_up addressable_size HUGE_PAGE_SIZE of
        None \<Rightarrow> None
      | Some alloc_size \<Rightarrow> if \<not> huge then None
          else Some \<lparr>rg_mem = (\<lambda>_. 0), rg_total_size = alloc_size, rg_addressable_size = addressable_size, rg_slot_size = slot_size,
            rg_page_align = page_align, rg_slot_count = slot_count, rg_uses_huge_pages = True, rg_hooks = hooks\<rparr>)"

text \<open>\<^verbatim>\<open>Layout::from_size_align\<close> refuses an alignment that is no power of two and a size that rounds up past \<^verbatim>\<open>isize::MAX\<close>.\<close>

definition layout_ok :: "nat \<Rightarrow> nat \<Rightarrow> bool" where
  "layout_ok bytes align \<longleftrightarrow> is_power_of_two align \<and> bytes \<le> 2 ^ 63 - align"

definition try_alloc_regular :: "bool \<Rightarrow> nat \<Rightarrow> nat \<Rightarrow> nat \<Rightarrow> nat \<Rightarrow> memory_hook list \<Rightarrow> ring_error + slot_region" where
  "try_alloc_regular granted slot_count slot_size addressable_size page_align hooks =
     (if \<not> layout_ok addressable_size page_align then Inl SizeOverflow
      else if \<not> granted then Inl AllocationFailed
      else Inr \<lparr>rg_mem = (\<lambda>_. 0), rg_total_size = addressable_size, rg_addressable_size = addressable_size, rg_slot_size = slot_size,
            rg_page_align = page_align, rg_slot_count = slot_count, rg_uses_huge_pages = False, rg_hooks = hooks\<rparr>)"

definition slot_region_new :: "int \<Rightarrow> bool \<Rightarrow> bool \<Rightarrow> nat \<Rightarrow> nat \<Rightarrow> nat option \<Rightarrow> memory_hook list
    \<Rightarrow> ring_error + slot_region \<times> hook_error list" where
  "slot_region_new page huge granted slot_count slot_size slot_align hooks =
     (if slot_count = 0 then Inl InvalidSlotCount
      else if slot_size = 0 then Inl InvalidSlotSize
      else if (\<exists>a\<in>set_option slot_align. \<not> is_power_of_two a) then Inl InvalidSlotAlign
      else
        let page_align = runtime_page_size page;
            stride_align = (case slot_align of None \<Rightarrow> page_align | Some a \<Rightarrow> a)
        in case mask_up slot_size stride_align of
             None \<Rightarrow> Inl SizeOverflow
           | Some aligned_slot_size \<Rightarrow>
               case checked_usize (slot_count * aligned_slot_size) of
                 None \<Rightarrow> Inl SizeOverflow
               | Some addressable_size \<Rightarrow>
                   case try_alloc_huge huge slot_count aligned_slot_size addressable_size page_align hooks of
                     Some R \<Rightarrow> Inr (R, run_alloc_hooks R)
                   | None \<Rightarrow>
                       case try_alloc_regular granted slot_count aligned_slot_size addressable_size page_align hooks of
                         Inl e \<Rightarrow> Inl e
                       | Inr R \<Rightarrow> Inr (R, run_alloc_hooks R))"

text \<open>A slot's address, as an offset from the base, unchecked and checked.\<close>

definition slot_ptr_unchecked :: "slot_region \<Rightarrow> nat \<Rightarrow> nat" where
  "slot_ptr_unchecked R index = index * rg_slot_size R"

definition region_slot_ptr :: "slot_region \<Rightarrow> nat \<Rightarrow> nat option" where
  "region_slot_ptr R index = do { assert_opt (index < rg_slot_count R); Some (slot_ptr_unchecked R index) }"

text \<open>
  Dropping a region hands every hook its span once more, last hook first, and gives the memory back. \<open>None\<close> is the panic of
  the invalid layout.
\<close>

datatype region_free = Munmap nat | Dealloc nat nat

definition region_drop :: "slot_region \<Rightarrow> ((memory_hook \<times> nat) list \<times> region_free) option" where
  "region_drop R = (let calls = map (\<lambda>h. (h, span_len R (mh_span h))) (rev (rg_hooks R)) in
     if rg_uses_huge_pages R then Some (calls, Munmap (rg_total_size R))
     else do {
       assert_opt (layout_ok (rg_addressable_size R) (rg_page_align R));
       Some (calls, Dealloc (rg_addressable_size R) (rg_page_align R)) })"

subsection \<open>The ring\<close>

record shared_ring =
  sr_region :: slot_region
  sr_free_list :: free_list

text \<open>\<open>None\<close> is the panic of \<^verbatim>\<open>FreeList::new\<close>.\<close>

definition ring_new_with_slot_align :: "int \<Rightarrow> bool \<Rightarrow> bool \<Rightarrow> nat \<Rightarrow> nat \<Rightarrow> nat option \<Rightarrow> memory_hook list
    \<Rightarrow> (ring_error + shared_ring \<times> hook_error list) option" where
  "ring_new_with_slot_align page huge granted slot_count slot_size slot_align hooks =
     (if slot_count = 0 then Some (Inl InvalidSlotCount)
      else if \<not> is_power_of_two slot_count then Some (Inl InvalidSlotCount)
      else if 2 ^ 32 - 1 < slot_count then Some (Inl InvalidSlotCount)
      else case slot_region_new page huge granted slot_count slot_size slot_align hooks of
          Inl e \<Rightarrow> Some (Inl e)
        | Inr (region, failures) \<Rightarrow> do {
            l \<leftarrow> free_list_new slot_count;
            Some (Inr (\<lparr>sr_region = region, sr_free_list = l\<rparr>, failures)) })"

definition ring_new :: "int \<Rightarrow> bool \<Rightarrow> bool \<Rightarrow> nat \<Rightarrow> nat \<Rightarrow> memory_hook list \<Rightarrow> (ring_error + shared_ring \<times> hook_error list) option" where
  "ring_new page huge granted slot_count slot_size hooks = ring_new_with_slot_align page huge granted slot_count slot_size None hooks"

definition ring_new_or_panic :: "int \<Rightarrow> bool \<Rightarrow> bool \<Rightarrow> nat \<Rightarrow> nat \<Rightarrow> memory_hook list \<Rightarrow> shared_ring option" where
  "ring_new_or_panic page huge granted slot_count slot_size hooks =
     (case ring_new page huge granted slot_count slot_size hooks of Some (Inr (ring, failures)) \<Rightarrow> Some ring | _ \<Rightarrow> None)"

definition acquire_index :: "shared_ring \<Rightarrow> (nat option \<times> shared_ring) option" where
  "acquire_index R = map_option (\<lambda>(i, l). (i, R\<lparr>sr_free_list := l\<rparr>)) (fl_acquire (sr_free_list R))"

definition release_index :: "nat \<Rightarrow> shared_ring \<Rightarrow> shared_ring option" where
  "release_index index R = map_option (\<lambda>l. R\<lparr>sr_free_list := l\<rparr>) (fl_release index (sr_free_list R))"

definition release_indices :: "nat list \<Rightarrow> shared_ring \<Rightarrow> shared_ring option" where
  "release_indices indices R = map_option (\<lambda>l. R\<lparr>sr_free_list := l\<rparr>) (fl_release_many indices (sr_free_list R))"

subsection \<open>Guards\<close>

record ring_slot =
  sl_index :: nat
  sl_data_len :: nat

definition acquire_slot :: "shared_ring \<Rightarrow> (ring_slot option \<times> shared_ring) option" where
  "acquire_slot R = do {
     (i, R) \<leftarrow> acquire_index R;
     Some (map_option (\<lambda>i. \<lparr>sl_index = i, sl_data_len = 0\<rparr>) i, R) }"

text \<open>\<^verbatim>\<open>SlotOverflow\<close> has the requested and the available bytes. The writer of \<open>write_with\<close> puts \<open>data\<close> at the slot's start.\<close>

type_synonym slot_overflow = "nat \<times> nat"

definition write_mem :: "slot_region \<Rightarrow> nat \<Rightarrow> u8 list \<Rightarrow> slot_region option" where
  "write_mem R base data = do {
     assert_opt (base + length data \<le> rg_total_size R);
     Some (R\<lparr>rg_mem := (\<lambda>a. if base \<le> a \<and> a < base + length data then data ! (a - base) else rg_mem R a)\<rparr>) }"

definition write_with :: "shared_ring \<Rightarrow> ring_slot \<Rightarrow> nat \<Rightarrow> u8 list \<Rightarrow> ((slot_overflow + unit) \<times> ring_slot \<times> shared_ring) option" where
  "write_with R slot n data =
     (if rg_slot_size (sr_region R) < n then Some (Inl (n, rg_slot_size (sr_region R)), slot, R)
      else do {
        region \<leftarrow> write_mem (sr_region R) (slot_ptr_unchecked (sr_region R) (sl_index slot)) data;
        Some (Inr (), slot\<lparr>sl_data_len := n\<rparr>, R\<lparr>sr_region := region\<rparr>) })"

definition copy_from_slice :: "shared_ring \<Rightarrow> ring_slot \<Rightarrow> u8 list \<Rightarrow> ((slot_overflow + unit) \<times> ring_slot \<times> shared_ring) option" where
  "copy_from_slice R slot data =
     (if rg_slot_size (sr_region R) < length data then Some (Inl (length data, rg_slot_size (sr_region R)), slot, R)
      else write_with R slot (length data) data)"

definition slot_as_slice :: "shared_ring \<Rightarrow> ring_slot \<Rightarrow> u8 list option" where
  "slot_as_slice R slot = (let base = slot_ptr_unchecked (sr_region R) (sl_index slot) in do {
     assert_opt (base + sl_data_len slot \<le> rg_total_size (sr_region R));
     Some (map (\<lambda>i. rg_mem (sr_region R) (base + i)) [0..<sl_data_len slot]) })"

definition slot_offset :: "shared_ring \<Rightarrow> ring_slot \<Rightarrow> nat" where
  "slot_offset R slot = sl_index slot * rg_slot_size (sr_region R)"

definition slot_drop :: "ring_slot \<Rightarrow> shared_ring \<Rightarrow> shared_ring option" where
  "slot_drop slot R = release_index (sl_index slot) R"

record detached_slot =
  ds_index :: nat
  ds_armed :: bool

definition slot_detach :: "ring_slot \<Rightarrow> detached_slot" where
  "slot_detach slot = \<lparr>ds_index = sl_index slot, ds_armed = True\<rparr>"

text \<open>\<open>panicking\<close> is \<^verbatim>\<open>std::thread::panicking\<close>; the forgotten slot's panic is \<open>None\<close>.\<close>

definition detached_drop :: "bool \<Rightarrow> detached_slot \<Rightarrow> shared_ring \<Rightarrow> shared_ring option" where
  "detached_drop panicking d R =
     (if \<not> ds_armed d then Some R else if panicking then release_index (ds_index d) R else None)"

text \<open>Both consume the value, whose drop then runs disarmed.\<close>

definition detached_release :: "detached_slot \<Rightarrow> shared_ring \<Rightarrow> shared_ring option" where
  "detached_release d R = (let d = d\<lparr>ds_armed := False\<rparr> in do { R \<leftarrow> release_index (ds_index d) R; detached_drop False d R })"

definition detached_reattach :: "detached_slot \<Rightarrow> shared_ring \<Rightarrow> (ring_slot \<times> shared_ring) option" where
  "detached_reattach d R = (let d = d\<lparr>ds_armed := False\<rparr> in do {
     R' \<leftarrow> detached_drop False d R;
     Some (\<lparr>sl_index = ds_index d, sl_data_len = 0\<rparr>, R') })"

end
