(* ===== verification/Free_List_Facts.thy ===== *)
theory Free_List_Facts
  imports Free_List
begin

unbundle bit_operations_syntax

section \<open>No slot is free twice, leased twice or lost\<close>

text \<open>
  \<open>fl_inv\<close>: every slot is in one place, on the free chain, leased to one thread, or moving in one thread's call; the free chain and
  the private chain of a release are linked through \<open>fl_next\<close>; a thread that loaded the head since its last exchange still has
  it right. A write goes to a slot that is moving in the writing thread, so it disturbs no one (\<open>inv_write\<close>).
\<close>

subsection \<open>Packed heads\<close>

lemma unpack_pack [simp]: "unpack_free_head (pack_free_head i t) = (i, t)"
proof -
  have "ucast (pack_free_head i t) = i" by (rule bit_eqI) (auto simp: pack_free_head_def bit_simps)
  moreover have "ucast (drop_bit 32 (pack_free_head i t)) = t"
    by (rule bit_eqI) (auto simp: pack_free_head_def bit_simps dest: bit_imp_le_length)
  ultimately show ?thesis by (simp add: unpack_free_head_def)
qed

lemma pack_unpack: "pack_free_head (fst (unpack_free_head v)) (snd (unpack_free_head v)) = v"
  by (rule bit_eqI) (auto simp: unpack_free_head_def pack_free_head_def bit_simps)

lemma head_differs: "snd (unpack_free_head v) \<noteq> t \<Longrightarrow> pack_free_head i t \<noteq> v"
  by auto

subsection \<open>Chains\<close>

fun links :: "u32 list \<Rightarrow> u32 \<Rightarrow> nat list \<Rightarrow> bool" where
  "links nx h [] \<longleftrightarrow> h = FREE_LIST_EMPTY"
| "links nx h (x # xs) \<longleftrightarrow> h = of_nat x \<and> x < length nx \<and> links nx (nx ! x) xs"

fun path :: "u32 list \<Rightarrow> nat list \<Rightarrow> bool" where
  "path nx (x # y # zs) \<longleftrightarrow> nx ! x = of_nat y \<and> path nx (y # zs)"
| "path nx _ \<longleftrightarrow> True"

lemma links_write: "x \<notin> set fs \<Longrightarrow> links (nx[x := v]) h fs = links nx h fs"
  by (induction fs arbitrary: h) auto

lemma path_write: "x \<notin> set cs \<Longrightarrow> path (nx[x := v]) cs = path nx cs"
  by (induction nx cs rule: path.induct) auto

lemma path_write_last: "distinct cs \<Longrightarrow> cs \<noteq> [] \<Longrightarrow> path (nx[last cs := v]) cs = path nx cs"
proof (induction nx cs rule: path.induct)
  case (1 nx x y zs)
  have "last (y # zs) \<in> set (y # zs)" by (rule last_in_set) simp
  then have "x \<noteq> last (y # zs)" using 1(2) by auto
  then show ?case using 1 by simp
qed auto

lemma path_snoc: "cs \<noteq> [] \<Longrightarrow> path nx (cs @ [i]) \<longleftrightarrow> path nx cs \<and> nx ! last cs = of_nat i"
  by (induction nx cs rule: path.induct) auto

lemma path_links:
  "path nx cs \<Longrightarrow> cs \<noteq> [] \<Longrightarrow> \<forall>i\<in>set cs. i < length nx \<Longrightarrow> links nx (nx ! last cs) fs \<Longrightarrow> links nx (of_nat (hd cs)) (cs @ fs)"
  by (induction nx cs rule: path.induct) auto

subsection \<open>The invariant\<close>

datatype place = Free | Leased nat | Moving nat

definition loaded :: "u64 \<Rightarrow> nat \<Rightarrow> nat \<Rightarrow> u64 \<Rightarrow> bool" where
  "loaded head muts stamp state \<longleftrightarrow> stamp \<le> muts \<and> snd (unpack_free_head state) = of_nat stamp \<and> (stamp = muts \<longrightarrow> state = head)"

fun pc_ok :: "u32 list \<Rightarrow> u64 \<Rightarrow> nat \<Rightarrow> nat \<Rightarrow> fl_pc \<Rightarrow> nat list \<Rightarrow> bool" where
  "pc_ok nx head muts stamp (AcqNext state) pv \<longleftrightarrow> pv = [] \<and> loaded head muts stamp state \<and> fst (unpack_free_head state) \<noteq> FREE_LIST_EMPTY \<and>
     unat (fst (unpack_free_head state)) < length nx"
| "pc_ok nx head muts stamp (AcqCas state nxt) pv \<longleftrightarrow> pv = [] \<and> loaded head muts stamp state \<and>
     fst (unpack_free_head state) \<noteq> FREE_LIST_EMPTY \<and> (stamp = muts \<longrightarrow> nxt = nx ! unat (fst (unpack_free_head state)))"
| "pc_ok nx head muts stamp (AcqMark h) pv \<longleftrightarrow> pv = [unat h]"
| "pc_ok nx head muts stamp (AcqDone (Some i)) pv \<longleftrightarrow> pv = [i] \<and> nx ! i = FREE_LIST_LEASED"
| "pc_ok nx head muts stamp (RelSwap todo first prev) pv \<longleftrightarrow>
     (\<exists>cs. pv = todo @ cs \<and> path nx cs \<and> (\<forall>i\<in>set todo. nx ! i = FREE_LIST_LEASED) \<and>
       first = (if cs = [] then None else Some (hd cs)) \<and> prev = (if cs = [] then None else Some (last cs)))"
| "pc_ok nx head muts stamp (RelLink i todo first p) pv \<longleftrightarrow>
     (\<exists>cs. cs \<noteq> [] \<and> pv = i # todo @ cs \<and> path nx cs \<and> (\<forall>i\<in>set todo. nx ! i = FREE_LIST_LEASED) \<and> first = Some (hd cs) \<and> p = last cs)"
| "pc_ok nx head muts stamp (RelLoad first tail) pv \<longleftrightarrow> pv \<noteq> [] \<and> path nx pv \<and> first = hd pv \<and> tail = last pv"
| "pc_ok nx head muts stamp (RelStore first tail state) pv \<longleftrightarrow> pv \<noteq> [] \<and> path nx pv \<and> first = hd pv \<and> tail = last pv \<and> loaded head muts stamp state"
| "pc_ok nx head muts stamp (RelCas first tail state) pv \<longleftrightarrow> pv \<noteq> [] \<and> path nx pv \<and> first = hd pv \<and> tail = last pv \<and>
     loaded head muts stamp state \<and> nx ! tail = fst (unpack_free_head state)"
| "pc_ok nx head muts stamp Panicked pv \<longleftrightarrow> False"
| "pc_ok nx head muts stamp _ pv \<longleftrightarrow> pv = []"

definition fl_inv_at :: "fl_system \<Rightarrow> nat list \<Rightarrow> (nat \<Rightarrow> nat list) \<Rightarrow> (nat \<Rightarrow> place) \<Rightarrow> bool" where
  "fl_inv_at s fs pv who \<longleftrightarrow>
     (let l = fs_list s; nx = fl_next l; n = fl_slot_count l in
      length nx = n \<and> n \<le> 2 ^ 32 - 2 \<and> snd (unpack_free_head (fl_head l)) = of_nat (fs_muts s) \<and>
      links nx (fst (unpack_free_head (fl_head l))) fs \<and> distinct fs \<and> set fs = {i. i < n \<and> who i = Free} \<and>
      (\<forall>t. distinct (pv t) \<and> set (pv t) = {i. i < n \<and> who i = Moving t}) \<and>
      (\<forall>t. fs_owned s t = {i. i < n \<and> who i = Leased t}) \<and> (\<forall>t. \<forall>i\<in>fs_owned s t. nx ! i = FREE_LIST_LEASED) \<and>
      (\<forall>t. pc_ok nx (fl_head l) (fs_muts s) (fs_stamp s t) (fs_pc s t) (pv t)))"

definition fl_inv :: "fl_system \<Rightarrow> bool" where
  "fl_inv s \<longleftrightarrow> (\<exists>fs pv who. fl_inv_at s fs pv who)"

lemma fl_invD:
  assumes "fl_inv_at s fs pv who"
  shows "length (fl_next (fs_list s)) = fl_slot_count (fs_list s)" and "fl_slot_count (fs_list s) \<le> 2 ^ 32 - 2"
    and "snd (unpack_free_head (fl_head (fs_list s))) = of_nat (fs_muts s)"
    and "links (fl_next (fs_list s)) (fst (unpack_free_head (fl_head (fs_list s)))) fs" and "distinct fs"
    and "i \<in> set fs \<longleftrightarrow> i < fl_slot_count (fs_list s) \<and> who i = Free"
    and "distinct (pv t)" and "i \<in> set (pv t) \<longleftrightarrow> i < fl_slot_count (fs_list s) \<and> who i = Moving t"
    and "i \<in> fs_owned s t \<longleftrightarrow> i < fl_slot_count (fs_list s) \<and> who i = Leased t"
    and "i \<in> fs_owned s t \<Longrightarrow> fl_next (fs_list s) ! i = FREE_LIST_LEASED"
    and "pc_ok (fl_next (fs_list s)) (fl_head (fs_list s)) (fs_muts s) (fs_stamp s t) (fs_pc s t) (pv t)"
  using assms unfolding fl_inv_at_def Let_def by blast+

lemma small_index: "i < 2 ^ 32 - 2 \<Longrightarrow> unat (of_nat i :: u32) = i" "i < 2 ^ 32 - 2 \<Longrightarrow> (of_nat i :: u32) \<noteq> FREE_LIST_EMPTY"
proof -
  assume i: "i < 2 ^ 32 - 2"
  then show u: "unat (of_nat i :: u32) = i" by (simp add: unat_of_nat)
  have "unat FREE_LIST_EMPTY = 2 ^ 32 - 1" by (simp add: FREE_LIST_EMPTY_def)
  then have "unat (of_nat i :: u32) \<noteq> unat FREE_LIST_EMPTY" using u i by simp
  then show "(of_nat i :: u32) \<noteq> FREE_LIST_EMPTY" by metis
qed

lemma pc_ok_write:
  assumes "pc_ok nx head m st pc pv" and "x \<notin> set pv" and "x \<notin> set fs" and "links nx (fst (unpack_free_head head)) fs" and "length nx \<le> 2 ^ 32 - 2"
  shows "pc_ok (nx[x := v]) head m st pc pv"
proof (cases pc)
  case (AcqCas state nxt)
  have "x \<noteq> unat (fst (unpack_free_head state))" if "st = m"
  proof -
    have "state = head" "fst (unpack_free_head head) \<noteq> FREE_LIST_EMPTY" using assms(1) AcqCas that by (auto simp: loaded_def)
    then show ?thesis using assms(3-5) small_index(1) by (cases fs) auto
  qed
  then show ?thesis using assms(1) AcqCas by auto
next
  case (AcqDone r)
  then show ?thesis using assms(1,2) by (cases r) auto
next
  case (RelSwap todo first prev)
  then obtain cs where cs: "pv = todo @ cs" "path nx cs" "\<forall>i\<in>set todo. nx ! i = FREE_LIST_LEASED"
    "first = (if cs = [] then None else Some (hd cs))" "prev = (if cs = [] then None else Some (last cs))" using assms(1) by auto
  then have "x \<notin> set todo" "x \<notin> set cs" using assms(2) by auto
  then have "path (nx[x := v]) cs" "\<forall>i\<in>set todo. nx[x := v] ! i = FREE_LIST_LEASED"
    using cs by (simp add: path_write, metis nth_list_update_neq)
  then show ?thesis using cs RelSwap by auto
next
  case (RelLink i todo first p)
  then obtain cs where cs: "cs \<noteq> []" "pv = i # todo @ cs" "path nx cs" "\<forall>i\<in>set todo. nx ! i = FREE_LIST_LEASED" "first = Some (hd cs)" "p = last cs"
    using assms(1) by auto
  then have "x \<notin> set todo" "x \<notin> set cs" using assms(2) by auto
  then have "path (nx[x := v]) cs" "\<forall>i\<in>set todo. nx[x := v] ! i = FREE_LIST_LEASED"
    using cs by (simp add: path_write, metis nth_list_update_neq)
  then show ?thesis using cs RelLink by auto
next
  case (RelCas first tail state)
  then have "pv \<noteq> []" "tail = last pv" using assms(1) by simp_all
  then have "x \<noteq> tail" using assms(2) last_in_set by metis
  then show ?thesis using assms(1,2) RelCas by (auto simp: path_write)
qed (use assms(1,2) in \<open>auto simp: path_write nth_list_update\<close>)

lemma pc_ok_exchange: "pc_ok nx head m st pc pv \<Longrightarrow> pc_ok nx head' (Suc m) st pc pv"
  by (cases "(nx, head, m, st, pc, pv)" rule: pc_ok.cases) (auto simp: loaded_def)

subsection \<open>Every atomic operation keeps the invariant\<close>

lemma inv_read:
  assumes i: "fl_inv_at s fs pv who"
    and pc: "pc_ok (fl_next (fs_list s)) (fl_head (fs_list s)) (fs_muts s) (if loads_head (fs_pc s t) then fs_muts s else fs_stamp s t) pc' (pv t)"
  shows "fl_inv_at (fl_internal s t (fs_list s) pc') fs pv who"
  using i pc unfolding fl_inv_at_def Let_def by (auto simp: fl_internal_def)

lemma inv_write:
  assumes i: "fl_inv_at s fs pv who" and x: "x \<in> set (pv t)" and ld: "\<not> loads_head (fs_pc s t)"
    and pc: "pc_ok ((fl_next (fs_list s))[x := v]) (fl_head (fs_list s)) (fs_muts s) (fs_stamp s t) pc' pv'"
    and pv': "set pv' = set (pv t)" "distinct pv'"
  shows "fl_inv_at (fl_internal s t ((fs_list s)\<lparr>fl_next := (fl_next (fs_list s))[x := v]\<rparr>) pc') fs (pv(t := pv')) who"
proof -
  note I = fl_invD [OF i]
  let ?nx = "fl_next (fs_list s)"
  have w: "who x = Moving t" using I(8) x by simp
  then have xf: "x \<notin> set fs" using I(6) by simp
  have "x \<notin> set (pv u)" if "u \<noteq> t" for u using I(8) [of x u] w that by simp
  then have "pc_ok (?nx[x := v]) (fl_head (fs_list s)) (fs_muts s) (fs_stamp s u) (fs_pc s u) (pv u)" if "u \<noteq> t" for u
    using pc_ok_write [OF I(11) _ xf I(4)] I(1,2) that by simp
  moreover have "?nx[x := v] ! j = FREE_LIST_LEASED" if "j \<in> fs_owned s u" for j u
    using I(9) [of j u] I(10) [OF that] w that by (cases "j = x") simp_all
  ultimately show ?thesis using i pc pv' ld xf
    unfolding fl_inv_at_def Let_def by (auto simp: fl_internal_def links_write)
qed

text \<open>A head that still has the loaded value has not moved.\<close>

lemma in_window_fresh:
  assumes i: "fl_inv_at s fs pv who" and w: "fs_muts s < fs_stamp s t + 2 ^ 32"
    and l: "loaded (fl_head (fs_list s)) (fs_muts s) (fs_stamp s t) state" and e: "fl_head (fs_list s) = state"
  shows "fs_stamp s t = fs_muts s"
proof -
  let ?a = "fs_stamp s t" and ?b = "fs_muts s"
  have "(of_nat ?a :: u32) = of_nat ?b" using fl_invD(3) [OF i] l e by (simp add: loaded_def)
  then have "?a mod 2 ^ 32 = ?b mod 2 ^ 32" by (simp add: word_of_nat_eq_iff take_bit_eq_mod)
  moreover have "?a \<le> ?b" "?b - ?a < 2 ^ 32" using l w by (simp_all add: loaded_def)
  ultimately have "2 ^ 32 dvd ?b - ?a" using mod_eq_dvd_iff_nat [of ?a ?b "2 ^ 32"] by simp
  then have "?b - ?a = 0" using \<open>?b - ?a < 2 ^ 32\<close> nat_dvd_not_less by blast
  then show ?thesis using \<open>?a \<le> ?b\<close> by simp
qed

lemma tag_moves: "fl_inv_at s fs pv who \<Longrightarrow> pack_free_head i (snd (unpack_free_head (fl_head (fs_list s))) + 1) \<noteq> fl_head (fs_list s)"
  by (rule head_differs) simp

lemma inv_take:
  assumes i: "fl_inv_at s fs pv who" and w: "fs_muts s < fs_stamp s t + 2 ^ 32" and p: "fs_pc s t = AcqCas state nxt" and e: "fl_head (fs_list s) = state"
  shows "\<exists>fs pv who. fl_inv_at (fl_internal s t ((fs_list s)\<lparr>fl_head := pack_free_head nxt (snd (unpack_free_head state) + 1)\<rparr>)
    (AcqMark (fst (unpack_free_head state)))) fs pv who"
proof -
  note I = fl_invD [OF i]
  have P: "pv t = []" "loaded (fl_head (fs_list s)) (fs_muts s) (fs_stamp s t) state" "fst (unpack_free_head state) \<noteq> FREE_LIST_EMPTY"
    "fs_stamp s t = fs_muts s \<Longrightarrow> nxt = fl_next (fs_list s) ! unat (fst (unpack_free_head state))" using I(11) [of t] p by auto
  have fresh: "fs_stamp s t = fs_muts s" by (rule in_window_fresh [OF i w P(2) e])
  obtain x fs' where fs: "fs = x # fs'" "fst (unpack_free_head state) = of_nat x" "x < fl_slot_count (fs_list s)"
    "links (fl_next (fs_list s)) (fl_next (fs_list s) ! x) fs'" using I(4) I(1) P(3) e by (cases fs) auto
  have ux: "unat (of_nat x :: u32) = x" using fs(3) I(2) by (intro small_index) simp
  have nxt: "nxt = fl_next (fs_list s) ! x" using P(4) [OF fresh] fs(2) ux by simp
  have wx: "who x = Free" using I(6) [of x] fs(1) by simp
  let ?who = "who(x := Moving t)" and ?s = "fl_internal s t ((fs_list s)\<lparr>fl_head := pack_free_head nxt (snd (unpack_free_head state) + 1)\<rparr>) (AcqMark (of_nat x))"
  have hd: "pack_free_head nxt (snd (unpack_free_head state) + 1) \<noteq> fl_head (fs_list s)" using tag_moves [OF i] e by simp
  have sel: "fs_list ?s = (fs_list s)\<lparr>fl_head := pack_free_head nxt (snd (unpack_free_head state) + 1)\<rparr>" "fs_muts ?s = Suc (fs_muts s)"
    "fs_pc ?s = (fs_pc s)(t := AcqMark (of_nat x))" "fs_owned ?s = fs_owned s" "fs_stamp ?s = fs_stamp s"
    using hd p by (simp_all add: fl_internal_def)
  have "set fs' = {j. j < fl_slot_count (fs_list s) \<and> ?who j = Free}" using I(5,6) fs(1) by (auto simp: set_eq_iff)
  moreover have "set ((pv(t := [x])) u) = {j. j < fl_slot_count (fs_list s) \<and> ?who j = Moving u}" for u
    using I(8) [of _ u] I(8) [of _ t] P(1) wx fs(3) by (auto simp: set_eq_iff)
  moreover have "fs_owned s u = {j. j < fl_slot_count (fs_list s) \<and> ?who j = Leased u}" for u
    using I(9) [of _ u] wx by (auto simp: set_eq_iff)
  moreover have "pc_ok (fl_next (fs_list s)) h (Suc (fs_muts s)) (fs_stamp s u) (((fs_pc s)(t := AcqMark (of_nat x))) u) ((pv(t := [x])) u)" for u h
    using pc_ok_exchange [OF I(11) [of u]] ux by simp
  moreover have "snd (unpack_free_head state) + 1 = (of_nat (Suc (fs_muts s)) :: u32)" using I(3) e by (simp add: add.commute)
  ultimately have "fl_inv_at ?s fs' (pv(t := [x])) ?who"
    unfolding fl_inv_at_def Let_def sel using I(1,2,5,7,10) fs(1,4) nxt by simp
  then show ?thesis using fs(2) by auto
qed

lemma inv_put:
  assumes i: "fl_inv_at s fs pv who" and w: "fs_muts s < fs_stamp s t + 2 ^ 32" and p: "fs_pc s t = RelCas first tail state" and e: "fl_head (fs_list s) = state"
  shows "\<exists>fs pv who. fl_inv_at (fl_internal s t ((fs_list s)\<lparr>fl_head := pack_free_head (of_nat first) (snd (unpack_free_head state) + 1)\<rparr>) RelDone) fs pv who"
proof -
  note I = fl_invD [OF i]
  let ?cs = "pv t" and ?nx = "fl_next (fs_list s)"
  have P: "?cs \<noteq> []" "path ?nx ?cs" "first = hd ?cs" "loaded (fl_head (fs_list s)) (fs_muts s) (fs_stamp s t) state"
    "?nx ! last ?cs = fst (unpack_free_head state)" using I(11) [of t] p by auto
  have "\<forall>i\<in>set ?cs. i < length ?nx" using I(1) I(8) [of _ t] by simp
  then have ln: "links ?nx (of_nat first) (?cs @ fs)" using path_links [OF P(2,1)] I(4) P(3,5) e by simp
  have mv: "who j = Moving t" if "j \<in> set ?cs" for j using I(8) [of j t] that by simp
  let ?who = "\<lambda>j. if j \<in> set ?cs then Free else who j"
  let ?s = "fl_internal s t ((fs_list s)\<lparr>fl_head := pack_free_head (of_nat first) (snd (unpack_free_head state) + 1)\<rparr>) RelDone"
  have hd: "pack_free_head (of_nat first) (snd (unpack_free_head state) + 1) \<noteq> fl_head (fs_list s)" using tag_moves [OF i] e by simp
  have sel: "fs_list ?s = (fs_list s)\<lparr>fl_head := pack_free_head (of_nat first) (snd (unpack_free_head state) + 1)\<rparr>" "fs_muts ?s = Suc (fs_muts s)"
    "fs_pc ?s = (fs_pc s)(t := RelDone)" "fs_owned ?s = fs_owned s" "fs_stamp ?s = fs_stamp s"
    using hd p by (simp_all add: fl_internal_def)
  have "set (?cs @ fs) = {j. j < fl_slot_count (fs_list s) \<and> ?who j = Free}" using I(6) I(8) [of _ t] by (auto simp: set_eq_iff)
  moreover have "distinct (?cs @ fs)" using I(5) I(7) [of t] I(6) mv by fastforce
  moreover have "set ((pv(t := [])) u) = {j. j < fl_slot_count (fs_list s) \<and> ?who j = Moving u}" for u
    using I(8) [of _ u] I(8) [of _ t] mv by (auto simp: set_eq_iff)
  moreover have "fs_owned s u = {j. j < fl_slot_count (fs_list s) \<and> ?who j = Leased u}" for u
    using I(9) [of _ u] mv by (auto simp: set_eq_iff)
  moreover have "pc_ok ?nx h (Suc (fs_muts s)) (fs_stamp s u) (((fs_pc s)(t := RelDone)) u) ((pv(t := [])) u)" for u h
    using pc_ok_exchange [OF I(11) [of u]] by simp
  moreover have "snd (unpack_free_head state) + 1 = (of_nat (Suc (fs_muts s)) :: u32)" using I(3) e by (simp add: add.commute)
  ultimately have "fl_inv_at ?s (?cs @ fs) (pv(t := [])) ?who"
    unfolding fl_inv_at_def Let_def sel using I(1,2,7,10) ln by simp
  then show ?thesis by blast
qed

text \<open>What the next operation of a thread finds, and that it can be done.\<close>

lemma atomic_ok:
  assumes i: "fl_inv_at s fs pv who" and w: "holds_head (fs_pc s t) \<Longrightarrow> fl_head l \<noteq> fl_head (fs_list s) \<Longrightarrow> fs_muts s < fs_stamp s t + 2 ^ 32"
    and a: "fl_atomic weak (fs_list s) (fs_pc s t) = Some (l, pc)"
  shows "fl_inv (fl_internal s t l pc)"
proof -
  note I = fl_invD [OF i]
  let ?l = "fs_list s" and ?nx = "fl_next (fs_list s)"
  have rd: "fl_inv (fl_internal s t l pc)" if "l = ?l"
    "pc_ok ?nx (fl_head ?l) (fs_muts s) (if loads_head (fs_pc s t) then fs_muts s else fs_stamp s t) pc (pv t)"
    using inv_read [OF i that(2)] that(1) unfolding fl_inv_def by blast
  have wr: "fl_inv (fl_internal s t l pc)" if "l = ?l\<lparr>fl_next := ?nx[x := v]\<rparr>" "x \<in> set (pv t)" "\<not> loads_head (fs_pc s t)"
    "pc_ok (?nx[x := v]) (fl_head ?l) (fs_muts s) (fs_stamp s t) pc pv'" "set pv' = set (pv t)" "distinct pv'" for x v pv'
    using inv_write [OF i that(2-6)] that(1) unfolding fl_inv_def by blast
  have bound: "x < length ?nx" if "x \<in> set (pv t)" for x using I(1) I(8) [of x t] that by simp
  have now: "loaded (fl_head ?l) (fs_muts s) (fs_muts s) (fl_head ?l)" using I(3) by (simp add: loaded_def)
  note pcI = I(11) [of t]
  show ?thesis
  proof (cases "fs_pc s t")
    case AcqLoad
    have "unat (fst (unpack_free_head (fl_head ?l))) < length ?nx" if "fst (unpack_free_head (fl_head ?l)) \<noteq> FREE_LIST_EMPTY"
      using I(4) that small_index(1) I(1,2) by (cases fs) auto
    then show ?thesis using AcqLoad a pcI now by (intro rd) (auto simp: Let_def split: if_splits)
  next
    case (AcqNext state)
    then have st: "fst (unpack_free_head state) \<noteq> FREE_LIST_EMPTY" "loaded (fl_head ?l) (fs_muts s) (fs_stamp s t) state" "pv t = []" using pcI by auto
    show ?thesis using a AcqNext st by (intro rd) (auto simp: nth_opt_def split: if_splits)
  next
    case (AcqCas state nxt)
    show ?thesis
    proof (cases "fl_head ?l = state \<and> \<not> weak")
      case True
      then show ?thesis using inv_take [OF i _ AcqCas] w a AcqCas tag_moves [OF i] unfolding fl_inv_def by (auto simp: split_def Let_def)
    next
      case False
      then show ?thesis using a AcqCas pcI by (intro rd) (auto simp: split_def Let_def)
    qed
  next
    case (AcqMark h)
    then have "pv t = [unat h]" "unat h < length ?nx" using pcI bound by auto
    then show ?thesis using a AcqMark by (intro wr [of "unat h" FREE_LIST_LEASED "[unat h]"]) (auto simp: set_opt_def)
  next
    case (RelSwap todo first prev)
    then obtain cs where cs: "pv t = todo @ cs" "path ?nx cs" "\<forall>i\<in>set todo. ?nx ! i = FREE_LIST_LEASED"
      "first = (if cs = [] then None else Some (hd cs))" "prev = (if cs = [] then None else Some (last cs))" using pcI by auto
    show ?thesis
    proof (cases todo)
      case Nil
      then show ?thesis using a RelSwap cs by (intro rd) (auto split: if_splits)
    next
      case (Cons j js)
      have d: "distinct (j # js @ cs)" using I(7) [of t] cs(1) Cons by simp
      have j: "j < fl_slot_count ?l" "j < length ?nx" "?nx ! j = FREE_LIST_LEASED" using bound I(1) cs(1,3) Cons by auto
      have js: "\<forall>i\<in>set js. ?nx[j := FREE_LIST_EMPTY] ! i = FREE_LIST_LEASED" using cs(3) d Cons by (simp, metis nth_list_update_neq)
      have pt: "path (?nx[j := FREE_LIST_EMPTY]) cs" using cs(2) d by (simp add: path_write)
      have l: "l = ?l\<lparr>fl_next := ?nx[j := FREE_LIST_EMPTY]\<rparr>" using a j RelSwap Cons by (auto simp: nth_opt_def set_opt_def Let_def split: option.splits)
      show ?thesis
      proof (cases "cs = []")
        case True
        then have "pc = RelSwap js (Some j) (Some j)" using a j RelSwap Cons cs(5) by (simp add: nth_opt_def set_opt_def)
        then show ?thesis using True l js d cs(1) Cons RelSwap
          by (intro wr [of j FREE_LIST_EMPTY "js @ [j]"]) (auto intro: exI [of _ "[j]"])
      next
        case False
        then have "pc = RelLink j js first (last cs)" using a j RelSwap Cons cs(5) by (simp add: nth_opt_def set_opt_def)
        then show ?thesis using False l js pt d cs(1,4) Cons RelSwap
          by (intro wr [of j FREE_LIST_EMPTY "j # js @ cs"]) auto
      qed
    qed
  next
    case (RelLink j js first p)
    then obtain cs where cs: "cs \<noteq> []" "pv t = j # js @ cs" "path ?nx cs" "\<forall>i\<in>set js. ?nx ! i = FREE_LIST_LEASED"
      "first = Some (hd cs)" "p = last cs" using pcI by auto
    have d: "distinct (j # js @ cs)" using I(7) [of t] cs(2) by simp
    have p: "p \<in> set cs" using cs(1,6) by simp
    have js: "\<forall>i\<in>set js. ?nx[p := of_nat j] ! i = FREE_LIST_LEASED" using cs(4) d p by (simp, metis disjoint_iff nth_list_update_neq)
    have pb: "p < length ?nx" using bound p cs(2) by simp
    have pt: "path (?nx[p := of_nat j]) (cs @ [j])"
      using cs(1,3,6) d pb path_write_last [of cs ?nx "of_nat j"] by (simp add: path_snoc)
    have "l = ?l\<lparr>fl_next := ?nx[p := of_nat j]\<rparr>" "pc = RelSwap js first (Some j)" using a RelLink pb by (auto simp: set_opt_def)
    then show ?thesis using js pt d cs(1,2,5) p RelLink
      by (intro wr [of p "of_nat j" "js @ cs @ [j]"]) (auto intro: exI [of _ "cs @ [j]"])
  next
    case (RelLoad first tail)
    then show ?thesis using a pcI now by (intro rd) auto
  next
    case (RelStore first tail state)
    then have P: "pv t \<noteq> []" "path ?nx (pv t)" "first = hd (pv t)" "tail = last (pv t)" "loaded (fl_head ?l) (fs_muts s) (fs_stamp s t) state" using pcI by auto
    have tb: "tail \<in> set (pv t)" "tail < length ?nx" using P(1,4) bound by auto
    have "l = ?l\<lparr>fl_next := ?nx[tail := fst (unpack_free_head state)]\<rparr>" "pc = RelCas first tail state" using a RelStore tb by (auto simp: set_opt_def)
    then show ?thesis using P tb RelStore I(7) [of t] path_write_last [of "pv t" ?nx]
      by (intro wr [of tail "fst (unpack_free_head state)" "pv t"]) auto
  next
    case (RelCas first tail state)
    show ?thesis
    proof (cases "fl_head ?l = state \<and> \<not> weak")
      case True
      then show ?thesis using inv_put [OF i _ RelCas] w a RelCas tag_moves [OF i] unfolding fl_inv_def by (auto simp: split_def Let_def)
    next
      case False
      then show ?thesis using a RelCas pcI by (intro rd) (auto simp: split_def Let_def)
    qed
  qed (use a in auto)
qed

subsection \<open>Runs\<close>

text \<open>A call, a return or a hand-over moves slots between places; \<open>frame\<close> is what it must give.\<close>

lemma inv_frame:
  assumes i: "fl_inv_at s fs pv who"
    and set: "\<And>u. set (pv' u) = {j. j < fl_slot_count (fs_list s) \<and> who' j = Moving u}" "\<And>u. distinct (pv' u)"
      "\<And>u. ow' u = {j. j < fl_slot_count (fs_list s) \<and> who' j = Leased u}" "\<And>j. who' j = Free \<longleftrightarrow> who j = Free"
    and lease: "\<And>u j. j \<in> ow' u \<Longrightarrow> fl_next (fs_list s) ! j = FREE_LIST_LEASED"
    and pc: "\<And>u. pc_ok (fl_next (fs_list s)) (fl_head (fs_list s)) (fs_muts s) (fs_stamp s u) (pc' u) (pv' u)"
  shows "fl_inv (s\<lparr>fs_pc := pc', fs_owned := ow'\<rparr>)"
proof -
  have "fl_inv_at (s\<lparr>fs_pc := pc', fs_owned := ow'\<rparr>) fs pv' who'"
    using i set lease pc unfolding fl_inv_at_def Let_def by simp
  then show ?thesis unfolding fl_inv_def by blast
qed

lemma step_ok:
  assumes "fl_step s s'" and "fl_inv s" and "in_window s"
  shows "fl_inv s'"
  using assms(1)
proof cases
  case (atomic weak t l pc)
  obtain fs pv who where i: "fl_inv_at s fs pv who" using assms(2) unfolding fl_inv_def by blast
  show ?thesis unfolding atomic(1) by (rule atomic_ok [OF i _ atomic(2)]) (use assms(3) in \<open>simp add: in_window_def\<close>)
next
  case (call_acquire t)
  obtain fs pv who where i: "fl_inv_at s fs pv who" using assms(2) unfolding fl_inv_def by blast
  note I = fl_invD [OF i]
  have p: "pv t = []" using I(11) [of t] call_acquire(2) by simp
  have "fl_inv (s\<lparr>fs_pc := (fs_pc s)(t := AcqLoad), fs_owned := fs_owned s\<rparr>)"
    by (rule inv_frame [OF i, of pv who]) (use I(7-11) p in auto)
  then show ?thesis using call_acquire(1) by simp
next
  case (call_release t ix)
  obtain fs pv who where i: "fl_inv_at s fs pv who" using assms(2) unfolding fl_inv_def by blast
  note I = fl_invD [OF i]
  have p: "pv t = []" using I(11) [of t] call_release(2) by simp
  have l: "j < fl_slot_count (fs_list s) \<and> who j = Leased t" "fl_next (fs_list s) ! j = FREE_LIST_LEASED" if "j \<in> set ix" for j
    using I(9,10) [of j t] call_release(3) that by blast+
  let ?who = "\<lambda>j. if j \<in> set ix then Moving t else who j"
  have "fl_inv (s\<lparr>fs_pc := (fs_pc s)(t := RelSwap ix None None), fs_owned := (fs_owned s)(t := fs_owned s t - set ix)\<rparr>)"
  proof (rule inv_frame [OF i, of "pv(t := ix)" ?who])
    show "set ((pv(t := ix)) u) = {j. j < fl_slot_count (fs_list s) \<and> ?who j = Moving u}" for u
      using I(8) [of _ u] I(8) [of _ t] p l by (auto simp: set_eq_iff)
    show "((fs_owned s)(t := fs_owned s t - set ix)) u = {j. j < fl_slot_count (fs_list s) \<and> ?who j = Leased u}" for u
      using I(9) [of _ u] l(1) by (auto simp: set_eq_iff)
    show "?who j = Free \<longleftrightarrow> who j = Free" for j using l(1) by auto
  qed (use I(7,10,11) call_release(4) l(2) in \<open>auto split: if_splits\<close>)
  then show ?thesis using call_release(1) by simp
next
  case (acquired t r)
  obtain fs pv who where i: "fl_inv_at s fs pv who" using assms(2) unfolding fl_inv_def by blast
  note I = fl_invD [OF i]
  show ?thesis
  proof (cases r)
    case None
    have "fl_inv (s\<lparr>fs_pc := (fs_pc s)(t := Idle), fs_owned := fs_owned s\<rparr>)"
      by (rule inv_frame [OF i, of pv who]) (use I(7-11) I(11) [of t] acquired(2) None in auto)
    then show ?thesis using acquired(1) None by (simp add: fun_upd_idem)
  next
    case (Some x)
    have p: "pv t = [x]" "fl_next (fs_list s) ! x = FREE_LIST_LEASED" using I(11) [of t] acquired(2) Some by auto
    have w: "x < fl_slot_count (fs_list s)" "who x = Moving t" using I(8) [of x t] p(1) by auto
    have "fl_inv (s\<lparr>fs_pc := (fs_pc s)(t := Idle), fs_owned := (fs_owned s)(t := fs_owned s t \<union> set_option r)\<rparr>)"
    proof (rule inv_frame [OF i, of "pv(t := [])" "who(x := Leased t)"])
      show "set ((pv(t := [])) u) = {j. j < fl_slot_count (fs_list s) \<and> (who(x := Leased t)) j = Moving u}" for u
        using I(8) [of _ u] I(8) [of _ t] p w by (auto simp: set_eq_iff)
      show "((fs_owned s)(t := fs_owned s t \<union> set_option r)) u = {j. j < fl_slot_count (fs_list s) \<and> (who(x := Leased t)) j = Leased u}" for u
        using I(9) [of _ u] w Some by (auto simp: set_eq_iff)
    qed (use I(7,10,11) p w Some in \<open>auto split: if_splits\<close>)
    then show ?thesis using acquired(1) by simp
  qed
next
  case (released t)
  obtain fs pv who where i: "fl_inv_at s fs pv who" using assms(2) unfolding fl_inv_def by blast
  note I = fl_invD [OF i]
  have "fl_inv (s\<lparr>fs_pc := (fs_pc s)(t := Idle), fs_owned := fs_owned s\<rparr>)"
    by (rule inv_frame [OF i, of pv who]) (use I(7-11) I(11) [of t] released(2) in auto)
  then show ?thesis using released(1) by simp
next
  case (hand_over x t u)
  obtain fs pv who where i: "fl_inv_at s fs pv who" using assms(2) unfolding fl_inv_def by blast
  note I = fl_invD [OF i]
  have w: "x < fl_slot_count (fs_list s)" "who x = Leased t" "fl_next (fs_list s) ! x = FREE_LIST_LEASED"
    using I(9,10) [of x t] hand_over(2) by blast+
  have "fl_inv (s\<lparr>fs_pc := fs_pc s, fs_owned := (fs_owned s)(t := fs_owned s t - {x}, u := insert x (fs_owned s u))\<rparr>)"
  proof (rule inv_frame [OF i, of pv "who(x := Leased u)"])
    show "set (pv v) = {j. j < fl_slot_count (fs_list s) \<and> (who(x := Leased u)) j = Moving v}" for v
      using I(8) [of _ v] w by (auto simp: set_eq_iff)
    show "((fs_owned s)(t := fs_owned s t - {x}, u := insert x (fs_owned s u))) v =
        {j. j < fl_slot_count (fs_list s) \<and> (who(x := Leased u)) j = Leased v}" for v
      using I(9) [of _ v] w hand_over(3) by (auto simp: set_eq_iff)
  qed (use I(7,10,11) w in \<open>auto split: if_splits\<close>)
  then show ?thesis using hand_over(1) by simp
qed

lemma new_links:
  assumes n: "n \<le> 2 ^ 32 - 2" and nx: "nx = map (\<lambda>i. if i + 1 < n then of_nat (i + 1) else FREE_LIST_EMPTY) [0..<n]" and "i < n"
  shows "links nx (of_nat i) [i..<n]"
  using \<open>i < n\<close>
proof (induction "n - i" arbitrary: i)
  case (Suc k)
  have u: "[i..<n] = i # [Suc i..<n]" by (rule upt_conv_Cons [OF Suc.prems])
  show ?case
  proof (cases "Suc i < n")
    case True
    have "k = n - Suc i" using Suc.hyps(2) by simp
    then have "links nx (of_nat (Suc i)) [Suc i..<n]" by (rule Suc.hyps(1) [OF _ True])
    then show ?thesis using True Suc.prems unfolding u by (simp add: nx)
  next
    case False
    then show ?thesis using Suc.prems unfolding u by (simp add: nx)
  qed
qed simp

lemma free_list_new_ok:
  assumes "free_list_new n = Some l"
  shows "fl_inv (fl_system_new l)" and "fl_slot_count l = n"
proof -
  have n: "1 \<le> n" "n \<le> 2 ^ 32 - 2" using assms by (auto simp: free_list_new_def FREE_LIST_LEASED_def)
  let ?nx = "map (\<lambda>i. if i + 1 < n then of_nat (i + 1) else FREE_LIST_EMPTY) [0..<n]"
  have l: "l = \<lparr>fl_head = pack_free_head 0 0, fl_next = ?nx, fl_slot_count = n\<rparr>" using assms by (simp add: free_list_new_def)
  then show "fl_slot_count l = n" by simp
  have "links ?nx 0 [0..<n]" using new_links [OF n(2) refl, of 0] n(1) by simp
  then have "fl_inv_at (fl_system_new l) [0..<n] (\<lambda>_. []) (\<lambda>_. Free)"
    using n(2) unfolding fl_inv_at_def Let_def by (simp add: fl_system_new_def l) auto
  then show "fl_inv (fl_system_new l)" unfolding fl_inv_def by blast
qed

lemma run_ok: "fl_run s s' \<Longrightarrow> fl_inv s \<Longrightarrow> fl_inv s'"
  by (induction rule: fl_run.induct) (auto intro: step_ok)

subsection \<open>Progress\<close>

definition in_call :: "fl_pc \<Rightarrow> bool" where
  "in_call pc \<longleftrightarrow> (case pc of Idle \<Rightarrow> False | AcqDone r \<Rightarrow> False | RelDone \<Rightarrow> False | Panicked \<Rightarrow> False | _ \<Rightarrow> True)"

text \<open>A step of a thread, without a spurious failure, that does not exchange the head.\<close>

definition fl_busy :: "fl_system \<Rightarrow> fl_system \<Rightarrow> bool" where
  "fl_busy s s' \<longleftrightarrow> (\<exists>t l pc. fl_atomic False (fs_list s) (fs_pc s t) = Some (l, pc) \<and> fl_head l = fl_head (fs_list s) \<and> s' = fl_internal s t l pc)"

text \<open>The steps a thread can still do before its call ends or another thread exchanges the head.\<close>

fun pc_rank :: "bool \<Rightarrow> fl_pc \<Rightarrow> nat" where
  "pc_rank stale AcqLoad = 4"
| "pc_rank stale (AcqNext state) = (if stale then 6 else 3)"
| "pc_rank stale (AcqCas state nxt) = (if stale then 5 else 2)"
| "pc_rank stale (AcqMark h) = 1"
| "pc_rank stale (RelSwap todo first prev) = 5 + 2 * length todo"
| "pc_rank stale (RelLink i todo first p) = 6 + 2 * length todo"
| "pc_rank stale (RelLoad first tail) = 4"
| "pc_rank stale (RelStore first tail state) = (if stale then 6 else 3)"
| "pc_rank stale (RelCas first tail state) = (if stale then 5 else 2)"
| "pc_rank stale _ = 0"

definition thread_rank :: "fl_system \<Rightarrow> nat \<Rightarrow> nat" where
  "thread_rank s t = pc_rank (fs_stamp s t < fs_muts s) (fs_pc s t)"

lemma busy_inv:
  assumes "fl_busy s s'" and "fl_inv s"
  shows "fl_inv s'"
proof -
  obtain t l pc where b: "fl_atomic False (fs_list s) (fs_pc s t) = Some (l, pc)" "fl_head l = fl_head (fs_list s)" "s' = fl_internal s t l pc"
    using assms(1) unfolding fl_busy_def by blast
  obtain fs pv who where i: "fl_inv_at s fs pv who" using assms(2) unfolding fl_inv_def by blast
  show ?thesis unfolding b(3) by (rule atomic_ok [OF i _ b(1)]) (simp add: b(2))
qed

lemma rank_decreases:
  assumes i: "fl_inv_at s fs pv who" and a: "fl_atomic False (fs_list s) (fs_pc s t) = Some (l, pc)" and h: "fl_head l = fl_head (fs_list s)"
  shows "thread_rank (fl_internal s t l pc) t < thread_rank s t"
proof -
  note pcI = fl_invD(11) [OF i, of t]
  have nh: "pack_free_head x (snd (unpack_free_head (fl_head (fs_list s))) + 1) \<noteq> fl_head (fs_list s)" for x by (rule tag_moves [OF i])
  show ?thesis
  proof (cases "fs_pc s t")
    case (AcqCas state nxt)
    show ?thesis using a h nh pcI AcqCas
      by (auto simp: thread_rank_def fl_internal_def loaded_def split_def Let_def split: if_splits)
  next
    case (RelCas first tail state)
    show ?thesis using a h nh pcI RelCas
      by (auto simp: thread_rank_def fl_internal_def loaded_def split_def Let_def split: if_splits)
  next
    case (RelSwap todo first prev)
    show ?thesis using a h RelSwap
      by (cases todo) (auto simp: thread_rank_def fl_internal_def Let_def bind_eq_Some_conv split: if_splits option.splits)
  qed (use a h in \<open>auto simp: thread_rank_def fl_internal_def Let_def nth_opt_def set_opt_def split: if_splits\<close>)
qed

lemma busy_bound:
  "(fl_busy ^^ k) s s' \<Longrightarrow> fl_inv s \<Longrightarrow> \<forall>t\<ge>n. \<not> in_call (fs_pc s t) \<Longrightarrow> k + (\<Sum>t<n. thread_rank s' t) \<le> (\<Sum>t<n. thread_rank s t)"
proof (induction k arbitrary: s)
  case (Suc k)
  obtain s1 where s1: "fl_busy s s1" "(fl_busy ^^ k) s1 s'" using Suc.prems(1) by (metis relpowp_Suc_E2)
  obtain t l pc where b: "fl_atomic False (fs_list s) (fs_pc s t) = Some (l, pc)" "fl_head l = fl_head (fs_list s)" "s1 = fl_internal s t l pc"
    using s1(1) unfolding fl_busy_def by blast
  obtain fs pv who where i: "fl_inv_at s fs pv who" using Suc.prems(2) unfolding fl_inv_def by blast
  have "in_call (fs_pc s t)" using b(1) by (cases "fs_pc s t") (auto simp: in_call_def)
  then have t: "t < n" using Suc.prems(3) by (meson not_less)
  have o: "fs_pc s1 u = fs_pc s u" "thread_rank s1 u = thread_rank s u" if "u \<noteq> t" for u
    using that b(2) by (simp_all add: b(3) fl_internal_def thread_rank_def)
  have "(\<Sum>u<n. thread_rank s1 u) < (\<Sum>u<n. thread_rank s u)"
  proof (rule sum_strict_mono_ex1)
    show "\<forall>u\<in>{..<n}. thread_rank s1 u \<le> thread_rank s u"
      using o(2) rank_decreases [OF i b(1,2)] b(3) by (metis less_imp_le order_refl)
    show "\<exists>u\<in>{..<n}. thread_rank s1 u < thread_rank s u" using t rank_decreases [OF i b(1,2)] b(3) by auto
  qed simp
  moreover have "\<forall>u\<ge>n. \<not> in_call (fs_pc s1 u)" using o(1) t Suc.prems(3) by (metis not_less)
  ultimately show ?case using Suc.IH [OF s1(2) busy_inv [OF s1(1) Suc.prems(2)]] by simp
qed simp

text \<open>No call is ever stuck.\<close>

lemma call_can_step:
  assumes i: "fl_inv s" and c: "in_call (fs_pc s t)"
  shows "\<exists>l pc. fl_atomic weak (fs_list s) (fs_pc s t) = Some (l, pc) \<and> pc \<noteq> Panicked"
proof -
  obtain fs pv who where i: "fl_inv_at s fs pv who" using assms(1) unfolding fl_inv_def by blast
  note pcI = fl_invD(11) [OF i, of t] and I = fl_invD [OF i]
  have b: "x < length (fl_next (fs_list s))" if "x \<in> set (pv t)" for x using I(1) I(8) [of x t] that by simp
  show ?thesis
  proof (cases "fs_pc s t")
    case (RelSwap todo first prev)
    then show ?thesis using pcI b by (cases todo) (auto simp: nth_opt_def set_opt_def Let_def split: option.splits)
  next
    case (RelLink j todo first p)
    then have "p \<in> set (pv t)" using pcI by auto
    then show ?thesis using b RelLink by (auto simp: set_opt_def)
  next
    case (RelStore first tail state)
    then have "tail \<in> set (pv t)" using pcI by auto
    then show ?thesis using b RelStore by (auto simp: set_opt_def)
  qed (use c pcI b in \<open>auto simp: in_call_def Let_def split_def set_opt_def split: option.splits\<close>)
qed

end
