(* ===== verification/Shared_Ring_Properties.thy ===== *)
theory Shared_Ring_Properties
  imports Shared_Ring Free_List_Facts
begin

unbundle bit_operations_syntax

section \<open>The ring refines a stack of free slots with a map of held contents\<close>

text \<open>
  \<open>chain_ok l cs fs\<close> describes the free list at rest and inside a release that has linked \<open>cs\<close> so far: \<open>fs\<close> is the free
  stack from the head down. One call at a time, an acquire pops the stack and a release pushes its chain (\<open>acquire_spec\<close>,
  \<open>release_many_spec\<close>). Over it, \<open>spec_do\<close> is the ring's contract in terms of the stack and the bytes each guard reads, and
  \<open>ring_do\<close> the same operations by the code.
\<close>

subsection \<open>The free list, one call at a time\<close>

definition chain_ok :: "free_list \<Rightarrow> nat list \<Rightarrow> nat list \<Rightarrow> bool" where
  "chain_ok l cs fs \<longleftrightarrow> length (fl_next l) = fl_slot_count l \<and> fl_slot_count l \<le> 2 ^ 32 - 2 \<and> distinct (cs @ fs) \<and> set (cs @ fs) \<subseteq> {..<fl_slot_count l} \<and>
     path (fl_next l) cs \<and> links (fl_next l) (fst (unpack_free_head (fl_head l))) fs \<and>
     (\<forall>i<fl_slot_count l. fl_next l ! i = FREE_LIST_LEASED \<longleftrightarrow> i \<notin> set (cs @ fs))"

lemma chain_okD:
  assumes "chain_ok l cs fs"
  shows "length (fl_next l) = fl_slot_count l" "fl_slot_count l \<le> 2 ^ 32 - 2" "distinct (cs @ fs)" "set (cs @ fs) \<subseteq> {..<fl_slot_count l}"
    "path (fl_next l) cs" "links (fl_next l) (fst (unpack_free_head (fl_head l))) fs"
    "i < fl_slot_count l \<Longrightarrow> fl_next l ! i = FREE_LIST_LEASED \<longleftrightarrow> i \<notin> set (cs @ fs)"
  using assms unfolding chain_ok_def by blast+

lemma not_leased: "i < 2 ^ 32 - 2 \<Longrightarrow> (of_nat i :: u32) \<noteq> FREE_LIST_LEASED" "FREE_LIST_EMPTY \<noteq> FREE_LIST_LEASED"
proof -
  assume i: "i < 2 ^ 32 - 2"
  have "unat FREE_LIST_LEASED = 2 ^ 32 - 2" by (simp add: FREE_LIST_LEASED_def)
  then have "unat (of_nat i :: u32) \<noteq> unat FREE_LIST_LEASED" using small_index(1) [OF i] i by simp
  then show "(of_nat i :: u32) \<noteq> FREE_LIST_LEASED" by metis
next
  show "FREE_LIST_EMPTY \<noteq> FREE_LIST_LEASED" by (simp add: FREE_LIST_EMPTY_def FREE_LIST_LEASED_def)
qed

lemma chain_extend:
  assumes c: "chain_ok l cs fs" and i: "i < fl_slot_count l" "i \<notin> set (cs @ fs)"
  shows "cs = [] \<Longrightarrow> chain_ok (l\<lparr>fl_next := (fl_next l)[i := FREE_LIST_EMPTY]\<rparr>) [i] fs"
    and "cs \<noteq> [] \<Longrightarrow> chain_ok (l\<lparr>fl_next := (fl_next l)[i := FREE_LIST_EMPTY, last cs := of_nat i]\<rparr>) (cs @ [i]) fs"
proof -
  note C = chain_okD [OF c]
  { assume e: "cs = []"
    show "chain_ok (l\<lparr>fl_next := (fl_next l)[i := FREE_LIST_EMPTY]\<rparr>) [i] fs"
      using C i e not_leased(2) by (auto simp: chain_ok_def nth_list_update links_write) }
  assume e: "cs \<noteq> []"
  define p where "p = last cs"
  have p: "p \<in> set cs" "p \<noteq> i" "p \<notin> set fs" "p < fl_slot_count l" proof -
    show 1: "p \<in> set cs" unfolding p_def by (rule last_in_set [OF e])
    then show "p \<noteq> i" "p \<notin> set fs" "p < fl_slot_count l" using i C(3,4) by auto
  qed
  let ?nx = "(fl_next l)[i := FREE_LIST_EMPTY, p := of_nat i]"
  have len: "length ?nx = fl_slot_count l" using C(1) by simp
  have "i \<notin> set cs" using i by simp
  then have "path ((fl_next l)[i := FREE_LIST_EMPTY]) cs" using C(5) by (simp add: path_write)
  then have "path ?nx cs" unfolding p_def using path_write_last [of cs] C(3) e by simp
  moreover have "?nx ! last cs = of_nat i" using p C(1) unfolding p_def [symmetric] by simp
  ultimately have pa: "path ?nx (cs @ [i])" using e by (simp add: path_snoc)
  have li: "links ?nx (fst (unpack_free_head (fl_head l))) fs" using C(6) i p(3) by (simp add: links_write)
  have le: "?nx ! j = FREE_LIST_LEASED \<longleftrightarrow> j \<notin> set ((cs @ [i]) @ fs)" if j: "j < fl_slot_count l" for j
  proof -
    consider "j = p" | "j = i" "j \<noteq> p" | "j \<noteq> i" "j \<noteq> p" by blast
    then show ?thesis
    proof cases
      case 1
      have "i < 2 ^ 32 - 2" using i(1) C(2) by linarith
      then show ?thesis using 1 p C(1) not_leased(1) by simp
    next
      case 2
      then show ?thesis using i C(1) not_leased(2) by simp
    next
      case 3
      then show ?thesis using C(7) [OF j] by simp
    qed
  qed
  have di: "distinct ((cs @ [i]) @ fs)" using C(3) i by auto
  have su: "set ((cs @ [i]) @ fs) \<subseteq> {..<fl_slot_count l}" using C(4) i(1) by auto
  show "chain_ok (l\<lparr>fl_next := (fl_next l)[i := FREE_LIST_EMPTY, last cs := of_nat i]\<rparr>) (cs @ [i]) fs"
    using len C(2) pa li le di su unfolding chain_ok_def p_def [symmetric] by simp
qed

lemma run_alone_Suc: "run_alone (Suc k) l pc = (case pc of AcqDone r \<Rightarrow> Some (l, pc) | RelDone \<Rightarrow> Some (l, pc)
     | _ \<Rightarrow> Option.bind (fl_atomic False l pc) (\<lambda>(l, pc). run_alone k l pc))"
  by simp

declare run_alone.simps(2) [simp del]

lemma acquire_spec:
  "chain_ok l [] [] \<Longrightarrow> fl_acquire l = Some (None, l)"
  "chain_ok l [] (i # fs) \<Longrightarrow> \<exists>l'. fl_acquire l = Some (Some i, l') \<and> chain_ok l' [] fs \<and> fl_slot_count l' = fl_slot_count l"
proof -
  have five: "(5 :: nat) = Suc (Suc (Suc (Suc (Suc 0))))" by simp
  show "fl_acquire l = Some (None, l)" if "chain_ok l [] []"
    using chain_okD(6) [OF that] by (simp add: fl_acquire_def five run_alone_Suc Let_def)
  assume c: "chain_ok l [] (i # fs)"
  note C = chain_okD [OF c]
  have i: "i < fl_slot_count l" "i < 2 ^ 32 - 2" using C(2,4) by auto
  obtain h t where ht: "unpack_free_head (fl_head l) = (h, t)" by (cases "unpack_free_head (fl_head l)")
  have h: "h = of_nat i" "unat h = i" "h \<noteq> FREE_LIST_EMPTY" using C(6) ht small_index [OF i(2)] by auto
  let ?l = "l\<lparr>fl_head := pack_free_head (fl_next l ! i) (t + 1), fl_next := (fl_next l)[i := FREE_LIST_LEASED]\<rparr>"
  have "fl_acquire l = Some (Some i, ?l)"
    using ht h(2,3) i C(1) by (simp add: fl_acquire_def five run_alone_Suc Let_def panic_simps)
  moreover have "chain_ok ?l [] fs"
    using C i by (auto simp: chain_ok_def links_write nth_list_update)
  ultimately show "\<exists>l'. fl_acquire l = Some (Some i, l') \<and> chain_ok l' [] fs \<and> fl_slot_count l' = fl_slot_count l" by auto
qed

lemma splice:
  assumes c: "chain_ok l cs fs" and "cs \<noteq> []" and fuel: "4 \<le> fuel"
  shows "\<exists>l'. run_alone fuel l (RelLoad (hd cs) (last cs)) = Some (l', RelDone) \<and> chain_ok l' [] (cs @ fs) \<and> fl_slot_count l' = fl_slot_count l"
proof -
  note C = chain_okD [OF c]
  obtain k where "fuel = 4 + k" using fuel le_Suc_ex by blast
  then have k: "fuel = Suc (Suc (Suc (Suc k)))" by simp
  define p where "p = last cs"
  have p: "p \<in> set cs" "p \<notin> set fs" "p < fl_slot_count l" proof -
    show 1: "p \<in> set cs" unfolding p_def by (rule last_in_set [OF assms(2)])
    then show "p \<notin> set fs" "p < fl_slot_count l" using C(3,4) by auto
  qed
  obtain h t where ht: "unpack_free_head (fl_head l) = (h, t)" by (cases "unpack_free_head (fl_head l)")
  let ?nx = "(fl_next l)[p := h]"
  let ?l = "l\<lparr>fl_next := ?nx, fl_head := pack_free_head (of_nat (hd cs)) (t + 1)\<rparr>"
  have "run_alone fuel l (RelLoad (hd cs) p) = Some (?l, RelDone)"
    using ht p C(1) by (simp add: k run_alone_Suc Let_def panic_simps)
  moreover have "links ?nx (of_nat (hd cs)) (cs @ fs)"
  proof (rule path_links)
    show "path ?nx cs" unfolding p_def using path_write_last [of cs] C(3,5) assms(2) by simp
    show "links ?nx (?nx ! last cs) fs" using p C(1,6) ht unfolding p_def [symmetric] by (simp add: links_write)
  qed (use assms(2) C(1,4) in auto)
  moreover have "?nx ! j = FREE_LIST_LEASED \<longleftrightarrow> j \<notin> set (cs @ fs)" if j: "j < fl_slot_count l" for j
  proof (cases "j = p")
    case True
    have "h \<noteq> FREE_LIST_LEASED"
    proof (cases fs)
      case Nil
      then show ?thesis using C(6) ht not_leased(2) by simp
    next
      case (Cons f fs')
      then have "f < 2 ^ 32 - 2" using C(2,4) by auto
      then show ?thesis using C(6) ht Cons not_leased(1) [of f] by simp
    qed
    then show ?thesis using True p C(1) by simp
  qed (use C(7) [OF j] in simp)
  ultimately show ?thesis using C(1-4) unfolding p_def [symmetric] by (auto simp: chain_ok_def)
qed

lemma release_loop:
  assumes "chain_ok l cs fs" and "2 * length todo + 5 \<le> fuel"
  shows "if distinct (filter (\<lambda>i. i < fl_slot_count l) todo) \<and> set (filter (\<lambda>i. i < fl_slot_count l) todo) \<inter> set (cs @ fs) = {}
    then \<exists>l'. run_alone fuel l (RelSwap todo (if cs = [] then None else Some (hd cs)) (if cs = [] then None else Some (last cs))) = Some (l', RelDone) \<and>
      chain_ok l' [] (cs @ filter (\<lambda>i. i < fl_slot_count l) todo @ fs) \<and> fl_slot_count l' = fl_slot_count l
    else run_alone fuel l (RelSwap todo (if cs = [] then None else Some (hd cs)) (if cs = [] then None else Some (last cs))) = None"
  using assms
proof (induction todo arbitrary: l cs fuel)
  case Nil
  obtain k where k: "fuel = Suc k" "4 \<le> k" using Nil(2) by (cases fuel) auto
  obtain k' where k': "k = Suc k'" using k(2) by (cases k) auto
  show ?case
  proof (cases "cs = []")
    case True
    then show ?thesis using Nil(1) by (simp add: k k' run_alone_Suc)
  next
    case False
    then show ?thesis using splice [OF Nil(1) False k(2)] by (simp add: k(1) run_alone_Suc [of k])
  qed
next
  case (Cons i todo)
  note C = chain_okD [OF Cons(2)]
  obtain k where k: "fuel = Suc (Suc k)" "2 * length todo + 5 \<le> k" using Cons(3) by (cases fuel; cases "fuel - 1") auto
  let ?first = "if cs = [] then None else Some (hd cs)" and ?prev = "if cs = [] then None else Some (last cs)"
  show ?case
  proof (cases "i < fl_slot_count l")
    case False
    have "run_alone fuel l (RelSwap (i # todo) ?first ?prev) = run_alone (Suc k) l (RelSwap todo ?first ?prev)"
      using False by (simp only: k(1) run_alone_Suc [of "Suc k"]) (simp add: panic_simps)
    then show ?thesis using Cons.IH [OF Cons(2), of "Suc k"] k(2) False by simp
  next
    case i: True
    have at: "nth_opt (fl_next l) i = Some (fl_next l ! i)" "set_opt (fl_next l) i v = Some ((fl_next l)[i := v])" for v
      using i C(1) by (simp_all add: panic_simps)
    show ?thesis
    proof (cases "i \<in> set (cs @ fs)")
      case True
      then have "fl_next l ! i \<noteq> FREE_LIST_LEASED" using C(7) [OF i] by simp
      then have "run_alone fuel l (RelSwap (i # todo) ?first ?prev) = None" using i at by (simp add: k(1) run_alone_Suc [of "Suc k"] run_alone_Suc [of k])
      then show ?thesis using True i by auto
    next
      case fresh: False
      then have le: "fl_next l ! i = FREE_LIST_LEASED" using C(7) [OF i] by simp
      let ?l0 = "l\<lparr>fl_next := (fl_next l)[i := FREE_LIST_EMPTY]\<rparr>"
      obtain l' k' where l': "run_alone fuel l (RelSwap (i # todo) ?first ?prev) = run_alone k' l' (RelSwap todo (Some (hd (cs @ [i]))) (Some (last (cs @ [i]))))"
        "chain_ok l' (cs @ [i]) fs" "fl_slot_count l' = fl_slot_count l" "2 * length todo + 5 \<le> k'"
      proof (cases "cs = []")
        case True
        have "run_alone fuel l (RelSwap (i # todo) ?first ?prev) = run_alone (Suc k) ?l0 (RelSwap todo (Some i) (Some i))"
          using True i at le by (simp only: k(1) run_alone_Suc [of "Suc k"]) simp
        then show ?thesis using that [of "Suc k" ?l0] chain_extend(1) [OF Cons(2) i fresh True] True k(2) by simp
      next
        case False
        have "last cs < fl_slot_count l" using C(4) last_in_set [OF False] by auto
        then have "run_alone fuel l (RelSwap (i # todo) ?first ?prev) =
            run_alone k (l\<lparr>fl_next := (fl_next l)[i := FREE_LIST_EMPTY, last cs := of_nat i]\<rparr>) (RelSwap todo (Some (hd cs)) (Some i))"
          using False i at le C(1) by (simp only: k(1) run_alone_Suc [of "Suc k"] run_alone_Suc [of k]) (simp add: panic_simps)
        then show ?thesis using that [OF _ chain_extend(2) [OF Cons(2) i fresh False]] False k(2) by simp
      qed
      have ih: "set (filter (\<lambda>i. i < fl_slot_count l) todo) \<inter> set ((cs @ [i]) @ fs) = {} \<longleftrightarrow>
          i \<notin> set (filter (\<lambda>i. i < fl_slot_count l) todo) \<and> set (filter (\<lambda>i. i < fl_slot_count l) todo) \<inter> set (cs @ fs) = {}" by auto
      show ?thesis
        using Cons.IH [OF l'(2,4)] fresh i unfolding l'(1,3) ih by (auto split: if_splits)
    qed
  qed
qed

lemma release_many_spec:
  assumes "chain_ok l [] fs"
  shows "if distinct (filter (\<lambda>i. i < fl_slot_count l) js) \<and> set (filter (\<lambda>i. i < fl_slot_count l) js) \<inter> set fs = {}
    then \<exists>l'. fl_release_many js l = Some l' \<and> chain_ok l' [] (filter (\<lambda>i. i < fl_slot_count l) js @ fs) \<and> fl_slot_count l' = fl_slot_count l
    else fl_release_many js l = None"
  using release_loop [OF assms, of js "2 * length js + 5"] unfolding fl_release_many_def by (auto split: if_splits)


subsection \<open>Slots of a region\<close>

lemma mask_up_bounds:
  assumes "is_power_of_two a" and "mask_up n a = Some m"
  shows "a dvd m" "n \<le> m" "m < n + a"
proof -
  obtain k where k: "k < 64" "a = 2 ^ k" using assms(1) unfolding is_power_of_two_def by auto
  define x where "x = n + (a - 1)"
  have x: "x < 2 ^ 64" "m = unat ((of_nat x :: u64) AND NOT (of_nat (a - 1)))"
    using assms(2) unfolding mask_up_def checked_usize_def x_def [symmetric] by (auto split: if_splits)
  let ?w = "of_nat x :: u64"
  have "(of_nat (a - 1) :: u64) = mask k" unfolding k(2) using of_nat_mask_eq [of k, where 'a = u64] by (simp add: mask_eq_exp_minus_1)
  moreover have "?w AND NOT (mask k) = push_bit k (drop_bit k ?w)" by (rule bit_eqI) (auto simp: bit_simps)
  moreover have "push_bit k (drop_bit k ?w) = ?w - take_bit k ?w" using bits_ident [of k ?w] by (simp add: algebra_simps)
  ultimately have m: "m = unat (?w - take_bit k ?w)" using x(2) by simp
  have w: "unat ?w = x" using x(1) by (simp add: unat_of_nat)
  have t: "unat (take_bit k ?w) = x mod 2 ^ k" unfolding unsigned_take_bit_eq w by (rule take_bit_eq_mod)
  have "take_bit k ?w \<le> ?w" unfolding word_le_nat_alt w t by simp
  then have "m = x - x mod a" unfolding m by (simp add: unat_sub w t k(2))
  then have mx: "m = a * (x div a)" by (simp add: minus_mod_eq_mult_div)
  then show "a dvd m" by simp
  have "0 < a" using k(2) by simp
  then have "x mod a < a" "x = m + x mod a" using mx by simp_all
  then show "n \<le> m" "m < n + a" using \<open>0 < a\<close> unfolding x_def by linarith+
qed

lemma region_fields:
  assumes "slot_region_new page huge granted n sz align hooks = Inr (R, failures)"
  shows "0 < n" "0 < sz" "\<forall>a. align = Some a \<longrightarrow> is_power_of_two a"
    "mask_up sz (case align of None \<Rightarrow> runtime_page_size page | Some a \<Rightarrow> a) = Some (rg_slot_size R)"
    "rg_slot_count R = n" "rg_addressable_size R = n * rg_slot_size R" "rg_addressable_size R < 2 ^ 64"
    "rg_total_size R = (if rg_uses_huge_pages R then the (mask_up (rg_addressable_size R) HUGE_PAGE_SIZE) else rg_addressable_size R)"
    "rg_uses_huge_pages R \<Longrightarrow> mask_up (rg_addressable_size R) HUGE_PAGE_SIZE \<noteq> None"
    "rg_mem R = (\<lambda>_. 0)" "rg_hooks R = hooks" "failures = run_alloc_hooks R" "rg_page_align R = runtime_page_size page"
    "rg_uses_huge_pages R \<or> layout_ok (rg_addressable_size R) (rg_page_align R)"
  using assms unfolding slot_region_new_def try_alloc_huge_def try_alloc_regular_def checked_usize_def Let_def
  by (auto split: if_splits option.splits)

lemma huge_pow2: "is_power_of_two HUGE_PAGE_SIZE"
  unfolding is_power_of_two_def by (rule bexI [of _ 21]) (simp_all add: HUGE_PAGE_SIZE_def)

lemma region_total:
  assumes "slot_region_new page huge granted n sz align hooks = Inr (R, failures)"
  shows "rg_addressable_size R \<le> rg_total_size R" "rg_total_size R < rg_addressable_size R + HUGE_PAGE_SIZE"
    "rg_uses_huge_pages R \<Longrightarrow> HUGE_PAGE_SIZE dvd rg_total_size R"
  using region_fields(8,9) [OF assms] mask_up_bounds [OF huge_pow2, of "rg_addressable_size R"]
  by (cases "rg_uses_huge_pages R"; force simp: HUGE_PAGE_SIZE_def)+




subsection \<open>The ring and its guards\<close>

text \<open>
  The state of a client is the ring and the guards it holds, by slot. An operation on a guard that does not exist cannot be
  written in the program and does nothing here. \<open>ReleaseMany\<close> detaches the guards and hands the indices to
  \<^verbatim>\<open>release_indices\<close>, which takes any list.
\<close>

datatype ring_op =
    TakeSlot
  | FillSlot nat "u8 list"
  | DropSlot nat
  | ReattachSlot nat
  | ReleaseDetached nat
  | ForgetDetached bool nat
  | ReleaseMany "nat list"

type_synonym ring_client = "shared_ring \<times> (nat \<rightharpoonup> ring_slot)"

fun ring_do :: "ring_op \<Rightarrow> ring_client \<Rightarrow> ring_client option" where
  "ring_do TakeSlot (R, h) = do {
     (s, R) \<leftarrow> acquire_slot R;
     Some (R, case s of None \<Rightarrow> h | Some s \<Rightarrow> h(sl_index s \<mapsto> s)) }"
| "ring_do (FillSlot i data) (R, h) = (case h i of None \<Rightarrow> Some (R, h) | Some s \<Rightarrow> do {
     (r, s, R) \<leftarrow> copy_from_slice R s data;
     Some (R, h(i \<mapsto> s)) })"
| "ring_do (DropSlot i) (R, h) = (case h i of None \<Rightarrow> Some (R, h) | Some s \<Rightarrow> do {
     R \<leftarrow> slot_drop s R;
     Some (R, h(i := None)) })"
| "ring_do (ReattachSlot i) (R, h) = (case h i of None \<Rightarrow> Some (R, h) | Some s \<Rightarrow> do {
     (s, R) \<leftarrow> detached_reattach (slot_detach s) R;
     Some (R, h(i \<mapsto> s)) })"
| "ring_do (ReleaseDetached i) (R, h) = (case h i of None \<Rightarrow> Some (R, h) | Some s \<Rightarrow> do {
     R \<leftarrow> detached_release (slot_detach s) R;
     Some (R, h(i := None)) })"
| "ring_do (ForgetDetached panicking i) (R, h) = (case h i of None \<Rightarrow> Some (R, h) | Some s \<Rightarrow> do {
     R \<leftarrow> detached_drop panicking (slot_detach s) R;
     Some (R, h(i := None)) })"
| "ring_do (ReleaseMany js) (R, h) = do {
     R' \<leftarrow> release_indices js R;
     Some (R', h |` (- set js)) }"

text \<open>The contract: a stack of free slots and, for a held slot, the bytes its guard shows.\<close>

type_synonym ring_spec = "nat list \<times> (nat \<rightharpoonup> u8 list)"

fun spec_do :: "nat \<Rightarrow> nat \<Rightarrow> ring_op \<Rightarrow> ring_spec \<Rightarrow> ring_spec option" where
  "spec_do n k TakeSlot ([], c) = Some ([], c)"
| "spec_do n k TakeSlot (i # fs, c) = Some (fs, c(i \<mapsto> []))"
| "spec_do n k (FillSlot i data) (fs, c) = Some (fs, if c i \<noteq> None \<and> length data \<le> k then c(i \<mapsto> data) else c)"
| "spec_do n k (DropSlot i) (fs, c) = Some (if c i = None then (fs, c) else (i # fs, c(i := None)))"
| "spec_do n k (ReattachSlot i) (fs, c) = Some (fs, if c i = None then c else c(i \<mapsto> []))"
| "spec_do n k (ReleaseDetached i) (fs, c) = Some (if c i = None then (fs, c) else (i # fs, c(i := None)))"
| "spec_do n k (ForgetDetached panicking i) (fs, c) =
     (if c i = None then Some (fs, c) else if panicking then Some (i # fs, c(i := None)) else None)"
| "spec_do n k (ReleaseMany js) (fs, c) = (let js = filter (\<lambda>i. i < n) js in
     if distinct js \<and> set js \<subseteq> dom c then Some (js @ fs, c |` (- set js)) else None)"

fun run_ops :: "('op \<Rightarrow> 's \<Rightarrow> 's option) \<Rightarrow> 'op list \<Rightarrow> 's \<Rightarrow> 's option" where
  "run_ops f [] s = Some s"
| "run_ops f (x # xs) s = Option.bind (f x s) (run_ops f xs)"

definition ring_rel :: "nat \<Rightarrow> nat \<Rightarrow> ring_client \<Rightarrow> ring_spec \<Rightarrow> bool" where
  "ring_rel n k C A \<longleftrightarrow> (let R = fst C; h = snd C; fs = fst A; c = snd A in
     chain_ok (sr_free_list R) [] fs \<and> fl_slot_count (sr_free_list R) = n \<and> rg_slot_size (sr_region R) = k \<and> n * k \<le> rg_total_size (sr_region R) \<and>
     dom h = {..<n} - set fs \<and> dom c = {..<n} - set fs \<and>
     (\<forall>i s. h i = Some s \<longrightarrow> sl_index s = i \<and> sl_data_len s \<le> k \<and> slot_as_slice R s = c i))"

lemma ring_relD:
  assumes "ring_rel n k (R, h) (fs, c)"
  shows "chain_ok (sr_free_list R) [] fs" "fl_slot_count (sr_free_list R) = n" "rg_slot_size (sr_region R) = k" "n * k \<le> rg_total_size (sr_region R)"
    "dom h = {..<n} - set fs" "dom c = {..<n} - set fs" "h i = Some s \<Longrightarrow> sl_index s = i" "h i = Some s \<Longrightarrow> sl_data_len s \<le> k"
    "h i = Some s \<Longrightarrow> slot_as_slice R s = c i" "h i = None \<longleftrightarrow> c i = None"
  using assms unfolding ring_rel_def by (auto simp: Let_def)

lemma ring_relI:
  assumes "chain_ok (sr_free_list R) [] fs" "fl_slot_count (sr_free_list R) = n" "rg_slot_size (sr_region R) = k" "n * k \<le> rg_total_size (sr_region R)"
    "dom h = {..<n} - set fs" "dom c = {..<n} - set fs" "\<And>i s. h i = Some s \<Longrightarrow> sl_index s = i \<and> sl_data_len s \<le> k \<and> slot_as_slice R s = c i"
  shows "ring_rel n k (R, h) (fs, c)"
  unfolding ring_rel_def Let_def fst_conv snd_conv using assms by blast

text \<open>Only the free list changes: what the guards show does not depend on it.\<close>

lemma as_slice_free_list [simp]: "slot_as_slice (R\<lparr>sr_free_list := l\<rparr>) s = slot_as_slice R s"
  by (simp add: slot_as_slice_def)

lemma as_slice_eq:
  "sl_index s = i \<Longrightarrow> rg_slot_size (sr_region R) = k \<Longrightarrow> i * k + sl_data_len s \<le> rg_total_size (sr_region R) \<Longrightarrow>
    slot_as_slice R s = Some (map (\<lambda>x. rg_mem (sr_region R) (i * k + x)) [0..<sl_data_len s])"
  by (simp add: slot_as_slice_def slot_ptr_unchecked_def)

lemma rel_take:
  assumes r: "ring_rel n k (R, h) (i # fs, c)" and "chain_ok l [] fs" "fl_slot_count l = n"
  shows "ring_rel n k (R\<lparr>sr_free_list := l\<rparr>, h(i \<mapsto> \<lparr>sl_index = i, sl_data_len = 0\<rparr>)) (fs, c(i \<mapsto> []))"
proof -
  note D = ring_relD [OF r]
  have i: "i < n" "i \<notin> set fs" using chain_okD(3,4) [OF D(1)] D(2) by auto
  have "i * k \<le> rg_total_size (sr_region R)" using i(1) D(4) by (metis less_imp_le_nat mult_le_mono1 le_trans)
  then have e: "slot_as_slice R \<lparr>sl_index = i, sl_data_len = 0\<rparr> = Some []" using D(3) by (simp add: slot_as_slice_def slot_ptr_unchecked_def)
  show ?thesis using assms(2,3) D(3-9) i e by (auto simp: ring_rel_def)
qed

lemma rel_free:
  assumes r: "ring_rel n k (R, h) (fs, c)" and "chain_ok l [] (js @ fs)" "fl_slot_count l = n" and "set js \<subseteq> dom c"
  shows "ring_rel n k (R\<lparr>sr_free_list := l\<rparr>, h |` (- set js)) (js @ fs, c |` (- set js))"
proof -
  note D = ring_relD [OF r]
  have "dom (h |` (- set js)) = {..<n} - set (js @ fs)" "dom (c |` (- set js)) = {..<n} - set (js @ fs)"
    unfolding dom_restrict D(5,6) by auto
  moreover have "sl_index s = i \<and> sl_data_len s \<le> k \<and> slot_as_slice R s = (c |` (- set js)) i" if "(h |` (- set js)) i = Some s" for i s
    using that D(7-9) [of i s] by (simp add: restrict_map_def split: if_splits)
  ultimately show ?thesis using assms(2,3) D(3,4) by (simp add: ring_rel_def)
qed

lemma rel_length:
  assumes "ring_rel n k (R, h) (fs, c)" and "h i = Some s"
  shows "ring_rel n k (R, h(i \<mapsto> \<lparr>sl_index = i, sl_data_len = 0\<rparr>)) (fs, c(i \<mapsto> []))"
proof -
  note D = ring_relD [OF assms(1)]
  have i: "i < n" "i \<notin> set fs" using D(5) assms(2) by auto
  have "i * k \<le> rg_total_size (sr_region R)" using i(1) D(4) by (metis less_imp_le_nat mult_le_mono1 le_trans)
  then have e: "slot_as_slice R \<lparr>sl_index = i, sl_data_len = 0\<rparr> = Some []" using D(3) by (simp add: slot_as_slice_def slot_ptr_unchecked_def)
  show ?thesis using D i e by (auto simp: ring_rel_def)
qed

lemma rel_write:
  assumes "ring_rel n k (R, h) (fs, c)" and "h i = Some s" and "length data \<le> k"
  obtains R' s' where "copy_from_slice R s data = Some (Inr (), s', R')" "ring_rel n k (R', h(i \<mapsto> s')) (fs, c(i \<mapsto> data))"
proof -
  note D = ring_relD [OF assms(1)]
  have i: "i < n" "i \<notin> set fs" "sl_index s = i" using D(5,7) assms(2) by auto
  have room: "j * k + k \<le> rg_total_size (sr_region R)" if "j < n" for j
    using mult_le_mono1 [of "Suc j" n k] that D(4) by simp
  let ?m = "\<lambda>a. if i * k \<le> a \<and> a < i * k + length data then data ! (a - i * k) else rg_mem (sr_region R) a"
  let ?R = "R\<lparr>sr_region := (sr_region R)\<lparr>rg_mem := ?m\<rparr>\<rparr>" and ?s = "s\<lparr>sl_data_len := length data\<rparr>"
  have "copy_from_slice R s data = Some (Inr (), ?s, ?R)"
    using assms(3) D(3) i room [OF i(1)] by (simp add: copy_from_slice_def write_with_def write_mem_def slot_ptr_unchecked_def)
  moreover have own: "slot_as_slice ?R ?s = Some data"
  proof -
    have "i * k + length data \<le> rg_total_size (sr_region R)" using room [OF i(1)] assms(3) by linarith
    then have "slot_as_slice ?R ?s = Some (map (\<lambda>x. rg_mem (sr_region ?R) (i * k + x)) [0..<sl_data_len ?s])"
      by (intro as_slice_eq) (use D(3) i(3) in simp_all)
    also have "\<dots> = Some data" by (rule arg_cong [where f = Some], rule nth_equalityI) simp_all
    finally show ?thesis .
  qed
  moreover have other: "slot_as_slice ?R s2 = c j" if "h j = Some s2" "j \<noteq> i" for j s2
  proof -
    have "i * k + k \<le> j * k \<or> j * k + k \<le> i * k"
      using mult_le_mono1 [of "Suc i" j k] mult_le_mono1 [of "Suc j" i k] that(2) by (cases "i < j") auto
    then have m: "?m (j * k + x) = rg_mem (sr_region R) (j * k + x)" if "x < sl_data_len s2" for x
      using that D(8) [OF \<open>h j = Some s2\<close>] assms(3) by auto
    have "j < n" using D(5) that(1) by auto
    then have room2: "j * k + sl_data_len s2 \<le> rg_total_size (sr_region R)" using room [of j] D(8) [OF that(1)] by linarith
    have "slot_as_slice ?R s2 = Some (map (\<lambda>x. rg_mem (sr_region ?R) (j * k + x)) [0..<sl_data_len s2])"
      by (rule as_slice_eq) (use D(3) D(7) [OF that(1)] room2 in simp_all)
    also have "map (\<lambda>x. rg_mem (sr_region ?R) (j * k + x)) [0..<sl_data_len s2] = map (\<lambda>x. rg_mem (sr_region R) (j * k + x)) [0..<sl_data_len s2]"
      by (rule map_cong [OF refl]) (use m in simp)
    also have "Some \<dots> = slot_as_slice R s2"
      by (rule as_slice_eq [symmetric]) (use D(3) D(7) [OF that(1)] room2 in simp_all)
    finally have "slot_as_slice ?R s2 = slot_as_slice R s2" .
    then show ?thesis using D(9) [OF that(1)] by simp
  qed
  moreover have "ring_rel n k (?R, h(i \<mapsto> ?s)) (fs, c(i \<mapsto> data))"
  proof (rule ring_relI)
    show "dom (h(i \<mapsto> ?s)) = {..<n} - set fs" "dom (c(i \<mapsto> data)) = {..<n} - set fs" using D(5,6) i by auto
    show "sl_index s2 = j \<and> sl_data_len s2 \<le> k \<and> slot_as_slice ?R s2 = (c(i \<mapsto> data)) j" if "(h(i \<mapsto> ?s)) j = Some s2" for j s2
    proof (cases "j = i")
      case True
      then have "s2 = ?s" using that by simp
      then show ?thesis using True own assms(3) i(3) by simp
    next
      case False
      then have "h j = Some s2" using that by simp
      then show ?thesis using False D(7,8) [of j s2] other [of j s2] by simp
    qed
  qed (use D(1-4) in simp_all)
  ultimately show thesis using that by blast
qed

lemma ring_do_ok:
  assumes r: "ring_rel n k C A"
  shows "case spec_do n k x A of None \<Rightarrow> ring_do x C = None | Some A' \<Rightarrow> \<exists>C'. ring_do x C = Some C' \<and> ring_rel n k C' A'"
proof -
  obtain R h fs c where CA: "C = (R, h)" "A = (fs, c)" by (cases C, cases A) auto
  note r = r [unfolded CA] and D = ring_relD [OF r [unfolded CA]]
  have len: "filter (\<lambda>j. j < n) [i] = [i]" "i \<notin> set fs" "i \<in> dom c" if "h i \<noteq> None" for i using that D(5,6) by auto
  have rel1: "\<exists>R'. release_index i R = Some R' \<and> ring_rel n k (R', h(i := None)) (i # fs, c(i := None))" if held: "h i \<noteq> None" for i
  proof -
    obtain l where l: "fl_release_many [i] (sr_free_list R) = Some l" "chain_ok l [] ([i] @ fs)" "fl_slot_count l = n"
      using release_many_spec [OF D(1), of "[i]"] D(2) len [OF held] by auto
    have "ring_rel n k (R\<lparr>sr_free_list := l\<rparr>, h |` (- set [i])) ([i] @ fs, c |` (- set [i]))"
      by (rule rel_free [OF r l(2,3)]) (use len(3) [OF held] in simp)
    moreover have "h |` (- {i}) = h(i := None)" "c |` (- {i}) = c(i := None)" by (auto simp: restrict_map_def)
    ultimately show ?thesis using l(1) by (simp add: release_index_def fl_release_def)
  qed
  show ?thesis
  proof (cases x)
    case TakeSlot
    show ?thesis
    proof (cases fs)
      case Nil
      then show ?thesis using r acquire_spec(1) D(1) CA TakeSlot by (simp add: acquire_slot_def acquire_index_def)
    next
      case (Cons i fs')
      then obtain l where "fl_acquire (sr_free_list R) = Some (Some i, l)" "chain_ok l [] fs'" "fl_slot_count l = n"
        using acquire_spec(2) D(1,2) by blast
      then show ?thesis using rel_take [OF r [unfolded Cons]] Cons CA TakeSlot by (simp add: acquire_slot_def acquire_index_def)
    qed
  next
    case (FillSlot i data)
    consider "h i = None" | s where "h i = Some s" "length data \<le> k" | s where "h i = Some s" "k < length data" by force
    then show ?thesis
    proof cases
      case 1
      then show ?thesis using FillSlot CA r 1 D(10) [of i] by simp
    next
      case (2 s)
      obtain R' s' where "copy_from_slice R s data = Some (Inr (), s', R')" "ring_rel n k (R', h(i \<mapsto> s')) (fs, c(i \<mapsto> data))"
        by (rule rel_write [OF r 2])
      then show ?thesis using FillSlot CA 2 D(10) [of i] by auto
    next
      case (3 s)
      then have "h(i \<mapsto> s) = h" by auto
      then show ?thesis using FillSlot CA r 3 D(3) by (simp add: copy_from_slice_def)
    qed
  next
    case (DropSlot i)
    then show ?thesis using CA r rel1 [of i] D(7,10) [of i] by (cases "h i") (auto simp: slot_drop_def)
  next
    case (ReattachSlot i)
    then show ?thesis using CA r rel_length [OF r, of i] D(7,10) [of i]
      by (cases "h i") (auto simp: detached_reattach_def detached_drop_def slot_detach_def)
  next
    case (ReleaseDetached i)
    then show ?thesis using CA r rel1 [of i] D(7,10) [of i]
      by (cases "h i") (auto simp: detached_release_def detached_drop_def slot_detach_def)
  next
    case (ForgetDetached panicking i)
    then show ?thesis using CA r rel1 [of i] D(7,10) [of i] by (cases "h i") (auto simp: detached_drop_def slot_detach_def)
  next
    case (ReleaseMany js)
    let ?js = "filter (\<lambda>i. i < n) js"
    have dom: "set ?js \<subseteq> dom c \<longleftrightarrow> set ?js \<inter> set fs = {}" using D(6) by auto
    show ?thesis
    proof (cases "distinct ?js \<and> set ?js \<subseteq> dom c")
      case False
      then have "fl_release_many js (sr_free_list R) = None" using release_many_spec [OF D(1), of js] D(2) dom by auto
      then show ?thesis using False ReleaseMany CA by (auto simp: release_indices_def Let_def)
    next
      case True
      then obtain l where l: "fl_release_many js (sr_free_list R) = Some l" "chain_ok l [] (?js @ fs)" "fl_slot_count l = n"
        using release_many_spec [OF D(1), of js] D(2) dom by auto
      have "h |` (- set js) = h |` (- set ?js)"
        using D(5) by (intro ext) (auto simp: restrict_map_def)
      then show ?thesis using True ReleaseMany CA l(1) rel_free [OF r l(2,3)] by (simp add: release_indices_def Let_def)
    qed
  qed
qed

lemma run_ops_ok:
  "ring_rel n k C A \<Longrightarrow> case run_ops (spec_do n k) ops A of None \<Rightarrow> run_ops ring_do ops C = None | Some A' \<Rightarrow> \<exists>C'. run_ops ring_do ops C = Some C' \<and> ring_rel n k C' A'"
proof (induction ops arbitrary: C A)
  case (Cons x ops)
  show ?case
  proof (cases "spec_do n k x A")
    case None
    then show ?thesis using ring_do_ok [OF Cons(2), of x] by simp
  next
    case (Some A')
    then obtain C' where C': "ring_do x C = Some C'" "ring_rel n k C' A'" using ring_do_ok [OF Cons(2), of x] by auto
    then show ?thesis using Cons.IH [OF C'(2)] Some by (auto split: option.splits)
  qed
qed simp

lemma new_ring_rel:
  assumes "ring_new_with_slot_align page huge granted n sz align hooks = Some (Inr (R, failures))"
  shows "ring_rel n (rg_slot_size (sr_region R)) (R, Map.empty) ([0..<n], Map.empty)"
proof -
  obtain region l where R: "slot_region_new page huge granted n sz align hooks = Inr (region, failures)" "free_list_new n = Some l"
    "R = \<lparr>sr_region = region, sr_free_list = l\<rparr>"
    using assms by (auto simp: ring_new_with_slot_align_def split: if_splits sum.splits option.splits bind_splits)
  have n: "1 \<le> n" "n \<le> 2 ^ 32 - 2" and l: "l = \<lparr>fl_head = pack_free_head 0 0, fl_next = map (\<lambda>i. if i + 1 < n then of_nat (i + 1) else FREE_LIST_EMPTY) [0..<n], fl_slot_count = n\<rparr>"
    using R(2) by (auto simp: free_list_new_def FREE_LIST_LEASED_def bind_eq_Some_conv split: if_splits)
  have "links (fl_next l) (of_nat 0) [0..<n]" by (rule new_links) (use n l in simp_all)
  moreover have "fl_next l ! i \<noteq> FREE_LIST_LEASED" if "i < n" for i
    using that n l not_leased(2) not_leased(1) [of "Suc i"] by auto
  moreover have "dom Map.empty = {..<n} - set [0..<n]" by auto
  ultimately show ?thesis using n l R region_fields(6) [OF R(1)] region_total(1) [OF R(1)]
    by (auto simp: ring_rel_def chain_ok_def)
qed

text \<open>C9 (refinement). A new ring behaves, over every sequence of guard operations, as a stack of free slots with a map from held
  slots to bytes: an acquire takes the top slot, or nothing when all are held; a copy that fits replaces the guard's bytes and
  no other's, one that does not changes nothing; a drop or a detached release pushes the slot; a batch release pushes its
  in-range slots in order. A guard reads back exactly the bytes last copied into it, nothing after an acquire or a
  reattach. The ring panics exactly when a detached slot is forgotten outside an unwind or a batch names a slot that
  is not held or twice.\<close>

theorem ring_refines_stack:
  assumes "ring_new_with_slot_align page huge granted n sz align hooks = Some (Inr (R0, failures))"
  shows "case run_ops (spec_do n (rg_slot_size (sr_region R0))) ops ([0..<n], Map.empty) of
      None \<Rightarrow> run_ops ring_do ops (R0, Map.empty) = None
    | Some (fs, c) \<Rightarrow> \<exists>R h. run_ops ring_do ops (R0, Map.empty) = Some (R, h) \<and> dom h = dom c \<and> dom c = {..<n} - set fs \<and> distinct fs \<and>
        (\<forall>i s. h i = Some s \<longrightarrow> sl_index s = i \<and> slot_as_slice R s = c i)"
proof (cases "run_ops (spec_do n (rg_slot_size (sr_region R0))) ops ([0..<n], Map.empty)")
  case None
  then show ?thesis using run_ops_ok [OF new_ring_rel [OF assms], of ops] by simp
next
  case (Some A)
  obtain fs c where A: "A = (fs, c)" by (cases A)
  obtain R h where C: "run_ops ring_do ops (R0, Map.empty) = Some (R, h)" "ring_rel n (rg_slot_size (sr_region R0)) (R, h) (fs, c)"
    using run_ops_ok [OF new_ring_rel [OF assms], of ops] Some A by auto
  have "dom h = dom c" "dom c = {..<n} - set fs" using ring_relD(5,6) [OF C(2)] by simp_all
  moreover have "distinct fs" using chain_okD(3) [OF ring_relD(1) [OF C(2)]] by simp
  ultimately show ?thesis using Some A C(1) ring_relD(7,9) [OF C(2)] by auto
qed

theorem ring_refines_stack_witness:
  "\<exists>R0 R h s. ring_new_with_slot_align 4096 False True 2 100 (Some 64) [] = Some (Inr (R0, [])) \<and>
    run_ops ring_do [TakeSlot, FillSlot 0 [1, 2], TakeSlot, FillSlot 1 [3], TakeSlot, DropSlot 1] (R0, Map.empty) = Some (R, h) \<and>
    h 0 = Some s \<and> slot_as_slice R s = Some [1, 2] \<and> h 1 = None"
proof -
  have p: "is_power_of_two 64" "is_power_of_two 2" "is_power_of_two 4096"
    unfolding is_power_of_two_def by (rule bexI [of _ 6] bexI [of _ 1] bexI [of _ 12]; simp)+
  have m: "mask_up 100 64 = Some 128" by (simp add: mask_up_def checked_usize_def)
  have th: "try_alloc_huge False a b c d hs = None" for a b c d hs by (simp add: try_alloc_huge_def split: option.split)
  obtain R0 where R0: "ring_new_with_slot_align 4096 False True 2 100 (Some 64) [] = Some (Inr (R0, []))" "rg_slot_size (sr_region R0) = 128"
    using p m by (simp add: ring_new_with_slot_align_def slot_region_new_def checked_usize_def th try_alloc_regular_def layout_ok_def
      runtime_page_size_def PAGE_SIZE_def run_alloc_hooks_def map_filter_simps free_list_new_def FREE_LIST_LEASED_def)
  have u: "[0..<2] = [0, 1]" by (simp add: upt_rec)
  have "run_ops (spec_do 2 128) [TakeSlot, FillSlot 0 [1, 2], TakeSlot, FillSlot 1 [3], TakeSlot, DropSlot 1] ([0..<2], Map.empty)
      = Some ([1], [0 \<mapsto> [1, 2]])" by (simp add: u fun_eq_iff)
  then obtain R h where "run_ops ring_do [TakeSlot, FillSlot 0 [1, 2], TakeSlot, FillSlot 1 [3], TakeSlot, DropSlot 1] (R0, Map.empty) = Some (R, h)"
    "dom h = {0}" "\<forall>i s. h i = Some s \<longrightarrow> sl_index s = i \<and> slot_as_slice R s = [0 \<mapsto> [1, 2]] i"
    using ring_refines_stack [OF R0(1), of "[TakeSlot, FillSlot 0 [1, 2], TakeSlot, FillSlot 1 [3], TakeSlot, DropSlot 1]"] R0(2) by auto
  moreover have "0 \<in> dom h" "1 \<notin> dom h" unfolding \<open>dom h = {0}\<close> by simp_all
  ultimately show ?thesis using R0(1) by fastforce
qed

end
