(* ===== verification/Free_List_Properties.thy ===== *)
theory Free_List_Properties
  imports Free_List_Facts
begin

section \<open>What the free list promises\<close>

lemma atomic_slot_count: "fl_atomic weak l pc = Some (l', pc') \<Longrightarrow> fl_slot_count l' = fl_slot_count l"
  by (induction weak l pc rule: fl_atomic.induct) (auto simp: Let_def split_def bind_eq_Some_conv split: if_splits option.splits)

lemma run_slot_count: "fl_run s s' \<Longrightarrow> fl_slot_count (fs_list s') = fl_slot_count (fs_list s)"
proof (induction rule: fl_run.induct)
  case (step s s1 s2)
  from step(3) have "fl_slot_count (fs_list s2) = fl_slot_count (fs_list s1)"
    by cases (simp_all add: fl_internal_def atomic_slot_count)
  then show ?case using step by simp
qed simp

lemma owned_outside_moving: "fl_inv_at s fs pv who \<Longrightarrow> i \<in> set (pv t) \<Longrightarrow> i \<notin> fs_owned s u"
  using fl_invD(8,9) by (metis place.distinct(5))

text \<open>C8 (safety). In every interleaving of acquires and releases by any number of threads in which nobody sleeps through
  \<open>2 ^ 32\<close> exchanges and callers release what they hold, no slot is leased twice: the leases of two threads are disjoint, and
  a slot that an acquire is about to return is leased to no one and returned by no other thread. No call panics. The
  free list holds distinct slots that nobody holds, an acquire reports exhaustion only when no slot is free, and once all
  threads are idle every slot is free or leased: none is lost.\<close>

theorem free_list_leases_once:
  assumes "free_list_new n = Some l" and "fl_run (fl_system_new l) s"
  shows "(\<forall>t. fs_owned s t \<subseteq> {..<n} \<and> fs_pc s t \<noteq> Panicked) \<and> (\<forall>t u. t \<noteq> u \<longrightarrow> fs_owned s t \<inter> fs_owned s u = {}) \<and>
    (\<forall>t u i. fs_pc s t = AcqDone (Some i) \<longrightarrow> i < n \<and> i \<notin> fs_owned s u \<and> (fs_pc s u = AcqDone (Some i) \<longrightarrow> u = t)) \<and>
    (\<exists>fs. distinct fs \<and> links (fl_next (fs_list s)) (fst (unpack_free_head (fl_head (fs_list s)))) fs \<and>
      set fs \<subseteq> {..<n} - (\<Union>t. fs_owned s t) \<and> ((\<forall>t. fs_pc s t = Idle) \<longrightarrow> set fs = {..<n} - (\<Union>t. fs_owned s t)) \<and>
      (\<forall>weak t l'. fl_atomic weak (fs_list s) (fs_pc s t) = Some (l', AcqDone None) \<longrightarrow> fs = []))"
proof -
  obtain fs pv who where i: "fl_inv_at s fs pv who" using run_ok [OF assms(2) free_list_new_ok(1) [OF assms(1)]] unfolding fl_inv_def by blast
  have n: "fl_slot_count (fs_list s) = n" using run_slot_count [OF assms(2)] free_list_new_ok(2) [OF assms(1)] by (simp add: fl_system_new_def)
  note I = fl_invD [OF i, unfolded n]
  have none: "fs = []" if "fl_atomic weak (fs_list s) (fs_pc s t) = Some (l', AcqDone None)" for weak t l'
  proof (cases "fs_pc s t")
    case AcqLoad
    then have "fst (unpack_free_head (fl_head (fs_list s))) = FREE_LIST_EMPTY" using that by (auto simp: Let_def split: if_splits)
    then show ?thesis using I(4) I(1,2) small_index(2) [of "hd fs"] by (cases fs) auto
  next
    case (AcqNext state)
    then show ?thesis using that I(11) [of t] by (auto simp: nth_opt_def split: if_splits)
  next
    case (RelSwap todo first prev)
    then show ?thesis using that by (cases todo) (auto simp: Let_def bind_eq_Some_conv split: if_splits option.splits)
  qed (use that in \<open>auto simp: Let_def split_def bind_eq_Some_conv split: if_splits\<close>)
  have ret: "x < n \<and> x \<notin> fs_owned s u \<and> (fs_pc s u = AcqDone (Some x) \<longrightarrow> u = t)" if "fs_pc s t = AcqDone (Some x)" for t u x
    using I(8) [of x t] I(8) [of x u] I(9) [of x u] I(11) [of t] I(11) [of u] that by auto
  have idle: "set fs = {..<n} - (\<Union>t. fs_owned s t)" if "\<forall>t. fs_pc s t = Idle"
  proof -
    have "who j \<noteq> Moving t" if "j < n" for j t using I(8) [of j t] I(11) [of t] \<open>\<forall>t. fs_pc s t = Idle\<close> that by auto
    then have "j \<in> set fs \<longleftrightarrow> j < n \<and> (\<forall>t. j \<notin> fs_owned s t)" for j using I(6) [of j] I(9) [of j] by (cases "who j") auto
    then show ?thesis by auto
  qed
  have sub: "set fs \<subseteq> {..<n} - (\<Union>t. fs_owned s t)" 
  proof
    fix x assume "x \<in> set fs"
    then have x: "x < n" "who x = Free" using I(6) [of x] by simp_all
    have "x \<notin> fs_owned s t" for t using I(9) [of x t] x by simp
    then show "x \<in> {..<n} - (\<Union>t. fs_owned s t)" using x(1) by simp
  qed
  have A: "\<forall>t. fs_owned s t \<subseteq> {..<n} \<and> fs_pc s t \<noteq> Panicked" 
  proof (intro allI conjI subsetI notI)
    show "x \<in> {..<n}" if "x \<in> fs_owned s t" for t x using iffD1 [OF I(9) that] by (simp only: lessThan_iff)
    show False if "fs_pc s t = Panicked" for t using I(11) [of t] that by (simp only: pc_ok.simps)
  qed
  have B: "\<forall>t u. t \<noteq> u \<longrightarrow> fs_owned s t \<inter> fs_owned s u = {}"
  proof (intro allI impI)
    fix t u :: nat
    assume ne: "t \<noteq> u"
    have False if "x \<in> fs_owned s t" "x \<in> fs_owned s u" for x
      using iffD1 [OF I(9) that(1)] iffD1 [OF I(9) that(2)] ne by (simp only: place.inject) 
    then show "fs_owned s t \<inter> fs_owned s u = {}" by blast
  qed
  have idle': "(\<forall>t. fs_pc s t = Idle) \<longrightarrow> set fs = {..<n} - (\<Union>t. fs_owned s t)" by (rule impI) (rule idle)
  have none': "\<forall>weak t l'. fl_atomic weak (fs_list s) (fs_pc s t) = Some (l', AcqDone None) \<longrightarrow> fs = []" by (intro allI impI none)
  have D: "\<exists>fs. distinct fs \<and> links (fl_next (fs_list s)) (fst (unpack_free_head (fl_head (fs_list s)))) fs \<and>
      set fs \<subseteq> {..<n} - (\<Union>t. fs_owned s t) \<and> ((\<forall>t. fs_pc s t = Idle) \<longrightarrow> set fs = {..<n} - (\<Union>t. fs_owned s t)) \<and>
      (\<forall>weak t l'. fl_atomic weak (fs_list s) (fs_pc s t) = Some (l', AcqDone None) \<longrightarrow> fs = [])"
    by (rule exI [of _ fs], intro conjI I(4,5) sub idle' none')
  have C: "\<forall>t u i. fs_pc s t = AcqDone (Some i) \<longrightarrow> i < n \<and> i \<notin> fs_owned s u \<and> (fs_pc s u = AcqDone (Some i) \<longrightarrow> u = t)"
    by (intro allI impI ret)
  show ?thesis by (rule conjI [OF A conjI [OF B conjI [OF C D]]])
qed

text \<open>A run in which one thread takes slot 0 of two while another starts to.\<close>

lemma demo_run:
  obtains l s where "free_list_new 2 = Some l" "fl_run (fl_system_new l) s" "fs_owned s 0 = {0}" "fs_pc s 2 = AcqNext (pack_free_head 0 0)"
    "fs_list s = \<lparr>fl_head = pack_free_head 1 1, fl_next = [FREE_LIST_LEASED, FREE_LIST_EMPTY], fl_slot_count = 2\<rparr>" "\<forall>t\<ge>3. fs_pc s t = Idle"
proof -
  define l where "l = \<lparr>fl_head = pack_free_head 0 0, fl_next = [1, FREE_LIST_EMPTY], fl_slot_count = 2\<rparr>"
  have u: "[0..<2] = [0, 1]" by (simp add: upt_rec)
  have l: "free_list_new 2 = Some l" by (simp add: u free_list_new_def l_def FREE_LIST_LEASED_def)
  have ne: "(0 :: u32) \<noteq> FREE_LIST_EMPTY" "pack_free_head 1 1 \<noteq> pack_free_head 0 0" by (simp_all add: FREE_LIST_EMPTY_def pack_free_head_def)
  note sel = fl_system_new_def fl_internal_def l_def ne Let_def nth_opt_def set_opt_def
  define s1 where "s1 = (fl_system_new l)\<lparr>fs_pc := (\<lambda>_. Idle)(2 := AcqLoad)\<rparr>"
  have 1: "fl_step (fl_system_new l) s1" using fl_step.call_acquire [of "fl_system_new l" 2] by (simp add: s1_def fl_system_new_def)
  define s2 where "s2 = fl_internal s1 2 l (AcqNext (pack_free_head 0 0))"
  have 2: "fl_step s1 s2" unfolding s2_def by (rule fl_step.atomic [of False]) (simp add: s1_def sel)
  define s3 where "s3 = s2\<lparr>fs_pc := (fs_pc s2)(0 := AcqLoad)\<rparr>"
  have 3: "fl_step s2 s3" unfolding s3_def by (rule fl_step.call_acquire) (simp add: s2_def s1_def sel)
  define s4 where "s4 = fl_internal s3 0 l (AcqNext (pack_free_head 0 0))"
  have 4: "fl_step s3 s4" unfolding s4_def by (rule fl_step.atomic [of False]) (simp add: s3_def s2_def s1_def sel)
  define s5 where "s5 = fl_internal s4 0 l (AcqCas (pack_free_head 0 0) 1)"
  have 5: "fl_step s4 s5" unfolding s5_def by (rule fl_step.atomic [of False]) (simp add: s4_def s3_def s2_def s1_def sel)
  define s6 where "s6 = fl_internal s5 0 (l\<lparr>fl_head := pack_free_head 1 1\<rparr>) (AcqMark 0)"
  have 6: "fl_step s5 s6" unfolding s6_def by (rule fl_step.atomic [of False]) (simp add: s5_def s4_def s3_def s2_def s1_def sel)
  define s7 where "s7 = fl_internal s6 0 (l\<lparr>fl_head := pack_free_head 1 1, fl_next := [FREE_LIST_LEASED, FREE_LIST_EMPTY]\<rparr>) (AcqDone (Some 0))"
  have 7: "fl_step s6 s7" unfolding s7_def by (rule fl_step.atomic [of False]) (simp add: s6_def s5_def s4_def s3_def s2_def s1_def sel)
  define s8 where "s8 = s7\<lparr>fs_pc := (fs_pc s7)(0 := Idle), fs_owned := (fs_owned s7)(0 := fs_owned s7 0 \<union> set_option (Some 0))\<rparr>"
  have 8: "fl_step s7 s8" unfolding s8_def by (rule fl_step.acquired) (simp add: s7_def sel)
  note all = s1_def s2_def s3_def s4_def s5_def s6_def s7_def s8_def
  have m: "fs_muts s \<le> 1 \<Longrightarrow> in_window s" for s by (simp add: in_window_def)
  have muts: "fs_muts s1 \<le> 1" "fs_muts s2 \<le> 1" "fs_muts s3 \<le> 1" "fs_muts s4 \<le> 1" "fs_muts s5 \<le> 1" "fs_muts s6 \<le> 1" "fs_muts s7 \<le> 1" "fs_muts (fl_system_new l) \<le> 1"
    by (simp_all add: all sel)
  have "fl_run (fl_system_new l) s8"
    by (rule fl_run.step, rule fl_run.step, rule fl_run.step, rule fl_run.step, rule fl_run.step, rule fl_run.step, rule fl_run.step, rule fl_run.step, rule fl_run.start)
      (use 1 2 3 4 5 6 7 8 m muts in blast)+
  moreover have "fs_owned s8 0 = {0}" "fs_pc s8 2 = AcqNext (pack_free_head 0 0)"
    "fs_list s8 = \<lparr>fl_head = pack_free_head 1 1, fl_next = [FREE_LIST_LEASED, FREE_LIST_EMPTY], fl_slot_count = 2\<rparr>" "\<forall>t\<ge>3. fs_pc s8 t = Idle"
    by (simp_all add: all sel)
  ultimately show thesis using that l by blast
qed

theorem free_list_leases_once_witness:
  "\<exists>l s. free_list_new 2 = Some l \<and> fl_run (fl_system_new l) s \<and> fs_owned s 0 = {0} \<and> 0 \<notin> fs_owned s 2 \<and> fs_pc s 2 \<noteq> Panicked"
proof -
  obtain l s where r: "free_list_new 2 = Some l" "fl_run (fl_system_new l) s" "fs_owned s 0 = {0}" by (rule demo_run)
  have "fs_owned s 0 \<inter> fs_owned s 2 = {}" "fs_pc s 2 \<noteq> Panicked" using free_list_leases_once [OF r(1,2)] by auto
  then show ?thesis using r by auto
qed

text \<open>C10 (liveness). The free list is lock-free: a call in progress can always do its next operation, and however the threads are
  scheduled, after at most \<open>(\<Sum>t<k. thread_rank s t)\<close> operations of \<open>k\<close> threads some exchange succeeds, which completes a call, or
  no call is in progress any more. A thread that runs alone is done within its own rank; spurious failures of the weak
  exchange do not count.\<close>

theorem free_list_lock_free:
  assumes "free_list_new n = Some l" and "fl_run (fl_system_new l) s" and "\<forall>t\<ge>k. \<not> in_call (fs_pc s t)" and "(fl_busy ^^ m) s s'"
  shows "m \<le> (\<Sum>t<k. thread_rank s t) \<and>
    (\<forall>t. in_call (fs_pc s' t) \<longrightarrow> (\<exists>l pc. fl_atomic False (fs_list s') (fs_pc s' t) = Some (l, pc) \<and> pc \<noteq> Panicked))"
proof -
  have i: "fl_inv s" by (rule run_ok [OF assms(2) free_list_new_ok(1) [OF assms(1)]])
  have "fl_inv s'" using assms(4) i by (induction m arbitrary: s') (auto dest: busy_inv)
  moreover have "m \<le> (\<Sum>t<k. thread_rank s t)" using busy_bound [OF assms(4) i assms(3)] by simp
  ultimately show ?thesis using call_can_step by blast
qed

theorem free_list_lock_free_witness:
  "\<exists>l s s'. free_list_new 2 = Some l \<and> fl_run (fl_system_new l) s \<and> (fl_busy ^^ 2) s s' \<and> in_call (fs_pc s' 2) \<and>
     (\<exists>l pc. fl_atomic False (fs_list s') (fs_pc s' 2) = Some (l, pc) \<and> pc \<noteq> Panicked)"
proof -
  obtain l s where r: "free_list_new 2 = Some l" "fl_run (fl_system_new l) s" "fs_pc s 2 = AcqNext (pack_free_head 0 0)"
    "fs_list s = \<lparr>fl_head = pack_free_head 1 1, fl_next = [FREE_LIST_LEASED, FREE_LIST_EMPTY], fl_slot_count = 2\<rparr>" "\<forall>t\<ge>3. fs_pc s t = Idle"
    by (rule demo_run)
  let ?s1 = "fl_internal s 2 (fs_list s) (AcqCas (pack_free_head 0 0) FREE_LIST_LEASED)"
  let ?s2 = "fl_internal ?s1 2 (fs_list s) AcqLoad"
  have ne: "(0 :: u32) \<noteq> FREE_LIST_EMPTY" "pack_free_head 1 1 \<noteq> pack_free_head 0 0" by (simp_all add: FREE_LIST_EMPTY_def pack_free_head_def)
  have "fl_busy s ?s1" unfolding fl_busy_def
    by (rule exI [of _ 2], rule exI [of _ "fs_list s"], rule exI [of _ "AcqCas (pack_free_head 0 0) FREE_LIST_LEASED"]) (simp add: r(3,4) nth_opt_def)
  moreover have "fl_busy ?s1 ?s2" unfolding fl_busy_def
    by (rule exI [of _ 2], rule exI [of _ "fs_list s"], rule exI [of _ AcqLoad]) (simp add: fl_internal_def r(3,4) ne Let_def)
  ultimately have b: "(fl_busy ^^ 2) s ?s2" by (auto simp: numeral_2_eq_2)
  have p: "in_call (fs_pc ?s2 2)" by (simp add: fl_internal_def in_call_def)
  have idle: "\<forall>t\<ge>3. \<not> in_call (fs_pc s t)" using r(5) by (simp add: in_call_def)
  from free_list_lock_free [OF r(1,2) idle b] p r(1,2) b show ?thesis by blast
qed

end
