(* ===== verification/Epoch_Clock.thy ===== *)
theory Epoch_Clock
  imports AG_Prelude
begin

section \<open>The shared epoch clock\<close>

text \<open>
  Models \<^verbatim>\<open>crates/aether-epoch/src/lib.rs\<close>. The counter is an \<^verbatim>\<open>AtomicU64\<close>; it is kept as a
  \<open>nat\<close> with the wrap-around of \<^verbatim>\<open>fetch_add\<close> written out. Each operation is one atomic access,
  so a function from the counter is its whole behaviour under interleaving.
\<close>

type_synonym epoch_clock = nat

definition U64_MAX :: nat where
  "U64_MAX = 2 ^ 64 - 1"

definition clock_new :: epoch_clock where
  "clock_new = 0"

definition clock_current :: "epoch_clock \<Rightarrow> nat" where
  "clock_current c = c"

text \<open>\<^verbatim>\<open>fetch_add(1)\<close> wraps; the \<^verbatim>\<open>+ 1\<close> on the value it returns is a plain addition.\<close>

definition clock_advance :: "epoch_clock \<Rightarrow> nat \<times> epoch_clock" where
  "clock_advance c = ((c + 1) mod 2 ^ 64, (c + 1) mod 2 ^ 64)"

lemma clock_advance_eq: "c < U64_MAX \<Longrightarrow> clock_advance c = (Suc c, Suc c)"
  by (simp add: clock_advance_def U64_MAX_def)

fun clock_advances :: "nat \<Rightarrow> epoch_clock \<Rightarrow> epoch_clock" where
  "clock_advances 0 c = c"
| "clock_advances (Suc n) c = clock_advances n (snd (clock_advance c))"

lemma clock_advances_eq: "c + n \<le> U64_MAX \<Longrightarrow> clock_advances n c = c + n"
  by (induction n arbitrary: c) (simp_all add: clock_advance_eq)

text \<open>Before the counter wraps, every advance returns a value above all earlier ones.\<close>

lemma clock_strictly_increases:
  assumes "c + n < U64_MAX"
  shows "fst (clock_advance (clock_advances n c)) = c + n + 1" and "clock_current (snd (clock_advance (clock_advances n c))) = c + n + 1"
  using assms by (simp_all add: clock_advances_eq clock_advance_eq clock_current_def)

end
