(* ===== verification/Chunk.thy ===== *)
theory Chunk
  imports AG_Prelude
begin

section \<open>Cache-line chunks of sorted neighbour ids\<close>

text \<open>
  Models \<^verbatim>\<open>crates/aether-graph/src/chunk.rs\<close>: the fixed array of 15 \<^verbatim>\<open>u32\<close> lanes with its
  length byte, the branchless search, insertion into a fresh chunk, splitting and merging.
  The padding bytes \<^verbatim>\<open>_pad\<close> are always zero and carry nothing, so the record leaves them
  out. \<open>wf_chunk\<close> is the invariant of the type (15 lanes) and of the module (at most 15
  valid lanes, strictly ascending).
\<close>

subsection \<open>The data\<close>

definition CHUNK_CAP :: nat where
  "CHUNK_CAP = 15"

record chunk =
  ch_count :: u8
  ch_data :: "u32 list"

definition chunk_empty :: chunk where
  "chunk_empty = \<lparr>ch_count = 0, ch_data = replicate CHUNK_CAP 0\<rparr>"

definition chunk_from_sorted_unchecked :: "u32 list \<Rightarrow> chunk option" where
  "chunk_from_sorted_unchecked s = do {
     assert_opt (length s \<le> CHUNK_CAP);
     Some \<lparr>ch_count = of_nat (length s),
           ch_data = s @ drop (length s) (ch_data chunk_empty)\<rparr> }"

definition chunk_from_sorted :: "u32 list \<Rightarrow> chunk option" where
  "chunk_from_sorted s = do {
     assert_opt (length s \<le> CHUNK_CAP);
     chunk_from_sorted_unchecked s }"

definition chunk_len :: "chunk \<Rightarrow> nat" where
  "chunk_len c = unat (ch_count c)"

definition chunk_as_slice :: "chunk \<Rightarrow> u32 list option" where
  "chunk_as_slice c = slice_opt (ch_data c) 0 (unat (ch_count c))"

definition chunk_is_empty :: "chunk \<Rightarrow> bool" where
  "chunk_is_empty c \<longleftrightarrow> ch_count c = 0"

definition chunk_is_full :: "chunk \<Rightarrow> bool" where
  "chunk_is_full c \<longleftrightarrow> unat (ch_count c) = CHUNK_CAP"

subsection \<open>Search, insertion, splitting\<close>

text \<open>
  The search loop runs over all 15 lanes; \<open>search_lane\<close> is its body. The result is
  \<open>Inr pos\<close> for \<^verbatim>\<open>Ok(pos)\<close> and \<open>Inl pos\<close> for \<^verbatim>\<open>Err(pos)\<close>.
\<close>

definition search_lane :: "chunk \<Rightarrow> u32 \<Rightarrow> nat \<Rightarrow> nat \<times> bool \<Rightarrow> nat \<times> bool" where
  "search_lane c val i = (\<lambda>(pos, found).
     let in_range = (i < unat (ch_count c)) in
     (pos + of_bool (in_range \<and> ch_data c ! i < val),
      found \<or> (in_range \<and> ch_data c ! i = val)))"

definition chunk_search :: "chunk \<Rightarrow> u32 \<Rightarrow> nat + nat" where
  "chunk_search c val =
     (case fold (search_lane c val) [0..<CHUNK_CAP] (0, False) of
        (pos, found) \<Rightarrow> if found then Inr pos else Inl pos)"

definition chunk_contains :: "chunk \<Rightarrow> u32 \<Rightarrow> bool" where
  "chunk_contains c val = (case chunk_search c val of Inr _ \<Rightarrow> True | Inl _ \<Rightarrow> False)"

text \<open>
  \<^verbatim>\<open>insert\<close>: \<open>Some None\<close> is Rust's \<^verbatim>\<open>None\<close> (duplicate). On a full chunk the last
  \<^verbatim>\<open>copy_from_slice\<close> names lane 15 and panics.
\<close>

definition chunk_insert :: "chunk \<Rightarrow> u32 \<Rightarrow> chunk option option" where
  "chunk_insert c val =
     (case chunk_search c val of
        Inr _ \<Rightarrow> Some None
      | Inl pos \<Rightarrow> do {
          let n = unat (ch_count c);
          pre \<leftarrow> slice_opt (ch_data c) 0 pos;
          assert_opt (pos < CHUNK_CAP);
          suf \<leftarrow> slice_opt (ch_data c) pos n;
          assert_opt (n + 1 \<le> CHUNK_CAP);
          Some (Some \<lparr>ch_count = ch_count c + 1,
                      ch_data = pre @ [val] @ suf @ drop (n + 1) (ch_data chunk_empty)\<rparr>) })"

definition chunk_split :: "chunk \<Rightarrow> (chunk \<times> chunk) option" where
  "chunk_split c = do {
     let n = unat (ch_count c);
     let mid = n div 2;
     l \<leftarrow> slice_opt (ch_data c) 0 mid;
     left \<leftarrow> chunk_from_sorted_unchecked l;
     r \<leftarrow> slice_opt (ch_data c) mid n;
     right \<leftarrow> chunk_from_sorted_unchecked r;
     Some (left, right) }"

subsection \<open>Bounds of a chunk and merging\<close>

definition chunk_min :: "chunk \<Rightarrow> u32" where
  "chunk_min c = ch_data c ! 0"

definition chunk_max :: "chunk \<Rightarrow> u32 option" where
  "chunk_max c = do {
     assert_opt (1 \<le> unat (ch_count c));
     nth_opt (ch_data c) (unat (ch_count c) - 1) }"

text \<open>
  The three loops of \<^verbatim>\<open>merge\<close>: the two-way loop and the two tails. The state is
  \<^verbatim>\<open>(ai, bi, ci)\<close> and the output lanes; writing lane 15 panics.
\<close>

function merge_both :: "chunk \<Rightarrow> chunk \<Rightarrow> nat \<Rightarrow> nat \<Rightarrow> nat \<Rightarrow> u32 list
    \<Rightarrow> (nat \<times> nat \<times> nat \<times> u32 list) option" where
  "merge_both a b ai bi ci d =
     (if ai < chunk_len a \<and> bi < chunk_len b then do {
        x \<leftarrow> nth_opt (ch_data a) ai;
        y \<leftarrow> nth_opt (ch_data b) bi;
        if x < y
        then do { d' \<leftarrow> set_opt d ci x; merge_both a b (ai + 1) bi (ci + 1) d' }
        else do { d' \<leftarrow> set_opt d ci y; merge_both a b ai (bi + 1) (ci + 1) d' } }
      else Some (ai, bi, ci, d))"
  by pat_completeness auto
termination
  by (relation "measure (\<lambda>(a, b, ai, bi, _). (chunk_len a - ai) + (chunk_len b - bi))") auto

function merge_tail :: "chunk \<Rightarrow> nat \<Rightarrow> nat \<Rightarrow> u32 list \<Rightarrow> (nat \<times> u32 list) option" where
  "merge_tail a ai ci d =
     (if ai < chunk_len a then do {
        x \<leftarrow> nth_opt (ch_data a) ai;
        d' \<leftarrow> set_opt d ci x;
        merge_tail a (ai + 1) (ci + 1) d' }
      else Some (ci, d))"
  by pat_completeness auto
termination
  by (relation "measure (\<lambda>(a, ai, _). chunk_len a - ai)") auto

definition chunk_merge :: "chunk \<Rightarrow> chunk \<Rightarrow> chunk option" where
  "chunk_merge a b = do {
     (ai, bi, ci, d) \<leftarrow> merge_both a b 0 0 0 (ch_data chunk_empty);
     (ci, d) \<leftarrow> merge_tail a ai ci d;
     (ci, d) \<leftarrow> merge_tail b bi ci d;
     Some \<lparr>ch_count = of_nat ci, ch_data = d\<rparr> }"

declare merge_both.simps [simp del] merge_tail.simps [simp del]

subsection \<open>The invariant and the abstraction\<close>

definition ch_elems :: "chunk \<Rightarrow> u32 list" where
  "ch_elems c = take (unat (ch_count c)) (ch_data c)"

definition wf_chunk :: "chunk \<Rightarrow> bool" where
  "wf_chunk c \<longleftrightarrow> length (ch_data c) = CHUNK_CAP \<and> unat (ch_count c) \<le> CHUNK_CAP \<and> ssorted (ch_elems c)"

lemma length_chunk_empty [simp]: "length (ch_data chunk_empty) = CHUNK_CAP"
  by (simp add: chunk_empty_def)

lemma length_ch_elems: "wf_chunk c \<Longrightarrow> length (ch_elems c) = unat (ch_count c)"
  by (simp add: wf_chunk_def ch_elems_def)

lemma length_ch_elems_le: "wf_chunk c \<Longrightarrow> length (ch_elems c) \<le> CHUNK_CAP"
  by (simp add: wf_chunk_def ch_elems_def)

lemma ssorted_ch_elems: "wf_chunk c \<Longrightarrow> ssorted (ch_elems c)"
  by (simp add: wf_chunk_def)

lemma chunk_len_elems: "wf_chunk c \<Longrightarrow> chunk_len c = length (ch_elems c)"
  by (simp add: chunk_len_def length_ch_elems)

lemma chunk_is_full_iff: "wf_chunk c \<Longrightarrow> chunk_is_full c \<longleftrightarrow> length (ch_elems c) = CHUNK_CAP"
  by (simp add: chunk_is_full_def length_ch_elems)

lemma chunk_as_slice_wf [panic_simps]: "wf_chunk c \<Longrightarrow> chunk_as_slice c = Some (ch_elems c)"
  by (simp add: chunk_as_slice_def wf_chunk_def slice_opt_Some ch_elems_def)

lemma ch_elems_prefix: "unat n = length xs \<Longrightarrow> ch_elems \<lparr>ch_count = n, ch_data = xs @ ys\<rparr> = xs"
  by (simp add: ch_elems_def)

lemma unat_small_u8: "n \<le> CHUNK_CAP \<Longrightarrow> unat (of_nat n :: u8) = n"
  by (simp add: CHUNK_CAP_def unat_of_nat)

lemma wf_chunk_empty [wf_intros]: "wf_chunk chunk_empty"
  by (simp add: wf_chunk_def chunk_empty_def ch_elems_def)

lemma ch_elems_empty [simp]: "ch_elems chunk_empty = []"
  by (simp add: chunk_empty_def ch_elems_def)

lemma from_sorted_unchecked_ok:
  assumes "length s \<le> CHUNK_CAP"
  obtains c where "chunk_from_sorted_unchecked s = Some c" and "ch_elems c = s"
    and "length (ch_data c) = CHUNK_CAP" and "unat (ch_count c) = length s"
proof
  let ?c = "\<lparr>ch_count = of_nat (length s), ch_data = s @ drop (length s) (ch_data chunk_empty)\<rparr>"
  show "chunk_from_sorted_unchecked s = Some ?c"
    using assms by (simp add: chunk_from_sorted_unchecked_def)
  show "ch_elems ?c = s" and "length (ch_data ?c) = CHUNK_CAP" and "unat (ch_count ?c) = length s"
    using assms by (simp_all add: ch_elems_def unat_small_u8)
qed

lemma from_sorted_unchecked_wf:
  assumes "length s \<le> CHUNK_CAP" and "ssorted s"
  shows "\<exists>c. chunk_from_sorted_unchecked s = Some c \<and> wf_chunk c \<and> ch_elems c = s"
  using from_sorted_unchecked_ok [OF assms(1)] assms by (metis wf_chunk_def)

subsection \<open>Correctness of the operations\<close>

lemma search_fold:
  assumes "k \<le> CHUNK_CAP" and "length (ch_data c) = CHUNK_CAP"
  shows "fold (search_lane c val) [0..<k] (0, False) =
    (below_count (take (min k (unat (ch_count c))) (ch_data c)) val,
     val \<in> set (take (min k (unat (ch_count c))) (ch_data c)))"
  using assms(1)
proof (induction k)
  case 0
  then show ?case by (simp add: below_count_def)
next
  case (Suc k)
  then have "k < length (ch_data c)" by (simp add: assms(2))
  with Suc show ?case
    by (auto simp: search_lane_def below_count_def take_Suc_nth min_def not_less
        dest: le_antisym less_antisym)
qed

lemma chunk_search_eq:
  assumes "wf_chunk c"
  shows "chunk_search c val =
    (if val \<in> set (ch_elems c) then Inr (below_count (ch_elems c) val)
     else Inl (below_count (ch_elems c) val))"
proof -
  have "min CHUNK_CAP (unat (ch_count c)) = unat (ch_count c)"
    using assms by (simp add: wf_chunk_def)
  with search_fold [of CHUNK_CAP c val] assms show ?thesis
    by (simp add: chunk_search_def wf_chunk_def ch_elems_def)
qed

lemma chunk_contains_iff: "wf_chunk c \<Longrightarrow> chunk_contains c val \<longleftrightarrow> val \<in> set (ch_elems c)"
  by (simp add: chunk_contains_def chunk_search_eq)

lemma chunk_insert_dup: "wf_chunk c \<Longrightarrow> val \<in> set (ch_elems c) \<Longrightarrow> chunk_insert c val = Some None"
  by (simp add: chunk_insert_def chunk_search_eq)

lemma chunk_insert_new:
  assumes wf: "wf_chunk c" and new: "val \<notin> set (ch_elems c)" and room: "\<not> chunk_is_full c"
  obtains c' where "chunk_insert c val = Some (Some c')" and "wf_chunk c'"
    and "set (ch_elems c') = insert val (set (ch_elems c))"
    and "length (ch_elems c') = Suc (length (ch_elems c))"
proof -
  let ?n = "unat (ch_count c)" and ?pos = "below_count (ch_elems c) val"
  have len: "length (ch_data c) = CHUNK_CAP" and n: "?n < CHUNK_CAP"
    using wf room by (auto simp: wf_chunk_def chunk_is_full_def)
  have pos: "?pos \<le> ?n"
    using below_count_le [of "ch_elems c" val] by (simp add: length_ch_elems wf)
  let ?new = "take ?pos (ch_elems c) @ val # drop ?pos (ch_elems c)"
  let ?c = "\<lparr>ch_count = ch_count c + 1, ch_data = ?new @ drop (?n + 1) (ch_data chunk_empty)\<rparr>"
  have cnt: "unat (ch_count c + 1) = Suc ?n"
    using n by (simp add: unat_word_ariths CHUNK_CAP_def)
  have newlen: "length ?new = Suc ?n" using wf pos by (simp add: length_ch_elems)
  have el: "ch_elems ?c = ?new" using newlen cnt by (intro ch_elems_prefix) simp
  have ins: "chunk_insert c val = Some (Some ?c)"
  proof -
    have "slice_opt (ch_data c) 0 ?pos = Some (take ?pos (ch_elems c))"
      using pos n len by (simp add: slice_opt_def ch_elems_def min_absorb1)
    moreover have "slice_opt (ch_data c) ?pos ?n = Some (drop ?pos (ch_elems c))"
      using pos n len by (simp add: slice_opt_def ch_elems_def drop_take)
    ultimately show ?thesis
      using pos n new by (simp add: chunk_insert_def chunk_search_eq wf)
  qed
  have sorted: "ssorted ?new"
    using sorted_insert_at_below [OF ssorted_ch_elems [OF wf] new] .
  have wf': "wf_chunk ?c"
    unfolding wf_chunk_def el using newlen n sorted by (simp add: cnt)
  have "set ?new = insert val (set (take ?pos (ch_elems c)) \<union> set (drop ?pos (ch_elems c)))"
    by simp
  then have set: "set ?new = insert val (set (ch_elems c))"
    by (metis set_append append_take_drop_id)
  show thesis
    using that [OF ins wf'] el set newlen by (simp add: length_ch_elems wf)
qed

lemma chunk_insert_full:
  assumes "wf_chunk c" and "val \<notin> set (ch_elems c)" and "chunk_is_full c"
  shows "chunk_insert c val = None"
proof -
  have "unat (ch_count c) = CHUNK_CAP" using assms(3) by (simp add: chunk_is_full_def)
  then show ?thesis
    by (simp add: chunk_insert_def chunk_search_eq assms(1,2) assert_opt_def split: Option.bind_splits)
qed

lemma chunk_split_ok:
  assumes wf: "wf_chunk c"
  obtains l r where "chunk_split c = Some (l, r)" and "wf_chunk l" and "wf_chunk r"
    and "ch_elems l @ ch_elems r = ch_elems c"
    and "length (ch_elems l) = length (ch_elems c) div 2"
proof -
  let ?n = "unat (ch_count c)" and ?es = "ch_elems c"
  have len: "length (ch_data c) = CHUNK_CAP" and n: "?n \<le> CHUNK_CAP" and es: "ssorted ?es"
    using wf by (auto simp: wf_chunk_def)
  have m: "?n div 2 \<le> ?n" "?n div 2 \<le> CHUNK_CAP" "?n - ?n div 2 \<le> CHUNK_CAP"
    using n by simp_all
  have les: "length ?es = ?n" using wf by (simp add: length_ch_elems)
  have s1: "slice_opt (ch_data c) 0 (?n div 2) = Some (take (?n div 2) ?es)"
    using n len m by (simp add: slice_opt_def ch_elems_def min_absorb1)
  have s2: "slice_opt (ch_data c) (?n div 2) ?n = Some (drop (?n div 2) ?es)"
    using n len m by (simp add: slice_opt_def ch_elems_def drop_take)
  obtain l where l: "chunk_from_sorted_unchecked (take (?n div 2) ?es) = Some l" "wf_chunk l"
      "ch_elems l = take (?n div 2) ?es"
    using from_sorted_unchecked_wf [of "take (?n div 2) ?es"] m les ssorted_take [OF es] by auto
  obtain r where r: "chunk_from_sorted_unchecked (drop (?n div 2) ?es) = Some r" "wf_chunk r"
      "ch_elems r = drop (?n div 2) ?es"
    using from_sorted_unchecked_wf [of "drop (?n div 2) ?es"] m les ssorted_drop [OF es] by auto
  show thesis
  proof (rule that)
    show "chunk_split c = Some (l, r)" by (simp add: chunk_split_def s1 s2 l(1) r(1))
    show "ch_elems l @ ch_elems r = ?es" by (simp add: l(3) r(3))
    show "length (ch_elems l) = length ?es div 2" using les by (simp add: l(3))
  qed (rule l(2), rule r(2))
qed

subsection \<open>Merging\<close>

text \<open>The reference: merging two lists, taking from the second one on a tie.\<close>

fun list_merge :: "'a::linorder list \<Rightarrow> 'a list \<Rightarrow> 'a list" where
  "list_merge [] ys = ys"
| "list_merge xs [] = xs"
| "list_merge (x # xs) (y # ys) =
     (if x < y then x # list_merge xs (y # ys) else y # list_merge (x # xs) ys)"

lemma length_list_merge [simp]: "length (list_merge xs ys) = length xs + length ys"
  by (induction xs ys rule: list_merge.induct) auto

lemma set_list_merge [simp]: "set (list_merge xs ys) = set xs \<union> set ys"
  by (induction xs ys rule: list_merge.induct) auto

lemma ssorted_list_merge:
  "ssorted xs \<Longrightarrow> ssorted ys \<Longrightarrow> set xs \<inter> set ys = {} \<Longrightarrow> ssorted (list_merge xs ys)"
  by (induction xs ys rule: list_merge.induct) (auto simp: not_less less_le)

lemma list_merge_Nil2 [simp]: "list_merge xs [] = xs"
  by (cases xs) simp_all

lemma take_Suc_update:
  "ci < length d \<Longrightarrow> take (Suc ci) (d[ci := x]) = take ci d @ [x]"
  by (simp add: take_Suc_conv_app_nth)

lemma drop_nth_Cons: "i < length xs \<Longrightarrow> drop i xs = xs ! i # drop (Suc i) xs"
  by (rule Cons_nth_drop_Suc [symmetric])

text \<open>
  Lanes below the length byte exist. This is all the copy loops need of their inputs, so the
  loop lemmas hold for unsorted chunks too.
\<close>

definition lanes_ok :: "chunk \<Rightarrow> bool" where
  "lanes_ok a \<longleftrightarrow> chunk_len a \<le> length (ch_data a)"

lemma lanes_ok_wf: "wf_chunk a \<Longrightarrow> lanes_ok a"
  by (simp add: lanes_ok_def wf_chunk_def chunk_len_def)

lemma lanes_drop:
  "lanes_ok a \<Longrightarrow> ai < chunk_len a \<Longrightarrow>
   nth_opt (ch_data a) ai = Some (ch_data a ! ai) \<and>
   drop ai (ch_elems a) = ch_data a ! ai # drop (Suc ai) (ch_elems a)"
  by (subst drop_nth_Cons) (simp_all add: lanes_ok_def nth_opt_def ch_elems_def chunk_len_def)

lemma lanes_drop_end: "chunk_len a \<le> ai \<Longrightarrow> drop ai (ch_elems a) = []"
  by (simp add: chunk_len_def ch_elems_def)

lemma merge_tail_ok:
  assumes "lanes_ok a" and "length d = CHUNK_CAP" and "ci + (chunk_len a - ai) \<le> CHUNK_CAP"
  shows "\<exists>d'. merge_tail a ai ci d = Some (ci + (chunk_len a - ai), d') \<and> length d' = CHUNK_CAP
    \<and> take (ci + (chunk_len a - ai)) d' = take ci d @ drop ai (ch_elems a)"
  using assms
proof (induction a ai ci d rule: merge_tail.induct)
  case (1 a ai ci d)
  show ?case
  proof (cases "ai < chunk_len a")
    case False
    with "1.prems" show ?thesis by (subst merge_tail.simps) (simp add: lanes_drop_end)
  next
    case True
    let ?x = "ch_data a ! ai"
    have ci: "ci < length d" using True "1.prems" by simp
    note nx = lanes_drop [OF "1.prems"(1) True]
    have step: "merge_tail a ai ci d = merge_tail a (Suc ai) (Suc ci) (d[ci := ?x])"
      using True nx ci by (subst merge_tail.simps) (simp add: set_opt_def)
    have "\<exists>d'. merge_tail a (Suc ai) (Suc ci) (d[ci := ?x])
          = Some (Suc ci + (chunk_len a - Suc ai), d') \<and> length d' = CHUNK_CAP
        \<and> take (Suc ci + (chunk_len a - Suc ai)) d'
          = take (Suc ci) (d[ci := ?x]) @ drop (Suc ai) (ch_elems a)"
      using "1.IH" [of ?x "d[ci := ?x]"] True ci nx "1.prems" by (simp add: set_opt_def)
    then show ?thesis using step ci True nx by (auto simp: take_Suc_update Suc_diff_Suc)
  qed
qed

definition merge_from :: "chunk \<Rightarrow> chunk \<Rightarrow> nat \<Rightarrow> nat \<Rightarrow> nat \<Rightarrow> u32 list \<Rightarrow> (nat \<times> u32 list) option" where
  "merge_from a b ai bi ci d = do {
     (ai, bi, ci, d) \<leftarrow> merge_both a b ai bi ci d;
     (ci, d) \<leftarrow> merge_tail a ai ci d;
     merge_tail b bi ci d }"

lemma merge_from_ok:
  assumes "lanes_ok a" and "lanes_ok b" and "length d = CHUNK_CAP"
    and "ci + (chunk_len a - ai) + (chunk_len b - bi) \<le> CHUNK_CAP"
  shows "\<exists>d'. merge_from a b ai bi ci d = Some (ci + (chunk_len a - ai) + (chunk_len b - bi), d')
    \<and> length d' = CHUNK_CAP
    \<and> take (ci + (chunk_len a - ai) + (chunk_len b - bi)) d'
      = take ci d @ list_merge (drop ai (ch_elems a)) (drop bi (ch_elems b))"
  using assms
proof (induction a b ai bi ci d rule: merge_both.induct)
  case (1 a b ai bi ci d)
  show ?case
  proof (cases "ai < chunk_len a \<and> bi < chunk_len b")
    case False
    obtain d1 where d1: "merge_tail a ai ci d = Some (ci + (chunk_len a - ai), d1)"
      "length d1 = CHUNK_CAP" "take (ci + (chunk_len a - ai)) d1 = take ci d @ drop ai (ch_elems a)"
      using merge_tail_ok [of a d ci ai] "1.prems" by auto
    obtain d2 where d2: "merge_tail b bi (ci + (chunk_len a - ai)) d1
        = Some (ci + (chunk_len a - ai) + (chunk_len b - bi), d2)" "length d2 = CHUNK_CAP"
      "take (ci + (chunk_len a - ai) + (chunk_len b - bi)) d2
        = take (ci + (chunk_len a - ai)) d1 @ drop bi (ch_elems b)"
      using merge_tail_ok [of b d1 "ci + (chunk_len a - ai)" bi] "1.prems" d1(2) by auto
    have "drop ai (ch_elems a) = [] \<or> drop bi (ch_elems b) = []"
      using False lanes_drop_end [of a ai] lanes_drop_end [of b bi] by (auto simp: not_less)
    then have "list_merge (drop ai (ch_elems a)) (drop bi (ch_elems b))
        = drop ai (ch_elems a) @ drop bi (ch_elems b)" by auto
    with False d1 d2 show ?thesis by (auto simp: merge_from_def merge_both.simps [of a b ai bi])
  next
    case True
    let ?x = "ch_data a ! ai" and ?y = "ch_data b ! bi"
    have ci: "ci < length d" using True "1.prems" by arith
    note nx = lanes_drop [OF "1.prems"(1) conjunct1 [OF True]]
      and ny = lanes_drop [OF "1.prems"(2) conjunct2 [OF True]]
    show ?thesis
    proof (cases "?x < ?y")
      case lt: True
      have "merge_from a b ai bi ci d = merge_from a b (Suc ai) bi (Suc ci) (d[ci := ?x])"
        using True nx ny ci lt
        by (simp add: merge_from_def merge_both.simps [of a b ai bi] set_opt_def)
      then show ?thesis
        using "1.IH"(1) [of ?x ?y "d[ci := ?x]"] True nx ny ci lt "1.prems"
        by (auto simp: set_opt_def take_Suc_update Suc_diff_Suc)
    next
      case ge: False
      have "merge_from a b ai bi ci d = merge_from a b ai (Suc bi) (Suc ci) (d[ci := ?y])"
        using True nx ny ci ge
        by (simp add: merge_from_def merge_both.simps [of a b ai bi] set_opt_def)
      then show ?thesis
        using "1.IH"(2) [of ?x ?y "d[ci := ?y]"] True nx ny ci ge "1.prems"
        by (auto simp: set_opt_def take_Suc_update Suc_diff_Suc)
    qed
  qed
qed

lemma chunk_merge_eq:
  assumes "lanes_ok a" and "lanes_ok b" and "chunk_len a + chunk_len b \<le> CHUNK_CAP"
  obtains c where "chunk_merge a b = Some c" and "length (ch_data c) = CHUNK_CAP"
    and "unat (ch_count c) = chunk_len a + chunk_len b"
    and "ch_elems c = list_merge (ch_elems a) (ch_elems b)"
proof -
  obtain d where d: "merge_from a b 0 0 0 (ch_data chunk_empty)
      = Some (chunk_len a + chunk_len b, d)" "length d = CHUNK_CAP"
    "take (chunk_len a + chunk_len b) d = list_merge (ch_elems a) (ch_elems b)"
    using merge_from_ok [of a b "ch_data chunk_empty" 0 0 0] assms by auto
  have "chunk_merge a b = map_option (\<lambda>(ci, d). \<lparr>ch_count = of_nat ci, ch_data = d\<rparr>)
      (merge_from a b 0 0 0 (ch_data chunk_empty))"
    by (auto simp: chunk_merge_def merge_from_def split: Option.bind_splits option.splits)
  with d assms(3) show thesis
    by (intro that [of "\<lparr>ch_count = of_nat (chunk_len a + chunk_len b), ch_data = d\<rparr>"])
      (simp_all add: unat_small_u8 ch_elems_def del: of_nat_add)
qed

subsection \<open>Properties\<close>

text \<open>C33 Inserting into a chunk that is not full refines insertion into a set: it never panics,
  answers \<open>None\<close> exactly for a value already present, and otherwise returns a well-formed chunk
  holding one more element, which a later search finds.\<close>

theorem chunk_insert_refines_set:
  assumes "wf_chunk c" and "\<not> chunk_is_full c"
  shows "case chunk_insert c val of
      None \<Rightarrow> False
    | Some None \<Rightarrow> val \<in> set (ch_elems c)
    | Some (Some c') \<Rightarrow> val \<notin> set (ch_elems c) \<and> wf_chunk c' \<and>
        set (ch_elems c') = insert val (set (ch_elems c)) \<and> chunk_len c' = chunk_len c + 1 \<and>
        chunk_contains c' val"
proof (cases "val \<in> set (ch_elems c)")
  case True
  then show ?thesis using assms by (simp add: chunk_insert_dup)
next
  case False
  from assms(1) False assms(2) obtain c' where "chunk_insert c val = Some (Some c')" "wf_chunk c'"
    "set (ch_elems c') = insert val (set (ch_elems c))"
    "length (ch_elems c') = Suc (length (ch_elems c))"
    by (rule chunk_insert_new)
  with False assms show ?thesis by (simp add: chunk_len_elems chunk_contains_iff)
qed

theorem chunk_insert_refines_set_witness:
  "case chunk_insert chunk_empty 7 of Some (Some c') \<Rightarrow> chunk_len c' = 1 \<and> chunk_contains c' 7 | _ \<Rightarrow> False"
proof -
  have "\<not> chunk_is_full chunk_empty" "chunk_len chunk_empty = 0"
    by (simp_all add: chunk_is_full_def chunk_len_def chunk_empty_def CHUNK_CAP_def)
  with chunk_insert_refines_set [OF wf_chunk_empty, of 7] show ?thesis
    by (auto split: option.splits)
qed

lemma list_merge_append: "\<forall>x\<in>set xs. \<forall>y\<in>set ys. x < y \<Longrightarrow> list_merge xs ys = xs @ ys"
proof (induction xs)
  case (Cons x xs)
  then show ?case by (cases ys) simp_all
qed simp

text \<open>Splitting a chunk never panics and gives two well-formed halves, the first with half of the
  elements rounded down, and merging the halves gives the chunk's elements back.\<close>

theorem chunk_split_merge_roundtrip:
  assumes "wf_chunk c"
  shows "\<exists>l r m. chunk_split c = Some (l, r) \<and> wf_chunk l \<and> wf_chunk r \<and> chunk_len l = chunk_len c div 2 \<and>
    chunk_merge l r = Some m \<and> wf_chunk m \<and> ch_elems m = ch_elems c"
proof -
  obtain l r where s: "chunk_split c = Some (l, r)" "wf_chunk l" "wf_chunk r"
    "ch_elems l @ ch_elems r = ch_elems c" "length (ch_elems l) = length (ch_elems c) div 2"
    by (rule chunk_split_ok [OF assms])
  have len: "chunk_len l + chunk_len r = chunk_len c"
    using arg_cong [OF s(4), of length] assms s(2,3) by (simp add: chunk_len_elems)
  then have "chunk_len l + chunk_len r \<le> CHUNK_CAP"
    using length_ch_elems_le [OF assms] by (simp add: chunk_len_elems [OF assms])
  from chunk_merge_eq [OF lanes_ok_wf [OF s(2)] lanes_ok_wf [OF s(3)] this] obtain m where
    m: "chunk_merge l r = Some m" "length (ch_data m) = CHUNK_CAP"
    "unat (ch_count m) = chunk_len l + chunk_len r" "ch_elems m = list_merge (ch_elems l) (ch_elems r)"
    by blast
  have srt: "ssorted (ch_elems l @ ch_elems r)" using ssorted_ch_elems [OF assms] s(4) by simp
  then have "ch_elems m = ch_elems c"
    unfolding m(4) ssorted_append using s(4) by (simp add: list_merge_append)
  moreover have "wf_chunk m"
    using m(2,3) len length_ch_elems_le [OF assms] ssorted_ch_elems [OF assms] \<open>ch_elems m = ch_elems c\<close>
    by (simp add: wf_chunk_def chunk_len_elems [OF assms])
  ultimately show ?thesis using s m(1) assms by (simp add: chunk_len_elems)
qed

theorem chunk_split_merge_roundtrip_witness:
  "\<exists>l r m. chunk_split chunk_empty = Some (l, r) \<and> chunk_merge l r = Some m \<and> ch_elems m = []"
  using chunk_split_merge_roundtrip [OF wf_chunk_empty] by auto

lemma mset_list_merge: "mset (list_merge xs ys) = mset xs + mset ys"
  by (induction xs ys rule: list_merge.induct) auto

lemma sorted_list_merge: "sorted xs \<Longrightarrow> sorted ys \<Longrightarrow> sorted (list_merge xs ys)"
  by (induction xs ys rule: list_merge.induct) (auto simp: not_less)

text \<open>Merging two chunks that fit together keeps every element of both, in ascending order: a
  value present in both is kept twice, so the result is a well-formed chunk exactly when the two
  are disjoint.\<close>

theorem chunk_merge_keeps_all:
  assumes "wf_chunk a" and "wf_chunk b" and "chunk_len a + chunk_len b \<le> CHUNK_CAP"
  shows "\<exists>c. chunk_merge a b = Some c \<and> mset (ch_elems c) = mset (ch_elems a) + mset (ch_elems b) \<and>
    sorted (ch_elems c) \<and> (wf_chunk c \<longleftrightarrow> set (ch_elems a) \<inter> set (ch_elems b) = {})"
proof -
  obtain c where c: "chunk_merge a b = Some c" "length (ch_data c) = CHUNK_CAP"
    "unat (ch_count c) = chunk_len a + chunk_len b" "ch_elems c = list_merge (ch_elems a) (ch_elems b)"
    by (rule chunk_merge_eq [OF lanes_ok_wf [OF assms(1)] lanes_ok_wf [OF assms(2)] assms(3)])
  have m: "mset (ch_elems c) = mset (ch_elems a @ ch_elems b)" by (simp add: c(4) mset_list_merge)
  have "distinct (ch_elems c) \<longleftrightarrow> set (ch_elems a) \<inter> set (ch_elems b) = {}"
    using assms(1,2) unfolding mset_eq_imp_distinct_iff [OF m]
    by (simp add: ssorted_ch_elems ssorted_distinct)
  moreover have s: "sorted (ch_elems c)"
    unfolding c(4) using assms(1,2) by (simp add: sorted_list_merge ssorted_ch_elems ssorted_sorted)
  moreover have "wf_chunk c \<longleftrightarrow> distinct (ch_elems c)"
    using s c(2,3) assms(3) by (simp add: wf_chunk_def strict_sorted_iff)
  ultimately show ?thesis using c(1) m by simp
qed

theorem chunk_merge_keeps_all_witness:
  "\<exists>a b c. chunk_from_sorted [1, 5] = Some a \<and> chunk_from_sorted [5, 9] = Some b \<and>
     chunk_merge a b = Some c \<and> mset (ch_elems c) = {#1, 5, 5, 9#} \<and> \<not> wf_chunk c"
proof -
  obtain a where a: "chunk_from_sorted_unchecked [1, 5] = Some a" "wf_chunk a" "ch_elems a = [1, 5]"
    using from_sorted_unchecked_wf [of "[1, 5]"] by (auto simp: CHUNK_CAP_def)
  obtain b where b: "chunk_from_sorted_unchecked [5, 9] = Some b" "wf_chunk b" "ch_elems b = [5, 9]"
    using from_sorted_unchecked_wf [of "[5, 9]"] by (auto simp: CHUNK_CAP_def)
  have "chunk_from_sorted [1, 5] = Some a" "chunk_from_sorted [5, 9] = Some b"
    using a(1) b(1) by (simp_all add: chunk_from_sorted_def CHUNK_CAP_def)
  with chunk_merge_keeps_all [OF a(2) b(2)] a(2,3) b(2,3) show ?thesis
    by (auto simp: chunk_len_elems CHUNK_CAP_def add_mset_commute)
qed

end
