(* ===== verification/Pin_Registry.thy ===== *)
theory Pin_Registry
  imports Epoch_Clock "HOL-Library.Multiset"
begin

section \<open>The registry of pinned epochs\<close>

text \<open>
  Models \<^verbatim>\<open>PinRegistry\<close> and \<^verbatim>\<open>PinTicket\<close> of \<^verbatim>\<open>crates/aether-graph/src/arena.rs\<close>: an ascending
  vector of \<open>(epoch, refcount)\<close> pairs and a cached minimum. Each operation holds the mutex from
  its first to its last access. The abstraction is the multiset of pinned epochs, one element
  per live ticket.
\<close>

record pin_registry =
  pr_pins :: "(nat \<times> nat) list"
  pr_min :: nat

definition pins_new :: pin_registry where
  "pins_new = \<lparr>pr_pins = [], pr_min = U64_MAX\<rparr>"

text \<open>
  \<^verbatim>\<open>binary_search_by_key\<close> on a vector ascending in distinct keys: the key's index, or the
  index where inserting it keeps the order.
\<close>

definition pins_search :: "(nat \<times> nat) list \<Rightarrow> nat \<Rightarrow> nat + nat" where
  "pins_search ps e =
     (let i = length (takeWhile (\<lambda>p. fst p < e) ps) in
      if i < length ps \<and> fst (ps ! i) = e then Inr i else Inl i)"

definition pins_first :: "(nat \<times> nat) list \<Rightarrow> nat" where
  "pins_first ps = (case ps of [] \<Rightarrow> U64_MAX | p # _ \<Rightarrow> fst p)"

definition pins_register :: "pin_registry \<Rightarrow> nat \<Rightarrow> pin_registry" where
  "pins_register r e =
     (let ps = (case pins_search (pr_pins r) e of
                  Inr i \<Rightarrow> (pr_pins r)[i := (fst (pr_pins r ! i), snd (pr_pins r ! i) + 1)]
                | Inl i \<Rightarrow> take i (pr_pins r) @ (e, 1) # drop i (pr_pins r))
      in \<lparr>pr_pins = ps, pr_min = pins_first ps\<rparr>)"

definition pins_release :: "pin_registry \<Rightarrow> nat \<Rightarrow> pin_registry option" where
  "pins_release r e =
     (case pins_search (pr_pins r) e of
        Inl _ \<Rightarrow> None
      | Inr i \<Rightarrow>
          let n = snd (pr_pins r ! i) - 1;
              ps = (if n = 0 then take i (pr_pins r) @ drop (Suc i) (pr_pins r)
                    else (pr_pins r)[i := (fst (pr_pins r ! i), n)])
          in Some \<lparr>pr_pins = ps, pr_min = pins_first ps\<rparr>)"

definition pins_min_pinned :: "pin_registry \<Rightarrow> nat" where
  "pins_min_pinned r = pr_min r"

definition pins_pin_count :: "pin_registry \<Rightarrow> nat" where
  "pins_pin_count r = sum_list (map snd (pr_pins r))"

subsection \<open>The contract of a registry\<close>

text \<open>
  What the reclaimer and the snapshots rely on: \<open>pinned\<close> is the multiset of live tickets, and the
  cached minimum is below every one of them.
\<close>

locale pinning =
  fixes register :: "'r \<Rightarrow> nat \<Rightarrow> 'r"
    and release :: "'r \<Rightarrow> nat \<Rightarrow> 'r option"
    and min_pinned :: "'r \<Rightarrow> nat"
    and pinned :: "'r \<Rightarrow> nat multiset"
    and invar :: "'r \<Rightarrow> bool"
  assumes pinned_register: "invar r \<Longrightarrow> pinned (register r e) = add_mset e (pinned r)"
    and invar_register: "invar r \<Longrightarrow> invar (register r e)"
    and release_some: "invar r \<Longrightarrow> e \<in># pinned r \<Longrightarrow>
      \<exists>r'. release r e = Some r' \<and> invar r' \<and> pinned r' = pinned r - {#e#}"
    and release_none: "invar r \<Longrightarrow> e \<notin># pinned r \<Longrightarrow> release r e = None"
    and min_le: "invar r \<Longrightarrow> e \<in># pinned r \<Longrightarrow> min_pinned r \<le> e"
    and min_in: "invar r \<Longrightarrow> pinned r \<noteq> {#} \<Longrightarrow> min_pinned r \<in># pinned r"
    and min_empty: "invar r \<Longrightarrow> pinned r = {#} \<Longrightarrow> min_pinned r = U64_MAX"
begin

lemma register_release:
  assumes "invar r"
  shows "\<exists>r'. release (register r e) e = Some r' \<and> invar r' \<and> pinned r' = pinned r"
  using release_some [OF invar_register [OF assms], of e e] pinned_register [OF assms, of e] by simp

lemma handover:
  assumes "invar r" and "e \<in># pinned r" and "e \<le> e'"
  shows "\<exists>r'. release (register r e') e = Some r' \<and> invar r' \<and>
    pinned r' = add_mset e' (pinned r - {#e#}) \<and> min_pinned r \<le> min_pinned r'"
proof -
  have inv: "invar (register r e')" and p: "pinned (register r e') = add_mset e' (pinned r)"
    using assms(1) by (simp_all add: invar_register pinned_register)
  then obtain r' where r': "release (register r e') e = Some r'" "invar r'"
    "pinned r' = add_mset e' (pinned r) - {#e#}"
    using release_some [OF inv, of e] assms(2) by auto
  have eq: "pinned r' = add_mset e' (pinned r - {#e#})"
    using r'(3) assms(2) by (auto simp: multi_drop_mem_not_eq)
  have "min_pinned r' \<in># pinned r'"
    using min_in [OF r'(2)] eq by simp
  then have "min_pinned r' = e' \<or> min_pinned r' \<in># pinned r"
    using eq by (auto dest: in_diffD)
  then have "min_pinned r \<le> min_pinned r'"
    using min_le [OF assms(1)] assms(2,3) by (meson order_trans)
  with r' eq show ?thesis by blast
qed

end

subsection \<open>The vector meets the contract\<close>

fun pins_mset :: "(nat \<times> nat) list \<Rightarrow> nat multiset" where
  "pins_mset [] = {#}"
| "pins_mset ((e, c) # ps) = replicate_mset c e + pins_mset ps"

definition pins_pinned :: "pin_registry \<Rightarrow> nat multiset" where
  "pins_pinned r = pins_mset (pr_pins r)"

definition pins_wf :: "pin_registry \<Rightarrow> bool" where
  "pins_wf r \<longleftrightarrow> ssorted (map fst (pr_pins r)) \<and> (\<forall>p\<in>set (pr_pins r). 0 < snd p)
     \<and> pr_min r = pins_first (pr_pins r)"

lemma pins_mset_append [simp]: "pins_mset (xs @ ys) = pins_mset xs + pins_mset ys"
  by (induction xs rule: pins_mset.induct) (auto simp: add.assoc)

lemma set_pins_mset:
  "(\<forall>p\<in>set ps. 0 < snd p) \<Longrightarrow> set_mset (pins_mset ps) = fst ` set ps"
  by (induction ps rule: pins_mset.induct) auto

lemma pins_count_size: "pins_pin_count r = size (pins_pinned r)"
proof -
  have "sum_list (map snd ps) = size (pins_mset ps)" for ps
    by (induction ps rule: pins_mset.induct) auto
  then show ?thesis by (simp add: pins_pin_count_def pins_pinned_def)
qed

lemma pins_search_split:
  assumes "ssorted (map fst ps)"
  obtains (found) lo c hi where "ps = lo @ (e, c) # hi" and "pins_search ps e = Inr (length lo)"
    and "\<forall>p\<in>set lo. fst p < e" and "\<forall>p\<in>set hi. e < fst p"
  | (missing) lo hi where "ps = lo @ hi" and "pins_search ps e = Inl (length lo)"
    and "\<forall>p\<in>set lo. fst p < e" and "\<forall>p\<in>set hi. e < fst p"
proof -
  let ?lo = "takeWhile (\<lambda>p. fst p < e) ps" and ?hi = "dropWhile (\<lambda>p. fst p < e) ps"
  have ps: "ps = ?lo @ ?hi" by simp
  have lo: "\<forall>p\<in>set ?lo. fst p < e" by (auto dest: set_takeWhileD)
  have sh: "ssorted (map fst ?hi)"
    using assms by (subst (asm) ps) (simp only: map_append ssorted_append)
  show thesis
  proof (cases ?hi)
    case Nil
    with ps have tw: "takeWhile (\<lambda>p. fst p < e) ps = ps" by simp
    have "pins_search ps e = Inl (length ps)" unfolding pins_search_def Let_def tw by simp
    moreover have "\<forall>p\<in>set ps. fst p < e" using lo unfolding tw .
    ultimately show thesis by (intro missing [of ps "[]"]) auto
  next
    case (Cons p hi)
    have nth: "ps ! length ?lo = p" using ps Cons by (metis nth_append_length)
    have len: "length ?lo < length ps" using ps Cons by (metis length_append less_add_same_cancel1 length_greater_0_conv list.distinct(1))
    have ge: "e \<le> fst p" using Cons hd_dropWhile [of "\<lambda>p. fst p < e" ps] by simp
    have hi: "\<forall>q\<in>set hi. fst p < fst q" using sh Cons by simp
    show thesis
    proof (cases "fst p = e")
      case True
      have "ps = ?lo @ (e, snd p) # hi" using ps Cons True by (metis surjective_pairing)
      moreover have "pins_search ps e = Inr (length ?lo)"
        using len nth True by (simp add: pins_search_def)
      ultimately show thesis using lo hi True by (intro found) auto
    next
      case False
      have "pins_search ps e = Inl (length ?lo)" using nth False by (simp add: pins_search_def)
      moreover have "\<forall>q\<in>set (p # hi). e < fst q" using hi ge False by auto
      ultimately show thesis using ps Cons lo by (intro missing [of ?lo "p # hi"]) auto
    qed
  qed
qed

lemma pins_first_le: "ssorted (map fst ps) \<Longrightarrow> p \<in> set ps \<Longrightarrow> pins_first ps \<le> fst p"
  by (cases ps) (auto simp: pins_first_def less_imp_le)

lemma pins_register_wf:
  assumes "pins_wf r"
  shows "pins_wf (pins_register r e) \<and> pins_pinned (pins_register r e) = add_mset e (pins_pinned r)"
proof -
  have s: "ssorted (map fst (pr_pins r))" and pos: "\<forall>p\<in>set (pr_pins r). 0 < snd p"
    using assms by (auto simp: pins_wf_def)
  from s show ?thesis
  proof (cases rule: pins_search_split [where e = e])
    case (found lo c hi)
    then have "pr_pins (pins_register r e) = lo @ (e, c + 1) # hi"
      by (simp add: pins_register_def Let_def)
    moreover have "pr_min (pins_register r e) = pins_first (pr_pins (pins_register r e))"
      by (simp add: pins_register_def Let_def)
    ultimately show ?thesis
      using s pos unfolding pins_wf_def pins_pinned_def found(1)
      by (simp add: ssorted_append)
  next
    case (missing lo hi)
    then have "pr_pins (pins_register r e) = lo @ (e, 1) # hi"
      by (simp add: pins_register_def Let_def)
    moreover have "pr_min (pins_register r e) = pins_first (pr_pins (pins_register r e))"
      by (simp add: pins_register_def Let_def)
    ultimately show ?thesis
      using s pos missing(3,4) unfolding pins_wf_def pins_pinned_def missing(1)
      by (auto simp: ssorted_append)
  qed
qed

lemma pins_release_wf:
  assumes "pins_wf r" and "e \<in># pins_pinned r"
  shows "\<exists>r'. pins_release r e = Some r' \<and> pins_wf r' \<and> pins_pinned r' = pins_pinned r - {#e#}"
proof -
  have s: "ssorted (map fst (pr_pins r))" and pos: "\<forall>p\<in>set (pr_pins r). 0 < snd p"
    using assms(1) by (auto simp: pins_wf_def)
  have mem: "e \<in> fst ` set (pr_pins r)"
    using assms(2) by (simp add: pins_pinned_def set_pins_mset [OF pos])
  from s show ?thesis
  proof (cases rule: pins_search_split [where e = e])
    case (found lo c hi)
    have c: "0 < c" using pos found(1) by auto
    let ?ps = "if c = 1 then lo @ hi else lo @ (e, c - 1) # hi"
    have "pins_release r e = Some \<lparr>pr_pins = ?ps, pr_min = pins_first ?ps\<rparr>"
      using found c by (auto simp: pins_release_def Let_def)
    moreover have "pins_wf \<lparr>pr_pins = ?ps, pr_min = pins_first ?ps\<rparr>"
      using s pos c unfolding pins_wf_def found(1) by (auto simp: ssorted_append)
    moreover obtain k where "c = Suc k" using c by (cases c) auto
    then have "pins_mset ?ps = pins_pinned r - {#e#}"
      unfolding pins_pinned_def found(1) by auto
    ultimately show ?thesis by (simp add: pins_pinned_def)
  next
    case (missing lo hi)
    with mem show ?thesis by auto
  qed
qed

lemma pins_release_unpinned:
  assumes "pins_wf r" and "e \<notin># pins_pinned r"
  shows "pins_release r e = None"
proof -
  have s: "ssorted (map fst (pr_pins r))" and pos: "\<forall>p\<in>set (pr_pins r). 0 < snd p"
    using assms(1) by (auto simp: pins_wf_def)
  have "e \<notin> fst ` set (pr_pins r)"
    using assms(2) by (simp add: pins_pinned_def set_pins_mset [OF pos])
  with s show ?thesis
    by (cases rule: pins_search_split [where e = e]) (auto simp: pins_release_def)
qed

lemma pins_min_wf:
  assumes "pins_wf r"
  shows "e \<in># pins_pinned r \<Longrightarrow> pins_min_pinned r \<le> e"
    and "pins_pinned r \<noteq> {#} \<Longrightarrow> pins_min_pinned r \<in># pins_pinned r"
    and "pins_pinned r = {#} \<Longrightarrow> pins_min_pinned r = U64_MAX"
proof -
  have s: "ssorted (map fst (pr_pins r))" and pos: "\<forall>p\<in>set (pr_pins r). 0 < snd p"
    and m: "pr_min r = pins_first (pr_pins r)"
    using assms by (auto simp: pins_wf_def)
  note set = set_pins_mset [OF pos]
  show "e \<in># pins_pinned r \<Longrightarrow> pins_min_pinned r \<le> e"
    using pins_first_le [OF s] by (auto simp: pins_pinned_def set m pins_min_pinned_def)
  show "pins_pinned r \<noteq> {#} \<Longrightarrow> pins_min_pinned r \<in># pins_pinned r"
    using set by (cases "pr_pins r") (auto simp: pins_pinned_def m pins_min_pinned_def pins_first_def)
  have "pins_mset ps = {#} \<Longrightarrow> \<forall>p\<in>set ps. 0 < snd p \<Longrightarrow> ps = []" for ps
    by (cases ps) auto
  from this [of "pr_pins r"] pos show "pins_pinned r = {#} \<Longrightarrow> pins_min_pinned r = U64_MAX"
    by (simp add: pins_pinned_def m pins_min_pinned_def pins_first_def)
qed

interpretation pin_vec: pinning pins_register pins_release pins_min_pinned pins_pinned pins_wf
  using pins_register_wf pins_release_wf pins_release_unpinned pins_min_wf
  by unfold_locales auto

lemma pins_wf_new: "pins_wf pins_new" and pins_pinned_new [simp]: "pins_pinned pins_new = {#}"
  by (simp_all add: pins_wf_def pins_new_def pins_first_def pins_pinned_def)

subsection \<open>Properties\<close>

text \<open>Handing a pin over to a later epoch, registering the new one before releasing the old one,
  never lowers the cached minimum that gates reuse, changes the pins by exactly that exchange and
  keeps the registry well formed.\<close>

theorem pin_handover_never_lowers_min:
  assumes "pins_wf r" and "e \<in># pins_pinned r" and "e \<le> e'"
  shows "\<exists>r'. pins_release (pins_register r e') e = Some r' \<and> pins_wf r' \<and>
    pins_pinned r' = add_mset e' (pins_pinned r - {#e#}) \<and> pins_min_pinned r \<le> pins_min_pinned r'"
  using assms by (rule pin_vec.handover)

theorem pin_handover_never_lowers_min_witness:
  "\<exists>r'. pins_release (pins_register (pins_register pins_new 4) 9) 4 = Some r' \<and>
     pins_pinned r' = {#9#} \<and> 4 \<le> pins_min_pinned r'"
proof -
  have "pins_wf (pins_register pins_new 4)" "pins_pinned (pins_register pins_new 4) = {#4#}"
    using pin_vec.invar_register [OF pins_wf_new(1)] pin_vec.pinned_register [OF pins_wf_new(1), of 4] by simp_all
  moreover have "pins_min_pinned (pins_register pins_new 4) = 4"
    by (simp add: pins_min_pinned_def pins_register_def pins_new_def pins_search_def pins_first_def)
  ultimately show ?thesis using pin_handover_never_lowers_min [of "pins_register pins_new 4" 4 9] by auto
qed

end
