(* ===== verification/Read_Gate.thy ===== *)
theory Read_Gate
  imports AG_Prelude
begin

section \<open>The two-phase reader gate\<close>

text \<open>
  Models \<^verbatim>\<open>ReadGate\<close>, \<^verbatim>\<open>GateStripe\<close>, \<^verbatim>\<open>ReadGuard\<close> and \<^verbatim>\<open>gate_stripe\<close> of
  \<^verbatim>\<open>crates/aether-graph/src/arena.rs\<close>, first as functions on the gate's counters, then as a step
  relation in which every atomic access of readers and writer is a step of its own, so that a
  reader may enter between two loads of the writer's scan. The atomics the argument rests on
  are \<^verbatim>\<open>SeqCst\<close>, so the steps interleave; the reader's \<^verbatim>\<open>Relaxed\<close> load of the phase may return
  an older value, and its step says so.
\<close>

subsection \<open>The gate's counters\<close>

definition GATE_STRIPES :: nat where
  "GATE_STRIPES = 16"

record gate =
  g_phase :: nat
  g_stripes :: "(nat \<times> nat) list"

definition gate_new :: gate where
  "gate_new = \<lparr>g_phase = 0, g_stripes = replicate GATE_STRIPES (0, 0)\<rparr>"

text \<open>\<^verbatim>\<open>active[bucket]\<close> of a stripe; the bucket is a phase's low bit.\<close>

definition stripe_get :: "nat \<Rightarrow> nat \<times> nat \<Rightarrow> nat" where
  "stripe_get b p = (if b = 0 then fst p else snd p)"

definition stripe_map :: "nat \<Rightarrow> (nat \<Rightarrow> nat) \<Rightarrow> nat \<times> nat \<Rightarrow> nat \<times> nat" where
  "stripe_map b f p = (if b = 0 then (f (fst p), snd p) else (fst p, f (snd p)))"

definition gate_active :: "gate \<Rightarrow> nat \<Rightarrow> nat \<Rightarrow> nat" where
  "gate_active g k b = stripe_get b (g_stripes g ! k)"

definition gate_update :: "nat \<Rightarrow> nat \<Rightarrow> (nat \<Rightarrow> nat) \<Rightarrow> gate \<Rightarrow> gate" where
  "gate_update k b f g = g\<lparr>g_stripes := (g_stripes g)[k := stripe_map b f (g_stripes g ! k)]\<rparr>"

definition gate_enter :: "gate \<Rightarrow> nat \<Rightarrow> nat \<times> gate" where
  "gate_enter g k = (let b = g_phase g mod 2 in (b, gate_update k b Suc g))"

definition gate_leave :: "gate \<Rightarrow> nat \<Rightarrow> nat \<Rightarrow> gate" where
  "gate_leave g k b = gate_update k b (\<lambda>n. n - 1) g"

definition gate_bucket_empty :: "gate \<Rightarrow> nat \<Rightarrow> bool" where
  "gate_bucket_empty g b \<longleftrightarrow> (\<forall>p\<in>set (g_stripes g). stripe_get b p = 0)"

fun gate_advance_loop :: "nat \<Rightarrow> gate \<Rightarrow> gate" where
  "gate_advance_loop 0 g = g"
| "gate_advance_loop (Suc i) g =
     (if \<not> gate_bucket_empty g ((g_phase g + 1) mod 2) then g
      else gate_advance_loop i (g\<lparr>g_phase := g_phase g + 1\<rparr>))"

definition gate_advance :: "gate \<Rightarrow> gate" where
  "gate_advance g = gate_advance_loop 2 g"

text \<open>
  \<^verbatim>\<open>gate_stripe()\<close>: the round-robin counter and the thread-local cache, from which the calling
  thread \<open>t\<close> gets the same stripe at every call.
\<close>

definition gate_stripe :: "nat \<Rightarrow> (nat \<rightharpoonup> nat) \<Rightarrow> nat \<Rightarrow> nat \<times> nat \<times> (nat \<rightharpoonup> nat)" where
  "gate_stripe next cache t =
     (case cache t of
        Some v \<Rightarrow> (v, next, cache)
      | None \<Rightarrow> let v = next mod GATE_STRIPES in (v, next + 1, cache(t \<mapsto> v)))"

lemma gate_stripe_range:
  "(\<And>v. v \<in> ran cache \<Longrightarrow> v < GATE_STRIPES) \<Longrightarrow> fst (gate_stripe next cache t) < GATE_STRIPES"
  by (auto simp: gate_stripe_def GATE_STRIPES_def Let_def ranI split: option.splits)

lemma gate_stripe_cached:
  assumes "gate_stripe next cache t = (v, next', cache')"
  shows "fst (gate_stripe next'' cache' t) = v"
  using assms by (auto simp: gate_stripe_def Let_def split: option.splits)

lemma gate_advance_phase:
  "g_phase g \<le> g_phase (gate_advance g) \<and> g_phase (gate_advance g) \<le> g_phase g + 2"
  by (simp add: gate_advance_def numeral_2_eq_2)

lemma gate_advance_idle:
  assumes "gate_bucket_empty g 0" and "gate_bucket_empty g (Suc 0)"
  shows "g_phase (gate_advance g) = g_phase g + 2"
proof -
  have e: "gate_bucket_empty (g\<lparr>g_phase := p\<rparr>) b = gate_bucket_empty g b" for p b
    by (simp add: gate_bucket_empty_def)
  have "b mod 2 = 0 \<or> b mod 2 = Suc 0" for b :: nat by arith
  then have all: "gate_bucket_empty g (b mod 2)" for b using assms by metis
  show ?thesis
    using all [of "Suc (g_phase g)"] all [of "Suc (Suc (g_phase g))"]
    by (simp add: gate_advance_def numeral_2_eq_2 e)
qed

subsection \<open>Readers and the writer as interleaved steps\<close>

text \<open>
  A published root is identified by the number of root stores before it. A reader steers by a
  phase it loaded (possibly a stale one), adds itself to that bucket, loads the root, and
  traverses it until it drops the guard. The writer stores a new root, stamps what the old root
  reached with \<^verbatim>\<open>phase + 2\<close>, scans one stripe per step towards the next phase, and frees a
  stamped version once the phase has reached its stamp. Nested guards of one thread are several
  readers with the same stripe.
\<close>

datatype reader_pc = RIdle | RSteer nat | REntered nat | RHold nat nat

datatype writer_pc = WIdle | WScan nat nat

record gate_sys =
  gs_gate :: gate
  gs_reader :: "nat \<Rightarrow> reader_pc"
  gs_stripe :: "nat \<Rightarrow> nat"
  gs_root :: nat
  gs_logged :: "nat set"
  gs_grace :: "nat \<rightharpoonup> nat"
  gs_freed :: "nat set"
  gs_writer :: writer_pc

definition gate_sys_init :: "(nat \<Rightarrow> nat) \<Rightarrow> gate_sys" where
  "gate_sys_init st = \<lparr>gs_gate = gate_new, gs_reader = (\<lambda>_. RIdle), gs_stripe = st, gs_root = 0,
     gs_logged = {}, gs_grace = Map.empty, gs_freed = {}, gs_writer = WIdle\<rparr>"

inductive gate_step :: "gate_sys \<Rightarrow> gate_sys \<Rightarrow> bool" where
  steer: "gs_reader s r = RIdle \<Longrightarrow> p \<le> g_phase (gs_gate s) \<Longrightarrow>
    gate_step s (s\<lparr>gs_reader := (gs_reader s)(r := RSteer (p mod 2))\<rparr>)"
| enter: "gs_reader s r = RSteer b \<Longrightarrow>
    gate_step s (s\<lparr>gs_gate := gate_update (gs_stripe s r) b Suc (gs_gate s),
      gs_reader := (gs_reader s)(r := REntered b)\<rparr>)"
| load_root: "gs_reader s r = REntered b \<Longrightarrow>
    gate_step s (s\<lparr>gs_reader := (gs_reader s)(r := RHold b (gs_root s))\<rparr>)"
| leave: "gs_reader s r = REntered b \<or> gs_reader s r = RHold b v \<Longrightarrow>
    gate_step s (s\<lparr>gs_gate := gate_leave (gs_gate s) (gs_stripe s r) b,
      gs_reader := (gs_reader s)(r := RIdle)\<rparr>)"
| publish: "gs_writer s = WIdle \<Longrightarrow>
    gate_step s (s\<lparr>gs_root := Suc (gs_root s), gs_logged := insert (gs_root s) (gs_logged s)\<rparr>)"
| stamp: "gs_writer s = WIdle \<Longrightarrow>
    gate_step s (s\<lparr>gs_logged := {},
      gs_grace := (\<lambda>v. if v \<in> gs_logged s then Some (g_phase (gs_gate s) + 2) else gs_grace s v)\<rparr>)"
| scan: "gs_writer s = WIdle \<Longrightarrow> gate_step s (s\<lparr>gs_writer := WScan 0 0\<rparr>)"
| check: "gs_writer s = WScan i k \<Longrightarrow> k < GATE_STRIPES \<Longrightarrow>
    gate_active (gs_gate s) k ((g_phase (gs_gate s) + 1) mod 2) = 0 \<Longrightarrow>
    gate_step s (s\<lparr>gs_writer := WScan i (Suc k)\<rparr>)"
| blocked: "gs_writer s = WScan i k \<Longrightarrow> k < GATE_STRIPES \<Longrightarrow>
    gate_active (gs_gate s) k ((g_phase (gs_gate s) + 1) mod 2) \<noteq> 0 \<Longrightarrow>
    gate_step s (s\<lparr>gs_writer := WIdle\<rparr>)"
| bump: "gs_writer s = WScan i GATE_STRIPES \<Longrightarrow>
    gate_step s (s\<lparr>gs_gate := (gs_gate s)\<lparr>g_phase := Suc (g_phase (gs_gate s))\<rparr>,
      gs_writer := (if i = 0 then WScan 1 0 else WIdle)\<rparr>)"
| free: "gs_writer s = WIdle \<Longrightarrow> gs_grace s v = Some g \<Longrightarrow> g \<le> g_phase (gs_gate s) \<Longrightarrow>
    gate_step s (s\<lparr>gs_grace := (gs_grace s)(v := None), gs_freed := insert v (gs_freed s)\<rparr>)"

inductive gate_reach :: "(nat \<Rightarrow> nat) \<Rightarrow> gate_sys \<Rightarrow> bool" for st where
  init: "(\<And>r. st r < GATE_STRIPES) \<Longrightarrow> gate_reach st (gate_sys_init st)"
| step: "gate_reach st s \<Longrightarrow> gate_step s t \<Longrightarrow> gate_reach st t"

subsection \<open>The invariant\<close>

fun in_bucket :: "reader_pc \<Rightarrow> nat \<Rightarrow> bool" where
  "in_bucket (REntered b) c = (b = c)"
| "in_bucket (RHold b v) c = (b = c)"
| "in_bucket _ c = False"

fun pc_bucket_ok :: "reader_pc \<Rightarrow> bool" where
  "pc_bucket_ok (RSteer b) = (b < 2)"
| "pc_bucket_ok (REntered b) = (b < 2)"
| "pc_bucket_ok (RHold b v) = (b < 2)"
| "pc_bucket_ok RIdle = True"

definition members :: "gate_sys \<Rightarrow> nat \<Rightarrow> nat \<Rightarrow> nat set" where
  "members s k b = {r. gs_stripe s r = k \<and> in_bucket (gs_reader s r) b}"

text \<open>The counters are exact, and the readers that ever moved are finitely many.\<close>

definition counts_ok :: "gate_sys \<Rightarrow> bool" where
  "counts_ok s \<longleftrightarrow> length (g_stripes (gs_gate s)) = GATE_STRIPES \<and>
     (\<forall>r. gs_stripe s r < GATE_STRIPES) \<and> (\<forall>r. pc_bucket_ok (gs_reader s r)) \<and>
     finite {r. gs_reader s r \<noteq> RIdle} \<and>
     (\<forall>k b. k < GATE_STRIPES \<longrightarrow> b < 2 \<longrightarrow> gate_active (gs_gate s) k b = card (members s k b))"

definition holds :: "gate_sys \<Rightarrow> nat \<Rightarrow> nat \<Rightarrow> bool" where
  "holds s b v \<longleftrightarrow> (\<exists>r. gs_reader s r = RHold b v)"

text \<open>
  What the phase says about a stamped version: one advance after the stamp nobody in the first
  drained bucket holds it, two advances after the stamp nobody does. During a scan the same is
  true of the stripes already scanned.
\<close>

definition grace_ok :: "gate_sys \<Rightarrow> bool" where
  "grace_ok s \<longleftrightarrow> (\<forall>v g. gs_grace s v = Some g \<longrightarrow> v < gs_root s \<and> v \<notin> gs_logged s \<and>
     g \<le> g_phase (gs_gate s) + 2 \<and>
     (g \<le> g_phase (gs_gate s) + 1 \<longrightarrow> \<not> holds s ((g + 1) mod 2) v) \<and>
     (g \<le> g_phase (gs_gate s) \<longrightarrow> \<not> holds s (g mod 2) v))"

definition scan_ok :: "gate_sys \<Rightarrow> bool" where
  "scan_ok s \<longleftrightarrow> (\<forall>i k. gs_writer s = WScan i k \<longrightarrow> k \<le> GATE_STRIPES \<and>
     (\<forall>v r. v \<in> dom (gs_grace s) \<longrightarrow> gs_stripe s r < k \<longrightarrow>
        gs_reader s r \<noteq> RHold ((g_phase (gs_gate s) + 1) mod 2) v))"

definition versions_ok :: "gate_sys \<Rightarrow> bool" where
  "versions_ok s \<longleftrightarrow> (\<forall>v\<in>gs_logged s. v < gs_root s) \<and>
     (\<forall>v\<in>gs_freed s. v < gs_root s \<and> v \<notin> gs_logged s \<and> gs_grace s v = None \<and> (\<forall>b. \<not> holds s b v)) \<and>
     (\<forall>r b v. gs_reader s r = RHold b v \<longrightarrow> v \<le> gs_root s)"

definition gate_inv :: "gate_sys \<Rightarrow> bool" where
  "gate_inv s \<longleftrightarrow> counts_ok s \<and> grace_ok s \<and> scan_ok s \<and> versions_ok s"

lemma gate_active_update:
  assumes "k < length (g_stripes g)" and "k' < length (g_stripes g)" and "b < 2" and "b' < 2"
  shows "gate_active (gate_update k b f g) k' b'
    = (if k = k' \<and> b = b' then f (gate_active g k b) else gate_active g k' b')"
  using assms by (auto simp: gate_active_def gate_update_def stripe_get_def stripe_map_def nth_list_update)

lemma gate_update_phase [simp]: "g_phase (gate_update k b f g) = g_phase g"
  and gate_update_len [simp]: "length (g_stripes (gate_update k b f g)) = length (g_stripes g)"
  by (simp_all add: gate_update_def)

lemma members_finite: "counts_ok s \<Longrightarrow> finite (members s k b)"
  by (rule finite_subset [of _ "{r. gs_reader s r \<noteq> RIdle}"])
    (auto simp: counts_ok_def members_def)

lemma gate_active_zero:
  assumes "counts_ok s" and "gate_active (gs_gate s) (gs_stripe s r) b = 0" and "b < 2"
  shows "\<not> in_bucket (gs_reader s r) b"
proof -
  have "card (members s (gs_stripe s r) b) = 0" using assms by (simp add: counts_ok_def)
  then have "members s (gs_stripe s r) b = {}" using members_finite [OF assms(1)] by simp
  then show ?thesis by (auto simp: members_def)
qed

lemma members_step:
  assumes "gs_stripe t = gs_stripe s" and "gs_reader t = (gs_reader s)(r := pc)"
  shows "members t k b = (if gs_stripe s r = k \<and> in_bucket pc b
    then insert r (members s k b) else members s k b - {r})"
  using assms by (auto simp: members_def)

lemma counts_ok_cong:
  assumes "counts_ok s" and "gs_stripe t = gs_stripe s" and "gs_reader t = gs_reader s"
    and "g_stripes (gs_gate t) = g_stripes (gs_gate s)"
  shows "counts_ok t"
  using assms by (simp add: counts_ok_def members_def gate_active_def)

lemma counts_ok_reader:
  assumes ok: "counts_ok s" and st: "gs_stripe t = gs_stripe s"
    and rd: "gs_reader t = (gs_reader s)(r := pc)" and pc: "pc_bucket_ok pc"
    and len: "length (g_stripes (gs_gate t)) = GATE_STRIPES"
    and cnt: "\<And>k b. k < GATE_STRIPES \<Longrightarrow> b < 2 \<Longrightarrow>
      gate_active (gs_gate t) k b = card (if gs_stripe s r = k \<and> in_bucket pc b
        then insert r (members s k b) else members s k b - {r})"
  shows "counts_ok t"
proof -
  have "{q. gs_reader t q \<noteq> RIdle} \<subseteq> insert r {q. gs_reader s q \<noteq> RIdle}"
    by (auto simp: rd)
  then have "finite {q. gs_reader t q \<noteq> RIdle}"
    by (rule finite_subset) (use ok in \<open>simp add: counts_ok_def\<close>)
  then show ?thesis
    using ok len cnt pc st by (auto simp: counts_ok_def members_step [OF st rd] rd)
qed

lemma step_counts_ok:
  assumes "gate_step s t" and ok: "counts_ok s"
  shows "counts_ok t"
proof -
  have len: "length (g_stripes (gs_gate s)) = GATE_STRIPES" and str: "gs_stripe s r < GATE_STRIPES"
    and pcs: "pc_bucket_ok (gs_reader s r)" for r
    using ok by (auto simp: counts_ok_def)
  have cnt: "k < GATE_STRIPES \<Longrightarrow> b < 2 \<Longrightarrow> gate_active (gs_gate s) k b = card (members s k b)" for k b
    using ok by (simp add: counts_ok_def)
  note fin = members_finite [OF ok]
  have out: "r \<notin> members s k b" if "\<not> in_bucket (gs_reader s r) b" for r k b
    using that by (simp add: members_def)
  from assms(1) show ?thesis
  proof cases
    case (steer r p)
    have "members s k b - {r} = members s k b" for k b using steer(2) by (auto simp: members_def)
    then show ?thesis using steer cnt len
      by (intro counts_ok_reader [OF ok, where r = r and pc = "RSteer (p mod 2)"]) auto
  next
    case (enter r b)
    have b: "b < 2" using pcs [of r] enter(2) by simp
    have nin: "r \<notin> members s k c" for k c using enter(2) by (simp add: members_def)
    show ?thesis
    proof (rule counts_ok_reader [OF ok, where r = r and pc = "REntered b"])
      fix k c assume kc: "k < GATE_STRIPES" "c < (2::nat)"
      show "gate_active (gs_gate t) k c = card (if gs_stripe s r = k \<and> in_bucket (REntered b) c
          then insert r (members s k c) else members s k c - {r})"
        using enter kc b str [of r] len nin fin cnt by (auto simp: gate_active_update)
    qed (use enter b len in auto)
  next
    case (load_root r b)
    have b: "b < 2" using pcs [of r] load_root(2) by simp
    have "(if gs_stripe s r = k \<and> in_bucket (RHold b (gs_root s)) c
        then insert r (members s k c) else members s k c - {r}) = members s k c" for k c
      using load_root(2) by (auto simp: members_def)
    then show ?thesis using load_root b cnt len
      by (intro counts_ok_reader [OF ok, where r = r and pc = "RHold b (gs_root s)"]) auto
  next
    case (leave r b v)
    have b: "b < 2" using pcs [of r] leave(2) by auto
    have ib: "in_bucket (gs_reader s r) c = (b = c)" for c using leave(2) by auto
    show ?thesis
    proof (rule counts_ok_reader [OF ok, where r = r and pc = RIdle])
      fix k c assume kc: "k < GATE_STRIPES" "c < (2::nat)"
      have mem: "r \<in> members s k c \<longleftrightarrow> gs_stripe s r = k \<and> b = c" by (auto simp: members_def ib)
      show "gate_active (gs_gate t) k c = card (if gs_stripe s r = k \<and> in_bucket RIdle c
          then insert r (members s k c) else members s k c - {r})"
        using leave kc b str [of r] len fin cnt mem
        by (auto simp: gate_active_update gate_leave_def card_Diff_singleton_if)
    qed (use leave b len in \<open>auto simp: gate_leave_def\<close>)
  qed (auto intro: counts_ok_cong [OF ok])
qed

lemma holds_reader_upd:
  "gs_reader t = (gs_reader s)(r := pc) \<Longrightarrow> holds t b v \<Longrightarrow> pc = RHold b v \<or> holds s b v"
  by (auto simp: holds_def split: if_splits)

lemma step_holds:
  assumes "gate_step s t" and "holds t b v"
  shows "holds s b v \<or> v = gs_root s"
  using assms by cases (auto simp: holds_def split: if_splits)

lemma two_buckets: "b < 2 \<Longrightarrow> b = (g + 1) mod 2 \<or> b = g mod (2::nat)"
  by arith

lemma step_grace_ok:
  assumes st: "gate_step s t" and inv: "gate_inv s"
  shows "grace_ok t"
proof -
  have gr: "gs_grace s v = Some g \<Longrightarrow> v < gs_root s \<and> v \<notin> gs_logged s \<and> g \<le> g_phase (gs_gate s) + 2 \<and>
      (g \<le> g_phase (gs_gate s) + 1 \<longrightarrow> \<not> holds s ((g + 1) mod 2) v) \<and>
      (g \<le> g_phase (gs_gate s) \<longrightarrow> \<not> holds s (g mod 2) v)" for v g
    using inv unfolding gate_inv_def grace_ok_def by blast
  have nh: "\<not> holds t b v" if "\<not> holds s b v" "v < gs_root s" for b v
    using step_holds [OF st] that by blast
  show ?thesis
  proof (cases "\<exists>i. gs_writer s = WScan i GATE_STRIPES \<and> g_phase (gs_gate t) = Suc (g_phase (gs_gate s))")
    case False
    from st gr nh show ?thesis
    proof cases
      case stamp
      have "v < gs_root s" if "v \<in> gs_logged s" for v
        using inv that by (auto simp: gate_inv_def versions_ok_def)
      with stamp gr nh show ?thesis by (auto simp: grace_ok_def split: if_splits)
    next
      case (bump i)
      with False show ?thesis by auto
    next
      case publish
      with gr nh show ?thesis by (fastforce simp: grace_ok_def)
    qed (auto simp: grace_ok_def gate_leave_def split: if_splits)
  next
    case True
    from st True show ?thesis
    proof cases
      case (bump i)
      let ?p = "g_phase (gs_gate s)"
      have sc: "\<not> holds s ((?p + 1) mod 2) v" if "gs_grace s v = Some g" for v g
        using inv bump(2) that unfolding gate_inv_def scan_ok_def counts_ok_def holds_def
        by (metis domI)
      have "\<not> holds s ((g + 1) mod 2) v" if "gs_grace s v = Some g" "g \<le> ?p + 2" for v g
        using sc [OF that(1)] gr [OF that(1)] that(2) by (cases "g = ?p + 2") auto
      moreover have "\<not> holds s (g mod 2) v" if "gs_grace s v = Some g" "g \<le> ?p + 1" for v g
        using sc [OF that(1)] gr [OF that(1)] that(2) by (cases "g = ?p + 1") auto
      ultimately show ?thesis
        using bump gr nh by (fastforce simp: grace_ok_def)
    qed (auto simp: gate_leave_def)
  qed
qed

lemma step_scan_ok:
  assumes st: "gate_step s t" and inv: "gate_inv s"
  shows "scan_ok t"
proof -
  have sc: "gs_writer s = WScan i k \<Longrightarrow> k \<le> GATE_STRIPES \<and> (\<forall>v r. v \<in> dom (gs_grace s) \<longrightarrow>
      gs_stripe s r < k \<longrightarrow> gs_reader s r \<noteq> RHold ((g_phase (gs_gate s) + 1) mod 2) v)" for i k
    using inv unfolding gate_inv_def scan_ok_def by blast
  have root: "gs_root s \<notin> dom (gs_grace s)"
    using inv by (auto simp: gate_inv_def grace_ok_def)
  have ok: "counts_ok s" using inv by (simp add: gate_inv_def)
  from st show ?thesis
  proof cases
    case (check i k)
    have "\<not> in_bucket (gs_reader s r) ((g_phase (gs_gate s) + 1) mod 2)" if "gs_stripe s r = k" for r
      using gate_active_zero [OF ok, of r] check(4) that by simp
    then have "gs_reader s r \<noteq> RHold ((g_phase (gs_gate s) + 1) mod 2) v" if "gs_stripe s r = k" for r v
      using that by (metis in_bucket.simps(2))
    with check sc [OF check(2)] show ?thesis by (auto simp: scan_ok_def less_Suc_eq)
  next
    case (load_root r b)
    with sc root show ?thesis by (auto simp: scan_ok_def)
  next
    case (leave r b v)
    with sc show ?thesis by (auto simp: scan_ok_def gate_leave_def)
  qed (use sc in \<open>auto simp: scan_ok_def\<close>)
qed

lemma step_versions_ok:
  assumes st: "gate_step s t" and inv: "gate_inv s"
  shows "versions_ok t"
proof -
  have lg: "v \<in> gs_logged s \<Longrightarrow> v < gs_root s" for v
    using inv by (auto simp: gate_inv_def versions_ok_def)
  have fr: "v \<in> gs_freed s \<Longrightarrow> v < gs_root s \<and> v \<notin> gs_logged s \<and> gs_grace s v = None \<and> \<not> holds s b v" for v b
    using inv unfolding gate_inv_def versions_ok_def by blast
  have hd: "gs_reader s r = RHold b v \<Longrightarrow> v \<le> gs_root s" for r b v
    using inv by (auto simp: gate_inv_def versions_ok_def)
  have frt: "v \<in> gs_freed s \<Longrightarrow> \<not> holds t b v" for v b
    using fr [of v b] step_holds [OF st, of b v] by auto
  from st show ?thesis
  proof cases
    case (free v g)
    have gr: "v < gs_root s" "v \<notin> gs_logged s" "\<not> holds s ((g + 1) mod 2) v" "\<not> holds s (g mod 2) v"
      using inv free(3,4) by (auto simp: gate_inv_def grace_ok_def)
    have "\<not> holds s b v" for b
    proof
      assume h: "holds s b v"
      then obtain r where "gs_reader s r = RHold b v" by (auto simp: holds_def)
      moreover have "pc_bucket_ok (gs_reader s r)" using inv by (auto simp: gate_inv_def counts_ok_def)
      ultimately have "b < 2" by simp
      then show False using two_buckets [of b g] gr(3,4) h by auto
    qed
    then have "\<not> holds t b v" for b using free(1) by (simp add: holds_def)
    with free fr frt lg hd gr show ?thesis by (auto simp: versions_ok_def)
  next
    case publish
    with lg fr frt hd show ?thesis by (fastforce simp: versions_ok_def)
  next
    case (load_root r b)
    with lg fr frt hd show ?thesis by (auto simp: versions_ok_def split: if_splits)
  next
    case (leave r b v)
    with lg fr frt hd show ?thesis by (auto simp: versions_ok_def split: if_splits)
  qed (use lg fr frt hd in \<open>auto simp: versions_ok_def split: if_splits\<close>)
qed

lemma gate_reach_inv: "gate_reach st s \<Longrightarrow> gate_inv s"
proof (induction rule: gate_reach.induct)
  case init
  have "gate_active gate_new k b = 0" if "k < GATE_STRIPES" for k b
    using that by (auto simp: gate_active_def gate_new_def stripe_get_def)
  with init show ?case
    by (auto simp: gate_inv_def gate_sys_init_def counts_ok_def grace_ok_def scan_ok_def
        versions_ok_def members_def gate_new_def)
next
  case (step s t)
  then show ?case
    using step_counts_ok step_grace_ok step_scan_ok step_versions_ok
    by (auto simp: gate_inv_def)
qed

text \<open>
  The functional \<open>gate_advance\<close> is a run of these steps in which no reader moves, so what holds
  of every reachable state holds of a state whose gate it advanced.
\<close>

inductive gate_steps :: "gate_sys \<Rightarrow> gate_sys \<Rightarrow> bool" where
  none: "gate_steps s s"
| more: "gate_step s t \<Longrightarrow> gate_steps t u \<Longrightarrow> gate_steps s u"

lemma gate_reach_steps: "gate_steps s t \<Longrightarrow> gate_reach st s \<Longrightarrow> gate_reach st t"
  by (induction rule: gate_steps.induct) (auto intro: gate_reach.step)

lemma gate_steps_trans: "gate_steps s t \<Longrightarrow> gate_steps t u \<Longrightarrow> gate_steps s u"
  by (induction rule: gate_steps.induct) (auto intro: gate_steps.intros)

lemma gate_steps_snoc: "gate_steps s t \<Longrightarrow> gate_step t u \<Longrightarrow> gate_steps s u"
  by (induction rule: gate_steps.induct) (auto intro: gate_steps.intros)

lemma gate_bucket_empty_active:
  assumes "length (g_stripes g) = GATE_STRIPES"
  shows "gate_bucket_empty g b \<longleftrightarrow> (\<forall>k<GATE_STRIPES. gate_active g k b = 0)"
  using assms by (auto simp: gate_bucket_empty_def gate_active_def all_set_conv_all_nth)

lemma writer_same: "gs_writer s = w \<Longrightarrow> s\<lparr>gs_writer := w\<rparr> = s"
  by (cases s) simp

lemma scan_all:
  assumes "gs_writer s = WScan i k" and "k \<le> GATE_STRIPES"
    and "\<forall>j<GATE_STRIPES. gate_active (gs_gate s) j ((g_phase (gs_gate s) + 1) mod 2) = 0"
  shows "gate_steps s (s\<lparr>gs_writer := WScan i GATE_STRIPES\<rparr>)"
  using assms
proof (induction "GATE_STRIPES - k" arbitrary: s k)
  case 0
  then show ?case by (auto simp: writer_same intro: gate_steps.none)
next
  case (Suc n)
  then have k: "k < GATE_STRIPES" by simp
  let ?t = "s\<lparr>gs_writer := WScan i (Suc k)\<rparr>"
  have "gate_step s ?t" using Suc.prems k by (intro gate_step.check) auto
  moreover have "gate_steps ?t (?t\<lparr>gs_writer := WScan i GATE_STRIPES\<rparr>)"
    using Suc.hyps(2) Suc.prems k by (intro Suc.hyps(1)) auto
  ultimately show ?case by (auto intro: gate_steps.more)
qed

lemma scan_blocked:
  assumes "gs_writer s = WScan i 0"
    and "\<not> (\<forall>j<GATE_STRIPES. gate_active (gs_gate s) j ((g_phase (gs_gate s) + 1) mod 2) = 0)"
  shows "gate_steps s (s\<lparr>gs_writer := WIdle\<rparr>)"
proof -
  let ?busy = "\<lambda>j. gate_active (gs_gate s) j ((g_phase (gs_gate s) + 1) mod 2) \<noteq> 0"
  define m where "m = (LEAST j. ?busy j)"
  obtain j where j: "j < GATE_STRIPES" "?busy j" using assms(2) by blast
  have m: "?busy m" "m \<le> j" unfolding m_def using j(2) by (auto intro: LeastI Least_le)
  have low: "\<not> ?busy k" if "k < m" for k using that unfolding m_def by (rule not_less_Least)
  have "gate_steps s (s\<lparr>gs_writer := WScan i k\<rparr>)" if "k \<le> m" for k
    using that
  proof (induction k)
    case 0
    then show ?case using assms(1) by (auto simp: writer_same intro: gate_steps.none)
  next
    case (Suc k)
    let ?t = "s\<lparr>gs_writer := WScan i k\<rparr>"
    have "gate_step ?t (?t\<lparr>gs_writer := WScan i (Suc k)\<rparr>)"
      using Suc.prems low [of k] m(2) j(1) by (intro gate_step.check [where k = k]) auto
    with Suc show ?case by (auto elim: gate_steps_snoc)
  qed
  then have "gate_steps s (s\<lparr>gs_writer := WScan i m\<rparr>)" by blast
  moreover have "gate_step (s\<lparr>gs_writer := WScan i m\<rparr>) (s\<lparr>gs_writer := WIdle\<rparr>)"
  proof -
    have "gate_step (s\<lparr>gs_writer := WScan i m\<rparr>) (s\<lparr>gs_writer := WScan i m\<rparr>\<lparr>gs_writer := WIdle\<rparr>)"
      using m j(1) by (intro gate_step.blocked [where k = m]) auto
    then show ?thesis by simp
  qed
  ultimately show ?thesis by (rule gate_steps_snoc)
qed

lemma scan_loop:
  assumes "gs_writer s = WScan i 0" and "i < 2" and "length (g_stripes (gs_gate s)) = GATE_STRIPES"
  shows "gate_steps s (s\<lparr>gs_gate := gate_advance_loop (2 - i) (gs_gate s), gs_writer := WIdle\<rparr>)"
  using assms
proof (induction "2 - i" arbitrary: i s)
  case 0
  then show ?case by simp
next
  case (Suc n)
  let ?b = "(g_phase (gs_gate s) + 1) mod 2"
  have n: "2 - i = Suc n" using Suc.hyps(2) by simp
  show ?case
  proof (cases "gate_bucket_empty (gs_gate s) ?b")
    case False
    then have "gate_steps s (s\<lparr>gs_writer := WIdle\<rparr>)"
      using Suc.prems by (intro scan_blocked) (auto simp: gate_bucket_empty_active)
    with False show ?thesis by (simp add: n)
  next
    case True
    let ?g = "(gs_gate s)\<lparr>g_phase := Suc (g_phase (gs_gate s))\<rparr>"
    let ?t = "s\<lparr>gs_writer := WScan i GATE_STRIPES\<rparr>"
      and ?u = "s\<lparr>gs_gate := ?g, gs_writer := (if i = 0 then WScan 1 0 else WIdle)\<rparr>"
    have "gate_steps s ?t"
      using True Suc.prems by (intro scan_all [where k = 0]) (auto simp: gate_bucket_empty_active)
    moreover have "gate_step ?t ?u" using gate_step.bump [of ?t i] by simp
    ultimately have su: "gate_steps s ?u" by (rule gate_steps_snoc)
    show ?thesis
    proof (cases "i = 0")
      case i: True
      then have "gate_steps ?u (?u\<lparr>gs_gate := gate_advance_loop (2 - 1) (gs_gate ?u), gs_writer := WIdle\<rparr>)"
        using Suc.prems n by (intro Suc.hyps(1)) auto
      with su True i show ?thesis by (auto simp: numeral_2_eq_2 intro: gate_steps_trans)
    next
      case False
      with Suc.prems have "2 - i = Suc 0" by auto
      with su True False show ?thesis by (simp add: n)
    qed
  qed
qed

lemma gate_advance_steps:
  assumes "gs_writer s = WIdle" and "length (g_stripes (gs_gate s)) = GATE_STRIPES"
  shows "gate_steps s (s\<lparr>gs_gate := gate_advance (gs_gate s)\<rparr>)"
proof -
  let ?t = "s\<lparr>gs_writer := WScan 0 0\<rparr>"
  have "gate_step s ?t" using assms(1) by (rule gate_step.scan)
  moreover have "gate_steps ?t (?t\<lparr>gs_gate := gate_advance_loop (2 - 0) (gs_gate ?t), gs_writer := WIdle\<rparr>)"
    using assms(2) by (intro scan_loop) auto
  moreover have "?t\<lparr>gs_gate := gate_advance_loop (2 - 0) (gs_gate ?t), gs_writer := WIdle\<rparr>
      = s\<lparr>gs_gate := gate_advance (gs_gate s)\<rparr>"
    using assms(1) by (cases s) (simp add: gate_advance_def)
  ultimately show ?thesis by (metis gate_steps.more)
qed

subsection \<open>Properties\<close>

text \<open>C15 In every interleaving of readers and the writer, a version whose slots the writer has freed
  is held by no reader: a reader that steered by a stale phase included.\<close>

theorem freed_version_unheld:
  assumes "gate_reach st s" and "v \<in> gs_freed s"
  shows "gs_reader s r \<noteq> RHold b v"
  using gate_reach_inv [OF assms(1)] assms(2) by (auto simp: gate_inv_def versions_ok_def holds_def)

text \<open>A run in which version 0 is published over, stamped, drained and freed.\<close>

lemma gate_run_frees:
  "\<exists>s. gate_reach (\<lambda>_. 0) s \<and> gs_freed s = {0}"
proof -
  let ?s0 = "gate_sys_init (\<lambda>_. 0)"
  define s1 where "s1 = ?s0\<lparr>gs_root := Suc (gs_root ?s0), gs_logged := insert (gs_root ?s0) (gs_logged ?s0)\<rparr>"
  define s2 where "s2 = s1\<lparr>gs_logged := {},
      gs_grace := (\<lambda>v. if v \<in> gs_logged s1 then Some (g_phase (gs_gate s1) + 2) else gs_grace s1 v)\<rparr>"
  define s3 where "s3 = s2\<lparr>gs_gate := gate_advance (gs_gate s2)\<rparr>"
  define s4 where "s4 = s3\<lparr>gs_grace := (gs_grace s3)(0 := None), gs_freed := insert 0 (gs_freed s3)\<rparr>"
  have f1: "gs_writer s1 = WIdle" "gs_gate s1 = gate_new" "gs_logged s1 = {0}" "gs_freed s1 = {}"
    by (simp_all add: s1_def gate_sys_init_def)
  have f2: "gs_writer s2 = WIdle" "gs_gate s2 = gate_new" "gs_grace s2 0 = Some (g_phase gate_new + 2)"
    "gs_freed s2 = {}"
    by (simp_all add: s2_def f1)
  have adv: "g_phase (gate_advance gate_new) = g_phase gate_new + 2"
    by (rule gate_advance_idle) (simp_all add: gate_new_def gate_bucket_empty_def stripe_get_def)
  have f3: "gs_writer s3 = WIdle" "gs_grace s3 0 = Some (g_phase gate_new + 2)"
    "g_phase (gs_gate s3) = g_phase gate_new + 2" "gs_freed s3 = {}"
    by (simp_all add: s3_def f2 adv)
  have r0: "gate_reach (\<lambda>_. 0) ?s0" by (rule gate_reach.init) (simp add: GATE_STRIPES_def)
  have r1: "gate_reach (\<lambda>_. 0) s1"
    unfolding s1_def by (rule gate_reach.step [OF r0 gate_step.publish]) (simp add: gate_sys_init_def)
  have r2: "gate_reach (\<lambda>_. 0) s2"
    unfolding s2_def by (rule gate_reach.step [OF r1 gate_step.stamp]) (rule f1)
  have r3: "gate_reach (\<lambda>_. 0) s3"
    unfolding s3_def by (rule gate_reach_steps [OF gate_advance_steps r2]) (simp_all add: f2 gate_new_def)
  have "gate_reach (\<lambda>_. 0) s4"
    unfolding s4_def by (rule gate_reach.step [OF r3 gate_step.free [of _ _ "g_phase gate_new + 2"]]) (simp_all add: f3)
  moreover have "gs_freed s4 = {0}" by (simp add: s4_def f3)
  ultimately show ?thesis by blast
qed

theorem freed_version_unheld_witness:
  "\<exists>s. gs_freed s = {0} \<and> gate_reach (\<lambda>_. 0) s \<and> gs_reader s 3 \<noteq> RHold 1 0"
  using gate_run_frees freed_version_unheld [of "\<lambda>_. 0" _ 0 3 1] by blast

text \<open>C34 Advancing the gate as the writer does it (two scans of the sixteen stripes, stopping at a
  reader) is a run of the interleaved steps: from a reachable state it leads to a reachable
  state, and it moves the phase by at most two and by exactly two when no reader is inside.\<close>

theorem gate_advance_reachable:
  assumes "gate_reach st s" and "gs_writer s = WIdle"
  shows "gate_reach st (s\<lparr>gs_gate := gate_advance (gs_gate s)\<rparr>) \<and>
    g_phase (gs_gate s) \<le> g_phase (gate_advance (gs_gate s)) \<and>
    g_phase (gate_advance (gs_gate s)) \<le> g_phase (gs_gate s) + 2 \<and>
    ((\<forall>r. gs_reader s r = RIdle) \<longrightarrow> g_phase (gate_advance (gs_gate s)) = g_phase (gs_gate s) + 2)"
proof -
  have c: "counts_ok s" using gate_reach_inv [OF assms(1)] by (simp add: gate_inv_def)
  then have len: "length (g_stripes (gs_gate s)) = GATE_STRIPES" by (simp add: counts_ok_def)
  have "gate_bucket_empty (gs_gate s) b" if "\<forall>r. gs_reader s r = RIdle" and "b < 2" for b
  proof -
    have "members s k b = {}" for k using that(1) by (simp add: members_def)
    then show ?thesis using c that(2) unfolding gate_bucket_empty_active [OF len] counts_ok_def by simp
  qed
  then have "(\<forall>r. gs_reader s r = RIdle) \<longrightarrow> g_phase (gate_advance (gs_gate s)) = g_phase (gs_gate s) + 2"
    by (intro impI gate_advance_idle) simp_all
  then show ?thesis
    using gate_reach_steps [OF gate_advance_steps [OF assms(2) len] assms(1)] gate_advance_phase [of "gs_gate s"]
    by blast
qed

theorem gate_advance_reachable_witness:
  "gate_reach (\<lambda>_. 0) ((gate_sys_init (\<lambda>_. 0))\<lparr>gs_gate := gate_advance gate_new\<rparr>) \<and>
   g_phase (gate_advance gate_new) = g_phase gate_new + 2"
proof -
  have "gate_reach (\<lambda>_. 0) (gate_sys_init (\<lambda>_. 0))" by (rule gate_reach.init) (simp add: GATE_STRIPES_def)
  from gate_advance_reachable [OF this] show ?thesis by (simp add: gate_sys_init_def)
qed

end
