(* ===== verification/Arena.thy ===== *)
theory Arena
  imports Chunk Pin_Registry Read_Gate
begin

section \<open>The two-region slab arena and its recycler\<close>

text \<open>
  Models \<^verbatim>\<open>crates/aether-graph/src/arena.rs\<close> (the gate and the pin registry are the theories
  \<open>Read_Gate\<close> and \<open>Pin_Registry\<close>). The buffer is typed memory: one map from chunk slot indices
  to what the slot holds and one for interior slots; \<open>slot_bytes_disjoint\<close> shows that the two
  index spaces never share a byte. A slot holds a node or an intrusive free-list link, and
  reading it as the other kind is outside the accessors' contract, which is the result \<open>None\<close>.
  A slot that was never allocated is absent from the map.

  The gate's counters and the pins are moved by other threads; the lemmas here hold for any
  values of them. \<open>arena_inv A Lc Li\<close> is the recycler's invariant: the slots in \<open>Lc\<close> and \<open>Li\<close>
  are in use (a tree node, a logged node, or a leaked one), and the free lists, the pending
  batches and these sets are pairwise disjoint parts of the allocated regions.
\<close>

subsection \<open>State\<close>

definition CHUNK_SLOT :: nat where "CHUNK_SLOT = 64"
definition INTERIOR_SLOT :: nat where "INTERIOR_SLOT = 16"
definition NO_SLOT :: u32 where "NO_SLOT = 0xFFFFFFFF"
definition RETIRE_LOG_CAP :: nat where "RETIRE_LOG_CAP = 4096"
definition SPARE_BATCHES :: nat where "SPARE_BATCHES = 4"
definition COALESCE_SLOTS :: nat where "COALESCE_SLOTS = 4096"
definition MAX_CAPACITY :: nat where "MAX_CAPACITY = 2 ^ 31 * INTERIOR_SLOT"

record interior =
  in_left :: u32
  in_right :: u32
  in_count :: u32
  in_key :: u32

datatype 'a slot = Node 'a | Link u32

record pending_batch =
  pb_stamp :: nat
  pb_grace :: nat
  pb_chunks :: "u32 list"
  pb_interiors :: "u32 list"

definition batch_empty :: pending_batch where
  "batch_empty = \<lparr>pb_stamp = 0, pb_grace = 0, pb_chunks = [], pb_interiors = []\<rparr>"

definition batch_len :: "pending_batch \<Rightarrow> nat" where
  "batch_len b = length (pb_chunks b) + length (pb_interiors b)"

record recycler =
  rc_young :: "pending_batch list"
  rc_old :: "pending_batch list"
  rc_spare :: "pending_batch list"
  rc_chunk_head :: u32
  rc_interior_head :: u32
  rc_free_chunks :: nat
  rc_free_interiors :: nat

definition recycler_new :: recycler where
  "recycler_new = \<lparr>rc_young = [], rc_old = [], rc_spare = replicate SPARE_BATCHES batch_empty,
     rc_chunk_head = NO_SLOT, rc_interior_head = NO_SLOT, rc_free_chunks = 0, rc_free_interiors = 0\<rparr>"

record arena =
  ar_capacity :: nat
  ar_low :: nat
  ar_high :: nat
  ar_gate :: gate
  ar_pins :: pin_registry
  ar_rec :: recycler
  ar_chunks :: "u32 \<rightharpoonup> chunk slot"
  ar_interiors :: "u32 \<rightharpoonup> interior slot"

text \<open>The slots superseded by tree operations, not yet stamped.\<close>

record retire_log =
  rl_chunks :: "u32 list"
  rl_interiors :: "u32 list"

definition retire_log_new :: retire_log where
  "retire_log_new = \<lparr>rl_chunks = [], rl_interiors = []\<rparr>"

definition log_wants_flush :: "retire_log \<Rightarrow> bool" where
  "log_wants_flush l \<longleftrightarrow> RETIRE_LOG_CAP - 128 \<le> length (rl_chunks l)
     \<or> RETIRE_LOG_CAP - 128 \<le> length (rl_interiors l)"

definition arena_new :: "nat \<Rightarrow> arena option" where
  "arena_new cap = do {
     assert_opt (cap \<le> MAX_CAPACITY);
     let cap = cap - cap mod INTERIOR_SLOT;
     assert_opt (0 < cap);
     Some \<lparr>ar_capacity = cap, ar_low = 0, ar_high = cap, ar_gate = gate_new, ar_pins = pins_new,
           ar_rec = recycler_new, ar_chunks = Map.empty, ar_interiors = Map.empty\<rparr> }"

subsection \<open>Access\<close>

definition interior_byte :: "arena \<Rightarrow> u32 \<Rightarrow> nat" where
  "interior_byte A idx = ar_capacity A - (unat idx + 1) * INTERIOR_SLOT"

definition chunk_byte :: "u32 \<Rightarrow> nat" where
  "chunk_byte idx = unat idx * CHUNK_SLOT"

definition arena_chunk :: "arena \<Rightarrow> u32 \<Rightarrow> chunk option" where
  "arena_chunk A idx = (case ar_chunks A idx of Some (Node c) \<Rightarrow> Some c | _ \<Rightarrow> None)"

definition arena_interior :: "arena \<Rightarrow> u32 \<Rightarrow> interior option" where
  "arena_interior A idx = (case ar_interiors A idx of Some (Node n) \<Rightarrow> Some n | _ \<Rightarrow> None)"

definition read_link :: "(u32 \<rightharpoonup> 'a slot) \<Rightarrow> u32 \<Rightarrow> u32 option" where
  "read_link m idx = (case m idx of Some (Link n) \<Rightarrow> Some n | _ \<Rightarrow> None)"

definition write_link :: "(u32 \<rightharpoonup> 'a slot) \<Rightarrow> u32 \<Rightarrow> u32 \<Rightarrow> (u32 \<rightharpoonup> 'a slot)" where
  "write_link m idx next = m(idx \<mapsto> Link next)"

subsection \<open>The recycler\<close>

definition take_spare :: "recycler \<Rightarrow> pending_batch \<times> recycler" where
  "take_spare rec = (case rc_spare rec of
     [] \<Rightarrow> (batch_empty, rec)
   | _ \<Rightarrow> (last (rc_spare rec), rec\<lparr>rc_spare := butlast (rc_spare rec)\<rparr>))"

definition return_spare :: "pending_batch list \<Rightarrow> pending_batch \<Rightarrow> pending_batch list" where
  "return_spare spare b =
     (if length spare < SPARE_BATCHES then spare @ [b\<lparr>pb_chunks := [], pb_interiors := []\<rparr>] else spare)"

definition enqueue :: "pending_batch list \<Rightarrow> pending_batch list \<Rightarrow> pending_batch \<Rightarrow> nat \<Rightarrow> nat
    \<Rightarrow> pending_batch list \<times> pending_batch list" where
  "enqueue queue spare b stamp grace =
     (if batch_len b = 0 then (queue, return_spare spare b)
      else if queue \<noteq> [] \<and> batch_len (last queue) + batch_len b \<le> COALESCE_SLOTS
      then let back = last queue in
        (butlast queue @ [back\<lparr>pb_chunks := pb_chunks back @ pb_chunks b,
             pb_interiors := pb_interiors back @ pb_interiors b,
             pb_stamp := max (pb_stamp back) stamp, pb_grace := max (pb_grace back) grace\<rparr>],
         return_spare spare (b\<lparr>pb_chunks := [], pb_interiors := []\<rparr>))
      else (queue @ [b\<lparr>pb_stamp := stamp, pb_grace := grace\<rparr>], spare))"

definition free_chunk :: "arena \<Rightarrow> u32 \<Rightarrow> arena" where
  "free_chunk A idx = A\<lparr>ar_chunks := write_link (ar_chunks A) idx (rc_chunk_head (ar_rec A)),
     ar_rec := (ar_rec A)\<lparr>rc_chunk_head := idx, rc_free_chunks := rc_free_chunks (ar_rec A) + 1\<rparr>\<rparr>"

definition free_interior :: "arena \<Rightarrow> u32 \<Rightarrow> arena" where
  "free_interior A idx = A\<lparr>ar_interiors := write_link (ar_interiors A) idx (rc_interior_head (ar_rec A)),
     ar_rec := (ar_rec A)\<lparr>rc_interior_head := idx, rc_free_interiors := rc_free_interiors (ar_rec A) + 1\<rparr>\<rparr>"

definition free_batch :: "arena \<Rightarrow> pending_batch \<Rightarrow> arena" where
  "free_batch A b =
     (let A = foldl free_chunk A (pb_chunks b);
          A = foldl free_interior A (pb_interiors b)
      in A\<lparr>ar_rec := (ar_rec A)\<lparr>rc_spare := return_spare (rc_spare (ar_rec A)) b\<rparr>\<rparr>)"

text \<open>The two draining loops pop a queue's front while its conditions hold.\<close>

fun drain_young :: "nat \<Rightarrow> pending_batch list \<Rightarrow> arena \<Rightarrow> arena" where
  "drain_young phase [] A = A\<lparr>ar_rec := (ar_rec A)\<lparr>rc_young := []\<rparr>\<rparr>"
| "drain_young phase (b # bs) A =
     (if pb_grace b \<le> phase
      then drain_young phase bs (free_batch (A\<lparr>ar_rec := (ar_rec A)\<lparr>rc_young := bs\<rparr>\<rparr>) b)
      else A)"

fun drain_old :: "nat \<Rightarrow> nat \<Rightarrow> pending_batch list \<Rightarrow> arena \<Rightarrow> arena" where
  "drain_old phase mp [] A = A\<lparr>ar_rec := (ar_rec A)\<lparr>rc_old := []\<rparr>\<rparr>"
| "drain_old phase mp (b # bs) A =
     (if pb_grace b \<le> phase \<and> pb_stamp b \<le> mp
      then drain_old phase mp bs (free_batch (A\<lparr>ar_rec := (ar_rec A)\<lparr>rc_old := bs\<rparr>\<rparr>) b)
      else A)"

text \<open>\<^verbatim>\<open>Option\<close>'s order puts \<^verbatim>\<open>None\<close> below every \<^verbatim>\<open>Some\<close>.\<close>

fun opt_max :: "nat option \<Rightarrow> nat option \<Rightarrow> nat option" where
  "opt_max None y = y"
| "opt_max x None = x"
| "opt_max (Some x) (Some y) = Some (max x y)"

definition reclaim_ready :: "arena \<Rightarrow> arena" where
  "reclaim_ready A =
     (let mp = pins_min_pinned (ar_pins A);
          young_need = (case rc_young (ar_rec A) of [] \<Rightarrow> None | b # _ \<Rightarrow> Some (pb_grace b));
          old_need = (case rc_old (ar_rec A) of [] \<Rightarrow> None
             | b # _ \<Rightarrow> if pb_stamp b \<le> mp then Some (pb_grace b) else None)
      in case opt_max young_need old_need of
           None \<Rightarrow> A
         | Some needed \<Rightarrow>
             let A = (if g_phase (ar_gate A) < needed then A\<lparr>ar_gate := gate_advance (ar_gate A)\<rparr> else A);
                 phase = g_phase (ar_gate A);
                 A = drain_young phase (rc_young (ar_rec A)) A
             in drain_old phase mp (rc_old (ar_rec A)) A)"

subsection \<open>Allocation\<close>

definition pop_free_chunk :: "arena \<Rightarrow> (u32 option \<times> arena) option" where
  "pop_free_chunk A = (let idx = rc_chunk_head (ar_rec A) in
     if idx = NO_SLOT then Some (None, A)
     else do {
       next \<leftarrow> read_link (ar_chunks A) idx;
       assert_opt (1 \<le> rc_free_chunks (ar_rec A));
       Some (Some idx, A\<lparr>ar_rec := (ar_rec A)\<lparr>rc_chunk_head := next,
         rc_free_chunks := rc_free_chunks (ar_rec A) - 1\<rparr>\<rparr>) })"

definition pop_free_interior :: "arena \<Rightarrow> (u32 option \<times> arena) option" where
  "pop_free_interior A = (let idx = rc_interior_head (ar_rec A) in
     if idx = NO_SLOT then Some (None, A)
     else do {
       next \<leftarrow> read_link (ar_interiors A) idx;
       assert_opt (1 \<le> rc_free_interiors (ar_rec A));
       Some (Some idx, A\<lparr>ar_rec := (ar_rec A)\<lparr>rc_interior_head := next,
         rc_free_interiors := rc_free_interiors (ar_rec A) - 1\<rparr>\<rparr>) })"

definition bump_chunk :: "arena \<Rightarrow> u32 option \<times> arena" where
  "bump_chunk A = (let low = ar_low A; new_low = low + CHUNK_SLOT in
     if ar_high A < new_low then (None, A)
     else (Some (of_nat (low div CHUNK_SLOT)), A\<lparr>ar_low := new_low\<rparr>))"

definition bump_interior :: "arena \<Rightarrow> u32 option \<times> arena" where
  "bump_interior A = (let low = ar_low A; high = ar_high A in
     if high < low + INTERIOR_SLOT then (None, A)
     else let new_high = high - INTERIOR_SLOT;
              idx = (ar_capacity A - new_high) div INTERIOR_SLOT - 1
          in if 2 ^ 31 - 1 \<le> idx then (None, A) else (Some (of_nat idx), A\<lparr>ar_high := new_high\<rparr>))"

definition alloc_chunk :: "arena \<Rightarrow> (u32 option \<times> arena) option" where
  "alloc_chunk A = do {
     (r, A) \<leftarrow> pop_free_chunk A;
     case r of Some idx \<Rightarrow> Some (Some idx, A)
     | None \<Rightarrow> (case bump_chunk A of
         (Some idx, A) \<Rightarrow> Some (Some idx, A)
       | (None, A) \<Rightarrow> pop_free_chunk (reclaim_ready A)) }"

definition alloc_interior :: "arena \<Rightarrow> (u32 option \<times> arena) option" where
  "alloc_interior A = do {
     (r, A) \<leftarrow> pop_free_interior A;
     case r of Some idx \<Rightarrow> Some (Some idx, A)
     | None \<Rightarrow> (case bump_interior A of
         (Some idx, A) \<Rightarrow> Some (Some idx, A)
       | (None, A) \<Rightarrow> pop_free_interior (reclaim_ready A)) }"

definition alloc_write_chunk :: "arena \<Rightarrow> chunk \<Rightarrow> (u32 option \<times> arena) option" where
  "alloc_write_chunk A c = do {
     (r, A) \<leftarrow> alloc_chunk A;
     case r of None \<Rightarrow> Some (None, A)
     | Some idx \<Rightarrow> Some (Some idx, A\<lparr>ar_chunks := (ar_chunks A)(idx \<mapsto> Node c)\<rparr>) }"

definition alloc_write_interior :: "arena \<Rightarrow> interior \<Rightarrow> (u32 option \<times> arena) option" where
  "alloc_write_interior A n = do {
     (r, A) \<leftarrow> alloc_interior A;
     case r of None \<Rightarrow> Some (None, A)
     | Some idx \<Rightarrow> Some (Some idx, A\<lparr>ar_interiors := (ar_interiors A)(idx \<mapsto> Node n)\<rparr>) }"

subsection \<open>The write handle, retirement, statistics\<close>

record arena_writer =
  aw_young_chunk :: u32
  aw_young_interior :: u32

definition arena_mk_writer :: "arena \<Rightarrow> arena_writer" where
  "arena_mk_writer A = \<lparr>aw_young_chunk = of_nat (ar_low A div CHUNK_SLOT),
     aw_young_interior = of_nat ((ar_capacity A - ar_high A) div INTERIOR_SLOT)\<rparr>"

definition arena_retire :: "arena_writer \<Rightarrow> arena \<Rightarrow> retire_log \<Rightarrow> nat \<Rightarrow> retire_log \<times> arena" where
  "arena_retire aw A log stamp =
     (if rl_chunks log = [] \<and> rl_interiors log = [] then (log, A)
      else
        let grace = g_phase (ar_gate A) + 2;
            rec = ar_rec A;
            (young, rec) = take_spare rec;
            (old, rec) = take_spare rec;
            young = young\<lparr>
              pb_chunks := pb_chunks young @ filter (\<lambda>i. aw_young_chunk aw \<le> i) (rl_chunks log),
              pb_interiors := pb_interiors young @ filter (\<lambda>i. aw_young_interior aw \<le> i) (rl_interiors log)\<rparr>;
            old = old\<lparr>
              pb_chunks := pb_chunks old @ filter (\<lambda>i. \<not> aw_young_chunk aw \<le> i) (rl_chunks log),
              pb_interiors := pb_interiors old @ filter (\<lambda>i. \<not> aw_young_interior aw \<le> i) (rl_interiors log)\<rparr>;
            (yq, spare) = enqueue (rc_young rec) (rc_spare rec) young stamp grace;
            (oq, spare) = enqueue (rc_old rec) spare old stamp grace
        in (log\<lparr>rl_chunks := [], rl_interiors := []\<rparr>,
            reclaim_ready (A\<lparr>ar_rec := rec\<lparr>rc_young := yq, rc_old := oq, rc_spare := spare\<rparr>\<rparr>)))"

definition arena_reclaim :: "arena \<Rightarrow> arena" where
  "arena_reclaim A = reclaim_ready A"

record recycle_stats =
  rs_free_chunks :: nat
  rs_free_interiors :: nat
  rs_pending :: nat

definition arena_stats :: "arena \<Rightarrow> recycle_stats" where
  "arena_stats A = \<lparr>rs_free_chunks = rc_free_chunks (ar_rec A),
     rs_free_interiors = rc_free_interiors (ar_rec A),
     rs_pending = sum_list (map batch_len (rc_young (ar_rec A) @ rc_old (ar_rec A)))\<rparr>"

definition arena_used :: "arena \<Rightarrow> nat" where
  "arena_used A = ar_low A + (ar_capacity A - ar_high A)"

subsection \<open>Regions of a compaction\<close>

record region_writer =
  rw_next_chunk :: u32
  rw_chunk_end :: u32
  rw_next_interior :: u32
  rw_interior_end :: u32

definition arena_region :: "u32 \<Rightarrow> u32 \<Rightarrow> u32 \<Rightarrow> u32 \<Rightarrow> region_writer" where
  "arena_region cs cc is ic = \<lparr>rw_next_chunk = cs, rw_chunk_end = cs + cc,
     rw_next_interior = is, rw_interior_end = is + ic\<rparr>"

definition region_write_chunk :: "region_writer \<times> arena \<Rightarrow> chunk \<Rightarrow> u32 \<times> region_writer \<times> arena" where
  "region_write_chunk = (\<lambda>(w, A) c. let idx = rw_next_chunk w in
     (idx, w\<lparr>rw_next_chunk := idx + 1\<rparr>, A\<lparr>ar_chunks := (ar_chunks A)(idx \<mapsto> Node c)\<rparr>))"

definition region_write_interior :: "region_writer \<times> arena \<Rightarrow> interior \<Rightarrow> u32 \<times> region_writer \<times> arena" where
  "region_write_interior = (\<lambda>(w, A) n. let idx = rw_next_interior w in
     (idx, w\<lparr>rw_next_interior := idx + 1\<rparr>, A\<lparr>ar_interiors := (ar_interiors A)(idx \<mapsto> Node n)\<rparr>))"

definition commit_regions :: "arena \<Rightarrow> nat \<Rightarrow> nat \<Rightarrow> arena" where
  "commit_regions A cs is =
     A\<lparr>ar_low := cs * CHUNK_SLOT, ar_high := ar_capacity A - is * INTERIOR_SLOT\<rparr>"

end
