(* ===== verification/Arena_Facts.thy ===== *)
theory Arena_Facts
  imports Arena
begin

section \<open>The arena's invariant and what allocation and retirement keep of it\<close>

text \<open>
  The free list of one slot class is the chain of links from its head; \<open>class_inv\<close> says that the
  chain, the pending slots and the slots in use are disjoint parts of the allocated region.
  Every operation of \<open>Arena\<close> is shown to keep \<open>arena_inv\<close> and to leave the slots in use
  untouched, which is what the tree operations build on.
\<close>

subsection \<open>Free lists\<close>

fun free_chain :: "(u32 \<rightharpoonup> 'a slot) \<Rightarrow> u32 \<Rightarrow> u32 list \<Rightarrow> bool" where
  "free_chain m h [] \<longleftrightarrow> h = NO_SLOT"
| "free_chain m h (x # xs) \<longleftrightarrow> h = x \<and> x \<noteq> NO_SLOT \<and> (\<exists>n. m x = Some (Link n) \<and> free_chain m n xs)"

lemma free_chain_upd: "i \<notin> set xs \<Longrightarrow> free_chain (m(i := v)) h xs = free_chain m h xs"
  by (induction xs arbitrary: h) auto

definition class_inv :: "(u32 \<rightharpoonup> 'a slot) \<Rightarrow> u32 \<Rightarrow> u32 list \<Rightarrow> nat \<Rightarrow> u32 list \<Rightarrow> u32 set \<Rightarrow> nat \<Rightarrow> bool" where
  "class_inv m h fs cnt pend L bound \<longleftrightarrow>
     free_chain m h fs \<and> length fs = cnt \<and> distinct (fs @ pend) \<and> (set fs \<union> set pend) \<inter> L = {}
     \<and> (\<forall>i\<in>set fs \<union> set pend \<union> L. unat i < bound) \<and> bound \<le> 2 ^ 31 - 1"

lemma class_inv_init: "class_inv m NO_SLOT [] 0 [] {} 0"
  by (simp add: class_inv_def)

lemma class_inv_pend:
  assumes "mset pend = mset pend'"
  shows "class_inv m h fs cnt pend L b = class_inv m h fs cnt pend' L b"
  unfolding class_inv_def distinct_append mset_eq_setD [OF assms] mset_eq_imp_distinct_iff [OF assms] ..

lemma class_inv_index: "class_inv m h fs cnt pend L b \<Longrightarrow> i \<in> L \<Longrightarrow> unat i < 2 ^ 31 - 1"
  unfolding class_inv_def by (meson UnI2 order_less_le_trans)

lemma class_inv_pop:
  assumes "class_inv m h fs cnt pend L b" and "h \<noteq> NO_SLOT"
  obtains n fs' where "m h = Some (Link n)" and "fs = h # fs'" and "0 < cnt" and "h \<notin> L"
    and "class_inv m n fs' (cnt - 1) pend (insert h L) b"
proof -
  have ch: "free_chain m h fs" using assms(1) by (simp add: class_inv_def)
  obtain fs' where fs: "fs = h # fs'" using ch assms(2) by (cases fs) simp_all
  obtain n where n: "m h = Some (Link n)" "free_chain m n fs'" using ch fs by auto
  have ds: "distinct (h # (fs' @ pend))" and cnt: "length (h # fs') = cnt"
    and dj: "(set (h # fs') \<union> set pend) \<inter> L = {}" and b: "b \<le> 2 ^ 31 - 1"
    and bd: "\<forall>i\<in>set (h # fs') \<union> set pend \<union> L. unat i < b"
    using assms(1) by (simp_all add: class_inv_def fs)
  have "class_inv m n fs' (cnt - 1) pend (insert h L) b"
    unfolding class_inv_def
  proof (intro conjI)
    show "length fs' = cnt - 1" using cnt by simp
    show "distinct (fs' @ pend)" using ds by simp
    show "(set fs' \<union> set pend) \<inter> insert h L = {}" using ds dj by auto
    show "\<forall>i\<in>set fs' \<union> set pend \<union> insert h L. unat i < b" using bd by simp
  qed (use n b in simp_all)
  moreover have "0 < cnt" using cnt by (metis length_greater_0_conv list.simps(3))
  moreover have "h \<notin> L" using dj by simp
  ultimately show ?thesis using that n(1) fs by blast
qed

lemma class_inv_write:
  assumes "class_inv m h fs cnt pend L b" and "i \<in> L"
  shows "class_inv (m(i := v)) h fs cnt pend L b"
proof -
  have "i \<notin> set fs" using assms by (auto simp: class_inv_def)
  with assms(1) show ?thesis by (simp add: class_inv_def free_chain_upd)
qed

lemma class_inv_bump:
  assumes "class_inv m h fs cnt pend L b" and "b < 2 ^ 31 - 1"
  shows "class_inv m h fs cnt pend (insert (of_nat b) L) (Suc b) \<and> of_nat b \<notin> L \<and> unat (of_nat b :: u32) = b"
proof -
  have u: "unat (of_nat b :: u32) = b"
    using assms(2) by (simp add: unat_of_nat take_bit_nat_eq_self)
  have "of_nat b \<notin> set fs \<union> set pend \<union> L"
  proof
    assume "of_nat b \<in> set fs \<union> set pend \<union> L"
    then have "unat (of_nat b :: u32) < b" using assms(1) unfolding class_inv_def by blast
    with u show False by simp
  qed
  with assms u show ?thesis by (auto simp: class_inv_def less_Suc_eq)
qed

lemma class_inv_free:
  assumes "class_inv m h fs cnt (i # pend) L b"
  shows "class_inv (write_link m i h) i (i # fs) (Suc cnt) pend L b"
proof -
  have "unat i < b" "b \<le> 2 ^ 31 - 1" using assms by (auto simp: class_inv_def)
  then have "i \<noteq> NO_SLOT" by (auto simp: NO_SLOT_def)
  with assms show ?thesis by (auto simp: class_inv_def write_link_def free_chain_upd)
qed

lemma class_inv_retire:
  assumes "class_inv m h fs cnt pend (L \<union> set log) b" and "distinct log" and "set log \<inter> L = {}"
  shows "class_inv m h fs cnt (pend @ log) L b"
  using assms by (auto simp: class_inv_def)

lemma class_inv_forget: "class_inv m h fs cnt pend L b \<Longrightarrow> L' \<subseteq> L \<Longrightarrow> class_inv m h fs cnt pend L' b"
  by (auto simp: class_inv_def)

subsection \<open>The invariant\<close>

definition pend_chunks :: "recycler \<Rightarrow> u32 list" where
  "pend_chunks rec = concat (map pb_chunks (rc_young rec @ rc_old rec))"

definition pend_interiors :: "recycler \<Rightarrow> u32 list" where
  "pend_interiors rec = concat (map pb_interiors (rc_young rec @ rc_old rec))"

definition chunk_bound :: "arena \<Rightarrow> nat" where
  "chunk_bound A = ar_low A div CHUNK_SLOT"

definition interior_bound :: "arena \<Rightarrow> nat" where
  "interior_bound A = (ar_capacity A - ar_high A) div INTERIOR_SLOT"

definition cursors_ok :: "arena \<Rightarrow> bool" where
  "cursors_ok A \<longleftrightarrow> CHUNK_SLOT dvd ar_low A \<and> ar_low A \<le> ar_high A \<and> ar_high A \<le> ar_capacity A
     \<and> INTERIOR_SLOT dvd ar_high A \<and> INTERIOR_SLOT dvd ar_capacity A \<and> ar_capacity A \<le> MAX_CAPACITY"

definition spare_ok :: "recycler \<Rightarrow> bool" where
  "spare_ok rec \<longleftrightarrow> (\<forall>b\<in>set (rc_spare rec). pb_chunks b = [] \<and> pb_interiors b = [])"

definition arena_inv :: "arena \<Rightarrow> u32 set \<Rightarrow> u32 set \<Rightarrow> bool" where
  "arena_inv A Lc Li \<longleftrightarrow> cursors_ok A \<and> spare_ok (ar_rec A) \<and>
     (\<exists>fs. class_inv (ar_chunks A) (rc_chunk_head (ar_rec A)) fs (rc_free_chunks (ar_rec A))
        (pend_chunks (ar_rec A)) Lc (chunk_bound A)) \<and>
     (\<exists>fs. class_inv (ar_interiors A) (rc_interior_head (ar_rec A)) fs (rc_free_interiors (ar_rec A))
        (pend_interiors (ar_rec A)) Li (interior_bound A))"

text \<open>What an operation may change: never the slots in use, the pins or the capacity.\<close>

definition arena_frame :: "u32 set \<Rightarrow> u32 set \<Rightarrow> arena \<Rightarrow> arena \<Rightarrow> bool" where
  "arena_frame Lc Li A A' \<longleftrightarrow> (\<forall>i\<in>Lc. ar_chunks A' i = ar_chunks A i)
     \<and> (\<forall>i\<in>Li. ar_interiors A' i = ar_interiors A i)
     \<and> ar_pins A' = ar_pins A \<and> ar_capacity A' = ar_capacity A
     \<and> g_stripes (ar_gate A') = g_stripes (ar_gate A) \<and> g_phase (ar_gate A) \<le> g_phase (ar_gate A')"

lemma arena_frame_refl [simp, intro]: "arena_frame Lc Li A A"
  by (simp add: arena_frame_def)

lemma arena_frame_trans:
  "arena_frame Lc Li A B \<Longrightarrow> arena_frame Lc' Li' B C \<Longrightarrow> Lc \<subseteq> Lc' \<Longrightarrow> Li \<subseteq> Li' \<Longrightarrow> arena_frame Lc Li A C"
  by (simp add: arena_frame_def subset_iff)

lemma arena_frame_mono:
  "arena_frame Lc Li A B \<Longrightarrow> Lc' \<subseteq> Lc \<Longrightarrow> Li' \<subseteq> Li \<Longrightarrow> arena_frame Lc' Li' A B"
  by (auto simp: arena_frame_def)

lemma arena_frame_chunk: "arena_frame Lc Li A B \<Longrightarrow> i \<in> Lc \<Longrightarrow> arena_chunk B i = arena_chunk A i"
  by (simp add: arena_frame_def arena_chunk_def)

lemma arena_frame_interior: "arena_frame Lc Li A B \<Longrightarrow> i \<in> Li \<Longrightarrow> arena_interior B i = arena_interior A i"
  by (simp add: arena_frame_def arena_interior_def)

lemma arena_inv_forget: "arena_inv A Lc Li \<Longrightarrow> Lc' \<subseteq> Lc \<Longrightarrow> Li' \<subseteq> Li \<Longrightarrow> arena_inv A Lc' Li'"
  unfolding arena_inv_def by (meson class_inv_forget)

lemma arena_inv_index:
  assumes "arena_inv A Lc Li"
  shows "i \<in> Lc \<Longrightarrow> unat i < 2 ^ 31 - 1" and "i \<in> Li \<Longrightarrow> unat i < 2 ^ 31 - 1"
  using assms class_inv_index unfolding arena_inv_def by blast+

lemma arena_new_inv:
  assumes "arena_new cap = Some A"
  shows "arena_inv A {} {}"
proof -
  let ?c = "cap - cap mod INTERIOR_SLOT"
  have c: "cap \<le> MAX_CAPACITY" and A: "A = \<lparr>ar_capacity = ?c, ar_low = 0, ar_high = ?c,
      ar_gate = gate_new, ar_pins = pins_new, ar_rec = recycler_new,
      ar_chunks = Map.empty, ar_interiors = Map.empty\<rparr>"
    using assms by (auto simp: arena_new_def Let_def)
  have "INTERIOR_SLOT dvd ?c" by (simp add: dvd_minus_mod)
  then have "cursors_ok A" using c by (simp add: A cursors_ok_def)
  moreover have "spare_ok (ar_rec A)"
    by (simp add: A spare_ok_def recycler_new_def batch_empty_def)
  ultimately show ?thesis
    using class_inv_init [where 'a = chunk] class_inv_init [where 'a = interior]
    by (auto simp: arena_inv_def A chunk_bound_def interior_bound_def pend_chunks_def
        pend_interiors_def recycler_new_def)
qed

text \<open>The two index spaces address disjoint bytes of the buffer, inside it and aligned.\<close>

lemma slot_bytes_disjoint:
  assumes ok: "cursors_ok A" and c: "unat i < chunk_bound A" and j: "unat j < interior_bound A"
  shows "chunk_byte i + CHUNK_SLOT \<le> interior_byte A j"
    and "interior_byte A j + INTERIOR_SLOT \<le> ar_capacity A"
    and "CHUNK_SLOT dvd chunk_byte i" and "INTERIOR_SLOT dvd interior_byte A j"
proof -
  obtain l h k where lhk: "ar_low A = 64 * l" "ar_high A = 16 * h" "ar_capacity A = 16 * k"
    using ok by (auto simp: cursors_ok_def CHUNK_SLOT_def INTERIOR_SLOT_def elim!: dvdE)
  have le: "64 * l \<le> 16 * h" "16 * h \<le> 16 * k" using ok lhk by (auto simp: cursors_ok_def)
  have "unat i < l" using c lhk by (simp add: chunk_bound_def CHUNK_SLOT_def)
  moreover have jb: "unat j < k - h"
    using j lhk by (simp add: interior_bound_def INTERIOR_SLOT_def flip: diff_mult_distrib2)
  ultimately show "chunk_byte i + CHUNK_SLOT \<le> interior_byte A j"
    using le lhk by (simp add: chunk_byte_def interior_byte_def CHUNK_SLOT_def INTERIOR_SLOT_def)
  show "interior_byte A j + INTERIOR_SLOT \<le> ar_capacity A"
    using jb lhk by (simp add: interior_byte_def INTERIOR_SLOT_def)
  show "CHUNK_SLOT dvd chunk_byte i" by (simp add: chunk_byte_def)
  show "INTERIOR_SLOT dvd interior_byte A j"
    using lhk by (simp add: interior_byte_def INTERIOR_SLOT_def dvd_diff_nat)
qed

subsection \<open>Freeing batches\<close>

text \<open>
  The recycler's state while a batch \<open>b\<close>, already popped from its queue, is still to be freed:
  \<open>pc\<close> and \<open>pi\<close> are its slots not yet threaded.
\<close>

definition arena_inv_with :: "arena \<Rightarrow> u32 set \<Rightarrow> u32 set \<Rightarrow> u32 list \<Rightarrow> u32 list \<Rightarrow> bool" where
  "arena_inv_with A Lc Li pc pi \<longleftrightarrow> cursors_ok A \<and> spare_ok (ar_rec A) \<and>
     (\<exists>fs. class_inv (ar_chunks A) (rc_chunk_head (ar_rec A)) fs (rc_free_chunks (ar_rec A))
        (pc @ pend_chunks (ar_rec A)) Lc (chunk_bound A)) \<and>
     (\<exists>fs. class_inv (ar_interiors A) (rc_interior_head (ar_rec A)) fs (rc_free_interiors (ar_rec A))
        (pi @ pend_interiors (ar_rec A)) Li (interior_bound A))"

lemma arena_inv_with_nil [simp]: "arena_inv_with A Lc Li [] [] = arena_inv A Lc Li"
  by (simp add: arena_inv_with_def arena_inv_def)

lemma free_chunk_fold:
  assumes "arena_inv_with A Lc Li (pc @ qc) pi"
  shows "arena_inv_with (foldl free_chunk A pc) Lc Li qc pi \<and>
    (\<forall>i. i \<notin> set pc \<longrightarrow> ar_chunks (foldl free_chunk A pc) i = ar_chunks A i)"
  using assms
proof (induction pc arbitrary: A)
  case Nil
  then show ?case by simp
next
  case (Cons i pc)
  obtain fs where fs: "class_inv (ar_chunks A) (rc_chunk_head (ar_rec A)) fs (rc_free_chunks (ar_rec A))
      (i # pc @ qc @ pend_chunks (ar_rec A)) Lc (chunk_bound A)"
    using Cons.prems by (auto simp: arena_inv_with_def)
  have "arena_inv_with (free_chunk A i) Lc Li (pc @ qc) pi"
    using Cons.prems class_inv_free [OF fs]
    by (auto simp: arena_inv_with_def free_chunk_def cursors_ok_def spare_ok_def chunk_bound_def
        interior_bound_def pend_chunks_def pend_interiors_def)
  from Cons.IH [OF this] show ?case by (auto simp: free_chunk_def write_link_def)
qed

lemma free_interior_fold:
  assumes "arena_inv_with A Lc Li pc (pi @ qi)"
  shows "arena_inv_with (foldl free_interior A pi) Lc Li pc qi \<and>
    (\<forall>i. i \<notin> set pi \<longrightarrow> ar_interiors (foldl free_interior A pi) i = ar_interiors A i)"
  using assms
proof (induction pi arbitrary: A)
  case Nil
  then show ?case by simp
next
  case (Cons i pi)
  obtain fs where fs: "class_inv (ar_interiors A) (rc_interior_head (ar_rec A)) fs
      (rc_free_interiors (ar_rec A)) (i # pi @ qi @ pend_interiors (ar_rec A)) Li (interior_bound A)"
    using Cons.prems by (auto simp: arena_inv_with_def)
  have "arena_inv_with (free_interior A i) Lc Li pc (pi @ qi)"
    using Cons.prems class_inv_free [OF fs]
    by (auto simp: arena_inv_with_def free_interior_def cursors_ok_def spare_ok_def chunk_bound_def
        interior_bound_def pend_chunks_def pend_interiors_def)
  from Cons.IH [OF this] show ?case by (auto simp: free_interior_def write_link_def)
qed

lemma foldl_free_chunk_other:
  "ar_interiors (foldl free_chunk A pc) = ar_interiors A \<and> ar_gate (foldl free_chunk A pc) = ar_gate A
   \<and> ar_pins (foldl free_chunk A pc) = ar_pins A \<and> ar_capacity (foldl free_chunk A pc) = ar_capacity A
   \<and> rc_young (ar_rec (foldl free_chunk A pc)) = rc_young (ar_rec A)
   \<and> rc_old (ar_rec (foldl free_chunk A pc)) = rc_old (ar_rec A)
   \<and> rc_spare (ar_rec (foldl free_chunk A pc)) = rc_spare (ar_rec A)"
  by (induction pc arbitrary: A) (simp_all add: free_chunk_def)

lemma foldl_free_interior_other:
  "ar_chunks (foldl free_interior A pc) = ar_chunks A \<and> ar_gate (foldl free_interior A pc) = ar_gate A
   \<and> ar_pins (foldl free_interior A pc) = ar_pins A \<and> ar_capacity (foldl free_interior A pc) = ar_capacity A
   \<and> rc_young (ar_rec (foldl free_interior A pc)) = rc_young (ar_rec A)
   \<and> rc_old (ar_rec (foldl free_interior A pc)) = rc_old (ar_rec A)
   \<and> rc_spare (ar_rec (foldl free_interior A pc)) = rc_spare (ar_rec A)"
  by (induction pc arbitrary: A) (simp_all add: free_interior_def)

lemma spare_ok_return:
  "spare_ok rec \<Longrightarrow> spare_ok (rec\<lparr>rc_spare := return_spare (rc_spare rec) b\<rparr>)"
  by (auto simp: spare_ok_def return_spare_def)

lemma free_batch_ok:
  assumes inv: "arena_inv_with A Lc Li (pb_chunks b) (pb_interiors b)"
  shows "arena_inv (free_batch A b) Lc Li"
    and "ar_gate (free_batch A b) = ar_gate A" and "ar_pins (free_batch A b) = ar_pins A"
    and "ar_capacity (free_batch A b) = ar_capacity A"
    and "rc_young (ar_rec (free_batch A b)) = rc_young (ar_rec A)"
    and "rc_old (ar_rec (free_batch A b)) = rc_old (ar_rec A)"
    and "i \<notin> set (pb_chunks b) \<Longrightarrow> ar_chunks (free_batch A b) i = ar_chunks A i"
    and "i \<notin> set (pb_interiors b) \<Longrightarrow> ar_interiors (free_batch A b) i = ar_interiors A i"
proof -
  define B where "B = foldl free_chunk A (pb_chunks b)"
  define C where "C = foldl free_interior B (pb_interiors b)"
  have B: "arena_inv_with B Lc Li [] (pb_interiors b)"
    "\<And>i. i \<notin> set (pb_chunks b) \<Longrightarrow> ar_chunks B i = ar_chunks A i"
    using free_chunk_fold [of A Lc Li "pb_chunks b" "[]" "pb_interiors b"] inv by (auto simp: B_def)
  have C: "arena_inv C Lc Li" "\<And>i. i \<notin> set (pb_interiors b) \<Longrightarrow> ar_interiors C i = ar_interiors B i"
    using free_interior_fold [of B Lc Li "[]" "pb_interiors b" "[]"] B(1) by (auto simp: C_def)
  have fb: "free_batch A b = C\<lparr>ar_rec := (ar_rec C)\<lparr>rc_spare := return_spare (rc_spare (ar_rec C)) b\<rparr>\<rparr>"
    by (simp add: free_batch_def Let_def B_def C_def)
  note oth = foldl_free_chunk_other [of A "pb_chunks b", folded B_def]
    foldl_free_interior_other [of B "pb_interiors b", folded C_def]
  have "spare_ok ((ar_rec C)\<lparr>rc_spare := return_spare (rc_spare (ar_rec C)) b\<rparr>)"
    using C(1) by (intro spare_ok_return) (simp add: arena_inv_def)
  then show "arena_inv (free_batch A b) Lc Li"
    using C(1) by (simp add: fb arena_inv_def cursors_ok_def chunk_bound_def interior_bound_def
        pend_chunks_def pend_interiors_def)
  show "ar_gate (free_batch A b) = ar_gate A" "ar_pins (free_batch A b) = ar_pins A"
    "ar_capacity (free_batch A b) = ar_capacity A"
    "rc_young (ar_rec (free_batch A b)) = rc_young (ar_rec A)"
    "rc_old (ar_rec (free_batch A b)) = rc_old (ar_rec A)"
    using oth by (simp_all add: fb)
  show "i \<notin> set (pb_chunks b) \<Longrightarrow> ar_chunks (free_batch A b) i = ar_chunks A i"
    "i \<notin> set (pb_interiors b) \<Longrightarrow> ar_interiors (free_batch A b) i = ar_interiors A i"
    using oth B(2) C(2) by (simp_all add: fb)
qed

subsection \<open>Reclaiming\<close>

text \<open>Popping the front of a queue hands its slots over to the batch being freed.\<close>

lemma pop_young_inv:
  assumes "arena_inv A Lc Li" and "rc_young (ar_rec A) = b # bs"
  shows "arena_inv_with (A\<lparr>ar_rec := (ar_rec A)\<lparr>rc_young := bs\<rparr>\<rparr>) Lc Li (pb_chunks b) (pb_interiors b)"
  using assms
  by (simp add: arena_inv_with_def arena_inv_def cursors_ok_def spare_ok_def chunk_bound_def
      interior_bound_def pend_chunks_def pend_interiors_def)

lemma pop_old_inv:
  assumes inv: "arena_inv A Lc Li" and q: "rc_old (ar_rec A) = b # bs"
  shows "arena_inv_with (A\<lparr>ar_rec := (ar_rec A)\<lparr>rc_old := bs\<rparr>\<rparr>) Lc Li (pb_chunks b) (pb_interiors b)"
proof -
  let ?rec = "(ar_rec A)\<lparr>rc_old := bs\<rparr>"
  have c: "mset (pend_chunks (ar_rec A)) = mset (pb_chunks b @ pend_chunks ?rec)"
    using q by (simp add: pend_chunks_def)
  have i: "mset (pend_interiors (ar_rec A)) = mset (pb_interiors b @ pend_interiors ?rec)"
    using q by (simp add: pend_interiors_def)
  show ?thesis
    using inv unfolding arena_inv_with_def arena_inv_def class_inv_pend [OF c] class_inv_pend [OF i]
    by (simp add: cursors_ok_def spare_ok_def chunk_bound_def interior_bound_def)
qed

text \<open>
  What reclaiming may touch: only slots of batches whose conditions hold in the end state.
\<close>

definition freeable :: "arena \<Rightarrow> nat \<Rightarrow> pending_batch set" where
  "freeable A phase = {b \<in> set (rc_young (ar_rec A)). pb_grace b \<le> phase}
     \<union> {b \<in> set (rc_old (ar_rec A)). pb_grace b \<le> phase \<and> pb_stamp b \<le> pins_min_pinned (ar_pins A)}"

definition freeable_chunks :: "arena \<Rightarrow> nat \<Rightarrow> u32 set" where
  "freeable_chunks A phase = (\<Union>b\<in>freeable A phase. set (pb_chunks b))"

definition freeable_interiors :: "arena \<Rightarrow> nat \<Rightarrow> u32 set" where
  "freeable_interiors A phase = (\<Union>b\<in>freeable A phase. set (pb_interiors b))"

definition freed_ok :: "arena \<Rightarrow> nat \<Rightarrow> arena \<Rightarrow> bool" where
  "freed_ok A phase A' \<longleftrightarrow>
     agree_off (freeable_chunks A phase) (ar_chunks A) (ar_chunks A') \<and>
     agree_off (freeable_interiors A phase) (ar_interiors A) (ar_interiors A')"

lemma freed_ok_refl: "freed_ok A p A"
  by (simp add: freed_ok_def)

lemma freed_ok_trans:
  assumes "freed_ok A p B" and "freed_ok B p C" and "freeable B p \<subseteq> freeable A p"
  shows "freed_ok A p C"
proof -
  have "freeable_chunks B p \<subseteq> freeable_chunks A p" "freeable_interiors B p \<subseteq> freeable_interiors A p"
    using assms(3) unfolding freeable_chunks_def freeable_interiors_def by (auto intro: UN_mono)
  with assms(1,2) show ?thesis unfolding freed_ok_def by (blast intro: agree_off_trans_subset)
qed

lemma freed_ok_batch:
  assumes "b \<in> freeable A p"
    and "\<And>i. i \<notin> set (pb_chunks b) \<Longrightarrow> ar_chunks B i = ar_chunks A i"
    and "\<And>i. i \<notin> set (pb_interiors b) \<Longrightarrow> ar_interiors B i = ar_interiors A i"
  shows "freed_ok A p B"
proof -
  have "set (pb_chunks b) \<subseteq> freeable_chunks A p" "set (pb_interiors b) \<subseteq> freeable_interiors A p"
    using assms(1) by (auto simp: freeable_chunks_def freeable_interiors_def)
  with assms(2,3) show ?thesis by (auto simp: freed_ok_def agree_off_def)
qed

lemma freeable_mono:
  "set (rc_young (ar_rec B)) \<subseteq> set (rc_young (ar_rec A)) \<Longrightarrow>
   set (rc_old (ar_rec B)) \<subseteq> set (rc_old (ar_rec A)) \<Longrightarrow> ar_pins B = ar_pins A \<Longrightarrow>
   freeable B p \<subseteq> freeable A p"
  by (auto simp: freeable_def)

lemma freed_ok_frame:
  assumes "arena_inv A Lc Li" and "freed_ok A p A'"
  shows "(\<forall>i\<in>Lc. ar_chunks A' i = ar_chunks A i) \<and> (\<forall>i\<in>Li. ar_interiors A' i = ar_interiors A i)"
proof -
  have "set (pend_chunks (ar_rec A)) \<inter> Lc = {}" "set (pend_interiors (ar_rec A)) \<inter> Li = {}"
    using assms(1) by (auto simp: arena_inv_def class_inv_def)
  moreover have "freeable_chunks A p \<subseteq> set (pend_chunks (ar_rec A))"
    "freeable_interiors A p \<subseteq> set (pend_interiors (ar_rec A))"
    by (auto simp: freeable_chunks_def freeable_interiors_def freeable_def pend_chunks_def pend_interiors_def)
  ultimately show ?thesis using assms(2) unfolding freed_ok_def agree_off_def by blast
qed

lemma drain_young_ok:
  assumes "arena_inv A Lc Li" and "rc_young (ar_rec A) = q"
  shows "arena_inv (drain_young p q A) Lc Li \<and> freed_ok A p (drain_young p q A) \<and>
    ar_gate (drain_young p q A) = ar_gate A \<and> ar_pins (drain_young p q A) = ar_pins A \<and>
    ar_capacity (drain_young p q A) = ar_capacity A \<and>
    rc_old (ar_rec (drain_young p q A)) = rc_old (ar_rec A) \<and>
    suffix (rc_young (ar_rec (drain_young p q A))) q"
  using assms
proof (induction p q A rule: drain_young.induct)
  case (1 p A)
  have e: "drain_young p [] A = A" using 1 by simp
  show ?case unfolding e using 1 by (simp add: freed_ok_refl)
next
  case (2 p b bs A)
  show ?case
  proof (cases "pb_grace b \<le> p")
    case False
    then show ?thesis using 2 by (auto simp: freed_ok_refl)
  next
    case True
    define P where "P = A\<lparr>ar_rec := (ar_rec A)\<lparr>rc_young := bs\<rparr>\<rparr>"
    define B where "B = free_batch P b"
    note fb = free_batch_ok [OF pop_young_inv [OF "2.prems"], folded P_def, folded B_def]
    have "rc_young (ar_rec B) = bs" using fb(5) by (simp add: P_def)
    then have IH: "arena_inv (drain_young p bs B) Lc Li \<and> freed_ok B p (drain_young p bs B) \<and>
        ar_gate (drain_young p bs B) = ar_gate B \<and> ar_pins (drain_young p bs B) = ar_pins B \<and>
        ar_capacity (drain_young p bs B) = ar_capacity B \<and>
        rc_old (ar_rec (drain_young p bs B)) = rc_old (ar_rec B) \<and>
        suffix (rc_young (ar_rec (drain_young p bs B))) bs"
      using "2.IH" [OF True] fb(1) by (simp add: B_def P_def)
    have step: "drain_young p (b # bs) A = drain_young p bs B"
      using True by (simp add: B_def P_def)
    have old: "rc_old (ar_rec B) = rc_old (ar_rec A)" "ar_pins B = ar_pins A"
      using fb by (simp_all add: P_def)
    have "freed_ok A p B"
      using True "2.prems"(2) fb(7,8) by (intro freed_ok_batch [of b]) (simp_all add: P_def freeable_def)
    moreover have "freeable B p \<subseteq> freeable A p"
      using old fb(5) "2.prems"(2) by (intro freeable_mono) (auto simp: P_def)
    ultimately have "freed_ok A p (drain_young p bs B)"
      using IH freed_ok_trans by blast
    then show ?thesis using IH old fb unfolding step by (simp add: P_def suffix_ConsI)
  qed
qed

lemma drain_old_ok:
  assumes "arena_inv A Lc Li" and "rc_old (ar_rec A) = q" and "mp = pins_min_pinned (ar_pins A)"
  shows "arena_inv (drain_old p mp q A) Lc Li \<and> freed_ok A p (drain_old p mp q A) \<and>
    ar_gate (drain_old p mp q A) = ar_gate A \<and> ar_pins (drain_old p mp q A) = ar_pins A \<and>
    ar_capacity (drain_old p mp q A) = ar_capacity A \<and>
    rc_young (ar_rec (drain_old p mp q A)) = rc_young (ar_rec A) \<and>
    suffix (rc_old (ar_rec (drain_old p mp q A))) q"
  using assms
proof (induction p mp q A rule: drain_old.induct)
  case (1 p mp A)
  have e: "drain_old p mp [] A = A" using 1 by simp
  show ?case unfolding e using 1 by (simp add: freed_ok_refl)
next
  case (2 p mp b bs A)
  show ?case
  proof (cases "pb_grace b \<le> p \<and> pb_stamp b \<le> mp")
    case False
    then show ?thesis using 2 by (auto simp: freed_ok_refl)
  next
    case True
    define P where "P = A\<lparr>ar_rec := (ar_rec A)\<lparr>rc_old := bs\<rparr>\<rparr>"
    define B where "B = free_batch P b"
    note fb = free_batch_ok [OF pop_old_inv [OF "2.prems"(1,2)], folded P_def, folded B_def]
    have "rc_old (ar_rec B) = bs" using fb(6) by (simp add: P_def)
    then have IH: "arena_inv (drain_old p mp bs B) Lc Li \<and> freed_ok B p (drain_old p mp bs B) \<and>
        ar_gate (drain_old p mp bs B) = ar_gate B \<and> ar_pins (drain_old p mp bs B) = ar_pins B \<and>
        ar_capacity (drain_old p mp bs B) = ar_capacity B \<and>
        rc_young (ar_rec (drain_old p mp bs B)) = rc_young (ar_rec B) \<and>
        suffix (rc_old (ar_rec (drain_old p mp bs B))) bs"
      using "2.IH" [OF True] fb(1,3) "2.prems"(3) by (simp add: B_def P_def)
    have step: "drain_old p mp (b # bs) A = drain_old p mp bs B"
      using True by (simp add: B_def P_def)
    have old: "rc_young (ar_rec B) = rc_young (ar_rec A)" "ar_pins B = ar_pins A"
      using fb by (simp_all add: P_def)
    have "freed_ok A p B"
      using True "2.prems"(2,3) fb(7,8) by (intro freed_ok_batch [of b]) (simp_all add: P_def freeable_def)
    moreover have "freeable B p \<subseteq> freeable A p"
      using old fb(6) "2.prems"(2) by (intro freeable_mono) (auto simp: P_def)
    ultimately have "freed_ok A p (drain_old p mp bs B)"
      using IH freed_ok_trans by blast
    then show ?thesis using IH old fb unfolding step by (simp add: P_def suffix_ConsI)
  qed
qed

lemma arena_inv_gate: "arena_inv (A\<lparr>ar_gate := g\<rparr>) Lc Li = arena_inv A Lc Li"
  by (simp add: arena_inv_def cursors_ok_def chunk_bound_def interior_bound_def)

lemma gate_advance_stripes: "g_stripes (gate_advance g) = g_stripes g"
  by (simp add: gate_advance_def numeral_2_eq_2)

lemma reclaim_ready_ok:
  assumes inv: "arena_inv A Lc Li"
  shows "arena_inv (reclaim_ready A) Lc Li" and "arena_frame Lc Li A (reclaim_ready A)"
    and "freed_ok A (g_phase (ar_gate (reclaim_ready A))) (reclaim_ready A)"
proof -
  let ?R = "reclaim_ready A"
  let ?mp = "pins_min_pinned (ar_pins A)"
  have "arena_inv ?R Lc Li \<and> freed_ok A (g_phase (ar_gate ?R)) ?R \<and> ar_pins ?R = ar_pins A
    \<and> ar_capacity ?R = ar_capacity A \<and> g_stripes (ar_gate ?R) = g_stripes (ar_gate A)
    \<and> g_phase (ar_gate A) \<le> g_phase (ar_gate ?R)"
  proof (cases "opt_max (case rc_young (ar_rec A) of [] \<Rightarrow> None | b # _ \<Rightarrow> Some (pb_grace b))
      (case rc_old (ar_rec A) of [] \<Rightarrow> None
       | b # _ \<Rightarrow> if pb_stamp b \<le> ?mp then Some (pb_grace b) else None)")
    case None
    then show ?thesis using inv by (simp add: reclaim_ready_def Let_def freed_ok_refl)
  next
    case (Some needed)
    define B where "B = (if g_phase (ar_gate A) < needed then A\<lparr>ar_gate := gate_advance (ar_gate A)\<rparr> else A)"
    define C where "C = drain_young (g_phase (ar_gate B)) (rc_young (ar_rec B)) B"
    have B: "arena_inv B Lc Li" "ar_rec B = ar_rec A" "ar_pins B = ar_pins A" "ar_capacity B = ar_capacity A"
      "ar_chunks B = ar_chunks A" "ar_interiors B = ar_interiors A"
      "g_stripes (ar_gate B) = g_stripes (ar_gate A)" "g_phase (ar_gate A) \<le> g_phase (ar_gate B)"
      using inv gate_advance_phase [of "ar_gate A"] gate_advance_stripes
      by (simp_all add: B_def arena_inv_gate)
    have C: "arena_inv C Lc Li" "freed_ok B (g_phase (ar_gate B)) C" "ar_gate C = ar_gate B"
      "ar_pins C = ar_pins B" "ar_capacity C = ar_capacity B" "rc_old (ar_rec C) = rc_old (ar_rec B)"
      "suffix (rc_young (ar_rec C)) (rc_young (ar_rec B))"
      using drain_young_ok [OF B(1) refl] by (simp_all add: C_def)
    have R: "?R = drain_old (g_phase (ar_gate B)) ?mp (rc_old (ar_rec C)) C"
      using Some by (simp add: reclaim_ready_def Let_def B_def C_def)
    have mp: "?mp = pins_min_pinned (ar_pins C)" using C(4) B(3) by simp
    have D: "arena_inv ?R Lc Li" "freed_ok C (g_phase (ar_gate B)) ?R" "ar_gate ?R = ar_gate C"
      "ar_pins ?R = ar_pins C" "ar_capacity ?R = ar_capacity C"
      unfolding R using drain_old_ok [OF C(1) refl mp] by simp_all
    have "freed_ok A (g_phase (ar_gate B)) C"
      using C(2) by (simp add: freed_ok_def freeable_chunks_def freeable_interiors_def freeable_def B)
    moreover have "freeable C (g_phase (ar_gate B)) \<subseteq> freeable A (g_phase (ar_gate B))"
      using C(4,6) B(2,3) set_mono_suffix [OF C(7)] by (intro freeable_mono) simp_all
    ultimately have "freed_ok A (g_phase (ar_gate B)) ?R"
      using D(2) freed_ok_trans by blast
    then show ?thesis using B C D by simp
  qed
  then show "arena_inv ?R Lc Li" "freed_ok A (g_phase (ar_gate ?R)) ?R" "arena_frame Lc Li A ?R"
    using freed_ok_frame [OF inv] by (auto simp: arena_frame_def)
qed

end
