(* ===== verification/Arena_Alloc.thy ===== *)
theory Arena_Alloc
  imports Arena_Facts
begin

section \<open>Allocation and retirement keep the arena's invariant\<close>

text \<open>
  An allocation hands out a slot that was in no tree, no log and no pending batch, and touches no
  slot in use; it never fails while a free slot or bump space is left. Retiring a log moves its
  slots from the sets in use to the pending batches.
\<close>

subsection \<open>Handing out a slot\<close>

definition alloc_chunk_ok :: "u32 set \<Rightarrow> u32 set \<Rightarrow> arena \<Rightarrow> u32 option \<Rightarrow> arena \<Rightarrow> bool" where
  "alloc_chunk_ok Lc Li A r A' \<longleftrightarrow> arena_frame Lc Li A A' \<and>
     (case r of None \<Rightarrow> arena_inv A' Lc Li | Some i \<Rightarrow> i \<notin> Lc \<and> arena_inv A' (insert i Lc) Li)"

definition alloc_interior_ok :: "u32 set \<Rightarrow> u32 set \<Rightarrow> arena \<Rightarrow> u32 option \<Rightarrow> arena \<Rightarrow> bool" where
  "alloc_interior_ok Lc Li A r A' \<longleftrightarrow> arena_frame Lc Li A A' \<and>
     (case r of None \<Rightarrow> arena_inv A' Lc Li | Some i \<Rightarrow> i \<notin> Li \<and> arena_inv A' Lc (insert i Li))"

lemma alloc_chunk_ok_frame:
  "arena_frame Lc Li A B \<Longrightarrow> alloc_chunk_ok Lc Li B r C \<Longrightarrow> alloc_chunk_ok Lc Li A r C"
  unfolding alloc_chunk_ok_def by (blast intro: arena_frame_trans)

lemma alloc_interior_ok_frame:
  "arena_frame Lc Li A B \<Longrightarrow> alloc_interior_ok Lc Li B r C \<Longrightarrow> alloc_interior_ok Lc Li A r C"
  unfolding alloc_interior_ok_def by (blast intro: arena_frame_trans)

lemma pop_free_chunk_ok:
  assumes inv: "arena_inv A Lc Li"
  shows "\<exists>r A'. pop_free_chunk A = Some (r, A') \<and> alloc_chunk_ok Lc Li A r A'
    \<and> (r = None \<longrightarrow> A' = A \<and> rc_chunk_head (ar_rec A) = NO_SLOT)"
proof (cases "rc_chunk_head (ar_rec A) = NO_SLOT")
  case True
  then show ?thesis using inv by (simp add: pop_free_chunk_def alloc_chunk_ok_def)
next
  case False
  obtain fs where fs: "class_inv (ar_chunks A) (rc_chunk_head (ar_rec A)) fs (rc_free_chunks (ar_rec A))
      (pend_chunks (ar_rec A)) Lc (chunk_bound A)"
    using inv by (auto simp: arena_inv_def)
  from class_inv_pop [OF fs False] obtain n fs' where n: "ar_chunks A (rc_chunk_head (ar_rec A)) = Some (Link n)"
    "0 < rc_free_chunks (ar_rec A)" "rc_chunk_head (ar_rec A) \<notin> Lc"
    and ci: "class_inv (ar_chunks A) n fs' (rc_free_chunks (ar_rec A) - 1) (pend_chunks (ar_rec A))
      (insert (rc_chunk_head (ar_rec A)) Lc) (chunk_bound A)"
    by metis
  let ?h = "rc_chunk_head (ar_rec A)"
  let ?A = "A\<lparr>ar_rec := (ar_rec A)\<lparr>rc_chunk_head := n, rc_free_chunks := rc_free_chunks (ar_rec A) - 1\<rparr>\<rparr>"
  have pop: "pop_free_chunk A = Some (Some ?h, ?A)"
    using False n(2) by (simp add: pop_free_chunk_def read_link_def n(1) Let_def)
  have "arena_inv ?A (insert ?h Lc) Li"
    using inv ci unfolding arena_inv_def
    by (auto simp: cursors_ok_def spare_ok_def chunk_bound_def interior_bound_def pend_chunks_def
        pend_interiors_def)
  then have "alloc_chunk_ok Lc Li A (Some ?h) ?A"
    using n(3) by (simp add: alloc_chunk_ok_def arena_frame_def)
  with pop show ?thesis by blast
qed

lemma pop_free_interior_ok:
  assumes inv: "arena_inv A Lc Li"
  shows "\<exists>r A'. pop_free_interior A = Some (r, A') \<and> alloc_interior_ok Lc Li A r A'
    \<and> (r = None \<longrightarrow> A' = A \<and> rc_interior_head (ar_rec A) = NO_SLOT)"
proof (cases "rc_interior_head (ar_rec A) = NO_SLOT")
  case True
  then show ?thesis using inv by (simp add: pop_free_interior_def alloc_interior_ok_def)
next
  case False
  obtain fs where fs: "class_inv (ar_interiors A) (rc_interior_head (ar_rec A)) fs
      (rc_free_interiors (ar_rec A)) (pend_interiors (ar_rec A)) Li (interior_bound A)"
    using inv by (auto simp: arena_inv_def)
  from class_inv_pop [OF fs False] obtain n fs' where
    n: "ar_interiors A (rc_interior_head (ar_rec A)) = Some (Link n)"
    "0 < rc_free_interiors (ar_rec A)" "rc_interior_head (ar_rec A) \<notin> Li"
    and ci: "class_inv (ar_interiors A) n fs' (rc_free_interiors (ar_rec A) - 1)
      (pend_interiors (ar_rec A)) (insert (rc_interior_head (ar_rec A)) Li) (interior_bound A)"
    by metis
  let ?h = "rc_interior_head (ar_rec A)"
  let ?A = "A\<lparr>ar_rec := (ar_rec A)\<lparr>rc_interior_head := n, rc_free_interiors := rc_free_interiors (ar_rec A) - 1\<rparr>\<rparr>"
  have pop: "pop_free_interior A = Some (Some ?h, ?A)"
    using False n(2) by (simp add: pop_free_interior_def read_link_def n(1) Let_def)
  have "arena_inv ?A Lc (insert ?h Li)"
    using inv ci unfolding arena_inv_def
    by (auto simp: cursors_ok_def spare_ok_def chunk_bound_def interior_bound_def pend_chunks_def
        pend_interiors_def)
  then have "alloc_interior_ok Lc Li A (Some ?h) ?A"
    using n(3) by (simp add: alloc_interior_ok_def arena_frame_def)
  with pop show ?thesis by blast
qed

lemma cursors_bump_chunk:
  assumes ok: "cursors_ok A" and room: "ar_low A + CHUNK_SLOT \<le> ar_high A"
  shows "cursors_ok (A\<lparr>ar_low := ar_low A + CHUNK_SLOT\<rparr>)"
    and "chunk_bound (A\<lparr>ar_low := ar_low A + CHUNK_SLOT\<rparr>) = Suc (chunk_bound A)"
    and "chunk_bound A < 2 ^ 31 - 1"
proof -
  show "cursors_ok (A\<lparr>ar_low := ar_low A + CHUNK_SLOT\<rparr>)"
    using ok room by (simp add: cursors_ok_def)
  show "chunk_bound (A\<lparr>ar_low := ar_low A + CHUNK_SLOT\<rparr>) = Suc (chunk_bound A)"
    by (simp add: chunk_bound_def CHUNK_SLOT_def)
  have "ar_low A \<le> 2 ^ 31 * 16" using ok room by (simp add: cursors_ok_def MAX_CAPACITY_def INTERIOR_SLOT_def)
  then show "chunk_bound A < 2 ^ 31 - 1" by (simp add: chunk_bound_def CHUNK_SLOT_def)
qed

lemma bump_chunk_ok:
  assumes inv: "arena_inv A Lc Li" and b: "bump_chunk A = (r, A')"
  shows "alloc_chunk_ok Lc Li A r A' \<and> (r = None \<longrightarrow> A' = A \<and> ar_high A < ar_low A + CHUNK_SLOT)"
proof (cases "ar_high A < ar_low A + CHUNK_SLOT")
  case True
  then have "r = None" "A' = A" using b by (simp_all add: bump_chunk_def Let_def)
  then show ?thesis using inv True by (simp add: alloc_chunk_ok_def)
next
  case False
  have ok: "cursors_ok A" using inv by (simp add: arena_inv_def)
  let ?A = "A\<lparr>ar_low := ar_low A + CHUNK_SLOT\<rparr>"
  note cur = cursors_bump_chunk [OF ok] False
  have r: "r = Some (of_nat (chunk_bound A))" "A' = ?A"
    using False b by (simp_all add: bump_chunk_def Let_def chunk_bound_def)
  obtain fs where "class_inv (ar_chunks A) (rc_chunk_head (ar_rec A)) fs (rc_free_chunks (ar_rec A))
      (pend_chunks (ar_rec A)) Lc (chunk_bound A)"
    using inv by (auto simp: arena_inv_def)
  from class_inv_bump [OF this] cur(3,4)
  have "class_inv (ar_chunks A) (rc_chunk_head (ar_rec A)) fs (rc_free_chunks (ar_rec A))
      (pend_chunks (ar_rec A)) (insert (of_nat (chunk_bound A)) Lc) (chunk_bound ?A)"
    and fresh: "of_nat (chunk_bound A) \<notin> Lc"
    using cur(2) by simp_all
  then have "arena_inv ?A (insert (of_nat (chunk_bound A)) Lc) Li"
    using inv cur(1,4) unfolding arena_inv_def by (auto simp: interior_bound_def)
  then show ?thesis using fresh by (simp add: r alloc_chunk_ok_def arena_frame_def)
qed

lemma bump_interior_ok:
  assumes inv: "arena_inv A Lc Li" and b: "bump_interior A = (r, A')"
  shows "alloc_interior_ok Lc Li A r A' \<and> (r = None \<longrightarrow> A' = A \<and>
    (ar_high A < ar_low A + INTERIOR_SLOT \<or> 2 ^ 31 - 1 \<le> interior_bound A))"
proof (cases "ar_high A < ar_low A + INTERIOR_SLOT \<or> 2 ^ 31 - 1 \<le> interior_bound A")
  case True
  have idx: "(ar_capacity A - (ar_high A - INTERIOR_SLOT)) div INTERIOR_SLOT - 1 = interior_bound A"
    if "\<not> ar_high A < ar_low A + INTERIOR_SLOT"
  proof -
    have "ar_high A \<le> ar_capacity A" using inv by (simp add: arena_inv_def cursors_ok_def)
    then have "ar_capacity A - (ar_high A - INTERIOR_SLOT) = (ar_capacity A - ar_high A) + INTERIOR_SLOT"
      using that by linarith
    then show ?thesis by (simp add: interior_bound_def INTERIOR_SLOT_def)
  qed
  then have "r = None" "A' = A" using b True
    by (auto simp: bump_interior_def Let_def split: if_splits)
  then show ?thesis using inv True by (simp add: alloc_interior_ok_def)
next
  case False
  have ok: "cursors_ok A" using inv by (simp add: arena_inv_def)
  have e: "ar_capacity A - (ar_high A - INTERIOR_SLOT) = (ar_capacity A - ar_high A) + INTERIOR_SLOT"
    using False ok unfolding cursors_ok_def by linarith
  let ?A = "A\<lparr>ar_high := ar_high A - INTERIOR_SLOT\<rparr>"
  have idx: "(ar_capacity A - (ar_high A - INTERIOR_SLOT)) div INTERIOR_SLOT - 1 = interior_bound A"
    and bd: "interior_bound ?A = Suc (interior_bound A)"
    unfolding interior_bound_def by (simp_all add: e, simp_all add: INTERIOR_SLOT_def)
  have r: "r = Some (of_nat (interior_bound A))" "A' = ?A"
    using False b idx by (simp_all add: bump_interior_def Let_def)
  obtain fs where "class_inv (ar_interiors A) (rc_interior_head (ar_rec A)) fs
      (rc_free_interiors (ar_rec A)) (pend_interiors (ar_rec A)) Li (interior_bound A)"
    using inv by (auto simp: arena_inv_def)
  from class_inv_bump [OF this] False
  have "class_inv (ar_interiors A) (rc_interior_head (ar_rec A)) fs (rc_free_interiors (ar_rec A))
      (pend_interiors (ar_rec A)) (insert (of_nat (interior_bound A)) Li) (interior_bound ?A)"
    and fresh: "of_nat (interior_bound A) \<notin> Li"
    using bd by simp_all
  moreover have "cursors_ok ?A"
  proof -
    have "ar_low A \<le> ar_high A - INTERIOR_SLOT" "ar_high A - INTERIOR_SLOT \<le> ar_capacity A"
      using ok False unfolding cursors_ok_def by linarith+
    then show ?thesis using ok by (simp add: cursors_ok_def dvd_diff_nat)
  qed
  ultimately have "arena_inv ?A Lc (insert (of_nat (interior_bound A)) Li)"
    using inv unfolding arena_inv_def by (auto simp: chunk_bound_def)
  then show ?thesis using fresh by (simp add: r alloc_interior_ok_def arena_frame_def)
qed

lemma alloc_chunk_total:
  assumes inv: "arena_inv A Lc Li"
  shows "\<exists>r A'. alloc_chunk A = Some (r, A') \<and> alloc_chunk_ok Lc Li A r A'"
proof -
  obtain r A1 where p: "pop_free_chunk A = Some (r, A1)" "alloc_chunk_ok Lc Li A r A1" "r = None \<Longrightarrow> A1 = A"
    using pop_free_chunk_ok [OF inv] by blast
  show ?thesis
  proof (cases r)
    case (Some i)
    then show ?thesis using p by (auto simp: alloc_chunk_def)
  next
    case None
    then have A1: "A1 = A" using p(3) by simp
    obtain s A2 where b: "bump_chunk A = (s, A2)" by (cases "bump_chunk A")
    note bo = bump_chunk_ok [OF inv b]
    show ?thesis
    proof (cases s)
      case (Some i)
      then show ?thesis using p(1) None A1 b bo by (auto simp: alloc_chunk_def)
    next
      case None2: None
      then have A2: "A2 = A" using bo by simp
      note rr = reclaim_ready_ok [OF inv]
      obtain t A3 where q: "pop_free_chunk (reclaim_ready A) = Some (t, A3)"
        "alloc_chunk_ok Lc Li (reclaim_ready A) t A3"
        using pop_free_chunk_ok [OF rr(1)] by blast
      have "alloc_chunk A = Some (t, A3)"
        using p(1) None A1 None2 A2 b q(1) by (simp add: alloc_chunk_def)
      with alloc_chunk_ok_frame [OF rr(2) q(2)] show ?thesis by blast
    qed
  qed
qed

lemma alloc_interior_total:
  assumes inv: "arena_inv A Lc Li"
  shows "\<exists>r A'. alloc_interior A = Some (r, A') \<and> alloc_interior_ok Lc Li A r A'"
proof -
  obtain r A1 where p: "pop_free_interior A = Some (r, A1)" "alloc_interior_ok Lc Li A r A1" "r = None \<Longrightarrow> A1 = A"
    using pop_free_interior_ok [OF inv] by blast
  show ?thesis
  proof (cases r)
    case (Some i)
    then show ?thesis using p by (auto simp: alloc_interior_def)
  next
    case None
    then have A1: "A1 = A" using p(3) by simp
    obtain s A2 where b: "bump_interior A = (s, A2)" by (cases "bump_interior A")
    note bo = bump_interior_ok [OF inv b]
    show ?thesis
    proof (cases s)
      case (Some i)
      then show ?thesis using p(1) None A1 b bo by (auto simp: alloc_interior_def)
    next
      case None2: None
      then have A2: "A2 = A" using bo by simp
      note rr = reclaim_ready_ok [OF inv]
      obtain t A3 where q: "pop_free_interior (reclaim_ready A) = Some (t, A3)"
        "alloc_interior_ok Lc Li (reclaim_ready A) t A3"
        using pop_free_interior_ok [OF rr(1)] by blast
      have "alloc_interior A = Some (t, A3)"
        using p(1) None A1 None2 A2 b q(1) by (simp add: alloc_interior_def)
      with alloc_interior_ok_frame [OF rr(2) q(2)] show ?thesis by blast
    qed
  qed
qed

subsection \<open>Writing the node\<close>

lemma arena_inv_write_chunk:
  assumes "arena_inv A Lc Li" and "i \<in> Lc"
  shows "arena_inv (A\<lparr>ar_chunks := (ar_chunks A)(i \<mapsto> v)\<rparr>) Lc Li"
proof -
  let ?B = "A\<lparr>ar_chunks := (ar_chunks A)(i \<mapsto> v)\<rparr>"
  obtain fs where "class_inv (ar_chunks A) (rc_chunk_head (ar_rec A)) fs (rc_free_chunks (ar_rec A))
      (pend_chunks (ar_rec A)) Lc (chunk_bound A)"
    using assms(1) unfolding arena_inv_def by blast
  from class_inv_write [OF this assms(2)]
  have "class_inv (ar_chunks ?B) (rc_chunk_head (ar_rec ?B)) fs (rc_free_chunks (ar_rec ?B))
      (pend_chunks (ar_rec ?B)) Lc (chunk_bound ?B)"
    by (simp add: chunk_bound_def)
  moreover have "cursors_ok ?B = cursors_ok A" "interior_bound ?B = interior_bound A"
    by (simp_all add: cursors_ok_def interior_bound_def)
  ultimately show ?thesis using assms(1) unfolding arena_inv_def by auto
qed

lemma arena_inv_write_interior:
  assumes "arena_inv A Lc Li" and "i \<in> Li"
  shows "arena_inv (A\<lparr>ar_interiors := (ar_interiors A)(i \<mapsto> v)\<rparr>) Lc Li"
proof -
  let ?B = "A\<lparr>ar_interiors := (ar_interiors A)(i \<mapsto> v)\<rparr>"
  obtain fs where "class_inv (ar_interiors A) (rc_interior_head (ar_rec A)) fs
      (rc_free_interiors (ar_rec A)) (pend_interiors (ar_rec A)) Li (interior_bound A)"
    using assms(1) unfolding arena_inv_def by blast
  from class_inv_write [OF this assms(2)]
  have "class_inv (ar_interiors ?B) (rc_interior_head (ar_rec ?B)) fs (rc_free_interiors (ar_rec ?B))
      (pend_interiors (ar_rec ?B)) Li (interior_bound ?B)"
    by (simp add: interior_bound_def)
  moreover have "cursors_ok ?B = cursors_ok A" "chunk_bound ?B = chunk_bound A"
    by (simp_all add: cursors_ok_def chunk_bound_def)
  ultimately show ?thesis using assms(1) unfolding arena_inv_def by auto
qed

lemma alloc_write_chunk_ok:
  assumes inv: "arena_inv A Lc Li"
  obtains A' where "alloc_write_chunk A c = Some (None, A')" "arena_inv A' Lc Li" "arena_frame Lc Li A A'"
  | i A' where "alloc_write_chunk A c = Some (Some i, A')" "i \<notin> Lc" "arena_inv A' (insert i Lc) Li"
      "arena_frame Lc Li A A'" "arena_chunk A' i = Some c" "unat i < 2 ^ 31 - 1"
proof -
  obtain r B where r: "alloc_chunk A = Some (r, B)" "alloc_chunk_ok Lc Li A r B"
    using alloc_chunk_total [OF inv] by blast
  show ?thesis
  proof (cases r)
    case None
    then show ?thesis using r that(1) by (simp add: alloc_write_chunk_def alloc_chunk_ok_def)
  next
    case (Some i)
    let ?B = "B\<lparr>ar_chunks := (ar_chunks B)(i \<mapsto> Node c)\<rparr>"
    have i: "i \<notin> Lc" "arena_inv B (insert i Lc) Li" "arena_frame Lc Li A B"
      using r(2) Some by (simp_all add: alloc_chunk_ok_def)
    have "arena_inv ?B (insert i Lc) Li" using arena_inv_write_chunk [OF i(2)] by simp
    moreover have "arena_frame Lc Li A ?B" using i(1,3) by (auto simp: arena_frame_def)
    moreover have "unat i < 2 ^ 31 - 1" using arena_inv_index(1) [OF i(2)] by simp
    moreover have "alloc_write_chunk A c = Some (Some i, ?B)"
      using r(1) Some by (simp add: alloc_write_chunk_def)
    ultimately show ?thesis using that(2) i(1) by (simp add: arena_chunk_def)
  qed
qed

lemma alloc_write_interior_ok:
  assumes inv: "arena_inv A Lc Li"
  obtains A' where "alloc_write_interior A n = Some (None, A')" "arena_inv A' Lc Li" "arena_frame Lc Li A A'"
  | i A' where "alloc_write_interior A n = Some (Some i, A')" "i \<notin> Li" "arena_inv A' Lc (insert i Li)"
      "arena_frame Lc Li A A'" "arena_interior A' i = Some n" "unat i < 2 ^ 31 - 1"
proof -
  obtain r B where r: "alloc_interior A = Some (r, B)" "alloc_interior_ok Lc Li A r B"
    using alloc_interior_total [OF inv] by blast
  show ?thesis
  proof (cases r)
    case None
    then show ?thesis using r that(1) by (simp add: alloc_write_interior_def alloc_interior_ok_def)
  next
    case (Some i)
    let ?B = "B\<lparr>ar_interiors := (ar_interiors B)(i \<mapsto> Node n)\<rparr>"
    have i: "i \<notin> Li" "arena_inv B Lc (insert i Li)" "arena_frame Lc Li A B"
      using r(2) Some by (simp_all add: alloc_interior_ok_def)
    have "arena_inv ?B Lc (insert i Li)" using arena_inv_write_interior [OF i(2)] by simp
    moreover have "arena_frame Lc Li A ?B" using i(1,3) by (auto simp: arena_frame_def)
    moreover have "unat i < 2 ^ 31 - 1" using arena_inv_index(2) [OF i(2)] by simp
    moreover have "alloc_write_interior A n = Some (Some i, ?B)"
      using r(1) Some by (simp add: alloc_write_interior_def)
    ultimately show ?thesis using that(2) i(1) by (simp add: arena_interior_def)
  qed
qed

end
