(* ===== verification/Arena_Retire.thy ===== *)
theory Arena_Retire
  imports Arena_Alloc
begin

section \<open>Retirement: what waits, for how long, and that nothing is lost\<close>

text \<open>
  \<open>enqueue\<close> coalesces batches by taking the larger stamp and grace, so a slot never waits for
  less than it was retired with. The two draining loops are \<open>dropWhile\<close> on their queues, which
  gives the exact condition under which a pending slot stays pending.
\<close>

subsection \<open>Enqueueing a batch\<close>

lemma enqueue_chunks:
  assumes "enqueue q sp b s g = (q', sp')"
  shows "mset (concat (map pb_chunks q')) = mset (concat (map pb_chunks q)) + mset (pb_chunks b)"
proof (cases "batch_len b = 0 \<or> q = []")
  case True
  then show ?thesis using assms by (auto simp: enqueue_def batch_len_def split: if_splits)
next
  case False
  then have q: "q = butlast q @ [last q]" by simp
  have "concat (map pb_chunks q) = concat (map pb_chunks (butlast q)) @ pb_chunks (last q)"
    by (subst q) (simp del: append_butlast_last_id)
  with False assms show ?thesis
    by (auto simp: enqueue_def Let_def split: if_splits)
qed

lemma enqueue_interiors:
  assumes "enqueue q sp b s g = (q', sp')"
  shows "mset (concat (map pb_interiors q')) = mset (concat (map pb_interiors q)) + mset (pb_interiors b)"
proof (cases "batch_len b = 0 \<or> q = []")
  case True
  then show ?thesis using assms by (auto simp: enqueue_def batch_len_def split: if_splits)
next
  case False
  then have q: "q = butlast q @ [last q]" by simp
  have "concat (map pb_interiors q) = concat (map pb_interiors (butlast q)) @ pb_interiors (last q)"
    by (subst q) (simp del: append_butlast_last_id)
  with False assms show ?thesis
    by (auto simp: enqueue_def Let_def split: if_splits)
qed

definition spares_empty :: "pending_batch list \<Rightarrow> bool" where
  "spares_empty sp \<longleftrightarrow> (\<forall>b\<in>set sp. pb_chunks b = [] \<and> pb_interiors b = [])"

lemma spare_ok_iff: "spare_ok rec = spares_empty (rc_spare rec)"
  by (simp add: spare_ok_def spares_empty_def)

lemma enqueue_spares:
  assumes "enqueue q sp b s g = (q', sp')" and "spares_empty sp"
  shows "spares_empty sp'"
  using assms by (auto simp: enqueue_def return_spare_def spares_empty_def Let_def split: if_splits)

lemma take_spare_empty:
  assumes "take_spare rec = (b, rec')" and "spares_empty (rc_spare rec)"
  shows "pb_chunks b = []" and "pb_interiors b = []" and "spares_empty (rc_spare rec')"
    and "rec' = rec\<lparr>rc_spare := rc_spare rec'\<rparr>"
proof -
  have "(pb_chunks b = [] \<and> pb_interiors b = []) \<and> spares_empty (rc_spare rec')
      \<and> rec' = rec\<lparr>rc_spare := rc_spare rec'\<rparr>"
  proof (cases "rc_spare rec")
    case Nil
    then have "b = batch_empty" "rec' = rec" using assms(1) by (simp_all add: take_spare_def)
    then show ?thesis using assms(2) by (simp add: batch_empty_def)
  next
    case (Cons x xs)
    have "last (x # xs) \<in> set (x # xs)" by (rule last_in_set) simp
    then have "b \<in> set (rc_spare rec)" "rec' = rec\<lparr>rc_spare := butlast (rc_spare rec)\<rparr>"
      using assms(1) Cons by (auto simp: take_spare_def)
    then show ?thesis using assms(2) by (auto simp: spares_empty_def dest: in_set_butlastD)
  qed
  then show "pb_chunks b = []" "pb_interiors b = []" "spares_empty (rc_spare rec')"
    "rec' = rec\<lparr>rc_spare := rc_spare rec'\<rparr>" by simp_all
qed

text \<open>A slot pending under at least this stamp and grace.\<close>

definition waits :: "(pending_batch \<Rightarrow> u32 list) \<Rightarrow> pending_batch list \<Rightarrow> nat \<Rightarrow> nat \<Rightarrow> u32 \<Rightarrow> bool" where
  "waits sel q s g i \<longleftrightarrow> (\<exists>b\<in>set q. i \<in> set (sel b) \<and> s \<le> pb_stamp b \<and> g \<le> pb_grace b)"

lemma waits_snoc:
  "waits sel (q @ [b]) s g i \<longleftrightarrow> waits sel q s g i \<or> (i \<in> set (sel b) \<and> s \<le> pb_stamp b \<and> g \<le> pb_grace b)"
  by (auto simp: waits_def)

lemma enqueue_waits_old:
  assumes "enqueue q sp b s g = (q', sp')" and "sel = pb_chunks \<or> sel = pb_interiors"
    and "waits sel q s0 g0 i"
  shows "waits sel q' s0 g0 i"
proof (cases "batch_len b = 0 \<or> q = []")
  case True
  then show ?thesis using assms by (auto simp: enqueue_def waits_def split: if_splits)
next
  case False
  then have q: "q = butlast q @ [last q]" by simp
  have "waits sel (butlast q @ [last q]) s0 g0 i" using assms(3) q by simp
  then have "waits sel (butlast q) s0 g0 i \<or> (i \<in> set (sel (last q)) \<and> s0 \<le> pb_stamp (last q) \<and> g0 \<le> pb_grace (last q))"
    unfolding waits_snoc .
  moreover have "q' = q @ [b\<lparr>pb_stamp := s, pb_grace := g\<rparr>] \<or> q' = butlast q @ [(last q)\<lparr>pb_chunks := pb_chunks (last q) @ pb_chunks b,
             pb_interiors := pb_interiors (last q) @ pb_interiors b,
             pb_stamp := max (pb_stamp (last q)) s, pb_grace := max (pb_grace (last q)) g\<rparr>]"
    using assms(1) False by (auto simp: enqueue_def Let_def split: if_splits)
  ultimately show ?thesis using assms(2,3) by (elim disjE) (simp_all add: waits_snoc, simp_all add: waits_def le_max_iff_disj)
qed

lemma enqueue_waits_new:
  assumes "enqueue q sp b s g = (q', sp')" and "sel = pb_chunks \<or> sel = pb_interiors"
    and "i \<in> set (sel b)"
  shows "waits sel q' s g i"
proof -
  have ne: "batch_len b \<noteq> 0" using assms(2,3) by (auto simp: batch_len_def)
  then have "q' = q @ [b\<lparr>pb_stamp := s, pb_grace := g\<rparr>] \<or> q' = butlast q @ [(last q)\<lparr>pb_chunks := pb_chunks (last q) @ pb_chunks b,
             pb_interiors := pb_interiors (last q) @ pb_interiors b,
             pb_stamp := max (pb_stamp (last q)) s, pb_grace := max (pb_grace (last q)) g\<rparr>]"
    using assms(1) by (auto simp: enqueue_def Let_def split: if_splits)
  then show ?thesis using assms(2,3) by (elim disjE) (simp_all add: waits_snoc)
qed

subsection \<open>Draining is \<open>dropWhile\<close>\<close>

lemma drain_young_queue:
  assumes "rc_young (ar_rec A) = q"
  shows "rc_young (ar_rec (drain_young p q A)) = dropWhile (\<lambda>b. pb_grace b \<le> p) q"
  using assms
proof (induction p q A rule: drain_young.induct)
  case (2 p b bs A)
  have "rc_young (ar_rec (free_batch X b)) = rc_young (ar_rec X)" for X
    by (simp add: free_batch_def Let_def foldl_free_chunk_other foldl_free_interior_other)
  with 2 show ?case by simp
qed simp

lemma drain_old_queue:
  assumes "rc_old (ar_rec A) = q"
  shows "rc_old (ar_rec (drain_old p mp q A)) = dropWhile (\<lambda>b. pb_grace b \<le> p \<and> pb_stamp b \<le> mp) q"
  using assms
proof (induction p mp q A rule: drain_old.induct)
  case (2 p mp b bs A)
  have "rc_old (ar_rec (free_batch X b)) = rc_old (ar_rec X)" for X
    by (simp add: free_batch_def Let_def foldl_free_chunk_other foldl_free_interior_other)
  with 2 show ?case by simp
qed simp

lemma mem_dropWhile: "x \<in> set q \<Longrightarrow> \<not> P x \<Longrightarrow> x \<in> set (dropWhile P q)"
  by (induction q) auto

text \<open>
  A slot that waits is still pending, and its contents are untouched, as long as its condition
  fails in the state the reclaim leaves: the phase of its grace is not reached, or (a slot that a
  pin may hold) a pin below its stamp is left.
\<close>

lemma reclaim_ready_cases:
  obtains "reclaim_ready A = A"
  | B where "B = A \<or> B = A\<lparr>ar_gate := gate_advance (ar_gate A)\<rparr>"
      and "reclaim_ready A = drain_old (g_phase (ar_gate B)) (pins_min_pinned (ar_pins A))
        (rc_old (ar_rec (drain_young (g_phase (ar_gate B)) (rc_young (ar_rec B)) B)))
        (drain_young (g_phase (ar_gate B)) (rc_young (ar_rec B)) B)"
proof (cases "opt_max (case rc_young (ar_rec A) of [] \<Rightarrow> None | b # _ \<Rightarrow> Some (pb_grace b))
      (case rc_old (ar_rec A) of [] \<Rightarrow> None
       | b # _ \<Rightarrow> if pb_stamp b \<le> pins_min_pinned (ar_pins A) then Some (pb_grace b) else None)")
  case None
  then show ?thesis using that(1) by (simp add: reclaim_ready_def Let_def)
next
  case (Some needed)
  let ?B = "if g_phase (ar_gate A) < needed then A\<lparr>ar_gate := gate_advance (ar_gate A)\<rparr> else A"
  have "reclaim_ready A = drain_old (g_phase (ar_gate ?B)) (pins_min_pinned (ar_pins A))
        (rc_old (ar_rec (drain_young (g_phase (ar_gate ?B)) (rc_young (ar_rec ?B)) ?B)))
        (drain_young (g_phase (ar_gate ?B)) (rc_young (ar_rec ?B)) ?B)"
    by (simp only: reclaim_ready_def Let_def Some option.case)
  then show ?thesis using that(2) [of ?B] by presburger
qed

lemma reclaim_young_queue:
  assumes inv: "arena_inv A Lc Li" and w: "waits sel (rc_young (ar_rec A)) s g i"
    and early: "g_phase (ar_gate (reclaim_ready A)) < g"
  shows "waits sel (rc_young (ar_rec (reclaim_ready A))) s g i"
proof (cases rule: reclaim_ready_cases [of A])
  case 1
  then show ?thesis using w by simp
next
  case (2 B)
  define C where "C = drain_young (g_phase (ar_gate B)) (rc_young (ar_rec B)) B"
  have B: "arena_inv B Lc Li" "ar_rec B = ar_rec A" "ar_pins B = ar_pins A"
    using 2(1) inv by (auto simp: arena_inv_gate)
  note dy = drain_young_ok [OF B(1) refl, of "g_phase (ar_gate B)", folded C_def]
  have C: "arena_inv C Lc Li" "ar_pins C = ar_pins A" "ar_gate C = ar_gate B" using dy B by simp_all
  have R: "reclaim_ready A = drain_old (g_phase (ar_gate B)) (pins_min_pinned (ar_pins C)) (rc_old (ar_rec C)) C"
    using 2(2) C(2) by (simp add: C_def)
  note do = drain_old_ok [OF C(1) refl refl, of "g_phase (ar_gate B)", folded R]
  have ph: "g_phase (ar_gate B) < g" using early do C(3) by simp
  have "rc_young (ar_rec (reclaim_ready A)) = dropWhile (\<lambda>b. pb_grace b \<le> g_phase (ar_gate B)) (rc_young (ar_rec A))"
    using do drain_young_queue [of B "rc_young (ar_rec B)" "g_phase (ar_gate B)"] B(2) by (simp add: C_def)
  moreover obtain b where b: "b \<in> set (rc_young (ar_rec A))" "i \<in> set (sel b)" "s \<le> pb_stamp b" "g \<le> pb_grace b"
    using w by (auto simp: waits_def)
  moreover have "\<not> pb_grace b \<le> g_phase (ar_gate B)" using b(4) ph by simp
  ultimately show ?thesis unfolding waits_def using mem_dropWhile by metis
qed

lemma reclaim_old_queue:
  assumes inv: "arena_inv A Lc Li" and w: "waits sel (rc_old (ar_rec A)) s g i"
    and early: "g_phase (ar_gate (reclaim_ready A)) < g \<or> pins_min_pinned (ar_pins A) < s"
  shows "waits sel (rc_old (ar_rec (reclaim_ready A))) s g i"
proof (cases rule: reclaim_ready_cases [of A])
  case 1
  then show ?thesis using w by simp
next
  case (2 B)
  define C where "C = drain_young (g_phase (ar_gate B)) (rc_young (ar_rec B)) B"
  have B: "arena_inv B Lc Li" "ar_rec B = ar_rec A" "ar_pins B = ar_pins A"
    using 2(1) inv by (auto simp: arena_inv_gate)
  note dy = drain_young_ok [OF B(1) refl, of "g_phase (ar_gate B)", folded C_def]
  have C: "arena_inv C Lc Li" "ar_pins C = ar_pins A" "ar_gate C = ar_gate B" "rc_old (ar_rec C) = rc_old (ar_rec A)"
    using dy B by simp_all
  have R: "reclaim_ready A = drain_old (g_phase (ar_gate B)) (pins_min_pinned (ar_pins C)) (rc_old (ar_rec C)) C"
    using 2(2) C(2) by (simp add: C_def)
  note do = drain_old_ok [OF C(1) refl refl, of "g_phase (ar_gate B)", folded R]
  have ph: "g_phase (ar_gate B) < g \<or> pins_min_pinned (ar_pins C) < s" using early do C(2,3) by simp
  have "rc_old (ar_rec (reclaim_ready A)) = dropWhile (\<lambda>b. pb_grace b \<le> g_phase (ar_gate B)
      \<and> pb_stamp b \<le> pins_min_pinned (ar_pins C)) (rc_old (ar_rec A))"
    unfolding R using C(4) by (simp add: drain_old_queue)
  moreover obtain b where b: "b \<in> set (rc_old (ar_rec A))" "i \<in> set (sel b)" "s \<le> pb_stamp b" "g \<le> pb_grace b"
    using w by (auto simp: waits_def)
  moreover have "\<not> (pb_grace b \<le> g_phase (ar_gate B) \<and> pb_stamp b \<le> pins_min_pinned (ar_pins C))"
    using b(3,4) ph by linarith
  ultimately show ?thesis unfolding waits_def
    using mem_dropWhile [of b "rc_old (ar_rec A)" "\<lambda>b. pb_grace b \<le> g_phase (ar_gate B)
      \<and> pb_stamp b \<le> pins_min_pinned (ar_pins C)"] by metis
qed

subsection \<open>Retiring a log\<close>

text \<open>The state between handing the log's slots to the queues and reclaiming.\<close>

definition retired_into :: "arena_writer \<Rightarrow> arena \<Rightarrow> retire_log \<Rightarrow> nat \<Rightarrow> arena \<Rightarrow> bool" where
  "retired_into aw A log stamp B \<longleftrightarrow>
     B = A\<lparr>ar_rec := ar_rec B\<rparr> \<and>
     rc_chunk_head (ar_rec B) = rc_chunk_head (ar_rec A) \<and> rc_free_chunks (ar_rec B) = rc_free_chunks (ar_rec A) \<and>
     rc_interior_head (ar_rec B) = rc_interior_head (ar_rec A) \<and>
     rc_free_interiors (ar_rec B) = rc_free_interiors (ar_rec A) \<and> spare_ok (ar_rec B) \<and>
     mset (pend_chunks (ar_rec B)) = mset (pend_chunks (ar_rec A) @ rl_chunks log) \<and>
     mset (pend_interiors (ar_rec B)) = mset (pend_interiors (ar_rec A) @ rl_interiors log) \<and>
     (\<forall>sel s g i. waits sel (rc_old (ar_rec A)) s g i \<longrightarrow> sel = pb_chunks \<or> sel = pb_interiors \<longrightarrow>
        waits sel (rc_old (ar_rec B)) s g i) \<and>
     (\<forall>i\<in>set (rl_chunks log). if aw_young_chunk aw \<le> i
        then waits pb_chunks (rc_young (ar_rec B)) stamp (g_phase (ar_gate A) + 2) i
        else waits pb_chunks (rc_old (ar_rec B)) stamp (g_phase (ar_gate A) + 2) i) \<and>
     (\<forall>i\<in>set (rl_interiors log). if aw_young_interior aw \<le> i
        then waits pb_interiors (rc_young (ar_rec B)) stamp (g_phase (ar_gate A) + 2) i
        else waits pb_interiors (rc_old (ar_rec B)) stamp (g_phase (ar_gate A) + 2) i)"

lemma mset_filter_split: "mset (filter P xs) + mset (filter (\<lambda>x. \<not> P x) xs) = mset xs"
  by (induction xs) auto

lemma arena_retire_split:
  assumes ne: "\<not> (rl_chunks log = [] \<and> rl_interiors log = [])" and sp: "spare_ok (ar_rec A)"
  obtains B where "arena_retire aw A log stamp = (log\<lparr>rl_chunks := [], rl_interiors := []\<rparr>, reclaim_ready B)"
    and "retired_into aw A log stamp B"
proof -
  define g where "g = g_phase (ar_gate A) + 2"
  obtain y r1 where t1: "take_spare (ar_rec A) = (y, r1)" by (cases "take_spare (ar_rec A)")
  obtain old r2 where t2: "take_spare r1 = (old, r2)" by (cases "take_spare r1")
  note s1 = take_spare_empty [OF t1 sp [unfolded spare_ok_iff]]
  note s2 = take_spare_empty [OF t2 s1(3)]
  define yb where "yb = y\<lparr>pb_chunks := filter (\<lambda>i. aw_young_chunk aw \<le> i) (rl_chunks log),
     pb_interiors := filter (\<lambda>i. aw_young_interior aw \<le> i) (rl_interiors log)\<rparr>"
  define ob where "ob = old\<lparr>pb_chunks := filter (\<lambda>i. \<not> aw_young_chunk aw \<le> i) (rl_chunks log),
     pb_interiors := filter (\<lambda>i. \<not> aw_young_interior aw \<le> i) (rl_interiors log)\<rparr>"
  obtain yq sp1 where e1: "enqueue (rc_young r2) (rc_spare r2) yb stamp g = (yq, sp1)"
    by (cases "enqueue (rc_young r2) (rc_spare r2) yb stamp g")
  obtain oq sp2 where e2: "enqueue (rc_old r2) sp1 ob stamp g = (oq, sp2)"
    by (cases "enqueue (rc_old r2) sp1 ob stamp g")
  define B where "B = A\<lparr>ar_rec := r2\<lparr>rc_young := yq, rc_old := oq, rc_spare := sp2\<rparr>\<rparr>"
  have r2: "r2 = (ar_rec A)\<lparr>rc_spare := rc_spare r2\<rparr>"
    using s1(4) s2(4) by (metis recycler.fold_congs(3) recycler.surjective recycler.update_convs(3))
  have r2f: "rc_young r2 = rc_young (ar_rec A)" "rc_old r2 = rc_old (ar_rec A)"
    "rc_chunk_head r2 = rc_chunk_head (ar_rec A)" "rc_free_chunks r2 = rc_free_chunks (ar_rec A)"
    "rc_interior_head r2 = rc_interior_head (ar_rec A)" "rc_free_interiors r2 = rc_free_interiors (ar_rec A)"
    by (subst r2, simp)+
  have eq: "arena_retire aw A log stamp = (log\<lparr>rl_chunks := [], rl_interiors := []\<rparr>, reclaim_ready B)"
    using e1 e2 s1(1,2) s2(1,2) unfolding arena_retire_def if_not_P [OF ne] g_def
    by (simp add: Let_def t1 t2 yb_def ob_def B_def)
  have pb: "pb_chunks yb = filter (\<lambda>i. aw_young_chunk aw \<le> i) (rl_chunks log)"
    "pb_interiors yb = filter (\<lambda>i. aw_young_interior aw \<le> i) (rl_interiors log)"
    "pb_chunks ob = filter (\<lambda>i. \<not> aw_young_chunk aw \<le> i) (rl_chunks log)"
    "pb_interiors ob = filter (\<lambda>i. \<not> aw_young_interior aw \<le> i) (rl_interiors log)"
    by (simp_all add: yb_def ob_def)
  have mc: "mset (pend_chunks (ar_rec B)) = mset (pend_chunks (ar_rec A) @ rl_chunks log)"
    using enqueue_chunks [OF e1] enqueue_chunks [OF e2] mset_filter_split [of "\<lambda>i. aw_young_chunk aw \<le> i"]
    by (simp add: pend_chunks_def B_def r2f pb)
  have mi: "mset (pend_interiors (ar_rec B)) = mset (pend_interiors (ar_rec A) @ rl_interiors log)"
    using enqueue_interiors [OF e1] enqueue_interiors [OF e2]
      mset_filter_split [of "\<lambda>i. aw_young_interior aw \<le> i"]
    by (simp add: pend_interiors_def B_def r2f pb)
  have "spare_ok (ar_rec B)"
    using enqueue_spares [OF e2 enqueue_spares [OF e1 s2(3)]] by (simp add: spare_ok_iff B_def)
  moreover have "\<forall>i\<in>set (rl_chunks log). if aw_young_chunk aw \<le> i
      then waits pb_chunks yq stamp g i else waits pb_chunks oq stamp g i"
    using enqueue_waits_new [OF e1, of pb_chunks] enqueue_waits_new [OF e2, of pb_chunks]
    by (simp add: pb not_le)
  moreover have "\<forall>i\<in>set (rl_interiors log). if aw_young_interior aw \<le> i
      then waits pb_interiors yq stamp g i else waits pb_interiors oq stamp g i"
    using enqueue_waits_new [OF e1, of pb_interiors] enqueue_waits_new [OF e2, of pb_interiors]
    by (simp add: pb not_le)
  moreover have "\<forall>sel s0 g0 i. waits sel (rc_old (ar_rec A)) s0 g0 i \<longrightarrow> sel = pb_chunks \<or> sel = pb_interiors \<longrightarrow>
      waits sel oq s0 g0 i"
    using enqueue_waits_old [OF e2] r2f(2) by metis
  ultimately have "retired_into aw A log stamp B"
    using mc mi unfolding retired_into_def g_def [symmetric] by (simp add: B_def r2f)
  with eq show ?thesis by (rule that)
qed

lemma retired_into_inv:
  assumes "retired_into aw A log stamp B"
    and inv: "arena_inv A (Lc \<union> set (rl_chunks log)) (Li \<union> set (rl_interiors log))"
    and "distinct (rl_chunks log)" and "distinct (rl_interiors log)"
    and "set (rl_chunks log) \<inter> Lc = {}" and "set (rl_interiors log) \<inter> Li = {}"
  shows "arena_inv B Lc Li"
proof -
  obtain fc where c: "class_inv (ar_chunks A) (rc_chunk_head (ar_rec A)) fc (rc_free_chunks (ar_rec A))
      (pend_chunks (ar_rec A)) (Lc \<union> set (rl_chunks log)) (chunk_bound A)"
    using inv by (auto simp: arena_inv_def)
  obtain fi where i: "class_inv (ar_interiors A) (rc_interior_head (ar_rec A)) fi (rc_free_interiors (ar_rec A))
      (pend_interiors (ar_rec A)) (Li \<union> set (rl_interiors log)) (interior_bound A)"
    using inv by (auto simp: arena_inv_def)
  have B: "B = A\<lparr>ar_rec := ar_rec B\<rparr>" using assms(1) by (simp add: retired_into_def)
  have f: "ar_chunks B = ar_chunks A" "ar_interiors B = ar_interiors A" "chunk_bound B = chunk_bound A"
    "interior_bound B = interior_bound A" "cursors_ok B = cursors_ok A"
    by (subst B, simp add: chunk_bound_def interior_bound_def cursors_ok_def)+
  note c' = class_inv_retire [OF c assms(3,5)]
  note i' = class_inv_retire [OF i assms(4,6)]
  have mc: "mset (pend_chunks (ar_rec B)) = mset (pend_chunks (ar_rec A) @ rl_chunks log)"
    and mi: "mset (pend_interiors (ar_rec B)) = mset (pend_interiors (ar_rec A) @ rl_interiors log)"
    using assms(1) by (simp_all add: retired_into_def)
  have "class_inv (ar_chunks B) (rc_chunk_head (ar_rec B)) fc (rc_free_chunks (ar_rec B))
      (pend_chunks (ar_rec B)) Lc (chunk_bound B)"
    using c' assms(1) unfolding class_inv_pend [OF mc] by (simp add: f retired_into_def)
  moreover have "class_inv (ar_interiors B) (rc_interior_head (ar_rec B)) fi (rc_free_interiors (ar_rec B))
      (pend_interiors (ar_rec B)) Li (interior_bound B)"
    using i' assms(1) unfolding class_inv_pend [OF mi] by (simp add: f retired_into_def)
  ultimately show ?thesis
    using assms(1) inv f(5) unfolding arena_inv_def retired_into_def by blast
qed

lemma retired_into_frame: "retired_into aw A log stamp B \<Longrightarrow> arena_frame Lc Li A B"
  unfolding retired_into_def arena_frame_def
  by (metis arena.select_convs(1,4,5,7,8) arena.surjective arena.update_convs(6) order_refl)

lemma arena_retire_ok:
  assumes inv: "arena_inv A (Lc \<union> set (rl_chunks log)) (Li \<union> set (rl_interiors log))"
    and "distinct (rl_chunks log)" and "distinct (rl_interiors log)"
    and "set (rl_chunks log) \<inter> Lc = {}" and "set (rl_interiors log) \<inter> Li = {}"
    and r: "arena_retire aw A log stamp = (log', A')"
  shows "arena_inv A' Lc Li" and "arena_frame Lc Li A A'" and "log' = retire_log_new"
proof -
  have "arena_inv A' Lc Li \<and> arena_frame Lc Li A A' \<and> log' = retire_log_new"
  proof (cases "rl_chunks log = [] \<and> rl_interiors log = []")
    case True
    moreover have "log = retire_log_new" using True by (cases log) (simp add: retire_log_new_def)
    ultimately show ?thesis using inv r by (simp add: arena_retire_def)
  next
    case False
    have "spare_ok (ar_rec A)" using inv by (simp add: arena_inv_def)
    from arena_retire_split [OF False this] obtain B where
      B: "arena_retire aw A log stamp = (log\<lparr>rl_chunks := [], rl_interiors := []\<rparr>, reclaim_ready B)"
      "retired_into aw A log stamp B" by blast
    note ri = retired_into_inv [OF B(2) inv assms(2-5)]
    have "arena_frame Lc Li A (reclaim_ready B)"
      using arena_frame_trans [OF retired_into_frame [OF B(2)] reclaim_ready_ok(2) [OF ri]] by blast
    moreover have "log\<lparr>rl_chunks := [], rl_interiors := []\<rparr> = retire_log_new"
      by (cases log) (simp add: retire_log_new_def)
    ultimately show ?thesis using r B(1) reclaim_ready_ok(1) [OF ri] by simp
  qed
  then show "arena_inv A' Lc Li" "arena_frame Lc Li A A'" "log' = retire_log_new" by simp_all
qed

subsection \<open>Protection of a waiting slot\<close>

lemma distinct_concat_disjoint:
  assumes "distinct (concat (map f xs))" and "a \<in> set xs" and "b \<in> set xs" and "a \<noteq> b"
  shows "set (f a) \<inter> set (f b) = {}"
  using assms by (induction xs) auto

lemma waiting_not_freeable_sel:
  assumes d: "distinct (concat (map sel (rc_young (ar_rec A) @ rc_old (ar_rec A))))"
    and w: "waits sel (rc_old (ar_rec A)) s g i" and early: "p < g \<or> pins_min_pinned (ar_pins A) < s"
  shows "\<forall>b\<in>freeable A p. i \<notin> set (sel b)"
proof
  fix b
  assume b: "b \<in> freeable A p"
  obtain b' where b': "b' \<in> set (rc_old (ar_rec A))" "i \<in> set (sel b')" "s \<le> pb_stamp b'" "g \<le> pb_grace b'"
    using w by (auto simp: waits_def)
  show "i \<notin> set (sel b)"
  proof
    assume i: "i \<in> set (sel b)"
    show False
    proof (cases "b = b' \<and> b \<notin> set (rc_young (ar_rec A))")
      case True
      then show False using b b'(3,4) early by (auto simp: freeable_def)
    next
      case False
      have ne: "b \<noteq> b'"
      proof
        assume e: "b = b'"
        with False have "b \<in> set (rc_young (ar_rec A))" by simp
        with d b'(1) i e show False by auto
      qed
      have "b \<in> set (rc_young (ar_rec A) @ rc_old (ar_rec A))" "b' \<in> set (rc_young (ar_rec A) @ rc_old (ar_rec A))"
        using b b'(1) by (auto simp: freeable_def)
      from distinct_concat_disjoint [OF d this ne] i b'(2) show False by blast
    qed
  qed
qed

lemma arena_inv_pending_distinct:
  assumes "arena_inv A Lc Li"
  shows "distinct (concat (map pb_chunks (rc_young (ar_rec A) @ rc_old (ar_rec A))))"
    and "distinct (concat (map pb_interiors (rc_young (ar_rec A) @ rc_old (ar_rec A))))"
  using assms by (auto simp: arena_inv_def class_inv_def pend_chunks_def pend_interiors_def)

lemma waiting_not_freeable:
  assumes inv: "arena_inv A Lc Li" and early: "p < g \<or> pins_min_pinned (ar_pins A) < s"
  shows "waits pb_chunks (rc_old (ar_rec A)) s g i \<Longrightarrow> i \<notin> freeable_chunks A p"
    and "waits pb_interiors (rc_old (ar_rec A)) s g i \<Longrightarrow> i \<notin> freeable_interiors A p"
  using waiting_not_freeable_sel [OF arena_inv_pending_distinct(1) [OF inv] _ early]
    waiting_not_freeable_sel [OF arena_inv_pending_distinct(2) [OF inv] _ early]
  by (auto simp: freeable_chunks_def freeable_interiors_def)

lemma waiting_survives_reclaim:
  assumes inv: "arena_inv A Lc Li"
    and early: "g_phase (ar_gate (reclaim_ready A)) < g \<or> pins_min_pinned (ar_pins A) < s"
  shows "waits pb_chunks (rc_old (ar_rec A)) s g i \<Longrightarrow> ar_chunks (reclaim_ready A) i = ar_chunks A i"
    and "waits pb_interiors (rc_old (ar_rec A)) s g i \<Longrightarrow> ar_interiors (reclaim_ready A) i = ar_interiors A i"
    and "waits sel (rc_old (ar_rec A)) s g i \<Longrightarrow> waits sel (rc_old (ar_rec (reclaim_ready A))) s g i"
  using reclaim_ready_ok(3) [OF inv] waiting_not_freeable [OF inv early] agree_offD reclaim_old_queue [OF inv _ early]
  unfolding freed_ok_def by metis+

text \<open>
  \<open>arena_kept A A'\<close>: every slot that waits in the old queue under a stamp above the oldest pin keeps
  its contents and keeps waiting. It holds of every step of the writer, so a snapshot's slots are
  safe while its ticket is registered.
\<close>

definition arena_kept :: "arena \<Rightarrow> arena \<Rightarrow> bool" where
  "arena_kept A A' \<longleftrightarrow> ar_pins A' = ar_pins A \<and> (\<forall>s g i. pins_min_pinned (ar_pins A) < s \<longrightarrow>
     (waits pb_chunks (rc_old (ar_rec A)) s g i \<longrightarrow>
        waits pb_chunks (rc_old (ar_rec A')) s g i \<and> ar_chunks A' i = ar_chunks A i) \<and>
     (waits pb_interiors (rc_old (ar_rec A)) s g i \<longrightarrow>
        waits pb_interiors (rc_old (ar_rec A')) s g i \<and> ar_interiors A' i = ar_interiors A i))"

lemma arena_kept_refl [simp, intro]: "arena_kept A A"
  by (simp add: arena_kept_def)

lemma arena_kept_trans: "arena_kept A B \<Longrightarrow> arena_kept B C \<Longrightarrow> arena_kept A C"
  unfolding arena_kept_def by (metis (no_types, lifting))

lemma arena_kept_same:
  "ar_pins B = ar_pins A \<Longrightarrow> rc_old (ar_rec B) = rc_old (ar_rec A) \<Longrightarrow> ar_chunks B = ar_chunks A \<Longrightarrow>
   ar_interiors B = ar_interiors A \<Longrightarrow> arena_kept A B"
  by (simp add: arena_kept_def)

lemma arena_kept_reclaim:
  assumes inv: "arena_inv A Lc Li"
  shows "arena_kept A (reclaim_ready A)"
proof -
  have "ar_pins (reclaim_ready A) = ar_pins A" using reclaim_ready_ok(2) [OF inv] by (simp add: arena_frame_def)
  then show ?thesis unfolding arena_kept_def using waiting_survives_reclaim [OF inv] by blast
qed

lemma arena_kept_retire:
  assumes inv: "arena_inv A (Lc \<union> set (rl_chunks log)) (Li \<union> set (rl_interiors log))"
    and "distinct (rl_chunks log)" and "distinct (rl_interiors log)"
    and "set (rl_chunks log) \<inter> Lc = {}" and "set (rl_interiors log) \<inter> Li = {}"
    and r: "arena_retire aw A log stamp = (log', A')"
  shows "arena_kept A A'"
proof (cases "rl_chunks log = [] \<and> rl_interiors log = []")
  case True
  then show ?thesis using r by (simp add: arena_retire_def)
next
  case False
  have "spare_ok (ar_rec A)" using inv by (simp add: arena_inv_def)
  from arena_retire_split [OF False this] obtain B where
    B: "arena_retire aw A log stamp = (log\<lparr>rl_chunks := [], rl_interiors := []\<rparr>, reclaim_ready B)"
    "retired_into aw A log stamp B" by blast
  have e: "B = A\<lparr>ar_rec := ar_rec B\<rparr>" and w: "\<And>sel s g i. waits sel (rc_old (ar_rec A)) s g i \<Longrightarrow>
      sel = pb_chunks \<or> sel = pb_interiors \<Longrightarrow> waits sel (rc_old (ar_rec B)) s g i"
    using B(2) unfolding retired_into_def by blast+
  have "ar_pins B = ar_pins A" "ar_chunks B = ar_chunks A" "ar_interiors B = ar_interiors A" by (subst e, simp)+
  then have "arena_kept A B" using w by (simp add: arena_kept_def)
  then show ?thesis using arena_kept_trans arena_kept_reclaim [OF retired_into_inv [OF B(2) inv assms(2-5)]] r B(1) by simp
qed

text \<open>What was just retired old waits under its stamp.\<close>

lemma arena_retire_waits:
  assumes inv: "arena_inv A (Lc \<union> set (rl_chunks log)) (Li \<union> set (rl_interiors log))"
    and "distinct (rl_chunks log)" and "distinct (rl_interiors log)"
    and "set (rl_chunks log) \<inter> Lc = {}" and "set (rl_interiors log) \<inter> Li = {}"
    and r: "arena_retire aw A log stamp = (log', A')" and p: "pins_min_pinned (ar_pins A) < stamp"
  shows "i \<in> set (rl_chunks log) \<Longrightarrow> i < aw_young_chunk aw \<Longrightarrow>
      waits pb_chunks (rc_old (ar_rec A')) stamp 0 i \<and> ar_chunks A' i = ar_chunks A i"
    and "i \<in> set (rl_interiors log) \<Longrightarrow> i < aw_young_interior aw \<Longrightarrow>
      waits pb_interiors (rc_old (ar_rec A')) stamp 0 i \<and> ar_interiors A' i = ar_interiors A i"
proof -
  have *: "(\<forall>i\<in>set (rl_chunks log). i < aw_young_chunk aw \<longrightarrow>
      waits pb_chunks (rc_old (ar_rec A')) stamp 0 i \<and> ar_chunks A' i = ar_chunks A i) \<and>
    (\<forall>i\<in>set (rl_interiors log). i < aw_young_interior aw \<longrightarrow>
      waits pb_interiors (rc_old (ar_rec A')) stamp 0 i \<and> ar_interiors A' i = ar_interiors A i)"
  proof (cases "rl_chunks log = [] \<and> rl_interiors log = []")
    case False
    have "spare_ok (ar_rec A)" using inv by (simp add: arena_inv_def)
    from arena_retire_split [OF False this] obtain B where
      B: "arena_retire aw A log stamp = (log\<lparr>rl_chunks := [], rl_interiors := []\<rparr>, reclaim_ready B)"
      "retired_into aw A log stamp B" by blast
    have A': "A' = reclaim_ready B" using r B(1) by simp
    have e: "B = A\<lparr>ar_rec := ar_rec B\<rparr>" using B(2) by (simp add: retired_into_def)
    have f: "ar_pins B = ar_pins A" "ar_chunks B = ar_chunks A" "ar_interiors B = ar_interiors A" by (subst e, simp)+
    have zero: "waits sel q s g i \<Longrightarrow> waits sel q s 0 i" for sel q s g i by (auto simp: waits_def)
    have "\<forall>i\<in>set (rl_chunks log). i < aw_young_chunk aw \<longrightarrow> waits pb_chunks (rc_old (ar_rec B)) stamp 0 i"
      "\<forall>i\<in>set (rl_interiors log). i < aw_young_interior aw \<longrightarrow> waits pb_interiors (rc_old (ar_rec B)) stamp 0 i"
      using B(2) zero unfolding retired_into_def by (meson not_le)+
    moreover have "arena_kept B A'" unfolding A' by (rule arena_kept_reclaim [OF retired_into_inv [OF B(2) inv assms(2-5)]])
    ultimately show ?thesis using p f unfolding arena_kept_def by metis
  qed auto
  show "i \<in> set (rl_chunks log) \<Longrightarrow> i < aw_young_chunk aw \<Longrightarrow>
      waits pb_chunks (rc_old (ar_rec A')) stamp 0 i \<and> ar_chunks A' i = ar_chunks A i" using * by blast
  show "i \<in> set (rl_interiors log) \<Longrightarrow> i < aw_young_interior aw \<Longrightarrow>
      waits pb_interiors (rc_old (ar_rec A')) stamp 0 i \<and> ar_interiors A' i = ar_interiors A i" using * by blast
qed

text \<open>An allocation changes the queues and the contents by a reclaim at most.\<close>

definition arena_same :: "arena \<Rightarrow> arena \<Rightarrow> bool" where
  "arena_same A B \<longleftrightarrow> ar_pins B = ar_pins A \<and> rc_old (ar_rec B) = rc_old (ar_rec A) \<and>
     ar_chunks B = ar_chunks A \<and> ar_interiors B = ar_interiors A"

lemma arena_same_kept: "arena_same A B \<Longrightarrow> arena_kept A B"
  by (simp add: arena_same_def arena_kept_same)

lemma pop_free_same:
  "pop_free_chunk A = Some (r, A') \<Longrightarrow> arena_same A A' \<and> (r = None \<longrightarrow> A' = A)"
  "pop_free_interior A = Some (r, A') \<Longrightarrow> arena_same A A' \<and> (r = None \<longrightarrow> A' = A)"
  by (auto simp: pop_free_chunk_def pop_free_interior_def Let_def arena_same_def split: if_splits Option.bind_splits)

lemma bump_same:
  "bump_chunk A = (r, A') \<Longrightarrow> arena_same A A' \<and> (r = None \<longrightarrow> A' = A)"
  "bump_interior A = (r, A') \<Longrightarrow> arena_same A A' \<and> (r = None \<longrightarrow> A' = A)"
  by (auto simp: bump_chunk_def bump_interior_def Let_def arena_same_def split: if_splits)

lemma alloc_chunk_same:
  assumes "alloc_chunk A = Some (r, A')"
  shows "arena_same A A' \<or> arena_same (reclaim_ready A) A'"
proof -
  obtain q B where p: "pop_free_chunk A = Some (q, B)" using assms by (auto simp: alloc_chunk_def split: Option.bind_splits)
  obtain t C where b: "bump_chunk B = (t, C)" by (cases "bump_chunk B")
  show ?thesis
    using assms p b pop_free_same(1) [OF p] bump_same(1) [OF b] pop_free_same(1) [of "reclaim_ready A" r A']
    by (cases q; cases t) (auto simp: alloc_chunk_def)
qed

lemma alloc_interior_same:
  assumes "alloc_interior A = Some (r, A')"
  shows "arena_same A A' \<or> arena_same (reclaim_ready A) A'"
proof -
  obtain q B where p: "pop_free_interior A = Some (q, B)" using assms by (auto simp: alloc_interior_def split: Option.bind_splits)
  obtain t C where b: "bump_interior B = (t, C)" by (cases "bump_interior B")
  show ?thesis
    using assms p b pop_free_same(2) [OF p] bump_same(2) [OF b] pop_free_same(2) [of "reclaim_ready A" r A']
    by (cases q; cases t) (auto simp: alloc_interior_def)
qed

lemma same_or_reclaim_kept:
  "arena_inv A Lc Li \<Longrightarrow> arena_same A B \<or> arena_same (reclaim_ready A) B \<Longrightarrow> arena_kept A B"
  using arena_same_kept arena_kept_trans arena_kept_reclaim by blast

lemma waits_pending:
  "waits pb_chunks (rc_old (ar_rec A)) s g i \<Longrightarrow> i \<in> set (pend_chunks (ar_rec A))"
  "waits pb_interiors (rc_old (ar_rec A)) s g i \<Longrightarrow> i \<in> set (pend_interiors (ar_rec A))"
  by (auto simp: waits_def pend_chunks_def pend_interiors_def)

lemma arena_inv_in_use_not_pending:
  assumes "arena_inv A Lc Li"
  shows "i \<in> Lc \<Longrightarrow> i \<notin> set (pend_chunks (ar_rec A))" and "i \<in> Li \<Longrightarrow> i \<notin> set (pend_interiors (ar_rec A))"
  using assms by (auto simp: arena_inv_def class_inv_def)

lemma alloc_write_chunk_kept:
  assumes inv: "arena_inv A Lc Li" and al: "alloc_write_chunk A c = Some (r, A')"
  shows "arena_kept A A'"
proof -
  obtain q B where q: "alloc_chunk A = Some (q, B)" and A': "case q of None \<Rightarrow> A' = B
      | Some x \<Rightarrow> A' = B\<lparr>ar_chunks := (ar_chunks B)(x \<mapsto> Node c)\<rparr>"
    using al by (auto simp: alloc_write_chunk_def split: Option.bind_splits option.splits)
  have k: "arena_kept A B" using same_or_reclaim_kept [OF inv alloc_chunk_same [OF q]] .
  show ?thesis
  proof (cases q)
    case None
    then show ?thesis using k A' by simp
  next
    case (Some x)
    then have "arena_inv B (insert x Lc) Li" using alloc_chunk_total [OF inv] q by (auto simp: alloc_chunk_ok_def)
    then have "x \<notin> set (pend_chunks (ar_rec B))" using arena_inv_in_use_not_pending(1) by blast
    then have "\<not> waits pb_chunks (rc_old (ar_rec B)) s g x" for s g using waits_pending(1) by blast
    then have "arena_kept B A'" using A' Some unfolding arena_kept_def by auto
    then show ?thesis by (rule arena_kept_trans [OF k])
  qed
qed

lemma alloc_write_interior_kept:
  assumes inv: "arena_inv A Lc Li" and al: "alloc_write_interior A c = Some (r, A')"
  shows "arena_kept A A'"
proof -
  obtain q B where q: "alloc_interior A = Some (q, B)" and A': "case q of None \<Rightarrow> A' = B
      | Some x \<Rightarrow> A' = B\<lparr>ar_interiors := (ar_interiors B)(x \<mapsto> Node c)\<rparr>"
    using al by (auto simp: alloc_write_interior_def split: Option.bind_splits option.splits)
  have k: "arena_kept A B" using same_or_reclaim_kept [OF inv alloc_interior_same [OF q]] .
  show ?thesis
  proof (cases q)
    case None
    then show ?thesis using k A' by simp
  next
    case (Some x)
    then have "arena_inv B Lc (insert x Li)" using alloc_interior_total [OF inv] q by (auto simp: alloc_interior_ok_def)
    then have "x \<notin> set (pend_interiors (ar_rec B))" using arena_inv_in_use_not_pending(2) by blast
    then have "\<not> waits pb_interiors (rc_old (ar_rec B)) s g x" for s g using waits_pending(2) by blast
    then have "arena_kept B A'" using A' Some unfolding arena_kept_def by auto
    then show ?thesis by (rule arena_kept_trans [OF k])
  qed
qed

subsection \<open>Properties\<close>

text \<open>C35 An allocated chunk slot was in no use: it is outside the slots in use, holds the chunk
  written to it, joins the slots in use, and every slot that was in use keeps its contents; when
  nothing could be allocated the invariant and the contents are kept too. Allocation never panics.\<close>

theorem alloc_chunk_fresh:
  assumes "arena_inv A Lc Li"
  shows "\<exists>r A'. alloc_write_chunk A c = Some (r, A') \<and> arena_frame Lc Li A A' \<and>
    (case r of None \<Rightarrow> arena_inv A' Lc Li
     | Some i \<Rightarrow> i \<notin> Lc \<and> unat i < 2 ^ 31 - 1 \<and> arena_chunk A' i = Some c \<and> arena_inv A' (insert i Lc) Li)"
  using assms by (cases rule: alloc_write_chunk_ok [where c = c]) auto

lemma arena_new_example: "\<exists>A. arena_new 4096 = Some A \<and> arena_inv A {} {}"
proof -
  have "arena_new 4096 \<noteq> None" by (simp add: arena_new_def INTERIOR_SLOT_def MAX_CAPACITY_def Let_def)
  then show ?thesis using arena_new_inv by blast
qed

theorem alloc_chunk_fresh_witness:
  "\<exists>A r A'. arena_new 4096 = Some A \<and> alloc_write_chunk A chunk_empty = Some (r, A') \<and> arena_frame {} {} A A'"
  using arena_new_example alloc_chunk_fresh [of _ "{}" "{}" chunk_empty] by blast

text \<open>C16 A retired chunk that a snapshot may hold, waiting in the old queue under a stamp above the
  oldest pin, is neither handed out nor rewritten by any allocation, and it keeps waiting under
  the same stamp and grace: no matter how far the gate has advanced.\<close>

theorem pinned_slot_survives_alloc:
  assumes inv: "arena_inv A Lc Li" and w: "waits pb_chunks (rc_old (ar_rec A)) s g i"
    and pin: "pins_min_pinned (ar_pins A) < s" and al: "alloc_write_chunk A c = Some (r, A')"
  shows "r \<noteq> Some i \<and> arena_chunk A' i = arena_chunk A i \<and> waits pb_chunks (rc_old (ar_rec A')) s g i"
proof -
  have k: "waits pb_chunks (rc_old (ar_rec A')) s g i" "ar_chunks A' i = ar_chunks A i"
    using alloc_write_chunk_kept [OF inv al] w pin by (auto simp: arena_kept_def)
  have "r \<noteq> Some i"
  proof
    assume "r = Some i"
    then have "arena_inv A' (insert i Lc) Li" using al by (cases rule: alloc_write_chunk_ok [OF inv, of c]) auto
    then show False using arena_inv_in_use_not_pending(1) waits_pending(1) [OF k(1)] by blast
  qed
  with k show ?thesis by (simp add: arena_chunk_def)
qed

definition pinned_example :: arena where
  "pinned_example = \<lparr>ar_capacity = 4096, ar_low = 64, ar_high = 4096, ar_gate = gate_new,
     ar_pins = pins_register pins_new 5,
     ar_rec = recycler_new\<lparr>rc_old := [\<lparr>pb_stamp = 6, pb_grace = 0, pb_chunks = [0], pb_interiors = []\<rparr>]\<rparr>,
     ar_chunks = [0 \<mapsto> Node chunk_empty], ar_interiors = Map.empty\<rparr>"

lemma pinned_example_inv: "arena_inv pinned_example {} {}"
  unfolding arena_inv_def
proof (intro conjI)
  show "\<exists>fs. class_inv (ar_chunks pinned_example) (rc_chunk_head (ar_rec pinned_example)) fs
      (rc_free_chunks (ar_rec pinned_example)) (pend_chunks (ar_rec pinned_example)) {} (chunk_bound pinned_example)"
    by (rule exI [of _ "[]"]) (simp add: class_inv_def pinned_example_def recycler_new_def pend_chunks_def
        chunk_bound_def CHUNK_SLOT_def)
  show "\<exists>fs. class_inv (ar_interiors pinned_example) (rc_interior_head (ar_rec pinned_example)) fs
      (rc_free_interiors (ar_rec pinned_example)) (pend_interiors (ar_rec pinned_example)) {}
      (interior_bound pinned_example)"
    by (rule exI [of _ "[]"]) (simp add: class_inv_def pinned_example_def recycler_new_def pend_interiors_def
        interior_bound_def)
qed (simp_all add: pinned_example_def cursors_ok_def spare_ok_def recycler_new_def batch_empty_def
    CHUNK_SLOT_def INTERIOR_SLOT_def MAX_CAPACITY_def)

theorem pinned_slot_survives_alloc_witness:
  "\<exists>r A'. alloc_write_chunk pinned_example chunk_empty = Some (r, A') \<and> r \<noteq> Some 0 \<and>
     arena_chunk A' 0 = Some chunk_empty"
proof -
  obtain r A' where a: "alloc_write_chunk pinned_example chunk_empty = Some (r, A')"
    using pinned_example_inv by (cases rule: alloc_write_chunk_ok [where c = chunk_empty]) auto
  have "waits pb_chunks (rc_old (ar_rec pinned_example)) 6 0 0"
    by (simp add: waits_def pinned_example_def)
  moreover have "pins_min_pinned (ar_pins pinned_example) < 6"
    by (simp add: pinned_example_def pins_min_pinned_def pins_register_def pins_new_def pins_search_def pins_first_def)
  moreover have "arena_chunk pinned_example 0 = Some chunk_empty"
    by (simp add: arena_chunk_def pinned_example_def)
  ultimately show ?thesis using a pinned_slot_survives_alloc [OF pinned_example_inv _ _ a] by auto
qed

end
