(* ===== verification/CTree.thy ===== *)
theory CTree
  imports Arena_Retire
begin

section \<open>C-trees: the operations\<close>

text \<open>
  Models \<^verbatim>\<open>crates/aether-graph/src/ctree.rs\<close>: tagged offsets, the read operations with their
  explicit stack of 64 entries, the balanced build over a slot sink, and the path-copying insert
  with its scapegoat rebalance and its retire log. The prefetch hint has no effect and is left
  out; the scratch buffer, cleared before its only use, is a local list here.

  \<open>depth_limit\<close> is the documented bound, the floor of the logarithm to the base 3/2, computed in
  integers. The code evaluates \<^verbatim>\<open>log2(n) * 1.709511291351454\<close> in \<^verbatim>\<open>f64\<close>; the two agree for
  every \<open>n\<close> below \<open>2^33\<close>, as \<open>n\<close> is never closer to a power of 3/2 than the rounding error.
\<close>

subsection \<open>Tagged offsets\<close>

definition NULL_OFF :: u32 where "NULL_OFF = 0xFFFFFFFF"
definition INTERIOR_BIT :: u32 where "INTERIOR_BIT = 0x80000000"
definition MAX_DEPTH :: nat where "MAX_DEPTH = 64"

definition is_leaf :: "u32 \<Rightarrow> bool" where
  "is_leaf offset \<longleftrightarrow> and offset INTERIOR_BIT = 0"

definition tag_interior :: "u32 \<Rightarrow> u32" where
  "tag_interior offset = or offset INTERIOR_BIT"

definition strip_tag :: "u32 \<Rightarrow> u32" where
  "strip_tag offset = and offset (not INTERIOR_BIT)"

datatype node_ref = LeafRef chunk | InteriorRef interior

definition node_at :: "arena \<Rightarrow> u32 \<Rightarrow> node_ref option" where
  "node_at A tagged =
     (if is_leaf tagged then map_option LeafRef (arena_chunk A tagged)
      else map_option InteriorRef (arena_interior A (strip_tag tagged)))"

definition interior_at :: "arena \<Rightarrow> u32 \<Rightarrow> interior option" where
  "interior_at A tagged = arena_interior A (strip_tag tagged)"

record ctree =
  ct_root :: u32

datatype insert_result = Inserted ctree | Duplicate | ArenaFull

definition ctree_empty :: ctree where
  "ctree_empty = \<lparr>ct_root = NULL_OFF\<rparr>"

definition ctree_is_empty :: "ctree \<Rightarrow> bool" where
  "ctree_is_empty t \<longleftrightarrow> ct_root t = NULL_OFF"

subsection \<open>Reading\<close>

definition subtree_size :: "arena \<Rightarrow> u32 \<Rightarrow> nat option" where
  "subtree_size A offset = do {
     n \<leftarrow> node_at A offset;
     case n of LeafRef c \<Rightarrow> Some (chunk_len c) | InteriorRef nd \<Rightarrow> Some (unat (in_count nd)) }"

definition ctree_count :: "ctree \<Rightarrow> arena \<Rightarrow> nat option" where
  "ctree_count t A = (if ct_root t = NULL_OFF then Some 0 else subtree_size A (ct_root t))"

partial_function (option) visit_loop :: "arena \<Rightarrow> u32 list \<Rightarrow> u32 \<Rightarrow> chunk list \<Rightarrow> chunk list option" where
  [code]: "visit_loop A stack cur acc =
     Option.bind (node_at A cur) (\<lambda>n. case n of
        InteriorRef nd \<Rightarrow>
          if length stack < MAX_DEPTH then visit_loop A (in_right nd # stack) (in_left nd) acc else None
      | LeafRef c \<Rightarrow>
          (case stack of [] \<Rightarrow> Some (acc @ [c]) | r # st \<Rightarrow> visit_loop A st r (acc @ [c])))"

definition visit_chunks :: "arena \<Rightarrow> u32 \<Rightarrow> chunk list option" where
  "visit_chunks A root = do {
     n \<leftarrow> node_at A root;
     case n of LeafRef c \<Rightarrow> Some [c] | InteriorRef _ \<Rightarrow> visit_loop A [] root [] }"

definition for_each_chunk :: "ctree \<Rightarrow> arena \<Rightarrow> chunk list option" where
  "for_each_chunk t A = (if ct_root t \<noteq> NULL_OFF then visit_chunks A (ct_root t) else Some [])"

fun extend_slices :: "u32 list \<Rightarrow> chunk list \<Rightarrow> u32 list option" where
  "extend_slices buf [] = Some buf"
| "extend_slices buf (c # cs) = do { s \<leftarrow> chunk_as_slice c; extend_slices (buf @ s) cs }"

definition collect_into :: "ctree \<Rightarrow> arena \<Rightarrow> u32 list \<Rightarrow> u32 list option" where
  "collect_into t A buf = do {
     _ \<leftarrow> ctree_count t A;
     cs \<leftarrow> for_each_chunk t A;
     extend_slices buf cs }"

partial_function (option) contains_loop :: "arena \<Rightarrow> u32 \<Rightarrow> u32 \<Rightarrow> bool option" where
  [code]: "contains_loop A val cur =
     Option.bind (node_at A cur) (\<lambda>n. case n of
        InteriorRef nd \<Rightarrow> contains_loop A val (if val < in_key nd then in_left nd else in_right nd)
      | LeafRef c \<Rightarrow> Some (chunk_contains c val))"

definition ctree_contains :: "ctree \<Rightarrow> arena \<Rightarrow> u32 \<Rightarrow> bool option" where
  "ctree_contains t A val = (if ct_root t = NULL_OFF then Some False else contains_loop A val (ct_root t))"

subsection \<open>Balance helpers\<close>

function limit_from :: "nat \<Rightarrow> nat \<Rightarrow> nat" where
  "limit_from m k = (if 3 ^ Suc k \<le> m * 2 ^ Suc k then limit_from m (Suc k) else k)"
  by pat_completeness auto

lemma pow_gap: "(2 + k) * 2 ^ k \<le> 2 * 3 ^ (k::nat)"
proof (induction k)
  case (Suc k)
  have "(2 + Suc k) * 2 ^ Suc k = 2 * ((2 + k) * 2 ^ k) + 2 * 2 ^ k" by (simp add: algebra_simps)
  also have "\<dots> \<le> 4 * 3 ^ k + 2 * 3 ^ k"
    using Suc power_mono [of 2 "3::nat" k] by simp
  finally show ?case by simp
qed simp

termination limit_from
proof (relation "measure (\<lambda>(m, k). 2 * m - k)")
  fix m k :: nat
  assume "3 ^ Suc k \<le> m * 2 ^ Suc k"
  then have "(2 + Suc k) * 2 ^ Suc k \<le> 2 * m * 2 ^ Suc k"
    using pow_gap [of "Suc k"] by linarith
  then have "2 + Suc k \<le> 2 * m" unfolding mult_le_cancel2 by simp
  then show "((m, Suc k), (m, k)) \<in> measure (\<lambda>(m, k). 2 * m - k)" by simp
qed simp

definition depth_limit :: "nat \<Rightarrow> nat" where
  "depth_limit n = limit_from (max n 2) 0"

definition alpha_unbalanced :: "arena \<Rightarrow> interior \<Rightarrow> bool option" where
  "alpha_unbalanced A node = do {
     let total = unat (in_count node);
     left \<leftarrow> subtree_size A (in_left node);
     right \<leftarrow> subtree_size A (in_right node);
     Some (2 * total < 3 * left \<or> 2 * total < 3 * right) }"

subsection \<open>Balanced builds over a slot sink\<close>

text \<open>Rust's \<^verbatim>\<open>?\<close> on an \<^verbatim>\<open>Option\<close>, the state threaded through.\<close>

definition try_some :: "('a option \<times> 's) option \<Rightarrow> ('a \<Rightarrow> 's \<Rightarrow> ('b option \<times> 's) option) \<Rightarrow> ('b option \<times> 's) option" where
  "try_some m k = do { (r, s) \<leftarrow> m; case r of None \<Rightarrow> Some (None, s) | Some x \<Rightarrow> k x s }"

lemma try_some_cong [fundef_cong]:
  "m = m' \<Longrightarrow> (\<And>x s. m' = Some (Some x, s) \<Longrightarrow> k x s = k' x s) \<Longrightarrow> try_some m k = try_some m' k'"
  by (auto simp: try_some_def split: Option.bind_splits option.splits)

lemma try_some_simps [simp]:
  "try_some (Some (None, s)) k = Some (None, s)"
  "try_some (Some (Some x, s)) k = k x s"
  "try_some None k = None"
  by (simp_all add: try_some_def)

function build_balanced ::
  "('s \<Rightarrow> chunk \<Rightarrow> (u32 option \<times> 's) option) \<Rightarrow> ('s \<Rightarrow> interior \<Rightarrow> (u32 option \<times> 's) option)
    \<Rightarrow> 's \<Rightarrow> u32 list \<Rightarrow> (u32 option \<times> 's) option" where
  "build_balanced put_chunk put_interior sink vals =
     (if length vals \<le> CHUNK_CAP then do { c \<leftarrow> chunk_from_sorted_unchecked vals; put_chunk sink c }
      else
        let leaves = (length vals + CHUNK_CAP - 1) div CHUNK_CAP;
            mid = (leaves div 2) * CHUNK_CAP;
            left_vals = take mid vals; right_vals = drop mid vals
        in try_some (build_balanced put_chunk put_interior sink left_vals) (\<lambda>left sink.
           try_some (build_balanced put_chunk put_interior sink right_vals) (\<lambda>right sink.
           do {
             key \<leftarrow> nth_opt right_vals 0;
             try_some (put_interior sink \<lparr>in_left = left, in_right = right,
                 in_count = of_nat (length vals), in_key = key\<rparr>)
               (\<lambda>i sink. Some (Some (tag_interior i), sink)) })))"
  by pat_completeness auto

lemma build_mid:
  assumes "\<not> n \<le> CHUNK_CAP"
  shows "0 < ((n + CHUNK_CAP - 1) div CHUNK_CAP div 2) * CHUNK_CAP"
    and "((n + CHUNK_CAP - 1) div CHUNK_CAP div 2) * CHUNK_CAP < n"
  using assms by (simp_all add: CHUNK_CAP_def)

lemma build_shorter:
  assumes "\<not> length vals \<le> CHUNK_CAP"
  shows "length (take (((length vals + CHUNK_CAP - 1) div CHUNK_CAP div 2) * CHUNK_CAP) vals) < length vals"
    and "length (drop (((length vals + CHUNK_CAP - 1) div CHUNK_CAP div 2) * CHUNK_CAP) vals) < length vals"
  using build_mid [OF assms] by (simp_all only: length_take length_drop)

termination build_balanced
  by (relation "measure (\<lambda>(_, _, _, vals). length vals)")
    (simp_all only: wf_measure in_measure prod.case build_shorter not_False_eq_True)

definition ctree_from_sorted :: "arena \<Rightarrow> u32 list \<Rightarrow> (ctree option \<times> arena) option" where
  "ctree_from_sorted A vals =
     (if vals = [] then Some (Some ctree_empty, A)
      else try_some (build_balanced alloc_write_chunk alloc_write_interior A vals)
        (\<lambda>root A. Some (Some \<lparr>ct_root = root\<rparr>, A)))"

definition compact_slot_cost :: "nat \<Rightarrow> nat \<times> nat" where
  "compact_slot_cost deg =
     (if deg = 0 then (0, 0)
      else let leaves = (deg + CHUNK_CAP - 1) div CHUNK_CAP in (leaves, leaves - 1))"

text \<open>The region writer as a sink never answers \<^verbatim>\<open>None\<close>, so \<^verbatim>\<open>expect\<close> does not panic.\<close>

definition region_put_chunk :: "region_writer \<times> arena \<Rightarrow> chunk \<Rightarrow> (u32 option \<times> region_writer \<times> arena) option" where
  "region_put_chunk s c = (let (i, s) = region_write_chunk s c in Some (Some i, s))"

definition region_put_interior :: "region_writer \<times> arena \<Rightarrow> interior \<Rightarrow> (u32 option \<times> region_writer \<times> arena) option" where
  "region_put_interior s n = (let (i, s) = region_write_interior s n in Some (Some i, s))"

definition build_balanced_region :: "region_writer \<times> arena \<Rightarrow> u32 list \<Rightarrow> (u32 \<times> region_writer \<times> arena) option" where
  "build_balanced_region s vals = do {
     (r, s) \<leftarrow> build_balanced region_put_chunk region_put_interior s vals;
     case r of Some i \<Rightarrow> Some (i, s) | None \<Rightarrow> None }"

subsection \<open>Insertion\<close>

text \<open>
  The descent records the interior offsets and the directions. At 64 recorded interiors a
  further one reports \<^verbatim>\<open>ArenaFull\<close>, which is \<open>Some None\<close> here.
\<close>

function descend :: "arena \<Rightarrow> u32 \<Rightarrow> u32 list \<Rightarrow> bool list \<Rightarrow> u32
    \<Rightarrow> (u32 list \<times> bool list \<times> u32 \<times> chunk) option option" where
  "descend A val path went_left cur =
     Option.bind (node_at A cur) (\<lambda>n. case n of
        LeafRef c \<Rightarrow> Some (Some (path, went_left, cur, c))
      | InteriorRef nd \<Rightarrow>
          if MAX_DEPTH \<le> length path then Some None
          else descend A val (path @ [cur]) (went_left @ [val < in_key nd])
                 (if val < in_key nd then in_left nd else in_right nd))"
  by pat_completeness auto

termination descend
  by (relation "measure (\<lambda>(_, _, path, _, _). MAX_DEPTH - length path)") auto

text \<open>The macro \<^verbatim>\<open>alloc_or_full!\<close>.\<close>

definition alloc_or_full :: "(u32 option \<times> arena) option \<Rightarrow> (u32 \<Rightarrow> arena \<Rightarrow> ((insert_result + 'b) \<times> arena) option)
    \<Rightarrow> ((insert_result + 'b) \<times> arena) option" where
  "alloc_or_full m k = do { (r, A) \<leftarrow> m; case r of None \<Rightarrow> Some (Inl ArenaFull, A) | Some v \<Rightarrow> k v A }"

lemma alloc_or_full_simps [simp]:
  "alloc_or_full (Some (None, A)) k = Some (Inl ArenaFull, A)"
  "alloc_or_full (Some (Some x, A)) k = k x A"
  "alloc_or_full None k = None"
  by (simp_all add: alloc_or_full_def)

text \<open>The new leaf, or the two halves of a full one under a new interior, with the levels added.\<close>

definition insert_leaf :: "arena \<Rightarrow> chunk \<Rightarrow> u32 \<Rightarrow> ((insert_result + u32 \<times> nat) \<times> arena) option" where
  "insert_leaf A chunk val =
     (if chunk_is_full chunk then do {
        (left_c, right_c) \<leftarrow> chunk_split chunk;
        let split_key = chunk_min right_c;
        halves \<leftarrow> (if val < split_key
          then do { l \<leftarrow> chunk_insert left_c val; Some (map_option (\<lambda>l. (l, right_c)) l) }
          else do { r \<leftarrow> chunk_insert right_c val; Some (map_option (\<lambda>r. (left_c, r)) r) });
        case halves of None \<Rightarrow> Some (Inl Duplicate, A)
        | Some (new_left, new_right) \<Rightarrow>
            alloc_or_full (alloc_write_chunk A new_left) (\<lambda>left_off A.
            alloc_or_full (alloc_write_chunk A new_right) (\<lambda>right_off A.
            alloc_or_full (alloc_write_interior A \<lparr>in_left = left_off, in_right = right_off,
                in_count = of_nat (chunk_len new_left + chunk_len new_right), in_key = split_key\<rparr>)
              (\<lambda>int_off A. Some (Inr (tag_interior int_off, 1), A)))) }
      else do {
        r \<leftarrow> chunk_insert chunk val;
        case r of None \<Rightarrow> Some (Inl Duplicate, A)
        | Some new_chunk \<Rightarrow> alloc_or_full (alloc_write_chunk A new_chunk) (\<lambda>off A. Some (Inr (off, 0), A)) })"

text \<open>The copy loop, from the last entry of the path to the first.\<close>

fun copy_path :: "arena \<Rightarrow> u32 list \<Rightarrow> bool list \<Rightarrow> bool \<Rightarrow> nat \<Rightarrow> u32 \<Rightarrow> u32 list
    \<Rightarrow> ((insert_result + u32 \<times> u32 list) \<times> arena) option" where
  "copy_path A path went_left need 0 child new_path = Some (Inr (child, new_path), A)"
| "copy_path A path went_left need (Suc i) child new_path = do {
     path_i \<leftarrow> nth_opt path i;
     left_i \<leftarrow> nth_opt went_left i;
     old \<leftarrow> interior_at A path_i;
     let (l, r) = (if left_i then (child, in_right old) else (in_left old, child));
     alloc_or_full (alloc_write_interior A \<lparr>in_left = l, in_right = r,
         in_count = in_count old + 1, in_key = in_key old\<rparr>)
       (\<lambda>x A. copy_path A path went_left need i (tag_interior x)
          (if need then tag_interior x # new_path else new_path)) }"

partial_function (option) retire_loop :: "arena \<Rightarrow> u32 list \<Rightarrow> u32 \<Rightarrow> retire_log \<Rightarrow> retire_log option" where
  [code]: "retire_loop A stack cur log =
     Option.bind (node_at A cur) (\<lambda>n. case n of
        InteriorRef nd \<Rightarrow>
          if length stack < MAX_DEPTH then retire_loop A (in_right nd # stack) (in_left nd)
            (log\<lparr>rl_interiors := rl_interiors log @ [strip_tag cur]\<rparr>) else None
      | LeafRef c \<Rightarrow>
          (case stack of [] \<Rightarrow> Some (log\<lparr>rl_chunks := rl_chunks log @ [cur]\<rparr>)
           | r # st \<Rightarrow> retire_loop A st r (log\<lparr>rl_chunks := rl_chunks log @ [cur]\<rparr>)))"

definition retire_subtree :: "arena \<Rightarrow> u32 \<Rightarrow> retire_log \<Rightarrow> retire_log option" where
  "retire_subtree A root log = retire_loop A [] root log"

text \<open>The first unbalanced entry of the path, or 0.\<close>

fun find_scapegoat :: "arena \<Rightarrow> u32 list \<Rightarrow> nat \<Rightarrow> nat option" where
  "find_scapegoat A [] i = Some 0"
| "find_scapegoat A (off # offs) i = do {
     nd \<leftarrow> interior_at A off;
     u \<leftarrow> alpha_unbalanced A nd;
     if u then Some i else find_scapegoat A offs (Suc i) }"

fun recopy :: "arena \<Rightarrow> u32 list \<Rightarrow> bool list \<Rightarrow> nat \<Rightarrow> u32 \<Rightarrow> (u32 option \<times> arena) option" where
  "recopy A new_path went_left 0 child = Some (Some child, A)"
| "recopy A new_path went_left (Suc i) child = do {
     off \<leftarrow> nth_opt new_path i;
     left_i \<leftarrow> nth_opt went_left i;
     old \<leftarrow> interior_at A off;
     let (l, r) = (if left_i then (child, in_right old) else (in_left old, child));
     try_some (alloc_write_interior A \<lparr>in_left = l, in_right = r, in_count = in_count old, in_key = in_key old\<rparr>)
       (\<lambda>x A. recopy A new_path went_left i (tag_interior x)) }"

definition rebalance :: "arena \<Rightarrow> u32 \<Rightarrow> u32 list \<Rightarrow> bool list \<Rightarrow> retire_log
    \<Rightarrow> (u32 option \<times> arena \<times> retire_log) option" where
  "rebalance A new_root new_path went_left log = do {
     scapegoat \<leftarrow> find_scapegoat A new_path 0;
     target \<leftarrow> (if new_path = [] then Some new_root else nth_opt new_path scapegoat);
     _ \<leftarrow> subtree_size A target;
     cs \<leftarrow> visit_chunks A target;
     scratch \<leftarrow> extend_slices [] cs;
     (r, A) \<leftarrow> try_some (build_balanced alloc_write_chunk alloc_write_interior A scratch)
       (\<lambda>child A. recopy A new_path went_left scapegoat child);
     case r of None \<Rightarrow> Some (None, A, log)
     | Some child \<Rightarrow> do {
         log \<leftarrow> retire_subtree A target log;
         Some (Some child, A, log\<lparr>rl_interiors := rl_interiors log @ map strip_tag (take scapegoat new_path)\<rparr>) } }"

definition insert_with_scratch :: "ctree \<Rightarrow> arena \<Rightarrow> u32 \<Rightarrow> retire_log
    \<Rightarrow> (insert_result \<times> arena \<times> retire_log) option" where
  "insert_with_scratch t A val log =
     (if ct_root t = NULL_OFF then do {
        chunk \<leftarrow> chunk_from_sorted [val];
        (r, A) \<leftarrow> alloc_write_chunk A chunk;
        Some (case r of Some off \<Rightarrow> Inserted \<lparr>ct_root = off\<rparr> | None \<Rightarrow> ArenaFull, A, log) }
      else do {
        d \<leftarrow> descend A val [] [] (ct_root t);
        case d of None \<Rightarrow> Some (ArenaFull, A, log)
        | Some (path, went_left, cur, chunk) \<Rightarrow> do {
            size \<leftarrow> subtree_size A (ct_root t);
            let total = size + 1;
            (leaf, A) \<leftarrow> insert_leaf A chunk val;
            case leaf of Inl res \<Rightarrow> Some (res, A, log)
            | Inr (new_child, split_levels) \<Rightarrow> do {
                let depth = length path + split_levels;
                let need = (ilog2 (max total 2) < depth \<and> depth_limit total < depth);
                (copied, A) \<leftarrow> copy_path A path went_left need (length path) new_child [];
                case copied of Inl res \<Rightarrow> Some (res, A, log)
                | Inr (new_root, new_path) \<Rightarrow> do {
                    let log = log\<lparr>rl_chunks := rl_chunks log @ [cur],
                                  rl_interiors := rl_interiors log @ map strip_tag path\<rparr>;
                    if need then do {
                      (b, A, log) \<leftarrow> rebalance A new_root new_path went_left log;
                      Some (Inserted \<lparr>ct_root = (case b of Some r \<Rightarrow> r | None \<Rightarrow> new_root)\<rparr>, A, log) }
                    else Some (Inserted \<lparr>ct_root = new_root\<rparr>, A, log) } } } })"

definition ctree_insert :: "ctree \<Rightarrow> arena \<Rightarrow> u32 \<Rightarrow> (insert_result \<times> arena) option" where
  "ctree_insert t A val = do {
     (r, A, _) \<leftarrow> insert_with_scratch t A val retire_log_new;
     Some (r, A) }"

declare limit_from.simps [simp del] build_balanced.simps [simp del] descend.simps [simp del]

end
