(* ===== verification/CTree_Shape.thy ===== *)
theory CTree_Shape
  imports CTree
begin

section \<open>C-trees as trees, and the read operations\<close>

text \<open>
  A \<open>shape\<close> is the tree a root offset denotes, with the slot index of every node: \<open>stored_in\<close>
  relates it to the arena's slots. The read operations are shown to compute the evident functions
  of the shape; the traversals need the height to fit the stack of 64.
\<close>

subsection \<open>Tags\<close>

lemma bit_31_small: "unat (i :: u32) < 2 ^ 31 \<Longrightarrow> \<not> bit i 31"
proof -
  assume "unat i < 2 ^ 31"
  then have "unat i div 2 ^ 31 = 0" by (rule div_less)
  then have "\<not> bit (unat i) 31" by (simp add: bit_iff_odd)
  then show ?thesis by (simp add: bit_unsigned_iff)
qed

lemma INTERIOR_BIT_exp: "INTERIOR_BIT = 2 ^ 31"
  by (simp add: INTERIOR_BIT_def)

lemma bit_INTERIOR_BIT: "bit INTERIOR_BIT n \<longleftrightarrow> n = 31"
  unfolding INTERIOR_BIT_exp bit_exp_iff by auto

lemma is_leaf_small [slot_simps]: "unat i < 2 ^ 31 - 1 \<Longrightarrow> is_leaf i"
  unfolding is_leaf_def
  by (rule bit_word_eqI) (use bit_31_small [of i] in \<open>auto simp: bit_and_iff bit_INTERIOR_BIT\<close>)

lemma is_leaf_tag [slot_simps]: "\<not> is_leaf (tag_interior i)"
proof
  assume "is_leaf (tag_interior i)"
  then have "\<not> bit (and (tag_interior i) INTERIOR_BIT) 31" by (simp add: is_leaf_def)
  then show False by (simp add: bit_and_iff bit_or_iff bit_INTERIOR_BIT tag_interior_def)
qed

lemma strip_tag_tag [slot_simps]: "unat i < 2 ^ 31 - 1 \<Longrightarrow> strip_tag (tag_interior i) = i"
  unfolding strip_tag_def tag_interior_def
  by (rule bit_word_eqI)
    (use bit_31_small [of i] in \<open>auto simp: bit_and_iff bit_or_iff bit_not_iff bit_INTERIOR_BIT\<close>)

lemma unat_NULL_OFF: "unat NULL_OFF = 2 ^ 32 - 1"
  by (simp add: NULL_OFF_def)

lemma leaf_not_NULL [slot_simps]: "unat i < 2 ^ 31 - 1 \<Longrightarrow> i \<noteq> NULL_OFF"
  using unat_NULL_OFF by auto

lemma tag_not_NULL [slot_simps]: "unat i < 2 ^ 31 - 1 \<Longrightarrow> tag_interior i \<noteq> NULL_OFF"
proof
  assume i: "unat i < 2 ^ 31 - 1" and e: "tag_interior i = NULL_OFF"
  have "i = strip_tag NULL_OFF" using strip_tag_tag [OF i] e by simp
  also have "\<dots> = 0x7FFFFFFF" by (simp add: strip_tag_def NULL_OFF_def INTERIOR_BIT_def)
  finally show False using i by simp
qed

subsection \<open>Shapes\<close>

datatype shape = Lf u32 chunk | Nd u32 shape u32 shape

fun root_off :: "shape \<Rightarrow> u32" where
  "root_off (Lf i c) = i"
| "root_off (Nd i l k r) = tag_interior i"

fun elems :: "shape \<Rightarrow> u32 list" where
  "elems (Lf i c) = ch_elems c"
| "elems (Nd i l k r) = elems l @ elems r"

fun chunks :: "shape \<Rightarrow> chunk list" where
  "chunks (Lf i c) = [c]"
| "chunks (Nd i l k r) = chunks l @ chunks r"

fun cslots :: "shape \<Rightarrow> u32 list" where
  "cslots (Lf i c) = [i]"
| "cslots (Nd i l k r) = cslots l @ cslots r"

fun islots :: "shape \<Rightarrow> u32 list" where
  "islots (Lf i c) = []"
| "islots (Nd i l k r) = i # islots l @ islots r"

fun height :: "shape \<Rightarrow> nat" where
  "height (Lf i c) = 0"
| "height (Nd i l k r) = Suc (max (height l) (height r))"

abbreviation tsize :: "shape \<Rightarrow> nat" where
  "tsize t \<equiv> length (elems t)"

fun wf_shape :: "shape \<Rightarrow> bool" where
  "wf_shape (Lf i c) \<longleftrightarrow> wf_chunk c \<and> ch_elems c \<noteq> []"
| "wf_shape (Nd i l k r) \<longleftrightarrow> wf_shape l \<and> wf_shape r \<and> (\<forall>x\<in>set (elems l). x < k) \<and> (\<forall>x\<in>set (elems r). k \<le> x)"

fun stored_in :: "(u32 \<Rightarrow> chunk option) \<Rightarrow> (u32 \<Rightarrow> interior option) \<Rightarrow> shape \<Rightarrow> bool" where
  "stored_in ch it (Lf i c) \<longleftrightarrow> unat i < 2 ^ 31 - 1 \<and> ch i = Some c"
| "stored_in ch it (Nd i l k r) \<longleftrightarrow> unat i < 2 ^ 31 - 1 \<and>
     it i = Some \<lparr>in_left = root_off l, in_right = root_off r, in_count = of_nat (tsize l + tsize r), in_key = k\<rparr>
     \<and> stored_in ch it l \<and> stored_in ch it r"

abbreviation stored :: "arena \<Rightarrow> shape \<Rightarrow> bool" where
  "stored A \<equiv> stored_in (arena_chunk A) (arena_interior A)"

lemma stored_in_cong:
  "(\<And>i. i \<in> set (cslots t) \<Longrightarrow> ch' i = ch i) \<Longrightarrow> (\<And>i. i \<in> set (islots t) \<Longrightarrow> it' i = it i) \<Longrightarrow>
   stored_in ch' it' t = stored_in ch it t"
  by (induction t) auto

lemma stored_frame:
  assumes "arena_frame Lc Li A B" and "set (cslots t) \<subseteq> Lc" and "set (islots t) \<subseteq> Li"
  shows "stored B t = stored A t"
  by (rule stored_in_cong) (use assms in \<open>auto simp: arena_frame_chunk arena_frame_interior\<close>)

lemma wf_ssorted: "wf_shape t \<Longrightarrow> ssorted (elems t)"
proof (induction t)
  case (Nd i l k r)
  then have "\<forall>x\<in>set (elems l). \<forall>y\<in>set (elems r). x < y" by fastforce
  with Nd show ?case by (simp add: ssorted_append)
qed (simp add: ssorted_ch_elems)

lemma wf_nonempty: "wf_shape t \<Longrightarrow> elems t \<noteq> []"
  by (induction t) auto

lemma wf_tsize_pos: "wf_shape t \<Longrightarrow> 0 < tsize t"
  using wf_nonempty by auto

lemma elems_chunks: "elems t = concat (map ch_elems (chunks t))"
  by (induction t) auto

lemma wf_chunks: "wf_shape t \<Longrightarrow> c \<in> set (chunks t) \<Longrightarrow> wf_chunk c"
  by (induction t) auto

lemma root_off_not_NULL: "stored_in ch it t \<Longrightarrow> root_off t \<noteq> NULL_OFF"
  by (cases t) (simp_all add: slot_simps)

lemma length_cslots: "length (cslots t) = Suc (length (islots t))"
  by (induction t) auto

subsection \<open>Reading a node\<close>

lemma node_at_stored:
  assumes "stored A t"
  shows "node_at A (root_off t) = Some (case t of Lf i c \<Rightarrow> LeafRef c
    | Nd i l k r \<Rightarrow> InteriorRef \<lparr>in_left = root_off l, in_right = root_off r,
        in_count = of_nat (tsize l + tsize r), in_key = k\<rparr>)"
  using assms by (cases t) (simp_all add: node_at_def slot_simps)

lemma node_at_Lf: "stored A (Lf i c) \<Longrightarrow> node_at A i = Some (LeafRef c)"
  using node_at_stored [of A "Lf i c"] by simp

lemma node_at_Nd: "stored A (Nd i l k r) \<Longrightarrow> node_at A (tag_interior i) =
    Some (InteriorRef \<lparr>in_left = root_off l, in_right = root_off r,
        in_count = of_nat (tsize l + tsize r), in_key = k\<rparr>)"
  using node_at_stored [of A "Nd i l k r"] by simp

lemma interior_at_Nd: "stored A (Nd i l k r) \<Longrightarrow> interior_at A (tag_interior i) =
    Some \<lparr>in_left = root_off l, in_right = root_off r, in_count = of_nat (tsize l + tsize r), in_key = k\<rparr>"
  by (simp add: interior_at_def slot_simps)

lemma subtree_size_stored:
  assumes "stored A t" and "wf_shape t" and "tsize t < 2 ^ 32"
  shows "subtree_size A (root_off t) = Some (tsize t)"
proof (cases t)
  case (Lf i c)
  then show ?thesis using assms node_at_Lf [of A i c] by (simp add: subtree_size_def chunk_len_elems)
next
  case (Nd i l k r)
  then show ?thesis using assms unat_of_nat_u32 [of "tsize l + tsize r"] node_at_Nd [of A i l k r]
    by (simp add: subtree_size_def del: of_nat_add)
qed

subsection \<open>Traversals\<close>

lemma visit_loop_stored:
  assumes "stored A t" and "length st + height t \<le> MAX_DEPTH"
  shows "visit_loop A st (root_off t) acc =
    (case st of [] \<Rightarrow> Some (acc @ chunks t) | r # st' \<Rightarrow> visit_loop A st' r (acc @ chunks t))"
  using assms
proof (induction t arbitrary: st acc)
  case (Lf i c)
  then show ?case using node_at_Lf [OF Lf.prems(1)] by (subst visit_loop.simps) (simp split: list.splits)
next
  case (Nd i l k r)
  have l: "stored A l" "length (root_off r # st) + height l \<le> MAX_DEPTH"
    and r: "stored A r" "length st + height r \<le> MAX_DEPTH" using Nd.prems by simp_all
  have lt: "length st < MAX_DEPTH" using Nd.prems by simp
  have "visit_loop A st (root_off (Nd i l k r)) acc = visit_loop A (root_off r # st) (root_off l) acc"
    using node_at_Nd [OF Nd.prems(1)] lt by (subst visit_loop.simps) simp
  also have "\<dots> = visit_loop A st (root_off r) (acc @ chunks l)"
    using Nd.IH(1) [OF l] by simp
  also have "\<dots> = (case st of [] \<Rightarrow> Some (acc @ chunks (Nd i l k r))
      | q # st' \<Rightarrow> visit_loop A st' q (acc @ chunks (Nd i l k r)))"
    using Nd.IH(2) [OF r] by (simp split: list.splits)
  finally show ?case .
qed

lemma visit_chunks_stored:
  assumes "stored A t" and "height t \<le> MAX_DEPTH"
  shows "visit_chunks A (root_off t) = Some (chunks t)"
proof (cases t)
  case (Lf i c)
  then show ?thesis using assms(1) node_at_Lf [of A i c] by (simp add: visit_chunks_def)
next
  case (Nd i l k r)
  then show ?thesis using node_at_Nd [of A i l k r] assms(1) visit_loop_stored [OF assms(1), of "[]" "[]"] assms(2)
    by (simp add: visit_chunks_def)
qed

text \<open>A spine of 65 left children overflows the stack: the traversal panics.\<close>

fun left_spine :: "shape \<Rightarrow> nat" where
  "left_spine (Lf i c) = 0"
| "left_spine (Nd i l k r) = Suc (left_spine l)"

lemma visit_loop_overflow:
  "stored A t \<Longrightarrow> MAX_DEPTH < length st + left_spine t \<Longrightarrow> length st \<le> MAX_DEPTH \<Longrightarrow>
   visit_loop A st (root_off t) acc = None"
proof (induction t arbitrary: st)
  case (Nd i l k r)
  show ?case
  proof (cases "length st < MAX_DEPTH")
    case True
    then show ?thesis using node_at_Nd [OF Nd.prems(1)] Nd.prems Nd.IH(1) [of "root_off r # st"]
      by (subst visit_loop.simps) simp
  next
    case False
    then show ?thesis using node_at_Nd [OF Nd.prems(1)] by (subst visit_loop.simps) simp
  qed
qed simp

lemma extend_slices_wf:
  "(\<And>c. c \<in> set cs \<Longrightarrow> wf_chunk c) \<Longrightarrow> extend_slices buf cs = Some (buf @ concat (map ch_elems cs))"
  by (induction cs arbitrary: buf) (simp_all add: panic_simps)

lemma extend_slices_chunks: "wf_shape t \<Longrightarrow> extend_slices buf (chunks t) = Some (buf @ elems t)"
  by (simp add: extend_slices_wf wf_chunks elems_chunks)

lemma contains_loop_stored:
  assumes "stored A t" and "wf_shape t"
  shows "contains_loop A val (root_off t) = Some (val \<in> set (elems t))"
  using assms
proof (induction t)
  case (Lf i c)
  then show ?case using node_at_Lf [OF Lf.prems(1)] by (subst contains_loop.simps) (simp add: chunk_contains_iff)
next
  case (Nd i l k r)
  then have "val \<in> set (elems l) \<Longrightarrow> val < k" "val \<in> set (elems r) \<Longrightarrow> k \<le> val" by auto
  with Nd node_at_Nd [OF Nd.prems(1)] show ?case by (subst contains_loop.simps) auto
qed

subsection \<open>Retiring a subtree\<close>

lemma retire_loop_stored:
  assumes "stored A t" and "length st + height t \<le> MAX_DEPTH"
  shows "retire_loop A st (root_off t) log =
    (let log' = log\<lparr>rl_chunks := rl_chunks log @ cslots t, rl_interiors := rl_interiors log @ islots t\<rparr>
     in case st of [] \<Rightarrow> Some log' | r # st' \<Rightarrow> retire_loop A st' r log')"
  using assms
proof (induction t arbitrary: st log)
  case (Lf i c)
  then show ?case using node_at_Lf [OF Lf.prems(1)] by (subst retire_loop.simps) (simp split: list.splits)
next
  case (Nd i l k r)
  have l: "stored A l" "length (root_off r # st) + height l \<le> MAX_DEPTH"
    and r: "stored A r" "length st + height r \<le> MAX_DEPTH" using Nd.prems by simp_all
  have lt: "length st < MAX_DEPTH" using Nd.prems by simp
  have st: "strip_tag (tag_interior i) = i" using Nd.prems(1) by (simp add: slot_simps)
  have "retire_loop A st (root_off (Nd i l k r)) log
      = retire_loop A (root_off r # st) (root_off l) (log\<lparr>rl_interiors := rl_interiors log @ [i]\<rparr>)"
    using node_at_Nd [OF Nd.prems(1)] lt st by (subst retire_loop.simps) simp
  also have "\<dots> = retire_loop A st (root_off r)
      (log\<lparr>rl_chunks := rl_chunks log @ cslots l, rl_interiors := rl_interiors log @ i # islots l\<rparr>)"
    using Nd.IH(1) [OF l] by simp
  finally show ?case
    using Nd.IH(2) [OF r] by (simp add: Let_def split: list.splits)
qed

lemma retire_subtree_stored:
  "stored A t \<Longrightarrow> height t \<le> MAX_DEPTH \<Longrightarrow> retire_subtree A (root_off t) log =
    Some (log\<lparr>rl_chunks := rl_chunks log @ cslots t, rl_interiors := rl_interiors log @ islots t\<rparr>)"
  using retire_loop_stored [of A t "[]"] by (simp add: retire_subtree_def)

end
