(* ===== verification/CTree_Build.thy ===== *)
theory CTree_Build
  imports CTree_Shape
begin

section \<open>Balanced builds and the height bound\<close>

text \<open>
  The contract of \<^verbatim>\<open>trait SlotSink\<close> is the locale \<open>slot_sink\<close>: a sink has a store, a budget, and
  places a node in a slot outside the slots in use. The build is proved once against it and
  interpreted for the arena's writer and for a compaction region, whose budget is the region's
  size. \<open>depth_limit\<close> is shown to be the floor of the logarithm to the base 3/2.
\<close>

subsection \<open>The contract of a sink\<close>

definition keeps :: "u32 set \<Rightarrow> (u32 \<Rightarrow> 'a option) \<Rightarrow> (u32 \<Rightarrow> 'a option) \<Rightarrow> bool" where
  "keeps L m m' \<longleftrightarrow> (\<forall>i\<in>L. m' i = m i)"

lemma keeps_refl [simp]: "keeps L m m"
  by (simp add: keeps_def)

lemma keeps_trans: "keeps L m m' \<Longrightarrow> keeps L' m' m'' \<Longrightarrow> L \<subseteq> L' \<Longrightarrow> keeps L m m''"
  by (auto simp: keeps_def)

lemma stored_keeps:
  "stored_in ch it t \<Longrightarrow> keeps Lc ch ch' \<Longrightarrow> keeps Li it it' \<Longrightarrow> set (cslots t) \<subseteq> Lc \<Longrightarrow> set (islots t) \<subseteq> Li \<Longrightarrow>
   stored_in ch' it' t"
  using stored_in_cong [of t ch' ch it' it] by (auto simp: keeps_def)

locale slot_sink =
  fixes put_chunk :: "'s \<Rightarrow> chunk \<Rightarrow> (u32 option \<times> 's) option"
    and put_interior :: "'s \<Rightarrow> interior \<Rightarrow> (u32 option \<times> 's) option"
    and chunk_of :: "'s \<Rightarrow> u32 \<Rightarrow> chunk option"
    and interior_of :: "'s \<Rightarrow> u32 \<Rightarrow> interior option"
    and inv :: "'s \<Rightarrow> u32 set \<Rightarrow> u32 set \<Rightarrow> bool"
    and budget :: "'s \<Rightarrow> nat \<Rightarrow> nat \<Rightarrow> bool"
  assumes put_chunk_ok: "inv s Lc Li \<Longrightarrow> budget s (Suc c) i \<Longrightarrow>
      \<exists>r s'. put_chunk s x = Some (r, s') \<and> keeps Lc (chunk_of s) (chunk_of s') \<and>
        keeps Li (interior_of s) (interior_of s') \<and> budget s' c i \<and>
        (case r of None \<Rightarrow> inv s' Lc Li
         | Some j \<Rightarrow> j \<notin> Lc \<and> unat j < 2 ^ 31 - 1 \<and> inv s' (insert j Lc) Li \<and> chunk_of s' j = Some x)"
    and put_interior_ok: "inv s Lc Li \<Longrightarrow> budget s c (Suc i) \<Longrightarrow>
      \<exists>r s'. put_interior s n = Some (r, s') \<and> keeps Lc (chunk_of s) (chunk_of s') \<and>
        keeps Li (interior_of s) (interior_of s') \<and> budget s' c i \<and>
        (case r of None \<Rightarrow> inv s' Lc Li
         | Some j \<Rightarrow> j \<notin> Li \<and> unat j < 2 ^ 31 - 1 \<and> inv s' Lc (insert j Li) \<and> interior_of s' j = Some n)"

text \<open>The shape of a build, slot indices apart: full leaves but the last, split at the leaf midpoint.\<close>

fun built :: "shape \<Rightarrow> bool" where
  "built (Lf i c) \<longleftrightarrow> True"
| "built (Nd i l k r) \<longleftrightarrow> built l \<and> built r \<and>
     tsize l = ((tsize l + tsize r + CHUNK_CAP - 1) div CHUNK_CAP div 2) * CHUNK_CAP \<and>
     CHUNK_CAP < tsize l + tsize r"

lemma built_slots: "built t \<Longrightarrow> wf_shape t \<Longrightarrow> length (cslots t) = (tsize t + CHUNK_CAP - 1) div CHUNK_CAP"
proof (induction t)
  case (Lf i c)
  define n where "n = length (ch_elems c)"
  have "1 \<le> n" "n \<le> 15"
    using Lf length_ch_elems_le [of c] by (simp_all add: n_def CHUNK_CAP_def Suc_le_eq)
  then have "(n + 15 - 1) div 15 = 1" by arith
  then show ?case by (simp add: CHUNK_CAP_def n_def)
next
  case (Nd i l k r)
  define L where "L = (tsize l + tsize r + CHUNK_CAP - 1) div CHUNK_CAP"
  have tl: "tsize l = (L div 2) * CHUNK_CAP" using Nd.prems by (simp add: L_def)
  have "length (cslots l) = L div 2" using Nd tl by (simp add: CHUNK_CAP_def)
  moreover have "length (cslots r) = L - L div 2"
  proof -
    have "length (cslots r) = (tsize r + CHUNK_CAP - 1) div CHUNK_CAP" using Nd by simp
    also have "tsize r + CHUNK_CAP - 1 = (tsize l + tsize r + CHUNK_CAP - 1) - (L div 2) * CHUNK_CAP"
      using tl Nd.prems by (simp add: CHUNK_CAP_def)
    also have "\<dots> div CHUNK_CAP = L - L div 2"
      unfolding L_def by (simp add: CHUNK_CAP_def div_mult_self1)
    finally show ?thesis .
  qed
  ultimately show ?case by (simp add: L_def)
qed

lemma built_height: "built t \<Longrightarrow> wf_shape t \<Longrightarrow> tsize t \<le> CHUNK_CAP * 2 ^ h \<Longrightarrow> height t \<le> h"
proof (induction t arbitrary: h)
  case (Nd i l k r)
  obtain h' where h: "h = Suc h'"
    using Nd.prems by (cases h) auto
  define L where "L = (tsize l + tsize r + CHUNK_CAP - 1) div CHUNK_CAP"
  have tl: "tsize l = (L div 2) * CHUNK_CAP" using Nd.prems by (simp add: L_def)
  define p where "p = (2::nat) ^ h'"
  have "L \<le> 2 * p" using Nd.prems(3) by (simp add: L_def h CHUNK_CAP_def p_def)
  then have half: "L div 2 \<le> p" "L - L div 2 \<le> p" by arith+
  have "tsize r \<le> (L - L div 2) * 15"
  proof -
    have "tsize l + tsize r \<le> L * 15" by (simp add: L_def CHUNK_CAP_def)
    then show ?thesis unfolding tl by (simp add: CHUNK_CAP_def diff_mult_distrib)
  qed
  then have "tsize l \<le> CHUNK_CAP * 2 ^ h'" "tsize r \<le> CHUNK_CAP * 2 ^ h'"
    using half unfolding tl by (simp_all add: CHUNK_CAP_def flip: p_def)
  then show ?case using Nd by (simp add: h)
qed simp

context slot_sink
begin

text \<open>The state a failed placement leaves.\<close>

definition sink_failed :: "'s \<Rightarrow> bool" where
  "sink_failed s \<longleftrightarrow> (\<exists>s0 x. put_chunk s0 x = Some (None, s)) \<or> (\<exists>s0 n. put_interior s0 n = Some (None, s))"

lemma put_chunk_cases:
  assumes "inv s Lc Li" and "budget s (Suc c) i"
  obtains s' where "put_chunk s x = Some (None, s')" "keeps Lc (chunk_of s) (chunk_of s')"
      "keeps Li (interior_of s) (interior_of s')" "inv s' Lc Li" "sink_failed s'"
  | j s' where "put_chunk s x = Some (Some j, s')" "keeps Lc (chunk_of s) (chunk_of s')"
      "keeps Li (interior_of s) (interior_of s')" "budget s' c i" "j \<notin> Lc" "unat j < 2 ^ 31 - 1"
      "inv s' (insert j Lc) Li" "chunk_of s' j = Some x"
proof -
  obtain r s' where *: "put_chunk s x = Some (r, s')" "keeps Lc (chunk_of s) (chunk_of s')"
    "keeps Li (interior_of s) (interior_of s')" "budget s' c i"
    "case r of None \<Rightarrow> inv s' Lc Li
         | Some j \<Rightarrow> j \<notin> Lc \<and> unat j < 2 ^ 31 - 1 \<and> inv s' (insert j Lc) Li \<and> chunk_of s' j = Some x"
    using put_chunk_ok [OF assms, of x] by blast
  show ?thesis
  proof (cases r)
    case None
    with * show ?thesis by (intro that(1)) (auto simp: sink_failed_def)
  next
    case (Some j)
    with * show ?thesis by (intro that(2)) auto
  qed
qed

lemma put_interior_cases:
  assumes "inv s Lc Li" and "budget s c (Suc i)"
  obtains s' where "put_interior s n = Some (None, s')" "keeps Lc (chunk_of s) (chunk_of s')"
      "keeps Li (interior_of s) (interior_of s')" "inv s' Lc Li" "sink_failed s'"
  | j s' where "put_interior s n = Some (Some j, s')" "keeps Lc (chunk_of s) (chunk_of s')"
      "keeps Li (interior_of s) (interior_of s')" "budget s' c i" "j \<notin> Li" "unat j < 2 ^ 31 - 1"
      "inv s' Lc (insert j Li)" "interior_of s' j = Some n"
proof -
  obtain r s' where *: "put_interior s n = Some (r, s')" "keeps Lc (chunk_of s) (chunk_of s')"
    "keeps Li (interior_of s) (interior_of s')" "budget s' c i"
    "case r of None \<Rightarrow> inv s' Lc Li
         | Some j \<Rightarrow> j \<notin> Li \<and> unat j < 2 ^ 31 - 1 \<and> inv s' Lc (insert j Li) \<and> interior_of s' j = Some n"
    using put_interior_ok [OF assms, of n] by blast
  show ?thesis
  proof (cases r)
    case None
    with * show ?thesis by (intro that(1)) (auto simp: sink_failed_def)
  next
    case (Some j)
    with * show ?thesis by (intro that(2)) auto
  qed
qed

text \<open>What a build leaves: a shape over exactly the given values, in slots that were not in use.\<close>

definition build_post :: "'s \<Rightarrow> u32 set \<Rightarrow> u32 set \<Rightarrow> u32 list \<Rightarrow> u32 option \<Rightarrow> 's \<Rightarrow> bool" where
  "build_post s Lc Li vals r s' \<longleftrightarrow>
     keeps Lc (chunk_of s) (chunk_of s') \<and> keeps Li (interior_of s) (interior_of s') \<and>
     (case r of None \<Rightarrow> sink_failed s' \<and> (\<exists>Lc' Li'. Lc \<subseteq> Lc' \<and> Li \<subseteq> Li' \<and> inv s' Lc' Li')
      | Some off \<Rightarrow> (\<exists>t. off = root_off t \<and> stored_in (chunk_of s') (interior_of s') t \<and> wf_shape t \<and> built t \<and>
          elems t = vals \<and> distinct (cslots t) \<and> distinct (islots t) \<and> set (cslots t) \<inter> Lc = {} \<and>
          set (islots t) \<inter> Li = {} \<and> inv s' (Lc \<union> set (cslots t)) (Li \<union> set (islots t))))"

end

definition leaves_of :: "nat \<Rightarrow> nat" where
  "leaves_of n = (n + CHUNK_CAP - 1) div CHUNK_CAP"

lemma leaves_of_small: "vals \<noteq> [] \<Longrightarrow> length vals \<le> CHUNK_CAP \<Longrightarrow> leaves_of (length vals) = 1"
proof -
  assume "vals \<noteq> []" and "length vals \<le> CHUNK_CAP"
  then have "1 \<le> length vals" "length vals \<le> 15" by (simp_all add: CHUNK_CAP_def Suc_le_eq)
  then have "(length vals + 15 - 1) div 15 = 1" by arith
  then show ?thesis by (simp add: leaves_of_def CHUNK_CAP_def)
qed

lemma leaves_split:
  assumes "CHUNK_CAP < n" and "m = leaves_of n div 2 * CHUNK_CAP"
  shows "leaves_of m + leaves_of (n - m) = leaves_of n" and "0 < leaves_of m" and "0 < leaves_of (n - m)"
    and "0 < m" and "m < n"
proof -
  define L where "L = leaves_of n"
  have L: "2 \<le> L" "n \<le> L * CHUNK_CAP" "(L - 1) * CHUNK_CAP < n"
    using assms(1) by (simp_all add: L_def leaves_of_def CHUNK_CAP_def)
  have m: "m = L div 2 * CHUNK_CAP" using assms(2) by (simp add: L_def)
  have a: "leaves_of m = L div 2" by (simp add: m leaves_of_def CHUNK_CAP_def)
  have le: "m < n" using L m by (simp add: CHUNK_CAP_def)
  have e: "n - m + CHUNK_CAP - 1 = (n + CHUNK_CAP - 1) - L div 2 * CHUNK_CAP"
    using m le by (simp add: CHUNK_CAP_def)
  have b: "leaves_of (n - m) = L - L div 2"
    unfolding leaves_of_def e by (simp add: L_def leaves_of_def CHUNK_CAP_def)
  show "leaves_of m + leaves_of (n - m) = leaves_of n" "0 < leaves_of m" "0 < leaves_of (n - m)" "0 < m" "m < n"
    using a b L le m by (simp_all add: CHUNK_CAP_def flip: L_def)
qed

context slot_sink
begin

lemma build_balanced_ok:
  assumes "inv s Lc Li" and "vals \<noteq> []" and "ssorted vals" and "length vals < 2 ^ 32"
    and "budget s (leaves_of (length vals) + c) (leaves_of (length vals) - 1 + i)"
  shows "\<exists>r s'. build_balanced put_chunk put_interior s vals = Some (r, s') \<and>
    build_post s Lc Li vals r s' \<and> (r \<noteq> None \<longrightarrow> budget s' c i)"
  using assms
proof (induction "length vals" arbitrary: s Lc Li vals c i rule: less_induct)
  case less
  show ?case
  proof (cases "length vals \<le> CHUNK_CAP")
    case True
    then obtain ck where ck: "chunk_from_sorted_unchecked vals = Some ck" "wf_chunk ck" "ch_elems ck = vals"
      using from_sorted_unchecked_wf less.prems by blast
    have bd: "budget s (Suc c) i"
      using less.prems(5) leaves_of_small [OF less.prems(2) True] by simp
    from put_chunk_cases [OF less.prems(1) bd, of ck] show ?thesis
    proof cases
      case (1 s')
      then show ?thesis using True ck by (subst build_balanced.simps) (auto simp: build_post_def)
    next
      case (2 j s')
      have "build_post s Lc Li vals (Some j) s'"
        unfolding build_post_def option.case using 2 ck less.prems(2)
        by (intro conjI exI [of _ "Lf j ck"]) simp_all
      then show ?thesis using True ck 2 by (subst build_balanced.simps) simp
    qed
  next
    case False
    define m where "m = leaves_of (length vals) div 2 * CHUNK_CAP"
    define n where "n = length vals"
    have n: "CHUNK_CAP < n" using False by (simp add: n_def)
    note ls = leaves_split [OF n m_def [folded n_def]]
    define lv where "lv = take m vals"
    define rv where "rv = drop m vals"
    have len: "length lv = m" "length rv = n - m" using ls by (simp_all add: lv_def rv_def n_def)
    have srt: "ssorted lv" "ssorted rv" using less.prems(3) by (simp_all add: lv_def rv_def ssorted_take ssorted_drop)
    have lt: "\<forall>x\<in>set lv. \<forall>y\<in>set rv. x < y"
      using ssorted_take_less_drop [OF less.prems(3)] by (simp add: lv_def rv_def)
    have vals: "lv @ rv = vals" by (simp add: lv_def rv_def)
    have ne: "lv \<noteq> []" "rv \<noteq> []" using len ls by auto
    let ?pi = "\<lambda>l r. \<lparr>in_left = l, in_right = r, in_count = of_nat (length vals), in_key = rv ! 0\<rparr>"
    have unf: "build_balanced put_chunk put_interior s vals =
        try_some (build_balanced put_chunk put_interior s lv) (\<lambda>l s.
        try_some (build_balanced put_chunk put_interior s rv) (\<lambda>r s.
        try_some (put_interior s (?pi l r)) (\<lambda>i s. Some (Some (tag_interior i), s))))"
      using False ne by (subst build_balanced.simps)
        (simp add: Let_def nth_opt_def m_def leaves_of_def lv_def rv_def)
    have bl: "budget s (leaves_of (length lv) + (leaves_of (length rv) + c))
        (leaves_of (length lv) - 1 + (leaves_of (length rv) - 1 + Suc i))"
    proof -
      have "leaves_of (length lv) + (leaves_of (length rv) + c) = leaves_of (length vals) + c"
        "leaves_of (length lv) - 1 + (leaves_of (length rv) - 1 + Suc i) = leaves_of (length vals) - 1 + i"
        using ls len by (simp_all add: n_def)
      with less.prems(5) show ?thesis by (simp only:)
    qed
    have ll: "length lv < length vals" "length rv < length vals" using len ls by (simp_all add: n_def)
    have small: "length lv < 2 ^ 32" "length rv < 2 ^ 32" using ll less.prems(4) by simp_all
    obtain l s1 where l: "build_balanced put_chunk put_interior s lv = Some (l, s1)"
      "build_post s Lc Li lv l s1" "l \<noteq> None \<longrightarrow> budget s1 (leaves_of (length rv) + c) (leaves_of (length rv) - 1 + Suc i)"
      using less.hyps [OF ll(1) less.prems(1) ne(1) srt(1) small(1) bl] by blast
    show ?thesis
    proof (cases l)
      case None
      then show ?thesis using l by (auto simp: unf build_post_def)
    next
      case (Some lo)
      then obtain tl where tl: "lo = root_off tl" "stored_in (chunk_of s1) (interior_of s1) tl" "wf_shape tl" "built tl"
        "elems tl = lv" "distinct (cslots tl)" "distinct (islots tl)" "set (cslots tl) \<inter> Lc = {}"
        "set (islots tl) \<inter> Li = {}" "inv s1 (Lc \<union> set (cslots tl)) (Li \<union> set (islots tl))"
        "keeps Lc (chunk_of s) (chunk_of s1)" "keeps Li (interior_of s) (interior_of s1)"
        using l(2) by (auto simp: build_post_def)
      let ?Lc1 = "Lc \<union> set (cslots tl)" and ?Li1 = "Li \<union> set (islots tl)"
      obtain r s2 where r: "build_balanced put_chunk put_interior s1 rv = Some (r, s2)"
        "build_post s1 ?Lc1 ?Li1 rv r s2" "r \<noteq> None \<longrightarrow> budget s2 c (Suc i)"
        using less.hyps [OF ll(2) tl(10) ne(2) srt(2) small(2)] l(3) Some by blast
      show ?thesis
      proof (cases r)
        case None
        have k: "keeps Lc (chunk_of s) (chunk_of s2)" "keeps Li (interior_of s) (interior_of s2)"
          using r(2) tl(11,12) by (auto simp: build_post_def intro: keeps_trans)
        have "sink_failed s2 \<and> (\<exists>Lc' Li'. Lc \<subseteq> Lc' \<and> Li \<subseteq> Li' \<and> inv s2 Lc' Li')"
          using r(2) None by (auto simp: build_post_def)
        then show ?thesis using None Some l(1) r(1) k by (simp add: unf build_post_def)
      next
        case r2: (Some ro)
        then obtain tr where tr: "ro = root_off tr" "stored_in (chunk_of s2) (interior_of s2) tr" "wf_shape tr" "built tr"
          "elems tr = rv" "distinct (cslots tr)" "distinct (islots tr)" "set (cslots tr) \<inter> ?Lc1 = {}"
          "set (islots tr) \<inter> ?Li1 = {}" "inv s2 (?Lc1 \<union> set (cslots tr)) (?Li1 \<union> set (islots tr))"
          "keeps ?Lc1 (chunk_of s1) (chunk_of s2)" "keeps ?Li1 (interior_of s1) (interior_of s2)"
          using r(2) by (auto simp: build_post_def)
        let ?Lc2 = "?Lc1 \<union> set (cslots tr)" and ?Li2 = "?Li1 \<union> set (islots tr)"
        have bd: "budget s2 c (Suc i)" using r(3) r2 by simp
        from put_interior_cases [OF tr(10) bd, of "?pi lo ro"] show ?thesis
        proof cases
          case (1 s3)
          have k: "keeps Lc (chunk_of s) (chunk_of s3)" "keeps Li (interior_of s) (interior_of s3)"
            using keeps_trans [OF keeps_trans [OF tl(11) tr(11)] 1(2)]
              keeps_trans [OF keeps_trans [OF tl(12) tr(12)] 1(3)] by auto
          have "\<exists>Lc' Li'. Lc \<subseteq> Lc' \<and> Li \<subseteq> Li' \<and> inv s3 Lc' Li'"
            using 1(4) by (intro exI [of _ ?Lc2] exI [of _ ?Li2]) auto
          then show ?thesis using 1(1,5) Some r2 l(1) r(1) k by (simp add: unf build_post_def)
        next
          case (2 j s3)
          let ?t = "Nd j tl (rv ! 0) tr"
          have k: "keeps Lc (chunk_of s) (chunk_of s3)" "keeps Li (interior_of s) (interior_of s3)"
            using keeps_trans [OF keeps_trans [OF tl(11) tr(11)] 2(2)]
              keeps_trans [OF keeps_trans [OF tl(12) tr(12)] 2(3)] by auto
          have sl: "stored_in (chunk_of s3) (interior_of s3) tl"
            using stored_keeps [OF stored_keeps [OF tl(2) tr(11,12)] 2(2,3)] by auto
          have sr: "stored_in (chunk_of s3) (interior_of s3) tr"
            using stored_keeps [OF tr(2) 2(2,3)] by auto
          have st: "stored_in (chunk_of s3) (interior_of s3) ?t"
            using sl sr 2(6,8) tl(1,5) tr(1,5) vals [symmetric] by simp
          have "rv ! 0 \<in> set rv" using ne(2) by simp
          moreover have "\<forall>x\<in>set rv. rv ! 0 \<le> x" using srt(2) by (cases rv) auto
          ultimately have wf: "wf_shape ?t" using tl(3,5) tr(3,5) lt by simp
          have bt: "built ?t"
            using tl(4,5) tr(4,5) len n ls by (simp add: n_def m_def leaves_of_def)
          have "build_post s Lc Li vals (Some (tag_interior j)) s3"
            unfolding build_post_def option.case
          proof (intro conjI k exI [of _ ?t])
            show "distinct (cslots ?t)" using tl(6) tr(6,8) by auto
            show "distinct (islots ?t)" using tl(7) tr(7,9) 2(5) by auto
            show "set (cslots ?t) \<inter> Lc = {}" using tl(8) tr(8) by auto
            show "set (islots ?t) \<inter> Li = {}" using tl(9) tr(9) 2(5) by auto
            have "Lc \<union> set (cslots ?t) = ?Lc2" "Li \<union> set (islots ?t) = insert j ?Li2" by auto
            with 2(7) show "inv s3 (Lc \<union> set (cslots ?t)) (Li \<union> set (islots ?t))" by simp
            show "elems ?t = vals" using tl(5) tr(5) vals by simp
          qed (use st wf bt in simp_all)
          then show ?thesis using 2(1,4) Some r2 l(1) r(1) by (simp add: unf)
        qed
      qed
    qed
  qed
qed

end

locale infallible_sink = slot_sink +
  assumes put_chunk_some: "inv s Lc Li \<Longrightarrow> budget s (Suc c) i \<Longrightarrow> put_chunk s x \<noteq> Some (None, s')"
    and put_interior_some: "inv s Lc Li \<Longrightarrow> budget s c (Suc i) \<Longrightarrow> put_interior s n \<noteq> Some (None, s')"
begin

lemma build_balanced_some:
  assumes "inv s Lc Li" and "vals \<noteq> []" and "ssorted vals" and "length vals < 2 ^ 32"
    and "budget s (leaves_of (length vals) + c) (leaves_of (length vals) - 1 + i)"
  shows "build_balanced put_chunk put_interior s vals \<noteq> Some (None, s')"
  using assms
proof (induction "length vals" arbitrary: s Lc Li vals c i s' rule: less_induct)
  case less
  show ?case
  proof (cases "length vals \<le> CHUNK_CAP")
    case True
    then obtain ck where ck: "chunk_from_sorted_unchecked vals = Some ck"
      using from_sorted_unchecked_wf less.prems by blast
    have "budget s (Suc c) i" using less.prems(5) leaves_of_small [OF less.prems(2) True] by simp
    from put_chunk_some [OF less.prems(1) this] show ?thesis
      using True ck by (subst build_balanced.simps) simp
  next
    case False
    define m where "m = leaves_of (length vals) div 2 * CHUNK_CAP"
    have n: "CHUNK_CAP < length vals" using False by simp
    note ls = leaves_split [OF n m_def]
    define lv where "lv = take m vals"
    define rv where "rv = drop m vals"
    have len: "length lv = m" "length rv = length vals - m" using ls by (simp_all add: lv_def rv_def)
    have srt: "ssorted lv" "ssorted rv" using less.prems(3) by (simp_all add: lv_def rv_def ssorted_take ssorted_drop)
    have ne: "lv \<noteq> []" "rv \<noteq> []" using len ls by auto
    let ?pi = "\<lambda>l r. \<lparr>in_left = l, in_right = r, in_count = of_nat (length vals), in_key = rv ! 0\<rparr>"
    have unf: "build_balanced put_chunk put_interior s vals =
        try_some (build_balanced put_chunk put_interior s lv) (\<lambda>l s.
        try_some (build_balanced put_chunk put_interior s rv) (\<lambda>r s.
        try_some (put_interior s (?pi l r)) (\<lambda>i s. Some (Some (tag_interior i), s))))"
      using False ne by (subst build_balanced.simps)
        (simp add: Let_def nth_opt_def m_def leaves_of_def lv_def rv_def)
    have bl: "budget s (leaves_of (length lv) + (leaves_of (length rv) + c))
        (leaves_of (length lv) - 1 + (leaves_of (length rv) - 1 + Suc i))"
    proof -
      have "leaves_of (length lv) + (leaves_of (length rv) + c) = leaves_of (length vals) + c"
        "leaves_of (length lv) - 1 + (leaves_of (length rv) - 1 + Suc i) = leaves_of (length vals) - 1 + i"
        using ls len by simp_all
      with less.prems(5) show ?thesis by (simp only:)
    qed
    have ll: "length lv < length vals" "length rv < length vals" using len ls by simp_all
    have small: "length lv < 2 ^ 32" "length rv < 2 ^ 32" using ll less.prems(4) by simp_all
    note hl = less.hyps [OF ll(1) less.prems(1) ne(1) srt(1) small(1) bl]
    obtain l s1 where l: "build_balanced put_chunk put_interior s lv = Some (l, s1)"
      "build_post s Lc Li lv l s1" "l \<noteq> None \<longrightarrow> budget s1 (leaves_of (length rv) + c) (leaves_of (length rv) - 1 + Suc i)"
      using build_balanced_ok [OF less.prems(1) ne(1) srt(1) small(1) bl] by blast
    obtain lo where lo: "l = Some lo" using hl l(1) by (cases l) auto
    obtain L1 I1 where i1: "inv s1 L1 I1" using l(2) lo by (auto simp: build_post_def)
    have b1: "budget s1 (leaves_of (length rv) + c) (leaves_of (length rv) - 1 + Suc i)" using l(3) lo by simp
    note hr = less.hyps [OF ll(2) i1 ne(2) srt(2) small(2) b1]
    obtain r s2 where r: "build_balanced put_chunk put_interior s1 rv = Some (r, s2)"
      "build_post s1 L1 I1 rv r s2" "r \<noteq> None \<longrightarrow> budget s2 c (Suc i)"
      using build_balanced_ok [OF i1 ne(2) srt(2) small(2) b1] by blast
    obtain ro where ro: "r = Some ro" using hr r(1) by (cases r) auto
    obtain L2 I2 where i2: "inv s2 L2 I2" using r(2) ro by (auto simp: build_post_def)
    have b2: "budget s2 c (Suc i)" using r(3) ro by simp
    obtain q s3 where q: "put_interior s2 (?pi lo ro) = Some (q, s3)"
      using put_interior_ok [OF i2 b2, of "?pi lo ro"] by blast
    then have "q \<noteq> None" using put_interior_some [OF i2 b2] by metis
    then show ?thesis using l(1) r(1) lo ro q by (auto simp: unf)
  qed
qed

end

subsection \<open>The arena's writer and a compaction region as sinks\<close>

lemma arena_frame_keeps:
  assumes "arena_frame Lc Li A B"
  shows "keeps Lc (arena_chunk A) (arena_chunk B)" and "keeps Li (arena_interior A) (arena_interior B)"
  using assms by (simp_all add: keeps_def arena_frame_chunk arena_frame_interior)

text \<open>The other fields a writer's allocation leaves alone are kept in the invariant.\<close>

definition writer_inv :: "arena \<Rightarrow> u32 set \<Rightarrow> u32 set \<Rightarrow> arena \<Rightarrow> u32 set \<Rightarrow> u32 set \<Rightarrow> bool" where
  "writer_inv A0 Lc0 Li0 A Lc Li \<longleftrightarrow> arena_inv A Lc Li \<and> arena_frame Lc0 Li0 A0 A \<and> Lc0 \<subseteq> Lc \<and> Li0 \<subseteq> Li \<and>
     arena_kept A0 A"

lemma writer_inv_step: "writer_inv A0 Lc0 Li0 A Lc Li \<Longrightarrow> arena_frame Lc Li A B \<Longrightarrow> arena_inv B Lc' Li' \<Longrightarrow>
    Lc \<subseteq> Lc' \<Longrightarrow> Li \<subseteq> Li' \<Longrightarrow> arena_kept A B \<Longrightarrow> writer_inv A0 Lc0 Li0 B Lc' Li'"
  unfolding writer_inv_def by (meson arena_frame_trans arena_kept_trans order_trans)

interpretation writer_sink: slot_sink alloc_write_chunk alloc_write_interior arena_chunk arena_interior
  "writer_inv A0 Lc0 Li0" "\<lambda>_ _ _. True"
proof (unfold_locales, goal_cases)
  case (1 A Lc Li c i x)
  then have inv: "arena_inv A Lc Li" by (simp add: writer_inv_def)
  show ?case
    by (rule alloc_write_chunk_ok [OF inv, of x])
      (use writer_inv_step [OF 1(1)] arena_frame_keeps in \<open>auto dest: alloc_write_chunk_kept [OF inv]\<close>)
next
  case (2 A Lc Li c i x)
  then have inv: "arena_inv A Lc Li" by (simp add: writer_inv_def)
  show ?case
    by (rule alloc_write_interior_ok [OF inv, of x])
      (use writer_inv_step [OF 2(1)] arena_frame_keeps in \<open>auto dest: alloc_write_interior_kept [OF inv]\<close>)
qed

text \<open>
  A region's slots are reserved: none of them is in use, and the next slots to write come before
  the end. The rest of the arena is unconstrained, as other regions are filled concurrently.
\<close>

definition region_inv :: "u32 \<Rightarrow> u32 \<Rightarrow> region_writer \<times> arena \<Rightarrow> u32 set \<Rightarrow> u32 set \<Rightarrow> bool" where
  "region_inv ce ie s Lc Li \<longleftrightarrow> rw_chunk_end (fst s) = ce \<and> rw_interior_end (fst s) = ie \<and>
     unat ce < 2 ^ 31 - 1 \<and> unat ie < 2 ^ 31 - 1 \<and>
     (\<forall>j. rw_next_chunk (fst s) \<le> j \<longrightarrow> j < ce \<longrightarrow> j \<notin> Lc) \<and>
     (\<forall>j. rw_next_interior (fst s) \<le> j \<longrightarrow> j < ie \<longrightarrow> j \<notin> Li)"

definition region_budget :: "region_writer \<times> arena \<Rightarrow> nat \<Rightarrow> nat \<Rightarrow> bool" where
  "region_budget s c i \<longleftrightarrow> unat (rw_next_chunk (fst s)) + c = unat (rw_chunk_end (fst s)) \<and>
     unat (rw_next_interior (fst s)) + i = unat (rw_interior_end (fst s))"

lemma unat_Suc_small: "unat (i :: u32) < 2 ^ 31 - 1 \<Longrightarrow> unat (i + 1) = Suc (unat i)"
  by (simp add: unat_word_ariths)

interpretation region_sink: infallible_sink region_put_chunk region_put_interior
  "\<lambda>s. arena_chunk (snd s)" "\<lambda>s. arena_interior (snd s)" "region_inv ce ie" region_budget
proof (unfold_locales, goal_cases)
  case (1 s Lc Li c i x)
  obtain w A where s: "s = (w, A)" by (cases s)
  let ?j = "rw_next_chunk w"
  have lt: "unat ?j < unat ce" "unat ?j < 2 ^ 31 - 1"
    using 1 by (auto simp: s region_inv_def region_budget_def)
  have nj: "?j \<notin> Lc" using 1(1) lt(1) by (simp add: s region_inv_def word_less_nat_alt)
  have nx: "j \<noteq> ?j \<and> ?j \<le> j" if "?j + 1 \<le> j" for j
    using that unat_Suc_small [OF lt(2)] by (auto simp: word_le_nat_alt)
  show ?case
    using 1 nj lt unat_Suc_small [OF lt(2)] nx
    by (simp add: s region_put_chunk_def region_write_chunk_def Let_def keeps_def arena_chunk_def
        arena_interior_def region_inv_def region_budget_def)
next
  case (2 s Lc Li c i x)
  obtain w A where s: "s = (w, A)" by (cases s)
  let ?j = "rw_next_interior w"
  have lt: "unat ?j < unat ie" "unat ?j < 2 ^ 31 - 1"
    using 2 by (auto simp: s region_inv_def region_budget_def)
  have nj: "?j \<notin> Li" using 2(1) lt(1) by (simp add: s region_inv_def word_less_nat_alt)
  have nx: "j \<noteq> ?j \<and> ?j \<le> j" if "?j + 1 \<le> j" for j
    using that unat_Suc_small [OF lt(2)] by (auto simp: word_le_nat_alt)
  show ?case
    using 2 nj lt unat_Suc_small [OF lt(2)] nx
    by (simp add: s region_put_interior_def region_write_interior_def Let_def keeps_def arena_chunk_def
        arena_interior_def region_inv_def region_budget_def)
qed (simp_all add: region_put_chunk_def region_put_interior_def Let_def split: prod.splits)

subsection \<open>The height bound\<close>

lemma limit_from_bounds:
  assumes "3 ^ k \<le> m * 2 ^ k"
  shows "3 ^ limit_from m k \<le> m * 2 ^ limit_from m k" and "m * 2 ^ Suc (limit_from m k) < 3 ^ Suc (limit_from m k)"
  using assms
proof (induction m k rule: limit_from.induct)
  case (1 m k)
  {
    case 1
    then show ?case using "1.IH"(1) by (subst (1 2) limit_from.simps) (auto simp del: limit_from.simps)
  next
    case 2
    then show ?case using "1.IH"(2) by (subst (1 2) limit_from.simps) (auto simp del: limit_from.simps)
  }
qed

lemma pow_ratio_mono:
  assumes "j \<le> (k::nat)" and "3 ^ k \<le> m * 2 ^ k"
  shows "(3::nat) ^ j \<le> m * 2 ^ j"
proof (rule ccontr)
  assume "\<not> 3 ^ j \<le> m * 2 ^ j"
  then have "m * 2 ^ j < 3 ^ j" by simp
  obtain d where k: "k = j + d" using assms(1) le_Suc_ex by blast
  have "m * 2 ^ k = m * 2 ^ j * 2 ^ d" by (simp add: k power_add)
  also have "\<dots> < 3 ^ j * 2 ^ d" using \<open>m * 2 ^ j < 3 ^ j\<close> by simp
  also have "\<dots> \<le> 3 ^ j * 3 ^ d" by (intro mult_le_mono2 power_mono) simp_all
  finally show False using assms(2) by (simp add: k power_add)
qed

text \<open>\<open>depth_limit\<close> is the largest exponent whose power of 3/2 does not exceed the count.\<close>

lemma depth_limit_bounds:
  "3 ^ depth_limit n \<le> max n 2 * 2 ^ depth_limit n" "max n 2 * 2 ^ Suc (depth_limit n) < 3 ^ Suc (depth_limit n)"
proof -
  have b: "(3::nat) ^ 0 \<le> max n 2 * 2 ^ 0" by (simp add: le_max_iff_disj)
  show "3 ^ depth_limit n \<le> max n 2 * 2 ^ depth_limit n" "max n 2 * 2 ^ Suc (depth_limit n) < 3 ^ Suc (depth_limit n)"
    unfolding depth_limit_def by (fact limit_from_bounds [OF b])+
qed

lemma depth_limit_iff: "k \<le> depth_limit n \<longleftrightarrow> 3 ^ k \<le> max n 2 * 2 ^ k"
proof
  assume "k \<le> depth_limit n"
  then show "3 ^ k \<le> max n 2 * 2 ^ k"
    using pow_ratio_mono depth_limit_bounds(1) by blast
next
  assume a: "3 ^ k \<le> max n 2 * 2 ^ k"
  show "k \<le> depth_limit n"
  proof (rule ccontr)
    assume "\<not> k \<le> depth_limit n"
    then have "Suc (depth_limit n) \<le> k" by simp
    from pow_ratio_mono [OF this a] show False
      using depth_limit_bounds(2) [of n] by linarith
  qed
qed

lemma depth_limit_mono: "m \<le> n \<Longrightarrow> depth_limit m \<le> depth_limit n"
proof -
  assume "m \<le> n"
  have "3 ^ depth_limit m \<le> max m 2 * 2 ^ depth_limit m" using depth_limit_iff by blast
  also have "\<dots> \<le> max n 2 * 2 ^ depth_limit m" using \<open>m \<le> n\<close> by (intro mult_le_mono1) auto
  finally show ?thesis by (simp add: depth_limit_iff)
qed

lemma depth_limit_small:
  assumes "n < 2 ^ 32"
  shows "depth_limit n \<le> 54"
proof (rule ccontr)
  assume "\<not> depth_limit n \<le> 54"
  then have "55 \<le> depth_limit n" by simp
  then have "3 ^ 55 \<le> max n 2 * 2 ^ 55" by (simp only: depth_limit_iff)
  moreover have "max n 2 * 2 ^ 55 < 2 ^ 32 * (2::nat) ^ 55" using assms by simp
  moreover have "2 ^ 32 * (2::nat) ^ 55 \<le> 3 ^ 55" by simp
  ultimately show False by linarith
qed

lemma ilog2_le_limit: "ilog2 (max n 2) \<le> depth_limit n"
proof -
  have p: "2 ^ ilog2 (max n 2) \<le> max n 2" using ilog2_bounds [of "max n 2"] by simp
  have "(3::nat) ^ ilog2 (max n 2) \<le> 4 ^ ilog2 (max n 2)" by (rule power_mono) simp_all
  also have "\<dots> = 2 ^ ilog2 (max n 2) * 2 ^ ilog2 (max n 2)" by (simp flip: power_mult_distrib)
  also have "\<dots> \<le> max n 2 * 2 ^ ilog2 (max n 2)" using p by (rule mult_le_mono1)
  finally show ?thesis by (simp add: depth_limit_iff)
qed

text \<open>A build is far below the bound.\<close>

lemma built_height_limit:
  assumes "built t" and "wf_shape t"
  shows "height t \<le> depth_limit (tsize t)"
proof (cases "height t")
  case (Suc h)
  have "\<not> tsize t \<le> CHUNK_CAP * 2 ^ h"
    using built_height [OF assms, of h] Suc by auto
  then have "15 * 2 ^ h < tsize t" by (simp add: CHUNK_CAP_def)
  moreover have "(3::nat) ^ Suc h \<le> 15 * 2 ^ h * 2 ^ Suc h"
  proof -
    have "(3::nat) ^ Suc h \<le> 4 ^ Suc h" by (rule power_mono) simp_all
    also have "\<dots> = 2 * 2 ^ h * 2 ^ Suc h" by (simp flip: power_mult_distrib)
    finally show ?thesis by simp
  qed
  ultimately have "3 ^ Suc h \<le> tsize t * 2 ^ Suc h"
    by (meson less_imp_le_nat mult_le_mono1 order_trans)
  also have "\<dots> \<le> max (tsize t) 2 * 2 ^ Suc h" by (intro mult_le_mono1) simp
  finally show ?thesis unfolding Suc depth_limit_iff .
qed simp

end
