(* ===== verification/CTree_Path.thy ===== *)
theory CTree_Path
  imports CTree_Build
begin

section \<open>Paths: descending, copying and re-copying\<close>

text \<open>
  A root-to-leaf path is a list of frames, each an interior slot with the sibling the path does
  not enter; \<open>plug\<close> puts a subtree under it. The descent finds the path of a value, and the two
  copy loops rebuild it in fresh slots over a new subtree.
\<close>

subsection \<open>Frames\<close>

datatype frame = FL u32 u32 shape | FR u32 shape u32

fun fr_idx :: "frame \<Rightarrow> u32" where
  "fr_idx (FL i k r) = i"
| "fr_idx (FR i l k) = i"

fun fr_left :: "frame \<Rightarrow> bool" where
  "fr_left (FL i k r) = True"
| "fr_left (FR i l k) = False"

fun fr_sib :: "frame \<Rightarrow> shape" where
  "fr_sib (FL i k r) = r"
| "fr_sib (FR i l k) = l"

fun fr_set :: "u32 \<Rightarrow> frame \<Rightarrow> frame" where
  "fr_set j (FL i k r) = FL j k r"
| "fr_set j (FR i l k) = FR j l k"

fun fill :: "frame \<Rightarrow> shape \<Rightarrow> shape" where
  "fill (FL i k r) t = Nd i t k r"
| "fill (FR i l k) t = Nd i l k t"

abbreviation fr_off :: "frame \<Rightarrow> u32" where
  "fr_off f \<equiv> tag_interior (fr_idx f)"

definition plug :: "frame list \<Rightarrow> shape \<Rightarrow> shape" where
  "plug fs t = foldr fill fs t"

lemma plug_simps [simp]:
  "plug [] t = t"
  "plug (f # fs) t = fill f (plug fs t)"
  "plug (fs @ gs) t = plug fs (plug gs t)"
  by (simp_all add: plug_def)

lemma fr_set_simps [simp]: "fr_idx (fr_set j f) = j" "fr_left (fr_set j f) = fr_left f" "fr_sib (fr_set j f) = fr_sib f"
  by (cases f; simp)+

definition reidx :: "u32 list \<Rightarrow> frame list \<Rightarrow> frame list" where
  "reidx js fs = map2 fr_set js fs"

lemma reidx_simps [simp]:
  "reidx [] fs = []"
  "reidx (j # js) (f # fs) = fr_set j f # reidx js fs"
  by (simp_all add: reidx_def)

lemma reidx_snoc: "length js = length fs \<Longrightarrow> reidx (js @ [j]) (fs @ [f]) = reidx js fs @ [fr_set j f]"
  by (simp add: reidx_def)

lemma reidx_props:
  assumes "length js = length fs"
  shows "length (reidx js fs) = length fs" and "map fr_idx (reidx js fs) = js"
    and "map fr_left (reidx js fs) = map fr_left fs" and "map fr_sib (reidx js fs) = map fr_sib fs"
  using assms by (induction js fs rule: list_induct2) auto

subsection \<open>Elements, slots, sizes and heights of a plugged tree\<close>

lemma fill_basic [simp]:
  "tsize (fill f t) = tsize (fr_sib f) + tsize t"
  "height (fill f t) = Suc (max (height (fr_sib f)) (height t))"
  "set (elems (fill f t)) = set (elems (fr_sib f)) \<union> set (elems t)"
  "root_off (fill f t) = fr_off f"
  by (cases f; auto)+

lemma mset_cslots_fill: "mset (cslots (fill f t)) = mset (cslots (fr_sib f)) + mset (cslots t)"
  by (cases f) auto

lemma mset_islots_fill: "mset (islots (fill f t)) = {#fr_idx f#} + mset (islots (fr_sib f)) + mset (islots t)"
  by (cases f) auto

definition sib_c :: "frame list \<Rightarrow> u32 list" where
  "sib_c fs = concat (map (\<lambda>f. cslots (fr_sib f)) fs)"

definition sib_i :: "frame list \<Rightarrow> u32 list" where
  "sib_i fs = concat (map (\<lambda>f. islots (fr_sib f)) fs)"

lemma mset_cslots_plug: "mset (cslots (plug fs t)) = mset (sib_c fs @ cslots t)"
  by (induction fs) (simp_all add: sib_c_def mset_cslots_fill)

lemma mset_islots_plug: "mset (islots (plug fs t)) = mset (map fr_idx fs @ sib_i fs @ islots t)"
  by (induction fs) (simp_all add: sib_i_def mset_islots_fill)

lemma sib_reidx:
  assumes "length js = length fs"
  shows "sib_c (reidx js fs) = sib_c fs" and "sib_i (reidx js fs) = sib_i fs"
proof -
  have "sib_c xs = concat (map cslots (map fr_sib xs))" "sib_i xs = concat (map islots (map fr_sib xs))" for xs
    by (simp_all add: sib_c_def sib_i_def comp_def)
  note e = this
  show "sib_c (reidx js fs) = sib_c fs" "sib_i (reidx js fs) = sib_i fs"
    unfolding e reidx_props(4) [OF assms] by (rule refl)+
qed

lemma height_plug:
  "map fr_sib fs = map fr_sib gs \<Longrightarrow> height (plug fs u) \<le> max (height (plug gs w)) (length fs + height u)"
proof (induction fs arbitrary: gs)
  case (Cons f fs)
  then obtain g gs' where g: "gs = g # gs'" "fr_sib f = fr_sib g" "map fr_sib fs = map fr_sib gs'" by auto
  show ?case using Cons.IH [OF g(3)] g(1,2) by auto
qed simp

lemma height_plug_ge: "length fs + height u \<le> height (plug fs u)"
  by (induction fs) auto

lemma tsize_plug:
  "map fr_sib fs = map fr_sib gs \<Longrightarrow> tsize (plug fs u) + tsize w = tsize (plug gs w) + tsize u"
proof (induction fs arbitrary: gs)
  case (Cons f fs)
  then obtain g gs' where g: "gs = g # gs'" "fr_sib f = fr_sib g" "map fr_sib fs = map fr_sib gs'" by auto
  show ?case using Cons.IH [OF g(3)] g(1,2) by simp
qed simp

lemma tsize_plug_ge: "tsize u \<le> tsize (plug fs u)"
  by (induction fs) auto

lemma set_elems_plug: "set (elems (plug fs t)) = (\<Union>f\<in>set fs. set (elems (fr_sib f))) \<union> set (elems t)"
  by (induction fs) auto

text \<open>The value passes the keys of the path.\<close>

fun admits :: "u32 \<Rightarrow> frame \<Rightarrow> bool" where
  "admits v (FL i k r) \<longleftrightarrow> v < k"
| "admits v (FR i l k) \<longleftrightarrow> k \<le> v"

lemma admits_set [simp]: "admits v (fr_set j f) = admits v f"
  by (cases f) auto

lemma wf_fill:
  "wf_shape (fill f t) \<longleftrightarrow> wf_shape t \<and> wf_shape (fr_sib f) \<and> (\<forall>x\<in>set (elems t). admits x f) \<and>
     (\<forall>x\<in>set (elems (fr_sib f)). \<not> admits x f)"
  by (cases f) (auto simp: not_less not_le)

text \<open>Replacing the subtree by one whose elements come from it and from an admitted value.\<close>

lemma wf_plug_replace:
  assumes "wf_shape (plug fs w)" and "wf_shape u" and "set (elems u) \<subseteq> insert v (set (elems w))"
    and "\<forall>f\<in>set fs. admits v f" and "length js = length fs"
  shows "wf_shape (plug (reidx js fs) u)"
  using assms(5,1-4)
proof (induction js fs rule: list_induct2)
  case (Cons j js f fs)
  have sub: "set (elems (plug (reidx js fs) u)) \<subseteq> insert v (set (elems (plug fs w)))"
  proof -
    have "(\<Union>f\<in>set (reidx js fs). set (elems (fr_sib f))) = (\<Union>s\<in>set (map fr_sib (reidx js fs)). set (elems s))"
      by simp
    also have "\<dots> = (\<Union>f\<in>set fs. set (elems (fr_sib f)))"
      unfolding reidx_props(4) [OF Cons.hyps] by simp
    finally show ?thesis using Cons.prems(3) unfolding set_elems_plug by auto
  qed
  have ad: "admits x (fr_set j f) = admits x f" for x by simp
  show ?case
    using Cons.prems Cons.IH sub unfolding reidx_simps plug_simps wf_fill by (auto simp: ad)
qed simp

lemma wf_plug_sub: "wf_shape (plug fs t) \<Longrightarrow> wf_shape t"
  by (induction fs) (auto simp: wf_fill)

lemma stored_fill:
  "stored_in ch it (fill f t) \<longleftrightarrow> unat (fr_idx f) < 2 ^ 31 - 1 \<and> stored_in ch it t \<and> stored_in ch it (fr_sib f) \<and>
     it (fr_idx f) = Some (case f of
       FL i k r \<Rightarrow> \<lparr>in_left = root_off t, in_right = root_off r, in_count = of_nat (tsize t + tsize r), in_key = k\<rparr>
     | FR i l k \<Rightarrow> \<lparr>in_left = root_off l, in_right = root_off t, in_count = of_nat (tsize l + tsize t), in_key = k\<rparr>)"
  by (cases f) auto

lemma stored_plug_sub: "stored_in ch it (plug fs t) \<Longrightarrow> stored_in ch it t"
  by (induction fs) (auto simp: stored_fill)

subsection \<open>The descent\<close>

fun route :: "u32 \<Rightarrow> shape \<Rightarrow> frame list \<times> u32 \<times> chunk" where
  "route v (Lf i c) = ([], i, c)"
| "route v (Nd i l k r) = (if v < k then (let (fs, x) = route v l in (FL i k r # fs, x))
     else (let (fs, x) = route v r in (FR i l k # fs, x)))"

lemma route_plug: "route v t = (fs, i, c) \<Longrightarrow> plug fs (Lf i c) = t"
  by (induction t arbitrary: fs) (auto split: if_splits prod.splits)

lemma route_admits: "route v t = (fs, i, c) \<Longrightarrow> \<forall>f\<in>set fs. admits v f"
  by (induction t arbitrary: fs) (auto split: if_splits prod.splits)

lemma route_length: "route v t = (fs, i, c) \<Longrightarrow> length fs \<le> height t"
  using route_plug [of v t fs i c] height_plug_ge [of fs "Lf i c"] by simp

lemma route_member:
  assumes "route v t = (fs, i, c)" and "wf_shape t"
  shows "v \<in> set (elems t) \<longleftrightarrow> v \<in> set (ch_elems c)"
proof -
  have t: "t = plug fs (Lf i c)" using route_plug [OF assms(1)] by simp
  have "wf_shape (plug fs w) \<Longrightarrow> f \<in> set fs \<Longrightarrow> x \<in> set (elems (fr_sib f)) \<Longrightarrow> \<not> admits x f" for f x w
    by (induction fs) (auto simp: wf_fill)
  then have "v \<notin> set (elems (fr_sib f))" if "f \<in> set fs" for f
    using that assms(2) route_admits [OF assms(1)] unfolding t by blast
  then show ?thesis unfolding t set_elems_plug by auto
qed

lemma descend_stored:
  assumes "stored A t" and "length p \<le> MAX_DEPTH" and "route v t = (fs, i, c)"
  shows "descend A v p w (root_off t) =
    (if length p + length fs \<le> MAX_DEPTH then Some (Some (p @ map fr_off fs, w @ map fr_left fs, i, c)) else Some None)"
  using assms
proof (induction t arbitrary: p w fs)
  case (Lf j d)
  then show ?case using node_at_Lf [OF Lf.prems(1)] by (subst descend.simps) auto
next
  case (Nd j l k r)
  note n = node_at_Nd [OF Nd.prems(1)]
  show ?case
  proof (cases "MAX_DEPTH \<le> length p")
    case True
    have "fs \<noteq> []" using Nd.prems(3) by (auto split: if_splits prod.splits)
    then show ?thesis using True n by (subst descend.simps) (cases fs; simp)
  next
    case False
    show ?thesis
    proof (cases "v < k")
      case lt: True
      then obtain gs where gs: "route v l = (gs, i, c)" "fs = FL j k r # gs"
        using Nd.prems(3) by (auto split: prod.splits)
      have s: "stored A l" using Nd.prems(1) by simp
      show ?thesis
        using Nd.IH(1) [OF s _ gs(1), of "p @ [tag_interior j]" "w @ [True]"] False lt n gs(2)
        by (subst descend.simps) simp
    next
      case ge: False
      then obtain gs where gs: "route v r = (gs, i, c)" "fs = FR j l k # gs"
        using Nd.prems(3) by (auto split: prod.splits)
      have s: "stored A r" using Nd.prems(1) by simp
      show ?thesis
        using Nd.IH(2) [OF s _ gs(1), of "p @ [tag_interior j]" "w @ [False]"] False ge n gs(2)
        by (subst descend.simps) simp
    qed
  qed
qed

subsection \<open>Growing an arena\<close>

definition arena_ext :: "u32 set \<Rightarrow> u32 set \<Rightarrow> arena \<Rightarrow> u32 set \<Rightarrow> u32 set \<Rightarrow> arena \<Rightarrow> bool" where
  "arena_ext Lc Li A Lc' Li' A' \<longleftrightarrow> arena_inv A' Lc' Li' \<and> arena_frame Lc Li A A' \<and> Lc \<subseteq> Lc' \<and> Li \<subseteq> Li' \<and>
     arena_kept A A'"

lemma arena_ext_refl: "arena_inv A Lc Li \<Longrightarrow> arena_ext Lc Li A Lc Li A"
  by (simp add: arena_ext_def)

lemma arena_ext_trans:
  "arena_ext Lc Li A Lc1 Li1 A1 \<Longrightarrow> arena_ext Lc1 Li1 A1 Lc2 Li2 A2 \<Longrightarrow> arena_ext Lc Li A Lc2 Li2 A2"
  unfolding arena_ext_def by (meson arena_frame_trans arena_kept_trans order_trans)

lemma arena_ext_stored:
  "arena_ext Lc Li A Lc' Li' A' \<Longrightarrow> stored A t \<Longrightarrow> set (cslots t) \<subseteq> Lc \<Longrightarrow> set (islots t) \<subseteq> Li \<Longrightarrow> stored A' t"
  using stored_frame unfolding arena_ext_def by blast

text \<open>The state a failed allocation leaves.\<close>

definition alloc_failed :: "arena \<Rightarrow> bool" where
  "alloc_failed A \<longleftrightarrow> (\<exists>B c. alloc_write_chunk B c = Some (None, A)) \<or> (\<exists>B n. alloc_write_interior B n = Some (None, A))"

lemma writer_sink_failed: "writer_sink.sink_failed A = alloc_failed A"
  by (simp add: writer_sink.sink_failed_def alloc_failed_def)

lemma alloc_chunk_ext:
  assumes "arena_inv A Lc Li"
  obtains A' where "alloc_write_chunk A c = Some (None, A')" "arena_ext Lc Li A Lc Li A'" "alloc_failed A'"
  | i A' where "alloc_write_chunk A c = Some (Some i, A')" "i \<notin> Lc" "arena_ext Lc Li A (insert i Lc) Li A'"
      "arena_chunk A' i = Some c" "unat i < 2 ^ 31 - 1"
  using assms by (cases rule: alloc_write_chunk_ok [where c = c])
    (auto dest: alloc_write_chunk_kept [OF assms] simp: arena_ext_def alloc_failed_def intro: that)

lemma alloc_interior_ext:
  assumes "arena_inv A Lc Li"
  obtains A' where "alloc_write_interior A n = Some (None, A')" "arena_ext Lc Li A Lc Li A'" "alloc_failed A'"
  | i A' where "alloc_write_interior A n = Some (Some i, A')" "i \<notin> Li" "arena_ext Lc Li A Lc (insert i Li) A'"
      "arena_interior A' i = Some n" "unat i < 2 ^ 31 - 1"
  using assms by (cases rule: alloc_write_interior_ok [where n = n])
    (auto dest: alloc_write_interior_kept [OF assms] simp: arena_ext_def alloc_failed_def intro: that)

lemma arena_ext_inv: "arena_ext Lc Li A Lc' Li' A' \<Longrightarrow> arena_inv A' Lc' Li'"
  by (simp add: arena_ext_def)

lemma writer_build_ok:
  assumes "arena_inv A Lc Li" and "vals \<noteq> []" and "ssorted vals" and "length vals < 2 ^ 32"
  shows "\<exists>r A'. build_balanced alloc_write_chunk alloc_write_interior A vals = Some (r, A') \<and>
    ((r = None \<and> alloc_failed A' \<and> (\<exists>Lc' Li'. arena_ext Lc Li A Lc' Li' A')) \<or>
     (\<exists>t. r = Some (root_off t) \<and> stored A' t \<and> wf_shape t \<and> built t \<and> elems t = vals \<and>
        distinct (cslots t) \<and> distinct (islots t) \<and> set (cslots t) \<inter> Lc = {} \<and> set (islots t) \<inter> Li = {} \<and>
        arena_ext Lc Li A (Lc \<union> set (cslots t)) (Li \<union> set (islots t)) A'))"
proof -
  have inv: "writer_inv A Lc Li A Lc Li" using assms(1) by (simp add: writer_inv_def)
  obtain r A' where r: "build_balanced alloc_write_chunk alloc_write_interior A vals = Some (r, A')"
    "writer_sink.build_post A Lc Li A Lc Li vals r A'"
    using writer_sink.build_balanced_ok [OF inv assms(2-4) TrueI] by blast
  have ext: "arena_ext Lc Li A Lc' Li' A'" if "writer_inv A Lc Li A' Lc' Li'" for Lc' Li'
    using that by (simp add: writer_inv_def arena_ext_def)
  show ?thesis
  proof (cases r)
    case None
    then have "alloc_failed A'" "\<exists>Lc' Li'. writer_inv A Lc Li A' Lc' Li'"
      using r(2) unfolding writer_sink.build_post_def writer_sink_failed by auto
    then show ?thesis using r(1) None ext by blast
  next
    case (Some off)
    then obtain t where "off = root_off t" "stored A' t" "wf_shape t" "built t" "elems t = vals"
      "distinct (cslots t)" "distinct (islots t)" "set (cslots t) \<inter> Lc = {}" "set (islots t) \<inter> Li = {}"
      "writer_inv A Lc Li A' (Lc \<union> set (cslots t)) (Li \<union> set (islots t))"
      using r(2) unfolding writer_sink.build_post_def by auto
    then show ?thesis using r(1) Some ext by blast
  qed
qed

subsection \<open>The copy loops\<close>

text \<open>
  One step of either loop: the interior of frame \<open>f\<close> over the old subtree \<open>w\<close> is rewritten in the
  fresh slot \<open>j\<close> over \<open>u\<close>.
\<close>

lemma refill_stored:
  assumes ext: "arena_ext Lc Li A Lc (insert j Li) A'" and j: "unat j < 2 ^ 31 - 1"
    and w: "stored A (fill f w)" "set (cslots (fill f w)) \<subseteq> Lc" "set (islots (fill f w)) \<subseteq> Li"
    and u: "stored A u" "set (cslots u) \<subseteq> Lc" "set (islots u) \<subseteq> Li"
    and old: "interior_at A (fr_off f) = Some old"
    and cnt: "cnt = of_nat (tsize (fr_sib f) + tsize u)"
    and new: "arena_interior A' j = Some \<lparr>in_left = (if fr_left f then root_off u else in_left old),
       in_right = (if fr_left f then in_right old else root_off u), in_count = cnt, in_key = in_key old\<rparr>"
  shows "stored A' (fill (fr_set j f) u)"
proof -
  have sib: "set (cslots (fr_sib f)) \<subseteq> Lc" "set (islots (fr_sib f)) \<subseteq> Li" "stored A (fr_sib f)"
    using w by (cases f; auto)+
  have s: "stored A' (fr_sib f)" "stored A' u"
    using arena_ext_stored [OF ext sib(3,1,2)] arena_ext_stored [OF ext u] by simp_all
  have "strip_tag (fr_off f) = fr_idx f" using w(1) by (simp add: stored_fill slot_simps)
  then have "arena_interior A (fr_idx f) = Some old" using old by (simp add: interior_at_def)
  with w(1) s j new cnt show ?thesis by (cases f) (auto simp: add.commute)
qed

lemma fill_interior_at:
  assumes "stored A (fill f w)"
  obtains old where "interior_at A (fr_off f) = Some old" and "in_count old = of_nat (tsize (fr_sib f) + tsize w)"
proof -
  have "strip_tag (fr_off f) = fr_idx f" using assms by (simp add: stored_fill slot_simps)
  with assms that show ?thesis by (cases f) (auto simp: interior_at_def add.commute)
qed

lemma path_nth:
  "nth_opt (map g (fs @ [f]) @ xs) (length fs) = Some (g f)"
  by (simp add: nth_opt_def nth_append)

lemma copy_path_ok:
  assumes "arena_inv A Lc Li" and "stored A (plug fs w)" and "set (cslots (plug fs w)) \<subseteq> Lc"
    and "set (islots (plug fs w)) \<subseteq> Li" and "stored A u" and "set (cslots u) \<subseteq> Lc" and "set (islots u) \<subseteq> Li"
    and "tsize u = Suc (tsize w)"
  shows "\<exists>r A'. copy_path A (map fr_off fs @ ps) (map fr_left fs @ ls) need (length fs) (root_off u) np = Some (r, A') \<and>
    ((r = Inl ArenaFull \<and> alloc_failed A' \<and> (\<exists>Li'. arena_ext Lc Li A Lc Li' A')) \<or>
     (\<exists>js. length js = length fs \<and> distinct js \<and> set js \<inter> Li = {} \<and> arena_ext Lc Li A Lc (Li \<union> set js) A' \<and>
        stored A' (plug (reidx js fs) u) \<and>
        r = Inr (root_off (plug (reidx js fs) u), (if need then map tag_interior js @ np else np))))"
  using assms
proof (induction fs arbitrary: A Li w u np ps ls rule: rev_induct)
  case Nil
  then show ?case by (auto intro: arena_ext_refl)
next
  case (snoc f fs)
  have pl: "plug (fs @ [f]) w = plug fs (fill f w)" by simp
  have sw: "stored A (fill f w)" using snoc.prems(2) stored_plug_sub unfolding pl by blast
  have cw: "set (cslots (fill f w)) \<subseteq> Lc"
    using snoc.prems(3) mset_cslots_plug [of fs "fill f w"] unfolding pl by (metis mset_eq_setD set_append sup.boundedE)
  have iw: "set (islots (fill f w)) \<subseteq> Li"
    using snoc.prems(4) mset_islots_plug [of fs "fill f w"] unfolding pl by (metis mset_eq_setD set_append sup.boundedE)
  obtain old where old: "interior_at A (fr_off f) = Some old" "in_count old = of_nat (tsize (fr_sib f) + tsize w)"
    using fill_interior_at [OF sw] by blast
  define nd where "nd = \<lparr>in_left = (if fr_left f then root_off u else in_left old),
       in_right = (if fr_left f then in_right old else root_off u), in_count = in_count old + 1, in_key = in_key old\<rparr>"
  have unf: "copy_path A (map fr_off (fs @ [f]) @ ps) (map fr_left (fs @ [f]) @ ls) need (length (fs @ [f])) (root_off u) np
    = alloc_or_full (alloc_write_interior A nd)
       (\<lambda>x A. copy_path A (map fr_off (fs @ [f]) @ ps) (map fr_left (fs @ [f]) @ ls) need (length fs)
          (tag_interior x) (if need then tag_interior x # np else np))"
    using old(1) path_nth [of fr_off fs f ps] path_nth [of fr_left fs f ls]
    by (simp add: nd_def split: if_splits)
  from alloc_interior_ext [OF snoc.prems(1), of nd] show ?case
  proof cases
    case (1 A')
    then show ?thesis unfolding unf by auto
  next
    case (2 j A1)
    define u1 where "u1 = fill (fr_set j f) u"
    have cnt: "in_count old + 1 = of_nat (tsize (fr_sib f) + tsize u)"
      using old(2) snoc.prems(8) by simp
    have su1: "stored A1 u1"
      unfolding u1_def
      by (rule refill_stored [OF 2(3,5) sw cw iw snoc.prems(5-7) old(1) cnt]) (use 2(4) in \<open>simp add: nd_def\<close>)
    have cu1: "set (cslots u1) \<subseteq> Lc" using cw snoc.prems(6) by (cases f) (auto simp: u1_def)
    have iu1: "set (islots u1) \<subseteq> insert j Li" using iw snoc.prems(7) by (cases f) (auto simp: u1_def)
    have r1: "root_off u1 = tag_interior j" by (simp add: u1_def)
    have sp: "stored A1 (plug fs (fill f w))"
      using arena_ext_stored [OF 2(3)] snoc.prems(2-4) by simp
    have t1: "tsize u1 = Suc (tsize (fill f w))" using snoc.prems(8) by (simp add: u1_def)
    have "\<exists>r A'. copy_path A1 (map fr_off fs @ fr_off f # ps) (map fr_left fs @ fr_left f # ls) need (length fs)
        (root_off u1) (if need then tag_interior j # np else np) = Some (r, A') \<and>
      ((r = Inl ArenaFull \<and> alloc_failed A' \<and> (\<exists>Li'. arena_ext Lc (insert j Li) A1 Lc Li' A')) \<or>
       (\<exists>js. length js = length fs \<and> distinct js \<and> set js \<inter> insert j Li = {} \<and>
          arena_ext Lc (insert j Li) A1 Lc (insert j Li \<union> set js) A' \<and> stored A' (plug (reidx js fs) u1) \<and>
          r = Inr (root_off (plug (reidx js fs) u1), (if need then map tag_interior js @ (if need then tag_interior j # np else np)
             else (if need then tag_interior j # np else np)))))"
      by (rule snoc.IH [OF arena_ext_inv [OF 2(3)] sp _ _ su1 cu1 iu1 t1]) (use snoc.prems(3,4) in auto)
    then obtain r A' where r: "copy_path A1 (map fr_off fs @ fr_off f # ps) (map fr_left fs @ fr_left f # ls) need (length fs)
        (root_off u1) (if need then tag_interior j # np else np) = Some (r, A')"
      and c: "(r = Inl ArenaFull \<and> alloc_failed A' \<and> (\<exists>Li'. arena_ext Lc (insert j Li) A1 Lc Li' A')) \<or>
       (\<exists>js. length js = length fs \<and> distinct js \<and> set js \<inter> insert j Li = {} \<and>
          arena_ext Lc (insert j Li) A1 Lc (insert j Li \<union> set js) A' \<and> stored A' (plug (reidx js fs) u1) \<and>
          r = Inr (root_off (plug (reidx js fs) u1), (if need then map tag_interior js @ (if need then tag_interior j # np else np)
             else (if need then tag_interior j # np else np))))"
      by blast
    have run: "copy_path A (map fr_off (fs @ [f]) @ ps) (map fr_left (fs @ [f]) @ ls) need (length (fs @ [f])) (root_off u) np = Some (r, A')"
      unfolding unf 2(1) alloc_or_full_simps using r r1 by simp
    from c show ?thesis
    proof
      assume "r = Inl ArenaFull \<and> alloc_failed A' \<and> (\<exists>Li'. arena_ext Lc (insert j Li) A1 Lc Li' A')"
      then show ?thesis using run arena_ext_trans [OF 2(3)] by blast
    next
      assume "\<exists>js. length js = length fs \<and> distinct js \<and> set js \<inter> insert j Li = {} \<and>
          arena_ext Lc (insert j Li) A1 Lc (insert j Li \<union> set js) A' \<and> stored A' (plug (reidx js fs) u1) \<and>
          r = Inr (root_off (plug (reidx js fs) u1), (if need then map tag_interior js @ (if need then tag_interior j # np else np)
             else (if need then tag_interior j # np else np)))"
      then obtain js where js: "length js = length fs" "distinct js" "set js \<inter> insert j Li = {}"
          "arena_ext Lc (insert j Li) A1 Lc (insert j Li \<union> set js) A'" "stored A' (plug (reidx js fs) u1)"
          "r = Inr (root_off (plug (reidx js fs) u1), (if need then map tag_interior js @ (if need then tag_interior j # np else np)
             else (if need then tag_interior j # np else np)))"
        by blast
      have p: "plug (reidx (js @ [j]) (fs @ [f])) u = plug (reidx js fs) u1"
        by (simp add: reidx_snoc [OF js(1)] u1_def)
      have "arena_ext Lc Li A Lc (Li \<union> set (js @ [j])) A'"
        using arena_ext_trans [OF 2(3) js(4)] by (simp add: Un_commute)
      then have "length (js @ [j]) = length (fs @ [f]) \<and> distinct (js @ [j]) \<and> set (js @ [j]) \<inter> Li = {} \<and>
        arena_ext Lc Li A Lc (Li \<union> set (js @ [j])) A' \<and> stored A' (plug (reidx (js @ [j]) (fs @ [f])) u) \<and>
        r = Inr (root_off (plug (reidx (js @ [j]) (fs @ [f])) u), (if need then map tag_interior (js @ [j]) @ np else np))"
        unfolding p using js 2(2) by auto
      with run show ?thesis by blast
    qed
  qed
qed

text \<open>Re-copying the ancestors of a rebuilt subtree: the same, the counts unchanged.\<close>

lemma recopy_ok:
  assumes "arena_inv A Lc Li" and "stored A (plug fs w)" and "set (cslots (plug fs w)) \<subseteq> Lc"
    and "set (islots (plug fs w)) \<subseteq> Li" and "stored A u" and "set (cslots u) \<subseteq> Lc" and "set (islots u) \<subseteq> Li"
    and "tsize u = tsize w"
  shows "\<exists>r A'. recopy A (map fr_off fs @ ps) (map fr_left fs @ ls) (length fs) (root_off u) = Some (r, A') \<and>
    ((r = None \<and> alloc_failed A' \<and> (\<exists>Li'. arena_ext Lc Li A Lc Li' A')) \<or>
     (\<exists>js. length js = length fs \<and> distinct js \<and> set js \<inter> Li = {} \<and> arena_ext Lc Li A Lc (Li \<union> set js) A' \<and>
        stored A' (plug (reidx js fs) u) \<and> r = Some (root_off (plug (reidx js fs) u))))"
  using assms
proof (induction fs arbitrary: A Li w u ps ls rule: rev_induct)
  case Nil
  then show ?case by (auto intro: arena_ext_refl)
next
  case (snoc f fs)
  have pl: "plug (fs @ [f]) w = plug fs (fill f w)" by simp
  have sw: "stored A (fill f w)" using snoc.prems(2) stored_plug_sub unfolding pl by blast
  have cw: "set (cslots (fill f w)) \<subseteq> Lc"
    using snoc.prems(3) mset_cslots_plug [of fs "fill f w"] unfolding pl by (metis mset_eq_setD set_append sup.boundedE)
  have iw: "set (islots (fill f w)) \<subseteq> Li"
    using snoc.prems(4) mset_islots_plug [of fs "fill f w"] unfolding pl by (metis mset_eq_setD set_append sup.boundedE)
  obtain old where old: "interior_at A (fr_off f) = Some old" "in_count old = of_nat (tsize (fr_sib f) + tsize w)"
    using fill_interior_at [OF sw] by blast
  define nd where "nd = \<lparr>in_left = (if fr_left f then root_off u else in_left old),
       in_right = (if fr_left f then in_right old else root_off u), in_count = in_count old, in_key = in_key old\<rparr>"
  have unf: "recopy A (map fr_off (fs @ [f]) @ ps) (map fr_left (fs @ [f]) @ ls) (length (fs @ [f])) (root_off u)
    = try_some (alloc_write_interior A nd)
       (\<lambda>x A. recopy A (map fr_off (fs @ [f]) @ ps) (map fr_left (fs @ [f]) @ ls) (length fs) (tag_interior x))"
    using old(1) path_nth [of fr_off fs f ps] path_nth [of fr_left fs f ls]
    by (simp add: nd_def split: if_splits)
  from alloc_interior_ext [OF snoc.prems(1), of nd] show ?case
  proof cases
    case (1 A')
    then show ?thesis unfolding unf by auto
  next
    case (2 j A1)
    define u1 where "u1 = fill (fr_set j f) u"
    have cnt: "in_count old = of_nat (tsize (fr_sib f) + tsize u)" using old(2) snoc.prems(8) by simp
    have su1: "stored A1 u1"
      unfolding u1_def
      by (rule refill_stored [OF 2(3,5) sw cw iw snoc.prems(5-7) old(1) cnt]) (use 2(4) in \<open>simp add: nd_def\<close>)
    have cu1: "set (cslots u1) \<subseteq> Lc" using cw snoc.prems(6) by (cases f) (auto simp: u1_def)
    have iu1: "set (islots u1) \<subseteq> insert j Li" using iw snoc.prems(7) by (cases f) (auto simp: u1_def)
    have r1: "root_off u1 = tag_interior j" by (simp add: u1_def)
    have sp: "stored A1 (plug fs (fill f w))"
      using arena_ext_stored [OF 2(3)] snoc.prems(2-4) by simp
    have t1: "tsize u1 = tsize (fill f w)" using snoc.prems(8) by (simp add: u1_def)
    have "\<exists>r A'. recopy A1 (map fr_off fs @ fr_off f # ps) (map fr_left fs @ fr_left f # ls) (length fs)
        (root_off u1) = Some (r, A') \<and>
      ((r = None \<and> alloc_failed A' \<and> (\<exists>Li'. arena_ext Lc (insert j Li) A1 Lc Li' A')) \<or>
       (\<exists>js. length js = length fs \<and> distinct js \<and> set js \<inter> insert j Li = {} \<and>
          arena_ext Lc (insert j Li) A1 Lc (insert j Li \<union> set js) A' \<and> stored A' (plug (reidx js fs) u1) \<and>
          r = Some (root_off (plug (reidx js fs) u1))))"
      by (rule snoc.IH [OF arena_ext_inv [OF 2(3)] sp _ _ su1 cu1 iu1 t1]) (use snoc.prems(3,4) in auto)
    then obtain r A' where r: "recopy A1 (map fr_off fs @ fr_off f # ps) (map fr_left fs @ fr_left f # ls) (length fs)
        (root_off u1) = Some (r, A')"
      and c: "(r = None \<and> alloc_failed A' \<and> (\<exists>Li'. arena_ext Lc (insert j Li) A1 Lc Li' A')) \<or>
       (\<exists>js. length js = length fs \<and> distinct js \<and> set js \<inter> insert j Li = {} \<and>
          arena_ext Lc (insert j Li) A1 Lc (insert j Li \<union> set js) A' \<and> stored A' (plug (reidx js fs) u1) \<and>
          r = Some (root_off (plug (reidx js fs) u1)))"
      by blast
    have run: "recopy A (map fr_off (fs @ [f]) @ ps) (map fr_left (fs @ [f]) @ ls) (length (fs @ [f])) (root_off u) = Some (r, A')"
      unfolding unf 2(1) try_some_simps using r r1 by simp
    from c show ?thesis
    proof
      assume "r = None \<and> alloc_failed A' \<and> (\<exists>Li'. arena_ext Lc (insert j Li) A1 Lc Li' A')"
      then show ?thesis using run arena_ext_trans [OF 2(3)] by blast
    next
      assume "\<exists>js. length js = length fs \<and> distinct js \<and> set js \<inter> insert j Li = {} \<and>
          arena_ext Lc (insert j Li) A1 Lc (insert j Li \<union> set js) A' \<and> stored A' (plug (reidx js fs) u1) \<and>
          r = Some (root_off (plug (reidx js fs) u1))"
      then obtain js where js: "length js = length fs" "distinct js" "set js \<inter> insert j Li = {}"
          "arena_ext Lc (insert j Li) A1 Lc (insert j Li \<union> set js) A'" "stored A' (plug (reidx js fs) u1)"
          "r = Some (root_off (plug (reidx js fs) u1))"
        by blast
      have p: "plug (reidx (js @ [j]) (fs @ [f])) u = plug (reidx js fs) u1"
        by (simp add: reidx_snoc [OF js(1)] u1_def)
      have "arena_ext Lc Li A Lc (Li \<union> set (js @ [j])) A'"
        using arena_ext_trans [OF 2(3) js(4)] by (simp add: Un_commute)
      then have "length (js @ [j]) = length (fs @ [f]) \<and> distinct (js @ [j]) \<and> set (js @ [j]) \<inter> Li = {} \<and>
        arena_ext Lc Li A Lc (Li \<union> set (js @ [j])) A' \<and> stored A' (plug (reidx (js @ [j]) (fs @ [f])) u) \<and>
        r = Some (root_off (plug (reidx (js @ [j]) (fs @ [f])) u))"
        unfolding p using js 2(2) by auto
      with run show ?thesis by blast
    qed
  qed
qed

end
