(* ===== verification/CTree_Insert.thy ===== *)
theory CTree_Insert
  imports CTree_Path
begin

section \<open>Insertion\<close>

text \<open>
  The insert is shown to compute set insertion on the tree's elements, to leave the old tree and
  every slot in use untouched, to log exactly the superseded slots, and to keep the height below
  the scapegoat bound unless an allocation fails in the rebalance.
\<close>

subsection \<open>Superseded slots\<close>

text \<open>
  \<open>swapped L xs ys d L'\<close>: the slots \<open>xs\<close> of a tree became the slots \<open>ys\<close> of its successor and the
  logged slots \<open>d\<close>; nothing of \<open>xs\<close> is lost, \<open>ys\<close> and \<open>d\<close> share no slot, and what is new was free.
\<close>

definition swapped :: "u32 set \<Rightarrow> u32 list \<Rightarrow> u32 list \<Rightarrow> u32 list \<Rightarrow> u32 set \<Rightarrow> bool" where
  "swapped L xs ys d L' \<longleftrightarrow> distinct (ys @ d) \<and> set xs \<subseteq> set (ys @ d) \<and> set (ys @ d) \<subseteq> set xs \<union> (L' - L)
     \<and> set (ys @ d) \<subseteq> L' \<and> L \<subseteq> L'"

lemma swapped_trans:
  assumes 1: "swapped L xs ys d L1" and 2: "swapped L1 ys zs e L2" and x: "set xs \<subseteq> L"
  shows "swapped L xs zs (d @ e) L2"
proof -
  have dd: "distinct ys" "distinct d" "set ys \<inter> set d = {}" "distinct zs" "distinct e" "set zs \<inter> set e = {}"
    using 1 2 by (auto simp: swapped_def)
  have d1: "set d \<subseteq> L1" using 1 by (auto simp: swapped_def)
  have new: "set zs \<union> set e \<subseteq> set ys \<union> (L2 - L1)" using 2 by (auto simp: swapped_def)
  then have "set d \<inter> (set zs \<union> set e) = {}" using dd(3) d1 by blast
  then have "distinct (zs @ d @ e)" using dd by auto
  moreover have "set xs \<subseteq> set (zs @ d @ e)" using 1 2 by (auto simp: swapped_def)
  moreover have "set (zs @ d @ e) \<subseteq> set xs \<union> (L2 - L)" using 1 2 by (auto simp: swapped_def)
  moreover have "set (zs @ d @ e) \<subseteq> L2" "L \<subseteq> L2" using 1 2 by (auto simp: swapped_def)
  ultimately show ?thesis by (simp add: swapped_def)
qed

lemma swappedI:
  assumes "mset xs = mset (c @ d)" and "mset ys = mset (c @ n)" and "distinct xs" and "set xs \<subseteq> L"
    and "distinct n" and "set n \<inter> L = {}" and "L' = L \<union> set n"
  shows "swapped L xs ys d L'"
proof -
  have sx: "set xs = set c \<union> set d" and sy: "set ys = set c \<union> set n"
    using mset_eq_setD [OF assms(1)] mset_eq_setD [OF assms(2)] by simp_all
  have dx: "distinct (c @ d)" using assms(1,3) mset_eq_imp_distinct_iff by blast
  then have "distinct (c @ n)" using assms(4-6) sx by auto
  then have "distinct ys" using assms(2) mset_eq_imp_distinct_iff by blast
  then have "distinct (ys @ d)" using dx assms(4,6) sx sy by auto
  moreover have "set n \<subseteq> L' - L" using assms(6,7) by auto
  moreover have "set c \<union> set d \<subseteq> L" using assms(4) sx by simp
  ultimately show ?thesis using assms(7) unfolding swapped_def set_append sx sy by auto
qed

subsection \<open>The new leaf\<close>

lemma chunk_min_elems: "wf_chunk c \<Longrightarrow> ch_elems c \<noteq> [] \<Longrightarrow> chunk_min c = ch_elems c ! 0"
  by (auto simp: chunk_min_def ch_elems_def wf_chunk_def)

lemma alloc_halves_ok:
  assumes inv: "arena_inv A Lc Li" and wl: "wf_chunk nl" "ch_elems nl \<noteq> []" and wr: "wf_chunk nr" "ch_elems nr \<noteq> []"
    and lt: "\<forall>x\<in>set (ch_elems nl). x < k" and ge: "\<forall>x\<in>set (ch_elems nr). k \<le> x"
  shows "\<exists>r A'. alloc_or_full (alloc_write_chunk A nl) (\<lambda>left_off A.
      alloc_or_full (alloc_write_chunk A nr) (\<lambda>right_off A.
      alloc_or_full (alloc_write_interior A \<lparr>in_left = left_off, in_right = right_off,
          in_count = of_nat (chunk_len nl + chunk_len nr), in_key = k\<rparr>)
        (\<lambda>int_off A. Some (Inr (tag_interior int_off, 1::nat), A)))) = Some (r, A') \<and>
    ((r = Inl ArenaFull \<and> alloc_failed A' \<and> (\<exists>Lc' Li'. arena_ext Lc Li A Lc' Li' A')) \<or>
     (\<exists>u. r = Inr (root_off u, 1) \<and> stored A' u \<and> wf_shape u \<and> elems u = ch_elems nl @ ch_elems nr \<and> height u = 1 \<and>
        distinct (cslots u) \<and> distinct (islots u) \<and> set (cslots u) \<inter> Lc = {} \<and> set (islots u) \<inter> Li = {} \<and>
        arena_ext Lc Li A (Lc \<union> set (cslots u)) (Li \<union> set (islots u)) A'))"
proof -
  from alloc_chunk_ext [OF inv, of nl] show ?thesis
  proof cases
    case (1 A1)
    then show ?thesis by auto
  next
    case l: (2 i A1)
    from alloc_chunk_ext [OF arena_ext_inv [OF l(3)], of nr] show ?thesis
    proof cases
      case (1 A2)
      then show ?thesis using l(1) arena_ext_trans [OF l(3) 1(2)] by auto
    next
      case r: (2 j A2)
      let ?n = "\<lparr>in_left = i, in_right = j, in_count = of_nat (chunk_len nl + chunk_len nr), in_key = k\<rparr>"
      note e2 = arena_ext_trans [OF l(3) r(3)]
      from alloc_interior_ext [OF arena_ext_inv [OF r(3)], of ?n] show ?thesis
      proof cases
        case (1 A3)
        then show ?thesis using l(1) r(1) arena_ext_trans [OF e2 1(2)] by auto
      next
        case n: (2 m A3)
        note e3 = arena_ext_trans [OF e2 n(3)]
        let ?u = "Nd m (Lf i nl) k (Lf j nr)"
        have s1: "stored A1 (Lf i nl)" and s2: "stored A2 (Lf j nr)" using l r by simp_all
        have s12: "stored A2 (Lf i nl)" by (rule arena_ext_stored [OF r(3) s1]) simp_all
        have "stored A3 (Lf i nl)" by (rule arena_ext_stored [OF n(3) s12]) simp_all
        moreover have "stored A3 (Lf j nr)" by (rule arena_ext_stored [OF n(3) s2]) simp_all
        ultimately have "stored A3 (Lf i nl)" "stored A3 (Lf j nr)" .
        then have st: "stored A3 ?u" using n(4,5) wl wr by (simp add: chunk_len_elems)
        have wf: "wf_shape ?u" using wl wr lt ge by simp
        have "arena_ext Lc Li A (Lc \<union> set (cslots ?u)) (Li \<union> set (islots ?u)) A3"
          using e3 by (simp add: insert_commute)
        moreover have "i \<noteq> j" "i \<notin> Lc" "j \<notin> Lc" "m \<notin> Li" using l(2) r(2) n(2) by auto
        ultimately have "distinct (cslots ?u) \<and> distinct (islots ?u) \<and> set (cslots ?u) \<inter> Lc = {} \<and> set (islots ?u) \<inter> Li = {} \<and>
          arena_ext Lc Li A (Lc \<union> set (cslots ?u)) (Li \<union> set (islots ?u)) A3" by simp
        then show ?thesis using l(1) r(1) n(1) st wf
          by (intro exI [of _ "Inr (tag_interior m, 1)"] exI [of _ A3] conjI disjI2 exI [of _ ?u]) simp_all
      qed
    qed
  qed
qed

definition leaf_post :: "u32 set \<Rightarrow> u32 set \<Rightarrow> arena \<Rightarrow> chunk \<Rightarrow> u32 \<Rightarrow> (insert_result + u32 \<times> nat) \<Rightarrow> arena \<Rightarrow> bool" where
  "leaf_post Lc Li A c v r A' \<longleftrightarrow>
     (if v \<in> set (ch_elems c) then r = Inl Duplicate \<and> A' = A
      else (r = Inl ArenaFull \<and> alloc_failed A' \<and> (\<exists>Lc' Li'. arena_ext Lc Li A Lc' Li' A')) \<or>
       (\<exists>u lv. r = Inr (root_off u, lv) \<and> stored A' u \<and> wf_shape u \<and> set (elems u) = insert v (set (ch_elems c)) \<and>
          tsize u = Suc (length (ch_elems c)) \<and> height u = lv \<and> (lv = 0 \<or> lv = 1 \<and> tsize u = 16) \<and>
          distinct (cslots u) \<and> distinct (islots u) \<and> set (cslots u) \<inter> Lc = {} \<and> set (islots u) \<inter> Li = {} \<and>
          arena_ext Lc Li A (Lc \<union> set (cslots u)) (Li \<union> set (islots u)) A'))"

lemma leaf_postI:
  assumes "v \<notin> set (ch_elems c)" and "stored A' u" and "wf_shape u" and "set (elems u) = insert v (set (ch_elems c))"
    and "tsize u = Suc (length (ch_elems c))" and "height u = 0 \<or> height u = 1 \<and> tsize u = 16"
    and "distinct (cslots u)" and "distinct (islots u)" and "set (cslots u) \<inter> Lc = {}" and "set (islots u) \<inter> Li = {}"
    and "arena_ext Lc Li A (Lc \<union> set (cslots u)) (Li \<union> set (islots u)) A'"
  shows "leaf_post Lc Li A c v (Inr (root_off u, height u)) A'"
  unfolding leaf_post_def if_not_P [OF assms(1)] using assms(2-) by blast

lemma leaf_post_full:
  assumes "v \<notin> set (ch_elems c)" and "alloc_failed A'" and "arena_ext Lc Li A Lc' Li' A'"
  shows "leaf_post Lc Li A c v (Inl ArenaFull) A'"
  unfolding leaf_post_def if_not_P [OF assms(1)] using assms(2-) by blast

lemma insert_leaf_full:
  assumes inv: "arena_inv A Lc Li" and wf: "wf_chunk c" and full: "chunk_is_full c"
  shows "\<exists>r A'. insert_leaf A c v = Some (r, A') \<and> leaf_post Lc Li A c v r A'"
proof -
  have len: "length (ch_elems c) = 15" using wf full by (simp add: chunk_is_full_iff CHUNK_CAP_def)
  obtain l r where s: "chunk_split c = Some (l, r)" "wf_chunk l" "wf_chunk r"
    "ch_elems l @ ch_elems r = ch_elems c" "length (ch_elems l) = length (ch_elems c) div 2"
    by (rule chunk_split_ok [OF wf])
  have ll: "length (ch_elems l) = 7" "length (ch_elems r) = 8"
    using s(5) len arg_cong [OF s(4), of length] by simp_all
  define k where "k = chunk_min r"
  have rne: "ch_elems r \<noteq> []" using ll by auto
  have k: "k = ch_elems r ! 0" unfolding k_def by (rule chunk_min_elems [OF s(3) rne])
  have kin: "k \<in> set (ch_elems r)" using rne k by simp
  have srt: "ssorted (ch_elems l @ ch_elems r)" using s(4) wf ssorted_ch_elems by simp
  then have lk: "\<forall>x\<in>set (ch_elems l). x < k" using kin unfolding ssorted_append by blast
  have rk: "\<forall>x\<in>set (ch_elems r). k \<le> x"
    using ssorted_ch_elems [OF s(3)] k by (cases "ch_elems r") auto
  have un: "set (ch_elems c) = set (ch_elems l) \<union> set (ch_elems r)" using s(4) [symmetric] by simp
  have nf: "\<not> chunk_is_full l" "\<not> chunk_is_full r"
    using s(2,3) ll by (simp_all add: chunk_is_full_iff CHUNK_CAP_def)
  define halves where "halves = (if v < k
          then do { l \<leftarrow> chunk_insert l v; Some (map_option (\<lambda>l. (l, r)) l) }
          else do { r \<leftarrow> chunk_insert r v; Some (map_option (\<lambda>r. (l, r)) r) })"
  have unf: "insert_leaf A c v = Option.bind halves (\<lambda>h. case h of None \<Rightarrow> Some (Inl Duplicate, A)
        | Some (nl, nr) \<Rightarrow> alloc_or_full (alloc_write_chunk A nl) (\<lambda>left_off A.
            alloc_or_full (alloc_write_chunk A nr) (\<lambda>right_off A.
            alloc_or_full (alloc_write_interior A \<lparr>in_left = left_off, in_right = right_off,
                in_count = of_nat (chunk_len nl + chunk_len nr), in_key = k\<rparr>)
              (\<lambda>int_off A. Some (Inr (tag_interior int_off, 1), A)))))"
    unfolding insert_leaf_def halves_def k_def Let_def if_P [OF full] s(1)
    by (simp only: Option.bind.simps prod.case)
  show ?thesis
  proof (cases "v \<in> set (ch_elems c)")
    case True
    have "halves = Some None"
    proof (cases "v < k")
      case vk: True
      then have "v \<in> set (ch_elems l)" using True un rk by force
      then show ?thesis using vk s(2) by (simp add: halves_def chunk_insert_dup)
    next
      case vk: False
      then have "v \<in> set (ch_elems r)" using True un lk by force
      then show ?thesis using vk s(3) by (simp add: halves_def chunk_insert_dup)
    qed
    then show ?thesis using True by (simp add: unf leaf_post_def)
  next
    case False
    then have vl: "v \<notin> set (ch_elems l)" "v \<notin> set (ch_elems r)" using un by simp_all
    obtain nl nr where h: "halves = Some (Some (nl, nr))" "wf_chunk nl" "wf_chunk nr"
      "\<forall>x\<in>set (ch_elems nl). x < k" "\<forall>x\<in>set (ch_elems nr). k \<le> x"
      "set (ch_elems nl) \<union> set (ch_elems nr) = insert v (set (ch_elems c))"
      "length (ch_elems nl) + length (ch_elems nr) = 16" "ch_elems nl \<noteq> []" "ch_elems nr \<noteq> []"
    proof (cases "v < k")
      case True
      obtain l' where "chunk_insert l v = Some (Some l')" "wf_chunk l'" "set (ch_elems l') = insert v (set (ch_elems l))"
        "length (ch_elems l') = Suc (length (ch_elems l))"
        by (rule chunk_insert_new [OF s(2) vl(1) nf(1)])
      with True show ?thesis using lk rk un ll rne s(3)
        by (intro that [of l' r]) (auto simp: halves_def)
    next
      case False
      obtain r' where "chunk_insert r v = Some (Some r')" "wf_chunk r'" "set (ch_elems r') = insert v (set (ch_elems r))"
        "length (ch_elems r') = Suc (length (ch_elems r))"
        by (rule chunk_insert_new [OF s(3) vl(2) nf(2)])
      with False show ?thesis using lk rk un ll s(2)
        by (intro that [of l r']) (auto simp: halves_def)
    qed
    obtain r' A' where run: "insert_leaf A c v = Some (r', A')"
      and post: "(r' = Inl ArenaFull \<and> alloc_failed A' \<and> (\<exists>Lc' Li'. arena_ext Lc Li A Lc' Li' A')) \<or>
     (\<exists>u. r' = Inr (root_off u, 1) \<and> stored A' u \<and> wf_shape u \<and> elems u = ch_elems nl @ ch_elems nr \<and> height u = 1 \<and>
        distinct (cslots u) \<and> distinct (islots u) \<and> set (cslots u) \<inter> Lc = {} \<and> set (islots u) \<inter> Li = {} \<and>
        arena_ext Lc Li A (Lc \<union> set (cslots u)) (Li \<union> set (islots u)) A')"
      using alloc_halves_ok [OF inv h(2,8,3,9,4,5)] unfolding unf h(1) Option.bind.simps option.case prod.case by blast
    from post have "leaf_post Lc Li A c v r' A'"
    proof (elim disjE exE conjE)
      fix Lc' Li'
      assume "r' = Inl ArenaFull" "alloc_failed A'" "arena_ext Lc Li A Lc' Li' A'"
      then show ?thesis using leaf_post_full [OF False] by simp
    next
      fix u
      assume u: "r' = Inr (root_off u, 1)" "stored A' u" "wf_shape u" "elems u = ch_elems nl @ ch_elems nr" "height u = 1"
        "distinct (cslots u)" "distinct (islots u)" "set (cslots u) \<inter> Lc = {}" "set (islots u) \<inter> Li = {}"
        "arena_ext Lc Li A (Lc \<union> set (cslots u)) (Li \<union> set (islots u)) A'"
      have "set (elems u) = insert v (set (ch_elems c))" "tsize u = 16" "tsize u = Suc (length (ch_elems c))"
        using u(4) h(6,7) len by simp_all
      then show ?thesis using leaf_postI [OF False u(2,3) _ _ _ u(6-10)] u(1,5) by simp
    qed
    with run show ?thesis by blast
  qed
qed

lemma insert_leaf_ok:
  assumes inv: "arena_inv A Lc Li" and wf: "wf_chunk c"
  shows "\<exists>r A'. insert_leaf A c v = Some (r, A') \<and> leaf_post Lc Li A c v r A'"
proof (cases "chunk_is_full c")
  case True
  then show ?thesis by (rule insert_leaf_full [OF inv wf])
next
  case nf: False
  show ?thesis
  proof (cases "v \<in> set (ch_elems c)")
    case True
    then show ?thesis using nf wf by (simp add: insert_leaf_def chunk_insert_dup leaf_post_def)
  next
    case False
    obtain c' where c': "chunk_insert c v = Some (Some c')" "wf_chunk c'" "set (ch_elems c') = insert v (set (ch_elems c))"
      "length (ch_elems c') = Suc (length (ch_elems c))"
      by (rule chunk_insert_new [OF wf False nf])
    from alloc_chunk_ext [OF inv, of c'] show ?thesis
    proof cases
      case (1 A')
      then show ?thesis using nf False c'(1) by (auto simp: insert_leaf_def leaf_post_def)
    next
      case (2 i A')
      let ?u = "Lf i c'"
      have "stored A' ?u" "wf_shape ?u" using 2 c' by auto
      from leaf_postI [OF False this] c'(3,4) 2(2,3)
      have "leaf_post Lc Li A c v (Inr (i, 0)) A'" by simp
      moreover have "insert_leaf A c v = Some (Inr (i, 0), A')"
        using nf c'(1) 2(1) by (simp add: insert_leaf_def)
      ultimately show ?thesis by blast
    qed
  qed
qed

subsection \<open>The scapegoat\<close>

fun unbal :: "shape \<Rightarrow> bool" where
  "unbal (Lf i c) = False"
| "unbal (Nd i l k r) = (2 * (tsize l + tsize r) < 3 * tsize l \<or> 2 * (tsize l + tsize r) < 3 * tsize r)"

fun first_unbal :: "frame list \<Rightarrow> shape \<Rightarrow> nat option" where
  "first_unbal [] u = None"
| "first_unbal (f # fs) u = (if unbal (plug (f # fs) u) then Some 0 else map_option Suc (first_unbal fs u))"

lemma unbal_fill: "unbal (fill f t) \<longleftrightarrow> 2 * (tsize (fr_sib f) + tsize t) < 3 * tsize (fr_sib f) \<or>
    2 * (tsize (fr_sib f) + tsize t) < 3 * tsize t"
  by (cases f) (auto simp: add.commute)

lemma alpha_unbalanced_stored:
  assumes "stored A (fill f t)" and "wf_shape (fill f t)" and "tsize (fill f t) < 2 ^ 32"
  shows "\<exists>nd. interior_at A (fr_off f) = Some nd \<and> alpha_unbalanced A nd = Some (unbal (fill f t))"
proof -
  have u: "unat (of_nat (tsize (fr_sib f)) + of_nat (tsize t) :: u32) = tsize (fr_sib f) + tsize t"
    "unat (of_nat (tsize t) + of_nat (tsize (fr_sib f)) :: u32) = tsize t + tsize (fr_sib f)"
    using unat_of_nat_u32 [of "tsize (fr_sib f) + tsize t"] assms(3) by (simp_all add: add.commute)
  have sz: "subtree_size A (root_off t) = Some (tsize t)" "subtree_size A (root_off (fr_sib f)) = Some (tsize (fr_sib f))"
    using assms by (auto intro!: subtree_size_stored simp: stored_fill wf_fill)
  have "strip_tag (fr_off f) = fr_idx f" using assms(1) by (simp add: stored_fill slot_simps)
  with assms(1) sz u show ?thesis
    by (cases f) (auto simp: interior_at_def alpha_unbalanced_def Let_def add.commute)
qed

lemma find_scapegoat_stored:
  assumes "stored A (plug fs u)" and "wf_shape (plug fs u)" and "tsize (plug fs u) < 2 ^ 32"
  shows "find_scapegoat A (map fr_off fs) n = Some (case first_unbal fs u of None \<Rightarrow> 0 | Some j \<Rightarrow> n + j)"
  using assms
proof (induction fs arbitrary: n)
  case (Cons f fs)
  obtain nd where "interior_at A (fr_off f) = Some nd" "alpha_unbalanced A nd = Some (unbal (fill f (plug fs u)))"
    using alpha_unbalanced_stored Cons.prems by fastforce
  moreover have "find_scapegoat A (map fr_off fs) (Suc n) = Some (case first_unbal fs u of None \<Rightarrow> 0 | Some j \<Rightarrow> Suc n + j)"
    using Cons by (auto simp: stored_fill wf_fill)
  ultimately show ?case by (auto split: option.splits)
qed simp

lemma first_unbal_less: "first_unbal fs u = Some j \<Longrightarrow> j < length fs"
  by (induction fs arbitrary: j) (auto split: if_splits)

lemma shrink_step: "3 * b \<le> 2 * (c::nat) \<Longrightarrow> a * p \<le> b * q \<Longrightarrow> a * (3 * p) \<le> c * (2 * q)"
proof -
  assume 1: "3 * b \<le> 2 * c" and 2: "a * p \<le> b * q"
  have "a * (3 * p) = 3 * (a * p)" by simp
  also have "\<dots> \<le> 3 * b * q" using 2 by simp
  also have "\<dots> \<le> 2 * c * q" using 1 by (rule mult_le_mono1)
  finally show ?thesis by simp
qed

text \<open>Along balanced nodes the size shrinks by 2/3 at every level.\<close>

lemma balanced_shrinks:
  "first_unbal fs u = None \<Longrightarrow> tsize u * 3 ^ length fs \<le> tsize (plug fs u) * 2 ^ length fs"
proof (induction fs)
  case (Cons f fs)
  then have nu: "\<not> unbal (fill f (plug fs u))" "first_unbal fs u = None" by (auto split: if_splits)
  then have "3 * tsize (plug fs u) \<le> 2 * tsize (fill f (plug fs u))" by (auto simp: unbal_fill)
  from shrink_step [OF this Cons.IH [OF nu(2)]] show ?case by (simp only: plug_simps list.size power_Suc add_Suc_right add_0_right)
qed simp

lemma first_unbal_prefix:
  "first_unbal fs u = Some j \<Longrightarrow> tsize (plug (drop j fs) u) * 3 ^ j \<le> tsize (plug fs u) * 2 ^ j"
proof (induction fs arbitrary: j)
  case (Cons f fs)
  show ?case
  proof (cases "unbal (fill f (plug fs u))")
    case True
    then show ?thesis using Cons.prems by auto
  next
    case False
    then obtain i where i: "j = Suc i" "first_unbal fs u = Some i" using Cons.prems by auto
    have "3 * tsize (plug fs u) \<le> 2 * tsize (fill f (plug fs u))" using False by (auto simp: unbal_fill)
    from shrink_step [OF this Cons.IH [OF i(2)]] show ?thesis by (simp only: i(1) plug_simps drop_Suc_Cons power_Suc)
  qed
qed simp

lemma balanced_within_limit:
  assumes "first_unbal fs u = None" and "wf_shape u" and "height u = 0 \<or> height u = 1 \<and> tsize u = 16"
  shows "length fs + height u \<le> depth_limit (tsize (plug fs u))"
proof -
  have s: "tsize u * 3 ^ length fs \<le> tsize (plug fs u) * 2 ^ length fs" by (rule balanced_shrinks [OF assms(1)])
  have "3 ^ (length fs + height u) \<le> tsize (plug fs u) * 2 ^ (length fs + height u)"
    using assms(3)
  proof
    assume "height u = 0"
    moreover have "1 * 3 ^ length fs \<le> tsize u * 3 ^ length fs"
      by (rule mult_le_mono1) (use wf_tsize_pos [OF assms(2)] in linarith)
    ultimately show ?thesis using s by (simp only: add_0_right)
  next
    assume "height u = 1 \<and> tsize u = 16"
    then show ?thesis using s by simp
  qed
  also have "\<dots> \<le> max (tsize (plug fs u)) 2 * 2 ^ (length fs + height u)" by (intro mult_le_mono1) simp
  finally show ?thesis by (simp only: depth_limit_iff)
qed

lemma scapegoat_within_limit:
  assumes "first_unbal fs u = Some j" and "wf_shape (plug fs u)" and "built b" and "wf_shape b"
    and "elems b = elems (plug (drop j fs) u)"
  shows "j + height b \<le> depth_limit (tsize (plug fs u))"
proof -
  define n where "n = tsize (plug fs u)"
  define h where "h = height b"
  define m where "m = tsize b"
  have "j < length fs" using first_unbal_less [OF assms(1)] .
  then obtain f gs where d: "drop j fs = f # gs" by (metis Cons_nth_drop_Suc)
  have "plug fs u = plug (take j fs) (plug (drop j fs) u)" by (simp flip: plug_simps(3))
  then have "wf_shape (plug (drop j fs) u)" using assms(2) wf_plug_sub [of "take j fs"] by simp
  then have "wf_shape (plug gs u)" "wf_shape (fr_sib f)" unfolding d plug_simps wf_fill by blast+
  note this [THEN wf_tsize_pos]
  moreover have "m = tsize (fr_sib f) + tsize (plug gs u)"
    unfolding m_def assms(5) d plug_simps fill_basic(1) by (rule refl)
  ultimately have "2 \<le> m" by linarith
  have "h \<le> depth_limit m" unfolding h_def m_def by (rule built_height_limit [OF assms(3,4)])
  then have 1: "3 ^ h \<le> m * 2 ^ h" using \<open>2 \<le> m\<close> by (simp add: depth_limit_iff max_absorb1)
  have 2: "m * 3 ^ j \<le> n * 2 ^ j"
    using first_unbal_prefix [OF assms(1)] by (simp add: m_def n_def assms(5))
  have "(3::nat) ^ (j + h) = 3 ^ j * 3 ^ h" by (simp add: power_add)
  also have "\<dots> \<le> 3 ^ j * (m * 2 ^ h)" using 1 by (rule mult_le_mono2)
  also have "\<dots> = m * 3 ^ j * 2 ^ h" by simp
  also have "\<dots> \<le> n * 2 ^ j * 2 ^ h" using 2 by (rule mult_le_mono1)
  also have "\<dots> = n * 2 ^ (j + h)" by (simp add: power_add)
  also have "\<dots> \<le> max n 2 * 2 ^ (j + h)" by (intro mult_le_mono1) simp
  finally show ?thesis by (simp only: depth_limit_iff n_def h_def)
qed

subsection \<open>The rebalance\<close>

lemma plug_slots_subset:
  assumes "set (cslots (plug fs w)) \<subseteq> Lc" and "set (islots (plug fs w)) \<subseteq> Li"
  shows "set (cslots w) \<subseteq> Lc" and "set (islots w) \<subseteq> Li"
  using assms mset_eq_setD [OF mset_cslots_plug [of fs w]] mset_eq_setD [OF mset_islots_plug [of fs w]] by auto

definition rebalance_post :: "u32 set \<Rightarrow> u32 set \<Rightarrow> arena \<Rightarrow> frame list \<Rightarrow> shape \<Rightarrow> retire_log \<Rightarrow> u32 option \<Rightarrow> arena \<Rightarrow> retire_log \<Rightarrow> bool" where
  "rebalance_post Lc Li A F u log r A' log' \<longleftrightarrow>
     (r = None \<and> log' = log \<and> alloc_failed A' \<and> (\<exists>Lc' Li'. arena_ext Lc Li A Lc' Li' A')) \<or>
     (\<exists>j b js dc di Lc' Li'. j = (case first_unbal F u of None \<Rightarrow> 0 | Some j \<Rightarrow> j) \<and> length js = j \<and> j \<le> length F \<and>
        (let t' = plug (reidx js (take j F)) b in
          r = Some (root_off t') \<and> stored A' t' \<and> wf_shape t' \<and> built b \<and> wf_shape b \<and> elems b = elems (plug (drop j F) u) \<and>
          log' = log\<lparr>rl_chunks := rl_chunks log @ dc, rl_interiors := rl_interiors log @ di\<rparr> \<and>
          arena_ext Lc Li A Lc' Li' A' \<and> swapped Lc (cslots (plug F u)) (cslots t') dc Lc' \<and>
          swapped Li (islots (plug F u)) (islots t') di Li'))"

lemma rebalance_ok:
  assumes inv: "arena_inv A Lc Li" and st: "stored A (plug F u)" and wf: "wf_shape (plug F u)"
    and cs: "set (cslots (plug F u)) \<subseteq> Lc" "distinct (cslots (plug F u))"
    and ils: "set (islots (plug F u)) \<subseteq> Li" "distinct (islots (plug F u))"
    and small: "tsize (plug F u) < 2 ^ 32" and hgt: "height (plug F u) \<le> MAX_DEPTH" and ne: "F \<noteq> []"
  shows "\<exists>r A' log'. rebalance A (root_off (plug F u)) (map fr_off F) (map fr_left F) log = Some (r, A', log') \<and>
    rebalance_post Lc Li A F u log r A' log'"
proof -
  define j where "j = (case first_unbal F u of None \<Rightarrow> 0 | Some j \<Rightarrow> j)"
  have jl: "j < length F" using ne first_unbal_less by (auto simp: j_def split: option.splits)
  define gs where "gs = take j F"
  define w where "w = plug (drop j F) u"
  have lg: "length gs = j" using jl by (simp add: gs_def)
  have F: "F = gs @ drop j F" by (simp add: gs_def)
  have pw: "plug gs w = plug F u" by (simp add: gs_def w_def flip: plug_simps(3))
  have fs: "find_scapegoat A (map fr_off F) 0 = Some j"
    using find_scapegoat_stored [OF st wf small, of 0] by (simp add: j_def split: option.splits)
  obtain f hs where dr: "drop j F = f # hs" using jl by (metis Cons_nth_drop_Suc)
  have tg: "nth_opt (map fr_off F) j = Some (root_off w)"
    using jl dr by (simp add: nth_opt_def w_def) (metis hd_drop_conv_nth list.sel(1))
  have sw: "stored A w" and ww: "wf_shape w" using st wf pw stored_plug_sub wf_plug_sub by metis+
  have zw: "tsize w < 2 ^ 32" using tsize_plug_ge [of w gs] small pw by simp
  have hw: "height w \<le> MAX_DEPTH" using height_plug_ge [of gs w] hgt pw by simp
  note cw = plug_slots_subset [OF cs(1) [folded pw] ils(1) [folded pw]]
  define B where "B = build_balanced alloc_write_chunk alloc_write_interior A (elems w)"
  have unf: "rebalance A (root_off (plug F u)) (map fr_off F) (map fr_left F) log =
     Option.bind (try_some B (\<lambda>child A. recopy A (map fr_off F) (map fr_left F) j child))
       (\<lambda>(r, A). case r of None \<Rightarrow> Some (None, A, log)
         | Some child \<Rightarrow> do { log \<leftarrow> retire_subtree A (root_off w) log;
             Some (Some child, A, log\<lparr>rl_interiors := rl_interiors log @ map strip_tag (take j (map fr_off F))\<rparr>) })"
    using ne fs tg subtree_size_stored [OF sw ww zw] visit_chunks_stored [OF sw hw]
      extend_slices_chunks [OF ww, of "[]"]
    by (simp add: rebalance_def B_def)
  obtain r1 A1 where b1: "B = Some (r1, A1)" and c1: "(r1 = None \<and> alloc_failed A1 \<and> (\<exists>Lc' Li'. arena_ext Lc Li A Lc' Li' A1)) \<or>
     (\<exists>t. r1 = Some (root_off t) \<and> stored A1 t \<and> wf_shape t \<and> built t \<and> elems t = elems w \<and>
        distinct (cslots t) \<and> distinct (islots t) \<and> set (cslots t) \<inter> Lc = {} \<and> set (islots t) \<inter> Li = {} \<and>
        arena_ext Lc Li A (Lc \<union> set (cslots t)) (Li \<union> set (islots t)) A1)"
    using writer_build_ok [OF inv wf_nonempty [OF ww] wf_ssorted [OF ww] zw] unfolding B_def by blast
  from c1 show ?thesis
  proof
    assume "r1 = None \<and> alloc_failed A1 \<and> (\<exists>Lc' Li'. arena_ext Lc Li A Lc' Li' A1)"
    then show ?thesis using unf b1 unfolding rebalance_post_def by simp
  next
    assume "\<exists>t. r1 = Some (root_off t) \<and> stored A1 t \<and> wf_shape t \<and> built t \<and> elems t = elems w \<and>
        distinct (cslots t) \<and> distinct (islots t) \<and> set (cslots t) \<inter> Lc = {} \<and> set (islots t) \<inter> Li = {} \<and>
        arena_ext Lc Li A (Lc \<union> set (cslots t)) (Li \<union> set (islots t)) A1"
    then obtain b where b: "r1 = Some (root_off b)" "stored A1 b" "wf_shape b" "built b" "elems b = elems w"
        "distinct (cslots b)" "distinct (islots b)" "set (cslots b) \<inter> Lc = {}" "set (islots b) \<inter> Li = {}"
        "arena_ext Lc Li A (Lc \<union> set (cslots b)) (Li \<union> set (islots b)) A1" by blast
    let ?Lc1 = "Lc \<union> set (cslots b)" and ?Li1 = "Li \<union> set (islots b)"
    have sp1: "stored A1 (plug gs w)" using arena_ext_stored [OF b(10)] st cs(1) ils(1) unfolding pw by blast
    have tsz: "tsize b = tsize w" using b(5) by simp
    have re: "\<exists>r A'. recopy A1 (map fr_off gs @ map fr_off (drop j F)) (map fr_left gs @ map fr_left (drop j F)) (length gs) (root_off b) = Some (r, A') \<and>
    ((r = None \<and> alloc_failed A' \<and> (\<exists>Li'. arena_ext ?Lc1 ?Li1 A1 ?Lc1 Li' A')) \<or>
     (\<exists>js. length js = length gs \<and> distinct js \<and> set js \<inter> ?Li1 = {} \<and> arena_ext ?Lc1 ?Li1 A1 ?Lc1 (?Li1 \<union> set js) A' \<and>
        stored A' (plug (reidx js gs) b) \<and> r = Some (root_off (plug (reidx js gs) b))))"
      by (rule recopy_ok [OF arena_ext_inv [OF b(10)] sp1 _ _ b(2) _ _ tsz]) (use cs(1) ils(1) pw in auto)
    have mo: "map fr_off gs @ map fr_off (drop j F) = map fr_off F" and ml: "map fr_left gs @ map fr_left (drop j F) = map fr_left F"
      by (simp_all add: gs_def flip: map_append)
    obtain r2 A2 where r2: "recopy A1 (map fr_off F) (map fr_left F) j (root_off b) = Some (r2, A2)"
      and c2: "(r2 = None \<and> alloc_failed A2 \<and> (\<exists>Li'. arena_ext ?Lc1 ?Li1 A1 ?Lc1 Li' A2)) \<or>
     (\<exists>js. length js = length gs \<and> distinct js \<and> set js \<inter> ?Li1 = {} \<and> arena_ext ?Lc1 ?Li1 A1 ?Lc1 (?Li1 \<union> set js) A2 \<and>
        stored A2 (plug (reidx js gs) b) \<and> r2 = Some (root_off (plug (reidx js gs) b)))"
      using re unfolding lg mo ml by blast
    from c2 show ?thesis
    proof
      assume "r2 = None \<and> alloc_failed A2 \<and> (\<exists>Li'. arena_ext ?Lc1 ?Li1 A1 ?Lc1 Li' A2)"
      then obtain Li' where e: "r2 = None" "alloc_failed A2" "arena_ext ?Lc1 ?Li1 A1 ?Lc1 Li' A2" by blast
      have "rebalance_post Lc Li A F u log None A2 log"
        unfolding rebalance_post_def using e(2) arena_ext_trans [OF b(10) e(3)] by blast
      then show ?thesis using unf b1 b(1) r2 e(1) by simp
    next
      assume "\<exists>js. length js = length gs \<and> distinct js \<and> set js \<inter> ?Li1 = {} \<and> arena_ext ?Lc1 ?Li1 A1 ?Lc1 (?Li1 \<union> set js) A2 \<and>
        stored A2 (plug (reidx js gs) b) \<and> r2 = Some (root_off (plug (reidx js gs) b))"
      then obtain js where js: "length js = length gs" "distinct js" "set js \<inter> ?Li1 = {}"
        "arena_ext ?Lc1 ?Li1 A1 ?Lc1 (?Li1 \<union> set js) A2" "stored A2 (plug (reidx js gs) b)"
        "r2 = Some (root_off (plug (reidx js gs) b))" by blast
      define t' where "t' = plug (reidx js gs) b"
      define di where "di = islots w @ map fr_idx gs"
      have ext: "arena_ext Lc Li A ?Lc1 (?Li1 \<union> set js) A2" by (rule arena_ext_trans [OF b(10) js(4)])
      have sw2: "stored A2 w" by (rule arena_ext_stored [OF ext sw cw])
      have wft: "wf_shape t'"
      proof -
        have "\<exists>v. \<forall>f\<in>set gs. admits v f"
        proof -
          obtain v where v: "v \<in> set (elems w)" using wf_nonempty [OF ww] by (cases "elems w") auto
          have "wf_shape (plug xs y) \<Longrightarrow> v \<in> set (elems y) \<Longrightarrow> \<forall>f\<in>set xs. admits v f" for xs y
            by (induction xs) (auto simp: wf_fill set_elems_plug)
          then show ?thesis using wf pw v by metis
        qed
        then obtain v where v: "\<forall>f\<in>set gs. admits v f" by blast
        show ?thesis unfolding t'_def
          by (rule wf_plug_replace [OF _ b(3) _ v js(1), of w]) (use wf pw b(5) in auto)
      qed
      have strip: "map strip_tag (take j (map fr_off F)) = map fr_idx gs"
      proof -
        have "stored_in ch it (plug xs y) \<Longrightarrow> map strip_tag (map fr_off xs) = map fr_idx xs" for ch it xs y
          by (induction xs) (auto simp: stored_fill slot_simps)
        then have "map strip_tag (map fr_off gs) = map fr_idx gs" using st pw by metis
        then show ?thesis by (simp add: gs_def take_map)
      qed
      let ?log = "log\<lparr>rl_chunks := rl_chunks log @ cslots w, rl_interiors := rl_interiors log @ di\<rparr>"
      have run: "rebalance A (root_off (plug F u)) (map fr_off F) (map fr_left F) log = Some (Some (root_off t'), A2, ?log)"
        using unf b1 b(1) r2 js(6) retire_subtree_stored [OF sw2 hw] strip by (simp add: di_def t'_def)
      have swc: "swapped Lc (cslots (plug F u)) (cslots t') (cslots w) ?Lc1"
        by (rule swappedI [of _ "sib_c gs" _ _ "cslots b"])
          (use cs b(6,8) mset_cslots_plug [of gs w] mset_cslots_plug [of "reidx js gs" b] in
            \<open>simp_all add: pw t'_def sib_reidx [OF js(1)]\<close>)
      have swi: "swapped Li (islots (plug F u)) (islots t') di (?Li1 \<union> set js)"
      proof (rule swappedI [of _ "sib_i gs" _ _ "js @ islots b"])
        show "mset (islots (plug F u)) = mset (sib_i gs @ di)"
          using mset_islots_plug [of gs w] by (simp add: pw di_def)
        show "mset (islots t') = mset (sib_i gs @ js @ islots b)"
          using mset_islots_plug [of "reidx js gs" b] by (simp add: t'_def sib_reidx [OF js(1)] reidx_props(2) [OF js(1)])
      qed (use ils b(7,9) js(2,3) in auto)
      have "rebalance_post Lc Li A F u log (Some (root_off t')) A2 ?log"
        unfolding rebalance_post_def
      proof (rule disjI2, rule exI [of _ j], rule exI [of _ b], rule exI [of _ js], rule exI [of _ "cslots w"],
          rule exI [of _ di], rule exI [of _ ?Lc1], rule exI [of _ "?Li1 \<union> set js"], intro conjI)
        show "j = (case first_unbal F u of None \<Rightarrow> 0 | Some j \<Rightarrow> j)" by (rule j_def)
        show "length js = j" using js(1) lg by simp
        show "j \<le> length F" using jl by simp
        show "let x = plug (reidx js (take j F)) b in
          Some (root_off t') = Some (root_off x) \<and> stored A2 x \<and> wf_shape x \<and> built b \<and> wf_shape b \<and> elems b = elems (plug (drop j F) u) \<and>
          ?log = log\<lparr>rl_chunks := rl_chunks log @ cslots w, rl_interiors := rl_interiors log @ di\<rparr> \<and>
          arena_ext Lc Li A ?Lc1 (?Li1 \<union> set js) A2 \<and> swapped Lc (cslots (plug F u)) (cslots x) (cslots w) ?Lc1 \<and>
          swapped Li (islots (plug F u)) (islots x) di (?Li1 \<union> set js)"
          using js(5) wft b(3,4,5) ext swc swi unfolding Let_def t'_def w_def gs_def by simp
      qed
      with run show ?thesis by blast
    qed
  qed
qed

end
