(* ===== verification/CTree_Correct.thy ===== *)
theory CTree_Correct
  imports CTree_Insert
begin

section \<open>The correctness of the insert\<close>

text \<open>
  \<open>tree_at A Lc Li t\<close>: the arena is well formed, \<open>t\<close> is stored in it, and its slots are distinct
  slots in use. An insert into such a tree never panics below height 64, and its three outcomes
  are characterised; on success the height stays within the scapegoat bound unless an allocation
  failed.
\<close>

subsection \<open>Trees in an arena\<close>

definition tree_at :: "arena \<Rightarrow> u32 set \<Rightarrow> u32 set \<Rightarrow> shape \<Rightarrow> bool" where
  "tree_at A Lc Li t \<longleftrightarrow> arena_inv A Lc Li \<and> stored A t \<and> wf_shape t \<and> distinct (cslots t) \<and> distinct (islots t) \<and>
     set (cslots t) \<subseteq> Lc \<and> set (islots t) \<subseteq> Li"

lemma tree_at_ext: "tree_at A Lc Li t \<Longrightarrow> arena_ext Lc Li A Lc' Li' A' \<Longrightarrow> tree_at A' Lc' Li' t"
  unfolding tree_at_def using arena_ext_stored arena_ext_inv by (fastforce simp: arena_ext_def)

definition insert_done :: "u32 set \<Rightarrow> u32 set \<Rightarrow> arena \<Rightarrow> shape \<Rightarrow> u32 \<Rightarrow> retire_log \<Rightarrow> u32 \<Rightarrow> arena \<Rightarrow> retire_log \<Rightarrow> bool" where
  "insert_done Lc Li A t v log root A' log' \<longleftrightarrow> (\<exists>t' Lc' Li' dc di.
     root = root_off t' \<and> tree_at A' Lc' Li' t' \<and> arena_ext Lc Li A Lc' Li' A' \<and>
     set (elems t') = insert v (set (elems t)) \<and> tsize t' = Suc (tsize t) \<and>
     log' = log\<lparr>rl_chunks := rl_chunks log @ dc, rl_interiors := rl_interiors log @ di\<rparr> \<and>
     swapped Lc (cslots t) (cslots t') dc Lc' \<and> swapped Li (islots t) (islots t') di Li' \<and>
     height t' \<le> Suc (height t) \<and>
     (height t' \<le> max (height t) (depth_limit (tsize t')) \<or> alloc_failed A'))"

definition insert_post :: "u32 set \<Rightarrow> u32 set \<Rightarrow> arena \<Rightarrow> shape \<Rightarrow> u32 \<Rightarrow> retire_log \<Rightarrow> insert_result \<Rightarrow> arena \<Rightarrow> retire_log \<Rightarrow> bool" where
  "insert_post Lc Li A t v log r A' log' \<longleftrightarrow> (case r of
     Duplicate \<Rightarrow> v \<in> set (elems t) \<and> A' = A \<and> log' = log
   | ArenaFull \<Rightarrow> v \<notin> set (elems t) \<and> log' = log \<and> alloc_failed A' \<and> (\<exists>Lc' Li'. arena_ext Lc Li A Lc' Li' A')
   | Inserted x \<Rightarrow> v \<notin> set (elems t) \<and> insert_done Lc Li A t v log (ct_root x) A' log')"

text \<open>The new leaf under the copied path, before any rebalance.\<close>

lemma copied_tree:
  assumes tr: "tree_at A Lc Li (plug fs (Lf i c))" and ad: "\<forall>f\<in>set fs. admits v f"
    and u: "wf_shape u" "set (elems u) = insert v (set (ch_elems c))" "tsize u = Suc (length (ch_elems c))"
      "distinct (cslots u)" "distinct (islots u)" "set (cslots u) \<inter> Lc = {}" "set (islots u) \<inter> Li = {}"
    and js: "length js = length fs" "distinct js" "set js \<inter> (Li \<union> set (islots u)) = {}"
    and ext: "arena_ext Lc Li A (Lc \<union> set (cslots u)) (Li \<union> set (islots u) \<union> set js) A2"
    and st: "stored A2 (plug (reidx js fs) u)"
  defines "t1 \<equiv> plug (reidx js fs) u"
  shows "tree_at A2 (Lc \<union> set (cslots u)) (Li \<union> set (islots u) \<union> set js) t1"
    and "set (elems t1) = insert v (set (elems (plug fs (Lf i c))))" and "tsize t1 = Suc (tsize (plug fs (Lf i c)))"
    and "swapped Lc (cslots (plug fs (Lf i c))) (cslots t1) [i] (Lc \<union> set (cslots u))"
    and "swapped Li (islots (plug fs (Lf i c))) (islots t1) (map fr_idx fs) (Li \<union> set (islots u) \<union> set js)"
    and "height t1 \<le> max (height (plug fs (Lf i c))) (length fs + height u)"
proof -
  let ?t = "plug fs (Lf i c)"
  note sib = reidx_props(4) [OF js(1)]
  have T: "wf_shape ?t" "distinct (cslots ?t)" "distinct (islots ?t)" "set (cslots ?t) \<subseteq> Lc" "set (islots ?t) \<subseteq> Li"
    using tr by (simp_all add: tree_at_def)
  show swc: "swapped Lc (cslots ?t) (cslots t1) [i] (Lc \<union> set (cslots u))"
    by (rule swappedI [of _ "sib_c fs" _ _ "cslots u"])
      (use T u mset_cslots_plug [of fs "Lf i c"] mset_cslots_plug [of "reidx js fs" u] in
        \<open>simp_all add: t1_def sib_reidx [OF js(1)]\<close>)
  show swi: "swapped Li (islots ?t) (islots t1) (map fr_idx fs) (Li \<union> set (islots u) \<union> set js)"
  proof (rule swappedI [of _ "sib_i fs" _ _ "js @ islots u"])
    show "mset (islots ?t) = mset (sib_i fs @ map fr_idx fs)"
      using mset_islots_plug [of fs "Lf i c"] by simp
    show "mset (islots t1) = mset (sib_i fs @ js @ islots u)"
      using mset_islots_plug [of "reidx js fs" u] by (simp add: t1_def sib_reidx [OF js(1)] reidx_props(2) [OF js(1)])
  qed (use T u js in auto)
  have "wf_shape t1"
    unfolding t1_def by (rule wf_plug_replace [OF T(1) u(1) _ ad js(1)]) (use u(2) in simp)
  moreover have "arena_inv A2 (Lc \<union> set (cslots u)) (Li \<union> set (islots u) \<union> set js)"
    using ext by (rule arena_ext_inv)
  ultimately show "tree_at A2 (Lc \<union> set (cslots u)) (Li \<union> set (islots u) \<union> set js) t1"
    using swc swi st unfolding tree_at_def t1_def by (auto simp: swapped_def)
  have "(\<Union>f\<in>set (reidx js fs). set (elems (fr_sib f))) = (\<Union>s\<in>set (map fr_sib (reidx js fs)). set (elems s))" by simp
  also have "\<dots> = (\<Union>f\<in>set fs. set (elems (fr_sib f)))" unfolding sib by simp
  finally show "set (elems t1) = insert v (set (elems ?t))"
    unfolding t1_def set_elems_plug u(2) by simp
  show "tsize t1 = Suc (tsize ?t)"
    using tsize_plug [OF sib, of u "Lf i c"] u(3) by (simp add: t1_def)
  show "height t1 \<le> max (height ?t) (length fs + height u)"
    using height_plug [OF sib, of u "Lf i c"] reidx_props(1) [OF js(1)] by (simp add: t1_def)
qed

lemma depth_limit_pos: "1 \<le> depth_limit n"
proof -
  have "(3::nat) ^ 1 \<le> max n 2 * 2 ^ 1" by simp
  then show ?thesis by (simp only: depth_limit_iff)
qed

text \<open>The last part of an insert: logging, and rebalancing where the path is too deep.\<close>

lemma insert_finish:
  assumes tr: "tree_at A Lc Li t" and t: "t = plug fs (Lf i c)" and h: "height t < MAX_DEPTH" and small: "Suc (tsize t) < 2 ^ 32"
    and t1: "tree_at A2 Lc1 Li1 (plug F u)" "arena_ext Lc Li A Lc1 Li1 A2" "set (elems (plug F u)) = insert v (set (elems t))"
      "tsize (plug F u) = Suc (tsize t)" "swapped Lc (cslots t) (cslots (plug F u)) [i] Lc1"
      "swapped Li (islots t) (islots (plug F u)) (map fr_idx fs) Li1"
      "height (plug F u) \<le> max (height t) (length fs + height u)"
    and u: "wf_shape u" "height u = 0 \<or> height u = 1 \<and> tsize u = 16"
    and F: "length F = length fs" "map fr_left F = map fr_left fs" "map fr_sib F = map fr_sib fs"
    and log1: "log1 = log\<lparr>rl_chunks := rl_chunks log @ [i], rl_interiors := rl_interiors log @ map fr_idx fs\<rparr>"
    and need: "need \<longleftrightarrow> depth_limit (Suc (tsize t)) < length fs + height u"
  shows "\<exists>r A' log'. (if need then do {
            (b, A, log) \<leftarrow> rebalance A2 (root_off (plug F u)) (map fr_off F) (map fr_left fs) log1;
            Some (Inserted \<lparr>ct_root = (case b of Some r \<Rightarrow> r | None \<Rightarrow> root_off (plug F u))\<rparr>, A, log) }
          else Some (Inserted \<lparr>ct_root = root_off (plug F u)\<rparr>, A2, log1)) = Some (Inserted \<lparr>ct_root = r\<rparr>, A', log') \<and>
    insert_done Lc Li A t v log r A' log'"
proof (cases need)
  case False
  then have "height (plug F u) \<le> max (height t) (depth_limit (tsize (plug F u)))"
    using t1(4,7) need by auto
  moreover have "height (plug F u) \<le> Suc (height t)"
    using t1(7) u(2) height_plug_ge [of fs "Lf i c"] t by auto
  ultimately have "insert_done Lc Li A t v log (root_off (plug F u)) A2 log1"
    unfolding insert_done_def using t1 log1
    by (intro exI [of _ "plug F u"] exI [of _ Lc1] exI [of _ Li1]) auto
  then show ?thesis using False by simp
next
  case True
  let ?t1 = "plug F u"
  have T: "arena_inv A2 Lc1 Li1" "stored A2 ?t1" "wf_shape ?t1" "distinct (cslots ?t1)" "distinct (islots ?t1)"
    "set (cslots ?t1) \<subseteq> Lc1" "set (islots ?t1) \<subseteq> Li1" using t1(1) by (simp_all add: tree_at_def)
  have d: "length fs + height u \<le> Suc (height t)" using height_plug_ge [of fs "Lf i c"] t u(2) by auto
  have deep: "depth_limit (tsize ?t1) < length fs + height u" using True need t1(4) by simp
  have ne: "F \<noteq> []"
  proof
    assume "F = []"
    then have "length fs = 0" using F(1) by simp
    then show False using deep depth_limit_pos [of "tsize ?t1"] u(2) by auto
  qed
  have h1: "height ?t1 \<le> Suc (height t)" using t1(7) d by linarith
  then have hm: "height ?t1 \<le> MAX_DEPTH" using h by simp
  have z: "tsize ?t1 < 2 ^ 32" using t1(4) small by simp
  obtain b A3 log2 where run: "rebalance A2 (root_off ?t1) (map fr_off F) (map fr_left F) log1 = Some (b, A3, log2)"
    and post: "rebalance_post Lc1 Li1 A2 F u log1 b A3 log2"
    using rebalance_ok [OF T(1,2,3,6,4,7,5) z hm ne] by blast
  from post consider (fail) Lc2 Li2 where "b = None" "log2 = log1" "alloc_failed A3" "arena_ext Lc1 Li1 A2 Lc2 Li2 A3"
    | (ok) j nb js dc di Lc2 Li2 where "j = (case first_unbal F u of None \<Rightarrow> 0 | Some j \<Rightarrow> j)" "length js = j" "j \<le> length F"
        "b = Some (root_off (plug (reidx js (take j F)) nb))" "stored A3 (plug (reidx js (take j F)) nb)"
        "wf_shape (plug (reidx js (take j F)) nb)" "built nb" "wf_shape nb" "elems nb = elems (plug (drop j F) u)"
        "log2 = log1\<lparr>rl_chunks := rl_chunks log1 @ dc, rl_interiors := rl_interiors log1 @ di\<rparr>"
        "arena_ext Lc1 Li1 A2 Lc2 Li2 A3" "swapped Lc1 (cslots ?t1) (cslots (plug (reidx js (take j F)) nb)) dc Lc2"
        "swapped Li1 (islots ?t1) (islots (plug (reidx js (take j F)) nb)) di Li2"
    unfolding rebalance_post_def Let_def by blast
  then have "insert_done Lc Li A t v log (case b of Some r \<Rightarrow> r | None \<Rightarrow> root_off ?t1) A3 log2"
  proof cases
    case fail
    have "tree_at A3 Lc2 Li2 ?t1" by (rule tree_at_ext [OF t1(1) fail(4)])
    moreover have "swapped Lc (cslots t) (cslots ?t1) [i] Lc2" "swapped Li (islots t) (islots ?t1) (map fr_idx fs) Li2"
      using t1(5,6) fail(4) by (auto simp: swapped_def arena_ext_def)
    ultimately show ?thesis
      unfolding insert_done_def using fail t1(3,4) log1 h1 arena_ext_trans [OF t1(2) fail(4)]
      by (intro exI [of _ ?t1] exI [of _ Lc2] exI [of _ Li2] exI [of _ "[i]"] exI [of _ "map fr_idx fs"]) auto
  next
    case ok
    let ?gs = "take j F" and ?t2 = "plug (reidx js (take j F)) nb" and ?w = "plug (drop j F) u"
    have lj: "length js = length ?gs" using ok(2,3) by simp
    have pw: "plug ?gs ?w = ?t1" by (simp flip: plug_simps(3))
    have sib: "map fr_sib (reidx js ?gs) = map fr_sib ?gs" by (rule reidx_props(4) [OF lj])
    have ts: "tsize ?t2 = tsize ?t1" using tsize_plug [OF sib, of nb ?w] ok(9) pw by simp
    have se: "set (elems ?t2) = set (elems ?t1)"
    proof -
      have e: "(\<Union>f\<in>set xs. set (elems (fr_sib f))) = (\<Union>s\<in>set (map fr_sib xs). set (elems s))" for xs by simp
      show ?thesis unfolding pw [symmetric] set_elems_plug e sib ok(9) ..
    qed
    have sc: "swapped Lc (cslots t) (cslots ?t2) ([i] @ dc) Lc2"
      using tr by (intro swapped_trans [OF t1(5) ok(12)]) (simp add: tree_at_def)
    have si: "swapped Li (islots t) (islots ?t2) (map fr_idx fs @ di) Li2"
      using tr by (intro swapped_trans [OF t1(6) ok(13)]) (simp add: tree_at_def)
    have ex: "arena_ext Lc Li A Lc2 Li2 A3" by (rule arena_ext_trans [OF t1(2) ok(11)])
    have tr2: "tree_at A3 Lc2 Li2 ?t2"
      using sc si arena_ext_inv [OF ex] ok(5,6) unfolding tree_at_def by (auto simp: swapped_def)
    have jb: "j + height nb \<le> depth_limit (tsize ?t1)"
    proof (cases "first_unbal F u")
      case None
      have "length F + height u \<le> depth_limit (tsize ?t1)" by (rule balanced_within_limit [OF None u])
      then show ?thesis using deep F(1) by simp
    next
      case (Some k)
      then show ?thesis using scapegoat_within_limit [OF Some T(3) ok(7,8)] ok(1,9) by simp
    qed
    have sibo: "map fr_sib (reidx js ?gs) = map fr_sib (take j fs)"
      using sib F(3) by (simp add: take_map [symmetric])
    have "height ?t2 \<le> max (height (plug (take j fs) (plug (drop j fs) (Lf i c)))) (length ?gs + height nb)"
      using height_plug [OF sibo, of nb "plug (drop j fs) (Lf i c)"] reidx_props(1) [OF lj] by simp
    moreover have "plug (take j fs) (plug (drop j fs) (Lf i c)) = t" using t by (simp flip: plug_simps(3))
    ultimately have h2: "height ?t2 \<le> max (height t) (depth_limit (tsize ?t2))"
      using jb ts ok(3) by (simp add: max_def split: if_splits)
    moreover have "depth_limit (tsize ?t2) \<le> height t" using deep d unfolding ts by simp
    ultimately have h3: "height ?t2 \<le> Suc (height t)" by simp
    show ?thesis
      unfolding insert_done_def using tr2 ex se ts t1(3,4) log1 ok(4,10) sc si h2 h3
      by (intro exI [of _ ?t2] exI [of _ Lc2] exI [of _ Li2] exI [of _ "[i] @ dc"] exI [of _ "map fr_idx fs @ di"]) simp
  qed
  then show ?thesis using True run F(2) by simp
qed

lemma insert_ok:
  assumes tr: "tree_at A Lc Li t" and h: "height t < MAX_DEPTH" and small: "Suc (tsize t) < 2 ^ 32"
  shows "\<exists>r A' log'. insert_with_scratch \<lparr>ct_root = root_off t\<rparr> A v log = Some (r, A', log') \<and>
    insert_post Lc Li A t v log r A' log'"
proof -
  have T: "arena_inv A Lc Li" "stored A t" "wf_shape t" "distinct (cslots t)" "distinct (islots t)"
    "set (cslots t) \<subseteq> Lc" "set (islots t) \<subseteq> Li" using tr by (simp_all add: tree_at_def)
  obtain fs i c where rt: "route v t = (fs, i, c)" by (cases "route v t")
  have t: "t = plug fs (Lf i c)" using route_plug [OF rt] by simp
  note ad = route_admits [OF rt]
  have lf: "length fs \<le> MAX_DEPTH" using route_length [OF rt] h by simp
  have de: "descend A v [] [] (root_off t) = Some (Some (map fr_off fs, map fr_left fs, i, c))"
    using descend_stored [OF T(2) _ rt, of "[]" "[]"] lf by simp
  have sz: "subtree_size A (root_off t) = Some (tsize t)" using subtree_size_stored [OF T(2,3)] small by simp
  have nn: "root_off t \<noteq> NULL_OFF" by (rule root_off_not_NULL [OF T(2)])
  have wl: "wf_chunk c" "ch_elems c \<noteq> []" using T(3) wf_plug_sub [of fs "Lf i c"] t by simp_all
  have mem: "v \<in> set (ch_elems c) \<longleftrightarrow> v \<in> set (elems t)" using route_member [OF rt T(3)] by simp
  obtain r1 A1 where leaf: "insert_leaf A c v = Some (r1, A1)" and lp: "leaf_post Lc Li A c v r1 A1"
    using insert_leaf_ok [OF T(1) wl(1)] by blast
  define fin where "fin = (\<lambda>(new_child, split_levels) A. do {
                let depth = length (map fr_off fs) + split_levels;
                let need = (ilog2 (max (Suc (tsize t)) 2) < depth \<and> depth_limit (Suc (tsize t)) < depth);
                (copied, A) \<leftarrow> copy_path A (map fr_off fs) (map fr_left fs) need (length (map fr_off fs)) new_child [];
                case copied of Inl res \<Rightarrow> Some (res, A, log)
                | Inr (new_root, new_path) \<Rightarrow> do {
                    let log = log\<lparr>rl_chunks := rl_chunks log @ [i],
                                  rl_interiors := rl_interiors log @ map strip_tag (map fr_off fs)\<rparr>;
                    if need then do {
                      (b, A, log) \<leftarrow> rebalance A new_root new_path (map fr_left fs) log;
                      Some (Inserted \<lparr>ct_root = (case b of Some r \<Rightarrow> r | None \<Rightarrow> new_root)\<rparr>, A, log) }
                    else Some (Inserted \<lparr>ct_root = new_root\<rparr>, A, log) } })"
  have unf: "insert_with_scratch \<lparr>ct_root = root_off t\<rparr> A v log =
      (case r1 of Inl res \<Rightarrow> Some (res, A1, log) | Inr x \<Rightarrow> fin x A1)"
    using nn de sz leaf by (simp add: insert_with_scratch_def fin_def split: sum.splits prod.splits)
  show ?thesis
  proof (cases "v \<in> set (elems t)")
    case True
    then have "r1 = Inl Duplicate" "A1 = A" using lp mem by (simp_all add: leaf_post_def)
    then show ?thesis using unf True by (simp add: insert_post_def)
  next
    case False
    then have nv: "v \<notin> set (ch_elems c)" using mem by simp
    from lp consider (full) Lc' Li' where "r1 = Inl ArenaFull" "alloc_failed A1" "arena_ext Lc Li A Lc' Li' A1"
      | (ok) u where "r1 = Inr (root_off u, height u)" "stored A1 u" "wf_shape u" "set (elems u) = insert v (set (ch_elems c))"
          "tsize u = Suc (length (ch_elems c))" "height u = 0 \<or> height u = 1 \<and> tsize u = 16"
          "distinct (cslots u)" "distinct (islots u)" "set (cslots u) \<inter> Lc = {}" "set (islots u) \<inter> Li = {}"
          "arena_ext Lc Li A (Lc \<union> set (cslots u)) (Li \<union> set (islots u)) A1"
      unfolding leaf_post_def if_not_P [OF nv] by blast
    then show ?thesis
    proof cases
      case full
      then show ?thesis using unf False by (auto simp: insert_post_def)
    next
      case ok
      define need where "need \<longleftrightarrow> ilog2 (max (Suc (tsize t)) 2) < length fs + height u \<and> depth_limit (Suc (tsize t)) < length fs + height u"
      have need: "need \<longleftrightarrow> depth_limit (Suc (tsize t)) < length fs + height u"
        unfolding need_def using ilog2_le_limit [of "Suc (tsize t)"] by linarith
      let ?Lc1 = "Lc \<union> set (cslots u)" and ?Li1 = "Li \<union> set (islots u)"
      have st1: "stored A1 (plug fs (Lf i c))"
        using arena_ext_stored [OF ok(11) T(2,6,7)] t by simp
      have "\<exists>r A'. copy_path A1 (map fr_off fs @ []) (map fr_left fs @ []) need (length fs) (root_off u) [] = Some (r, A') \<and>
        ((r = Inl ArenaFull \<and> alloc_failed A' \<and> (\<exists>Li'. arena_ext ?Lc1 ?Li1 A1 ?Lc1 Li' A')) \<or>
         (\<exists>js. length js = length fs \<and> distinct js \<and> set js \<inter> ?Li1 = {} \<and> arena_ext ?Lc1 ?Li1 A1 ?Lc1 (?Li1 \<union> set js) A' \<and>
            stored A' (plug (reidx js fs) u) \<and>
            r = Inr (root_off (plug (reidx js fs) u), (if need then map tag_interior js @ [] else []))))"
        by (rule copy_path_ok [OF arena_ext_inv [OF ok(11)] st1 _ _ ok(2)]) (use T(6,7) t ok(5) in auto)
      then obtain r2 A2 where cp: "copy_path A1 (map fr_off fs) (map fr_left fs) need (length fs) (root_off u) [] = Some (r2, A2)"
        and cases: "(r2 = Inl ArenaFull \<and> alloc_failed A2 \<and> (\<exists>Li'. arena_ext ?Lc1 ?Li1 A1 ?Lc1 Li' A2)) \<or>
         (\<exists>js. length js = length fs \<and> distinct js \<and> set js \<inter> ?Li1 = {} \<and> arena_ext ?Lc1 ?Li1 A1 ?Lc1 (?Li1 \<union> set js) A2 \<and>
            stored A2 (plug (reidx js fs) u) \<and>
            r2 = Inr (root_off (plug (reidx js fs) u), (if need then map tag_interior js else [])))"
        unfolding append_Nil2 by blast
      have fin: "fin (root_off u, height u) A1 = (case r2 of Inl res \<Rightarrow> Some (res, A2, log)
                | Inr (new_root, new_path) \<Rightarrow> do {
                    let log = log\<lparr>rl_chunks := rl_chunks log @ [i],
                                  rl_interiors := rl_interiors log @ map strip_tag (map fr_off fs)\<rparr>;
                    if need then do {
                      (b, A, log) \<leftarrow> rebalance A2 new_root new_path (map fr_left fs) log;
                      Some (Inserted \<lparr>ct_root = (case b of Some r \<Rightarrow> r | None \<Rightarrow> new_root)\<rparr>, A, log) }
                    else Some (Inserted \<lparr>ct_root = new_root\<rparr>, A2, log) })"
        unfolding fin_def prod.case Let_def length_map need_def [symmetric] cp by (simp only: Option.bind.simps prod.case)
      from cases show ?thesis
      proof
        assume a: "r2 = Inl ArenaFull \<and> alloc_failed A2 \<and> (\<exists>Li'. arena_ext ?Lc1 ?Li1 A1 ?Lc1 Li' A2)"
        then obtain Li' where e: "arena_ext ?Lc1 ?Li1 A1 ?Lc1 Li' A2" by blast
        have "insert_post Lc Li A t v log ArenaFull A2 log"
          using a arena_ext_trans [OF ok(11) e] False unfolding insert_post_def by auto
        then show ?thesis using a unfolding unf ok(1) sum.case fin by simp
      next
        assume "\<exists>js. length js = length fs \<and> distinct js \<and> set js \<inter> ?Li1 = {} \<and> arena_ext ?Lc1 ?Li1 A1 ?Lc1 (?Li1 \<union> set js) A2 \<and>
            stored A2 (plug (reidx js fs) u) \<and>
            r2 = Inr (root_off (plug (reidx js fs) u), (if need then map tag_interior js else []))"
        then obtain js where js: "length js = length fs" "distinct js" "set js \<inter> ?Li1 = {}"
          "arena_ext ?Lc1 ?Li1 A1 ?Lc1 (?Li1 \<union> set js) A2" "stored A2 (plug (reidx js fs) u)"
          "r2 = Inr (root_off (plug (reidx js fs) u), (if need then map tag_interior js else []))" by blast
        let ?F = "reidx js fs"
        note rp = reidx_props [OF js(1)]
        have ext: "arena_ext Lc Li A ?Lc1 (?Li1 \<union> set js) A2" by (rule arena_ext_trans [OF ok(11) js(4)])
        note ct = copied_tree [OF tr [unfolded t] ad ok(3,4,5,7-10) js(1-3) ext js(5), folded t]
        have "map fr_off ?F = map tag_interior (map fr_idx ?F)" by simp
        then have np: "map fr_off ?F = map tag_interior js" unfolding rp(2) .
        have strip: "map strip_tag (map fr_off fs) = map fr_idx fs"
        proof -
          have "stored_in ch it (plug xs y) \<Longrightarrow> map strip_tag (map fr_off xs) = map fr_idx xs" for ch it xs y
            by (induction xs) (auto simp: stored_fill slot_simps)
          then show ?thesis using T(2) t by metis
        qed
        let ?log1 = "log\<lparr>rl_chunks := rl_chunks log @ [i], rl_interiors := rl_interiors log @ map fr_idx fs\<rparr>"
        have "\<exists>r A' log'. (if need then do {
            (b, A, log) \<leftarrow> rebalance A2 (root_off (plug ?F u)) (map fr_off ?F) (map fr_left fs) ?log1;
            Some (Inserted \<lparr>ct_root = (case b of Some r \<Rightarrow> r | None \<Rightarrow> root_off (plug ?F u))\<rparr>, A, log) }
          else Some (Inserted \<lparr>ct_root = root_off (plug ?F u)\<rparr>, A2, ?log1)) = Some (Inserted \<lparr>ct_root = r\<rparr>, A', log') \<and>
          insert_done Lc Li A t v log r A' log'"
          by (rule insert_finish [OF tr t h small ct(1) ext ct(2-6) ok(3,6) rp(1,3,4) refl need])
        then obtain r A' log' where fi: "(if need then do {
            (b, A, log) \<leftarrow> rebalance A2 (root_off (plug ?F u)) (map fr_off ?F) (map fr_left fs) ?log1;
            Some (Inserted \<lparr>ct_root = (case b of Some r \<Rightarrow> r | None \<Rightarrow> root_off (plug ?F u))\<rparr>, A, log) }
          else Some (Inserted \<lparr>ct_root = root_off (plug ?F u)\<rparr>, A2, ?log1)) = Some (Inserted \<lparr>ct_root = r\<rparr>, A', log')"
          "insert_done Lc Li A t v log r A' log'" by blast
        have "insert_with_scratch \<lparr>ct_root = root_off t\<rparr> A v log = Some (Inserted \<lparr>ct_root = r\<rparr>, A', log')"
          unfolding unf ok(1) sum.case fin js(6) prod.case Let_def strip fi(1) [symmetric] np
          by (simp only: if_cancel split: if_splits) simp
        moreover have "insert_post Lc Li A t v log (Inserted \<lparr>ct_root = r\<rparr>) A' log'"
          using fi(2) False by (simp add: insert_post_def)
        ultimately show ?thesis by blast
      qed
    qed
  qed
qed

text \<open>The first insert into an empty tree.\<close>

lemma insert_empty_ok:
  assumes inv: "arena_inv A Lc Li"
  obtains A' where "insert_with_scratch ctree_empty A v log = Some (ArenaFull, A', log)" "arena_ext Lc Li A Lc Li A'" "alloc_failed A'"
  | i c A' where "insert_with_scratch ctree_empty A v log = Some (Inserted \<lparr>ct_root = i\<rparr>, A', log)" "i \<notin> Lc"
      "arena_ext Lc Li A (insert i Lc) Li A'" "tree_at A' (insert i Lc) Li (Lf i c)" "ch_elems c = [v]"
proof -
  obtain c where c: "chunk_from_sorted_unchecked [v] = Some c" "wf_chunk c" "ch_elems c = [v]"
    using from_sorted_unchecked_wf [of "[v]"] by (auto simp: CHUNK_CAP_def)
  then have fs: "chunk_from_sorted [v] = Some c" by (simp add: chunk_from_sorted_def CHUNK_CAP_def)
  from alloc_chunk_ext [OF inv, of c] show thesis
  proof cases
    case (1 A')
    then show thesis using fs by (intro that(1)) (auto simp: insert_with_scratch_def ctree_empty_def)
  next
    case (2 i A')
    then have "tree_at A' (insert i Lc) Li (Lf i c)" using c arena_ext_inv [OF 2(3)] by (simp add: tree_at_def)
    then show thesis using fs 2 c by (intro that(2)) (auto simp: insert_with_scratch_def ctree_empty_def)
  qed
qed

end
