(* ===== verification/CTree_Properties.thy ===== *)
theory CTree_Properties
  imports CTree_Correct
begin

section \<open>What the C-tree promises\<close>

text \<open>
  The properties of the tree operations, each over the code's functions and a tree in an arena
  (\<open>tree_at\<close>), and the facts on the bulk build. \<open>one_leaf\<close> is the concrete arena of the witnesses.
\<close>

subsection \<open>Reading a tree\<close>

lemma tree_at_count:
  "tree_at A Lc Li t \<Longrightarrow> tsize t < 2 ^ 32 \<Longrightarrow> ctree_count \<lparr>ct_root = root_off t\<rparr> A = Some (tsize t)"
  using root_off_not_NULL [of "arena_chunk A" "arena_interior A" t] subtree_size_stored [of A t]
  by (simp add: ctree_count_def tree_at_def)

lemma tree_at_collect:
  assumes "tree_at A Lc Li t" and "tsize t < 2 ^ 32" and "height t \<le> MAX_DEPTH"
  shows "collect_into \<lparr>ct_root = root_off t\<rparr> A buf = Some (buf @ elems t)"
proof -
  have T: "stored A t" "wf_shape t" using assms(1) by (simp_all add: tree_at_def)
  then show ?thesis
    using tree_at_count [OF assms(1,2)] visit_chunks_stored [OF T(1) assms(3)] root_off_not_NULL [OF T(1)]
      extend_slices_chunks [OF T(2)]
    by (simp add: collect_into_def for_each_chunk_def)
qed

lemma tree_at_contains:
  "tree_at A Lc Li t \<Longrightarrow> ctree_contains \<lparr>ct_root = root_off t\<rparr> A v = Some (v \<in> set (elems t))"
  using root_off_not_NULL [of "arena_chunk A" "arena_interior A" t] contains_loop_stored [of A t]
  by (simp add: ctree_contains_def tree_at_def)

definition one_leaf :: "chunk \<Rightarrow> arena" where
  "one_leaf c = \<lparr>ar_capacity = 4096, ar_low = 64, ar_high = 4096, ar_gate = gate_new, ar_pins = pins_new,
     ar_rec = recycler_new, ar_chunks = [0 \<mapsto> Node c], ar_interiors = Map.empty\<rparr>"

lemma one_leaf_inv: "arena_inv (one_leaf c) {0} {}"
  unfolding arena_inv_def
proof (intro conjI)
  show "\<exists>fs. class_inv (ar_chunks (one_leaf c)) (rc_chunk_head (ar_rec (one_leaf c))) fs
      (rc_free_chunks (ar_rec (one_leaf c))) (pend_chunks (ar_rec (one_leaf c))) {0} (chunk_bound (one_leaf c))"
    by (rule exI [of _ "[]"]) (simp add: class_inv_def one_leaf_def recycler_new_def pend_chunks_def
        chunk_bound_def CHUNK_SLOT_def)
  show "\<exists>fs. class_inv (ar_interiors (one_leaf c)) (rc_interior_head (ar_rec (one_leaf c))) fs
      (rc_free_interiors (ar_rec (one_leaf c))) (pend_interiors (ar_rec (one_leaf c))) {} (interior_bound (one_leaf c))"
    by (rule exI [of _ "[]"]) (simp add: class_inv_def one_leaf_def recycler_new_def pend_interiors_def
        interior_bound_def)
qed (simp_all add: one_leaf_def cursors_ok_def spare_ok_def recycler_new_def batch_empty_def
    CHUNK_SLOT_def INTERIOR_SLOT_def MAX_CAPACITY_def)

lemma one_leaf_tree: "wf_chunk c \<Longrightarrow> ch_elems c \<noteq> [] \<Longrightarrow> tree_at (one_leaf c) {0} {} (Lf 0 c)"
  using one_leaf_inv by (simp add: tree_at_def arena_chunk_def one_leaf_def)

lemma leaf_example: "\<exists>c. wf_chunk c \<and> ch_elems c = [3, 5] \<and> tree_at (one_leaf c) {0} {} (Lf 0 c)"
  using from_sorted_unchecked_wf [of "[3, 5]"] one_leaf_tree by (fastforce simp: CHUNK_CAP_def)

subsection \<open>Properties of the insert\<close>

text \<open>C11 Inserting into a C-tree of height below 64 never panics and refines set insertion: a duplicate
  changes nothing, a full arena leaves the log empty-handed, and a success answers the root of a
  well-formed tree whose elements are the old ones and the new value.\<close>

theorem ctree_insert_refines_set:
  assumes "tree_at A Lc Li t" and "height t < MAX_DEPTH" and "Suc (tsize t) < 2 ^ 32"
  shows "case insert_with_scratch \<lparr>ct_root = root_off t\<rparr> A v log of
      None \<Rightarrow> False
    | Some (Duplicate, A', log') \<Rightarrow> v \<in> set (elems t) \<and> A' = A \<and> log' = log
    | Some (ArenaFull, A', log') \<Rightarrow> v \<notin> set (elems t) \<and> log' = log \<and> alloc_failed A'
    | Some (Inserted r, A', log') \<Rightarrow> v \<notin> set (elems t) \<and> (\<exists>Lc' Li' t'. ct_root r = root_off t' \<and>
        tree_at A' Lc' Li' t' \<and> set (elems t') = insert v (set (elems t)) \<and>
        (\<forall>x. ctree_contains r A' x = Some (x = v \<or> x \<in> set (elems t))))"
proof -
  obtain r A' log' where run: "insert_with_scratch \<lparr>ct_root = root_off t\<rparr> A v log = Some (r, A', log')"
    and post: "insert_post Lc Li A t v log r A' log'" using insert_ok [OF assms] by blast
  show ?thesis
  proof (cases r)
    case (Inserted x)
    then obtain t' Lc' Li' where t': "ct_root x = root_off t'" "tree_at A' Lc' Li' t'" "set (elems t') = insert v (set (elems t))"
      and nv: "v \<notin> set (elems t)"
      using post by (auto simp: insert_post_def insert_done_def)
    have "x = \<lparr>ct_root = root_off t'\<rparr>" using t'(1) by (cases x) simp
    then have "\<forall>y. ctree_contains x A' y = Some (y = v \<or> y \<in> set (elems t))"
      using tree_at_contains [OF t'(2)] t'(3) by simp
    then show ?thesis using run Inserted nv t' by auto
  qed (use run post in \<open>auto simp: insert_post_def\<close>)
qed

theorem ctree_insert_refines_set_witness:
  "\<exists>c. ch_elems c = [3, 5] \<and> insert_with_scratch \<lparr>ct_root = 0\<rparr> (one_leaf c) 9 retire_log_new \<noteq> None"
proof -
  obtain c where c: "wf_chunk c" "ch_elems c = [3, 5]" "tree_at (one_leaf c) {0} {} (Lf 0 c)"
    using leaf_example by blast
  show ?thesis
    using ctree_insert_refines_set [OF c(3), of 9 retire_log_new] c(2)
    by (intro exI [of _ c]) (auto simp: MAX_DEPTH_def split: option.splits)
qed

text \<open>C36 Whatever an insert answers, every tree that was in the arena (the old root, and every other
  published or pinned tree) is still there unchanged, so a reader of the old root collects the
  same neighbours.\<close>

theorem ctree_insert_persistent:
  assumes "tree_at A Lc Li t" and "height t < MAX_DEPTH" and "Suc (tsize t) < 2 ^ 32"
    and "insert_with_scratch \<lparr>ct_root = root_off t\<rparr> A v log = Some (r, A', log')"
  shows "\<exists>Lc' Li'. Lc \<subseteq> Lc' \<and> Li \<subseteq> Li' \<and> (\<forall>s. tree_at A Lc Li s \<longrightarrow> tree_at A' Lc' Li' s) \<and>
    collect_into \<lparr>ct_root = root_off t\<rparr> A' [] = Some (elems t)"
proof -
  have post: "insert_post Lc Li A t v log r A' log'" using insert_ok [OF assms(1-3), of v log] assms(4) by auto
  have "\<exists>Lc' Li'. arena_ext Lc Li A Lc' Li' A'"
  proof (cases r)
    case Duplicate
    then have "A' = A" using post by (simp add: insert_post_def)
    moreover have "arena_inv A Lc Li" using assms(1) by (simp add: tree_at_def)
    ultimately show ?thesis using arena_ext_refl by blast
  next
    case (Inserted x)
    then have "insert_done Lc Li A t v log (ct_root x) A' log'" using post by (simp add: insert_post_def)
    then show ?thesis unfolding insert_done_def by blast
  next
    case ArenaFull
    then show ?thesis using post unfolding insert_post_def by simp
  qed
  then obtain Lc' Li' where ext: "arena_ext Lc Li A Lc' Li' A'" by blast
  have all: "tree_at A' Lc' Li' s" if "tree_at A Lc Li s" for s using tree_at_ext [OF that ext] .
  have "collect_into \<lparr>ct_root = root_off t\<rparr> A' [] = Some (elems t)"
    using tree_at_collect [OF all [OF assms(1)], of "[]"] assms(2,3) by simp
  with all ext show ?thesis unfolding arena_ext_def by blast
qed

theorem ctree_insert_persistent_witness:
  "\<exists>c r A' log'. ch_elems c = [3, 5] \<and>
     insert_with_scratch \<lparr>ct_root = 0\<rparr> (one_leaf c) 9 retire_log_new = Some (r, A', log') \<and>
     collect_into \<lparr>ct_root = 0\<rparr> A' [] = Some [3, 5]"
proof -
  obtain c where c: "wf_chunk c" "ch_elems c = [3, 5]" "tree_at (one_leaf c) {0} {} (Lf 0 c)"
    using leaf_example by blast
  have h: "height (Lf 0 c) < MAX_DEPTH" "Suc (tsize (Lf 0 c)) < 2 ^ 32" using c(2) by (simp_all add: MAX_DEPTH_def)
  obtain r A' log' where run: "insert_with_scratch \<lparr>ct_root = root_off (Lf 0 c)\<rparr> (one_leaf c) 9 retire_log_new = Some (r, A', log')"
    using insert_ok [OF c(3) h, of 9 retire_log_new] by blast
  from ctree_insert_persistent [OF c(3) h run] run c(2) show ?thesis by auto
qed

text \<open>A successful insert logs exactly what it supersedes: the log grows by distinct slots, none of
  them in the new tree; every slot of the old tree is in the new tree or in the log; and what is
  new in either was in no use before. Nothing of a live tree is ever logged and nothing is lost.\<close>

theorem ctree_insert_logs_superseded:
  assumes "tree_at A Lc Li t" and "height t < MAX_DEPTH" and "Suc (tsize t) < 2 ^ 32"
    and "insert_with_scratch \<lparr>ct_root = root_off t\<rparr> A v log = Some (Inserted r, A', log')"
  shows "\<exists>t' dc di. ct_root r = root_off t' \<and> stored A' t' \<and>
    rl_chunks log' = rl_chunks log @ dc \<and> rl_interiors log' = rl_interiors log @ di \<and>
    distinct (cslots t' @ dc) \<and> distinct (islots t' @ di) \<and>
    set (cslots t) \<subseteq> set (cslots t' @ dc) \<and> set (islots t) \<subseteq> set (islots t' @ di) \<and>
    (set (cslots t' @ dc) - set (cslots t)) \<inter> Lc = {} \<and> (set (islots t' @ di) - set (islots t)) \<inter> Li = {}"
proof -
  have "insert_post Lc Li A t v log (Inserted r) A' log'" using insert_ok [OF assms(1-3), of v log] assms(4) by auto
  then have "insert_done Lc Li A t v log (ct_root r) A' log'" by (simp add: insert_post_def)
  then obtain t' Lc' Li' dc di where d: "ct_root r = root_off t'" "tree_at A' Lc' Li' t'"
    "log' = log\<lparr>rl_chunks := rl_chunks log @ dc, rl_interiors := rl_interiors log @ di\<rparr>"
    "swapped Lc (cslots t) (cslots t') dc Lc'" "swapped Li (islots t) (islots t') di Li'"
    unfolding insert_done_def by blast
  have "set (cslots t' @ dc) - set (cslots t) \<subseteq> Lc' - Lc" "set (islots t' @ di) - set (islots t) \<subseteq> Li' - Li"
    using d(4,5) unfolding swapped_def by blast+
  with d show ?thesis
    by (intro exI [of _ t'] exI [of _ dc] exI [of _ di]) (simp add: swapped_def tree_at_def, blast)
qed

theorem ctree_insert_logs_superseded_witness:
  "\<exists>c r A' log' t'. insert_with_scratch \<lparr>ct_root = 0\<rparr> (one_leaf c) 9 retire_log_new = Some (Inserted r, A', log') \<and>
     ct_root r = root_off t' \<and> stored A' t' \<and> 0 \<in> set (cslots t' @ rl_chunks log')"
proof -
  obtain c where c: "wf_chunk c" "ch_elems c = [3, 5]" "tree_at (one_leaf c) {0} {} (Lf 0 c)"
    using leaf_example by blast
  have h: "height (Lf 0 c) < MAX_DEPTH" "Suc (tsize (Lf 0 c)) < 2 ^ 32" using c(2) by (simp_all add: MAX_DEPTH_def)
  have nf: "\<not> chunk_is_full c" and n9: "9 \<notin> set (ch_elems c)"
    using c(1,2) by (simp_all add: chunk_is_full_iff CHUNK_CAP_def)
  obtain c' where c': "chunk_insert c 9 = Some (Some c')" using chunk_insert_new [OF c(1) n9 nf] by blast
  have al: "alloc_write_chunk (one_leaf c) c' = Some (Some 1, (one_leaf c)\<lparr>ar_low := 128, ar_chunks := [0 \<mapsto> Node c, 1 \<mapsto> Node c']\<rparr>)"
    by (simp add: alloc_write_chunk_def alloc_chunk_def pop_free_chunk_def bump_chunk_def one_leaf_def recycler_new_def
        CHUNK_SLOT_def Let_def)
  have na: "node_at (one_leaf c) 0 = Some (LeafRef c)"
    using node_at_Lf [of "one_leaf c" 0 c] c(3) by (simp add: tree_at_def)
  have "insert_with_scratch \<lparr>ct_root = root_off (Lf 0 c)\<rparr> (one_leaf c) 9 retire_log_new = Some (Inserted \<lparr>ct_root = 1\<rparr>,
      (one_leaf c)\<lparr>ar_low := 128, ar_chunks := [0 \<mapsto> Node c, 1 \<mapsto> Node c']\<rparr>, retire_log_new\<lparr>rl_chunks := [0]\<rparr>)"
    using na nf c' al
    by (simp add: insert_with_scratch_def NULL_OFF_def descend.simps subtree_size_def insert_leaf_def retire_log_new_def)
  note run = this
  obtain t' dc where "root_off t' = 1" "rl_chunks (retire_log_new\<lparr>rl_chunks := [0]\<rparr>) = rl_chunks retire_log_new @ dc"
    "stored ((one_leaf c)\<lparr>ar_low := 128, ar_chunks := [0 \<mapsto> Node c, 1 \<mapsto> Node c']\<rparr>) t'"
    "0 \<in> set (cslots t' @ dc)"
    using ctree_insert_logs_superseded [OF c(3) h run] by auto
  then show ?thesis using run
    by (intro exI [of _ c] exI [of _ "\<lparr>ct_root = 1\<rparr>"] exI conjI) (auto simp: retire_log_new_def)
qed



subsection \<open>Properties of the bulk build\<close>

lemma from_sorted_ok:
  assumes "arena_inv A Lc Li" and "vals \<noteq> []" and "ssorted vals" and "length vals < 2 ^ 32"
  shows "\<exists>r A'. ctree_from_sorted A vals = Some (r, A') \<and>
    ((r = None \<and> alloc_failed A' \<and> (\<exists>Lc' Li'. arena_ext Lc Li A Lc' Li' A')) \<or>
     (\<exists>t. r = Some \<lparr>ct_root = root_off t\<rparr> \<and> elems t = vals \<and> built t \<and> set (cslots t) \<inter> Lc = {} \<and> set (islots t) \<inter> Li = {} \<and>
        tree_at A' (Lc \<union> set (cslots t)) (Li \<union> set (islots t)) t \<and>
        arena_ext Lc Li A (Lc \<union> set (cslots t)) (Li \<union> set (islots t)) A'))"
proof -
  obtain r A' where r: "build_balanced alloc_write_chunk alloc_write_interior A vals = Some (r, A')"
    and c: "(r = None \<and> alloc_failed A' \<and> (\<exists>Lc' Li'. arena_ext Lc Li A Lc' Li' A')) \<or>
     (\<exists>t. r = Some (root_off t) \<and> stored A' t \<and> wf_shape t \<and> built t \<and> elems t = vals \<and>
        distinct (cslots t) \<and> distinct (islots t) \<and> set (cslots t) \<inter> Lc = {} \<and> set (islots t) \<inter> Li = {} \<and>
        arena_ext Lc Li A (Lc \<union> set (cslots t)) (Li \<union> set (islots t)) A')"
    using writer_build_ok [OF assms] by blast
  from c show ?thesis
  proof
    assume "r = None \<and> alloc_failed A' \<and> (\<exists>Lc' Li'. arena_ext Lc Li A Lc' Li' A')"
    then show ?thesis using r assms(2) by (simp add: ctree_from_sorted_def)
  next
    assume "\<exists>t. r = Some (root_off t) \<and> stored A' t \<and> wf_shape t \<and> built t \<and> elems t = vals \<and>
        distinct (cslots t) \<and> distinct (islots t) \<and> set (cslots t) \<inter> Lc = {} \<and> set (islots t) \<inter> Li = {} \<and>
        arena_ext Lc Li A (Lc \<union> set (cslots t)) (Li \<union> set (islots t)) A'"
    then obtain t where t: "r = Some (root_off t)" "stored A' t" "wf_shape t" "built t" "elems t = vals"
      "distinct (cslots t)" "distinct (islots t)" "set (cslots t) \<inter> Lc = {}" "set (islots t) \<inter> Li = {}"
      "arena_ext Lc Li A (Lc \<union> set (cslots t)) (Li \<union> set (islots t)) A'" by blast
    have "tree_at A' (Lc \<union> set (cslots t)) (Li \<union> set (islots t)) t"
      using t arena_ext_inv [OF t(10)] by (simp add: tree_at_def)
    then show ?thesis using r assms(2) t by (simp add: ctree_from_sorted_def) blast
  qed
qed

text \<open>C37 A bulk build over a sorted slice either fails for lack of space or answers a tree holding
  exactly the slice, within the scapegoat bound, in slots that were in no use; either way every
  tree of the arena stays as it was.\<close>

theorem ctree_from_sorted_correct:
  assumes "arena_inv A Lc Li" and "vals \<noteq> []" and "ssorted vals" and "length vals < 2 ^ 32"
  shows "case ctree_from_sorted A vals of
      None \<Rightarrow> False
    | Some (None, A') \<Rightarrow> alloc_failed A' \<and> (\<forall>s. tree_at A Lc Li s \<longrightarrow> stored A' s)
    | Some (Some r, A') \<Rightarrow> (\<exists>t Lc' Li'. ct_root r = root_off t \<and> tree_at A' Lc' Li' t \<and> elems t = vals \<and>
        height t \<le> depth_limit (length vals) \<and> collect_into r A' [] = Some vals) \<and> (\<forall>s. tree_at A Lc Li s \<longrightarrow> stored A' s)"
proof -
  obtain r A' where run: "ctree_from_sorted A vals = Some (r, A')"
    and c: "(r = None \<and> alloc_failed A' \<and> (\<exists>Lc' Li'. arena_ext Lc Li A Lc' Li' A')) \<or>
     (\<exists>t. r = Some \<lparr>ct_root = root_off t\<rparr> \<and> elems t = vals \<and> built t \<and> set (cslots t) \<inter> Lc = {} \<and> set (islots t) \<inter> Li = {} \<and>
        tree_at A' (Lc \<union> set (cslots t)) (Li \<union> set (islots t)) t \<and>
        arena_ext Lc Li A (Lc \<union> set (cslots t)) (Li \<union> set (islots t)) A')"
    using from_sorted_ok [OF assms] by blast
  have keep: "\<forall>s. tree_at A Lc Li s \<longrightarrow> stored A' s" if "arena_ext Lc Li A Lc' Li' A'" for Lc' Li'
    using tree_at_ext [OF _ that] by (simp add: tree_at_def)
  from c show ?thesis
  proof
    assume "r = None \<and> alloc_failed A' \<and> (\<exists>Lc' Li'. arena_ext Lc Li A Lc' Li' A')"
    then show ?thesis using run keep by auto
  next
    assume "\<exists>t. r = Some \<lparr>ct_root = root_off t\<rparr> \<and> elems t = vals \<and> built t \<and> set (cslots t) \<inter> Lc = {} \<and> set (islots t) \<inter> Li = {} \<and>
        tree_at A' (Lc \<union> set (cslots t)) (Li \<union> set (islots t)) t \<and>
        arena_ext Lc Li A (Lc \<union> set (cslots t)) (Li \<union> set (islots t)) A'"
    then obtain t where t: "r = Some \<lparr>ct_root = root_off t\<rparr>" "elems t = vals" "built t"
      "tree_at A' (Lc \<union> set (cslots t)) (Li \<union> set (islots t)) t"
      "arena_ext Lc Li A (Lc \<union> set (cslots t)) (Li \<union> set (islots t)) A'" by blast
    have h: "height t \<le> depth_limit (length vals)"
      using built_height_limit [OF t(3)] t(2,4) by (auto simp: tree_at_def)
    then have "height t \<le> MAX_DEPTH" using depth_limit_small [OF assms(4)] by (simp add: MAX_DEPTH_def)
    then have "collect_into \<lparr>ct_root = root_off t\<rparr> A' [] = Some vals"
      using tree_at_collect [OF t(4), of "[]"] t(2) assms(4) by simp
    then show ?thesis using run t h keep [OF t(5)] by auto
  qed
qed

theorem ctree_from_sorted_correct_witness:
  "\<exists>A r A'. arena_new 4096 = Some A \<and> ctree_from_sorted A [2, 4, 6] = Some (r, A')"
proof -
  obtain A where A: "arena_new 4096 = Some A" "arena_inv A {} {}" using arena_new_example by blast
  from ctree_from_sorted_correct [OF A(2), of "[2, 4, 6]"] A(1) show ?thesis
    by (auto split: option.splits)
qed

text \<open>A build into a region reserved from \<open>compact_slot_cost\<close> fills it exactly: it never fails and
  never panics, uses every reserved slot and no other, and the slots the arena had in use keep
  their contents.\<close>

theorem region_build_exact_cost:
  assumes "vals \<noteq> []" and "ssorted vals" and "length vals < 2 ^ 32"
    and "compact_slot_cost (length vals) = (cc, ic)"
    and "unat cs + cc < 2 ^ 31 - 1" and "unat ci + ic < 2 ^ 31 - 1"
    and "\<forall>j\<in>Lc. unat j < unat cs" and "\<forall>j\<in>Li. unat j < unat ci"
  shows "\<exists>off w A'. build_balanced_region (arena_region cs (of_nat cc) ci (of_nat ic), A) vals = Some (off, w, A') \<and>
    (\<exists>t. off = root_off t \<and> stored A' t \<and> elems t = vals \<and> wf_shape t \<and>
       unat (rw_next_chunk w) = unat cs + cc \<and> unat (rw_next_interior w) = unat ci + ic \<and>
       length (cslots t) = cc \<and> length (islots t) = ic) \<and>
    (\<forall>j\<in>Lc. arena_chunk A' j = arena_chunk A j) \<and> (\<forall>j\<in>Li. arena_interior A' j = arena_interior A j)"
proof -
  let ?s = "(arena_region cs (of_nat cc) ci (of_nat ic), A)"
  have cost: "cc = leaves_of (length vals)" "ic = leaves_of (length vals) - 1"
    using assms(1,4) by (auto simp: compact_slot_cost_def leaves_of_def Let_def)
  have e: "unat (cs + of_nat cc) = unat cs + cc" "unat (ci + of_nat ic) = unat ci + ic"
    using assms(5,6) by (simp_all add: unat_word_ariths unat_of_nat take_bit_nat_eq_self)
  have not_in: "unat cs \<le> unat j \<longrightarrow> j \<notin> Lc" "unat ci \<le> unat j \<longrightarrow> j \<notin> Li" for j
    using assms(7,8) by (auto simp flip: not_less)
  have inv: "region_inv (cs + of_nat cc) (ci + of_nat ic) ?s Lc Li"
    using assms(5,6) e not_in by (simp add: region_inv_def arena_region_def word_le_nat_alt)
  have bud: "region_budget ?s (leaves_of (length vals) + 0) (leaves_of (length vals) - 1 + 0)"
    using e by (simp add: region_budget_def arena_region_def cost)
  obtain r s' where r: "build_balanced region_put_chunk region_put_interior ?s vals = Some (r, s')"
    "region_sink.build_post (cs + of_nat cc) (ci + of_nat ic) ?s Lc Li vals r s'" "r \<noteq> None \<longrightarrow> region_budget s' 0 0"
    using region_sink.build_balanced_ok [OF inv assms(1-3) bud] by blast
  have "r \<noteq> None" using region_sink.build_balanced_some [OF inv assms(1-3) bud, of s'] r(1) by auto
  then obtain off where off: "r = Some off" by blast
  obtain w A' where s': "s' = (w, A')" by (cases s')
  obtain t where t: "off = root_off t" "stored A' t" "wf_shape t" "built t" "elems t = vals"
    "region_inv (cs + of_nat cc) (ci + of_nat ic) s' (Lc \<union> set (cslots t)) (Li \<union> set (islots t))"
    "keeps Lc (arena_chunk A) (arena_chunk A')" "keeps Li (arena_interior A) (arena_interior A')"
    using r(2) off s' unfolding region_sink.build_post_def by auto
  have lc: "length (cslots t) = cc" using built_slots [OF t(4,3)] t(5) cost by (simp add: leaves_of_def)
  then have li: "length (islots t) = ic" using length_cslots [of t] cost by simp
  have "rw_chunk_end w = cs + of_nat cc" "rw_interior_end w = ci + of_nat ic"
    using t(6) by (simp_all add: s' region_inv_def arena_region_def)
  then have nx: "unat (rw_next_chunk w) = unat cs + cc" "unat (rw_next_interior w) = unat ci + ic"
    using r(3) off e by (simp_all add: s' region_budget_def)
  have "build_balanced_region ?s vals = Some (off, w, A')"
    using r(1) off s' by (simp add: build_balanced_region_def)
  then show ?thesis using t nx lc li by (auto simp: keeps_def)
qed

theorem region_build_exact_cost_witness:
  "\<exists>off w A'. build_balanced_region (arena_region 4 1 0 0, one_leaf chunk_empty) [7, 8] = Some (off, w, A') \<and>
     unat (rw_next_chunk w) = 5 \<and> arena_chunk A' 0 = Some chunk_empty"
  using region_build_exact_cost [of "[7, 8]" 1 0 4 0 "{0}" "{}" "one_leaf chunk_empty"]
  by (auto simp: compact_slot_cost_def CHUNK_CAP_def arena_chunk_def one_leaf_def)

text \<open>The build is not weight-balanced everywhere: over 16 to 22 values it puts 15 under the left child
  and the rest under the right one, which the 2/3 weight check of the insert path calls
  unbalanced.\<close>

theorem build_two_leaves_unbalanced:
  assumes "arena_inv A Lc Li" and "ssorted vals" and "16 \<le> length vals" and "length vals \<le> 22"
  shows "case ctree_from_sorted A vals of
      None \<Rightarrow> False
    | Some (None, A') \<Rightarrow> alloc_failed A'
    | Some (Some r, A') \<Rightarrow> \<exists>nd. interior_at A' (ct_root r) = Some nd \<and> alpha_unbalanced A' nd = Some True"
proof -
  have ne: "vals \<noteq> []" and sm: "length vals < 2 ^ 32" using assms(3,4) by auto
  have unb: "\<exists>nd. interior_at A' (root_off t) = Some nd \<and> alpha_unbalanced A' nd = Some True"
    if t: "elems t = vals" "built t" "tree_at A' Lc' Li' t" for t A' Lc' Li'
  proof -
    have T: "stored A' t" "wf_shape t" using t(3) by (simp_all add: tree_at_def)
    show ?thesis
    proof (cases t)
      case (Lf i c)
      then have "length vals \<le> CHUNK_CAP" using T(2) t(1) length_ch_elems_le [of c] by simp
      then show ?thesis using assms(3) by (simp add: CHUNK_CAP_def)
    next
      case (Nd i l k rt)
      have n: "tsize l + tsize rt = length vals" using t(1) Nd by auto
      have "(length vals + 14) div 15 = 2" using assms(3,4) by arith
      then have "tsize l = 15" using t(2) unfolding Nd by (simp add: CHUNK_CAP_def n add.commute)
      then have "unbal (fill (FL i k rt) l)" using n assms(4) by simp
      then show ?thesis
        using alpha_unbalanced_stored [of A' "FL i k rt" l] T Nd sm n by simp
    qed
  qed
  then show ?thesis using from_sorted_ok [OF assms(1) ne assms(2) sm] by fastforce
qed

theorem build_two_leaves_unbalanced_witness:
  "\<exists>A. arena_new 4096 = Some A \<and>
     (case ctree_from_sorted A [0, 1, 2, 3, 4, 5, 6, 7, 8, 9, 10, 11, 12, 13, 14, 15] of
        None \<Rightarrow> False
      | Some (None, A') \<Rightarrow> alloc_failed A'
      | Some (Some r, A') \<Rightarrow> \<exists>nd. interior_at A' (ct_root r) = Some nd \<and> alpha_unbalanced A' nd = Some True)"
proof -
  obtain A where A: "arena_new 4096 = Some A" "arena_inv A {} {}" using arena_new_example by blast
  have "ssorted [0::u32, 1, 2, 3, 4, 5, 6, 7, 8, 9, 10, 11, 12, 13, 14, 15]" by simp
  from build_two_leaves_unbalanced [OF A(2) this] A(1) show ?thesis by simp
qed

end
