(* ===== verification/Dirty.thy ===== *)
theory Dirty
  imports AG_Prelude
begin

section \<open>The dirty-vertex bitmap\<close>

text \<open>
  Models \<^verbatim>\<open>crates/aether-graph/src/dirty.rs\<close>: one bit per vertex in 64-bit words. Each word's
  \<^verbatim>\<open>fetch_or\<close> and \<^verbatim>\<open>swap\<close> is one step here. The bitmap is shown to be the set of marked
  in-range vertices, drained in ascending order.
\<close>

record dirty_bitmap =
  db_words :: "u64 list"
  db_num_vertices :: nat

definition dirty_new :: "nat \<Rightarrow> dirty_bitmap" where
  "dirty_new n = \<lparr>db_words = replicate (max ((n + 63) div 64) 1) 0, db_num_vertices = n\<rparr>"

text \<open>The inner loop: the mask of the leading vertices that share \<open>word\<close>, and the rest.\<close>

fun mark_run :: "nat \<Rightarrow> nat \<Rightarrow> u64 \<Rightarrow> u32 list \<Rightarrow> u64 \<times> u32 list" where
  "mark_run n word msk [] = (msk, [])"
| "mark_run n word msk (x # xs) =
     (let v = unat x in
      if \<not> v < n \<or> v div 64 \<noteq> word then (msk, x # xs)
      else mark_run n word (or msk (push_bit (v mod 64) 1)) xs)"

lemma mark_run_length: "length (snd (mark_run n word msk xs)) \<le> length xs"
  by (induction n word msk xs rule: mark_run.induct) (auto simp: Let_def)

function mark_sorted :: "dirty_bitmap \<Rightarrow> u32 list \<Rightarrow> dirty_bitmap option" where
  "mark_sorted b [] = Some b"
| "mark_sorted b (x # xs) =
     (let v = unat x in
      if db_num_vertices b \<le> v then Some b
      else
        let word = v div 64;
            (msk, rest) = mark_run (db_num_vertices b) word 0 (x # xs)
        in do {
          w \<leftarrow> nth_opt (db_words b) word;
          mark_sorted (b\<lparr>db_words := (db_words b)[word := or w msk]\<rparr>) rest })"
  by pat_completeness auto

termination mark_sorted
proof (relation "measure (\<lambda>(b, xs). length xs)", simp, goal_cases)
  case (1 b x xs v word p msk rest w)
  have "snd (mark_run (db_num_vertices b) word 0 (x # xs)) = rest" using 1(4,5) by (metis snd_conv)
  then have "rest = snd (mark_run (db_num_vertices b) word (or 0 (push_bit (v mod 64) 1)) xs)"
    using 1(1-3) by (auto simp: Let_def)
  then show ?case using mark_run_length [of "db_num_vertices b" word "or 0 (push_bit (v mod 64) 1)" xs] by simp
qed

definition is_dirty :: "dirty_bitmap \<Rightarrow> u32 \<Rightarrow> bool option" where
  "is_dirty b vertex =
     (let v = unat vertex in
      if db_num_vertices b \<le> v then Some False
      else do { w \<leftarrow> nth_opt (db_words b) (v div 64); Some (and w (push_bit (v mod 64) 1) \<noteq> 0) })"

definition clear_all :: "dirty_bitmap \<Rightarrow> dirty_bitmap" where
  "clear_all b = b\<lparr>db_words := map (\<lambda>_. 0) (db_words b)\<rparr>"

text \<open>\<^verbatim>\<open>trailing_zeros\<close> and \<^verbatim>\<open>count_ones\<close> of a word.\<close>

definition ctz :: "u64 \<Rightarrow> nat" where
  "ctz w = length (takeWhile (\<lambda>i. \<not> bit w i) [0..<64])"

definition count_ones :: "u64 \<Rightarrow> nat" where
  "count_ones w = length (filter (bit w) [0..<64])"

lemma and_minus_one_less: "(w :: u64) \<noteq> 0 \<Longrightarrow> unat (and w (w - 1)) < unat w"
proof -
  assume w: "w \<noteq> 0"
  have "and w (w - 1) \<le> w - 1" by (rule word_and_le1)
  moreover have "w - 1 < w" using w by (simp add: word_less_nat_alt unat_minus_one unat_gt_0)
  ultimately show ?thesis by (meson order_le_less_trans unat_mono)
qed

function drain_word :: "nat \<Rightarrow> nat \<Rightarrow> u64 \<Rightarrow> u32 list \<Rightarrow> u32 list" where
  "drain_word n base remaining result =
     (if remaining = 0 then result
      else
        let id = base + ctz remaining;
            result = (if id < n then result @ [of_nat id] else result)
        in drain_word n base (and remaining (remaining - 1)) result)"
  by pat_completeness auto

termination drain_word
  by (relation "measure (\<lambda>(_, _, r, _). unat r)") (simp_all add: and_minus_one_less)

declare drain_word.simps [simp del]

fun drain_words :: "nat \<Rightarrow> nat \<Rightarrow> u64 list \<Rightarrow> u32 list \<Rightarrow> u32 list" where
  "drain_words n i [] result = result"
| "drain_words n i (w # ws) result = drain_words n (Suc i) ws (drain_word n (i * 64) w result)"

definition drain_dirty :: "dirty_bitmap \<Rightarrow> u32 list \<times> dirty_bitmap" where
  "drain_dirty b = (drain_words (db_num_vertices b) 0 (db_words b) [], clear_all b)"

definition count_dirty :: "dirty_bitmap \<Rightarrow> nat" where
  "count_dirty b = sum_list (map count_ones (db_words b))"

subsection \<open>The bitmap as a set\<close>

definition dirty_wf :: "dirty_bitmap \<Rightarrow> bool" where
  "dirty_wf b \<longleftrightarrow> length (db_words b) = max ((db_num_vertices b + 63) div 64) 1 \<and> db_num_vertices b < 2 ^ 32 \<and>
     (\<forall>v. db_num_vertices b \<le> v \<longrightarrow> v div 64 < length (db_words b) \<longrightarrow> \<not> bit (db_words b ! (v div 64)) (v mod 64))"

definition dirty_set :: "dirty_bitmap \<Rightarrow> nat set" where
  "dirty_set b = {v. v < db_num_vertices b \<and> bit (db_words b ! (v div 64)) (v mod 64)}"

lemma dirty_word_index: "dirty_wf b \<Longrightarrow> v < db_num_vertices b \<Longrightarrow> v div 64 < length (db_words b)"
  by (auto simp: dirty_wf_def max_def)

lemma dirty_new_wf: "n < 2 ^ 32 \<Longrightarrow> dirty_wf (dirty_new n) \<and> dirty_set (dirty_new n) = {}"
  by (auto simp: dirty_wf_def dirty_new_def dirty_set_def nth_replicate)

lemma bit_push_one: "n < 64 \<Longrightarrow> bit (push_bit n 1 :: u64) k \<longleftrightarrow> k = n"
  unfolding bit_push_bit_iff bit_1_iff by (auto simp: possible_bit_def)

lemma is_dirty_eq: "dirty_wf b \<Longrightarrow> is_dirty b x = Some (unat x \<in> dirty_set b)"
proof (cases "unat x < db_num_vertices b")
  case True
  assume wf: "dirty_wf b"
  let ?w = "db_words b ! (unat x div 64)" and ?k = "unat x mod 64"
  have "and ?w (push_bit ?k 1) \<noteq> 0 \<longleftrightarrow> bit ?w ?k"
  proof
    assume "and ?w (push_bit ?k 1) \<noteq> 0"
    then obtain n where "bit (and ?w (push_bit ?k 1)) n" by (auto simp: bit_eq_iff)
    then show "bit ?w ?k" using bit_push_one [of ?k n] by (simp add: bit_and_iff)
  next
    assume "bit ?w ?k"
    then have "bit (and ?w (push_bit ?k 1)) ?k" using bit_push_one [of ?k ?k] by (simp add: bit_and_iff)
    then show "and ?w (push_bit ?k 1) \<noteq> 0" by auto
  qed
  then show ?thesis using True dirty_word_index [OF wf True] by (simp add: is_dirty_def Let_def dirty_set_def panic_simps)
qed (simp add: is_dirty_def Let_def dirty_set_def)

lemma mark_run_spec:
  assumes "mark_run n word msk xs = (msk', rest)"
  shows "\<exists>ys. xs = ys @ rest \<and> (\<forall>y\<in>set ys. unat y < n \<and> unat y div 64 = word) \<and>
    (\<forall>k. bit msk' k \<longleftrightarrow> bit msk k \<or> (\<exists>y\<in>set ys. k = unat y mod 64))"
  using assms
proof (induction n word msk xs rule: mark_run.induct)
  case (2 n word msk x xs)
  show ?case
  proof (cases "unat x < n \<and> unat x div 64 = word")
    case True
    then obtain ys where ys: "xs = ys @ rest" "\<forall>y\<in>set ys. unat y < n \<and> unat y div 64 = word"
      "\<forall>k. bit msk' k \<longleftrightarrow> bit (or msk (push_bit (unat x mod 64) 1)) k \<or> (\<exists>y\<in>set ys. k = unat y mod 64)"
      using 2 by (auto simp: Let_def)
    then show ?thesis using True bit_push_one [of "unat x mod 64"]
      by (intro exI [of _ "x # ys"]) (auto simp: bit_or_iff)
  next
    case False
    then show ?thesis using 2 by (auto simp: Let_def)
  qed
qed simp

lemma mark_word_set:
  assumes wf: "dirty_wf b" and word: "word < length (db_words b)"
    and ys: "\<forall>y\<in>set ys. unat y < db_num_vertices b \<and> unat y div 64 = word"
    and msk: "\<forall>k. bit msk k \<longleftrightarrow> (\<exists>y\<in>set ys. k = unat (y :: u32) mod 64)"
  defines "b' \<equiv> b\<lparr>db_words := (db_words b)[word := or (db_words b ! word) msk]\<rparr>"
  shows "dirty_wf b'" and "dirty_set b' = dirty_set b \<union> unat ` set ys" and "db_num_vertices b' = db_num_vertices b"
proof -
  have new: "bit (db_words b' ! (v div 64)) (v mod 64) \<longleftrightarrow>
      bit (db_words b ! (v div 64)) (v mod 64) \<or> (v div 64 = word \<and> (\<exists>y\<in>set ys. v = unat y))"
    if "v div 64 < length (db_words b)" for v
  proof (cases "v div 64 = word")
    case True
    have "(\<exists>y\<in>set ys. v mod 64 = unat y mod 64) \<longleftrightarrow> (\<exists>y\<in>set ys. v = unat y)"
      using True ys by (metis div_mult_mod_eq)
    then show ?thesis using True word msk by (simp add: b'_def bit_or_iff)
  qed (simp add: b'_def)
  show "dirty_wf b'" using wf ys new by (auto simp: dirty_wf_def b'_def)
  show "dirty_set b' = dirty_set b \<union> unat ` set ys"
    using new ys dirty_word_index [OF wf] by (auto simp: dirty_set_def b'_def)
  show "db_num_vertices b' = db_num_vertices b" by (simp add: b'_def)
qed

text \<open>Marking an ascending slice adds exactly its in-range vertices and never indexes out of range.\<close>

lemma mark_sorted_ok:
  assumes "dirty_wf b" and "sorted xs"
  shows "\<exists>b'. mark_sorted b xs = Some b' \<and> dirty_wf b' \<and> db_num_vertices b' = db_num_vertices b \<and>
    dirty_set b' = dirty_set b \<union> {v \<in> unat ` set xs. v < db_num_vertices b}"
  using assms
proof (induction b xs rule: mark_sorted.induct)
  case (2 b x xs)
  show ?case
  proof (cases "db_num_vertices b \<le> unat x")
    case True
    have "\<forall>y\<in>set (x # xs). db_num_vertices b \<le> unat y"
      using True "2.prems"(2) by (auto simp: word_le_nat_alt)
    then have e: "{v \<in> unat ` set (x # xs). v < db_num_vertices b} = {}" by force
    have "mark_sorted b (x # xs) = Some b" using True by simp
    then show ?thesis unfolding e using "2.prems"(1) by blast
  next
    case False
    let ?word = "unat x div 64"
    obtain msk rest where mr: "mark_run (db_num_vertices b) ?word 0 (x # xs) = (msk, rest)" by fastforce
    obtain ys where ys: "x # xs = ys @ rest" "\<forall>y\<in>set ys. unat y < db_num_vertices b \<and> unat y div 64 = ?word"
      "\<forall>k. bit msk k \<longleftrightarrow> (\<exists>y\<in>set ys. k = unat y mod 64)"
      using mark_run_spec [OF mr] by auto
    have word: "?word < length (db_words b)" using dirty_word_index [OF "2.prems"(1)] False by simp
    let ?b = "b\<lparr>db_words := (db_words b)[?word := or (db_words b ! ?word) msk]\<rparr>"
    note mw = mark_word_set [OF "2.prems"(1) word ys(2,3)]
    have "sorted rest" using "2.prems"(2) ys(1) by (metis sorted_append)
    then obtain b' where b': "mark_sorted ?b rest = Some b'" "dirty_wf b'" "db_num_vertices b' = db_num_vertices b"
      "dirty_set b' = dirty_set ?b \<union> {v \<in> unat ` set rest. v < db_num_vertices b}"
      using "2.IH" [OF refl False refl mr [symmetric] refl] mw word by (auto simp: panic_simps)
    have "mark_sorted b (x # xs) = Some b'" using False mr word b'(1) by (simp add: Let_def panic_simps del: mark_run.simps)
    moreover have "dirty_set b' = dirty_set b \<union> {v \<in> unat ` set (x # xs). v < db_num_vertices b}"
      unfolding b'(4) mw(2) ys(1) using ys(2) by auto
    ultimately show ?thesis using b'(2,3) by blast
  qed
qed simp

subsection \<open>Draining\<close>

lemma takeWhile_upt: "takeWhile (\<lambda>i. \<not> P i) [a..<b] = [a..<(if \<exists>i. a \<le> i \<and> i < b \<and> P i then LEAST i. a \<le> i \<and> i < b \<and> P i else b)]"
proof (induction "b - a" arbitrary: a)
  case 0
  then show ?case by auto
next
  case (Suc n)
  then have ab: "a < b" by simp
  show ?case
  proof (cases "P a")
    case True
    then have "(LEAST i. a \<le> i \<and> i < b \<and> P i) = a" using ab by (intro Least_equality) auto
    then show ?thesis using True ab by (auto simp: upt_conv_Cons)
  next
    case False
    have e: "(a \<le> i \<and> i < b \<and> P i) = (Suc a \<le> i \<and> i < b \<and> P i)" for i using False by (auto simp: Suc_le_eq order_less_le)
    have IH: "takeWhile (\<lambda>i. \<not> P i) [Suc a..<b] = [Suc a..<(if \<exists>i. Suc a \<le> i \<and> i < b \<and> P i then LEAST i. Suc a \<le> i \<and> i < b \<and> P i else b)]"
      using Suc by simp
    let ?m = "if \<exists>i. Suc a \<le> i \<and> i < b \<and> P i then LEAST i. Suc a \<le> i \<and> i < b \<and> P i else b"
    have m: "a < ?m"
    proof (cases "\<exists>i. Suc a \<le> i \<and> i < b \<and> P i")
      case True
      then have "Suc a \<le> (LEAST i. Suc a \<le> i \<and> i < b \<and> P i)" by (rule LeastI2_ex) simp
      then show ?thesis using True by (simp only: if_True)
    qed (use ab in \<open>simp only: if_False\<close>)
    have "takeWhile (\<lambda>i. \<not> P i) [a..<b] = a # [Suc a..<?m]"
      unfolding upt_conv_Cons [OF ab] using False IH by (simp only: takeWhile.simps if_True not_False_eq_True)
    then show ?thesis unfolding e upt_conv_Cons [OF m] .
  qed
qed

lemma ctz_least:
  assumes "w \<noteq> 0"
  shows "ctz w < 64" and "bit w (ctz w)" and "\<And>i. i < ctz w \<Longrightarrow> \<not> bit w i"
proof -
  have ex: "\<exists>i. 0 \<le> i \<and> i < 64 \<and> bit w i"
  proof -
    obtain i where "bit w i" using assms by (auto simp: bit_eq_iff)
    moreover have "i < 64" using bit_imp_le_length [OF \<open>bit w i\<close>] by simp
    ultimately show ?thesis by auto
  qed
  have c: "ctz w = (LEAST i. 0 \<le> i \<and> i < 64 \<and> bit w i)"
    unfolding ctz_def takeWhile_upt [of "bit w"] using ex by simp
  have l: "0 \<le> ctz w \<and> ctz w < 64 \<and> bit w (ctz w)" unfolding c by (rule LeastI_ex [OF ex])
  then show "ctz w < 64" "bit w (ctz w)" by simp_all
  fix i
  assume i: "i < ctz w"
  then have "\<not> (0 \<le> i \<and> i < 64 \<and> bit w i)" unfolding c by (rule not_less_Least)
  then show "\<not> bit w i" using i l by simp
qed

text \<open>\<^verbatim>\<open>remaining & (remaining - 1)\<close> clears the lowest set bit and nothing else.\<close>

lemma clear_lowest:
  assumes "w \<noteq> 0"
  shows "bit (and w (w - 1)) n \<longleftrightarrow> bit w n \<and> n \<noteq> ctz w"
proof -
  define k where "k = ctz w"
  note c = ctz_least [OF assms, folded k_def]
  define u where "u = and w (not (push_bit k 1))"
  have bu: "bit u n \<longleftrightarrow> bit w n \<and> n \<noteq> k" for n
    using c(1) bit_push_one [OF c(1)] bit_imp_le_length [of w n] by (auto simp: u_def bit_and_iff bit_not_iff)
  have "w = or u (push_bit k 1)"
    by (rule bit_word_eqI) (use c bu bit_push_one in \<open>auto simp: bit_or_iff\<close>)
  also have "\<dots> = u + push_bit k 1"
    using bu bit_push_one [OF c(1)] by (intro disjunctive_add [symmetric]) auto
  finally have w: "w = u + push_bit k 1" .
  have "push_bit k 1 - 1 = (mask k :: u64)" by (simp add: mask_eq_exp_minus_1 push_bit_eq_mult)
  then have "w - 1 = u + mask k" using w by (metis add_diff_eq)
  also have "\<dots> = or u (mask k)"
    using bu c(3) by (intro disjunctive_add) (auto simp: bit_mask_iff)
  finally show ?thesis using bu c(3) by (auto simp: bit_and_iff bit_or_iff bit_mask_iff k_def)
qed

definition word_ids :: "nat \<Rightarrow> nat \<Rightarrow> u64 \<Rightarrow> nat list" where
  "word_ids n base w = filter (\<lambda>i. i < n) (map ((+) base) (filter (bit w) [0..<64]))"

lemma filter_bits_step:
  assumes "w \<noteq> 0"
  shows "filter (bit w) [0..<64] = ctz w # filter (bit (and w (w - 1))) [0..<64]"
proof -
  note c = ctz_least [OF assms]
  have s: "[0..<64] = [0..<ctz w] @ ctz w # [Suc (ctz w)..<64]"
    using c(1) by (metis le0 less_imp_le_nat upt_add_eq_append upt_conv_Cons le_add_diff_inverse)
  have lo: "filter (bit w) [0..<ctz w] = []" using c(3) by (simp add: filter_empty_conv)
  have lo': "filter (bit (and w (w - 1))) [0..<ctz w] = []" using c(3) by (simp add: filter_empty_conv clear_lowest [OF assms])
  have "filter (bit (and w (w - 1))) [Suc (ctz w)..<64] = filter (bit w) [Suc (ctz w)..<64]"
    by (rule filter_cong) (simp_all add: clear_lowest [OF assms])
  then show ?thesis unfolding s using lo lo' c(2) by (simp add: clear_lowest [OF assms])
qed

lemma drain_word_eq: "drain_word n base w result = result @ map of_nat (word_ids n base w)"
proof (induction n base w result rule: drain_word.induct)
  case (1 n base w result)
  show ?case
  proof (cases "w = 0")
    case True
    then show ?thesis by (subst drain_word.simps) (simp add: word_ids_def)
  next
    case False
    then show ?thesis using 1 filter_bits_step [OF False]
      by (subst drain_word.simps) (simp add: Let_def word_ids_def)
  qed
qed

lemma drain_words_eq:
  "drain_words n i ws result = result @ map of_nat (concat (map (\<lambda>j. word_ids n ((i + j) * 64) (ws ! j)) [0..<length ws]))"
proof (induction n i ws result rule: drain_words.induct)
  case (2 n i w ws result)
  have "[0..<length (w # ws)] = 0 # map Suc [0..<length ws]" by (simp add: map_Suc_upt upt_conv_Cons del: upt_Suc)
  moreover have "(Suc i + j) * 64 = (i + Suc j) * 64" for j by simp
  ultimately show ?case using 2 by (simp only: drain_words.simps drain_word_eq list.map map_map comp_def
      concat.simps nth_Cons_0 nth_Cons_Suc map_append append_assoc add_0_right)
qed simp

lemma set_word_ids: "set (word_ids n base w) = {v. v < n \<and> (\<exists>k<64. v = base + k \<and> bit w k)}"
  by (auto simp: word_ids_def)

lemma sorted_word_ids: "sorted_wrt (<) (word_ids n base w)"
  unfolding word_ids_def by (intro sorted_wrt_filter) (simp add: sorted_wrt_map sorted_wrt_filter)

lemma drain_ids_sorted:
  "sorted_wrt (<) (concat (map (\<lambda>j. word_ids n (j * 64) (ws ! j)) [0..<m]))"
proof (induction m)
  case (Suc m)
  have "\<forall>x\<in>set (concat (map (\<lambda>j. word_ids n (j * 64) (ws ! j)) [0..<m])). x < m * 64"
    by (auto simp: set_word_ids)
  moreover have "\<forall>y\<in>set (word_ids n (m * 64) (ws ! m)). m * 64 \<le> y" by (auto simp: set_word_ids)
  ultimately show ?case using Suc sorted_word_ids by (fastforce simp: sorted_wrt_append)
qed simp

lemma drain_dirty_ok:
  assumes wf: "dirty_wf b" and d: "drain_dirty b = (ids, b')"
  shows "ssorted ids" and "unat ` set ids = dirty_set b" and "dirty_wf b'" and "dirty_set b' = {}"
proof -
  let ?n = "db_num_vertices b"
  let ?ns = "concat (map (\<lambda>j. word_ids ?n (j * 64) (db_words b ! j)) [0..<length (db_words b)])"
  have ids: "ids = map of_nat ?ns" and b': "b' = clear_all b"
    using d by (simp_all add: drain_dirty_def drain_words_eq)
  have n32: "?n < 2 ^ 32" using wf by (simp add: dirty_wf_def)
  have lt: "x < 2 ^ 32" if "x \<in> set ?ns" for x
  proof -
    have "x < ?n" using that by (auto simp: set_word_ids)
    then show ?thesis using n32 by (rule less_trans)
  qed
  have u: "unat (of_nat x :: u32) = x" if "x \<in> set ?ns" for x
    using lt [OF that] by (simp only: unat_of_nat take_bit_nat_eq_self len_of_numeral_defs) (simp add: take_bit_nat_eq_self)
  have "sorted_wrt (<) ?ns" by (rule drain_ids_sorted)
  then show "ssorted ids"
    unfolding ids sorted_wrt_map using u by (elim sorted_wrt_mono_rel [rotated]) (simp add: word_less_nat_alt)
  have "unat ` set ids = (\<lambda>x. unat (of_nat x :: u32)) ` set ?ns" unfolding ids set_map image_image ..
  also have "\<dots> = (\<lambda>x. x) ` set ?ns" by (rule image_cong [OF refl u])
  also have "\<dots> = set ?ns" by (rule image_ident)
  also have "\<dots> = dirty_set b"
  proof (rule set_eqI)
    fix v
    have "v \<in> set ?ns \<longleftrightarrow> v < ?n \<and> (\<exists>j<length (db_words b). \<exists>k<64. v = j * 64 + k \<and> bit (db_words b ! j) k)"
      by (auto simp: set_word_ids)
    also have "\<dots> \<longleftrightarrow> v \<in> dirty_set b"
    proof
      assume "v < ?n \<and> (\<exists>j<length (db_words b). \<exists>k<64. v = j * 64 + k \<and> bit (db_words b ! j) k)"
      then show "v \<in> dirty_set b" by (auto simp: dirty_set_def)
    next
      assume v: "v \<in> dirty_set b"
      then have "v div 64 < length (db_words b)" using dirty_word_index [OF wf] by (simp add: dirty_set_def)
      moreover have "v = v div 64 * 64 + v mod 64" "v mod 64 < 64" by simp_all
      ultimately show "v < ?n \<and> (\<exists>j<length (db_words b). \<exists>k<64. v = j * 64 + k \<and> bit (db_words b ! j) k)"
        using v unfolding dirty_set_def by blast
    qed
    finally show "v \<in> set ?ns \<longleftrightarrow> v \<in> dirty_set b" .
  qed
  finally show "unat ` set ids = dirty_set b" .
  show "dirty_wf b'" using wf by (auto simp: dirty_wf_def b' clear_all_def)
  show "dirty_set b' = {}"
    using dirty_word_index [OF wf] by (auto simp: dirty_set_def b' clear_all_def)
qed

subsection \<open>Properties\<close>

text \<open>C38 Marking an ascending slice and draining the bitmap: the drain lists, in ascending order and once
  each, exactly the vertices marked before and the slice's in-range vertices, and leaves the
  bitmap clean; no mark is out of range, whatever ids the slice holds.\<close>

theorem dirty_mark_drain:
  assumes "dirty_wf b" and "sorted xs"
  shows "\<exists>b' ids b''. mark_sorted b xs = Some b' \<and> drain_dirty b' = (ids, b'') \<and> ssorted ids \<and>
    unat ` set ids = dirty_set b \<union> {v \<in> unat ` set xs. v < db_num_vertices b} \<and>
    (\<forall>v. is_dirty b'' v = Some False)"
proof -
  obtain b' where b': "mark_sorted b xs = Some b'" "dirty_wf b'"
    "dirty_set b' = dirty_set b \<union> {v \<in> unat ` set xs. v < db_num_vertices b}"
    using mark_sorted_ok [OF assms] by blast
  obtain ids b'' where d: "drain_dirty b' = (ids, b'')" by fastforce
  note dd = drain_dirty_ok [OF b'(2) d]
  show ?thesis using b' d dd is_dirty_eq [OF dd(3)] by auto
qed

theorem dirty_mark_drain_witness:
  "\<exists>b' ids b''. mark_sorted (dirty_new 70) [3, 65, 65, 99] = Some b' \<and> drain_dirty b' = (ids, b'') \<and>
     unat ` set ids = {3, 65}"
proof -
  have wf: "dirty_wf (dirty_new 70)" "dirty_set (dirty_new 70) = {}" using dirty_new_wf [of 70] by simp_all
  have "{v \<in> unat ` set [3, 65, 65, 99 :: u32]. v < db_num_vertices (dirty_new 70)} = {3, 65}"
    by (auto simp: dirty_new_def)
  with dirty_mark_drain [OF wf(1), of "[3, 65, 65, 99]"] wf(2) show ?thesis by auto
qed

end
