(* ===== verification/Root_Table.thy ===== *)
theory Root_Table
  imports CTree
begin

section \<open>The persistent radix table of C-tree roots\<close>

text \<open>
  Models \<^verbatim>\<open>RootTable\<close> of \<^verbatim>\<open>crates/aether-graph/src/snapshot.rs\<close>: three levels of 256-way nodes over
  the vertices' roots. Nodes are immutable once shared, so an \<^verbatim>\<open>Arc\<close> is its contents; the
  copy-on-write rebuild of \<^verbatim>\<open>with_leaves\<close> is modelled group by group, as the code partitions the
  touched leaves. The lemmas show what \<^verbatim>\<open>get\<close> reads after a rebuild.
\<close>

definition LEAF_BITS :: nat where "LEAF_BITS = 8"
definition LEAF :: nat where "LEAF = 2 ^ LEAF_BITS"
definition FAN_BITS :: nat where "FAN_BITS = 8"
definition FAN :: nat where "FAN = 2 ^ FAN_BITS"

lemmas fan_defs = LEAF_BITS_def LEAF_def FAN_BITS_def FAN_def

type_synonym rt_leaf = "u32 list"
type_synonym rt_mid = "rt_leaf list"
type_synonym rt_upper = "rt_mid list"

record root_table =
  rt_top :: "rt_upper list"

definition div_ceil :: "nat \<Rightarrow> nat \<Rightarrow> nat" where
  "div_ceil a b = (a + b - 1) div b"

lemma div_ceil_less: "0 < k \<Longrightarrow> i < div_ceil n k \<longleftrightarrow> i * k < n"
proof -
  assume k: "0 < k"
  have "i < div_ceil n k \<longleftrightarrow> Suc i \<le> (n + k - 1) div k" by (simp add: div_ceil_def Suc_le_eq)
  also have "\<dots> \<longleftrightarrow> Suc i * k \<le> n + k - 1" using k by (rule less_eq_div_iff_mult_less_eq)
  also have "\<dots> \<longleftrightarrow> i * k < n" using k by (simp, linarith)
  finally show ?thesis .
qed

definition rt_empty :: "nat \<Rightarrow> root_table" where
  "rt_empty num_vertices =
     (let leaf = replicate LEAF NULL_OFF;
          mid = replicate FAN leaf;
          upper = replicate FAN mid;
          uppers = max (div_ceil num_vertices (LEAF * FAN * FAN)) 1
      in \<lparr>rt_top = replicate uppers upper\<rparr>)"

definition rt_get :: "root_table \<Rightarrow> nat \<Rightarrow> u32 option" where
  "rt_get t v = do {
     upper \<leftarrow> nth_opt (rt_top t) (drop_bit (LEAF_BITS + 2 * FAN_BITS) v);
     mid \<leftarrow> nth_opt upper (and (drop_bit (LEAF_BITS + FAN_BITS) v) (FAN - 1));
     leaf \<leftarrow> nth_opt mid (and (drop_bit LEAF_BITS v) (FAN - 1));
     nth_opt leaf (and v (LEAF - 1)) }"

definition copy_leaf :: "u32 \<Rightarrow> u32 list \<Rightarrow> rt_leaf option" where
  "copy_leaf l roots =
     (let start = push_bit LEAF_BITS (unat l);
          end' = min (start + LEAF) (length roots)
      in do {
        src \<leftarrow> slice_opt roots start end';
        Some (src @ drop (length src) (replicate LEAF NULL_OFF)) })"

text \<open>\<^verbatim>\<open>partition_point\<close> on a slice that its predicate partitions.\<close>

definition partition_point :: "('a \<Rightarrow> bool) \<Rightarrow> 'a list \<Rightarrow> nat" where
  "partition_point P xs = length (takeWhile P xs)"

fun copy_leaves :: "u32 list \<Rightarrow> u32 list \<Rightarrow> rt_mid \<Rightarrow> rt_mid option" where
  "copy_leaves roots [] mid = Some mid"
| "copy_leaves roots (l # ls) mid = do {
     leaf \<leftarrow> copy_leaf l roots;
     mid \<leftarrow> set_opt mid (and (unat l) (FAN - 1)) leaf;
     copy_leaves roots ls mid }"

definition mid_of :: "u32 \<Rightarrow> nat" where
  "mid_of l = and (unat (drop_bit FAN_BITS l)) (FAN - 1)"

definition upper_of :: "u32 \<Rightarrow> nat" where
  "upper_of l = unat (drop_bit (2 * FAN_BITS) l)"

function copy_mids :: "u32 list \<Rightarrow> u32 list \<Rightarrow> rt_upper \<Rightarrow> rt_upper option" where
  "copy_mids roots [] upper = Some upper"
| "copy_mids roots (first # grp) upper =
     (let m = mid_of first;
          in_mid = partition_point (\<lambda>l. mid_of l = m) (first # grp)
      in do {
        mid \<leftarrow> nth_opt upper m;
        mid \<leftarrow> copy_leaves roots (take in_mid (first # grp)) mid;
        upper \<leftarrow> set_opt upper m mid;
        copy_mids roots (drop in_mid (first # grp)) upper })"
  by pat_completeness auto

termination copy_mids
  by (relation "measure (\<lambda>(_, ls, _). length ls)") (auto simp: partition_point_def)

function copy_uppers :: "u32 list \<Rightarrow> u32 list \<Rightarrow> rt_upper list \<Rightarrow> rt_upper list option" where
  "copy_uppers roots [] tp = Some tp"
| "copy_uppers roots (first # rest) tp =
     (let u = upper_of first;
          in_upper = partition_point (\<lambda>l. upper_of l = u) (first # rest)
      in do {
        upper \<leftarrow> nth_opt tp u;
        upper \<leftarrow> copy_mids roots (take in_upper (first # rest)) upper;
        tp \<leftarrow> set_opt tp u upper;
        copy_uppers roots (drop in_upper (first # rest)) tp })"
  by pat_completeness auto

termination copy_uppers
  by (relation "measure (\<lambda>(_, ls, _). length ls)") (auto simp: partition_point_def)

definition with_leaves :: "root_table \<Rightarrow> u32 list \<Rightarrow> u32 list \<Rightarrow> root_table option" where
  "with_leaves t touched roots = do {
     tp \<leftarrow> copy_uppers roots touched (rt_top t);
     Some \<lparr>rt_top = tp\<rparr> }"

definition from_roots :: "u32 list \<Rightarrow> root_table option" where
  "from_roots roots =
     with_leaves (rt_empty (length roots)) (map of_nat [0..<div_ceil (length roots) LEAF]) roots"

subsection \<open>Shape and leaves\<close>

definition rt_wf :: "nat \<Rightarrow> root_table \<Rightarrow> bool" where
  "rt_wf n t \<longleftrightarrow> n < 2 ^ 32 \<and> length (rt_top t) = max (div_ceil n (LEAF * FAN * FAN)) 1 \<and>
     (\<forall>u\<in>set (rt_top t). length u = FAN \<and> (\<forall>m\<in>set u. length m = FAN \<and> (\<forall>l\<in>set m. length l = LEAF)))"

definition leaf_at :: "rt_upper list \<Rightarrow> nat \<Rightarrow> rt_leaf" where
  "leaf_at tp l = tp ! (l div 65536) ! (l div 256 mod 256) ! (l mod 256)"

lemma and_255: "and n 255 = n mod (256 :: nat)"
proof -
  have "(255 :: nat) = mask 8" by (simp add: mask_eq_exp_minus_1)
  then show ?thesis by (simp only: take_bit_eq_mask [symmetric] take_bit_eq_mod) simp
qed

lemma fan_mask [simp]: "and n (FAN - 1) = n mod 256" "and n (FAN - Suc 0) = n mod 256"
    "and n (LEAF - 1) = n mod 256" "and n (LEAF - Suc 0) = n mod 256"
  using and_255 [of n] by (simp_all add: fan_defs)

lemma unat_drop: "unat (drop_bit n (l :: u32)) = unat l div 2 ^ n"
  by (simp only: unat_drop_bit_eq) (simp only: drop_bit_eq_div)

lemma index_parts [simp]:
  "mid_of l = unat l div 256 mod 256"
  "upper_of l = unat l div 65536"
  unfolding mid_of_def upper_of_def unat_drop fan_mask by (simp_all add: fan_defs)

lemma copy_leaf_ok:
  assumes "unat l * 256 \<le> length roots"
  shows "\<exists>leaf. copy_leaf l roots = Some leaf \<and> length leaf = 256 \<and>
    (\<forall>v < length roots. v div 256 = unat l \<longrightarrow> leaf ! (v mod 256) = roots ! v)"
proof -
  let ?s = "unat l * 256"
  let ?src = "take (min (?s + 256) (length roots) - ?s) (drop ?s roots)"
  have c: "copy_leaf l roots = Some (?src @ drop (length ?src) (replicate 256 NULL_OFF))"
    using assms by (simp add: copy_leaf_def fan_defs push_bit_eq_mult Let_def slice_opt_def)
  have "(?src @ drop (length ?src) (replicate 256 NULL_OFF)) ! (v mod 256) = roots ! v"
    if v: "v < length roots" "v div 256 = unat l" for v
  proof -
    have e: "v = ?s + v mod 256" using v(2) by (metis div_mult_mod_eq)
    have m: "v mod 256 < 256" by simp
    have lt: "v mod 256 < min (?s + 256) (length roots) - ?s" using e v(1) m by linarith
    then have "v mod 256 < length ?src" by simp
    then have "(?src @ drop (length ?src) (replicate 256 NULL_OFF)) ! (v mod 256) = roots ! (?s + v mod 256)"
      using lt by (simp add: nth_append)
    then show ?thesis using e by simp
  qed
  then show ?thesis using c by simp
qed

text \<open>What one leaf holds after the copies: the live roots for a touched leaf.\<close>

definition fresh_leaf :: "u32 list \<Rightarrow> nat \<Rightarrow> rt_leaf" where
  "fresh_leaf roots l = the (copy_leaf (of_nat l) roots)"

lemma copy_leaves_ok:
  assumes "\<forall>l\<in>set ls. unat l * 256 \<le> length roots" and "length mid = 256" and "\<forall>x\<in>set mid. length x = 256"
    and "\<forall>l\<in>set ls. unat l div 256 = g"
  shows "\<exists>mid'. copy_leaves roots ls mid = Some mid' \<and> length mid' = 256 \<and> (\<forall>x\<in>set mid'. length x = 256) \<and>
    (\<forall>j<256. mid' ! j = (if g * 256 + j \<in> unat ` set ls then fresh_leaf roots (g * 256 + j) else mid ! j))"
  using assms
proof (induction ls arbitrary: mid)
  case (Cons l ls)
  obtain leaf where leaf: "copy_leaf l roots = Some leaf" "length leaf = 256"
    using copy_leaf_ok [of l roots] Cons.prems(1) by auto
  let ?j = "unat l mod 256"
  have set1: "\<forall>x\<in>set (mid[?j := leaf]). length x = 256"
    using Cons.prems(3) leaf(2) set_update_subset_insert [of mid ?j leaf] by blast
  obtain mid' where m: "copy_leaves roots ls (mid[?j := leaf]) = Some mid'" "length mid' = 256"
    "\<forall>x\<in>set mid'. length x = 256"
    "\<forall>j<256. mid' ! j = (if g * 256 + j \<in> unat ` set ls then fresh_leaf roots (g * 256 + j) else mid[?j := leaf] ! j)"
    using Cons.IH [of "mid[?j := leaf]"] Cons.prems set1 by auto
  have run: "copy_leaves roots (l # ls) mid = Some mid'"
    using leaf(1) m(1) Cons.prems(2) by (simp add: set_opt_Some)
  have lu: "unat l = g * 256 + ?j" using Cons.prems(4) div_mult_mod_eq [of "unat l" 256] by simp
  have fl: "fresh_leaf roots (unat l) = leaf" using leaf(1) by (simp add: fresh_leaf_def)
  have "mid' ! j = (if g * 256 + j \<in> unat ` set (l # ls) then fresh_leaf roots (g * 256 + j) else mid ! j)"
    if "j < 256" for j
  proof (cases "j = ?j")
    case True
    have "mid' ! j = leaf \<or> mid' ! j = fresh_leaf roots (unat l)"
      using m(4) that True lu Cons.prems(2) by (simp only: nth_list_update_eq split: if_splits) auto
    then have "mid' ! j = leaf" using fl by simp
    moreover have "g * 256 + j = unat l" using True lu by simp
    ultimately show ?thesis using fl by simp
  next
    case False
    then have "g * 256 + j \<noteq> unat l" using lu by simp
    then show ?thesis using m(4) that False by (auto simp: nth_list_update)
  qed
  then show ?case using run m(2,3) by blast
qed simp

lemma sorted_partition:
  assumes "sorted (map f xs)" and "xs = y # ys"
  defines "k \<equiv> partition_point (\<lambda>x. f x = f y) xs"
  shows "set (take k xs) = {x \<in> set xs. f x = f y}" and "set (drop k xs) = {x \<in> set xs. f x \<noteq> f y}"
    and "sorted (map f (drop k xs))"
proof -
  have tk: "take k xs = takeWhile (\<lambda>x. f x = f y) xs" unfolding k_def partition_point_def by (rule takeWhile_eq_take [symmetric])
  have dk: "drop k xs = dropWhile (\<lambda>x. f x = f y) xs" unfolding k_def partition_point_def by (rule dropWhile_eq_drop [symmetric])
  have le: "\<forall>x\<in>set xs. f y \<le> f x" using assms(1,2) by auto
  show s: "sorted (map f (drop k xs))" using assms(1) by (simp add: drop_map [symmetric] sorted_wrt_drop)
  have ne: "\<forall>x\<in>set (drop k xs). f x \<noteq> f y"
  proof (cases "drop k xs")
    case (Cons z zs)
    then have "f z \<noteq> f y" using dk hd_dropWhile [of "\<lambda>x. f x = f y" xs] by simp
    moreover have "f y \<le> f z" using le Cons by (metis in_set_dropD list.set_intros(1))
    ultimately have "f y < f z" by simp
    then show ?thesis using s Cons by fastforce
  qed simp
  have "set xs = set (take k xs) \<union> set (drop k xs)" by (metis append_take_drop_id set_append)
  moreover have "\<forall>x\<in>set (take k xs). f x = f y" unfolding tk by (auto dest: set_takeWhileD)
  ultimately show "set (take k xs) = {x \<in> set xs. f x = f y}" "set (drop k xs) = {x \<in> set xs. f x \<noteq> f y}"
    using ne by auto
qed

definition mid_ok :: "rt_mid \<Rightarrow> bool" where
  "mid_ok m \<longleftrightarrow> length m = 256 \<and> (\<forall>l\<in>set m. length l = 256)"

definition upper_ok :: "rt_upper \<Rightarrow> bool" where
  "upper_ok u \<longleftrightarrow> length u = 256 \<and> (\<forall>m\<in>set u. mid_ok m)"

lemma list_update_all: "\<forall>x\<in>set xs. P x \<Longrightarrow> P y \<Longrightarrow> \<forall>x\<in>set (xs[i := y]). P x"
  using set_update_subset_insert [of xs i y] by blast

lemma copy_mids_ok:
  assumes "\<forall>l\<in>set ls. unat l * 256 \<le> length roots \<and> unat l div 65536 = u" and "upper_ok upper"
    and "sorted (map mid_of ls)"
  shows "\<exists>upper'. copy_mids roots ls upper = Some upper' \<and> upper_ok upper' \<and>
    (\<forall>m<256. \<forall>j<256. upper' ! m ! j =
      (if (u * 256 + m) * 256 + j \<in> unat ` set ls then fresh_leaf roots ((u * 256 + m) * 256 + j) else upper ! m ! j))"
  using assms
proof (induction roots ls upper rule: copy_mids.induct)
  case (2 roots first grp upper)
  let ?ls = "first # grp" and ?m = "mid_of first"
  define k where "k = partition_point (\<lambda>l. mid_of l = ?m) ?ls"
  note part = sorted_partition [OF "2.prems"(3) refl, folded k_def]
  have m256: "?m < length upper" "?m < 256" using "2.prems"(2) by (simp_all add: upper_ok_def)
  have mo: "mid_ok (upper ! ?m)" using "2.prems"(2) m256 by (simp add: upper_ok_def)
  let ?g = "u * 256 + ?m"
  have g: "\<forall>l\<in>set (take k ?ls). unat l div 256 = ?g"
  proof
    fix l
    assume "l \<in> set (take k ?ls)"
    then have l: "l \<in> set ?ls" "mid_of l = ?m" using part(1) by auto
    have "unat l div 256 div 256 = u" using "2.prems"(1) l(1) by (auto simp: div_mult2_eq [symmetric])
    then show "unat l div 256 = ?g" using l(2) div_mult_mod_eq [of "unat l div 256" 256] by simp
  qed
  have sub: "\<forall>l\<in>set (take k ?ls). unat l * 256 \<le> length roots" using "2.prems"(1) by (meson in_set_takeD)
  obtain mid' where mid': "copy_leaves roots (take k ?ls) (upper ! ?m) = Some mid'" "length mid' = 256" "\<forall>x\<in>set mid'. length x = 256"
    "\<forall>j<256. mid' ! j = (if ?g * 256 + j \<in> unat ` set (take k ?ls) then fresh_leaf roots (?g * 256 + j) else upper ! ?m ! j)"
    using copy_leaves_ok [OF sub _ _ g, of "upper ! ?m"] mo unfolding mid_ok_def by blast
  let ?up = "upper[?m := mid']"
  have uo: "upper_ok ?up" unfolding upper_ok_def
    by (intro conjI list_update_all) (use "2.prems"(2) mid'(2,3) in \<open>simp_all add: upper_ok_def mid_ok_def\<close>)
  have pre: "\<forall>l\<in>set (drop k ?ls). unat l * 256 \<le> length roots \<and> unat l div 65536 = u"
    using "2.prems"(1) by (meson in_set_dropD)
  obtain upper' where up': "copy_mids roots (drop k ?ls) ?up = Some upper'" "upper_ok upper'"
    "\<forall>m<256. \<forall>j<256. upper' ! m ! j =
      (if (u * 256 + m) * 256 + j \<in> unat ` set (drop k ?ls) then fresh_leaf roots ((u * 256 + m) * 256 + j) else ?up ! m ! j)"
    using "2.IH" [OF refl k_def, of "upper ! ?m" mid' ?up] pre uo part(3) mid'(1) m256 by (auto simp: set_opt_def nth_opt_def)
  have run: "copy_mids roots ?ls upper = Some upper'"
    using up'(1) mid'(1) m256 by (simp add: Let_def k_def [symmetric] nth_opt_Some set_opt_Some del: index_parts)
  have "upper' ! m ! j = (if (u * 256 + m) * 256 + j \<in> unat ` set ?ls then fresh_leaf roots ((u * 256 + m) * 256 + j) else upper ! m ! j)"
    if mj: "m < 256" "j < 256" for m j
  proof -
    let ?i = "(u * 256 + m) * 256 + j"
    have "(x * 256 + j) div 256 = x" for x using mj(2) by simp
    then have "?i div 256 mod 256 = (u * 256 + m) mod 256" by (rule arg_cong)
    then have im: "?i div 256 mod 256 = m" using mj(1) by simp
    have split: "?i \<in> unat ` set ?ls \<longleftrightarrow> ?i \<in> unat ` set (take k ?ls) \<or> ?i \<in> unat ` set (drop k ?ls)"
      unfolding part(1,2) by auto
    show ?thesis
    proof (cases "m = ?m")
      case True
      then show ?thesis using up'(3) mid'(4) mj m256 split by (simp del: index_parts)
    next
      case False
      have "?i \<notin> unat ` set (take k ?ls)"
      proof
        assume "?i \<in> unat ` set (take k ?ls)"
        then obtain l where "?i = unat l" "mid_of l = ?m" unfolding part(1) by blast
        then show False using False im by simp
      qed
      then show ?thesis using up'(3) mj False split by (simp del: index_parts)
    qed
  qed
  then show ?case using run up'(2) by blast
qed simp

definition top_ok :: "rt_upper list \<Rightarrow> bool" where
  "top_ok tp \<longleftrightarrow> (\<forall>u\<in>set tp. upper_ok u)"

lemma copy_uppers_ok:
  assumes "\<forall>l\<in>set ls. unat l * 256 \<le> length roots \<and> unat l div 65536 < length tp" and "top_ok tp"
    and "sorted (map unat ls)"
  shows "\<exists>tp'. copy_uppers roots ls tp = Some tp' \<and> top_ok tp' \<and> length tp' = length tp \<and>
    (\<forall>i. i div 65536 < length tp \<longrightarrow> leaf_at tp' i = (if i \<in> unat ` set ls then fresh_leaf roots i else leaf_at tp i))"
  using assms
proof (induction roots ls tp rule: copy_uppers.induct)
  case (2 roots first rest tp)
  let ?ls = "first # rest" and ?u = "upper_of first"
  define k where "k = partition_point (\<lambda>l. upper_of l = ?u) ?ls"
  have "sorted (map upper_of ?ls)"
    using "2.prems"(3) by (auto simp: sorted_wrt_map div_le_mono elim: sorted_wrt_mono_rel [rotated])
  note part = sorted_partition [OF this refl, folded k_def]
  have ul: "?u < length tp" using "2.prems"(1) by simp
  have uo: "upper_ok (tp ! ?u)" using "2.prems"(2) ul by (simp add: top_ok_def)
  have sorted_sub: "sorted (map unat (take k ?ls))" "sorted (map unat (drop k ?ls))"
    using "2.prems"(3) by (simp_all only: take_map [symmetric] drop_map [symmetric] sorted_wrt_take sorted_wrt_drop)
  have tk: "\<forall>l\<in>set (take k ?ls). unat l * 256 \<le> length roots \<and> unat l div 65536 = ?u"
    using "2.prems"(1) unfolding part(1) by auto
  have "sorted (map mid_of (take k ?ls))"
  proof -
    have mono: "mid_of a \<le> mid_of b" if "a \<in> set (take k ?ls)" "b \<in> set (take k ?ls)" "unat a \<le> unat b" for a b
    proof -
      have "unat a div 256 div 256 = unat b div 256 div 256" using tk that(1,2) by (simp add: div_mult2_eq [symmetric])
      moreover have "unat a div 256 \<le> unat b div 256" using that(3) by (rule div_le_mono)
      ultimately show ?thesis
        using div_mult_mod_eq [of "unat a div 256" 256] div_mult_mod_eq [of "unat b div 256" 256] unfolding index_parts
        by linarith
    qed
    show ?thesis using sorted_sub(1) mono unfolding sorted_wrt_map by (rule sorted_wrt_mono_rel [rotated]) blast
  qed
  note cm = copy_mids_ok [OF tk uo this]
  then obtain upper' where up: "copy_mids roots (take k ?ls) (tp ! ?u) = Some upper'" "upper_ok upper'"
    "\<forall>m<256. \<forall>j<256. upper' ! m ! j =
      (if (?u * 256 + m) * 256 + j \<in> unat ` set (take k ?ls) then fresh_leaf roots ((?u * 256 + m) * 256 + j) else tp ! ?u ! m ! j)"
    by blast
  let ?tp = "tp[?u := upper']"
  have t1: "top_ok ?tp" unfolding top_ok_def by (rule list_update_all) (use "2.prems"(2) up(2) in \<open>simp_all add: top_ok_def\<close>)
  have pre: "\<forall>l\<in>set (drop k ?ls). unat l * 256 \<le> length roots \<and> unat l div 65536 < length ?tp"
    using "2.prems"(1) by (metis in_set_dropD length_list_update)
  obtain tp' where tp': "copy_uppers roots (drop k ?ls) ?tp = Some tp'" "top_ok tp'" "length tp' = length ?tp"
    "\<forall>i. i div 65536 < length ?tp \<longrightarrow> leaf_at tp' i = (if i \<in> unat ` set (drop k ?ls) then fresh_leaf roots i else leaf_at ?tp i)"
    using "2.IH" [OF refl k_def, of "tp ! ?u" upper' ?tp] pre t1 sorted_sub(2) up(1) ul by (auto simp: set_opt_def nth_opt_def)
  have run: "copy_uppers roots ?ls tp = Some tp'"
    using tp'(1) up(1) ul by (simp add: Let_def k_def [symmetric] nth_opt_Some set_opt_Some del: index_parts)
  have "leaf_at tp' i = (if i \<in> unat ` set ?ls then fresh_leaf roots i else leaf_at tp i)" if i: "i div 65536 < length tp" for i
  proof -
    have split: "i \<in> unat ` set ?ls \<longleftrightarrow> i \<in> unat ` set (take k ?ls) \<or> i \<in> unat ` set (drop k ?ls)"
      unfolding part(1,2) by auto
    have e: "i = (i div 65536 * 256 + i div 256 mod 256) * 256 + i mod 256"
      using div_mult_mod_eq [of i 256] div_mult_mod_eq [of "i div 256" 256] by (simp add: div_mult2_eq [symmetric])
    have base: "leaf_at ?tp i = (if i \<in> unat ` set (take k ?ls) then fresh_leaf roots i else leaf_at tp i)"
    proof (cases "i div 65536 = ?u")
      case True
      then have "leaf_at ?tp i = upper' ! (i div 256 mod 256) ! (i mod 256)" using ul by (simp add: leaf_at_def)
      also have "\<dots> = (if i \<in> unat ` set (take k ?ls) then fresh_leaf roots i else tp ! ?u ! (i div 256 mod 256) ! (i mod 256))"
        using up(3) [rule_format, of "i div 256 mod 256" "i mod 256"] e True by (simp del: index_parts)
      finally show ?thesis using True by (simp add: leaf_at_def)
    next
      case False
      have "i \<notin> unat ` set (take k ?ls)" using False unfolding part(1) by (auto simp: image_iff)
      then show ?thesis using False by (simp add: leaf_at_def)
    qed
    show ?thesis using tp'(4) [rule_format, of i] i base split by simp
  qed
  then show ?case using run tp'(2,3) by auto
qed simp

subsection \<open>What the table reads\<close>

lemma rt_wf_top: "rt_wf n t \<longleftrightarrow> n < 2 ^ 32 \<and> length (rt_top t) = max (div_ceil n (LEAF * FAN * FAN)) 1 \<and> top_ok (rt_top t)"
  by (simp add: rt_wf_def top_ok_def upper_ok_def mid_ok_def fan_defs)

lemma vertex_index:
  assumes "rt_wf n t" and "v < n"
  shows "v div 256 div 65536 < length (rt_top t)"
proof -
  have "v div 16777216 * 16777216 < n" using assms(2) by (meson div_times_less_eq_dividend le_less_trans)
  then have "v div 16777216 < div_ceil n 16777216" by (simp only: div_ceil_less)
  moreover have "v div 256 div 65536 = v div 16777216" by (simp add: div_mult2_eq [symmetric])
  ultimately show ?thesis using assms(1) by (simp add: rt_wf_def fan_defs)
qed

lemma rt_get_eq:
  assumes "rt_wf n t" and "v < n"
  shows "rt_get t v = Some (leaf_at (rt_top t) (v div 256) ! (v mod 256))"
proof -
  have i: "v div 16777216 < length (rt_top t)" using vertex_index [OF assms] by (simp add: div_mult2_eq [symmetric])
  then have u: "upper_ok (rt_top t ! (v div 16777216))" using assms(1) by (simp add: rt_wf_top top_ok_def)
  then have m: "mid_ok (rt_top t ! (v div 16777216) ! (v div 65536 mod 256))" by (simp add: upper_ok_def)
  then have l: "length (rt_top t ! (v div 16777216) ! (v div 65536 mod 256) ! (v div 256 mod 256)) = 256" by (simp add: mid_ok_def)
  have b: "LEAF_BITS + 2 * FAN_BITS = 24" "LEAF_BITS + FAN_BITS = 16" "LEAF_BITS = 8" by (simp_all add: fan_defs)
  have e: "v div 256 div 65536 = v div 16777216" "v div 256 div 256 mod 256 = v div 65536 mod 256"
    by (simp_all add: div_mult2_eq [symmetric])
  show ?thesis using i u m l unfolding rt_get_def b(1,2) unfolding b(3) fan_mask drop_bit_eq_div leaf_at_def e
    by (simp add: nth_opt_Some upper_ok_def mid_ok_def)
qed

text \<open>After a copy-on-write rebuild, a vertex in a touched leaf reads its live root and any other
  vertex what the old table read.\<close>

lemma with_leaves_ok:
  assumes wf: "rt_wf (length roots) t" and touched: "sorted touched" "\<forall>l\<in>set touched. unat l * 256 < length roots"
  shows "\<exists>t'. with_leaves t touched roots = Some t' \<and> rt_wf (length roots) t' \<and>
    (\<forall>v < length roots. rt_get t' v = (if v div 256 \<in> unat ` set touched then Some (roots ! v) else rt_get t v))"
proof -
  have pre: "\<forall>l\<in>set touched. unat l * 256 \<le> length roots \<and> unat l div 65536 < length (rt_top t)"
  proof
    fix l
    assume "l \<in> set touched"
    then have l: "unat l * 256 < length roots" using touched(2) by blast
    show "unat l * 256 \<le> length roots \<and> unat l div 65536 < length (rt_top t)"
      using l vertex_index [OF wf l] by simp
  qed
  have s: "sorted (map unat touched)"
    unfolding sorted_wrt_map using touched(1) by (rule sorted_wrt_mono_rel [rotated]) (simp add: word_le_nat_alt)
  obtain tp where tp: "copy_uppers roots touched (rt_top t) = Some tp" "top_ok tp" "length tp = length (rt_top t)"
    "\<forall>i. i div 65536 < length (rt_top t) \<longrightarrow>
      leaf_at tp i = (if i \<in> unat ` set touched then fresh_leaf roots i else leaf_at (rt_top t) i)"
    using copy_uppers_ok [OF pre _ s] wf by (auto simp: rt_wf_top)
  let ?t = "\<lparr>rt_top = tp\<rparr>"
  have wf': "rt_wf (length roots) ?t" using wf tp(2,3) by (simp add: rt_wf_top)
  have "rt_get ?t v = (if v div 256 \<in> unat ` set touched then Some (roots ! v) else rt_get t v)" if v: "v < length roots" for v
  proof (cases "v div 256 \<in> unat ` set touched")
    case True
    then obtain l where l: "l \<in> set touched" "v div 256 = unat l" by blast
    obtain leaf where leaf: "copy_leaf l roots = Some leaf" "\<forall>v < length roots. v div 256 = unat l \<longrightarrow> leaf ! (v mod 256) = roots ! v"
      using copy_leaf_ok [of l roots] pre l(1) by blast
    have "fresh_leaf roots (v div 256) = leaf" using l(2) leaf(1) by (simp add: fresh_leaf_def)
    then show ?thesis
      using True rt_get_eq [OF wf' v] tp(4) vertex_index [OF wf v] leaf(2) l(2) v by simp
  next
    case False
    then show ?thesis using rt_get_eq [OF wf' v] rt_get_eq [OF wf v] tp(4) vertex_index [OF wf v] by simp
  qed
  then show ?thesis using tp(1) wf' by (simp add: with_leaves_def)
qed

lemma rt_empty_wf: "n < 2 ^ 32 \<Longrightarrow> rt_wf n (rt_empty n)"
  by (simp add: rt_wf_top rt_empty_def top_ok_def upper_ok_def mid_ok_def fan_defs Let_def)

lemma rt_empty_get:
  assumes "n < 2 ^ 32" and "v < n"
  shows "rt_get (rt_empty n) v = Some NULL_OFF"
proof -
  have "leaf_at (rt_top (rt_empty n)) (v div 256) = replicate 256 NULL_OFF"
    using vertex_index [OF rt_empty_wf [OF assms(1)] assms(2)]
    by (simp add: leaf_at_def rt_empty_def Let_def fan_defs)
  then show ?thesis using rt_get_eq [OF rt_empty_wf [OF assms(1)] assms(2)] by simp
qed

lemma from_roots_ok:
  assumes "length roots < 2 ^ 32"
  shows "\<exists>t. from_roots roots = Some t \<and> rt_wf (length roots) t \<and> (\<forall>v < length roots. rt_get t v = Some (roots ! v))"
proof -
  let ?n = "length roots"
  let ?ls = "map of_nat [0..<div_ceil ?n LEAF] :: u32 list"
  have c: "i < div_ceil ?n LEAF \<longleftrightarrow> i * 256 < ?n" for i
    by (simp add: div_ceil_less fan_defs)
  have u: "unat (of_nat i :: u32) = i" if "i * 256 < ?n" for i
    by (rule unat_of_nat_u32) (use that assms in simp)
  have set: "unat ` set ?ls = {i. i * 256 < ?n}"
  proof -
    have "set [0..<div_ceil ?n LEAF] = {i. i < div_ceil ?n LEAF}" by auto
    also have "\<dots> = {i. i * 256 < ?n}" unfolding c ..
    finally have "set [0..<div_ceil ?n LEAF] = {i. i * 256 < ?n}" .
    then have "unat ` set ?ls = (\<lambda>i. unat (of_nat i :: u32)) ` {i. i * 256 < ?n}" by (simp only: set_map image_image)
    also have "\<dots> = (\<lambda>i. i) ` {i. i * 256 < ?n}" by (rule image_cong [OF refl]) (simp add: u)
    finally show ?thesis by simp
  qed
  have s: "sorted ?ls"
    unfolding sorted_wrt_map by (rule sorted_wrt_mono_rel [OF _ sorted_upt]) (auto simp: word_le_nat_alt u c)
  have lt: "\<forall>l\<in>set ?ls. unat l * 256 < ?n" using set by blast
  obtain t where t: "with_leaves (rt_empty ?n) ?ls roots = Some t" "rt_wf ?n t"
    "\<forall>v < ?n. rt_get t v = (if v div 256 \<in> unat ` set ?ls then Some (roots ! v) else rt_get (rt_empty ?n) v)"
    using with_leaves_ok [OF rt_empty_wf [OF assms] s lt] by blast
  have "v div 256 \<in> unat ` set ?ls" if "v < ?n" for v
    unfolding set using that by (simp add: mult.commute)
  then show ?thesis using t by (auto simp: from_roots_def)
qed

subsection \<open>Properties\<close>

text \<open>C39 The incremental table of a commit is the full one: starting from a table that reads the old
  roots, re-reading the touched leaves gives a table that answers every vertex as a table built
  from all the current roots does, if every vertex whose root changed lies in a touched leaf.\<close>

theorem commit_table_equals_full:
  assumes "rt_wf (length roots) t" and "length old = length roots" and "\<forall>v < length old. rt_get t v = Some (old ! v)"
    and "sorted touched" and "\<forall>l\<in>set touched. unat l * 256 < length roots"
    and "\<forall>v < length roots. roots ! v \<noteq> old ! v \<longrightarrow> v div 256 \<in> unat ` set touched"
  shows "\<exists>t' tf. with_leaves t touched roots = Some t' \<and> from_roots roots = Some tf \<and>
    (\<forall>v < length roots. rt_get t' v = Some (roots ! v) \<and> rt_get tf v = rt_get t' v)"
proof -
  obtain t' where t': "with_leaves t touched roots = Some t'"
    "\<forall>v < length roots. rt_get t' v = (if v div 256 \<in> unat ` set touched then Some (roots ! v) else rt_get t v)"
    using with_leaves_ok [OF assms(1,4,5)] by blast
  have "length roots < 2 ^ 32" using assms(1) by (simp add: rt_wf_def)
  then obtain tf where "from_roots roots = Some tf" "\<forall>v < length roots. rt_get tf v = Some (roots ! v)"
    using from_roots_ok by blast
  moreover have "rt_get t' v = Some (roots ! v)" if "v < length roots" for v
    using t'(2) assms(2,3,6) that by (cases "v div 256 \<in> unat ` set touched") auto
  ultimately show ?thesis using t'(1) by auto
qed

theorem commit_table_equals_full_witness:
  "\<exists>t'. with_leaves (rt_empty 300) [1] (replicate 256 NULL_OFF @ replicate 44 7) = Some t' \<and>
     rt_get t' 5 = Some NULL_OFF \<and> rt_get t' 260 = Some 7"
proof -
  let ?old = "replicate 300 NULL_OFF" and ?roots = "replicate 256 NULL_OFF @ replicate 44 7"
  have ch: "v div 256 \<in> unat ` set [1 :: u32]" if "v < length ?roots" "?roots ! v \<noteq> ?old ! v" for v
  proof -
    have "256 \<le> v" using that by (cases "v < 256") (simp_all add: nth_append)
    then have "v div 256 = 1" using that(1) div_le_mono [of 256 v 256] div_le_mono [of v 300 256] by simp
    then show ?thesis by simp
  qed
  have wf: "rt_wf (length ?roots) (rt_empty 300)" using rt_empty_wf [of 300] by simp
  have g: "\<forall>v < length ?old. rt_get (rt_empty 300) v = Some (?old ! v)" using rt_empty_get [of 300] by simp
  obtain t' where "with_leaves (rt_empty 300) [1] ?roots = Some t'" "\<forall>v < length ?roots. rt_get t' v = Some (?roots ! v)"
    using commit_table_equals_full [OF wf _ g, of "[1]"] ch by auto
  then show ?thesis by (intro exI [of _ t']) (simp add: nth_append)
qed

end
