(* ===== verification/Le_Bytes.thy ===== *)
theory Le_Bytes
  imports AG_Prelude
begin

section \<open>Little-endian words and the bounds-checked byte cursor\<close>

text \<open>
  \<^verbatim>\<open>to_le_bytes\<close> and \<^verbatim>\<open>from_le_bytes\<close> of the standard library for \<open>u32\<close> and \<open>u64\<close>, and the
  \<^verbatim>\<open>ByteReader\<close> of \<^verbatim>\<open>crates/aethergraph-core/src/internal/succinct.rs\<close>: every read checks
  that its bytes are there and reports a truncation otherwise. \<open>usize\<close> is 64 bits wide.
\<close>

type_synonym bytes = "u8 list"

definition to_le_bytes :: "u32 \<Rightarrow> bytes" where
  "to_le_bytes w = [ucast w, ucast (drop_bit 8 w), ucast (drop_bit 16 w), ucast (drop_bit 24 w)]"

definition from_le_bytes :: "bytes \<Rightarrow> u32 option" where
  "from_le_bytes bs = (case bs of
     [a, b, c, d] \<Rightarrow> Some (or (ucast a) (or (push_bit 8 (ucast b)) (or (push_bit 16 (ucast c)) (push_bit 24 (ucast d)))))
   | _ \<Rightarrow> None)"

fun le_bytes64 :: "nat \<Rightarrow> u64 \<Rightarrow> bytes" where
  "le_bytes64 0 w = []"
| "le_bytes64 (Suc n) w = ucast w # le_bytes64 n (drop_bit 8 w)"

definition to_le_bytes64 :: "u64 \<Rightarrow> bytes" where
  "to_le_bytes64 w = le_bytes64 8 w"

definition from_le_bytes64 :: "bytes \<Rightarrow> u64 option" where
  "from_le_bytes64 bs =
     (if length bs = 8 then Some (foldr (\<lambda>b acc. or (ucast b) (push_bit 8 acc)) bs 0) else None)"

lemma length_to_le_bytes [simp]: "length (to_le_bytes w) = 4"
  by (simp add: to_le_bytes_def)

lemma from_to_le_bytes [simp]: "from_le_bytes (to_le_bytes w) = Some w"
proof -
  have "or (ucast (ucast w :: u8)) (or (push_bit 8 (ucast (ucast (drop_bit 8 w) :: u8)))
      (or (push_bit 16 (ucast (ucast (drop_bit 16 w) :: u8))) (push_bit 24 (ucast (ucast (drop_bit 24 w) :: u8))))) = w"
    (is "?x = w")
  proof (rule bit_word_eqI)
    fix n
    assume "n < LENGTH(32)"
    then have n: "n < 32" by simp
    show "bit ?x n \<longleftrightarrow> bit w n"
    proof (cases "n < 8 \<or> (8 \<le> n \<and> n < 16) \<or> (16 \<le> n \<and> n < 24)")
      case True
      then show ?thesis using n by (auto simp: bit_or_iff bit_push_bit_iff bit_ucast_iff bit_drop_bit_eq possible_bit_def)
    next
      case False
      then show ?thesis using n by (auto simp: bit_or_iff bit_push_bit_iff bit_ucast_iff bit_drop_bit_eq possible_bit_def)
    qed
  qed
  then show ?thesis by (simp add: from_le_bytes_def to_le_bytes_def)
qed

lemma from_le_bytes_total: "length bs = 4 \<Longrightarrow> \<exists>w. from_le_bytes bs = Some w"
  by (auto simp: from_le_bytes_def numeral_eq_Suc length_Suc_conv)

lemma length_le_bytes64 [simp]: "length (le_bytes64 n w) = n"
  by (induction n arbitrary: w) simp_all

lemma length_to_le_bytes64 [simp]: "length (to_le_bytes64 w) = 8"
  by (simp add: to_le_bytes64_def)

lemma ucast_u8_u64_bit: "bit (ucast (ucast (w :: u64) :: u8) :: u64) n \<longleftrightarrow> n < 8 \<and> bit w n"
  by (auto simp: bit_ucast_iff possible_bit_def dest: bit_imp_le_length)

lemma foldr_le_bytes64:
  "foldr (\<lambda>b acc. or (ucast b) (push_bit 8 acc)) (le_bytes64 n w) 0 = take_bit (8 * n) w"
proof (induction n arbitrary: w)
  case (Suc n)
  show ?case
    by (rule bit_word_eqI)
      (auto simp: Suc bit_or_iff bit_push_bit_iff bit_take_bit_iff bit_drop_bit_eq ucast_u8_u64_bit possible_bit_def)
qed simp

lemma from_to_le_bytes64 [simp]: "from_le_bytes64 (to_le_bytes64 w) = Some w"
  by (simp add: from_le_bytes64_def to_le_bytes64_def foldr_le_bytes64 take_bit_word_eq_self)

lemma from_le_bytes64_total: "length bs = 8 \<Longrightarrow> \<exists>w. from_le_bytes64 bs = Some w"
  by (simp add: from_le_bytes64_def)

subsection \<open>The byte cursor\<close>

datatype codec_error = Truncated nat nat | WordCountOverflow | Malformed string

record byte_reader =
  br_bytes :: bytes
  br_pos :: nat

definition br_new :: "bytes \<Rightarrow> byte_reader" where
  "br_new bs = \<lparr>br_bytes = bs, br_pos = 0\<rparr>"

definition br_take :: "byte_reader \<Rightarrow> nat \<Rightarrow> codec_error + bytes \<times> byte_reader" where
  "br_take r n =
     (let e = br_pos r + n in
      if e < 2 ^ 64 \<and> e \<le> length (br_bytes r)
      then Inr (take n (drop (br_pos r) (br_bytes r)), r\<lparr>br_pos := e\<rparr>)
      else Inl (Truncated n (br_pos r)))"

definition ok_then :: "'e + 'a \<Rightarrow> ('a \<Rightarrow> 'e + 'b) \<Rightarrow> 'e + 'b" where
  "ok_then r f = (case r of Inl e \<Rightarrow> Inl e | Inr x \<Rightarrow> f x)"

lemma ok_then_simps [simp]: "ok_then (Inl e) f = Inl e" "ok_then (Inr x) f = f x"
  by (simp_all add: ok_then_def)

definition br_u32 :: "byte_reader \<Rightarrow> codec_error + u32 \<times> byte_reader" where
  "br_u32 r = ok_then (br_take r 4) (\<lambda>(s, r). Inr (the (from_le_bytes s), r))"

definition br_u64 :: "byte_reader \<Rightarrow> codec_error + u64 \<times> byte_reader" where
  "br_u64 r = ok_then (br_take r 8) (\<lambda>(s, r). Inr (the (from_le_bytes64 s), r))"

definition br_byte_vec :: "byte_reader \<Rightarrow> codec_error + bytes \<times> byte_reader" where
  "br_byte_vec r = ok_then (br_u64 r) (\<lambda>(n, r). br_take r (unat n))"

text \<open>\<^verbatim>\<open>chunks_exact(8)\<close> mapped through \<^verbatim>\<open>from_le_bytes\<close>.\<close>

fun words_of_bytes :: "bytes \<Rightarrow> u64 list" where
  "words_of_bytes (a # b # c # d # e # f # g # h # bs) =
     the (from_le_bytes64 [a, b, c, d, e, f, g, h]) # words_of_bytes bs"
| "words_of_bytes _ = []"

definition br_u64_vec :: "byte_reader \<Rightarrow> codec_error + u64 list \<times> byte_reader" where
  "br_u64_vec r = ok_then (br_u64 r) (\<lambda>(n, r).
     if 2 ^ 64 \<le> unat n * 8 then Inl WordCountOverflow
     else ok_then (br_take r (unat n * 8)) (\<lambda>(raw, r). Inr (words_of_bytes raw, r)))"

subsection \<open>Reading back what was written\<close>

text \<open>The reader stands in front of \<open>xs\<close>: \<open>before_bytes r xs\<close>.\<close>

definition before_bytes :: "byte_reader \<Rightarrow> bytes \<Rightarrow> bool" where
  "before_bytes r xs \<longleftrightarrow> br_pos r \<le> length (br_bytes r) \<and> length (br_bytes r) < 2 ^ 64 \<and> drop (br_pos r) (br_bytes r) = xs"

definition reader_after :: "byte_reader \<Rightarrow> nat \<Rightarrow> byte_reader" where
  "reader_after r n = r\<lparr>br_pos := br_pos r + n\<rparr>"

lemma reader_after_add [simp]: "reader_after (reader_after r m) n = reader_after r (m + n)"
  by (simp add: reader_after_def)

lemma reader_after_pos [simp]: "br_pos (reader_after r n) = br_pos r + n"
  by (simp add: reader_after_def)

lemma before_new: "length bs < 2 ^ 64 \<Longrightarrow> before_bytes (br_new bs) bs"
  by (simp add: before_bytes_def br_new_def)

lemma br_new_pos [simp]: "br_pos (br_new bs) = 0"
  by (simp add: br_new_def)

lemma take_before:
  assumes "before_bytes r (xs @ ys)"
  shows "br_take r (length xs) = Inr (xs, reader_after r (length xs))"
    and "before_bytes (reader_after r (length xs)) ys"
proof -
  have d: "drop (br_pos r) (br_bytes r) = xs @ ys" and p: "br_pos r \<le> length (br_bytes r)"
    and l: "length (br_bytes r) < 2 ^ 64" using assms by (simp_all add: before_bytes_def)
  have le: "br_pos r + length xs \<le> length (br_bytes r)"
    using arg_cong [OF d, of length] p by simp
  then show "br_take r (length xs) = Inr (xs, reader_after r (length xs))"
    using d l by (simp add: br_take_def reader_after_def)
  show "before_bytes (reader_after r (length xs)) ys"
    using le l arg_cong [OF d, of "drop (length xs)"] by (simp add: before_bytes_def reader_after_def add.commute)
qed

lemma u32_before:
  assumes "before_bytes r (to_le_bytes w @ ys)"
  shows "br_u32 r = Inr (w, reader_after r 4)" and "before_bytes (reader_after r 4) ys"
  using take_before [OF assms] by (simp_all add: br_u32_def)

lemma u64_before:
  assumes "before_bytes r (to_le_bytes64 w @ ys)"
  shows "br_u64 r = Inr (w, reader_after r 8)" and "before_bytes (reader_after r 8) ys"
  using take_before [OF assms] by (simp_all add: br_u64_def)

lemma byte_vec_before:
  assumes "before_bytes r (to_le_bytes64 (of_nat (length xs)) @ xs @ ys)"
  shows "br_byte_vec r = Inr (xs, reader_after r (8 + length xs))"
    and "before_bytes (reader_after r (8 + length xs)) ys"
proof -
  note u = u64_before [OF assms]
  have "length (xs @ ys) < 2 ^ 64" using u(2) unfolding before_bytes_def by (metis drop_drop length_drop diff_le_self order_le_less_trans)
  then have n: "unat (of_nat (length xs) :: u64) = length xs" by simp
  show "br_byte_vec r = Inr (xs, reader_after r (8 + length xs))"
    using take_before(1) [OF u(2)] by (simp add: br_byte_vec_def u(1) n)
  show "before_bytes (reader_after r (8 + length xs)) ys" using take_before(2) [OF u(2)] by simp
qed

definition word_bytes :: "u64 list \<Rightarrow> bytes" where
  "word_bytes ws = concat (map to_le_bytes64 ws)"

lemma length_word_bytes [simp]: "length (word_bytes ws) = 8 * length ws"
  by (induction ws) (simp_all add: word_bytes_def)

lemma words_of_word_bytes [simp]: "words_of_bytes (word_bytes ws) = ws"
proof (induction ws)
  case (Cons w ws)
  obtain a b c d e f g h where w: "to_le_bytes64 w = [a, b, c, d, e, f, g, h]"
    by (simp add: to_le_bytes64_def numeral_eq_Suc)
  then have "from_le_bytes64 [a, b, c, d, e, f, g, h] = Some w" by (metis from_to_le_bytes64)
  then show ?case using Cons by (simp add: word_bytes_def w)
qed (simp add: word_bytes_def)

lemma u64_vec_before:
  assumes "before_bytes r (to_le_bytes64 (of_nat (length ws)) @ word_bytes ws @ ys)"
  shows "br_u64_vec r = Inr (ws, reader_after r (8 + 8 * length ws))"
    and "before_bytes (reader_after r (8 + 8 * length ws)) ys"
proof -
  note u = u64_before [OF assms]
  note t = take_before [OF u(2), unfolded length_word_bytes]
  have "length (word_bytes ws @ ys) < 2 ^ 64" using u(2) unfolding before_bytes_def by (metis drop_drop length_drop diff_le_self order_le_less_trans)
  then have n: "unat (of_nat (length ws) :: u64) = length ws" and l: "length ws * 8 < 2 ^ 64" by simp_all
  show "br_u64_vec r = Inr (ws, reader_after r (8 + 8 * length ws))"
    using t(1) l by (simp add: br_u64_vec_def u(1) n mult.commute [of _ 8])
  show "before_bytes (reader_after r (8 + 8 * length ws)) ys" using t(2) by simp
qed

subsection \<open>What a successful read consumed\<close>

lemma br_take_ok:
  "br_take r n = Inr (s, r') \<Longrightarrow> length s = n \<and> br_bytes r' = br_bytes r \<and> br_pos r' = br_pos r + n \<and> br_pos r' \<le> length (br_bytes r)"
  by (auto simp: br_take_def Let_def split: if_splits)

lemma br_u32_ok:
  "br_u32 r = Inr (s, r') \<Longrightarrow> br_bytes r' = br_bytes r \<and> br_pos r' = br_pos r + 4 \<and> br_pos r' \<le> length (br_bytes r)"
  by (auto simp: br_u32_def ok_then_def dest!: br_take_ok split: sum.splits)

lemma br_u64_ok:
  "br_u64 r = Inr (s, r') \<Longrightarrow> br_bytes r' = br_bytes r \<and> br_pos r' = br_pos r + 8 \<and> br_pos r' \<le> length (br_bytes r)"
  by (auto simp: br_u64_def ok_then_def dest!: br_take_ok split: sum.splits)

lemma br_byte_vec_ok:
  "br_byte_vec r = Inr (s, r') \<Longrightarrow> br_bytes r' = br_bytes r \<and> br_pos r' = br_pos r + 8 + length s \<and> br_pos r' \<le> length (br_bytes r)"
  by (auto simp: br_byte_vec_def ok_then_def dest!: br_take_ok br_u64_ok split: sum.splits)

lemma length_words_of_bytes: "length (words_of_bytes bs) = length bs div 8"
  by (induction bs rule: words_of_bytes.induct) auto

lemma br_u64_vec_ok:
  "br_u64_vec r = Inr (s, r') \<Longrightarrow> br_bytes r' = br_bytes r \<and> br_pos r' = br_pos r + 8 + 8 * length s \<and> br_pos r' \<le> length (br_bytes r)"
  by (auto simp: br_u64_vec_def ok_then_def length_words_of_bytes dest!: br_take_ok br_u64_ok split: sum.splits if_splits)

end
