(* ===== verification/Wal.thy ===== *)
theory Wal
  imports Le_Bytes
begin

section \<open>The write-ahead log\<close>

text \<open>
  Models \<^verbatim>\<open>crates/aether-graph/src/wal.rs\<close>. A file is its bytes in the page cache, the bytes that
  survive a crash, and the append cursor. The kernel's answers are an explicit script: each
  \<^verbatim>\<open>write\<close> consumes one answer (everything, a short count, \<^verbatim>\<open>EINTR\<close>, an error) and each
  \<^verbatim>\<open>fdatasync\<close> one success or failure; an exhausted script means success from then on. The CRC-32
  of \<^verbatim>\<open>crc32fast\<close> is the parameter \<open>crc\<close>. The replay callback threads a state \<open>'s\<close>.
\<close>

definition WAL_MAGIC :: bytes where "WAL_MAGIC = [65, 71, 87, 65, 76, 0, 0, 0]"
definition WAL_VERSION :: u32 where "WAL_VERSION = 1"
definition HEADER_LEN :: nat where "HEADER_LEN = 16"
definition RECORD_LEN :: nat where "RECORD_LEN = 12"
definition BUF_CAPACITY :: nat where "BUF_CAPACITY = 2 ^ 20"

datatype wal_error =
    WalIo
  | BadMagic bytes
  | Locked
  | UnknownVersion u32
  | RecordOutOfRange u32 u32 nat
  | ReplayArenaFull

record edge_record =
  er_src :: u32
  er_dst :: u32

subsection \<open>The file\<close>

datatype write_answer = WAll | WShort nat | WIntr | WFail

record log_file =
  fl_data :: bytes
  fl_durable :: bytes
  fl_pos :: nat
  fl_writes :: "write_answer list"
  fl_syncs :: "bool list"

datatype io_count = IoCount nat | IoInterrupted | IoFailed

definition file_put :: "log_file \<Rightarrow> bytes \<Rightarrow> log_file" where
  "file_put f bs = f\<lparr>fl_data := take (fl_pos f) (fl_data f) @ bs @ drop (fl_pos f + length bs) (fl_data f),
     fl_pos := fl_pos f + length bs\<rparr>"

definition file_write :: "log_file \<Rightarrow> bytes \<Rightarrow> log_file \<times> io_count" where
  "file_write f bs =
     (let (a, rest) = (case fl_writes f of [] \<Rightarrow> (WAll, []) | a # rest \<Rightarrow> (a, rest));
          f = f\<lparr>fl_writes := rest\<rparr>
      in case a of
           WAll \<Rightarrow> (file_put f bs, IoCount (length bs))
         | WShort n \<Rightarrow> (file_put f (take n bs), IoCount (min n (length bs)))
         | WIntr \<Rightarrow> (f, IoInterrupted)
         | WFail \<Rightarrow> (f, IoFailed))"

definition file_sync :: "log_file \<Rightarrow> log_file \<times> bool" where
  "file_sync f =
     (let (ok, rest) = (case fl_syncs f of [] \<Rightarrow> (True, []) | a # rest \<Rightarrow> (a, rest));
          f = f\<lparr>fl_syncs := rest\<rparr>
      in if ok then (f\<lparr>fl_durable := fl_data f\<rparr>, True) else (f, False))"

definition file_set_len :: "log_file \<Rightarrow> nat \<Rightarrow> log_file" where
  "file_set_len f n = f\<lparr>fl_data := take n (fl_data f) @ replicate (n - length (fl_data f)) 0\<rparr>"

definition file_seek :: "log_file \<Rightarrow> nat \<Rightarrow> log_file" where
  "file_seek f n = f\<lparr>fl_pos := n\<rparr>"

definition file_seek_end :: "log_file \<Rightarrow> log_file" where
  "file_seek_end f = f\<lparr>fl_pos := length (fl_data f)\<rparr>"

text \<open>\<^verbatim>\<open>write_all\<close> of the standard library: it retries interrupts and fails on a zero count.\<close>

function write_all :: "log_file \<Rightarrow> bytes \<Rightarrow> log_file \<times> bool" where
  "write_all f bs =
     (if bs = [] then (f, True)
      else case file_write f bs of
          (f', IoCount n) \<Rightarrow> if n = 0 then (f', False) else write_all f' (drop n bs)
        | (f', IoInterrupted) \<Rightarrow> write_all f' bs
        | (f', IoFailed) \<Rightarrow> (f', False))"
  by pat_completeness auto

lemma file_write_shrinks:
  assumes "file_write f bs = (f', IoInterrupted)"
  shows "length (fl_writes f') < length (fl_writes f)"
  using assms by (cases "fl_writes f") (auto simp: file_write_def file_put_def Let_def split: write_answer.splits)

termination write_all
proof (relation "measures [\<lambda>(f, bs). length bs, \<lambda>(f, bs). length (fl_writes f)]", simp, goal_cases)
  case 1
  then show ?case by simp
next
  case 2
  then show ?case by (auto dest: file_write_shrinks [OF sym])
qed

declare write_all.simps [simp del]

subsection \<open>The writer\<close>

text \<open>The ring of the linked write and sync: compiled out or probed without success, not probed yet,
  or ready; its answers are a script of completed pairs.\<close>

datatype ring_state = RingNone | RingUnprobed | RingReady
datatype ring_answer = RingDone int int | RingLost

record wal_writer =
  ww_file :: log_file
  ww_buf :: bytes
  ww_pending :: nat
  ww_ring :: ring_state
  ww_ring_works :: bool
  ww_ring_script :: "ring_answer list"

definition write_some :: "wal_writer \<Rightarrow> nat \<Rightarrow> wal_writer \<times> io_count" where
  "write_some w from' = (let (f, r) = file_write (ww_file w) (drop from' (ww_buf w)) in (w\<lparr>ww_file := f\<rparr>, r))"

definition drain_front :: "wal_writer \<Rightarrow> nat \<Rightarrow> wal_writer" where
  "drain_front w n = w\<lparr>ww_buf := drop n (ww_buf w)\<rparr>"

function flush_loop :: "wal_writer \<Rightarrow> nat \<Rightarrow> wal_writer \<times> (wal_error + unit)" where
  "flush_loop w written =
     (if written < length (ww_buf w)
      then case write_some w written of
          (w', IoCount n) \<Rightarrow> if n = 0 then (drain_front w' written, Inl WalIo) else flush_loop w' (written + n)
        | (w', IoInterrupted) \<Rightarrow> flush_loop w' written
        | (w', IoFailed) \<Rightarrow> (drain_front w' written, Inl WalIo)
      else (w\<lparr>ww_buf := []\<rparr>, Inr ()))"
  by pat_completeness auto

lemma write_some_buf: "write_some w k = (w', r) \<Longrightarrow> ww_buf w' = ww_buf w"
  by (auto simp: write_some_def split: prod.splits)

lemma write_some_shrinks:
  "write_some w k = (w', IoInterrupted) \<Longrightarrow> length (fl_writes (ww_file w')) < length (fl_writes (ww_file w))"
  using file_write_shrinks [of "ww_file w" "drop k (ww_buf w)"] by (auto simp: write_some_def split: prod.splits)

termination flush_loop
proof (relation "measures [\<lambda>(w, k). length (ww_buf w) - k, \<lambda>(w, k). length (fl_writes (ww_file w))]", simp, goal_cases)
  case 1
  then show ?case by (auto dest: write_some_buf [OF sym])
next
  case 2
  then show ?case by (auto dest: write_some_buf [OF sym] write_some_shrinks [OF sym])
qed

declare flush_loop.simps [simp del]

definition flush_buf :: "wal_writer \<Rightarrow> wal_writer \<times> (wal_error + unit)" where
  "flush_buf w = flush_loop w 0"

definition encode_record :: "(bytes \<Rightarrow> u32) \<Rightarrow> u32 \<Rightarrow> u32 \<Rightarrow> bytes" where
  "encode_record crc src dst =
     (let payload = to_le_bytes src @ to_le_bytes dst in payload @ to_le_bytes (crc payload))"

definition append_edges :: "(bytes \<Rightarrow> u32) \<Rightarrow> wal_writer \<Rightarrow> u32 \<Rightarrow> u32 list \<Rightarrow> wal_writer \<times> (wal_error + unit)" where
  "append_edges crc w src dsts =
     (let need = length dsts * RECORD_LEN;
          (w, r) = (if ww_buf w \<noteq> [] \<and> BUF_CAPACITY < length (ww_buf w) + need then flush_buf w else (w, Inr ()))
      in case r of
           Inl e \<Rightarrow> (w, Inl e)
         | Inr _ \<Rightarrow> (w\<lparr>ww_buf := ww_buf w @ concat (map (encode_record crc src) dsts),
                       ww_pending := ww_pending w + need\<rparr>, Inr ()))"

definition append_edge :: "(bytes \<Rightarrow> u32) \<Rightarrow> wal_writer \<Rightarrow> edge_record \<Rightarrow> wal_writer \<times> (wal_error + unit)" where
  "append_edge crc w rec = append_edges crc w (er_src rec) [er_dst rec]"

text \<open>The flush and the sync that both commit paths share.\<close>

definition flush_and_sync :: "wal_writer \<Rightarrow> wal_writer \<times> (wal_error + unit)" where
  "flush_and_sync w =
     (case flush_buf w of
        (w, Inl e) \<Rightarrow> (w, Inl e)
      | (w, Inr _) \<Rightarrow>
          (case file_sync (ww_file w) of
             (f, False) \<Rightarrow> (w\<lparr>ww_file := f\<rparr>, Inl WalIo)
           | (f, True) \<Rightarrow> (w\<lparr>ww_file := f, ww_pending := 0\<rparr>, Inr ())))"

definition sync_uring :: "wal_writer \<Rightarrow> wal_writer \<times> (wal_error + bool)" where
  "sync_uring w =
     (let w = (if ww_ring w = RingUnprobed
               then w\<lparr>ww_ring := (if ww_ring_works w then RingReady else RingNone)\<rparr> else w)
      in if ww_ring w \<noteq> RingReady then (w, Inr False)
      else let len = length (ww_buf w) in
        if len = 0 then
          (case file_sync (ww_file w) of
             (f, False) \<Rightarrow> (w\<lparr>ww_file := f\<rparr>, Inl WalIo)
           | (f, True) \<Rightarrow> (w\<lparr>ww_file := f, ww_pending := 0\<rparr>, Inr True))
        else
          let (a, rest) = (case ww_ring_script w of [] \<Rightarrow> (RingDone (int len) 0, []) | a # rest \<Rightarrow> (a, rest));
              w = w\<lparr>ww_ring_script := rest\<rparr>
          in case a of
               RingLost \<Rightarrow> (w\<lparr>ww_buf := [], ww_ring := RingNone\<rparr>, Inl WalIo)
             | RingDone written synced \<Rightarrow>
                 if written < 0 then (w, Inl WalIo)
                 else
                   let n = min (nat written) len;
                       f = file_put (ww_file w) (take n (ww_buf w));
                       f = (if n = len \<and> 0 \<le> synced then f\<lparr>fl_durable := fl_data f\<rparr> else f);
                       w = w\<lparr>ww_file := f\<rparr>
                   in if n < len then
                        (case flush_and_sync (drain_front w n) of
                           (w, Inl e) \<Rightarrow> (w, Inl e)
                         | (w, Inr _) \<Rightarrow> (w, Inr True))
                      else if synced < 0 then (w, Inl WalIo)
                      else (w\<lparr>ww_buf := [], ww_pending := 0\<rparr>, Inr True))"

definition wal_sync :: "wal_writer \<Rightarrow> wal_writer \<times> (wal_error + unit)" where
  "wal_sync w =
     (if ww_pending w = 0 then (w, Inr ())
      else case sync_uring w of
          (w, Inl e) \<Rightarrow> (w, Inl e)
        | (w, Inr True) \<Rightarrow> (w, Inr ())
        | (w, Inr False) \<Rightarrow> flush_and_sync w)"

definition discard_pending :: "wal_writer \<Rightarrow> wal_writer" where
  "discard_pending w = w\<lparr>ww_buf := [], ww_pending := 0\<rparr>"

definition wal_drop :: "wal_writer \<Rightarrow> wal_writer" where
  "wal_drop w = fst (wal_sync w)"

subsection \<open>Opening\<close>

definition wal_header :: bytes where
  "wal_header = WAL_MAGIC @ to_le_bytes WAL_VERSION @ [0, 0, 0, 0]"

text \<open>The check of the first sixteen bytes, shared by the writer and the reader.\<close>

definition check_header :: "bytes \<Rightarrow> (wal_error + unit) option" where
  "check_header header =
     (let magic = take 8 header in
      if magic \<noteq> WAL_MAGIC then Some (Inl (BadMagic magic))
      else do {
        version \<leftarrow> from_le_bytes (take 4 (drop 8 header));
        Some (if version \<noteq> WAL_VERSION then Inl (UnknownVersion version) else Inr ()) })"

text \<open>\<open>locked\<close> says that another holder has the lock. The directory entry's sync consumes one answer
  of the script like the file's.\<close>

definition create_or_open :: "log_file \<Rightarrow> bool \<Rightarrow> ring_state \<Rightarrow> bool \<Rightarrow> (log_file \<times> (wal_error + wal_writer)) option" where
  "create_or_open f locked ring works =
     (let ready = (\<lambda>f. \<lparr>ww_file = file_seek_end f, ww_buf = [], ww_pending = 0, ww_ring = ring,
                        ww_ring_works = works, ww_ring_script = []\<rparr>)
      in if locked then Some (f, Inl Locked)
      else let len = length (fl_data f); f = file_seek f 0 in
        if len < HEADER_LEN then
          let f = (if len \<noteq> 0 then file_set_len f 0 else f);
              (f, ok) = write_all f wal_header
          in if \<not> ok then Some (f, Inl WalIo)
             else let (f, ok) = file_sync f in
               if \<not> ok then Some (f, Inl WalIo)
               else let (f, ok) = file_sync f in
                 if \<not> ok then Some (f, Inl WalIo) else Some (f, Inr (ready f))
        else do {
          r \<leftarrow> check_header (take HEADER_LEN (fl_data f));
          Some (case r of Inl e \<Rightarrow> (f, Inl e) | Inr _ \<Rightarrow> (f, Inr (ready f))) })"

subsection \<open>Replay\<close>

record replay_outcome =
  ro_applied :: nat
  ro_truncate_to :: "nat option"

text \<open>\<open>fault\<close> says that reading past the given bytes fails instead of ending.\<close>

function replay_loop :: "(bytes \<Rightarrow> u32) \<Rightarrow> ('s \<Rightarrow> edge_record \<Rightarrow> ('s \<times> (wal_error + unit)) option) \<Rightarrow> 's \<Rightarrow> bytes \<Rightarrow> bool
    \<Rightarrow> nat \<Rightarrow> nat \<Rightarrow> nat \<Rightarrow> ('s \<times> (wal_error + replay_outcome)) option" where
  "replay_loop crc app s reader fault total_len applied offset =
     (if length reader < RECORD_LEN then
        if fault then Some (s, Inl WalIo)
        else if offset \<noteq> total_len then Some (s, Inr \<lparr>ro_applied = applied, ro_truncate_to = Some offset\<rparr>)
        else Some (s, Inr \<lparr>ro_applied = applied, ro_truncate_to = None\<rparr>)
      else
        let buf = take RECORD_LEN reader in do {
          recorded \<leftarrow> from_le_bytes (take 4 (drop 8 buf));
          if recorded \<noteq> crc (take 8 buf)
          then Some (s, Inr \<lparr>ro_applied = applied, ro_truncate_to = Some offset\<rparr>)
          else do {
            src \<leftarrow> from_le_bytes (take 4 buf);
            dst \<leftarrow> from_le_bytes (take 4 (drop 4 buf));
            (s, r) \<leftarrow> app s \<lparr>er_src = src, er_dst = dst\<rparr>;
            (case r of
               Inl e \<Rightarrow> Some (s, Inl e)
             | Inr _ \<Rightarrow> replay_loop crc app s (drop RECORD_LEN reader) fault total_len (applied + 1) (offset + RECORD_LEN)) } })"
  by pat_completeness auto

termination replay_loop
  by (relation "measure (\<lambda>(_, _, _, reader, _). length reader)") (auto simp: RECORD_LEN_def)

declare replay_loop.simps [simp del]

text \<open>\<open>after\<close> is what the file holds past the header; the reader takes \<open>total_len - 16\<close> bytes of it.\<close>

definition replay_records :: "(bytes \<Rightarrow> u32) \<Rightarrow> ('s \<Rightarrow> edge_record \<Rightarrow> ('s \<times> (wal_error + unit)) option) \<Rightarrow> 's \<Rightarrow> bytes \<Rightarrow> bool
    \<Rightarrow> nat \<Rightarrow> ('s \<times> (wal_error + replay_outcome)) option" where
  "replay_records crc app s after fault total_len = do {
     assert_opt (HEADER_LEN \<le> total_len);
     replay_loop crc app s (take (total_len - HEADER_LEN) after) fault total_len 0 HEADER_LEN }"

definition wal_replay :: "(bytes \<Rightarrow> u32) \<Rightarrow> ('s \<Rightarrow> edge_record \<Rightarrow> ('s \<times> (wal_error + unit)) option) \<Rightarrow> 's \<Rightarrow> bytes option \<Rightarrow> bool
    \<Rightarrow> ('s \<times> (wal_error + replay_outcome)) option" where
  "wal_replay crc app s path fault =
     (case path of
        None \<Rightarrow> Some (s, Inr \<lparr>ro_applied = 0, ro_truncate_to = None\<rparr>)
      | Some data \<Rightarrow>
          let total_len = length data in
          if total_len = 0 then Some (s, Inr \<lparr>ro_applied = 0, ro_truncate_to = None\<rparr>)
          else if total_len < HEADER_LEN then Some (s, Inr \<lparr>ro_applied = 0, ro_truncate_to = Some 0\<rparr>)
          else do {
            r \<leftarrow> check_header (take HEADER_LEN data);
            (case r of
               Inl e \<Rightarrow> Some (s, Inl e)
             | Inr _ \<Rightarrow> replay_records crc app s (drop HEADER_LEN data) fault total_len) })"

definition open_replaying :: "(bytes \<Rightarrow> u32) \<Rightarrow> ('s \<Rightarrow> edge_record \<Rightarrow> ('s \<times> (wal_error + unit)) option) \<Rightarrow> 's \<Rightarrow> log_file \<Rightarrow> bool
    \<Rightarrow> ring_state \<Rightarrow> bool \<Rightarrow> bool \<Rightarrow> ('s \<times> log_file \<times> (wal_error + wal_writer \<times> replay_outcome)) option" where
  "open_replaying crc app s f locked ring works fault = do {
     (f, r) \<leftarrow> create_or_open f locked ring works;
     (case r of
        Inl e \<Rightarrow> Some (s, f, Inl e)
      | Inr wal \<Rightarrow>
          let f = ww_file wal; total_len = length (fl_data f); f = file_seek f HEADER_LEN in do {
            (s, r) \<leftarrow> replay_records crc app s (drop HEADER_LEN (fl_data f)) fault total_len;
            (case r of
               Inl e \<Rightarrow> Some (s, f, Inl e)
             | Inr outcome \<Rightarrow>
                 (case ro_truncate_to outcome of
                    None \<Rightarrow> let f = file_seek_end f in Some (s, f, Inr (wal\<lparr>ww_file := f\<rparr>, outcome))
                  | Some off \<Rightarrow>
                      let (f, ok) = file_sync (file_set_len f off) in
                      if \<not> ok then Some (s, f, Inl WalIo)
                      else let f = file_seek_end f in Some (s, f, Inr (wal\<lparr>ww_file := f\<rparr>, outcome)))) }) }"

end
