(* ===== verification/Wal_Properties.thy ===== *)
theory Wal_Properties
  imports Wal
begin

section \<open>What the log keeps and what recovery reads back\<close>

text \<open>
  The lemmas on \<open>Wal\<close>. \<open>log_state crc w es\<close>: the bytes the file has and the bytes still staged are,
  together, the header and the encoded records \<open>es\<close>, and the surviving bytes are a prefix of the
  file's. Every append keeps it, whatever the kernel answers; a successful sync makes all of it
  survive; and recovery from any crash image delivers a prefix of \<open>es\<close> that holds every synced
  record.
\<close>

subsection \<open>Records\<close>

definition encode :: "(bytes \<Rightarrow> u32) \<Rightarrow> edge_record \<Rightarrow> bytes" where
  "encode crc r = encode_record crc (er_src r) (er_dst r)"

definition encode_all :: "(bytes \<Rightarrow> u32) \<Rightarrow> edge_record list \<Rightarrow> bytes" where
  "encode_all crc rs = concat (map (encode crc) rs)"

lemma length_encode [simp]: "length (encode crc r) = 12"
  by (simp add: encode_def encode_record_def Let_def)

lemma length_encode_record [simp]: "length (encode_record crc s d) = 12"
  by (simp add: encode_record_def Let_def)

lemma encode_all_append [simp]: "encode_all crc (xs @ ys) = encode_all crc xs @ encode_all crc ys"
  by (simp add: encode_all_def)

lemma encode_all_Cons [simp]: "encode_all crc (x # xs) = encode crc x @ encode_all crc xs"
  by (simp add: encode_all_def)

lemma encode_all_Nil [simp]: "encode_all crc [] = []"
  by (simp add: encode_all_def)

lemma length_encode_all [simp]: "length (encode_all crc rs) = 12 * length rs"
  by (induction rs) simp_all

lemma encode_fields:
  "take 4 (encode crc r) = to_le_bytes (er_src r)"
  "take 4 (drop 4 (encode crc r)) = to_le_bytes (er_dst r)"
  "take 8 (encode crc r) = to_le_bytes (er_src r) @ to_le_bytes (er_dst r)"
  "take 4 (drop 8 (encode crc r)) = to_le_bytes (crc (to_le_bytes (er_src r) @ to_le_bytes (er_dst r)))"
  by (simp_all add: encode_def encode_record_def Let_def)

lemma length_wal_header [simp]: "length wal_header = 16"
  by (simp add: wal_header_def WAL_MAGIC_def)

lemma check_wal_header [simp]: "check_header wal_header = Some (Inr ())"
  by (simp add: check_header_def wal_header_def WAL_MAGIC_def)

subsection \<open>Replay of a log with a torn tail\<close>

fun apply_all :: "('s \<Rightarrow> edge_record \<Rightarrow> ('s \<times> (wal_error + unit)) option) \<Rightarrow> 's \<Rightarrow> edge_record list
    \<Rightarrow> ('s \<times> (wal_error + unit)) option" where
  "apply_all app s [] = Some (s, Inr ())"
| "apply_all app s (r # rs) = do {
     (s, x) \<leftarrow> app s r;
     (case x of Inl e \<Rightarrow> Some (s, Inl e) | Inr _ \<Rightarrow> apply_all app s rs) }"

text \<open>No complete record with a matching checksum at the front.\<close>

definition torn_tail :: "(bytes \<Rightarrow> u32) \<Rightarrow> bytes \<Rightarrow> bool" where
  "torn_tail crc tail \<longleftrightarrow> length tail < RECORD_LEN \<or> from_le_bytes (take 4 (drop 8 tail)) \<noteq> Some (crc (take 8 tail))"

lemma replay_loop_ok:
  assumes "torn_tail crc tail" and "tot = off + 12 * length rs + length tail"
  shows "replay_loop crc app s (encode_all crc rs @ tail) False tot applied off =
    do { (s, x) \<leftarrow> apply_all app s rs;
         Some (s, case x of Inl e \<Rightarrow> Inl e
           | Inr _ \<Rightarrow> Inr \<lparr>ro_applied = applied + length rs,
               ro_truncate_to = (if tail = [] then None else Some (off + 12 * length rs))\<rparr>) }"
  using assms(2)
proof (induction rs arbitrary: s applied off)
  case Nil
  show ?case
  proof (cases "length tail < RECORD_LEN")
    case True
    then show ?thesis using Nil by (subst replay_loop.simps) simp
  next
    case False
    then have l: "12 \<le> length tail" by (simp add: RECORD_LEN_def)
    then have "length (take 4 (drop 8 tail)) = 4" by simp
    then obtain w where w: "from_le_bytes (take 4 (drop 8 tail)) = Some w" using from_le_bytes_total by blast
    then have "w \<noteq> crc (take 8 tail)" using assms(1) False by (simp add: torn_tail_def)
    moreover have "take 4 (drop 8 (take 12 tail)) = take 4 (drop 8 tail)" "take 8 (take 12 tail) = take 8 tail"
      by (simp_all add: drop_take min_def)
    moreover have "tail \<noteq> []" using l by auto
    ultimately show ?thesis using False w by (subst replay_loop.simps) (simp add: RECORD_LEN_def Let_def)
  qed
next
  case (Cons r rs)
  have t: "take 12 (encode_all crc (r # rs) @ tail) = encode crc r" "drop 12 (encode_all crc (r # rs) @ tail) = encode_all crc rs @ tail"
    by simp_all
  have nl: "\<not> length (encode_all crc (r # rs) @ tail) < RECORD_LEN" by (simp add: RECORD_LEN_def)
  have R: "\<lparr>er_src = er_src r, er_dst = er_dst r\<rparr> = r" by simp
  have step: "replay_loop crc app s (encode_all crc (r # rs) @ tail) False tot applied off =
     do { (s, x) \<leftarrow> app s r;
       (case x of Inl e \<Rightarrow> Some (s, Inl e)
          | Inr _ \<Rightarrow> replay_loop crc app s (encode_all crc rs @ tail) False tot (applied + 1) (off + 12)) }"
    apply (subst replay_loop.simps)
    unfolding if_not_P [OF nl] Let_def RECORD_LEN_def t encode_fields from_to_le_bytes
    by (simp add: R cong: option.case_cong)
  have IH: "replay_loop crc app s' (encode_all crc rs @ tail) False tot (applied + 1) (off + 12) =
    do { (s, x) \<leftarrow> apply_all app s' rs;
         Some (s, case x of Inl e \<Rightarrow> Inl e
           | Inr _ \<Rightarrow> Inr \<lparr>ro_applied = applied + 1 + length rs,
               ro_truncate_to = (if tail = [] then None else Some (off + 12 + 12 * length rs))\<rparr>) }" for s'
    using Cons.prems by (intro Cons.IH) simp
  show ?case unfolding step IH by (auto split: sum.splits bind_splits)
qed

lemma wal_replay_ok:
  assumes "torn_tail crc tail"
  shows "wal_replay crc app s (Some (wal_header @ encode_all crc rs @ tail)) False =
    do { (s, x) \<leftarrow> apply_all app s rs;
         Some (s, case x of Inl e \<Rightarrow> Inl e
           | Inr _ \<Rightarrow> Inr \<lparr>ro_applied = length rs, ro_truncate_to = (if tail = [] then None else Some (16 + 12 * length rs))\<rparr>) }"
proof -
  let ?d = "wal_header @ encode_all crc rs @ tail"
  have h: "take HEADER_LEN ?d = wal_header" "drop HEADER_LEN ?d = encode_all crc rs @ tail" by (simp_all add: HEADER_LEN_def)
  have l: "\<not> length ?d = 0" "\<not> length ?d < HEADER_LEN" "HEADER_LEN \<le> length ?d" by (simp_all add: HEADER_LEN_def)
  have tk: "take (length ?d - HEADER_LEN) (encode_all crc rs @ tail) = encode_all crc rs @ tail" by (simp add: HEADER_LEN_def)
  have "wal_replay crc app s (Some ?d) False = replay_loop crc app s (encode_all crc rs @ tail) False (length ?d) 0 HEADER_LEN"
    unfolding wal_replay_def option.case Let_def if_not_P [OF l(1)] if_not_P [OF l(2)] h replay_records_def tk
    using l(3) by simp
  also have "\<dots> = do { (s, x) \<leftarrow> apply_all app s rs;
         Some (s, case x of Inl e \<Rightarrow> Inl e
           | Inr _ \<Rightarrow> Inr \<lparr>ro_applied = 0 + length rs, ro_truncate_to = (if tail = [] then None else Some (HEADER_LEN + 12 * length rs))\<rparr>) }"
    by (rule replay_loop_ok [OF assms]) (simp add: HEADER_LEN_def)
  finally show ?thesis unfolding HEADER_LEN_def add_0 .
qed

subsection \<open>The invariant of the log\<close>

definition log_state :: "(bytes \<Rightarrow> u32) \<Rightarrow> wal_writer \<Rightarrow> edge_record list \<Rightarrow> bool" where
  "log_state crc w rs \<longleftrightarrow> fl_pos (ww_file w) = length (fl_data (ww_file w)) \<and>
     fl_data (ww_file w) @ ww_buf w = wal_header @ encode_all crc rs \<and>
     prefix (fl_durable (ww_file w)) (fl_data (ww_file w)) \<and>
     (ww_pending w = 0 \<longrightarrow> ww_buf w = [] \<and> fl_durable (ww_file w) = fl_data (ww_file w))"

text \<open>One file is another with \<open>bs\<close> appended and fewer scripted answers.\<close>

definition file_grew :: "log_file \<Rightarrow> bytes \<Rightarrow> log_file \<Rightarrow> bool" where
  "file_grew f bs f' \<longleftrightarrow> fl_data f' = fl_data f @ bs \<and> fl_durable f' = fl_durable f \<and>
     (fl_pos f = length (fl_data f) \<longrightarrow> fl_pos f' = length (fl_data f'))"

lemma file_put_grew: "fl_pos f = length (fl_data f) \<Longrightarrow> file_grew f bs (file_put f bs)"
  by (simp add: file_grew_def file_put_def)

lemma file_grew_trans: "file_grew f bs f' \<Longrightarrow> file_grew f' cs f'' \<Longrightarrow> file_grew f (bs @ cs) f''"
  by (auto simp: file_grew_def)

lemma file_write_cases:
  assumes "file_write f bs = (f', r)" and "fl_pos f = length (fl_data f)"
  shows "(\<exists>n. r = IoCount n \<and> n \<le> length bs \<and> file_grew f (take n bs) f') \<or>
    ((r = IoInterrupted \<or> r = IoFailed) \<and> file_grew f [] f')"
proof -
  have g: "file_grew f cs (file_put (f\<lparr>fl_writes := ws\<rparr>) cs)" for cs ws
    using assms(2) by (simp add: file_grew_def file_put_def)
  have g0: "file_grew f [] (f\<lparr>fl_writes := ws\<rparr>)" for ws by (simp add: file_grew_def)
  show ?thesis
  proof (cases "fl_writes f")
    case Nil
    then show ?thesis using assms(1) g [of bs] by (auto simp: file_write_def)
  next
    case (Cons a rest)
    show ?thesis
    proof (cases a)
      case WAll
      then show ?thesis using assms(1) Cons g [of bs] by (auto simp: file_write_def)
    next
      case (WShort n)
      have "take (min n (length bs)) bs = take n bs" by (simp add: min_def)
      then show ?thesis using assms(1) Cons WShort g [of "take n bs"] by (auto simp: file_write_def)
    qed (use assms(1) Cons g0 in \<open>auto simp: file_write_def\<close>)
  qed
qed

lemma flush_loop_ok:
  assumes "flush_loop w k = (w', r)" and "k \<le> length (ww_buf w)" and "fl_pos (ww_file w) = length (fl_data (ww_file w))"
  shows "\<exists>n. k \<le> n \<and> n \<le> length (ww_buf w) \<and>
    file_grew (ww_file w) (take (n - k) (drop k (ww_buf w))) (ww_file w') \<and> ww_buf w' = drop n (ww_buf w) \<and>
    ww_pending w' = ww_pending w \<and> ww_ring w' = ww_ring w \<and> (r = Inr () \<longrightarrow> ww_buf w' = [])"
  using assms
proof (induction w k arbitrary: w' r rule: flush_loop.induct)
  case (1 w k)
  show ?case
  proof (cases "k < length (ww_buf w)")
    case False
    then have "w' = w\<lparr>ww_buf := []\<rparr>" using "1.prems"(1) by (subst (asm) flush_loop.simps) simp
    then show ?thesis using False "1.prems"(2) by (intro exI [of _ k]) (simp add: file_grew_def)
  next
    case True
    obtain w1 a where ws: "write_some w k = (w1, a)" by fastforce
    obtain f1 where f1: "file_write (ww_file w) (drop k (ww_buf w)) = (f1, a)" "w1 = w\<lparr>ww_file := f1\<rparr>"
      using ws by (auto simp: write_some_def split: prod.splits)
    note fw = file_write_cases [OF f1(1) "1.prems"(3)]
    have stop: ?thesis if "w' = drain_front w1 k" "file_grew (ww_file w) [] f1" "r = Inl WalIo"
      using that f1(2) "1.prems"(2) by (intro exI [of _ k]) (simp add: drain_front_def)
    show ?thesis
    proof (cases a)
      case (IoCount n)
      then have n: "n \<le> length (ww_buf w) - k" "file_grew (ww_file w) (take n (drop k (ww_buf w))) f1" using fw by auto
      show ?thesis
      proof (cases "n = 0")
        case True
        then show ?thesis using \<open>k < length (ww_buf w)\<close> "1.prems"(1) ws IoCount n(2) stop
          by (subst (asm) flush_loop.simps) simp
      next
        case False
        have run: "flush_loop w1 (k + n) = (w', r)"
          using True "1.prems"(1) ws IoCount False by (subst (asm) flush_loop.simps) simp
        have pre: "k + n \<le> length (ww_buf w1)" "fl_pos (ww_file w1) = length (fl_data (ww_file w1))"
          using n True "1.prems"(3) f1(2) by (auto simp: file_grew_def)
        obtain m where m: "k + n \<le> m" "m \<le> length (ww_buf w)"
          "file_grew f1 (take (m - (k + n)) (drop (k + n) (ww_buf w))) (ww_file w')"
          "ww_buf w' = drop m (ww_buf w)" "ww_pending w' = ww_pending w" "ww_ring w' = ww_ring w" "r = Inr () \<longrightarrow> ww_buf w' = []"
          using "1.IH"(1) [OF True ws [symmetric] IoCount False run pre] f1(2) by auto
        have "take n (drop k (ww_buf w)) @ take (m - (k + n)) (drop (k + n) (ww_buf w)) = take (m - k) (drop k (ww_buf w))"
          using m(1) take_add [of n "m - (k + n)" "drop k (ww_buf w)"] by (simp add: add.commute)
        then have "file_grew (ww_file w) (take (m - k) (drop k (ww_buf w))) (ww_file w')"
          using file_grew_trans [OF n(2) m(3)] by simp
        then show ?thesis using m by (intro exI [of _ m]) simp
      qed
    next
      case IoInterrupted
      then have g: "file_grew (ww_file w) [] f1" using fw by auto
      have run: "flush_loop w1 k = (w', r)"
        using True "1.prems"(1) ws IoInterrupted by (subst (asm) flush_loop.simps) simp
      have pre: "k \<le> length (ww_buf w1)" "fl_pos (ww_file w1) = length (fl_data (ww_file w1))"
        using g True "1.prems"(3) f1(2) by (auto simp: file_grew_def)
      obtain m where m: "k \<le> m" "m \<le> length (ww_buf w)" "file_grew f1 (take (m - k) (drop k (ww_buf w))) (ww_file w')"
        "ww_buf w' = drop m (ww_buf w)" "ww_pending w' = ww_pending w" "ww_ring w' = ww_ring w" "r = Inr () \<longrightarrow> ww_buf w' = []"
        using "1.IH"(2) [OF True ws [symmetric] IoInterrupted run pre] f1(2) by auto
      show ?thesis using m file_grew_trans [OF g m(3)] by (intro exI [of _ m]) simp
    next
      case IoFailed
      then show ?thesis using True "1.prems"(1) ws fw stop by (subst (asm) flush_loop.simps) auto
    qed
  qed
qed

text \<open>A flush moves bytes from the buffer to the file and loses none; on success the buffer is empty.\<close>

lemma flush_buf_ok:
  assumes "flush_buf w = (w', r)" and "fl_pos (ww_file w) = length (fl_data (ww_file w))"
  shows "fl_pos (ww_file w') = length (fl_data (ww_file w'))"
    and "fl_data (ww_file w') @ ww_buf w' = fl_data (ww_file w) @ ww_buf w"
    and "prefix (fl_data (ww_file w)) (fl_data (ww_file w'))"
    and "fl_durable (ww_file w') = fl_durable (ww_file w)" and "ww_pending w' = ww_pending w" and "ww_ring w' = ww_ring w"
    and "r = Inr () \<Longrightarrow> ww_buf w' = []"
  using flush_loop_ok [OF assms(1) [unfolded flush_buf_def] _ assms(2)] assms(2) by (auto simp: file_grew_def)

lemma flush_loop_err: "flush_loop w k = (w', Inl e) \<Longrightarrow> e = WalIo"
proof (induction w k rule: flush_loop.induct)
  case (1 w k)
  then show ?case
    by (subst (asm) (3) flush_loop.simps) (auto split: if_splits prod.splits io_count.splits)
qed

lemma flush_err: "flush_buf w = (w', Inl e) \<Longrightarrow> e = WalIo"
  unfolding flush_buf_def by (rule flush_loop_err)

text \<open>An append adds its records or, on an error, none; either way the log stays whole.\<close>

lemma append_edges_ok:
  assumes "append_edges crc w src dsts = (w', r)" and "log_state crc w rs"
  shows "(r = Inr () \<and> log_state crc w' (rs @ map (\<lambda>d. \<lparr>er_src = src, er_dst = d\<rparr>) dsts)) \<or>
      (r = Inl WalIo \<and> log_state crc w' rs)"
    and "fl_durable (ww_file w') = fl_durable (ww_file w)" and "ww_ring w' = ww_ring w"
proof -
  let ?spill = "ww_buf w \<noteq> [] \<and> BUF_CAPACITY < length (ww_buf w) + length dsts * RECORD_LEN"
  obtain w1 r1 where f: "(if ?spill then flush_buf w else (w, Inr ())) = (w1, r1)" by fastforce
  have st: "log_state crc w1 rs" and dur: "fl_durable (ww_file w1) = fl_durable (ww_file w)" and ring: "ww_ring w1 = ww_ring w"
  proof -
    show "log_state crc w1 rs"
    proof (cases ?spill)
      case True
      then have fl: "flush_buf w = (w1, r1)" using f by simp
      have pos: "fl_pos (ww_file w) = length (fl_data (ww_file w))" using assms(2) by (simp add: log_state_def)
      note fb = flush_buf_ok [OF fl pos]
      have "ww_pending w \<noteq> 0" using True assms(2) by (auto simp: log_state_def)
      then show ?thesis using assms(2) fb unfolding log_state_def by (metis prefix_order.order_trans)
    qed (use f assms(2) in auto)
    show "fl_durable (ww_file w1) = fl_durable (ww_file w)" "ww_ring w1 = ww_ring w"
      using f flush_buf_ok(4,6) [of w w1 r1] assms(2) by (auto simp: log_state_def split: if_splits)
  qed
  have err: "r1 = Inl e \<Longrightarrow> e = WalIo" for e
    using f flush_err by (auto split: if_splits)
  have ap: "append_edges crc w src dsts = (case r1 of Inl e \<Rightarrow> (w1, Inl e)
      | Inr _ \<Rightarrow> (w1\<lparr>ww_buf := ww_buf w1 @ concat (map (encode_record crc src) dsts),
                       ww_pending := ww_pending w1 + length dsts * RECORD_LEN\<rparr>, Inr ()))"
    using f by (simp add: append_edges_def Let_def)
  have enc: "concat (map (encode_record crc src) dsts) = encode_all crc (map (\<lambda>d. \<lparr>er_src = src, er_dst = d\<rparr>) dsts)"
    by (simp add: encode_all_def encode_def comp_def)
  show "(r = Inr () \<and> log_state crc w' (rs @ map (\<lambda>d. \<lparr>er_src = src, er_dst = d\<rparr>) dsts)) \<or>
      (r = Inl WalIo \<and> log_state crc w' rs)"
  proof (cases r1)
    case (Inl e)
    then show ?thesis using ap assms(1) st err by auto
  next
    case (Inr u)
    then have w': "w' = w1\<lparr>ww_buf := ww_buf w1 @ concat (map (encode_record crc src) dsts),
                       ww_pending := ww_pending w1 + length dsts * RECORD_LEN\<rparr>" "r = Inr ()"
      using ap assms(1) by auto
    have "log_state crc w' (rs @ map (\<lambda>d. \<lparr>er_src = src, er_dst = d\<rparr>) dsts)"
      using st unfolding log_state_def w'(1) enc by (auto simp: RECORD_LEN_def)
    then show ?thesis using w'(2) by simp
  qed
  show "fl_durable (ww_file w') = fl_durable (ww_file w)" "ww_ring w' = ww_ring w"
    using ap assms(1) dur ring by (auto split: sum.splits)
qed

subsection \<open>Commits\<close>

text \<open>The part of the invariant that does not speak of \<open>pending\<close>.\<close>

definition log_whole :: "(bytes \<Rightarrow> u32) \<Rightarrow> wal_writer \<Rightarrow> edge_record list \<Rightarrow> bool" where
  "log_whole crc w rs \<longleftrightarrow> fl_pos (ww_file w) = length (fl_data (ww_file w)) \<and>
     fl_data (ww_file w) @ ww_buf w = wal_header @ encode_all crc rs \<and>
     prefix (fl_durable (ww_file w)) (fl_data (ww_file w))"

lemma log_state_whole: "log_state crc w rs \<Longrightarrow> log_whole crc w rs"
  by (simp add: log_state_def log_whole_def)

definition all_durable :: "(bytes \<Rightarrow> u32) \<Rightarrow> wal_writer \<Rightarrow> edge_record list \<Rightarrow> bool" where
  "all_durable crc w rs \<longleftrightarrow> ww_buf w = [] \<and> fl_data (ww_file w) = wal_header @ encode_all crc rs \<and>
     fl_durable (ww_file w) = fl_data (ww_file w) \<and> fl_pos (ww_file w) = length (fl_data (ww_file w))"

lemma all_durable_state: "all_durable crc w rs \<Longrightarrow> log_state crc w rs"
  by (simp add: all_durable_def log_state_def)

lemma file_sync_sel:
  "fl_data (fst (file_sync f)) = fl_data f" "fl_pos (fst (file_sync f)) = fl_pos f"
  "fl_durable (fst (file_sync f)) = (if snd (file_sync f) then fl_data f else fl_durable f)"
  by (simp_all add: file_sync_def Let_def split: list.split)

lemma file_sync_cases:
  assumes "file_sync f = (f', ok)"
  shows "fl_data f' = fl_data f" and "fl_pos f' = fl_pos f" and "fl_durable f' = (if ok then fl_data f else fl_durable f)"
  using file_sync_sel [of f] unfolding assms by simp_all

lemma flush_and_sync_ok:
  assumes "flush_and_sync w = (w', r)" and "log_whole crc w rs"
  shows "r = Inr () \<Longrightarrow> all_durable crc w' rs"
    and "r = Inl e \<Longrightarrow> log_whole crc w' rs \<and> e = WalIo \<and> ww_pending w' = ww_pending w \<and>
      fl_durable (ww_file w') = fl_durable (ww_file w) \<and> prefix (fl_data (ww_file w)) (fl_data (ww_file w'))"
proof -
  obtain w1 r1 where fb: "flush_buf w = (w1, r1)" by fastforce
  have pos: "fl_pos (ww_file w) = length (fl_data (ww_file w))" using assms(2) by (simp add: log_whole_def)
  note f = flush_buf_ok [OF fb pos]
  have W1: "log_whole crc w1 rs"
    using assms(2) f unfolding log_whole_def by (metis prefix_order.order_trans)
  obtain f2 ok where sy: "file_sync (ww_file w1) = (f2, ok)" by fastforce
  note s = file_sync_cases [OF sy]
  show "all_durable crc w' rs" if "r = Inr ()"
    using assms(1) fb that sy s W1 f(7) by (auto simp: flush_and_sync_def all_durable_def log_whole_def split: sum.splits bool.splits)
  show "log_whole crc w' rs \<and> e = WalIo \<and> ww_pending w' = ww_pending w \<and>
      fl_durable (ww_file w') = fl_durable (ww_file w) \<and> prefix (fl_data (ww_file w)) (fl_data (ww_file w'))" if "r = Inl e"
  proof (cases r1)
    case (Inl e1)
    then have "w' = w1" "e = e1" using assms(1) fb that by (simp_all add: flush_and_sync_def)
    then show ?thesis using W1 f Inl fb flush_err by auto
  next
    case (Inr u)
    then have "\<not> ok" "w' = w1\<lparr>ww_file := f2\<rparr>" "e = WalIo"
      using assms(1) fb that sy by (auto simp: flush_and_sync_def split: bool.splits)
    then show ?thesis using W1 f s by (simp add: log_whole_def)
  qed
qed

lemma sync_uring_done:
  assumes "sync_uring w = (w', Inr True)" and "log_whole crc w rs"
  shows "all_durable crc w' rs"
proof -
  define w0 where "w0 = (if ww_ring w = RingUnprobed
               then w\<lparr>ww_ring := (if ww_ring_works w then RingReady else RingNone)\<rparr> else w)"
  have W0: "log_whole crc w0 rs" using assms(2) by (simp add: w0_def log_whole_def)
  have ready: "ww_ring w0 = RingReady"
    using assms(1) by (auto simp: sync_uring_def w0_def Let_def split: if_splits)
  show ?thesis
  proof (cases "ww_buf w0 = []")
    case True
    obtain f ok where sy: "file_sync (ww_file w0) = (f, ok)" by fastforce
    have "ok" "w' = w0\<lparr>ww_file := f, ww_pending := 0\<rparr>"
      using assms(1) True ready sy unfolding sync_uring_def w0_def [symmetric] Let_def by (auto split: bool.splits)
    then show ?thesis using True W0 file_sync_cases [OF sy] by (simp add: all_durable_def log_whole_def)
  next
    case False
    define ar where "ar = (case ww_ring_script w0 of [] \<Rightarrow> (RingDone (int (length (ww_buf w0))) 0, []) | a # rest \<Rightarrow> (a, rest))"
    obtain a rest where ar: "ar = (a, rest)" by fastforce
    define w1 where "w1 = w0\<lparr>ww_ring_script := rest\<rparr>"
    have W1: "log_whole crc w1 rs" "ww_buf w1 = ww_buf w0" using W0 by (simp_all add: w1_def log_whole_def)
    note run = assms(1) [unfolded sync_uring_def w0_def [symmetric] Let_def ar_def [symmetric] ar]
    have "a \<noteq> RingLost"
      using run ready False by (auto simp: w1_def [symmetric])
    then obtain wr sy where a: "a = RingDone wr sy" by (cases a) auto
    have nn: "\<not> wr < 0" using run ready False a by (auto simp: w1_def [symmetric])
    define n where "n = min (nat wr) (length (ww_buf w0))"
    define f where "f = file_put (ww_file w1) (take n (ww_buf w1))"
    define f' where "f' = (if n = length (ww_buf w0) \<and> 0 \<le> sy then f\<lparr>fl_durable := fl_data f\<rparr> else f)"
    have run2: "(if n < length (ww_buf w0) then
          (case flush_and_sync (drain_front (w1\<lparr>ww_file := f'\<rparr>) n) of (w, Inl e) \<Rightarrow> (w, Inl e) | (w, Inr _) \<Rightarrow> (w, Inr True))
        else if sy < 0 then (w1\<lparr>ww_file := f'\<rparr>, Inl WalIo)
        else (w1\<lparr>ww_file := f', ww_buf := [], ww_pending := 0\<rparr>, Inr True)) = (w', Inr True)"
      using run ready False a nn unfolding f'_def f_def n_def w1_def by simp
    have fg: "fl_data f = fl_data (ww_file w1) @ take n (ww_buf w1)" "fl_pos f = length (fl_data f)" "fl_durable f = fl_durable (ww_file w1)"
      using file_put_grew [of "ww_file w1" "take n (ww_buf w1)"] W1(1) unfolding f_def file_grew_def log_whole_def by auto
    show ?thesis
    proof (cases "n < length (ww_buf w0)")
      case True
      then have "f' = f" by (simp add: f'_def)
      have W2: "log_whole crc (drain_front (w1\<lparr>ww_file := f'\<rparr>) n) rs"
        using W1(1) fg unfolding \<open>f' = f\<close> log_whole_def drain_front_def by (auto simp: prefix_def)
      obtain w2 r2 where fs: "flush_and_sync (drain_front (w1\<lparr>ww_file := f'\<rparr>) n) = (w2, r2)" by fastforce
      then have "w2 = w'" "r2 = Inr ()" using run2 True by (auto split: sum.splits)
      then show ?thesis using flush_and_sync_ok(1) [OF fs W2] by simp
    next
      case ge: False
      then have "\<not> sy < 0" using run2 by auto
      then have w': "w' = w1\<lparr>ww_file := f', ww_buf := [], ww_pending := 0\<rparr>" using run2 ge by simp
      have nl: "n = length (ww_buf w0)" using ge unfolding n_def by simp
      have ff: "f' = f\<lparr>fl_durable := fl_data f\<rparr>" using nl \<open>\<not> sy < 0\<close> by (simp add: f'_def)
      show ?thesis using W1 fg nl unfolding w' ff all_durable_def log_whole_def by simp
    qed
  qed
qed

text \<open>A sync that answers success has made every appended record survive, through either path; with
  the ring out of use, one that fails has lost and doubled nothing.\<close>

lemma wal_sync_ok:
  assumes "wal_sync w = (w', r)" and "log_state crc w rs"
  shows "r = Inr () \<Longrightarrow> all_durable crc w' rs"
    and "r = Inl e \<Longrightarrow> ww_ring w = RingNone \<Longrightarrow> log_state crc w' rs \<and> fl_durable (ww_file w') = fl_durable (ww_file w)"
proof -
  have W: "log_whole crc w rs" using assms(2) by (rule log_state_whole)
  show "all_durable crc w' rs" if r: "r = Inr ()"
  proof (cases "ww_pending w = 0")
    case True
    then show ?thesis using assms r by (auto simp: wal_sync_def log_state_def all_durable_def)
  next
    case False
    obtain w1 r1 where su: "sync_uring w = (w1, r1)" by fastforce
    show ?thesis
    proof (cases r1)
      case (Inl e)
      then show ?thesis using assms(1) r False su by (simp add: wal_sync_def)
    next
      case (Inr b)
      show ?thesis
      proof (cases b)
        case True
        then have "w' = w1" using assms(1) r False su Inr by (simp add: wal_sync_def)
        then show ?thesis using sync_uring_done [OF _ W, of w1] su Inr True by simp
      next
        case bF: False
        then have fs: "flush_and_sync w1 = (w', r)" using assms(1) False su Inr by (simp add: wal_sync_def)
        have "log_whole crc w1 rs"
          using su Inr bF W unfolding sync_uring_def Let_def
          by (auto simp: log_whole_def split: if_splits prod.splits sum.splits bool.splits ring_answer.splits)
        then show ?thesis using flush_and_sync_ok(1) [OF fs _ r] by blast
      qed
    qed
  qed
  show "log_state crc w' rs \<and> fl_durable (ww_file w') = fl_durable (ww_file w)" if r: "r = Inl e" and ring: "ww_ring w = RingNone"
  proof -
    have np: "ww_pending w \<noteq> 0" using assms(1) r by (auto simp: wal_sync_def split: if_splits)
    have "sync_uring w = (w, Inr False)" using ring by (simp add: sync_uring_def Let_def)
    then have fs: "flush_and_sync w = (w', r)" using assms(1) np by (simp add: wal_sync_def)
    show ?thesis using flush_and_sync_ok(2) [OF fs W r] np by (auto simp: log_state_def log_whole_def)
  qed
qed

subsection \<open>Crashes and recovery\<close>

text \<open>Cutting a log anywhere past its header leaves a prefix of its records and a short tail.\<close>

lemma cut_log:
  assumes "16 \<le> k" and "k \<le> 16 + 12 * length rs"
  shows "\<exists>m tail. take k (wal_header @ encode_all crc rs) = wal_header @ encode_all crc (take m rs) @ tail \<and>
    length tail < 12 \<and> m = (k - 16) div 12 \<and> m \<le> length rs"
proof -
  define m where "m = (k - 16) div 12"
  have m: "m \<le> length rs" unfolding m_def using assms(2) by (simp add: div_le_mono [of "k - 16" "12 * length rs" 12, simplified])
  have "take k (wal_header @ encode_all crc rs) = wal_header @ take (k - 16) (encode_all crc rs)" using assms(1) by simp
  also have "encode_all crc rs = encode_all crc (take m rs) @ encode_all crc (drop m rs)"
    using encode_all_append [of crc "take m rs" "drop m rs"] by simp
  also have "take (k - 16) (encode_all crc (take m rs) @ encode_all crc (drop m rs)) =
      encode_all crc (take m rs) @ take (k - 16 - 12 * m) (encode_all crc (drop m rs))"
  proof -
    have "12 * m \<le> k - 16" unfolding m_def by simp
    then show ?thesis using m by simp
  qed
  finally have e: "take k (wal_header @ encode_all crc rs) = wal_header @ encode_all crc (take m rs) @
      take (k - 16 - 12 * m) (encode_all crc (drop m rs))" by (simp flip: encode_all_append)
  have "k - 16 - 12 * m < 12" unfolding m_def by (simp add: minus_mult_div_eq_mod)
  then have "length (take (k - 16 - 12 * m) (encode_all crc (drop m rs))) < 12" by simp
  with e m m_def show ?thesis by blast
qed

text \<open>The callback that collects the records.\<close>

definition collect_rec :: "edge_record list \<Rightarrow> edge_record \<Rightarrow> (edge_record list \<times> (wal_error + unit)) option" where
  "collect_rec s r = Some (s @ [r], Inr ())"

lemma apply_all_collect: "apply_all collect_rec s rs = Some (s @ rs, Inr ())"
  by (induction rs arbitrary: s) (simp_all add: collect_rec_def)

lemma durable_log:
  assumes "all_durable crc w rs"
  shows "fl_durable (ww_file w) = wal_header @ encode_all crc rs"
  using assms by (simp add: all_durable_def)

lemma open_existing_ok:
  assumes data: "fl_data f = wal_header @ encode_all crc rs @ tail" and torn: "torn_tail crc tail"
    and dur: "fl_durable f = fl_data f" and syncs: "fl_syncs f = []"
    and app: "apply_all app s rs = Some (s', Inr ())"
  shows "\<exists>f' w out. open_replaying crc app s f False ring works False = Some (s', f', Inr (w, out)) \<and>
    ww_file w = f' \<and> all_durable crc w rs \<and> ww_pending w = 0 \<and> ro_applied out = length rs"
proof -
  define f1 where "f1 = file_seek f 0"
  have f1: "fl_data f1 = fl_data f" "fl_durable f1 = fl_durable f" "fl_syncs f1 = fl_syncs f" by (simp_all add: f1_def file_seek_def)
  define w0 where "w0 = \<lparr>ww_file = file_seek_end f1, ww_buf = [], ww_pending = 0, ww_ring = ring,
                        ww_ring_works = works, ww_ring_script = []\<rparr>"
  have hd: "take HEADER_LEN (fl_data f1) = wal_header" using data f1 by (simp add: HEADER_LEN_def)
  have nl: "\<not> length (fl_data f) < HEADER_LEN" using data by (simp add: HEADER_LEN_def)
  have co: "create_or_open f False ring works = Some (f1, Inr w0)"
    unfolding create_or_open_def Let_def f1_def [symmetric] if_not_P [OF nl] hd by (simp add: w0_def)
  define f2 where "f2 = file_seek (ww_file w0) HEADER_LEN"
  have f2: "fl_data f2 = fl_data f" "fl_durable f2 = fl_data f" "fl_syncs f2 = []"
    using f1 dur syncs by (simp_all add: f2_def w0_def file_seek_def file_seek_end_def)
  define tot where "tot = length (fl_data f)"
  have d2: "drop HEADER_LEN (fl_data f2) = encode_all crc rs @ tail" using f2 data by (simp add: HEADER_LEN_def)
  have tk: "take (tot - HEADER_LEN) (encode_all crc rs @ tail) = encode_all crc rs @ tail"
    using data by (simp add: tot_def HEADER_LEN_def)
  define out where "out = \<lparr>ro_applied = length rs, ro_truncate_to = (if tail = [] then None else Some (16 + 12 * length rs))\<rparr>"
  have rr: "replay_records crc app s (encode_all crc rs @ tail) False tot = Some (s', Inr out)"
  proof -
    have "replay_loop crc app s (encode_all crc rs @ tail) False tot 0 16 = Some (s', Inr out)"
      by (subst replay_loop_ok [OF torn]) (simp_all add: tot_def data app out_def)
    moreover have "HEADER_LEN \<le> tot" using data by (simp add: tot_def HEADER_LEN_def)
    ultimately show ?thesis unfolding replay_records_def tk by (simp add: HEADER_LEN_def)
  qed
  have op: "open_replaying crc app s f False ring works False =
     (case ro_truncate_to out of
        None \<Rightarrow> let f = file_seek_end f2 in Some (s', f, Inr (w0\<lparr>ww_file := f\<rparr>, out))
      | Some off \<Rightarrow>
          let (f, ok) = file_sync (file_set_len f2 off) in
          if \<not> ok then Some (s', f, Inl WalIo)
          else let f = file_seek_end f in Some (s', f, Inr (w0\<lparr>ww_file := f\<rparr>, out)))"
    unfolding open_replaying_def co bind.bind_lunit prod.case sum.case Let_def f2_def [symmetric] d2
    using rr f2(1) by (simp add: tot_def w0_def file_seek_end_def f1 Let_def)
  show ?thesis
  proof (cases "tail = []")
    case True
    let ?f = "file_seek_end f2"
    have "open_replaying crc app s f False ring works False = Some (s', ?f, Inr (w0\<lparr>ww_file := ?f\<rparr>, out))"
      using op True by (simp add: out_def Let_def)
    moreover have "all_durable crc (w0\<lparr>ww_file := ?f\<rparr>) rs"
      using True f2 data by (simp add: all_durable_def w0_def file_seek_end_def)
    moreover have "ww_pending (w0\<lparr>ww_file := ?f\<rparr>) = 0" by (simp add: w0_def)
    ultimately show ?thesis by (auto simp: out_def)
  next
    case False
    define off where "off = 16 + 12 * length rs"
    define f3 where "f3 = file_set_len f2 off"
    have f3: "fl_data f3 = wal_header @ encode_all crc rs" "fl_syncs f3 = []"
      using f2 data by (simp_all add: f3_def off_def file_set_len_def)
    obtain f4 ok where sy: "file_sync f3 = (f4, ok)" by fastforce
    have ok: "ok" using sy f3(2) by (simp add: file_sync_def)
    note s4 = file_sync_cases [OF sy]
    let ?f = "file_seek_end f4"
    have "open_replaying crc app s f False ring works False = Some (s', ?f, Inr (w0\<lparr>ww_file := ?f\<rparr>, out))"
      using op False sy ok by (simp add: out_def off_def f3_def Let_def)
    moreover have "all_durable crc (w0\<lparr>ww_file := ?f\<rparr>) rs"
      using s4 f3 ok by (simp add: all_durable_def w0_def file_seek_end_def)
    moreover have "ww_pending (w0\<lparr>ww_file := ?f\<rparr>) = 0" by (simp add: w0_def)
    ultimately show ?thesis by (auto simp: out_def)
  qed
qed

lemma write_all_plain: "fl_writes f = [] \<Longrightarrow> bs \<noteq> [] \<Longrightarrow> write_all f bs = (file_put f bs, True)"
  by (subst write_all.simps, subst write_all.simps) (simp add: file_write_def file_put_def)

lemma open_fresh_ok:
  assumes "length (fl_data f) < 16" and "fl_writes f = []" and "fl_syncs f = []"
  shows "\<exists>f' w. create_or_open f False ring works = Some (f', Inr w) \<and> all_durable crc w [] \<and> ww_pending w = 0"
proof -
  have "wal_header \<noteq> []" by (simp add: wal_header_def WAL_MAGIC_def)
  note wa = write_all_plain [OF _ this]
  let ?g = "\<lambda>g. file_put g wal_header"
  have "\<exists>g. fl_data g = [] \<and> fl_pos g = 0 \<and> fl_writes g = [] \<and> fl_syncs g = [] \<and>
    create_or_open f False ring works =
      (let (f, ok) = write_all g wal_header in if \<not> ok then Some (f, Inl WalIo)
         else let (f, ok) = file_sync f in if \<not> ok then Some (f, Inl WalIo)
           else let (f, ok) = file_sync f in if \<not> ok then Some (f, Inl WalIo)
             else Some (f, Inr \<lparr>ww_file = file_seek_end f, ww_buf = [], ww_pending = 0, ww_ring = ring,
                        ww_ring_works = works, ww_ring_script = []\<rparr>))"
    using assms unfolding create_or_open_def Let_def
    by (intro exI [of _ "if length (fl_data f) \<noteq> 0 then file_set_len (file_seek f 0) 0 else file_seek f 0"])
      (simp add: HEADER_LEN_def file_set_len_def file_seek_def)
  then obtain g where g: "fl_data g = []" "fl_pos g = 0" "fl_writes g = []" "fl_syncs g = []" and run: "create_or_open f False ring works =
      (let (f, ok) = write_all g wal_header in if \<not> ok then Some (f, Inl WalIo)
         else let (f, ok) = file_sync f in if \<not> ok then Some (f, Inl WalIo)
           else let (f, ok) = file_sync f in if \<not> ok then Some (f, Inl WalIo)
             else Some (f, Inr \<lparr>ww_file = file_seek_end f, ww_buf = [], ww_pending = 0, ww_ring = ring,
                        ww_ring_works = works, ww_ring_script = []\<rparr>))" by blast
  show ?thesis unfolding run wa [OF g(3)]
    using g by (simp add: file_sync_def file_put_def all_durable_def file_seek_end_def)
qed

subsection \<open>Runs of appends\<close>

fun append_run :: "(bytes \<Rightarrow> u32) \<Rightarrow> wal_writer \<Rightarrow> (u32 \<times> u32 list) list \<Rightarrow> wal_writer" where
  "append_run crc w [] = w"
| "append_run crc w ((src, dsts) # bs) = append_run crc (fst (append_edges crc w src dsts)) bs"

lemma append_run_ok:
  assumes "log_state crc w rs"
  shows "\<exists>es. log_state crc (append_run crc w bs) (rs @ es) \<and> fl_durable (ww_file (append_run crc w bs)) = fl_durable (ww_file w)"
  using assms
proof (induction bs arbitrary: w rs)
  case Nil
  then show ?case by (intro exI [of _ "[]"]) simp
next
  case (Cons b bs)
  obtain src dsts where b: "b = (src, dsts)" by fastforce
  obtain w1 r where ap: "append_edges crc w src dsts = (w1, r)" by fastforce
  note a = append_edges_ok [OF ap Cons.prems]
  from a(1) obtain es1 where "log_state crc w1 (rs @ es1)" by (metis append_Nil2)
  from Cons.IH [OF this] obtain es where es: "log_state crc (append_run crc w1 bs) ((rs @ es1) @ es)"
    "fl_durable (ww_file (append_run crc w1 bs)) = fl_durable (ww_file w1)" by blast
  show ?case using es a(2) by (intro exI [of _ "es1 @ es"]) (simp add: b ap)
qed

definition wal_example :: wal_writer where
  "wal_example = \<lparr>ww_file = \<lparr>fl_data = wal_header, fl_durable = wal_header, fl_pos = 16, fl_writes = [], fl_syncs = []\<rparr>,
     ww_buf = [], ww_pending = 0, ww_ring = RingNone, ww_ring_works = False, ww_ring_script = []\<rparr>"

lemma wal_example_state: "log_state crc wal_example []"
  by (simp add: log_state_def wal_example_def)

subsection \<open>Properties\<close>

text \<open>C17 An append stages all of its records behind those already logged, or none: if the spill of
  earlier records fails, at whatever byte, the file and the buffer still are together exactly the
  earlier records, so a retry neither loses nor repeats a byte.\<close>

theorem wal_append_all_or_nothing:
  assumes "log_state crc w rs" and "append_edges crc w src dsts = (w', r)"
  shows "(r = Inr () \<and> log_state crc w' (rs @ map (\<lambda>d. \<lparr>er_src = src, er_dst = d\<rparr>) dsts)) \<or>
    (r = Inl WalIo \<and> log_state crc w' rs)"
  by (rule append_edges_ok(1) [OF assms(2,1)])

theorem wal_append_all_or_nothing_witness:
  "\<exists>w'. append_edges (\<lambda>_. 0) wal_example 1 [2, 3] = (w', Inr ()) \<and>
     log_state (\<lambda>_. 0) w' [\<lparr>er_src = 1, er_dst = 2\<rparr>, \<lparr>er_src = 1, er_dst = 3\<rparr>]"
proof -
  obtain w' where w': "append_edges (\<lambda>_. 0) wal_example 1 [2, 3] = (w', Inr ())"
    by (simp add: append_edges_def wal_example_def)
  show ?thesis using wal_append_all_or_nothing [OF wal_example_state w'] w' by auto
qed

text \<open>C19 A log that was synced with success, in whatever state its writer was before, replays to exactly
  the records appended to it, in order, with no tear.\<close>

theorem wal_sync_replay_roundtrip:
  assumes "log_state crc w rs" and "wal_sync w = (w', Inr ())"
  shows "wal_replay crc collect_rec [] (Some (fl_durable (ww_file w'))) False =
    Some (rs, Inr \<lparr>ro_applied = length rs, ro_truncate_to = None\<rparr>)"
proof -
  have d: "fl_durable (ww_file w') = wal_header @ encode_all crc rs @ []"
    using durable_log [OF wal_sync_ok(1) [OF assms(2,1) refl]] by simp
  have "torn_tail crc []" by (simp add: torn_tail_def RECORD_LEN_def)
  from wal_replay_ok [OF this, of collect_rec "[]" rs] show ?thesis unfolding d by (simp add: apply_all_collect)
qed

theorem wal_sync_replay_roundtrip_witness:
  "\<exists>w w'. append_edges (\<lambda>_. 0) wal_example 1 [2] = (w, Inr ()) \<and> wal_sync w = (w', Inr ()) \<and>
     wal_replay (\<lambda>_. 0) collect_rec [] (Some (fl_durable (ww_file w'))) False =
       Some ([\<lparr>er_src = 1, er_dst = 2\<rparr>], Inr \<lparr>ro_applied = 1, ro_truncate_to = None\<rparr>)"
proof -
  obtain w where w: "append_edges (\<lambda>_. 0) wal_example 1 [2] = (w, Inr ())"
    by (simp add: append_edges_def wal_example_def)
  have st: "log_state (\<lambda>_. 0) w [\<lparr>er_src = 1, er_dst = 2\<rparr>]"
    using append_edges_ok(1) [OF w wal_example_state] by simp
  have wv: "w = wal_example\<lparr>ww_buf := encode_record (\<lambda>_. 0) 1 2, ww_pending := 12\<rparr>"
    using w by (simp add: append_edges_def wal_example_def RECORD_LEN_def)
  have ne: "encode_record (\<lambda>_. 0) 1 2 \<noteq> []" by (simp add: encode_record_def Let_def to_le_bytes_def)
  have "\<exists>w'. wal_sync w = (w', Inr ())"
    unfolding wv wal_sync_def sync_uring_def flush_and_sync_def flush_buf_def
    by (subst flush_loop.simps, subst flush_loop.simps) (simp add: wal_example_def write_some_def file_write_def file_put_def ne Let_def file_sync_def)
  then obtain w' where w': "wal_sync w = (w', Inr ())" by blast
  show ?thesis using w w' wal_sync_replay_roundtrip [OF st w'] by auto
qed

text \<open>C18 Recovery after a crash: whatever was appended after the last successful sync, and at whatever
  byte at or past the surviving ones the crash cuts the file, reopening the log replays a prefix of
  the appended records that has every synced one, truncates the torn record away, and leaves a
  clean, durable log of exactly the replayed records to append to.\<close>

theorem wal_crash_recovery:
  assumes "log_state crc w rs" and "wal_sync w = (w1, Inr ())" and "w2 = append_run crc w1 bs"
    and "length (fl_durable (ww_file w2)) \<le> k" and "fl_data f = take k (fl_data (ww_file w2))"
    and "fl_durable f = fl_data f" and "fl_syncs f = []"
  shows "\<exists>es rs' f' w' out. log_state crc w2 (rs @ es) \<and> prefix rs rs' \<and> prefix rs' (rs @ es) \<and>
    open_replaying crc collect_rec [] f False ring works False = Some (rs', f', Inr (w', out)) \<and>
    ro_applied out = length rs' \<and> log_state crc w' rs' \<and> fl_durable (ww_file w') = wal_header @ encode_all crc rs'"
proof -
  have d1: "all_durable crc w1 rs" by (rule wal_sync_ok(1) [OF assms(2,1) refl])
  obtain es where es: "log_state crc w2 (rs @ es)" "fl_durable (ww_file w2) = fl_durable (ww_file w1)"
    using append_run_ok [OF all_durable_state [OF d1], of bs] assms(3) by blast
  have dl: "length (fl_durable (ww_file w2)) = 16 + 12 * length rs" using es(2) durable_log [OF d1] by simp
  define kk where "kk = min k (length (fl_data (ww_file w2)))"
  have len: "length (fl_data (ww_file w2)) \<le> 16 + 12 * length (rs @ es)"
  proof -
    have "length (fl_data (ww_file w2) @ ww_buf w2) = 16 + 12 * length (rs @ es)"
      using es(1) by (simp only: log_state_def length_append length_wal_header length_encode_all)
    then show ?thesis by simp
  qed
  have dle: "length (fl_durable (ww_file w2)) \<le> length (fl_data (ww_file w2))"
    using es(1) by (simp add: log_state_def prefix_length_le)
  have kk: "16 \<le> kk" "kk \<le> 16 + 12 * length (rs @ es)" "16 + 12 * length rs \<le> kk"
    using assms(4) dl dle len by (simp_all add: kk_def)
  have "take k (fl_data (ww_file w2)) = take kk (fl_data (ww_file w2) @ ww_buf w2)" by (simp add: kk_def min_def)
  moreover have "fl_data (ww_file w2) @ ww_buf w2 = wal_header @ encode_all crc (rs @ es)"
    using es(1) unfolding log_state_def by blast
  ultimately have fd: "fl_data f = take kk (wal_header @ encode_all crc (rs @ es))" using assms(5) by simp
  obtain m tail where m: "fl_data f = wal_header @ encode_all crc (take m (rs @ es)) @ tail" "length tail < 12"
    "m = (kk - 16) div 12" "m \<le> length (rs @ es)"
    using cut_log [OF kk(1,2), of crc] unfolding fd by blast
  let ?rs' = "take m (rs @ es)"
  have "length rs \<le> m" unfolding m(3) using kk(3) by (simp add: less_eq_div_iff_mult_less_eq)
  then have p: "prefix rs ?rs'" by simp
  have torn: "torn_tail crc tail" using m(2) by (simp add: torn_tail_def RECORD_LEN_def)
  have ap: "apply_all collect_rec [] ?rs' = Some (?rs', Inr ())" by (simp add: apply_all_collect)
  obtain f' w' out where o: "open_replaying crc collect_rec [] f False ring works False = Some (?rs', f', Inr (w', out))"
    "all_durable crc w' ?rs'" "ro_applied out = length ?rs'"
    using open_existing_ok [OF m(1) torn assms(6,7) ap, of ring works] by blast
  have "prefix ?rs' (rs @ es)" by (rule take_is_prefix)
  then show ?thesis using es(1) p o durable_log [OF o(2)] all_durable_state [OF o(2)] by blast
qed

theorem wal_crash_recovery_witness:
  "\<exists>rs' f' w' out. prefix rs' [\<lparr>er_src = 1, er_dst = 2\<rparr>] \<and>
     open_replaying (\<lambda>_. 0) collect_rec []
       \<lparr>fl_data = wal_header, fl_durable = wal_header, fl_pos = 16, fl_writes = [], fl_syncs = []\<rparr> False RingNone False False
       = Some (rs', f', Inr (w', out)) \<and> log_state (\<lambda>_. 0) w' rs'"
proof -
  have sy: "wal_sync wal_example = (wal_example, Inr ())" by (simp add: wal_sync_def wal_example_def)
  let ?f = "\<lparr>fl_data = wal_header, fl_durable = wal_header, fl_pos = 16, fl_writes = [], fl_syncs = []\<rparr>"
  have w2: "append_run (\<lambda>_. 0) wal_example [(1, [2])] =
      wal_example\<lparr>ww_buf := encode_record (\<lambda>_. 0) 1 2, ww_pending := 12\<rparr>"
    by (simp add: append_edges_def wal_example_def RECORD_LEN_def)
  obtain es rs' f' w' out where r: "log_state (\<lambda>_. 0) (append_run (\<lambda>_. 0) wal_example [(1, [2])]) ([] @ es)"
    "prefix rs' ([] @ es)" "open_replaying (\<lambda>_. 0) collect_rec [] ?f False RingNone False False = Some (rs', f', Inr (w', out))"
    "log_state (\<lambda>_. 0) w' rs'"
    using wal_crash_recovery [where crc = "\<lambda>_. 0" and bs = "[(1, [2])]" and k = 16 and f = ?f and ring = RingNone and works = False,
        OF wal_example_state sy refl] unfolding w2 by (auto simp: wal_example_def)
  have "encode_all (\<lambda>_. 0) es = encode (\<lambda>_. 0) \<lparr>er_src = 1, er_dst = 2\<rparr>"
    using r(1) unfolding w2 by (simp add: log_state_def wal_example_def encode_def)
  moreover from this have "length es = 1" using length_encode_all [of "\<lambda>_. 0" es] by simp
  ultimately obtain e where e: "es = [e]" "encode (\<lambda>_. 0) e = encode (\<lambda>_. 0) \<lparr>er_src = 1, er_dst = 2\<rparr>"
    by (auto simp: length_Suc_conv)
  have "to_le_bytes (er_src e) = to_le_bytes 1" "to_le_bytes (er_dst e) = to_le_bytes 2"
    using encode_fields(1,2) [of "\<lambda>_. 0" e] encode_fields(1,2) [of "\<lambda>_. 0" "\<lparr>er_src = 1, er_dst = 2\<rparr>"] e(2) by simp_all
  then have "er_src e = 1" "er_dst e = 2" using from_to_le_bytes by (metis option.inject)+
  then have "e = \<lparr>er_src = 1, er_dst = 2\<rparr>" by (cases e) simp
  then show ?thesis using r e(1) by auto
qed

text \<open>C40 On the ring path, a commit whose write completes and whose linked sync fails keeps its bytes in
  the buffer although the file has them; the next sync that succeeds writes them a second time.\<close>

theorem uring_failed_sync_doubles:
  assumes "log_state crc w (rs @ es)" and "ww_buf w = encode_all crc es" and "es \<noteq> []" and "ww_pending w \<noteq> 0"
    and "ww_ring w = RingReady" and "ww_ring_script w = [RingDone (int (length (ww_buf w))) err]" and "err < 0"
  shows "\<exists>w1 w2. wal_sync w = (w1, Inl WalIo) \<and> wal_sync w1 = (w2, Inr ()) \<and>
    fl_durable (ww_file w2) = wal_header @ encode_all crc (rs @ es @ es)"
proof -
  have ne: "ww_buf w \<noteq> []" using assms(2,3) by (cases es) (auto simp: encode_def encode_record_def Let_def to_le_bytes_def)
  have pos: "fl_pos (ww_file w) = length (fl_data (ww_file w))" and
    data: "fl_data (ww_file w) = wal_header @ encode_all crc rs"
    using assms(1,2) by (simp_all add: log_state_def)
  define f1 where "f1 = file_put (ww_file w) (ww_buf w)"
  define w1 where "w1 = w\<lparr>ww_ring_script := [], ww_file := f1\<rparr>"
  have s1: "wal_sync w = (w1, Inl WalIo)"
    using assms(4-7) ne by (simp add: wal_sync_def sync_uring_def Let_def w1_def f1_def)
  have f1: "fl_data f1 = wal_header @ encode_all crc rs @ encode_all crc es" "fl_pos f1 = length (fl_data f1)"
    using pos data assms(2) by (simp_all add: f1_def file_put_def)
  define f2 where "f2 = file_put f1 (ww_buf w)"
  have f2: "fl_data f2 = fl_data f1 @ encode_all crc es"
    using f1(2) assms(2) by (simp add: f2_def file_put_def)
  have s2: "wal_sync w1 = (w1\<lparr>ww_file := f2\<lparr>fl_durable := fl_data f2\<rparr>, ww_buf := [], ww_pending := 0\<rparr>, Inr ())"
    using assms(4,5) ne by (simp add: wal_sync_def sync_uring_def Let_def w1_def f2_def)
  show ?thesis using s1 s2 f1(1) f2 by auto
qed

theorem uring_failed_sync_doubles_witness:
  "\<exists>w w1 w2. wal_sync w = (w1, Inl WalIo) \<and> wal_sync w1 = (w2, Inr ()) \<and>
     fl_durable (ww_file w2) = wal_header @ encode_all (\<lambda>_. 0) [\<lparr>er_src = 1, er_dst = 2\<rparr>, \<lparr>er_src = 1, er_dst = 2\<rparr>]"
proof -
  let ?e = "\<lparr>er_src = 1, er_dst = 2\<rparr>"
  let ?w = "wal_example\<lparr>ww_buf := encode_all (\<lambda>_. 0) [?e], ww_pending := 12, ww_ring := RingReady,
      ww_ring_script := [RingDone 12 (- 5)]\<rparr>"
  have "log_state (\<lambda>_. 0) ?w ([] @ [?e])" by (simp add: log_state_def wal_example_def)
  from uring_failed_sync_doubles [OF this, of "- 5"] show ?thesis by simp blast
qed

end
