(* ===== verification/Graph.thy ===== *)
theory Graph
  imports CTree Dirty Root_Table Wal
begin

section \<open>The dynamic graph and its snapshots\<close>

text \<open>
  Models \<^verbatim>\<open>DynamicGraph\<close> of \<^verbatim>\<open>crates/aether-graph/src/graph.rs\<close> and the snapshots of
  \<^verbatim>\<open>crates/aether-graph/src/snapshot.rs\<close>. The mutable parts behind \<^verbatim>\<open>&self\<close> (atomics, mutexes)
  are fields of one record that the operations thread. \<open>dg_registry\<close> is the identity of the
  arena's pin registry, which \<^verbatim>\<open>Arc::ptr_eq\<close> compares; a ticket is the registry's identity and
  the pinned epoch. A read enters and leaves the reader gate around a traversal, which restores
  the gate's counters (theory \<open>Read_Gate\<close>), so it is a function of the state. The writer's
  buffers that live for one call only (\<^verbatim>\<open>rebalance\<close>, \<^verbatim>\<open>merge\<close>, \<^verbatim>\<open>batch_dsts\<close>) are local values.
\<close>

subsection \<open>State\<close>

record pin_ticket =
  tk_registry :: nat
  tk_epoch :: nat

record snapshot =
  sn_epoch :: nat
  sn_num_vertices :: nat
  sn_num_edges :: nat
  sn_table :: root_table
  sn_ticket :: pin_ticket

record writer_scratch =
  ws_new_dsts :: "u32 list"
  ws_dirty :: "u32 list"
  ws_touched :: "u32 list"
  ws_log :: retire_log

definition scratch_new :: writer_scratch where
  "scratch_new = \<lparr>ws_new_dsts = [], ws_dirty = [], ws_touched = [], ws_log = retire_log_new\<rparr>"

record dynamic_graph =
  dg_roots :: "u32 list"
  dg_arena :: arena
  dg_registry :: nat
  dg_num_vertices :: nat
  dg_num_edges :: nat
  dg_dirty :: dirty_bitmap
  dg_locked :: bool
  dg_poisoned :: bool
  dg_epoch :: epoch_clock
  dg_latest :: snapshot
  dg_scratch :: writer_scratch
  dg_wal :: "wal_writer option"

subsection \<open>Tickets\<close>

text \<open>\<^verbatim>\<open>PinTicket::new\<close> on the graph's own registry; dropping a ticket of a registry that died with
  its arena touches nothing of the graph.\<close>

definition ticket_new :: "dynamic_graph \<Rightarrow> nat \<Rightarrow> pin_ticket \<times> dynamic_graph" where
  "ticket_new G e = (\<lparr>tk_registry = dg_registry G, tk_epoch = e\<rparr>,
     G\<lparr>dg_arena := (dg_arena G)\<lparr>ar_pins := pins_register (ar_pins (dg_arena G)) e\<rparr>\<rparr>)"

definition ticket_drop :: "dynamic_graph \<Rightarrow> pin_ticket \<Rightarrow> dynamic_graph option" where
  "ticket_drop G t =
     (if tk_registry t \<noteq> dg_registry G then Some G
      else do {
        pins \<leftarrow> pins_release (ar_pins (dg_arena G)) (tk_epoch t);
        Some (G\<lparr>dg_arena := (dg_arena G)\<lparr>ar_pins := pins\<rparr>\<rparr>) })"

definition snapshot_clone :: "dynamic_graph \<Rightarrow> snapshot \<Rightarrow> snapshot \<times> dynamic_graph" where
  "snapshot_clone G s =
     (let (t, G) = (if tk_registry (sn_ticket s) = dg_registry G then ticket_new G (tk_epoch (sn_ticket s))
                    else (sn_ticket s, G))
      in (s\<lparr>sn_ticket := t\<rparr>, G))"

definition snapshot_drop :: "dynamic_graph \<Rightarrow> snapshot \<Rightarrow> dynamic_graph option" where
  "snapshot_drop G s = ticket_drop G (sn_ticket s)"

subsection \<open>Reading a snapshot\<close>

definition snapshot_root_of :: "snapshot \<Rightarrow> u32 \<Rightarrow> u32 option" where
  "snapshot_root_of s vertex =
     (let v = unat vertex in if sn_num_vertices s \<le> v then Some NULL_OFF else rt_get (sn_table s) v)"

definition snapshot_check :: "snapshot \<Rightarrow> dynamic_graph \<Rightarrow> unit option" where
  "snapshot_check s G = assert_opt (tk_registry (sn_ticket s) = dg_registry G)"

definition snapshot_degree :: "snapshot \<Rightarrow> dynamic_graph \<Rightarrow> u32 \<Rightarrow> nat option" where
  "snapshot_degree s G vertex = do {
     snapshot_check s G;
     root \<leftarrow> snapshot_root_of s vertex;
     ctree_count \<lparr>ct_root = root\<rparr> (dg_arena G) }"

definition snapshot_for_each_chunk :: "snapshot \<Rightarrow> dynamic_graph \<Rightarrow> u32 \<Rightarrow> chunk list option" where
  "snapshot_for_each_chunk s G vertex = do {
     snapshot_check s G;
     root \<leftarrow> snapshot_root_of s vertex;
     for_each_chunk \<lparr>ct_root = root\<rparr> (dg_arena G) }"

definition snapshot_neighbors_into :: "snapshot \<Rightarrow> dynamic_graph \<Rightarrow> u32 \<Rightarrow> u32 list option" where
  "snapshot_neighbors_into s G vertex = do {
     snapshot_check s G;
     root \<leftarrow> snapshot_root_of s vertex;
     collect_into \<lparr>ct_root = root\<rparr> (dg_arena G) [] }"

definition snapshot_has_edge :: "snapshot \<Rightarrow> dynamic_graph \<Rightarrow> u32 \<Rightarrow> u32 \<Rightarrow> bool option" where
  "snapshot_has_edge s G src dst = do {
     snapshot_check s G;
     root \<leftarrow> snapshot_root_of s src;
     ctree_contains \<lparr>ct_root = root\<rparr> (dg_arena G) dst }"

text \<open>The CSR arrays: a running list of edges and its length after every vertex.\<close>

fun csr_loop :: "(nat \<Rightarrow> u32 list \<Rightarrow> u32 list option) \<Rightarrow> nat list \<Rightarrow> nat list \<Rightarrow> u32 list \<Rightarrow> (nat list \<times> u32 list) option" where
  "csr_loop collect [] offsets edges = Some (offsets, edges)"
| "csr_loop collect (v # vs) offsets edges = do {
     edges \<leftarrow> collect v edges;
     csr_loop collect vs (offsets @ [length edges]) edges }"

definition snapshot_csr :: "snapshot \<Rightarrow> dynamic_graph \<Rightarrow> (nat list \<times> u32 list) option" where
  "snapshot_csr s G = do {
     snapshot_check s G;
     csr_loop (\<lambda>v edges. do {
         root \<leftarrow> snapshot_root_of s (of_nat v);
         cs \<leftarrow> for_each_chunk \<lparr>ct_root = root\<rparr> (dg_arena G);
         extend_slices edges cs }) [0..<sn_num_vertices s] [0] [] }"

subsection \<open>Taking and publishing snapshots\<close>

text \<open>The ticket of the snapshot of an empty graph goes into a registry that is given as it is.\<close>

definition empty_snapshot :: "nat \<Rightarrow> nat \<Rightarrow> nat \<Rightarrow> snapshot" where
  "empty_snapshot num_vertices registry epoch =
     \<lparr>sn_epoch = epoch, sn_num_vertices = num_vertices, sn_num_edges = 0, sn_table = rt_empty num_vertices,
      sn_ticket = \<lparr>tk_registry = registry, tk_epoch = epoch\<rparr>\<rparr>"

definition graph_acquire :: "dynamic_graph \<Rightarrow> snapshot \<times> dynamic_graph" where
  "graph_acquire G = snapshot_clone G (dg_latest G)"

definition build_table :: "dynamic_graph \<Rightarrow> u32 list \<Rightarrow> root_table option" where
  "build_table G touched = with_leaves (sn_table (dg_latest G)) (remdups_adj (sort touched)) (dg_roots G)"

definition publish_commit :: "dynamic_graph \<Rightarrow> root_table option \<Rightarrow> (nat \<times> dynamic_graph) option" where
  "publish_commit G table =
     (let (epoch, clock) = clock_advance (dg_epoch G);
          G = G\<lparr>dg_epoch := clock\<rparr>
      in case table of
           None \<Rightarrow> Some (epoch, G)
         | Some table \<Rightarrow>
             let (ticket, G) = ticket_new G epoch;
                 next = \<lparr>sn_epoch = epoch, sn_num_vertices = dg_num_vertices G, sn_num_edges = dg_num_edges G,
                         sn_table = table, sn_ticket = ticket\<rparr>;
                 prev = dg_latest G;
                 G = G\<lparr>dg_latest := next\<rparr>
             in do { G \<leftarrow> snapshot_drop G prev; Some (epoch, G) })"

definition full_snapshot :: "dynamic_graph \<Rightarrow> nat \<Rightarrow> (snapshot \<times> dynamic_graph) option" where
  "full_snapshot G epoch = do {
     table \<leftarrow> from_roots (dg_roots G);
     let (ticket, G) = ticket_new G epoch;
     Some (\<lparr>sn_epoch = epoch, sn_num_vertices = dg_num_vertices G, sn_num_edges = dg_num_edges G,
            sn_table = table, sn_ticket = ticket\<rparr>, G) }"

subsection \<open>Construction and reads\<close>

definition graph_new_with_epoch :: "nat \<Rightarrow> nat \<Rightarrow> epoch_clock \<Rightarrow> nat \<Rightarrow> dynamic_graph option" where
  "graph_new_with_epoch num_vertices arena_bytes clock registry = do {
     assert_opt (num_vertices \<le> 2 ^ 32 - 1);
     let roots = replicate num_vertices NULL_OFF;
     arena \<leftarrow> arena_new arena_bytes;
     let latest = empty_snapshot num_vertices registry (clock_current clock);
     let arena = arena\<lparr>ar_pins := pins_register (ar_pins arena) (clock_current clock)\<rparr>;
     Some \<lparr>dg_roots = roots, dg_arena = arena, dg_registry = registry, dg_num_vertices = num_vertices,
           dg_num_edges = 0, dg_dirty = dirty_new num_vertices, dg_locked = False, dg_poisoned = False,
           dg_epoch = clock, dg_latest = latest, dg_scratch = scratch_new, dg_wal = None\<rparr> }"

definition graph_new :: "nat \<Rightarrow> nat \<Rightarrow> nat \<Rightarrow> dynamic_graph option" where
  "graph_new num_vertices arena_bytes registry = graph_new_with_epoch num_vertices arena_bytes clock_new registry"

definition current_epoch :: "dynamic_graph \<Rightarrow> nat" where
  "current_epoch G = clock_current (dg_epoch G)"

definition tree_for :: "dynamic_graph \<Rightarrow> u32 \<Rightarrow> ctree" where
  "tree_for G vertex = \<lparr>ct_root = (if unat vertex < length (dg_roots G) then dg_roots G ! unat vertex else NULL_OFF)\<rparr>"

definition graph_degree :: "dynamic_graph \<Rightarrow> u32 \<Rightarrow> nat option" where
  "graph_degree G vertex = ctree_count (tree_for G vertex) (dg_arena G)"

definition graph_for_each_chunk :: "dynamic_graph \<Rightarrow> u32 \<Rightarrow> chunk list option" where
  "graph_for_each_chunk G vertex = for_each_chunk (tree_for G vertex) (dg_arena G)"

definition neighbors_into :: "dynamic_graph \<Rightarrow> u32 \<Rightarrow> u32 list option" where
  "neighbors_into G vertex = collect_into (tree_for G vertex) (dg_arena G) []"

definition has_edge :: "dynamic_graph \<Rightarrow> u32 \<Rightarrow> u32 \<Rightarrow> bool option" where
  "has_edge G src dst = ctree_contains (tree_for G src) (dg_arena G) dst"

definition graph_snapshot_csr :: "dynamic_graph \<Rightarrow> (nat list \<times> u32 list) option" where
  "graph_snapshot_csr G =
     csr_loop (\<lambda>v edges. collect_into (tree_for G (of_nat v)) (dg_arena G) edges) [0..<dg_num_vertices G] [0] []"

definition graph_drain_dirty :: "dynamic_graph \<Rightarrow> u32 list \<times> dynamic_graph" where
  "graph_drain_dirty G = (let (ids, b) = drain_dirty (dg_dirty G) in (ids, G\<lparr>dg_dirty := b\<rparr>))"

definition graph_is_dirty :: "dynamic_graph \<Rightarrow> u32 \<Rightarrow> bool option" where
  "graph_is_dirty G vertex = is_dirty (dg_dirty G) vertex"

definition dirty_count :: "dynamic_graph \<Rightarrow> nat" where
  "dirty_count G = count_dirty (dg_dirty G)"

definition clear_dirty :: "dynamic_graph \<Rightarrow> dynamic_graph" where
  "clear_dirty G = G\<lparr>dg_dirty := clear_all (dg_dirty G)\<rparr>"

end
