(* ===== verification/Writer.thy ===== *)
theory Writer
  imports Graph "HOL-Library.Product_Lexorder"
begin

section \<open>The writer guard\<close>

text \<open>
  Models \<^verbatim>\<open>crates/aether-graph/src/writer.rs\<close>: acquiring the guard, the three insert paths with
  their retries after the arena is full, the write-ahead append before the root store, the
  buffered bookkeeping, and the guard's drop with its commit, its durable failure and its panic.
  The guard borrows the graph, so the graph is a field of it; the write-ahead log it locked is
  \<open>dg_wal\<close> of that graph.
\<close>

subsection \<open>State\<close>

datatype writer_error = Busy | Poisoned

datatype insert_error = InsArenaFull | VertexOutOfRange u32 u32 | WalAppend

definition DIRTY_BUF_FLUSH_THRESHOLD :: nat where "DIRTY_BUF_FLUSH_THRESHOLD = 8192"
definition TOUCHED_LEAVES_DEDUP_START :: nat where "TOUCHED_LEAVES_DEDUP_START = 1024"

record writer =
  wr_graph :: dynamic_graph
  wr_arena :: arena_writer
  wr_retire_stamp :: nat
  wr_scratch :: writer_scratch
  wr_pending_edges :: nat
  wr_dedup_limit :: nat
  wr_wal_failed :: bool

definition scratch_park :: "writer_scratch \<Rightarrow> writer_scratch" where
  "scratch_park s = s\<lparr>ws_log := (ws_log s)\<lparr>rl_chunks := [], rl_interiors := []\<rparr>, ws_dirty := [], ws_touched := [],
     ws_new_dsts := []\<rparr>"

text \<open>\<open>env\<close> is what other threads do between the first poison check and the compare-and-swap.\<close>

definition graph_writer :: "(dynamic_graph \<Rightarrow> dynamic_graph) \<Rightarrow> dynamic_graph \<Rightarrow> (writer_error \<times> dynamic_graph) + writer" where
  "graph_writer env G =
     (if dg_poisoned G then Inl (Poisoned, G)
      else let G = env G in
        if dg_locked G then Inl (Busy, G)
        else let G = G\<lparr>dg_locked := True\<rparr> in
          if dg_poisoned G then Inl (Poisoned, G\<lparr>dg_locked := False\<rparr>)
          else Inr \<lparr>wr_graph = G\<lparr>dg_scratch := scratch_new\<rparr>,
                    wr_arena = arena_mk_writer (dg_arena G),
                    wr_retire_stamp = clock_current (dg_epoch G) + 1,
                    wr_scratch = dg_scratch G,
                    wr_pending_edges = 0,
                    wr_dedup_limit = TOUCHED_LEAVES_DEDUP_START,
                    wr_wal_failed = False\<rparr>)"

definition writer_or_panic :: "dynamic_graph \<Rightarrow> writer option" where
  "writer_or_panic G = (case graph_writer id G of Inl _ \<Rightarrow> None | Inr W \<Rightarrow> Some W)"

text \<open>Updates of what the guard reaches.\<close>

definition set_arena :: "writer \<Rightarrow> arena \<Rightarrow> writer" where
  "set_arena W A = W\<lparr>wr_graph := (wr_graph W)\<lparr>dg_arena := A\<rparr>\<rparr>"

definition set_log :: "writer \<Rightarrow> retire_log \<Rightarrow> writer" where
  "set_log W l = W\<lparr>wr_scratch := (wr_scratch W)\<lparr>ws_log := l\<rparr>\<rparr>"

definition set_new_dsts :: "writer \<Rightarrow> u32 list \<Rightarrow> writer" where
  "set_new_dsts W ds = W\<lparr>wr_scratch := (wr_scratch W)\<lparr>ws_new_dsts := ds\<rparr>\<rparr>"

abbreviation wr_store :: "writer \<Rightarrow> arena" where
  "wr_store W \<equiv> dg_arena (wr_graph W)"

abbreviation wr_log :: "writer \<Rightarrow> retire_log" where
  "wr_log W \<equiv> ws_log (wr_scratch W)"

subsection \<open>Bookkeeping\<close>

definition writer_retire :: "writer \<Rightarrow> nat \<Rightarrow> writer" where
  "writer_retire W stamp =
     (let (log, A) = arena_retire (wr_arena W) (wr_store W) (wr_log W) stamp in set_log (set_arena W A) log)"

definition maybe_stamp_retired :: "writer \<Rightarrow> writer" where
  "maybe_stamp_retired W = (if log_wants_flush (wr_log W) then writer_retire W (wr_retire_stamp W) else W)"

definition note_root_store :: "writer \<Rightarrow> u32 \<Rightarrow> writer" where
  "note_root_store W src =
     (let leaf = drop_bit LEAF_BITS src;
          touched = ws_touched (wr_scratch W)
      in if touched \<noteq> [] \<and> last touched = leaf then W
         else
           let touched = touched @ [leaf] in
           if wr_dedup_limit W \<le> length touched
           then let touched = remdups_adj (sort touched) in
             W\<lparr>wr_scratch := (wr_scratch W)\<lparr>ws_touched := touched\<rparr>,
               wr_dedup_limit := max (length touched * 2) TOUCHED_LEAVES_DEDUP_START\<rparr>
           else W\<lparr>wr_scratch := (wr_scratch W)\<lparr>ws_touched := touched\<rparr>\<rparr>)"

definition flush_dirty :: "writer \<Rightarrow> writer option" where
  "flush_dirty W =
     (if ws_dirty (wr_scratch W) = [] then Some W
      else do {
        b \<leftarrow> mark_sorted (dg_dirty (wr_graph W)) (remdups_adj (sort (ws_dirty (wr_scratch W))));
        Some (W\<lparr>wr_graph := (wr_graph W)\<lparr>dg_dirty := b\<rparr>, wr_scratch := (wr_scratch W)\<lparr>ws_dirty := []\<rparr>\<rparr>) })"

definition note_dirty :: "writer \<Rightarrow> u32 \<Rightarrow> writer option" where
  "note_dirty W v = do {
     W \<leftarrow> (if length (ws_dirty (wr_scratch W)) = DIRTY_BUF_FLUSH_THRESHOLD then flush_dirty W else Some W);
     Some (W\<lparr>wr_scratch := (wr_scratch W)\<lparr>ws_dirty := ws_dirty (wr_scratch W) @ [v]\<rparr>\<rparr>) }"

fun note_all_dirty :: "writer \<Rightarrow> u32 list \<Rightarrow> writer option" where
  "note_all_dirty W [] = Some W"
| "note_all_dirty W (d # ds) = do { W \<leftarrow> note_dirty W d; note_all_dirty W ds }"

definition flush_bookkeeping :: "writer \<Rightarrow> writer option" where
  "flush_bookkeeping W =
     (let W = (if 0 < wr_pending_edges W
               then W\<lparr>wr_graph := (wr_graph W)\<lparr>dg_num_edges := dg_num_edges (wr_graph W) + wr_pending_edges W\<rparr>,
                      wr_pending_edges := 0\<rparr>
               else W)
      in flush_dirty W)"

definition store_root :: "writer \<Rightarrow> u32 \<Rightarrow> ctree \<Rightarrow> writer option" where
  "store_root W src t = do {
     roots \<leftarrow> set_opt (dg_roots (wr_graph W)) (unat src) (ct_root t);
     Some (note_root_store (W\<lparr>wr_graph := (wr_graph W)\<lparr>dg_roots := roots\<rparr>\<rparr>) src) }"

definition check_wal :: "writer \<Rightarrow> insert_error + unit" where
  "check_wal W = (if wr_wal_failed W then Inl WalAppend else Inr ())"

text \<open>The log's append from the guard; a failure marks the guard.\<close>

definition guard_append :: "(bytes \<Rightarrow> u32) \<Rightarrow> writer \<Rightarrow> u32 \<Rightarrow> u32 list \<Rightarrow> writer \<times> (insert_error + unit)" where
  "guard_append crc W src dsts =
     (case dg_wal (wr_graph W) of
        None \<Rightarrow> (W, Inr ())
      | Some w \<Rightarrow>
          (case append_edges crc w src dsts of
             (w, Inl e) \<Rightarrow> (W\<lparr>wr_graph := (wr_graph W)\<lparr>dg_wal := Some w\<rparr>, wr_wal_failed := True\<rparr>, Inl WalAppend)
           | (w, Inr _) \<Rightarrow> (W\<lparr>wr_graph := (wr_graph W)\<lparr>dg_wal := Some w\<rparr>\<rparr>, Inr ())))"

definition log_truncate :: "retire_log \<Rightarrow> nat \<Rightarrow> nat \<Rightarrow> retire_log" where
  "log_truncate l cm im = l\<lparr>rl_chunks := take cm (rl_chunks l), rl_interiors := take im (rl_interiors l)\<rparr>"

subsection \<open>One edge\<close>

definition insert_edge_inner :: "(bytes \<Rightarrow> u32) \<Rightarrow> writer \<Rightarrow> u32 \<Rightarrow> u32 \<Rightarrow> ((insert_error + bool) \<times> writer) option" where
  "insert_edge_inner crc W src dst = do {
     current_root \<leftarrow> nth_opt (dg_roots (wr_graph W)) (unat src);
     let chunks_mark = length (rl_chunks (wr_log W));
     let interiors_mark = length (rl_interiors (wr_log W));
     (r, A, log) \<leftarrow> insert_with_scratch \<lparr>ct_root = current_root\<rparr> (wr_store W) dst (wr_log W);
     let W = set_log (set_arena W A) log;
     case r of
       Duplicate \<Rightarrow> Some (Inr False, W)
     | ArenaFull \<Rightarrow> Some (Inl InsArenaFull, W)
     | Inserted new_tree \<Rightarrow>
         (case guard_append crc W src [dst] of
            (W, Inl e) \<Rightarrow> Some (Inl e, set_log W (log_truncate (wr_log W) chunks_mark interiors_mark))
          | (W, Inr _) \<Rightarrow> do {
              W \<leftarrow> store_root W src new_tree;
              let W = W\<lparr>wr_pending_edges := wr_pending_edges W + 1\<rparr>;
              W \<leftarrow> note_dirty W src;
              W \<leftarrow> note_dirty W dst;
              Some (Inr True, maybe_stamp_retired W) }) }"

definition insert_edge :: "(bytes \<Rightarrow> u32) \<Rightarrow> writer \<Rightarrow> u32 \<Rightarrow> u32 \<Rightarrow> ((insert_error + bool) \<times> writer) option" where
  "insert_edge crc W src dst =
     (let nv = dg_num_vertices (wr_graph W) in
      if nv \<le> unat src \<or> nv \<le> unat dst then Some (Inl (VertexOutOfRange src dst), W)
      else case check_wal W of
          Inl e \<Rightarrow> Some (Inl e, W)
        | Inr _ \<Rightarrow> do {
            (r, W) \<leftarrow> insert_edge_inner crc W src dst;
            if r = Inl InsArenaFull
            then insert_edge_inner crc (writer_retire W (wr_retire_stamp W)) src dst
            else Some (r, W) })"

subsection \<open>Batches\<close>

definition append_batch :: "(bytes \<Rightarrow> u32) \<Rightarrow> writer \<Rightarrow> u32 \<Rightarrow> writer \<times> (insert_error + unit)" where
  "append_batch crc W src = guard_append crc W src (ws_new_dsts (wr_scratch W))"

definition publish_batch :: "writer \<Rightarrow> u32 \<Rightarrow> ctree \<Rightarrow> (nat \<times> writer) option" where
  "publish_batch W src new_tree = do {
     W \<leftarrow> store_root W src new_tree;
     let inserted = length (ws_new_dsts (wr_scratch W));
     let W = W\<lparr>wr_pending_edges := wr_pending_edges W + inserted\<rparr>;
     W \<leftarrow> note_all_dirty W (ws_new_dsts (wr_scratch W));
     W \<leftarrow> note_dirty W src;
     Some (inserted, W) }"

fun insert_chain :: "ctree \<Rightarrow> u32 list \<Rightarrow> arena \<Rightarrow> retire_log \<Rightarrow> u32 list
    \<Rightarrow> (ctree option \<times> arena \<times> retire_log \<times> u32 list) option" where
  "insert_chain cur [] A log new_dsts = Some (Some cur, A, log, new_dsts)"
| "insert_chain cur (d # ds) A log new_dsts = do {
     (r, A, log) \<leftarrow> insert_with_scratch cur A d log;
     case r of
       Inserted t \<Rightarrow> insert_chain t ds A log (new_dsts @ [d])
     | Duplicate \<Rightarrow> insert_chain cur ds A log new_dsts
     | ArenaFull \<Rightarrow> Some (None, A, log, new_dsts) }"

text \<open>One pass of the chain in the guard's state: the new tree, or the log cut back to the marks.\<close>

definition chain_pass :: "writer \<Rightarrow> ctree \<Rightarrow> u32 list \<Rightarrow> nat \<Rightarrow> nat \<Rightarrow> (ctree option \<times> writer) option" where
  "chain_pass W tree dsts chunks_mark interiors_mark = do {
     (r, A, log, new_dsts) \<leftarrow> insert_chain tree dsts (wr_store W) (wr_log W) [];
     let W = set_new_dsts (set_log (set_arena W A) log) new_dsts;
     Some (case r of Some t \<Rightarrow> (Some t, W)
       | None \<Rightarrow> (None, set_log W (log_truncate (wr_log W) chunks_mark interiors_mark))) }"

definition insert_sorted_by_path_copy :: "(bytes \<Rightarrow> u32) \<Rightarrow> writer \<Rightarrow> u32 \<Rightarrow> ctree \<Rightarrow> u32 list
    \<Rightarrow> ((insert_error + nat) \<times> writer) option" where
  "insert_sorted_by_path_copy crc W src tree dsts = do {
     let chunks_mark = length (rl_chunks (wr_log W));
     let interiors_mark = length (rl_interiors (wr_log W));
     (r, W) \<leftarrow> chain_pass W tree dsts chunks_mark interiors_mark;
     (r, W) \<leftarrow> (case r of Some t \<Rightarrow> Some (r, W)
       | None \<Rightarrow> chain_pass (writer_retire W (wr_retire_stamp W)) tree dsts chunks_mark interiors_mark);
     case r of
       None \<Rightarrow> Some (Inl InsArenaFull, W)
     | Some new_tree \<Rightarrow>
         if ws_new_dsts (wr_scratch W) = [] then Some (Inr 0, W)
         else (case append_batch crc W src of
            (W, Inl e) \<Rightarrow> Some (Inl e, set_log W (log_truncate (wr_log W) chunks_mark interiors_mark))
          | (W, Inr _) \<Rightarrow> do {
              (inserted, W) \<leftarrow> publish_batch W src new_tree;
              Some (Inr inserted, maybe_stamp_retired W) }) }"

text \<open>The merge of the old neighbours and the batch; the second list is what is new.\<close>

fun merge_new :: "u32 list \<Rightarrow> u32 list \<Rightarrow> u32 list \<Rightarrow> u32 list \<Rightarrow> u32 list \<times> u32 list" where
  "merge_new [] ds merged new_dsts = (merged @ ds, new_dsts @ ds)"
| "merge_new (x # xs) [] merged new_dsts = (merged @ x # xs, new_dsts)"
| "merge_new (x # xs) (d # ds) merged new_dsts =
     (if x < d then merge_new xs (d # ds) (merged @ [x]) new_dsts
      else if d < x then merge_new (x # xs) ds (merged @ [d]) (new_dsts @ [d])
      else merge_new xs ds (merged @ [x]) new_dsts)"

definition insert_sorted_by_rebuild :: "(bytes \<Rightarrow> u32) \<Rightarrow> writer \<Rightarrow> u32 \<Rightarrow> ctree \<Rightarrow> u32 list
    \<Rightarrow> ((insert_error + nat) \<times> writer) option" where
  "insert_sorted_by_rebuild crc W src tree dsts = do {
     existing \<leftarrow> collect_into tree (wr_store W) [];
     let (merged, new_dsts) = merge_new existing dsts [] [];
     let W = set_new_dsts W new_dsts;
     if new_dsts = [] then Some (Inr 0, W)
     else do {
       (built, A) \<leftarrow> ctree_from_sorted (wr_store W) merged;
       let W = set_arena W A;
       (built, W) \<leftarrow> (case built of Some t \<Rightarrow> Some (built, W)
         | None \<Rightarrow> do {
             let W = writer_retire W (wr_retire_stamp W);
             (built, A) \<leftarrow> ctree_from_sorted (wr_store W) merged;
             Some (built, set_arena W A) });
       case built of
         None \<Rightarrow> Some (Inl InsArenaFull, W)
       | Some new_tree \<Rightarrow>
           (case append_batch crc W src of
              (W, Inl e) \<Rightarrow> Some (Inl e, W)
            | (W, Inr _) \<Rightarrow> do {
                (inserted, W) \<leftarrow> publish_batch W src new_tree;
                log \<leftarrow> (if ct_root tree \<noteq> NULL_OFF then retire_subtree (wr_store W) (ct_root tree) (wr_log W)
                        else Some (wr_log W));
                Some (Inr inserted, maybe_stamp_retired (set_log W log)) }) } }"

definition prefer_path_copy :: "nat \<Rightarrow> nat \<Rightarrow> bool" where
  "prefer_path_copy degree k =
     (let cap = CHUNK_CAP;
          depth = ilog2 (max (div_ceil degree cap) 1) + 2
      in min (k * depth) (2 ^ 64 - 1) < 2 * div_ceil (degree + k) cap)"

definition insert_edges_sorted :: "(bytes \<Rightarrow> u32) \<Rightarrow> writer \<Rightarrow> u32 \<Rightarrow> u32 list \<Rightarrow> ((insert_error + nat) \<times> writer) option" where
  "insert_edges_sorted crc W src dsts =
     (case dsts of [] \<Rightarrow> Some (Inr 0, W)
      | first # _ \<Rightarrow>
          let nv = dg_num_vertices (wr_graph W) in
          if nv \<le> unat src then Some (Inl (VertexOutOfRange src first), W)
          else if nv \<le> unat (last dsts) then do {
            bad \<leftarrow> nth_opt dsts (partition_point (\<lambda>d. unat d < nv) dsts);
            Some (Inl (VertexOutOfRange src bad), W) }
          else case check_wal W of
              Inl e \<Rightarrow> Some (Inl e, W)
            | Inr _ \<Rightarrow> do {
                old_root \<leftarrow> nth_opt (dg_roots (wr_graph W)) (unat src);
                let tree = \<lparr>ct_root = old_root\<rparr>;
                degree \<leftarrow> ctree_count tree (wr_store W);
                if prefer_path_copy degree (length dsts)
                then insert_sorted_by_path_copy crc W src tree dsts
                else insert_sorted_by_rebuild crc W src tree dsts })"

function insert_runs :: "(bytes \<Rightarrow> u32) \<Rightarrow> writer \<Rightarrow> (u32 \<times> u32) list \<Rightarrow> nat \<Rightarrow> ((insert_error + nat) \<times> writer) option" where
  "insert_runs crc W [] inserted = Some (Inr inserted, W)"
| "insert_runs crc W (e # es) inserted =
     (let run = takeWhile (\<lambda>x. fst x = fst e) (e # es);
          rest = dropWhile (\<lambda>x. fst x = fst e) (e # es);
          dsts = remdups_adj (map snd run)
      in do {
        (r, W) \<leftarrow> insert_edges_sorted crc W (fst e) dsts;
        (case r of Inl err \<Rightarrow> Some (Inl err, W) | Inr n \<Rightarrow> insert_runs crc W rest (inserted + n)) })"
  by pat_completeness auto

termination insert_runs
  by (relation "measure (\<lambda>(_, _, es, _). length es)") (auto simp: le_imp_less_Suc length_dropWhile_le)

definition insert_edges :: "(bytes \<Rightarrow> u32) \<Rightarrow> writer \<Rightarrow> (u32 \<times> u32) list \<Rightarrow> ((insert_error + nat) \<times> writer) option" where
  "insert_edges crc W edges =
     (let nv = dg_num_vertices (wr_graph W) in
      case find (\<lambda>(s, d). nv \<le> unat s \<or> nv \<le> unat d) edges of
        Some (src, dst) \<Rightarrow> Some (Inl (VertexOutOfRange src dst), W)
      | None \<Rightarrow> insert_runs crc W (sort edges) 0)"

text \<open>\<^verbatim>\<open>SortedDsts::new\<close> and \<^verbatim>\<open>SortedDsts::sort_dedup\<close>.\<close>

definition sorted_dsts_new :: "u32 list \<Rightarrow> u32 list option" where
  "sorted_dsts_new dsts = (if list_all (\<lambda>i. dsts ! i < dsts ! Suc i) [0..<length dsts - 1] then Some dsts else None)"

definition sort_dedup :: "u32 list \<Rightarrow> u32 list" where
  "sort_dedup dsts = remdups_adj (sort dsts)"

subsection \<open>The drop\<close>

definition writer_release :: "writer \<Rightarrow> dynamic_graph" where
  "writer_release W = (wr_graph W)\<lparr>dg_scratch := scratch_park (wr_scratch W), dg_locked := False\<rparr>"

definition set_poisoned :: "writer \<Rightarrow> writer" where
  "set_poisoned W = W\<lparr>wr_graph := (wr_graph W)\<lparr>dg_poisoned := True\<rparr>\<rparr>"

text \<open>The commit of a guard whose log is durable.\<close>

definition writer_commit :: "writer \<Rightarrow> writer option" where
  "writer_commit W = do {
     W \<leftarrow> flush_bookkeeping W;
     table \<leftarrow> (if ws_touched (wr_scratch W) = [] then Some None
               else do { t \<leftarrow> build_table (wr_graph W) (ws_touched (wr_scratch W)); Some (Some t) });
     (epoch, G) \<leftarrow> publish_commit (wr_graph W) table;
     let W = writer_retire (W\<lparr>wr_graph := G\<rparr>) epoch;
     Some (set_arena W (arena_reclaim (wr_store W))) }"

definition writer_drop :: "bool \<Rightarrow> writer \<Rightarrow> dynamic_graph option" where
  "writer_drop panicking W =
     (if panicking then
        let W = set_poisoned W;
            W = W\<lparr>wr_graph := (wr_graph W)\<lparr>dg_wal := map_option discard_pending (dg_wal (wr_graph W))\<rparr>\<rparr>
        in Some (writer_release W)
      else
        let (wal, durable_failure) =
              (case dg_wal (wr_graph W) of None \<Rightarrow> (None, wr_wal_failed W)
               | Some w \<Rightarrow> (case wal_sync w of (w, Inl e) \<Rightarrow> (Some w, True) | (w, Inr _) \<Rightarrow> (Some w, wr_wal_failed W)));
            W = W\<lparr>wr_graph := (wr_graph W)\<lparr>dg_wal := wal\<rparr>\<rparr>
        in if durable_failure then Some (writer_release (set_poisoned W))
           else do { W \<leftarrow> writer_commit W; Some (writer_release W) })"

definition writer_recycle_stats :: "writer \<Rightarrow> recycle_stats" where
  "writer_recycle_stats W = arena_stats (wr_store W)"

subsection \<open>Building and opening graphs\<close>

fun insert_each :: "(bytes \<Rightarrow> u32) \<Rightarrow> writer \<Rightarrow> (u32 \<times> u32) list \<Rightarrow> writer option" where
  "insert_each crc W [] = Some W"
| "insert_each crc W ((src, dst) # es) = do {
     (r, W) \<leftarrow> insert_edge crc W src dst;
     (case r of
        Inr _ \<Rightarrow> insert_each crc W es
      | Inl (VertexOutOfRange _ _) \<Rightarrow> insert_each crc W es
      | Inl InsArenaFull \<Rightarrow> None
      | Inl WalAppend \<Rightarrow> None) }"

definition from_edges :: "(bytes \<Rightarrow> u32) \<Rightarrow> nat \<Rightarrow> (u32 \<times> u32) list \<Rightarrow> nat \<Rightarrow> nat \<Rightarrow> dynamic_graph option" where
  "from_edges crc num_vertices edges arena_bytes registry = do {
     G \<leftarrow> graph_new num_vertices arena_bytes registry;
     W \<leftarrow> writer_or_panic G;
     W \<leftarrow> insert_each crc W edges;
     writer_drop False W }"

definition try_from_edges :: "(bytes \<Rightarrow> u32) \<Rightarrow> nat \<Rightarrow> (u32 \<times> u32) list \<Rightarrow> nat \<Rightarrow> nat \<Rightarrow> (insert_error + dynamic_graph) option" where
  "try_from_edges crc num_vertices edges arena_bytes registry = do {
     G \<leftarrow> graph_new num_vertices arena_bytes registry;
     W \<leftarrow> writer_or_panic G;
     (r, W) \<leftarrow> insert_edges crc W edges;
     G \<leftarrow> writer_drop False W;
     Some (case r of Inl e \<Rightarrow> Inl e | Inr _ \<Rightarrow> Inr G) }"

text \<open>The callback of the recovery: the guard is opened by the first record.\<close>

definition replay_edge :: "(bytes \<Rightarrow> u32) \<Rightarrow> nat \<Rightarrow> dynamic_graph + writer \<Rightarrow> edge_record
    \<Rightarrow> ((dynamic_graph + writer) \<times> (wal_error + unit)) option" where
  "replay_edge crc num_vertices s rec = do {
     W \<leftarrow> (case s of Inl G \<Rightarrow> writer_or_panic G | Inr W \<Rightarrow> Some W);
     (r, W) \<leftarrow> insert_edge crc W (er_src rec) (er_dst rec);
     (case r of
        Inr _ \<Rightarrow> Some (Inr W, Inr ())
      | Inl (VertexOutOfRange src dst) \<Rightarrow> Some (Inr W, Inl (RecordOutOfRange src dst num_vertices))
      | Inl InsArenaFull \<Rightarrow> Some (Inr W, Inl ReplayArenaFull)
      | Inl WalAppend \<Rightarrow> None) }"

definition open_with_wal_and_epoch :: "(bytes \<Rightarrow> u32) \<Rightarrow> log_file \<Rightarrow> bool \<Rightarrow> ring_state \<Rightarrow> bool \<Rightarrow> bool \<Rightarrow> nat \<Rightarrow> nat
    \<Rightarrow> epoch_clock \<Rightarrow> nat \<Rightarrow> (log_file \<times> (wal_error + dynamic_graph)) option" where
  "open_with_wal_and_epoch crc f locked ring works fault num_vertices arena_bytes clock registry = do {
     G \<leftarrow> graph_new_with_epoch num_vertices arena_bytes clock registry;
     (s, f, r) \<leftarrow> open_replaying crc (replay_edge crc num_vertices) (Inl G) f locked ring works fault;
     (case r of
        Inl e \<Rightarrow> Some (f, Inl e)
      | Inr (wal, _) \<Rightarrow> do {
          G \<leftarrow> (case s of Inl G \<Rightarrow> Some G | Inr W \<Rightarrow> writer_drop False W);
          Some (f, Inr (G\<lparr>dg_wal := Some wal\<rparr>)) }) }"

end
