(* ===== verification/Forest.thy ===== *)
theory Forest
  imports Writer CTree_Properties
begin

section \<open>All trees of a graph in one arena\<close>

text \<open>
  \<open>T\<close> gives each vertex its tree, if it has one. \<open>own\<close> says, for one slot class, that the slots of
  the trees and of the retire log are distinct slots in use; \<open>forest_at\<close> is that for both
  classes, with every tree stored and well formed. An insert into one vertex's tree, a batch chain,
  a bulk rebuild and a retirement are shown to carry a forest to a forest.
\<close>

subsection \<open>Ownership of one slot class\<close>

definition own :: "nat \<Rightarrow> (nat \<Rightarrow> u32 list) \<Rightarrow> u32 list \<Rightarrow> u32 set \<Rightarrow> bool" where
  "own nv f dl L \<longleftrightarrow> distinct dl \<and> set dl \<subseteq> L \<and>
     (\<forall>v<nv. distinct (f v) \<and> set (f v) \<subseteq> L \<and> set (f v) \<inter> set dl = {}) \<and>
     (\<forall>v<nv. \<forall>w<nv. v \<noteq> w \<longrightarrow> set (f v) \<inter> set (f w) = {})"

lemma own_ext: "own nv f dl L \<Longrightarrow> L \<subseteq> L' \<Longrightarrow> own nv f dl L'"
  unfolding own_def by blast

lemma own_truncate: "own nv f (dl @ d) L \<Longrightarrow> own nv f dl L"
  unfolding own_def by auto

lemma own_retire: "own nv f dl L \<Longrightarrow> own nv f [] (L - set dl)"
  unfolding own_def by auto

lemma own_swap:
  assumes o: "own nv f dl L" and v: "v < nv" and sw: "swapped L (f v) ys d L'"
  shows "own nv (f(v := ys)) (dl @ d) L'"
proof -
  have O: "distinct dl" "set dl \<subseteq> L" "\<And>w. w < nv \<Longrightarrow> distinct (f w) \<and> set (f w) \<subseteq> L \<and> set (f w) \<inter> set dl = {}"
    "\<And>w x. w < nv \<Longrightarrow> x < nv \<Longrightarrow> w \<noteq> x \<Longrightarrow> set (f w) \<inter> set (f x) = {}"
    using o by (auto simp: own_def)
  have S: "distinct (ys @ d)" "set (ys @ d) \<subseteq> set (f v) \<union> (L' - L)" "set (ys @ d) \<subseteq> L'" "L \<subseteq> L'"
    using sw by (simp_all add: swapped_def)
  have dl: "set (ys @ d) \<inter> set dl = {}" using S(2) O(2) O(3) [OF v] by blast
  have other: "set (ys @ d) \<inter> set (f w) = {}" if "w < nv" "w \<noteq> v" for w
    using S(2) O(3) [OF that(1)] O(4) [OF that(1) v that(2)] by blast
  show ?thesis
    unfolding own_def
  proof (intro conjI allI impI)
    show "distinct (dl @ d)" using O(1) S(1) dl by auto
    show "set (dl @ d) \<subseteq> L'" using O(2) S(3,4) by auto
    fix w
    assume w: "w < nv"
    show "distinct ((f(v := ys)) w)" using S(1) O(3) [OF w] by auto
    show "set ((f(v := ys)) w) \<subseteq> L'" using S(3,4) O(3) [OF w] by auto
    show "set ((f(v := ys)) w) \<inter> set (dl @ d) = {}"
      using S(1) dl O(3) [OF w] other [OF w] by (cases "w = v") auto
    fix x
    assume x: "x < nv" and ne: "w \<noteq> x"
    show "set ((f(v := ys)) w) \<inter> set ((f(v := ys)) x) = {}"
      using ne other [OF w] other [OF x] O(4) [OF w x ne] by (cases "w = v"; cases "x = v") auto
  qed
qed

subsection \<open>Forests\<close>

definition root_word :: "shape option \<Rightarrow> u32" where
  "root_word t = (case t of None \<Rightarrow> NULL_OFF | Some t \<Rightarrow> root_off t)"

definition nbrs :: "shape option \<Rightarrow> u32 list" where
  "nbrs t = (case t of None \<Rightarrow> [] | Some t \<Rightarrow> elems t)"

definition cs_of :: "shape option \<Rightarrow> u32 list" where
  "cs_of t = (case t of None \<Rightarrow> [] | Some t \<Rightarrow> cslots t)"

definition is_of :: "shape option \<Rightarrow> u32 list" where
  "is_of t = (case t of None \<Rightarrow> [] | Some t \<Rightarrow> islots t)"

definition tree_ok :: "arena \<Rightarrow> nat \<Rightarrow> shape option \<Rightarrow> bool" where
  "tree_ok A nv t \<longleftrightarrow> (case t of None \<Rightarrow> True
     | Some t \<Rightarrow> stored A t \<and> wf_shape t \<and> (\<forall>x\<in>set (elems t). unat x < nv))"

definition low :: "shape option \<Rightarrow> bool" where
  "low t \<longleftrightarrow> (case t of None \<Rightarrow> True | Some t \<Rightarrow> height t < MAX_DEPTH)"

text \<open>Within the scapegoat bound.\<close>

definition shallow :: "shape option \<Rightarrow> bool" where
  "shallow t \<longleftrightarrow> (case t of None \<Rightarrow> True | Some t \<Rightarrow> height t \<le> depth_limit (tsize t))"

definition hgt :: "shape option \<Rightarrow> nat" where
  "hgt t = (case t of None \<Rightarrow> 0 | Some t \<Rightarrow> height t)"

lemma shape_option_simps [simp]:
  "root_word None = NULL_OFF" "root_word (Some t) = root_off t" "nbrs None = []" "nbrs (Some t) = elems t"
  "cs_of None = []" "cs_of (Some t) = cslots t" "is_of None = []" "is_of (Some t) = islots t"
  "tree_ok A nv None" "tree_ok A nv (Some t) \<longleftrightarrow> stored A t \<and> wf_shape t \<and> (\<forall>x\<in>set (elems t). unat x < nv)"
  "hgt None = 0" "hgt (Some t) = height t" "low None" "low (Some t) \<longleftrightarrow> height t < MAX_DEPTH" "shallow None" "shallow (Some t) \<longleftrightarrow> height t \<le> depth_limit (tsize t)"
  by (simp_all add: root_word_def nbrs_def cs_of_def is_of_def tree_ok_def low_def shallow_def hgt_def)

lemma low_hgt: "low t \<longleftrightarrow> hgt t < MAX_DEPTH"
  by (cases t) (simp_all add: MAX_DEPTH_def)

text \<open>
  What open snapshots may still read: slots, with their contents and the epoch of the reader's pin, and
  the pins. A held slot is in use or waits in the old queue for a pin above that epoch.
\<close>

record held =
  h_chunks :: "(u32 \<times> chunk \<times> nat) set"
  h_interiors :: "(u32 \<times> interior \<times> nat) set"
  h_pins :: pin_registry

definition held_at :: "held \<Rightarrow> arena \<Rightarrow> u32 set \<Rightarrow> u32 set \<Rightarrow> bool" where
  "held_at H A Lc Li \<longleftrightarrow> ar_pins A = h_pins H \<and>
     (\<forall>(i, c, e)\<in>h_chunks H. arena_chunk A i = Some c \<and> pins_min_pinned (ar_pins A) \<le> e \<and>
        (i \<in> Lc \<or> waits pb_chunks (rc_old (ar_rec A)) (Suc e) 0 i)) \<and>
     (\<forall>(i, n, e)\<in>h_interiors H. arena_interior A i = Some n \<and> pins_min_pinned (ar_pins A) \<le> e \<and>
        (i \<in> Li \<or> waits pb_interiors (rc_old (ar_rec A)) (Suc e) 0 i))"

lemma held_at_chunk:
  "held_at H A Lc Li \<Longrightarrow> (i, c, e) \<in> h_chunks H \<Longrightarrow> arena_chunk A i = Some c \<and> pins_min_pinned (ar_pins A) \<le> e \<and>
     (i \<in> Lc \<or> waits pb_chunks (rc_old (ar_rec A)) (Suc e) 0 i)"
  unfolding held_at_def by blast

lemma held_at_interior:
  "held_at H A Lc Li \<Longrightarrow> (i, n, e) \<in> h_interiors H \<Longrightarrow> arena_interior A i = Some n \<and> pins_min_pinned (ar_pins A) \<le> e \<and>
     (i \<in> Li \<or> waits pb_interiors (rc_old (ar_rec A)) (Suc e) 0 i)"
  unfolding held_at_def by blast

text \<open>Growing the arena, and shrinking the slots in use to ones framed, keeps what is held.\<close>

lemma held_at_kept:
  assumes h: "held_at H A Lc Li" and fr: "arena_frame Lc' Li' A A'" and k: "arena_kept A A'"
    and c: "\<And>i c e. (i, c, e) \<in> h_chunks H \<Longrightarrow> i \<in> Lc \<Longrightarrow> i \<in> Lc' \<or>
      (waits pb_chunks (rc_old (ar_rec A')) (Suc e) 0 i \<and> ar_chunks A' i = ar_chunks A i)"
    and n: "\<And>i n e. (i, n, e) \<in> h_interiors H \<Longrightarrow> i \<in> Li \<Longrightarrow> i \<in> Li' \<or>
      (waits pb_interiors (rc_old (ar_rec A')) (Suc e) 0 i \<and> ar_interiors A' i = ar_interiors A i)"
  shows "held_at H A' Lc' Li'"
proof -
  have p: "ar_pins A' = ar_pins A" using k by (simp add: arena_kept_def)
  have 1: "arena_chunk A' i = Some c \<and> pins_min_pinned (ar_pins A') \<le> e \<and>
      (i \<in> Lc' \<or> waits pb_chunks (rc_old (ar_rec A')) (Suc e) 0 i)" if m: "(i, c, e) \<in> h_chunks H" for i c e
  proof -
    note H = held_at_chunk [OF h m]
    have e: "pins_min_pinned (ar_pins A) < Suc e" using H by simp
    consider (u) "i \<in> Lc'" | (w) "waits pb_chunks (rc_old (ar_rec A')) (Suc e) 0 i" "ar_chunks A' i = ar_chunks A i"
      using H c [OF m] k e unfolding arena_kept_def by blast
    then show ?thesis using H fr p by cases (auto simp: arena_frame_def arena_chunk_def)
  qed
  have 2: "arena_interior A' i = Some n \<and> pins_min_pinned (ar_pins A') \<le> e \<and>
      (i \<in> Li' \<or> waits pb_interiors (rc_old (ar_rec A')) (Suc e) 0 i)" if m: "(i, n, e) \<in> h_interiors H" for i n e
  proof -
    note H = held_at_interior [OF h m]
    have e: "pins_min_pinned (ar_pins A) < Suc e" using H by simp
    consider (u) "i \<in> Li'" | (w) "waits pb_interiors (rc_old (ar_rec A')) (Suc e) 0 i" "ar_interiors A' i = ar_interiors A i"
      using H n [OF m] k e unfolding arena_kept_def by blast
    then show ?thesis using H fr p by cases (auto simp: arena_frame_def arena_interior_def)
  qed
  have "ar_pins A' = h_pins H" using p h by (simp add: held_at_def)
  then show ?thesis unfolding held_at_def using 1 2 by blast
qed

lemma held_at_ext: "held_at H A Lc Li \<Longrightarrow> arena_ext Lc Li A Lc' Li' A' \<Longrightarrow> held_at H A' Lc' Li'"
proof -
  assume h: "held_at H A Lc Li" and e: "arena_ext Lc Li A Lc' Li' A'"
  then have "held_at H A' Lc Li" by (intro held_at_kept [OF h]) (auto simp: arena_ext_def)
  then show "held_at H A' Lc' Li'" using e unfolding held_at_def arena_ext_def by blast
qed

definition forest_at :: "held \<Rightarrow> arena \<Rightarrow> u32 set \<Rightarrow> u32 set \<Rightarrow> nat \<Rightarrow> (nat \<Rightarrow> shape option) \<Rightarrow> retire_log \<Rightarrow> bool" where
  "forest_at H A Lc Li nv T log \<longleftrightarrow> arena_inv A Lc Li \<and> held_at H A Lc Li \<and>
     own nv (\<lambda>v. cs_of (T v)) (rl_chunks log) Lc \<and> own nv (\<lambda>v. is_of (T v)) (rl_interiors log) Li \<and>
     (\<forall>v<nv. tree_ok A nv (T v))"

lemma forest_inv: "forest_at H A Lc Li nv T log \<Longrightarrow> arena_inv A Lc Li"
  by (simp add: forest_at_def)

lemma forest_tree_ok: "forest_at H A Lc Li nv T log \<Longrightarrow> v < nv \<Longrightarrow> tree_ok A nv (T v)"
  by (simp add: forest_at_def)

lemma forest_tree_at:
  assumes "forest_at H A Lc Li nv T log" and "v < nv" and "T v = Some t"
  shows "tree_at A Lc Li t" and "\<forall>x\<in>set (elems t). unat x < nv"
proof -
  have "tree_ok A nv (T v)" "distinct (cs_of (T v))" "set (cs_of (T v)) \<subseteq> Lc" "distinct (is_of (T v))" "set (is_of (T v)) \<subseteq> Li"
    using assms(1,2) by (simp_all add: forest_at_def own_def)
  then show "tree_at A Lc Li t" "\<forall>x\<in>set (elems t). unat x < nv"
    using assms(3) forest_inv [OF assms(1)] by (simp_all add: tree_at_def)
qed

text \<open>A tree over vertices below \<open>nv\<close> has at most \<open>nv\<close> elements.\<close>

lemma ssorted_bounded:
  assumes "ssorted xs" and "\<forall>x\<in>set xs. unat (x :: u32) < nv"
  shows "length xs \<le> nv"
proof -
  have "inj_on unat (set xs)" by (rule inj_onI) (simp add: word_unat_eq_iff)
  then have "card (unat ` set xs) = length xs" using ssorted_distinct [OF assms(1)] by (simp add: card_image distinct_card)
  moreover have "card (unat ` set xs) \<le> card {..<nv}" using assms(2) by (intro card_mono) auto
  ultimately show ?thesis by simp
qed

lemma tree_ok_size: "tree_ok A nv t \<Longrightarrow> length (nbrs t) \<le> nv"
  using ssorted_bounded [OF wf_ssorted] by (cases t) auto

lemma tree_ok_ext:
  assumes "arena_ext Lc Li A Lc' Li' A'" and "tree_ok A nv t" and "set (cs_of t) \<subseteq> Lc" and "set (is_of t) \<subseteq> Li"
  shows "tree_ok A' nv t"
  using assms arena_ext_stored [OF assms(1)] by (cases t) auto

lemma forest_ext:
  assumes f: "forest_at H A Lc Li nv T log" and e: "arena_ext Lc Li A Lc' Li' A'"
  shows "forest_at H A' Lc' Li' nv T log"
proof -
  have sub: "Lc \<subseteq> Lc'" "Li \<subseteq> Li'" using e by (simp_all add: arena_ext_def)
  have F: "held_at H A Lc Li" "own nv (\<lambda>v. cs_of (T v)) (rl_chunks log) Lc" "own nv (\<lambda>v. is_of (T v)) (rl_interiors log) Li"
    using f by (simp_all add: forest_at_def)
  have "\<forall>v<nv. tree_ok A' nv (T v)"
    using f tree_ok_ext [OF e] by (auto simp: forest_at_def own_def)
  then show ?thesis
    unfolding forest_at_def using arena_ext_inv [OF e] held_at_ext [OF F(1) e] own_ext [OF F(2) sub(1)] own_ext [OF F(3) sub(2)] by simp
qed

lemma shallow_low: "shallow t \<Longrightarrow> length (nbrs t) < 2 ^ 32 \<Longrightarrow> low t"
proof (cases t)
  case (Some s)
  assume "shallow t" "length (nbrs t) < 2 ^ 32"
  then have "height s \<le> depth_limit (tsize s)" "tsize s < 2 ^ 32" using Some by simp_all
  then have "height s \<le> 54" using depth_limit_small [of "tsize s"] by simp
  then show "low t" using Some by (simp add: MAX_DEPTH_def)
qed simp

subsection \<open>Replacing one tree\<close>

lemma forest_replace:
  assumes f: "forest_at H A Lc Li nv T log" and v: "v < nv" and e: "arena_ext Lc Li A Lc' Li' A'"
    and swc: "swapped Lc (cs_of (T v)) (cs_of t') dc Lc'" and swi: "swapped Li (is_of (T v)) (is_of t') di Li'"
    and ok: "tree_ok A' nv t'"
  shows "forest_at H A' Lc' Li' nv (T(v := t')) (log\<lparr>rl_chunks := rl_chunks log @ dc, rl_interiors := rl_interiors log @ di\<rparr>)"
proof -
  have o: "own nv (\<lambda>v. cs_of (T v)) (rl_chunks log) Lc" "own nv (\<lambda>v. is_of (T v)) (rl_interiors log) Li"
    using f by (simp_all add: forest_at_def)
  have e1: "(\<lambda>w. cs_of ((T(v := t')) w)) = (\<lambda>v. cs_of (T v))(v := cs_of t')"
    and e2: "(\<lambda>w. is_of ((T(v := t')) w)) = (\<lambda>v. is_of (T v))(v := is_of t')" by auto
  have tr: "\<forall>w<nv. tree_ok A' nv ((T(v := t')) w)"
    using forest_ext [OF f e] ok by (auto simp: forest_at_def)
  show ?thesis
    unfolding forest_at_def e1 e2
    using own_swap [OF o(1) v swc] own_swap [OF o(2) v swi] arena_ext_inv [OF e] tr f held_at_ext [OF _ e]
    by (simp add: forest_at_def)
qed

definition tree_root :: "shape option \<Rightarrow> ctree" where
  "tree_root t = \<lparr>ct_root = root_word t\<rparr>"

definition forest_inserted :: "held \<Rightarrow> arena \<Rightarrow> u32 set \<Rightarrow> u32 set \<Rightarrow> nat \<Rightarrow> (nat \<Rightarrow> shape option) \<Rightarrow> retire_log \<Rightarrow> nat \<Rightarrow> u32
    \<Rightarrow> ctree \<Rightarrow> arena \<Rightarrow> retire_log \<Rightarrow> bool" where
  "forest_inserted H A Lc Li nv T log s d x A' log' \<longleftrightarrow> (\<exists>t' Lc' Li' dc di.
     x = tree_root (Some t') \<and> forest_at H A' Lc' Li' nv (T(s := Some t')) log' \<and> arena_ext Lc Li A Lc' Li' A' \<and>
     set (elems t') = insert d (set (nbrs (T s))) \<and> tsize t' = Suc (length (nbrs (T s))) \<and>
     log' = log\<lparr>rl_chunks := rl_chunks log @ dc, rl_interiors := rl_interiors log @ di\<rparr> \<and>
     height t' \<le> Suc (hgt (T s)) \<and> (shallow (T s) \<longrightarrow> shallow (Some t') \<or> alloc_failed A'))"

lemma forest_insert:
  assumes f: "forest_at H A Lc Li nv T log" and nv: "nv < 2 ^ 32 - 1" and s: "s < nv" and d: "unat d < nv" and low: "low (T s)"
  obtains (dup) "insert_with_scratch (tree_root (T s)) A d log = Some (Duplicate, A, log)" "d \<in> set (nbrs (T s))"
  | (full) A' Lc' Li' where "insert_with_scratch (tree_root (T s)) A d log = Some (ArenaFull, A', log)" "d \<notin> set (nbrs (T s))"
      "alloc_failed A'" "arena_ext Lc Li A Lc' Li' A'"
  | (ok) x A' log' where "insert_with_scratch (tree_root (T s)) A d log = Some (Inserted x, A', log')" "d \<notin> set (nbrs (T s))"
      "forest_inserted H A Lc Li nv T log s d x A' log'"
proof (cases "T s")
  case None
  have e: "tree_root None = ctree_empty" by (simp add: tree_root_def ctree_empty_def)
  from insert_empty_ok [OF forest_inv [OF f], of d log] show thesis
  proof cases
    case (1 A')
    then show ?thesis using None by (intro full [of A' Lc Li]) (simp_all add: e)
  next
    case (2 i c A')
    have sw: "swapped Lc (cs_of (T s)) (cs_of (Some (Lf i c))) [] (insert i Lc)" "swapped Li (is_of (T s)) (is_of (Some (Lf i c))) [] Li"
      using 2(2) None by (auto simp: swapped_def)
    have tok: "tree_ok A' nv (Some (Lf i c))" using 2(4,5) d by (simp add: tree_at_def)
    have L: "log\<lparr>rl_chunks := rl_chunks log @ [], rl_interiors := rl_interiors log @ []\<rparr> = log" by simp
    have r: "forest_inserted H A Lc Li nv T log s d \<lparr>ct_root = i\<rparr> A' log"
      unfolding forest_inserted_def
      apply (rule exI [of _ "Lf i c"]) apply (rule exI [of _ "insert i Lc"]) apply (rule exI [of _ Li])
      apply (rule exI [of _ "[]"]) apply (rule exI [of _ "[]"])
      using forest_replace [OF f s 2(3) sw tok] 2(3,5) None by (simp add: tree_root_def L)
    show ?thesis using 2(1) None by (intro ok [of "\<lparr>ct_root = i\<rparr>" A' log] r) (simp_all add: e)
  qed
next
  case (Some t)
  note ta = forest_tree_at [OF f s Some]
  have e: "tree_root (Some t) = \<lparr>ct_root = root_off t\<rparr>" by (simp add: tree_root_def)
  have z: "Suc (tsize t) < 2 ^ 32" using tree_ok_size [OF forest_tree_ok [OF f s]] nv Some by simp
  have h: "height t < MAX_DEPTH" using low Some by simp
  obtain r A' log' where run: "insert_with_scratch \<lparr>ct_root = root_off t\<rparr> A d log = Some (r, A', log')"
    and post: "insert_post Lc Li A t d log r A' log'" using insert_ok [OF ta(1) h z] by blast
  show thesis
  proof (cases r)
    case Duplicate
    then show ?thesis using run post Some by (intro dup) (simp_all add: e insert_post_def)
  next
    case ArenaFull
    then obtain Lc' Li' where "d \<notin> set (elems t)" "log' = log" "alloc_failed A'" "arena_ext Lc Li A Lc' Li' A'"
      using post by (auto simp: insert_post_def)
    then show ?thesis using run ArenaFull Some by (intro full [of A' Lc' Li']) (simp_all add: e)
  next
    case (Inserted x)
    then have nd: "d \<notin> set (elems t)" and dn: "insert_done Lc Li A t d log (ct_root x) A' log'"
      using post by (simp_all add: insert_post_def)
    from dn obtain t' Lc' Li' dc di where t': "ct_root x = root_off t'" "tree_at A' Lc' Li' t'"
      "arena_ext Lc Li A Lc' Li' A'" "set (elems t') = insert d (set (elems t))" "tsize t' = Suc (tsize t)"
      "log' = log\<lparr>rl_chunks := rl_chunks log @ dc, rl_interiors := rl_interiors log @ di\<rparr>"
      "swapped Lc (cslots t) (cslots t') dc Lc'" "swapped Li (islots t) (islots t') di Li'"
      "height t' \<le> Suc (height t)" "height t' \<le> max (height t) (depth_limit (tsize t')) \<or> alloc_failed A'"
      unfolding insert_done_def by blast
    have tok: "tree_ok A' nv (Some t')" using t'(2,4) ta(2) d by (simp add: tree_at_def)
    have fr: "forest_at H A' Lc' Li' nv (T(s := Some t')) log'"
      unfolding t'(6) by (rule forest_replace [OF f s t'(3) _ _ tok]) (use t'(7,8) Some in simp_all)
    have sh: "shallow (T s) \<longrightarrow> shallow (Some t') \<or> alloc_failed A'"
    proof
      assume "shallow (T s)"
      then have "height t \<le> depth_limit (tsize t')"
        using Some t'(5) depth_limit_mono [of "tsize t" "tsize t'"] by simp
      then show "shallow (Some t') \<or> alloc_failed A'" using t'(10) by auto
    qed
    have r: "forest_inserted H A Lc Li nv T log s d x A' log'"
      unfolding forest_inserted_def
      apply (rule exI [of _ t']) apply (rule exI [of _ Lc']) apply (rule exI [of _ Li'])
      apply (rule exI [of _ dc]) apply (rule exI [of _ di])
      using fr t' sh Some by (cases x) (simp add: tree_root_def)
    show ?thesis using run Inserted nd Some by (intro ok [OF _ _ r]) (simp_all add: e)
  qed
qed

subsection \<open>Chains, retirements and rebuilds\<close>

lemma log_grows_trans:
  "log\<lparr>rl_chunks := rl_chunks log @ a, rl_interiors := rl_interiors log @ b\<rparr>\<lparr>rl_chunks := rl_chunks
      (log\<lparr>rl_chunks := rl_chunks log @ a, rl_interiors := rl_interiors log @ b\<rparr>) @ c, rl_interiors := rl_interiors
      (log\<lparr>rl_chunks := rl_chunks log @ a, rl_interiors := rl_interiors log @ b\<rparr>) @ d\<rparr> =
   (log :: retire_log)\<lparr>rl_chunks := rl_chunks log @ a @ c, rl_interiors := rl_interiors log @ b @ d\<rparr>"
  by (cases log) simp

definition log_grew :: "retire_log \<Rightarrow> retire_log \<Rightarrow> bool" where
  "log_grew log log' \<longleftrightarrow> (\<exists>dc di. log' = log\<lparr>rl_chunks := rl_chunks log @ dc, rl_interiors := rl_interiors log @ di\<rparr>)"

lemma log_grew_refl: "log_grew log log"
  unfolding log_grew_def by (rule exI [of _ "[]"], rule exI [of _ "[]"]) simp

lemma log_grew_trans: "log_grew a b \<Longrightarrow> log_grew b c \<Longrightarrow> log_grew a c"
  unfolding log_grew_def using log_grows_trans by metis

lemma log_grew_truncate:
  "log_grew log log' \<Longrightarrow> log_truncate log' (length (rl_chunks log)) (length (rl_interiors log)) = log"
  by (auto simp: log_grew_def log_truncate_def)

definition chain_ok :: "held \<Rightarrow> arena \<Rightarrow> u32 set \<Rightarrow> u32 set \<Rightarrow> nat \<Rightarrow> (nat \<Rightarrow> shape option) \<Rightarrow> retire_log \<Rightarrow> nat \<Rightarrow> u32 list
    \<Rightarrow> ctree option \<Rightarrow> arena \<Rightarrow> retire_log \<Rightarrow> u32 list \<Rightarrow> bool" where
  "chain_ok H A Lc Li nv T log s ds r A' log' nd \<longleftrightarrow> log_grew log log' \<and> (\<exists>Lc' Li'. arena_ext Lc Li A Lc' Li' A' \<and>
     (\<forall>x. r = Some x \<longrightarrow> (\<exists>t'. x = tree_root t' \<and> forest_at H A' Lc' Li' nv (T(s := t')) log' \<and>
        set (nbrs t') = set (nbrs (T s)) \<union> set ds \<and> length (nbrs t') = length (nbrs (T s)) + length nd \<and>
        nd = filter (\<lambda>d. d \<notin> set (nbrs (T s))) ds \<and> hgt t' \<le> hgt (T s) + length ds \<and>
        (nd = [] \<longrightarrow> t' = T s \<and> log' = log))))"

lemma forest_chain:
  assumes "forest_at H A Lc Li nv T log" and nv: "nv < 2 ^ 32 - 1" and s: "s < nv" and "\<forall>d\<in>set ds. unat d < nv"
    and "distinct ds" and "hgt (T s) + length ds \<le> MAX_DEPTH"
  shows "\<exists>r A' log' nd. insert_chain (tree_root (T s)) ds A log nd0 = Some (r, A', log', nd0 @ nd) \<and>
    chain_ok H A Lc Li nv T log s ds r A' log' nd"
  using assms(1,4-6)
proof (induction ds arbitrary: A Lc Li T log nd0)
  case Nil
  have "chain_ok H A Lc Li nv T log s [] (Some (tree_root (T s))) A log []"
    unfolding chain_ok_def using Nil.prems(1) forest_inv arena_ext_refl log_grew_refl
    by (intro conjI exI [of _ Lc] exI [of _ Li]) auto
  then show ?case by (simp del: fun_upd_apply)
next
  case (Cons d ds)
  have d: "unat d < nv" and ds: "\<forall>d\<in>set ds. unat d < nv" "distinct ds" "d \<notin> set ds" using Cons.prems(2,3) by simp_all
  have low: "low (T s)" using Cons.prems(4) by (simp add: low_hgt)
  from forest_insert [OF Cons.prems(1) nv s d low] show ?case
  proof cases
    case 1
    have h: "hgt (T s) + length ds \<le> MAX_DEPTH" using Cons.prems(4) by simp
    obtain r A' log' nd where c: "insert_chain (tree_root (T s)) ds A log nd0 = Some (r, A', log', nd0 @ nd)"
      "chain_ok H A Lc Li nv T log s ds r A' log' nd" using Cons.IH [OF Cons.prems(1) ds(1,2) h, of nd0] by blast
    have "chain_ok H A Lc Li nv T log s (d # ds) r A' log' nd"
      using c(2) 1(2) unfolding chain_ok_def by (fastforce intro: le_SucI)
    then show ?thesis using c(1) 1(1) by auto
  next
    case (2 A' Lc' Li')
    have "chain_ok H A Lc Li nv T log s (d # ds) None A' log []"
      unfolding chain_ok_def using 2(4) log_grew_refl by blast
    moreover have "insert_chain (tree_root (T s)) (d # ds) A log nd0 = Some (None, A', log, nd0 @ [])" using 2(1) by simp
    ultimately show ?thesis by blast
  next
    case (3 x A1 log1)
    from 3(3) obtain t1 Lc1 Li1 dc di where t1: "x = tree_root (Some t1)" "forest_at H A1 Lc1 Li1 nv (T(s := Some t1)) log1"
      "arena_ext Lc Li A Lc1 Li1 A1" "set (elems t1) = insert d (set (nbrs (T s)))" "tsize t1 = Suc (length (nbrs (T s)))"
      "log1 = log\<lparr>rl_chunks := rl_chunks log @ dc, rl_interiors := rl_interiors log @ di\<rparr>" "height t1 \<le> Suc (hgt (T s))"
      unfolding forest_inserted_def by blast
    let ?T1 = "T(s := Some t1)"
    have T1: "?T1 s = Some t1" by simp
    have h: "hgt (?T1 s) + length ds \<le> MAX_DEPTH" using Cons.prems(4) t1(7) by simp
    obtain r A' log' nd where c: "insert_chain (tree_root (?T1 s)) ds A1 log1 (nd0 @ [d]) = Some (r, A', log', (nd0 @ [d]) @ nd)"
      "chain_ok H A1 Lc1 Li1 nv ?T1 log1 s ds r A' log' nd" using Cons.IH [OF t1(2) ds(1,2) h, of "nd0 @ [d]"] by blast
    have g1: "log_grew log log1" unfolding log_grew_def using t1(6) by blast
    have nd: "filter (\<lambda>e. e \<notin> set (elems t1)) ds = filter (\<lambda>e. e \<notin> set (nbrs (T s))) ds"
      using t1(4) ds(3) by (intro filter_cong) auto
    have "chain_ok H A Lc Li nv T log s (d # ds) r A' log' (d # nd)"
    proof -
      from c(2) obtain Lc' Li' where e: "log_grew log1 log'" "arena_ext Lc1 Li1 A1 Lc' Li' A'"
        "\<forall>y. r = Some y \<longrightarrow> (\<exists>t'. y = tree_root t' \<and> forest_at H A' Lc' Li' nv (T(s := t')) log' \<and>
          set (nbrs t') = set (elems t1) \<union> set ds \<and> length (nbrs t') = tsize t1 + length nd \<and>
          nd = filter (\<lambda>d. d \<notin> set (elems t1)) ds \<and> hgt t' \<le> height t1 + length ds \<and>
          (nd = [] \<longrightarrow> t' = Some t1 \<and> log' = log1))"
        unfolding chain_ok_def by (simp only: T1 fun_upd_upd shape_option_simps) blast
      have last: "\<exists>t'. y = tree_root t' \<and> forest_at H A' Lc' Li' nv (T(s := t')) log' \<and>
          set (nbrs t') = set (nbrs (T s)) \<union> set (d # ds) \<and> length (nbrs t') = length (nbrs (T s)) + length (d # nd) \<and>
          d # nd = filter (\<lambda>d. d \<notin> set (nbrs (T s))) (d # ds) \<and> hgt t' \<le> hgt (T s) + length (d # ds) \<and>
          (d # nd = [] \<longrightarrow> t' = T s \<and> log' = log)" if ry: "r = Some y" for y
      proof -
        obtain t' where t': "y = tree_root t'" "forest_at H A' Lc' Li' nv (T(s := t')) log'"
          "set (nbrs t') = set (elems t1) \<union> set ds" "length (nbrs t') = tsize t1 + length nd"
          "nd = filter (\<lambda>d. d \<notin> set (elems t1)) ds" "hgt t' \<le> height t1 + length ds" using e(3) ry by blast
        show ?thesis using t' t1(4,5,7) nd 3(2) by (intro exI [of _ t']) auto
      qed
      show ?thesis unfolding chain_ok_def
        using log_grew_trans [OF g1 e(1)] arena_ext_trans [OF t1(3) e(2)] last by blast
    qed
    moreover have "insert_chain (tree_root (T s)) (d # ds) A log nd0 = Some (r, A', log', nd0 @ d # nd)"
      using 3(1) c(1) t1(1) by simp
    ultimately show ?thesis by blast
  qed
qed

lemma frame_tree_ok:
  "arena_frame Lc Li A A' \<Longrightarrow> tree_ok A nv t \<Longrightarrow> set (cs_of t) \<subseteq> Lc \<Longrightarrow> set (is_of t) \<subseteq> Li \<Longrightarrow> tree_ok A' nv t"
  using stored_frame by (cases t) auto

lemma waits_mono: "waits sel q s g i \<Longrightarrow> s' \<le> s \<Longrightarrow> waits sel q s' g i"
  by (auto simp: waits_def)

lemma forest_retire:
  assumes f: "forest_at H A Lc Li nv T log" and r: "arena_retire aw A log stamp = (log', A')"
    and hc: "\<And>i c e. (i, c, e) \<in> h_chunks H \<Longrightarrow> i < aw_young_chunk aw \<and> e < stamp"
    and hi: "\<And>i n e. (i, n, e) \<in> h_interiors H \<Longrightarrow> i < aw_young_interior aw \<and> e < stamp"
  shows "log' = retire_log_new" and "forest_at H A' (Lc - set (rl_chunks log)) (Li - set (rl_interiors log)) nv T retire_log_new"
    and "arena_frame (Lc - set (rl_chunks log)) (Li - set (rl_interiors log)) A A'"
proof -
  let ?Lc = "Lc - set (rl_chunks log)" and ?Li = "Li - set (rl_interiors log)"
  have o: "own nv (\<lambda>v. cs_of (T v)) (rl_chunks log) Lc" "own nv (\<lambda>v. is_of (T v)) (rl_interiors log) Li"
    using f by (simp_all add: forest_at_def)
  have u: "?Lc \<union> set (rl_chunks log) = Lc" "?Li \<union> set (rl_interiors log) = Li" using o by (auto simp: own_def)
  have d: "distinct (rl_chunks log)" "distinct (rl_interiors log)" using o by (simp_all add: own_def)
  have inv: "arena_inv A (?Lc \<union> set (rl_chunks log)) (?Li \<union> set (rl_interiors log))" unfolding u using f by (rule forest_inv)
  have dj: "set (rl_chunks log) \<inter> ?Lc = {}" "set (rl_interiors log) \<inter> ?Li = {}" by auto
  note ar = arena_retire_ok [OF inv d dj r]
  show "log' = retire_log_new" by (rule ar(3))
  show "arena_frame ?Lc ?Li A A'" by (rule ar(2))
  have own': "own nv (\<lambda>v. cs_of (T v)) [] ?Lc" "own nv (\<lambda>v. is_of (T v)) [] ?Li" using o own_retire by blast+
  have sub: "set (cs_of (T v)) \<subseteq> ?Lc" "set (is_of (T v)) \<subseteq> ?Li" if "v < nv" for v
    using own' that by (simp_all add: own_def)
  have "tree_ok A' nv (T v)" if "v < nv" for v
    by (rule frame_tree_ok [OF ar(2) forest_tree_ok [OF f that] sub [OF that]])
  moreover have "held_at H A' ?Lc ?Li"
  proof (rule held_at_kept [OF _ ar(2) arena_kept_retire [OF inv d dj r]])
    show h: "held_at H A Lc Li" using f by (simp add: forest_at_def)
    note w = arena_retire_waits [OF inv d dj r]
    show "i \<in> ?Lc \<or> waits pb_chunks (rc_old (ar_rec A')) (Suc e) 0 i \<and> ar_chunks A' i = ar_chunks A i"
      if m: "(i, c, e) \<in> h_chunks H" and u: "i \<in> Lc" for i c e
    proof (cases "i \<in> set (rl_chunks log)")
      case True
      have "e < stamp" "i < aw_young_chunk aw" "pins_min_pinned (ar_pins A) < stamp"
        using hc [OF m] held_at_chunk [OF h m] by auto
      then show ?thesis using w(1) [OF _ True] waits_mono [of pb_chunks _ stamp 0 i "Suc e"] by simp
    qed (use u in simp)
    show "i \<in> ?Li \<or> waits pb_interiors (rc_old (ar_rec A')) (Suc e) 0 i \<and> ar_interiors A' i = ar_interiors A i"
      if m: "(i, n, e) \<in> h_interiors H" and u: "i \<in> Li" for i n e
    proof (cases "i \<in> set (rl_interiors log)")
      case True
      have "e < stamp" "i < aw_young_interior aw" "pins_min_pinned (ar_pins A) < stamp"
        using hi [OF m] held_at_interior [OF h m] by auto
      then show ?thesis using w(2) [OF _ True] waits_mono [of pb_interiors _ stamp 0 i "Suc e"] by simp
    qed (use u in simp)
  qed
  ultimately show "forest_at H A' ?Lc ?Li nv T retire_log_new"
    unfolding forest_at_def using ar(1) own' by (simp add: retire_log_new_def)
qed

lemma merge_new_ok:
  assumes "ssorted xs" and "ssorted ds"
  shows "\<exists>ms. merge_new xs ds m n = (m @ ms, n @ filter (\<lambda>d. d \<notin> set xs) ds) \<and> ssorted ms \<and> set ms = set xs \<union> set ds"
  using assms
proof (induction xs ds m n rule: merge_new.induct)
  case (3 x xs d ds m n)
  have s: "ssorted xs" "ssorted ds" "\<forall>y\<in>set xs. x < y" "\<forall>y\<in>set ds. d < y" using "3.prems" by simp_all
  consider (l) "x < d" | (g) "d < x" | (e) "x = d" by fastforce
  then show ?case
  proof cases
    case l
    obtain ms where ms: "merge_new xs (d # ds) (m @ [x]) n = ((m @ [x]) @ ms, n @ filter (\<lambda>d. d \<notin> set xs) (d # ds))"
      "ssorted ms" "set ms = set xs \<union> set (d # ds)" using "3.IH"(1) [OF l s(1) "3.prems"(2)] by blast
    have "filter (\<lambda>d. d \<notin> set (x # xs)) (d # ds) = filter (\<lambda>d. d \<notin> set xs) (d # ds)"
      by (rule filter_cong) (use l s(4) in auto)
    then show ?thesis using l ms s(3,4) by (intro exI [of _ "x # ms"]) auto
  next
    case g
    then have nx: "\<not> x < d" by simp
    obtain ms where ms: "merge_new (x # xs) ds (m @ [d]) (n @ [d]) = ((m @ [d]) @ ms, (n @ [d]) @ filter (\<lambda>d. d \<notin> set (x # xs)) ds)"
      "ssorted ms" "set ms = set (x # xs) \<union> set ds" using "3.IH"(2) [OF nx g "3.prems"(1) s(2)] by blast
    have "d \<notin> set (x # xs)" using g s(3) by auto
    then show ?thesis using g nx ms s(3,4) by (intro exI [of _ "d # ms"]) auto
  next
    case e
    obtain ms where ms: "merge_new xs ds (m @ [x]) n = ((m @ [x]) @ ms, n @ filter (\<lambda>d. d \<notin> set xs) ds)"
      "ssorted ms" "set ms = set xs \<union> set ds" using "3.IH"(3) e s(1,2) by auto
    have "filter (\<lambda>d. d \<notin> set (x # xs)) (d # ds) = filter (\<lambda>d. d \<notin> set xs) ds"
      using e s(4) by (auto intro: filter_cong)
    then show ?thesis using e ms s(3,4) by (intro exI [of _ "x # ms"]) auto
  qed
qed auto

lemma forest_build:
  assumes f: "forest_at H A Lc Li nv T log" and nv: "nv < 2 ^ 32 - 1" and s: "s < nv"
    and vals: "vals \<noteq> []" "ssorted vals" "\<forall>x\<in>set vals. unat x < nv"
  obtains (fail) A' Lc' Li' where "ctree_from_sorted A vals = Some (None, A')" "arena_ext Lc Li A Lc' Li' A'"
  | (built) t A' Lc' Li' where "ctree_from_sorted A vals = Some (Some (tree_root (Some t)), A')" "elems t = vals" "shallow (Some t)"
      "arena_ext Lc Li A Lc' Li' A'" "forest_at H A' Lc' Li' nv (T(s := Some t))
        (log\<lparr>rl_chunks := rl_chunks log @ cs_of (T s), rl_interiors := rl_interiors log @ is_of (T s)\<rparr>)"
proof -
  have z: "length vals < 2 ^ 32" using ssorted_bounded [OF vals(2,3)] nv by simp
  obtain r A' where run: "ctree_from_sorted A vals = Some (r, A')"
    and c: "(r = None \<and> alloc_failed A' \<and> (\<exists>Lc' Li'. arena_ext Lc Li A Lc' Li' A')) \<or>
     (\<exists>t. r = Some \<lparr>ct_root = root_off t\<rparr> \<and> elems t = vals \<and> built t \<and> set (cslots t) \<inter> Lc = {} \<and> set (islots t) \<inter> Li = {} \<and>
        tree_at A' (Lc \<union> set (cslots t)) (Li \<union> set (islots t)) t \<and>
        arena_ext Lc Li A (Lc \<union> set (cslots t)) (Li \<union> set (islots t)) A')"
    using from_sorted_ok [OF forest_inv [OF f] vals(1,2) z] by blast
  from c show thesis
  proof (elim disjE exE conjE)
    fix Lc' Li'
    assume "r = None" "arena_ext Lc Li A Lc' Li' A'"
    then show thesis using run by (intro fail) simp_all
  next
    fix t
    assume t: "r = Some \<lparr>ct_root = root_off t\<rparr>" "elems t = vals" "built t" "set (cslots t) \<inter> Lc = {}" "set (islots t) \<inter> Li = {}"
      "tree_at A' (Lc \<union> set (cslots t)) (Li \<union> set (islots t)) t"
      "arena_ext Lc Li A (Lc \<union> set (cslots t)) (Li \<union> set (islots t)) A'"
    have T: "wf_shape t" "stored A' t" "distinct (cslots t)" "distinct (islots t)" using t(6) by (simp_all add: tree_at_def)
    have o: "distinct (cs_of (T s))" "set (cs_of (T s)) \<subseteq> Lc" "distinct (is_of (T s))" "set (is_of (T s)) \<subseteq> Li"
      using f s by (simp_all add: forest_at_def own_def)
    have sw: "swapped Lc (cs_of (T s)) (cs_of (Some t)) (cs_of (T s)) (Lc \<union> set (cslots t))"
      "swapped Li (is_of (T s)) (is_of (Some t)) (is_of (T s)) (Li \<union> set (islots t))"
      using T(3,4) t(4,5) o by (auto simp: swapped_def)
    have tok: "tree_ok A' nv (Some t)" using T t(2) vals(3) by simp
    have "shallow (Some t)" using built_height_limit [OF t(3) T(1)] by simp
    moreover have "r = Some (tree_root (Some t))" using t(1) by (simp add: tree_root_def)
    ultimately show thesis
      using run t(2,7) forest_replace [OF f s t(7) sw tok] by (intro built) simp_all
  qed
qed

text \<open>Reading a tree of a forest.\<close>

lemma forest_read:
  assumes f: "forest_at H A Lc Li nv T log" and nv: "nv < 2 ^ 32 - 1" and v: "v < nv"
  shows "ctree_count (tree_root (T v)) A = Some (length (nbrs (T v)))"
    and "hgt (T v) \<le> MAX_DEPTH \<Longrightarrow> collect_into (tree_root (T v)) A buf = Some (buf @ nbrs (T v))"
    and "ctree_contains (tree_root (T v)) A d = Some (d \<in> set (nbrs (T v)))"
    and "ssorted (nbrs (T v))"
proof -
  have z: "length (nbrs (T v)) < 2 ^ 32" using tree_ok_size [OF forest_tree_ok [OF f v]] nv by simp
  have N: "tree_root None = \<lparr>ct_root = NULL_OFF\<rparr>" by (simp add: tree_root_def)
  have S: "tree_root (Some t) = \<lparr>ct_root = root_off t\<rparr>" for t by (simp add: tree_root_def)
  show "ctree_count (tree_root (T v)) A = Some (length (nbrs (T v)))"
    using z tree_at_count [OF forest_tree_at(1) [OF f v]] by (cases "T v") (simp_all add: N S ctree_count_def)
  show "collect_into (tree_root (T v)) A buf = Some (buf @ nbrs (T v))" if "hgt (T v) \<le> MAX_DEPTH"
    using z that tree_at_collect [OF forest_tree_at(1) [OF f v]]
    by (cases "T v") (simp_all add: N S collect_into_def for_each_chunk_def ctree_count_def)
  show "ctree_contains (tree_root (T v)) A d = Some (d \<in> set (nbrs (T v)))"
    using tree_at_contains [OF forest_tree_at(1) [OF f v]] by (cases "T v") (simp_all add: N S ctree_contains_def)
  show "ssorted (nbrs (T v))" using forest_tree_ok [OF f v] wf_ssorted by (cases "T v") auto
qed

end
