(* ===== verification/Writer_Facts.thy ===== *)
theory Writer_Facts
  imports Forest
begin

section \<open>What the writer's steps keep\<close>

text \<open>
  \<open>writer_wf H W T Lc Li\<close>: the guard's graph has the trees \<open>T\<close> at its roots, they and the retire log
  form a forest in the arena, and the dirty bitmap is well formed. The lemmas give, for each step
  of an insert, exactly what it changes of the guard.
\<close>

text \<open>What is held was published before the guard was taken.\<close>

definition held_old :: "held \<Rightarrow> arena_writer \<Rightarrow> nat \<Rightarrow> bool" where
  "held_old H aw stamp \<longleftrightarrow> (\<forall>(i, c, e)\<in>h_chunks H. i < aw_young_chunk aw \<and> e < stamp) \<and>
     (\<forall>(i, n, e)\<in>h_interiors H. i < aw_young_interior aw \<and> e < stamp)"

lemma held_old_retire:
  assumes "held_old H aw stamp" and "stamp \<le> stamp'"
  shows "(i, c, e) \<in> h_chunks H \<Longrightarrow> i < aw_young_chunk aw \<and> e < stamp'"
    and "(i, n, e) \<in> h_interiors H \<Longrightarrow> i < aw_young_interior aw \<and> e < stamp'"
  using assms unfolding held_old_def by fastforce+

definition writer_wf :: "held \<Rightarrow> writer \<Rightarrow> (nat \<Rightarrow> shape option) \<Rightarrow> u32 set \<Rightarrow> u32 set \<Rightarrow> bool" where
  "writer_wf H W T Lc Li \<longleftrightarrow>
     (let G = wr_graph W; nv = dg_num_vertices G in
      nv < 2 ^ 32 - 1 \<and> length (dg_roots G) = nv \<and> (\<forall>v<nv. dg_roots G ! v = root_word (T v)) \<and>
      forest_at H (dg_arena G) Lc Li nv T (wr_log W) \<and> dirty_wf (dg_dirty G) \<and> db_num_vertices (dg_dirty G) = nv \<and>
      held_old H (wr_arena W) (wr_retire_stamp W))"

text \<open>The vertices marked dirty, in the bitmap or in the buffer.\<close>

definition marks :: "writer \<Rightarrow> nat set" where
  "marks W = dirty_set (dg_dirty (wr_graph W)) \<union>
     {v \<in> unat ` set (ws_dirty (wr_scratch W)). v < db_num_vertices (dg_dirty (wr_graph W))}"

definition leaf_of :: "u32 \<Rightarrow> u32" where
  "leaf_of src = drop_bit LEAF_BITS src"

subsection \<open>Bookkeeping\<close>

text \<open>\<open>bk W W'\<close>: only the dirty bitmap, the dirty buffer and the list of touched leaves differ.\<close>

definition bk :: "writer \<Rightarrow> writer \<Rightarrow> bool" where
  "bk W W' \<longleftrightarrow> wr_graph W' = (wr_graph W)\<lparr>dg_dirty := dg_dirty (wr_graph W')\<rparr> \<and> wr_arena W' = wr_arena W \<and>
     wr_retire_stamp W' = wr_retire_stamp W \<and> wr_pending_edges W' = wr_pending_edges W \<and>
     wr_wal_failed W' = wr_wal_failed W \<and> ws_new_dsts (wr_scratch W') = ws_new_dsts (wr_scratch W) \<and>
     ws_log (wr_scratch W') = ws_log (wr_scratch W) \<and>
     (dirty_wf (dg_dirty (wr_graph W)) \<longrightarrow> dirty_wf (dg_dirty (wr_graph W')) \<and>
        db_num_vertices (dg_dirty (wr_graph W')) = db_num_vertices (dg_dirty (wr_graph W)))"

lemma bk_refl [simp]: "bk W W"
  by (simp add: bk_def)

lemma bk_trans: "bk W W' \<Longrightarrow> bk W' W'' \<Longrightarrow> bk W W''"
proof -
  assume a: "bk W W'" and b: "bk W' W''"
  have g1: "wr_graph W' = (wr_graph W)\<lparr>dg_dirty := dg_dirty (wr_graph W')\<rparr>" using a by (simp add: bk_def)
  have "wr_graph W'' = (wr_graph W')\<lparr>dg_dirty := dg_dirty (wr_graph W'')\<rparr>" using b by (simp add: bk_def)
  also have "\<dots> = (wr_graph W)\<lparr>dg_dirty := dg_dirty (wr_graph W'')\<rparr>" by (subst g1) simp
  finally show "bk W W''" using a b by (simp add: bk_def)
qed

lemma bk_fields:
  assumes "bk W W'"
  shows "dg_roots (wr_graph W') = dg_roots (wr_graph W)" "dg_arena (wr_graph W') = dg_arena (wr_graph W)"
    "dg_num_vertices (wr_graph W') = dg_num_vertices (wr_graph W)" "dg_wal (wr_graph W') = dg_wal (wr_graph W)"
    "dg_latest (wr_graph W') = dg_latest (wr_graph W)" "dg_num_edges (wr_graph W') = dg_num_edges (wr_graph W)"
    "dg_epoch (wr_graph W') = dg_epoch (wr_graph W)" "dg_registry (wr_graph W') = dg_registry (wr_graph W)"
    "dg_locked (wr_graph W') = dg_locked (wr_graph W)" "dg_poisoned (wr_graph W') = dg_poisoned (wr_graph W)"
    "wr_arena W' = wr_arena W" "wr_retire_stamp W' = wr_retire_stamp W" "wr_pending_edges W' = wr_pending_edges W"
    "wr_wal_failed W' = wr_wal_failed W" "ws_new_dsts (wr_scratch W') = ws_new_dsts (wr_scratch W)" "wr_log W' = wr_log W"
proof -
  have g: "wr_graph W' = (wr_graph W)\<lparr>dg_dirty := dg_dirty (wr_graph W')\<rparr>" using assms by (simp add: bk_def)
  show "dg_roots (wr_graph W') = dg_roots (wr_graph W)" "dg_arena (wr_graph W') = dg_arena (wr_graph W)"
    "dg_num_vertices (wr_graph W') = dg_num_vertices (wr_graph W)" "dg_wal (wr_graph W') = dg_wal (wr_graph W)"
    "dg_latest (wr_graph W') = dg_latest (wr_graph W)" "dg_num_edges (wr_graph W') = dg_num_edges (wr_graph W)"
    "dg_epoch (wr_graph W') = dg_epoch (wr_graph W)" "dg_registry (wr_graph W') = dg_registry (wr_graph W)"
    "dg_locked (wr_graph W') = dg_locked (wr_graph W)" "dg_poisoned (wr_graph W') = dg_poisoned (wr_graph W)"
    by (subst g, simp)+
qed (use assms in \<open>simp_all add: bk_def\<close>)

lemma remdups_adj_sort: "sorted (remdups_adj (sort xs))" "set (remdups_adj (sort xs)) = set xs"
  by (simp_all add: sorted_remdups_adj)

lemma flush_dirty_ok:
  assumes "dirty_wf (dg_dirty (wr_graph W))"
  shows "\<exists>W'. flush_dirty W = Some W' \<and> bk W W' \<and> marks W' = marks W \<and> ws_dirty (wr_scratch W') = [] \<and>
    ws_touched (wr_scratch W') = ws_touched (wr_scratch W)"
proof (cases "ws_dirty (wr_scratch W) = []")
  case False
  let ?d = "remdups_adj (sort (ws_dirty (wr_scratch W)))"
  obtain b where b: "mark_sorted (dg_dirty (wr_graph W)) ?d = Some b" "dirty_wf b"
    "db_num_vertices b = db_num_vertices (dg_dirty (wr_graph W))"
    "dirty_set b = dirty_set (dg_dirty (wr_graph W)) \<union> {v \<in> unat ` set ?d. v < db_num_vertices (dg_dirty (wr_graph W))}"
    using mark_sorted_ok [OF assms remdups_adj_sort(1)] by blast
  let ?W = "W\<lparr>wr_graph := (wr_graph W)\<lparr>dg_dirty := b\<rparr>, wr_scratch := (wr_scratch W)\<lparr>ws_dirty := []\<rparr>\<rparr>"
  have "marks ?W = marks W" using b(4) unfolding remdups_adj_sort(2) by (simp add: marks_def)
  then show ?thesis using False b(1-3) by (intro exI [of _ ?W]) (simp add: flush_dirty_def bk_def)
qed (simp add: flush_dirty_def)

lemma note_dirty_ok:
  assumes "dirty_wf (dg_dirty (wr_graph W))"
  shows "\<exists>W'. note_dirty W v = Some W' \<and> bk W W' \<and>
    marks W' = marks W \<union> {x. x = unat v \<and> x < db_num_vertices (dg_dirty (wr_graph W))} \<and>
    ws_touched (wr_scratch W') = ws_touched (wr_scratch W)"
proof -
  obtain W1 where W1: "(if length (ws_dirty (wr_scratch W)) = DIRTY_BUF_FLUSH_THRESHOLD then flush_dirty W else Some W) = Some W1"
    "bk W W1" "marks W1 = marks W" "ws_touched (wr_scratch W1) = ws_touched (wr_scratch W)"
    using flush_dirty_ok [OF assms] by (cases "length (ws_dirty (wr_scratch W)) = DIRTY_BUF_FLUSH_THRESHOLD") auto
  let ?W = "W1\<lparr>wr_scratch := (wr_scratch W1)\<lparr>ws_dirty := ws_dirty (wr_scratch W1) @ [v]\<rparr>\<rparr>"
  have n: "db_num_vertices (dg_dirty (wr_graph W1)) = db_num_vertices (dg_dirty (wr_graph W))"
    using W1(2) assms by (simp add: bk_def)
  have "marks ?W = marks W1 \<union> {x. x = unat v \<and> x < db_num_vertices (dg_dirty (wr_graph W1))}"
    by (auto simp: marks_def)
  moreover have "bk W1 ?W" by (simp add: bk_def)
  ultimately show ?thesis
    using W1 n bk_trans [OF W1(2)] by (intro exI [of _ ?W]) (simp add: note_dirty_def)
qed

lemma note_all_dirty_ok:
  assumes "dirty_wf (dg_dirty (wr_graph W))"
  shows "\<exists>W'. note_all_dirty W ds = Some W' \<and> bk W W' \<and>
    marks W' = marks W \<union> {x \<in> unat ` set ds. x < db_num_vertices (dg_dirty (wr_graph W))} \<and>
    ws_touched (wr_scratch W') = ws_touched (wr_scratch W)"
  using assms
proof (induction ds arbitrary: W)
  case (Cons d ds)
  obtain W1 where W1: "note_dirty W d = Some W1" "bk W W1"
    "marks W1 = marks W \<union> {x. x = unat d \<and> x < db_num_vertices (dg_dirty (wr_graph W))}"
    "ws_touched (wr_scratch W1) = ws_touched (wr_scratch W)" using note_dirty_ok [OF Cons.prems] by blast
  have w: "dirty_wf (dg_dirty (wr_graph W1))" "db_num_vertices (dg_dirty (wr_graph W1)) = db_num_vertices (dg_dirty (wr_graph W))"
    using W1(2) Cons.prems by (simp_all add: bk_def)
  obtain W2 where W2: "note_all_dirty W1 ds = Some W2" "bk W1 W2"
    "marks W2 = marks W1 \<union> {x \<in> unat ` set ds. x < db_num_vertices (dg_dirty (wr_graph W1))}"
    "ws_touched (wr_scratch W2) = ws_touched (wr_scratch W1)" using Cons.IH [OF w(1)] by blast
  have m: "marks W2 = marks W \<union> {x \<in> unat ` set (d # ds). x < db_num_vertices (dg_dirty (wr_graph W))}"
    unfolding W2(3) W1(3) w(2) by auto
  show ?case using W1(1,4) W2(1,4) bk_trans [OF W1(2) W2(2)] m by (intro exI [of _ W2]) simp
qed simp

lemma note_root_store_ok:
  "bk W (note_root_store W src) \<and> marks (note_root_store W src) = marks W \<and>
   set (ws_touched (wr_scratch (note_root_store W src))) = insert (leaf_of src) (set (ws_touched (wr_scratch W)))"
proof -
  have "ws_touched (wr_scratch W) \<noteq> [] \<Longrightarrow> last (ws_touched (wr_scratch W)) = drop_bit LEAF_BITS src \<Longrightarrow>
      drop_bit LEAF_BITS src \<in> set (ws_touched (wr_scratch W))" by (metis last_in_set)
  then show ?thesis
    by (auto simp: note_root_store_def Let_def bk_def marks_def leaf_of_def insert_absorb)
qed

subsection \<open>Publishing\<close>

text \<open>\<open>published W src x n ds W'\<close>: the root of \<open>src\<close> is \<open>x\<close>, \<open>n\<close> more edges are pending, \<open>src\<close> and \<open>ds\<close> are
  marked and the leaf of \<open>src\<close> is touched.\<close>

definition published :: "writer \<Rightarrow> u32 \<Rightarrow> u32 \<Rightarrow> nat \<Rightarrow> u32 list \<Rightarrow> writer \<Rightarrow> bool" where
  "published W src x n ds W' \<longleftrightarrow>
     bk (W\<lparr>wr_graph := (wr_graph W)\<lparr>dg_roots := (dg_roots (wr_graph W))[unat src := x]\<rparr>,
           wr_pending_edges := wr_pending_edges W + n\<rparr>) W' \<and>
     marks W' = marks W \<union> {v \<in> unat ` set (src # ds). v < db_num_vertices (dg_dirty (wr_graph W))} \<and>
     set (ws_touched (wr_scratch W')) = insert (leaf_of src) (set (ws_touched (wr_scratch W)))"

lemma store_root_ok:
  assumes "unat src < length (dg_roots (wr_graph W))" and "dirty_wf (dg_dirty (wr_graph W))"
  shows "\<exists>W'. store_root W src t = Some W' \<and> bk (W\<lparr>wr_graph := (wr_graph W)\<lparr>dg_roots := (dg_roots (wr_graph W))[unat src := ct_root t]\<rparr>\<rparr>) W' \<and>
    marks W' = marks W \<and> set (ws_touched (wr_scratch W')) = insert (leaf_of src) (set (ws_touched (wr_scratch W)))"
proof -
  let ?W = "W\<lparr>wr_graph := (wr_graph W)\<lparr>dg_roots := (dg_roots (wr_graph W))[unat src := ct_root t]\<rparr>\<rparr>"
  have "marks ?W = marks W" by (simp add: marks_def)
  then show ?thesis using assms(1) note_root_store_ok [of ?W src]
    by (intro exI [of _ "note_root_store ?W src"]) (simp add: store_root_def set_opt_Some)
qed

lemma bk_pending: "bk W W' \<Longrightarrow> bk (W\<lparr>wr_pending_edges := n\<rparr>) (W'\<lparr>wr_pending_edges := n\<rparr>)"
  by (simp add: bk_def)

lemma marks_pending [simp]: "marks (W\<lparr>wr_pending_edges := n\<rparr>) = marks W"
  by (simp add: marks_def)

lemma publish_edge_ok:
  assumes "unat src < length (dg_roots (wr_graph W))" and "dirty_wf (dg_dirty (wr_graph W))"
  shows "\<exists>W'. do { W \<leftarrow> store_root W src t; let W = W\<lparr>wr_pending_edges := wr_pending_edges W + 1\<rparr>;
      W \<leftarrow> note_dirty W src; W \<leftarrow> note_dirty W dst; f W } = f W' \<and> published W src (ct_root t) 1 [dst] W'"
proof -
  let ?W0 = "W\<lparr>wr_graph := (wr_graph W)\<lparr>dg_roots := (dg_roots (wr_graph W))[unat src := ct_root t]\<rparr>\<rparr>"
  obtain W1 where W1: "store_root W src t = Some W1" "bk ?W0 W1" "marks W1 = marks W"
    "set (ws_touched (wr_scratch W1)) = insert (leaf_of src) (set (ws_touched (wr_scratch W)))" using store_root_ok [OF assms] by blast
  let ?W1 = "W1\<lparr>wr_pending_edges := wr_pending_edges W1 + 1\<rparr>"
  have p1: "wr_pending_edges W1 = wr_pending_edges W" using bk_fields(13) [OF W1(2)] by simp
  have w1: "dirty_wf (dg_dirty (wr_graph ?W1))" "db_num_vertices (dg_dirty (wr_graph ?W1)) = db_num_vertices (dg_dirty (wr_graph W))"
    using W1(2) assms(2) by (simp_all add: bk_def)
  have b1: "bk (?W0\<lparr>wr_pending_edges := wr_pending_edges W + 1\<rparr>) ?W1" using bk_pending [OF W1(2)] p1 by simp
  obtain W2 where W2: "note_dirty ?W1 src = Some W2" "bk ?W1 W2"
    "marks W2 = marks ?W1 \<union> {x. x = unat src \<and> x < db_num_vertices (dg_dirty (wr_graph ?W1))}"
    "ws_touched (wr_scratch W2) = ws_touched (wr_scratch ?W1)" using note_dirty_ok [OF w1(1)] by blast
  have w2: "dirty_wf (dg_dirty (wr_graph W2))" "db_num_vertices (dg_dirty (wr_graph W2)) = db_num_vertices (dg_dirty (wr_graph W))"
    using W2(2) w1 by (simp_all add: bk_def)
  obtain W3 where W3: "note_dirty W2 dst = Some W3" "bk W2 W3"
    "marks W3 = marks W2 \<union> {x. x = unat dst \<and> x < db_num_vertices (dg_dirty (wr_graph W2))}"
    "ws_touched (wr_scratch W3) = ws_touched (wr_scratch W2)" using note_dirty_ok [OF w2(1)] by blast
  have m: "marks W3 = marks W \<union> {v \<in> unat ` set [src, dst]. v < db_num_vertices (dg_dirty (wr_graph W))}"
    unfolding W3(3) W2(3) w1(2) w2(2) marks_pending W1(3) by auto
  have "published W src (ct_root t) 1 [dst] W3"
    unfolding published_def using bk_trans [OF bk_trans [OF b1 W2(2)] W3(2)] m W1(4) W2(4) W3(4) by simp
  then show ?thesis using W1(1) W2(1) W3(1) by (intro exI [of _ W3]) (simp add: Let_def)
qed

lemma publish_batch_ok:
  assumes "unat src < length (dg_roots (wr_graph W))" and "dirty_wf (dg_dirty (wr_graph W))"
  shows "\<exists>W'. publish_batch W src t = Some (length (ws_new_dsts (wr_scratch W)), W') \<and>
    published W src (ct_root t) (length (ws_new_dsts (wr_scratch W))) (ws_new_dsts (wr_scratch W)) W'"
proof -
  let ?ds = "ws_new_dsts (wr_scratch W)"
  let ?W0 = "W\<lparr>wr_graph := (wr_graph W)\<lparr>dg_roots := (dg_roots (wr_graph W))[unat src := ct_root t]\<rparr>\<rparr>"
  obtain W1 where W1: "store_root W src t = Some W1" "bk ?W0 W1" "marks W1 = marks W"
    "set (ws_touched (wr_scratch W1)) = insert (leaf_of src) (set (ws_touched (wr_scratch W)))" using store_root_ok [OF assms] by blast
  have nd: "ws_new_dsts (wr_scratch W1) = ?ds" using bk_fields(15) [OF W1(2)] by simp
  let ?W1 = "W1\<lparr>wr_pending_edges := wr_pending_edges W1 + length ?ds\<rparr>"
  have p1: "wr_pending_edges W1 = wr_pending_edges W" using bk_fields(13) [OF W1(2)] by simp
  have w1: "dirty_wf (dg_dirty (wr_graph ?W1))" "db_num_vertices (dg_dirty (wr_graph ?W1)) = db_num_vertices (dg_dirty (wr_graph W))"
    using W1(2) assms(2) by (simp_all add: bk_def)
  have b1: "bk (?W0\<lparr>wr_pending_edges := wr_pending_edges W + length ?ds\<rparr>) ?W1" using bk_pending [OF W1(2)] p1 by simp
  obtain W2 where W2: "note_all_dirty ?W1 ?ds = Some W2" "bk ?W1 W2"
    "marks W2 = marks ?W1 \<union> {x \<in> unat ` set ?ds. x < db_num_vertices (dg_dirty (wr_graph ?W1))}"
    "ws_touched (wr_scratch W2) = ws_touched (wr_scratch ?W1)" using note_all_dirty_ok [OF w1(1)] by blast
  have w2: "dirty_wf (dg_dirty (wr_graph W2))" "db_num_vertices (dg_dirty (wr_graph W2)) = db_num_vertices (dg_dirty (wr_graph W))"
    using W2(2) w1 by (simp_all add: bk_def)
  obtain W3 where W3: "note_dirty W2 src = Some W3" "bk W2 W3"
    "marks W3 = marks W2 \<union> {x. x = unat src \<and> x < db_num_vertices (dg_dirty (wr_graph W2))}"
    "ws_touched (wr_scratch W3) = ws_touched (wr_scratch W2)" using note_dirty_ok [OF w2(1)] by blast
  have m: "marks W3 = marks W \<union> {v \<in> unat ` set (src # ?ds). v < db_num_vertices (dg_dirty (wr_graph W))}"
    unfolding W3(3) W2(3) w1(2) w2(2) marks_pending W1(3) by auto
  have "published W src (ct_root t) (length ?ds) ?ds W3"
    unfolding published_def using bk_trans [OF bk_trans [OF b1 W2(2)] W3(2)] m W1(4) W2(4) W3(4) by simp
  then show ?thesis using W1(1) W2(1) W3(1) nd by (intro exI [of _ W3]) (simp add: publish_batch_def Let_def)
qed

end
