(* ===== verification/Writer_Correct.thy ===== *)
theory Writer_Correct
  imports Writer_Facts Wal_Properties
begin

section \<open>The insert paths of the writer\<close>

text \<open>
  One edge, a chained batch and a rebuilt batch: what each outcome leaves in the graph. An insert
  reads and writes one vertex's tree; every other tree, the committed counters, the clock and the
  latest snapshot are untouched until the guard commits.
\<close>

subsection \<open>What no insert changes\<close>

definition core :: "writer \<Rightarrow> nat \<times> nat \<times> bool \<times> bool \<times> nat \<times> snapshot \<times> nat \<times> arena_writer \<times> nat" where
  "core W = (let G = wr_graph W in (dg_num_vertices G, dg_num_edges G, dg_locked G, dg_poisoned G, dg_epoch G, dg_latest G,
     dg_registry G, wr_arena W, wr_retire_stamp W))"

text \<open>What an insert that does not publish leaves as it was.\<close>

definition still :: "writer \<Rightarrow> writer \<Rightarrow> bool" where
  "still W W' \<longleftrightarrow> core W' = core W \<and> dg_roots (wr_graph W') = dg_roots (wr_graph W) \<and>
     dg_dirty (wr_graph W') = dg_dirty (wr_graph W) \<and> wr_pending_edges W' = wr_pending_edges W \<and>
     ws_dirty (wr_scratch W') = ws_dirty (wr_scratch W) \<and> ws_touched (wr_scratch W') = ws_touched (wr_scratch W)"

lemma still_refl [simp]: "still W W"
  by (simp add: still_def)

lemma still_trans: "still W W' \<Longrightarrow> still W' W'' \<Longrightarrow> still W W''"
  by (simp add: still_def)

lemma still_marks: "still W W' \<Longrightarrow> marks W' = marks W"
  by (simp add: still_def marks_def)

lemma still_nv: "still W W' \<Longrightarrow> dg_num_vertices (wr_graph W') = dg_num_vertices (wr_graph W)"
  by (simp add: still_def core_def Let_def)

lemma still_set [simp]: "still W (set_arena W A)" "still W (set_log W l)" "still W (set_new_dsts W ds)"
  by (simp_all add: still_def core_def Let_def set_arena_def set_log_def set_new_dsts_def)

lemma set_simps [simp]:
  "wr_store (set_arena W A) = A" "wr_log (set_arena W A) = wr_log W" "wr_store (set_log W l) = wr_store W" "wr_log (set_log W l) = l"
  "wr_store (set_new_dsts W ds) = wr_store W" "wr_log (set_new_dsts W ds) = wr_log W"
  "ws_new_dsts (wr_scratch (set_new_dsts W ds)) = ds" "ws_new_dsts (wr_scratch (set_arena W A)) = ws_new_dsts (wr_scratch W)"
  "ws_new_dsts (wr_scratch (set_log W l)) = ws_new_dsts (wr_scratch W)"
  "dg_wal (wr_graph (set_arena W A)) = dg_wal (wr_graph W)" "dg_wal (wr_graph (set_log W l)) = dg_wal (wr_graph W)"
  "dg_wal (wr_graph (set_new_dsts W ds)) = dg_wal (wr_graph W)"
  "wr_wal_failed (set_arena W A) = wr_wal_failed W" "wr_wal_failed (set_log W l) = wr_wal_failed W"
  "wr_wal_failed (set_new_dsts W ds) = wr_wal_failed W"
  by (simp_all add: set_arena_def set_log_def set_new_dsts_def)

text \<open>A step that keeps \<open>core\<close> keeps the writer's half of the arena and its stamp.\<close>

lemma core_fields:
  assumes "core W' = core W"
  shows "dg_num_vertices (wr_graph W') = dg_num_vertices (wr_graph W)" and "dg_num_edges (wr_graph W') = dg_num_edges (wr_graph W)"
    and "dg_locked (wr_graph W') = dg_locked (wr_graph W)" and "dg_poisoned (wr_graph W') = dg_poisoned (wr_graph W)"
    and "dg_epoch (wr_graph W') = dg_epoch (wr_graph W)" and "dg_latest (wr_graph W') = dg_latest (wr_graph W)"
    and "dg_registry (wr_graph W') = dg_registry (wr_graph W)" and "wr_arena W' = wr_arena W"
    and "wr_retire_stamp W' = wr_retire_stamp W"
  using assms by (simp_all add: core_def Let_def)

lemma still_core: "still W W' \<Longrightarrow> core W' = core W"
  by (simp add: still_def)

lemma writer_wf_held: "writer_wf H W T Lc Li \<Longrightarrow> core W' = core W \<Longrightarrow> held_old H (wr_arena W') (wr_retire_stamp W')"
  using core_fields(8,9) [of W' W] by (simp add: writer_wf_def Let_def)

lemma writer_wf_still:
  assumes "writer_wf H W T Lc Li" and "still W W'" and "forest_at H (wr_store W') Lc' Li' (dg_num_vertices (wr_graph W)) T (wr_log W')"
  shows "writer_wf H W' T Lc' Li'"
  using assms still_nv [OF assms(2)] writer_wf_held [OF assms(1) still_core [OF assms(2)]]
  by (simp add: writer_wf_def still_def Let_def)

lemma writer_wf_forest: "writer_wf H W T Lc Li \<Longrightarrow> forest_at H (wr_store W) Lc Li (dg_num_vertices (wr_graph W)) T (wr_log W)"
  by (simp add: writer_wf_def Let_def)

lemma writer_wf_root:
  "writer_wf H W T Lc Li \<Longrightarrow> v < dg_num_vertices (wr_graph W) \<Longrightarrow>
    nth_opt (dg_roots (wr_graph W)) v = Some (root_word (T v))"
  by (simp add: writer_wf_def Let_def nth_opt_Some)

subsection \<open>The log's append\<close>

lemma guard_append_cases:
  assumes "guard_append crc W src dsts = (W', r)"
  shows "still W W'" and "wr_store W' = wr_store W" and "wr_log W' = wr_log W"
    and "ws_new_dsts (wr_scratch W') = ws_new_dsts (wr_scratch W)"
    and "(r = Inr () \<and> wr_wal_failed W' = wr_wal_failed W) \<or> (r = Inl WalAppend \<and> wr_wal_failed W')"
  using assms
  by (auto simp: guard_append_def still_def core_def Let_def split: option.splits prod.splits sum.splits)

text \<open>The log after an append: extended by the records, or as it was.\<close>

definition records :: "u32 \<Rightarrow> u32 list \<Rightarrow> edge_record list" where
  "records src dsts = map (\<lambda>d. \<lparr>er_src = src, er_dst = d\<rparr>) dsts"

definition logged :: "(bytes \<Rightarrow> u32) \<Rightarrow> writer \<Rightarrow> edge_record list \<Rightarrow> bool" where
  "logged crc W rs \<longleftrightarrow> (case dg_wal (wr_graph W) of None \<Rightarrow> True | Some w \<Rightarrow> log_state crc w rs)"

lemma guard_append_logged:
  assumes "guard_append crc W src dsts = (W', r)" and "logged crc W rs"
  shows "logged crc W' (if r = Inr () then rs @ records src dsts else rs)"
proof (cases "dg_wal (wr_graph W)")
  case None
  then show ?thesis using assms by (auto simp: guard_append_def logged_def)
next
  case (Some w)
  obtain w' r' where a: "append_edges crc w src dsts = (w', r')" by fastforce
  have "log_state crc w rs" using assms(2) Some by (simp add: logged_def)
  from append_edges_ok(1) [OF a this] show ?thesis
    using assms(1) Some a by (auto simp: guard_append_def logged_def records_def)
qed

subsection \<open>Retiring\<close>

lemma writer_retire_ok:
  assumes "writer_wf H W T Lc Li" and s: "wr_retire_stamp W \<le> stamp"
  shows "\<exists>Lc' Li'. writer_wf H (writer_retire W stamp) T Lc' Li'" and "still W (writer_retire W stamp)"
    and "wr_log (writer_retire W stamp) = retire_log_new"
    and "dg_wal (wr_graph (writer_retire W stamp)) = dg_wal (wr_graph W)"
    and "wr_wal_failed (writer_retire W stamp) = wr_wal_failed W"
    and "ws_new_dsts (wr_scratch (writer_retire W stamp)) = ws_new_dsts (wr_scratch W)"
proof -
  obtain log A where r: "arena_retire (wr_arena W) (wr_store W) (wr_log W) stamp = (log, A)" by fastforce
  note fr = forest_retire [OF writer_wf_forest [OF assms(1)] r held_old_retire [OF writer_wf_held [OF assms(1) refl] s]]
  have e: "writer_retire W stamp = set_log (set_arena W A) log" using r by (simp add: writer_retire_def)
  show st: "still W (writer_retire W stamp)" unfolding e using still_trans still_set by blast
  show "wr_log (writer_retire W stamp) = retire_log_new" unfolding e using fr(1) by simp
  have "forest_at H (wr_store (writer_retire W stamp)) (Lc - set (rl_chunks (wr_log W))) (Li - set (rl_interiors (wr_log W)))
      (dg_num_vertices (wr_graph W)) T (wr_log (writer_retire W stamp))"
    unfolding e using fr(1,2) by simp
  then show "\<exists>Lc' Li'. writer_wf H (writer_retire W stamp) T Lc' Li'" using writer_wf_still [OF assms(1) st] by blast
qed (simp_all add: writer_retire_def split: prod.split)

lemma maybe_stamp_ok:
  assumes "writer_wf H W T Lc Li"
  shows "\<exists>Lc' Li'. writer_wf H (maybe_stamp_retired W) T Lc' Li'" and "still W (maybe_stamp_retired W)"
    and "dg_wal (wr_graph (maybe_stamp_retired W)) = dg_wal (wr_graph W)"
    and "wr_wal_failed (maybe_stamp_retired W) = wr_wal_failed W"
  using writer_retire_ok [OF assms order_refl] assms by (auto simp: maybe_stamp_retired_def)

subsection \<open>Publishing\<close>

lemma published_fields:
  assumes "published W src x n ds W'"
  shows "core W' = core W" and "dg_roots (wr_graph W') = (dg_roots (wr_graph W))[unat src := x]"
    and "wr_store W' = wr_store W" and "wr_log W' = wr_log W" and "wr_pending_edges W' = wr_pending_edges W + n"
    and "dg_wal (wr_graph W') = dg_wal (wr_graph W)" and "wr_wal_failed W' = wr_wal_failed W"
    and "dirty_wf (dg_dirty (wr_graph W)) \<Longrightarrow> dirty_wf (dg_dirty (wr_graph W')) \<and>
      db_num_vertices (dg_dirty (wr_graph W')) = db_num_vertices (dg_dirty (wr_graph W))"
proof -
  have b: "bk (W\<lparr>wr_graph := (wr_graph W)\<lparr>dg_roots := (dg_roots (wr_graph W))[unat src := x]\<rparr>,
           wr_pending_edges := wr_pending_edges W + n\<rparr>) W'" using assms by (simp add: published_def)
  note f = bk_fields [OF b]
  show "core W' = core W" using f by (simp add: core_def Let_def)
  show "dg_roots (wr_graph W') = (dg_roots (wr_graph W))[unat src := x]" "wr_store W' = wr_store W" "wr_log W' = wr_log W"
    "wr_pending_edges W' = wr_pending_edges W + n" "dg_wal (wr_graph W') = dg_wal (wr_graph W)" "wr_wal_failed W' = wr_wal_failed W"
    using f by simp_all
  show "dirty_wf (dg_dirty (wr_graph W)) \<Longrightarrow> dirty_wf (dg_dirty (wr_graph W')) \<and>
      db_num_vertices (dg_dirty (wr_graph W')) = db_num_vertices (dg_dirty (wr_graph W))"
    using b by (simp add: bk_def)
qed

text \<open>\<open>W\<close> is the guard after the append, its arena holding the new tree already.\<close>

lemma published_wf:
  assumes wf: "writer_wf H W0 T Lc Li" and st: "still W0 W" and p: "published W src (root_word t') n ds W'"
    and src: "unat src < dg_num_vertices (wr_graph W0)"
    and f: "forest_at H (wr_store W') Lc' Li' (dg_num_vertices (wr_graph W0)) (T(unat src := t')) (wr_log W')"
  shows "writer_wf H W' (T(unat src := t')) Lc' Li'"
proof -
  note pf = published_fields [OF p]
  have nv: "dg_num_vertices (wr_graph W') = dg_num_vertices (wr_graph W0)"
    using pf(1) still_nv [OF st] by (simp add: core_def Let_def)
  have W0: "dg_num_vertices (wr_graph W0) < 2 ^ 32 - 1" "length (dg_roots (wr_graph W0)) = dg_num_vertices (wr_graph W0)"
    "\<forall>v<dg_num_vertices (wr_graph W0). dg_roots (wr_graph W0) ! v = root_word (T v)" "dirty_wf (dg_dirty (wr_graph W0))"
    "db_num_vertices (dg_dirty (wr_graph W0)) = dg_num_vertices (wr_graph W0)"
    using wf by (simp_all add: writer_wf_def Let_def)
  have r: "dg_roots (wr_graph W') = (dg_roots (wr_graph W0))[unat src := root_word t']" using pf(2) st by (simp add: still_def)
  have d: "dirty_wf (dg_dirty (wr_graph W'))" "db_num_vertices (dg_dirty (wr_graph W')) = dg_num_vertices (wr_graph W0)"
    using pf(8) st W0(4,5) by (simp_all add: still_def)
  have "\<forall>v<dg_num_vertices (wr_graph W0). dg_roots (wr_graph W') ! v = root_word ((T(unat src := t')) v)"
    unfolding r using W0(2,3) by (auto simp: nth_list_update)
  moreover have "core W' = core W0" using pf(1) st by (simp add: still_def)
  ultimately show ?thesis unfolding writer_wf_def Let_def nv using W0(1,2) r f d writer_wf_held [OF wf] by simp
qed

subsection \<open>One edge\<close>

definition edge_done :: "writer \<Rightarrow> (nat \<Rightarrow> shape option) \<Rightarrow> u32 \<Rightarrow> u32 \<Rightarrow> insert_error + bool \<Rightarrow> writer \<Rightarrow> (nat \<Rightarrow> shape option) \<Rightarrow> bool" where
  "edge_done W T src dst r W' T' \<longleftrightarrow>
     (if r = Inr True
      then dst \<notin> set (nbrs (T (unat src))) \<and> core W' = core W \<and>
        (\<exists>t'. T' = T(unat src := Some t') \<and> set (elems t') = insert dst (set (nbrs (T (unat src)))) \<and>
              tsize t' = Suc (length (nbrs (T (unat src)))) \<and> height t' \<le> Suc (hgt (T (unat src)))) \<and>
        wr_pending_edges W' = wr_pending_edges W + 1 \<and> marks W' = marks W \<union> {unat src, unat dst} \<and>
        set (ws_touched (wr_scratch W')) = insert (leaf_of src) (set (ws_touched (wr_scratch W))) \<and>
        wr_wal_failed W' = wr_wal_failed W
      else still W W' \<and> T' = T \<and>
        (r = Inr False \<longrightarrow> dst \<in> set (nbrs (T (unat src))) \<and> wr_wal_failed W' = wr_wal_failed W) \<and>
        (r = Inl InsArenaFull \<longrightarrow> dst \<notin> set (nbrs (T (unat src))) \<and> wr_wal_failed W' = wr_wal_failed W) \<and>
        (r = Inl WalAppend \<longrightarrow> wr_wal_failed W'))"

lemma edge_done_still:
  assumes "still W W0" and "wr_wal_failed W0 = wr_wal_failed W" and "edge_done W0 T src dst r W' T'"
  shows "edge_done W T src dst r W' T'"
  using assms still_trans [OF assms(1)] still_marks [OF assms(1)]
  by (auto simp: edge_done_def still_def split: if_splits)

lemma insert_edge_inner_ok:
  assumes wf: "writer_wf H W T Lc Li" and src: "unat src < dg_num_vertices (wr_graph W)" and dst: "unat dst < dg_num_vertices (wr_graph W)"
    and low: "low (T (unat src))"
  shows "\<exists>r W' T' Lc' Li'. insert_edge_inner crc W src dst = Some (r, W') \<and> writer_wf H W' T' Lc' Li' \<and> edge_done W T src dst r W' T' \<and>
    (r = Inr True \<or> r = Inr False \<or> r = Inl InsArenaFull \<or> r = Inl WalAppend) \<and>
    (\<forall>rs. logged crc W rs \<longrightarrow> logged crc W' (if r = Inr True then rs @ records src [dst] else rs))"
proof -
  let ?nv = "dg_num_vertices (wr_graph W)" and ?s = "unat src"
  note f = writer_wf_forest [OF wf]
  have nv: "?nv < 2 ^ 32 - 1" and D: "dirty_wf (dg_dirty (wr_graph W))" "db_num_vertices (dg_dirty (wr_graph W)) = ?nv"
    "length (dg_roots (wr_graph W)) = ?nv"
    using wf by (simp_all add: writer_wf_def Let_def)
  have root: "nth_opt (dg_roots (wr_graph W)) ?s = Some (root_word (T ?s))" by (rule writer_wf_root [OF wf src])
  have tr: "\<lparr>ct_root = root_word (T ?s)\<rparr> = tree_root (T ?s)" by (simp add: tree_root_def)
  from forest_insert [OF f nv src dst low] show ?thesis
  proof cases
    case 1
    have "insert_edge_inner crc W src dst = Some (Inr False, set_log (set_arena W (wr_store W)) (wr_log W))"
      by (simp add: insert_edge_inner_def root tr 1(1))
    moreover have "set_log (set_arena W (wr_store W)) (wr_log W) = W" by (simp add: set_log_def set_arena_def)
    moreover have "edge_done W T src dst (Inr False) W T" using 1(2) by (simp add: edge_done_def)
    ultimately show ?thesis using wf by fastforce
  next
    case (2 A' Lc' Li')
    let ?W = "set_log (set_arena W A') (wr_log W)"
    have run: "insert_edge_inner crc W src dst = Some (Inl InsArenaFull, ?W)"
      by (simp add: insert_edge_inner_def root tr 2(1))
    have st: "still W ?W" using still_trans still_set by blast
    have wf': "writer_wf H ?W T Lc' Li'" by (rule writer_wf_still [OF wf st]) (use forest_ext [OF f 2(4)] in simp)
    have "edge_done W T src dst (Inl InsArenaFull) ?W T" using 2(2) st by (simp add: edge_done_def)
    moreover have "\<forall>rs. logged crc W rs \<longrightarrow> logged crc ?W rs" by (simp add: logged_def)
    ultimately show ?thesis using run wf' by fastforce
  next
    case (3 x A' log')
    from 3(3) obtain t' Lc' Li' dc di where t': "x = tree_root (Some t')" "forest_at H A' Lc' Li' ?nv (T(?s := Some t')) log'"
      "arena_ext Lc Li (wr_store W) Lc' Li' A'" "set (elems t') = insert dst (set (nbrs (T ?s)))" "tsize t' = Suc (length (nbrs (T ?s)))"
      "log' = (wr_log W)\<lparr>rl_chunks := rl_chunks (wr_log W) @ dc, rl_interiors := rl_interiors (wr_log W) @ di\<rparr>"
      "height t' \<le> Suc (hgt (T ?s))" unfolding forest_inserted_def by blast
    let ?W1 = "set_log (set_arena W A') log'"
    obtain W2 r2 where ga: "guard_append crc ?W1 src [dst] = (W2, r2)" by fastforce
    note g = guard_append_cases [OF ga]
    have st1: "still W ?W1" using still_trans still_set by blast
    have st2: "still W W2" using still_trans [OF st1 g(1)] .
    have lg2: "logged crc W2 (if r2 = Inr () then rs @ records src [dst] else rs)" if "logged crc W rs" for rs
      using guard_append_logged [OF ga, of rs] that by (simp add: logged_def)
    from g(5) show ?thesis
    proof (elim disjE conjE)
      assume r2: "r2 = Inl WalAppend" and fl: "wr_wal_failed W2"
      let ?W3 = "set_log W2 (log_truncate (wr_log W2) (length (rl_chunks (wr_log W))) (length (rl_interiors (wr_log W))))"
      have run: "insert_edge_inner crc W src dst = Some (Inl WalAppend, ?W3)"
        using ga r2 by (simp add: insert_edge_inner_def root tr 3(1))
      have "log_grew (wr_log W) log'" unfolding log_grew_def using t'(6) by blast
      then have lt: "log_truncate (wr_log W2) (length (rl_chunks (wr_log W))) (length (rl_interiors (wr_log W))) = wr_log W"
        using g(3) log_grew_truncate by simp
      have st3: "still W ?W3" using still_trans [OF st2 still_set(2)] .
      have wf3: "writer_wf H ?W3 T Lc' Li'"
        by (rule writer_wf_still [OF wf st3]) (use forest_ext [OF f t'(3)] g(2) lt in simp)
      have "edge_done W T src dst (Inl WalAppend) ?W3 T" using st3 fl by (simp add: edge_done_def)
      moreover have "\<forall>rs. logged crc W rs \<longrightarrow> logged crc ?W3 rs" using lg2 r2 by (auto simp: logged_def)
      ultimately show ?thesis using run wf3 by fastforce
    next
      assume r2: "r2 = Inr ()" and fl: "wr_wal_failed W2 = wr_wal_failed ?W1"
      have pre: "unat src < length (dg_roots (wr_graph W2))" "dirty_wf (dg_dirty (wr_graph W2))"
        using st2 D src by (simp_all add: still_def)
      obtain W3 where pe: "do { W \<leftarrow> store_root W2 src x; let W = W\<lparr>wr_pending_edges := wr_pending_edges W + 1\<rparr>;
          W \<leftarrow> note_dirty W src; W \<leftarrow> note_dirty W dst; Some (Inr True, maybe_stamp_retired W) } =
          Some (Inr True :: insert_error + bool, maybe_stamp_retired W3)" and pu: "published W2 src (ct_root x) 1 [dst] W3"
        using publish_edge_ok [OF pre, of x dst "\<lambda>W. Some (Inr True, maybe_stamp_retired W)"] by blast
      have run: "insert_edge_inner crc W src dst = Some (Inr True, maybe_stamp_retired W3)"
        unfolding insert_edge_inner_def root Let_def
        using ga r2 3(1) pe [unfolded Let_def] by (simp add: tr)
      have pu': "published W2 src (root_word (Some t')) 1 [dst] W3" using pu t'(1) by (simp add: tree_root_def)
      note pf = published_fields [OF pu']
      have fr: "forest_at H (wr_store W3) Lc' Li' ?nv (T(?s := Some t')) (wr_log W3)" using pf(3,4) g(2,3) t'(2) by simp
      have wf3: "writer_wf H W3 (T(?s := Some t')) Lc' Li'" by (rule published_wf [OF wf st2 pu' src fr])
      note ms = maybe_stamp_ok [OF wf3]
      have db: "db_num_vertices (dg_dirty (wr_graph W2)) = ?nv" using st2 D by (simp add: still_def)
      have "marks W3 = marks W \<union> {?s, unat dst}"
      proof -
        have "marks W3 = marks W2 \<union> {v \<in> unat ` set [src, dst]. v < ?nv}" using pu' db by (simp add: published_def)
        also have "{v \<in> unat ` set [src, dst]. v < ?nv} = {?s, unat dst}" using src dst by auto
        finally show ?thesis using still_marks [OF st2] by simp
      qed
      moreover have "set (ws_touched (wr_scratch W3)) = insert (leaf_of src) (set (ws_touched (wr_scratch W)))"
        using pu' st2 by (simp add: published_def still_def)
      moreover have "core W3 = core W" "wr_pending_edges W3 = wr_pending_edges W + 1" using pf st2 by (simp_all add: still_def)
      moreover have "wr_wal_failed (maybe_stamp_retired W3) = wr_wal_failed W" using ms(4) pf(7) fl by simp
      ultimately have "edge_done W T src dst (Inr True) (maybe_stamp_retired W3) (T(?s := Some t'))"
        using 3(2) t'(4,5,7) ms(2) still_marks [OF ms(2)] by (auto simp: edge_done_def still_def)
      moreover have "\<forall>rs. logged crc W rs \<longrightarrow> logged crc (maybe_stamp_retired W3) (rs @ records src [dst])"
        using lg2 r2 ms(3) pf(6) by (simp add: logged_def)
      ultimately show ?thesis using run ms(1) by fastforce
    qed
  qed
qed

lemma insert_edge_ok:
  assumes wf: "writer_wf H W T Lc Li" and low: "unat src < dg_num_vertices (wr_graph W) \<Longrightarrow> low (T (unat src))"
  shows "\<exists>r W' T' Lc' Li'. insert_edge crc W src dst = Some (r, W') \<and> writer_wf H W' T' Lc' Li' \<and> edge_done W T src dst r W' T' \<and>
    (r = Inl (VertexOutOfRange src dst) \<longleftrightarrow>
      dg_num_vertices (wr_graph W) \<le> unat src \<or> dg_num_vertices (wr_graph W) \<le> unat dst) \<and>
    (\<forall>s d. r = Inl (VertexOutOfRange s d) \<longrightarrow> s = src \<and> d = dst) \<and> (wr_wal_failed W \<longrightarrow> r \<noteq> Inr True) \<and>
    (\<forall>rs. logged crc W rs \<longrightarrow> logged crc W' (if r = Inr True then rs @ records src [dst] else rs))"
proof -
  let ?nv = "dg_num_vertices (wr_graph W)"
  consider (oor) "?nv \<le> unat src \<or> ?nv \<le> unat dst" | (wal) "unat src < ?nv" "unat dst < ?nv" "wr_wal_failed W"
    | (go) "unat src < ?nv" "unat dst < ?nv" "\<not> wr_wal_failed W" by linarith
  then show ?thesis
  proof cases
    case oor
    then have run: "insert_edge crc W src dst = Some (Inl (VertexOutOfRange src dst), W)" by (simp add: insert_edge_def Let_def)
    have "edge_done W T src dst (Inl (VertexOutOfRange src dst)) W T" by (simp add: edge_done_def)
    then show ?thesis using run wf oor
      by (intro exI [of _ "Inl (VertexOutOfRange src dst)"] exI [of _ W] exI [of _ T] exI [of _ Lc] exI [of _ Li]) simp
  next
    case wal
    then have run: "insert_edge crc W src dst = Some (Inl WalAppend, W)" by (simp add: insert_edge_def check_wal_def Let_def)
    have "edge_done W T src dst (Inl WalAppend) W T" using wal by (simp add: edge_done_def)
    then show ?thesis using run wf wal
      by (intro exI [of _ "Inl WalAppend"] exI [of _ W] exI [of _ T] exI [of _ Lc] exI [of _ Li]) simp
  next
    case go
    have run: "insert_edge crc W src dst = do {
            (r, W) \<leftarrow> insert_edge_inner crc W src dst;
            if r = Inl InsArenaFull then insert_edge_inner crc (writer_retire W (wr_retire_stamp W)) src dst else Some (r, W) }"
      using go by (simp add: insert_edge_def check_wal_def Let_def)
    obtain r W1 T1 Lc1 Li1 where i1: "insert_edge_inner crc W src dst = Some (r, W1)" "writer_wf H W1 T1 Lc1 Li1"
      "edge_done W T src dst r W1 T1" "r = Inr True \<or> r = Inr False \<or> r = Inl InsArenaFull \<or> r = Inl WalAppend"
      "\<forall>rs. logged crc W rs \<longrightarrow> logged crc W1 (if r = Inr True then rs @ records src [dst] else rs)"
      using insert_edge_inner_ok [OF wf go(1,2) low [OF go(1)], of crc] by blast
    show ?thesis
    proof (cases "r = Inl InsArenaFull")
      case False
      then have e: "insert_edge crc W src dst = Some (r, W1)" unfolding run i1(1) by simp
      have nr: "\<forall>s d. r \<noteq> Inl (VertexOutOfRange s d)" using i1(4) by auto
      show ?thesis using e i1(2,3,5) nr go
        by (intro exI [of _ r] exI [of _ W1] exI [of _ T1] exI [of _ Lc1] exI [of _ Li1]) simp
    next
      case True
      then have T1: "T1 = T" "still W W1" "wr_wal_failed W1 = wr_wal_failed W" using i1(3) by (simp_all add: edge_done_def)
      let ?W2 = "writer_retire W1 (wr_retire_stamp W1)"
      note wr = writer_retire_ok [OF i1(2) order_refl]
      from wr(1) obtain Lc2 Li2 where wf2: "writer_wf H ?W2 T Lc2 Li2" using T1(1) by blast
      have st2: "still W ?W2" using still_trans [OF T1(2) wr(2)] .
      have nv2: "dg_num_vertices (wr_graph ?W2) = ?nv" by (rule still_nv [OF st2])
      obtain r' W3 T3 Lc3 Li3 where i2: "insert_edge_inner crc ?W2 src dst = Some (r', W3)" "writer_wf H W3 T3 Lc3 Li3"
        "edge_done ?W2 T src dst r' W3 T3" "r' = Inr True \<or> r' = Inr False \<or> r' = Inl InsArenaFull \<or> r' = Inl WalAppend"
        "\<forall>rs. logged crc ?W2 rs \<longrightarrow> logged crc W3 (if r' = Inr True then rs @ records src [dst] else rs)"
        using insert_edge_inner_ok [OF wf2 go(1,2) [folded nv2] low [OF go(1)], of crc] by blast
      have e: "insert_edge crc W src dst = Some (r', W3)" unfolding run i1(1) using True i2(1) by simp
      have ed: "edge_done W T src dst r' W3 T3" using edge_done_still [OF st2 _ i2(3)] wr(5) T1(3) by simp
      have lg: "logged crc W rs \<Longrightarrow> logged crc ?W2 rs" for rs
        using i1(5) True wr(4) by (auto simp: logged_def)
      have nr: "\<forall>s d. r' \<noteq> Inl (VertexOutOfRange s d)" using i2(4) by auto
      show ?thesis using e i2(2) ed i2(5) lg nr go
        by (intro exI [of _ r'] exI [of _ W3] exI [of _ T3] exI [of _ Lc3] exI [of _ Li3]) simp
    qed
  qed
qed

subsection \<open>One batch for one source\<close>

definition fresh_dsts :: "shape option \<Rightarrow> u32 list \<Rightarrow> u32 list" where
  "fresh_dsts t ds = filter (\<lambda>d. d \<notin> set (nbrs t)) ds"

definition batch_done :: "writer \<Rightarrow> (nat \<Rightarrow> shape option) \<Rightarrow> u32 \<Rightarrow> u32 list \<Rightarrow> insert_error + nat \<Rightarrow> writer \<Rightarrow> (nat \<Rightarrow> shape option) \<Rightarrow> bool" where
  "batch_done W T src ds r W' T' \<longleftrightarrow>
     (let s = unat src; new = fresh_dsts (T s) ds in
      case r of
        Inl e \<Rightarrow> still W W' \<and> T' = T \<and> (e = WalAppend \<longrightarrow> wr_wal_failed W') \<and>
          (e \<noteq> WalAppend \<longrightarrow> wr_wal_failed W' = wr_wal_failed W) \<and> (e = InsArenaFull \<longrightarrow> new \<noteq> [])
      | Inr n \<Rightarrow> n = length new \<and> wr_wal_failed W' = wr_wal_failed W \<and>
          (if new = [] then still W W' \<and> T' = T
           else core W' = core W \<and> (\<exists>t'. T' = T(s := t') \<and> set (nbrs t') = set (nbrs (T s)) \<union> set ds \<and>
                  length (nbrs t') = length (nbrs (T s)) + n \<and> hgt t' \<le> max (depth_limit (length (nbrs t'))) (hgt (T s) + length ds)) \<and>
             wr_pending_edges W' = wr_pending_edges W + n \<and> marks W' = marks W \<union> unat ` set (src # new) \<and>
             set (ws_touched (wr_scratch W')) = insert (leaf_of src) (set (ws_touched (wr_scratch W)))))"

text \<open>What the log keeps of an append that a batch makes.\<close>

definition batch_logged :: "(bytes \<Rightarrow> u32) \<Rightarrow> writer \<Rightarrow> shape option \<Rightarrow> u32 \<Rightarrow> u32 list \<Rightarrow> insert_error + nat \<Rightarrow> writer \<Rightarrow> bool" where
  "batch_logged crc W t src ds r W' \<longleftrightarrow> (\<forall>rs. logged crc W rs \<longrightarrow>
     logged crc W' (case r of Inr n \<Rightarrow> rs @ records src (fresh_dsts t ds) | Inl _ \<Rightarrow> rs))"

lemma records_Nil [simp]: "records src [] = []"
  by (simp add: records_def)

text \<open>The common end of both paths: \<open>W\<close> holds the new tree and the log of what it supersedes.\<close>

lemma publish_ok:
  assumes wf: "writer_wf H W0 T Lc0 Li0" and st: "still W0 W1" and src: "unat src < dg_num_vertices (wr_graph W0)"
    and nd: "ws_new_dsts (wr_scratch W1) = new" and fl: "wr_wal_failed W1 = wr_wal_failed W0"
    and bd: "\<forall>d\<in>set new. unat d < dg_num_vertices (wr_graph W0)"
  obtains (wal) W2 where "append_batch crc W1 src = (W2, Inl WalAppend)" "still W0 W2" "wr_store W2 = wr_store W1"
      "wr_log W2 = wr_log W1" "wr_wal_failed W2" "\<forall>rs. logged crc W1 rs \<longrightarrow> logged crc W2 rs"
  | (ok) W2 W3 where "append_batch crc W1 src = (W2, Inr ())" "publish_batch W2 src (tree_root t') = Some (length new, W3)"
      "wr_store W3 = wr_store W1" "wr_log W3 = wr_log W1" "wr_wal_failed W3 = wr_wal_failed W0" "core W3 = core W0"
      "\<forall>rs. logged crc W1 rs \<longrightarrow> logged crc W3 (rs @ records src new)" "wr_pending_edges W3 = wr_pending_edges W0 + length new"
      "marks W3 = marks W0 \<union> unat ` set (src # new)"
      "set (ws_touched (wr_scratch W3)) = insert (leaf_of src) (set (ws_touched (wr_scratch W0)))"
      "\<And>W Lc Li. still W3 W \<Longrightarrow> forest_at H (wr_store W) Lc Li (dg_num_vertices (wr_graph W0)) (T(unat src := t')) (wr_log W) \<Longrightarrow>
        writer_wf H W (T(unat src := t')) Lc Li"
proof -
  let ?nv = "dg_num_vertices (wr_graph W0)"
  have D: "dirty_wf (dg_dirty (wr_graph W0))" "db_num_vertices (dg_dirty (wr_graph W0)) = ?nv" "length (dg_roots (wr_graph W0)) = ?nv"
    using wf by (simp_all add: writer_wf_def Let_def)
  obtain W2 r2 where ga: "append_batch crc W1 src = (W2, r2)" by fastforce
  note ga' = ga [unfolded append_batch_def nd]
  note g = guard_append_cases [OF ga']
  note lg = guard_append_logged [OF ga']
  have st2: "still W0 W2" using still_trans [OF st g(1)] .
  from g(5) show thesis
  proof (elim disjE conjE)
    assume r2: "r2 = Inl WalAppend" and f: "wr_wal_failed W2"
    show thesis by (rule wal [of W2]) (use ga g st2 r2 f lg in simp_all)
  next
    assume r2: "r2 = Inr ()" and f: "wr_wal_failed W2 = wr_wal_failed W1"
    have pre: "unat src < length (dg_roots (wr_graph W2))" "dirty_wf (dg_dirty (wr_graph W2))"
      using st2 D src by (simp_all add: still_def)
    have nd2: "ws_new_dsts (wr_scratch W2) = new" using g(4) nd by simp
    obtain W3 where pb: "publish_batch W2 src (tree_root t') = Some (length new, W3)"
      and pu: "published W2 src (root_word t') (length new) new W3"
      using publish_batch_ok [OF pre, of "tree_root t'"] unfolding nd2 by (auto simp: tree_root_def)
    note pf = published_fields [OF pu]
    have db: "db_num_vertices (dg_dirty (wr_graph W2)) = ?nv" using st2 D by (simp add: still_def)
    have "{v \<in> unat ` set (src # new). v < ?nv} = unat ` set (src # new)" using src bd by auto
    then have mk: "marks W3 = marks W0 \<union> unat ` set (src # new)"
      using pu db still_marks [OF st2] by (simp only: published_def)
    have wfr: "writer_wf H W (T(unat src := t')) Lc Li" if w: "still W3 W"
      "forest_at H (wr_store W) Lc Li ?nv (T(unat src := t')) (wr_log W)" for W Lc Li
    proof -
      have nv3: "dg_num_vertices (wr_graph W) = ?nv" using still_nv [OF w(1)] pf(1) still_nv [OF st2] by (simp add: core_def Let_def)
      have r: "dg_roots (wr_graph W) = (dg_roots (wr_graph W0))[unat src := root_word t']"
        using pf(2) st2 w(1) by (simp add: still_def)
      have d: "dirty_wf (dg_dirty (wr_graph W))" "db_num_vertices (dg_dirty (wr_graph W)) = ?nv"
        using pf(8) [OF pre(2)] db w(1) by (simp_all add: still_def)
      have "\<forall>v<?nv. dg_roots (wr_graph W) ! v = root_word ((T(unat src := t')) v)"
        unfolding r using wf by (auto simp: writer_wf_def Let_def nth_list_update)
      moreover have "core W = core W0" using pf(1) st2 w(1) by (simp add: still_def)
      ultimately show ?thesis
        unfolding writer_wf_def Let_def nv3 using wf r d w(2) writer_wf_held [OF wf] by (simp add: writer_wf_def Let_def)
    qed
    show thesis
    proof (rule ok [of W2 W3])
      show "\<forall>rs. logged crc W1 rs \<longrightarrow> logged crc W3 (rs @ records src new)"
        using lg r2 pf(6) by (simp add: logged_def)
      show "core W3 = core W0" using pf(1) st2 by (simp add: still_def)
      show "wr_pending_edges W3 = wr_pending_edges W0 + length new" using pf(5) st2 by (simp add: still_def)
      show "set (ws_touched (wr_scratch W3)) = insert (leaf_of src) (set (ws_touched (wr_scratch W0)))"
        using pu st2 by (simp add: published_def still_def)
    qed (use ga r2 pb pf g f fl mk wfr in simp_all)
  qed
qed

end
