(* ===== verification/Writer_Batch.thy ===== *)
theory Writer_Batch
  imports Writer_Correct
begin

section \<open>Batches: the rebuild path and the chained path\<close>

text \<open>
  The two ways \<^verbatim>\<open>insert_edges_sorted\<close> takes, and the batch of unsorted edges over them. The chained
  path keeps the marks of the retire log it took before its first pass; when that pass ends on
  a full arena, the log is stamped, which empties it, and the marks no longer say where the second
  pass's entries begin. \<open>path_copy_ok\<close> therefore leaves the log out of what it promises for
  an error after a guard that had logged something; theory \<open>Stale_Marks\<close> runs the consequence.
\<close>

lemma tree_root_sel [simp]: "ct_root (tree_root t) = root_word t"
  by (simp add: tree_root_def)

text \<open>The end of a rebuild, with the new tree \<open>t\<close> in the arena.\<close>

lemma rebuild_finish:
  assumes wf: "writer_wf H W T Lc0 Li0" and st: "still W W1" and src: "unat src < dg_num_vertices (wr_graph W)"
    and nd: "ws_new_dsts (wr_scratch W1) = fresh_dsts (T (unat src)) ds" and ne: "fresh_dsts (T (unat src)) ds \<noteq> []"
    and fl: "wr_wal_failed W1 = wr_wal_failed W" and bd: "\<forall>d\<in>set ds. unat d < dg_num_vertices (wr_graph W)"
    and wl: "dg_wal (wr_graph W1) = dg_wal (wr_graph W)"
    and h: "hgt (T (unat src)) \<le> MAX_DEPTH"
    and f0: "forest_at H (wr_store W1) Lc Li (dg_num_vertices (wr_graph W)) T (wr_log W1)"
    and f1: "forest_at H (wr_store W1) Lc Li (dg_num_vertices (wr_graph W)) (T(unat src := Some t))
      ((wr_log W1)\<lparr>rl_chunks := rl_chunks (wr_log W1) @ cs_of (T (unat src)), rl_interiors := rl_interiors (wr_log W1) @ is_of (T (unat src))\<rparr>)"
    and el: "set (elems t) = set (nbrs (T (unat src))) \<union> set ds"
      "tsize t = length (nbrs (T (unat src))) + length (fresh_dsts (T (unat src)) ds)" and sh: "shallow (Some t)"
  shows "\<exists>r W' T' Lc' Li'. (case append_batch crc W1 src of
              (W, Inl e) \<Rightarrow> Some (Inl e, W)
            | (W, Inr _) \<Rightarrow> do {
                (inserted, W) \<leftarrow> publish_batch W src (tree_root (Some t));
                log \<leftarrow> (if ct_root (tree_root (T (unat src))) \<noteq> NULL_OFF
                        then retire_subtree (wr_store W) (ct_root (tree_root (T (unat src)))) (wr_log W)
                        else Some (wr_log W));
                Some (Inr inserted, maybe_stamp_retired (set_log W log)) }) = Some (r, W') \<and>
     writer_wf H W' T' Lc' Li' \<and> batch_done W T src ds r W' T' \<and> batch_logged crc W (T (unat src)) src ds r W'"
proof -
  let ?s = "unat src" and ?nv = "dg_num_vertices (wr_graph W)" and ?new = "fresh_dsts (T (unat src)) ds"
  have bn: "\<forall>d\<in>set ?new. unat d < ?nv" using bd by (auto simp: fresh_dsts_def)
  have lg0: "logged crc W rs \<Longrightarrow> logged crc W1 rs" for rs using wl by (simp add: logged_def)
  from publish_ok [OF wf st src nd fl bn, where crc = crc and t' = "Some t"] show ?thesis
  proof cases
    case (1 W2)
    have wf2: "writer_wf H W2 T Lc Li" by (rule writer_wf_still [OF wf 1(2)]) (use f0 1(3,4) in simp)
    have "batch_done W T src ds (Inl WalAppend) W2 T" using 1(2,5) by (simp add: batch_done_def Let_def)
    moreover have "batch_logged crc W (T ?s) src ds (Inl WalAppend) W2" using 1(6) lg0 by (simp add: batch_logged_def)
    ultimately show ?thesis using 1(1) wf2 by fastforce
  next
    case (2 W2 W3)
    let ?log = "(wr_log W1)\<lparr>rl_chunks := rl_chunks (wr_log W1) @ cs_of (T ?s), rl_interiors := rl_interiors (wr_log W1) @ is_of (T ?s)\<rparr>"
    have rt: "(if ct_root (tree_root (T ?s)) \<noteq> NULL_OFF then retire_subtree (wr_store W3) (ct_root (tree_root (T ?s))) (wr_log W3)
               else Some (wr_log W3)) = Some ?log"
    proof (cases "T ?s")
      case (Some t0)
      have "stored (wr_store W3) t0" using forest_tree_ok [OF f0 src] Some 2(3) by simp
      then show ?thesis using retire_subtree_stored [of "wr_store W3" t0 "wr_log W3"] root_off_not_NULL h Some 2(4) by simp
    qed (use 2(4) in simp)
    let ?W4 = "set_log W3 ?log"
    have st4: "still W3 ?W4" by simp
    have f4: "forest_at H (wr_store ?W4) Lc Li ?nv (T(?s := Some t)) (wr_log ?W4)" using f1 2(3) by simp
    have wf4: "writer_wf H ?W4 (T(?s := Some t)) Lc Li" by (rule 2(11) [OF st4 f4])
    note ms = maybe_stamp_ok [OF wf4]
    have st5: "still W3 (maybe_stamp_retired ?W4)" using still_trans [OF st4 ms(2)] .
    have bdn: "batch_done W T src ds (Inr (length ?new)) (maybe_stamp_retired ?W4) (T(?s := Some t))"
      unfolding batch_done_def Let_def sum.case if_not_P [OF ne]
    proof (intro conjI exI [of _ "Some t"])
      show "core (maybe_stamp_retired ?W4) = core W" using st5 2(6) by (simp add: still_def)
      show "wr_wal_failed (maybe_stamp_retired ?W4) = wr_wal_failed W" using ms(4) 2(5) by simp
      show "wr_pending_edges (maybe_stamp_retired ?W4) = wr_pending_edges W + length ?new" using st5 2(8) by (simp add: still_def)
      show "marks (maybe_stamp_retired ?W4) = marks W \<union> unat ` set (src # ?new)" using still_marks [OF st5] 2(9) by simp
      show "set (ws_touched (wr_scratch (maybe_stamp_retired ?W4))) = insert (leaf_of src) (set (ws_touched (wr_scratch W)))"
        using st5 2(10) by (simp add: still_def)
      show "hgt (Some t) \<le> max (depth_limit (length (nbrs (Some t)))) (hgt (T ?s) + length ds)" using sh by simp
    qed (use el in simp_all)
    have lg: "batch_logged crc W (T ?s) src ds (Inr (length ?new)) (maybe_stamp_retired ?W4)"
      using 2(7) lg0 ms(3) by (simp add: batch_logged_def logged_def)
    have run: "(case append_batch crc W1 src of
              (W, Inl e) \<Rightarrow> Some (Inl e, W)
            | (W, Inr _) \<Rightarrow> do {
                (inserted, W) \<leftarrow> publish_batch W src (tree_root (Some t));
                log \<leftarrow> (if ct_root (tree_root (T ?s)) \<noteq> NULL_OFF
                        then retire_subtree (wr_store W) (ct_root (tree_root (T ?s))) (wr_log W)
                        else Some (wr_log W));
                Some (Inr inserted, maybe_stamp_retired (set_log W log)) }) = Some (Inr (length ?new), maybe_stamp_retired ?W4)"
      unfolding 2(1) prod.case sum.case 2(2) bind.bind_lunit rt ..
    from ms(1) show ?thesis using run bdn lg by blast
  qed
qed

lemma rebuild_ok:
  assumes wf: "writer_wf H W T Lc Li" and src: "unat src < dg_num_vertices (wr_graph W)"
    and ds: "ssorted ds" "\<forall>d\<in>set ds. unat d < dg_num_vertices (wr_graph W)" and h: "hgt (T (unat src)) \<le> MAX_DEPTH"
  shows "\<exists>r W' T' Lc' Li'. insert_sorted_by_rebuild crc W src (tree_root (T (unat src))) ds = Some (r, W') \<and>
     writer_wf H W' T' Lc' Li' \<and> batch_done W T src ds r W' T' \<and> batch_logged crc W (T (unat src)) src ds r W'"
proof -
  let ?s = "unat src" and ?nv = "dg_num_vertices (wr_graph W)" and ?new = "fresh_dsts (T (unat src)) ds"
  note f = writer_wf_forest [OF wf]
  have nv: "?nv < 2 ^ 32 - 1" using wf by (simp add: writer_wf_def Let_def)
  have col: "collect_into (tree_root (T ?s)) (wr_store W) [] = Some (nbrs (T ?s))"
    using forest_read(2) [OF f nv src h, of "[]"] by simp
  obtain ms where ms: "merge_new (nbrs (T ?s)) ds [] [] = (ms, ?new)" "ssorted ms" "set ms = set (nbrs (T ?s)) \<union> set ds"
    using merge_new_ok [OF forest_read(4) [OF f nv src] ds(1), of "[]" "[]"] by (auto simp: fresh_dsts_def)
  have lms: "length ms = length (nbrs (T ?s)) + length ?new"
  proof -
    have "length ms = card (set ms)" using ssorted_distinct [OF ms(2)] by (simp add: distinct_card)
    also have "set ms = set (nbrs (T ?s)) \<union> set ?new" unfolding ms(3) fresh_dsts_def by auto
    also have "card \<dots> = card (set (nbrs (T ?s))) + card (set ?new)" by (rule card_Un_disjoint) (auto simp: fresh_dsts_def)
    also have "\<dots> = length (nbrs (T ?s)) + length ?new"
    proof -
      have "distinct ?new" using ssorted_distinct [OF ds(1)] by (simp add: fresh_dsts_def)
      then show ?thesis using ssorted_distinct [OF forest_read(4) [OF f nv src]] by (simp add: distinct_card)
    qed
    finally show ?thesis .
  qed
  let ?W0 = "set_new_dsts W ?new"
  show ?thesis
  proof (cases "?new = []")
    case True
    have run: "insert_sorted_by_rebuild crc W src (tree_root (T ?s)) ds = Some (Inr 0, set_new_dsts W [])"
      unfolding insert_sorted_by_rebuild_def col bind.bind_lunit ms(1) using True by simp
    have wf': "writer_wf H (set_new_dsts W []) T Lc Li" by (rule writer_wf_still [OF wf]) (use f in simp_all)
    have "batch_done W T src ds (Inr 0) (set_new_dsts W []) T" using True by (simp add: batch_done_def Let_def)
    moreover have "batch_logged crc W (T ?s) src ds (Inr 0) (set_new_dsts W [])" using True by (simp add: batch_logged_def logged_def)
    ultimately show ?thesis using run wf' by fastforce
  next
    case False
    then have "set ds \<noteq> {}" by (auto simp: fresh_dsts_def)
    then have mne: "ms \<noteq> []" using ms(3) by auto
    have mb: "\<forall>x\<in>set ms. unat x < ?nv"
    proof
      fix x
      assume "x \<in> set ms"
      then consider "x \<in> set (nbrs (T ?s))" | "x \<in> set ds" using ms(3) by blast
      then show "unat x < ?nv" using ds(2) forest_tree_ok [OF f src] by cases (cases "T ?s"; auto)+
    qed
    have run: "insert_sorted_by_rebuild crc W src (tree_root (T ?s)) ds = do {
       (built, A) \<leftarrow> ctree_from_sorted (wr_store W) ms;
       (built, W) \<leftarrow> (case built of Some t \<Rightarrow> Some (built, set_arena ?W0 A)
         | None \<Rightarrow> do {
             let W = writer_retire (set_arena ?W0 A) (wr_retire_stamp (set_arena ?W0 A));
             (built, A) \<leftarrow> ctree_from_sorted (wr_store W) ms;
             Some (built, set_arena W A) });
       (case built of
         None \<Rightarrow> Some (Inl InsArenaFull, W)
       | Some new_tree \<Rightarrow>
           (case append_batch crc W src of
              (W, Inl e) \<Rightarrow> Some (Inl e, W)
            | (W, Inr _) \<Rightarrow> do {
                (inserted, W) \<leftarrow> publish_batch W src new_tree;
                log \<leftarrow> (if ct_root (tree_root (T ?s)) \<noteq> NULL_OFF then retire_subtree (wr_store W) (ct_root (tree_root (T ?s))) (wr_log W)
                        else Some (wr_log W));
                Some (Inr inserted, maybe_stamp_retired (set_log W log)) })) }"
      unfolding insert_sorted_by_rebuild_def col bind.bind_lunit ms(1) Let_def prod.case if_not_P [OF False] by simp
    note fin = rebuild_finish [OF wf _ src _ False _ ds(2) _ h]
    from forest_build [OF f nv src mne ms(2) mb] show ?thesis
    proof cases
      case (2 t A' Lc' Li')
      let ?W1 = "set_arena ?W0 A'"
      have st1: "still W ?W1" using still_trans [OF still_set(3) still_set(1)] .
      have f0: "forest_at H (wr_store ?W1) Lc' Li' ?nv T (wr_log ?W1)" using forest_ext [OF f 2(4)] by simp
      have ex: "\<exists>r W' T' Lc' Li'. (case append_batch crc ?W1 src of
              (W, Inl e) \<Rightarrow> Some (Inl e, W)
            | (W, Inr _) \<Rightarrow> do {
                (inserted, W) \<leftarrow> publish_batch W src (tree_root (Some t));
                log \<leftarrow> (if ct_root (tree_root (T ?s)) \<noteq> NULL_OFF then retire_subtree (wr_store W) (ct_root (tree_root (T ?s))) (wr_log W)
                        else Some (wr_log W));
                Some (Inr inserted, maybe_stamp_retired (set_log W log)) }) = Some (r, W') \<and>
         writer_wf H W' T' Lc' Li' \<and> batch_done W T src ds r W' T' \<and> batch_logged crc W (T ?s) src ds r W'"
        by (rule fin [OF st1 _ _ _ f0]) (use 2(2,3,5) ms(3) lms in simp_all)
      show ?thesis unfolding run 2(1) bind.bind_lunit prod.case option.case by (rule ex)
    next
      case (1 A' Lc' Li')
      let ?W1 = "set_arena ?W0 A'"
      have st1: "still W ?W1" using still_trans [OF still_set(3) still_set(1)] .
      have wf1: "writer_wf H ?W1 T Lc' Li'" by (rule writer_wf_still [OF wf st1]) (use forest_ext [OF f 1(2)] in simp)
      define W2 where "W2 = writer_retire ?W1 (wr_retire_stamp ?W1)"
      note wr = writer_retire_ok [OF wf1 order_refl, folded W2_def]
      from wr(1) obtain Lc2 Li2 where wf2: "writer_wf H W2 T Lc2 Li2" by blast
      have st2: "still W W2" using still_trans [OF st1 wr(2)] .
      have nv2: "dg_num_vertices (wr_graph W2) = ?nv" by (rule still_nv [OF st2])
      have f2: "forest_at H (wr_store W2) Lc2 Li2 ?nv T (wr_log W2)" using writer_wf_forest [OF wf2] nv2 by simp
      have run2: "insert_sorted_by_rebuild crc W src (tree_root (T ?s)) ds = do {
         (built, A) \<leftarrow> ctree_from_sorted (wr_store W2) ms;
         (case built of
           None \<Rightarrow> Some (Inl InsArenaFull, set_arena W2 A)
         | Some new_tree \<Rightarrow>
             (case append_batch crc (set_arena W2 A) src of
                (W, Inl e) \<Rightarrow> Some (Inl e, W)
              | (W, Inr _) \<Rightarrow> do {
                  (inserted, W) \<leftarrow> publish_batch W src new_tree;
                  log \<leftarrow> (if ct_root (tree_root (T ?s)) \<noteq> NULL_OFF then retire_subtree (wr_store W) (ct_root (tree_root (T ?s))) (wr_log W)
                          else Some (wr_log W));
                  Some (Inr inserted, maybe_stamp_retired (set_log W log)) })) }"
        unfolding run 1(1) bind.bind_lunit prod.case option.case Let_def W2_def [symmetric]
        by (cases "ctree_from_sorted (wr_store W2) ms") auto
      from forest_build [OF f2 nv src mne ms(2) mb] show ?thesis
      proof cases
        case b: (1 A3 Lc3 Li3)
        let ?W3 = "set_arena W2 A3"
        have st3: "still W ?W3" using still_trans [OF st2 still_set(1)] .
        have wf3: "writer_wf H ?W3 T Lc3 Li3" by (rule writer_wf_still [OF wf st3]) (use forest_ext [OF f2 b(2)] in simp)
        have "insert_sorted_by_rebuild crc W src (tree_root (T ?s)) ds = Some (Inl InsArenaFull, ?W3)"
          unfolding run2 b(1) by simp
        moreover have "batch_done W T src ds (Inl InsArenaFull) ?W3 T"
          using st3 wr(5) False by (simp add: batch_done_def Let_def)
        moreover have "batch_logged crc W (T ?s) src ds (Inl InsArenaFull) ?W3"
          using wr(4) by (simp add: batch_logged_def logged_def)
        ultimately show ?thesis using wf3 by fastforce
      next
        case b: (2 t A3 Lc3 Li3)
        let ?W3 = "set_arena W2 A3"
        have st3: "still W ?W3" using still_trans [OF st2 still_set(1)] .
        have f0: "forest_at H (wr_store ?W3) Lc3 Li3 ?nv T (wr_log ?W3)" using forest_ext [OF f2 b(4)] by simp
        have ex: "\<exists>r W' T' Lc' Li'. (case append_batch crc ?W3 src of
              (W, Inl e) \<Rightarrow> Some (Inl e, W)
            | (W, Inr _) \<Rightarrow> do {
                (inserted, W) \<leftarrow> publish_batch W src (tree_root (Some t));
                log \<leftarrow> (if ct_root (tree_root (T ?s)) \<noteq> NULL_OFF then retire_subtree (wr_store W) (ct_root (tree_root (T ?s))) (wr_log W)
                        else Some (wr_log W));
                Some (Inr inserted, maybe_stamp_retired (set_log W log)) }) = Some (r, W') \<and>
           writer_wf H W' T' Lc' Li' \<and> batch_done W T src ds r W' T' \<and> batch_logged crc W (T ?s) src ds r W'"
          by (rule fin [OF st3 _ _ _ f0]) (use b(2,3,5) ms(3) lms wr in simp_all)
        show ?thesis unfolding run2 b(1) bind.bind_lunit prod.case option.case by (rule ex)
      qed
    qed
  qed
qed

subsection \<open>The chained path\<close>

lemma forest_forget: "forest_at H A Lc Li nv T log \<Longrightarrow> forest_at H A Lc Li nv T retire_log_new"
  using own_truncate [of nv "\<lambda>v. cs_of (T v)" "[]" "rl_chunks log" Lc] own_truncate [of nv "\<lambda>v. is_of (T v)" "[]" "rl_interiors log" Li]
  by (simp add: forest_at_def retire_log_new_def)

text \<open>The end of a chain whose last pass succeeded in \<open>W1\<close>.\<close>

lemma path_finish:
  assumes wf: "writer_wf H W T Lc0 Li0" and st: "still W W1" and src: "unat src < dg_num_vertices (wr_graph W)"
    and nd: "ws_new_dsts (wr_scratch W1) = fresh_dsts (T (unat src)) ds"
    and fl: "wr_wal_failed W1 = wr_wal_failed W" and bd: "\<forall>d\<in>set ds. unat d < dg_num_vertices (wr_graph W)"
    and wl: "dg_wal (wr_graph W1) = dg_wal (wr_graph W)"
    and f0: "forest_at H (wr_store W1) Lc Li (dg_num_vertices (wr_graph W)) T retire_log_new"
    and f1: "forest_at H (wr_store W1) Lc Li (dg_num_vertices (wr_graph W)) (T(unat src := t')) (wr_log W1)"
    and same: "fresh_dsts (T (unat src)) ds = [] \<Longrightarrow> t' = T (unat src)"
    and el: "set (nbrs t') = set (nbrs (T (unat src))) \<union> set ds"
      "length (nbrs t') = length (nbrs (T (unat src))) + length (fresh_dsts (T (unat src)) ds)" "hgt t' \<le> hgt (T (unat src)) + length ds"
  shows "\<exists>r W' T'. (if ws_new_dsts (wr_scratch W1) = [] then Some (Inr 0, W1)
         else (case append_batch crc W1 src of
            (W, Inl e) \<Rightarrow> Some (Inl e, set_log W (log_truncate (wr_log W) cm im))
          | (W, Inr _) \<Rightarrow> do {
              (inserted, W) \<leftarrow> publish_batch W src (tree_root t');
              Some (Inr inserted, maybe_stamp_retired W) })) = Some (r, W') \<and>
     batch_done W T src ds r W' T' \<and> batch_logged crc W (T (unat src)) src ds r W' \<and>
     (\<forall>n. r = Inr n \<longrightarrow> (\<exists>Lc' Li'. writer_wf H W' T' Lc' Li')) \<and> (\<exists>Lc' Li'. writer_wf H (set_log W' retire_log_new) T' Lc' Li') \<and>
     (\<forall>e. r = Inl e \<longrightarrow> forest_at H (wr_store W1) Lc Li (dg_num_vertices (wr_graph W)) T (log_truncate (wr_log W1) cm im) \<longrightarrow>
        (\<exists>Lc' Li'. writer_wf H W' T' Lc' Li'))"
proof -
  let ?s = "unat src" and ?nv = "dg_num_vertices (wr_graph W)" and ?new = "fresh_dsts (T (unat src)) ds"
  have bn: "\<forall>d\<in>set ?new. unat d < ?nv" using bd by (auto simp: fresh_dsts_def)
  have lg0: "logged crc W rs \<Longrightarrow> logged crc W1 rs" for rs using wl by (simp add: logged_def)
  have forget: "\<exists>Lc' Li'. writer_wf H (set_log X retire_log_new) T' Lc' Li'" if "writer_wf H X T' La Lb" for X T' La Lb
    using writer_wf_still [OF that still_set(2)] forest_forget [OF writer_wf_forest [OF that]] by (metis set_simps(3,4))
  show ?thesis
  proof (cases "?new = []")
    case True
    have tT: "T(?s := t') = T" using same [OF True] by simp
    have wf1: "writer_wf H W1 T Lc Li" by (rule writer_wf_still [OF wf st]) (use f1 tT in simp)
    have "batch_done W T src ds (Inr 0) W1 T" using True st fl by (simp add: batch_done_def Let_def)
    moreover have "batch_logged crc W (T ?s) src ds (Inr 0) W1" using True lg0 by (simp add: batch_logged_def)
    ultimately show ?thesis using wf1 forget [OF wf1] True nd
      by (intro exI [of _ "Inr 0"] exI [of _ W1] exI [of _ T]) auto
  next
    case ne: False
    have nn: "ws_new_dsts (wr_scratch W1) \<noteq> []" using ne nd by simp
    from publish_ok [OF wf st src nd fl bn, where crc = crc and t' = t'] show ?thesis
    proof cases
      case (1 W2)
      let ?W3 = "set_log W2 (log_truncate (wr_log W2) cm im)"
      have st3: "still W ?W3" using still_trans [OF 1(2) still_set(2)] .
      have st4: "still W (set_log ?W3 retire_log_new)" using still_trans [OF st3 still_set(2)] .
      have wf4: "writer_wf H (set_log ?W3 retire_log_new) T Lc Li" by (rule writer_wf_still [OF wf st4]) (use f0 1(3) in simp)
      have wf3: "writer_wf H ?W3 T Lc Li" if "forest_at H (wr_store W1) Lc Li ?nv T (log_truncate (wr_log W1) cm im)"
        by (rule writer_wf_still [OF wf st3]) (use that 1(3,4) in simp)
      have "batch_done W T src ds (Inl WalAppend) ?W3 T" using st3 1(5) by (simp add: batch_done_def Let_def)
      moreover have "batch_logged crc W (T ?s) src ds (Inl WalAppend) ?W3" using 1(6) lg0 by (simp add: batch_logged_def logged_def)
      ultimately show ?thesis unfolding if_not_P [OF nn] 1(1) using wf3 wf4
        by (intro exI [of _ "Inl WalAppend"] exI [of _ ?W3] exI [of _ T]) auto
    next
      case (2 W2 W3)
      have f3: "forest_at H (wr_store W3) Lc Li ?nv (T(?s := t')) (wr_log W3)" using f1 2(3,4) by simp
      have wf3: "writer_wf H W3 (T(?s := t')) Lc Li" by (rule 2(11) [OF still_refl f3])
      note ms = maybe_stamp_ok [OF wf3]
      let ?W4 = "maybe_stamp_retired W3"
      have bdn: "batch_done W T src ds (Inr (length ?new)) ?W4 (T(?s := t'))"
        unfolding batch_done_def Let_def sum.case if_not_P [OF ne]
      proof (intro conjI exI [of _ t'])
        show "core ?W4 = core W" using ms(2) 2(6) by (simp add: still_def)
        show "wr_wal_failed ?W4 = wr_wal_failed W" using ms(4) 2(5) by simp
        show "wr_pending_edges ?W4 = wr_pending_edges W + length ?new" using ms(2) 2(8) by (simp add: still_def)
        show "marks ?W4 = marks W \<union> unat ` set (src # ?new)" using still_marks [OF ms(2)] 2(9) by simp
        show "set (ws_touched (wr_scratch ?W4)) = insert (leaf_of src) (set (ws_touched (wr_scratch W)))"
          using ms(2) 2(10) by (simp add: still_def)
        show "hgt t' \<le> max (depth_limit (length (nbrs t'))) (hgt (T ?s) + length ds)" using el(3) by simp
      qed (use el in simp_all)
      have lg: "batch_logged crc W (T ?s) src ds (Inr (length ?new)) ?W4"
        using 2(7) lg0 ms(3) by (simp add: batch_logged_def logged_def)
      have run: "(case append_batch crc W1 src of
            (W, Inl e) \<Rightarrow> Some (Inl e, set_log W (log_truncate (wr_log W) cm im))
          | (W, Inr _) \<Rightarrow> do {
              (inserted, W) \<leftarrow> publish_batch W src (tree_root t');
              Some (Inr inserted, maybe_stamp_retired W) }) = Some (Inr (length ?new), ?W4)"
        unfolding 2(1) prod.case sum.case 2(2) by simp
      from ms(1) obtain Lc4 Li4 where wf4: "writer_wf H ?W4 (T(?s := t')) Lc4 Li4" by blast
      show ?thesis unfolding if_not_P [OF nn] run using bdn lg wf4 forget [OF wf4]
        by (intro exI [of _ "Inr (length ?new)"] exI [of _ ?W4] exI [of _ "T(?s := t')"]) auto
    qed
  qed
qed

text \<open>One pass, in terms of the forest.\<close>

lemma chain_pass_ok:
  assumes wf: "writer_wf H W T Lc Li" and src: "unat src < dg_num_vertices (wr_graph W)"
    and ds: "distinct ds" "\<forall>d\<in>set ds. unat d < dg_num_vertices (wr_graph W)" "hgt (T (unat src)) + length ds \<le> MAX_DEPTH"
  obtains (full) A log nd Lc' Li' where "chain_pass W (tree_root (T (unat src))) ds cm im =
        Some (None, set_log (set_new_dsts (set_log (set_arena W A) log) nd) (log_truncate log cm im))"
      "log_grew (wr_log W) log" "arena_ext Lc Li (wr_store W) Lc' Li' A"
  | (ok) t' W1 Lc' Li' where "chain_pass W (tree_root (T (unat src))) ds cm im = Some (Some (tree_root t'), W1)"
      "still W W1" "ws_new_dsts (wr_scratch W1) = fresh_dsts (T (unat src)) ds" "wr_wal_failed W1 = wr_wal_failed W"
      "dg_wal (wr_graph W1) = dg_wal (wr_graph W)" "log_grew (wr_log W) (wr_log W1)"
      "arena_ext Lc Li (wr_store W) Lc' Li' (wr_store W1)"
      "forest_at H (wr_store W1) Lc' Li' (dg_num_vertices (wr_graph W)) (T(unat src := t')) (wr_log W1)"
      "fresh_dsts (T (unat src)) ds = [] \<Longrightarrow> t' = T (unat src)"
      "set (nbrs t') = set (nbrs (T (unat src))) \<union> set ds"
      "length (nbrs t') = length (nbrs (T (unat src))) + length (fresh_dsts (T (unat src)) ds)"
      "hgt t' \<le> hgt (T (unat src)) + length ds"
proof -
  let ?s = "unat src" and ?nv = "dg_num_vertices (wr_graph W)"
  have nv: "?nv < 2 ^ 32 - 1" using wf by (simp add: writer_wf_def Let_def)
  obtain r A log nd where c: "insert_chain (tree_root (T ?s)) ds (wr_store W) (wr_log W) [] = Some (r, A, log, [] @ nd)"
    and cok: "chain_ok H (wr_store W) Lc Li ?nv T (wr_log W) ?s ds r A log nd"
    using forest_chain [OF writer_wf_forest [OF wf] nv src ds(2,1,3), of "[]"] by blast
  let ?W = "set_new_dsts (set_log (set_arena W A) log) nd"
  have st: "still W ?W" using still_trans still_set by meson
  from cok have g: "log_grew (wr_log W) log" by (simp add: chain_ok_def)
  from cok obtain Lc' Li' where e: "arena_ext Lc Li (wr_store W) Lc' Li' A" and tr: "\<forall>x. r = Some x \<longrightarrow> (\<exists>t'. x = tree_root t' \<and>
     forest_at H A Lc' Li' ?nv (T(?s := t')) log \<and> set (nbrs t') = set (nbrs (T ?s)) \<union> set ds \<and>
     length (nbrs t') = length (nbrs (T ?s)) + length nd \<and> nd = filter (\<lambda>d. d \<notin> set (nbrs (T ?s))) ds \<and>
     hgt t' \<le> hgt (T ?s) + length ds \<and> (nd = [] \<longrightarrow> t' = T ?s \<and> log = wr_log W))"
    unfolding chain_ok_def by blast
  show thesis
  proof (cases r)
    case None
    have "chain_pass W (tree_root (T ?s)) ds cm im = Some (None, set_log ?W (log_truncate log cm im))"
      using c None by (simp add: chain_pass_def)
    then show thesis by (rule full) (use g e in simp_all)
  next
    case (Some x)
    then obtain t' where t': "x = tree_root t'" "forest_at H A Lc' Li' ?nv (T(?s := t')) log"
      "set (nbrs t') = set (nbrs (T ?s)) \<union> set ds" "length (nbrs t') = length (nbrs (T ?s)) + length nd"
      "nd = filter (\<lambda>d. d \<notin> set (nbrs (T ?s))) ds" "hgt t' \<le> hgt (T ?s) + length ds" "nd = [] \<longrightarrow> t' = T ?s"
      using tr by blast
    have nd: "nd = fresh_dsts (T ?s) ds" using t'(5) by (simp add: fresh_dsts_def)
    have "chain_pass W (tree_root (T ?s)) ds cm im = Some (Some (tree_root t'), ?W)"
      using c Some t'(1) by (simp add: chain_pass_def)
    then show thesis by (rule ok) (use st g e t' nd in simp_all)
  qed
qed

text \<open>A pass over edges the tree has does nothing, so a full arena means the batch has a new edge.\<close>

lemma chain_dups:
  assumes f: "forest_at H A Lc Li nv T log" and nv: "nv < 2 ^ 32 - 1" and s: "s < nv" and low: "low (T s)"
    and "\<forall>d\<in>set ds. unat d < nv" and "\<forall>d\<in>set ds. d \<in> set (nbrs (T s))"
  shows "insert_chain (tree_root (T s)) ds A log nd = Some (Some (tree_root (T s)), A, log, nd)"
  using assms(5,6)
proof (induction ds)
  case (Cons d ds)
  have d: "unat d < nv" "d \<in> set (nbrs (T s))" using Cons.prems by simp_all
  from forest_insert [OF f nv s d(1) low] show ?case using Cons d(2) by cases simp_all
qed simp

lemma chain_full_fresh:
  assumes wf: "writer_wf H W T Lc Li" and src: "unat src < dg_num_vertices (wr_graph W)"
    and ds: "\<forall>d\<in>set ds. unat d < dg_num_vertices (wr_graph W)" "hgt (T (unat src)) + length ds \<le> MAX_DEPTH"
    and full: "chain_pass W (tree_root (T (unat src))) ds cm im = Some (None, W')"
  shows "fresh_dsts (T (unat src)) ds \<noteq> []"
proof
  assume fr: "fresh_dsts (T (unat src)) ds = []"
  have nv: "dg_num_vertices (wr_graph W) < 2 ^ 32 - 1" using wf by (simp add: writer_wf_def Let_def)
  show False
  proof (cases ds)
    case Nil
    then show False using full by (simp add: chain_pass_def)
  next
    case (Cons d ds')
    then have "low (T (unat src))" using ds(2) by (simp add: low_hgt)
    moreover have "\<forall>d\<in>set ds. d \<in> set (nbrs (T (unat src)))" using fr by (simp add: fresh_dsts_def filter_empty_conv)
    ultimately show False
      using full chain_dups [OF writer_wf_forest [OF wf] nv src _ ds(1)] by (simp add: chain_pass_def)
  qed
qed

text \<open>The whole chained path. After an error the guard's log is only known to be sound when the guard
  had logged nothing before (or is forgotten).\<close>

lemma path_copy_ok:
  assumes wf: "writer_wf H W T Lc Li" and src: "unat src < dg_num_vertices (wr_graph W)"
    and ds: "distinct ds" "\<forall>d\<in>set ds. unat d < dg_num_vertices (wr_graph W)" "hgt (T (unat src)) + length ds \<le> MAX_DEPTH"
  shows "\<exists>r W' T'. insert_sorted_by_path_copy crc W src (tree_root (T (unat src))) ds = Some (r, W') \<and>
     batch_done W T src ds r W' T' \<and> batch_logged crc W (T (unat src)) src ds r W' \<and>
     (\<forall>n. r = Inr n \<longrightarrow> (\<exists>Lc' Li'. writer_wf H W' T' Lc' Li')) \<and> (\<exists>Lc' Li'. writer_wf H (set_log W' retire_log_new) T' Lc' Li') \<and>
     (\<forall>e. r = Inl e \<longrightarrow> wr_log W = retire_log_new \<longrightarrow> (\<exists>Lc' Li'. writer_wf H W' T' Lc' Li'))"
proof -
  let ?s = "unat src" and ?nv = "dg_num_vertices (wr_graph W)"
  define cm im where "cm = length (rl_chunks (wr_log W))" and "im = length (rl_interiors (wr_log W))"
  note f = writer_wf_forest [OF wf]
  define fin where "fin = (\<lambda>(r, W). case r of
       None \<Rightarrow> Some (Inl InsArenaFull, W)
     | Some new_tree \<Rightarrow>
         if ws_new_dsts (wr_scratch W) = [] then Some (Inr 0, W)
         else (case append_batch crc W src of
            (W, Inl e) \<Rightarrow> Some (Inl e, set_log W (log_truncate (wr_log W) cm im))
          | (W, Inr _) \<Rightarrow> do {
              (inserted, W) \<leftarrow> publish_batch W src new_tree;
              Some (Inr inserted, maybe_stamp_retired W) }))"
  have run: "insert_sorted_by_path_copy crc W src (tree_root (T ?s)) ds = do {
     (r, W) \<leftarrow> chain_pass W (tree_root (T ?s)) ds cm im;
     (r, W) \<leftarrow> (case r of Some t \<Rightarrow> Some (r, W)
       | None \<Rightarrow> chain_pass (writer_retire W (wr_retire_stamp W)) (tree_root (T ?s)) ds cm im);
     fin (r, W) }"
    unfolding insert_sorted_by_path_copy_def Let_def cm_def im_def fin_def by simp
  have tr: "log_truncate l cm im = wr_log W" if "log_grew (wr_log W) l" for l
    unfolding cm_def im_def by (rule log_grew_truncate [OF that])
  have tr0: "log_truncate l cm im = retire_log_new" if "wr_log W = retire_log_new" for l
    using that by (simp add: cm_def im_def log_truncate_def retire_log_new_def)
  from chain_pass_ok [OF wf src ds, of cm im] show ?thesis
  proof cases
    case (2 t' W1 Lc1 Li1)
    have f0: "forest_at H (wr_store W1) Lc1 Li1 ?nv T (wr_log W)" by (rule forest_ext [OF f 2(7)])
    have e: "insert_sorted_by_path_copy crc W src (tree_root (T ?s)) ds = fin (Some (tree_root t'), W1)"
      unfolding run 2(1) by simp
    note pf = path_finish [OF wf 2(2) src 2(3,4) ds(2) 2(5) forest_forget [OF f0] 2(8-12), where crc = crc and cm = cm and im = im]
    have "forest_at H (wr_store W1) Lc1 Li1 ?nv T (log_truncate (wr_log W1) cm im)" using f0 tr [OF 2(6)] by simp
    with pf show ?thesis unfolding e fin_def by (simp only: prod.case option.case) blast
  next
    case (1 A log nd Lc1 Li1)
    define W1 where "W1 = set_log (set_new_dsts (set_log (set_arena W A) log) nd) (log_truncate log cm im)"
    have st1: "still W W1" unfolding W1_def by (meson still_trans still_set)
    have W1: "wr_store W1 = A" "wr_log W1 = wr_log W" "wr_wal_failed W1 = wr_wal_failed W"
      "dg_wal (wr_graph W1) = dg_wal (wr_graph W)" by (simp_all add: W1_def tr [OF 1(2)])
    have wf1: "writer_wf H W1 T Lc1 Li1" by (rule writer_wf_still [OF wf st1]) (use forest_ext [OF f 1(3)] W1 in simp)
    define W2 where "W2 = writer_retire W1 (wr_retire_stamp W1)"
    note wr = writer_retire_ok [OF wf1 order_refl, folded W2_def]
    from wr(1) obtain Lc2 Li2 where wf2: "writer_wf H W2 T Lc2 Li2" by blast
    have st2: "still W W2" using still_trans [OF st1 wr(2)] .
    have nv2: "dg_num_vertices (wr_graph W2) = ?nv" by (rule still_nv [OF st2])
    note f2 = writer_wf_forest [OF wf2, unfolded nv2]
    have e: "insert_sorted_by_path_copy crc W src (tree_root (T ?s)) ds = do {
        (r, W) \<leftarrow> chain_pass W2 (tree_root (T ?s)) ds cm im; fin (r, W) }"
      unfolding run 1(1) W2_def W1_def by simp
    from chain_pass_ok [OF wf2 src [folded nv2] ds(1) ds(2) [folded nv2] ds(3), of cm im] show ?thesis
    proof cases
      case c: (2 t' W3 Lc3 Li3)
      have st3: "still W W3" using still_trans [OF st2 c(2)] .
      have f0: "forest_at H (wr_store W3) Lc3 Li3 ?nv T (wr_log W2)" by (rule forest_ext [OF f2 c(7)])
      have fl: "wr_wal_failed W3 = wr_wal_failed W" and wl: "dg_wal (wr_graph W3) = dg_wal (wr_graph W)"
        using c(4,5) wr(4,5) W1(3,4) by simp_all
      have e': "insert_sorted_by_path_copy crc W src (tree_root (T ?s)) ds = fin (Some (tree_root t'), W3)"
        unfolding e c(1) by simp
      note pf = path_finish [OF wf st3 src c(3) fl ds(2) wl forest_forget [OF f0] c(8) [unfolded nv2] c(9-12), where crc = crc and cm = cm and im = im]
      have "wr_log W = retire_log_new \<Longrightarrow> forest_at H (wr_store W3) Lc3 Li3 ?nv T (log_truncate (wr_log W3) cm im)"
        using forest_forget [OF f0] tr0 by simp
      with pf show ?thesis unfolding e' fin_def by (simp only: prod.case option.case) blast
    next
      case c: (1 A3 log3 nd3 Lc3 Li3)
      define W3 where "W3 = set_log (set_new_dsts (set_log (set_arena W2 A3) log3) nd3) (log_truncate log3 cm im)"
      have st3: "still W2 W3" unfolding W3_def by (meson still_trans still_set)
      have st: "still W W3" using still_trans [OF st2 st3] .
      have W3: "wr_store W3 = A3" "wr_wal_failed W3 = wr_wal_failed W" "dg_wal (wr_graph W3) = dg_wal (wr_graph W)"
        "wr_log W3 = log_truncate log3 cm im"
        using wr(4,5) W1(3,4) by (simp_all add: W3_def)
      have e': "insert_sorted_by_path_copy crc W src (tree_root (T ?s)) ds = Some (Inl InsArenaFull, W3)"
        unfolding e c(1) fin_def W3_def by simp
      have f3: "forest_at H A3 Lc3 Li3 ?nv T retire_log_new" using forest_forget [OF forest_ext [OF f2 c(3)]] .
      have wfn: "writer_wf H (set_log W3 retire_log_new) T Lc3 Li3"
        by (rule writer_wf_still [OF wf still_trans [OF st still_set(2)]]) (use f3 W3 in simp)
      have wfe: "writer_wf H W3 T Lc3 Li3" if "wr_log W = retire_log_new"
        by (rule writer_wf_still [OF wf st]) (use f3 W3 tr0 [OF that] in simp)
      have lg: "batch_logged crc W (T ?s) src ds (Inl InsArenaFull) W3" using W3 by (simp add: batch_logged_def logged_def)
      have fr: "fresh_dsts (T ?s) ds \<noteq> []"
        by (rule chain_full_fresh [OF wf src ds(2,3) 1(1)])
      have "batch_done W T src ds (Inl InsArenaFull) W3 T" using st W3 fr by (simp add: batch_done_def Let_def)
      then show ?thesis using e' lg wfn wfe by (intro exI [of _ "Inl InsArenaFull"] exI [of _ W3] exI [of _ T]) auto
    qed
  qed
qed

end
