(* ===== verification/Writer_Edges.thy ===== *)
theory Writer_Edges
  imports Writer_Batch
begin

section \<open>Whole batches\<close>

text \<open>
  \<^verbatim>\<open>insert_edges_sorted\<close> with its range checks and its choice of a path, and
  \<^verbatim>\<open>insert_edges\<close>, which sorts a batch and hands every source's run to it. \<open>batch_post\<close> is what one
  call leaves; \<open>edges_of\<close> is the edge set that the trees hold.
\<close>

definition edges_of :: "nat \<Rightarrow> (nat \<Rightarrow> shape option) \<Rightarrow> (nat \<times> nat) set" where
  "edges_of nv T = {(s, d). s < nv \<and> d \<in> unat ` set (nbrs (T s))}"

definition batch_post :: "held \<Rightarrow> (bytes \<Rightarrow> u32) \<Rightarrow> writer \<Rightarrow> (nat \<Rightarrow> shape option) \<Rightarrow> u32 \<Rightarrow> u32 list \<Rightarrow> insert_error + nat \<Rightarrow> writer
    \<Rightarrow> (nat \<Rightarrow> shape option) \<Rightarrow> bool" where
  "batch_post H crc W T src ds r W' T' \<longleftrightarrow> batch_done W T src ds r W' T' \<and> batch_logged crc W (T (unat src)) src ds r W' \<and>
     (\<forall>n. r = Inr n \<longrightarrow> (\<exists>Lc' Li'. writer_wf H W' T' Lc' Li')) \<and> (\<exists>Lc' Li'. writer_wf H (set_log W' retire_log_new) T' Lc' Li') \<and>
     (\<forall>e. r = Inl e \<longrightarrow> wr_log W = retire_log_new \<longrightarrow> (\<exists>Lc' Li'. writer_wf H W' T' Lc' Li'))"

lemma wf_forget:
  assumes "writer_wf H W T Lc Li"
  shows "writer_wf H (set_log W retire_log_new) T Lc Li"
  using writer_wf_still [OF assms still_set(2)] forest_forget [OF writer_wf_forest [OF assms]] by simp

lemma batch_postI:
  assumes "writer_wf H W' T' Lc Li" and "batch_done W T src ds r W' T'" and "batch_logged crc W (T (unat src)) src ds r W'"
  shows "batch_post H crc W T src ds r W' T'"
  using assms wf_forget [OF assms(1)] unfolding batch_post_def by blast

text \<open>Where the height of the trees allows a call.\<close>

definition fits :: "shape option \<Rightarrow> u32 list \<Rightarrow> bool" where
  "fits t ds \<longleftrightarrow> hgt t \<le> MAX_DEPTH \<and> (prefer_path_copy (length (nbrs t)) (length ds) \<longrightarrow> hgt t + length ds \<le> MAX_DEPTH)"

lemma ssorted_last_max: "ssorted ds \<Longrightarrow> d \<in> set ds \<Longrightarrow> d \<le> last (ds :: u32 list)"
proof (induction ds)
  case (Cons x ds)
  then show ?case by (cases "ds = []") (auto intro: less_imp_le)
qed simp

lemma append_batch_errors: "append_batch crc W src = (W', Inl e) \<Longrightarrow> e = WalAppend"
  using guard_append_cases(5) unfolding append_batch_def by fastforce

text \<open>The paths below the range checks report a full arena or a failed append only.\<close>

definition no_range :: "((insert_error + 'a) \<times> writer) option \<Rightarrow> bool" where
  "no_range m \<longleftrightarrow> (\<forall>e W. m = Some (Inl e, W) \<longrightarrow> e = InsArenaFull \<or> e = WalAppend)"

lemma no_range_simps [simp]:
  "no_range None" "no_range (Some (Inr x, W))" "no_range (Some (Inl e, W)) \<longleftrightarrow> e = InsArenaFull \<or> e = WalAppend"
  by (auto simp: no_range_def)

lemma no_range_bind: "(\<And>x. no_range (f x)) \<Longrightarrow> no_range (m \<bind> f)"
  by (cases m) simp_all

lemma path_copy_errors: "no_range (insert_sorted_by_path_copy crc W src t ds)"
  unfolding insert_sorted_by_path_copy_def Let_def
  by (auto intro!: no_range_bind dest: append_batch_errors split: option.split prod.split sum.split)

lemma rebuild_errors: "no_range (insert_sorted_by_rebuild crc W src t ds)"
  unfolding insert_sorted_by_rebuild_def Let_def
  by (auto intro!: no_range_bind dest: append_batch_errors split: option.split prod.split sum.split) (use append_batch_errors in blast)

lemma insert_edges_sorted_ok:
  assumes wf: "writer_wf H W T Lc Li" and ds: "ssorted ds"
    and fits: "unat src < dg_num_vertices (wr_graph W) \<Longrightarrow> fits (T (unat src)) ds"
  shows "\<exists>r W' T'. insert_edges_sorted crc W src ds = Some (r, W') \<and> batch_post H crc W T src ds r W' T' \<and>
    ((\<exists>s d. r = Inl (VertexOutOfRange s d)) \<longleftrightarrow> ds \<noteq> [] \<and>
       (dg_num_vertices (wr_graph W) \<le> unat src \<or> (\<exists>d\<in>set ds. dg_num_vertices (wr_graph W) \<le> unat d))) \<and>
    (\<forall>s d. r = Inl (VertexOutOfRange s d) \<longrightarrow> s = src \<and> d \<in> set ds \<and>
       (dg_num_vertices (wr_graph W) \<le> unat s \<or> dg_num_vertices (wr_graph W) \<le> unat d))"
proof -
  let ?nv = "dg_num_vertices (wr_graph W)" and ?s = "unat src"
  have none: ?thesis if run: "insert_edges_sorted crc W src ds = Some (Inl e, W)" and bd: "batch_done W T src ds (Inl e) W T"
    and eq: "(\<exists>s d. e = VertexOutOfRange s d) \<longleftrightarrow> ds \<noteq> [] \<and> (?nv \<le> ?s \<or> (\<exists>d\<in>set ds. ?nv \<le> unat d))"
    and dd: "\<forall>s d. e = VertexOutOfRange s d \<longrightarrow> s = src \<and> d \<in> set ds \<and> (?nv \<le> unat s \<or> ?nv \<le> unat d)" for e
  proof -
    have "batch_logged crc W (T ?s) src ds (Inl e) W" by (simp add: batch_logged_def)
    from batch_postI [OF wf bd this] show ?thesis
      using run eq dd by (intro exI [of _ "Inl e"] exI [of _ W] exI [of _ T]) simp
  qed
  consider (nil) "ds = []" | (src) "ds \<noteq> []" "?nv \<le> ?s" | (dst) "ds \<noteq> []" "?s < ?nv" "?nv \<le> unat (last ds)"
    | (ok) "ds \<noteq> []" "?s < ?nv" "unat (last ds) < ?nv" by linarith
  then show ?thesis
  proof cases
    case nil
    have "batch_post H crc W T src ds (Inr 0) W T"
      by (rule batch_postI [OF wf]) (simp_all add: nil batch_done_def fresh_dsts_def batch_logged_def)
    moreover have "insert_edges_sorted crc W src ds = Some (Inr 0, W)" using nil by (simp add: insert_edges_sorted_def)
    ultimately show ?thesis using nil by (intro exI [of _ "Inr 0"] exI [of _ W] exI [of _ T]) simp
  next
    case src
    then obtain d ds' where e: "ds = d # ds'" by (cases ds) auto
    show ?thesis
    proof (rule none [of "VertexOutOfRange src d"])
      show "insert_edges_sorted crc W src ds = Some (Inl (VertexOutOfRange src d), W)"
        using src e by (simp add: insert_edges_sorted_def Let_def)
      show "batch_done W T src ds (Inl (VertexOutOfRange src d)) W T" by (simp add: batch_done_def)
    qed (use src e in auto)
  next
    case dst
    then obtain d ds' where e: "ds = d # ds'" by (cases ds) auto
    let ?i = "partition_point (\<lambda>d. unat d < ?nv) ds"
    have ex: "\<exists>x\<in>set ds. \<not> unat x < ?nv" using dst last_in_set [OF dst(1)] by (intro bexI [of _ "last ds"]) auto
    then have i: "?i < length ds" unfolding partition_point_def
      by (metis length_takeWhile_le le_neq_implies_less takeWhile_eq_all_conv takeWhile_eq_take take_all_iff order_refl)
    have bad: "\<not> unat (ds ! ?i) < ?nv" using nth_length_takeWhile [of "\<lambda>d. unat d < ?nv" ds] i
      unfolding partition_point_def by blast
    show ?thesis
    proof (rule none [of "VertexOutOfRange src (ds ! ?i)"])
      show "insert_edges_sorted crc W src ds = Some (Inl (VertexOutOfRange src (ds ! ?i)), W)"
        using dst e i by (simp add: insert_edges_sorted_def Let_def nth_opt_Some)
      show "batch_done W T src ds (Inl (VertexOutOfRange src (ds ! ?i))) W T" by (simp add: batch_done_def)
    qed (use dst i bad ex in \<open>auto simp: not_less\<close>)
  next
    case ok
    have bd: "\<forall>d\<in>set ds. unat d < ?nv"
      using ssorted_last_max [OF ds] ok(3) by (meson le_less_trans unat_mono word_le_nat_alt)
    then have nr: "\<not> (?nv \<le> ?s \<or> (\<exists>d\<in>set ds. ?nv \<le> unat d))" using ok(2) by force
    obtain d0 ds' where e: "ds = d0 # ds'" using ok(1) by (cases ds) auto
    show ?thesis
    proof (cases "wr_wal_failed W")
      case True
      show ?thesis
      proof (rule none [of WalAppend])
        show "insert_edges_sorted crc W src ds = Some (Inl WalAppend, W)"
          using True ok e by (simp add: insert_edges_sorted_def check_wal_def Let_def)
        show "batch_done W T src ds (Inl WalAppend) W T" using True by (simp add: batch_done_def)
      qed (use nr in auto)
    next
      case False
      note f = writer_wf_forest [OF wf]
      have nv: "?nv < 2 ^ 32 - 1" using wf by (simp add: writer_wf_def Let_def)
      have tr: "\<lparr>ct_root = root_word (T ?s)\<rparr> = tree_root (T ?s)" by (simp add: tree_root_def)
      have ft: "fits (T ?s) ds" by (rule fits [OF ok(2)])
      have run: "insert_edges_sorted crc W src ds =
          (if prefer_path_copy (length (nbrs (T ?s))) (length ds)
           then insert_sorted_by_path_copy crc W src (tree_root (T ?s)) ds
           else insert_sorted_by_rebuild crc W src (tree_root (T ?s)) ds)"
        using ok False unfolding e insert_edges_sorted_def
        by (simp add: check_wal_def Let_def writer_wf_root [OF wf ok(2)] tr forest_read(1) [OF f nv ok(2)])
      have pk: ?thesis if r: "insert_edges_sorted crc W src ds = Some (r, W')" and p: "batch_post H crc W T src ds r W' T'"
        and e: "\<forall>e. r = Inl e \<longrightarrow> e = InsArenaFull \<or> e = WalAppend" for r W' T'
        using r p e nr by (intro exI [of _ r] exI [of _ W'] exI [of _ T']) auto
      show ?thesis
      proof (cases "prefer_path_copy (length (nbrs (T ?s))) (length ds)")
        case pp: True
        have h: "hgt (T ?s) + length ds \<le> MAX_DEPTH" using ft pp by (simp add: fits_def)
        obtain r W' T' where c: "insert_sorted_by_path_copy crc W src (tree_root (T ?s)) ds = Some (r, W')"
          and p: "batch_post H crc W T src ds r W' T'"
          using path_copy_ok [OF wf ok(2) ssorted_distinct [OF ds] bd h, of crc] unfolding batch_post_def by blast
        show ?thesis by (rule pk [OF _ p]) (use run pp c path_copy_errors [of crc W src "tree_root (T ?s)" ds] in \<open>auto simp: no_range_def\<close>)
      next
        case pp: False
        have h: "hgt (T ?s) \<le> MAX_DEPTH" using ft by (simp add: fits_def)
        obtain r W' T' where c: "insert_sorted_by_rebuild crc W src (tree_root (T ?s)) ds = Some (r, W')"
          and p: "batch_post H crc W T src ds r W' T'"
          using rebuild_ok [OF wf ok(2) ds bd h, of crc] batch_postI by blast
        show ?thesis by (rule pk [OF _ p]) (use run pp c rebuild_errors [of crc W src "tree_root (T ?s)" ds] in \<open>auto simp: no_range_def\<close>)
      qed
    qed
  qed
qed

subsection \<open>What every insert leaves\<close>

text \<open>
  \<open>grew W T W' T'\<close>: the edge set grew; the counter of pending edges, the dirty marks, the touched
  leaves of the root table and the write-ahead log have exactly what the new edges ask for; nothing else of
  the graph changed. It composes, so it holds of every sequence of inserts under one guard.
\<close>

definition edge_of :: "edge_record \<Rightarrow> nat \<times> nat" where
  "edge_of r = (unat (er_src r), unat (er_dst r))"

definition grew :: "(bytes \<Rightarrow> u32) \<Rightarrow> writer \<Rightarrow> (nat \<Rightarrow> shape option) \<Rightarrow> writer \<Rightarrow> (nat \<Rightarrow> shape option) \<Rightarrow> bool" where
  "grew crc W T W' T' \<longleftrightarrow> core W' = core W \<and>
     (let nv = dg_num_vertices (wr_graph W); new = edges_of nv T' - edges_of nv T in
      edges_of nv T \<subseteq> edges_of nv T' \<and> finite new \<and>
      (\<forall>v<nv. v \<notin> fst ` new \<longrightarrow> T' v = T v) \<and>
      wr_pending_edges W' = wr_pending_edges W + card new \<and>
      marks W' = marks W \<union> fst ` new \<union> snd ` new \<and>
      unat ` set (ws_touched (wr_scratch W')) = unat ` set (ws_touched (wr_scratch W)) \<union> (\<lambda>s. s div 256) ` fst ` new \<and>
      (\<forall>rs. logged crc W rs \<longrightarrow> (\<exists>recs. logged crc W' (rs @ recs) \<and> distinct recs \<and> edge_of ` set recs = new)))"

lemma grew_refl_still:
  assumes "still W W'" and "\<And>rs. logged crc W rs \<Longrightarrow> logged crc W' rs"
  shows "grew crc W T W' T"
  using assms still_marks [OF assms(1)] unfolding grew_def Let_def
  by (auto simp: still_def intro!: exI [of _ "[] :: edge_record list"])

lemma finite_edges_of: "finite (edges_of nv T)"
proof -
  have "edges_of nv T \<subseteq> (SIGMA s:{..<nv}. unat ` set (nbrs (T s)))" by (auto simp: edges_of_def)
  then show ?thesis by (rule finite_subset) auto
qed

lemma core_nv: "core W' = core W \<Longrightarrow> dg_num_vertices (wr_graph W') = dg_num_vertices (wr_graph W)"
  by (simp add: core_def Let_def)

lemma edge_of_inj: "edge_of a = edge_of b \<longleftrightarrow> a = (b :: edge_record)"
  by (cases a; cases b) (simp add: edge_of_def word_unat_eq_iff)

lemma grew_trans:
  assumes a: "grew crc W T W1 T1" and b: "grew crc W1 T1 W2 T2"
  shows "grew crc W T W2 T2"
proof -
  let ?nv = "dg_num_vertices (wr_graph W)"
  have nv: "dg_num_vertices (wr_graph W1) = ?nv" using a core_nv unfolding grew_def by blast
  define n1 n2 n where "n1 = edges_of ?nv T1 - edges_of ?nv T" and "n2 = edges_of ?nv T2 - edges_of ?nv T1"
    and "n = edges_of ?nv T2 - edges_of ?nv T"
  have A: "core W1 = core W" "edges_of ?nv T \<subseteq> edges_of ?nv T1" "finite n1" "\<forall>v<?nv. v \<notin> fst ` n1 \<longrightarrow> T1 v = T v"
    "wr_pending_edges W1 = wr_pending_edges W + card n1" "marks W1 = marks W \<union> fst ` n1 \<union> snd ` n1"
    "unat ` set (ws_touched (wr_scratch W1)) = unat ` set (ws_touched (wr_scratch W)) \<union> (\<lambda>s. s div 256) ` fst ` n1"
    "\<forall>rs. logged crc W rs \<longrightarrow> (\<exists>recs. logged crc W1 (rs @ recs) \<and> distinct recs \<and> edge_of ` set recs = n1)"
    using a unfolding grew_def Let_def n1_def by simp_all
  have B: "core W2 = core W1" "edges_of ?nv T1 \<subseteq> edges_of ?nv T2" "finite n2" "\<forall>v<?nv. v \<notin> fst ` n2 \<longrightarrow> T2 v = T1 v"
    "wr_pending_edges W2 = wr_pending_edges W1 + card n2" "marks W2 = marks W1 \<union> fst ` n2 \<union> snd ` n2"
    "unat ` set (ws_touched (wr_scratch W2)) = unat ` set (ws_touched (wr_scratch W1)) \<union> (\<lambda>s. s div 256) ` fst ` n2"
    "\<forall>rs. logged crc W1 rs \<longrightarrow> (\<exists>recs. logged crc W2 (rs @ recs) \<and> distinct recs \<and> edge_of ` set recs = n2)"
    using b unfolding grew_def Let_def nv n2_def by simp_all
  have n: "n = n1 \<union> n2" "n1 \<inter> n2 = {}" using A(2) B(2) unfolding n_def n1_def n2_def by blast+
  have lg: "\<exists>recs. logged crc W2 (rs @ recs) \<and> distinct recs \<and> edge_of ` set recs = n" if "logged crc W rs" for rs
  proof -
    obtain r1 where r1: "logged crc W1 (rs @ r1)" "distinct r1" "edge_of ` set r1 = n1" using A(8) \<open>logged crc W rs\<close> by blast
    obtain r2 where r2: "logged crc W2 ((rs @ r1) @ r2)" "distinct r2" "edge_of ` set r2 = n2" using B(8) r1(1) by blast
    have "set r1 \<inter> set r2 = {}" using r1(3) r2(3) n(2) by blast
    then show ?thesis using r1 r2 n(1) by (intro exI [of _ "r1 @ r2"]) (simp add: image_Un)
  qed
  show ?thesis
    unfolding grew_def Let_def n_def [symmetric]
  proof (intro conjI)
    show "\<forall>v<?nv. v \<notin> fst ` n \<longrightarrow> T2 v = T v" using A(4) B(4) unfolding n(1) image_Un by auto
    show "wr_pending_edges W2 = wr_pending_edges W + card n"
      using A(3,5) B(3,5) card_Un_disjoint [OF A(3) B(3) n(2)] n(1) by simp
    show "marks W2 = marks W \<union> fst ` n \<union> snd ` n" unfolding B(6) A(6) n(1) image_Un by blast
    show "unat ` set (ws_touched (wr_scratch W2)) = unat ` set (ws_touched (wr_scratch W)) \<union> (\<lambda>s. s div 256) ` fst ` n"
      unfolding B(7) A(7) n(1) image_Un by blast
    show "\<forall>rs. logged crc W rs \<longrightarrow> (\<exists>recs. logged crc W2 (rs @ recs) \<and> distinct recs \<and> edge_of ` set recs = n)"
      using lg by blast
  qed (use A B n in auto)
qed

text \<open>One source's tree replaced by one with more elements.\<close>

lemma edges_of_upd:
  assumes "s < nv" and "set (nbrs t') = set (nbrs (T s)) \<union> D"
  shows "edges_of nv (T(s := t')) - edges_of nv T = {s} \<times> unat ` (D - set (nbrs (T s)))"
    and "edges_of nv T \<subseteq> edges_of nv (T(s := t'))"
proof -
  have inj: "unat x = unat y \<Longrightarrow> x = (y :: u32)" for x y by (simp add: word_unat_eq_iff)
  show "edges_of nv T \<subseteq> edges_of nv (T(s := t'))" using assms by (auto simp: edges_of_def split: if_splits)
  show "edges_of nv (T(s := t')) - edges_of nv T = {s} \<times> unat ` (D - set (nbrs (T s)))"
  proof (rule set_eqI)
    fix e :: "nat \<times> nat"
    obtain a d where e: "e = (a, d)" by fastforce
    show "e \<in> edges_of nv (T(s := t')) - edges_of nv T \<longleftrightarrow> e \<in> {s} \<times> unat ` (D - set (nbrs (T s)))"
    proof (cases "a = s")
      case True
      then show ?thesis using assms inj unfolding e by (auto simp: edges_of_def dest!: inj)
    next
      case False
      then show ?thesis unfolding e by (simp add: edges_of_def)
    qed
  qed
qed

lemma unat_leaf_of: "unat (leaf_of src) = unat src div 256"
  unfolding leaf_of_def LEAF_BITS_def unat_drop_bit_eq by (simp add: drop_bit_eq_div)

lemma grew_one_source:
  assumes s: "unat src < dg_num_vertices (wr_graph W)" and c: "core W' = core W"
    and t': "set (nbrs t') = set (nbrs (T (unat src))) \<union> D" and new: "set new = D - set (nbrs (T (unat src)))" "distinct new" "new \<noteq> []"
    and p: "wr_pending_edges W' = wr_pending_edges W + length new"
    and m: "marks W' = marks W \<union> unat ` set (src # new)"
    and tl: "set (ws_touched (wr_scratch W')) = insert (leaf_of src) (set (ws_touched (wr_scratch W)))"
    and lg: "\<And>rs. logged crc W rs \<Longrightarrow> logged crc W' (rs @ records src new)"
  shows "grew crc W T W' (T(unat src := t'))"
proof -
  let ?n = "{unat src} \<times> unat ` set new"
  have e: "edges_of (dg_num_vertices (wr_graph W)) (T(unat src := t')) - edges_of (dg_num_vertices (wr_graph W)) T = ?n"
    using edges_of_upd(1) [where T = T, OF s t'] new(1) by simp
  have inj: "inj_on unat (set new)" by (rule inj_onI) (simp add: word_unat_eq_iff)
  have r: "distinct (records src new)" "edge_of ` set (records src new) = ?n"
    using new(2) by (auto simp: records_def distinct_map edge_of_def inj_on_def image_image)
  have "card ?n = length new" using card_image [OF inj] distinct_card [OF new(2)] by (simp add: card_cartesian_product)
  moreover have "fst ` ?n = {unat src}" "snd ` ?n = unat ` set new" using new(3) by (auto simp: image_iff)
  moreover have "\<exists>recs. logged crc W' (rs @ recs) \<and> distinct recs \<and> edge_of ` set recs = ?n" if "logged crc W rs" for rs
    using lg [OF that] r by (intro exI [of _ "records src new"]) simp
  ultimately show ?thesis
    unfolding grew_def Let_def e using c edges_of_upd(2) [where T = T, OF s t'] p m tl by (auto simp: unat_leaf_of)
qed

lemma edge_done_grew:
  assumes ed: "edge_done W T src dst r W' T'" and s: "unat src < dg_num_vertices (wr_graph W) \<or> r \<noteq> Inr True"
    and lg: "\<And>rs. logged crc W rs \<Longrightarrow> logged crc W' (if r = Inr True then rs @ records src [dst] else rs)"
  shows "grew crc W T W' T'"
proof (cases "r = Inr True")
  case True
  then obtain t' where t': "T' = T(unat src := Some t')" "set (elems t') = insert dst (set (nbrs (T (unat src))))"
    and d: "dst \<notin> set (nbrs (T (unat src)))" "core W' = core W" "wr_pending_edges W' = wr_pending_edges W + 1"
      "marks W' = marks W \<union> {unat src, unat dst}"
      "set (ws_touched (wr_scratch W')) = insert (leaf_of src) (set (ws_touched (wr_scratch W)))"
    using ed by (auto simp: edge_done_def)
  show ?thesis unfolding t'(1)
    by (rule grew_one_source [where new = "[dst]" and D = "{dst}"]) (use True s t' d lg in auto)
next
  case False
  then have "still W W'" "T' = T" using ed by (simp_all add: edge_done_def)
  then show ?thesis using grew_refl_still lg False by simp
qed

lemma batch_done_grew:
  assumes bd: "batch_done W T src ds r W' T'" and ds: "distinct ds"
    and s: "unat src < dg_num_vertices (wr_graph W) \<or> ds = [] \<or> (\<exists>e. r = Inl e)"
    and lg: "batch_logged crc W (T (unat src)) src ds r W'"
  shows "grew crc W T W' T'"
proof (cases r)
  case (Inl e)
  then have "still W W'" "T' = T" using bd by (simp_all add: batch_done_def Let_def)
  then show ?thesis using grew_refl_still lg Inl by (simp add: batch_logged_def)
next
  case (Inr n)
  let ?new = "fresh_dsts (T (unat src)) ds"
  show ?thesis
  proof (cases "?new = []")
    case True
    then have "still W W'" "T' = T" using bd Inr by (simp_all add: batch_done_def Let_def)
    then show ?thesis using grew_refl_still lg Inr True by (simp add: batch_logged_def)
  next
    case False
    then have s': "unat src < dg_num_vertices (wr_graph W)" using s Inr by (auto simp: fresh_dsts_def)
    from bd Inr False have n: "n = length ?new" and core: "core W' = core W"
      and pm: "wr_pending_edges W' = wr_pending_edges W + n" "marks W' = marks W \<union> unat ` set (src # ?new)"
        "set (ws_touched (wr_scratch W')) = insert (leaf_of src) (set (ws_touched (wr_scratch W)))"
      and ex: "\<exists>t'. T' = T(unat src := t') \<and> set (nbrs t') = set (nbrs (T (unat src))) \<union> set ds"
      by (auto simp: batch_done_def Let_def)
    from ex obtain t' where t': "T' = T(unat src := t')" "set (nbrs t') = set (nbrs (T (unat src))) \<union> set ds" by blast
    have "set ?new = set ds - set (nbrs (T (unat src)))" "distinct ?new" using ds by (auto simp: fresh_dsts_def)
    then show ?thesis unfolding t'(1)
      by (rule grew_one_source [where T = T, OF s' core t'(2) _ _ False]) (use n pm lg Inr in \<open>auto simp: batch_logged_def\<close>)
  qed
qed

subsection \<open>Batches of several sources\<close>

definition sound :: "held \<Rightarrow> writer \<Rightarrow> (nat \<Rightarrow> shape option) \<Rightarrow> bool" where
  "sound H W T \<longleftrightarrow> (\<exists>Lc Li. writer_wf H W T Lc Li)"

definition pair_nat :: "u32 \<times> u32 \<Rightarrow> nat \<times> nat" where
  "pair_nat e = (unat (fst e), unat (snd e))"

definition dsts_of :: "(u32 \<times> u32) list \<Rightarrow> u32 \<Rightarrow> u32 list" where
  "dsts_of es s = sorted_list_of_set {d. (s, d) \<in> set es}"

lemma finite_dsts: "finite {d. (s, d) \<in> set es}"
  by (rule finite_subset [of _ "snd ` set es"]) (auto intro: rev_image_eqI)

lemma dsts_of_ok: "ssorted (dsts_of es s)" "set (dsts_of es s) = {d. (s, d) \<in> set es}"
  unfolding dsts_of_def using finite_dsts by (simp_all add: strict_sorted_list_of_set)

lemma ssorted_remdups_adj: "sorted xs \<Longrightarrow> ssorted (remdups_adj xs)"
  by (induction xs rule: remdups_adj.induct) (auto simp: less_le dest: order_trans)

text \<open>The run of the first source of a sorted batch.\<close>

lemma first_run:
  assumes "sorted es" and "es = e # rest"
  defines "run \<equiv> takeWhile (\<lambda>x. fst x = fst e) es" and "rst \<equiv> dropWhile (\<lambda>x. fst x = fst e) es"
  shows "es = run @ rst" and "remdups_adj (map snd run) = dsts_of es (fst e)" and "sorted rst"
    and "\<And>x. x \<in> set rst \<Longrightarrow> fst x \<noteq> fst e" and "set run = {x \<in> set es. fst x = fst e}"
    and "\<And>s. s \<noteq> fst e \<Longrightarrow> dsts_of rst s = dsts_of es s" and "length rst < length es"
proof -
  have f: "sorted (map fst es)" using assms(1) unfolding sorted_map
    by (rule sorted_wrt_mono_rel [rotated]) (auto simp: less_eq_prod_def less_imp_le)
  note sp = sorted_partition [OF f assms(2)]
  have tk: "run = take (partition_point (\<lambda>x. fst x = fst e) es) es" and dk: "rst = drop (partition_point (\<lambda>x. fst x = fst e) es) es"
    unfolding run_def rst_def partition_point_def by (rule takeWhile_eq_take, rule dropWhile_eq_drop)
  show split: "es = run @ rst" unfolding run_def rst_def by simp
  show sr: "set run = {x \<in> set es. fst x = fst e}" unfolding tk by (rule sp(1))
  have sd: "set rst = {x \<in> set es. fst x \<noteq> fst e}" unfolding dk by (rule sp(2))
  then show "fst x \<noteq> fst e" if "x \<in> set rst" for x using that by blast
  show "sorted rst" unfolding dk using assms(1) by (rule sorted_wrt_drop)
  have "sorted run" unfolding tk using assms(1) by (rule sorted_wrt_take)
  then have "sorted_wrt (\<lambda>a b. snd a \<le> snd b) run"
    by (rule sorted_wrt_mono_rel [rotated]) (simp add: sr less_eq_prod_def)
  then have "ssorted (remdups_adj (map snd run))" by (simp add: sorted_map ssorted_remdups_adj)
  moreover have "set (remdups_adj (map snd run)) = set (dsts_of es (fst e))"
    unfolding dsts_of_ok(2) remdups_adj_set set_map sr by (auto intro: rev_image_eqI)
  ultimately show "remdups_adj (map snd run) = dsts_of es (fst e)" using ssorted_set_eq dsts_of_ok(1) by blast
  show "dsts_of rst s = dsts_of es s" if "s \<noteq> fst e" for s using that sd by (simp add: dsts_of_def)
  show "length rst < length es" using assms(2) unfolding rst_def by (simp add: length_dropWhile_le le_imp_less_Suc)
qed

definition batch_fits :: "(nat \<Rightarrow> shape option) \<Rightarrow> (u32 \<times> u32) list \<Rightarrow> bool" where
  "batch_fits T es \<longleftrightarrow> (\<forall>s\<in>fst ` set es. fits (T (unat s)) (dsts_of es s))"

definition in_range :: "nat \<Rightarrow> u32 \<times> u32 \<Rightarrow> bool" where
  "in_range nv e \<longleftrightarrow> unat (fst e) < nv \<and> unat (snd e) < nv"

definition runs_post :: "held \<Rightarrow> (bytes \<Rightarrow> u32) \<Rightarrow> writer \<Rightarrow> (nat \<Rightarrow> shape option) \<Rightarrow> (u32 \<times> u32) list \<Rightarrow> nat \<Rightarrow> insert_error + nat \<Rightarrow> writer
    \<Rightarrow> (nat \<Rightarrow> shape option) \<Rightarrow> bool" where
  "runs_post H crc W T es n r W' T' \<longleftrightarrow> grew crc W T W' T' \<and>
     (let nv = dg_num_vertices (wr_graph W) in case r of
        Inr m \<Rightarrow> sound H W' T' \<and> edges_of nv T' = edges_of nv T \<union> pair_nat ` set es \<and>
          m = n + card (pair_nat ` set es - edges_of nv T) \<and> wr_wal_failed W' = wr_wal_failed W
      | Inl e \<Rightarrow> (e = InsArenaFull \<or> e = WalAppend \<and> wr_wal_failed W') \<and> sound H (set_log W' retire_log_new) T' \<and>
          (\<exists>k. edges_of nv T' = edges_of nv T \<union> pair_nat ` set (take k es)))"

lemma edges_after_batch:
  assumes "batch_done W T src ds (Inr n) W' T'" and "unat src < nv" and "distinct ds"
  shows "edges_of nv T' = edges_of nv T \<union> Pair (unat src) ` unat ` set ds"
    and "n = card (Pair (unat src) ` unat ` set ds - edges_of nv T)"
    and "\<And>v. v \<noteq> unat src \<Longrightarrow> T' v = T v"
proof -
  let ?new = "fresh_dsts (T (unat src)) ds"
  have inj: "unat x = unat y \<Longrightarrow> x = (y :: u32)" for x y by (simp add: word_unat_eq_iff)
  have n: "n = length ?new" using assms(1) by (simp add: batch_done_def Let_def)
  have "Pair (unat src) ` unat ` set ds - edges_of nv T = Pair (unat src) ` unat ` set ?new"
    using assms(2) inj by (auto simp: edges_of_def fresh_dsts_def image_iff dest!: inj) (metis inj)
  moreover have "inj_on unat (set ?new)" "inj_on (Pair (unat src)) (unat ` set ?new)"
    using inj by (auto intro!: inj_onI)
  moreover have "distinct ?new" using assms(3) by (simp add: fresh_dsts_def)
  ultimately show "n = card (Pair (unat src) ` unat ` set ds - edges_of nv T)"
    using n by (simp add: card_image distinct_card)
  have c: "(?new = [] \<and> T' = T) \<or> (\<exists>t'. T' = T(unat src := t') \<and> set (nbrs t') = set (nbrs (T (unat src))) \<union> set ds)"
    using assms(1) by (auto simp: batch_done_def Let_def split: if_splits)
  then show "T' v = T v" if "v \<noteq> unat src" for v using that by auto
  from c show "edges_of nv T' = edges_of nv T \<union> Pair (unat src) ` unat ` set ds"
  proof (elim disjE conjE exE)
    assume "?new = []" "T' = T"
    then show ?thesis using assms(2) by (auto simp: edges_of_def fresh_dsts_def filter_empty_conv)
  next
    fix t'
    assume "T' = T(unat src := t')" "set (nbrs t') = set (nbrs (T (unat src))) \<union> set ds"
    then show ?thesis using assms(2) by (auto simp: edges_of_def split: if_splits)
  qed
qed

lemma insert_runs_ok:
  assumes "writer_wf H W T Lc Li" and "sorted es" and "\<forall>e\<in>set es. in_range (dg_num_vertices (wr_graph W)) e" and "batch_fits T es"
  shows "\<exists>r W' T'. insert_runs crc W es n = Some (r, W') \<and> runs_post H crc W T es n r W' T'"
  using assms
proof (induction "length es" arbitrary: W T Lc Li es n rule: less_induct)
  case less
  let ?nv = "dg_num_vertices (wr_graph W)"
  show ?case
  proof (cases es)
    case Nil
    have "grew crc W T W T" by (rule grew_refl_still) simp_all
    then have "runs_post H crc W T es n (Inr n) W T" using less.prems(1) Nil by (auto simp: runs_post_def sound_def)
    then show ?thesis using Nil by auto
  next
    case (Cons e rest)
    let ?run = "takeWhile (\<lambda>x. fst x = fst e) es" and ?rst = "dropWhile (\<lambda>x. fst x = fst e) es"
    let ?s = "fst e" and ?ds = "dsts_of es (fst e)"
    note fr = first_run [OF less.prems(2) Cons]
    have sv: "unat ?s < ?nv" using less.prems(3) Cons by (simp add: in_range_def)
    have dv: "\<forall>d\<in>set ?ds. unat d < ?nv" using less.prems(3) by (force simp: dsts_of_ok(2) in_range_def)
    have ft: "fits (T (unat ?s)) ?ds" using less.prems(4) Cons by (simp add: batch_fits_def)
    obtain r1 W1 T1 where i1: "insert_edges_sorted crc W ?s ?ds = Some (r1, W1)" "batch_post H crc W T ?s ?ds r1 W1 T1"
      "\<forall>s d. r1 \<noteq> Inl (VertexOutOfRange s d)"
    proof -
      have nr: "\<not> (?nv \<le> unat ?s \<or> (\<exists>d\<in>set ?ds. ?nv \<le> unat d))" using sv dv by (simp add: not_le)
      show thesis using insert_edges_sorted_ok [OF less.prems(1) dsts_of_ok(1) ft, of crc] nr that by blast
    qed
    have run: "insert_runs crc W es n = (case r1 of Inl err \<Rightarrow> Some (Inl err, W1) | Inr m \<Rightarrow> insert_runs crc W1 ?rst (n + m))"
      using i1(1) fr(2) unfolding Cons by (cases r1) (simp_all add: Let_def)
    have P: "batch_done W T ?s ?ds r1 W1 T1" "batch_logged crc W (T (unat ?s)) ?s ?ds r1 W1"
      "\<forall>n. r1 = Inr n \<longrightarrow> sound H W1 T1" "sound H (set_log W1 retire_log_new) T1"
      using i1(2) by (simp_all add: batch_post_def sound_def)
    have g1: "grew crc W T W1 T1" by (rule batch_done_grew [OF P(1) ssorted_distinct [OF dsts_of_ok(1)] _ P(2)]) (use sv in simp)
    have nv1: "dg_num_vertices (wr_graph W1) = ?nv" using g1 core_nv unfolding grew_def by blast
    have E: "Pair (unat ?s) ` unat ` set ?ds = pair_nat ` set ?run"
      unfolding fr(5) dsts_of_ok(2) by (force simp: pair_nat_def)
    show ?thesis
    proof (cases r1)
      case (Inl err)
      then have e: "err = InsArenaFull \<or> err = WalAppend \<and> wr_wal_failed W1" "T1 = T"
        using i1(3) P(1) by (cases err; simp add: batch_done_def Let_def)+
      have "runs_post H crc W T es n (Inl err) W1 T1"
        unfolding runs_post_def Let_def using g1 e P(4) by (auto intro: exI [of _ 0])
      then show ?thesis using run Inl by auto
    next
      case (Inr m)
      note ea = edges_after_batch [OF P(1) [unfolded Inr] sv ssorted_distinct [OF dsts_of_ok(1)], unfolded E]
      obtain Lc1 Li1 where wf1: "writer_wf H W1 T1 Lc1 Li1" using P(3) Inr by (auto simp: sound_def)
      have r1: "\<forall>e\<in>set ?rst. in_range (dg_num_vertices (wr_graph W1)) e"
        using less.prems(3) unfolding nv1 by (metis set_dropWhileD)
      have bf: "batch_fits T1 ?rst" unfolding batch_fits_def
      proof
        fix s
        assume s: "s \<in> fst ` set ?rst"
        then obtain x where x: "x \<in> set ?rst" "s = fst x" by blast
        have ne: "s \<noteq> ?s" unfolding x(2) by (rule fr(4) [OF x(1)])
        have "s \<in> fst ` set es" unfolding x(2) using set_dropWhileD [OF x(1)] by simp
        then have "fits (T (unat s)) (dsts_of es s)" using less.prems(4) unfolding batch_fits_def by blast
        moreover have "unat s \<noteq> unat ?s" using ne by (simp add: word_unat_eq_iff)
        ultimately show "fits (T1 (unat s)) (dsts_of ?rst s)" using ea(3) fr(6) [OF ne] by simp
      qed
      obtain r2 W2 T2 where i2: "insert_runs crc W1 ?rst (n + m) = Some (r2, W2)" "runs_post H crc W1 T1 ?rst (n + m) r2 W2 T2"
        using less.hyps [OF fr(7) wf1 fr(3) r1 bf] by blast
      have g: "grew crc W T W2 T2" using grew_trans [OF g1] i2(2) by (simp add: runs_post_def)
      have fl: "wr_wal_failed W1 = wr_wal_failed W" using P(1) Inr by (simp add: batch_done_def Let_def)
      have es: "pair_nat ` set es = pair_nat ` set ?run \<union> pair_nat ` set ?rst"
        by (subst (1) fr(1)) (simp only: set_append image_Un)
      have post: "runs_post H crc W T es n r2 W2 T2"
      proof (cases r2)
        case r2: (Inr k)
        have q: "sound H W2 T2" "edges_of ?nv T2 = edges_of ?nv T1 \<union> pair_nat ` set ?rst"
          "k = n + m + card (pair_nat ` set ?rst - edges_of ?nv T1)" "wr_wal_failed W2 = wr_wal_failed W1"
          using i2(2) r2 by (simp_all add: runs_post_def nv1 Let_def)
        have "pair_nat ` set es - edges_of ?nv T = (pair_nat ` set ?run - edges_of ?nv T) \<union> (pair_nat ` set ?rst - edges_of ?nv T1)"
          unfolding es ea(1) by blast
        moreover have "(pair_nat ` set ?run - edges_of ?nv T) \<inter> (pair_nat ` set ?rst - edges_of ?nv T1) = {}" unfolding ea(1) by blast
        ultimately have "card (pair_nat ` set es - edges_of ?nv T) = m + card (pair_nat ` set ?rst - edges_of ?nv T1)"
          unfolding ea(2) by (simp add: card_Un_disjoint)
        then show ?thesis unfolding runs_post_def Let_def r2 sum.case using g q es ea(1) fl by auto
      next
        case r2: (Inl err)
        obtain k where k: "edges_of ?nv T2 = edges_of ?nv T1 \<union> pair_nat ` set (take k ?rst)"
          using i2(2) r2 by (auto simp: runs_post_def nv1 Let_def)
        have "take (length ?run + k) es = ?run @ take k ?rst"
          by (subst (2) fr(1)) (simp only: take_append add_diff_cancel_left' take_all le_add1)
        then have "edges_of ?nv T2 = edges_of ?nv T \<union> pair_nat ` set (take (length ?run + k) es)"
          unfolding k ea(1) by (simp add: image_Un Un_assoc)
        then show ?thesis using i2(2) g unfolding runs_post_def Let_def r2 sum.case by blast
      qed
      show ?thesis using run Inr i2(1) post by auto
    qed
  qed
qed

end
