(* ===== verification/Stale_Marks.thy ===== *)
theory Stale_Marks
  imports Writer_Batch
begin

section \<open>A failed batch that recycles live slots\<close>

text \<open>
  The consequence of the marks that \<^verbatim>\<open>insert_sorted_by_path_copy\<close> takes once, before its
  first pass (\<^verbatim>\<open>writer.rs\<close>), evaluated step by step through the public operations. The arena
  holds 448 bytes. Vertex 0 has the neighbours 1 to 44 (three leaves, two interiors, built by the first
  batch); three edges of vertex 1 leave two superseded leaves in the retire log. The batch 45, 46 for
  vertex 0 then takes the chained path with the marks (2, 0): the first pass finds the arena full, the
  log is stamped and its two slots come back, the second pass copies the last leaf's path for 45,
  logging the leaf in slot 2, and runs out of slots at 46. The truncation to two entries keeps slot 2
  in the log although the published tree still reads it. The drop of the guard frees it, and the
  next guard's first edge of vertex 2 is written over the leaf with the neighbours 31 to 44.
\<close>

lemma lanes: "[0..<15] = [0,1,2,3,4,5,6,7,8,9,10,11,12,13,14]"
  by (simp add: upt_conv_Cons)

lemma empty_lanes: "chunk_empty = \<lparr>ch_count = 0, ch_data = [0,0,0,0,0,0,0,0,0,0,0,0,0,0,0]\<rparr>"
  by (simp add: chunk_empty_def CHUNK_CAP_def numeral_eq_Suc)

lemmas chunk_eval = chunk_from_sorted_def chunk_from_sorted_unchecked_def assert_opt_def CHUNK_CAP_def empty_lanes chunk_insert_def chunk_search_def lanes
  search_lane_def slice_opt_def chunk_len_def chunk_is_full_def

lemma singleton_chunk: "chunk_from_sorted [x] = Some \<lparr>ch_count = 1, ch_data = [x,0,0,0,0,0,0,0,0,0,0,0,0,0,0]\<rparr>"
  by (simp add: chunk_eval)

lemma chunk_1_15: "chunk_from_sorted_unchecked [1,2,3,4,5,6,7,8,9,10,11,12,13,14,15] = Some \<lparr>ch_count = 15, ch_data = [1,2,3,4,5,6,7,8,9,10,11,12,13,14,15]\<rparr>"
  by (simp add: chunk_eval)

lemma chunk_16_30: "chunk_from_sorted_unchecked [16,17,18,19,20,21,22,23,24,25,26,27,28,29,30] = Some \<lparr>ch_count = 15, ch_data = [16,17,18,19,20,21,22,23,24,25,26,27,28,29,30]\<rparr>"
  by (simp add: chunk_eval)

lemma chunk_31_44: "chunk_from_sorted_unchecked [31,32,33,34,35,36,37,38,39,40,41,42,43,44] = Some \<lparr>ch_count = 14, ch_data = [31,32,33,34,35,36,37,38,39,40,41,42,43,44,0]\<rparr>"
  by (simp add: chunk_eval)

lemma insert_2_3: "chunk_insert \<lparr>ch_count = 1, ch_data = [2,0,0,0,0,0,0,0,0,0,0,0,0,0,0]\<rparr> 3 = Some (Some \<lparr>ch_count = 2, ch_data = [2,3,0,0,0,0,0,0,0,0,0,0,0,0,0]\<rparr>)"
  by (simp add: chunk_eval)

lemma insert_23_4: "chunk_insert \<lparr>ch_count = 2, ch_data = [2,3,0,0,0,0,0,0,0,0,0,0,0,0,0]\<rparr> 4 = Some (Some \<lparr>ch_count = 3, ch_data = [2,3,4,0,0,0,0,0,0,0,0,0,0,0,0]\<rparr>)"
  by (simp add: chunk_eval)

lemma insert_31_44_45: "chunk_insert \<lparr>ch_count = 14, ch_data = [31,32,33,34,35,36,37,38,39,40,41,42,43,44,0]\<rparr> 45 = Some (Some \<lparr>ch_count = 15, ch_data = [31,32,33,34,35,36,37,38,39,40,41,42,43,44,45]\<rparr>)"
  by (simp add: chunk_eval)

lemma advance_idle: "gate_advance (gate_new\<lparr>g_phase := p\<rparr>) = gate_new\<lparr>g_phase := p + 2\<rparr>"
  by (simp add: gate_advance_def gate_bucket_empty_def gate_new_def numeral_eq_Suc stripe_get_def)

lemma advance_from_0: "gate_advance gate_new = gate_new\<lparr>g_phase := 2\<rparr>"
  using advance_idle [of 0] by (simp add: gate_new_def)

lemmas edge_eval = graph_new_def graph_new_with_epoch_def arena_new_def MAX_CAPACITY_def INTERIOR_SLOT_def writer_or_panic_def graph_writer_def Let_def
   insert_edge_def insert_edge_inner_def insert_with_scratch_def nth_opt_def singleton_chunk insert_2_3 insert_23_4 insert_31_44_45 alloc_write_chunk_def alloc_chunk_def pop_free_chunk_def bump_chunk_def
    recycler_new_def CHUNK_SLOT_def check_wal_def set_log_def set_arena_def guard_append_def store_root_def set_opt_def note_root_store_def LEAF_BITS_def
    scratch_new_def note_dirty_def maybe_stamp_retired_def log_wants_flush_def RETIRE_LOG_CAP_def retire_log_new_def DIRTY_BUF_FLUSH_THRESHOLD_def TOUCHED_LEAVES_DEDUP_START_def arena_mk_writer_def
    descend.simps node_at_def is_leaf_def INTERIOR_BIT_def arena_chunk_def subtree_size_def chunk_len_def insert_leaf_def chunk_is_full_def CHUNK_CAP_def NULL_OFF_def ilog2.simps assert_opt_def

definition hub_batch :: "u32 list" where "hub_batch = [1,2,3,4,5,6,7,8,9,10,11,12,13,14,15,16,17,18,19,20,21,22,23,24,25,26,27,28,29,30,31,32,33,34,35,36,37,38,39,40,41,42,43,44]"

lemma batch_length: "length hub_batch = 44" by (simp add: hub_batch_def)

lemma build_batch: "build_balanced alloc_write_chunk alloc_write_interior A hub_batch = try_some (alloc_write_chunk A \<lparr>ch_count = 15, ch_data = [1,2,3,4,5,6,7,8,9,10,11,12,13,14,15]\<rparr>) (\<lambda>l A. try_some (try_some (alloc_write_chunk A \<lparr>ch_count = 15, ch_data = [16,17,18,19,20,21,22,23,24,25,26,27,28,29,30]\<rparr>) (\<lambda>l A. try_some (alloc_write_chunk A \<lparr>ch_count = 14, ch_data = [31,32,33,34,35,36,37,38,39,40,41,42,43,44,0]\<rparr>) (\<lambda>r A. 
   try_some (alloc_write_interior A \<lparr>in_left = l, in_right = r, in_count = 29, in_key = 31\<rparr>) (\<lambda>i A. Some (Some (tag_interior i), A))))) (\<lambda>r A. 
   try_some (alloc_write_interior A \<lparr>in_left = l, in_right = r, in_count = 44, in_key = 16\<rparr>) (\<lambda>i A. Some (Some (tag_interior i), A))))"
  by (simp add: build_balanced.simps hub_batch_def CHUNK_CAP_def chunk_1_15 chunk_16_30 chunk_31_44 nth_opt_def Let_def)

definition leaf0 :: chunk where "leaf0 = \<lparr>ch_count = 15, ch_data = [1,2,3,4,5,6,7,8,9,10,11,12,13,14,15]\<rparr>"

definition leaf1 :: chunk where "leaf1 = \<lparr>ch_count = 15, ch_data = [16,17,18,19,20,21,22,23,24,25,26,27,28,29,30]\<rparr>"

definition leaf2 :: chunk where "leaf2 = \<lparr>ch_count = 14, ch_data = [31,32,33,34,35,36,37,38,39,40,41,42,43,44,0]\<rparr>"

definition leaf3 :: chunk where "leaf3 = \<lparr>ch_count = 1, ch_data = [2,0,0,0,0,0,0,0,0,0,0,0,0,0,0]\<rparr>"

definition leaf4 :: chunk where "leaf4 = \<lparr>ch_count = 2, ch_data = [2,3,0,0,0,0,0,0,0,0,0,0,0,0,0]\<rparr>"

definition leaf5 :: chunk where "leaf5 = \<lparr>ch_count = 3, ch_data = [2,3,4,0,0,0,0,0,0,0,0,0,0,0,0]\<rparr>"

definition arena0 :: arena where "arena0 = \<lparr>ar_capacity = 448, ar_low = 384, ar_high = 416, ar_gate = gate_new, ar_pins = pins_register pins_new 0, ar_rec = recycler_new,
  ar_chunks = [0 \<mapsto> Node leaf0, 1 \<mapsto> Node leaf1, 2 \<mapsto> Node leaf2, 3 \<mapsto> Node leaf3, 4 \<mapsto> Node leaf4, 5 \<mapsto> Node leaf5],
  ar_interiors = [0 \<mapsto> Node \<lparr>in_left = 1, in_right = 2, in_count = 29, in_key = 31\<rparr>, 1 \<mapsto> Node \<lparr>in_left = 0, in_right = 0x80000000, in_count = 44, in_key = 16\<rparr>]\<rparr>"

definition guard1 :: writer where "guard1 = \<lparr>wr_graph = \<lparr>dg_roots = (replicate 64 NULL_OFF)[0 := 0x80000001, 1 := 5], dg_arena = arena0, dg_registry = 1, dg_num_vertices = 64, dg_num_edges = 0, dg_dirty = dirty_new 64,
   dg_locked = True, dg_poisoned = False, dg_epoch = clock_new, dg_latest = empty_snapshot 64 1 (clock_current clock_new), dg_scratch = scratch_new, dg_wal = None\<rparr>,
   wr_arena = \<lparr>aw_young_chunk = 0, aw_young_interior = 0\<rparr>, wr_retire_stamp = 1, wr_scratch = \<lparr>ws_new_dsts = hub_batch, ws_dirty = hub_batch @ [0,1,2,1,3,1,4], ws_touched = [0], ws_log = \<lparr>rl_chunks = [3,4], rl_interiors = []\<rparr>\<rparr>,
   wr_pending_edges = 47, wr_dedup_limit = 1024, wr_wal_failed = False\<rparr>"

lemma batch_not_Nil: "hub_batch \<noteq> []" by (simp add: hub_batch_def)

lemma batch_last: "last hub_batch = 44" by (simp add: hub_batch_def)

lemma batch_merge: "merge_new [] hub_batch [] [] = (hub_batch, hub_batch)" by (simp add: hub_batch_def)

lemma note_all_short: "length (ws_dirty (wr_scratch W)) + length ds < 8192 \<Longrightarrow> note_all_dirty W ds = Some (W\<lparr>wr_scratch := (wr_scratch W)\<lparr>ws_dirty := ws_dirty (wr_scratch W) @ ds\<rparr>\<rparr>)"
  by (induction ds arbitrary: W) (simp_all add: note_dirty_def DIRTY_BUF_FLUSH_THRESHOLD_def)

lemma rebuild_first: "prefer_path_copy 0 44 = False"
  by (simp add: prefer_path_copy_def CHUNK_CAP_def div_ceil_def ilog2.simps [of "Suc 0"])

lemma tags: "tag_interior 0 = 0x80000000" "tag_interior 1 = 0x80000001" by (simp_all add: tag_interior_def INTERIOR_BIT_def)

lemma batch_case: "(case hub_batch of [] \<Rightarrow> a | x # xs \<Rightarrow> f x) = f 1" by (simp add: hub_batch_def)

definition guard0 :: writer where "guard0 = \<lparr>wr_graph = \<lparr>dg_roots = (replicate 64 NULL_OFF)[0 := 0x80000001], dg_arena = arena0\<lparr>ar_low := 192, ar_chunks := [0 \<mapsto> Node leaf0, 1 \<mapsto> Node leaf1, 2 \<mapsto> Node leaf2]\<rparr>, dg_registry = 1, dg_num_vertices = 64, dg_num_edges = 0, dg_dirty = dirty_new 64,
   dg_locked = True, dg_poisoned = False, dg_epoch = clock_new, dg_latest = empty_snapshot 64 1 (clock_current clock_new), dg_scratch = scratch_new, dg_wal = None\<rparr>,
   wr_arena = \<lparr>aw_young_chunk = 0, aw_young_interior = 0\<rparr>, wr_retire_stamp = 1, wr_scratch = \<lparr>ws_new_dsts = hub_batch, ws_dirty = hub_batch @ [0], ws_touched = [0], ws_log = \<lparr>rl_chunks = [], rl_interiors = []\<rparr>\<rparr>,
   wr_pending_edges = 44, wr_dedup_limit = 1024, wr_wal_failed = False\<rparr>"

lemma run_batch: "do { G \<leftarrow> graph_new 64 448 1; W \<leftarrow> writer_or_panic G; (r,W) \<leftarrow> insert_edges_sorted crc W 0 hub_batch;  Some (W)} = Some guard0"
  apply (simp add: edge_eval insert_edges_sorted_def batch_last batch_length rebuild_first ctree_count_def batch_case insert_sorted_by_rebuild_def collect_into_def for_each_chunk_def
    set_new_dsts_def batch_not_Nil batch_merge ctree_from_sorted_def build_batch append_batch_def publish_batch_def note_all_short alloc_write_interior_def alloc_interior_def pop_free_interior_def bump_interior_def tags del: One_nat_def)
  apply (simp add: guard0_def arena0_def leaf0_def leaf1_def leaf2_def NULL_OFF_def clock_current_def clock_new_def scratch_new_def recycler_new_def retire_log_new_def)
  done

lemma run_edges: "do { (r, W) \<leftarrow> insert_edge crc guard0 1 2; (r,W) \<leftarrow> insert_edge crc W 1 3; (r,W) \<leftarrow> insert_edge crc W 1 4;  Some W} = Some guard1"
  apply (simp add: edge_eval guard0_def arena0_def NO_SLOT_def batch_length ilog2.simps [of 2] ilog2.simps [of 3] ilog2.simps [of 1]  leaf0_def leaf1_def leaf2_def del: One_nat_def ilog2.simps)
  apply (simp add: guard1_def arena0_def leaf0_def leaf1_def leaf2_def leaf3_def leaf4_def leaf5_def NULL_OFF_def clock_current_def clock_new_def scratch_new_def recycler_new_def retire_log_new_def NO_SLOT_def)
  done

definition leaf6 :: chunk where "leaf6 = \<lparr>ch_count = 15, ch_data = [31,32,33,34,35,36,37,38,39,40,41,42,43,44,45]\<rparr>"

definition leaf7 :: chunk where "leaf7 = \<lparr>ch_count = 7, ch_data = [31,32,33,34,35,36,37,0,0,0,0,0,0,0,0]\<rparr>"

lemma split_full: "chunk_split \<lparr>ch_count = 15, ch_data = [31,32,33,34,35,36,37,38,39,40,41,42,43,44,45]\<rparr> = Some (\<lparr>ch_count = 7, ch_data = [31,32,33,34,35,36,37,0,0,0,0,0,0,0,0]\<rparr>, \<lparr>ch_count = 8, ch_data = [38,39,40,41,42,43,44,45,0,0,0,0,0,0,0]\<rparr>)"
  by (simp add: chunk_eval chunk_split_def)

lemma insert_38_45_46: "chunk_insert \<lparr>ch_count = 8, ch_data = [38,39,40,41,42,43,44,45,0,0,0,0,0,0,0]\<rparr> 46 = Some (Some \<lparr>ch_count = 9, ch_data = [38,39,40,41,42,43,44,45,46,0,0,0,0,0,0]\<rparr>)"
  by (simp add: chunk_eval)

definition arena1 :: arena where "arena1 = arena0\<lparr>ar_gate := gate_new\<lparr>g_phase := 2\<rparr>, ar_rec := recycler_new\<lparr>rc_chunk_head := 4, rc_free_chunks := 2, rc_spare := [batch_empty, batch_empty, batch_empty, batch_empty\<lparr>pb_stamp := 1, pb_grace := 2\<rparr>]\<rparr>, ar_chunks := (ar_chunks arena0)(3 \<mapsto> Link NO_SLOT, 4 \<mapsto> Link 3)\<rparr>"

definition arena2 :: arena where "arena2 = arena1\<lparr>ar_high := 384, ar_rec := recycler_new\<lparr>rc_chunk_head := 3, rc_free_chunks := 1, rc_spare := [batch_empty, batch_empty, batch_empty, batch_empty\<lparr>pb_stamp := 1, pb_grace := 2\<rparr>]\<rparr>, ar_chunks := (ar_chunks arena1)(4 \<mapsto> Node leaf6),
  ar_interiors := (ar_interiors arena0)(2 \<mapsto> Node \<lparr>in_left = 1, in_right = 4, in_count = 30, in_key = 31\<rparr>, 3 \<mapsto> Node \<lparr>in_left = 0, in_right = 0x80000002, in_count = 45, in_key = 16\<rparr>)\<rparr>"

definition arena3 :: arena where "arena3 = arena2\<lparr>ar_rec := recycler_new\<lparr>rc_spare := [batch_empty, batch_empty, batch_empty, batch_empty\<lparr>pb_stamp := 1, pb_grace := 2\<rparr>]\<rparr>, ar_chunks := (ar_chunks arena2)(3 \<mapsto> Node leaf7)\<rparr>"

lemmas leaf_defs = leaf0_def leaf1_def leaf2_def leaf3_def leaf4_def leaf5_def leaf6_def leaf7_def

lemmas path_eval = edge_eval leaf_defs MAX_DEPTH_def arena_interior_def strip_tag_def NO_SLOT_def reclaim_ready_def alloc_write_interior_def alloc_interior_def pop_free_interior_def bump_interior_def tag_interior_def

lemma first_pass: "insert_with_scratch \<lparr>ct_root = 0x80000001\<rparr> arena0 45 log = Some (ArenaFull, arena0, log)"
  by (simp add: path_eval arena0_def)

lemma replicate_4: "replicate 4 x = [x,x,x,x]" by (simp add: numeral_eq_Suc)

lemma phase_new: "g_phase gate_new = 0" by (simp add: gate_new_def)

lemma stamp_log: "arena_retire \<lparr>aw_young_chunk = 0, aw_young_interior = 0\<rparr> arena0 \<lparr>rl_chunks = [3,4], rl_interiors = []\<rparr> 1 = (retire_log_new, arena1)"
  by (simp add: arena1_def arena0_def arena_retire_def take_spare_def recycler_new_def phase_new replicate_4 Let_def
    SPARE_BATCHES_def enqueue_def reclaim_ready_def batch_empty_def NO_SLOT_def advance_from_0 batch_len_def free_batch_def free_chunk_def write_link_def return_spare_def retire_log_new_def)

lemma second_pass_45: "insert_with_scratch \<lparr>ct_root = 0x80000001\<rparr> arena1 45 retire_log_new = Some (Inserted \<lparr>ct_root = 0x80000003\<rparr>, arena2, \<lparr>rl_chunks = [2], rl_interiors = [1,0]\<rparr>)"
  apply (simp add: path_eval arena0_def arena1_def read_link_def interior_at_def ilog2.simps [of 45] ilog2.simps [of 22] del: ilog2.simps)
  apply (simp add: arena2_def arena1_def arena0_def leaf_defs NO_SLOT_def recycler_new_def)
  done

lemma second_pass_46: "insert_with_scratch \<lparr>ct_root = 0x80000003\<rparr> arena2 46 log = Some (ArenaFull, arena3, log)"
  apply (simp add: path_eval arena0_def arena1_def arena2_def read_link_def interior_at_def split_full insert_38_45_46 chunk_min_def)
  apply (simp add: arena3_def arena2_def arena1_def arena0_def leaf_defs NO_SLOT_def recycler_new_def)
  done

definition guard2 :: writer where "guard2 = guard1\<lparr>wr_graph := (wr_graph guard1)\<lparr>dg_arena := arena3\<rparr>, wr_scratch := (wr_scratch guard1)\<lparr>ws_new_dsts := [45], ws_log := \<lparr>rl_chunks = [2], rl_interiors = []\<rparr>\<rparr>\<rparr>"

lemma path_copy_second: "prefer_path_copy 44 2"
  by (simp add: prefer_path_copy_def CHUNK_CAP_def div_ceil_def ilog2.simps [of 3] ilog2.simps [of "Suc 0"])

lemma hub_count: "ctree_count \<lparr>ct_root = 0x80000001\<rparr> arena0 = Some 44"
  by (simp add: ctree_count_def subtree_size_def node_at_def is_leaf_def INTERIOR_BIT_def arena_interior_def arena0_def strip_tag_def NULL_OFF_def)

lemma path_copy_fails: "insert_sorted_by_path_copy crc guard1 0 \<lparr>ct_root = 0x80000001\<rparr> [45,46] = Some (Inl InsArenaFull, guard2)"
proof -
  have f: "wr_store guard1 = arena0" "wr_log guard1 = \<lparr>rl_chunks = [3,4], rl_interiors = []\<rparr>" "wr_retire_stamp guard1 = 1" by (simp_all add: guard1_def)
  define g1a where "g1a = guard1\<lparr>wr_scratch := (wr_scratch guard1)\<lparr>ws_new_dsts := []\<rparr>\<rparr>"
  have a: "chain_pass guard1 \<lparr>ct_root = 0x80000001\<rparr> [45,46] 2 0 = Some (None, g1a)"
    unfolding chain_pass_def f by (simp add: first_pass set_new_dsts_def set_log_def set_arena_def log_truncate_def guard1_def g1a_def del: One_nat_def)
  define g1b where "g1b = g1a\<lparr>wr_graph := (wr_graph guard1)\<lparr>dg_arena := arena1\<rparr>, wr_scratch := (wr_scratch g1a)\<lparr>ws_log := retire_log_new\<rparr>\<rparr>"
  have g: "wr_arena g1a = \<lparr>aw_young_chunk = 0, aw_young_interior = 0\<rparr>" "wr_store g1a = arena0" "wr_log g1a = \<lparr>rl_chunks = [3,4], rl_interiors = []\<rparr>" "wr_retire_stamp g1a = 1"
    by (simp_all add: g1a_def guard1_def)
  have b: "writer_retire g1a (wr_retire_stamp g1a) = g1b"
    unfolding writer_retire_def g stamp_log by (simp add: set_log_def set_arena_def g1b_def g1a_def)
  have h: "wr_store g1b = arena1" "wr_log g1b = retire_log_new" by (simp_all add: g1b_def)
  have c: "chain_pass g1b \<lparr>ct_root = 0x80000001\<rparr> [45,46] 2 0 = Some (None, guard2)"
    unfolding chain_pass_def h by (simp add: second_pass_45 second_pass_46 set_new_dsts_def set_log_def set_arena_def log_truncate_def g1b_def guard2_def g1a_def guard1_def)
  have d: "length (rl_chunks (wr_log guard1)) = 2" "length (rl_interiors (wr_log guard1)) = 0" by (simp_all add: f)
  show ?thesis unfolding insert_sorted_by_path_copy_def d Let_def a by (simp add: b c)
qed

lemma run_failing: "insert_edges_sorted crc guard1 0 [45, 46] = Some (Inl InsArenaFull, guard2)"
proof -
  have f: "wr_store guard1 = arena0" "dg_num_vertices (wr_graph guard1) = 64" "check_wal guard1 = Inr ()" "nth_opt (dg_roots (wr_graph guard1)) (unat 0) = Some 0x80000001"
    by (simp_all add: guard1_def check_wal_def nth_opt_def)
  show ?thesis unfolding insert_edges_sorted_def list.case Let_def f by (simp add: f hub_count path_copy_second path_copy_fails numeral_2_eq_2 [symmetric])
qed

definition arena4 :: arena where "arena4 = arena3\<lparr>ar_pins := \<lparr>pr_pins = [(1,1)], pr_min = 1\<rparr>, ar_gate := gate_new\<lparr>g_phase := 4\<rparr>,
  ar_rec := recycler_new\<lparr>rc_chunk_head := 2, rc_free_chunks := 1, rc_spare := [batch_empty, batch_empty, batch_empty, batch_empty\<lparr>pb_stamp := 1, pb_grace := 4\<rparr>]\<rparr>, ar_chunks := (ar_chunks arena3)(2 \<mapsto> Link NO_SLOT)\<rparr>"

lemma pin_handover: "pins_release (pins_register (pins_register pins_new 0) 1) 0 = Some \<lparr>pr_pins = [(1,1)], pr_min = 1\<rparr>"
  by (simp add: pins_release_def pins_register_def pins_new_def pins_search_def pins_first_def)

lemma advance_from_2: "gate_advance (gate_new\<lparr>g_phase := 2\<rparr>) = gate_new\<lparr>g_phase := 4\<rparr>"
  using advance_idle [of 2] by simp

lemma stamp_live: "arena_retire \<lparr>aw_young_chunk = 0, aw_young_interior = 0\<rparr> (arena3\<lparr>ar_pins := \<lparr>pr_pins = [(1,1)], pr_min = 1\<rparr>\<rparr>) \<lparr>rl_chunks = [2], rl_interiors = []\<rparr> 1 = (retire_log_new, arena4)"
  by (simp add: arena4_def arena3_def arena2_def arena1_def arena0_def arena_retire_def take_spare_def recycler_new_def phase_new replicate_4 Let_def
    SPARE_BATCHES_def enqueue_def reclaim_ready_def batch_empty_def NO_SLOT_def advance_from_2 batch_len_def free_batch_def free_chunk_def write_link_def return_spare_def retire_log_new_def)

lemma nothing_ready: "arena_reclaim arena4 = arena4"
  by (simp add: arena_reclaim_def reclaim_ready_def arena4_def recycler_new_def)

lemma run_drop: "\<exists>G. writer_drop False guard2 = Some G \<and> dg_arena G = arena4 \<and> dg_roots G = dg_roots (wr_graph guard2) \<and> \<not> dg_poisoned G \<and> \<not> dg_locked G \<and>
   dg_num_vertices G = 64 \<and> dg_wal G = None \<and> dirty_wf (dg_dirty G) \<and> ws_log (dg_scratch G) = retire_log_new"
proof -
  obtain b where b: "mark_sorted (dirty_new 64) (remdups_adj (sort (ws_dirty (wr_scratch guard2)))) = Some b" "dirty_wf b"
    using mark_sorted_ok [of "dirty_new 64" "remdups_adj (sort (ws_dirty (wr_scratch guard2)))"] dirty_new_wf [of 64] by (auto simp: sorted_remdups_adj)
  have len: "length (dg_roots (wr_graph guard2)) = 64" by (simp add: guard2_def guard1_def)
  obtain t where t: "with_leaves (rt_empty 64) [0] (dg_roots (wr_graph guard2)) = Some t"
    using with_leaves_ok [of "dg_roots (wr_graph guard2)" "rt_empty 64" "[0]"] len rt_empty_wf by fastforce
  have f: "dg_wal (wr_graph guard2) = None" "wr_wal_failed guard2 = False" "0 < wr_pending_edges guard2" "dg_dirty (wr_graph guard2) = dirty_new 64"
    "ws_dirty (wr_scratch guard2) \<noteq> []" "ws_touched (wr_scratch guard2) = [0]" "dg_latest (wr_graph guard2) = empty_snapshot 64 1 0"
    "dg_registry (wr_graph guard2) = 1" "dg_epoch (wr_graph guard2) = 0" "wr_store guard2 = arena3" "wr_arena guard2 = \<lparr>aw_young_chunk = 0, aw_young_interior = 0\<rparr>"
    "wr_log guard2 = \<lparr>rl_chunks = [2], rl_interiors = []\<rparr>" "dg_poisoned (wr_graph guard2) = False" "dg_num_vertices (wr_graph guard2) = 64"
    by (simp_all add: guard2_def guard1_def clock_current_def clock_new_def)
  define V5 where "V5 = guard2\<lparr>wr_graph := (wr_graph guard2)\<lparr>dg_num_edges := dg_num_edges (wr_graph guard2) + wr_pending_edges guard2, dg_dirty := b\<rparr>, wr_pending_edges := 0,
    wr_scratch := (wr_scratch guard2)\<lparr>ws_dirty := []\<rparr>\<rparr>"
  have 1: "flush_bookkeeping guard2 = Some V5"
    using f(3,5) b(1) f(4) by (simp add: flush_bookkeeping_def flush_dirty_def V5_def Let_def)
  have g: "ws_touched (wr_scratch V5) = [0]" "dg_latest (wr_graph V5) = empty_snapshot 64 1 0" "dg_roots (wr_graph V5) = dg_roots (wr_graph guard2)"
    "dg_registry (wr_graph V5) = 1" "dg_epoch (wr_graph V5) = 0" "wr_store V5 = arena3" "wr_arena V5 = \<lparr>aw_young_chunk = 0, aw_young_interior = 0\<rparr>"
    "wr_log V5 = \<lparr>rl_chunks = [2], rl_interiors = []\<rparr>" "dg_poisoned (wr_graph V5) = False" "dg_num_vertices (wr_graph V5) = 64" "dg_wal (wr_graph V5) = None" "dg_dirty (wr_graph V5) = b"
    using f by (simp_all add: V5_def)
  have 2: "build_table (wr_graph V5) [0] = Some t"
    using t by (simp add: build_table_def g empty_snapshot_def)
  have p6: "ar_pins arena3 = pins_register pins_new 0" by (simp add: arena3_def arena2_def arena1_def arena0_def)
  obtain G6 where 3: "publish_commit (wr_graph V5) (Some t) = Some (1, G6)" and
    g6: "dg_arena G6 = arena3\<lparr>ar_pins := \<lparr>pr_pins = [(1,1)], pr_min = 1\<rparr>\<rparr>" "dg_roots G6 = dg_roots (wr_graph guard2)" "\<not> dg_poisoned G6" "dg_num_vertices G6 = 64" "dg_wal G6 = None" "dg_dirty G6 = b"
    using pin_handover g by (simp add: publish_commit_def g clock_advance_def U64_MAX_def ticket_new_def snapshot_drop_def ticket_drop_def empty_snapshot_def p6 Let_def)
  define V6 where "V6 = V5\<lparr>wr_graph := G6\<rparr>"
  have h: "wr_arena V6 = \<lparr>aw_young_chunk = 0, aw_young_interior = 0\<rparr>" "wr_store V6 = arena3\<lparr>ar_pins := \<lparr>pr_pins = [(1,1)], pr_min = 1\<rparr>\<rparr>"
    "wr_log V6 = \<lparr>rl_chunks = [2], rl_interiors = []\<rparr>" by (simp_all add: V6_def g g6)
  have 4: "writer_retire V6 1 = set_log (set_arena V6 arena4) retire_log_new"
    unfolding writer_retire_def h stamp_live by simp
  have 5: "writer_commit guard2 = Some (set_arena (set_log (set_arena V6 arena4) retire_log_new) arena4)"
    unfolding writer_commit_def 1 by (simp add: g(1) 2 3 V6_def [symmetric] 4 nothing_ready set_arena_def set_log_def Let_def del: One_nat_def)
  have 6: "guard2\<lparr>wr_graph := (wr_graph guard2)\<lparr>dg_wal := None\<rparr>\<rparr> = guard2" by (simp add: guard2_def guard1_def)
  show ?thesis unfolding writer_drop_def using f(1,2) g6 b(2) by (simp add: 5 6 writer_release_def scratch_park_def retire_log_new_def set_arena_def set_log_def V6_def)
qed

definition leaf60 :: chunk where "leaf60 = \<lparr>ch_count = 1, ch_data = [60,0,0,0,0,0,0,0,0,0,0,0,0,0,0]\<rparr>"

definition arena5 :: arena where "arena5 = arena4\<lparr>ar_rec := (ar_rec arena4)\<lparr>rc_chunk_head := NO_SLOT, rc_free_chunks := 0\<rparr>, ar_chunks := (ar_chunks arena4)(2 \<mapsto> Node leaf60)\<rparr>"

lemma reuse_live: "insert_with_scratch \<lparr>ct_root = NULL_OFF\<rparr> arena4 60 log = Some (Inserted \<lparr>ct_root = 2\<rparr>, arena5, log)"
  by (simp add: edge_eval arena5_def arena4_def leaf60_def NO_SLOT_def read_link_def)

lemma run_next_guard: assumes "dg_arena G = arena4" "dg_roots G = dg_roots (wr_graph guard2)" "\<not> dg_poisoned G" "\<not> dg_locked G"
   "dg_num_vertices G = 64" "dg_wal G = None" "dirty_wf (dg_dirty G)" "ws_log (dg_scratch G) = retire_log_new"
  shows "\<exists>W W'. writer_or_panic G = Some W \<and> insert_edge crc W 2 60 = Some (Inr True, W') \<and> dg_arena (wr_graph W') = arena5 \<and> dg_roots (wr_graph W') = (dg_roots (wr_graph guard2))[2 := 2]"
proof -
  have r: "dg_roots (wr_graph guard2) = (replicate 64 NULL_OFF)[0 := 0x80000001, 1 := 5]" by (simp add: guard2_def guard1_def)
  obtain W where w: "writer_or_panic G = Some W" "wr_store W = arena4" "dg_roots (wr_graph W) = dg_roots (wr_graph guard2)" "dg_num_vertices (wr_graph W) = 64" "dg_wal (wr_graph W) = None" "\<not> wr_wal_failed W"
    "dirty_wf (dg_dirty (wr_graph W))" "wr_log W = retire_log_new"
    using assms by (simp add: writer_or_panic_def graph_writer_def Let_def)
  have root: "nth_opt (dg_roots (wr_graph W)) (unat (2 :: u32)) = Some NULL_OFF" by (simp add: w(3) r nth_opt_def)
  define W1 where "W1 = set_log (set_arena W arena5) retire_log_new"
  have w1: "unat (2 :: u32) < length (dg_roots (wr_graph W1))" "dirty_wf (dg_dirty (wr_graph W1))" "wr_store W1 = arena5" "dg_roots (wr_graph W1) = dg_roots (wr_graph guard2)" "wr_log W1 = retire_log_new"
    "dg_wal (wr_graph W1) = None"
    using w by (simp_all add: W1_def set_log_def set_arena_def r)
  obtain W2 where w2: "do { W \<leftarrow> store_root W1 2 \<lparr>ct_root = 2\<rparr>; let W = W\<lparr>wr_pending_edges := wr_pending_edges W + 1\<rparr>;
      W \<leftarrow> note_dirty W 2; W \<leftarrow> note_dirty W 60; Some (Inr True, maybe_stamp_retired W) } = Some (Inr True :: insert_error + bool, maybe_stamp_retired W2)"
    "published W1 2 2 1 [60] W2" using publish_edge_ok [OF w1(1,2), of "\<lparr>ct_root = 2\<rparr>" 60 "\<lambda>W. Some (Inr True, maybe_stamp_retired W)"] by auto
  note pf = published_fields [OF w2(2)]
  have st: "maybe_stamp_retired W2 = W2" using pf(4) w1(5) by (simp add: maybe_stamp_retired_def log_wants_flush_def retire_log_new_def RETIRE_LOG_CAP_def)
  have ga: "guard_append crc W1 2 [60] = (W1, Inr ())" by (simp add: guard_append_def w1(6))
  have "insert_edge_inner crc W 2 60 = Some (Inr True, W2)"
    unfolding insert_edge_inner_def root Let_def w(2,8) using w2(1) [unfolded Let_def st]
    by (simp add: reuse_live W1_def [symmetric] ga)
  then have "insert_edge crc W 2 60 = Some (Inr True, W2)" using w(4,6) by (simp add: insert_edge_def check_wal_def)
  then show ?thesis using w(1) pf(2,3) w1(3,4) by auto
qed

lemma edge_before: "has_edge (wr_graph guard1) 0 40 = Some True"
  by (simp add: has_edge_def tree_for_def ctree_contains_def guard1_def NULL_OFF_def contains_loop.simps [of _ _ "0x80000001"] contains_loop.simps [of _ _ "0x80000000"] contains_loop.simps [of _ _ 2] node_at_def
     is_leaf_def INTERIOR_BIT_def strip_tag_def arena_interior_def arena_chunk_def arena0_def chunk_contains_def chunk_eval leaf2_def)

lemma edge_after: assumes "dg_arena G = arena5" "dg_roots G = (dg_roots (wr_graph guard2))[2 := 2]"
  shows "has_edge G 0 40 = Some False"
  using assms by (simp add: has_edge_def tree_for_def ctree_contains_def guard1_def guard2_def NULL_OFF_def contains_loop.simps [of _ _ "0x80000001"] contains_loop.simps [of _ _ "0x80000000"] contains_loop.simps [of _ _ 2] node_at_def
     is_leaf_def INTERIOR_BIT_def strip_tag_def arena_interior_def arena_chunk_def arena5_def arena4_def arena3_def arena2_def arena1_def arena0_def chunk_contains_def chunk_eval leaf60_def)

text \<open>C32 A batch that fails with a full arena loses edges of the published graph: every call is public, the failing
  batch is reported as \<^verbatim>\<open>ArenaFull\<close>, the guard commits, and the first edge of the next guard makes
  the committed edge from 0 to 40 disappear.\<close>

theorem failed_batch_loses_edges:
  "\<exists>W V G W0 W'. do { G \<leftarrow> graph_new 64 448 1; W \<leftarrow> writer_or_panic G;
       (_, W) \<leftarrow> insert_edges_sorted crc W 0 hub_batch;
       (_, W) \<leftarrow> insert_edge crc W 1 2; (_, W) \<leftarrow> insert_edge crc W 1 3; (_, W) \<leftarrow> insert_edge crc W 1 4; Some W } = Some W \<and>
     has_edge (wr_graph W) 0 40 = Some True \<and>
     insert_edges_sorted crc W 0 [45, 46] = Some (Inl InsArenaFull, V) \<and>
     writer_drop False V = Some G \<and> writer_or_panic G = Some W0 \<and>
     insert_edge crc W0 2 60 = Some (Inr True, W') \<and> has_edge (wr_graph W') 0 40 = Some False"
proof -
  have a: "do { G \<leftarrow> graph_new 64 448 1; W \<leftarrow> writer_or_panic G;
       (_, W) \<leftarrow> insert_edges_sorted crc W 0 hub_batch;
       (_, W) \<leftarrow> insert_edge crc W 1 2; (_, W) \<leftarrow> insert_edge crc W 1 3; (_, W) \<leftarrow> insert_edge crc W 1 4; Some W } = Some guard1"
    using run_batch [of crc] run_edges [of crc] by (auto simp: bind_eq_Some_conv split: prod.splits)
  obtain G where g: "writer_drop False guard2 = Some G" "dg_arena G = arena4" "dg_roots G = dg_roots (wr_graph guard2)" "\<not> dg_poisoned G" "\<not> dg_locked G"
    "dg_num_vertices G = 64" "dg_wal G = None" "dirty_wf (dg_dirty G)" "ws_log (dg_scratch G) = retire_log_new" using run_drop by blast
  obtain W0 W' where w: "writer_or_panic G = Some W0" "insert_edge crc W0 2 60 = Some (Inr True, W')" "dg_arena (wr_graph W') = arena5"
    "dg_roots (wr_graph W') = (dg_roots (wr_graph guard2))[2 := 2]" using run_next_guard [OF g(2-9), of crc] by blast
  show ?thesis using a edge_before run_failing [of crc] g(1) w(1,2) edge_after [OF w(3,4)] by blast
qed
end
