(* ===== verification/Graph_Facts.thy ===== *)
theory Graph_Facts
  imports Writer_Edges
begin

section \<open>Snapshots of a graph, and what they read\<close>

text \<open>
  A view is a snapshot together with the trees it denotes. \<open>readable G S\<close>: every view of \<open>S\<close> has a
  well-formed root table that gives its trees' roots, its ticket is registered, and the slots of
  its trees are held: in use, or waiting for a later pin. \<open>graph_ok\<close> is the invariant between two
  guards, \<open>guard_at\<close> the one during a guard. The lemmas take a view through every operation on
  tickets, and a guard from its acquisition to its drop.
\<close>

subsection \<open>The nodes of a tree\<close>

fun chunk_nodes :: "shape \<Rightarrow> (u32 \<times> chunk) set" where
  "chunk_nodes (Lf i c) = {(i, c)}"
| "chunk_nodes (Nd i l k r) = chunk_nodes l \<union> chunk_nodes r"

fun interior_nodes :: "shape \<Rightarrow> (u32 \<times> interior) set" where
  "interior_nodes (Lf i c) = {}"
| "interior_nodes (Nd i l k r) = insert
     (i, \<lparr>in_left = root_off l, in_right = root_off r, in_count = of_nat (tsize l + tsize r), in_key = k\<rparr>)
     (interior_nodes l \<union> interior_nodes r)"

definition small :: "shape \<Rightarrow> bool" where
  "small t \<longleftrightarrow> (\<forall>i\<in>set (cslots t) \<union> set (islots t). unat i < 2 ^ 31 - 1)"

lemma stored_nodes:
  "stored_in ch it t \<longleftrightarrow> small t \<and> (\<forall>(i, c)\<in>chunk_nodes t. ch i = Some c) \<and> (\<forall>(i, n)\<in>interior_nodes t. it i = Some n)"
  by (induction t) (simp_all add: small_def ball_Un conj_ac)

lemma chunk_nodes_slots: "(i, c) \<in> chunk_nodes t \<Longrightarrow> i \<in> set (cslots t)"
  by (induction t) auto

lemma interior_nodes_slots: "(i, n) \<in> interior_nodes t \<Longrightarrow> i \<in> set (islots t)"
  by (induction t) auto

definition shape_ok :: "nat \<Rightarrow> shape option \<Rightarrow> bool" where
  "shape_ok nv t \<longleftrightarrow> (case t of None \<Rightarrow> True
     | Some t \<Rightarrow> wf_shape t \<and> (\<forall>x\<in>set (elems t). unat x < nv) \<and> small t)"

lemma tree_ok_shape: "tree_ok A nv t \<Longrightarrow> shape_ok nv t"
  by (cases t) (auto simp: shape_ok_def stored_nodes)

text \<open>What a tree with the slots it holds gives a reader; no slot has to be in use.\<close>

lemma tree_ok_read:
  assumes ok: "tree_ok A nv t" and nv: "nv < 2 ^ 32 - 1"
  shows "ctree_count (tree_root t) A = Some (length (nbrs t))"
    and "hgt t \<le> MAX_DEPTH \<Longrightarrow> collect_into (tree_root t) A buf = Some (buf @ nbrs t)"
    and "ctree_contains (tree_root t) A d = Some (d \<in> set (nbrs t))"
    and "hgt t \<le> MAX_DEPTH \<Longrightarrow> \<exists>cs. for_each_chunk (tree_root t) A = Some cs \<and> concat (map ch_elems cs) = nbrs t \<and>
      (\<forall>c\<in>set cs. wf_chunk c)"
    and "ssorted (nbrs t)"
proof -
  have z: "length (nbrs t) < 2 ^ 32" using tree_ok_size [OF ok] nv by simp
  have N: "tree_root None = \<lparr>ct_root = NULL_OFF\<rparr>" by (simp add: tree_root_def)
  have S: "tree_root (Some t) = \<lparr>ct_root = root_off t\<rparr>" for t by (simp add: tree_root_def)
  have all: "ctree_count (tree_root t) A = Some (length (nbrs t)) \<and> ctree_contains (tree_root t) A d = Some (d \<in> set (nbrs t)) \<and>
    (hgt t \<le> MAX_DEPTH \<longrightarrow> collect_into (tree_root t) A buf = Some (buf @ nbrs t) \<and>
      (\<exists>cs. for_each_chunk (tree_root t) A = Some cs \<and> concat (map ch_elems cs) = nbrs t \<and> (\<forall>c\<in>set cs. wf_chunk c)))"
  proof (cases t)
    case None
    then show ?thesis by (simp add: N ctree_count_def ctree_contains_def collect_into_def for_each_chunk_def)
  next
    case (Some s)
    then have st: "stored A s" "wf_shape s" "tsize s < 2 ^ 32" using ok z by simp_all
    have c: "ctree_count \<lparr>ct_root = root_off s\<rparr> A = Some (tsize s)"
      using root_off_not_NULL [OF st(1)] subtree_size_stored [OF st] by (simp add: ctree_count_def)
    moreover have "ctree_contains \<lparr>ct_root = root_off s\<rparr> A d = Some (d \<in> set (elems s))"
      using root_off_not_NULL [OF st(1)] contains_loop_stored [OF st(1,2)] by (simp add: ctree_contains_def)
    moreover have "collect_into \<lparr>ct_root = root_off s\<rparr> A buf = Some (buf @ elems s) \<and>
      (\<exists>cs. for_each_chunk \<lparr>ct_root = root_off s\<rparr> A = Some cs \<and> concat (map ch_elems cs) = elems s \<and> (\<forall>c\<in>set cs. wf_chunk c))"
      if "height s \<le> MAX_DEPTH"
      using c visit_chunks_stored [OF st(1) that] root_off_not_NULL [OF st(1)] extend_slices_chunks [OF st(2)]
        elems_chunks [of s] wf_chunks [OF st(2)]
      by (simp add: collect_into_def for_each_chunk_def)
    ultimately show ?thesis using Some by (simp add: S)
  qed
  then show "ctree_count (tree_root t) A = Some (length (nbrs t))"
    "ctree_contains (tree_root t) A d = Some (d \<in> set (nbrs t))"
    "hgt t \<le> MAX_DEPTH \<Longrightarrow> collect_into (tree_root t) A buf = Some (buf @ nbrs t)"
    "hgt t \<le> MAX_DEPTH \<Longrightarrow> \<exists>cs. for_each_chunk (tree_root t) A = Some cs \<and> concat (map ch_elems cs) = nbrs t \<and>
      (\<forall>c\<in>set cs. wf_chunk c)" by blast+
  show "ssorted (nbrs t)" using ok wf_ssorted by (cases t) auto
qed

subsection \<open>Views\<close>

type_synonym views = "(snapshot \<times> (nat \<Rightarrow> shape option)) list"

definition held_of :: "nat \<Rightarrow> pin_registry \<Rightarrow> views \<Rightarrow> held" where
  "held_of nv P S = \<lparr>
     h_chunks = {(i, c, e). \<exists>(s, U)\<in>set S. e = sn_epoch s \<and> (\<exists>v<nv. \<exists>t. U v = Some t \<and> (i, c) \<in> chunk_nodes t)},
     h_interiors = {(i, n, e). \<exists>(s, U)\<in>set S. e = sn_epoch s \<and> (\<exists>v<nv. \<exists>t. U v = Some t \<and> (i, n) \<in> interior_nodes t)},
     h_pins = P\<rparr>"

definition view_ok :: "dynamic_graph \<Rightarrow> snapshot \<Rightarrow> (nat \<Rightarrow> shape option) \<Rightarrow> bool" where
  "view_ok G s U \<longleftrightarrow>
     (let nv = dg_num_vertices G in
      tk_registry (sn_ticket s) = dg_registry G \<and> tk_epoch (sn_ticket s) = sn_epoch s \<and> sn_epoch s \<le> clock_current (dg_epoch G) \<and>
      sn_num_vertices s = nv \<and> sn_num_edges s = card (edges_of nv U) \<and> rt_wf nv (sn_table s) \<and>
      (\<forall>v<nv. rt_get (sn_table s) v = Some (root_word (U v)) \<and> shape_ok nv (U v)))"

definition views_ok :: "dynamic_graph \<Rightarrow> views \<Rightarrow> bool" where
  "views_ok G S \<longleftrightarrow> (\<forall>(s, U)\<in>set S. view_ok G s U) \<and> pins_wf (ar_pins (dg_arena G)) \<and>
     pins_pinned (ar_pins (dg_arena G)) = mset (map (\<lambda>(s, U). sn_epoch s) S)"

definition held_views :: "dynamic_graph \<Rightarrow> views \<Rightarrow> held" where
  "held_views G S = held_of (dg_num_vertices G) (ar_pins (dg_arena G)) S"

definition readable :: "dynamic_graph \<Rightarrow> views \<Rightarrow> bool" where
  "readable G S \<longleftrightarrow> dg_num_vertices G < 2 ^ 32 - 1 \<and> views_ok G S \<and> (\<exists>Lc Li. held_at (held_views G S) (dg_arena G) Lc Li)"

lemma held_of_sel [simp]:
  "h_pins (held_of nv P S) = P"
  "(i, c, e) \<in> h_chunks (held_of nv P S) \<longleftrightarrow>
     (\<exists>(s, U)\<in>set S. e = sn_epoch s \<and> (\<exists>v<nv. \<exists>t. U v = Some t \<and> (i, c) \<in> chunk_nodes t))"
  "(i, n, e) \<in> h_interiors (held_of nv P S) \<longleftrightarrow>
     (\<exists>(s, U)\<in>set S. e = sn_epoch s \<and> (\<exists>v<nv. \<exists>t. U v = Some t \<and> (i, n) \<in> interior_nodes t))"
  by (simp_all add: held_of_def)

lemma held_of_cons:
  "(i, c, e) \<in> h_chunks (held_of nv P ((s, U) # S)) \<longleftrightarrow>
     (e = sn_epoch s \<and> (\<exists>v<nv. \<exists>t. U v = Some t \<and> (i, c) \<in> chunk_nodes t)) \<or> (i, c, e) \<in> h_chunks (held_of nv P S)"
  "(i, n, e) \<in> h_interiors (held_of nv P ((s, U) # S)) \<longleftrightarrow>
     (e = sn_epoch s \<and> (\<exists>v<nv. \<exists>t. U v = Some t \<and> (i, n) \<in> interior_nodes t)) \<or> (i, n, e) \<in> h_interiors (held_of nv P S)"
  by simp_all

lemma views_min_pinned:
  assumes "views_ok G S" and "(s, U) \<in> set S"
  shows "pins_min_pinned (ar_pins (dg_arena G)) \<le> sn_epoch s"
proof -
  have p: "pins_wf (ar_pins (dg_arena G))" "pins_pinned (ar_pins (dg_arena G)) = mset (map (\<lambda>(s, U). sn_epoch s) S)"
    using assms(1) by (simp_all add: views_ok_def)
  have "sn_epoch s \<in> (\<lambda>(s, U). sn_epoch s) ` set S" using assms(2) by force
  then have "sn_epoch s \<in># pins_pinned (ar_pins (dg_arena G))" unfolding p(2) by simp
  then show ?thesis by (rule pins_min_wf(1) [OF p(1)])
qed

lemma held_tree_ok:
  assumes h: "held_at (held_of nv P S) A Lc Li" and m: "(s, U) \<in> set S" and v: "v < nv" and sh: "shape_ok nv (U v)"
  shows "tree_ok A nv (U v)"
proof (cases "U v")
  case (Some t)
  have "(i, c, sn_epoch s) \<in> h_chunks (held_of nv P S)" if "(i, c) \<in> chunk_nodes t" for i c
    unfolding held_of_sel using m v Some that by blast
  then have c: "\<forall>(i, c)\<in>chunk_nodes t. arena_chunk A i = Some c" using held_at_chunk [OF h] by blast
  have "(i, c, sn_epoch s) \<in> h_interiors (held_of nv P S)" if "(i, c) \<in> interior_nodes t" for i c
    unfolding held_of_sel using m v Some that by blast
  then have "\<forall>(i, c)\<in>interior_nodes t. arena_interior A i = Some c" using held_at_interior [OF h] by blast
  then show ?thesis using c sh Some by (simp add: stored_nodes shape_ok_def)
qed simp

lemma readable_tree_ok:
  assumes "readable G S" and "(s, U) \<in> set S" and "v < dg_num_vertices G"
  shows "tree_ok (dg_arena G) (dg_num_vertices G) (U v)"
  using assms held_tree_ok unfolding readable_def held_views_def views_ok_def view_ok_def Let_def by fast

lemma readable_view: "readable G S \<Longrightarrow> (s, U) \<in> set S \<Longrightarrow> view_ok G s U"
  unfolding readable_def views_ok_def by fast

text \<open>What a view's snapshot reads.\<close>

definition view_nbrs :: "nat \<Rightarrow> (nat \<Rightarrow> shape option) \<Rightarrow> u32 \<Rightarrow> u32 list" where
  "view_nbrs nv U v = (if unat v < nv then nbrs (U (unat v)) else [])"

lemma view_root:
  assumes "view_ok G s U"
  shows "snapshot_check s G = Some ()"
    and "snapshot_root_of s v = Some (if unat v < dg_num_vertices G then root_word (U (unat v)) else NULL_OFF)"
  using assms by (simp_all add: view_ok_def snapshot_check_def snapshot_root_of_def Let_def assert_opt_def)

lemma readable_reads:
  assumes r: "readable G S" and m: "(s, U) \<in> set S"
  shows "snapshot_has_edge s G v d = Some (d \<in> set (view_nbrs (dg_num_vertices G) U v))"
    and "snapshot_degree s G v = Some (length (view_nbrs (dg_num_vertices G) U v))"
    and "\<forall>v<dg_num_vertices G. hgt (U v) \<le> MAX_DEPTH \<Longrightarrow>
      snapshot_neighbors_into s G v = Some (view_nbrs (dg_num_vertices G) U v)"
proof -
  let ?nv = "dg_num_vertices G"
  have nv: "?nv < 2 ^ 32 - 1" using r by (simp add: readable_def)
  note vr = view_root [OF readable_view [OF r m]]
  define t where "t = (if unat v < ?nv then U (unat v) else None)"
  have tok: "tree_ok (dg_arena G) ?nv t" using readable_tree_ok [OF r m] by (simp add: t_def)
  have n: "nbrs t = view_nbrs ?nv U v" by (simp add: view_nbrs_def t_def)
  have rt: "snapshot_root_of s v = Some (root_word t)" using vr(2) by (simp add: t_def)
  note rd = tree_ok_read [OF tok nv, unfolded tree_root_def n]
  show "snapshot_has_edge s G v d = Some (d \<in> set (view_nbrs ?nv U v))"
    using rd(3) [of d] by (simp add: snapshot_has_edge_def rt vr(1))
  show "snapshot_degree s G v = Some (length (view_nbrs ?nv U v))"
    using rd(1) by (simp add: snapshot_degree_def rt vr(1))
  show "snapshot_neighbors_into s G v = Some (view_nbrs ?nv U v)" if "\<forall>v<?nv. hgt (U v) \<le> MAX_DEPTH"
  proof -
    have "hgt t \<le> MAX_DEPTH" using that by (simp add: MAX_DEPTH_def t_def)
    from rd(2) [OF this, of "[]"] show ?thesis by (simp add: snapshot_neighbors_into_def rt vr(1))
  qed
qed


subsection \<open>Compressed sparse rows\<close>

definition csr_of :: "(nat \<Rightarrow> 'a list) \<Rightarrow> nat list \<Rightarrow> nat list \<times> 'a list" where
  "csr_of f vs = (map (\<lambda>k. length (concat (map f (take k vs)))) [0..<Suc (length vs)], concat (map f vs))"

lemma csr_loop_ok:
  assumes "\<forall>v\<in>set vs. \<forall>buf. collect v buf = Some (buf @ f v)"
  shows "csr_loop collect vs offs edges =
    Some (offs @ map (\<lambda>k. length edges + length (concat (map f (take (Suc k) vs)))) [0..<length vs], edges @ concat (map f vs))"
  using assms
proof (induction vs arbitrary: offs edges)
  case (Cons v vs)
  have "[0..<length (v # vs)] = 0 # map Suc [0..<length vs]" by (simp add: upt_conv_Cons map_Suc_upt del: upt_Suc)
  then show ?case using Cons by (simp add: comp_def add.assoc del: upt_Suc)
qed simp

lemma csr_loop_start:
  assumes "\<forall>v\<in>set vs. \<forall>buf. collect v buf = Some (buf @ f v)"
  shows "csr_loop collect vs [0] [] = Some (csr_of f vs)"
proof -
  have "[0..<Suc (length vs)] = 0 # map Suc [0..<length vs]" by (simp add: upt_conv_Cons map_Suc_upt del: upt_Suc)
  then show ?thesis using csr_loop_ok [OF assms, of "[0]" "[]"] by (simp add: csr_of_def comp_def del: upt_Suc)
qed

lemma readable_csr:
  assumes r: "readable G S" and m: "(s, U) \<in> set S" and h: "\<forall>v<dg_num_vertices G. hgt (U v) \<le> MAX_DEPTH"
  shows "snapshot_csr s G = Some (csr_of (\<lambda>v. nbrs (U v)) [0..<dg_num_vertices G])"
proof -
  let ?nv = "dg_num_vertices G"
  have nv: "?nv < 2 ^ 32 - 1" using r by (simp add: readable_def)
  note vo = readable_view [OF r m]
  have one: "do { root \<leftarrow> snapshot_root_of s (of_nat v); cs \<leftarrow> for_each_chunk \<lparr>ct_root = root\<rparr> (dg_arena G); extend_slices buf cs }
      = Some (buf @ nbrs (U v))" if v: "v < ?nv" for v buf
  proof -
    have u: "unat (of_nat v :: u32) = v" using v nv by (simp add: unat_of_nat)
    have tok: "tree_ok (dg_arena G) ?nv (U v)" by (rule readable_tree_ok [OF r m v])
    obtain cs where cs: "for_each_chunk (tree_root (U v)) (dg_arena G) = Some cs" "concat (map ch_elems cs) = nbrs (U v)"
      "\<forall>c\<in>set cs. wf_chunk c" using tree_ok_read(4) [OF tok nv] h v by blast
    have "extend_slices buf cs = Some (buf @ concat (map ch_elems cs))" by (rule extend_slices_wf) (use cs(3) in blast)
    then show ?thesis using cs view_root(2) [OF vo, of "of_nat v"] v by (simp add: u tree_root_def)
  qed
  have "sn_num_vertices s = ?nv" using vo by (simp add: view_ok_def Let_def)
  then show ?thesis unfolding snapshot_csr_def using view_root(1) [OF vo] csr_loop_start [of "[0..<?nv]" _ "\<lambda>v. nbrs (U v)"] one by simp
qed

subsection \<open>Moving pins\<close>

definition repin :: "dynamic_graph \<Rightarrow> pin_registry \<Rightarrow> dynamic_graph" where
  "repin G P = G\<lparr>dg_arena := (dg_arena G)\<lparr>ar_pins := P\<rparr>\<rparr>"

lemma repin_sel [simp]:
  "dg_num_vertices (repin G P) = dg_num_vertices G" "dg_registry (repin G P) = dg_registry G" "dg_epoch (repin G P) = dg_epoch G"
  "dg_latest (repin G P) = dg_latest G" "dg_roots (repin G P) = dg_roots G" "dg_dirty (repin G P) = dg_dirty G"
  "dg_arena (repin G P) = (dg_arena G)\<lparr>ar_pins := P\<rparr>" "dg_num_edges (repin G P) = dg_num_edges G"
  "dg_scratch (repin G P) = dg_scratch G" "dg_locked (repin G P) = dg_locked G" "dg_poisoned (repin G P) = dg_poisoned G"
  "dg_wal (repin G P) = dg_wal G"
  by (simp_all add: repin_def)

lemma repin_view [simp]: "view_ok (repin G P) s U = view_ok G s U"
  by (simp add: view_ok_def)

lemma arena_inv_repin [simp]: "arena_inv (A\<lparr>ar_pins := P\<rparr>) Lc Li = arena_inv A Lc Li"
  by (simp add: arena_inv_def cursors_ok_def chunk_bound_def interior_bound_def)

lemma arena_repin_sel [simp]:
  "arena_chunk (A\<lparr>ar_pins := P\<rparr>) = arena_chunk A" "arena_interior (A\<lparr>ar_pins := P\<rparr>) = arena_interior A"
  by (simp_all add: arena_chunk_def arena_interior_def fun_eq_iff)

lemma held_atI:
  assumes "ar_pins A = h_pins H"
    and "\<And>i c e. (i, c, e) \<in> h_chunks H \<Longrightarrow> arena_chunk A i = Some c \<and> pins_min_pinned (h_pins H) \<le> e \<and>
      (i \<in> Lc \<or> waits pb_chunks (rc_old (ar_rec A)) (Suc e) 0 i)"
    and "\<And>i n e. (i, n, e) \<in> h_interiors H \<Longrightarrow> arena_interior A i = Some n \<and> pins_min_pinned (h_pins H) \<le> e \<and>
      (i \<in> Li \<or> waits pb_interiors (rc_old (ar_rec A)) (Suc e) 0 i)"
  shows "held_at H A Lc Li"
  unfolding held_at_def assms(1) using assms(1-3) by blast

lemma held_at_repin:
  assumes h: "held_at (held_of nv P S) A Lc Li" and sub: "set S' \<subseteq> set S" and p: "\<forall>(s, U)\<in>set S'. pins_min_pinned P' \<le> sn_epoch s"
  shows "held_at (held_of nv P' S') (A\<lparr>ar_pins := P'\<rparr>) Lc Li"
proof -
  have 1: "arena_chunk A i = Some c \<and> pins_min_pinned P' \<le> e \<and> (i \<in> Lc \<or> waits pb_chunks (rc_old (ar_rec A)) (Suc e) 0 i)"
    if "(i, c, e) \<in> h_chunks (held_of nv P' S')" for i c e
  proof -
    have "(i, c, e) \<in> h_chunks (held_of nv P S)" using that sub unfolding held_of_sel by blast
    moreover have "pins_min_pinned P' \<le> e" using that p unfolding held_of_sel by blast
    ultimately show ?thesis using held_at_chunk [OF h] by blast
  qed
  have 2: "arena_interior A i = Some c \<and> pins_min_pinned P' \<le> e \<and> (i \<in> Li \<or> waits pb_interiors (rc_old (ar_rec A)) (Suc e) 0 i)"
    if "(i, c, e) \<in> h_interiors (held_of nv P' S')" for i c e
  proof -
    have "(i, c, e) \<in> h_interiors (held_of nv P S)" using that sub unfolding held_of_sel by blast
    moreover have "pins_min_pinned P' \<le> e" using that p unfolding held_of_sel by blast
    ultimately show ?thesis using held_at_interior [OF h] by blast
  qed
  show ?thesis by (rule held_atI) (use 1 2 in \<open>simp_all del: held_of_sel(2,3)\<close>)
qed

lemma forest_repin:
  assumes f: "forest_at (held_of nv P S) A Lc Li nv' T log" and sub: "set S' \<subseteq> set S"
    and p: "\<forall>(s, U)\<in>set S'. pins_min_pinned P' \<le> sn_epoch s"
  shows "forest_at (held_of nv P' S') (A\<lparr>ar_pins := P'\<rparr>) Lc Li nv' T log"
proof -
  have "tree_ok (A\<lparr>ar_pins := P'\<rparr>) nv' t = tree_ok A nv' t" for t by (cases t) simp_all
  then show ?thesis using f held_at_repin [OF _ sub p, of nv P A Lc Li] by (simp add: forest_at_def)
qed

text \<open>The view of the trees that are published.\<close>

lemma forest_add_view:
  assumes f: "forest_at (held_of nv P S) A Lc Li nv T log" and p: "pins_min_pinned P \<le> sn_epoch s"
  shows "forest_at (held_of nv P ((s, T) # S)) A Lc Li nv T log"
proof -
  have h: "held_at (held_of nv P S) A Lc Li" using f by (simp add: forest_at_def)
  then have P: "ar_pins A = P" by (simp add: held_at_def)
  have t: "stored A t \<and> set (cslots t) \<subseteq> Lc \<and> set (islots t) \<subseteq> Li" if "v < nv" "T v = Some t" for v t
    using forest_tree_at(1) [OF f that] by (simp add: tree_at_def)
  have 1: "arena_chunk A i = Some c \<and> pins_min_pinned P \<le> e \<and> (i \<in> Lc \<or> waits pb_chunks (rc_old (ar_rec A)) (Suc e) 0 i)"
    if m: "(i, c, e) \<in> h_chunks (held_of nv P ((s, T) # S))" for i c e
  proof -
    consider v t where "e = sn_epoch s" "v < nv" "T v = Some t" "(i, c) \<in> chunk_nodes t" | "(i, c, e) \<in> h_chunks (held_of nv P S)"
      using m unfolding held_of_cons by blast
    then show ?thesis
    proof cases
      case 1
      then show ?thesis using t [OF 1(2,3)] chunk_nodes_slots [OF 1(4)] p unfolding stored_nodes by blast
    qed (use held_at_chunk [OF h] P in simp)
  qed
  have 2: "arena_interior A i = Some c \<and> pins_min_pinned P \<le> e \<and> (i \<in> Li \<or> waits pb_interiors (rc_old (ar_rec A)) (Suc e) 0 i)"
    if m: "(i, c, e) \<in> h_interiors (held_of nv P ((s, T) # S))" for i c e
  proof -
    consider v t where "e = sn_epoch s" "v < nv" "T v = Some t" "(i, c) \<in> interior_nodes t" | "(i, c, e) \<in> h_interiors (held_of nv P S)"
      using m unfolding held_of_cons by blast
    then show ?thesis
    proof cases
      case 1
      then show ?thesis using t [OF 1(2,3)] interior_nodes_slots [OF 1(4)] p unfolding stored_nodes by blast
    qed (use held_at_interior [OF h] P in simp)
  qed
  have "held_at (held_of nv P ((s, T) # S)) A Lc Li" by (rule held_atI) (use P 1 2 in \<open>simp_all del: held_of_sel(2,3)\<close>)
  then show ?thesis using f by (simp add: forest_at_def)
qed

end
