(* ===== verification/Graph_Session.thy ===== *)
theory Graph_Session
  imports Graph_Facts
begin

section \<open>Graphs between guards, and guards from acquisition to drop\<close>

text \<open>
  \<open>graph_ok G T S\<close> is the invariant of a graph no guard holds: its trees are \<open>T\<close>, the latest snapshot is the
  view of them, \<open>S\<close> are the views that callers hold. \<open>guard_ok\<close> is the invariant of a guard that was
  taken on \<open>G\<close>. Both are kept by acquiring, cloning and dropping snapshots at any time.
\<close>

subsection \<open>Invariants\<close>

definition scratch_clean :: "writer_scratch \<Rightarrow> bool" where
  "scratch_clean s \<longleftrightarrow> ws_log s = retire_log_new \<and> ws_dirty s = [] \<and> ws_touched s = []"

definition graph_wf :: "dynamic_graph \<Rightarrow> (nat \<Rightarrow> shape option) \<Rightarrow> views \<Rightarrow> bool" where
  "graph_wf G T V \<longleftrightarrow>
     (let nv = dg_num_vertices G in
      nv < 2 ^ 32 - 1 \<and> length (dg_roots G) = nv \<and> (\<forall>v<nv. dg_roots G ! v = root_word (T v)) \<and>
      (\<exists>Lc Li. forest_at (held_views G V) (dg_arena G) Lc Li nv T retire_log_new) \<and>
      dirty_wf (dg_dirty G) \<and> db_num_vertices (dg_dirty G) = nv \<and> views_ok G V)"

definition graph_ok :: "dynamic_graph \<Rightarrow> (nat \<Rightarrow> shape option) \<Rightarrow> views \<Rightarrow> bool" where
  "graph_ok G T S \<longleftrightarrow> graph_wf G T ((dg_latest G, T) # S) \<and> dg_num_edges G = card (edges_of (dg_num_vertices G) T) \<and>
     scratch_clean (dg_scratch G) \<and> \<not> dg_locked G \<and> \<not> dg_poisoned G"

definition guard_ok :: "(bytes \<Rightarrow> u32) \<Rightarrow> dynamic_graph \<Rightarrow> (nat \<Rightarrow> shape option) \<Rightarrow> writer \<Rightarrow> (nat \<Rightarrow> shape option) \<Rightarrow> views \<Rightarrow> bool" where
  "guard_ok crc G T0 W T S \<longleftrightarrow>
     (\<exists>S0 W0. graph_ok G T0 S0 \<and> graph_writer id G = Inr W0 \<and> grew crc W0 T0 W T) \<and>
     (let V = (dg_latest G, T0) # S
      in views_ok (wr_graph W) V \<and> sound (held_views (wr_graph W) V) W T)"

lemma forest_readable:
  assumes "forest_at (held_views G V) (dg_arena G) Lc Li nv T log" and "dg_num_vertices G < 2 ^ 32 - 1" and "views_ok G V"
  shows "readable G V"
  using assms unfolding readable_def forest_at_def by blast

lemma graph_wf_readable: "graph_wf G T V \<Longrightarrow> readable G V"
  unfolding graph_wf_def Let_def using forest_readable by blast

lemma graph_ok_readable: "graph_ok G T S \<Longrightarrow> readable G ((dg_latest G, T) # S)"
  unfolding graph_ok_def using graph_wf_readable by blast

lemma guard_ok_readable:
  assumes "guard_ok crc G T0 W T S"
  shows "readable (wr_graph W) ((dg_latest G, T0) # S)"
proof -
  have v: "views_ok (wr_graph W) ((dg_latest G, T0) # S)"
    and s: "sound (held_views (wr_graph W) ((dg_latest G, T0) # S)) W T" using assms by (simp_all add: guard_ok_def Let_def)
  from s obtain Lc Li where "writer_wf (held_views (wr_graph W) ((dg_latest G, T0) # S)) W T Lc Li"
    unfolding sound_def by blast
  then show ?thesis by (intro forest_readable [OF _ _ v]) (auto simp: writer_wf_def Let_def)
qed

subsection \<open>Tickets\<close>

lemma views_add:
  assumes v: "views_ok G S" and m: "view_ok G s U"
  shows "views_ok (repin G (pins_register (ar_pins (dg_arena G)) (sn_epoch s))) ((s, U) # S)"
proof -
  have "pins_wf (ar_pins (dg_arena G))" using v by (simp add: views_ok_def)
  from pins_register_wf [OF this, of "sn_epoch s"] show ?thesis using v m unfolding views_ok_def by auto
qed

lemma views_remove:
  assumes v: "views_ok G S" and m: "(s, U) \<in> set S"
  shows "\<exists>P. pins_release (ar_pins (dg_arena G)) (sn_epoch s) = Some P \<and> views_ok (repin G P) (remove1 (s, U) S)"
proof -
  have p: "pins_wf (ar_pins (dg_arena G))" "pins_pinned (ar_pins (dg_arena G)) = mset (map (\<lambda>(s, U). sn_epoch s) S)"
    using v by (simp_all add: views_ok_def)
  have e: "mset S = add_mset (s, U) (mset (remove1 (s, U) S))" using m by simp
  have "pins_pinned (ar_pins (dg_arena G)) = add_mset (sn_epoch s) (mset (map (\<lambda>(s, U). sn_epoch s) (remove1 (s, U) S)))"
    unfolding p(2) mset_map e by simp
  then show ?thesis
    using pins_release_wf [OF p(1), of "sn_epoch s"] v set_remove1_subset [of "(s, U)" S] unfolding views_ok_def by fastforce
qed

lemma views_mset:
  assumes "mset S = mset S'"
  shows "views_ok G S = views_ok G S'"
proof -
  have "mset (map (\<lambda>(s, U). sn_epoch s) S) = mset (map (\<lambda>(s, U). sn_epoch s) S')" by (simp only: mset_map assms)
  then show ?thesis unfolding views_ok_def using mset_eq_setD [OF assms] by simp
qed

lemma held_views_set: "set S = set S' \<Longrightarrow> held_views G S = held_views G S'"
  by (simp add: held_views_def held_of_def)

lemma snapshot_clone_eq:
  assumes "view_ok G s U"
  shows "snapshot_clone G s = (s, repin G (pins_register (ar_pins (dg_arena G)) (sn_epoch s)))"
proof -
  have t: "tk_registry (sn_ticket s) = dg_registry G" "tk_epoch (sn_ticket s) = sn_epoch s"
    using assms by (simp_all add: view_ok_def Let_def)
  then have "\<lparr>tk_registry = dg_registry G, tk_epoch = sn_epoch s\<rparr> = sn_ticket s" by simp
  then show ?thesis using t by (simp add: snapshot_clone_def ticket_new_def repin_def)
qed

lemma snapshot_drop_eq:
  assumes "view_ok G s U" and "pins_release (ar_pins (dg_arena G)) (sn_epoch s) = Some P"
  shows "snapshot_drop G s = Some (repin G P)"
  using assms by (simp add: view_ok_def Let_def snapshot_drop_def ticket_drop_def repin_def)

text \<open>A change of the pins that the views allow keeps the forest.\<close>

lemma forest_pins:
  assumes f: "forest_at (held_views G S) (dg_arena G) Lc Li nv T log" and v: "views_ok (repin G P) S'" and sub: "set S' \<subseteq> set S"
  shows "forest_at (held_views (repin G P) S') (dg_arena (repin G P)) Lc Li nv T log"
proof -
  have "\<forall>(s, U)\<in>set S'. pins_min_pinned P \<le> sn_epoch s" using views_min_pinned [OF v] by auto
  from forest_repin [OF f [unfolded held_views_def] sub this] show ?thesis by (simp add: held_views_def)
qed

lemma graph_wf_repin:
  assumes "graph_wf G T S" and "views_ok (repin G P) S'" and "set S' \<subseteq> set S"
  shows "graph_wf (repin G P) T S'"
  using assms forest_pins [OF _ assms(2,3)] unfolding graph_wf_def Let_def repin_sel by blast

lemma graph_ok_repin:
  assumes "graph_ok G T S" and "views_ok (repin G P) ((dg_latest G, T) # S')" and "set S' \<subseteq> set ((dg_latest G, T) # S)"
  shows "graph_ok (repin G P) T S'"
proof -
  have "graph_wf (repin G P) T ((dg_latest G, T) # S')"
    by (rule graph_wf_repin [where S = "(dg_latest G, T) # S", OF _ assms(2)]) (use assms(1,3) in \<open>simp_all add: graph_ok_def\<close>)
  then show ?thesis using assms(1) by (simp add: graph_ok_def)
qed

abbreviation with_graph :: "writer \<Rightarrow> dynamic_graph \<Rightarrow> writer" where
  "with_graph W G \<equiv> W\<lparr>wr_graph := G\<rparr>"

lemma guard_ok_repin:
  assumes g: "guard_ok crc G T0 W T S" and v: "views_ok (repin (wr_graph W) P) ((dg_latest G, T0) # S')"
    and sub: "set S' \<subseteq> set ((dg_latest G, T0) # S)"
  shows "guard_ok crc G T0 (with_graph W (repin (wr_graph W) P)) T S'"
proof -
  let ?W = "with_graph W (repin (wr_graph W) P)" and ?V = "(dg_latest G, T0) # S" and ?V' = "(dg_latest G, T0) # S'"
  from g obtain S0 W0 where 0: "graph_ok G T0 S0" "graph_writer id G = Inr W0" "grew crc W0 T0 W T" by (auto simp: guard_ok_def)
  have "grew crc W0 T0 ?W T" using 0(3) by (simp add: grew_def core_def Let_def marks_def logged_def)
  from g obtain Lc Li where wf: "writer_wf (held_views (wr_graph W) ?V) W T Lc Li" unfolding guard_ok_def sound_def Let_def by blast
  have sub': "set ?V' \<subseteq> set ?V" using sub by auto
  have "forest_at (held_views (repin (wr_graph W) P) ?V') (dg_arena (repin (wr_graph W) P)) Lc Li (dg_num_vertices (wr_graph W)) T (wr_log W)"
    by (rule forest_pins [OF _ v sub']) (use wf in \<open>simp add: writer_wf_def Let_def\<close>)
  moreover have "held_old (held_views (repin (wr_graph W) P) ?V') (wr_arena W) (wr_retire_stamp W)"
  proof -
    have o: "held_old (held_views (wr_graph W) ?V) (wr_arena W) (wr_retire_stamp W)" using wf by (simp add: writer_wf_def Let_def)
    have "h_chunks (held_views (repin (wr_graph W) P) ?V') \<subseteq> h_chunks (held_views (wr_graph W) ?V)"
      "h_interiors (held_views (repin (wr_graph W) P) ?V') \<subseteq> h_interiors (held_views (wr_graph W) ?V)"
      using sub' unfolding held_views_def held_of_def repin_sel held.simps by blast+
    then show ?thesis using o unfolding held_old_def by blast
  qed
  ultimately have "writer_wf (held_views (repin (wr_graph W) P) ?V') ?W T Lc Li"
    using wf by (simp add: writer_wf_def Let_def)
  then have "sound (held_views (wr_graph ?W) ?V') ?W T" unfolding sound_def by auto
  moreover have "views_ok (wr_graph ?W) ?V'" using v by simp
  ultimately show ?thesis unfolding guard_ok_def Let_def using 0(1,2) \<open>grew crc W0 T0 ?W T\<close> by blast
qed


subsection \<open>Taking the guard\<close>

lemma held_below_young:
  assumes inv: "arena_inv A Lc Li" and h: "held_at H A Lc Li"
  shows "(i, c, e) \<in> h_chunks H \<Longrightarrow> i < aw_young_chunk (arena_mk_writer A)"
    and "(i, n, e) \<in> h_interiors H \<Longrightarrow> i < aw_young_interior (arena_mk_writer A)"
proof -
  obtain fs gs where c: "class_inv (ar_chunks A) (rc_chunk_head (ar_rec A)) fs (rc_free_chunks (ar_rec A)) (pend_chunks (ar_rec A)) Lc (chunk_bound A)"
    and n: "class_inv (ar_interiors A) (rc_interior_head (ar_rec A)) gs (rc_free_interiors (ar_rec A)) (pend_interiors (ar_rec A)) Li (interior_bound A)"
    using inv by (auto simp: arena_inv_def)
  have bc: "chunk_bound A < 2 ^ 32" and bn: "interior_bound A < 2 ^ 32" using c n by (simp_all add: class_inv_def)
  show "i < aw_young_chunk (arena_mk_writer A)" if m: "(i, c, e) \<in> h_chunks H"
  proof -
    have "i \<in> set (pend_chunks (ar_rec A)) \<union> Lc" using held_at_chunk [OF h m] waits_pending(1) by blast
    then have "unat i < chunk_bound A" using c unfolding class_inv_def by blast
    then show ?thesis using bc by (simp add: arena_mk_writer_def chunk_bound_def word_less_nat_alt unat_of_nat)
  qed
  show "i < aw_young_interior (arena_mk_writer A)" if m: "(i, n, e) \<in> h_interiors H"
  proof -
    have "i \<in> set (pend_interiors (ar_rec A)) \<union> Li" using held_at_interior [OF h m] waits_pending(2) by blast
    then have "unat i < interior_bound A" using n unfolding class_inv_def by blast
    then show ?thesis using bn by (simp add: arena_mk_writer_def interior_bound_def word_less_nat_alt unat_of_nat)
  qed
qed

lemma views_epochs:
  assumes "views_ok G S"
  shows "(i, c, e) \<in> h_chunks (held_views G S) \<Longrightarrow> e \<le> clock_current (dg_epoch G)"
    and "(i, n, e) \<in> h_interiors (held_views G S) \<Longrightarrow> e \<le> clock_current (dg_epoch G)"
  using assms unfolding held_views_def held_of_sel views_ok_def view_ok_def Let_def by fastforce+

definition guard_of :: "dynamic_graph \<Rightarrow> writer" where
  "guard_of G = \<lparr>wr_graph = G\<lparr>dg_locked := True, dg_scratch := scratch_new\<rparr>, wr_arena = arena_mk_writer (dg_arena G),
     wr_retire_stamp = clock_current (dg_epoch G) + 1, wr_scratch = dg_scratch G, wr_pending_edges = 0,
     wr_dedup_limit = TOUCHED_LEAVES_DEDUP_START, wr_wal_failed = False\<rparr>"

lemma graph_writer_free:
  "\<not> dg_locked G \<Longrightarrow> \<not> dg_poisoned G \<Longrightarrow> graph_writer id G = Inr (guard_of G)"
  by (simp add: graph_writer_def guard_of_def)

lemma view_ok_cong:
  "dg_num_vertices G' = dg_num_vertices G \<Longrightarrow> dg_registry G' = dg_registry G \<Longrightarrow> dg_epoch G' = dg_epoch G \<Longrightarrow>
   view_ok G' s U = view_ok G s U"
  by (simp add: view_ok_def)

lemma views_ok_cong:
  assumes "dg_num_vertices G' = dg_num_vertices G" and "dg_registry G' = dg_registry G" and "dg_epoch G' = dg_epoch G"
    and "ar_pins (dg_arena G') = ar_pins (dg_arena G)"
  shows "views_ok G' S = views_ok G S"
  using view_ok_cong [OF assms(1-3)] by (simp add: views_ok_def assms(4))

lemma held_views_cong:
  "dg_num_vertices G' = dg_num_vertices G \<Longrightarrow> ar_pins (dg_arena G') = ar_pins (dg_arena G) \<Longrightarrow> held_views G' S = held_views G S"
  by (simp add: held_views_def)

lemma guard_start:
  assumes g: "graph_ok G T S"
  shows "graph_writer id G = Inr (guard_of G)" and "guard_ok crc G T (guard_of G) T S"
proof -
  let ?V = "(dg_latest G, T) # S" and ?W = "guard_of G"
  have wf: "graph_wf G T ?V" and sc: "scratch_clean (dg_scratch G)" using g by (simp_all add: graph_ok_def)
  show w: "graph_writer id G = Inr ?W" by (rule graph_writer_free) (use g in \<open>simp_all add: graph_ok_def\<close>)
  from wf obtain Lc Li where f: "forest_at (held_views G ?V) (dg_arena G) Lc Li (dg_num_vertices G) T retire_log_new"
    unfolding graph_wf_def Let_def by blast
  have v: "views_ok G ?V" using wf by (simp add: graph_wf_def Let_def)
  have e: "dg_num_vertices (wr_graph ?W) = dg_num_vertices G" "dg_registry (wr_graph ?W) = dg_registry G"
    "dg_epoch (wr_graph ?W) = dg_epoch G" "ar_pins (wr_store ?W) = ar_pins (dg_arena G)" by (simp_all add: guard_of_def)
  have hv: "held_views (wr_graph ?W) ?V = held_views G ?V" by (rule held_views_cong [OF e(1,4)])
  have vo: "views_ok (wr_graph ?W) ?V" using v views_ok_cong [OF e] by blast
  have h: "held_at (held_views G ?V) (dg_arena G) Lc Li" using f by (simp add: forest_at_def)
  have "held_old (held_views G ?V) (wr_arena ?W) (wr_retire_stamp ?W)"
  proof -
    have a: "wr_arena ?W = arena_mk_writer (dg_arena G)" "wr_retire_stamp ?W = Suc (clock_current (dg_epoch G))"
      by (simp_all add: guard_of_def)
    note y = held_below_young [OF forest_inv [OF f] h] and e = views_epochs [OF v]
    show ?thesis unfolding held_old_def a less_Suc_eq_le using y e by blast
  qed
  then have "writer_wf (held_views (wr_graph ?W) ?V) ?W T Lc Li"
    unfolding hv using wf f sc by (simp add: writer_wf_def graph_wf_def scratch_clean_def guard_of_def Let_def)
  then have "sound (held_views (wr_graph ?W) ?V) ?W T" unfolding sound_def by blast
  moreover have "grew crc ?W T ?W T" by (rule grew_refl_still) simp_all
  ultimately show "guard_ok crc G T ?W T S" unfolding guard_ok_def Let_def using g w vo by blast
qed

text \<open>Facts of a guard.\<close>

lemma guard_core:
  assumes "guard_ok crc G T0 W T S"
  shows "core W = core (guard_of G)" and "dg_num_vertices (wr_graph W) = dg_num_vertices G"
    and "dg_latest (wr_graph W) = dg_latest G" and "dg_epoch (wr_graph W) = dg_epoch G"
    and "dg_num_edges (wr_graph W) = dg_num_edges G" and "wr_retire_stamp W = clock_current (dg_epoch G) + 1"
    and "grew crc (guard_of G) T0 W T"
proof -
  from assms obtain S0 W0 where "graph_ok G T0 S0" "graph_writer id G = Inr W0" and g: "grew crc W0 T0 W T" by (auto simp: guard_ok_def)
  then have "W0 = guard_of G" using guard_start(1) by fastforce
  then show gr: "grew crc (guard_of G) T0 W T" using g by simp
  then show c: "core W = core (guard_of G)" by (simp add: grew_def)
  note f = core_fields [OF c]
  show "dg_num_vertices (wr_graph W) = dg_num_vertices G" "dg_latest (wr_graph W) = dg_latest G" "dg_epoch (wr_graph W) = dg_epoch G"
    "dg_num_edges (wr_graph W) = dg_num_edges G" "wr_retire_stamp W = clock_current (dg_epoch G) + 1"
    using f(1,2,5,6,9) by (simp_all add: guard_of_def)
qed

lemma sound_pins: "sound H W T \<Longrightarrow> ar_pins (wr_store W) = h_pins H"
  by (auto simp: sound_def writer_wf_def forest_at_def held_at_def Let_def)

lemma guard_step:
  assumes g: "guard_ok crc G T0 W T S" and gr: "grew crc W T W' T'"
    and so: "sound (held_views (wr_graph W) ((dg_latest G, T0) # S)) W' T'"
  shows "guard_ok crc G T0 W' T' S"
proof -
  let ?V = "(dg_latest G, T0) # S"
  from g obtain S0 W0 where 0: "graph_ok G T0 S0" "graph_writer id G = Inr W0" "grew crc W0 T0 W T" by (auto simp: guard_ok_def)
  have g2: "grew crc W0 T0 W' T'" by (rule grew_trans [OF 0(3) gr])
  have c: "core W' = core W" using gr by (simp add: grew_def)
  note f = core_fields [OF c]
  have p: "ar_pins (wr_store W') = ar_pins (wr_store W)" using sound_pins [OF so] by (simp add: held_views_def)
  have "views_ok (wr_graph W') ?V" using g views_ok_cong [OF f(1,7,5) p] by (simp add: guard_ok_def Let_def)
  moreover have "sound (held_views (wr_graph W') ?V) W' T'" using so held_views_cong [OF f(1) p] by simp
  ultimately show ?thesis unfolding guard_ok_def Let_def using 0(1,2) g2 by blast
qed

end
