(* ===== verification/Graph_Commit.thy ===== *)
theory Graph_Commit
  imports Graph_Session
begin

section \<open>The drop of a guard\<close>

text \<open>
  The commit: the counters and the dirty bitmap are flushed, the root table of the latest snapshot is
  patched where leaves were touched and published under a new epoch, and the retire log is handed to the
  arena. A failed sync, or a panic, poisons the graph and publishes nothing.
\<close>

subsection \<open>Publishing the table\<close>

lemma flush_bookkeeping_ok:
  assumes "dirty_wf (dg_dirty (wr_graph W))"
  shows "\<exists>W'. flush_bookkeeping W = Some W' \<and> marks W' = marks W \<and> ws_dirty (wr_scratch W') = [] \<and>
    ws_touched (wr_scratch W') = ws_touched (wr_scratch W) \<and>
    bk (W\<lparr>wr_graph := (wr_graph W)\<lparr>dg_num_edges := dg_num_edges (wr_graph W) + wr_pending_edges W\<rparr>, wr_pending_edges := 0\<rparr>) W'"
proof -
  let ?W = "W\<lparr>wr_graph := (wr_graph W)\<lparr>dg_num_edges := dg_num_edges (wr_graph W) + wr_pending_edges W\<rparr>, wr_pending_edges := 0\<rparr>"
  have e: "flush_bookkeeping W = flush_dirty ?W"
  proof (cases "wr_pending_edges W = 0")
    case True
    then have "?W = W" by (cases W) simp
    moreover have "flush_bookkeeping W = flush_dirty W" using True by (simp add: flush_bookkeeping_def)
    ultimately show ?thesis by (simp only:)
  qed (simp add: flush_bookkeeping_def)
  have "marks ?W = marks W" by (simp add: marks_def)
  then show ?thesis using flush_dirty_ok [of ?W] assms unfolding e by auto
qed

lemma touched_leaves_patch:
  assumes t: "rt_wf nv t" "\<forall>v<nv. rt_get t v = Some (root_word (T0 v))" and roots: "length roots = nv" "\<forall>v<nv. roots ! v = root_word (T v)"
    and touched: "unat ` set touched = (\<lambda>s. s div 256) ` fst ` (edges_of nv T - edges_of nv T0)"
    and same: "\<forall>v<nv. v \<notin> fst ` (edges_of nv T - edges_of nv T0) \<longrightarrow> T v = T0 v"
  shows "\<exists>t'. with_leaves t (remdups_adj (sort touched)) roots = Some t' \<and> rt_wf nv t' \<and> (\<forall>v<nv. rt_get t' v = Some (root_word (T v)))"
proof -
  let ?ls = "remdups_adj (sort touched)" and ?new = "edges_of nv T - edges_of nv T0"
  have ls: "unat ` set ?ls = (\<lambda>s. s div 256) ` fst ` ?new" unfolding remdups_adj_sort(2) by (rule touched)
  have "fst ` ?new \<subseteq> {..<nv}" by (auto simp: edges_of_def)
  then have "\<forall>j\<in>unat ` set ?ls. j * 256 < nv" unfolding ls by (auto intro: le_less_trans [OF div_times_less_eq_dividend])
  then have r: "\<forall>l\<in>set ?ls. unat l * 256 < length roots" using roots(1) by simp
  obtain t' where t': "with_leaves t ?ls roots = Some t'" "rt_wf nv t'"
    "\<forall>v<nv. rt_get t' v = (if v div 256 \<in> unat ` set ?ls then Some (roots ! v) else rt_get t v)"
    using with_leaves_ok [OF t(1) [folded roots(1)] remdups_adj_sort(1) r] unfolding roots(1) by blast
  have "rt_get t' v = Some (root_word (T v))" if v: "v < nv" for v
  proof (cases "v \<in> fst ` ?new")
    case True
    then have "v div 256 \<in> unat ` set ?ls" unfolding ls by blast
    then show ?thesis using t'(3) v roots(2) by simp
  next
    case False
    then show ?thesis using t'(3) v roots(2) same t(2) by simp
  qed
  then show ?thesis using t'(1,2) by blast
qed

definition next_snapshot :: "dynamic_graph \<Rightarrow> root_table \<Rightarrow> snapshot" where
  "next_snapshot G t = (let e = Suc (clock_current (dg_epoch G)) in
     \<lparr>sn_epoch = e, sn_num_vertices = dg_num_vertices G, sn_num_edges = dg_num_edges G, sn_table = t,
      sn_ticket = \<lparr>tk_registry = dg_registry G, tk_epoch = e\<rparr>\<rparr>)"

lemma publish_commit_ok:
  assumes v: "views_ok G ((dg_latest G, T0) # S)" and clk: "clock_current (dg_epoch G) < U64_MAX"
    and f: "forest_at (held_views G ((dg_latest G, T0) # S)) (dg_arena G) Lc Li (dg_num_vertices G) T log"
    and t: "rt_wf (dg_num_vertices G) t" "\<forall>v<dg_num_vertices G. rt_get t v = Some (root_word (T v))"
    and num: "dg_num_edges G = card (edges_of (dg_num_vertices G) T)"
  defines "n \<equiv> next_snapshot G t"
  shows "\<exists>P G'. publish_commit G (Some t) = Some (Suc (clock_current (dg_epoch G)), G') \<and>
    G' = (repin G P)\<lparr>dg_epoch := Suc (clock_current (dg_epoch G)), dg_latest := n\<rparr> \<and> views_ok G' ((n, T) # S) \<and>
    forest_at (held_of (dg_num_vertices G) P S) (dg_arena G') Lc Li (dg_num_vertices G) T log"
proof -
  let ?nv = "dg_num_vertices G" and ?e = "Suc (clock_current (dg_epoch G))" and ?prev = "dg_latest G"
  let ?P0 = "ar_pins (dg_arena G)" and ?V = "(dg_latest G, T0) # S"
  define G1 where "G1 = G\<lparr>dg_epoch := ?e\<rparr>"
  have c1: "clock_current (dg_epoch G1) = ?e" by (simp add: G1_def clock_current_def)
  have v1: "views_ok G1 ?V" using v unfolding views_ok_def view_ok_def G1_def Let_def by (auto simp: clock_current_def)
  have "\<forall>v<?nv. shape_ok ?nv (T v)" using forest_tree_ok [OF f] tree_ok_shape by blast
  then have n: "sn_epoch n = ?e" "view_ok G1 n T"
    using t num c1 unfolding n_def next_snapshot_def view_ok_def G1_def Let_def by auto
  note v2 = views_add [OF v1 n(2)]
  define P1 where "P1 = pins_register ?P0 ?e"
  define G3 where "G3 = (repin G1 P1)\<lparr>dg_latest := n\<rparr>"
  have P1: "repin G1 (pins_register (ar_pins (dg_arena G1)) (sn_epoch n)) = repin G1 P1" by (simp add: P1_def n(1)) (simp add: G1_def)
  have v3: "views_ok G3 ((n, T) # ?V)"
  proof -
    have "views_ok G3 ((n, T) # ?V) = views_ok (repin G1 P1) ((n, T) # ?V)" by (rule views_ok_cong) (simp_all add: G3_def)
    then show ?thesis using v2 unfolding P1 by blast
  qed
  have "sn_epoch ?prev \<le> clock_current (dg_epoch G)" using v by (simp add: views_ok_def view_ok_def Let_def)
  then have ne: "n \<noteq> ?prev" using n(1) by auto
  have m: "(?prev, T0) \<in> set ((n, T) # ?V)" by simp
  from views_remove [OF v3 m] obtain P where P: "pins_release (ar_pins (dg_arena G3)) (sn_epoch ?prev) = Some P"
    "views_ok (repin G3 P) ((n, T) # S)" using ne by auto
  have prev: "view_ok G3 ?prev T0" using v3 by (simp add: views_ok_def)
  have d: "snapshot_drop G3 ?prev = Some (repin G3 P)" by (rule snapshot_drop_eq [OF prev P(1)])
  define G' where "G' = (repin G P)\<lparr>dg_epoch := ?e, dg_latest := n\<rparr>"
  have G': "repin G3 P = G'" by (simp add: G'_def G3_def G1_def repin_def)
  have run: "publish_commit G (Some t) = Some (?e, G')"
  proof -
    have adv: "clock_advance (dg_epoch G) = (?e, ?e)" using clk clock_advance_eq [of "dg_epoch G"] by (simp add: clock_current_def)
    have "ticket_new G1 ?e = (\<lparr>tk_registry = dg_registry G, tk_epoch = ?e\<rparr>, repin G1 P1)"
      by (simp add: ticket_new_def repin_def P1_def G1_def)
    then have "publish_commit G (Some t) = do { G \<leftarrow> snapshot_drop G3 ?prev; Some (?e, G) }"
      unfolding publish_commit_def Let_def adv using G1_def by (simp add: G3_def n_def next_snapshot_def Let_def)
    then show ?thesis using d by (simp add: G')
  qed
  have "forest_at (held_of ?nv P S) ((dg_arena G)\<lparr>ar_pins := P\<rparr>) Lc Li ?nv T log"
  proof (rule forest_repin [OF f [unfolded held_views_def]])
    have "pins_min_pinned P \<le> sn_epoch s" if "(s, U) \<in> set S" for s U
      using views_min_pinned [OF P(2), of s U] that by simp
    then show "\<forall>(s, U)\<in>set S. pins_min_pinned P \<le> sn_epoch s" by blast
  qed auto
  then show ?thesis using run P(2) unfolding G' by (intro exI [of _ P] exI [of _ G']) (simp add: G'_def)
qed


subsection \<open>The commit\<close>

lemma arena_ext_reclaim: "arena_inv A Lc Li \<Longrightarrow> arena_ext Lc Li A Lc Li (reclaim_ready A)"
  unfolding arena_ext_def using reclaim_ready_ok(1,2) arena_kept_reclaim by blast

text \<open>Handing the log to the arena at the commit, with the new snapshot published already.\<close>

lemma retire_and_reclaim:
  assumes f: "forest_at (held_of nv P S) A Lc Li nv T log" and r: "arena_retire aw A log stamp = (log', A1)"
    and o: "held_old (held_of nv P S) aw stamp" and p: "pins_min_pinned P \<le> sn_epoch s"
  shows "log' = retire_log_new" and "\<exists>Lc Li. forest_at (held_of nv P ((s, T) # S)) (reclaim_ready A1) Lc Li nv T retire_log_new"
    and "ar_pins (reclaim_ready A1) = P"
proof -
  note fr = forest_retire [OF f r held_old_retire [OF o order_refl]]
  show "log' = retire_log_new" by (rule fr(1))
  have "forest_at (held_of nv P S) (reclaim_ready A1) (Lc - set (rl_chunks log)) (Li - set (rl_interiors log)) nv T retire_log_new"
    by (rule forest_ext [OF fr(2) arena_ext_reclaim [OF forest_inv [OF fr(2)]]])
  then show "\<exists>Lc Li. forest_at (held_of nv P ((s, T) # S)) (reclaim_ready A1) Lc Li nv T retire_log_new"
    and "ar_pins (reclaim_ready A1) = P"
    using forest_add_view [OF _ p] by (blast, simp add: forest_at_def held_at_def)
qed

lemma held_old_sub:
  assumes "held_old (held_of nv P S) aw stamp" and "set S' \<subseteq> set S" and "stamp \<le> stamp'"
  shows "held_old (held_of nv P' S') aw stamp'"
proof -
  have "h_chunks (held_of nv P' S') \<subseteq> h_chunks (held_of nv P S)" "h_interiors (held_of nv P' S') \<subseteq> h_interiors (held_of nv P S)"
    using assms(2) unfolding held_of_def held.simps by blast+
  then show ?thesis unfolding held_old_def using held_old_retire [OF assms(1,3)] by blast
qed

lemma edges_of_eq:
  assumes "edges_of nv T \<subseteq> edges_of nv T'" and "edges_of nv T' - edges_of nv T = {}"
    and "\<forall>v<nv. v \<notin> fst ` (edges_of nv T' - edges_of nv T) \<longrightarrow> T' v = T v"
  shows "\<forall>v<nv. T' v = T v"
  using assms(3) unfolding assms(2) by simp

lemma views_cong:
  assumes "\<forall>v<dg_num_vertices G. T' v = T v"
  shows "views_ok G ((s, T) # S) = views_ok G ((s, T') # S)" and "held_of (dg_num_vertices G) P ((s, T) # S) = held_of (dg_num_vertices G) P ((s, T') # S)"
proof -
  have e: "edges_of (dg_num_vertices G) T' = edges_of (dg_num_vertices G) T" using assms by (auto simp: edges_of_def)
  have "view_ok G s T' = view_ok G s T" using assms by (simp add: view_ok_def Let_def e)
  then show "views_ok G ((s, T) # S) = views_ok G ((s, T') # S)" by (simp add: views_ok_def)
  show "held_of (dg_num_vertices G) P ((s, T) # S) = held_of (dg_num_vertices G) P ((s, T') # S)"
    using assms by (simp add: held_of_def cong: conj_cong)
qed

text \<open>Either a new epoch's snapshot is the latest, or nothing changed.\<close>

definition renewed :: "dynamic_graph \<Rightarrow> (nat \<Rightarrow> shape option) \<Rightarrow> (nat \<Rightarrow> shape option) \<Rightarrow> dynamic_graph \<Rightarrow> bool" where
  "renewed G T0 T G' \<longleftrightarrow> sn_epoch (dg_latest G') = Suc (clock_current (dg_epoch G)) \<or>
     (dg_latest G' = dg_latest G \<and> edges_of (dg_num_vertices G) T = edges_of (dg_num_vertices G) T0)"

text \<open>The publication, whether leaves were touched or not.\<close>

lemma commit_publication:
  assumes v: "views_ok G ((dg_latest G, T0) # S)" and clk: "clock_current (dg_epoch G) < U64_MAX"
    and f: "forest_at (held_views G ((dg_latest G, T0) # S)) (dg_arena G) Lc Li (dg_num_vertices G) T log"
    and roots: "length (dg_roots G) = dg_num_vertices G" "\<forall>v<dg_num_vertices G. dg_roots G ! v = root_word (T v)"
    and num: "dg_num_edges G = card (edges_of (dg_num_vertices G) T)"
    and sub: "edges_of (dg_num_vertices G) T0 \<subseteq> edges_of (dg_num_vertices G) T"
    and touched: "unat ` set touched = (\<lambda>s. s div 256) ` fst ` (edges_of (dg_num_vertices G) T - edges_of (dg_num_vertices G) T0)"
    and same: "\<forall>v<dg_num_vertices G. v \<notin> fst ` (edges_of (dg_num_vertices G) T - edges_of (dg_num_vertices G) T0) \<longrightarrow> T v = T0 v"
  shows "\<exists>P G'. do { table \<leftarrow> (if touched = [] then Some None else do { t \<leftarrow> build_table G touched; Some (Some t) });
        publish_commit G table } = Some (Suc (clock_current (dg_epoch G)), G') \<and>
    G' = (repin G P)\<lparr>dg_epoch := Suc (clock_current (dg_epoch G)), dg_latest := dg_latest G'\<rparr> \<and>
    views_ok G' ((dg_latest G', T) # S) \<and>
    forest_at (held_of (dg_num_vertices G) P S) (dg_arena G') Lc Li (dg_num_vertices G) T log \<and> renewed G T0 T G'"
proof (cases "touched = []")
  case True
  let ?nv = "dg_num_vertices G" and ?e = "Suc (clock_current (dg_epoch G))" and ?P = "ar_pins (dg_arena G)"
  have "edges_of ?nv T - edges_of ?nv T0 = {}" using touched True by auto
  then have eq: "\<forall>v<?nv. T v = T0 v" and ee: "edges_of ?nv T = edges_of ?nv T0" using edges_of_eq [OF sub] same sub by blast+
  define G' where "G' = G\<lparr>dg_epoch := ?e\<rparr>"
  have rp: "repin G ?P = G" by (simp add: repin_def)
  have "clock_advance (dg_epoch G) = (?e, ?e)" using clk clock_advance_eq [of "dg_epoch G"] by (simp add: clock_current_def)
  then have run: "publish_commit G None = Some (?e, G')" by (simp add: publish_commit_def G'_def)
  have "views_ok G' ((dg_latest G, T0) # S)"
    using v unfolding views_ok_def view_ok_def G'_def Let_def by (auto simp: clock_current_def)
  then have v': "views_ok G' ((dg_latest G, T) # S)" using views_cong(1) [of G' T T0] eq by (simp add: G'_def)
  have f': "forest_at (held_of ?nv ?P S) ((dg_arena G)\<lparr>ar_pins := ?P\<rparr>) Lc Li ?nv T log"
  proof (rule forest_repin [OF f [unfolded held_views_def]])
    show "\<forall>(s, U)\<in>set S. pins_min_pinned ?P \<le> sn_epoch s" using views_min_pinned [OF v] by auto
  qed auto
  show ?thesis using True run v' f' ee by (intro exI [of _ ?P] exI [of _ G']) (simp add: G'_def rp renewed_def)
next
  case False
  let ?nv = "dg_num_vertices G"
  have t: "rt_wf ?nv (sn_table (dg_latest G))" "\<forall>v<?nv. rt_get (sn_table (dg_latest G)) v = Some (root_word (T0 v))"
    using v by (simp_all add: views_ok_def view_ok_def Let_def)
  obtain t' where t': "build_table G touched = Some t'" "rt_wf ?nv t'" "\<forall>v<?nv. rt_get t' v = Some (root_word (T v))"
    using touched_leaves_patch [OF t roots touched same] unfolding build_table_def by blast
  from publish_commit_ok [OF v clk f t'(2,3) num] obtain P G' where p:
    "publish_commit G (Some t') = Some (Suc (clock_current (dg_epoch G)), G')"
    "G' = (repin G P)\<lparr>dg_epoch := Suc (clock_current (dg_epoch G)), dg_latest := next_snapshot G t'\<rparr>"
    "views_ok G' ((next_snapshot G t', T) # S)" "forest_at (held_of ?nv P S) (dg_arena G') Lc Li ?nv T log" by blast
  have l: "dg_latest G' = next_snapshot G t'" unfolding p(2) by simp
  have "renewed G T0 T G'" unfolding renewed_def l by (simp add: next_snapshot_def Let_def)
  then show ?thesis using False t'(1) p(1,3,4) by (intro exI [of _ P] exI [of _ G']) (use p(2) l in simp)
qed


subsection \<open>The whole commit\<close>

definition committable :: "writer \<Rightarrow> (nat \<Rightarrow> shape option) \<Rightarrow> (nat \<Rightarrow> shape option) \<Rightarrow> views \<Rightarrow> bool" where
  "committable W T0 T S \<longleftrightarrow>
     (let G = wr_graph W; nv = dg_num_vertices G; V = (dg_latest G, T0) # S; new = edges_of nv T - edges_of nv T0 in
      views_ok G V \<and> sound (held_views G V) W T \<and> wr_retire_stamp W \<le> Suc (clock_current (dg_epoch G)) \<and>
      dg_num_edges G + wr_pending_edges W = card (edges_of nv T) \<and> edges_of nv T0 \<subseteq> edges_of nv T \<and>
      unat ` set (ws_touched (wr_scratch W)) = (\<lambda>s. s div 256) ` fst ` new \<and> (\<forall>v<nv. v \<notin> fst ` new \<longrightarrow> T v = T0 v))"

lemma guard_committable:
  assumes g: "guard_ok crc G T0 W T S"
  shows "committable W T0 T S"
proof -
  let ?nv = "dg_num_vertices G" and ?V = "(dg_latest G, T0) # S"
  from g obtain S0 where ok: "graph_ok G T0 S0" unfolding guard_ok_def by blast
  have v: "views_ok (wr_graph W) ?V" "sound (held_views (wr_graph W) ?V) W T" using g by (simp_all add: guard_ok_def Let_def)
  note gc = guard_core [OF g]
  let ?new = "edges_of ?nv T - edges_of ?nv T0"
  have nv: "dg_num_vertices (wr_graph (guard_of G)) = ?nv" by (simp add: guard_of_def)
  have gr: "edges_of ?nv T0 \<subseteq> edges_of ?nv T" "finite ?new" "\<forall>v<?nv. v \<notin> fst ` ?new \<longrightarrow> T v = T0 v"
    "wr_pending_edges W = wr_pending_edges (guard_of G) + card ?new"
    "unat ` set (ws_touched (wr_scratch W)) = unat ` set (ws_touched (wr_scratch (guard_of G))) \<union> (\<lambda>s. s div 256) ` fst ` ?new"
    using gc(7) by (simp_all add: grew_def Let_def nv)
  have "ws_touched (wr_scratch (guard_of G)) = []" "wr_pending_edges (guard_of G) = 0"
    using ok by (simp_all add: guard_of_def graph_ok_def scratch_clean_def)
  moreover have "card (edges_of ?nv T) = card (edges_of ?nv T0) + card ?new"
    using card_Diff_subset [OF finite_edges_of gr(1)] card_mono [OF finite_edges_of gr(1)] by simp
  moreover have "dg_num_edges G = card (edges_of ?nv T0)" using ok by (simp add: graph_ok_def)
  ultimately show ?thesis unfolding committable_def Let_def gc(2-6) using v gr by simp
qed

lemma committable_other [simp]:
  "committable (W\<lparr>wr_graph := (wr_graph W)\<lparr>dg_wal := x\<rparr>\<rparr>) T0 T S = committable W T0 T S"
proof -
  let ?G = "(wr_graph W)\<lparr>dg_wal := x\<rparr>"
  have "views_ok ?G V = views_ok (wr_graph W) V" for V by (rule views_ok_cong) simp_all
  moreover have "held_views ?G V = held_views (wr_graph W) V" for V by (rule held_views_cong) simp_all
  moreover have "sound H (W\<lparr>wr_graph := ?G\<rparr>) T = sound H W T" for H by (simp add: sound_def writer_wf_def Let_def)
  ultimately show ?thesis by (simp add: committable_def Let_def)
qed

lemma commit_ok:
  assumes c: "committable W T0 T S" and clk: "clock_current (dg_epoch (wr_graph W)) < U64_MAX"
  shows "\<exists>W'. writer_commit W = Some W' \<and>
    (let G = wr_graph W; G' = wr_graph W' in
     graph_wf G' T ((dg_latest G', T) # S) \<and> dg_num_edges G' = card (edges_of (dg_num_vertices G) T) \<and>
     dirty_set (dg_dirty G') = marks W \<and> dg_epoch G' = Suc (clock_current (dg_epoch G)) \<and> dg_poisoned G' = dg_poisoned G \<and>
     dg_wal G' = dg_wal G \<and> dg_num_vertices G' = dg_num_vertices G \<and> dg_registry G' = dg_registry G \<and> renewed G T0 T G')"
proof -
  let ?G = "wr_graph W" and ?nv = "dg_num_vertices (wr_graph W)" and ?e = "Suc (clock_current (dg_epoch (wr_graph W)))"
  let ?V = "(dg_latest (wr_graph W), T0) # S"
  have C: "views_ok ?G ?V" "sound (held_views ?G ?V) W T" "wr_retire_stamp W \<le> ?e"
    "dg_num_edges ?G + wr_pending_edges W = card (edges_of ?nv T)" "edges_of ?nv T0 \<subseteq> edges_of ?nv T"
    "unat ` set (ws_touched (wr_scratch W)) = (\<lambda>s. s div 256) ` fst ` (edges_of ?nv T - edges_of ?nv T0)"
    "\<forall>v<?nv. v \<notin> fst ` (edges_of ?nv T - edges_of ?nv T0) \<longrightarrow> T v = T0 v"
    using c by (simp_all add: committable_def Let_def)
  from C(2) obtain Lc Li where wf: "writer_wf (held_views ?G ?V) W T Lc Li" unfolding sound_def by blast
  then have D: "dirty_wf (dg_dirty ?G)" "db_num_vertices (dg_dirty ?G) = ?nv" "?nv < 2 ^ 32 - 1"
    and R: "length (dg_roots ?G) = ?nv" "\<forall>v<?nv. dg_roots ?G ! v = root_word (T v)"
    and F: "forest_at (held_views ?G ?V) (wr_store W) Lc Li ?nv T (wr_log W)" and O: "held_old (held_views ?G ?V) (wr_arena W) (wr_retire_stamp W)"
    by (simp_all add: writer_wf_def Let_def)
  obtain W1 where W1: "flush_bookkeeping W = Some W1" "marks W1 = marks W" "ws_dirty (wr_scratch W1) = []"
    "ws_touched (wr_scratch W1) = ws_touched (wr_scratch W)"
    "bk (W\<lparr>wr_graph := ?G\<lparr>dg_num_edges := dg_num_edges ?G + wr_pending_edges W\<rparr>, wr_pending_edges := 0\<rparr>) W1"
    using flush_bookkeeping_ok [OF D(1)] by blast
  note f = bk_fields [OF W1(5), simplified]
  let ?G1 = "wr_graph W1"
  have reg: "dg_num_vertices ?G1 = ?nv" "dg_registry ?G1 = dg_registry ?G" "dg_epoch ?G1 = dg_epoch ?G" "ar_pins (dg_arena ?G1) = ar_pins (wr_store W)"
    using f by simp_all
  have dw: "dirty_wf (dg_dirty ?G1)" "db_num_vertices (dg_dirty ?G1) = ?nv" using W1(5) D(1,2) by (simp_all add: bk_def)
  have dm: "dirty_set (dg_dirty ?G1) = marks W" using W1(2,3) by (simp add: marks_def)
  have num: "dg_num_edges ?G1 = card (edges_of (dg_num_vertices ?G1) T)" using f(6) C(4) reg(1) by simp
  have v1: "views_ok ?G1 ((dg_latest ?G1, T0) # S)" using C(1) views_ok_cong [OF reg] f(5) by simp
  have F1: "forest_at (held_views ?G1 ((dg_latest ?G1, T0) # S)) (dg_arena ?G1) Lc Li (dg_num_vertices ?G1) T (wr_log W1)"
    using F held_views_cong [OF reg(1,4)] f(2,5,16) reg(1) by simp
  have clk1: "clock_current (dg_epoch ?G1) < U64_MAX" using clk reg(3) by simp
  from commit_publication [OF v1 clk1 F1 _ _ num, unfolded reg(1,3) f(1), OF R C(5), folded W1(4), unfolded W1(4), OF C(6,7)] obtain P G2 where
    pub: "do { table \<leftarrow> (if ws_touched (wr_scratch W) = [] then Some None
        else do { t \<leftarrow> build_table ?G1 (ws_touched (wr_scratch W)); Some (Some t) });
        publish_commit ?G1 table } = Some (?e, G2)"
    and G2: "G2 = (repin ?G1 P)\<lparr>dg_epoch := ?e, dg_latest := dg_latest G2\<rparr>"
    and v2: "views_ok G2 ((dg_latest G2, T) # S)" and F2: "forest_at (held_of ?nv P S) (dg_arena G2) Lc Li ?nv T (wr_log W1)"
    and rn: "renewed ?G1 T0 T G2" by blast
  define W2 where "W2 = W1\<lparr>wr_graph := G2\<rparr>"
  obtain log' A1 where ar: "arena_retire (wr_arena W2) (wr_store W2) (wr_log W2) ?e = (log', A1)" by fastforce
  have o2: "held_old (held_of ?nv P S) (wr_arena W2) ?e"
    using held_old_sub [OF O [unfolded held_views_def] _ C(3), of S P] f(11) by (auto simp: W2_def)
  have P2: "ar_pins (dg_arena G2) = P" using F2 by (simp add: forest_at_def held_at_def)
  have mp: "pins_min_pinned P \<le> sn_epoch (dg_latest G2)" using views_min_pinned [OF v2, of "dg_latest G2" T] P2 by simp
  have F2': "forest_at (held_of ?nv P S) (wr_store W2) Lc Li ?nv T (wr_log W2)" using F2 by (simp add: W2_def)
  note rr = retire_and_reclaim [OF F2' ar o2 mp]
  define W3 where "W3 = set_arena (writer_retire W2 ?e) (reclaim_ready A1)"
  have w3: "wr_graph W3 = G2\<lparr>dg_arena := reclaim_ready A1\<rparr>"
    using ar by (simp add: W3_def writer_retire_def set_arena_def set_log_def W2_def)
  have run: "writer_commit W = Some W3"
  proof -
    have "wr_store (writer_retire W2 ?e) = A1" using ar by (simp add: writer_retire_def set_arena_def set_log_def)
    moreover obtain table where "(if ws_touched (wr_scratch W) = [] then Some None
        else do { t \<leftarrow> build_table ?G1 (ws_touched (wr_scratch W)); Some (Some t) }) = Some table"
      "publish_commit ?G1 table = Some (?e, G2)" using pub unfolding bind_eq_Some_conv by blast
    ultimately show ?thesis
      by (simp only: writer_commit_def W1(1,4) Option.bind.simps Let_def prod.case W3_def W2_def arena_reclaim_def)
  qed
  have g2: "dg_num_vertices G2 = ?nv" "dg_registry G2 = dg_registry ?G" "dg_epoch G2 = ?e" "dg_num_edges G2 = card (edges_of ?nv T)"
    "dg_dirty G2 = dg_dirty ?G1" "dg_roots G2 = dg_roots ?G" "dg_poisoned G2 = dg_poisoned ?G" "dg_wal G2 = dg_wal ?G"
    using num f reg by (subst G2, simp)+
  have cg: "dg_num_vertices (wr_graph W3) = dg_num_vertices G2" "dg_registry (wr_graph W3) = dg_registry G2" "dg_epoch (wr_graph W3) = dg_epoch G2"
    "ar_pins (dg_arena (wr_graph W3)) = ar_pins (dg_arena G2)" using rr(3) P2 by (simp_all add: w3)
  have "views_ok (wr_graph W3) ((dg_latest (wr_graph W3), T) # S)" using v2 views_ok_cong [OF cg] by (simp add: w3)
  moreover have "\<exists>Lc Li. forest_at (held_views (wr_graph W3) ((dg_latest (wr_graph W3), T) # S)) (dg_arena (wr_graph W3)) Lc Li ?nv T retire_log_new"
    using rr(2) rr(3) g2(1) by (simp add: w3 held_views_def)
  ultimately have "graph_wf (wr_graph W3) T ((dg_latest (wr_graph W3), T) # S)"
    unfolding graph_wf_def Let_def using D(3) R dw g2 by (simp add: w3)
  moreover have "renewed ?G T0 T (wr_graph W3)" using rn f(5) reg by (simp add: renewed_def w3)
  ultimately show ?thesis using run g2 dm by (intro exI [of _ W3]) (simp add: Let_def w3)
qed


subsection \<open>The drop\<close>

text \<open>Whether the log of a guard that is dropped can be made durable.\<close>

definition drop_durable :: "writer \<Rightarrow> bool" where
  "drop_durable W \<longleftrightarrow> \<not> wr_wal_failed W \<and>
     (case dg_wal (wr_graph W) of None \<Rightarrow> True | Some w \<Rightarrow> snd (wal_sync w) = Inr ())"

definition synced_wal :: "writer \<Rightarrow> wal_writer option" where
  "synced_wal W = map_option (\<lambda>w. fst (wal_sync w)) (dg_wal (wr_graph W))"

lemma writer_drop_cases:
  "writer_drop False W =
     (let W' = W\<lparr>wr_graph := (wr_graph W)\<lparr>dg_wal := synced_wal W\<rparr>\<rparr> in
      if drop_durable W then do { W \<leftarrow> writer_commit W'; Some (writer_release W) } else Some (writer_release (set_poisoned W')))"
  by (auto simp: writer_drop_def synced_wal_def drop_durable_def Let_def split: option.splits prod.splits sum.splits)

lemma graph_wf_cong:
  assumes "graph_wf G T V" and "dg_num_vertices G' = dg_num_vertices G" "dg_registry G' = dg_registry G" "dg_epoch G' = dg_epoch G"
    "dg_arena G' = dg_arena G" "dg_roots G' = dg_roots G" "dg_dirty G' = dg_dirty G"
  shows "graph_wf G' T V"
proof -
  have "views_ok G' V = views_ok G V" by (rule views_ok_cong) (simp_all add: assms)
  moreover have "held_views G' V = held_views G V" by (rule held_views_cong) (simp_all add: assms)
  ultimately show ?thesis using assms(1) by (simp add: graph_wf_def assms(2-))
qed

lemma scratch_park_clean [simp]: "scratch_clean (scratch_park s)"
  by (simp add: scratch_clean_def scratch_park_def retire_log_new_def)

lemma drop_commits:
  assumes g: "guard_ok crc G T0 W T S" and clk: "clock_current (dg_epoch G) < U64_MAX" and d: "drop_durable W"
  shows "\<exists>G'. writer_drop False W = Some G' \<and> graph_ok G' T S \<and> dirty_set (dg_dirty G') = marks W \<and>
    dg_epoch G' = Suc (clock_current (dg_epoch G)) \<and> dg_wal G' = synced_wal W \<and> dg_num_vertices G' = dg_num_vertices G \<and>
    dg_num_edges G' = card (edges_of (dg_num_vertices G) T) \<and> dg_registry G' = dg_registry (wr_graph W) \<and> renewed G T0 T G'"
proof -
  let ?W = "W\<lparr>wr_graph := (wr_graph W)\<lparr>dg_wal := synced_wal W\<rparr>\<rparr>"
  note gc = guard_core [OF g]
  have c: "committable ?W T0 T S" using guard_committable [OF g] by simp
  have "clock_current (dg_epoch (wr_graph ?W)) < U64_MAX" using clk gc(4) by simp
  from commit_ok [OF c this] obtain W' where W': "writer_commit ?W = Some W'" and
    F: "graph_wf (wr_graph W') T ((dg_latest (wr_graph W'), T) # S)" "dg_num_edges (wr_graph W') = card (edges_of (dg_num_vertices G) T)"
    "dirty_set (dg_dirty (wr_graph W')) = marks ?W" "dg_epoch (wr_graph W') = Suc (clock_current (dg_epoch G))"
    "dg_poisoned (wr_graph W') = dg_poisoned (wr_graph W)" "dg_wal (wr_graph W') = synced_wal W"
    "dg_num_vertices (wr_graph W') = dg_num_vertices G" "dg_registry (wr_graph W') = dg_registry (wr_graph W)"
    "renewed (wr_graph W) T0 T (wr_graph W')"
    using gc(2,4) by (auto simp: Let_def renewed_def)
  have run: "writer_drop False W = Some (writer_release W')" using d W' by (simp add: writer_drop_cases Let_def)
  have np: "\<not> dg_poisoned (wr_graph W)"
    using core_fields(4) [OF gc(1)] g by (auto simp: guard_ok_def guard_of_def graph_ok_def)
  have "graph_wf (writer_release W') T ((dg_latest (wr_graph W'), T) # S)"
    by (rule graph_wf_cong [OF F(1)]) (simp_all add: writer_release_def)
  then have "graph_ok (writer_release W') T S"
    using F(2,5,7) np by (simp add: graph_ok_def writer_release_def)
  moreover have "renewed G T0 T (writer_release W')" using F(9) gc(2-4) by (simp add: renewed_def writer_release_def)
  moreover have "marks ?W = marks W" by (simp add: marks_def)
  ultimately show ?thesis using run F by (intro exI [of _ "writer_release W'"]) (simp add: writer_release_def)
qed

text \<open>A drop that does not commit leaves the latest snapshot and the counters of the last commit.\<close>

definition abandoned :: "dynamic_graph \<Rightarrow> writer \<Rightarrow> dynamic_graph \<Rightarrow> bool" where
  "abandoned G W G' \<longleftrightarrow> dg_poisoned G' \<and> \<not> dg_locked G' \<and> dg_latest G' = dg_latest G \<and> dg_epoch G' = dg_epoch G \<and>
     dg_num_edges G' = dg_num_edges G \<and> dg_num_vertices G' = dg_num_vertices G \<and> dg_registry G' = dg_registry (wr_graph W) \<and>
     dg_arena G' = wr_store W \<and> dg_roots G' = dg_roots (wr_graph W)"

lemma readable_cong:
  assumes "readable G V" and "dg_num_vertices G' = dg_num_vertices G" "dg_registry G' = dg_registry G" "dg_epoch G' = dg_epoch G"
    "dg_arena G' = dg_arena G"
  shows "readable G' V"
proof -
  have "views_ok G' V = views_ok G V" by (rule views_ok_cong) (simp_all add: assms)
  moreover have "held_views G' V = held_views G V" by (rule held_views_cong) (simp_all add: assms)
  ultimately show ?thesis using assms(1) by (simp add: readable_def assms(2-))
qed

lemma abandoned_readable:
  assumes g: "guard_ok crc G T0 W T S" and a: "abandoned G W G'"
  shows "readable G' ((dg_latest G', T0) # S)"
proof -
  have "readable G' ((dg_latest G, T0) # S)"
    by (rule readable_cong [OF guard_ok_readable [OF g]]) (use a guard_core [OF g] in \<open>simp_all add: abandoned_def\<close>)
  then show ?thesis using a by (simp add: abandoned_def)
qed

lemma drop_abandons:
  assumes g: "guard_ok crc G T0 W T S" and d: "panicking \<or> \<not> drop_durable W"
  shows "\<exists>G'. writer_drop panicking W = Some G' \<and> abandoned G W G'"
proof -
  note gc = guard_core [OF g]
  have e: "writer_drop panicking W = Some (writer_release (set_poisoned (W\<lparr>wr_graph := (wr_graph W)\<lparr>dg_wal :=
      if panicking then map_option discard_pending (dg_wal (wr_graph W)) else synced_wal W\<rparr>\<rparr>)))"
  proof (cases panicking)
    case True
    then show ?thesis by (simp add: writer_drop_def set_poisoned_def writer_release_def Let_def)
  next
    case False
    then have "panicking = False" "\<not> drop_durable W" using d by simp_all
    then show ?thesis by (simp add: writer_drop_cases Let_def)
  qed
  show ?thesis unfolding e using gc(2-5) by (simp add: abandoned_def writer_release_def set_poisoned_def)
qed

end
