(* ===== verification/Graph_Api.thy ===== *)
theory Graph_Api
  imports Graph_Commit
begin

section \<open>The public operations as a state machine\<close>

text \<open>
  A state is a graph no guard holds or a guard, the snapshots that callers hold, and a ghost history: the
  edge set committed at every epoch. A step is one public call: acquiring, cloning or dropping a
  snapshot, taking the guard, an insert of one edge or of a batch, the drop of the guard (which may
  panic or fail to sync), a drain of the dirty bitmap. Two calls are left out: an insert on a
  tree that is too deep for the traversal stack, and a batch that fails on a guard that has retired
  slots already; theory \<open>Stale_Marks\<close> shows what the latter does.
\<close>

datatype phase = Idle dynamic_graph | Held writer

type_synonym history = "nat \<Rightarrow> (nat \<times> nat) set"
type_synonym api_state = "phase \<times> snapshot list \<times> history"

fun graph_in :: "phase \<Rightarrow> dynamic_graph" where
  "graph_in (Idle G) = G"
| "graph_in (Held W) = wr_graph W"

fun put_graph :: "phase \<Rightarrow> dynamic_graph \<Rightarrow> phase" where
  "put_graph (Idle _) G = Idle G"
| "put_graph (Held W) G = Held (with_graph W G)"

definition live_edges :: "dynamic_graph \<Rightarrow> (nat \<times> nat) set" where
  "live_edges G = {(unat v, unat d) |v d. has_edge G v d = Some True}"

text \<open>The stack has room for what the call does to the trees at these vertices.\<close>

definition room_for :: "writer \<Rightarrow> u32 \<Rightarrow> (shape option \<Rightarrow> bool) \<Rightarrow> bool" where
  "room_for W v P \<longleftrightarrow> (let G = wr_graph W in \<forall>t. unat v < dg_num_vertices G \<longrightarrow> dg_roots G ! unat v = root_word t \<longrightarrow>
     tree_ok (dg_arena G) (dg_num_vertices G) t \<longrightarrow> P t)"

inductive api_step :: "(bytes \<Rightarrow> u32) \<Rightarrow> api_state \<Rightarrow> api_state \<Rightarrow> bool" for crc where
  acquire: "graph_acquire (graph_in p) = (s, G) \<Longrightarrow> api_step crc (p, S, h) (put_graph p G, s # S, h)"
| clone: "s \<in> set S \<Longrightarrow> snapshot_clone (graph_in p) s = (s', G) \<Longrightarrow> api_step crc (p, S, h) (put_graph p G, s' # S, h)"
| release: "s \<in> set S \<Longrightarrow> snapshot_drop (graph_in p) s = Some G \<Longrightarrow> api_step crc (p, S, h) (put_graph p G, remove1 s S, h)"
| guard: "graph_writer id G = Inr W \<Longrightarrow> api_step crc (Idle G, S, h) (Held W, S, h)"
| edge: "insert_edge crc W src dst = Some (r, W') \<Longrightarrow> room_for W src low \<Longrightarrow> api_step crc (Held W, S, h) (Held W', S, h)"
| sorted: "insert_edges_sorted crc W src ds = Some (r, W') \<Longrightarrow> ssorted ds \<Longrightarrow> room_for W src (\<lambda>t. fits t ds) \<Longrightarrow>
    (\<exists>n. r = Inr n) \<or> wr_log W = retire_log_new \<Longrightarrow> api_step crc (Held W, S, h) (Held W', S, h)"
| batch: "insert_edges crc W es = Some (Inr n, W') \<Longrightarrow> \<forall>s\<in>fst ` set es. room_for W s (\<lambda>t. fits t (dsts_of es s)) \<Longrightarrow>
    api_step crc (Held W, S, h) (Held W', S, h)"
| drop: "writer_drop panicking W = Some G \<Longrightarrow> clock_current (dg_epoch (wr_graph W)) < U64_MAX \<Longrightarrow>
    api_step crc (Held W, S, h) (Idle G, S, if dg_poisoned G then h else h(sn_epoch (dg_latest G) := live_edges G))"
| drain: "graph_drain_dirty G = (ids, G') \<Longrightarrow> api_step crc (Idle G, S, h) (Idle G', S, h)"

inductive_cases api_step_cases: "api_step crc (p, S, h) x"

subsection \<open>The invariant\<close>

definition hist_ok :: "history \<Rightarrow> nat \<Rightarrow> views \<Rightarrow> bool" where
  "hist_ok h nv V \<longleftrightarrow> (\<forall>(s, U)\<in>set V. h (sn_epoch s) = edges_of nv U)"

text \<open>The three kinds of state: at rest, guarded, poisoned.\<close>

definition phase_ok :: "(bytes \<Rightarrow> u32) \<Rightarrow> phase \<Rightarrow> (nat \<Rightarrow> shape option) \<Rightarrow> views \<Rightarrow> bool" where
  "phase_ok crc p T0 V \<longleftrightarrow> (case p of
     Idle G \<Rightarrow> graph_ok G T0 V \<or> (dg_poisoned G \<and> readable G ((dg_latest G, T0) # V))
   | Held W \<Rightarrow> \<exists>G T. guard_ok crc G T0 W T V)"

definition api_inv :: "(bytes \<Rightarrow> u32) \<Rightarrow> api_state \<Rightarrow> bool" where
  "api_inv crc x = (case x of (p, S, h) \<Rightarrow>
     \<exists>T0 V. map fst V = S \<and> phase_ok crc p T0 V \<and>
       hist_ok h (dg_num_vertices (graph_in p)) ((dg_latest (graph_in p), T0) # V))"

lemma phase_ok_readable:
  assumes "phase_ok crc p T0 V"
  shows "readable (graph_in p) ((dg_latest (graph_in p), T0) # V)"
proof (cases p)
  case (Idle G)
  then show ?thesis using assms graph_ok_readable by (auto simp: phase_ok_def)
next
  case (Held W)
  then obtain G T where g: "guard_ok crc G T0 W T V" using assms by (auto simp: phase_ok_def)
  then show ?thesis using guard_ok_readable [OF g] guard_core(3) [OF g] Held by simp
qed

lemma readable_repin:
  assumes r: "readable G S" and v: "views_ok (repin G P) S'" and sub: "set S' \<subseteq> set S"
  shows "readable (repin G P) S'"
proof -
  obtain Lc Li where h: "held_at (held_views G S) (dg_arena G) Lc Li" using r by (auto simp: readable_def)
  have "\<forall>(s, U)\<in>set S'. pins_min_pinned P \<le> sn_epoch s" using views_min_pinned [OF v] by auto
  from held_at_repin [OF h [unfolded held_views_def] sub this] show ?thesis
    using r v unfolding readable_def held_views_def by auto
qed

text \<open>Tickets may move in every state.\<close>

lemma phase_ok_repin:
  assumes p: "phase_ok crc p T0 V" and v: "views_ok (repin (graph_in p) P) ((dg_latest (graph_in p), T0) # V')"
    and sub: "set V' \<subseteq> set ((dg_latest (graph_in p), T0) # V)"
  shows "phase_ok crc (put_graph p (repin (graph_in p) P)) T0 V'"
proof (cases p)
  case (Idle G)
  have sub': "set ((dg_latest G, T0) # V') \<subseteq> set ((dg_latest G, T0) # V)" using sub Idle by auto
  from p Idle consider "graph_ok G T0 V" | "dg_poisoned G" "readable G ((dg_latest G, T0) # V)" by (auto simp: phase_ok_def)
  then show ?thesis
  proof cases
    case 1
    then show ?thesis using graph_ok_repin [OF 1, of P V'] v sub Idle by (simp add: phase_ok_def)
  next
    case 2
    then show ?thesis using readable_repin [OF 2(2) _ sub', of P] v Idle by (simp add: phase_ok_def)
  qed
next
  case (Held W)
  then obtain G T where g: "guard_ok crc G T0 W T V" using p by (auto simp: phase_ok_def)
  have l: "dg_latest (wr_graph W) = dg_latest G" by (rule guard_core(3) [OF g])
  have "guard_ok crc G T0 (with_graph W (repin (wr_graph W) P)) T V'"
    by (rule guard_ok_repin [OF g]) (use v sub Held l in simp_all)
  then show ?thesis using Held by (auto simp: phase_ok_def)
qed

lemma put_graph_sel [simp]: "graph_in (put_graph p G) = G"
  by (cases p) simp_all

text \<open>Cloning a view, the latest one included, and dropping one.\<close>

lemma phase_clone:
  assumes p: "phase_ok crc p T0 V" and m: "(s, U) \<in> set ((dg_latest (graph_in p), T0) # V)"
    and c: "snapshot_clone (graph_in p) s = (s', G)"
  shows "s' = s" and "phase_ok crc (put_graph p G) T0 ((s, U) # V)" and "dg_latest G = dg_latest (graph_in p)"
    and "dg_num_vertices G = dg_num_vertices (graph_in p)"
proof -
  let ?G = "graph_in p"
  note r = phase_ok_readable [OF p]
  have v: "views_ok ?G ((dg_latest ?G, T0) # V)" using r by (simp add: readable_def)
  note e = snapshot_clone_eq [OF readable_view [OF r m]]
  define P where "P = pins_register (ar_pins (dg_arena ?G)) (sn_epoch s)"
  have G: "G = repin ?G P" and s': "s' = s" using e c by (simp_all add: P_def)
  have "views_ok (repin ?G P) ((s, U) # (dg_latest ?G, T0) # V)" unfolding P_def by (rule views_add [OF v readable_view [OF r m]])
  then have "views_ok (repin ?G P) ((dg_latest ?G, T0) # (s, U) # V)"
    using views_mset [of "(s, U) # (dg_latest ?G, T0) # V" "(dg_latest ?G, T0) # (s, U) # V"] by simp
  then show "phase_ok crc (put_graph p G) T0 ((s, U) # V)" unfolding G by (rule phase_ok_repin [OF p]) (use m in auto)
  show "s' = s" "dg_latest G = dg_latest ?G" "dg_num_vertices G = dg_num_vertices ?G" using s' G by simp_all
qed

lemma phase_release:
  assumes p: "phase_ok crc p T0 V" and m: "(s, U) \<in> set V" and d: "snapshot_drop (graph_in p) s = Some G"
  shows "phase_ok crc (put_graph p G) T0 (remove1 (s, U) V)" and "dg_latest G = dg_latest (graph_in p)"
    and "dg_num_vertices G = dg_num_vertices (graph_in p)"
proof -
  let ?G = "graph_in p" and ?V = "(dg_latest (graph_in p), T0) # V"
  note r = phase_ok_readable [OF p]
  have v: "views_ok ?G ?V" using r by (simp add: readable_def)
  have m': "(s, U) \<in> set ?V" using m by simp
  from views_remove [OF v m'] obtain P where P: "pins_release (ar_pins (dg_arena ?G)) (sn_epoch s) = Some P"
    "views_ok (repin ?G P) (remove1 (s, U) ?V)" by blast
  have G: "G = repin ?G P" using snapshot_drop_eq [OF readable_view [OF r m'] P(1)] d by simp
  have "mset (remove1 (s, U) ?V) = mset ((dg_latest ?G, T0) # remove1 (s, U) V)" using m by (auto simp: add_mset_diff_bothsides)
  then have "views_ok (repin ?G P) ((dg_latest ?G, T0) # remove1 (s, U) V)" using P(2) views_mset by blast
  then show "phase_ok crc (put_graph p G) T0 (remove1 (s, U) V)" unfolding G
    by (rule phase_ok_repin [OF p]) (use set_remove1_subset [of "(s, U)" V] in auto)
  show "dg_latest G = dg_latest ?G" "dg_num_vertices G = dg_num_vertices ?G" using G by simp_all
qed


subsection \<open>Inserts\<close>

text \<open>The trees at the roots are known to the caller's side condition.\<close>

lemma room_forD:
  assumes "room_for W v P" and wf: "writer_wf H W T Lc Li" and v: "unat v < dg_num_vertices (wr_graph W)"
  shows "P (T (unat v))"
proof -
  have "dg_roots (wr_graph W) ! unat v = root_word (T (unat v))" using wf v by (simp add: writer_wf_def Let_def)
  moreover have "tree_ok (wr_store W) (dg_num_vertices (wr_graph W)) (T (unat v))"
    by (rule forest_tree_ok [OF writer_wf_forest [OF wf] v])
  ultimately show ?thesis using assms(1) v by (simp add: room_for_def Let_def)
qed

lemma edge_step:
  assumes g: "guard_ok crc G T0 W T S" and room: "room_for W src low"
  shows "\<exists>r W' T'. insert_edge crc W src dst = Some (r, W') \<and> guard_ok crc G T0 W' T' S \<and> edge_done W T src dst r W' T' \<and>
    (r = Inl (VertexOutOfRange src dst) \<longleftrightarrow> dg_num_vertices G \<le> unat src \<or> dg_num_vertices G \<le> unat dst) \<and>
    (\<forall>s d. r = Inl (VertexOutOfRange s d) \<longrightarrow> s = src \<and> d = dst) \<and> (wr_wal_failed W \<longrightarrow> r \<noteq> Inr True)"
proof -
  let ?H = "held_views (wr_graph W) ((dg_latest G, T0) # S)"
  obtain Lc Li where wf: "writer_wf ?H W T Lc Li" using g unfolding guard_ok_def sound_def Let_def by blast
  have nv: "dg_num_vertices (wr_graph W) = dg_num_vertices G" by (rule guard_core(2) [OF g])
  obtain r W' T' Lc' Li' where run: "insert_edge crc W src dst = Some (r, W')" "writer_wf ?H W' T' Lc' Li'" "edge_done W T src dst r W' T'"
    "r = Inl (VertexOutOfRange src dst) \<longleftrightarrow> dg_num_vertices G \<le> unat src \<or> dg_num_vertices G \<le> unat dst"
    "\<forall>s d. r = Inl (VertexOutOfRange s d) \<longrightarrow> s = src \<and> d = dst" "wr_wal_failed W \<longrightarrow> r \<noteq> Inr True"
    "\<forall>rs. logged crc W rs \<longrightarrow> logged crc W' (if r = Inr True then rs @ records src [dst] else rs)"
    using insert_edge_ok [OF wf room_forD [OF room wf], of crc dst] unfolding nv by blast
  have rng: "unat src < dg_num_vertices (wr_graph W) \<or> r \<noteq> Inr True" using run(4) nv by auto
  have "grew crc W T W' T'" using edge_done_grew [OF run(3) rng] run(7) by blast
  moreover have "sound ?H W' T'" using run(2) unfolding sound_def by blast
  ultimately have "guard_ok crc G T0 W' T' S" by (rule guard_step [OF g])
  then show ?thesis using run(1,3-6) by blast
qed

lemma sorted_step:
  assumes g: "guard_ok crc G T0 W T S" and ds: "ssorted ds" and room: "room_for W src (\<lambda>t. fits t ds)"
  shows "\<exists>r W' T'. insert_edges_sorted crc W src ds = Some (r, W') \<and> batch_done W T src ds r W' T' \<and>
    ((\<exists>n. r = Inr n) \<or> wr_log W = retire_log_new \<longrightarrow> guard_ok crc G T0 W' T' S) \<and>
    ((\<exists>s d. r = Inl (VertexOutOfRange s d)) \<longleftrightarrow> ds \<noteq> [] \<and>
       (dg_num_vertices G \<le> unat src \<or> (\<exists>d\<in>set ds. dg_num_vertices G \<le> unat d)))"
proof -
  let ?H = "held_views (wr_graph W) ((dg_latest G, T0) # S)"
  obtain Lc Li where wf: "writer_wf ?H W T Lc Li" using g unfolding guard_ok_def sound_def Let_def by blast
  have nv: "dg_num_vertices (wr_graph W) = dg_num_vertices G" by (rule guard_core(2) [OF g])
  obtain r W' T' where run: "insert_edges_sorted crc W src ds = Some (r, W')" and bp: "batch_post ?H crc W T src ds r W' T'"
    and oor: "(\<exists>s d. r = Inl (VertexOutOfRange s d)) \<longleftrightarrow> ds \<noteq> [] \<and>
       (dg_num_vertices G \<le> unat src \<or> (\<exists>d\<in>set ds. dg_num_vertices G \<le> unat d))"
    using insert_edges_sorted_ok [OF wf ds room_forD [OF room wf], of crc] unfolding nv by blast
  have bd: "batch_done W T src ds r W' T'" and bl: "batch_logged crc W (T (unat src)) src ds r W'" using bp by (simp_all add: batch_post_def)
  have "guard_ok crc G T0 W' T' S" if ok: "(\<exists>n. r = Inr n) \<or> wr_log W = retire_log_new"
  proof (rule guard_step [OF g])
    show "sound ?H W' T'" using bp ok unfolding batch_post_def sound_def by (cases r) blast+
    have "unat src < dg_num_vertices (wr_graph W) \<or> ds = [] \<or> (\<exists>e. r = Inl e)" using oor nv by fastforce
    then show "grew crc W T W' T'" by (rule batch_done_grew [OF bd ssorted_distinct [OF ds] _ bl])
  qed
  then show ?thesis using run bd oor by blast
qed


lemma find_SomeD:
  assumes "find P xs = Some x"
  shows "x \<in> set xs" and "P x"
  using assms by (auto simp: find_Some_iff)

lemma insert_edges_ok:
  assumes wf: "writer_wf H W T Lc Li" and fits: "\<forall>e\<in>set es. in_range (dg_num_vertices (wr_graph W)) e \<Longrightarrow> batch_fits T es"
  shows "(\<exists>s d. (s, d) \<in> set es \<and> \<not> in_range (dg_num_vertices (wr_graph W)) (s, d) \<and>
      insert_edges crc W es = Some (Inl (VertexOutOfRange s d), W)) \<or>
    ((\<forall>e\<in>set es. in_range (dg_num_vertices (wr_graph W)) e) \<and>
     (\<exists>r W' T'. insert_edges crc W es = Some (r, W') \<and> runs_post H crc W T (sort es) 0 r W' T'))"
proof -
  let ?nv = "dg_num_vertices (wr_graph W)" and ?P = "\<lambda>(s, d). dg_num_vertices (wr_graph W) \<le> unat s \<or> dg_num_vertices (wr_graph W) \<le> unat d"
  show ?thesis
  proof (cases "find ?P es")
    case None
    then have r: "\<forall>e\<in>set es. in_range ?nv e" by (auto simp: find_None_iff in_range_def not_le)
    have b: "batch_fits T (sort es)" using fits [OF r] by (simp add: batch_fits_def dsts_of_def)
    obtain r' W' T' where "insert_runs crc W (sort es) 0 = Some (r', W')" "runs_post H crc W T (sort es) 0 r' W' T'"
      using insert_runs_ok [OF wf _ _ b, of crc 0] r by auto
    moreover have "insert_edges crc W es = insert_runs crc W (sort es) 0" using None by (simp add: insert_edges_def Let_def)
    ultimately show ?thesis using r by (intro disjI2) auto
  next
    case (Some e)
    obtain s d where sd: "e = (s, d)" by (cases e)
    note e = find_SomeD [OF Some]
    have "insert_edges crc W es = Some (Inl (VertexOutOfRange s d), W)" unfolding insert_edges_def Let_def Some sd by simp
    moreover have "\<not> in_range ?nv (s, d)" using e(2) sd by (auto simp: in_range_def)
    ultimately show ?thesis using e(1) sd by blast
  qed
qed

lemma batch_fitsI:
  assumes wf: "writer_wf H W T Lc Li" and room: "\<forall>s\<in>fst ` set es. room_for W s (\<lambda>t. fits t (dsts_of es s))"
    and r: "\<forall>e\<in>set es. in_range (dg_num_vertices (wr_graph W)) e"
  shows "batch_fits T es"
  unfolding batch_fits_def
proof
  fix s
  assume s: "s \<in> fst ` set es"
  then have "unat s < dg_num_vertices (wr_graph W)" using r by (auto simp: in_range_def)
  then show "fits (T (unat s)) (dsts_of es s)" using room_forD [OF _ wf] room s by blast
qed

lemma edges_step:
  assumes g: "guard_ok crc G T0 W T S" and room: "\<forall>s\<in>fst ` set es. room_for W s (\<lambda>t. fits t (dsts_of es s))"
  shows "(\<exists>s d. (s, d) \<in> set es \<and> \<not> in_range (dg_num_vertices G) (s, d) \<and>
      insert_edges crc W es = Some (Inl (VertexOutOfRange s d), W)) \<or>
    ((\<forall>e\<in>set es. in_range (dg_num_vertices G) e) \<and>
     (\<exists>r W' T'. insert_edges crc W es = Some (r, W') \<and>
       runs_post (held_views (wr_graph W) ((dg_latest G, T0) # S)) crc W T (sort es) 0 r W' T' \<and>
       ((\<exists>n. r = Inr n) \<longrightarrow> guard_ok crc G T0 W' T' S)))"
proof -
  let ?H = "held_views (wr_graph W) ((dg_latest G, T0) # S)"
  obtain Lc Li where wf: "writer_wf ?H W T Lc Li" using g unfolding guard_ok_def sound_def Let_def by blast
  have nv: "dg_num_vertices (wr_graph W) = dg_num_vertices G" by (rule guard_core(2) [OF g])
  have "guard_ok crc G T0 W' T' S" if rp: "runs_post ?H crc W T (sort es) 0 (Inr n) W' T'" for n W' T'
    by (rule guard_step [OF g]) (use rp in \<open>simp_all add: runs_post_def Let_def\<close>)
  then show ?thesis using insert_edges_ok [OF wf batch_fitsI [OF wf room], of crc] unfolding nv by blast
qed

subsection \<open>The invariant holds of every reachable state\<close>

lemma graph_ok_tree:
  assumes "graph_ok G T S" and "v < dg_num_vertices G"
  shows "tree_ok (dg_arena G) (dg_num_vertices G) (T v)"
  using assms forest_tree_ok unfolding graph_ok_def graph_wf_def Let_def by blast

lemma guard_live:
  assumes wf: "length (dg_roots G) = dg_num_vertices G" "\<forall>v<dg_num_vertices G. dg_roots G ! v = root_word (T v)"
    and t: "\<forall>v<dg_num_vertices G. tree_ok (dg_arena G) (dg_num_vertices G) (T v)" and nv: "dg_num_vertices G < 2 ^ 32 - 1"
  shows "has_edge G v d = Some (d \<in> set (view_nbrs (dg_num_vertices G) T v))"
    and "graph_degree G v = Some (length (view_nbrs (dg_num_vertices G) T v))"
proof -
  define t where "t = (if unat v < dg_num_vertices G then T (unat v) else None)"
  have "tree_ok (dg_arena G) (dg_num_vertices G) t" using t by (simp add: t_def)
  note rd = tree_ok_read [OF this nv]
  have "tree_for G v = tree_root t" using wf by (simp add: tree_for_def tree_root_def t_def)
  moreover have "nbrs t = view_nbrs (dg_num_vertices G) T v" by (simp add: t_def view_nbrs_def)
  ultimately show "has_edge G v d = Some (d \<in> set (view_nbrs (dg_num_vertices G) T v))"
    "graph_degree G v = Some (length (view_nbrs (dg_num_vertices G) T v))"
    using rd(1,3) by (simp_all add: has_edge_def graph_degree_def)
qed

lemma edges_of_view: "(unat v, unat d) \<in> edges_of nv T \<longleftrightarrow> d \<in> set (view_nbrs nv T v)"
proof -
  have "unat d \<in> unat ` X \<longleftrightarrow> d \<in> X" for X :: "u32 set" by (auto simp: word_unat_eq_iff [symmetric])
  then show ?thesis by (simp add: edges_of_def view_nbrs_def)
qed

lemma live_edges_eq:
  assumes wf: "length (dg_roots G) = dg_num_vertices G" "\<forall>v<dg_num_vertices G. dg_roots G ! v = root_word (T v)"
    and t: "\<forall>v<dg_num_vertices G. tree_ok (dg_arena G) (dg_num_vertices G) (T v)" and nv: "dg_num_vertices G < 2 ^ 32 - 1"
  shows "live_edges G = edges_of (dg_num_vertices G) T"
proof -
  let ?nv = "dg_num_vertices G"
  have h: "has_edge G v d = Some ((unat v, unat d) \<in> edges_of ?nv T)" for v d
    using guard_live(1) [OF assms] by (simp add: edges_of_view)
  have "x \<in> live_edges G \<longleftrightarrow> x \<in> edges_of ?nv T" for x
  proof
    assume e: "x \<in> edges_of ?nv T"
    then obtain s n where sn: "x = (s, n)" "s < ?nv" "n \<in> unat ` set (nbrs (T s))" unfolding edges_of_def by blast
    from sn(3) obtain d :: u32 where "n = unat d" by (elim imageE)
    then have x: "x = (s, unat d)" "s < ?nv" "(s, unat d) \<in> edges_of ?nv T" using sn e by simp_all
    have "unat (of_nat s :: u32) = s" using x(2) nv by (simp add: unat_of_nat)
    then have "x = (unat (of_nat s :: u32), unat d)" "has_edge G (of_nat s) d = Some True" using x(1,3) h [of "of_nat s" d] by simp_all
    then show "x \<in> live_edges G" unfolding live_edges_def by blast
  qed (use h in \<open>auto simp: live_edges_def\<close>)
  then show ?thesis by blast
qed

lemma graph_ok_live:
  assumes g: "graph_ok G T S"
  shows "has_edge G v d = Some ((unat v, unat d) \<in> edges_of (dg_num_vertices G) T)" and "live_edges G = edges_of (dg_num_vertices G) T"
proof -
  have w: "dg_num_vertices G < 2 ^ 32 - 1" "length (dg_roots G) = dg_num_vertices G" "\<forall>v<dg_num_vertices G. dg_roots G ! v = root_word (T v)"
    using g by (simp_all add: graph_ok_def graph_wf_def Let_def)
  have t: "\<forall>v<dg_num_vertices G. tree_ok (dg_arena G) (dg_num_vertices G) (T v)" using graph_ok_tree [OF g] by blast
  show "has_edge G v d = Some ((unat v, unat d) \<in> edges_of (dg_num_vertices G) T)"
    using guard_live(1) [OF w(2,3) t w(1)] by (simp add: edges_of_view)
  show "live_edges G = edges_of (dg_num_vertices G) T" by (rule live_edges_eq [OF w(2,3) t w(1)])
qed

lemma remove1_view:
  assumes "s \<in> set (map fst V)"
  shows "\<exists>U. (s, U) \<in> set V \<and> map fst (remove1 (s, U) V) = remove1 s (map fst V)"
  using assms
proof (induction V)
  case (Cons x V)
  obtain a b where x: "x = (a, b)" by (cases x)
  show ?case
  proof (cases "a = s")
    case False
    then obtain U where "(s, U) \<in> set V" "map fst (remove1 (s, U) V) = remove1 s (map fst V)" using Cons x by auto
    then show ?thesis using False x by (intro exI [of _ U]) auto
  qed (use x in \<open>auto intro: exI [of _ b]\<close>)
qed simp

lemma hist_ok_sub: "hist_ok h nv V \<Longrightarrow> set V' \<subseteq> set V \<Longrightarrow> hist_ok h nv V'"
  unfolding hist_ok_def by blast

lemma api_inv_heldI:
  assumes "guard_ok crc G T0 W' T' V" and "map fst V = S" and "hist_ok h (dg_num_vertices G) ((dg_latest G, T0) # V)"
  shows "api_inv crc (Held W', S, h)"
  using assms guard_core(2,3) [OF assms(1)] unfolding api_inv_def phase_ok_def
  by (intro case_prodI exI [of _ T0] exI [of _ V]) auto

lemma api_inv_held:
  assumes "api_inv crc (Held W, S, h)"
  obtains G T0 T V where "guard_ok crc G T0 W T V" "map fst V = S" "hist_ok h (dg_num_vertices G) ((dg_latest G, T0) # V)"
proof -
  from assms obtain T0 V G T where *: "map fst V = S" "guard_ok crc G T0 W T V"
    "hist_ok h (dg_num_vertices (wr_graph W)) ((dg_latest (wr_graph W), T0) # V)"
    by (auto simp: api_inv_def phase_ok_def)
  show thesis by (rule that [OF *(2,1)]) (use *(3) guard_core(2,3) [OF *(2)] in simp)
qed

lemma drop_inv:
  assumes inv: "api_inv crc (Held W, S, h)" and run: "writer_drop panicking W = Some G'"
    and clk: "clock_current (dg_epoch (wr_graph W)) < U64_MAX"
  shows "api_inv crc (Idle G', S, if dg_poisoned G' then h else h(sn_epoch (dg_latest G') := live_edges G'))"
proof -
  from inv obtain G T0 T V where g: "guard_ok crc G T0 W T V" and V: "map fst V = S"
    and h: "hist_ok h (dg_num_vertices G) ((dg_latest G, T0) # V)" by (rule api_inv_held)
  let ?nv = "dg_num_vertices G"
  show ?thesis
  proof (cases "panicking \<or> \<not> drop_durable W")
    case True
    then have a: "abandoned G W G'" using drop_abandons [OF g True] run by auto
    have "phase_ok crc (Idle G') T0 V" using abandoned_readable [OF g a] a by (simp add: phase_ok_def abandoned_def)
    then show ?thesis using V h a unfolding api_inv_def by (auto simp: abandoned_def)
  next
    case False
    have clk': "clock_current (dg_epoch G) < U64_MAX" using clk guard_core(4) [OF g] by simp
    have r: "writer_drop False W = Some G'" using False run by simp
    have ok: "graph_ok G' T V" and nv: "dg_num_vertices G' = ?nv" and rn: "renewed G T0 T G'"
      using drop_commits [OF g clk'] False r by auto
    have live: "live_edges G' = edges_of ?nv T" using graph_ok_live(2) [OF ok] nv by simp
    have vo: "views_ok (wr_graph W) ((dg_latest G, T0) # V)" using g by (simp add: guard_ok_def Let_def)
    let ?h = "h(sn_epoch (dg_latest G') := live_edges G')"
    have "?h (sn_epoch s) = edges_of ?nv U" if m: "(s, U) \<in> set V" for s U
    proof (cases "sn_epoch s = sn_epoch (dg_latest G')")
      case True
      have "sn_epoch s \<le> clock_current (dg_epoch G)" using vo m guard_core(4) [OF g] by (auto simp: views_ok_def view_ok_def Let_def)
      then have "dg_latest G' = dg_latest G" "edges_of ?nv T = edges_of ?nv T0" using rn True by (auto simp: renewed_def)
      then show ?thesis using h m True live by (auto simp: hist_ok_def)
    qed (use h m in \<open>auto simp: hist_ok_def\<close>)
    then have "hist_ok ?h ?nv ((dg_latest G', T) # V)" using live by (auto simp: hist_ok_def)
    moreover have "phase_ok crc (Idle G') T V" "\<not> dg_poisoned G'" using ok by (simp_all add: phase_ok_def graph_ok_def)
    ultimately show ?thesis using V nv unfolding api_inv_def by auto
  qed
qed

lemma drain_inv:
  assumes inv: "api_inv crc (Idle G, S, h)" and run: "graph_drain_dirty G = (ids, G')"
  shows "api_inv crc (Idle G', S, h)"
proof -
  from inv obtain T0 V where V: "map fst V = S" "phase_ok crc (Idle G) T0 V" "hist_ok h (dg_num_vertices G) ((dg_latest G, T0) # V)"
    unfolding api_inv_def by auto
  have G': "G' = G\<lparr>dg_dirty := clear_all (dg_dirty G)\<rparr>" using run by (simp add: graph_drain_dirty_def drain_dirty_def)
  have "phase_ok crc (Idle G') T0 V"
  proof (cases "graph_ok G T0 V")
    case True
    have w: "graph_wf G T0 ((dg_latest G, T0) # V)" using True by (simp add: graph_ok_def)
    then have "dirty_wf (dg_dirty G)" by (simp add: graph_wf_def Let_def)
    then have "dirty_wf (clear_all (dg_dirty G))" using drain_dirty_ok(3) [OF _ drain_dirty_def] by blast
    moreover have "views_ok G' X = views_ok G X" "held_views G' X = held_views G X" for X
      by (rule views_ok_cong held_views_cong; simp add: G')+
    ultimately have "graph_wf G' T0 ((dg_latest G', T0) # V)" using w by (simp add: graph_wf_def Let_def G' clear_all_def)
    then show ?thesis using True by (simp add: phase_ok_def graph_ok_def G')
  next
    case False
    then have "dg_poisoned G" "readable G ((dg_latest G, T0) # V)" using V(2) by (simp_all add: phase_ok_def)
    then show ?thesis using readable_cong [of G "(dg_latest G, T0) # V" G'] by (simp add: phase_ok_def G')
  qed
  then show ?thesis using V(1,3) unfolding api_inv_def by (auto simp: G')
qed

lemma api_inv_step:
  assumes "api_step crc x y" and "api_inv crc x"
  shows "api_inv crc y"
  using assms
proof (induction rule: api_step.induct)
  case (acquire p s G S h)
  then obtain T0 V where V: "map fst V = S" "phase_ok crc p T0 V" "hist_ok h (dg_num_vertices (graph_in p)) ((dg_latest (graph_in p), T0) # V)"
    unfolding api_inv_def by auto
  have m: "(dg_latest (graph_in p), T0) \<in> set ((dg_latest (graph_in p), T0) # V)" by simp
  note c = phase_clone [OF V(2) m acquire.hyps [unfolded graph_acquire_def]]
  show ?case unfolding api_inv_def case_prod_conv
    by (rule exI [of _ T0], rule exI [of _ "(dg_latest (graph_in p), T0) # V"]) (use V c in \<open>simp add: hist_ok_def\<close>)
next
  case (clone s S p s' G h)
  then obtain T0 V where V: "map fst V = S" "phase_ok crc p T0 V" "hist_ok h (dg_num_vertices (graph_in p)) ((dg_latest (graph_in p), T0) # V)"
    unfolding api_inv_def by auto
  then obtain U where m: "(s, U) \<in> set V" using clone.hyps(1) by auto
  then have m': "(s, U) \<in> set ((dg_latest (graph_in p), T0) # V)" by simp
  note c = phase_clone [OF V(2) m' clone.hyps(2)]
  show ?case unfolding api_inv_def case_prod_conv
    by (rule exI [of _ T0], rule exI [of _ "(s, U) # V"]) (use V c m in \<open>auto simp: hist_ok_def\<close>)
next
  case (release s S p G h)
  then obtain T0 V where V: "map fst V = S" "phase_ok crc p T0 V" "hist_ok h (dg_num_vertices (graph_in p)) ((dg_latest (graph_in p), T0) # V)"
    unfolding api_inv_def by auto
  obtain U where m: "(s, U) \<in> set V" "map fst (remove1 (s, U) V) = remove1 s S" using remove1_view [of s V] V(1) release.hyps(1) by auto
  note c = phase_release [OF V(2) m(1) release.hyps(2)]
  have "hist_ok h (dg_num_vertices (graph_in p)) ((dg_latest (graph_in p), T0) # remove1 (s, U) V)"
    by (rule hist_ok_sub [OF V(3)]) (use set_remove1_subset [of "(s, U)" V] in auto)
  then show ?case unfolding api_inv_def case_prod_conv
    by (intro exI [of _ T0] exI [of _ "remove1 (s, U) V"]) (use c m(2) in simp)
next
  case (guard G W S h)
  then obtain T0 V where V: "map fst V = S" "phase_ok crc (Idle G) T0 V" "hist_ok h (dg_num_vertices G) ((dg_latest G, T0) # V)"
    unfolding api_inv_def by auto
  have "\<not> dg_poisoned G" using guard.hyps by (auto simp: graph_writer_def split: if_splits)
  then have ok: "graph_ok G T0 V" using V(2) by (simp add: phase_ok_def)
  then have "guard_ok crc G T0 W T0 V" using guard_start(1) [OF ok] guard_start(2) [OF ok, of crc] guard.hyps by simp
  then show ?case using V(1,3) by (rule api_inv_heldI)
next
  case (edge W src dst r W' S h)
  from edge.prems obtain G T0 T V where g: "guard_ok crc G T0 W T V" "map fst V = S" "hist_ok h (dg_num_vertices G) ((dg_latest G, T0) # V)"
    by (rule api_inv_held)
  from edge_step [OF g(1) edge.hyps(2), of dst] edge.hyps(1) obtain T' where "guard_ok crc G T0 W' T' V" by auto
  then show ?case using g(2,3) by (rule api_inv_heldI)
next
  case (sorted W src ds r W' S h)
  from sorted.prems obtain G T0 T V where g: "guard_ok crc G T0 W T V" "map fst V = S" "hist_ok h (dg_num_vertices G) ((dg_latest G, T0) # V)"
    by (rule api_inv_held)
  from sorted_step [OF g(1) sorted.hyps(2,3)] sorted.hyps(1,4) obtain T' where "guard_ok crc G T0 W' T' V" by auto
  then show ?case using g(2,3) by (rule api_inv_heldI)
next
  case (batch W es n W' S h)
  from batch.prems obtain G T0 T V where g: "guard_ok crc G T0 W T V" "map fst V = S" "hist_ok h (dg_num_vertices G) ((dg_latest G, T0) # V)"
    by (rule api_inv_held)
  from edges_step [OF g(1) batch.hyps(2)] batch.hyps(1) obtain T' where "guard_ok crc G T0 W' T' V" by auto
  then show ?case using g(2,3) by (rule api_inv_heldI)
next
  case (drop panicking W G S h)
  then show ?case using drop_inv by blast
next
  case (drain G ids G' S h)
  then show ?case using drain_inv by blast
qed

text \<open>A fresh graph.\<close>

lemma graph_new_ok:
  assumes "graph_new_with_epoch nv bytes clock reg = Some G" and "nv < 2 ^ 32 - 1"
  shows "graph_ok G (\<lambda>_. None) []"
proof -
  obtain A where A: "arena_new bytes = Some A" and G: "G = \<lparr>dg_roots = replicate nv NULL_OFF, dg_arena =
      A\<lparr>ar_pins := pins_register (ar_pins A) (clock_current clock)\<rparr>, dg_registry = reg, dg_num_vertices = nv, dg_num_edges = 0,
      dg_dirty = dirty_new nv, dg_locked = False, dg_poisoned = False, dg_epoch = clock,
      dg_latest = empty_snapshot nv reg (clock_current clock), dg_scratch = scratch_new, dg_wal = None\<rparr>"
    using assms(1) by (auto simp: graph_new_with_epoch_def Let_def bind_eq_Some_conv)
  let ?V = "[(dg_latest G, \<lambda>_. None :: shape option)]" and ?P = "pins_register (ar_pins A) (clock_current clock)"
  have inv: "arena_inv (dg_arena G) {} {}" using arena_new_inv [OF A] by (simp add: G)
  have pn: "ar_pins A = pins_new" using A by (auto simp: arena_new_def Let_def bind_eq_Some_conv)
  have p: "pins_wf ?P \<and> pins_pinned ?P = {#clock_current clock#}"
    using pins_register_wf [OF pins_wf_new, of "clock_current clock"] by (simp add: pn)
  have e: "edges_of nv (\<lambda>_. None) = {}" by (simp add: edges_of_def)
  have "view_ok G (dg_latest G) (\<lambda>_. None)"
    using assms(2) rt_empty_wf [of nv] rt_empty_get [of nv] by (simp add: view_ok_def G empty_snapshot_def e shape_ok_def Let_def)
  then have v: "views_ok G ?V" using p by (simp add: views_ok_def G empty_snapshot_def)
  have "held_at (held_views G ?V) (dg_arena G) {} {}" by (rule held_atI) (simp_all add: held_views_def)
  then have "forest_at (held_views G ?V) (dg_arena G) {} {} nv (\<lambda>_. None) retire_log_new"
    using inv by (simp add: forest_at_def own_def retire_log_new_def)
  then have "graph_wf G (\<lambda>_. None) ?V"
    using v assms(2) dirty_new_wf [of nv] by (auto simp: graph_wf_def Let_def G dirty_new_def)
  then show ?thesis using e by (simp add: graph_ok_def G scratch_clean_def scratch_new_def)
qed

definition no_history :: history where
  "no_history = (\<lambda>_. {})"

lemma api_inv_reachable:
  assumes "(api_step crc)\<^sup>*\<^sup>* (Idle G, [], no_history) x" and "graph_new nv bytes reg = Some G" and "nv < 2 ^ 32 - 1"
  shows "api_inv crc x"
  using assms(1)
proof (induction rule: rtranclp_induct)
  case base
  have "graph_ok G (\<lambda>_. None) []" using graph_new_ok assms(2,3) unfolding graph_new_def by blast
  then show ?case unfolding api_inv_def phase_ok_def
    by (auto simp: hist_ok_def edges_of_def no_history_def intro: exI [of _ "\<lambda>_. None"])
qed (rule api_inv_step)

end
