(* ===== verification/Graph_Properties.thy ===== *)
theory Graph_Properties
  imports Graph_Api Stale_Marks
begin

section \<open>Properties of graphs, guards and snapshots\<close>

text \<open>
  What the public operations of \<^verbatim>\<open>DynamicGraph\<close>, \<^verbatim>\<open>Writer\<close> and \<^verbatim>\<open>Snapshot\<close> promise, over the edge set that
  \<^verbatim>\<open>has_edge\<close> answers for, and a small graph on which each promise is applied.
\<close>

subsection \<open>Reading a guarded graph\<close>

lemma guard_reads:
  assumes g: "guard_ok crc G T0 W T S"
  shows "has_edge (wr_graph W) v d = Some ((unat v, unat d) \<in> edges_of (dg_num_vertices G) T)"
    and "live_edges (wr_graph W) = edges_of (dg_num_vertices G) T"
proof -
  let ?G = "wr_graph W" and ?nv = "dg_num_vertices G"
  have nv: "dg_num_vertices ?G = ?nv" by (rule guard_core(2) [OF g])
  obtain Lc Li where wf: "writer_wf (held_views ?G ((dg_latest G, T0) # S)) W T Lc Li"
    using g unfolding guard_ok_def sound_def Let_def by blast
  have w: "dg_num_vertices ?G < 2 ^ 32 - 1" "length (dg_roots ?G) = dg_num_vertices ?G" "\<forall>v<dg_num_vertices ?G. dg_roots ?G ! v = root_word (T v)"
    using wf by (simp_all add: writer_wf_def Let_def)
  have t: "\<forall>v<dg_num_vertices ?G. tree_ok (dg_arena ?G) (dg_num_vertices ?G) (T v)"
    using forest_tree_ok [OF writer_wf_forest [OF wf]] by blast
  show "has_edge ?G v d = Some ((unat v, unat d) \<in> edges_of ?nv T)"
    using guard_live(1) [OF w(2,3) t w(1)] by (simp add: edges_of_view nv)
  show "live_edges ?G = edges_of ?nv T" using live_edges_eq [OF w(2,3) t w(1)] nv by simp
qed

subsection \<open>A small graph\<close>

definition demo_graph :: dynamic_graph where
  "demo_graph = the (graph_new 300 4096 7)"

lemma demo_graph_new: "graph_new 300 4096 7 = Some demo_graph"
proof -
  have "graph_new 300 4096 7 \<noteq> None"
    by (simp add: graph_new_def graph_new_with_epoch_def arena_new_def MAX_CAPACITY_def INTERIOR_SLOT_def assert_opt_def Let_def)
  then show ?thesis by (simp add: demo_graph_def)
qed

lemma demo_graph_ok: "graph_ok demo_graph (\<lambda>_. None) []"
  using graph_new_ok demo_graph_new unfolding graph_new_def by fastforce

lemma demo_guard_ok: "guard_ok crc demo_graph (\<lambda>_. None) (guard_of demo_graph) (\<lambda>_. None) []"
  by (rule guard_start(2) [OF demo_graph_ok])

lemma demo_sel:
  "dg_num_vertices demo_graph = 300" "dg_epoch demo_graph = 0" "dg_wal demo_graph = None" "dg_roots demo_graph = replicate 300 NULL_OFF"
  by (simp_all add: demo_graph_def graph_new_def graph_new_with_epoch_def arena_new_def MAX_CAPACITY_def INTERIOR_SLOT_def
      assert_opt_def Let_def clock_new_def)

lemma null_root: "NULL_OFF = root_word t \<Longrightarrow> tree_ok A n t \<Longrightarrow> t = None"
  using root_off_not_NULL by (cases t) fastforce+

lemma room_without_edges:
  assumes "dg_roots (wr_graph W) = replicate (dg_num_vertices (wr_graph W)) NULL_OFF" and "P None"
  shows "room_for W v P"
  unfolding room_for_def Let_def using assms by (auto dest: null_root)

lemma demo_room: "P None \<Longrightarrow> room_for (guard_of demo_graph) v P"
  by (rule room_without_edges) (simp_all add: guard_of_def demo_sel)

lemma demo_edge: "\<exists>W'. insert_edge crc (guard_of demo_graph) 1 2 = Some (Inr True, W') \<and> drop_durable W'"
  by (simp add: guard_of_def demo_graph_def edge_eval clock_new_def clock_current_def NO_SLOT_def drop_durable_def)

lemma demo_session:
  obtains W T where "insert_edge crc (guard_of demo_graph) 1 2 = Some (Inr True, W)" "drop_durable W"
    "guard_ok crc demo_graph (\<lambda>_. None) W T []" "live_edges (wr_graph W) = {(1, 2)}" "clock_current (dg_epoch demo_graph) < U64_MAX"
proof -
  obtain W where run: "insert_edge crc (guard_of demo_graph) 1 2 = Some (Inr True, W)" "drop_durable W" using demo_edge by blast
  obtain T where g: "guard_ok crc demo_graph (\<lambda>_. None) W T []" and ed: "edge_done (guard_of demo_graph) (\<lambda>_. None) 1 2 (Inr True) W T"
    using edge_step [OF demo_guard_ok [of crc] demo_room [of low 1], where dst = 2] run(1) by auto
  have "live_edges (wr_graph W) = {(1, 2)}"
    unfolding guard_reads(2) [OF g] using ed by (auto simp: edge_done_def edges_of_def demo_sel split: if_splits)
  then show thesis using that [OF run g] by (simp add: demo_sel clock_current_def U64_MAX_def)
qed


subsection \<open>Inserts\<close>

text \<open>C1 \<^verbatim>\<open>Writer::insert_edge\<close> is an insertion into the edge set: it returns true exactly when the edge was absent,
  adds that edge and no other, and every error leaves the edge set as it was; the range error is
  reported exactly for a vertex out of range, before the log is touched. The guard stays well formed on every outcome, so readers keep
  their snapshots.\<close>

theorem insert_edge_refines_set:
  assumes "guard_ok crc G T0 W T S" and "room_for W src low"
  shows "\<exists>r W' T'. insert_edge crc W src dst = Some (r, W') \<and> guard_ok crc G T0 W' T' S \<and>
    (case r of
       Inr new \<Rightarrow> new = ((unat src, unat dst) \<notin> live_edges (wr_graph W)) \<and>
         live_edges (wr_graph W') = insert (unat src, unat dst) (live_edges (wr_graph W)) \<and>
         wr_pending_edges W' = wr_pending_edges W + (if new then 1 else 0)
     | Inl e \<Rightarrow> live_edges (wr_graph W') = live_edges (wr_graph W) \<and> wr_pending_edges W' = wr_pending_edges W \<and>
         (e = VertexOutOfRange src dst \<longleftrightarrow> dg_num_vertices G \<le> unat src \<or> dg_num_vertices G \<le> unat dst))"
proof -
  let ?nv = "dg_num_vertices G"
  from edge_step [OF assms, of dst] obtain r W' T' where e: "insert_edge crc W src dst = Some (r, W')" "guard_ok crc G T0 W' T' S"
    "edge_done W T src dst r W' T'" "r = Inl (VertexOutOfRange src dst) \<longleftrightarrow> ?nv \<le> unat src \<or> ?nv \<le> unat dst" by blast
  note l = guard_reads(2) [OF assms(1)] and l' = guard_reads(2) [OF e(2)]
  have m: "dst \<in> set (nbrs (T (unat src))) \<longleftrightarrow> (unat src, unat dst) \<in> edges_of ?nv T" if "unat src < ?nv"
    using that by (simp add: edges_of_view view_nbrs_def)
  show ?thesis
  proof (cases r)
    case (Inl x)
    then have "still W W'" "T' = T" using e(3) by (simp_all add: edge_done_def)
    then show ?thesis using e(1,2,4) Inl l l' by (intro exI [of _ r] exI [of _ W'] exI [of _ T']) (simp add: still_def)
  next
    case (Inr new)
    then have s: "unat src < ?nv" "unat dst < ?nv" using e(4) by auto
    show ?thesis
    proof (cases new)
      case True
      then obtain t' where t': "dst \<notin> set (nbrs (T (unat src)))" "T' = T(unat src := Some t')"
        "set (elems t') = insert dst (set (nbrs (T (unat src))))" "wr_pending_edges W' = wr_pending_edges W + 1"
        using e(3) Inr by (auto simp: edge_done_def)
      have "edges_of ?nv T' = insert (unat src, unat dst) (edges_of ?nv T)"
        using s t'(3) unfolding t'(2) edges_of_def by (auto split: if_splits)
      then show ?thesis using e(1,2) Inr True m [OF s(1)] t'(1,4) l l'
        by (intro exI [of _ r] exI [of _ W'] exI [of _ T']) simp
    next
      case False
      then have "still W W'" "T' = T" "dst \<in> set (nbrs (T (unat src)))" using e(3) Inr by (simp_all add: edge_done_def)
      then show ?thesis using e(1,2) Inr False m [OF s(1)] l l'
        by (intro exI [of _ r] exI [of _ W'] exI [of _ T']) (simp add: still_def insert_absorb)
    qed
  qed
qed

theorem insert_edge_refines_set_witness:
  "\<exists>W'. insert_edge (\<lambda>_. 0) (guard_of demo_graph) 1 2 = Some (Inr True, W') \<and>
     live_edges (wr_graph W') = insert (1, 2) (live_edges (wr_graph (guard_of demo_graph)))"
proof -
  obtain W' where "insert_edge (\<lambda>_. 0) (guard_of demo_graph) 1 2 = Some (Inr True, W')" using demo_edge by blast
  then show ?thesis using insert_edge_refines_set [OF demo_guard_ok [of "\<lambda>_. 0"] demo_room [of low 1], where dst = 2] by auto
qed



text \<open>An empty tree takes every batch by the rebuild.\<close>

lemma fits_empty:
  assumes "length ds < 2 ^ 32"
  shows "fits None ds"
proof -
  let ?k = "length ds"
  have "prefer_path_copy 0 ?k \<longleftrightarrow> min (?k + ?k) (2 ^ 64 - 1) < 2 * div_ceil ?k 15"
    by (simp add: prefer_path_copy_def CHUNK_CAP_def div_ceil_def ilog2.simps [of "Suc 0"] mult_2_right)
  moreover have "div_ceil ?k 15 \<le> ?k" by (simp add: div_ceil_def)
  ultimately have "\<not> prefer_path_copy 0 ?k" using assms by simp
  then show ?thesis by (simp add: fits_def)
qed

lemma dsts_of_length: "\<forall>e\<in>set es. unat (snd e) < nv \<Longrightarrow> length (dsts_of es s) \<le> nv"
  by (rule ssorted_bounded [OF dsts_of_ok(1)]) (auto simp: dsts_of_ok(2))



subsection \<open>The drop of a guard\<close>

text \<open>C4 Dropping a guard whose log is durable commits it: the live graph keeps the guard's edge set, the latest
  snapshot now reads exactly that set, the edge counter is its size, the clock moves by one, the dirty marks are
  in the bitmap, and the graph is ready for the next guard with the retire log empty.\<close>

theorem commit_publishes:
  assumes "guard_ok crc G T0 W T S" and "clock_current (dg_epoch G) < U64_MAX" and "drop_durable W"
  shows "\<exists>G'. writer_drop False W = Some G' \<and> graph_ok G' T S \<and> live_edges G' = live_edges (wr_graph W) \<and>
    (\<forall>v d. snapshot_has_edge (dg_latest G') G' v d = Some ((unat v, unat d) \<in> live_edges (wr_graph W))) \<and>
    dg_num_edges G' = card (live_edges (wr_graph W)) \<and> current_epoch G' = current_epoch G + 1 \<and>
    dirty_set (dg_dirty G') = marks W \<and> (\<exists>W'. graph_writer id G' = Inr W')"
proof -
  let ?nv = "dg_num_vertices G"
  from drop_commits [OF assms] obtain G' where G': "writer_drop False W = Some G'" "graph_ok G' T S" "dirty_set (dg_dirty G') = marks W"
    "dg_epoch G' = Suc (clock_current (dg_epoch G))" "dg_num_vertices G' = ?nv" "dg_num_edges G' = card (edges_of ?nv T)" by blast
  note l = guard_reads(2) [OF assms(1)] and l' = graph_ok_live(2) [OF G'(2)]
  have "snapshot_has_edge (dg_latest G') G' v d = Some ((unat v, unat d) \<in> edges_of ?nv T)" for v d
    using readable_reads(1) [OF graph_ok_readable [OF G'(2)], of "dg_latest G'" T v d] G'(5) by (simp add: edges_of_view)
  then show ?thesis using G' l l' guard_start(1) [OF G'(2)]
    by (intro exI [of _ G']) (simp add: current_epoch_def clock_current_def)
qed

theorem commit_publishes_witness:
  "\<exists>W' G'. insert_edge (\<lambda>_. 0) (guard_of demo_graph) 1 2 = Some (Inr True, W') \<and> writer_drop False W' = Some G' \<and>
     snapshot_has_edge (dg_latest G') G' 1 2 = Some True \<and> dg_num_edges G' = 1"
proof -
  obtain W T where W: "insert_edge (\<lambda>_. 0) (guard_of demo_graph) 1 2 = Some (Inr True, W)" "drop_durable W"
    "guard_ok (\<lambda>_. 0) demo_graph (\<lambda>_. None) W T []" "live_edges (wr_graph W) = {(1, 2)}" "clock_current (dg_epoch demo_graph) < U64_MAX"
    by (rule demo_session)
  show ?thesis using commit_publishes [OF W(3,5,2)] W(1) by (auto simp: W(4))
qed


text \<open>C6 A guard that panics, whose append failed or whose sync fails at the drop publishes nothing and poisons the
  graph: the latest snapshot, the edge counter and the clock stay those of the last commit, every
  snapshot held still reads what it read when the guard was taken, and no writer is handed out again, not even
  to a caller that passed its first poison check before the drop.\<close>

theorem failed_drop_poisons:
  assumes "guard_ok crc G T0 W T S" and "panicking \<or> \<not> drop_durable W"
  shows "\<exists>G'. writer_drop panicking W = Some G' \<and> dg_latest G' = dg_latest G \<and> dg_num_edges G' = dg_num_edges G \<and>
    current_epoch G' = current_epoch G \<and>
    (\<forall>s\<in>insert (dg_latest G) (fst ` set S). \<forall>v d. snapshot_has_edge s G' v d = snapshot_has_edge s (wr_graph W) v d \<and>
       snapshot_has_edge s G' v d \<noteq> None) \<and>
    (\<forall>H. graph_writer (\<lambda>_. G') H = Inl (Poisoned, H) \<or> graph_writer (\<lambda>_. G') H = Inl (Poisoned, G'))"
proof -
  from drop_abandons [OF assms] obtain G' where G': "writer_drop panicking W = Some G'" "abandoned G W G'" by blast
  have l: "dg_latest G' = dg_latest G" and nv: "dg_num_vertices G' = dg_num_vertices (wr_graph W)"
    using G'(2) guard_core(2) [OF assms(1)] by (simp_all add: abandoned_def)
  note r = guard_ok_readable [OF assms(1)] and r' = abandoned_readable [OF assms(1) G'(2), unfolded l]
  have "snapshot_has_edge s G' v d = snapshot_has_edge s (wr_graph W) v d \<and> snapshot_has_edge s G' v d \<noteq> None"
    if m: "s \<in> insert (dg_latest G) (fst ` set S)" for s v d
  proof -
    obtain U where "(s, U) \<in> set ((dg_latest G, T0) # S)" using m by force
    then show ?thesis using readable_reads(1) [OF r] readable_reads(1) [OF r'] nv by simp
  qed
  moreover have "graph_writer (\<lambda>_. G') H = Inl (Poisoned, H) \<or> graph_writer (\<lambda>_. G') H = Inl (Poisoned, G')" for H
    using G'(2) by (simp add: graph_writer_def abandoned_def)
  moreover have "dg_latest G' = dg_latest G \<and> dg_num_edges G' = dg_num_edges G \<and> current_epoch G' = current_epoch G"
    using G'(2) by (simp add: abandoned_def current_epoch_def)
  ultimately show ?thesis using G'(1) by blast
qed

theorem failed_drop_poisons_witness:
  "\<exists>W G'. insert_edge (\<lambda>_. 0) (guard_of demo_graph) 1 2 = Some (Inr True, W) \<and> writer_drop True W = Some G' \<and>
     dg_num_edges G' = 0 \<and> snapshot_has_edge (dg_latest demo_graph) G' 1 2 = Some False"
proof -
  obtain W T where W: "insert_edge (\<lambda>_. 0) (guard_of demo_graph) 1 2 = Some (Inr True, W)"
    "guard_ok (\<lambda>_. 0) demo_graph (\<lambda>_. None) W T []" using demo_session by metis
  have "snapshot_has_edge (dg_latest demo_graph) (wr_graph W) 1 2 = Some False"
    using readable_reads(1) [OF guard_ok_readable [OF W(2)], of "dg_latest demo_graph" "\<lambda>_. None" 1 2] by (simp add: view_nbrs_def)
  moreover have "dg_num_edges demo_graph = 0" using demo_graph_ok by (simp add: graph_ok_def edges_of_def)
  ultimately show ?thesis using failed_drop_poisons [OF W(2), of True] W(1) by auto
qed

subsection \<open>Snapshots\<close>

lemma card_dsts: "card {d. (v, d) \<in> edges_of nv U} = (if v < nv then length (remdups (nbrs (U v))) else 0)"
proof (cases "v < nv")
  case True
  have "{d. (v, d) \<in> edges_of nv U} = unat ` set (nbrs (U v))" using True by (auto simp: edges_of_def)
  moreover have "inj_on unat (set (nbrs (U v)))" by (rule inj_onI) (simp add: word_unat_eq_iff)
  ultimately show ?thesis using True by (simp add: card_image length_remdups_card_conv)
qed (simp add: edges_of_def)



end
