(* ===== verification/Compact.thy ===== *)
theory Compact
  imports Graph
begin

section \<open>Compaction: a parallel rebuild into a fresh arena\<close>

text \<open>
  Models \<^verbatim>\<open>crates/aether-graph/src/compact.rs\<close>. The threads of the rebuild run interleaved: \<open>sched\<close> names, step by
  step, the thread that builds its next vertex; a step of a thread that is done, or of no thread, does
  nothing. The scope joins all threads, so what \<open>sched\<close> leaves over runs at the end. A tree is one step: threads
  write into disjoint slots of the arena and into disjoint parts of the root vector. \<open>par\<close> is the answer of
  \<^verbatim>\<open>available_parallelism\<close>, \<open>registry\<close> the identity of the new arena's pin registry.
\<close>

datatype compact_error = CompactPoisoned | CompactArenaFull | CompactPinned

subsection \<open>The partition\<close>

definition compact_threads :: "nat option \<Rightarrow> nat \<Rightarrow> nat" where
  "compact_threads par num_edges =
     (let threads = min 16 (max 1 (case par of Some n \<Rightarrow> n | None \<Rightarrow> 1)) in if num_edges < 2 ^ 20 then 1 else threads)"

text \<open>\<^verbatim>\<open>partition_point\<close> on offsets, which ascend.\<close>

definition partition_point :: "nat list \<Rightarrow> nat \<Rightarrow> nat" where
  "partition_point offsets target = length (takeWhile (\<lambda>x. x < target) offsets)"

fun bounds_loop :: "nat list \<Rightarrow> nat \<Rightarrow> nat \<Rightarrow> nat \<Rightarrow> nat list \<Rightarrow> nat list \<Rightarrow> nat list" where
  "bounds_loop offsets num_edges threads nv [] bounds = bounds"
| "bounds_loop offsets num_edges threads nv (t # ts) bounds =
     (let target = num_edges * t div threads;
          v = min (partition_point offsets target) nv
      in bounds_loop offsets num_edges threads nv ts (bounds @ [max (last bounds) v]))"

definition compact_bounds :: "nat list \<Rightarrow> nat \<Rightarrow> nat \<Rightarrow> nat \<Rightarrow> nat list" where
  "compact_bounds offsets num_edges threads nv = bounds_loop offsets num_edges threads nv [1..<threads] [0] @ [nv]"

text \<open>The slots a range of vertices takes.\<close>

fun slot_totals :: "nat list \<Rightarrow> nat list \<Rightarrow> nat \<times> nat \<Rightarrow> (nat \<times> nat) option" where
  "slot_totals offsets [] (c, i) = Some (c, i)"
| "slot_totals offsets (v # vs) (c, i) = do {
     end \<leftarrow> nth_opt offsets (v + 1);
     start \<leftarrow> nth_opt offsets v;
     let (dc, di) = compact_slot_cost (end - start);
     slot_totals offsets vs (c + dc, i + di) }"

fun range_totals :: "nat list \<Rightarrow> nat list \<Rightarrow> (nat \<times> nat) list option" where
  "range_totals offsets (lo # hi # bounds) = do {
     t \<leftarrow> slot_totals offsets [lo..<hi] (0, 0);
     ts \<leftarrow> range_totals offsets (hi # bounds);
     Some (t # ts) }"
| "range_totals offsets _ = Some []"

subsection \<open>The threads\<close>

record compact_thread =
  th_region :: region_writer
  th_vertex :: nat
  th_end :: nat

fun spawn_threads :: "nat list \<Rightarrow> (nat \<times> nat) list \<Rightarrow> u32 \<Rightarrow> u32 \<Rightarrow> compact_thread list" where
  "spawn_threads (lo # hi # bounds) ((cc, ic) # totals) chunk_base interior_base =
     \<lparr>th_region = arena_region chunk_base (of_nat cc) interior_base (of_nat ic), th_vertex = lo, th_end = hi\<rparr>
     # spawn_threads (hi # bounds) totals (chunk_base + of_nat cc) (interior_base + of_nat ic)"
| "spawn_threads _ _ chunk_base interior_base = []"

definition rebuild_vertex :: "nat list \<Rightarrow> u32 list \<Rightarrow> nat \<Rightarrow> region_writer \<times> arena \<Rightarrow> (u32 \<times> region_writer \<times> arena) option" where
  "rebuild_vertex offsets edges v s = do {
     start \<leftarrow> nth_opt offsets v;
     end \<leftarrow> nth_opt offsets (v + 1);
     if start = end then Some (NULL_OFF, s)
     else do {
       vals \<leftarrow> slice_opt edges start end;
       build_balanced_region s vals } }"

definition rebuild_step :: "nat list \<Rightarrow> u32 list \<Rightarrow> nat \<Rightarrow> compact_thread list \<times> u32 list \<times> arena
    \<Rightarrow> (compact_thread list \<times> u32 list \<times> arena) option" where
  "rebuild_step offsets edges t = (\<lambda>(ths, roots, A).
     if t < length ths \<and> th_vertex (ths ! t) < th_end (ths ! t) then do {
       let v = th_vertex (ths ! t);
       (root, region, A) \<leftarrow> rebuild_vertex offsets edges v (th_region (ths ! t), A);
       roots \<leftarrow> set_opt roots v root;
       Some (ths[t := (ths ! t)\<lparr>th_region := region, th_vertex := v + 1\<rparr>], roots, A) }
     else Some (ths, roots, A))"

fun rebuild_run :: "nat list \<Rightarrow> u32 list \<Rightarrow> nat list \<Rightarrow> compact_thread list \<times> u32 list \<times> arena
    \<Rightarrow> (compact_thread list \<times> u32 list \<times> arena) option" where
  "rebuild_run offsets edges [] s = Some s"
| "rebuild_run offsets edges (t # ts) s = do { s \<leftarrow> rebuild_step offsets edges t s; rebuild_run offsets edges ts s }"

text \<open>The steps that finish every thread.\<close>

definition join_all :: "compact_thread list \<Rightarrow> nat list" where
  "join_all ths = concat (map (\<lambda>t. replicate (th_end (ths ! t) - th_vertex (ths ! t)) t) [0..<length ths])"

subsection \<open>Compaction\<close>

definition compact_with_capacity ::
  "nat option \<Rightarrow> nat list \<Rightarrow> nat \<Rightarrow> nat \<Rightarrow> dynamic_graph \<Rightarrow> (compact_error + dynamic_graph) option" where
  "compact_with_capacity par sched registry new_capacity G =
     (if dg_poisoned G then Some (Inl CompactPoisoned)
      else if 1 < pins_pin_count (ar_pins (dg_arena G)) then Some (Inl CompactPinned)
      else do {
        (offsets, edges) \<leftarrow> graph_snapshot_csr G;
        let nv = dg_num_vertices G;
        let threads = compact_threads par (length edges);
        let bounds = compact_bounds offsets (length edges) threads nv;
        totals \<leftarrow> range_totals offsets bounds;
        let total_chunks = sum_list (map fst totals);
        let total_interiors = sum_list (map snd totals);
        if new_capacity < total_chunks * CHUNK_SLOT + total_interiors * INTERIOR_SLOT then Some (Inl CompactArenaFull)
        else do {
          A \<leftarrow> arena_new new_capacity;
          let ths = spawn_threads bounds totals 0 0;
          (ths, roots, A) \<leftarrow> rebuild_run offsets edges (sched @ join_all ths) (ths, replicate nv NULL_OFF, A);
          let G = G\<lparr>dg_arena := commit_regions A total_chunks total_interiors, dg_registry := registry, dg_roots := roots\<rparr>;
          (snap, G) \<leftarrow> full_snapshot G (current_epoch G);
          let prev = dg_latest G;
          G \<leftarrow> snapshot_drop (G\<lparr>dg_latest := snap\<rparr>) prev;
          Some (Inr G) } })"

definition compact :: "nat option \<Rightarrow> nat list \<Rightarrow> nat \<Rightarrow> dynamic_graph \<Rightarrow> (compact_error + dynamic_graph) option" where
  "compact par sched registry G = compact_with_capacity par sched registry (ar_capacity (dg_arena G)) G"

end
