(* ===== verification/Compact_Facts.thy ===== *)
theory Compact_Facts
  imports Compact Graph_Api
begin

section \<open>Compaction keeps the graph\<close>

text \<open>
  \<open>chunks_below f k\<close> and \<open>interiors_below f k\<close> are the slots that the vertices below \<open>k\<close> take when vertex \<open>v\<close> has the
  neighbours \<open>f v\<close>. A thread that has come to vertex \<open>p\<close> writes next to exactly these positions, whatever the other
  threads have done; \<open>rebuilt_to\<close> says so of all threads, with the trees of the vertices built so far. It holds in every
  interleaving, and when all threads have joined it is the invariant of a graph.
\<close>

subsection \<open>The arrays of the old graph\<close>

definition offset_of :: "(nat \<Rightarrow> u32 list) \<Rightarrow> nat \<Rightarrow> nat" where
  "offset_of f k = length (concat (map f [0..<k]))"

lemma offset_of_simps [simp]: "offset_of f 0 = 0" "offset_of f (Suc v) = offset_of f v + length (f v)"
  by (simp_all add: offset_of_def)

lemma offset_of_mono: "a \<le> b \<Longrightarrow> offset_of f a \<le> offset_of f b"
  by (induction rule: dec_induct) simp_all

lemma csr_of_reads:
  fixes f :: "nat \<Rightarrow> u32 list"
  assumes "csr_of f [0..<nv] = (offsets, edges)"
  shows "k \<le> nv \<Longrightarrow> nth_opt offsets k = Some (offset_of f k)" and "length edges = offset_of f nv"
    and "v < nv \<Longrightarrow> slice_opt edges (offset_of f v) (offset_of f (Suc v)) = Some (f v)"
proof -
  have o: "offsets = map (offset_of f) [0..<Suc nv]" and e: "edges = concat (map f [0..<nv])"
    using assms by (auto simp: csr_of_def offset_of_def take_map min_def simp del: upt_Suc intro!: map_cong)
  show "nth_opt offsets k = Some (offset_of f k)" if "k \<le> nv" using that by (simp add: o nth_opt_def less_Suc_eq_le del: upt_Suc)
  show "length edges = offset_of f nv" by (simp add: e offset_of_def)
  show "slice_opt edges (offset_of f v) (offset_of f (Suc v)) = Some (f v)" if v: "v < nv"
  proof -
    have "[0..<nv] = [0..<v] @ v # [Suc v..<nv]" using v upt_add_eq_append [of 0 v "nv - v"] by (simp add: upt_conv_Cons)
    then have "edges = concat (map f [0..<v]) @ f v @ concat (map f [Suc v..<nv])" by (simp add: e)
    then show ?thesis by (simp add: slice_opt_def offset_of_def)
  qed
qed

subsection \<open>The partition\<close>

lemma sorted_last: "sorted bs \<Longrightarrow> b \<in> set bs \<Longrightarrow> b \<le> last (bs :: nat list)"
  by (induction bs) auto

lemma bounds_loop_ok:
  assumes "bounds \<noteq> []" and "sorted bounds" and "\<forall>b\<in>set bounds. b \<le> nv"
  shows "sorted (bounds_loop offs m thr nv ts bounds) \<and> (\<forall>b\<in>set (bounds_loop offs m thr nv ts bounds). b \<le> nv) \<and>
    hd (bounds_loop offs m thr nv ts bounds) = hd bounds \<and> length (bounds_loop offs m thr nv ts bounds) = length bounds + length ts"
  using assms
proof (induction ts arbitrary: bounds)
  case (Cons t ts)
  define v where "v = max (last bounds) (min (partition_point offs (m * t div thr)) nv)"
  have l: "last bounds \<in> set bounds" "\<forall>b\<in>set bounds. b \<le> last bounds"
    using Cons.prems(1,2) by (simp_all add: sorted_last)
  have "last bounds \<le> nv" using l(1) Cons.prems(3) by blast
  then have "v \<le> nv" "last bounds \<le> v" by (simp_all add: v_def)
  then have "sorted (bounds @ [v])" "\<forall>b\<in>set (bounds @ [v]). b \<le> nv"
    using Cons.prems(2,3) l(2) by (auto simp: sorted_append)
  from Cons.IH [OF _ this] show ?case using Cons.prems(1) by (simp add: Let_def hd_append flip: v_def)
qed simp

lemma compact_bounds_ok:
  assumes "1 \<le> thr"
  shows "sorted (compact_bounds offs m thr nv)" and "\<forall>b\<in>set (compact_bounds offs m thr nv). b \<le> nv"
    and "compact_bounds offs m thr nv \<noteq> []" and "hd (compact_bounds offs m thr nv) = 0" and "last (compact_bounds offs m thr nv) = nv"
  using assms bounds_loop_ok [of "[0]" nv offs m thr "[1..<thr]"]
  by (auto simp: compact_bounds_def sorted_append hd_append)

definition chunks_below :: "(nat \<Rightarrow> u32 list) \<Rightarrow> nat \<Rightarrow> nat" where
  "chunks_below f k = sum_list (map (\<lambda>v. leaves_of (length (f v))) [0..<k])"

definition interiors_below :: "(nat \<Rightarrow> u32 list) \<Rightarrow> nat \<Rightarrow> nat" where
  "interiors_below f k = sum_list (map (\<lambda>v. leaves_of (length (f v)) - 1) [0..<k])"

lemma below_simps [simp]:
  "chunks_below f 0 = 0" "chunks_below f (Suc v) = chunks_below f v + leaves_of (length (f v))"
  "interiors_below f 0 = 0" "interiors_below f (Suc v) = interiors_below f v + (leaves_of (length (f v)) - 1)"
  by (simp_all add: chunks_below_def interiors_below_def)

lemma below_mono: "a \<le> b \<Longrightarrow> chunks_below f a \<le> chunks_below f b" "a \<le> b \<Longrightarrow> interiors_below f a \<le> interiors_below f b"
  by (induction rule: dec_induct) simp_all

lemma interiors_le_chunks: "interiors_below f k \<le> chunks_below f k"
  by (induction k) simp_all

lemma leaves_of_0 [simp]: "leaves_of 0 = 0"
  by (simp add: leaves_of_def CHUNK_CAP_def)

lemma slot_cost_leaves: "compact_slot_cost n = (leaves_of n, leaves_of n - 1)"
  by (cases "n = 0") (simp_all add: compact_slot_cost_def leaves_of_def Let_def CHUNK_CAP_def)

lemma slot_totals_ok:
  assumes c: "csr_of f [0..<nv] = (offsets, edges)" and "lo \<le> hi" and "hi \<le> nv"
  shows "slot_totals offsets [lo..<hi] (c, i) = Some (c + (chunks_below f hi - chunks_below f lo), i + (interiors_below f hi - interiors_below f lo))"
  using assms(2,3)
proof (induction "hi - lo" arbitrary: lo c i)
  case (Suc d)
  have lt: "lo < hi" using Suc.hyps(2) by simp
  have u: "[lo..<hi] = lo # [Suc lo..<hi]" by (rule upt_conv_Cons [OF lt])
  have n: "nth_opt offsets (lo + 1) = Some (offset_of f lo + length (f lo))" "nth_opt offsets lo = Some (offset_of f lo)"
    using csr_of_reads(1) [OF c, of "lo + 1"] csr_of_reads(1) [OF c, of lo] lt Suc.prems by simp_all
  have "d = hi - Suc lo" using Suc.hyps(2) by simp
  note IH = Suc.hyps(1) [OF this _ Suc.prems(2)]
  have m: "chunks_below f lo + leaves_of (length (f lo)) \<le> chunks_below f hi"
    "interiors_below f lo + (leaves_of (length (f lo)) - 1) \<le> interiors_below f hi"
    using below_mono [of "Suc lo" hi f] lt by simp_all
  show ?case unfolding u using n IH m lt by (simp add: slot_cost_leaves)
qed simp

subsection \<open>The threads at their start\<close>

definition thread_at :: "(nat \<Rightarrow> u32 list) \<Rightarrow> nat \<Rightarrow> nat \<Rightarrow> compact_thread" where
  "thread_at f p hi = \<lparr>th_region = \<lparr>rw_next_chunk = of_nat (chunks_below f p), rw_chunk_end = of_nat (chunks_below f hi),
     rw_next_interior = of_nat (interiors_below f p), rw_interior_end = of_nat (interiors_below f hi)\<rparr>, th_vertex = p, th_end = hi\<rparr>"

lemma thread_at_simps [simp]:
  "th_vertex (thread_at f p hi) = p" "th_end (thread_at f p hi) = hi"
  "(thread_at f p hi)\<lparr>th_region := th_region (thread_at f (Suc p) hi), th_vertex := Suc p\<rparr> = thread_at f (Suc p) hi"
  by (simp_all add: thread_at_def)

lemma spawn_ok:
  assumes c: "csr_of f [0..<nv] = (offsets, edges)"
  shows "sorted bs \<Longrightarrow> \<forall>b\<in>set bs. b \<le> nv \<Longrightarrow> bs \<noteq> [] \<Longrightarrow>
    \<exists>tot. range_totals offsets bs = Some tot \<and>
      spawn_threads bs tot (of_nat (chunks_below f (hd bs))) (of_nat (interiors_below f (hd bs))) =
        map (\<lambda>t. thread_at f (bs ! t) (bs ! Suc t)) [0..<length bs - 1] \<and>
      sum_list (map fst tot) = chunks_below f (last bs) - chunks_below f (hd bs) \<and>
      sum_list (map snd tot) = interiors_below f (last bs) - interiors_below f (hd bs)"
proof (induction bs)
  case (Cons lo bs')
  show ?case
  proof (cases bs')
    case Nil
    then show ?thesis by simp
  next
  case bs': (Cons hi bs)
  have le: "lo \<le> hi" "hi \<le> nv" "sorted (hi # bs)" using Cons.prems bs' by auto
  let ?c = "chunks_below f hi - chunks_below f lo" and ?i = "interiors_below f hi - interiors_below f lo"
  note st = slot_totals_ok [OF c le(1,2), of 0 0]
  have "slot_totals offsets [lo..<hi] (0, 0) = Some (?c, ?i)" using st by simp
  obtain tot where tot: "range_totals offsets (hi # bs) = Some tot"
    "spawn_threads (hi # bs) tot (of_nat (chunks_below f hi)) (of_nat (interiors_below f hi)) =
      map (\<lambda>t. thread_at f ((hi # bs) ! t) ((hi # bs) ! Suc t)) [0..<length bs]"
    "sum_list (map fst tot) = chunks_below f (last (hi # bs)) - chunks_below f hi"
    "sum_list (map snd tot) = interiors_below f (last (hi # bs)) - interiors_below f hi"
    using Cons.IH Cons.prems(2) le(3) unfolding bs' by fastforce
  note m = below_mono [OF le(1), of f]
  have w: "of_nat (chunks_below f lo) + of_nat ?c = (of_nat (chunks_below f hi) :: u32)"
    "of_nat (interiors_below f lo) + of_nat ?i = (of_nat (interiors_below f hi) :: u32)"
    using m by (simp_all flip: of_nat_add)
  have "hi \<le> last (hi # bs)" using le(3) by (cases bs) auto
  note m2 = below_mono [OF this, of f]
  have u: "[0..<length (lo # hi # bs) - 1] = 0 # map Suc [0..<length bs]" by (simp add: upt_conv_Cons map_Suc_upt del: upt_Suc)
  show ?thesis using st tot m m2 w unfolding u bs'
    by (intro exI [of _ "(?c, ?i) # tot"]) (simp add: arena_region_def thread_at_def comp_def)
  qed
qed simp

subsection \<open>One tree\<close>

definition slots :: "nat \<Rightarrow> nat \<Rightarrow> u32 set" where
  "slots a b = {j. a \<le> unat j \<and> unat j < b}"

lemma build_balanced_keeps:
  assumes "\<And>s x r s'. pc s x = Some (r, s') \<Longrightarrow> g s' = g s" and "\<And>s x r s'. pi s x = Some (r, s') \<Longrightarrow> g s' = g s"
  shows "build_balanced pc pi s vals = Some (r, s') \<Longrightarrow> g s' = g s"
proof (induction "length vals" arbitrary: s vals r s' rule: less_induct)
  case less
  show ?case
  proof (cases "length vals \<le> CHUNK_CAP")
    case True
    then show ?thesis using less.prems assms(1) by (subst (asm) build_balanced.simps) (auto simp: bind_eq_Some_conv)
  next
    case False
    note sh = build_shorter [OF False]
    show ?thesis using less.prems less.hyps [OF sh(1)] less.hyps [OF sh(2)] assms(2) False
      by (subst (asm) build_balanced.simps) (fastforce simp: Let_def try_some_def bind_eq_Some_conv split: option.splits)
  qed
qed

definition arena_rest :: "arena \<Rightarrow> arena" where
  "arena_rest A = A\<lparr>ar_chunks := Map.empty, ar_interiors := Map.empty\<rparr>"

lemma region_build:
  assumes ne: "vals \<noteq> []" and srt: "ssorted vals" and len: "length vals < 2 ^ 32"
    and w: "w = \<lparr>rw_next_chunk = of_nat a, rw_chunk_end = of_nat b, rw_next_interior = of_nat c, rw_interior_end = of_nat d\<rparr>"
    and room: "a + leaves_of (length vals) \<le> b" "b < 2 ^ 31 - 1" "c + (leaves_of (length vals) - 1) \<le> d" "d < 2 ^ 31 - 1"
  shows "\<exists>s A'. build_balanced_region (w, A) vals = Some (root_off s, w\<lparr>rw_next_chunk := of_nat (a + leaves_of (length vals)),
      rw_next_interior := of_nat (c + (leaves_of (length vals) - 1))\<rparr>, A') \<and>
    stored A' s \<and> wf_shape s \<and> built s \<and> elems s = vals \<and> distinct (cslots s) \<and> distinct (islots s) \<and>
    set (cslots s) \<subseteq> slots a (a + leaves_of (length vals)) \<and> set (islots s) \<subseteq> slots c (c + (leaves_of (length vals) - 1)) \<and>
    keeps (- slots a b) (arena_chunk A) (arena_chunk A') \<and> keeps (- slots c d) (arena_interior A) (arena_interior A') \<and>
    arena_rest A' = arena_rest A"
proof -
  define n where "n = leaves_of (length vals)"
  have u: "unat (of_nat k :: u32) = k" if "k < 2 ^ 31 - 1" for k using that by (simp add: unat_of_nat)
  have U: "unat (of_nat a :: u32) = a" "unat (of_nat b :: u32) = b" "unat (of_nat c :: u32) = c" "unat (of_nat d :: u32) = d"
    using room by (auto intro!: u)
  let ?ce = "of_nat b :: u32" and ?ie = "of_nat d :: u32" and ?s = "(w, A)" and ?Lc = "- slots a b" and ?Li = "- slots c d"
  have inv: "region_inv ?ce ?ie ?s ?Lc ?Li" using room U by (auto simp: region_inv_def w slots_def word_le_nat_alt word_less_nat_alt)
  have bud: "region_budget ?s (leaves_of (length vals) + (b - a - n)) (leaves_of (length vals) - 1 + (d - c - (n - 1)))"
    using room U by (simp add: region_budget_def w n_def)
  obtain r s' where r: "build_balanced region_put_chunk region_put_interior ?s vals = Some (r, s')"
    "region_sink.build_post ?ce ?ie ?s ?Lc ?Li vals r s'" "r \<noteq> None \<longrightarrow> region_budget s' (b - a - n) (d - c - (n - 1))"
    using region_sink.build_balanced_ok [OF inv ne srt len bud] by blast
  have "r \<noteq> None" using region_sink.build_balanced_some [OF inv ne srt len bud, of s'] r(1) by auto
  then obtain off where off: "r = Some off" by blast
  obtain w' A' where s': "s' = (w', A')" by (cases s')
  obtain t where t: "off = root_off t" "stored A' t" "wf_shape t" "built t" "elems t = vals" "distinct (cslots t)" "distinct (islots t)"
    "set (cslots t) \<subseteq> slots a b" "set (islots t) \<subseteq> slots c d"
    "region_inv ?ce ?ie s' (?Lc \<union> set (cslots t)) (?Li \<union> set (islots t))"
    "keeps ?Lc (arena_chunk A) (arena_chunk A')" "keeps ?Li (arena_interior A) (arena_interior A')"
    using r(2) off s' unfolding region_sink.build_post_def by auto
  have e: "rw_chunk_end w' = ?ce" "rw_interior_end w' = ?ie" using t(10) by (simp_all add: s' region_inv_def)
  have "unat (rw_next_chunk w') + (b - a - n) = b" "unat (rw_next_interior w') + (d - c - (n - 1)) = d"
    using r(3) off e U unfolding s' region_budget_def by simp_all
  then have nx: "unat (rw_next_chunk w') = a + n" "unat (rw_next_interior w') = c + (n - 1)"
    using room(1,3) unfolding n_def by linarith+
  then have W: "w' = w\<lparr>rw_next_chunk := of_nat (a + n), rw_next_interior := of_nat (c + (n - 1))\<rparr>"
  proof -
    have "of_nat (a + n) = rw_next_chunk w'" "of_nat (c + (n - 1)) = rw_next_interior w'"
      unfolding nx [symmetric] by simp_all
    then show ?thesis using e by (simp add: w del: of_nat_add)
  qed
  have "set (cslots t) \<subseteq> slots a (a + n)" "set (islots t) \<subseteq> slots c (c + (n - 1))"
    using t(8-10) nx U unfolding s' region_inv_def slots_def by (auto simp: word_le_nat_alt word_less_nat_alt not_le [symmetric])
  moreover have "arena_rest A' = arena_rest A"
    using build_balanced_keeps [of region_put_chunk "\<lambda>s. arena_rest (snd s)" region_put_interior, OF _ _ r(1)] s'
    by (auto simp: region_put_chunk_def region_write_chunk_def region_put_interior_def region_write_interior_def Let_def arena_rest_def)
  moreover have "build_balanced_region ?s vals = Some (root_off t, w', A')" using r(1) off s' t(1) by (simp add: build_balanced_region_def)
  ultimately show ?thesis using t W by (auto simp: n_def)
qed

subsection \<open>The threads, interleaved\<close>

definition rebuilt :: "arena \<Rightarrow> (nat \<Rightarrow> u32 list) \<Rightarrow> nat \<Rightarrow> shape option \<Rightarrow> bool" where
  "rebuilt A f v s \<longleftrightarrow> (case s of None \<Rightarrow> f v = []
     | Some t \<Rightarrow> stored A t \<and> wf_shape t \<and> built t \<and> elems t = f v \<and> distinct (cslots t) \<and> distinct (islots t) \<and>
         set (cslots t) \<subseteq> slots (chunks_below f v) (chunks_below f (Suc v)) \<and>
         set (islots t) \<subseteq> slots (interiors_below f v) (interiors_below f (Suc v)))"

definition rebuilt_to :: "(nat \<Rightarrow> u32 list) \<Rightarrow> nat \<Rightarrow> nat list \<Rightarrow> arena \<Rightarrow> (nat \<Rightarrow> nat)
    \<Rightarrow> compact_thread list \<times> u32 list \<times> arena \<Rightarrow> (nat \<Rightarrow> shape option) \<Rightarrow> bool" where
  "rebuilt_to f nv bs A0 p s T \<longleftrightarrow> (case s of (ths, roots, A) \<Rightarrow>
     ths = map (\<lambda>t. thread_at f (p t) (bs ! Suc t)) [0..<length bs - 1] \<and> length roots = nv \<and> arena_rest A = arena_rest A0 \<and>
     (\<forall>t<length bs - 1. bs ! t \<le> p t \<and> p t \<le> bs ! Suc t \<and>
       (\<forall>v. bs ! t \<le> v \<longrightarrow> v < p t \<longrightarrow> rebuilt A f v (T v) \<and> roots ! v = root_word (T v))))"

lemma slots_apart: "b \<le> c \<or> d \<le> a \<Longrightarrow> slots a b \<subseteq> - slots c d"
  by (auto simp: slots_def)

lemma rebuilt_keeps:
  assumes "rebuilt A f u s" and "Suc u \<le> v \<or> hi \<le> u" and "v \<le> hi"
    and "keeps (- slots (chunks_below f v) (chunks_below f hi)) (arena_chunk A) (arena_chunk A')"
    and "keeps (- slots (interiors_below f v) (interiors_below f hi)) (arena_interior A) (arena_interior A')"
  shows "rebuilt A' f u s"
proof -
  have "slots (chunks_below f u) (chunks_below f (Suc u)) \<subseteq> - slots (chunks_below f v) (chunks_below f hi)"
    "slots (interiors_below f u) (interiors_below f (Suc u)) \<subseteq> - slots (interiors_below f v) (interiors_below f hi)"
    using assms(2) below_mono [of "Suc u" v f] below_mono [of hi u f] by (auto intro!: slots_apart simp del: below_simps)
  then show ?thesis using assms(1) stored_keeps [OF _ assms(4,5)] unfolding rebuilt_def by (auto split: option.splits)
qed

text \<open>What the rebuild needs of the old graph.\<close>

definition rebuildable :: "(nat \<Rightarrow> u32 list) \<Rightarrow> nat \<Rightarrow> nat list \<Rightarrow> nat list \<Rightarrow> u32 list \<Rightarrow> bool" where
  "rebuildable f nv bs offsets edges \<longleftrightarrow> csr_of f [0..<nv] = (offsets, edges) \<and> (\<forall>v<nv. ssorted (f v) \<and> length (f v) < 2 ^ 32) \<and>
     chunks_below f nv < 2 ^ 31 - 1 \<and> sorted bs \<and> (\<forall>b\<in>set bs. b \<le> nv)"

lemma rebuild_vertex_ok:
  assumes R: "rebuildable f nv bs offsets edges" and v: "v < hi" and hi: "hi \<le> nv"
  shows "\<exists>s A'. rebuild_vertex offsets edges v (th_region (thread_at f v hi), A) =
      Some (root_word s, th_region (thread_at f (Suc v) hi), A') \<and> rebuilt A' f v s \<and> arena_rest A' = arena_rest A \<and>
    keeps (- slots (chunks_below f v) (chunks_below f hi)) (arena_chunk A) (arena_chunk A') \<and>
    keeps (- slots (interiors_below f v) (interiors_below f hi)) (arena_interior A) (arena_interior A')"
proof -
  have c: "csr_of f [0..<nv] = (offsets, edges)" and f: "ssorted (f v)" "length (f v) < 2 ^ 32" and small: "chunks_below f nv < 2 ^ 31 - 1"
    using R v hi by (simp_all add: rebuildable_def)
  have vn: "v < nv" using v hi by simp
  have o: "nth_opt offsets v = Some (offset_of f v)" "nth_opt offsets (v + 1) = Some (offset_of f (Suc v))"
    using csr_of_reads(1) [OF c, of v] csr_of_reads(1) [OF c, of "v + 1"] vn by simp_all
  show ?thesis
  proof (cases "f v = []")
    case True
    then show ?thesis using o by (intro exI [of _ None] exI [of _ A]) (simp add: rebuild_vertex_def rebuilt_def thread_at_def)
  next
    case False
    have "chunks_below f (Suc v) \<le> chunks_below f hi" "interiors_below f (Suc v) \<le> interiors_below f hi"
      using below_mono [of "Suc v" hi f] v by simp_all
    moreover have "chunks_below f hi \<le> chunks_below f nv" "interiors_below f hi \<le> chunks_below f nv"
      using below_mono(1) [OF hi, of f] interiors_le_chunks [of f hi] by simp_all
    ultimately have room: "chunks_below f v + leaves_of (length (f v)) \<le> chunks_below f hi" "chunks_below f hi < 2 ^ 31 - 1"
      "interiors_below f v + (leaves_of (length (f v)) - 1) \<le> interiors_below f hi" "interiors_below f hi < 2 ^ 31 - 1"
      using small by simp_all
    have w: "th_region (thread_at f v hi) = \<lparr>rw_next_chunk = of_nat (chunks_below f v), rw_chunk_end = of_nat (chunks_below f hi),
      rw_next_interior = of_nat (interiors_below f v), rw_interior_end = of_nat (interiors_below f hi)\<rparr>" by (simp add: thread_at_def)
    obtain s A' where b: "build_balanced_region (th_region (thread_at f v hi), A) (f v) = Some (root_off s, th_region (thread_at f (Suc v) hi), A')"
      "rebuilt A' f v (Some s)" "arena_rest A' = arena_rest A"
      "keeps (- slots (chunks_below f v) (chunks_below f hi)) (arena_chunk A) (arena_chunk A')"
      "keeps (- slots (interiors_below f v) (interiors_below f hi)) (arena_interior A) (arena_interior A')"
      using region_build [OF False f w room, of A] by (auto simp: rebuilt_def thread_at_def)
    have "rebuild_vertex offsets edges v (th_region (thread_at f v hi), A) = Some (root_word (Some s), th_region (thread_at f (Suc v) hi), A')"
      using o csr_of_reads(3) [OF c vn] b(1) False by (simp add: rebuild_vertex_def)
    then show ?thesis using b(2-) by blast
  qed
qed

lemma rebuild_step_ok:
  assumes R: "rebuildable f nv bs offsets edges" and s: "rebuilt_to f nv bs A0 p s T" and t: "t < length bs - 1" "p t < bs ! Suc t"
  shows "\<exists>s' T'. rebuild_step offsets edges t s = Some s' \<and> rebuilt_to f nv bs A0 (p(t := Suc (p t))) s' T'"
proof -
  obtain ths roots A where S: "s = (ths, roots, A)" by (cases s)
  have ths: "ths = map (\<lambda>t. thread_at f (p t) (bs ! Suc t)) [0..<length bs - 1]" and len: "length roots = nv" and rest: "arena_rest A = arena_rest A0"
    and P: "\<And>t. t < length bs - 1 \<Longrightarrow> bs ! t \<le> p t \<and> p t \<le> bs ! Suc t"
    and D: "\<And>t v. t < length bs - 1 \<Longrightarrow> bs ! t \<le> v \<Longrightarrow> v < p t \<Longrightarrow> rebuilt A f v (T v) \<and> roots ! v = root_word (T v)"
    using s by (auto simp: rebuilt_to_def S)
  let ?v = "p t" and ?hi = "bs ! Suc t"
  have hi: "?hi \<le> nv" using R t(1) by (simp add: rebuildable_def)
  have bs: "bs ! i \<le> bs ! j" if "i \<le> j" "j < length bs" for i j using R that by (simp add: rebuildable_def sorted_nth_mono)
  obtain sh A' where b: "rebuild_vertex offsets edges ?v (th_region (thread_at f ?v ?hi), A) = Some (root_word sh, th_region (thread_at f (Suc ?v) ?hi), A')"
    "rebuilt A' f ?v sh" "arena_rest A' = arena_rest A"
    "keeps (- slots (chunks_below f ?v) (chunks_below f ?hi)) (arena_chunk A) (arena_chunk A')"
    "keeps (- slots (interiors_below f ?v) (interiors_below f ?hi)) (arena_interior A) (arena_interior A')"
    using rebuild_vertex_ok [OF R t(2) hi, of A] by blast
  let ?T = "T(?v := sh)" and ?p = "p(t := Suc ?v)" and ?roots = "roots[?v := root_word sh]"
  have tt: "ths ! t = thread_at f ?v ?hi" "t < length ths" using t(1) by (simp_all add: ths)
  have "rebuild_step offsets edges t s = Some (ths[t := thread_at f (Suc ?v) ?hi], ?roots, A')"
    using b(1) tt t(2) hi len by (simp add: rebuild_step_def S set_opt_def Let_def)
  moreover have "ths[t := thread_at f (Suc ?v) ?hi] = map (\<lambda>t. thread_at f (?p t) (bs ! Suc t)) [0..<length bs - 1]"
    using t(1) by (auto simp: ths list_eq_iff_nth_eq nth_list_update)
  moreover have "rebuilt A' f u (?T u) \<and> ?roots ! u = root_word (?T u)" if "i < length bs - 1" "bs ! i \<le> u" "u < ?p i" for i u
  proof (cases "u = ?v")
    case True
    then show ?thesis using b(2) hi len t(2) by simp
  next
    case False
    have d: "rebuilt A f u (T u) \<and> roots ! u = root_word (T u)" using D [OF that(1,2)] that(3) False by (auto split: if_splits)
    have "Suc u \<le> ?v \<or> ?hi \<le> u"
    proof (cases "i = t")
      case True
      then show ?thesis using that(3) False by simp
    next
      case ne: False
      then have "u < bs ! Suc i" using that(3) P [OF that(1)] by simp
      moreover have "t < length bs" "i < length bs" using t(1) that(1) by arith+
      ultimately show ?thesis using ne bs [of "Suc i" t] bs [of "Suc t" i] that(2) P [OF t(1)] by (cases "i < t") simp_all
    qed
    then show ?thesis using rebuilt_keeps [OF conjunct1 [OF d] _ _ b(4,5)] t(2) d False by simp
  qed
  moreover have "bs ! i \<le> ?p i \<and> ?p i \<le> bs ! Suc i" if "i < length bs - 1" for i using P [OF that] t(2) by (cases "i = t") simp_all
  ultimately show ?thesis using len rest b(3) by (intro exI [of _ "(ths[t := thread_at f (Suc ?v) ?hi], ?roots, A')"] exI [of _ ?T])
      (auto simp: rebuilt_to_def)
qed

lemma rebuild_run_ok:
  assumes R: "rebuildable f nv bs offsets edges"
  shows "rebuilt_to f nv bs A0 p s T \<Longrightarrow> \<exists>s' T' p'. rebuild_run offsets edges sched s = Some s' \<and> rebuilt_to f nv bs A0 p' s' T' \<and>
    (\<forall>t<length bs - 1. p' t = min (bs ! Suc t) (p t + count_list sched t))"
proof (induction sched arbitrary: p s T)
  case Nil
  then have "\<forall>t<length bs - 1. p t = min (bs ! Suc t) (p t + count_list [] t)" by (auto simp: rebuilt_to_def)
  then show ?case using Nil by (intro exI [of _ s] exI [of _ T] exI [of _ p]) simp
next
  case (Cons t sched)
  have P: "\<And>t. t < length bs - 1 \<Longrightarrow> p t \<le> bs ! Suc t" using Cons.prems by (auto simp: rebuilt_to_def)
  show ?case
  proof (cases "t < length bs - 1 \<and> p t < bs ! Suc t")
    case True
    then obtain s1 T1 where 1: "rebuild_step offsets edges t s = Some s1" "rebuilt_to f nv bs A0 (p(t := Suc (p t))) s1 T1"
      using rebuild_step_ok [OF R Cons.prems] by blast
    from Cons.IH [OF 1(2)] obtain s' T' p' where "rebuild_run offsets edges sched s1 = Some s'" "rebuilt_to f nv bs A0 p' s' T'"
      "\<forall>i<length bs - 1. p' i = min (bs ! Suc i) ((p(t := Suc (p t))) i + count_list sched i)" by blast
    then show ?thesis using 1(1) True by (intro exI [of _ s'] exI [of _ T'] exI [of _ p']) auto
  next
    case False
    have "rebuild_step offsets edges t s = Some s"
      using Cons.prems False by (auto simp: rebuilt_to_def rebuild_step_def)
    moreover obtain s' T' p' where "rebuild_run offsets edges sched s = Some s'" "rebuilt_to f nv bs A0 p' s' T'"
      "\<forall>i<length bs - 1. p' i = min (bs ! Suc i) (p i + count_list sched i)" using Cons.IH [OF Cons.prems] by blast
    moreover have "min (bs ! Suc i) (p i + count_list sched i) = min (bs ! Suc i) (p i + count_list (t # sched) i)" if "i < length bs - 1" for i
      using False P [OF that] that by auto
    ultimately show ?thesis by (intro exI [of _ s'] exI [of _ T'] exI [of _ p']) simp
  qed
qed

subsection \<open>The finished arena\<close>

lemma in_range:
  assumes "sorted bs" and "bs \<noteq> []" and "hd bs \<le> v" and "v < last bs"
  shows "\<exists>t<length bs - 1. bs ! t \<le> v \<and> v < bs ! Suc t"
  using assms
proof (induction bs)
  case (Cons b bs)
  show ?case
  proof (cases bs)
    case bs: (Cons c bs')
    show ?thesis
    proof (cases "v < c")
      case True
      then show ?thesis using Cons.prems(3) bs by (intro exI [of _ 0]) simp
    next
      case False
      then have "\<exists>t<length bs - 1. bs ! t \<le> v \<and> v < bs ! Suc t" using Cons.IH Cons.prems bs by simp
      then obtain t where "t < length bs - 1" "bs ! t \<le> v" "v < bs ! Suc t" by blast
      then show ?thesis by (intro exI [of _ "Suc t"]) simp
    qed
  qed (use Cons.prems in simp)
qed simp

lemma count_join_all:
  "t < length ths \<Longrightarrow> count_list (join_all ths) t = th_end (ths ! t) - th_vertex (ths ! t)"
proof -
  have rep: "count_list (replicate n x) t = (if x = t then n else 0)" for n x by (cases "x = t"; induction n) simp_all
  have "count_list (concat (map (\<lambda>x. replicate (g x) x) [0..<k])) t = (if t < k then g t else 0)" for g k
    by (induction k) (auto simp: rep)
  then show "t < length ths \<Longrightarrow> ?thesis" by (simp add: join_all_def)
qed

lemma rebuild_all_ok:
  assumes R: "rebuildable f nv bs offsets edges" and ne: "bs \<noteq> []" and hd: "hd bs = 0" and last: "last bs = nv" and len: "length roots = nv"
    and ths: "ths = map (\<lambda>t. thread_at f (bs ! t) (bs ! Suc t)) [0..<length bs - 1]"
  shows "\<exists>ths' roots' A' T'. rebuild_run offsets edges (sched @ join_all ths) (ths, roots, A) = Some (ths', roots', A') \<and>
    length roots' = nv \<and> arena_rest A' = arena_rest A \<and> (\<forall>v<nv. rebuilt A' f v (T' v) \<and> roots' ! v = root_word (T' v))"
proof -
  have srt: "sorted bs" using R by (simp add: rebuildable_def)
  have nx: "bs ! t \<le> bs ! Suc t" if "t < length bs - 1" for t using sorted_nth_mono [OF srt, of t "Suc t"] that by simp
  have "rebuilt_to f nv bs A (\<lambda>t. bs ! t) (ths, roots, A) (\<lambda>_. None)" using nx len by (simp add: rebuilt_to_def ths)
  from rebuild_run_ok [OF R this, of "sched @ join_all ths"] obtain s' T' p' where
    s': "rebuild_run offsets edges (sched @ join_all ths) (ths, roots, A) = Some s'" "rebuilt_to f nv bs A p' s' T'"
    and p': "\<forall>t<length bs - 1. p' t = min (bs ! Suc t) (bs ! t + count_list (sched @ join_all ths) t)" by blast
  have p: "p' t = bs ! Suc t" if "t < length bs - 1" for t
    using p' that count_join_all [of t ths] nx [OF that] by (simp add: ths)
  obtain ths' roots' A' where S: "s' = (ths', roots', A')" by (cases s')
  have "rebuilt A' f v (T' v) \<and> roots' ! v = root_word (T' v)" if v: "v < nv" for v
  proof -
    obtain t where "t < length bs - 1" "bs ! t \<le> v" "v < bs ! Suc t" using in_range [OF srt ne] v hd last by auto
    then show ?thesis using s'(2) p by (auto simp: rebuilt_to_def S)
  qed
  moreover have "length roots' = nv \<and> arena_rest A' = arena_rest A" using s'(2) by (simp add: rebuilt_to_def S)
  ultimately show ?thesis using s'(1) S by blast
qed

lemma slots_disjoint:
  assumes "u \<noteq> v"
  shows "slots (chunks_below f u) (chunks_below f (Suc u)) \<inter> slots (chunks_below f v) (chunks_below f (Suc v)) = {}"
    and "slots (interiors_below f u) (interiors_below f (Suc u)) \<inter> slots (interiors_below f v) (interiors_below f (Suc v)) = {}"
proof -
  have le: "Suc u \<le> v \<or> Suc v \<le> u" using assms by arith
  have d: "slots a b \<inter> slots c d = {}" if "b \<le> c \<or> d \<le> a" for a b c d using that by (auto simp: slots_def)
  show "slots (chunks_below f u) (chunks_below f (Suc u)) \<inter> slots (chunks_below f v) (chunks_below f (Suc v)) = {}"
    "slots (interiors_below f u) (interiors_below f (Suc u)) \<inter> slots (interiors_below f v) (interiors_below f (Suc v)) = {}"
    using le below_mono by (blast intro!: d)+
qed

text \<open>The committed arena is well formed, with the slots of all vertices in use.\<close>

lemma commit_regions_inv:
  assumes A: "arena_new cap = Some A0" and r: "arena_rest A = arena_rest A0" and fit: "cs * CHUNK_SLOT + is * INTERIOR_SLOT \<le> cap" and "is \<le> cs"
  shows "arena_inv (commit_regions A cs is) (slots 0 cs) (slots 0 is)"
    and "ar_pins (commit_regions A cs is) = pins_new" and "arena_used (commit_regions A cs is) = cs * CHUNK_SLOT + is * INTERIOR_SLOT"
    and "cs < 2 ^ 31 - 1" and "ar_capacity (commit_regions A cs is) = cap - cap mod INTERIOR_SLOT"
proof -
  let ?c = "cap - cap mod INTERIOR_SLOT" and ?A = "commit_regions A cs is"
  have c: "cap \<le> MAX_CAPACITY" and A0: "A0 = \<lparr>ar_capacity = ?c, ar_low = 0, ar_high = ?c,
      ar_gate = gate_new, ar_pins = pins_new, ar_rec = recycler_new, ar_chunks = Map.empty, ar_interiors = Map.empty\<rparr>"
    using A by (auto simp: arena_new_def Let_def bind_eq_Some_conv)
  have sel: "ar_capacity A = ?c" "ar_gate A = gate_new" "ar_pins A = pins_new" "ar_rec A = recycler_new"
    using r by (cases A; simp add: arena_rest_def A0)+
  have "(cs * CHUNK_SLOT + is * INTERIOR_SLOT) div INTERIOR_SLOT \<le> cap div INTERIOR_SLOT" using fit by (rule div_le_mono)
  then have fit': "cs * CHUNK_SLOT + is * INTERIOR_SLOT \<le> ?c"
    by (simp add: CHUNK_SLOT_def INTERIOR_SLOT_def minus_mod_eq_mult_div)
  have dv: "INTERIOR_SLOT dvd ?c" by (simp add: dvd_minus_mod)
  have "cs * 64 \<le> 2 ^ 31 * 16" using fit c by (simp add: CHUNK_SLOT_def INTERIOR_SLOT_def MAX_CAPACITY_def)
  then have b: "cs < 2 ^ 31 - 1" "is < 2 ^ 31 - 1" using assms(4) by simp_all
  show "cs < 2 ^ 31 - 1" by (rule b(1))
  show "ar_pins ?A = pins_new" "ar_capacity ?A = ?c" using sel by (simp_all add: commit_regions_def)
  show "arena_used ?A = cs * CHUNK_SLOT + is * INTERIOR_SLOT" using sel fit' by (simp add: arena_used_def commit_regions_def)
  have f: "ar_low ?A = cs * CHUNK_SLOT" "ar_high ?A = ?c - is * INTERIOR_SLOT" "ar_capacity ?A = ?c" using sel by (simp_all add: commit_regions_def)
  have "INTERIOR_SLOT dvd ?c - is * INTERIOR_SLOT" by (rule dvd_diff_nat [OF dv]) simp
  moreover have "cs * CHUNK_SLOT \<le> ?c - is * INTERIOR_SLOT" "?c \<le> MAX_CAPACITY" using fit' c by linarith+
  ultimately have "cursors_ok ?A" using dv by (simp only: cursors_ok_def f) simp
  moreover have "chunk_bound ?A = cs" "interior_bound ?A = is"
    using sel fit' by (simp_all add: chunk_bound_def interior_bound_def commit_regions_def CHUNK_SLOT_def INTERIOR_SLOT_def)
  ultimately show "arena_inv ?A (slots 0 cs) (slots 0 is)"
    using sel b by (auto simp: arena_inv_def class_inv_def slots_def commit_regions_def spare_ok_def recycler_new_def batch_empty_def
        pend_chunks_def pend_interiors_def)
qed

end
