(* ===== verification/Compact_Properties.thy ===== *)
theory Compact_Properties
  imports Compact_Facts Graph_Properties
begin

section \<open>What compaction promises\<close>

text \<open>The bytes a compacted graph takes.\<close>

definition compact_bytes :: "nat \<Rightarrow> (nat \<Rightarrow> shape option) \<Rightarrow> nat" where
  "compact_bytes nv T = (\<Sum>v<nv. fst (compact_slot_cost (length (nbrs (T v)))) * CHUNK_SLOT + snd (compact_slot_cost (length (nbrs (T v)))) * INTERIOR_SLOT)"

lemma compact_bytes_below:
  "compact_bytes nv T = chunks_below (\<lambda>v. nbrs (T v)) nv * CHUNK_SLOT + interiors_below (\<lambda>v. nbrs (T v)) nv * INTERIOR_SLOT"
  unfolding compact_bytes_def by (induction nv) (simp_all add: slot_cost_leaves add_mult_distrib)

lemma snapshot_csr_ok:
  assumes g: "graph_ok G T S" and h: "\<forall>v<dg_num_vertices G. hgt (T v) \<le> MAX_DEPTH"
  shows "graph_snapshot_csr G = Some (csr_of (\<lambda>v. nbrs (T v)) [0..<dg_num_vertices G])"
  unfolding graph_snapshot_csr_def
proof (rule csr_loop_start, intro ballI allI)
  fix v buf
  assume "v \<in> set [0..<dg_num_vertices G]"
  then have v: "v < dg_num_vertices G" by simp
  have w: "dg_num_vertices G < 2 ^ 32 - 1" "length (dg_roots G) = dg_num_vertices G" "dg_roots G ! v = root_word (T v)"
    using g v by (simp_all add: graph_ok_def graph_wf_def Let_def)
  have "unat (of_nat v :: u32) = v" using v w(1) by (simp add: unat_of_nat)
  then have "tree_for G (of_nat v) = tree_root (T v)" using v w(2,3) by (simp add: tree_for_def tree_root_def)
  then show "collect_into (tree_for G (of_nat v)) (dg_arena G) buf = Some (buf @ nbrs (T v))"
    using tree_ok_read(2) [OF graph_ok_tree [OF g v] w(1)] h v by simp
qed

lemma rebuilt_tree_ok:
  assumes "rebuilt A (\<lambda>v. nbrs (T v)) v (T' v)" and "tree_ok A0 nv (T v)"
  shows "tree_ok A nv (T' v)" and "nbrs (T' v) = nbrs (T v)" and "shape_ok nv (T' v)" and "shallow (T' v)"
proof -
  have e: "\<forall>x\<in>set (nbrs (T v)). unat x < nv" using assms(2) by (cases "T v") auto
  then show t: "tree_ok A nv (T' v)" using assms(1) by (auto simp: rebuilt_def tree_ok_def split: option.splits)
  show "nbrs (T' v) = nbrs (T v)" using assms(1) by (auto simp: rebuilt_def split: option.splits)
  show "shallow (T' v)" using assms(1) built_height_limit [of "the (T' v)"] by (cases "T' v") (simp_all add: rebuilt_def)
  show "shape_ok nv (T' v)" by (rule tree_ok_shape [OF t])
qed

lemma rebuilt_slots:
  assumes "rebuilt A f v s"
  shows "set (cs_of s) \<subseteq> slots (chunks_below f v) (chunks_below f (Suc v))" and "distinct (cs_of s)"
    and "set (is_of s) \<subseteq> slots (interiors_below f v) (interiors_below f (Suc v))" and "distinct (is_of s)"
  using assms by (cases s; simp add: rebuilt_def del: below_simps)+

lemma own_apart:
  assumes "\<And>v. v < nv \<Longrightarrow> distinct (g v) \<and> set (g v) \<subseteq> R v \<and> R v \<subseteq> L" and "\<And>u v. u \<noteq> v \<Longrightarrow> R u \<inter> R v = {}"
  shows "own nv g [] L"
proof -
  have "set (g u) \<inter> set (g v) = {}" if "u < nv" "v < nv" "u \<noteq> v" for u v
    using assms(1) [OF that(1)] assms(1) [OF that(2)] assms(2) [OF that(3)] by blast
  moreover have "distinct (g v)" "set (g v) \<subseteq> L" if "v < nv" for v using assms(1) [OF that] by blast+
  ultimately show ?thesis by (simp add: own_def)
qed

text \<open>The graph with the rebuilt trees and its new latest snapshot.\<close>

lemma rebuilt_graph_ok:
  assumes g: "graph_ok G T S" and reg: "registry \<noteq> dg_registry G"
    and A: "arena_new cap = Some A0" "arena_rest A = arena_rest A0" and fit: "compact_bytes (dg_num_vertices G) T \<le> cap"
    and roots: "length roots = dg_num_vertices G"
    and R: "\<forall>v<dg_num_vertices G. rebuilt A (\<lambda>v. nbrs (T v)) v (T' v) \<and> roots ! v = root_word (T' v)"
  shows "\<exists>G'. do { (snap, G1) \<leftarrow> full_snapshot (G\<lparr>dg_arena := commit_regions A (chunks_below (\<lambda>v. nbrs (T v)) (dg_num_vertices G))
        (interiors_below (\<lambda>v. nbrs (T v)) (dg_num_vertices G)), dg_registry := registry, dg_roots := roots\<rparr>) (current_epoch G);
      snapshot_drop (G1\<lparr>dg_latest := snap\<rparr>) (dg_latest G1) } = Some G' \<and> graph_ok G' T' [] \<and>
    arena_used (dg_arena G') = compact_bytes (dg_num_vertices G) T \<and> ar_capacity (dg_arena G') = cap - cap mod INTERIOR_SLOT \<and>
    dg_num_vertices G' = dg_num_vertices G \<and> dg_epoch G' = dg_epoch G \<and> dg_num_edges G' = dg_num_edges G \<and>
    dg_dirty G' = dg_dirty G \<and> dg_wal G' = dg_wal G"
proof -
  let ?nv = "dg_num_vertices G" and ?f = "\<lambda>v. nbrs (T v)" and ?e = "current_epoch G"
  let ?cs = "chunks_below ?f ?nv" and ?is = "interiors_below ?f ?nv"
  define C where "C = commit_regions A ?cs ?is"
  note ci = commit_regions_inv [OF A fit [unfolded compact_bytes_below] interiors_le_chunks, folded C_def]
  have G: "?nv < 2 ^ 32 - 1" "dirty_wf (dg_dirty G)" "db_num_vertices (dg_dirty G) = ?nv" "dg_num_edges G = card (edges_of ?nv T)"
    "scratch_clean (dg_scratch G)" "\<not> dg_locked G" "\<not> dg_poisoned G" and "view_ok G (dg_latest G) T"
    using g by (auto simp: graph_ok_def graph_wf_def Let_def views_ok_def)
  then have lreg: "tk_registry (sn_ticket (dg_latest G)) = dg_registry G" by (simp add: view_ok_def Let_def)
  have t: "tree_ok A ?nv (T' v)" "nbrs (T' v) = nbrs (T v)" "shape_ok ?nv (T' v)" if "v < ?nv" for v
    using rebuilt_tree_ok [of A T v T' "dg_arena G" ?nv] R that graph_ok_tree [OF g that] by blast+
  have edges: "edges_of ?nv T' = edges_of ?nv T" using t(2) by (auto simp: edges_of_def)
  obtain tab where tab: "from_roots roots = Some tab" "rt_wf ?nv tab" "\<forall>v<?nv. rt_get tab v = Some (root_word (T' v))"
    using from_roots_ok [of roots] roots R G(1) by auto
  let ?P = "pins_register pins_new ?e"
  let ?snap = "\<lparr>sn_epoch = ?e, sn_num_vertices = ?nv, sn_num_edges = dg_num_edges G, sn_table = tab,
    sn_ticket = \<lparr>tk_registry = registry, tk_epoch = ?e\<rparr>\<rparr>"
  define G' where "G' = G\<lparr>dg_arena := C\<lparr>ar_pins := ?P\<rparr>, dg_registry := registry, dg_roots := roots, dg_latest := ?snap\<rparr>"
  have run: "do { (snap, G1) \<leftarrow> full_snapshot (G\<lparr>dg_arena := C, dg_registry := registry, dg_roots := roots\<rparr>) ?e;
      snapshot_drop (G1\<lparr>dg_latest := snap\<rparr>) (dg_latest G1) } = Some G'"
    using tab(1) ci(2) reg lreg by (simp add: full_snapshot_def ticket_new_def snapshot_drop_def ticket_drop_def G'_def)
  have p: "pins_wf ?P" "pins_pinned ?P = {#?e#}" using pins_register_wf [OF pins_wf_new, of ?e] by simp_all
  have mp: "pins_min_pinned ?P \<le> ?e" using pins_min_wf(1) [OF p(1)] p(2) by simp
  have vok: "view_ok G' ?snap T'"
    using tab(2,3) t(3) edges G(4) by (simp add: view_ok_def Let_def G'_def current_epoch_def)
  then have views: "views_ok G' [(dg_latest G', T')]" using p by (simp add: views_ok_def G'_def)
  let ?Lc = "slots 0 ?cs" and ?Li = "slots 0 ?is"
  have sub: "set (cs_of (T' v)) \<subseteq> slots (chunks_below ?f v) (chunks_below ?f (Suc v))" "distinct (cs_of (T' v))"
    "set (is_of (T' v)) \<subseteq> slots (interiors_below ?f v) (interiors_below ?f (Suc v))" "distinct (is_of (T' v))" if "v < ?nv" for v
    using rebuilt_slots [of A ?f v "T' v"] R that by blast+
  have up: "slots (chunks_below ?f v) (chunks_below ?f (Suc v)) \<subseteq> ?Lc" "slots (interiors_below ?f v) (interiors_below ?f (Suc v)) \<subseteq> ?Li" if "v < ?nv" for v
    using below_mono [of "Suc v" ?nv ?f] that by (auto simp: slots_def simp del: below_simps)
  note dj = slots_disjoint [of _ _ ?f]
  have own: "own ?nv (\<lambda>v. cs_of (T' v)) [] ?Lc" "own ?nv (\<lambda>v. is_of (T' v)) [] ?Li"
    by (rule own_apart [of _ _ "\<lambda>v. slots (chunks_below ?f v) (chunks_below ?f (Suc v))"], use sub(1,2) up(1) dj(1) in blast, use dj(1) in blast)
      (rule own_apart [of _ _ "\<lambda>v. slots (interiors_below ?f v) (interiors_below ?f (Suc v))"], use sub(3,4) up(2) in blast, use dj(2) in blast)
  have mem: "arena_chunk C = arena_chunk A" "arena_interior C = arena_interior A" "arena_chunk (C\<lparr>ar_pins := ?P\<rparr>) = arena_chunk A" "arena_interior (C\<lparr>ar_pins := ?P\<rparr>) = arena_interior A"
    by (simp_all add: C_def commit_regions_def arena_chunk_def arena_interior_def fun_eq_iff)
  have tok: "tree_ok (C\<lparr>ar_pins := ?P\<rparr>) ?nv (T' v)" if "v < ?nv" for v using t(1) [OF that] by (cases "T' v") (simp_all add: mem)
  have held: "held_at (held_views G' [(dg_latest G', T')]) (C\<lparr>ar_pins := ?P\<rparr>) ?Lc ?Li"
  proof (rule held_atI)
    fix i c e
    assume "(i, c, e) \<in> h_chunks (held_views G' [(dg_latest G', T')])"
    then obtain v s where v: "e = ?e" "v < ?nv" "T' v = Some s" "(i, c) \<in> chunk_nodes s" by (auto simp: held_views_def G'_def)
    have "i \<in> ?Lc" using sub(1) [OF v(2)] up(1) [OF v(2)] chunk_nodes_slots [OF v(4)] v(3) by auto
    then show "arena_chunk (C\<lparr>ar_pins := ?P\<rparr>) i = Some c \<and> pins_min_pinned (h_pins (held_views G' [(dg_latest G', T')])) \<le> e \<and>
      (i \<in> ?Lc \<or> waits pb_chunks (rc_old (ar_rec (C\<lparr>ar_pins := ?P\<rparr>))) (Suc e) 0 i)"
      using t(1) [OF v(2)] v mp by (auto simp: stored_nodes mem held_views_def G'_def)
  next
    fix i c e
    assume "(i, c, e) \<in> h_interiors (held_views G' [(dg_latest G', T')])"
    then obtain v s where v: "e = ?e" "v < ?nv" "T' v = Some s" "(i, c) \<in> interior_nodes s" by (auto simp: held_views_def G'_def)
    have "i \<in> ?Li" using sub(3) [OF v(2)] up(2) [OF v(2)] interior_nodes_slots [OF v(4)] v(3) by auto
    then show "arena_interior (C\<lparr>ar_pins := ?P\<rparr>) i = Some c \<and> pins_min_pinned (h_pins (held_views G' [(dg_latest G', T')])) \<le> e \<and>
      (i \<in> ?Li \<or> waits pb_interiors (rc_old (ar_rec (C\<lparr>ar_pins := ?P\<rparr>))) (Suc e) 0 i)"
      using t(1) [OF v(2)] v mp by (auto simp: stored_nodes mem held_views_def G'_def)
  qed (simp add: held_views_def G'_def)
  have "forest_at (held_views G' [(dg_latest G', T')]) (C\<lparr>ar_pins := ?P\<rparr>) ?Lc ?Li ?nv T' retire_log_new"
    using ci(1) held own tok by (simp add: forest_at_def retire_log_new_def)
  then have "graph_ok G' T' []"
    using G views roots R edges by (auto simp: graph_ok_def graph_wf_def Let_def G'_def)
  then show ?thesis using run ci(3,5) by (intro exI [of _ G']) (simp add: C_def G'_def compact_bytes_below arena_used_def)
qed

text \<open>C5 (invariant). Compaction keeps the graph: however its threads interleave, it refuses exactly when snapshots are held or
  the rebuilt trees do not fit, and panics only on a capacity that no arena can have; otherwise every vertex keeps its
  neighbours, the graph is well formed again with only its own pin, all trees are within the scapegoat bound, and the new
  arena uses the bytes of the cost formula and no more. Edge count, epoch, dirty bits and log stay.\<close>

theorem compact_keeps_edges:
  assumes "graph_ok G T S" and "\<forall>v<dg_num_vertices G. hgt (T v) \<le> MAX_DEPTH" and "registry \<noteq> dg_registry G"
  shows "case compact_with_capacity par sched registry cap G of
      None \<Rightarrow> S = [] \<and> compact_bytes (dg_num_vertices G) T \<le> cap \<and> arena_new cap = None
    | Some (Inl e) \<Rightarrow> e = CompactPinned \<and> S \<noteq> [] \<or> e = CompactArenaFull \<and> S = [] \<and> cap < compact_bytes (dg_num_vertices G) T
    | Some (Inr G') \<Rightarrow> S = [] \<and> (\<exists>T'. graph_ok G' T' [] \<and> (\<forall>v<dg_num_vertices G. nbrs (T' v) = nbrs (T v) \<and> shallow (T' v))) \<and>
        live_edges G' = live_edges G \<and> arena_used (dg_arena G') = compact_bytes (dg_num_vertices G) T \<and>
        ar_capacity (dg_arena G') = cap - cap mod INTERIOR_SLOT \<and> dg_num_vertices G' = dg_num_vertices G \<and>
        dg_num_edges G' = dg_num_edges G \<and> dg_epoch G' = dg_epoch G \<and> dg_dirty G' = dg_dirty G \<and> dg_wal G' = dg_wal G"
proof (cases "S = []")
  case False
  have "pins_pin_count (ar_pins (dg_arena G)) = Suc (length S)"
    using assms(1) by (simp add: graph_ok_def graph_wf_def views_ok_def pins_count_size Let_def)
  then have "compact_with_capacity par sched registry cap G = Some (Inl CompactPinned)"
    using assms(1) False by (simp add: compact_with_capacity_def graph_ok_def)
  then show ?thesis using False by simp
next
  case True
  let ?nv = "dg_num_vertices G" and ?f = "\<lambda>v. nbrs (T v)"
  have pc: "pins_pin_count (ar_pins (dg_arena G)) = 1" "\<not> dg_poisoned G"
    using assms(1) True by (simp_all add: graph_ok_def graph_wf_def views_ok_def pins_count_size Let_def)
  obtain offsets edges where c: "csr_of ?f [0..<?nv] = (offsets, edges)" by fastforce
  define bs where "bs = compact_bounds offsets (length edges) (compact_threads par (length edges)) ?nv"
  have "1 \<le> compact_threads par (length edges)" by (simp add: compact_threads_def Let_def)
  note B = compact_bounds_ok [OF this, of offsets "length edges" ?nv, folded bs_def]
  obtain tot where tot: "range_totals offsets bs = Some tot"
    "spawn_threads bs tot 0 0 = map (\<lambda>t. thread_at ?f (bs ! t) (bs ! Suc t)) [0..<length bs - 1]"
    "sum_list (map fst tot) = chunks_below ?f ?nv" "sum_list (map snd tot) = interiors_below ?f ?nv"
    using spawn_ok [OF c B(1-3)] B(4,5) by auto
  note run = compact_with_capacity_def [of par sched registry cap G, unfolded snapshot_csr_ok [OF assms(1,2)] c]
  let ?sum = "chunks_below ?f ?nv * CHUNK_SLOT + interiors_below ?f ?nv * INTERIOR_SLOT"
  have run': "compact_with_capacity par sched registry cap G =
      (if cap < compact_bytes ?nv T then Some (Inl CompactArenaFull)
       else do {
          A \<leftarrow> arena_new cap;
          (ths, roots, A) \<leftarrow> rebuild_run offsets edges (sched @ join_all (spawn_threads bs tot 0 0)) (spawn_threads bs tot 0 0, replicate ?nv NULL_OFF, A);
          G' \<leftarrow> do { (snap, G1) \<leftarrow> full_snapshot (G\<lparr>dg_arena := commit_regions A (chunks_below ?f ?nv) (interiors_below ?f ?nv),
              dg_registry := registry, dg_roots := roots\<rparr>) (current_epoch G);
            snapshot_drop (G1\<lparr>dg_latest := snap\<rparr>) (dg_latest G1) };
          Some (Inr G') })"
    unfolding run using pc tot by (simp add: bs_def [symmetric] compact_bytes_below Let_def current_epoch_def split_def)
  show ?thesis
  proof (cases "cap < compact_bytes ?nv T \<or> arena_new cap = None")
    case True
    then show ?thesis using run' \<open>S = []\<close> by auto
  next
    case False
    then obtain A0 where A0: "arena_new cap = Some A0" and fit: "compact_bytes ?nv T \<le> cap" by auto
    have small: "chunks_below ?f ?nv < 2 ^ 31 - 1"
      by (rule commit_regions_inv(4) [OF A0 refl fit [unfolded compact_bytes_below] interiors_le_chunks])
    have "ssorted (?f v) \<and> length (?f v) < 2 ^ 32" if "v < ?nv" for v
    proof -
      have "?nv < 2 ^ 32 - 1" using assms(1) by (simp add: graph_ok_def graph_wf_def Let_def)
      then show ?thesis using tree_ok_read(5) tree_ok_size graph_ok_tree [OF assms(1) that] by fastforce
    qed
    then have R: "rebuildable ?f ?nv bs offsets edges" using c small B(1,2) by (simp add: rebuildable_def)
    obtain ths' roots' A' T' where rb: "rebuild_run offsets edges (sched @ join_all (spawn_threads bs tot 0 0))
        (spawn_threads bs tot 0 0, replicate ?nv NULL_OFF, A0) = Some (ths', roots', A')"
      "length roots' = ?nv" "arena_rest A' = arena_rest A0" "\<forall>v<?nv. rebuilt A' ?f v (T' v) \<and> roots' ! v = root_word (T' v)"
      using rebuild_all_ok [OF R B(3-5) _ tot(2), of "replicate ?nv NULL_OFF" sched A0] by auto
    obtain G' where G': "do { (snap, G1) \<leftarrow> full_snapshot (G\<lparr>dg_arena := commit_regions A' (chunks_below ?f ?nv) (interiors_below ?f ?nv),
              dg_registry := registry, dg_roots := roots'\<rparr>) (current_epoch G);
            snapshot_drop (G1\<lparr>dg_latest := snap\<rparr>) (dg_latest G1) } = Some G'" "graph_ok G' T' []"
      "arena_used (dg_arena G') = compact_bytes ?nv T \<and> ar_capacity (dg_arena G') = cap - cap mod INTERIOR_SLOT \<and>
       dg_num_vertices G' = ?nv \<and> dg_epoch G' = dg_epoch G \<and> dg_num_edges G' = dg_num_edges G \<and> dg_dirty G' = dg_dirty G \<and> dg_wal G' = dg_wal G"
      using rebuilt_graph_ok [OF assms(1,3) A0 rb(3) fit rb(2,4)] by blast
    have nb: "nbrs (T' v) = nbrs (T v) \<and> shallow (T' v)" if "v < ?nv" for v
      using rebuilt_tree_ok(2,4) [of A' T v T'] rb(4) graph_ok_tree [OF assms(1) that] that by blast
    then have "edges_of ?nv T' = edges_of ?nv T" by (auto simp: edges_of_def)
    then have "live_edges G' = live_edges G" using graph_ok_live(2) [OF G'(2)] graph_ok_live(2) [OF assms(1)] G'(3) by simp
    moreover have "compact_with_capacity par sched registry cap G = Some (Inr G')"
    proof -
      have nf: "(cap < compact_bytes ?nv T) = False" using fit by simp
      show ?thesis by (simp only: run' nf if_False A0 rb(1) G'(1) Option.bind.simps prod.case)
    qed
    ultimately show ?thesis using \<open>S = []\<close> G'(2,3) nb by auto
  qed
qed

lemma height_less_size: "wf_shape t \<Longrightarrow> height t < tsize t"
  by (induction t) (auto simp: max_def)

lemma distinct_unat_singleton:
  assumes "distinct xs" and "unat ` set xs = {unat (k :: u32)}"
  shows "xs = [k]"
proof -
  have "inj (unat :: u32 \<Rightarrow> nat)" by (simp add: inj_def word_unat_eq_iff)
  then have "set xs = {k}" using assms(2) inj_image_eq_iff [of unat "set xs" "{k}"] by simp
  moreover from this have "length xs = 1" using distinct_card [OF assms(1)] by simp
  ultimately show ?thesis by (cases xs) auto
qed

theorem compact_keeps_edges_witness:
  "\<exists>G G'. live_edges G = {(1, 2)} \<and> compact_with_capacity (Some 8) [0, 3] (Suc (dg_registry G)) 4096 G = Some (Inr G') \<and>
     live_edges G' = {(1, 2)} \<and> arena_used (dg_arena G') = 64"
proof -
  define crc :: "bytes \<Rightarrow> u32" where "crc = (\<lambda>_. 0)"
  obtain W T where W: "drop_durable W" "guard_ok crc demo_graph (\<lambda>_. None) W T []" "live_edges (wr_graph W) = {(1, 2)}"
    "clock_current (dg_epoch demo_graph) < U64_MAX" using demo_session by metis
  obtain G where G: "graph_ok G T []" "dg_num_vertices G = dg_num_vertices demo_graph" using drop_commits [OF W(2,4,1)] by blast
  let ?nv = "dg_num_vertices G"
  have live: "live_edges G = edges_of ?nv T" "edges_of ?nv T = {(1, 2)}"
    using graph_ok_live(2) [OF G(1)] guard_reads(2) [OF W(2)] W(3) G(2) by simp_all
  have nv: "?nv = 300" by (simp add: G(2) demo_sel)
  have nb: "nbrs (T v) = (if v = 1 then [2] else [])" if v: "v < ?nv" for v
  proof -
    have "unat ` set (nbrs (T v)) = {d. (v, d) \<in> edges_of ?nv T}" using v by (simp add: edges_of_def)
    also have "\<dots> = (if v = 1 then {2} else {})" unfolding live(2) by auto
    finally have "unat ` set (nbrs (T v)) = (if v = 1 then {2} else {})" .
    moreover have "distinct (nbrs (T v))" using graph_ok_tree [OF G(1) v] by (cases "T v") (auto dest: wf_ssorted ssorted_distinct)
    ultimately show ?thesis using distinct_unat_singleton [of "nbrs (T v)" 2] by (cases "v = 1") auto
  qed
  have "hgt (T v) \<le> MAX_DEPTH" if v: "v < ?nv" for v
    using graph_ok_tree [OF G(1) v] nb [OF v] height_less_size by (cases "T v") (fastforce simp: MAX_DEPTH_def split: if_splits)+
  moreover have "compact_bytes ?nv T = 64"
  proof -
    have "compact_bytes ?nv T = (\<Sum>v<?nv. if v = 1 then 64 else 0)" unfolding compact_bytes_def
      by (rule sum.cong [OF refl]) (simp add: nb compact_slot_cost_def CHUNK_CAP_def CHUNK_SLOT_def)
    then show ?thesis by (simp add: nv)
  qed
  moreover have "arena_new 4096 \<noteq> None" by (simp add: arena_new_def MAX_CAPACITY_def INTERIOR_SLOT_def)
  ultimately have "\<exists>G'. compact_with_capacity (Some 8) [0, 3] (Suc (dg_registry G)) 4096 G = Some (Inr G') \<and>
     live_edges G' = {(1, 2)} \<and> arena_used (dg_arena G') = 64" using compact_keeps_edges [OF G(1), where registry = "Suc (dg_registry G)" and par = "Some 8" and sched = "[0, 3]" and cap = 4096] live
    by (auto split: option.splits sum.splits)
  then show ?thesis using live by blast
qed

end
