(* ===== verification/Embedding_Cache.thy ===== *)
theory Embedding_Cache
  imports Graph
begin

section \<open>The embedding cache and the historical sampler\<close>

text \<open>
  Models \<^verbatim>\<open>crates/aether-graph/src/embedding_cache.rs\<close> and \<^verbatim>\<open>historical.rs\<close>. The reserved mapping of the row store
  is a zeroed memory of \<open>f32\<close> cells with its length in bytes (the Unix variant); an access outside it is the
  panic \<open>None\<close>. Embeddings are only moved, so an \<open>f32\<close> is its bit pattern. \<open>granted\<close> is the kernel's answer to
  the reservation. The hash map of slots is a partial map.
\<close>

type_synonym f32_cell = u32

subsection \<open>The row store\<close>

record row_store =
  rs_mem :: "nat \<Rightarrow> f32_cell"
  rs_bytes :: nat
  rs_stride :: nat

definition row_store_new :: "bool \<Rightarrow> nat \<Rightarrow> nat \<Rightarrow> row_store option" where
  "row_store_new granted num_rows stride = do {
     assert_opt (num_rows * stride * 4 < 2 ^ 64);
     assert_opt granted;
     Some \<lparr>rs_mem = (\<lambda>_. 0), rs_bytes = max (num_rows * stride * 4) 4096, rs_stride = stride\<rparr> }"

definition in_mapping :: "row_store \<Rightarrow> nat \<Rightarrow> nat \<Rightarrow> bool" where
  "in_mapping rs r dim \<longleftrightarrow> (r * rs_stride rs + dim) * 4 \<le> rs_bytes rs"

definition store_row :: "row_store \<Rightarrow> u32 \<Rightarrow> nat \<Rightarrow> f32_cell list option" where
  "store_row rs r dim = (if in_mapping rs (unat r) dim
     then Some (map (\<lambda>i. rs_mem rs (unat r * rs_stride rs + i)) [0..<dim]) else None)"

text \<open>\<^verbatim>\<open>row_mut\<close> with the \<^verbatim>\<open>copy_from_slice\<close> of its only use, which panics on another length.\<close>

definition write_row :: "row_store \<Rightarrow> u32 \<Rightarrow> nat \<Rightarrow> f32_cell list \<Rightarrow> row_store option" where
  "write_row rs r dim xs = do {
     assert_opt (in_mapping rs (unat r) dim);
     assert_opt (length xs = dim);
     let base = unat r * rs_stride rs;
     Some (rs\<lparr>rs_mem := (\<lambda>a. if base \<le> a \<and> a < base + dim then xs ! (a - base) else rs_mem rs a)\<rparr>) }"

subsection \<open>The cache\<close>

record emb_slot =
  es_row :: u32
  es_generation :: u64

record embedding_cache =
  ec_store :: row_store
  ec_rows :: nat
  ec_slots :: "u32 \<Rightarrow> emb_slot option"
  ec_dim :: nat
  ec_num_nodes :: nat
  ec_generation :: u64

definition embedding_cache_new :: "bool \<Rightarrow> nat \<Rightarrow> nat \<Rightarrow> embedding_cache option" where
  "embedding_cache_new granted num_nodes dim = do {
     assert_opt (0 < dim);
     let stride = (dim + 15) div 16 * 16;
     store \<leftarrow> row_store_new granted (max num_nodes 1) stride;
     Some \<lparr>ec_store = store, ec_rows = 0, ec_slots = (\<lambda>_. None), ec_dim = dim, ec_num_nodes = num_nodes, ec_generation = 1\<rparr> }"

definition alloc_row :: "nat \<Rightarrow> (u32 \<times> nat) option" where
  "alloc_row rows = do { assert_opt (rows \<le> 2 ^ 32 - 1); Some (of_nat rows, rows + 1) }"

definition get_if_computed :: "embedding_cache \<Rightarrow> u32 \<Rightarrow> f32_cell list option option" where
  "get_if_computed ec node = (case ec_slots ec node of
     None \<Rightarrow> Some None
   | Some slot \<Rightarrow> if es_generation slot = 0 then Some None
       else map_option Some (store_row (ec_store ec) (es_row slot) (ec_dim ec)))"

definition cache_update :: "embedding_cache \<Rightarrow> u32 \<Rightarrow> f32_cell list \<Rightarrow> embedding_cache option" where
  "cache_update ec node embedding = do {
     assert_opt (unat node < ec_num_nodes ec);
     (row, ec) \<leftarrow> (case ec_slots ec node of
         Some s \<Rightarrow> Some (es_row s, ec\<lparr>ec_slots := (ec_slots ec)(node \<mapsto> s\<lparr>es_generation := ec_generation ec\<rparr>)\<rparr>)
       | None \<Rightarrow> do {
           (row, rows) \<leftarrow> alloc_row (ec_rows ec);
           Some (row, ec\<lparr>ec_rows := rows, ec_slots := (ec_slots ec)(node \<mapsto> \<lparr>es_row = row, es_generation = ec_generation ec\<rparr>)\<rparr>) });
     store \<leftarrow> write_row (ec_store ec) row (ec_dim ec) embedding;
     Some (ec\<lparr>ec_store := store\<rparr>) }"

definition is_stale :: "embedding_cache \<Rightarrow> u32 \<Rightarrow> bool" where
  "is_stale ec node = (case ec_slots ec node of Some s \<Rightarrow> es_generation s < ec_generation ec | None \<Rightarrow> True)"

definition invalidate :: "embedding_cache \<Rightarrow> u32 \<Rightarrow> embedding_cache" where
  "invalidate ec node = (case ec_slots ec node of
     Some s \<Rightarrow> ec\<lparr>ec_slots := (ec_slots ec)(node \<mapsto> s\<lparr>es_generation := 0\<rparr>)\<rparr> | None \<Rightarrow> ec)"

definition cache_advance_epoch :: "embedding_cache \<Rightarrow> embedding_cache" where
  "cache_advance_epoch ec = ec\<lparr>ec_generation := ec_generation ec + 1\<rparr>"

definition stale_nodes :: "embedding_cache \<Rightarrow> u32 list \<Rightarrow> u32 list \<Rightarrow> u32 list" where
  "stale_nodes ec candidates dirty =
     filter (\<lambda>n. unat n < ec_num_nodes ec \<and> (is_stale ec n \<or> n \<in> set dirty)) candidates"

subsection \<open>The historical sampler\<close>

record historical_batch =
  hb_recompute :: "u32 list"
  hb_cached :: "u32 list"
  hb_embeddings :: "f32_cell list"

type_synonym historical_sampler = embedding_cache

definition historical_new :: "bool \<Rightarrow> nat \<Rightarrow> nat \<Rightarrow> historical_sampler option" where
  "historical_new granted num_nodes embedding_dim = embedding_cache_new granted num_nodes embedding_dim"

fun prepare_batch_into :: "historical_sampler \<Rightarrow> u32 list \<Rightarrow> historical_batch \<Rightarrow> historical_batch option" where
  "prepare_batch_into hs [] batch = Some batch"
| "prepare_batch_into hs (node # nodes) batch = do {
     e \<leftarrow> get_if_computed hs node;
     prepare_batch_into hs nodes (case e of
         Some row \<Rightarrow> batch\<lparr>hb_cached := hb_cached batch @ [node], hb_embeddings := hb_embeddings batch @ row\<rparr>
       | None \<Rightarrow> batch\<lparr>hb_recompute := hb_recompute batch @ [node]\<rparr>) }"

definition prepare_batch :: "historical_sampler \<Rightarrow> u32 list \<Rightarrow> historical_batch option" where
  "prepare_batch hs nodes = prepare_batch_into hs nodes \<lparr>hb_recompute = [], hb_cached = [], hb_embeddings = []\<rparr>"

fun commit_nodes :: "u32 list \<Rightarrow> nat \<Rightarrow> f32_cell list \<Rightarrow> historical_sampler \<Rightarrow> historical_sampler option" where
  "commit_nodes [] i embeddings hs = Some hs"
| "commit_nodes (node # nodes) i embeddings hs = do {
     let start = i * ec_dim hs;
     e \<leftarrow> slice_opt embeddings start (start + ec_dim hs);
     hs \<leftarrow> cache_update hs node e;
     commit_nodes nodes (Suc i) embeddings hs }"

definition commit_batch :: "historical_batch \<Rightarrow> f32_cell list \<Rightarrow> historical_sampler \<Rightarrow> historical_sampler option" where
  "commit_batch batch embeddings hs = commit_nodes (hb_recompute batch) 0 embeddings hs"

definition advance_epoch_with :: "u32 list \<Rightarrow> historical_sampler \<Rightarrow> historical_sampler" where
  "advance_epoch_with dirty hs = cache_advance_epoch (foldl invalidate hs dirty)"

definition historical_advance_epoch :: "dynamic_graph \<Rightarrow> historical_sampler \<Rightarrow> historical_sampler \<times> dynamic_graph" where
  "historical_advance_epoch G hs = (let (dirty, G) = graph_drain_dirty G in (advance_epoch_with dirty hs, G))"

subsection \<open>What the cache means\<close>

text \<open>The rows are dealt out in order: \<open>ks\<close> lists the nodes by their rows.\<close>

definition cache_ok :: "embedding_cache \<Rightarrow> bool" where
  "cache_ok ec \<longleftrightarrow> 0 < ec_dim ec \<and> ec_dim ec \<le> rs_stride (ec_store ec) \<and>
     ec_num_nodes ec * rs_stride (ec_store ec) * 4 \<le> rs_bytes (ec_store ec) \<and> ec_generation ec \<noteq> 0 \<and>
     (\<exists>ks. distinct ks \<and> length ks = ec_rows ec \<and> (\<forall>n\<in>set ks. unat n < ec_num_nodes ec) \<and> dom (ec_slots ec) = set ks \<and>
       (\<forall>n s. ec_slots ec n = Some s \<longrightarrow> unat (es_row s) < length ks \<and> ks ! unat (es_row s) = n))"

definition served :: "embedding_cache \<Rightarrow> u32 \<Rightarrow> f32_cell list option" where
  "served ec n = (case ec_slots ec n of None \<Rightarrow> None
   | Some s \<Rightarrow> if es_generation s = 0 then None
       else Some (map (\<lambda>i. rs_mem (ec_store ec) (unat (es_row s) * rs_stride (ec_store ec) + i)) [0..<ec_dim ec]))"

lemma rows_below:
  fixes ks :: "u32 list"
  assumes "distinct ks" and "\<forall>n\<in>set ks. unat n < m"
  shows "length ks \<le> m"
proof -
  have "distinct (map unat ks)" using assms(1) by (simp add: distinct_map inj_on_def word_unat_eq_iff)
  then have "length ks = card (set (map unat ks))" by (metis distinct_card length_map)
  also have "\<dots> \<le> card {0..<m}" using assms(2) by (intro card_mono) auto
  finally show ?thesis by simp
qed

lemma row_in_mapping: "r < m \<Longrightarrow> dim \<le> rs_stride rs \<Longrightarrow> m * rs_stride rs * 4 \<le> rs_bytes rs \<Longrightarrow> in_mapping rs r dim"
proof -
  assume a: "r < m" "dim \<le> rs_stride rs" "m * rs_stride rs * 4 \<le> rs_bytes rs"
  have "r * rs_stride rs + dim \<le> Suc r * rs_stride rs" using a(2) by simp
  also have "\<dots> \<le> m * rs_stride rs" using a(1) by (intro mult_le_mono1) simp
  finally show ?thesis using a(3) by (simp add: in_mapping_def)
qed

lemma cache_okE:
  assumes "cache_ok ec"
  obtains ks where "0 < ec_dim ec" "ec_dim ec \<le> rs_stride (ec_store ec)" "ec_num_nodes ec * rs_stride (ec_store ec) * 4 \<le> rs_bytes (ec_store ec)"
    "ec_generation ec \<noteq> 0" "distinct ks" "length ks = ec_rows ec" "\<forall>n\<in>set ks. unat n < ec_num_nodes ec" "dom (ec_slots ec) = set ks"
    "\<forall>n s. ec_slots ec n = Some s \<longrightarrow> unat (es_row s) < length ks \<and> ks ! unat (es_row s) = n" "length ks \<le> ec_num_nodes ec"
  using assms rows_below unfolding cache_ok_def by blast

lemma get_if_computed_ok: "cache_ok ec \<Longrightarrow> get_if_computed ec n = Some (served ec n)"
proof (erule cache_okE)
  fix ks assume ok: "ec_dim ec \<le> rs_stride (ec_store ec)" "ec_num_nodes ec * rs_stride (ec_store ec) * 4 \<le> rs_bytes (ec_store ec)"
    "\<forall>n s. ec_slots ec n = Some s \<longrightarrow> unat (es_row s) < length ks \<and> ks ! unat (es_row s) = n" "length ks \<le> ec_num_nodes ec"
  have "in_mapping (ec_store ec) (unat (es_row s)) (ec_dim ec)" if "ec_slots ec n = Some s" for s
    using ok that by (intro row_in_mapping [where m = "ec_num_nodes ec"]) (auto dest: less_le_trans)
  then show ?thesis by (simp add: get_if_computed_def served_def store_row_def split: option.split)
qed

lemma new_ok: "embedding_cache_new granted n dim = Some ec \<Longrightarrow> cache_ok ec \<and> served ec = Map.empty \<and> ec_num_nodes ec = n \<and> ec_dim ec = dim \<and>
    ec_generation ec = 1"
proof -
  assume new: "embedding_cache_new granted n dim = Some ec"
  have "dim \<le> (dim + 15) div 16 * 16" by simp
  moreover have "64 * (n * k) \<le> max (64 * (max n (Suc 0) * k)) 4096" for k :: nat
    using mult_le_mono1 [of n "max n (Suc 0)" k] by (simp add: le_max_iff_disj)
  ultimately show ?thesis using new
    by (auto simp: embedding_cache_new_def row_store_new_def cache_ok_def served_def fun_eq_iff Let_def bind_eq_Some_conv)
qed

lemma new_some: "0 < dim \<Longrightarrow> max n 1 * ((dim + 15) div 16 * 16) * 4 < 2 ^ 64 \<Longrightarrow> embedding_cache_new True n dim \<noteq> None"
  by (simp add: embedding_cache_new_def row_store_new_def Let_def)

text \<open>Each operation is the evident one on the map \<open>served\<close>.\<close>

lemma write_row_mem:
  assumes "write_row rs r dim xs = Some rs'"
  shows "rs_bytes rs' = rs_bytes rs" and "rs_stride rs' = rs_stride rs"
    and "map (\<lambda>i. rs_mem rs' (unat r * rs_stride rs + i)) [0..<dim] = xs"
    and "dim \<le> rs_stride rs \<Longrightarrow> unat q \<noteq> unat r \<Longrightarrow>
      map (\<lambda>i. rs_mem rs' (unat q * rs_stride rs + i)) [0..<dim] = map (\<lambda>i. rs_mem rs (unat q * rs_stride rs + i)) [0..<dim]"
proof -
  define base where "base = unat r * rs_stride rs"
  have w: "length xs = dim" "rs' = rs\<lparr>rs_mem := (\<lambda>a. if base \<le> a \<and> a < base + dim then xs ! (a - base) else rs_mem rs a)\<rparr>"
    unfolding base_def using assms by (auto simp: write_row_def Let_def)
  show "rs_bytes rs' = rs_bytes rs" "rs_stride rs' = rs_stride rs" by (simp_all add: w(2))
  show "map (\<lambda>i. rs_mem rs' (unat r * rs_stride rs + i)) [0..<dim] = xs"
    by (rule nth_equalityI) (simp_all add: w base_def [symmetric])
  assume d: "dim \<le> rs_stride rs" and ne: "unat q \<noteq> unat r"
  have out: "\<not> (base \<le> unat q * rs_stride rs + i \<and> unat q * rs_stride rs + i < base + dim)" if "i < dim" for i
  proof (cases "unat q < unat r")
    case True
    then have "Suc (unat q) * rs_stride rs \<le> base" unfolding base_def by (intro mult_le_mono1) simp
    then show ?thesis using d that by simp
  next
    case False
    then have "Suc (unat r) * rs_stride rs \<le> unat q * rs_stride rs" using ne by (intro mult_le_mono1) simp
    then show ?thesis using d by (simp add: base_def)
  qed
  have "rs_mem rs' (unat q * rs_stride rs + i) = rs_mem rs (unat q * rs_stride rs + i)" if "i < dim" for i
    unfolding w(2) using out [OF that] by auto
  then show "map (\<lambda>i. rs_mem rs' (unat q * rs_stride rs + i)) [0..<dim] = map (\<lambda>i. rs_mem rs (unat q * rs_stride rs + i)) [0..<dim]"
    by simp
qed

definition same_shape :: "embedding_cache \<Rightarrow> embedding_cache \<Rightarrow> bool" where
  "same_shape ec ec' \<longleftrightarrow> ec_dim ec' = ec_dim ec \<and> ec_num_nodes ec' = ec_num_nodes ec"

lemma update_ok:
  assumes ok: "cache_ok ec" and n: "unat node < ec_num_nodes ec" and len: "length e = ec_dim ec"
  shows "\<exists>ec'. cache_update ec node e = Some ec' \<and> cache_ok ec' \<and> served ec' = (served ec)(node \<mapsto> e) \<and> same_shape ec ec' \<and>
    ec_generation ec' = ec_generation ec"
proof -
  obtain ks where K: "0 < ec_dim ec" "ec_dim ec \<le> rs_stride (ec_store ec)" "ec_num_nodes ec * rs_stride (ec_store ec) * 4 \<le> rs_bytes (ec_store ec)"
    "ec_generation ec \<noteq> 0" "distinct ks" "length ks = ec_rows ec" "\<forall>n\<in>set ks. unat n < ec_num_nodes ec" "dom (ec_slots ec) = set ks"
    "\<forall>n s. ec_slots ec n = Some s \<longrightarrow> unat (es_row s) < length ks \<and> ks ! unat (es_row s) = n" "length ks \<le> ec_num_nodes ec"
    by (rule cache_okE [OF ok])
  define ec1 where "ec1 = (case ec_slots ec node of
      Some s \<Rightarrow> ec\<lparr>ec_slots := (ec_slots ec)(node \<mapsto> s\<lparr>es_generation := ec_generation ec\<rparr>)\<rparr>
    | None \<Rightarrow> ec\<lparr>ec_rows := ec_rows ec + 1, ec_slots := (ec_slots ec)(node \<mapsto> \<lparr>es_row = of_nat (ec_rows ec), es_generation = ec_generation ec\<rparr>)\<rparr>)"
  define row where "row = (case ec_slots ec node of Some s \<Rightarrow> es_row s | None \<Rightarrow> of_nat (ec_rows ec))"
  define ks1 where "ks1 = (if node \<in> set ks then ks else ks @ [node])"
  have ks1: "distinct ks1" "\<forall>n\<in>set ks1. unat n < ec_num_nodes ec" "set ks1 = insert node (set ks)"
    using K(5,7) n by (auto simp: ks1_def)
  have "length ks1 \<le> 2 ^ 32"
  proof -
    have "unat x < 2 ^ 32" for x :: u32 using unsigned_less [of x, where ?'a = nat] by simp
    then show ?thesis using rows_below [OF ks1(1)] by blast
  qed
  then have few: "length ks < 2 ^ 32" if "node \<notin> set ks" using that by (simp add: ks1_def)
  have none: "ec_slots ec node = None \<longleftrightarrow> node \<notin> set ks" using K(8) by blast
  have run: "(case ec_slots ec node of
         Some s \<Rightarrow> Some (es_row s, ec\<lparr>ec_slots := (ec_slots ec)(node \<mapsto> s\<lparr>es_generation := ec_generation ec\<rparr>)\<rparr>)
       | None \<Rightarrow> do {
           (row, rows) \<leftarrow> alloc_row (ec_rows ec);
           Some (row, ec\<lparr>ec_rows := rows, ec_slots := (ec_slots ec)(node \<mapsto> \<lparr>es_row = row, es_generation = ec_generation ec\<rparr>)\<rparr>) }) = Some (row, ec1)"
    using few none K(6) by (auto simp: alloc_row_def row_def ec1_def split: option.split)
  have sel: "ec_store ec1 = ec_store ec" "ec_dim ec1 = ec_dim ec" "ec_num_nodes ec1 = ec_num_nodes ec" "ec_generation ec1 = ec_generation ec"
    by (simp_all add: ec1_def split: option.split)
  have slots1: "ec_slots ec1 = (ec_slots ec)(node \<mapsto> \<lparr>es_row = row, es_generation = ec_generation ec\<rparr>)"
    by (auto simp: ec1_def row_def fun_eq_iff split: option.split)
  have rows1: "length ks1 = ec_rows ec1" using none K(6) by (auto simp: ks1_def ec1_def split: option.split)
  have row: "unat row < length ks1 \<and> ks1 ! unat row = node"
  proof (cases "ec_slots ec node")
    case None
    then have "unat row = length ks" using few none K(6) by (simp add: row_def unsigned_of_nat take_bit_nat_eq_self)
    then show ?thesis using None none by (simp add: ks1_def)
  next
    case (Some s)
    then have "node \<in> set ks" using none by auto
    then show ?thesis using Some K(9) by (simp add: row_def ks1_def)
  qed
  have shape1: "unat (es_row s) < length ks1 \<and> ks1 ! unat (es_row s) = m" if "ec_slots ec1 m = Some s" for m s
    using that row K(9) by (auto simp: slots1 ks1_def nth_append split: if_splits)
  have "length ks1 \<le> ec_num_nodes ec" by (rule rows_below [OF ks1(1,2)])
  then have "in_mapping (ec_store ec) (unat row) (ec_dim ec)" using row K(2,3) by (intro row_in_mapping [where m = "ec_num_nodes ec"]) simp_all
  then obtain rs where rs: "write_row (ec_store ec) row (ec_dim ec) e = Some rs" using len by (simp add: write_row_def Let_def)
  note mem = write_row_mem [OF rs]
  let ?ec = "ec1\<lparr>ec_store := rs\<rparr>"
  have upd: "cache_update ec node e = Some ?ec" unfolding cache_update_def using n run rs sel by simp
  have "dom (ec_slots ec1) = set ks1" using K(8) ks1(3) by (simp add: slots1)
  then have "cache_ok ?ec" unfolding cache_ok_def using K(1-4) sel mem(1,2) ks1(1,2) rows1 shape1 by auto
  moreover have "served ?ec m = ((served ec)(node \<mapsto> e)) m" for m
  proof (cases "m = node")
    case True
    then show ?thesis using mem(2,3) K(4) sel by (simp add: served_def slots1)
  next
    case False
    show ?thesis
    proof (cases "ec_slots ec m")
      case None
      then show ?thesis using False by (simp add: served_def slots1)
    next
      case (Some s)
      have "unat (es_row s) \<noteq> unat row" using shape1 [of m s] row False Some by (auto simp: slots1)
      from mem(4) [OF K(2) this] show ?thesis using False Some mem(2) sel by (simp add: served_def slots1)
    qed
  qed
  ultimately show ?thesis using upd sel by (auto simp: same_shape_def)
qed

lemma invalidate_ok:
  assumes ok: "cache_ok ec"
  shows "cache_ok (invalidate ec node)" and "served (invalidate ec node) = (served ec)(node := None)" and "same_shape ec (invalidate ec node)"
    and "ec_generation (invalidate ec node) = ec_generation ec"
proof -
  obtain ks where K: "0 < ec_dim ec" "ec_dim ec \<le> rs_stride (ec_store ec)" "ec_num_nodes ec * rs_stride (ec_store ec) * 4 \<le> rs_bytes (ec_store ec)"
    "ec_generation ec \<noteq> 0" "distinct ks" "length ks = ec_rows ec" "\<forall>n\<in>set ks. unat n < ec_num_nodes ec" "dom (ec_slots ec) = set ks"
    "\<forall>n s. ec_slots ec n = Some s \<longrightarrow> unat (es_row s) < length ks \<and> ks ! unat (es_row s) = n" "length ks \<le> ec_num_nodes ec"
    by (rule cache_okE [OF ok])
  have "cache_ok (invalidate ec node)"
  proof (cases "ec_slots ec node")
    case None
    then show ?thesis using ok by (simp add: invalidate_def)
  next
    case (Some s)
    let ?sl = "(ec_slots ec)(node \<mapsto> s\<lparr>es_generation := 0\<rparr>)"
    have "dom ?sl = set ks" using K(8) Some by auto
    moreover have "\<forall>m q. ?sl m = Some q \<longrightarrow> unat (es_row q) < length ks \<and> ks ! unat (es_row q) = m" using K(9) Some by auto
    ultimately show ?thesis using K Some by (auto simp: invalidate_def cache_ok_def)
  qed
  then show "cache_ok (invalidate ec node)" .
  show "served (invalidate ec node) = (served ec)(node := None)" "same_shape ec (invalidate ec node)"
    "ec_generation (invalidate ec node) = ec_generation ec"
    by (auto simp: invalidate_def served_def fun_eq_iff same_shape_def split: option.split)
qed

lemma advance_ok:
  assumes "cache_ok ec" and "ec_generation ec + 1 \<noteq> 0"
  shows "cache_ok (cache_advance_epoch ec)" and "served (cache_advance_epoch ec) = served ec" and "same_shape ec (cache_advance_epoch ec)"
  using assms by (auto simp: cache_ok_def cache_advance_epoch_def served_def fun_eq_iff same_shape_def split: option.split)

subsection \<open>The sampler refines a map\<close>

definition spec_batch :: "(u32 \<Rightarrow> f32_cell list option) \<Rightarrow> u32 list \<Rightarrow> historical_batch" where
  "spec_batch m nodes = \<lparr>hb_recompute = filter (\<lambda>n. m n = None) nodes, hb_cached = filter (\<lambda>n. m n \<noteq> None) nodes,
     hb_embeddings = concat (map (\<lambda>n. the (m n)) (filter (\<lambda>n. m n \<noteq> None) nodes))\<rparr>"

datatype sampler_op = Commit historical_batch "f32_cell list" | Epoch "u32 list"

fun sampler_op_run :: "sampler_op \<Rightarrow> historical_sampler \<Rightarrow> historical_sampler option" where
  "sampler_op_run (Commit b es) hs = commit_batch b es hs"
| "sampler_op_run (Epoch dirty) hs = Some (advance_epoch_with dirty hs)"

fun sampler_ops_run :: "sampler_op list \<Rightarrow> historical_sampler \<Rightarrow> historical_sampler option" where
  "sampler_ops_run [] hs = Some hs"
| "sampler_ops_run (op # ops) hs = sampler_op_run op hs \<bind> sampler_ops_run ops"

text \<open>The specification: a commit stores each node's slice, an epoch forgets the dirty nodes.\<close>

fun store_slices :: "nat \<Rightarrow> f32_cell list \<Rightarrow> u32 list \<Rightarrow> nat \<Rightarrow> (u32 \<Rightarrow> f32_cell list option) \<Rightarrow> u32 \<Rightarrow> f32_cell list option" where
  "store_slices dim es [] i m = m"
| "store_slices dim es (n # ns) i m = store_slices dim es ns (Suc i) (m(n \<mapsto> take dim (drop (i * dim) es)))"

fun spec_op :: "nat \<Rightarrow> (u32 \<Rightarrow> f32_cell list option) \<Rightarrow> sampler_op \<Rightarrow> u32 \<Rightarrow> f32_cell list option" where
  "spec_op dim m (Commit b es) = store_slices dim es (hb_recompute b) 0 m"
| "spec_op dim m (Epoch dirty) = m |` (- set dirty)"

fun valid_op :: "nat \<Rightarrow> nat \<Rightarrow> sampler_op \<Rightarrow> bool" where
  "valid_op num_nodes dim (Commit b es) \<longleftrightarrow> length es = length (hb_recompute b) * dim \<and> (\<forall>n\<in>set (hb_recompute b). unat n < num_nodes)"
| "valid_op num_nodes dim (Epoch dirty) \<longleftrightarrow> True"

lemma prepare_into_ok:
  "cache_ok hs \<Longrightarrow> prepare_batch_into hs nodes b = Some (let s = spec_batch (served hs) nodes in
    \<lparr>hb_recompute = hb_recompute b @ hb_recompute s, hb_cached = hb_cached b @ hb_cached s, hb_embeddings = hb_embeddings b @ hb_embeddings s\<rparr>)"
  by (induction nodes arbitrary: b) (auto simp: get_if_computed_ok spec_batch_def Let_def split: option.split)

lemma prepare_batch_ok: "cache_ok hs \<Longrightarrow> prepare_batch hs nodes = Some (spec_batch (served hs) nodes)"
  by (simp add: prepare_batch_def prepare_into_ok Let_def)

lemma commit_nodes_ok:
  "cache_ok hs \<Longrightarrow> \<forall>n\<in>set nodes. unat n < ec_num_nodes hs \<Longrightarrow> (i + length nodes) * ec_dim hs \<le> length es \<Longrightarrow>
    \<exists>hs'. commit_nodes nodes i es hs = Some hs' \<and> cache_ok hs' \<and> served hs' = store_slices (ec_dim hs) es nodes i (served hs) \<and>
      same_shape hs hs' \<and> ec_generation hs' = ec_generation hs"
proof (induction nodes arbitrary: i hs)
  case Nil
  then show ?case by (simp add: same_shape_def)
next
  case (Cons n nodes)
  let ?d = "ec_dim hs" and ?e = "take (ec_dim hs) (drop (i * ec_dim hs) es)"
  have "i * ?d + ?d = (i + 1) * ?d" by simp
  also have "\<dots> \<le> (i + length (n # nodes)) * ?d" by (intro mult_le_mono1) simp
  also have "\<dots> \<le> length es" by (rule Cons.prems(3))
  finally have fit: "i * ?d + ?d \<le> length es" .
  then have len: "length ?e = ?d" and sl: "slice_opt es (i * ?d) (i * ?d + ?d) = Some ?e" by (simp_all add: slice_opt_def)
  obtain h1 where h1: "cache_update hs n ?e = Some h1" "cache_ok h1" "served h1 = (served hs)(n \<mapsto> ?e)" "same_shape hs h1"
    "ec_generation h1 = ec_generation hs" using update_ok [OF Cons.prems(1) _ len] Cons.prems(2) by auto
  have sh: "ec_dim h1 = ?d" "ec_num_nodes h1 = ec_num_nodes hs" using h1(4) by (simp_all add: same_shape_def)
  obtain h2 where "commit_nodes nodes (Suc i) es h1 = Some h2" "cache_ok h2" "served h2 = store_slices ?d es nodes (Suc i) (served h1)"
    "same_shape h1 h2" "ec_generation h2 = ec_generation h1" using Cons.IH [OF h1(2), of "Suc i"] Cons.prems(2,3) sh by auto
  then show ?case using h1 sl by (simp add: same_shape_def)
qed

lemma invalidate_all_ok:
  "cache_ok hs \<Longrightarrow> cache_ok (foldl invalidate hs dirty) \<and> served (foldl invalidate hs dirty) = (served hs) |` (- set dirty) \<and>
    same_shape hs (foldl invalidate hs dirty) \<and> ec_generation (foldl invalidate hs dirty) = ec_generation hs"
proof (induction dirty arbitrary: hs)
  case Nil
  then show ?case by (simp add: same_shape_def)
next
  case (Cons n dirty)
  note one = invalidate_ok [OF Cons.prems, of n]
  have e: "((served hs)(n := None)) |` (- set dirty) = (served hs) |` (- insert n (set dirty))" by (auto simp: restrict_map_def fun_eq_iff)
  have "served (foldl invalidate (invalidate hs n) dirty) = served hs |` (- insert n (set dirty))"
    using Cons.IH [OF one(1)] unfolding one(2) e by blast
  then show ?case using Cons.IH [OF one(1)] one(3,4) by (simp add: same_shape_def)
qed

lemma sampler_op_ok:
  assumes ok: "cache_ok hs" and v: "valid_op (ec_num_nodes hs) (ec_dim hs) op" and gen: "ec_generation hs + 1 \<noteq> 0"
  shows "\<exists>hs'. sampler_op_run op hs = Some hs' \<and> cache_ok hs' \<and> served hs' = spec_op (ec_dim hs) (served hs) op \<and> same_shape hs hs' \<and>
    (ec_generation hs' = ec_generation hs \<or> ec_generation hs' = ec_generation hs + 1)"
proof (cases op)
  case (Commit b es)
  then show ?thesis using commit_nodes_ok [OF ok, of "hb_recompute b" 0 es] v by (auto simp: commit_batch_def)
next
  case (Epoch dirty)
  note inv = invalidate_all_ok [OF ok, of dirty]
  have g: "ec_generation (foldl invalidate hs dirty) + 1 \<noteq> 0" using inv gen by simp
  show ?thesis using Epoch inv advance_ok [OF conjunct1 [OF inv] g]
    by (simp add: advance_epoch_with_def same_shape_def) (simp add: cache_advance_epoch_def)
qed

lemma sampler_ops_ok:
  "cache_ok hs \<Longrightarrow> \<forall>op\<in>set ops. valid_op (ec_num_nodes hs) (ec_dim hs) op \<Longrightarrow> unat (ec_generation hs) + length ops < 2 ^ 64 \<Longrightarrow>
    \<exists>hs'. sampler_ops_run ops hs = Some hs' \<and> cache_ok hs' \<and> served hs' = foldl (spec_op (ec_dim hs)) (served hs) ops"
proof (induction ops arbitrary: hs)
  case Nil
  then show ?case by simp
next
  case (Cons op ops)
  have "unat (ec_generation hs) + 1 < 2 ^ 64" using Cons.prems(3) by simp
  then have u: "unat (ec_generation hs + 1) = unat (ec_generation hs) + 1" by (subst unat_add_lem [THEN iffD1]) simp_all
  then have gen: "ec_generation hs + 1 \<noteq> 0" by (metis add_is_0 unat_0 zero_neq_one)
  obtain h1 where h1: "sampler_op_run op hs = Some h1" "cache_ok h1" "served h1 = spec_op (ec_dim hs) (served hs) op" "same_shape hs h1"
    "ec_generation h1 = ec_generation hs \<or> ec_generation h1 = ec_generation hs + 1" using sampler_op_ok [OF Cons.prems(1) _ gen, of op] Cons.prems(2) by auto
  have "unat (ec_generation h1) + length ops < 2 ^ 64" using h1(5) u Cons.prems(3) by auto
  then show ?case using Cons.IH [OF h1(2)] h1(1,3,4) Cons.prems(2) by (simp add: same_shape_def)
qed

text \<open>C7 (refinement). The historical sampler is a map from nodes to embeddings: after any sequence of commits and
  epochs, a batch splits its nodes, in order, into those whose last committed embedding no later epoch made dirty, which
  are served bit for bit, and the rest, which are sent for recomputation. No call panics, however the rows of the
  reserved mapping were dealt out.\<close>

theorem historical_refines_map:
  assumes "historical_new True num_nodes dim = Some hs0" and "\<forall>op\<in>set ops. valid_op num_nodes dim op" and "length ops < 2 ^ 64 - 1"
  shows "\<exists>hs. sampler_ops_run ops hs0 = Some hs \<and>
    (\<forall>nodes. prepare_batch hs nodes = Some (spec_batch (foldl (spec_op dim) Map.empty ops) nodes))"
proof -
  have n: "cache_ok hs0" "served hs0 = Map.empty" "ec_num_nodes hs0 = num_nodes" "ec_dim hs0 = dim" "ec_generation hs0 = 1"
    using new_ok assms(1) unfolding historical_new_def by blast+
  have "unat (ec_generation hs0) + length ops < 2 ^ 64" using assms(3) by (simp add: n(5))
  then obtain hs where "sampler_ops_run ops hs0 = Some hs" "cache_ok hs" "served hs = foldl (spec_op dim) Map.empty ops"
    using sampler_ops_ok [OF n(1), of ops] assms(2) n by auto
  then show ?thesis by (auto simp: prepare_batch_ok)
qed

theorem historical_refines_map_witness:
  "\<exists>hs0 hs. historical_new True 4 2 = Some hs0 \<and>
     sampler_ops_run [Commit \<lparr>hb_recompute = [2, 0], hb_cached = [], hb_embeddings = []\<rparr> [7, 8, 9, 10], Epoch [2, 3]] hs0 = Some hs \<and>
     prepare_batch hs [0, 2, 1] = Some \<lparr>hb_recompute = [2, 1], hb_cached = [0], hb_embeddings = [9, 10]\<rparr>"
proof -
  let ?ops = "[Commit \<lparr>hb_recompute = [2, 0], hb_cached = [], hb_embeddings = []\<rparr> [7, 8, 9, 10], Epoch [2, 3]]"
  obtain hs0 where h: "historical_new True 4 2 = Some hs0" using new_some [of 2 4] by (auto simp: historical_new_def)
  have "spec_batch (foldl (spec_op 2) Map.empty ?ops) [0, 2, 1] = \<lparr>hb_recompute = [2, 1], hb_cached = [0], hb_embeddings = [9, 10]\<rparr>"
    by (simp add: spec_batch_def restrict_map_def)
  then show ?thesis using historical_refines_map [OF h, of ?ops] h by auto
qed

end
