(* ===== verification/Succinct.thy ===== *)
theory Succinct
  imports Le_Bytes Dirty
begin

section \<open>Elias-Fano and StreamVByte codecs\<close>

text \<open>
  Models \<^verbatim>\<open>crates/aethergraph-core/src/internal/succinct.rs\<close>: the bit packer, the Elias-Fano
  encoder with its random-access and sequential decoders, the StreamVByte delta codec, and the
  wire format of both. Vectors are lists, values are machine words, positions are \<open>nat\<close>; a
  slice index out of range is \<open>None\<close>.
\<close>

subsection \<open>The bit packer\<close>

record bit_writer =
  bw_words :: "u64 list"
  bw_bit_len :: nat

definition bw_new :: bit_writer where
  "bw_new = \<lparr>bw_words = [], bw_bit_len = 0\<rparr>"

definition push_bits :: "bit_writer \<Rightarrow> u64 \<Rightarrow> nat \<Rightarrow> bit_writer option" where
  "push_bits w v bits =
     (if bits = 0 then Some w
      else
        let word = bw_bit_len w div 64;
            off = bw_bit_len w mod 64;
            words = (if length (bw_words w) \<le> word then bw_words w @ [0] else bw_words w)
        in do {
          x \<leftarrow> nth_opt words word;
          let words = words[word := or x (push_bit off v)];
          let words = (if 64 < off + bits then words @ [drop_bit (64 - off) v] else words);
          Some \<lparr>bw_words = words, bw_bit_len = bw_bit_len w + bits\<rparr> })"

subsection \<open>Elias-Fano\<close>

record elias_fano =
  ef_len :: nat
  ef_low_bits :: nat
  ef_low :: "u64 list"
  ef_high :: "u64 list"
  ef_universe :: u64

definition low_mask :: "nat \<Rightarrow> u64" where
  "low_mask lb = (if lb = 0 then 0 else push_bit lb 1 - 1)"

fun encode_values :: "nat \<Rightarrow> u64 list \<Rightarrow> nat \<Rightarrow> bit_writer \<Rightarrow> u64 list \<Rightarrow> (bit_writer \<times> u64 list) option" where
  "encode_values lb [] i low high = Some (low, high)"
| "encode_values lb (v # vs) i low high = do {
     low \<leftarrow> (if 0 < lb then push_bits low (and v (low_mask lb)) lb else Some low);
     let high_pos = unat (drop_bit lb v) + i;
     w \<leftarrow> nth_opt high (high_pos div 64);
     encode_values lb vs (Suc i) low (high[high_pos div 64 := or w (push_bit (high_pos mod 64) 1)]) }"

definition pairs_sorted :: "u64 list \<Rightarrow> bool" where
  "pairs_sorted vs = list_all (\<lambda>i. vs ! i \<le> vs ! Suc i) [0..<length vs - 1]"

definition low_bits_for :: "nat \<Rightarrow> u64 \<Rightarrow> nat" where
  "low_bits_for n u = (if n = 0 \<or> unat u < n then 0 else ilog2 (unat u div n))"

definition ef_encode :: "u64 list \<Rightarrow> elias_fano option" where
  "ef_encode vs = do {
     assert_opt (pairs_sorted vs);
     let n = length vs;
     let universe = (if vs = [] then 0 else last vs);
     let lb = low_bits_for n universe;
     let high_len = n + unat (drop_bit lb universe) + 1;
     (low, high) \<leftarrow> encode_values lb vs 0 bw_new (replicate ((high_len + 63) div 64) 0);
     Some \<lparr>ef_len = n, ef_low_bits = lb, ef_low = bw_words low, ef_high = high, ef_universe = universe\<rparr> }"

definition read_low :: "elias_fano \<Rightarrow> nat \<Rightarrow> u64 option" where
  "read_low ef i =
     (let b = i * ef_low_bits ef;
          word = b div 64;
          off = b mod 64;
          lb = ef_low_bits ef;
          m = (if lb = 64 then - 1 else push_bit lb 1 - 1)
      in if off + lb \<le> 64
         then do { x \<leftarrow> nth_opt (ef_low ef) word; Some (and (drop_bit off x) m) }
         else do {
           x \<leftarrow> nth_opt (ef_low ef) word;
           y \<leftarrow> nth_opt (ef_low ef) (word + 1);
           Some (and (or (drop_bit off x) (push_bit (64 - off) y)) m) })"

text \<open>The low part as \<^verbatim>\<open>get\<close>, \<^verbatim>\<open>for_each\<close> and \<^verbatim>\<open>read_from\<close> compute it.\<close>

definition low_part :: "elias_fano \<Rightarrow> nat \<Rightarrow> u64 option" where
  "low_part ef i = (if ef_low_bits ef = 0 then Some 0 else read_low ef i)"

fun clear_low_ones :: "nat \<Rightarrow> u64 \<Rightarrow> u64" where
  "clear_low_ones 0 w = w"
| "clear_low_ones (Suc n) w = clear_low_ones n (and w (w - 1))"

fun ef_select :: "u64 list \<Rightarrow> nat \<Rightarrow> nat \<Rightarrow> nat option" where
  "ef_select [] word_idx remaining = None"
| "ef_select (w # ws) word_idx remaining =
     (if remaining < count_ones w then Some (word_idx * 64 + ctz (clear_low_ones remaining w))
      else ef_select ws (Suc word_idx) (remaining - count_ones w))"

definition ef_get :: "elias_fano \<Rightarrow> nat \<Rightarrow> u64 option option" where
  "ef_get ef i =
     (if ef_len ef \<le> i then Some None
      else do {
        set_pos \<leftarrow> ef_select (ef_high ef) 0 i;
        low \<leftarrow> low_part ef i;
        Some (Some (or (push_bit (ef_low_bits ef) (of_nat (set_pos - i))) low)) })"

text \<open>\<^verbatim>\<open>for_each\<close>: the state of the visitor is threaded; the flag says that the loop returned.\<close>

function ef_visit_word :: "elias_fano \<Rightarrow> (nat \<Rightarrow> u64 \<Rightarrow> 's \<Rightarrow> 's option) \<Rightarrow> nat \<Rightarrow> u64 \<Rightarrow> nat \<Rightarrow> 's
    \<Rightarrow> (nat \<times> 's \<times> bool) option" where
  "ef_visit_word ef visit word_idx w i s =
     (if w = 0 then Some (i, s, False)
      else
        let set_pos = word_idx * 64 + ctz w;
            w' = and w (w - 1)
        in do {
          low \<leftarrow> low_part ef i;
          s \<leftarrow> visit i (or (push_bit (ef_low_bits ef) (of_nat (set_pos - i))) low) s;
          (if Suc i = ef_len ef then Some (Suc i, s, True)
           else ef_visit_word ef visit word_idx w' (Suc i) s) })"
  by pat_completeness auto

termination ef_visit_word
  by (relation "measure (\<lambda>(_, _, _, w, _). unat w)") (simp_all add: and_minus_one_less)

declare ef_visit_word.simps [simp del]

fun ef_visit_words :: "elias_fano \<Rightarrow> (nat \<Rightarrow> u64 \<Rightarrow> 's \<Rightarrow> 's option) \<Rightarrow> nat \<Rightarrow> u64 list \<Rightarrow> nat \<Rightarrow> 's \<Rightarrow> 's option" where
  "ef_visit_words ef visit word_idx [] i s = Some s"
| "ef_visit_words ef visit word_idx (w # ws) i s = do {
     (i, s, stop) \<leftarrow> ef_visit_word ef visit word_idx w i s;
     if stop then Some s else ef_visit_words ef visit (Suc word_idx) ws i s }"

definition ef_for_each :: "elias_fano \<Rightarrow> (nat \<Rightarrow> u64 \<Rightarrow> 's \<Rightarrow> 's option) \<Rightarrow> 's \<Rightarrow> 's option" where
  "ef_for_each ef visit s = (if ef_len ef = 0 then Some s else ef_visit_words ef visit 0 (ef_high ef) 0 s)"

definition ef_decode_into :: "elias_fano \<Rightarrow> u64 list \<Rightarrow> u64 list option" where
  "ef_decode_into ef out = do {
     assert_opt (length out = ef_len ef);
     ef_for_each ef (\<lambda>i v out. set_opt out i v) out }"

definition ef_to_vec :: "elias_fano \<Rightarrow> u64 list option" where
  "ef_to_vec ef = ef_decode_into ef (replicate (ef_len ef) 0)"

definition ef_heap_bytes :: "elias_fano \<Rightarrow> nat" where
  "ef_heap_bytes ef = length (ef_low ef) * 8 + length (ef_high ef) * 8"

subsection \<open>The wire format of Elias-Fano\<close>

definition ef_write_into :: "elias_fano \<Rightarrow> bytes \<Rightarrow> bytes" where
  "ef_write_into ef out =
     out @ to_le_bytes64 (of_nat (ef_len ef)) @ to_le_bytes64 (ef_universe ef)
         @ to_le_bytes (of_nat (ef_low_bits ef))
         @ to_le_bytes64 (of_nat (length (ef_low ef))) @ concat (map to_le_bytes64 (ef_low ef))
         @ to_le_bytes64 (of_nat (length (ef_high ef))) @ concat (map to_le_bytes64 (ef_high ef))"

text \<open>The ordering pass of \<^verbatim>\<open>read_from\<close>; \<open>Inl\<close> is the break with its message.\<close>

function ef_check_word :: "elias_fano \<Rightarrow> nat \<Rightarrow> u64 \<Rightarrow> nat \<Rightarrow> (u64 \<times> u64) option
    \<Rightarrow> (codec_error + nat \<times> (u64 \<times> u64) option) option" where
  "ef_check_word ef word_idx w i prev =
     (if w = 0 then Some (Inr (i, prev))
      else
        let high_part = of_nat (word_idx * 64 + ctz w - i);
            w' = and w (w - 1)
        in do {
          low \<leftarrow> low_part ef i;
          (if drop_bit (ef_low_bits ef) (ef_universe ef) < high_part
           then Some (Inl (Malformed ''exceeds universe''))
           else if (case prev of None \<Rightarrow> False | Some (ph, pl) \<Rightarrow> ph = high_part \<and> low < pl)
           then Some (Inl (Malformed ''sequence decreases''))
           else ef_check_word ef word_idx w' (Suc i) (Some (high_part, low))) })"
  by pat_completeness auto

termination ef_check_word
  by (relation "measure (\<lambda>(_, _, w, _). unat w)") (simp_all add: and_minus_one_less)

declare ef_check_word.simps [simp del]

fun ef_check_words :: "elias_fano \<Rightarrow> nat \<Rightarrow> u64 list \<Rightarrow> nat \<Rightarrow> (u64 \<times> u64) option
    \<Rightarrow> (codec_error + (u64 \<times> u64) option) option" where
  "ef_check_words ef word_idx [] i prev = Some (Inr prev)"
| "ef_check_words ef word_idx (w # ws) i prev = do {
     r \<leftarrow> ef_check_word ef word_idx w i prev;
     (case r of Inl e \<Rightarrow> Some (Inl e) | Inr (i, prev) \<Rightarrow> ef_check_words ef (Suc word_idx) ws i prev) }"

text \<open>The checks between the parse and the ordering pass, and the pass.\<close>

definition ef_validate :: "elias_fano \<Rightarrow> (codec_error + elias_fano) option" where
  "ef_validate ef =
     (let lb = ef_low_bits ef; n = ef_len ef in
      if 2 ^ 64 \<le> n * lb then Some (Inl (Malformed ''low array size overflows''))
      else if length (ef_low ef) < (n * lb + 63) div 64 then Some (Inl (Malformed ''low array truncated''))
      else if sum_list (map count_ones (ef_high ef)) \<noteq> n then Some (Inl (Malformed ''set bits''))
      else if n = 0 \<and> ef_universe ef \<noteq> 0 then Some (Inl (Malformed ''empty sequence with universe''))
      else do {
        r \<leftarrow> ef_check_words ef 0 (ef_high ef) 0 None;
        (case r of
           Inl e \<Rightarrow> Some (Inl e)
         | Inr None \<Rightarrow> Some (Inr ef)
         | Inr (Some (h, l)) \<Rightarrow>
             if or (push_bit lb h) l \<noteq> ef_universe ef then Some (Inl (Malformed ''last element'')) else Some (Inr ef)) })"

definition ef_parse :: "bytes \<Rightarrow> codec_error + elias_fano \<times> byte_reader" where
  "ef_parse bs =
     ok_then (br_u64 (br_new bs)) (\<lambda>(n, r).
     ok_then (br_u64 r) (\<lambda>(universe, r).
     ok_then (br_u32 r) (\<lambda>(lb, r).
     if \<not> lb < 64 then Inl (Malformed ''low_bits out of range'')
     else ok_then (br_u64_vec r) (\<lambda>(low, r).
     ok_then (br_u64_vec r) (\<lambda>(high, r).
       Inr (\<lparr>ef_len = unat n, ef_low_bits = unat lb, ef_low = low, ef_high = high, ef_universe = universe\<rparr>, r))))))"

definition ef_read_from :: "bytes \<Rightarrow> (codec_error + elias_fano \<times> nat) option" where
  "ef_read_from bs =
     (case ef_parse bs of
        Inl e \<Rightarrow> Some (Inl e)
      | Inr (ef, r) \<Rightarrow> do {
          v \<leftarrow> ef_validate ef;
          (case v of Inl e \<Rightarrow> Some (Inl e) | Inr ef \<Rightarrow> Some (Inr (ef, br_pos r))) })"

subsection \<open>StreamVByte\<close>

record stream_vbyte =
  sv_len :: nat
  sv_first :: u32
  sv_control :: "u8 list"
  sv_data :: "u8 list"

definition svb_len :: "u32 \<Rightarrow> nat \<times> u8" where
  "svb_len v =
     (if v < 2 ^ 8 then (1, 0) else if v < 2 ^ 16 then (2, 1) else if v < 2 ^ 24 then (3, 2) else (4, 3))"

fun encode_delta_loop :: "u32 list \<Rightarrow> nat \<Rightarrow> u32 \<Rightarrow> u8 list \<Rightarrow> u8 list \<Rightarrow> (u8 list \<times> u8 list) option" where
  "encode_delta_loop [] i prev control data = Some (control, data)"
| "encode_delta_loop (v # vs) i prev control data =
     (let delta = v - prev;
          (nbytes, tag) = svb_len delta
      in do {
        le \<leftarrow> slice_opt (to_le_bytes delta) 0 nbytes;
        c \<leftarrow> nth_opt control (i div 4);
        encode_delta_loop vs (Suc i) v (control[i div 4 := or c (push_bit (i mod 4 * 2) tag)]) (data @ le) })"

definition encode_deltas :: "u32 list \<Rightarrow> stream_vbyte option" where
  "encode_deltas vs = (case vs of
     [] \<Rightarrow> Some \<lparr>sv_len = 0, sv_first = 0, sv_control = [], sv_data = []\<rparr>
   | first # rest \<Rightarrow> do {
       (control, data) \<leftarrow> encode_delta_loop rest 0 first (replicate ((length rest + 3) div 4) 0) [];
       Some \<lparr>sv_len = length vs, sv_first = first, sv_control = control, sv_data = data\<rparr> })"

definition svb_tag :: "u8 list \<Rightarrow> nat \<Rightarrow> u8 option" where
  "svb_tag control i = do { c \<leftarrow> nth_opt control (i div 4); Some (and (drop_bit (i mod 4 * 2) c) 3) }"

text \<open>The loop over the remaining \<open>n\<close> slots of the output.\<close>

fun svb_decode_loop :: "stream_vbyte \<Rightarrow> nat \<Rightarrow> nat \<Rightarrow> u32 \<Rightarrow> nat \<Rightarrow> u32 list option" where
  "svb_decode_loop sv 0 i acc pos = Some []"
| "svb_decode_loop sv (Suc n) i acc pos = do {
     tag \<leftarrow> svb_tag (sv_control sv) i;
     let nbytes = unat tag + 1;
     raw \<leftarrow> slice_opt (sv_data sv) pos (pos + nbytes);
     delta \<leftarrow> from_le_bytes (raw @ replicate (4 - nbytes) 0);
     let acc = acc + delta;
     out \<leftarrow> svb_decode_loop sv n (Suc i) acc (pos + nbytes);
     Some (acc # out) }"

definition svb_decode_into :: "stream_vbyte \<Rightarrow> u32 list \<Rightarrow> u32 list option" where
  "svb_decode_into sv out = do {
     assert_opt (length out = sv_len sv);
     (case out of
        [] \<Rightarrow> Some []
      | _ # rest \<Rightarrow> do {
          vs \<leftarrow> svb_decode_loop sv (length rest) 0 (sv_first sv) 0;
          Some (sv_first sv # vs) }) }"

definition svb_decode :: "stream_vbyte \<Rightarrow> u32 list option" where
  "svb_decode sv = svb_decode_into sv (replicate (sv_len sv) 0)"

definition svb_heap_bytes :: "stream_vbyte \<Rightarrow> nat" where
  "svb_heap_bytes sv = length (sv_control sv) + length (sv_data sv)"

definition svb_write_into :: "stream_vbyte \<Rightarrow> bytes \<Rightarrow> bytes" where
  "svb_write_into sv out =
     out @ to_le_bytes64 (of_nat (sv_len sv)) @ to_le_bytes (sv_first sv)
         @ to_le_bytes64 (of_nat (length (sv_control sv))) @ sv_control sv
         @ to_le_bytes64 (of_nat (length (sv_data sv))) @ sv_data sv"

fun svb_need :: "u8 list \<Rightarrow> nat \<Rightarrow> nat option" where
  "svb_need control 0 = Some 0"
| "svb_need control (Suc n) = do {
     k \<leftarrow> svb_need control n;
     tag \<leftarrow> svb_tag control n;
     Some (k + (unat tag + 1)) }"

definition svb_parse :: "bytes \<Rightarrow> codec_error + stream_vbyte \<times> byte_reader" where
  "svb_parse bs =
     ok_then (br_u64 (br_new bs)) (\<lambda>(n, r).
     ok_then (br_u32 r) (\<lambda>(first, r).
     ok_then (br_byte_vec r) (\<lambda>(control, r).
     ok_then (br_byte_vec r) (\<lambda>(data, r).
       Inr (\<lparr>sv_len = unat n, sv_first = first, sv_control = control, sv_data = data\<rparr>, r)))))"

definition svb_read_from :: "bytes \<Rightarrow> (codec_error + stream_vbyte \<times> nat) option" where
  "svb_read_from bs =
     (case svb_parse bs of
        Inl e \<Rightarrow> Some (Inl e)
      | Inr (sv, r) \<Rightarrow>
          let n_deltas = sv_len sv - 1 in
          if length (sv_control sv) \<noteq> (n_deltas + 3) div 4 then Some (Inl (Malformed ''control stream''))
          else do {
            need \<leftarrow> svb_need (sv_control sv) n_deltas;
            Some (if length (sv_data sv) \<noteq> need then Inl (Malformed ''data stream'') else Inr (sv, br_pos r)) })"

end
