(* ===== verification/Succinct_Facts.thy ===== *)
theory Succinct_Facts
  imports Succinct
begin

section \<open>Bit-level facts of the Elias-Fano codec\<close>

text \<open>
  A vector of words is read as its bits: \<open>bit_at ws p\<close>, and the ascending list \<open>ones k ws\<close> of the
  set positions. The loops of the code that pop the lowest set bit of each word are walks over
  that list; the packer appends bits.
\<close>

definition bit_at :: "u64 list \<Rightarrow> nat \<Rightarrow> bool" where
  "bit_at ws p \<longleftrightarrow> p div 64 < length ws \<and> bit (ws ! (p div 64)) (p mod 64)"

fun ones :: "nat \<Rightarrow> u64 list \<Rightarrow> nat list" where
  "ones k [] = []"
| "ones k (w # ws) = map ((+) (k * 64)) (filter (bit w) [0..<64]) @ ones (Suc k) ws"

lemma length_ones: "length (ones k ws) = sum_list (map count_ones ws)"
  by (induction ws arbitrary: k) (simp_all add: count_ones_def)

lemma set_ones: "p \<in> set (ones k ws) \<longleftrightarrow> k * 64 \<le> p \<and> bit_at ws (p - k * 64)"
proof (induction ws arbitrary: k)
  case (Cons w ws)
  have "(\<exists>j<64. bit w j \<and> p = k * 64 + j) \<longleftrightarrow> k * 64 \<le> p \<and> p - k * 64 < 64 \<and> bit w (p - k * 64)"
    by (auto intro: exI [of _ "p - k * 64"])
  moreover have "Suc k * 64 \<le> p \<and> bit_at ws (p - Suc k * 64) \<longleftrightarrow> k * 64 \<le> p \<and> \<not> p - k * 64 < 64 \<and> bit_at (w # ws) (p - k * 64)"
  proof (cases "k * 64 + 64 \<le> p")
    case True
    then obtain q where q: "p = k * 64 + 64 + q" by (metis le_Suc_ex)
    have "(64 + q) div 64 = Suc (q div 64)" "(64 + q) mod 64 = q mod 64" by simp_all
    then show ?thesis by (simp add: q bit_at_def)
  qed (auto simp: bit_at_def)
  moreover have "p - k * 64 < 64 \<Longrightarrow> bit w (p - k * 64) = bit_at (w # ws) (p - k * 64)" by (simp add: bit_at_def)
  ultimately show ?case by (auto simp: Cons.IH)
qed (simp add: bit_at_def)

lemma ssorted_ones: "ssorted (ones k ws)"
proof (induction ws arbitrary: k)
  case (Cons w ws)
  have "ssorted (map ((+) (k * 64)) (filter (bit w) [0..<64]))"
    by (simp add: sorted_wrt_map sorted_wrt_filter)
  moreover have "x < y" if "x \<in> set (map ((+) (k * 64)) (filter (bit w) [0..<64]))" "y \<in> set (ones (Suc k) ws)" for x y
    using that by (auto simp: set_ones)
  ultimately show ?case using Cons.IH [of "Suc k"] by (simp only: ones.simps ssorted_append) blast
qed simp

subsection \<open>The loops are walks over the set positions\<close>

lemma ctz_clear: "r < count_ones w \<Longrightarrow> ctz (clear_low_ones r w) = filter (bit w) [0..<64] ! r"
proof (induction r arbitrary: w)
  case 0
  then have "w \<noteq> 0" by (auto simp: count_ones_def)
  then show ?case by (simp add: filter_bits_step)
next
  case (Suc r)
  then have w: "w \<noteq> 0" by (auto simp: count_ones_def)
  have "r < count_ones (and w (w - 1))" using Suc.prems by (simp add: count_ones_def filter_bits_step [OF w])
  from Suc.IH [OF this] show ?case by (simp add: filter_bits_step [OF w])
qed

lemma ef_select_eq: "ef_select ws k r = (if r < length (ones k ws) then Some (ones k ws ! r) else None)"
proof (induction ws arbitrary: k r)
  case (Cons w ws)
  let ?b = "filter (bit w) [0..<64]"
  have l: "length ?b = count_ones w" by (simp add: count_ones_def)
  show ?case
  proof (cases "r < count_ones w")
    case True
    then show ?thesis using l by (simp add: ctz_clear nth_append)
  next
    case False
    then show ?thesis using l by (auto simp: Cons.IH nth_append)
  qed
qed simp

fun walk :: "elias_fano \<Rightarrow> (nat \<Rightarrow> u64 \<Rightarrow> 's \<Rightarrow> 's option) \<Rightarrow> nat list \<Rightarrow> nat \<Rightarrow> 's \<Rightarrow> 's option" where
  "walk ef visit [] i s = Some s"
| "walk ef visit (p # ps) i s = do {
     low \<leftarrow> low_part ef i;
     s \<leftarrow> visit i (or (push_bit (ef_low_bits ef) (of_nat (p - i))) low) s;
     (if Suc i = ef_len ef then Some s else walk ef visit ps (Suc i) s) }"

lemma visit_word_walk:
  "ef_visit_word ef visit k w i s \<bind> (\<lambda>(i, s, stop). if stop then Some s else walk ef visit qs i s)
     = walk ef visit (map ((+) (k * 64)) (filter (bit w) [0..<64]) @ qs) i s"
proof (induction ef visit k w i s rule: ef_visit_word.induct)
  case (1 ef visit k w i s)
  show ?case
  proof (cases "w = 0")
    case True
    then show ?thesis by (subst ef_visit_word.simps) simp
  next
    case False
    show ?thesis
      using "1.IH" [OF False refl refl] False
      by (subst ef_visit_word.simps) (auto simp: filter_bits_step [OF False] Let_def intro!: Option.bind_cong)
  qed
qed

lemma visit_words_walk: "ef_visit_words ef visit k ws i s = walk ef visit (ones k ws) i s"
proof (induction ws arbitrary: k i s)
  case (Cons w ws)
  show ?case unfolding ones.simps visit_word_walk [symmetric] Cons.IH [symmetric] by simp
qed simp

fun check_walk :: "elias_fano \<Rightarrow> nat list \<Rightarrow> nat \<Rightarrow> (u64 \<times> u64) option \<Rightarrow> (codec_error + (u64 \<times> u64) option) option" where
  "check_walk ef [] i prev = Some (Inr prev)"
| "check_walk ef (p # ps) i prev = do {
     low \<leftarrow> low_part ef i;
     (if drop_bit (ef_low_bits ef) (ef_universe ef) < of_nat (p - i)
      then Some (Inl (Malformed ''exceeds universe''))
      else if (case prev of None \<Rightarrow> False | Some (ph, pl) \<Rightarrow> ph = of_nat (p - i) \<and> low < pl)
      then Some (Inl (Malformed ''sequence decreases''))
      else check_walk ef ps (Suc i) (Some (of_nat (p - i), low))) }"

lemma check_word_walk:
  "ef_check_word ef k w i prev \<bind> (\<lambda>r. case r of Inl e \<Rightarrow> Some (Inl e) | Inr (i, prev) \<Rightarrow> check_walk ef qs i prev)
     = check_walk ef (map ((+) (k * 64)) (filter (bit w) [0..<64]) @ qs) i prev"
proof (induction ef k w i prev rule: ef_check_word.induct)
  case (1 ef k w i prev)
  show ?case
  proof (cases "w = 0")
    case True
    then show ?thesis by (subst ef_check_word.simps) simp
  next
    case False
    show ?thesis
      using "1.IH" [OF False refl refl] False
      by (subst ef_check_word.simps) (auto simp: filter_bits_step [OF False] Let_def intro!: Option.bind_cong)
  qed
qed

lemma check_words_walk: "ef_check_words ef k ws i prev = check_walk ef (ones k ws) i prev"
proof (induction ws arbitrary: k i prev)
  case (Cons w ws)
  show ?case unfolding ones.simps check_word_walk [symmetric] Cons.IH [symmetric] by simp
qed simp

end
