(* ===== verification/Succinct_Encode.thy ===== *)
theory Succinct_Encode
  imports Succinct_Facts
begin

section \<open>What the Elias-Fano encoder builds\<close>

text \<open>
  The packer appends the bits of each low part; the high bits are set exactly at the positions
  \<open>high part + index\<close>; reading a low part back gives the bits stored. The result is the predicate
  \<open>ef_codes ef vs\<close>: the structure represents the sequence \<open>vs\<close>.
\<close>

subsection \<open>The packer\<close>

definition bw_wf :: "bit_writer \<Rightarrow> bool" where
  "bw_wf w \<longleftrightarrow> length (bw_words w) = (bw_bit_len w + 63) div 64 \<and> (\<forall>p. bw_bit_len w \<le> p \<longrightarrow> \<not> bit_at (bw_words w) p)"

lemma bw_new_wf [simp]: "bw_wf bw_new"
  by (simp add: bw_wf_def bw_new_def bit_at_def)

lemma bit_at_snoc_zero: "bit_at (ws @ [0]) p = bit_at ws p"
  by (auto simp: bit_at_def nth_append)

lemma bit_u64_lt: "bit (w :: u64) n \<Longrightarrow> n < 64"
  by (drule bit_imp_le_length) simp

lemma push_bits_ok:
  assumes wf: "bw_wf w" and bits: "0 < bits" "bits \<le> 64" and v: "\<And>k. bits \<le> k \<Longrightarrow> \<not> bit v k"
  shows "\<exists>w'. push_bits w v bits = Some w' \<and> bw_wf w' \<and> bw_bit_len w' = bw_bit_len w + bits \<and>
    (\<forall>p. bit_at (bw_words w') p \<longleftrightarrow> bit_at (bw_words w) p \<or> (bw_bit_len w \<le> p \<and> bit v (p - bw_bit_len w)))"
proof -
  define n where "n = bw_bit_len w"
  define word where "word = n div 64"
  define off where "off = n mod 64"
  have n: "n = 64 * word + off" and off: "off < 64" by (simp_all add: word_def off_def)
  define ws where "ws = (if length (bw_words w) \<le> word then bw_words w @ [0] else bw_words w)"
  have len0: "length (bw_words w) = (n + 63) div 64" using wf by (simp add: bw_wf_def n_def)
  have len: "length ws = Suc word"
  proof (cases "off = 0")
    case True
    then show ?thesis using len0 by (simp add: ws_def n)
  next
    case False
    then have "(n + 63) div 64 = Suc word" using off by (simp add: n)
    then show ?thesis using len0 by (simp add: ws_def)
  qed
  have same: "bit_at ws p = bit_at (bw_words w) p" for p by (simp add: ws_def bit_at_snoc_zero)
  define xs where "xs = ws[word := or (ws ! word) (push_bit off v)]"
  define ys where "ys = (if 64 < off + bits then xs @ [drop_bit (64 - off) v] else xs)"
  have lx: "length xs = Suc word" by (simp add: xs_def len)
  have ly: "length ys = (n + bits + 63) div 64"
    using bits off lx by (auto simp: ys_def n)
  have run: "push_bits w v bits = Some \<lparr>bw_words = ys, bw_bit_len = n + bits\<rparr>"
    using bits len by (simp add: push_bits_def Let_def nth_opt_Some ys_def xs_def ws_def word_def off_def n_def)
  have final: "bit_at ys p \<longleftrightarrow> bit_at (bw_words w) p \<or> (n \<le> p \<and> bit v (p - n))" for p
  proof -
    define q where "q = p div 64"
    define r where "r = p mod 64"
    have p: "p = 64 * q + r" and r: "r < 64" by (simp_all add: q_def r_def)
    consider "q < word" | "q = word" | "q = Suc word" | "Suc word < q" by linarith
    then show ?thesis
    proof cases
      case 1
      then have "bit_at ys p = bit_at ws p" using lx by (simp add: bit_at_def ys_def nth_append xs_def len flip: q_def)
      then show ?thesis using 1 off r by (simp add: same p n)
    next
      case 2
      have "bit_at ys p \<longleftrightarrow> bit (or (ws ! word) (push_bit off v)) r"
        using 2 lx len by (simp add: bit_at_def ys_def nth_append xs_def flip: q_def r_def)
      also have "\<dots> \<longleftrightarrow> bit (ws ! word) r \<or> (off \<le> r \<and> bit v (r - off))"
        using r by (auto simp: bit_or_iff bit_push_bit_iff possible_bit_def)
      also have "bit (ws ! word) r = bit_at ws p" using 2 len by (simp add: bit_at_def flip: q_def r_def)
      finally show ?thesis using 2 by (auto simp: same p n)
    next
      case 3
      have old: "\<not> bit_at (bw_words w) p" using same [of p] 3 len by (simp add: bit_at_def flip: q_def)
      have e: "p - n = 64 - off + r" "n \<le> p" using 3 off by (simp_all add: p n)
      have "bit_at ys p \<longleftrightarrow> 64 < off + bits \<and> bit v (64 - off + r)"
        using 3 lx by (auto simp: bit_at_def ys_def nth_append bit_drop_bit_eq simp flip: q_def r_def)
      also have "\<dots> \<longleftrightarrow> bit v (64 - off + r)" using v [of "64 - off + r"] bits by (cases "64 < off + bits") auto
      finally show ?thesis using old e by simp
    next
      case 4
      have "\<not> bit_at (bw_words w) p" using same [of p] 4 len by (simp add: bit_at_def flip: q_def)
      moreover have "\<not> bit_at ys p" using 4 lx by (simp add: bit_at_def ys_def flip: q_def)
      moreover have "64 \<le> p - n" using 4 off by (simp add: p n)
      then have "\<not> bit v (p - n)" using bit_u64_lt by (metis not_less)
      ultimately show ?thesis by simp
    qed
  qed
  have "bw_wf \<lparr>bw_words = ys, bw_bit_len = n + bits\<rparr>"
    using ly wf v by (auto simp: bw_wf_def final n_def)
  then show ?thesis using run final by (auto simp: n_def)
qed

subsection \<open>Reading a low part\<close>

lemma div_mod_64: "r < 64 \<Longrightarrow> (64 * q + r) div 64 = q \<and> (64 * q + r) mod 64 = (r :: nat)"
  by simp

lemma low_mask_eq: "lb < 64 \<Longrightarrow> push_bit lb (1 :: u64) - 1 = mask lb"
  by (simp add: mask_eq_exp_minus_1 push_bit_eq_mult)

lemma read_low_ok:
  assumes lb: "ef_low_bits ef < 64" and room: "(i + 1) * ef_low_bits ef \<le> 64 * length (ef_low ef)" and pos: "0 < ef_low_bits ef"
  shows "\<exists>x. read_low ef i = Some x \<and> (\<forall>k. bit x k \<longleftrightarrow> k < ef_low_bits ef \<and> bit_at (ef_low ef) (i * ef_low_bits ef + k))"
proof -
  define l where "l = ef_low_bits ef"
  define ws where "ws = ef_low ef"
  define b where "b = i * l"
  define word where "word = b div 64"
  define off where "off = b mod 64"
  have b: "b = 64 * word + off" and off: "off < 64" by (simp_all add: word_def off_def)
  have room': "b + l \<le> 64 * length ws" using room by (simp add: b_def l_def ws_def algebra_simps)
  have l: "0 < l" "l < 64" using pos lb by (simp_all add: l_def)
  have word: "word < length ws" using room' l b by linarith
  show ?thesis
  proof (cases "off + l \<le> 64")
    case True
    have "read_low ef i = Some (and (drop_bit off (ws ! word)) (mask l))"
      using True word l unfolding read_low_def Let_def
      by (simp add: mask_eq_exp_minus_1 nth_opt_Some flip: l_def ws_def b_def word_def off_def)
    moreover have "bit (and (drop_bit off (ws ! word)) (mask l)) k \<longleftrightarrow> k < l \<and> bit_at ws (b + k)" for k
    proof (cases "k < l")
      case k: True
      then have "off + k < 64" using True by simp
      then have "(b + k) div 64 = word" "(b + k) mod 64 = off + k"
        using div_mod_64 [of "off + k" word] by (simp_all add: b add.assoc)
      then show ?thesis using k l word by (simp add: bit_at_def bit_and_iff bit_drop_bit_eq bit_mask_iff possible_bit_def)
    qed (simp add: bit_and_iff bit_mask_iff)
    ultimately show ?thesis by (auto simp: l_def ws_def b_def)
  next
    case False
    have word1: "word + 1 < length ws" using False room' b by linarith
    let ?x = "and (or (drop_bit off (ws ! word)) (push_bit (64 - off) (ws ! (word + 1)))) (mask l)"
    have "read_low ef i = Some ?x"
      using False word word1 l unfolding read_low_def Let_def
      by (simp add: mask_eq_exp_minus_1 nth_opt_Some flip: l_def ws_def b_def word_def off_def)
    moreover have "bit ?x k \<longleftrightarrow> k < l \<and> bit_at ws (b + k)" for k
    proof (cases "k < l")
      case k: True
      show ?thesis
      proof (cases "off + k < 64")
        case True
        then have "(b + k) div 64 = word" "(b + k) mod 64 = off + k"
          using div_mod_64 [of "off + k" word] by (simp_all add: b add.assoc)
        then show ?thesis using True k l word
          by (auto simp: bit_at_def bit_and_iff bit_or_iff bit_drop_bit_eq bit_push_bit_iff bit_mask_iff possible_bit_def)
      next
        case hi: False
        have e: "b + k = 64 * Suc word + (off + k - 64)" using hi b by simp
        have r: "off + k - 64 < 64" using off k l by simp
        have d: "(b + k) div 64 = Suc word" "(b + k) mod 64 = off + k - 64" unfolding e using div_mod_64 [OF r, of "Suc word"] by blast+
        have "\<not> bit (ws ! word) (off + k)" using hi bit_u64_lt by blast
        moreover have "k - (64 - off) = off + k - 64" using off hi by simp
        ultimately show ?thesis using d hi k l word1 off
          by (auto simp: bit_at_def bit_and_iff bit_or_iff bit_drop_bit_eq bit_push_bit_iff bit_mask_iff possible_bit_def)
      qed
    qed (simp add: bit_and_iff bit_mask_iff)
    ultimately show ?thesis by (auto simp: l_def ws_def b_def)
  qed
qed


subsection \<open>The structure represents a sequence\<close>

text \<open>\<open>ef_codes ef vs\<close>: the high bits are set at \<open>high part + index\<close> for each element, in order,
  and the low parts are readable.\<close>

definition ef_codes :: "elias_fano \<Rightarrow> u64 list \<Rightarrow> bool" where
  "ef_codes ef vs \<longleftrightarrow> ef_len ef = length vs \<and> ef_low_bits ef < 64 \<and> length vs < 2 ^ 58 \<and>
     ones 0 (ef_high ef) = map (\<lambda>i. unat (drop_bit (ef_low_bits ef) (vs ! i)) + i) [0..<length vs] \<and>
     (\<forall>i<length vs. low_part ef i = Some (take_bit (ef_low_bits ef) (vs ! i)))"

lemma join_parts: "or (push_bit lb (drop_bit lb v)) (take_bit lb v) = (v :: u64)"
  by (rule bit_word_eqI) (auto simp: bit_or_iff bit_push_bit_iff bit_drop_bit_eq bit_take_bit_iff possible_bit_def)

lemma of_nat_unat_u64 [simp]: "of_nat (unat (w :: u64)) = w"
  by simp

lemma ef_get_codes:
  assumes "ef_codes ef vs"
  shows "ef_get ef i = Some (if i < length vs then Some (vs ! i) else None)"
proof (cases "i < length vs")
  case True
  then show ?thesis using assms by (simp add: ef_get_def ef_codes_def ef_select_eq join_parts)
qed (use assms in \<open>simp add: ef_get_def ef_codes_def\<close>)

text \<open>The sequential walk visits each index with its value, and stops after the last.\<close>

lemma walk_writes:
  assumes "\<forall>j. i \<le> j \<longrightarrow> j < length vs \<longrightarrow> low_part ef j = Some (take_bit (ef_low_bits ef) (vs ! j))"
    and "ps = map (\<lambda>j. unat (drop_bit (ef_low_bits ef) (vs ! j)) + j) [i..<length vs]"
    and "ef_len ef = length vs" and "length out = length vs" and "i \<le> length vs"
  shows "walk ef (\<lambda>i v out. set_opt out i v) ps i out = Some (take i out @ drop i vs)"
  using assms
proof (induction ps arbitrary: i out)
  case Nil
  then have "i = length vs" by auto
  then show ?case using Nil by simp
next
  case (Cons p ps)
  then have i: "i < length vs" by (cases "i < length vs") simp_all
  then have p: "p = unat (drop_bit (ef_low_bits ef) (vs ! i)) + i"
    and ps: "ps = map (\<lambda>j. unat (drop_bit (ef_low_bits ef) (vs ! j)) + j) [Suc i..<length vs]"
    using Cons.prems(2) by (simp_all add: upt_conv_Cons)
  have low: "low_part ef i = Some (take_bit (ef_low_bits ef) (vs ! i))" using Cons.prems(1) i by simp
  have v: "or (push_bit (ef_low_bits ef) (of_nat (p - i))) (take_bit (ef_low_bits ef) (vs ! i)) = vs ! i"
    unfolding p by (simp add: join_parts)
  have tl: "take (Suc i) (out[i := vs ! i]) @ drop (Suc i) vs = take i out @ drop i vs"
    using i Cons.prems(4) by (simp add: take_Suc_conv_app_nth Cons_nth_drop_Suc)
  show ?case
  proof (cases "Suc i = length vs")
    case True
    then have "take (length vs) (out[i := vs ! i]) = take i out @ drop i vs"
      using tl by simp
    then have "out[i := vs ! i] = take i out @ drop i vs" using Cons.prems(4) by simp
    then show ?thesis using True i Cons.prems(3,4) low v by (simp add: set_opt_def)
  next
    case False
    have IH: "walk ef (\<lambda>i v out. set_opt out i v) ps (Suc i) (out[i := vs ! i]) = Some (take i out @ drop i vs)"
      using Cons.IH [of "Suc i" "out[i := vs ! i]"] Cons.prems ps i tl by simp
    show ?thesis using False i Cons.prems(3,4) low v IH by (simp add: set_opt_def)
  qed
qed

lemma ef_to_vec_codes: "ef_codes ef vs \<Longrightarrow> ef_to_vec ef = Some vs"
proof -
  assume c: "ef_codes ef vs"
  have "walk ef (\<lambda>i v out. set_opt out i v) (ones 0 (ef_high ef)) 0 (replicate (length vs) 0) = Some vs"
    using walk_writes [of 0 vs ef "ones 0 (ef_high ef)" "replicate (length vs) 0"] c by (simp add: ef_codes_def)
  then show ?thesis using c
    by (auto simp: ef_to_vec_def ef_decode_into_def ef_for_each_def visit_words_walk ef_codes_def)
qed

subsection \<open>The encoder builds it\<close>

definition stored_low :: "nat \<Rightarrow> bit_writer \<Rightarrow> u64 list \<Rightarrow> bool" where
  "stored_low lb w vs \<longleftrightarrow> bw_wf w \<and> bw_bit_len w = lb * length vs \<and>
     (\<forall>i<length vs. \<forall>k<lb. bit_at (bw_words w) (i * lb + k) \<longleftrightarrow> bit (vs ! i) k)"

definition stored_high :: "nat \<Rightarrow> u64 list \<Rightarrow> u64 list \<Rightarrow> bool" where
  "stored_high lb high vs \<longleftrightarrow> (\<forall>p. bit_at high p \<longleftrightarrow> (\<exists>i<length vs. p = unat (drop_bit lb (vs ! i)) + i))"

lemma stored_low_push:
  assumes "stored_low lb w vs" and "0 < lb" and "lb < 64"
  shows "\<exists>w'. push_bits w (and v (low_mask lb)) lb = Some w' \<and> stored_low lb w' (vs @ [v])"
proof -
  have m: "and v (low_mask lb) = take_bit lb v" using assms(2,3) by (simp add: low_mask_def mask_eq_exp_minus_1 take_bit_eq_mask)
  obtain w' where w': "push_bits w (take_bit lb v) lb = Some w'" "bw_wf w'" "bw_bit_len w' = bw_bit_len w + lb"
    "\<And>p. bit_at (bw_words w') p \<longleftrightarrow> bit_at (bw_words w) p \<or> (bw_bit_len w \<le> p \<and> bit (take_bit lb v) (p - bw_bit_len w))"
    using push_bits_ok [of w lb "take_bit lb v"] assms by (auto simp: stored_low_def bit_take_bit_iff)
  have "bit_at (bw_words w') (i * lb + k) \<longleftrightarrow> bit ((vs @ [v]) ! i) k" if i: "i < length (vs @ [v])" and k: "k < lb" for i k
  proof (cases "i < length vs")
    case True
    then have "Suc i * lb \<le> length vs * lb" by (intro mult_le_mono1) simp
    then have "i * lb + k < bw_bit_len w" using k assms(1) by (simp add: stored_low_def mult.commute)
    then show ?thesis using True k assms(1) by (simp add: w'(4) stored_low_def nth_append)
  next
    case False
    then have il: "i = length vs" using i by simp
    have b: "i * lb + k = bw_bit_len w + k" using assms(1) il by (simp add: stored_low_def)
    have "\<not> bit_at (bw_words w) (bw_bit_len w + k)" using assms(1) by (simp add: stored_low_def bw_wf_def)
    then show ?thesis unfolding b using k by (simp add: w'(4) il bit_take_bit_iff)
  qed
  then show ?thesis unfolding m using w'(1,2,3) assms(1)
    by (intro exI [of _ w']) (simp add: stored_low_def algebra_simps)
qed

lemma bit_at_set:
  assumes "p div 64 < length ws"
  shows "bit_at (ws[p div 64 := or (ws ! (p div 64)) (push_bit (p mod 64) 1)]) q \<longleftrightarrow> bit_at ws q \<or> q = p"
proof (cases "q div 64 = p div 64")
  case True
  then have "q mod 64 = p mod 64 \<longleftrightarrow> q = p" by (metis mod_mult_div_eq)
  then show ?thesis using True assms by (auto simp: bit_at_def bit_or_iff bit_exp_iff possible_bit_def)
next
  case False
  then show ?thesis by (auto simp: bit_at_def)
qed

lemma encode_values_ok:
  assumes "lb = 0 \<or> stored_low lb low pre" and "stored_high lb high pre" and "lb < 64"
    and "\<forall>i<length (pre @ vs). (unat (drop_bit lb ((pre @ vs) ! i)) + i) div 64 < length high"
  shows "\<exists>low' high'. encode_values lb vs (length pre) low high = Some (low', high') \<and>
    (lb = 0 \<or> stored_low lb low' (pre @ vs)) \<and> stored_high lb high' (pre @ vs)"
  using assms
proof (induction vs arbitrary: pre low high)
  case (Cons v vs)
  let ?p = "unat (drop_bit lb v) + length pre"
  let ?high = "high[?p div 64 := or (high ! (?p div 64)) (push_bit (?p mod 64) 1)]"
  obtain low1 where low1: "(if 0 < lb then push_bits low (and v (low_mask lb)) lb else Some low) = Some low1"
    "lb = 0 \<or> stored_low lb low1 (pre @ [v])"
    using stored_low_push [of lb low pre v] Cons.prems(1,3) by (cases "lb = 0") auto
  have p: "?p div 64 < length high" using Cons.prems(4) by (auto dest: spec [of _ "length pre"])
  have high1: "stored_high lb ?high (pre @ [v])"
    unfolding stored_high_def bit_at_set [OF p]
    using Cons.prems(2) by (auto simp: stored_high_def nth_append less_Suc_eq)
  obtain low' high' where "encode_values lb vs (length (pre @ [v])) low1 ?high = Some (low', high')"
    "lb = 0 \<or> stored_low lb low' ((pre @ [v]) @ vs)" "stored_high lb high' ((pre @ [v]) @ vs)"
    using Cons.IH [of low1 "pre @ [v]" ?high] low1(2) high1 Cons.prems(3,4) by auto
  then show ?case using low1(1) p by (simp add: nth_opt_Some)
qed (auto simp: stored_low_def)

lemma encode_values_length:
  "encode_values lb vs i low high = Some (low', high') \<Longrightarrow> length high' = length high"
  by (induction vs arbitrary: i low high) (auto simp: Let_def split: Option.bind_splits)

lemma low_bits_for_lt: "low_bits_for n u < 64"
proof (cases "n = 0 \<or> unat u < n")
  case False
  let ?q = "unat u div n"
  have "0 < ?q" using False by (simp add: div_greater_zero_iff)
  then have "2 ^ ilog2 ?q \<le> ?q" using ilog2_bounds by blast
  also have "?q \<le> unat u" by simp
  also have "\<dots> < 2 ^ 64" using unsigned_less [of u, where ?'a = nat] by simp
  finally have "(2 :: nat) ^ ilog2 ?q < 2 ^ 64" .
  then have "ilog2 ?q < 64" by (rule power_less_imp_less_exp [rotated]) simp
  then show ?thesis using False by (simp add: low_bits_for_def)
qed (simp add: low_bits_for_def)

text \<open>The high parts of \<open>n\<close> values below \<open>u\<close> are below \<open>2 * n\<close>.\<close>

lemma high_parts_small:
  assumes "n = 0 \<longrightarrow> u = 0"
  shows "unat (drop_bit (low_bits_for n u) u) \<le> 2 * n"
proof (cases "n = 0 \<or> unat u < n")
  case False
  let ?q = "unat u div n"
  have "0 < ?q" using False by (simp add: div_greater_zero_iff)
  then have "?q < 2 ^ Suc (ilog2 ?q)" using ilog2_bounds by blast
  then have "unat u < n * 2 ^ Suc (ilog2 ?q)" using False by (simp add: div_less_iff_less_mult mult.commute)
  then have "unat u div 2 ^ ilog2 ?q < 2 * n" by (simp add: div_less_iff_less_mult mult_ac)
  then show ?thesis using False unfolding unat_drop_bit_eq by (simp add: low_bits_for_def drop_bit_eq_div)
qed (use assms in \<open>auto simp: low_bits_for_def\<close>)

lemma drop_bit_mono: "v \<le> w \<Longrightarrow> unat (drop_bit n v) \<le> unat (drop_bit n (w :: u64))"
  unfolding unat_drop_bit_eq by (simp add: word_le_nat_alt drop_bit_eq_div div_le_mono)

lemma pairs_sorted_iff: "pairs_sorted vs = sorted vs"
proof
  assume p: "pairs_sorted vs"
  show "sorted vs" unfolding sorted_iff_nth_Suc using p by (auto simp: pairs_sorted_def list_all_iff)
qed (auto simp: pairs_sorted_def list_all_iff sorted_iff_nth_Suc)

lemma low_part_stored:
  assumes "stored_low lb w vs" and "0 < lb" and "lb < 64" and "i < length vs"
    and "ef_low_bits ef = lb" and "ef_low ef = bw_words w"
  shows "low_part ef i = Some (take_bit lb (vs ! i))"
proof -
  have "(i + 1) * lb \<le> length vs * lb" using assms(4) by (intro mult_le_mono1) simp
  also have "\<dots> \<le> 64 * length (bw_words w)" using assms(1) by (simp add: stored_low_def bw_wf_def mult.commute)
  finally obtain x where x: "read_low ef i = Some x"
    "\<And>k. bit x k \<longleftrightarrow> k < lb \<and> bit_at (bw_words w) (i * lb + k)"
    using read_low_ok [of ef i] assms by auto
  have "x = take_bit lb (vs ! i)"
    by (rule bit_word_eqI) (use x(2) assms(1,4) in \<open>auto simp: bit_take_bit_iff stored_low_def\<close>)
  then show ?thesis using x(1) assms(2,5) by (simp add: low_part_def)
qed

lemma ef_encode_ok:
  assumes s: "sorted vs" and small: "length vs < 2 ^ 58"
  shows "\<exists>ef. ef_encode vs = Some ef \<and> ef_codes ef vs \<and> ef_universe ef = (if vs = [] then 0 else last vs) \<and>
    length (ef_low ef) = (length vs * ef_low_bits ef + 63) div 64 \<and>
    ef_low_bits ef = low_bits_for (length vs) (ef_universe ef) \<and>
    length (ef_high ef) = (length vs + unat (drop_bit (ef_low_bits ef) (ef_universe ef)) + 64) div 64"
proof -
  define u where "u = (if vs = [] then 0 else last vs)"
  define lb where "lb = low_bits_for (length vs) u"
  define high where "high = replicate ((length vs + unat (drop_bit lb u) + 1 + 63) div 64) (0 :: u64)"
  have lb: "lb < 64" by (simp add: lb_def low_bits_for_lt)
  have le: "vs ! i \<le> u" if "i < length vs" for i
    using that s by (auto simp: u_def last_conv_nth sorted_iff_nth_mono)
  have room: "(unat (drop_bit lb (vs ! i)) + i) div 64 < length high" if i: "i < length vs" for i
  proof -
    have "unat (drop_bit lb (vs ! i)) + i < length vs + unat (drop_bit lb u) + 1"
      using drop_bit_mono [OF le [OF i], of lb] i by simp
    then show ?thesis by (simp add: high_def)
  qed
  have "stored_high lb high []" by (auto simp: stored_high_def bit_at_def high_def)
  moreover have "stored_low lb bw_new []" by (simp add: stored_low_def) (simp add: bw_new_def)
  ultimately obtain low' high' where e: "encode_values lb vs 0 bw_new high = Some (low', high')"
    "lb = 0 \<or> stored_low lb low' vs" "stored_high lb high' vs"
    using encode_values_ok [of lb bw_new "[]" high vs] lb room by auto
  have low0: "lb = 0 \<Longrightarrow> low' = bw_new"
  proof -
    have "encode_values 0 ws i low h = Some (l', h') \<Longrightarrow> l' = low" for ws i low h l' h'
      by (induction ws arbitrary: i h) (auto simp: Let_def split: Option.bind_splits)
    then show "lb = 0 \<Longrightarrow> low' = bw_new" using e(1) by blast
  qed
  define ef where "ef = \<lparr>ef_len = length vs, ef_low_bits = lb, ef_low = bw_words low', ef_high = high', ef_universe = u\<rparr>"
  have enc: "ef_encode vs = Some ef"
    using s e(1) unfolding ef_encode_def Let_def u_def [symmetric] lb_def [symmetric] high_def [symmetric]
    by (simp add: pairs_sorted_iff ef_def)
  have up: "ssorted (map (\<lambda>i. unat (drop_bit lb (vs ! i)) + i) [0..<length vs])"
  proof -
    have "unat (drop_bit lb (vs ! i)) + i < unat (drop_bit lb (vs ! j)) + j" if "i < j" "j < length vs" for i j
    proof -
      have "vs ! i \<le> vs ! j" using s that by (simp add: sorted_iff_nth_mono)
      then have "unat (drop_bit lb (vs ! i)) \<le> unat (drop_bit lb (vs ! j))" by (rule drop_bit_mono)
      then show ?thesis using that by simp
    qed
    then show ?thesis by (simp add: sorted_wrt_map sorted_wrt_iff_nth_less)
  qed
  have "ones 0 high' = map (\<lambda>i. unat (drop_bit lb (vs ! i)) + i) [0..<length vs]"
  proof (rule ssorted_set_eq [OF ssorted_ones up])
    show "set (ones 0 high') = set (map (\<lambda>i. unat (drop_bit lb (vs ! i)) + i) [0..<length vs])"
      using e(3) by (auto simp: set_ones stored_high_def)
  qed
  moreover have "low_part ef i = Some (take_bit lb (vs ! i))" if "i < length vs" for i
  proof (cases "lb = 0")
    case False
    then show ?thesis using low_part_stored [of lb low' vs i ef] e(2) lb that by (simp add: ef_def)
  qed (simp add: low_part_def ef_def)
  ultimately have "ef_codes ef vs" using lb small by (simp add: ef_codes_def ef_def)
  moreover have "length (ef_low ef) = (length vs * ef_low_bits ef + 63) div 64"
    using e(2) low0 by (cases "lb = 0") (simp_all add: ef_def bw_new_def stored_low_def bw_wf_def mult.commute)
  moreover have "length (ef_high ef) = (length vs + unat (drop_bit lb u) + 64) div 64"
    using encode_values_length [OF e(1)] by (simp add: ef_def high_def)
  ultimately show ?thesis using enc by (auto simp: ef_def lb_def simp flip: u_def)
qed

end
