(* ===== verification/Succinct_Properties.thy ===== *)
theory Succinct_Properties
  imports Succinct_Encode
begin

section \<open>Round trips and validation of the codecs\<close>

text \<open>
  Elias-Fano: decoding what was encoded, and the parser's guarantee that everything it accepts
  decodes to a sorted sequence that ends at its universe. StreamVByte: the delta codec and its
  wire format.
\<close>

subsection \<open>The ordering pass accepts a coded sequence\<close>

abbreviation parts :: "nat \<Rightarrow> u64 \<Rightarrow> u64 \<times> u64" where
  "parts lb v \<equiv> (drop_bit lb v, take_bit lb v)"

lemma unat_parts: "unat v = unat (drop_bit lb v) * 2 ^ lb + unat (take_bit lb (v :: u64))"
proof -
  have "unat (drop_bit lb v) = unat v div 2 ^ lb" unfolding unat_drop_bit_eq by (simp add: drop_bit_eq_div)
  moreover have "unat (take_bit lb v) = unat v mod 2 ^ lb" unfolding unsigned_take_bit_eq by (simp add: take_bit_eq_mod)
  ultimately show ?thesis by (simp only: div_mult_mod_eq)
qed

lemma parts_le_iff:
  "v \<le> w \<longleftrightarrow> drop_bit lb v < drop_bit lb w \<or> (drop_bit lb v = drop_bit lb w \<and> take_bit lb v \<le> take_bit lb (w :: u64))"
  (is "_ \<longleftrightarrow> ?r")
proof
  assume le: "v \<le> w"
  have "drop_bit lb v \<le> drop_bit lb w" using drop_bit_mono [OF le] by (simp add: word_le_nat_alt)
  moreover have "take_bit lb v \<le> take_bit lb w" if "drop_bit lb v = drop_bit lb w"
    using le that unat_parts [of v lb] unat_parts [of w lb] by (simp add: word_le_nat_alt)
  ultimately show ?r by (auto simp: order_le_less)
next
  assume ?r
  then show "v \<le> w"
  proof
    assume lt: "drop_bit lb v < drop_bit lb w"
    show "v \<le> w"
    proof (rule ccontr)
      assume "\<not> v \<le> w"
      then have "drop_bit lb w \<le> drop_bit lb v" using drop_bit_mono [of w v lb] by (simp add: word_le_nat_alt)
      then show False using lt by simp
    qed
  next
    assume "drop_bit lb v = drop_bit lb w \<and> take_bit lb v \<le> take_bit lb w"
    then show "v \<le> w" using unat_parts [of v lb] unat_parts [of w lb] by (simp add: word_le_nat_alt)
  qed
qed

lemma check_walk_accepts:
  assumes "\<forall>j. i \<le> j \<longrightarrow> j < length vs \<longrightarrow> low_part ef j = Some (take_bit (ef_low_bits ef) (vs ! j))"
    and "ps = map (\<lambda>j. unat (drop_bit (ef_low_bits ef) (vs ! j)) + j) [i..<length vs]"
    and "i \<le> length vs" and "sorted vs" and "\<forall>v\<in>set vs. v \<le> ef_universe ef"
  shows "check_walk ef ps i (if i = 0 then None else Some (parts (ef_low_bits ef) (vs ! (i - 1))))
    = Some (Inr (if vs = [] then None else Some (parts (ef_low_bits ef) (last vs))))"
  using assms
proof (induction ps arbitrary: i)
  case Nil
  then have "i = length vs" by auto
  then show ?case by (simp add: last_conv_nth)
next
  case (Cons p ps)
  let ?lb = "ef_low_bits ef"
  have i: "i < length vs" using Cons.prems(2) by (cases "i < length vs") simp_all
  have p: "p = unat (drop_bit ?lb (vs ! i)) + i"
    and ps: "ps = map (\<lambda>j. unat (drop_bit ?lb (vs ! j)) + j) [Suc i..<length vs]"
    using Cons.prems(2) i by (simp_all add: upt_conv_Cons)
  have low: "low_part ef i = Some (take_bit ?lb (vs ! i))" using Cons.prems(1) i by simp
  have h: "of_nat (p - i) = drop_bit ?lb (vs ! i)" by (simp add: p)
  have le: "\<not> drop_bit ?lb (ef_universe ef) < drop_bit ?lb (vs ! i)"
    using Cons.prems(5) i parts_le_iff [of "vs ! i" "ef_universe ef" ?lb] by (auto simp: not_less)
  have dec: "\<not> (drop_bit ?lb (vs ! (i - 1)) = drop_bit ?lb (vs ! i) \<and> take_bit ?lb (vs ! i) < take_bit ?lb (vs ! (i - 1)))" if "0 < i"
  proof -
    have "vs ! (i - 1) \<le> vs ! i" using Cons.prems(4) i by (simp add: sorted_iff_nth_mono)
    then show ?thesis using parts_le_iff [of "vs ! (i - 1)" "vs ! i" ?lb] by (auto simp: not_less)
  qed
  have IH: "check_walk ef ps (Suc i) (Some (parts ?lb (vs ! i))) = Some (Inr (if vs = [] then None else Some (parts ?lb (last vs))))"
    using Cons.IH [of "Suc i"] Cons.prems ps i by simp
  show ?case using low le dec IH by (simp add: h)
qed

subsection \<open>What the ordering pass accepts is a coded sequence\<close>

lemma ssorted_nat_ge: "ssorted (ps :: nat list) \<Longrightarrow> i < length ps \<Longrightarrow> i \<le> ps ! i"
proof (induction i)
  case (Suc i)
  then have "ps ! i < ps ! Suc i" by (simp add: ssorted_nth_less)
  then show ?case using Suc by simp
qed simp

lemma join_drop_take:
  assumes h: "h \<le> drop_bit lb (u :: u64)" and low: "take_bit lb l = l" and lb: "lb < 64"
  shows "drop_bit lb (or (push_bit lb h) l) = h" and "take_bit lb (or (push_bit lb h) l) = l"
proof -
  have "unat h \<le> unat u div 2 ^ lb" using h unfolding word_le_nat_alt unat_drop_bit_eq by (simp add: drop_bit_eq_div)
  also have "\<dots> < 2 ^ (64 - lb)"
  proof -
    have "unat u < 2 ^ 64" using unsigned_less [of u, where ?'a = nat] by simp
    also have "\<dots> = 2 ^ (64 - lb) * 2 ^ lb" using lb by (simp flip: power_add)
    finally show ?thesis by (simp add: less_mult_imp_div_less)
  qed
  finally have "take_bit (64 - lb) (unat h) = unat h" by (simp add: take_bit_nat_eq_self)
  then have "unat (take_bit (64 - lb) h) = unat h" by (simp add: unsigned_take_bit_eq)
  then have hb: "bit h k \<Longrightarrow> k < 64 - lb" for k
    by (metis bit_take_bit_iff word_unat_eq_iff)
  have lb': "bit l k \<Longrightarrow> k < lb" for k using low by (metis bit_take_bit_iff)
  show "drop_bit lb (or (push_bit lb h) l) = h"
  proof (rule bit_word_eqI)
    fix n
    have "\<not> bit l (lb + n)" using lb' by fastforce
    then show "bit (drop_bit lb (or (push_bit lb h) l)) n \<longleftrightarrow> bit h n"
      using hb [of n] by (auto simp: bit_or_iff bit_push_bit_iff bit_drop_bit_eq possible_bit_def)
  qed
  show "take_bit lb (or (push_bit lb h) l) = l"
    by (rule bit_word_eqI) (use lb' in \<open>auto simp: bit_or_iff bit_push_bit_iff bit_take_bit_iff\<close>)
qed

text \<open>The element that the parser forms from position \<open>p\<close> of index \<open>i\<close>.\<close>

definition element :: "elias_fano \<Rightarrow> nat \<Rightarrow> nat \<Rightarrow> u64" where
  "element ef i p = or (push_bit (ef_low_bits ef) (of_nat (p - i))) (the (low_part ef i))"

definition lows_readable :: "elias_fano \<Rightarrow> nat \<Rightarrow> bool" where
  "lows_readable ef n \<longleftrightarrow> ef_low_bits ef < 64 \<and>
     (\<forall>i<n. \<exists>l. low_part ef i = Some l \<and> take_bit (ef_low_bits ef) l = l)"

lemma lows_readableD: "lows_readable ef n \<Longrightarrow> i < n \<Longrightarrow> \<exists>l. low_part ef i = Some l"
  by (auto simp: lows_readable_def)

lemma lows_readable_room:
  assumes "ef_low_bits ef < 64" and "(n * ef_low_bits ef + 63) div 64 \<le> length (ef_low ef)"
  shows "lows_readable ef n"
  unfolding lows_readable_def
proof (intro conjI allI impI assms(1))
  fix i assume i: "i < n"
  show "\<exists>l. low_part ef i = Some l \<and> take_bit (ef_low_bits ef) l = l"
  proof (cases "ef_low_bits ef = 0")
    case False
    have "(i + 1) * ef_low_bits ef \<le> n * ef_low_bits ef" using i by (intro mult_le_mono1) simp
    also have "\<dots> \<le> 64 * length (ef_low ef)" using assms(2) by linarith
    finally obtain x where x: "read_low ef i = Some x" "\<And>k. bit x k \<Longrightarrow> k < ef_low_bits ef"
      using read_low_ok [OF assms(1)] False by blast
    have "take_bit (ef_low_bits ef) x = x"
      by (rule bit_word_eqI) (use x(2) in \<open>auto simp: bit_take_bit_iff\<close>)
    then show ?thesis using x(1) False by (simp add: low_part_def)
  qed (simp add: low_part_def)
qed

lemma check_walk_total:
  assumes "lows_readable ef n" and "i + length ps \<le> n"
  shows "check_walk ef ps i prev \<noteq> None"
  using assms(2)
proof (induction ps arbitrary: i prev)
  case (Cons p ps)
  then obtain l where "low_part ef i = Some l" using lows_readableD [OF assms(1), of i] by auto
  then show ?case using Cons by (auto split: prod.splits)
qed simp

lemma check_walk_sound:
  assumes "check_walk ef ps i prev = Some (Inr prev')" and "lows_readable ef n" and "i + length ps \<le> n"
  shows "(\<forall>j<length ps. of_nat (ps ! j - (i + j)) \<le> drop_bit (ef_low_bits ef) (ef_universe ef)) \<and>
    (ps \<noteq> [] \<longrightarrow> prev' = Some (of_nat (last ps - (i + length ps - 1)), the (low_part ef (i + length ps - 1)))) \<and>
    (ps = [] \<longrightarrow> prev' = prev) \<and>
    (\<forall>j. Suc j < length ps \<longrightarrow> (of_nat (ps ! j - (i + j)) :: u64) = of_nat (ps ! Suc j - (i + Suc j)) \<longrightarrow>
       the (low_part ef (i + j)) \<le> the (low_part ef (i + Suc j))) \<and>
    (\<forall>h l. prev = Some (h, l) \<longrightarrow> ps \<noteq> [] \<longrightarrow> h = of_nat (ps ! 0 - i) \<longrightarrow> l \<le> the (low_part ef i))"
  using assms
proof (induction ps arbitrary: i prev)
  case (Cons p ps)
  obtain l where l: "low_part ef i = Some l" using lows_readableD [OF Cons.prems(2), of i] Cons.prems(3) by auto
  have step: "of_nat (p - i) \<le> drop_bit (ef_low_bits ef) (ef_universe ef)"
    "\<And>ph pl. prev = Some (ph, pl) \<Longrightarrow> ph = of_nat (p - i) \<Longrightarrow> pl \<le> l"
    "check_walk ef ps (Suc i) (Some (of_nat (p - i), l)) = Some (Inr prev')"
    using Cons.prems(1) l by (auto simp: not_less split: if_splits option.splits)
  note IH = Cons.IH [OF step(3) Cons.prems(2)]
  have IH': "\<forall>j<length ps. of_nat (ps ! j - (Suc i + j)) \<le> drop_bit (ef_low_bits ef) (ef_universe ef)"
    "ps \<noteq> [] \<longrightarrow> prev' = Some (of_nat (last ps - (Suc i + length ps - 1)), the (low_part ef (Suc i + length ps - 1)))"
    "ps = [] \<longrightarrow> prev' = Some (of_nat (p - i), l)"
    "\<forall>j. Suc j < length ps \<longrightarrow> (of_nat (ps ! j - (Suc i + j)) :: u64) = of_nat (ps ! Suc j - (Suc i + Suc j)) \<longrightarrow>
       the (low_part ef (Suc i + j)) \<le> the (low_part ef (Suc i + Suc j))"
    "ps \<noteq> [] \<longrightarrow> of_nat (p - i) = (of_nat (ps ! 0 - Suc i) :: u64) \<longrightarrow> l \<le> the (low_part ef (Suc i))"
    using IH Cons.prems(3) by auto
  show ?case
  proof (intro conjI allI impI)
    fix j assume "j < length (p # ps)"
    then show "of_nat ((p # ps) ! j - (i + j)) \<le> drop_bit (ef_low_bits ef) (ef_universe ef)"
      using step(1) IH'(1) by (cases j) auto
  next
    show "prev' = Some (of_nat (last (p # ps) - (i + length (p # ps) - 1)), the (low_part ef (i + length (p # ps) - 1)))"
      using IH'(2,3) l by (cases "ps = []") auto
  next
    fix j assume "Suc j < length (p # ps)" "(of_nat ((p # ps) ! j - (i + j)) :: u64) = of_nat ((p # ps) ! Suc j - (i + Suc j))"
    then show "the (low_part ef (i + j)) \<le> the (low_part ef (i + Suc j))"
      using IH'(4,5) l by (cases j) auto
  next
    fix h pl assume "prev = Some (h, pl)" "h = of_nat ((p # ps) ! 0 - i)"
    then show "pl \<le> the (low_part ef i)" using step(2) l by simp
  qed simp_all
qed simp


text \<open>What \<open>ef_validate\<close> accepts codes a sorted sequence that ends at the universe.\<close>

lemma ef_validate_cases:
  assumes lb: "ef_low_bits ef < 64" and small: "length (ef_high ef) < 2 ^ 50"
  shows "\<exists>r. ef_validate ef = Some r \<and> (\<forall>ef'. r = Inr ef' \<longrightarrow> ef' = ef \<and>
    (\<exists>vs. ef_codes ef vs \<and> sorted vs \<and> ef_universe ef = (if vs = [] then 0 else last vs)))"
proof -
  define n where "n = ef_len ef"
  define l where "l = ef_low_bits ef"
  define ps where "ps = ones 0 (ef_high ef)"
  consider "2 ^ 64 \<le> n * l \<or> length (ef_low ef) < (n * l + 63) div 64 \<or> length ps \<noteq> n \<or> (n = 0 \<and> ef_universe ef \<noteq> 0)"
    | "n * l < 2 ^ 64" "(n * l + 63) div 64 \<le> length (ef_low ef)" "length ps = n" "n = 0 \<longrightarrow> ef_universe ef = 0"
    by linarith
  then show ?thesis
  proof cases
    case 1
    then show ?thesis by (auto simp: ef_validate_def Let_def length_ones ps_def n_def l_def)
  next
    case 2
    have rd: "lows_readable ef n" using lows_readable_room [OF lb] 2(2) by (simp add: l_def)
    have below: "ps ! j < 64 * 2 ^ 50" if "j < n" for j
    proof -
      have "ps ! j \<in> set ps" using that 2(3) by simp
      then have "ps ! j div 64 < length (ef_high ef)" by (simp add: ps_def set_ones bit_at_def)
      then show ?thesis using small by simp
    qed
    have val: "ef_validate ef = (case check_walk ef ps 0 None of None \<Rightarrow> None
        | Some (Inl e) \<Rightarrow> Some (Inl e) | Some (Inr None) \<Rightarrow> Some (Inr ef)
        | Some (Inr (Some (h, low))) \<Rightarrow>
            if or (push_bit l h) low \<noteq> ef_universe ef then Some (Inl (Malformed ''last element'')) else Some (Inr ef))"
      using 2 by (auto simp: ef_validate_def Let_def length_ones ps_def n_def l_def check_words_walk split: option.splits sum.splits)
    have "check_walk ef ps 0 None \<noteq> None" using check_walk_total [OF rd] 2(3) by simp
    then obtain r where r: "check_walk ef ps 0 None = Some r" by blast
    show ?thesis
    proof (cases r)
      case (Inl e)
      then show ?thesis using r val by simp
    next
      case (Inr prev)
      note snd = check_walk_sound [OF r [unfolded Inr] rd, unfolded add_0_left, OF eq_imp_le [OF 2(3)]]
      define vs where "vs = map (\<lambda>i. element ef i (ps ! i)) [0..<n]"
      have len: "length vs = n" by (simp add: vs_def)
      have dp: "drop_bit l (vs ! i) = of_nat (ps ! i - i) \<and> take_bit l (vs ! i) = the (low_part ef i)"
        if i: "i < n" for i
      proof -
        obtain w where w: "low_part ef i = Some w" "take_bit l w = w" using rd i by (auto simp: lows_readable_def l_def)
        have "of_nat (ps ! i - i) \<le> drop_bit l (ef_universe ef)" using snd i 2(3) by (simp add: l_def)
        then show ?thesis using join_drop_take [of "of_nat (ps ! i - i)" l "ef_universe ef" w] w lb i
          by (simp add: vs_def element_def l_def)
      qed
      have up: "ssorted ps" by (simp add: ps_def ssorted_ones)
      have nat_eq: "unat (of_nat (ps ! i - i) :: u64) = ps ! i - i" if "i < n" for i
        using below [OF that] by simp
      have codes: "ef_codes ef vs"
      proof -
        have "ps = map (\<lambda>i. unat (drop_bit l (vs ! i)) + i) [0..<n]"
          using 2(3) dp nat_eq ssorted_nat_ge [OF up] by (auto intro!: nth_equalityI)
        moreover have "low_part ef i = Some (take_bit l (vs ! i))" if "i < n" for i
          using dp [OF that] rd that by (auto simp: lows_readable_def)
        moreover have "n < 2 ^ 58"
        proof (cases "n = 0")
          case False
          then have "n - 1 \<le> ps ! (n - 1)" using ssorted_nat_ge [OF up, of "n - 1"] 2(3) by simp
          then show ?thesis using below [of "n - 1"] False by simp
        qed simp
        ultimately show ?thesis using lb by (simp add: ef_codes_def len n_def l_def ps_def)
      qed
      have srt: "sorted vs"
        unfolding sorted_iff_nth_Suc len
      proof (intro allI impI)
        fix i assume i: "Suc i < n"
        have "ps ! i < ps ! Suc i" using up i 2(3) by (simp add: ssorted_nth_less)
        then have h: "ps ! i - i \<le> ps ! Suc i - Suc i" by simp
        then have hw: "(of_nat (ps ! i - i) :: u64) \<le> of_nat (ps ! Suc i - Suc i)"
          using nat_eq [of i] nat_eq [of "Suc i"] i unfolding word_le_nat_alt by (simp del: unat_of_nat_u64)
        have "the (low_part ef i) \<le> the (low_part ef (Suc i))" if "(of_nat (ps ! i - i) :: u64) = of_nat (ps ! Suc i - Suc i)"
          using snd i that 2(3) by auto
        then show "vs ! i \<le> vs ! Suc i"
          unfolding parts_le_iff [of "vs ! i" "vs ! Suc i" l] using dp [of i] dp [of "Suc i"] i hw by (auto simp: order_le_less)
      qed
      show ?thesis
      proof (cases "n = 0")
        case True
        then have "ps = []" using 2(3) by simp
        then have "prev = None" using r Inr by simp
        then have "ef_validate ef = Some (Inr ef)" using val r Inr by simp
        then show ?thesis using codes srt 2(4) True len by (intro exI [of _ "Inr ef"]) auto
      next
        case False
        then have ne: "ps \<noteq> []" using 2(3) by auto
        then have prev: "prev = Some (of_nat (last ps - (n - 1)), the (low_part ef (n - 1)))" using snd 2(3) by simp
        have lst: "or (push_bit l (of_nat (last ps - (n - 1)))) (the (low_part ef (n - 1))) = last vs"
          using ne 2(3) False len by (simp add: last_conv_nth vs_def element_def l_def)
        have "ef_validate ef = (if last vs \<noteq> ef_universe ef then Some (Inl (Malformed ''last element'')) else Some (Inr ef))"
          using val r Inr prev lst by simp
        moreover have "vs \<noteq> []" using len False by auto
        ultimately show ?thesis using codes srt
          by (cases "last vs = ef_universe ef") (auto intro!: exI [of _ vs])
      qed
    qed
  qed
qed

lemma ef_validate_accepts:
  assumes c: "ef_codes ef vs" and s: "sorted vs" and u: "ef_universe ef = (if vs = [] then 0 else last vs)"
    and room: "(length vs * ef_low_bits ef + 63) div 64 \<le> length (ef_low ef)"
  shows "ef_validate ef = Some (Inr ef)"
proof -
  have n: "ef_len ef = length vs" "ef_low_bits ef < 64" "length vs < 2 ^ 58" using c by (simp_all add: ef_codes_def)
  have "length vs * ef_low_bits ef \<le> length vs * 63" using n(2) by (intro mult_le_mono2) simp
  also have "\<dots> < 2 ^ 64" using n(3) by simp
  finally have small: "length vs * ef_low_bits ef < 2 ^ 64" .
  have le: "\<forall>v\<in>set vs. v \<le> ef_universe ef"
    using s u by (auto simp: in_set_conv_nth last_conv_nth sorted_iff_nth_mono)
  have "check_walk ef (ones 0 (ef_high ef)) 0 None
      = Some (Inr (if vs = [] then None else Some (parts (ef_low_bits ef) (last vs))))"
    using check_walk_accepts [of 0 vs ef "ones 0 (ef_high ef)"] c s le by (simp add: ef_codes_def)
  moreover have "sum_list (map count_ones (ef_high ef)) = length vs"
    using c by (simp add: ef_codes_def flip: length_ones [of 0])
  ultimately show ?thesis using n small room u
    by (auto simp: ef_validate_def Let_def check_words_walk join_parts not_le not_less)
qed


subsection \<open>The Elias-Fano wire format\<close>

lemma concat_word_bytes: "concat (map to_le_bytes64 ws) = word_bytes ws"
  by (simp add: word_bytes_def)

lemma length_ef_write: "length (ef_write_into ef []) = 36 + 8 * length (ef_low ef) + 8 * length (ef_high ef)"
  by (simp add: ef_write_into_def concat_word_bytes)

lemma ef_write_append: "ef_write_into ef out = out @ ef_write_into ef []"
  by (simp add: ef_write_into_def)

lemma ef_read_write:
  assumes small: "length (ef_write_into ef [] @ rest) < 2 ^ 64" and n: "ef_len ef < 2 ^ 64" "ef_low_bits ef < 64"
  shows "ef_read_from (ef_write_into ef [] @ rest) =
    (case ef_validate ef of None \<Rightarrow> None | Some (Inl e) \<Rightarrow> Some (Inl e)
      | Some (Inr ef') \<Rightarrow> Some (Inr (ef', length (ef_write_into ef []))))"
proof -
  define bs where "bs = ef_write_into ef [] @ rest"
  define r where "r = br_new bs"
  have b0: "before_bytes r (to_le_bytes64 (of_nat (ef_len ef)) @ to_le_bytes64 (ef_universe ef)
         @ to_le_bytes (of_nat (ef_low_bits ef))
         @ to_le_bytes64 (of_nat (length (ef_low ef))) @ word_bytes (ef_low ef)
         @ to_le_bytes64 (of_nat (length (ef_high ef))) @ word_bytes (ef_high ef) @ rest)"
    using before_new [of bs] small unfolding r_def bs_def by (simp add: ef_write_into_def concat_word_bytes)
  note b1 = u64_before [OF b0]
  note b2 = u64_before [OF b1(2), unfolded reader_after_add]
  note b3 = u32_before [OF b2(2), unfolded reader_after_add]
  note b4 = u64_vec_before [OF b3(2), unfolded reader_after_add]
  note b5 = u64_vec_before [OF b4(2), unfolded reader_after_add]
  have lb: "unat (of_nat (ef_low_bits ef) :: u32) = ef_low_bits ef" using n(2) by simp
  have lt: "(of_nat (ef_low_bits ef) :: u32) < 64" using n(2) lb by (simp add: word_less_nat_alt)
  have ef: "\<lparr>ef_len = unat (of_nat (ef_len ef) :: u64), ef_low_bits = ef_low_bits ef, ef_low = ef_low ef,
      ef_high = ef_high ef, ef_universe = ef_universe ef\<rparr> = ef" using n(1) by simp
  have pos: "8 + 8 + 4 + (8 + 8 * length (ef_low ef)) + (8 + 8 * length (ef_high ef)) = length (ef_write_into ef [])"
    by (simp add: length_ef_write)
  have r0: "br_pos r = 0" by (simp add: r_def)
  show ?thesis
    unfolding ef_read_from_def ef_parse_def bs_def [symmetric] r_def [symmetric] b1(1) b2(1) b3(1) b4(1) b5(1) ok_then_simps prod.case
      lb if_not_P [OF not_not [THEN iffD2, OF lt]] sum.case ef reader_after_pos pos r0 add_0_left
    by (simp split: option.splits sum.splits)
qed


lemma ef_parse_ok:
  "ef_parse bs = Inr (ef, r) \<Longrightarrow> br_pos r \<le> length bs \<and> ef_low_bits ef < 64 \<and> 8 * length (ef_high ef) \<le> br_pos r"
  unfolding ef_parse_def ok_then_def
  by (auto split: sum.splits if_splits simp: word_less_nat_alt br_new_def dest!: br_u64_ok br_u32_ok br_u64_vec_ok)

lemma ef_read_ok:
  assumes "ef_read_from bs = Some (Inr (ef, n))" and "length bs < 2 ^ 50"
  shows "n \<le> length bs" and "\<exists>vs. ef_codes ef vs \<and> sorted vs \<and> ef_universe ef = (if vs = [] then 0 else last vs)"
proof -
  obtain ef0 r where p: "ef_parse bs = Inr (ef0, r)" "ef_validate ef0 = Some (Inr ef)" "n = br_pos r"
    using assms(1) by (auto simp: ef_read_from_def split: sum.splits Option.bind_splits)
  note ok = ef_parse_ok [OF p(1)]
  show "n \<le> length bs" using ok p(3) by simp
  show "\<exists>vs. ef_codes ef vs \<and> sorted vs \<and> ef_universe ef = (if vs = [] then 0 else last vs)"
    using ef_validate_cases [of ef0] ok p(2) assms(2) by auto
qed

lemma ef_read_total:
  assumes "length bs < 2 ^ 50"
  shows "ef_read_from bs \<noteq> None"
proof (cases "ef_parse bs")
  case (Inr p)
  then obtain ef r where p: "ef_parse bs = Inr (ef, r)" by (cases p) auto
  have "ef_validate ef \<noteq> None" using ef_validate_cases [of ef] ef_parse_ok [OF p] assms by auto
  then show ?thesis using p by (auto simp: ef_read_from_def split: sum.split)
qed (simp add: ef_read_from_def)

lemma ef_codec:
  assumes "sorted vs" and "length vs < 2 ^ 50" and "length rest < 2 ^ 60"
  shows "\<exists>ef. ef_encode vs = Some ef \<and> ef_to_vec ef = Some vs \<and>
    (\<forall>i. ef_get ef i = Some (if i < length vs then Some (vs ! i) else None)) \<and>
    ef_read_from (ef_write_into ef [] @ rest) = Some (Inr (ef, length (ef_write_into ef []))) \<and>
    8 * ef_heap_bytes ef \<le> length vs * (ef_low_bits ef + 3) + 128"
proof -
  obtain ef where ef: "ef_encode vs = Some ef" "ef_codes ef vs" "ef_universe ef = (if vs = [] then 0 else last vs)"
    "length (ef_low ef) = (length vs * ef_low_bits ef + 63) div 64"
    "ef_low_bits ef = low_bits_for (length vs) (ef_universe ef)"
    "length (ef_high ef) = (length vs + unat (drop_bit (ef_low_bits ef) (ef_universe ef)) + 64) div 64"
    using ef_encode_ok [of vs] assms(1,2) by auto
  have lb: "ef_low_bits ef < 64" and len: "ef_len ef = length vs" using ef(2) by (simp_all add: ef_codes_def)
  have "unat (drop_bit (ef_low_bits ef) (ef_universe ef)) \<le> 2 * length vs"
    using high_parts_small [of "length vs" "ef_universe ef"] ef(3,5) by auto
  then have high: "64 * length (ef_high ef) \<le> 3 * length vs + 64" unfolding ef(6) by simp
  have low: "64 * length (ef_low ef) \<le> length vs * ef_low_bits ef + 63" unfolding ef(4) by simp
  have "length vs * ef_low_bits ef \<le> length vs * 63" using lb by (intro mult_le_mono2) simp
  then have "64 * length (ef_low ef) \<le> length vs * 63 + 63" using low by linarith
  then have "length (ef_write_into ef [] @ rest) < 2 ^ 64"
    using high assms(2,3) by (simp add: length_ef_write)
  then have "ef_read_from (ef_write_into ef [] @ rest) = Some (Inr (ef, length (ef_write_into ef [])))"
    using ef_read_write [of ef rest] ef_validate_accepts [OF ef(2) assms(1) ef(3)] ef(4) len lb assms(2) by simp
  moreover have "8 * ef_heap_bytes ef \<le> length vs * (ef_low_bits ef + 3) + 128"
    using high low by (simp add: ef_heap_bytes_def algebra_simps)
  ultimately show ?thesis using ef(1) ef_to_vec_codes [OF ef(2)] ef_get_codes [OF ef(2)] by blast
qed



text \<open>C30 (safety). The parser never panics on any bytes, and whatever it accepts decodes, to a sorted
  sequence of the announced length that ends at the announced universe; both decoders agree on it.\<close>

theorem ef_read_validates:
  assumes "length bs < 2 ^ 50"
  shows "\<exists>r. ef_read_from bs = Some r \<and>
    (\<forall>ef n. r = Inr (ef, n) \<longrightarrow> n \<le> length bs \<and>
      (\<exists>vs. ef_to_vec ef = Some vs \<and> length vs = ef_len ef \<and> sorted vs \<and>
        ef_universe ef = (if vs = [] then 0 else last vs) \<and>
        (\<forall>i. ef_get ef i = Some (if i < length vs then Some (vs ! i) else None))))"
proof -
  obtain r where r: "ef_read_from bs = Some r" using ef_read_total [OF assms] by blast
  have "n \<le> length bs \<and> (\<exists>vs. ef_to_vec ef = Some vs \<and> length vs = ef_len ef \<and> sorted vs \<and>
        ef_universe ef = (if vs = [] then 0 else last vs) \<and>
        (\<forall>i. ef_get ef i = Some (if i < length vs then Some (vs ! i) else None)))" if "r = Inr (ef, n)" for ef n
  proof -
    note ok = ef_read_ok [OF r [unfolded that] assms]
    obtain vs where vs: "ef_codes ef vs" "sorted vs" "ef_universe ef = (if vs = [] then 0 else last vs)" using ok(2) by blast
    then show ?thesis using ok(1) ef_to_vec_codes [OF vs(1)] ef_get_codes [OF vs(1)] by (auto simp: ef_codes_def)
  qed
  then show ?thesis using r by blast
qed

theorem ef_read_validates_witness:
  "\<exists>r. ef_read_from (replicate 36 0) = Some r \<and> (\<forall>ef n. r = Inr (ef, n) \<longrightarrow> n \<le> 36)"
  using ef_read_validates [of "replicate 36 0"] by auto

end
