(* ===== verification/Vbyte_Properties.thy ===== *)
theory Vbyte_Properties
  imports Succinct
begin

section \<open>The StreamVByte codec\<close>

text \<open>
  The control stream holds two bits per delta: \<open>tag_at\<close> reads them, and storing one tag leaves
  the others alone. Decoding follows the encoder delta by delta; the wrapping difference and the
  wrapping sum cancel.
\<close>

definition tag_at :: "u8 list \<Rightarrow> nat \<Rightarrow> u8" where
  "tag_at control i = and (drop_bit (i mod 4 * 2) (control ! (i div 4))) 3"

lemma bit_u8_three: "bit (3 :: u8) k \<longleftrightarrow> k < 2"
proof -
  have "(3 :: u8) = mask 2" by (simp add: mask_eq_exp_minus_1)
  show ?thesis unfolding \<open>3 = mask 2\<close> bit_mask_iff by (auto simp: possible_bit_def)
qed

lemma bit_tag_at: "bit (tag_at control i) k \<longleftrightarrow> k < 2 \<and> bit (control ! (i div 4)) (i mod 4 * 2 + k)"
  unfolding tag_at_def bit_and_iff bit_drop_bit_eq bit_u8_three o_def by auto

lemma svb_tag_eq: "i div 4 < length control \<Longrightarrow> svb_tag control i = Some (tag_at control i)"
  by (simp add: svb_tag_def nth_opt_Some tag_at_def)

lemma tag_at_store:
  assumes i: "i div 4 < length control" and new: "tag_at control i = 0" and t: "\<And>k. bit t k \<Longrightarrow> k < 2"
  shows "tag_at (control[i div 4 := or (control ! (i div 4)) (push_bit (i mod 4 * 2) t)]) j
    = (if j = i then t else tag_at control j)"
proof (rule bit_word_eqI)
  fix k assume "k < LENGTH(8)"
  let ?c = "control[i div 4 := or (control ! (i div 4)) (push_bit (i mod 4 * 2) t)]"
  have none: "\<not> (k < 2 \<and> bit (control ! (i div 4)) (i mod 4 * 2 + k))" using new bit_tag_at [of control i k] by simp
  show "bit (tag_at ?c j) k \<longleftrightarrow> bit (if j = i then t else tag_at control j) k"
  proof (cases "j div 4 = i div 4")
    case False
    then show ?thesis by (auto simp: bit_tag_at)
  next
    case True
    then have ji: "j = i \<longleftrightarrow> j mod 4 = i mod 4" by (metis div_mult_mod_eq)
    have "bit (tag_at ?c j) k \<longleftrightarrow> k < 2 \<and> (bit (control ! (i div 4)) (j mod 4 * 2 + k)
        \<or> (i mod 4 * 2 \<le> j mod 4 * 2 + k \<and> j mod 4 * 2 + k < 8 \<and> bit t (j mod 4 * 2 + k - i mod 4 * 2)))"
      using True i by (auto simp: bit_tag_at bit_or_iff bit_push_bit_iff possible_bit_def)
    also have "\<dots> \<longleftrightarrow> k < 2 \<and> (bit (control ! (i div 4)) (j mod 4 * 2 + k) \<or> (j = i \<and> bit t k))"
    proof (cases "j = i")
      case True
      have "i mod 4 < 4" by simp
      then show ?thesis using True by (cases "k < 2") auto
    next
      case False
      have "\<not> bit t (j mod 4 * 2 + k - i mod 4 * 2)" if "k < 2" "i mod 4 * 2 \<le> j mod 4 * 2 + k"
      proof
        assume "bit t (j mod 4 * 2 + k - i mod 4 * 2)"
        then have "j mod 4 * 2 + k - i mod 4 * 2 < 2" by (rule t)
        then have "j mod 4 = i mod 4" using that by linarith
        then show False using False ji by simp
      qed
      then show ?thesis using False by auto
    qed
    finally show ?thesis using True none t by (auto simp: bit_tag_at)
  qed
qed

lemma svb_len_tag: "svb_len v = (n, t) \<Longrightarrow> n = unat t + 1 \<and> n \<le> 4 \<and> (\<forall>k. bit t k \<longrightarrow> k < 2)"
proof -
  assume a: "svb_len v = (n, t)"
  have "take_bit 2 t = t" using a by (auto simp: svb_len_def split: if_splits)
  then have "bit t k \<longrightarrow> k < 2" for k by (metis bit_take_bit_iff)
  then show ?thesis using a by (auto simp: svb_len_def split: if_splits)
qed

lemma unat_exp_u32: "m < 32 \<Longrightarrow> unat ((2 :: u32) ^ m) = 2 ^ m"
proof -
  assume m: "m < 32"
  have "(2 :: nat) ^ m < 2 ^ 32" using m by (intro power_strict_increasing) simp_all
  then have "unat (of_nat (2 ^ m) :: u32) = 2 ^ m" by (rule unat_of_nat_u32)
  then show ?thesis by simp
qed

text \<open>The bytes kept are the whole value: the ones cut off are zero.\<close>

lemma svb_len_bytes:
  assumes "svb_len v = (n, t)"
  shows "from_le_bytes (take n (to_le_bytes v) @ replicate (4 - n) 0) = Some v"
proof -
  have cut: "(ucast (drop_bit m v) :: u8) = 0" if "v < 2 ^ m" "m < 32" for m
  proof (rule bit_word_eqI)
    fix k
    have "unat v < 2 ^ m"
    proof -
      have "unat ((2 :: u32) ^ m) = 2 ^ m" using that(2) by (simp add: unat_exp_u32)
      then show ?thesis using that(1) by (simp add: word_less_nat_alt)
    qed
    then have "unat (drop_bit m v) = 0" unfolding unat_drop_bit_eq by (simp add: drop_bit_eq_div)
    then have "drop_bit m v = 0" by (simp only: unat_eq_0)
    then show "bit (ucast (drop_bit m v) :: u8) k \<longleftrightarrow> bit (0 :: u8) k" by simp
  qed
  have up: "v < 2 ^ m \<Longrightarrow> m \<le> k \<Longrightarrow> k < 32 \<Longrightarrow> v < 2 ^ k" for m k
  proof -
    assume a: "v < 2 ^ m" "m \<le> k" "k < 32"
    have "unat ((2 :: u32) ^ m) = 2 ^ m" "unat ((2 :: u32) ^ k) = 2 ^ k" using a by (simp_all add: unat_exp_u32)
    moreover have "(2 :: nat) ^ m \<le> 2 ^ k" using a(2) by simp
    ultimately show "v < 2 ^ k" using a(1) by (simp add: word_less_nat_alt order_less_le_trans)
  qed
  have "take n (to_le_bytes v) @ replicate (4 - n) 0 = to_le_bytes v"
  proof -
    consider "v < 2 ^ 8" "n = 1" | "v < 2 ^ 16" "n = 2" | "v < 2 ^ 24" "n = 3" | "n = 4"
      using assms by (auto simp: svb_len_def split: if_splits)
    then show ?thesis
    proof cases
      case 1
      then show ?thesis using cut [of 8] cut [of 16] cut [of 24] up [of 8 16] up [of 8 24]
        by (simp add: to_le_bytes_def numeral_eq_Suc)
    next
      case 2
      then show ?thesis using cut [of 16] cut [of 24] up [of 16 24] by (simp add: to_le_bytes_def numeral_eq_Suc)
    next
      case 3
      then show ?thesis using cut [of 24] by (simp add: to_le_bytes_def numeral_eq_Suc)
    qed simp
  qed
  then show ?thesis by simp
qed


subsection \<open>Encoding and decoding\<close>

text \<open>One run of the encoder's loop: it extends the data, sets the tags of its own positions, and
  the decoder started at the same place reads the values back.\<close>

lemma encode_delta_loop_ok:
  assumes "(i + length vs + 3) div 4 \<le> length control"
    and "\<forall>j. i \<le> j \<longrightarrow> j < i + length vs \<longrightarrow> tag_at control j = 0"
  shows "\<exists>control' more. encode_delta_loop vs i prev control data = Some (control', data @ more) \<and>
    length control' = length control \<and> (\<forall>j<i. tag_at control' j = tag_at control j) \<and>
    (svb_need control i = Some (length data) \<longrightarrow> svb_need control' (i + length vs) = Some (length (data @ more))) \<and>
    svb_decode_loop \<lparr>sv_len = n, sv_first = f, sv_control = control', sv_data = data @ more\<rparr>
      (length vs) i prev (length data) = Some vs"
  using assms
proof (induction vs arbitrary: i prev control data)
  case (Cons v vs)
  obtain nb t where nt: "svb_len (v - prev) = (nb, t)" by fastforce
  note tag = svb_len_tag [OF nt]
  define le where "le = take nb (to_le_bytes (v - prev))"
  have lle: "length le = nb" using tag by (simp add: le_def)
  have i: "i div 4 < length control" using Cons.prems(1) by simp
  define control1 where "control1 = control[i div 4 := or (control ! (i div 4)) (push_bit (i mod 4 * 2) t)]"
  have t1: "tag_at control1 j = (if j = i then t else tag_at control j)" for j
    unfolding control1_def using Cons.prems(2) tag by (intro tag_at_store [OF i]) auto
  have l1: "length control1 = length control" by (simp add: control1_def)
  obtain control' more where IH: "encode_delta_loop vs (Suc i) v control1 (data @ le) = Some (control', (data @ le) @ more)"
    "length control' = length control1" "\<forall>j<Suc i. tag_at control' j = tag_at control1 j"
    "svb_need control1 (Suc i) = Some (length (data @ le)) \<longrightarrow> svb_need control' (Suc i + length vs) = Some (length ((data @ le) @ more))"
    "svb_decode_loop \<lparr>sv_len = n, sv_first = f, sv_control = control', sv_data = (data @ le) @ more\<rparr>
      (length vs) (Suc i) v (length (data @ le)) = Some vs"
    using Cons.IH [of "Suc i" control1 v "data @ le"] Cons.prems t1 l1 by auto
  have need1: "svb_need control1 m = svb_need control m" if "m \<le> i" for m
    using that
  proof (induction m)
    case (Suc m)
    then have "m div 4 < length control" using i by (meson Suc_leD div_le_mono order_le_less_trans)
    then show ?case using Suc t1 [of m] l1 by (simp add: svb_tag_eq)
  qed simp
  have need: "svb_need control1 (Suc i) = Some (length (data @ le))" if "svb_need control i = Some (length data)"
    using that need1 [of i] t1 [of i] i l1 tag lle by (simp add: svb_tag_eq)
  have run: "encode_delta_loop (v # vs) i prev control data = Some (control', data @ (le @ more))"
    using nt IH(1) i tag by (simp add: slice_opt_Some nth_opt_Some le_def control1_def)
  have ti: "svb_tag control' i = Some t" using IH(2,3) l1 i t1 by (simp add: svb_tag_eq)
  have dec: "svb_decode_loop \<lparr>sv_len = n, sv_first = f, sv_control = control', sv_data = data @ (le @ more)\<rparr>
      (length (v # vs)) i prev (length data) = Some (v # vs)"
    using ti tag lle IH(5) svb_len_bytes [OF nt, folded le_def] by (simp add: slice_opt_Some)
  show ?case
    by (rule exI [of _ control'], rule exI [of _ "le @ more"])
      (use run dec IH(2,3,4) l1 t1 need in simp)
qed simp

lemma tag_at_zero: "tag_at (replicate n 0) i = 0" if "i div 4 < n"
  using that by (simp add: tag_at_def)

definition svb_wf :: "stream_vbyte \<Rightarrow> bool" where
  "svb_wf sv \<longleftrightarrow> length (sv_control sv) = (sv_len sv - 1 + 3) div 4 \<and>
     svb_need (sv_control sv) (sv_len sv - 1) = Some (length (sv_data sv))"

lemma encode_deltas_ok:
  "\<exists>sv. encode_deltas vs = Some sv \<and> svb_decode sv = Some vs \<and> svb_wf sv \<and> sv_len sv = length vs"
proof (cases vs)
  case Nil
  then show ?thesis by (simp add: encode_deltas_def svb_decode_def svb_decode_into_def svb_wf_def)
next
  case (Cons first rest)
  define control where "control = replicate ((length rest + 3) div 4) (0 :: u8)"
  have z: "\<forall>j. 0 \<le> j \<longrightarrow> j < 0 + length rest \<longrightarrow> tag_at control j = 0"
    unfolding control_def by (auto intro!: tag_at_zero)
  obtain control' more where e: "encode_delta_loop rest 0 first control [] = Some (control', more)"
    "length control' = length control" "svb_need control' (length rest) = Some (length more)"
    "svb_decode_loop \<lparr>sv_len = length vs, sv_first = first, sv_control = control', sv_data = more\<rparr>
      (length rest) 0 first 0 = Some rest"
    using encode_delta_loop_ok [OF _ z, of first "[]" "length vs" first] by (auto simp: control_def)
  define sv where "sv = \<lparr>sv_len = length vs, sv_first = first, sv_control = control', sv_data = more\<rparr>"
  have "encode_deltas vs = Some sv" using e(1) Cons by (simp add: encode_deltas_def sv_def control_def)
  moreover have "svb_decode sv = Some vs" using e(4) Cons by (simp add: svb_decode_def svb_decode_into_def sv_def)
  moreover have "svb_wf sv" using e(2,3) Cons by (simp add: svb_wf_def sv_def control_def)
  ultimately show ?thesis by (auto simp: sv_def)
qed

subsection \<open>The wire format\<close>

lemma encode_deltas_len: "encode_deltas vs = Some sv \<Longrightarrow> sv_len sv = length vs"
  by (cases vs) (auto simp: encode_deltas_def split: Option.bind_splits)

lemma svb_need_prefix: "svb_need c (i + n) = Some k \<Longrightarrow> \<exists>p. svb_need c i = Some p \<and> p \<le> k"
  by (induction n arbitrary: k) (fastforce split: Option.bind_splits)+

lemma svb_tag_le: "svb_tag c i = Some t \<Longrightarrow> unat t \<le> 3"
proof -
  assume "svb_tag c i = Some t"
  then obtain x where "t = and x 3" by (auto simp: svb_tag_def split: Option.bind_splits)
  then have "t \<le> 3" using word_and_le1 [of x 3] by simp
  then show ?thesis by (simp add: word_le_nat_alt)
qed

lemma svb_decode_loop_total:
  assumes "svb_need (sv_control sv) (i + n) = Some (length (sv_data sv))" and "svb_need (sv_control sv) i = Some pos"
  shows "\<exists>vs. svb_decode_loop sv n i acc pos = Some vs \<and> length vs = n"
  using assms
proof (induction n arbitrary: i acc pos)
  case (Suc n)
  then obtain p where p: "svb_need (sv_control sv) (Suc i) = Some p" "p \<le> length (sv_data sv)"
    using svb_need_prefix [of "sv_control sv" "Suc i" n] by auto
  then obtain t where t: "svb_tag (sv_control sv) i = Some t" "p = pos + (unat t + 1)"
    using Suc.prems(2) by (auto split: Option.bind_splits)
  define raw where "raw = take (unat t + 1) (drop pos (sv_data sv))"
  have sl: "slice_opt (sv_data sv) pos (pos + (unat t + 1)) = Some raw" using p(2) t(2) by (simp add: slice_opt_def raw_def)
  have "length (raw @ replicate (4 - (unat t + 1)) 0) = 4" using p(2) t(2) svb_tag_le [OF t(1)] by (simp add: raw_def)
  then obtain d where d: "from_le_bytes (raw @ replicate (4 - (unat t + 1)) 0) = Some d" using from_le_bytes_total by blast
  obtain vs where "svb_decode_loop sv n (Suc i) (acc + d) p = Some vs" "length vs = n"
    using Suc.IH [of "Suc i" p "acc + d"] Suc.prems(1) p(1) by auto
  then show ?case using t sl d by simp
qed simp

lemma svb_wf_decodes: "svb_wf sv \<Longrightarrow> \<exists>vs. svb_decode sv = Some vs \<and> length vs = sv_len sv"
proof (cases "sv_len sv")
  case (Suc n)
  assume wf: "svb_wf sv"
  then have "\<exists>vs. svb_decode_loop sv n 0 (sv_first sv) 0 = Some vs \<and> length vs = n"
    using svb_decode_loop_total [of sv 0 n 0] Suc by (simp add: svb_wf_def)
  then show ?thesis using Suc by (auto simp: svb_decode_def svb_decode_into_def)
qed (simp add: svb_decode_def svb_decode_into_def)

lemma svb_need_total: "(n + 3) div 4 \<le> length c \<Longrightarrow> \<exists>k. svb_need c n = Some k"
proof (induction n)
  case (Suc n)
  have "n div 4 < length c" "(n + 3) div 4 \<le> length c" using Suc.prems by simp_all
  then show ?case using Suc.IH by (auto simp: svb_tag_eq)
qed simp

lemma length_svb_write: "length (svb_write_into sv []) = 28 + length (sv_control sv) + length (sv_data sv)"
  by (simp add: svb_write_into_def)

lemma svb_write_append: "svb_write_into sv out = out @ svb_write_into sv []"
  by (simp add: svb_write_into_def)

lemma svb_read_write:
  assumes small: "length (svb_write_into sv [] @ rest) < 2 ^ 64" and n: "sv_len sv < 2 ^ 64" and wf: "svb_wf sv"
  shows "svb_read_from (svb_write_into sv [] @ rest) = Some (Inr (sv, length (svb_write_into sv [])))"
proof -
  define bs where "bs = svb_write_into sv [] @ rest"
  define r where "r = br_new bs"
  have b0: "before_bytes r (to_le_bytes64 (of_nat (sv_len sv)) @ to_le_bytes (sv_first sv)
         @ to_le_bytes64 (of_nat (length (sv_control sv))) @ sv_control sv
         @ to_le_bytes64 (of_nat (length (sv_data sv))) @ sv_data sv @ rest)"
    using before_new [of bs] small unfolding r_def bs_def by (simp add: svb_write_into_def)
  note b1 = u64_before [OF b0]
  note b2 = u32_before [OF b1(2), unfolded reader_after_add]
  note b3 = byte_vec_before [OF b2(2), unfolded reader_after_add]
  note b4 = byte_vec_before [OF b3(2), unfolded reader_after_add]
  have sv: "\<lparr>sv_len = unat (of_nat (sv_len sv) :: u64), sv_first = sv_first sv, sv_control = sv_control sv,
      sv_data = sv_data sv\<rparr> = sv" using n by simp
  have pos: "8 + 4 + (8 + length (sv_control sv)) + (8 + length (sv_data sv)) = length (svb_write_into sv [])"
    by (simp add: length_svb_write)
  have r0: "br_pos r = 0" by (simp add: r_def)
  show ?thesis
    unfolding svb_read_from_def svb_parse_def bs_def [symmetric] r_def [symmetric] b1(1) b2(1) b3(1) b4(1) ok_then_simps
      prod.case sum.case sv reader_after_pos pos r0 add_0_left
    using wf by (simp add: svb_wf_def)
qed

lemma svb_parse_ok: "svb_parse bs = Inr (sv, r) \<Longrightarrow> br_pos r \<le> length bs"
  unfolding svb_parse_def ok_then_def
  by (auto split: sum.splits simp: br_new_def dest!: br_u64_ok br_u32_ok br_byte_vec_ok)

lemma svb_read_cases:
  "\<exists>r. svb_read_from bs = Some r \<and> (\<forall>sv n. r = Inr (sv, n) \<longrightarrow> svb_wf sv \<and> n \<le> length bs)"
proof (cases "svb_parse bs")
  case (Inr p)
  then obtain sv r where p: "svb_parse bs = Inr (sv, r)" by (cases p) auto
  show ?thesis
  proof (cases "length (sv_control sv) = (sv_len sv - 1 + 3) div 4")
    case True
    then obtain k where "svb_need (sv_control sv) (sv_len sv - 1) = Some k" using svb_need_total [of "sv_len sv - 1" "sv_control sv"] by auto
    then show ?thesis using p True svb_parse_ok [OF p] by (auto simp: svb_read_from_def Let_def svb_wf_def)
  qed (use p in \<open>simp add: svb_read_from_def Let_def\<close>)
qed (simp add: svb_read_from_def)

lemma encode_delta_loop_size:
  "encode_delta_loop vs i prev control data = Some (control', data') \<Longrightarrow>
     length control' = length control \<and> length data' \<le> length data + 4 * length vs"
proof (induction vs arbitrary: i prev control data)
  case (Cons v vs)
  obtain nb t where nt: "svb_len (v - prev) = (nb, t)" by fastforce
  show ?case using Cons nt svb_len_tag [OF nt] by (fastforce simp: Let_def slice_opt_def split: Option.bind_splits if_splits)
qed simp

lemma svb_size: "encode_deltas vs = Some sv \<Longrightarrow> length (svb_write_into sv []) \<le> 28 + 5 * length vs"
  by (cases vs) (auto simp: encode_deltas_def length_svb_write split: Option.bind_splits dest!: encode_delta_loop_size)

lemma svb_codec:
  assumes "length vs < 2 ^ 60" and "length rest < 2 ^ 60"
  shows "\<exists>sv. encode_deltas vs = Some sv \<and> svb_decode sv = Some vs \<and>
    svb_read_from (svb_write_into sv [] @ rest) = Some (Inr (sv, length (svb_write_into sv []))) \<and>
    length (svb_write_into sv []) \<le> 28 + 5 * length vs"
proof -
  obtain sv where sv: "encode_deltas vs = Some sv" "svb_decode sv = Some vs" "svb_wf sv" "sv_len sv = length vs"
    using encode_deltas_ok by blast
  note size = svb_size [OF sv(1)]
  have "length (svb_write_into sv [] @ rest) < 2 ^ 64" using size assms by simp
  then have "svb_read_from (svb_write_into sv [] @ rest) = Some (Inr (sv, length (svb_write_into sv [])))"
    using svb_read_write [OF _ _ sv(3)] sv(4) assms(1) by simp
  then show ?thesis using sv size by blast
qed

text \<open>C31 (roundtrip). Any sequence of \<open>u32\<close>, sorted or not, survives the delta codec and its wire
  format; the parser accepts it and stops exactly behind it, and an encoded value costs at most five bytes.\<close>

theorem svb_roundtrip:
  assumes "length vs < 2 ^ 60" and "length rest < 2 ^ 60"
  shows "\<exists>sv. encode_deltas vs = Some sv \<and> svb_decode sv = Some vs \<and>
    svb_read_from (svb_write_into sv [] @ rest) = Some (Inr (sv, length (svb_write_into sv []))) \<and>
    length (svb_write_into sv []) \<le> 28 + 5 * length vs"
  using assms by (rule svb_codec)

theorem svb_roundtrip_witness:
  "\<exists>sv. encode_deltas [100, 7, 4294967295] = Some sv \<and> svb_decode sv = Some [100, 7, 4294967295]"
  using svb_roundtrip [of "[100, 7, 4294967295]" "[]"] by fastforce

end
