(* ===== verification/Csr.thy ===== *)
theory Csr
  imports Succinct
begin

section \<open>Compressed sparse rows\<close>

text \<open>
  Models \<^verbatim>\<open>crates/aethergraph-core/src/graph/csr.rs\<close>: the graph value with its owned or mapped
  storage and its proof level, the shape, monotonicity and destination checks, the guarded
  neighbour lookups, the counting-sort builder and the parallel row fill. Weights (\<open>f32\<close>) and
  timestamps (\<open>f64\<close>) are only moved, so they are their bit patterns. A parallel pass is its chunks
  one after the other; huge-page hints have no effect.
\<close>

type_synonym node_id = u32
type_synonym edge_offset = u64
type_synonym f32_bits = u32
type_synonym f64_bits = u64

definition MAX_NODES :: nat where "MAX_NODES = 2 ^ 32 - 1"
definition PARALLEL_EDGES :: nat where "PARALLEL_EDGES = 100000"

datatype validation_mode = HeaderOnly | OffsetsOnly | Full

primrec mode_rank :: "validation_mode \<Rightarrow> nat" where
  "mode_rank HeaderOnly = 0"
| "mode_rank OffsetsOnly = 1"
| "mode_rank Full = 2"

lemma mode_rank_inject: "mode_rank x = mode_rank y \<longleftrightarrow> x = y"
  by (cases x; cases y) simp_all

instantiation validation_mode :: linorder
begin
definition less_eq_validation_mode :: "validation_mode \<Rightarrow> validation_mode \<Rightarrow> bool" where
  "less_eq_validation_mode x y \<longleftrightarrow> mode_rank x \<le> mode_rank y"
definition less_validation_mode :: "validation_mode \<Rightarrow> validation_mode \<Rightarrow> bool" where
  "less_validation_mode x y \<longleftrightarrow> mode_rank x < mode_rank y"
instance
  by standard (auto simp: less_eq_validation_mode_def less_validation_mode_def mode_rank_inject)
end

lemma mode_order [simp]:
  "HeaderOnly \<le> m" "m \<le> Full" "OffsetsOnly \<le> Full" "\<not> OffsetsOnly \<le> HeaderOnly" "\<not> Full \<le> OffsetsOnly"
  "\<not> Full \<le> HeaderOnly" "OffsetsOnly \<le> m \<longleftrightarrow> m \<noteq> HeaderOnly" "Full \<le> m \<longleftrightarrow> m = Full"
  "m < OffsetsOnly \<longleftrightarrow> m = HeaderOnly"
  by (cases m; simp add: less_eq_validation_mode_def less_validation_mode_def)+

datatype graph_error =
    NodesExceedLimit nat | DstExceedsLimit nat | OffsetsEmpty | OffsetsLengthWrong nat | FirstOffsetNonzero
  | LastOffsetWrong | WeightsLengthWrong nat | NotMonotonic nat | DestinationOutOfRange nat
  | SourceExceeds nat | DestinationExceeds nat | SrcDstLengths nat nat
  | RangeOutside string | RangeMisaligned string | SectionLength string | TimestampLengthMismatch nat nat
  | NotHomogeneous | PermLength | PermOutOfRange node_id | PermDuplicate node_id | PermRows | FileFormat string | CodecFailed codec_error
  | BatchSizeZero | SeedOutOfRange node_id

datatype graph_storage =
    Owned "edge_offset list" "node_id list" "f32_bits list option"
  | Mapped nat bytes "nat \<times> nat" "nat \<times> nat" "(nat \<times> nat) option"

record graph =
  g_num_nodes :: nat
  g_num_dst_nodes :: nat
  g_num_edges :: nat
  g_storage :: graph_storage
  g_timestamps :: "f64_bits list option"
  g_proof :: validation_mode

subsection \<open>Typed views of a mapping\<close>

fun words32_of_bytes :: "bytes \<Rightarrow> u32 list" where
  "words32_of_bytes (a # b # c # d # bs) = the (from_le_bytes [a, b, c, d]) # words32_of_bytes bs"
| "words32_of_bytes _ = []"

definition offsets_slice :: "graph \<Rightarrow> edge_offset list option" where
  "offsets_slice g = (case g_storage g of Owned offsets _ _ \<Rightarrow> Some offsets
     | Mapped _ mmap r _ _ \<Rightarrow> do { b \<leftarrow> slice_opt mmap (fst r) (snd r); Some (words_of_bytes b) })"

definition edges_slice :: "graph \<Rightarrow> node_id list option" where
  "edges_slice g = (case g_storage g of Owned _ edges _ \<Rightarrow> Some edges
     | Mapped _ mmap _ r _ \<Rightarrow> do { b \<leftarrow> slice_opt mmap (fst r) (snd r); Some (words32_of_bytes b) })"

definition weights_slice :: "graph \<Rightarrow> f32_bits list option option" where
  "weights_slice g = (case g_storage g of Owned _ _ weights \<Rightarrow> Some weights
     | Mapped _ mmap _ _ None \<Rightarrow> Some None
     | Mapped _ mmap _ _ (Some r) \<Rightarrow> do { b \<leftarrow> slice_opt mmap (fst r) (snd r); Some (Some (words32_of_bytes b)) })"

text \<open>\<^verbatim>\<open>check_range\<close>: \<open>align\<close> and \<open>size\<close> of the element type are equal for the three types used.\<close>

definition check_range :: "nat \<Rightarrow> nat \<Rightarrow> nat \<Rightarrow> nat \<times> nat \<Rightarrow> string \<Rightarrow> graph_error + unit" where
  "check_range sz base map_len r what =
     (if \<not> (fst r \<le> snd r \<and> snd r \<le> map_len) then Inl (RangeOutside what)
      else if \<not> (sz dvd base + fst r \<and> sz dvd snd r - fst r) then Inl (RangeMisaligned what)
      else Inr ())"

subsection \<open>Checks\<close>

definition check_shape :: "nat \<Rightarrow> nat \<Rightarrow> edge_offset list \<Rightarrow> nat \<Rightarrow> nat option \<Rightarrow> graph_error + unit" where
  "check_shape num_nodes num_dst_nodes offsets num_edges weights_len =
     (if \<not> num_nodes \<le> MAX_NODES then Inl (NodesExceedLimit num_nodes)
      else if \<not> num_dst_nodes \<le> MAX_NODES then Inl (DstExceedsLimit num_dst_nodes)
      else if length offsets \<noteq> num_nodes + 1 then Inl (OffsetsLengthWrong (length offsets))
      else if offsets ! 0 \<noteq> 0 then Inl FirstOffsetNonzero
      else if offsets ! num_nodes \<noteq> of_nat num_edges then Inl LastOffsetWrong
      else case weights_len of
          None \<Rightarrow> Inr ()
        | Some w \<Rightarrow> if w \<noteq> num_edges then Inl (WeightsLengthWrong w) else Inr ())"

definition check_monotone :: "edge_offset list \<Rightarrow> graph_error + unit" where
  "check_monotone offsets =
     (if pairs_sorted offsets then Inr ()
      else Inl (NotMonotonic (Suc (the (find (\<lambda>i. offsets ! Suc i < offsets ! i) [0..<length offsets - 1])))))"

definition check_destinations :: "node_id list \<Rightarrow> nat \<Rightarrow> graph_error + unit" where
  "check_destinations edges bound =
     (if list_all (\<lambda>d. unat d < bound) edges then Inr ()
      else Inl (DestinationOutOfRange (length (takeWhile (\<lambda>d. unat d < bound) edges))))"

subsection \<open>Lookups\<close>

definition neighbor_range_guarded :: "edge_offset list \<Rightarrow> nat \<Rightarrow> nat \<Rightarrow> node_id \<Rightarrow> (nat \<times> nat) option" where
  "neighbor_range_guarded offsets num_nodes num_edges node =
     (let idx = unat node in
      if num_nodes \<le> idx then Some (0, 0)
      else do {
        start \<leftarrow> nth_opt offsets idx;
        stop \<leftarrow> nth_opt offsets (idx + 1);
        (if unat stop < unat start \<or> num_edges < unat stop then Some (0, 0) else Some (unat start, unat stop)) })"

record csr_view =
  cv_offsets :: "edge_offset list"
  cv_edges :: "node_id list"
  cv_num_nodes :: nat
  cv_num_edges :: nat

definition view_neighbor_range :: "csr_view \<Rightarrow> node_id \<Rightarrow> (nat \<times> nat) option" where
  "view_neighbor_range v node = neighbor_range_guarded (cv_offsets v) (cv_num_nodes v) (cv_num_edges v) node"

definition view_neighbors :: "csr_view \<Rightarrow> node_id \<Rightarrow> node_id list option" where
  "view_neighbors v node = do { (a, b) \<leftarrow> view_neighbor_range v node; slice_opt (cv_edges v) a b }"

definition graph_csr_view :: "graph \<Rightarrow> csr_view option" where
  "graph_csr_view g = do {
     offsets \<leftarrow> offsets_slice g;
     edges \<leftarrow> edges_slice g;
     Some \<lparr>cv_offsets = offsets, cv_edges = edges, cv_num_nodes = g_num_nodes g, cv_num_edges = g_num_edges g\<rparr> }"

definition neighbor_range :: "graph \<Rightarrow> node_id \<Rightarrow> (nat \<times> nat) option" where
  "neighbor_range g node = do {
     offsets \<leftarrow> offsets_slice g;
     neighbor_range_guarded offsets (g_num_nodes g) (g_num_edges g) node }"

definition neighbors :: "graph \<Rightarrow> node_id \<Rightarrow> node_id list option" where
  "neighbors g node = do { (a, b) \<leftarrow> neighbor_range g node; edges \<leftarrow> edges_slice g; slice_opt edges a b }"

definition degree :: "graph \<Rightarrow> node_id \<Rightarrow> nat option" where
  "degree g node = do { (a, b) \<leftarrow> neighbor_range g node; Some (b - a) }"

definition sat_u32 :: "nat \<Rightarrow> u32" where
  "sat_u32 n = (if n < 2 ^ 32 then of_nat n else - 1)"

definition degrees :: "graph \<Rightarrow> u32 list option" where
  "degrees g = do {
     offsets \<leftarrow> offsets_slice g;
     Some (map (\<lambda>i. let a = offsets ! i; b = offsets ! Suc i in
                if a \<le> b \<and> b \<le> of_nat (g_num_edges g) then sat_u32 (unat (b - a)) else 0) [0..<length offsets - 1]) }"

text \<open>\<^verbatim>\<open>simd::gather_degrees_scalar\<close>, the reference of the vector paths.\<close>

definition gather_degrees_scalar :: "edge_offset list \<Rightarrow> node_id list \<Rightarrow> u32 list" where
  "gather_degrees_scalar offsets nodes = map (\<lambda>node. let idx = unat node in
     if idx + 1 < length offsets
     then ucast (let s = offsets ! idx; e = offsets ! (idx + 1) in if s \<le> e then e - s else 0) else 0) nodes"

primrec degrees_loop :: "graph \<Rightarrow> node_id list \<Rightarrow> u32 list option" where
  "degrees_loop g [] = Some []"
| "degrees_loop g (n # ns) = do { d \<leftarrow> degree g n; ds \<leftarrow> degrees_loop g ns; Some (sat_u32 d # ds) }"

definition degrees_of :: "graph \<Rightarrow> node_id list \<Rightarrow> u32 list option" where
  "degrees_of g nodes =
     (if g_proof g < OffsetsOnly then degrees_loop g nodes
      else do { offsets \<leftarrow> offsets_slice g; Some (gather_degrees_scalar offsets nodes) })"

definition edge_offset_of :: "graph \<Rightarrow> node_id \<Rightarrow> edge_offset option" where
  "edge_offset_of g node =
     (if g_num_nodes g \<le> unat node then Some 0 else do { offsets \<leftarrow> offsets_slice g; nth_opt offsets (unat node) })"

definition neighbor_weights :: "graph \<Rightarrow> node_id \<Rightarrow> f32_bits list option option" where
  "neighbor_weights g node = do {
     weights \<leftarrow> weights_slice g;
     (case weights of None \<Rightarrow> Some None
      | Some w \<Rightarrow> do { (a, b) \<leftarrow> neighbor_range g node; s \<leftarrow> slice_opt w a b; Some (Some s) }) }"

definition set_timestamps :: "graph \<Rightarrow> f64_bits list \<Rightarrow> graph_error + graph" where
  "set_timestamps g ts =
     (if length ts \<noteq> g_num_edges g then Inl (TimestampLengthMismatch (length ts) (g_num_edges g))
      else Inr (g\<lparr>g_timestamps := Some ts\<rparr>))"

definition neighbor_timestamps :: "graph \<Rightarrow> node_id \<Rightarrow> f64_bits list option option" where
  "neighbor_timestamps g node =
     (case g_timestamps g of None \<Rightarrow> Some None
      | Some ts \<Rightarrow> do { (a, b) \<leftarrow> neighbor_range g node; s \<leftarrow> slice_opt ts a b; Some (Some s) })"

definition neighbors_with_weights :: "graph \<Rightarrow> node_id \<Rightarrow> (node_id \<times> f32_bits option) list option" where
  "neighbors_with_weights g node = do {
     ns \<leftarrow> neighbors g node;
     ws \<leftarrow> neighbor_weights g node;
     Some (map (\<lambda>i. (ns ! i, map_option (\<lambda>w. w ! i) ws)) [0..<length ns]) }"

definition is_homogeneous :: "graph \<Rightarrow> bool" where
  "is_homogeneous g \<longleftrightarrow> g_num_dst_nodes g = g_num_nodes g"

text \<open>Raising the proof level is a write behind a shared reference: the new graph value is returned.\<close>

definition validate_with_mode :: "graph \<Rightarrow> validation_mode \<Rightarrow> ((graph_error + unit) \<times> graph) option" where
  "validate_with_mode g mode =
     (let proven = g_proof g in
      if mode \<le> proven then Some (Inr (), g)
      else do {
        offsets \<leftarrow> offsets_slice g;
        edges \<leftarrow> edges_slice g;
        let (r, g) = (if proven < OffsetsOnly
          then (case check_monotone offsets of Inl e \<Rightarrow> (Inl e, g) | Inr _ \<Rightarrow> (Inr (), g\<lparr>g_proof := max (g_proof g) OffsetsOnly\<rparr>))
          else (Inr (), g));
        (case r of
           Inl e \<Rightarrow> Some (Inl e, g)
         | Inr _ \<Rightarrow>
             if mode = Full
             then (case check_destinations edges (g_num_dst_nodes g) of
                     Inl e \<Rightarrow> Some (Inl e, g)
                   | Inr _ \<Rightarrow> Some (Inr (), g\<lparr>g_proof := max (g_proof g) Full\<rparr>))
             else Some (Inr (), g)) })"

record graph_stats =
  gs_num_nodes :: nat
  gs_num_edges :: nat
  gs_max_degree :: nat
  gs_degree_sum :: nat
  gs_has_weights :: bool

text \<open>\<^verbatim>\<open>avg_degree\<close> is the quotient of \<open>gs_degree_sum\<close> by \<open>gs_num_nodes\<close> in \<open>f64\<close>; the quotient is left out.\<close>

definition graph_stats_of :: "graph \<Rightarrow> graph_stats option" where
  "graph_stats_of g = do {
     offsets \<leftarrow> offsets_slice g;
     weights \<leftarrow> weights_slice g;
     let ds = map (\<lambda>i. let a = offsets ! i; b = offsets ! Suc i in
                     if a \<le> b \<and> b \<le> of_nat (g_num_edges g) then unat (b - a) else 0) [0..<length offsets - 1];
     Some \<lparr>gs_num_nodes = g_num_nodes g, gs_num_edges = g_num_edges g, gs_max_degree = foldl max 0 ds,
           gs_degree_sum = sum_list ds, gs_has_weights = (weights \<noteq> None)\<rparr> }"

subsection \<open>Constructors from arrays\<close>

definition from_csr_vecs :: "nat \<Rightarrow> nat \<Rightarrow> edge_offset list \<Rightarrow> node_id list \<Rightarrow> f32_bits list option \<Rightarrow> validation_mode
    \<Rightarrow> graph_error + graph" where
  "from_csr_vecs num_nodes num_dst_nodes offsets edges weights mode =
     (if offsets = [] then Inl OffsetsEmpty
      else ok_then (check_shape num_nodes num_dst_nodes offsets (length edges) (map_option length weights)) (\<lambda>_.
           ok_then (if OffsetsOnly \<le> mode then check_monotone offsets else Inr ()) (\<lambda>_.
           ok_then (if mode = Full then check_destinations edges num_dst_nodes else Inr ()) (\<lambda>_.
             Inr \<lparr>g_num_nodes = num_nodes, g_num_dst_nodes = num_dst_nodes, g_num_edges = length edges,
                  g_storage = Owned offsets edges weights, g_timestamps = None, g_proof = mode\<rparr>))))"

definition from_csr_arrays :: "nat \<Rightarrow> edge_offset list \<Rightarrow> node_id list \<Rightarrow> f32_bits list option \<Rightarrow> graph_error + graph" where
  "from_csr_arrays num_nodes offsets edges weights = from_csr_vecs num_nodes num_nodes offsets edges weights Full"

definition from_trusted_parts :: "nat \<Rightarrow> nat \<Rightarrow> edge_offset list \<Rightarrow> node_id list \<Rightarrow> f32_bits list option \<Rightarrow> graph" where
  "from_trusted_parts num_nodes num_dst_nodes offsets edges weights =
     \<lparr>g_num_nodes = num_nodes, g_num_dst_nodes = num_dst_nodes, g_num_edges = length edges,
      g_storage = Owned offsets edges weights, g_timestamps = None, g_proof = Full\<rparr>"

definition empty_graph :: graph where
  "empty_graph = from_trusted_parts 0 0 [0] [] None"

definition from_mapped_parts :: "nat \<Rightarrow> nat \<Rightarrow> nat \<Rightarrow> nat \<Rightarrow> bytes \<Rightarrow> nat \<times> nat \<Rightarrow> nat \<times> nat \<Rightarrow> (nat \<times> nat) option
    \<Rightarrow> validation_mode \<Rightarrow> (graph_error + graph) option" where
  "from_mapped_parts num_nodes num_dst_nodes num_edges base mmap offsets_range edges_range weights_range mode =
     (case ok_then (check_range 8 base (length mmap) offsets_range ''offsets'') (\<lambda>_.
           ok_then (check_range 4 base (length mmap) edges_range ''edges'') (\<lambda>_.
           ok_then (case weights_range of None \<Rightarrow> Inr ()
                    | Some w \<Rightarrow> ok_then (check_range 4 base (length mmap) w ''weights'') (\<lambda>_.
                        if snd w - fst w \<noteq> snd edges_range - fst edges_range then Inl (SectionLength ''weights'') else Inr ())) (\<lambda>_.
           if snd edges_range - fst edges_range \<noteq> num_edges * 4 then Inl (SectionLength ''edges'')
           else if fst offsets_range = snd offsets_range then Inl OffsetsEmpty
           else Inr ()))) of
        Inl e \<Rightarrow> Some (Inl e)
      | Inr _ \<Rightarrow>
          let g = \<lparr>g_num_nodes = num_nodes, g_num_dst_nodes = num_dst_nodes, g_num_edges = num_edges,
                   g_storage = Mapped base mmap offsets_range edges_range weights_range,
                   g_timestamps = None, g_proof = HeaderOnly\<rparr>
          in do {
            offsets \<leftarrow> offsets_slice g;
            weights \<leftarrow> weights_slice g;
            (case check_shape num_nodes num_dst_nodes offsets num_edges (map_option length weights) of
               Inl e \<Rightarrow> Some (Inl e)
             | Inr _ \<Rightarrow> do {
                 (r, g) \<leftarrow> validate_with_mode g mode;
                 Some (case r of Inl e \<Rightarrow> Inl e | Inr _ \<Rightarrow> Inr g) }) })"

end
