(* ===== verification/Csr_Build.thy ===== *)
theory Csr_Build
  imports Csr
begin

section \<open>The counting-sort builder\<close>

text \<open>
  Models \<^verbatim>\<open>Graph::build_csr\<close> and \<^verbatim>\<open>par_fill_rows\<close> of \<^verbatim>\<open>graph/csr.rs\<close>. Pass 1 counts degrees in
  the offsets array, chunk by chunk; \<open>threads\<close> is \<^verbatim>\<open>rayon::current_num_threads\<close>. The endpoint
  closures \<open>src_at\<close> and \<open>dst_at\<close> are total and applied only below \<open>num_edges\<close>; the sentinel
  \<^verbatim>\<open>usize::MAX\<close> of \<^verbatim>\<open>first_bad\<close> is \<open>None\<close>.
\<close>

subsection \<open>The first pass\<close>

fun scan_loop :: "nat \<Rightarrow> nat \<Rightarrow> (nat \<Rightarrow> node_id) \<Rightarrow> (nat \<Rightarrow> node_id) \<Rightarrow> nat list \<Rightarrow> node_id \<Rightarrow> bool \<Rightarrow> edge_offset list
    \<Rightarrow> (nat option \<times> bool \<times> edge_offset list) option" where
  "scan_loop num_nodes num_dst src_at dst_at [] prev grouped offsets = Some (None, grouped, offsets)"
| "scan_loop num_nodes num_dst src_at dst_at (i # is) prev grouped offsets =
     (let s = src_at i; d = dst_at i in
      if num_nodes \<le> unat s \<or> num_dst \<le> unat d then Some (Some i, False, offsets)
      else do {
        c \<leftarrow> nth_opt offsets (unat s + 1);
        scan_loop num_nodes num_dst src_at dst_at is s (grouped \<and> prev \<le> s) (offsets[unat s + 1 := c + 1]) })"

definition scan_range :: "nat \<Rightarrow> nat \<Rightarrow> (nat \<Rightarrow> node_id) \<Rightarrow> (nat \<Rightarrow> node_id) \<Rightarrow> nat \<times> nat \<Rightarrow> edge_offset list
    \<Rightarrow> (nat option \<times> bool \<times> edge_offset list) option" where
  "scan_range num_nodes num_dst src_at dst_at r offsets =
     scan_loop num_nodes num_dst src_at dst_at [fst r..<snd r] 0
       (fst r = 0 \<or> src_at (fst r - 1) \<le> src_at (fst r)) offsets"

definition min_bad :: "nat option \<Rightarrow> nat option \<Rightarrow> nat option" where
  "min_bad a b = (case a of None \<Rightarrow> b | Some x \<Rightarrow> (case b of None \<Rightarrow> Some x | Some y \<Rightarrow> Some (min x y)))"

fun scan_chunks :: "nat \<Rightarrow> nat \<Rightarrow> (nat \<Rightarrow> node_id) \<Rightarrow> (nat \<Rightarrow> node_id) \<Rightarrow> (nat \<times> nat) list \<Rightarrow> edge_offset list
    \<Rightarrow> (nat option \<times> bool \<times> edge_offset list) option" where
  "scan_chunks num_nodes num_dst src_at dst_at [] offsets = Some (None, True, offsets)"
| "scan_chunks num_nodes num_dst src_at dst_at (r # rs) offsets = do {
     (b1, g1, offsets) \<leftarrow> scan_range num_nodes num_dst src_at dst_at r offsets;
     (b2, g2, offsets) \<leftarrow> scan_chunks num_nodes num_dst src_at dst_at rs offsets;
     Some (min_bad b1 b2, g1 \<and> g2, offsets) }"

definition scan_plan :: "nat \<Rightarrow> nat \<Rightarrow> (nat \<times> nat) list" where
  "scan_plan threads num_edges =
     (if PARALLEL_EDGES < num_edges
      then let chunk = max 1 ((num_edges + (threads * 4 - 1)) div (threads * 4))
           in map (\<lambda>c. (c * chunk, min ((c + 1) * chunk) num_edges)) [0..<(num_edges + (chunk - 1)) div chunk]
      else [(0, num_edges)])"

fun prefix_sum :: "nat list \<Rightarrow> edge_offset list \<Rightarrow> edge_offset list" where
  "prefix_sum [] offsets = offsets"
| "prefix_sum (i # is) offsets = prefix_sum is (offsets[i := offsets ! i + offsets ! (i - 1)])"

subsection \<open>The second pass\<close>

text \<open>The backward scatter; the weights move with their edges.\<close>

fun scatter_loop :: "(nat \<Rightarrow> node_id) \<Rightarrow> (nat \<Rightarrow> node_id) \<Rightarrow> f32_bits list option \<Rightarrow> nat list
    \<Rightarrow> edge_offset list \<Rightarrow> node_id list \<Rightarrow> f32_bits list option
    \<Rightarrow> (edge_offset list \<times> node_id list \<times> f32_bits list option) option" where
  "scatter_loop src_at dst_at weights [] offsets edges out = Some (offsets, edges, out)"
| "scatter_loop src_at dst_at weights (i # is) offsets edges out =
     (let s = unat (src_at i) in do {
        c \<leftarrow> nth_opt offsets (s + 1);
        let offsets = offsets[s + 1 := c - 1];
        let pos = unat (c - 1);
        edges \<leftarrow> set_opt edges pos (dst_at i);
        out \<leftarrow> (case (out, weights) of
                  (Some o', Some w) \<Rightarrow> do { x \<leftarrow> nth_opt w i; o' \<leftarrow> set_opt o' pos x; Some (Some o') }
                | _ \<Rightarrow> Some out);
        scatter_loop src_at dst_at weights is offsets edges out })"

definition build_csr :: "nat \<Rightarrow> nat \<Rightarrow> nat \<Rightarrow> nat \<Rightarrow> (nat \<Rightarrow> node_id) \<Rightarrow> (nat \<Rightarrow> node_id) \<Rightarrow> f32_bits list option
    \<Rightarrow> (graph_error + graph) option" where
  "build_csr threads num_nodes num_dst num_edges src_at dst_at weights =
     (if \<not> num_nodes \<le> MAX_NODES then Some (Inl (NodesExceedLimit num_nodes))
      else if \<not> num_dst \<le> MAX_NODES then Some (Inl (DstExceedsLimit num_dst))
      else if (case weights of None \<Rightarrow> False | Some w \<Rightarrow> length w \<noteq> num_edges)
      then Some (Inl (WeightsLengthWrong (length (the weights))))
      else do {
        (first_bad, grouped, offsets) \<leftarrow>
          scan_chunks num_nodes num_dst src_at dst_at (scan_plan threads num_edges) (replicate (num_nodes + 1) 0);
        (case first_bad of
           Some i \<Rightarrow>
             if num_nodes \<le> unat (src_at i) then Some (Inl (SourceExceeds i)) else Some (Inl (DestinationExceeds i))
         | None \<Rightarrow>
             let offsets = prefix_sum [1..<num_nodes + 1] offsets;
                 edges = replicate num_edges 0;
                 out = map_option (\<lambda>_. replicate num_edges 0) weights
             in if grouped
                then Some (Inr (from_trusted_parts num_nodes num_dst offsets (map dst_at [0..<num_edges]) weights))
                else do {
                  (offsets, edges, out) \<leftarrow> scatter_loop src_at dst_at weights (rev [0..<num_edges]) offsets edges out;
                  let offsets = drop 1 offsets @ [last offsets];
                  let offsets = offsets[num_nodes := of_nat num_edges];
                  Some (Inr (from_trusted_parts num_nodes num_dst offsets edges out)) }) })"

definition graph_from_edges :: "nat \<Rightarrow> nat \<Rightarrow> (node_id \<times> node_id) list \<Rightarrow> f32_bits list option \<Rightarrow> (graph_error + graph) option" where
  "graph_from_edges threads num_nodes edges weights =
     build_csr threads num_nodes num_nodes (length edges) (\<lambda>i. fst (edges ! i)) (\<lambda>i. snd (edges ! i)) weights"

definition from_bipartite_src_dst :: "nat \<Rightarrow> nat \<Rightarrow> nat \<Rightarrow> node_id list \<Rightarrow> node_id list \<Rightarrow> f32_bits list option
    \<Rightarrow> (graph_error + graph) option" where
  "from_bipartite_src_dst threads num_src num_dst src dst weights =
     (if length src \<noteq> length dst then Some (Inl (SrcDstLengths (length src) (length dst)))
      else build_csr threads num_src num_dst (length src) (\<lambda>i. src ! i) (\<lambda>i. dst ! i) weights)"

definition from_src_dst :: "nat \<Rightarrow> nat \<Rightarrow> node_id list \<Rightarrow> node_id list \<Rightarrow> f32_bits list option \<Rightarrow> (graph_error + graph) option" where
  "from_src_dst threads num_nodes src dst weights = from_bipartite_src_dst threads num_nodes num_nodes src dst weights"

subsection \<open>Filling rows in parallel\<close>

text \<open>The output is split into one slice per chunk of rows; \<open>fill row slice\<close> returns the slice written.\<close>

definition ROWS_PER_CHUNK :: nat where "ROWS_PER_CHUNK = 4096"

fun fill_chunk_rows :: "edge_offset list \<Rightarrow> edge_offset \<Rightarrow> (nat \<Rightarrow> 'a list \<Rightarrow> 'a list option) \<Rightarrow> nat list \<Rightarrow> 'a list \<Rightarrow> 'a list option" where
  "fill_chunk_rows row_offsets base fill [] chunk = Some chunk"
| "fill_chunk_rows row_offsets base fill (row # rows) chunk = do {
     a \<leftarrow> nth_opt row_offsets row;
     b \<leftarrow> nth_opt row_offsets (row + 1);
     let lo = unat (a - base);
     let hi = unat (b - base);
     old \<leftarrow> slice_opt chunk lo hi;
     new \<leftarrow> fill row old;
     fill_chunk_rows row_offsets base fill rows (take lo chunk @ new @ drop hi chunk) }"

function fill_chunks :: "edge_offset list \<Rightarrow> (nat \<Rightarrow> 'a list \<Rightarrow> 'a list option) \<Rightarrow> nat \<Rightarrow> nat \<Rightarrow> 'a list \<Rightarrow> 'a list option" where
  "fill_chunks row_offsets fill rows start rest =
     (if start < rows
      then do {
        let stop = min (start + ROWS_PER_CHUNK) rows;
        a \<leftarrow> nth_opt row_offsets start;
        b \<leftarrow> nth_opt row_offsets stop;
        let len = unat (b - a);
        assert_opt (len \<le> length rest);
        head \<leftarrow> fill_chunk_rows row_offsets a fill [start..<stop] (take len rest);
        tail \<leftarrow> fill_chunks row_offsets fill rows stop (drop len rest);
        Some (head @ tail) }
      else Some rest)"
  by pat_completeness auto

termination fill_chunks
  by (relation "measure (\<lambda>(_, _, rows, start, _). rows - start)") (auto simp: ROWS_PER_CHUNK_def)

declare fill_chunks.simps [simp del]

definition par_fill_rows :: "'a list \<Rightarrow> edge_offset list \<Rightarrow> (nat \<Rightarrow> 'a list \<Rightarrow> 'a list option) \<Rightarrow> 'a list option" where
  "par_fill_rows out row_offsets fill = do {
     assert_opt ((if row_offsets = [] then 0 else last row_offsets) = of_nat (length out));
     fill_chunks row_offsets fill (length row_offsets - 1) 0 out }"

end
