(* ===== verification/Csr_Facts.thy ===== *)
theory Csr_Facts
  imports Csr_Build Succinct_Encode
begin

section \<open>A CSR pair represents its rows\<close>

text \<open>
  \<open>csr_rep offsets xs rows\<close>: the flat array is the concatenation of the rows and the offsets are
  the row starts. Every lookup is then a row; the builders, the permutation and the file formats
  are all stated through it.
\<close>

definition csr_rep :: "edge_offset list \<Rightarrow> 'a list \<Rightarrow> 'a list list \<Rightarrow> bool" where
  "csr_rep offsets xs rows \<longleftrightarrow> xs = concat rows \<and> length offsets = length rows + 1 \<and>
     (\<forall>i\<le>length rows. unat (offsets ! i) = length (concat (take i rows)))"

lemma csr_rep_lengths: "csr_rep offsets xs rows \<Longrightarrow> length offsets = length rows + 1"
  by (simp add: csr_rep_def)

lemma csr_rep_first: "csr_rep offsets xs rows \<Longrightarrow> offsets ! 0 = 0"
  by (auto simp: csr_rep_def unat_eq_0 dest: spec [of _ 0])

lemma csr_rep_last: "csr_rep offsets xs rows \<Longrightarrow> unat (offsets ! length rows) = length xs"
  by (simp add: csr_rep_def)

lemma csr_rep_small: "csr_rep offsets xs rows \<Longrightarrow> length xs < 2 ^ 64"
  using unsigned_less [of "offsets ! length rows", where ?'a = nat] by (simp add: csr_rep_last flip: csr_rep_last)

lemma concat_take_Suc: "i < length rows \<Longrightarrow> concat (take (Suc i) rows) = concat (take i rows) @ rows ! i"
  by (simp add: take_Suc_conv_app_nth)

lemma length_concat_take_mono: "i \<le> j \<Longrightarrow> length (concat (take i rows)) \<le> length (concat (take j rows))"
proof -
  assume "i \<le> j"
  then have "take j rows = take i rows @ take (j - i) (drop i rows)" by (metis le_add_diff_inverse take_add)
  then show ?thesis by simp
qed

lemma csr_rep_bounds:
  assumes "csr_rep offsets xs rows" and "i < length rows"
  shows "unat (offsets ! i) \<le> unat (offsets ! Suc i)" and "unat (offsets ! Suc i) \<le> length xs"
    and "unat (offsets ! Suc i) - unat (offsets ! i) = length (rows ! i)"
proof -
  have o: "unat (offsets ! i) = length (concat (take i rows))" "unat (offsets ! Suc i) = length (concat (take (Suc i) rows))"
    using assms by (simp_all add: csr_rep_def)
  then show "unat (offsets ! i) \<le> unat (offsets ! Suc i)" "unat (offsets ! Suc i) - unat (offsets ! i) = length (rows ! i)"
    using concat_take_Suc [OF assms(2)] by simp_all
  have "length (concat (take (Suc i) rows)) \<le> length (concat (take (length rows) rows))"
    using assms(2) by (intro length_concat_take_mono) simp
  then show "unat (offsets ! Suc i) \<le> length xs" using o assms(1) by (simp add: csr_rep_def)
qed

lemma csr_rep_row:
  assumes "csr_rep offsets xs rows" and "i < length rows"
  shows "slice_opt xs (unat (offsets ! i)) (unat (offsets ! Suc i)) = Some (rows ! i)"
proof -
  note b = csr_rep_bounds [OF assms]
  have x: "xs = concat (take i rows) @ rows ! i @ concat (drop (Suc i) rows)"
    using assms by (metis concat.simps(2) concat_append csr_rep_def id_take_nth_drop)
  have "unat (offsets ! i) = length (concat (take i rows))" using assms by (simp add: csr_rep_def)
  then have "take (unat (offsets ! Suc i) - unat (offsets ! i)) (drop (unat (offsets ! i)) xs) = rows ! i"
    unfolding b(3) by (subst x) simp
  then show ?thesis using b(1,2) by (simp add: slice_opt_def)
qed

lemma csr_rep_sorted: "csr_rep offsets xs rows \<Longrightarrow> sorted offsets"
  unfolding sorted_iff_nth_Suc by (auto simp: csr_rep_lengths word_le_nat_alt csr_rep_bounds)

lemma csr_rep_map: "csr_rep offsets xs rows \<Longrightarrow> csr_rep offsets (map f xs) (map (map f) rows)"
proof -
  assume r: "csr_rep offsets xs rows"
  have "length (concat (take i (map (map f) rows))) = length (concat (take i rows))" for i
    by (simp add: take_map flip: map_concat)
  then show ?thesis using r by (simp add: csr_rep_def map_concat)
qed

text \<open>Monotone offsets that span the array always represent rows.\<close>

definition rows_of :: "edge_offset list \<Rightarrow> 'a list \<Rightarrow> 'a list list" where
  "rows_of offsets xs = map (\<lambda>i. take (unat (offsets ! Suc i) - unat (offsets ! i)) (drop (unat (offsets ! i)) xs)) [0..<length offsets - 1]"

lemma length_rows_of [simp]: "length (rows_of offsets xs) = length offsets - 1"
  by (simp add: rows_of_def)

lemma csr_rep_rows_of:
  assumes s: "sorted offsets" and ne: "offsets \<noteq> []" and z: "offsets ! 0 = 0"
    and l: "unat (offsets ! (length offsets - 1)) = length xs"
  shows "csr_rep offsets xs (rows_of offsets xs)"
proof -
  let ?n = "length offsets - 1"
  have mono: "unat (offsets ! i) \<le> unat (offsets ! j)" if "i \<le> j" "j \<le> ?n" for i j
    using sorted_nth_mono [OF s that(1)] that(2) ne by (cases offsets) (auto simp: word_le_nat_alt)
  have t: "concat (take i (rows_of offsets xs)) = take (unat (offsets ! i)) xs" if "i \<le> ?n" for i
    using that
  proof (induction i)
    case (Suc i)
    have le: "unat (offsets ! i) \<le> unat (offsets ! Suc i)" using mono Suc.prems by simp
    have "concat (take (Suc i) (rows_of offsets xs)) = take (unat (offsets ! i)) xs @ rows_of offsets xs ! i"
      using Suc by (simp add: concat_take_Suc)
    also have "\<dots> = take (unat (offsets ! Suc i)) xs"
      using Suc.prems le by (simp add: rows_of_def flip: take_add)
    finally show ?case .
  qed (simp add: z)
  have le: "unat (offsets ! i) \<le> length xs" if "i \<le> ?n" for i using mono [OF that] l by simp
  have "unat (offsets ! i) = length (concat (take i (rows_of offsets xs)))" if "i \<le> ?n" for i
    unfolding t [OF that] using le [OF that] by simp
  moreover have "xs = concat (rows_of offsets xs)"
  proof -
    have "concat (take ?n (rows_of offsets xs)) = xs" unfolding t [OF order_refl] l by simp
    then show ?thesis by (metis length_rows_of order_refl take_all)
  qed
  moreover have "length offsets = length (rows_of offsets xs) + 1" using ne by (cases offsets) simp_all
  moreover have "length (rows_of offsets xs) = ?n" by simp
  ultimately show ?thesis unfolding csr_rep_def by metis
qed

lemma csr_rep_rows_unique: "csr_rep offsets xs rows \<Longrightarrow> rows = rows_of offsets xs"
proof (rule nth_equalityI)
  assume r: "csr_rep offsets xs rows"
  show "length rows = length (rows_of offsets xs)" using r by (simp add: csr_rep_lengths)
  fix i assume i: "i < length rows"
  then show "rows ! i = rows_of offsets xs ! i"
    using csr_rep_row [OF r i] csr_rep_lengths [OF r] by (simp add: slice_opt_def rows_of_def split: if_splits)
qed

subsection \<open>The backward scatter\<close>

text \<open>One array moved by the backward scatter: \<open>key i\<close> is the row of item \<open>i\<close>.\<close>

fun scatter :: "('i \<Rightarrow> nat) \<Rightarrow> ('i \<Rightarrow> 'a) \<Rightarrow> 'i list \<Rightarrow> edge_offset list \<Rightarrow> 'a list \<Rightarrow> (edge_offset list \<times> 'a list) option" where
  "scatter key val [] offsets xs = Some (offsets, xs)"
| "scatter key val (i # is) offsets xs = do {
     c \<leftarrow> nth_opt offsets (key i + 1);
     xs \<leftarrow> set_opt xs (unat (c - 1)) (val i);
     scatter key val is (offsets[key i + 1 := c - 1]) xs }"

abbreviation occs :: "('i \<Rightarrow> nat) \<Rightarrow> 'i list \<Rightarrow> nat \<Rightarrow> 'i list" where
  "occs key is s \<equiv> filter (\<lambda>i. key i = s) is"

lemma scatter_rows:
  assumes "\<forall>i\<in>set is. key i < n" and "length offsets = n + 1"
    and "\<forall>s<n. length (occs key is s) \<le> unat (offsets ! (s + 1)) \<and> unat (offsets ! (s + 1)) \<le> length xs"
    and "\<forall>s<n. \<forall>t<n. s \<noteq> t \<longrightarrow> unat (offsets ! (s + 1)) \<le> unat (offsets ! (t + 1)) - length (occs key is t) \<or>
           unat (offsets ! (t + 1)) \<le> unat (offsets ! (s + 1)) - length (occs key is s)"
  shows "\<exists>offsets' xs'. scatter key val (rev is) offsets xs = Some (offsets', xs') \<and> length xs' = length xs \<and>
    length offsets' = n + 1 \<and>
    (\<forall>s<n. unat (offsets' ! (s + 1)) = unat (offsets ! (s + 1)) - length (occs key is s)) \<and>
    (\<forall>s<n. \<forall>k<length (occs key is s). xs' ! (unat (offsets' ! (s + 1)) + k) = val (occs key is s ! k)) \<and>
    (\<forall>p<length xs. (\<forall>s<n. \<not> (unat (offsets' ! (s + 1)) \<le> p \<and> p < unat (offsets ! (s + 1)))) \<longrightarrow> xs' ! p = xs ! p)"
  using assms
proof (induction "is" arbitrary: offsets xs rule: rev_induct)
  case Nil
  then show ?case by auto
next
  case (snoc j js)
  let ?s = "key j"
  let ?c = "offsets ! (?s + 1)"
  have s: "?s < n" using snoc.prems(1) by simp
  have c: "0 < unat ?c" "unat ?c \<le> length xs" using snoc.prems(3) s by force+
  then have c1: "unat (?c - 1) = unat ?c - 1" by (simp add: unat_minus_one unat_gt_0)
  define off1 where "off1 = offsets[?s + 1 := ?c - 1]"
  define xs1 where "xs1 = xs[unat ?c - 1 := val j]"
  have o1: "unat (off1 ! (t + 1)) = (if t = ?s then unat ?c - 1 else unat (offsets ! (t + 1)))" if "t < n" for t
    using that snoc.prems(2) c1 by (auto simp: off1_def)
  have cnt: "length (occs key (js @ [j]) t) = length (occs key js t) + (if t = ?s then 1 else 0)" for t by simp
  have room1: "\<forall>t<n. length (occs key js t) \<le> unat (off1 ! (t + 1)) \<and> unat (off1 ! (t + 1)) \<le> length xs1"
  proof (intro allI impI)
    fix t assume t: "t < n"
    show "length (occs key js t) \<le> unat (off1 ! (t + 1)) \<and> unat (off1 ! (t + 1)) \<le> length xs1"
      using snoc.prems(3) [rule_format, OF t] c cnt [of t] unfolding o1 [OF t] xs1_def by (cases "t = ?s") auto
  qed
  have dis1: "\<forall>u<n. \<forall>t<n. u \<noteq> t \<longrightarrow> unat (off1 ! (u + 1)) \<le> unat (off1 ! (t + 1)) - length (occs key js t) \<or>
           unat (off1 ! (t + 1)) \<le> unat (off1 ! (u + 1)) - length (occs key js u)"
  proof (intro allI impI)
    fix u t assume u: "u < n" and t: "t < n" and ut: "u \<noteq> t"
    show "unat (off1 ! (u + 1)) \<le> unat (off1 ! (t + 1)) - length (occs key js t) \<or>
           unat (off1 ! (t + 1)) \<le> unat (off1 ! (u + 1)) - length (occs key js u)"
      using snoc.prems(4) [rule_format, OF u t ut] cnt [of u] cnt [of t] ut unfolding o1 [OF u] o1 [OF t] by (auto split: if_splits)
  qed
  obtain offsets' xs' where IH: "scatter key val (rev js) off1 xs1 = Some (offsets', xs')" "length xs' = length xs1"
    "length offsets' = n + 1"
    "\<And>t. t < n \<Longrightarrow> unat (offsets' ! (t + 1)) = unat (off1 ! (t + 1)) - length (occs key js t)"
    "\<And>t k. t < n \<Longrightarrow> k < length (occs key js t) \<Longrightarrow> xs' ! (unat (offsets' ! (t + 1)) + k) = val (occs key js t ! k)"
    "\<And>p. p < length xs1 \<Longrightarrow> (\<forall>t<n. \<not> (unat (offsets' ! (t + 1)) \<le> p \<and> p < unat (off1 ! (t + 1)))) \<Longrightarrow> xs' ! p = xs1 ! p"
    using snoc.IH [OF _ _ room1 dis1] snoc.prems(1,2) by (auto simp: off1_def)
  have run: "scatter key val (rev (js @ [j])) offsets xs = Some (offsets', xs')"
    using IH(1) s snoc.prems(2) c c1 by (simp add: nth_opt_Some set_opt_Some off1_def xs1_def)
  have fin: "unat (offsets' ! (t + 1)) = unat (offsets ! (t + 1)) - length (occs key (js @ [j]) t)" if "t < n" for t
    using IH(4) [OF that] o1 [OF that] cnt [of t] by auto
  have own: "xs' ! (unat ?c - 1) = val j"
  proof -
    have "\<forall>t<n. \<not> (unat (offsets' ! (t + 1)) \<le> unat ?c - 1 \<and> unat ?c - 1 < unat (off1 ! (t + 1)))"
    proof (intro allI impI)
      fix t assume t: "t < n"
      show "\<not> (unat (offsets' ! (t + 1)) \<le> unat ?c - 1 \<and> unat ?c - 1 < unat (off1 ! (t + 1)))"
      proof (cases "t = ?s")
        case True
        then show ?thesis using o1 [OF t] by simp
      next
        case False
        then show ?thesis using snoc.prems(4) [rule_format, OF t s False] c cnt [of t] cnt [of ?s] fin [OF t] o1 [OF t]
            snoc.prems(3) [rule_format, OF t] by auto
      qed
    qed
    then have "xs' ! (unat ?c - 1) = xs1 ! (unat ?c - 1)" using IH(6) c by (simp add: xs1_def)
    then show ?thesis using c by (simp add: xs1_def)
  qed
  have rows: "xs' ! (unat (offsets' ! (t + 1)) + k) = val (occs key (js @ [j]) t ! k)"
    if t: "t < n" and k: "k < length (occs key (js @ [j]) t)" for t k
  proof (cases "t = ?s \<and> k = length (occs key js t)")
    case True
    then have "unat (offsets' ! (t + 1)) + k = unat ?c - 1"
      using fin [OF t] cnt [of t] snoc.prems(3) [rule_format, OF t] by simp
    then show ?thesis using True own by simp
  next
    case False
    then have "k < length (occs key js t)" using k cnt [of t] by (auto split: if_splits)
    then show ?thesis using IH(5) [OF t] by (simp add: nth_append)
  qed
  have rest: "xs' ! p = xs ! p" if p: "p < length xs"
      and out: "\<forall>t<n. \<not> (unat (offsets' ! (t + 1)) \<le> p \<and> p < unat (offsets ! (t + 1)))" for p
  proof -
    have "p \<noteq> unat ?c - 1" using out [rule_format, OF s] fin [OF s] cnt [of ?s] c by auto
    moreover have "\<forall>t<n. \<not> (unat (offsets' ! (t + 1)) \<le> p \<and> p < unat (off1 ! (t + 1)))"
      using out o1 by (auto split: if_splits)
    ultimately show ?thesis using IH(6) [of p] p by (simp add: xs1_def)
  qed
  show ?case
    by (rule exI [of _ offsets'], rule exI [of _ xs'])
      (use run IH(2,3) fin rows rest in \<open>simp add: xs1_def del: filter_append\<close>)
qed

end
