(* ===== verification/Csr_Correct.thy ===== *)
theory Csr_Correct
  imports Csr_Facts
begin

section \<open>The builder groups the edges by source\<close>

text \<open>
  The offsets after the first pass are the row starts; the forward copy of grouped input and the
  backward scatter of any other input both give, for each source, its destinations in input order.
\<close>

subsection \<open>Counting\<close>

definition pair_in_range :: "nat \<Rightarrow> nat \<Rightarrow> (nat \<Rightarrow> node_id) \<Rightarrow> (nat \<Rightarrow> node_id) \<Rightarrow> nat \<Rightarrow> bool" where
  "pair_in_range n nd src dst i \<longleftrightarrow> unat (src i) < n \<and> unat (dst i) < nd"

text \<open>The result \<open>r\<close> of a scan over the indices \<open>ix\<close>: the first bad edge, or the degrees added.\<close>

definition scanned :: "nat \<Rightarrow> nat \<Rightarrow> (nat \<Rightarrow> node_id) \<Rightarrow> (nat \<Rightarrow> node_id) \<Rightarrow> nat list \<Rightarrow> bool \<Rightarrow> edge_offset list \<Rightarrow> edge_offset list
    \<Rightarrow> (nat option \<times> bool \<times> edge_offset list) option \<Rightarrow> bool" where
  "scanned n nd src dst ix g offs offs' r \<longleftrightarrow> length offs' = n + 1 \<and> offs' ! 0 = offs ! 0 \<and>
    (case find (\<lambda>i. \<not> pair_in_range n nd src dst i) ix of
       Some b \<Rightarrow> r = Some (Some b, False, offs')
     | None \<Rightarrow> r = Some (None, g, offs') \<and>
         (\<forall>s<n. offs' ! (s + 1) = offs ! (s + 1) + of_nat (length (occs (\<lambda>i. unat (src i)) ix s))))"

lemma scan_loop_ok:
  assumes "length offs = n + 1"
  shows "\<exists>offs'. scanned n nd src dst ix (grouped \<and> sorted (prev # map src ix)) offs offs'
    (scan_loop n nd src dst ix prev grouped offs)"
  using assms
proof (induction ix arbitrary: prev grouped offs)
  case (Cons i ix)
  show ?case
  proof (cases "pair_in_range n nd src dst i")
    case False
    then show ?thesis using Cons.prems by (auto simp: scanned_def pair_in_range_def Let_def not_less)
  next
    case True
    then have s: "unat (src i) < n" "unat (dst i) < nd" by (simp_all add: pair_in_range_def)
    define offs1 where "offs1 = offs[unat (src i) + 1 := offs ! (unat (src i) + 1) + 1]"
    have l1: "length offs1 = n + 1" using Cons.prems by (simp add: offs1_def)
    have run: "scan_loop n nd src dst (i # ix) prev grouped offs = scan_loop n nd src dst ix (src i) (grouped \<and> prev \<le> src i) offs1"
      using s Cons.prems by (simp add: Let_def nth_opt_Some offs1_def not_le)
    have srt: "(grouped \<and> sorted (prev # map src (i # ix))) = ((grouped \<and> prev \<le> src i) \<and> sorted (src i # map src ix))"
      by (auto simp: order_trans)
    obtain offs' where IH: "scanned n nd src dst ix ((grouped \<and> prev \<le> src i) \<and> sorted (src i # map src ix)) offs1 offs'
        (scan_loop n nd src dst ix (src i) (grouped \<and> prev \<le> src i) offs1)"
      using Cons.IH [OF l1] by blast
    have upd: "offs1 ! (s + 1) = offs ! (s + 1) + (if unat (src i) = s then 1 else 0)" if "s < n" for s
      using that Cons.prems by (auto simp: offs1_def)
    have z: "offs1 ! 0 = offs ! 0" by (simp add: offs1_def)
    have "scanned n nd src dst (i # ix) ((grouped \<and> prev \<le> src i) \<and> sorted (src i # map src ix)) offs offs'
        (scan_loop n nd src dst ix (src i) (grouped \<and> prev \<le> src i) offs1)"
      using IH True z upd unfolding scanned_def by (cases "find (\<lambda>i. \<not> pair_in_range n nd src dst i) ix") (auto simp: algebra_simps)
    then show ?thesis unfolding run srt by blast
  qed
qed (simp add: scanned_def)

definition plan_indices :: "(nat \<times> nat) list \<Rightarrow> nat list" where
  "plan_indices rs = concat (map (\<lambda>r. [fst r..<snd r]) rs)"

lemma find_append: "find P (xs @ ys) = (case find P xs of None \<Rightarrow> find P ys | Some x \<Rightarrow> Some x)"
  by (induction xs) auto

definition chunks_grouped :: "(nat \<Rightarrow> node_id) \<Rightarrow> (nat \<times> nat) list \<Rightarrow> bool" where
  "chunks_grouped src rs \<longleftrightarrow> (\<forall>r\<in>set rs. (fst r = 0 \<or> src (fst r - 1) \<le> src (fst r)) \<and> sorted (map src [fst r..<snd r]))"

lemma scan_chunks_ok:
  assumes "length offs = n + 1" and "sorted (plan_indices rs)"
  shows "\<exists>offs' g. scanned n nd src dst (plan_indices rs) g offs offs' (scan_chunks n nd src dst rs offs) \<and>
    (g \<longrightarrow> chunks_grouped src rs)"
  using assms
proof (induction rs arbitrary: offs)
  case (Cons r rs)
  let ?bad = "\<lambda>i. \<not> pair_in_range n nd src dst i"
  define g1 where "g1 = ((fst r = 0 \<or> src (fst r - 1) \<le> src (fst r)) \<and> sorted (0 # map src [fst r..<snd r]))"
  have pi: "plan_indices (r # rs) = [fst r..<snd r] @ plan_indices rs" by (simp add: plan_indices_def)
  have srt: "sorted (plan_indices rs)" using Cons.prems(2) by (simp add: pi sorted_append)
  obtain offs1 where A: "scanned n nd src dst [fst r..<snd r] g1 offs offs1 (scan_range n nd src dst r offs)"
    using scan_loop_ok [OF Cons.prems(1), of nd src dst "[fst r..<snd r]" "fst r = 0 \<or> src (fst r - 1) \<le> src (fst r)" 0,
        folded g1_def scan_range_def] by (rule exE)
  then have l1: "length offs1 = n + 1" by (simp add: scanned_def)
  obtain offs' g2 where B: "scanned n nd src dst (plan_indices rs) g2 offs1 offs' (scan_chunks n nd src dst rs offs1)"
    "g2 \<longrightarrow> chunks_grouped src rs"
    using Cons.IH [OF l1 srt] by blast
  have min: "min_bad (Some a) (Some b) = Some a"
    if "find ?bad [fst r..<snd r] = Some a" "find ?bad (plan_indices rs) = Some b" for a b
  proof -
    have "a \<in> set [fst r..<snd r]" "b \<in> set (plan_indices rs)" using that by (auto simp: find_Some_iff)
    moreover have "\<forall>x\<in>set [fst r..<snd r]. \<forall>y\<in>set (plan_indices rs). x \<le> y"
      using Cons.prems(2) unfolding pi sorted_append by blast
    ultimately have "a \<le> b" by blast
    then show ?thesis by (simp add: min_bad_def)
  qed
  have "scanned n nd src dst (plan_indices (r # rs)) (g1 \<and> g2) offs offs' (scan_chunks n nd src dst (r # rs) offs)"
    using A B(1) min unfolding scanned_def pi find_append
    by (cases "find ?bad [fst r..<snd r]"; cases "find ?bad (plan_indices rs)") (auto simp: min_bad_def algebra_simps)
  moreover have "g1 \<and> g2 \<longrightarrow> chunks_grouped src (r # rs)" using B(2) by (auto simp: g1_def chunks_grouped_def)
  ultimately show ?case by blast
qed (auto simp: plan_indices_def scanned_def chunks_grouped_def)

text \<open>The chunks of the plan cover the edges in order, each once.\<close>

lemma chunk_cover: "plan_indices (map (\<lambda>c. (c * chunk, min ((c + 1) * chunk) ne)) [0..<k]) = [0..<min (k * chunk) ne]"
proof (induction k)
  case (Suc k)
  have "[0..<min (k * chunk) ne] @ [k * chunk..<min ((k + 1) * chunk) ne] = [0..<min (Suc k * chunk) ne]"
  proof (cases "k * chunk \<le> ne")
    case True
    then have "[0..<k * chunk] @ [k * chunk..<min ((k + 1) * chunk) ne] = [0..<min ((k + 1) * chunk) ne]"
      using upt_add_eq_append [of 0 "k * chunk" "min ((k + 1) * chunk) ne - k * chunk"] by (simp add: min_def)
    then show ?thesis using True by (simp add: min_def)
  next
    case False
    then show ?thesis by (simp add: min_def)
  qed
  then show ?case using Suc by (simp add: plan_indices_def)
qed (simp add: plan_indices_def)

lemma scan_plan_cover: "plan_indices (scan_plan threads ne) = [0..<ne]"
proof (cases "PARALLEL_EDGES < ne")
  case True
  define chunk where "chunk = max 1 ((ne + (threads * 4 - 1)) div (threads * 4))"
  have c: "0 < chunk" by (simp add: chunk_def)
  define k where "k = (ne + (chunk - 1)) div chunk"
  have k: "ne \<le> k * chunk"
  proof -
    have "ne + (chunk - 1) = chunk * k + (ne + (chunk - 1)) mod chunk" by (simp add: k_def)
    moreover have "(ne + (chunk - 1)) mod chunk \<le> chunk - 1" using mod_less_divisor [OF c, of "ne + (chunk - 1)"] by linarith
    ultimately show ?thesis by (simp add: mult.commute)
  qed
  then show ?thesis using True chunk_cover [of chunk ne k]
    unfolding scan_plan_def Let_def chunk_def [symmetric] k_def [symmetric] by (simp add: min_absorb2)
qed (simp add: scan_plan_def plan_indices_def)


lemma grouped_sorted_aux:
  assumes "chunks_grouped src (map (\<lambda>c. (c * chunk, min ((c + 1) * chunk) ne)) [0..<k])" and "0 < chunk"
  shows "sorted (map src [0..<min (k * chunk) ne])"
  using assms(1)
proof (induction k)
  case (Suc k)
  have IH: "sorted (map src [0..<min (k * chunk) ne])" using Suc by (simp add: chunks_grouped_def)
  show ?case
  proof (cases "k * chunk < ne")
    case True
    define m where "m = k * chunk"
    define e where "e = min (m + chunk) ne"
    have g: "m = 0 \<or> src (m - 1) \<le> src m" "sorted (map src [m..<e])"
      using Suc.prems by (simp_all add: chunks_grouped_def m_def e_def add.commute)
    have me: "m < e" using True assms(2) by (simp add: m_def e_def)
    have up: "sorted (map src [0..<m])" using IH True by (simp add: m_def)
    have "src i \<le> src (Suc i)" if i: "Suc i < e" for i
    proof -
      consider "Suc i < m" | "Suc i = m" | "m \<le> i" by linarith
      then show ?thesis
      proof cases
        case 1
        then show ?thesis using sorted_nth_mono [OF up, of i "Suc i"] by simp
      next
        case 2
        then show ?thesis using g(1) by auto
      next
        case 3
        then show ?thesis using sorted_nth_mono [OF g(2), of "i - m" "Suc i - m"] i by simp
      qed
    qed
    then have "sorted (map src [0..<e])" unfolding sorted_iff_nth_Suc by simp
    moreover have "min (Suc k * chunk) ne = e" by (simp add: e_def m_def add.commute)
    ultimately show ?thesis by simp
  next
    case False
    then have "min (k * chunk) ne = ne" "min (Suc k * chunk) ne = ne" by simp_all
    then show ?thesis using IH by simp
  qed
qed simp

lemma grouped_sorted: "chunks_grouped src (scan_plan threads ne) \<Longrightarrow> sorted (map src [0..<ne])"
proof (cases "PARALLEL_EDGES < ne")
  case True
  define chunk where "chunk = max 1 ((ne + (threads * 4 - 1)) div (threads * 4))"
  define k where "k = (ne + (chunk - 1)) div chunk"
  assume g: "chunks_grouped src (scan_plan threads ne)"
  have c: "0 < chunk" by (simp add: chunk_def)
  have p: "scan_plan threads ne = map (\<lambda>c. (c * chunk, min ((c + 1) * chunk) ne)) [0..<k]"
    using True unfolding scan_plan_def Let_def chunk_def [symmetric] k_def [symmetric] by simp
  have "[0..<min (k * chunk) ne] = [0..<ne]" using scan_plan_cover [of threads ne] unfolding p chunk_cover .
  then show ?thesis using grouped_sorted_aux [OF g [unfolded p] c] by simp
qed (simp add: scan_plan_def chunks_grouped_def)

subsection \<open>The prefix sums are the row starts\<close>

lemma prefix_sum_append: "prefix_sum (xs @ ys) o' = prefix_sum ys (prefix_sum xs o')"
  by (induction xs arbitrary: o') simp_all

lemma length_prefix_sum [simp]: "length (prefix_sum xs o') = length o'"
  by (induction xs arbitrary: o') simp_all

lemma prefix_sum_upt:
  assumes "m \<le> n" and "length offs = n + 1" and "offs ! 0 = 0"
  shows "\<forall>j\<le>n. prefix_sum [1..<m + 1] offs ! j = (if j \<le> m then \<Sum>s<j. offs ! (s + 1) else offs ! j)"
  using assms(1)
proof (induction m)
  case (Suc m)
  define p where "p = prefix_sum [1..<m + 1] offs"
  have IH: "p ! j = (if j \<le> m then \<Sum>s<j. offs ! (s + 1) else offs ! j)" if "j \<le> n" for j
    using Suc that by (simp add: p_def)
  have l: "length p = n + 1" by (simp add: p_def assms(2))
  have e: "prefix_sum [1..<Suc m + 1] offs = p[Suc m := p ! Suc m + p ! m]"
    by (simp add: prefix_sum_append p_def)
  have "p[Suc m := p ! Suc m + p ! m] ! j = (if j \<le> Suc m then \<Sum>s<j. offs ! (s + 1) else offs ! j)" if j: "j \<le> n" for j
  proof (cases "j = Suc m")
    case True
    then show ?thesis using Suc.prems l IH [of "Suc m"] IH [of m] by (simp add: add.commute)
  next
    case False
    then show ?thesis using IH [OF j] by (simp add: le_Suc_eq)
  qed
  then show ?case unfolding e by blast
qed (use assms(3) in auto)

text \<open>The reference: the items of row \<open>s\<close>, in input order.\<close>

definition bucket_rows :: "('i \<Rightarrow> nat) \<Rightarrow> ('i \<Rightarrow> 'a) \<Rightarrow> 'i list \<Rightarrow> nat \<Rightarrow> 'a list list" where
  "bucket_rows key val is n = map (\<lambda>s. map val (occs key is s)) [0..<n]"

lemma length_bucket_rows [simp]: "length (bucket_rows key val is n) = n"
  by (simp add: bucket_rows_def)

lemma concat_take_buckets: "i \<le> n \<Longrightarrow> length (concat (take i (bucket_rows key val is n))) = (\<Sum>s<i. length (occs key is s))"
proof (induction i)
  case (Suc i)
  then show ?case by (simp add: concat_take_Suc) (simp add: bucket_rows_def)
qed simp

lemma occs_total: "\<forall>i\<in>set is. key i < n \<Longrightarrow> (\<Sum>s<n. length (occs key is s)) = length is"
proof (induction "is")
  case (Cons i "is")
  have "(\<Sum>s<n. length (occs key (i # is) s)) = (\<Sum>s<n. length (occs key is s) + (if key i = s then 1 else 0))"
    by (rule sum.cong) auto
  then show ?case using Cons by (simp add: sum.distrib sum.delta)
qed simp

lemma concat_buckets_sorted:
  assumes "sorted (map key is)"
  shows "concat (bucket_rows key val is n) = map val (filter (\<lambda>i. key i < n) is)"
proof (induction n)
  case (Suc n)
  have f: "filter (\<lambda>i. key i < n) is @ filter (\<lambda>i. key i = n) is = filter (\<lambda>i. key i < Suc n) is"
    using assms
  proof (induction "is")
    case (Cons i "is")
    show ?case
    proof (cases "key i < n")
      case False
      then have "filter (\<lambda>i. key i < n) is = []" using Cons.prems by (auto simp: filter_empty_conv)
      then show ?thesis using Cons False by auto
    qed (use Cons in auto)
  qed simp
  show ?case unfolding f [symmetric] map_append using Suc by (simp add: bucket_rows_def)
qed (simp add: bucket_rows_def)

text \<open>Counted, summed and scattered: the arrays represent the buckets.\<close>

lemma start_offsets:
  assumes counts: "\<forall>s<n. offs ! (s + 1) = of_nat (length (occs key is s))" and "offs ! 0 = 0" and "length offs = n + 1"
    and range: "\<forall>i\<in>set is. key i < n" and small: "length is < 2 ^ 64" and i: "i \<le> n"
  shows "unat (prefix_sum [1..<n + 1] offs ! i) = (\<Sum>s<i. length (occs key is s))"
proof -
  have "prefix_sum [1..<n + 1] offs ! i = (\<Sum>s<i. offs ! (s + 1))"
    using prefix_sum_upt [OF order_refl assms(3,2)] i by simp
  also have "\<dots> = of_nat (\<Sum>s<i. length (occs key is s))" using counts i by simp
  finally have e: "prefix_sum [1..<n + 1] offs ! i = of_nat (\<Sum>s<i. length (occs key is s))" .
  have "(\<Sum>s<i. length (occs key is s)) \<le> (\<Sum>s<n. length (occs key is s))" using i by (intro sum_mono2) auto
  then have "(\<Sum>s<i. length (occs key is s)) < 2 ^ 64" using occs_total [OF range] small by simp
  then show ?thesis unfolding e by (rule unat_of_nat_u64)
qed


definition row_start :: "('i \<Rightarrow> nat) \<Rightarrow> 'i list \<Rightarrow> nat \<Rightarrow> nat" where
  "row_start key is i = (\<Sum>s<i. length (occs key is s))"

lemma row_start_Suc: "row_start key is (Suc s) = row_start key is s + length (occs key is s)"
  by (simp add: row_start_def)

lemma row_start_mono: "i \<le> j \<Longrightarrow> row_start key is i \<le> row_start key is j"
  unfolding row_start_def by (intro sum_mono2) auto

definition shifted :: "nat \<Rightarrow> nat \<Rightarrow> edge_offset list \<Rightarrow> edge_offset list" where
  "shifted n ne offs = (drop 1 offs @ [last offs])[n := of_nat ne]"

lemma scatter_csr:
  assumes range: "\<forall>i\<in>set is. key i < n" and len: "length offs = n + 1"
    and start: "\<And>i. i \<le> n \<Longrightarrow> unat (offs ! i) = row_start key is i"
    and xs: "length xs = length is" and small: "length is < 2 ^ 64"
  shows "\<exists>offs' xs'. scatter key val (rev is) offs xs = Some (offs', xs') \<and> length offs' = n + 1 \<and>
    csr_rep (shifted n (length is) offs') xs' (bucket_rows key val is n)"
proof -
  have total: "row_start key is n = length is" using occs_total [OF range] by (simp add: row_start_def)
  have room: "\<forall>s<n. length (occs key is s) \<le> unat (offs ! (s + 1)) \<and> unat (offs ! (s + 1)) \<le> length xs"
  proof (intro allI impI)
    fix s assume s: "s < n"
    then have "unat (offs ! (s + 1)) = row_start key is (Suc s)" using start [of "s + 1"] by simp
    then show "length (occs key is s) \<le> unat (offs ! (s + 1)) \<and> unat (offs ! (s + 1)) \<le> length xs"
      using row_start_Suc [of key "is" s] row_start_mono [of "Suc s" n key "is"] total xs s by simp
  qed
  have dis: "\<forall>s<n. \<forall>t<n. s \<noteq> t \<longrightarrow> unat (offs ! (s + 1)) \<le> unat (offs ! (t + 1)) - length (occs key is t) \<or>
           unat (offs ! (t + 1)) \<le> unat (offs ! (s + 1)) - length (occs key is s)"
  proof (intro allI impI)
    fix s t assume st: "s < n" "t < n" "s \<noteq> t"
    have e: "unat (offs ! (s + 1)) = row_start key is (Suc s)" "unat (offs ! (t + 1)) = row_start key is (Suc t)"
      using start [of "s + 1"] start [of "t + 1"] st by simp_all
    show "unat (offs ! (s + 1)) \<le> unat (offs ! (t + 1)) - length (occs key is t) \<or>
           unat (offs ! (t + 1)) \<le> unat (offs ! (s + 1)) - length (occs key is s)"
    proof (cases "s < t")
      case True
      then have "row_start key is (Suc s) \<le> row_start key is t" by (intro row_start_mono) simp
      then show ?thesis unfolding e by (simp add: row_start_Suc)
    next
      case False
      then have "row_start key is (Suc t) \<le> row_start key is s" using st by (intro row_start_mono) simp
      then show ?thesis unfolding e by (simp add: row_start_Suc)
    qed
  qed
  obtain offs' xs' where S: "scatter key val (rev is) offs xs = Some (offs', xs')" "length xs' = length xs" "length offs' = n + 1"
    "\<And>s. s < n \<Longrightarrow> unat (offs' ! (s + 1)) = unat (offs ! (s + 1)) - length (occs key is s)"
    "\<And>s k. s < n \<Longrightarrow> k < length (occs key is s) \<Longrightarrow> xs' ! (unat (offs' ! (s + 1)) + k) = val (occs key is s ! k)"
    using scatter_rows [OF range len room dis, of val] by auto
  have st: "unat (offs' ! (s + 1)) = row_start key is s" if "s < n" for s
    using S(4) [OF that] start [of "s + 1"] that by (simp add: row_start_Suc)
  have cat: "concat (take i (bucket_rows key val is n)) = take (row_start key is i) xs'" if "i \<le> n" for i
    using that
  proof (induction i)
    case (Suc i)
    then have i: "i < n" by simp
    have le: "row_start key is i + length (occs key is i) \<le> length xs'"
      using row_start_mono [of "Suc i" n key "is"] i total xs S(2) by (simp add: row_start_Suc)
    have row: "take (length (occs key is i)) (drop (row_start key is i) xs') = map val (occs key is i)"
      using le S(5) [OF i] st [OF i] by (intro nth_equalityI) auto
    have "concat (take (Suc i) (bucket_rows key val is n)) = take (row_start key is i) xs' @ map val (occs key is i)"
      using Suc i by (simp add: concat_take_Suc) (simp add: bucket_rows_def)
    then show ?case unfolding row [symmetric] row_start_Suc take_add .
  qed (simp add: row_start_def)
  have ne: "offs' \<noteq> []" using S(3) by auto
  have ls: "length (shifted n (length is) offs') = n + 1" using S(3) by (simp add: shifted_def)
  have sh: "unat (shifted n (length is) offs' ! i) = row_start key is i" if "i \<le> n" for i
  proof (cases "i = n")
    case True
    then show ?thesis using S(3) small total by (simp add: shifted_def)
  next
    case False
    then show ?thesis using that S(3) st [of i] by (simp add: shifted_def nth_append)
  qed
  have "csr_rep (shifted n (length is) offs') xs' (bucket_rows key val is n)"
    unfolding csr_rep_def
  proof (intro conjI allI impI)
    show "xs' = concat (bucket_rows key val is n)" using cat [of n] total xs S(2) by simp
    show "length (shifted n (length is) offs') = length (bucket_rows key val is n) + 1" using ls by simp
    fix i assume "i \<le> length (bucket_rows key val is n)"
    then show "unat (shifted n (length is) offs' ! i) = length (concat (take i (bucket_rows key val is n)))"
      using sh [of i] concat_take_buckets [of i n key val "is"] by (simp add: row_start_def)
  qed
  then show ?thesis using S(1,3) by blast
qed

subsection \<open>The scatter of the builder\<close>

lemma scatter_loop_plain:
  assumes "scatter (\<lambda>i. unat (src i)) dst ix offs edges = Some (offs', edges')" and "out = None \<or> weights = None"
  shows "scatter_loop src dst weights ix offs edges out = Some (offs', edges', out)"
  using assms(1)
proof (induction ix arbitrary: offs edges)
  case (Cons i ix)
  then obtain c e1 where c: "nth_opt offs (unat (src i) + 1) = Some c" "set_opt edges (unat (c - 1)) (dst i) = Some e1"
    "scatter (\<lambda>i. unat (src i)) dst ix (offs[unat (src i) + 1 := c - 1]) e1 = Some (offs', edges')"
    by (auto split: Option.bind_splits)
  have "(case (out, weights) of (Some o', Some w) \<Rightarrow> do { x \<leftarrow> nth_opt w i; o' \<leftarrow> set_opt o' (unat (c - 1)) x; Some (Some o') }
      | _ \<Rightarrow> Some out) = Some out" using assms(2) by (auto split: option.split)
  then show ?case using c(1,2) Cons.IH [OF c(3)] by (simp add: Let_def)
qed simp

lemma scatter_loop_weights:
  assumes "scatter (\<lambda>i. unat (src i)) dst ix offs edges = Some (offs', edges')"
    and "scatter (\<lambda>i. unat (src i)) (\<lambda>i. w ! i) ix offs o' = Some (offs'', o'')" and "\<forall>i\<in>set ix. i < length w"
  shows "scatter_loop src dst (Some w) ix offs edges (Some o') = Some (offs', edges', Some o'')"
  using assms
proof (induction ix arbitrary: offs edges o')
  case (Cons i ix)
  from Cons.prems(1) obtain c e1 where c: "nth_opt offs (unat (src i) + 1) = Some c" "set_opt edges (unat (c - 1)) (dst i) = Some e1"
    "scatter (\<lambda>i. unat (src i)) dst ix (offs[unat (src i) + 1 := c - 1]) e1 = Some (offs', edges')"
    by (auto split: Option.bind_splits)
  with Cons.prems(2) obtain o1 where o1: "set_opt o' (unat (c - 1)) (w ! i) = Some o1"
    "scatter (\<lambda>i. unat (src i)) (\<lambda>i. w ! i) ix (offs[unat (src i) + 1 := c - 1]) o1 = Some (offs'', o'')"
    by (auto split: Option.bind_splits)
  show ?case using c(1,2) o1(1) Cons.IH [OF c(3) o1(2)] Cons.prems(3) by (simp add: Let_def nth_opt_Some)
qed simp

definition edges_in_range :: "nat \<Rightarrow> nat \<Rightarrow> nat \<Rightarrow> (nat \<Rightarrow> node_id) \<Rightarrow> (nat \<Rightarrow> node_id) \<Rightarrow> bool" where
  "edges_in_range n nd ne src dst \<longleftrightarrow> (\<forall>i<ne. pair_in_range n nd src dst i)"

abbreviation edge_rows :: "(nat \<Rightarrow> node_id) \<Rightarrow> (nat \<Rightarrow> 'a) \<Rightarrow> nat \<Rightarrow> nat \<Rightarrow> 'a list list" where
  "edge_rows src val ne n \<equiv> bucket_rows (\<lambda>i. unat (src i)) val [0..<ne] n"

lemma build_csr_ok:
  assumes lim: "n \<le> MAX_NODES" "nd \<le> MAX_NODES" and w: "\<forall>ws. weights = Some ws \<longrightarrow> length ws = ne"
    and ok: "edges_in_range n nd ne src dst" and small: "ne < 2 ^ 64"
  shows "\<exists>offs. build_csr threads n nd ne src dst weights = Some (Inr (from_trusted_parts n nd offs
      (concat (edge_rows src dst ne n)) (map_option (\<lambda>ws. concat (edge_rows src ((!) ws) ne n)) weights))) \<and>
    csr_rep offs (concat (edge_rows src dst ne n)) (edge_rows src dst ne n)"
proof -
  let ?offs0 = "replicate (n + 1) (0 :: edge_offset)"
  let ?rs = "scan_plan threads ne"
  let ?key = "\<lambda>i. unat (src i)"
  have f: "find (\<lambda>i. \<not> pair_in_range n nd src dst i) [0..<ne] = None"
    using ok by (simp add: find_None_iff edges_in_range_def)
  obtain offs1 g where S: "scanned n nd src dst (plan_indices ?rs) g ?offs0 offs1 (scan_chunks n nd src dst ?rs ?offs0)"
    "g \<longrightarrow> chunks_grouped src ?rs"
    using scan_chunks_ok [of ?offs0 n ?rs nd src dst] unfolding scan_plan_cover by auto
  have scan: "scan_chunks n nd src dst ?rs ?offs0 = Some (None, g, offs1)" and l1: "length offs1 = n + 1"
    and z1: "offs1 ! 0 = 0" and c1: "\<forall>s<n. offs1 ! (s + 1) = of_nat (length (occs ?key [0..<ne] s))"
    using S(1) f unfolding scanned_def scan_plan_cover by simp_all
  have rng: "\<forall>i\<in>set [0..<ne]. ?key i < n" using ok by (simp add: edges_in_range_def pair_in_range_def)
  define offs2 where "offs2 = prefix_sum [1..<n + 1] offs1"
  have l2: "length offs2 = n + 1" by (simp add: offs2_def l1)
  have st: "unat (offs2 ! i) = row_start ?key [0..<ne] i" if "i \<le> n" for i
    using start_offsets [OF c1 z1 l1 rng] that small by (simp add: offs2_def row_start_def)
  have cat: "concat (edge_rows src val ne n) = map val [0..<ne]" if "sorted (map src [0..<ne])" for val :: "nat \<Rightarrow> 'z"
  proof -
    have "sorted (map ?key [0..<ne])" using that by (simp add: sorted_map word_le_nat_alt)
    moreover have "filter (\<lambda>i. ?key i < n) [0..<ne] = [0..<ne]" using rng by (simp add: filter_True)
    ultimately show ?thesis by (simp add: concat_buckets_sorted)
  qed
  have pre: "build_csr threads n nd ne src dst weights =
     (if g then Some (Inr (from_trusted_parts n nd offs2 (map dst [0..<ne]) weights))
      else do {
        (offsets, edges, out) \<leftarrow> scatter_loop src dst weights (rev [0..<ne]) offs2 (replicate ne 0) (map_option (\<lambda>_. replicate ne 0) weights);
        Some (Inr (from_trusted_parts n nd (shifted n ne offsets) edges out)) })"
    using lim w scan unfolding build_csr_def Let_def offs2_def by (auto simp: shifted_def split: option.splits)
  show ?thesis
  proof (cases g)
    case True
    then have srt: "sorted (map src [0..<ne])" using S(2) grouped_sorted by blast
    have wts: "map_option (\<lambda>ws. concat (edge_rows src ((!) ws) ne n)) weights = weights"
      using w by (cases weights) (auto simp: cat [OF srt] intro: nth_equalityI)
    have "csr_rep offs2 (concat (edge_rows src dst ne n)) (edge_rows src dst ne n)"
      using l2 st by (auto simp: csr_rep_def concat_take_buckets row_start_def)
    then show ?thesis unfolding pre wts using True by (auto simp: cat [OF srt])
  next
    case False
    obtain offs' edges' where E: "scatter ?key dst (rev [0..<ne]) offs2 (replicate ne 0) = Some (offs', edges')"
      "csr_rep (shifted n ne offs') edges' (edge_rows src dst ne n)"
      using scatter_csr [OF rng l2 st, of "replicate ne 0" dst] small by auto
    have edges': "edges' = concat (edge_rows src dst ne n)" using E(2) by (simp add: csr_rep_def)
    show ?thesis
    proof (cases weights)
      case None
      then show ?thesis unfolding pre using False scatter_loop_plain [OF E(1), of None weights] E(2)
        by (auto simp: edges')
    next
      case (Some ws)
      obtain o1 o2 where O: "scatter ?key ((!) ws) (rev [0..<ne]) offs2 (replicate ne 0) = Some (o1, o2)"
        "csr_rep (shifted n ne o1) o2 (edge_rows src ((!) ws) ne n)"
        using scatter_csr [OF rng l2 st, of "replicate ne 0" "(!) ws"] small by auto
      have "o2 = concat (edge_rows src ((!) ws) ne n)" using O(2) by (simp add: csr_rep_def)
      then show ?thesis unfolding pre using False scatter_loop_weights [OF E(1) O(1)] E(2) Some w
        by (auto simp: edges')
    qed
  qed
qed

lemma build_csr_bad:
  assumes lim: "n \<le> MAX_NODES" "nd \<le> MAX_NODES" and w: "\<forall>ws. weights = Some ws \<longrightarrow> length ws = ne"
    and bad: "find (\<lambda>i. \<not> pair_in_range n nd src dst i) [0..<ne] = Some b"
  shows "build_csr threads n nd ne src dst weights =
    Some (Inl (if n \<le> unat (src b) then SourceExceeds b else DestinationExceeds b))"
proof -
  let ?offs0 = "replicate (n + 1) (0 :: edge_offset)"
  obtain offs1 g where S: "scanned n nd src dst [0..<ne] g ?offs0 offs1 (scan_chunks n nd src dst (scan_plan threads ne) ?offs0)"
    using scan_chunks_ok [of ?offs0 n "scan_plan threads ne" nd src dst] unfolding scan_plan_cover by auto
  then have "scan_chunks n nd src dst (scan_plan threads ne) ?offs0 = Some (Some b, False, offs1)"
    using bad by (simp add: scanned_def)
  then show ?thesis using lim w by (auto simp: build_csr_def split: option.splits)
qed

end
