(* ===== verification/Csr_Properties.thy ===== *)
theory Csr_Properties
  imports Csr_Correct
begin

section \<open>The graph value: typing and lookups\<close>

text \<open>
  \<open>graph_typed\<close> is the shape invariant of the code's documentation with what the recorded proof
  level claims; every constructor establishes it, and it makes every lookup safe, whatever the
  level. \<open>graph_rep g rows\<close> says what the graph means once its offsets are proven.
\<close>

definition graph_typed :: "graph \<Rightarrow> bool" where
  "graph_typed g \<longleftrightarrow> (\<exists>offs es ws. offsets_slice g = Some offs \<and> edges_slice g = Some es \<and> weights_slice g = Some ws \<and>
     g_num_nodes g \<le> MAX_NODES \<and> g_num_dst_nodes g \<le> MAX_NODES \<and> length offs = g_num_nodes g + 1 \<and> offs ! 0 = 0 \<and>
     offs ! g_num_nodes g = of_nat (g_num_edges g) \<and> length es = g_num_edges g \<and>
     (\<forall>w. ws = Some w \<longrightarrow> length w = g_num_edges g) \<and> (\<forall>t. g_timestamps g = Some t \<longrightarrow> length t = g_num_edges g) \<and>
     (OffsetsOnly \<le> g_proof g \<longrightarrow> sorted offs) \<and> (g_proof g = Full \<longrightarrow> (\<forall>d\<in>set es. unat d < g_num_dst_nodes g)))"

definition graph_rep :: "graph \<Rightarrow> node_id list list \<Rightarrow> bool" where
  "graph_rep g rows \<longleftrightarrow> (\<exists>offs es. offsets_slice g = Some offs \<and> edges_slice g = Some es \<and>
     csr_rep offs es rows \<and> length rows = g_num_nodes g \<and> length es = g_num_edges g)"

subsection \<open>Lookups\<close>

lemma range_rep:
  assumes "csr_rep offs es rows"
  shows "neighbor_range_guarded offs (length rows) (length es) v =
    Some (if unat v < length rows then (unat (offs ! unat v), unat (offs ! Suc (unat v))) else (0, 0))"
proof (cases "unat v < length rows")
  case True
  then show ?thesis using csr_rep_bounds [OF assms True] csr_rep_lengths [OF assms]
    by (simp add: neighbor_range_guarded_def Let_def nth_opt_Some)
qed (simp add: neighbor_range_guarded_def Let_def)

lemma slice_rep:
  assumes "csr_rep offs es rows" and "length xs = length es" and "csr_rep offs xs xrows" and "length xrows = length rows"
  shows "(neighbor_range_guarded offs (length rows) (length es) v \<bind> (\<lambda>(a, b). slice_opt xs a b)) =
    Some (if unat v < length rows then xrows ! unat v else [])"
  using range_rep [OF assms(1), of v] csr_rep_row [OF assms(3), of "unat v"] assms(4) by (simp add: slice_opt_def)

lemma neighbors_rep: "graph_rep g rows \<Longrightarrow> neighbors g v = Some (if unat v < length rows then rows ! unat v else [])"
  unfolding graph_rep_def using slice_rep [where v = v] by (fastforce simp: neighbors_def neighbor_range_def)

lemma degree_rep: "graph_rep g rows \<Longrightarrow> degree g v = Some (if unat v < length rows then length (rows ! unat v) else 0)"
  unfolding graph_rep_def using range_rep [where v = v] csr_rep_bounds(3) by (fastforce simp: degree_def neighbor_range_def)

lemma typed_rep:
  assumes t: "graph_typed g" and p: "OffsetsOnly \<le> g_proof g" and small: "g_num_edges g < 2 ^ 64"
  shows "\<exists>rows. graph_rep g rows"
proof -
  obtain offs es where o: "offsets_slice g = Some offs" "edges_slice g = Some es" "length offs = g_num_nodes g + 1" "offs ! 0 = 0"
    "offs ! g_num_nodes g = of_nat (g_num_edges g)" "length es = g_num_edges g" "sorted offs"
    using t p by (auto simp: graph_typed_def)
  have "csr_rep offs es (rows_of offs es)" using o small by (intro csr_rep_rows_of) auto
  then show ?thesis using o by (auto simp: graph_rep_def)
qed

lemma csr_rep_val:
  assumes "csr_rep offs (concat (bucket_rows key val1 is n)) (bucket_rows key val1 is n)"
  shows "csr_rep offs (concat (bucket_rows key val2 is n)) (bucket_rows key val2 is n)"
proof -
  have "unat (offs ! i) = length (concat (take i (bucket_rows key val2 is n)))" if "i \<le> n" for i
    using assms that by (simp add: csr_rep_def concat_take_buckets)
  then show ?thesis using assms by (simp add: csr_rep_def)
qed

text \<open>Even below \<open>OffsetsOnly\<close>, where the offsets may be corrupt, a lookup stays in bounds.\<close>

lemma typed_range:
  assumes "graph_typed g"
  shows "\<exists>a b. neighbor_range g v = Some (a, b) \<and> a \<le> b \<and> b \<le> g_num_edges g"
proof -
  obtain offs where o: "offsets_slice g = Some offs" "length offs = g_num_nodes g + 1" using assms by (auto simp: graph_typed_def)
  then show ?thesis by (auto simp: neighbor_range_def neighbor_range_guarded_def Let_def nth_opt_Some)
qed

lemma typed_lookups:
  assumes "graph_typed g"
  shows "\<exists>ns. neighbors g v = Some ns \<and> degree g v = Some (length ns)"
    and "neighbor_weights g v \<noteq> None" and "neighbor_timestamps g v \<noteq> None" and "edge_offset_of g v \<noteq> None"
    and "graph_csr_view g \<noteq> None"
proof -
  obtain a b where ab: "neighbor_range g v = Some (a, b)" "a \<le> b" "b \<le> g_num_edges g" using typed_range [OF assms] by blast
  obtain offs es ws where t: "offsets_slice g = Some offs" "edges_slice g = Some es" "weights_slice g = Some ws"
    "length offs = g_num_nodes g + 1" "length es = g_num_edges g" "\<forall>w. ws = Some w \<longrightarrow> length w = g_num_edges g"
    "\<forall>t. g_timestamps g = Some t \<longrightarrow> length t = g_num_edges g"
    using assms by (auto simp: graph_typed_def)
  show "\<exists>ns. neighbors g v = Some ns \<and> degree g v = Some (length ns)"
    using ab t by (simp add: neighbors_def degree_def slice_opt_Some)
  show "neighbor_weights g v \<noteq> None"
    using ab t by (cases ws) (simp_all add: neighbor_weights_def slice_opt_Some)
  show "neighbor_timestamps g v \<noteq> None"
    using ab t by (cases "g_timestamps g") (simp_all add: neighbor_timestamps_def slice_opt_Some)
  show "edge_offset_of g v \<noteq> None" using t by (simp add: edge_offset_of_def nth_opt_Some)
  show "graph_csr_view g \<noteq> None" using t by (simp add: graph_csr_view_def)
qed

subsection \<open>Constructors\<close>

lemma check_monotone_ok: "check_monotone offs = Inr () \<longleftrightarrow> sorted offs"
  by (simp add: check_monotone_def pairs_sorted_iff)

lemma check_destinations_ok: "check_destinations es nd = Inr () \<longleftrightarrow> (\<forall>d\<in>set es. unat d < nd)"
  by (auto simp: check_destinations_def list_all_iff)

lemma check_shape_ok:
  "check_shape n nd offs ne wl = Inr () \<longleftrightarrow> n \<le> MAX_NODES \<and> nd \<le> MAX_NODES \<and> length offs = n + 1 \<and> offs ! 0 = 0 \<and>
     offs ! n = of_nat ne \<and> (\<forall>w. wl = Some w \<longrightarrow> w = ne)"
  by (auto simp: check_shape_def split: option.split)

lemma ok_then_Inr: "ok_then r f = Inr y \<longleftrightarrow> (\<exists>x. r = Inr x \<and> f x = Inr y)"
  by (cases r) auto

lemma from_csr_vecs_typed:
  assumes "from_csr_vecs n nd offs es ws mode = Inr g"
  shows "graph_typed g" and "g_proof g = mode" and "g_storage g = Owned offs es ws"
proof -
  have a: "check_shape n nd offs (length es) (map_option length ws) = Inr ()"
    "OffsetsOnly \<le> mode \<longrightarrow> check_monotone offs = Inr ()" "mode = Full \<longrightarrow> check_destinations es nd = Inr ()"
    "g = \<lparr>g_num_nodes = n, g_num_dst_nodes = nd, g_num_edges = length es, g_storage = Owned offs es ws, g_timestamps = None, g_proof = mode\<rparr>"
    using assms by (auto simp: from_csr_vecs_def ok_then_Inr split: if_splits)
  then show "graph_typed g"
    by (auto simp: graph_typed_def offsets_slice_def edges_slice_def weights_slice_def check_shape_ok check_monotone_ok check_destinations_ok)
  show "g_proof g = mode" "g_storage g = Owned offs es ws" using a(4) by simp_all
qed

text \<open>The gates of the builder.\<close>

lemma build_csr_Inr:
  assumes "build_csr th n nd ne src dst ws = Some (Inr g)"
  shows "n \<le> MAX_NODES" and "nd \<le> MAX_NODES" and "\<forall>w. ws = Some w \<longrightarrow> length w = ne" and "edges_in_range n nd ne src dst"
proof -
  show l: "n \<le> MAX_NODES" "nd \<le> MAX_NODES" and w: "\<forall>w. ws = Some w \<longrightarrow> length w = ne"
    using assms by (auto simp: build_csr_def split: if_splits option.splits)
  show "edges_in_range n nd ne src dst"
  proof (rule ccontr)
    assume "\<not> edges_in_range n nd ne src dst"
    then obtain b where "find (\<lambda>i. \<not> pair_in_range n nd src dst i) [0..<ne] = Some b"
      by (cases "find (\<lambda>i. \<not> pair_in_range n nd src dst i) [0..<ne]") (auto simp: find_None_iff edges_in_range_def)
    then show False using build_csr_bad [OF l w] assms by simp
  qed
qed

lemma set_concat_buckets: "x \<in> set (concat (bucket_rows key val is n)) \<Longrightarrow> \<exists>i\<in>set is. x = val i"
  by (auto simp: bucket_rows_def)

lemma build_csr_rep:
  assumes b: "build_csr th n nd ne src dst ws = Some (Inr g)" and small: "ne < 2 ^ 64"
  shows "graph_rep g (edge_rows src dst ne n)" and "graph_typed g" and "g_proof g = Full"
    and "neighbor_weights g v = Some (map_option (\<lambda>w. if unat v < n then edge_rows src ((!) w) ne n ! unat v else []) ws)"
    and "g_num_nodes g = n" and "g_num_edges g = ne"
proof -
  note gate = build_csr_Inr [OF b]
  obtain offs where o: "g = from_trusted_parts n nd offs (concat (edge_rows src dst ne n)) (map_option (\<lambda>ws. concat (edge_rows src ((!) ws) ne n)) ws)"
    "csr_rep offs (concat (edge_rows src dst ne n)) (edge_rows src dst ne n)"
    using build_csr_ok [OF gate small, of th] b by auto
  have len: "length (concat (edge_rows src (val :: nat \<Rightarrow> 'z) ne n)) = ne" for val
    using concat_take_buckets [of n n "\<lambda>i. unat (src i)" val "[0..<ne]"] occs_total [of "[0..<ne]" "\<lambda>i. unat (src i)" n] gate(4)
    by (simp add: edges_in_range_def pair_in_range_def)
  show rep: "graph_rep g (edge_rows src dst ne n)"
    using o by (simp add: graph_rep_def from_trusted_parts_def offsets_slice_def edges_slice_def)
  show "g_proof g = Full" "g_num_nodes g = n" "g_num_edges g = ne" using o(1) by (simp_all add: len from_trusted_parts_def)
  have dsts: "\<forall>d\<in>set (concat (edge_rows src dst ne n)). unat d < nd"
    using gate(4) by (fastforce dest: set_concat_buckets simp: edges_in_range_def pair_in_range_def)
  have "offs ! n = of_nat ne" using csr_rep_last [OF o(2)] unfolding len length_bucket_rows by (metis of_nat_unat_u64)
  then show "graph_typed g" using o(1) csr_rep_lengths [OF o(2)] csr_rep_first [OF o(2)] csr_rep_sorted [OF o(2)] gate dsts
    by (auto simp: len graph_typed_def from_trusted_parts_def offsets_slice_def edges_slice_def weights_slice_def)
  show "neighbor_weights g v = Some (map_option (\<lambda>w. if unat v < n then edge_rows src ((!) w) ne n ! unat v else []) ws)"
  proof (cases ws)
    case (Some w)
    have "(neighbor_range_guarded offs n ne v \<bind> (\<lambda>(a, b). slice_opt (concat (edge_rows src ((!) w) ne n)) a b)) =
        Some (if unat v < n then edge_rows src ((!) w) ne n ! unat v else [])"
      using slice_rep [OF o(2) _ csr_rep_val [OF o(2), of "(!) w"], of v] by (simp add: len)
    then show ?thesis using o(1) Some
      by (auto simp: len neighbor_weights_def weights_slice_def neighbor_range_def offsets_slice_def from_trusted_parts_def
          split: Option.bind_splits)
  qed (use o(1) in \<open>simp add: neighbor_weights_def weights_slice_def from_trusted_parts_def\<close>)
qed

lemma validate_typed:
  assumes t: "graph_typed g"
  shows "\<exists>r g'. validate_with_mode g mode = Some (r, g') \<and> graph_typed g' \<and> (r = Inr () \<longrightarrow> mode \<le> g_proof g') \<and>
    g_proof g \<le> g_proof g' \<and> g' = g\<lparr>g_proof := g_proof g'\<rparr>"
proof -
  obtain offs es ws where o: "offsets_slice g = Some offs" "edges_slice g = Some es" "weights_slice g = Some ws"
    using t by (auto simp: graph_typed_def)
  have same: "offsets_slice (g\<lparr>g_proof := m\<rparr>) = offsets_slice g" "edges_slice (g\<lparr>g_proof := m\<rparr>) = edges_slice g"
    "weights_slice (g\<lparr>g_proof := m\<rparr>) = weights_slice g" for m
    by (simp_all add: offsets_slice_def edges_slice_def weights_slice_def)
  have raise: "graph_typed (g\<lparr>g_proof := m\<rparr>)"
    if "OffsetsOnly \<le> m \<longrightarrow> sorted offs" "m = Full \<longrightarrow> (\<forall>d\<in>set es. unat d < g_num_dst_nodes g)" for m
    using t o that by (simp add: graph_typed_def same)
  have up: "OffsetsOnly \<le> g_proof g \<longrightarrow> sorted offs" "g_proof g = Full \<longrightarrow> (\<forall>d\<in>set es. unat d < g_num_dst_nodes g)"
    using t o by (auto simp: graph_typed_def)
  have self: "g = g\<lparr>g_proof := g_proof g\<rparr>" by simp
  have m: "max HeaderOnly OffsetsOnly = OffsetsOnly" "max OffsetsOnly Full = Full" "max HeaderOnly Full = Full"
    by (simp_all add: max_def less_eq_validation_mode_def)
  have low: "HeaderOnly \<le> x" "OffsetsOnly \<le> Full" for x by simp_all
  have r1: "graph_typed (g\<lparr>g_proof := OffsetsOnly\<rparr>)" if "check_monotone offs = Inr ()"
    using raise [of OffsetsOnly] that by (simp add: check_monotone_ok)
  have r2: "graph_typed (g\<lparr>g_proof := Full\<rparr>)"
    if "check_destinations es (g_num_dst_nodes g) = Inr ()" "check_monotone offs = Inr () \<or> g_proof g = OffsetsOnly"
    using raise [of Full] that up(1) by (auto simp: check_monotone_ok check_destinations_ok)
  show ?thesis
    using t r1 r2 o
    by (cases "g_proof g"; cases mode; cases "check_monotone offs"; cases "check_destinations es (g_num_dst_nodes g)")
      (auto simp: validate_with_mode_def Let_def m)
qed

lemma check_range_ok: "check_range sz base l r what = Inr () \<longleftrightarrow> fst r \<le> snd r \<and> snd r \<le> l \<and> sz dvd base + fst r \<and> sz dvd snd r - fst r"
  by (auto simp: check_range_def)

lemma length_words32: "length (words32_of_bytes bs) = length bs div 4"
  by (induction bs rule: words32_of_bytes.induct) auto

lemma from_mapped_typed:
  assumes "from_mapped_parts n nd ne base mmap orng erng wrng mode = Some (Inr g)"
  shows "graph_typed g \<and> mode \<le> g_proof g \<and> g_storage g = Mapped base mmap orng erng wrng"
proof -
  define g0 where "g0 = \<lparr>g_num_nodes = n, g_num_dst_nodes = nd, g_num_edges = ne,
    g_storage = Mapped base mmap orng erng wrng, g_timestamps = None, g_proof = HeaderOnly\<rparr>"
  have gates: "check_range 8 base (length mmap) orng ''offsets'' = Inr ()" "check_range 4 base (length mmap) erng ''edges'' = Inr ()"
    "\<forall>w. wrng = Some w \<longrightarrow> check_range 4 base (length mmap) w ''weights'' = Inr () \<and> snd w - fst w = snd erng - fst erng"
    "snd erng - fst erng = ne * 4"
    using assms unfolding from_mapped_parts_def by (auto simp: ok_then_Inr split: sum.splits option.splits if_splits)
  obtain offs ws where s: "offsets_slice g0 = Some offs" "weights_slice g0 = Some ws"
    "check_shape n nd offs ne (map_option length ws) = Inr ()" "validate_with_mode g0 mode = Some (Inr (), g)"
    using assms unfolding from_mapped_parts_def Let_def g0_def [symmetric]
    by (auto split: sum.splits Option.bind_splits)
  have e: "edges_slice g0 = Some (words32_of_bytes (take (snd erng - fst erng) (drop (fst erng) mmap)))"
    using gates(2) by (simp add: edges_slice_def g0_def slice_opt_def check_range_ok)
  have le: "length (words32_of_bytes (take (snd erng - fst erng) (drop (fst erng) mmap))) = ne"
  proof -
    have "ne * 4 \<le> length mmap - fst erng" using gates(2,4) unfolding check_range_ok by linarith
    then show ?thesis using gates(4) by (simp add: length_words32 min_absorb2)
  qed
  have "graph_typed g0"
    using s e le unfolding graph_typed_def by (auto simp: g0_def check_shape_ok)
  then obtain r g' where v: "validate_with_mode g0 mode = Some (r, g')" "graph_typed g'" "r = Inr () \<longrightarrow> mode \<le> g_proof g'"
    "g' = g0\<lparr>g_proof := g_proof g'\<rparr>" using validate_typed by blast
  have "g_storage g' = g_storage g0" by (subst v(4)) simp
  then show ?thesis using v s(4) by (simp add: g0_def)
qed


subsection \<open>Properties\<close>



lemma occs_list: "map (\<lambda>i. snd (xs ! i)) (occs (\<lambda>i. unat (fst (xs ! i))) [0..<length xs] s) = map snd (filter (\<lambda>e. unat (fst e) = s) xs)"
proof -
  have "map snd (filter (\<lambda>e. unat (fst e) = s) (map ((!) xs) [0..<length xs]))
      = map (\<lambda>i. snd (xs ! i)) (occs (\<lambda>i. unat (fst (xs ! i))) [0..<length xs] s)"
    by (simp add: filter_map o_def del: map_nth)
  then show ?thesis by (simp add: map_nth)
qed

lemma occs_weights:
  assumes "length w = length xs"
  shows "map ((!) w) (occs (\<lambda>i. unat (fst (xs ! i))) [0..<length xs] s) = map snd (filter (\<lambda>(e, _). unat (fst e) = s) (zip xs w))"
proof -
  have z: "zip xs w = map (\<lambda>i. (xs ! i, w ! i)) [0..<length xs]" using assms by (intro nth_equalityI) simp_all
  show ?thesis unfolding z by (simp add: filter_map o_def)
qed

text \<open>C25 (functional). The counting-sort builder, on any number of threads and on both of its paths, gives
  each source its destinations in input order with their weights; if some endpoint is out of range the
  error names the first such edge.\<close>

theorem from_edges_groups:
  assumes "n \<le> MAX_NODES" and "length es < 2 ^ 64" and "\<forall>w. ws = Some w \<longrightarrow> length w = length es"
  shows "case find (\<lambda>i. n \<le> unat (fst (es ! i)) \<or> n \<le> unat (snd (es ! i))) [0..<length es] of
      Some i \<Rightarrow> graph_from_edges threads n es ws =
        Some (Inl (if n \<le> unat (fst (es ! i)) then SourceExceeds i else DestinationExceeds i))
    | None \<Rightarrow> \<exists>g. graph_from_edges threads n es ws = Some (Inr g) \<and> g_proof g = Full \<and>
        (\<forall>v. neighbors g v = Some (map snd (filter (\<lambda>e. fst e = v) es))) \<and>
        (\<forall>v. neighbor_weights g v = Some (map_option (\<lambda>w. map snd (filter (\<lambda>(e, _). fst e = v) (zip es w))) ws))"
proof -
  let ?src = "\<lambda>i. fst (es ! i)" and ?dst = "\<lambda>i. snd (es ! i)"
  have bad: "(\<lambda>i. n \<le> unat (fst (es ! i)) \<or> n \<le> unat (snd (es ! i))) = (\<lambda>i. \<not> pair_in_range n n ?src ?dst i)"
    by (auto simp: pair_in_range_def)
  show ?thesis
  proof (cases "find (\<lambda>i. \<not> pair_in_range n n ?src ?dst i) [0..<length es]")
    case (Some b)
    then show ?thesis using build_csr_bad [OF assms(1,1,3) Some, of threads] by (simp add: bad graph_from_edges_def)
  next
    case None
    then have ok: "edges_in_range n n (length es) ?src ?dst" by (auto simp: find_None_iff edges_in_range_def)
    obtain g where g: "graph_from_edges threads n es ws = Some (Inr g)"
      using build_csr_ok [OF assms(1,1,3) ok assms(2), of threads] by (auto simp: graph_from_edges_def)
    note rep = build_csr_rep [OF g [unfolded graph_from_edges_def] assms(2)]
    have eqv: "unat (fst e) = unat v \<longleftrightarrow> fst e = v" for e :: "u32 \<times> u32" and v by (simp add: word_unat_eq_iff)
    have out: "filter (\<lambda>e. fst e = v) es = []" "filter (\<lambda>(e, _). fst e = v) (zip es w) = []" if "\<not> unat v < n" for v w
    proof -
      have "fst e \<noteq> v" if "e \<in> set es" for e
        using ok that \<open>\<not> unat v < n\<close> by (auto simp: edges_in_range_def pair_in_range_def in_set_conv_nth)
      then show "filter (\<lambda>e. fst e = v) es = []" "filter (\<lambda>(e, _). fst e = v) (zip es w) = []"
        by (auto simp: filter_empty_conv dest: set_zip_leftD)
    qed
    have "neighbors g v = Some (map snd (filter (\<lambda>e. fst e = v) es))" for v
    proof (cases "unat v < n")
      case True
      then show ?thesis using neighbors_rep [OF rep(1), of v] occs_list [of es "unat v"]
        by (simp add: bucket_rows_def eqv)
    next
      case False
      then show ?thesis using neighbors_rep [OF rep(1), of v] out(1) by simp
    qed
    moreover have "neighbor_weights g v = Some (map_option (\<lambda>w. map snd (filter (\<lambda>(e, _). fst e = v) (zip es w))) ws)" for v
    proof (cases ws)
      case (Some w)
      then show ?thesis using rep(4) [of v] occs_weights [of w es "unat v"] assms(3) out(2) [of v w]
        by (cases "unat v < n") (simp_all add: bucket_rows_def eqv)
    qed (use rep(4) in simp)
    ultimately show ?thesis using g rep(3) None by (simp add: bad)
  qed
qed

theorem from_edges_groups_witness:
  "\<exists>g. graph_from_edges 8 3 [(2, 0), (0, 1), (2, 2)] None = Some (Inr g) \<and> neighbors g 2 = Some [0, 2] \<and> neighbors g 1 = Some []"
  using from_edges_groups [of 3 "[(2, 0), (0, 1), (2, 2)]" None 8] by (auto simp: MAX_NODES_def)

text \<open>On a proven graph \<^verbatim>\<open>degrees_of\<close> keeps the low 32 bits of a degree that \<^verbatim>\<open>degrees\<close> saturates.\<close>

lemma wide_degree_truncated:
  "gather_degrees_scalar [0, 2 ^ 32] [0] = [0]" "sat_u32 (unat (2 ^ 32 - 0 :: edge_offset)) = - 1"
  by (simp_all add: gather_degrees_scalar_def sat_u32_def)

end
