(* ===== verification/Graph_File.thy ===== *)
theory Graph_File
  imports Csr
begin

section \<open>The graph file formats\<close>

text \<open>
  Models \<^verbatim>\<open>crates/aethergraph-core/src/internal/mmap.rs\<close> (the flat version-1 format: header,
  layout, save, mapped and owned load) and \<^verbatim>\<open>internal/compressed_graph.rs\<close> (the version-2 format
  over the succinct codecs). A file is its bytes: the writers return the bytes that
  \<^verbatim>\<open>write_atomically\<close> installs, the readers take the file's bytes. \<open>crc\<close> is \<^verbatim>\<open>crc32fast\<close> over the
  concatenated parts; \<open>base\<close> is the address of a mapping.
\<close>

definition MAGIC :: u32 where "MAGIC = 0x41455448"
definition VERSION :: u32 where "VERSION = 1"
definition COMPRESSED_VERSION :: u32 where "COMPRESSED_VERSION = 2"
definition FULL_VALIDATION_THRESHOLD_BYTES :: nat where "FULL_VALIDATION_THRESHOLD_BYTES = 512 * 1024 * 1024"
definition MAX_EDGES :: nat where "MAX_EDGES = 100000000000"
definition HEADER_SIZE :: nat where "HEADER_SIZE = 32"

record file_header =
  fh_magic :: u32
  fh_version :: u32
  fh_num_nodes :: u64
  fh_num_edges :: u64
  fh_has_weights :: u32
  fh_checksum :: u32

definition header_new :: "nat \<Rightarrow> nat \<Rightarrow> bool \<Rightarrow> u32 option \<Rightarrow> file_header" where
  "header_new num_nodes num_edges has_weights checksum =
     \<lparr>fh_magic = MAGIC, fh_version = VERSION, fh_num_nodes = of_nat num_nodes, fh_num_edges = of_nat num_edges,
      fh_has_weights = (if has_weights then 1 else 0), fh_checksum = (case checksum of None \<Rightarrow> 0 | Some c \<Rightarrow> c)\<rparr>"

definition header_validate :: "file_header \<Rightarrow> graph_error + unit" where
  "header_validate h =
     (if fh_magic h \<noteq> MAGIC then Inl (FileFormat ''invalid magic number'')
      else if fh_version h \<noteq> VERSION then Inl (FileFormat ''unsupported version'') else Inr ())"

definition header_for_compressed :: "nat \<Rightarrow> nat \<Rightarrow> bool \<Rightarrow> u32 \<Rightarrow> file_header" where
  "header_for_compressed num_nodes num_edges has_weights checksum =
     \<lparr>fh_magic = MAGIC, fh_version = COMPRESSED_VERSION, fh_num_nodes = of_nat num_nodes, fh_num_edges = of_nat num_edges,
      fh_has_weights = (if has_weights then 1 else 0), fh_checksum = checksum\<rparr>"

definition header_validate_compressed :: "file_header \<Rightarrow> graph_error + unit" where
  "header_validate_compressed h =
     (if fh_magic h \<noteq> MAGIC then Inl (FileFormat ''invalid magic number'')
      else if fh_version h \<noteq> COMPRESSED_VERSION then Inl (FileFormat ''not a compressed graph file'')
      else if \<not> (unat (fh_num_nodes h) \<le> MAX_NODES \<and> unat (fh_num_edges h) \<le> MAX_EDGES)
      then Inl (FileFormat ''graph dimensions out of bounds'') else Inr ())"

definition header_checksum :: "file_header \<Rightarrow> u32 option" where
  "header_checksum h = (if fh_checksum h = 0 then None else Some (fh_checksum h))"

definition header_to_bytes :: "file_header \<Rightarrow> bytes" where
  "header_to_bytes h = to_le_bytes (fh_magic h) @ to_le_bytes (fh_version h) @ to_le_bytes64 (fh_num_nodes h)
     @ to_le_bytes64 (fh_num_edges h) @ to_le_bytes (fh_has_weights h) @ to_le_bytes (fh_checksum h)"

text \<open>\<^verbatim>\<open>read_u32\<close> and \<^verbatim>\<open>read_u64\<close> of \<^verbatim>\<open>from_bytes\<close>; the length check before them makes them succeed.\<close>

definition read_u32_at :: "bytes \<Rightarrow> nat \<Rightarrow> u32" where
  "read_u32_at bs off = the (from_le_bytes (take 4 (drop off bs)))"

definition read_u64_at :: "bytes \<Rightarrow> nat \<Rightarrow> u64" where
  "read_u64_at bs off = the (from_le_bytes64 (take 8 (drop off bs)))"

definition header_from_bytes :: "bytes \<Rightarrow> graph_error + file_header" where
  "header_from_bytes bs =
     (if length bs < HEADER_SIZE then Inl (FileFormat ''insufficient bytes for header'')
      else Inr \<lparr>fh_magic = read_u32_at bs 0, fh_version = read_u32_at bs 4, fh_num_nodes = read_u64_at bs 8,
                fh_num_edges = read_u64_at bs 16, fh_has_weights = read_u32_at bs 24, fh_checksum = read_u32_at bs 28\<rparr>)"

definition word32_bytes :: "u32 list \<Rightarrow> bytes" where
  "word32_bytes ws = concat (map to_le_bytes ws)"

subsection \<open>The flat format\<close>

definition save_graph :: "(bytes \<Rightarrow> u32) \<Rightarrow> graph \<Rightarrow> (graph_error + bytes) option" where
  "save_graph crc g =
     (if \<not> is_homogeneous g then Some (Inl NotHomogeneous)
      else do {
        offsets \<leftarrow> offsets_slice g;
        edges \<leftarrow> edges_slice g;
        weights \<leftarrow> weights_slice g;
        let offsets_bytes = word_bytes offsets;
        let edges_bytes = word32_bytes edges;
        let header = header_new (g_num_nodes g) (g_num_edges g) (weights \<noteq> None) (Some (crc (offsets_bytes @ edges_bytes)));
        Some (Inr (header_to_bytes header @ offsets_bytes @ edges_bytes
          @ (case weights of None \<Rightarrow> [] | Some w \<Rightarrow> word32_bytes w))) })"

record file_layout =
  fl_num_nodes :: nat
  fl_num_edges :: nat
  fl_offsets :: "nat \<times> nat"
  fl_edges :: "nat \<times> nat"
  fl_weights :: "(nat \<times> nat) option"
  fl_checksum :: "u32 option"

definition checked :: "nat \<Rightarrow> string \<Rightarrow> graph_error + nat" where
  "checked n what = (if n < 2 ^ 64 then Inr n else Inl (FileFormat what))"

definition parse_layout :: "bytes \<Rightarrow> graph_error + file_layout" where
  "parse_layout bs =
     ok_then (header_from_bytes bs) (\<lambda>h.
     ok_then (header_validate h) (\<lambda>_.
     if \<not> unat (fh_num_nodes h) \<le> MAX_NODES then Inl (FileFormat ''num_nodes exceeds maximum'')
     else if \<not> unat (fh_num_edges h) \<le> MAX_EDGES then Inl (FileFormat ''num_edges exceeds maximum'')
     else
       let num_nodes = unat (fh_num_nodes h); num_edges = unat (fh_num_edges h) in
       ok_then (checked ((num_nodes + 1) * 8) ''offsets size overflow'') (\<lambda>offsets_size.
       ok_then (checked (num_edges * 4) ''edges size overflow'') (\<lambda>edges_size.
       ok_then (checked (HEADER_SIZE + offsets_size) ''offsets range overflow'') (\<lambda>offsets_end.
       ok_then (checked (offsets_end + edges_size) ''edges range overflow'') (\<lambda>edges_end.
       ok_then (if fh_has_weights h \<noteq> 0
                then ok_then (checked (num_edges * 4) ''weights size overflow'') (\<lambda>weights_size.
                     ok_then (checked (edges_end + weights_size) ''weights range overflow'') (\<lambda>weights_end.
                     Inr (Some (edges_end, weights_end), weights_end)))
                else Inr (None, edges_end)) (\<lambda>(weights_range, required_size).
       if \<not> required_size \<le> length bs then Inl (FileFormat ''file too small'')
       else if \<not> 8 dvd offsets_end - HEADER_SIZE then Inl (FileFormat ''offsets section length'')
       else if \<not> 4 dvd edges_end - offsets_end then Inl (FileFormat ''edges section length'')
       else if (case weights_range of None \<Rightarrow> False | Some r \<Rightarrow> \<not> 4 dvd snd r - fst r) then Inl (FileFormat ''weights section length'')
       else Inr \<lparr>fl_num_nodes = num_nodes, fl_num_edges = num_edges, fl_offsets = (HEADER_SIZE, offsets_end),
                 fl_edges = (offsets_end, edges_end), fl_weights = weights_range, fl_checksum = header_checksum h\<rparr>)))))))"

definition validate_checksum_if_present :: "(bytes \<Rightarrow> u32) \<Rightarrow> bytes \<Rightarrow> file_layout \<Rightarrow> validation_mode
    \<Rightarrow> (graph_error + unit) option" where
  "validate_checksum_if_present crc bs l mode =
     (if mode \<noteq> Full then Some (Inr ())
      else case fl_checksum l of
          None \<Rightarrow> Some (Inr ())
        | Some expected \<Rightarrow> do {
            offsets \<leftarrow> slice_opt bs (fst (fl_offsets l)) (snd (fl_offsets l));
            edges \<leftarrow> slice_opt bs (fst (fl_edges l)) (snd (fl_edges l));
            Some (if crc (offsets @ edges) \<noteq> expected then Inl (FileFormat ''checksum mismatch'') else Inr ()) })"

text \<open>The sniffed version: an open file shorter than a header is a read error.\<close>

definition sniff_version :: "bytes \<Rightarrow> graph_error + u32" where
  "sniff_version bs =
     (if length bs < HEADER_SIZE then Inl (FileFormat ''failed to read graph header'')
      else ok_then (header_from_bytes (take HEADER_SIZE bs)) (\<lambda>h. Inr (fh_version h)))"

definition load_graph_mmap :: "(bytes \<Rightarrow> u32) \<Rightarrow> nat \<Rightarrow> bytes \<Rightarrow> validation_mode \<Rightarrow> (graph_error + graph) option" where
  "load_graph_mmap crc base bs mode =
     (case ok_then (sniff_version bs) (\<lambda>v.
           if v = COMPRESSED_VERSION then Inl (FileFormat ''compressed graph file'') else parse_layout bs) of
        Inl e \<Rightarrow> Some (Inl e)
      | Inr l \<Rightarrow> do {
          r \<leftarrow> validate_checksum_if_present crc bs l mode;
          (case r of
             Inl e \<Rightarrow> Some (Inl e)
           | Inr _ \<Rightarrow> from_mapped_parts (fl_num_nodes l) (fl_num_nodes l) (fl_num_edges l) base bs
               (fl_offsets l) (fl_edges l) (fl_weights l) mode) })"

text \<open>\<^verbatim>\<open>copy_section\<close>: the bytes of a section as a fresh typed array.\<close>

definition load_graph_from_mmap_with_validation :: "(bytes \<Rightarrow> u32) \<Rightarrow> bytes \<Rightarrow> validation_mode \<Rightarrow> (graph_error + graph) option" where
  "load_graph_from_mmap_with_validation crc bs mode =
     (case parse_layout bs of
        Inl e \<Rightarrow> Some (Inl e)
      | Inr l \<Rightarrow> do {
          r \<leftarrow> validate_checksum_if_present crc bs l mode;
          (case r of
             Inl e \<Rightarrow> Some (Inl e)
           | Inr _ \<Rightarrow> do {
               ob \<leftarrow> slice_opt bs (fst (fl_offsets l)) (snd (fl_offsets l));
               eb \<leftarrow> slice_opt bs (fst (fl_edges l)) (snd (fl_edges l));
               weights \<leftarrow> (case fl_weights l of None \<Rightarrow> Some None
                  | Some w \<Rightarrow> do { wb \<leftarrow> slice_opt bs (fst w) (snd w); Some (Some (words32_of_bytes wb)) });
               Some (from_csr_vecs (fl_num_nodes l) (fl_num_nodes l) (words_of_bytes ob) (words32_of_bytes eb) weights Full) }) })"

definition default_validation_mode :: "nat \<Rightarrow> validation_mode" where
  "default_validation_mode file_size = (if FULL_VALIDATION_THRESHOLD_BYTES < file_size then OffsetsOnly else Full)"

subsection \<open>The compressed format\<close>

text \<open>Saving validates the offsets first, which may raise the graph's proof level.\<close>

definition save_graph_compressed :: "(bytes \<Rightarrow> u32) \<Rightarrow> graph \<Rightarrow> ((graph_error + bytes) \<times> graph) option" where
  "save_graph_compressed crc g =
     (if \<not> is_homogeneous g then Some (Inl NotHomogeneous, g)
      else do {
        (r, g) \<leftarrow> validate_with_mode g OffsetsOnly;
        (case r of
           Inl e \<Rightarrow> Some (Inl e, g)
         | Inr _ \<Rightarrow> do {
             offsets \<leftarrow> offsets_slice g;
             edges \<leftarrow> edges_slice g;
             weights \<leftarrow> weights_slice g;
             ef \<leftarrow> ef_encode offsets;
             svb \<leftarrow> encode_deltas edges;
             let payload = svb_write_into svb (ef_write_into ef []) @ (case weights of None \<Rightarrow> [] | Some w \<Rightarrow> word32_bytes w);
             let header = header_for_compressed (g_num_nodes g) (g_num_edges g) (weights \<noteq> None) (crc payload);
             Some (Inr (header_to_bytes header @ payload), g) }) })"

definition load_graph_compressed_from_bytes :: "(bytes \<Rightarrow> u32) \<Rightarrow> bytes \<Rightarrow> (graph_error + graph) option" where
  "load_graph_compressed_from_bytes crc bs =
     (case ok_then (header_from_bytes bs) (\<lambda>h. ok_then (header_validate_compressed h) (\<lambda>_. Inr h)) of
        Inl e \<Rightarrow> Some (Inl e)
      | Inr h \<Rightarrow>
          let payload = drop HEADER_SIZE bs in
          if (case header_checksum h of None \<Rightarrow> False | Some expected \<Rightarrow> crc payload \<noteq> expected)
          then Some (Inl (FileFormat ''compressed graph checksum mismatch''))
          else
            let num_nodes = unat (fh_num_nodes h); num_edges = unat (fh_num_edges h) in do {
            er \<leftarrow> ef_read_from payload;
            (case er of
               Inl e \<Rightarrow> Some (Inl (CodecFailed e))
             | Inr (ef, ef_bytes) \<Rightarrow> do {
                 rest \<leftarrow> slice_opt payload ef_bytes (length payload);
                 sr \<leftarrow> svb_read_from rest;
                 (case sr of
                    Inl e \<Rightarrow> Some (Inl (CodecFailed e))
                  | Inr (svb, svb_bytes) \<Rightarrow>
                      if ef_len ef \<noteq> num_nodes + 1 then Some (Inl (FileFormat ''offsets section entries''))
                      else if sv_len svb \<noteq> num_edges then Some (Inl (FileFormat ''edges section entries''))
                      else do {
                        raw \<leftarrow> slice_opt payload (ef_bytes + svb_bytes) (length payload);
                        (case (if fh_has_weights h \<noteq> 0
                               then if length raw \<noteq> num_edges * 4 then Inl (FileFormat ''weights section bytes'')
                                    else Inr (Some (words32_of_bytes raw))
                               else if ef_bytes + svb_bytes \<noteq> length payload then Inl (FileFormat ''trailing bytes'') else Inr None) of
                           Inl e \<Rightarrow> Some (Inl e)
                         | Inr weights \<Rightarrow> do {
                             offsets \<leftarrow> ef_decode_into ef (replicate (ef_len ef) 0);
                             edges \<leftarrow> svb_decode_into svb (replicate (sv_len svb) 0);
                             Some (from_csr_vecs num_nodes num_nodes offsets edges weights Full) }) }) }) })"

subsection \<open>Dispatch on the version\<close>

definition load_graph_compressed :: "(bytes \<Rightarrow> u32) \<Rightarrow> bytes \<Rightarrow> validation_mode \<Rightarrow> (graph_error + graph) option" where
  "load_graph_compressed crc bs mode = load_graph_compressed_from_bytes crc bs"

definition load_graph :: "(bytes \<Rightarrow> u32) \<Rightarrow> nat \<Rightarrow> bytes \<Rightarrow> (graph_error + graph) option" where
  "load_graph crc base bs =
     (let mode = default_validation_mode (length bs) in
      case sniff_version bs of
        Inl e \<Rightarrow> Some (Inl e)
      | Inr v \<Rightarrow> if v = COMPRESSED_VERSION then load_graph_compressed crc bs mode else load_graph_mmap crc base bs mode)"

definition load_graph_owned :: "(bytes \<Rightarrow> u32) \<Rightarrow> bytes \<Rightarrow> validation_mode \<Rightarrow> (graph_error + graph) option" where
  "load_graph_owned crc bs mode =
     (case sniff_version bs of
        Inl e \<Rightarrow> Some (Inl e)
      | Inr v \<Rightarrow> if v = COMPRESSED_VERSION then load_graph_compressed crc bs mode else load_graph_from_mmap_with_validation crc bs mode)"

end
