(* ===== verification/Graph_File_Properties.thy ===== *)
theory Graph_File_Properties
  imports Graph_File Csr_Properties Succinct_Properties Vbyte_Properties
begin

section \<open>Saving and loading graphs\<close>

text \<open>
  What was saved loads back, in both formats and through both loaders; whatever loads, from any
  bytes, is a fully validated graph; and no byte string makes a loader panic.
\<close>

subsection \<open>Headers and sections\<close>

lemma length_word32_bytes [simp]: "length (word32_bytes ws) = 4 * length ws"
  by (induction ws) (simp_all add: word32_bytes_def)

lemma words32_of_word32_bytes [simp]: "words32_of_bytes (word32_bytes ws) = ws"
proof (induction ws)
  case (Cons w ws)
  obtain a b c d where w: "to_le_bytes w = [a, b, c, d]" by (simp add: to_le_bytes_def)
  then have "from_le_bytes [a, b, c, d] = Some w" by (metis from_to_le_bytes)
  then show ?case using Cons by (simp add: word32_bytes_def w)
qed (simp add: word32_bytes_def)

lemma length_header [simp]: "length (header_to_bytes h) = HEADER_SIZE"
  by (simp add: header_to_bytes_def HEADER_SIZE_def)

lemma header_roundtrip: "header_from_bytes (header_to_bytes h @ body) = Inr h"
  by (simp add: header_from_bytes_def header_to_bytes_def HEADER_SIZE_def read_u32_at_def read_u64_at_def)

lemma header_sniff: "sniff_version (header_to_bytes h @ body) = Inr (fh_version h)"
  using header_roundtrip [of h "[]"] by (simp add: sniff_version_def)

text \<open>Two graphs with the same arrays: every lookup agrees.\<close>

definition same_csr :: "graph \<Rightarrow> graph \<Rightarrow> bool" where
  "same_csr g g' \<longleftrightarrow> g_num_nodes g' = g_num_nodes g \<and> g_num_dst_nodes g' = g_num_dst_nodes g \<and> g_num_edges g' = g_num_edges g \<and>
     offsets_slice g' = offsets_slice g \<and> edges_slice g' = edges_slice g \<and> weights_slice g' = weights_slice g"

lemma same_csr_lookups:
  assumes "same_csr g g'"
  shows "neighbors g' v = neighbors g v" and "degree g' v = degree g v" and "neighbor_weights g' v = neighbor_weights g v"
proof -
  have r: "neighbor_range g' v = neighbor_range g v" using assms by (simp add: same_csr_def neighbor_range_def)
  show "neighbors g' v = neighbors g v" "degree g' v = degree g v" "neighbor_weights g' v = neighbor_weights g v"
    using assms unfolding same_csr_def neighbors_def degree_def neighbor_weights_def r by simp_all
qed

subsection \<open>The flat layout\<close>

definition layout_for :: "nat \<Rightarrow> nat \<Rightarrow> bool \<Rightarrow> u32 option \<Rightarrow> file_layout" where
  "layout_for n ne hw c = \<lparr>fl_num_nodes = n, fl_num_edges = ne, fl_offsets = (32, 32 + (n + 1) * 8),
     fl_edges = (32 + (n + 1) * 8, 32 + (n + 1) * 8 + ne * 4),
     fl_weights = (if hw then Some (32 + (n + 1) * 8 + ne * 4, 32 + (n + 1) * 8 + ne * 4 + ne * 4) else None), fl_checksum = c\<rparr>"

lemma parse_layout_ok:
  assumes h: "header_from_bytes bs = Inr h" "header_validate h = Inr ()"
    and n: "unat (fh_num_nodes h) \<le> MAX_NODES" "unat (fh_num_edges h) \<le> MAX_EDGES"
    and l: "32 + (unat (fh_num_nodes h) + 1) * 8 + unat (fh_num_edges h) * 4
      + (if fh_has_weights h \<noteq> 0 then unat (fh_num_edges h) * 4 else 0) \<le> length bs"
  shows "parse_layout bs = Inr (layout_for (unat (fh_num_nodes h)) (unat (fh_num_edges h)) (fh_has_weights h \<noteq> 0) (header_checksum h))"
  using assms
  by (cases "fh_has_weights h = 0") (auto simp: parse_layout_def Let_def checked_def MAX_NODES_def MAX_EDGES_def HEADER_SIZE_def layout_for_def)

lemma parse_layout_Inr:
  assumes "parse_layout bs = Inr l"
  shows "\<exists>n ne hw c. l = layout_for n ne hw c \<and> n \<le> MAX_NODES \<and> ne \<le> MAX_EDGES \<and>
    32 + (n + 1) * 8 + ne * 4 + (if hw then ne * 4 else 0) \<le> length bs"
proof -
  obtain h where h: "header_from_bytes bs = Inr h" "header_validate h = Inr ()" "unat (fh_num_nodes h) \<le> MAX_NODES"
    "unat (fh_num_edges h) \<le> MAX_EDGES" "32 + (unat (fh_num_nodes h) + 1) * 8 + unat (fh_num_edges h) * 4
      + (if fh_has_weights h \<noteq> 0 then unat (fh_num_edges h) * 4 else 0) \<le> length bs"
    using assms by (auto simp: parse_layout_def Let_def ok_then_Inr checked_def HEADER_SIZE_def split: if_splits)
  have "l = layout_for (unat (fh_num_nodes h)) (unat (fh_num_edges h)) (fh_has_weights h \<noteq> 0) (header_checksum h)"
    using parse_layout_ok [OF h] assms by simp
  then show ?thesis using h(3-5) by blast
qed

lemma checksum_total:
  assumes "parse_layout bs = Inr l"
  shows "\<exists>r. validate_checksum_if_present crc bs l mode = Some r"
  using parse_layout_Inr [OF assms]
  by (auto simp: validate_checksum_if_present_def layout_for_def slice_opt_def split: option.split)

subsection \<open>The loaders return validated graphs or an error\<close>

lemma load_owned_flat_cases:
  "\<exists>r. load_graph_from_mmap_with_validation crc bs mode = Some r \<and>
    (\<forall>g. r = Inr g \<longrightarrow> graph_typed g \<and> g_proof g = Full)"
proof (cases "parse_layout bs")
  case (Inr l)
  obtain n ne hw c where l: "l = layout_for n ne hw c" "32 + (n + 1) * 8 + ne * 4 + (if hw then ne * 4 else 0) \<le> length bs"
    using parse_layout_Inr [OF Inr] by blast
  obtain r where r: "validate_checksum_if_present crc bs l mode = Some r" using checksum_total [OF Inr] by blast
  show ?thesis
  proof (cases r)
    case (Inl e)
    then show ?thesis using Inr r by (simp add: load_graph_from_mmap_with_validation_def)
  next
    case ok: (Inr u)
    obtain n' os es ws where "load_graph_from_mmap_with_validation crc bs mode = Some (from_csr_vecs n' n' os es ws Full)"
      using Inr r ok l by (cases hw) (auto simp: load_graph_from_mmap_with_validation_def layout_for_def slice_opt_def)
    then show ?thesis using from_csr_vecs_typed by blast
  qed
qed (simp add: load_graph_from_mmap_with_validation_def)

lemma from_mapped_total:
  assumes "parse_layout bs = Inr l"
  shows "\<exists>r. from_mapped_parts (fl_num_nodes l) (fl_num_nodes l) (fl_num_edges l) base bs
    (fl_offsets l) (fl_edges l) (fl_weights l) mode = Some r"
proof -
  obtain n ne hw c where l: "l = layout_for n ne hw c" "32 + (n + 1) * 8 + ne * 4 + (if hw then ne * 4 else 0) \<le> length bs"
    using parse_layout_Inr [OF assms] by blast
  define g0 where "g0 = \<lparr>g_num_nodes = n, g_num_dst_nodes = n, g_num_edges = ne,
    g_storage = Mapped base bs (fl_offsets l) (fl_edges l) (fl_weights l), g_timestamps = None, g_proof = HeaderOnly\<rparr>"
  obtain offs where o: "offsets_slice g0 = Some offs"
    using l by (auto simp: offsets_slice_def g0_def layout_for_def slice_opt_def)
  obtain es where e: "edges_slice g0 = Some es"
    using l by (auto simp: edges_slice_def g0_def layout_for_def slice_opt_def)
  obtain ws where w: "weights_slice g0 = Some ws"
    using l by (cases hw) (auto simp: weights_slice_def g0_def layout_for_def slice_opt_def)
  have v: "validate_with_mode g0 mode \<noteq> None"
    using o e by (auto simp: validate_with_mode_def Let_def split: sum.split)
  have f: "fl_num_nodes l = n" "fl_num_edges l = ne" by (simp_all add: l(1) layout_for_def)
  have tl: "\<exists>r. (do { offsets \<leftarrow> offsets_slice g0; weights \<leftarrow> weights_slice g0;
      (case check_shape n n offsets ne (map_option length weights) of Inl e \<Rightarrow> Some (Inl e)
       | Inr _ \<Rightarrow> do { (r, g) \<leftarrow> validate_with_mode g0 mode; Some (case r of Inl e \<Rightarrow> Inl e | Inr _ \<Rightarrow> Inr g) }) }) = Some r"
    using o w v by (auto split: sum.split)
  show ?thesis unfolding from_mapped_parts_def f Let_def g0_def [symmetric] using tl by (auto split: sum.split)
qed

lemma load_mmap_cases:
  "\<exists>r. load_graph_mmap crc base bs mode = Some r \<and> (\<forall>g. r = Inr g \<longrightarrow> graph_typed g \<and> mode \<le> g_proof g)"
proof (cases "ok_then (sniff_version bs) (\<lambda>v. if v = COMPRESSED_VERSION then Inl (FileFormat ''compressed graph file'') else parse_layout bs)")
  case (Inr l)
  then have p: "parse_layout bs = Inr l" by (auto simp: ok_then_Inr split: if_splits)
  obtain r where r: "validate_checksum_if_present crc bs l mode = Some r" using checksum_total [OF p] by blast
  show ?thesis
  proof (cases r)
    case ok: (Inr u)
    then have e: "load_graph_mmap crc base bs mode = from_mapped_parts (fl_num_nodes l) (fl_num_nodes l) (fl_num_edges l) base bs
        (fl_offsets l) (fl_edges l) (fl_weights l) mode"
      using Inr r by (simp add: load_graph_mmap_def)
    then show ?thesis using from_mapped_total [OF p, of base mode] from_mapped_typed by (metis sum.inject(2))
  qed (use Inr r in \<open>simp add: load_graph_mmap_def\<close>)
qed (simp add: load_graph_mmap_def)

lemma load_compressed_cases:
  assumes small: "length bs < 2 ^ 50"
  shows "\<exists>r. load_graph_compressed_from_bytes crc bs = Some r \<and> (\<forall>g. r = Inr g \<longrightarrow> graph_typed g \<and> g_proof g = Full)"
proof -
  define payload where "payload = drop HEADER_SIZE bs"
  have sp: "length payload < 2 ^ 50" using small by (simp add: payload_def)
  obtain er where er: "ef_read_from payload = Some er" using ef_read_total [OF sp] by blast
  have fin: "\<exists>r. Some (from_csr_vecs n n os es ws Full) = Some r \<and> (\<forall>g. r = Inr g \<longrightarrow> graph_typed g \<and> g_proof g = Full)" for n os es ws
    using from_csr_vecs_typed by blast
  show ?thesis
  proof (cases er)
    case (Inl e)
    then show ?thesis using er
      by (auto simp: load_graph_compressed_from_bytes_def Let_def split: sum.split simp flip: payload_def)
  next
    case (Inr p)
    then obtain ef k where ef: "ef_read_from payload = Some (Inr (ef, k))" using er by (cases p) auto
    obtain vs where vs: "ef_codes ef vs" using ef_read_ok(2) [OF ef sp] by blast
    have k: "k \<le> length payload" by (rule ef_read_ok(1) [OF ef sp])
    have dec: "ef_decode_into ef (replicate (ef_len ef) 0) = Some vs" using ef_to_vec_codes [OF vs] by (simp add: ef_to_vec_def)
    define rest where "rest = take (length payload - k) (drop k payload)"
    have sl: "slice_opt payload k (length payload) = Some rest" using k by (simp add: slice_opt_def rest_def)
    obtain sr where sr: "svb_read_from rest = Some sr" "\<forall>sv m. sr = Inr (sv, m) \<longrightarrow> svb_wf sv \<and> m \<le> length rest"
      using svb_read_cases by blast
    show ?thesis
    proof (cases sr)
      case (Inl e)
      then show ?thesis using ef sl sr(1)
        by (auto simp: load_graph_compressed_from_bytes_def Let_def split: sum.split simp flip: payload_def)
    next
      case (Inr q)
      then obtain sv m where sv: "svb_read_from rest = Some (Inr (sv, m))" "svb_wf sv" "m \<le> length rest"
        using sr by (cases q) auto
      obtain es where es: "svb_decode_into sv (replicate (sv_len sv) 0) = Some es"
        using svb_wf_decodes [OF sv(2)] by (auto simp: svb_decode_def)
      have "k + m \<le> length payload" using sv(3) k by (simp add: rest_def)
      then obtain raw where raw: "slice_opt payload (k + m) (length payload) = Some raw" by (simp add: slice_opt_def)
      show ?thesis using ef sl sv(1) raw dec es fin
        by (auto simp: load_graph_compressed_from_bytes_def Let_def split: sum.split simp flip: payload_def)
    qed
  qed
qed


subsection \<open>Round trips\<close>

lemma weights_tail: "length (case ws of None \<Rightarrow> [] | Some w \<Rightarrow> word32_bytes w) = (case ws of None \<Rightarrow> 0 | Some w \<Rightarrow> 4 * length w)"
  by (cases ws) simp_all

text \<open>A saved flat file: its layout and the bytes of its sections.\<close>

definition flat_body :: "edge_offset list \<Rightarrow> node_id list \<Rightarrow> f32_bits list option \<Rightarrow> bytes" where
  "flat_body offs es ws = word_bytes offs @ word32_bytes es @ (case ws of None \<Rightarrow> [] | Some w \<Rightarrow> word32_bytes w)"

definition flat_header :: "(bytes \<Rightarrow> u32) \<Rightarrow> nat \<Rightarrow> edge_offset list \<Rightarrow> node_id list \<Rightarrow> bool \<Rightarrow> file_header" where
  "flat_header crc n offs es hw = header_new n (length es) hw (Some (crc (word_bytes offs @ word32_bytes es)))"

lemma flat_layout:
  assumes "length offs = n + 1" and "n \<le> MAX_NODES" and "length es \<le> MAX_EDGES" and "\<forall>w. ws = Some w \<longrightarrow> length w = length es"
  shows "parse_layout (header_to_bytes (flat_header crc n offs es (ws \<noteq> None)) @ flat_body offs es ws) =
    Inr (layout_for n (length es) (ws \<noteq> None) (header_checksum (flat_header crc n offs es (ws \<noteq> None))))"
proof -
  define h where "h = flat_header crc n offs es (ws \<noteq> None)"
  have f: "unat (fh_num_nodes h) = n" "unat (fh_num_edges h) = length es" "fh_has_weights h \<noteq> 0 \<longleftrightarrow> ws \<noteq> None"
    "header_validate h = Inr ()"
    using assms(2,3) by (simp_all add: h_def flat_header_def header_new_def header_validate_def MAX_NODES_def MAX_EDGES_def)
  have "length (header_to_bytes h @ flat_body offs es ws) = 32 + (n + 1) * 8 + length es * 4 + (if fh_has_weights h \<noteq> 0 then length es * 4 else 0)"
    using assms(1,4) f(3) by (cases ws) (simp_all add: flat_body_def HEADER_SIZE_def)
  then show ?thesis
    using parse_layout_ok [OF header_roundtrip [of h "flat_body offs es ws"] f(4)] assms(2,3) f(1,2,3)
    unfolding h_def [symmetric] by simp
qed

lemma slice_middle: "length pre = a \<Longrightarrow> b = a + length xs \<Longrightarrow> slice_opt (pre @ xs @ post) a b = Some xs"
  by (auto simp: slice_opt_def)

lemma flat_slices:
  assumes "length offs = n + 1" and "\<forall>w. ws = Some w \<longrightarrow> length w = length es"
    and bs_def: "bs = header_to_bytes h @ flat_body offs es ws"
  shows "slice_opt bs 32 (32 + (n + 1) * 8) = Some (word_bytes offs)"
    and "slice_opt bs (32 + (n + 1) * 8) (32 + (n + 1) * 8 + length es * 4) = Some (word32_bytes es)"
    and "ws = Some w \<Longrightarrow> slice_opt bs (32 + (n + 1) * 8 + length es * 4) (32 + (n + 1) * 8 + length es * 4 + length es * 4)
      = Some (word32_bytes w)"
proof -
  show "slice_opt bs 32 (32 + (n + 1) * 8) = Some (word_bytes offs)"
    using assms(1) unfolding bs_def flat_body_def by (intro slice_middle) (simp_all add: HEADER_SIZE_def)
  have "bs = (header_to_bytes h @ word_bytes offs) @ word32_bytes es @ (case ws of None \<Rightarrow> [] | Some w \<Rightarrow> word32_bytes w)"
    by (simp add: bs_def flat_body_def)
  then show "slice_opt bs (32 + (n + 1) * 8) (32 + (n + 1) * 8 + length es * 4) = Some (word32_bytes es)"
    using assms(1) by (simp only:) (intro slice_middle, simp_all add: HEADER_SIZE_def)
  assume w: "ws = Some w"
  then have "bs = (header_to_bytes h @ word_bytes offs @ word32_bytes es) @ word32_bytes w @ []"
    by (simp add: bs_def flat_body_def)
  then show "slice_opt bs (32 + (n + 1) * 8 + length es * 4) (32 + (n + 1) * 8 + length es * 4 + length es * 4) = Some (word32_bytes w)"
    using assms(1,2) w by (simp only:) (intro slice_middle, simp_all add: HEADER_SIZE_def)
qed

lemma flat_checksum:
  assumes "length offs = n + 1" and "\<forall>w. ws = Some w \<longrightarrow> length w = length es"
  shows "validate_checksum_if_present crc (header_to_bytes (flat_header crc n offs es hw) @ flat_body offs es ws)
    (layout_for n (length es) hw (header_checksum (flat_header crc n offs es hw))) mode = Some (Inr ())"
  using flat_slices(1,2) [OF assms refl, of "flat_header crc n offs es hw"]
  by (simp add: validate_checksum_if_present_def layout_for_def header_checksum_def flat_header_def header_new_def)

text \<open>A graph that may be stored: typed, one id space, every destination below the node count.\<close>

definition storable :: "graph \<Rightarrow> edge_offset list \<Rightarrow> node_id list \<Rightarrow> f32_bits list option \<Rightarrow> bool" where
  "storable g offs es ws \<longleftrightarrow> graph_typed g \<and> g_proof g = Full \<and> is_homogeneous g \<and> g_num_edges g \<le> MAX_EDGES \<and>
     offsets_slice g = Some offs \<and> edges_slice g = Some es \<and> weights_slice g = Some ws"

lemma storable_facts:
  assumes "storable g offs es ws"
  shows "length offs = g_num_nodes g + 1" "g_num_nodes g \<le> MAX_NODES" "length es = g_num_edges g" "length es \<le> MAX_EDGES"
    "\<forall>w. ws = Some w \<longrightarrow> length w = length es" "offs ! 0 = 0" "offs ! g_num_nodes g = of_nat (g_num_edges g)" "sorted offs"
    "\<forall>d\<in>set es. unat d < g_num_nodes g" "offs \<noteq> []"
  using assms by (auto simp: storable_def graph_typed_def is_homogeneous_def)

lemma storable_vecs:
  assumes "storable g offs es ws"
  shows "\<exists>g'. from_csr_vecs (g_num_nodes g) (g_num_nodes g) offs es ws Full = Inr g' \<and> same_csr g g' \<and> g_proof g' = Full"
proof -
  note f = storable_facts [OF assms]
  define g' where "g' = \<lparr>g_num_nodes = g_num_nodes g, g_num_dst_nodes = g_num_nodes g, g_num_edges = length es,
    g_storage = Owned offs es ws, g_timestamps = None, g_proof = Full\<rparr>"
  have "check_shape (g_num_nodes g) (g_num_nodes g) offs (length es) (map_option length ws) = Inr ()"
    using f by (auto simp: check_shape_ok)
  moreover have "check_monotone offs = Inr ()" "check_destinations es (g_num_nodes g) = Inr ()"
    using f by (simp_all add: check_monotone_ok check_destinations_ok)
  ultimately have "from_csr_vecs (g_num_nodes g) (g_num_nodes g) offs es ws Full = Inr g'"
    using f(10) by (simp add: from_csr_vecs_def g'_def)
  moreover have "same_csr g g'" using assms f(3)
    by (simp add: same_csr_def g'_def storable_def is_homogeneous_def offsets_slice_def edges_slice_def weights_slice_def)
  ultimately show ?thesis by (auto simp: g'_def)
qed

lemma save_flat:
  assumes "storable g offs es ws"
  shows "save_graph crc g = Some (Inr (header_to_bytes (flat_header crc (g_num_nodes g) offs es (ws \<noteq> None)) @ flat_body offs es ws))"
  using assms storable_facts(3) [OF assms] by (simp add: save_graph_def storable_def Let_def flat_header_def flat_body_def)

lemma load_owned_flat:
  assumes st: "storable g offs es ws"
  shows "\<exists>g'. load_graph_owned crc (header_to_bytes (flat_header crc (g_num_nodes g) offs es (ws \<noteq> None)) @ flat_body offs es ws) mode
    = Some (Inr g') \<and> same_csr g g' \<and> g_proof g' = Full"
proof -
  note f = storable_facts [OF st]
  define n where "n = g_num_nodes g"
  define h where "h = flat_header crc n offs es (ws \<noteq> None)"
  define bs where "bs = header_to_bytes h @ flat_body offs es ws"
  obtain g' where g': "from_csr_vecs n n offs es ws Full = Inr g'" "same_csr g g'" "g_proof g' = Full"
    using storable_vecs [OF st] by (auto simp: n_def)
  have p: "parse_layout bs = Inr (layout_for n (length es) (ws \<noteq> None) (header_checksum h))"
    using flat_layout [of offs n es ws crc] f by (simp add: bs_def h_def n_def)
  have c: "validate_checksum_if_present crc bs (layout_for n (length es) (ws \<noteq> None) (header_checksum h)) mode = Some (Inr ())"
    using flat_checksum [of offs n ws es crc] f by (simp add: bs_def h_def n_def)
  have sl: "slice_opt bs 32 (32 + (n + 1) * 8) = Some (word_bytes offs)"
    "slice_opt bs (32 + (n + 1) * 8) (32 + (n + 1) * 8 + length es * 4) = Some (word32_bytes es)"
    "\<And>w. ws = Some w \<Longrightarrow> slice_opt bs (32 + (n + 1) * 8 + length es * 4) (32 + (n + 1) * 8 + length es * 4 + length es * 4) = Some (word32_bytes w)"
    using flat_slices [of offs n ws es bs h] f by (auto simp: bs_def n_def)
  have v: "sniff_version bs = Inr VERSION" by (simp add: bs_def header_sniff h_def flat_header_def header_new_def)
  have "load_graph_from_mmap_with_validation crc bs mode = Some (Inr g')"
    using p c sl g'(1) by (cases ws) (simp_all add: load_graph_from_mmap_with_validation_def layout_for_def)
  then have "load_graph_owned crc bs mode = Some (Inr g')"
    using v by (simp add: load_graph_owned_def VERSION_def COMPRESSED_VERSION_def)
  then show ?thesis using g'(2,3) unfolding bs_def h_def n_def by blast
qed


lemma validate_success:
  assumes "offsets_slice g = Some offs" and "edges_slice g = Some es" and "sorted offs" and "\<forall>d\<in>set es. unat d < g_num_dst_nodes g"
    and "g_proof g = HeaderOnly"
  shows "validate_with_mode g mode = Some (Inr (), g\<lparr>g_proof := mode\<rparr>)"
proof -
  have c: "check_monotone offs = Inr ()" "check_destinations es (g_num_dst_nodes g) = Inr ()"
    using assms(3,4) by (simp_all add: check_monotone_ok check_destinations_ok)
  have m: "max HeaderOnly OffsetsOnly = OffsetsOnly" "max OffsetsOnly Full = Full" "max HeaderOnly Full = Full"
    by (simp_all add: max_def less_eq_validation_mode_def)
  have e: "g\<lparr>g_proof := HeaderOnly\<rparr> = g" using assms(5) by simp
  show ?thesis using assms c by (cases mode) (simp_all add: validate_with_mode_def Let_def m e)
qed

lemma load_mapped_flat:
  assumes st: "storable g offs es ws" and base: "8 dvd base"
  shows "\<exists>g'. load_graph_mmap crc base (header_to_bytes (flat_header crc (g_num_nodes g) offs es (ws \<noteq> None)) @ flat_body offs es ws) mode
    = Some (Inr g') \<and> same_csr g g' \<and> g_proof g' = mode"
proof -
  note f = storable_facts [OF st]
  define n where "n = g_num_nodes g"
  define h where "h = flat_header crc n offs es (ws \<noteq> None)"
  define bs where "bs = header_to_bytes h @ flat_body offs es ws"
  define l where "l = layout_for n (length es) (ws \<noteq> None) (header_checksum h)"
  have p: "parse_layout bs = Inr l"
    using flat_layout [of offs n es ws crc] f by (simp add: bs_def h_def n_def l_def)
  have c: "validate_checksum_if_present crc bs l mode = Some (Inr ())"
    using flat_checksum [of offs n ws es crc] f by (simp add: bs_def h_def n_def l_def)
  have sl: "slice_opt bs 32 (32 + (n + 1) * 8) = Some (word_bytes offs)"
    "slice_opt bs (32 + (n + 1) * 8) (32 + (n + 1) * 8 + length es * 4) = Some (word32_bytes es)"
    "\<And>w. ws = Some w \<Longrightarrow> slice_opt bs (32 + (n + 1) * 8 + length es * 4) (32 + (n + 1) * 8 + length es * 4 + length es * 4) = Some (word32_bytes w)"
    using flat_slices [of offs n ws es bs h] f by (auto simp: bs_def n_def)
  have v: "sniff_version bs = Inr VERSION" by (simp add: bs_def header_sniff h_def flat_header_def header_new_def)
  define g0 where "g0 = \<lparr>g_num_nodes = n, g_num_dst_nodes = n, g_num_edges = length es,
    g_storage = Mapped base bs (fl_offsets l) (fl_edges l) (fl_weights l), g_timestamps = None, g_proof = HeaderOnly\<rparr>"
  have s0: "offsets_slice g0 = Some offs" "edges_slice g0 = Some es" "weights_slice g0 = Some ws"
    using sl by (cases ws; simp add: g0_def l_def layout_for_def offsets_slice_def edges_slice_def weights_slice_def)+
  have lb: "length bs = 32 + (n + 1) * 8 + length es * 4 + (if ws \<noteq> None then length es * 4 else 0)"
    using f(1,5) by (cases ws) (simp_all add: bs_def flat_body_def HEADER_SIZE_def n_def)
  have b4: "4 dvd base" using base by (rule dvd_trans [rotated]) simp
  have rng: "check_range 8 base (length bs) (fl_offsets l) ''offsets'' = Inr ()" "check_range 4 base (length bs) (fl_edges l) ''edges'' = Inr ()"
    "\<And>w. fl_weights l = Some w \<Longrightarrow> check_range 4 base (length bs) w ''weights'' = Inr () \<and> snd w - fst w = snd (fl_edges l) - fst (fl_edges l)"
    using base b4 lb by (auto simp: check_range_ok l_def layout_for_def split: if_splits)
  have shape: "check_shape n n offs (length es) (map_option length ws) = Inr ()"
    using f by (auto simp: check_shape_ok n_def)
  have val: "validate_with_mode g0 mode = Some (Inr (), g0\<lparr>g_proof := mode\<rparr>)"
    using validate_success [OF s0(1,2) f(8)] f(9) by (simp add: g0_def n_def)
  have "from_mapped_parts n n (length es) base bs (fl_offsets l) (fl_edges l) (fl_weights l) mode = Some (Inr (g0\<lparr>g_proof := mode\<rparr>))"
  proof -
    have ne: "fst (fl_offsets l) \<noteq> snd (fl_offsets l)" "snd (fl_edges l) - fst (fl_edges l) = length es * 4"
      by (simp_all add: l_def layout_for_def)
    have w: "(case fl_weights l of None \<Rightarrow> Inr () | Some w \<Rightarrow> ok_then (check_range 4 base (length bs) w ''weights'') (\<lambda>_.
        if snd w - fst w \<noteq> snd (fl_edges l) - fst (fl_edges l) then Inl (SectionLength ''weights'') else Inr ())) = Inr ()"
      using rng(3) by (auto split: option.split)
    show ?thesis unfolding from_mapped_parts_def rng(1,2) w ok_then_simps Let_def g0_def [symmetric]
      using ne s0 shape val by simp
  qed
  moreover have "fl_num_nodes l = n" "fl_num_edges l = length es" by (simp_all add: l_def layout_for_def)
  ultimately have "load_graph_mmap crc base bs mode = Some (Inr (g0\<lparr>g_proof := mode\<rparr>))"
    using v p c by (simp add: load_graph_mmap_def VERSION_def COMPRESSED_VERSION_def)
  moreover have "same_csr g (g0\<lparr>g_proof := mode\<rparr>)"
  proof -
    have keep: "offsets_slice (g0\<lparr>g_proof := mode\<rparr>) = offsets_slice g0" "edges_slice (g0\<lparr>g_proof := mode\<rparr>) = edges_slice g0"
      "weights_slice (g0\<lparr>g_proof := mode\<rparr>) = weights_slice g0"
      by (simp_all add: offsets_slice_def edges_slice_def weights_slice_def)
    show ?thesis using st f(3) unfolding same_csr_def keep s0 by (simp add: storable_def is_homogeneous_def g0_def n_def)
  qed
  ultimately show ?thesis unfolding bs_def h_def n_def by auto
qed

lemma compressed_roundtrip_aux:
  assumes st: "storable g offs es ws"
  shows "\<exists>bs g'. save_graph_compressed crc g = Some (Inr bs, g) \<and> sniff_version bs = Inr COMPRESSED_VERSION \<and>
    load_graph_compressed_from_bytes crc bs = Some (Inr g') \<and> same_csr g g' \<and> g_proof g' = Full"
proof -
  note f = storable_facts [OF st]
  define n where "n = g_num_nodes g"
  define tail where "tail = (case ws of None \<Rightarrow> [] | Some w \<Rightarrow> word32_bytes w)"
  have lt: "length tail \<le> 4 * length es" using f(5) by (cases ws) (simp_all add: tail_def)
  obtain sv where sv: "encode_deltas es = Some sv" "svb_decode sv = Some es"
    "svb_read_from (svb_write_into sv [] @ tail) = Some (Inr (sv, length (svb_write_into sv [])))"
    "length (svb_write_into sv []) \<le> 28 + 5 * length es"
    using svb_codec [of es tail] lt f(4) by (auto simp: MAX_EDGES_def)
  have lsv: "sv_len sv = length es"
    using sv(1) by (rule encode_deltas_len)
  obtain ef where ef: "ef_encode offs = Some ef" "ef_to_vec ef = Some offs"
    "ef_read_from (ef_write_into ef [] @ svb_write_into sv [] @ tail) = Some (Inr (ef, length (ef_write_into ef [])))"
    using ef_codec [OF f(8), of "svb_write_into sv [] @ tail"] sv(4) lt f(1,2,4) by (auto simp: MAX_EDGES_def MAX_NODES_def)
  have lef: "ef_len ef = n + 1" using ef(1) f(1) by (auto simp: ef_encode_def Let_def n_def split: Option.bind_splits)
  define payload where "payload = ef_write_into ef [] @ svb_write_into sv [] @ tail"
  define h where "h = header_for_compressed n (length es) (ws \<noteq> None) (crc payload)"
  define bs where "bs = header_to_bytes h @ payload"
  obtain g' where g': "from_csr_vecs n n offs es ws Full = Inr g'" "same_csr g g'" "g_proof g' = Full"
    using storable_vecs [OF st] by (auto simp: n_def)
  have val: "validate_with_mode g OffsetsOnly = Some (Inr (), g)"
    using st by (simp add: storable_def validate_with_mode_def)
  have save: "save_graph_compressed crc g = Some (Inr bs, g)"
    using st val ef(1) sv(1) f(3) svb_write_append [of sv "ef_write_into ef []"]
    by (simp add: save_graph_compressed_def storable_def Let_def bs_def h_def payload_def tail_def n_def)
  have hd: "header_from_bytes bs = Inr h" "drop HEADER_SIZE bs = payload" by (simp_all add: bs_def header_roundtrip)
  have hv: "header_validate_compressed h = Inr ()" "unat (fh_num_nodes h) = n" "unat (fh_num_edges h) = length es"
    "fh_has_weights h \<noteq> 0 \<longleftrightarrow> ws \<noteq> None" "fh_checksum h = crc payload"
    using f(2,4) by (simp_all add: h_def header_for_compressed_def header_validate_compressed_def MAX_NODES_def MAX_EDGES_def n_def)
  have sl: "slice_opt payload (length (ef_write_into ef [])) (length payload) = Some (svb_write_into sv [] @ tail)"
    "slice_opt payload (length (ef_write_into ef []) + length (svb_write_into sv [])) (length payload) = Some tail"
    by (simp_all add: payload_def slice_opt_def)
  have wt: "ws = None \<Longrightarrow> length (ef_write_into ef []) + length (svb_write_into sv []) = length payload"
    "\<And>w. ws = Some w \<Longrightarrow> length tail = length es * 4 \<and> words32_of_bytes tail = w"
    using f(5) by (simp_all add: tail_def payload_def)
  have dec: "ef_decode_into ef (replicate (n + 1) 0) = Some offs" "svb_decode_into sv (replicate (length es) 0) = Some es"
    using ef(2) sv(2) lef lsv by (simp_all add: ef_to_vec_def svb_decode_def)
  have "load_graph_compressed_from_bytes crc bs = Some (Inr g')"
    unfolding load_graph_compressed_from_bytes_def hd hv ok_then_simps sum.case Let_def header_checksum_def
    using ef(3) [folded payload_def] sv(3) sl lef lsv dec wt g'(1) hv(4) by (cases ws) simp_all
  moreover have "sniff_version bs = Inr COMPRESSED_VERSION" by (simp add: bs_def header_sniff h_def header_for_compressed_def)
  ultimately show ?thesis using save g'(2,3) by blast
qed


subsection \<open>Properties\<close>

text \<open>C21 (roundtrip). A validated graph saved in either format loads back, through the owned, the mapped and
  the dispatching loader, to a graph with the same arrays, weights included; the owned loads are fully
  validated again, the mapped load as far as was asked for.\<close>

theorem save_load_roundtrip:
  assumes "storable g offs es ws" and "8 dvd base"
  shows "\<exists>flat packed. save_graph crc g = Some (Inr flat) \<and> save_graph_compressed crc g = Some (Inr packed, g) \<and>
    (\<exists>g'. load_graph_owned crc flat mode = Some (Inr g') \<and> same_csr g g' \<and> g_proof g' = Full) \<and>
    (\<exists>g'. load_graph_mmap crc base flat mode = Some (Inr g') \<and> same_csr g g' \<and> g_proof g' = mode) \<and>
    (\<exists>g'. load_graph crc base flat = Some (Inr g') \<and> same_csr g g' \<and> g_proof g' = default_validation_mode (length flat)) \<and>
    (\<exists>g'. load_graph_owned crc packed mode = Some (Inr g') \<and> same_csr g g' \<and> g_proof g' = Full) \<and>
    (\<exists>g'. load_graph crc base packed = Some (Inr g') \<and> same_csr g g' \<and> g_proof g' = Full) \<and>
    (\<exists>e. load_graph_mmap crc base packed mode = Some (Inl e))"
proof -
  define h where "h = flat_header crc (g_num_nodes g) offs es (ws \<noteq> None)"
  define flat where "flat = header_to_bytes h @ flat_body offs es ws"
  have v: "sniff_version flat = Inr VERSION" by (simp add: flat_def header_sniff h_def flat_header_def header_new_def)
  have l: "load_graph crc base flat = load_graph_mmap crc base flat (default_validation_mode (length flat))"
    using v by (simp add: load_graph_def VERSION_def COMPRESSED_VERSION_def)
  obtain packed g' where c: "save_graph_compressed crc g = Some (Inr packed, g)" "sniff_version packed = Inr COMPRESSED_VERSION"
    "load_graph_compressed_from_bytes crc packed = Some (Inr g')" "same_csr g g'" "g_proof g' = Full"
    using compressed_roundtrip_aux [OF assms(1), of crc] by blast
  have "load_graph_owned crc packed mode = Some (Inr g')" "load_graph crc base packed = Some (Inr g')"
    "\<exists>e. load_graph_mmap crc base packed mode = Some (Inl e)"
    using c(2,3) by (simp_all add: load_graph_owned_def load_graph_def load_graph_compressed_def load_graph_mmap_def)
  moreover have "save_graph crc g = Some (Inr flat)" using save_flat [OF assms(1)] by (simp add: flat_def h_def)
  moreover note load_owned_flat [OF assms(1), of crc mode, folded h_def, folded flat_def]
    load_mapped_flat [OF assms, of crc mode, folded h_def, folded flat_def]
    load_mapped_flat [OF assms, of crc "default_validation_mode (length flat)", folded h_def, folded flat_def, folded l]
  ultimately show ?thesis using c(1,4,5) by blast
qed

theorem save_load_roundtrip_witness:
  "\<exists>flat g'. save_graph (\<lambda>_. 7) (from_trusted_parts 2 2 [0, 2, 2] [0, 1] (Some [9, 8])) = Some (Inr flat) \<and>
    load_graph (\<lambda>_. 7) 4096 flat = Some (Inr g') \<and> neighbors g' 0 = Some [0, 1] \<and> neighbor_weights g' 0 = Some (Some [9, 8])"
proof -
  define g where "g = from_trusted_parts 2 2 [0, 2, 2] [0, 1] (Some [9, 8])"
  have "storable g [0, 2, 2] [0, 1] (Some [9, 8])"
    by (simp add: storable_def graph_typed_def g_def from_trusted_parts_def offsets_slice_def edges_slice_def weights_slice_def
        is_homogeneous_def MAX_NODES_def MAX_EDGES_def)
  then obtain flat g' where "save_graph (\<lambda>_. 7) g = Some (Inr flat)" "load_graph (\<lambda>_. 7) 4096 flat = Some (Inr g')" "same_csr g g'"
    using save_load_roundtrip [of g "[0, 2, 2]" "[0, 1]" "Some [9, 8]" 4096 "\<lambda>_. 7" Full] by auto
  moreover have "neighbors g 0 = Some [0, 1]" "neighbor_weights g 0 = Some (Some [9, 8])"
    by (simp_all add: g_def from_trusted_parts_def neighbors_def neighbor_weights_def neighbor_range_def offsets_slice_def
        edges_slice_def weights_slice_def neighbor_range_guarded_def nth_opt_def slice_opt_def)
  ultimately show ?thesis using same_csr_lookups [of g g'] by (metis g_def)
qed

text \<open>C22 (safety). No byte string makes a loader panic; what the owned loaders accept, in either format, is
  typed and fully validated, and what the mapped loader accepts is typed and validated as far as asked.\<close>

theorem loads_are_validated:
  assumes "length bs < 2 ^ 50"
  shows "(\<exists>r. load_graph_owned crc bs mode = Some r \<and> (\<forall>g. r = Inr g \<longrightarrow> graph_typed g \<and> g_proof g = Full)) \<and>
    (\<exists>r. load_graph_mmap crc base bs mode = Some r \<and> (\<forall>g. r = Inr g \<longrightarrow> graph_typed g \<and> mode \<le> g_proof g)) \<and>
    (\<exists>r. load_graph crc base bs = Some r \<and> (\<forall>g. r = Inr g \<longrightarrow> graph_typed g \<and> OffsetsOnly \<le> g_proof g))"
proof -
  note A = load_owned_flat_cases [of crc bs mode] and B = load_mmap_cases [of crc base bs mode]
    and C = load_compressed_cases [OF assms, of crc] and D = load_mmap_cases [of crc base bs "default_validation_mode (length bs)"]
  have "OffsetsOnly \<le> default_validation_mode (length bs)" by (simp add: default_validation_mode_def)
  then have E: "\<exists>r. load_graph_mmap crc base bs (default_validation_mode (length bs)) = Some r \<and> (\<forall>g. r = Inr g \<longrightarrow> graph_typed g \<and> OffsetsOnly \<le> g_proof g)"
    using D order_trans by blast
  have F: "\<exists>r. load_graph_compressed_from_bytes crc bs = Some r \<and> (\<forall>g. r = Inr g \<longrightarrow> graph_typed g \<and> OffsetsOnly \<le> g_proof g)"
    using C by fastforce
  show ?thesis
  proof (cases "sniff_version bs")
    case (Inl e)
    then show ?thesis using B by (simp add: load_graph_owned_def load_graph_def)
  next
    case (Inr v)
    then show ?thesis using A B C E F
      by (cases "v = COMPRESSED_VERSION") (simp_all add: load_graph_owned_def load_graph_def load_graph_compressed_def Let_def)
  qed
qed

theorem loads_are_validated_witness:
  "\<exists>r. load_graph (\<lambda>_. 0) 0 (replicate 100 0) = Some r \<and> (\<forall>g. r = Inr g \<longrightarrow> graph_typed g)"
  using loads_are_validated [of "replicate 100 0" "\<lambda>_. 0" Full 0] by auto

end
