(* ===== verification/Reorder.thy ===== *)
theory Reorder
  imports Csr_Build
begin

section \<open>Rabbit order\<close>

text \<open>
  Models \<^verbatim>\<open>crates/aethergraph-core/src/graph/reorder.rs\<close>: the dendrogram with its path-compressing
  root and its walk, the transpose, the aggregation loop, the permutation of a graph, and the
  partition-aligned batches. Vertex ids inside the dendrogram are \<open>nat\<close> below \<open>NONE_ID\<close>; edge
  weights and degrees, sums of at most two counts per edge, are \<open>nat\<close>; the gain is an exact \<open>int\<close>.
  A \<^verbatim>\<open>while\<close> loop over the dendrogram is a partial function: not returning is \<open>None\<close>. Sorting by
  \<^verbatim>\<open>(degree, id)\<close> is the stable sort by degree of the ascending ids.
\<close>

definition NONE_ID :: nat where "NONE_ID = 2 ^ 32 - 1"

record dendrogram =
  dn_parent :: "nat list"
  dn_first_child :: "nat list"
  dn_next_sibling :: "nat list"

partial_function (option) find_root :: "nat list \<Rightarrow> nat \<Rightarrow> nat option" where
  "find_root parent r = do {
     p \<leftarrow> nth_opt parent r;
     (if p \<noteq> r then find_root parent p else Some r) }"

partial_function (option) compress_path :: "nat list \<Rightarrow> nat \<Rightarrow> nat \<Rightarrow> nat list option" where
  "compress_path parent r x = do {
     p \<leftarrow> nth_opt parent x;
     (if p \<noteq> r then compress_path (parent[x := r]) r p else Some parent) }"

definition dendro_root :: "nat list \<Rightarrow> nat \<Rightarrow> (nat \<times> nat list) option" where
  "dendro_root parent v = do {
     r \<leftarrow> find_root parent v;
     parent \<leftarrow> compress_path parent r v;
     Some (r, parent) }"

text \<open>The walk: the head of \<open>stack\<close> is its top.\<close>

partial_function (option) perm_loop :: "dendrogram \<Rightarrow> nat list \<Rightarrow> nat list \<Rightarrow> nat list option" where
  "perm_loop d stack perm = (case stack of
     [] \<Rightarrow> Some perm
   | c # rest \<Rightarrow>
       if c = NONE_ID then perm_loop d rest perm
       else do {
         sib \<leftarrow> nth_opt (dn_next_sibling d) c;
         child \<leftarrow> nth_opt (dn_first_child d) c;
         perm_loop d (child # sib # rest) (perm @ [c]) })"

fun perm_roots :: "dendrogram \<Rightarrow> nat list \<Rightarrow> nat list \<Rightarrow> nat list option" where
  "perm_roots d [] perm = Some perm"
| "perm_roots d (root # roots) perm = do {
     p \<leftarrow> nth_opt (dn_parent d) root;
     (if p \<noteq> root then perm_roots d roots perm
      else do {
        child \<leftarrow> nth_opt (dn_first_child d) root;
        perm \<leftarrow> perm_loop d [child] (perm @ [root]);
        perm_roots d roots perm }) }"

definition permutation :: "dendrogram \<Rightarrow> nat list option" where
  "permutation d = perm_roots d [0..<length (dn_parent d)] []"

fun partition_loop :: "nat list \<Rightarrow> nat list \<Rightarrow> nat list \<Rightarrow> nat \<Rightarrow> nat list \<Rightarrow> (nat list \<times> nat list) option" where
  "partition_loop [] parent ids fresh out = Some (out, parent)"
| "partition_loop (v # vs) parent ids fresh out = do {
     (r, parent) \<leftarrow> dendro_root parent v;
     i \<leftarrow> nth_opt ids r;
     (if i = NONE_ID then partition_loop vs parent (ids[r := fresh]) (fresh + 1) (out @ [fresh])
      else partition_loop vs parent ids fresh (out @ [i])) }"

definition partitions :: "dendrogram \<Rightarrow> (nat list \<times> dendrogram) option" where
  "partitions d = do {
     let n = length (dn_parent d);
     (out, parent) \<leftarrow> partition_loop [0..<n] (dn_parent d) (replicate n NONE_ID) 0 [];
     Some (out, d\<lparr>dn_parent := parent\<rparr>) }"

subsection \<open>The transpose\<close>

fun count_dsts :: "node_id list \<Rightarrow> edge_offset list \<Rightarrow> edge_offset list option" where
  "count_dsts [] offsets = Some offsets"
| "count_dsts (d # ds) offsets = do {
     c \<leftarrow> nth_opt offsets (unat d + 1);
     count_dsts ds (offsets[unat d + 1 := c + 1]) }"

fun transpose_row :: "nat \<Rightarrow> node_id list \<Rightarrow> edge_offset list \<Rightarrow> nat list \<Rightarrow> (edge_offset list \<times> nat list) option" where
  "transpose_row u [] offsets sources = Some (offsets, sources)"
| "transpose_row u (d # ds) offsets sources = do {
     c \<leftarrow> nth_opt offsets (unat d + 1);
     sources \<leftarrow> set_opt sources (unat (c - 1)) u;
     transpose_row u ds (offsets[unat d + 1 := c - 1]) sources }"

fun transpose_rows :: "csr_view \<Rightarrow> nat list \<Rightarrow> edge_offset list \<Rightarrow> nat list \<Rightarrow> (edge_offset list \<times> nat list) option" where
  "transpose_rows view [] offsets sources = Some (offsets, sources)"
| "transpose_rows view (u # us) offsets sources = do {
     ns \<leftarrow> view_neighbors view (of_nat u);
     (offsets, sources) \<leftarrow> transpose_row u (rev ns) offsets sources;
     transpose_rows view us offsets sources }"

definition transpose_graph :: "graph \<Rightarrow> (edge_offset list \<times> nat list) option" where
  "transpose_graph g = do {
     let n = g_num_nodes g;
     view \<leftarrow> graph_csr_view g;
     offsets \<leftarrow> count_dsts (cv_edges view) (replicate (n + 1) 0);
     let offsets = prefix_sum [1..<n + 1] offsets;
     (offsets, sources) \<leftarrow> transpose_rows view (rev [0..<n]) offsets (replicate (g_num_edges g) 0);
     Some ((drop 1 offsets @ [last offsets])[n := of_nat (g_num_edges g)], sources) }"

subsection \<open>The aggregation\<close>

record rabbit =
  rb_dendro :: dendrogram
  rb_degree :: "nat list"
  rb_carried :: "(nat \<times> nat) list option list"
  rb_visited :: "bool list"
  rb_weight_to :: "nat list"
  rb_touched :: "nat list"

text \<open>The closure \<^verbatim>\<open>add\<close> and the loops that call it.\<close>

definition rabbit_add :: "nat \<Rightarrow> nat \<Rightarrow> nat \<Rightarrow> rabbit \<Rightarrow> rabbit option" where
  "rabbit_add u c w s = do {
     (c, parent) \<leftarrow> dendro_root (dn_parent (rb_dendro s)) c;
     let s = s\<lparr>rb_dendro := (rb_dendro s)\<lparr>dn_parent := parent\<rparr>\<rparr>;
     (if c = u then Some s
      else do {
        x \<leftarrow> nth_opt (rb_weight_to s) c;
        Some (s\<lparr>rb_touched := (if x = 0 then rb_touched s @ [c] else rb_touched s),
                rb_weight_to := (rb_weight_to s)[c := x + w]\<rparr>) }) }"

fun rabbit_add_all :: "nat \<Rightarrow> (nat \<times> nat) list \<Rightarrow> rabbit \<Rightarrow> rabbit option" where
  "rabbit_add_all u [] s = Some s"
| "rabbit_add_all u ((c, w) # cs) s = do { s \<leftarrow> rabbit_add u c w s; rabbit_add_all u cs s }"

partial_function (option) absorb_children :: "nat \<Rightarrow> nat \<Rightarrow> rabbit \<Rightarrow> rabbit option" where
  "absorb_children u child s =
     (if child = NONE_ID then Some s
      else do {
        carried \<leftarrow> nth_opt (rb_carried s) child;
        let s = s\<lparr>rb_carried := (rb_carried s)[child := None]\<rparr>;
        s \<leftarrow> (case carried of None \<Rightarrow> Some s | Some list \<Rightarrow> rabbit_add_all u list s);
        sib \<leftarrow> nth_opt (dn_next_sibling (rb_dendro s)) child;
        absorb_children u sib s })"

fun best_merge :: "nat \<Rightarrow> nat \<Rightarrow> rabbit \<Rightarrow> nat list \<Rightarrow> (int \<times> nat) option \<Rightarrow> (int \<times> nat) option option" where
  "best_merge two_m du s [] best = Some best"
| "best_merge two_m du s (c # cs) best = do {
     w \<leftarrow> nth_opt (rb_weight_to s) c;
     dc \<leftarrow> nth_opt (rb_degree s) c;
     let gain = int two_m * int w - int du * int dc;
     let better = (case best of None \<Rightarrow> 0 < gain | Some (g, b) \<Rightarrow> g < gain \<or> (gain = g \<and> c < b));
     best_merge two_m du s cs (if better then Some (gain, c) else best) }"

fun clear_weights :: "nat list \<Rightarrow> nat list \<Rightarrow> nat list option" where
  "clear_weights [] weights = Some weights"
| "clear_weights (t # ts) weights = do { weights \<leftarrow> set_opt weights t 0; clear_weights ts weights }"

fun touched_weights :: "rabbit \<Rightarrow> nat list \<Rightarrow> (nat \<times> nat) list option" where
  "touched_weights s [] = Some []"
| "touched_weights s (t # ts) = do { w \<leftarrow> nth_opt (rb_weight_to s) t; ws \<leftarrow> touched_weights s ts; Some ((t, w) # ws) }"

definition rabbit_merge :: "nat \<Rightarrow> nat \<Rightarrow> rabbit \<Rightarrow> rabbit option" where
  "rabbit_merge u c s = do {
     parent \<leftarrow> set_opt (dn_parent (rb_dendro s)) u c;
     dc \<leftarrow> nth_opt (rb_degree s) c;
     du \<leftarrow> nth_opt (rb_degree s) u;
     first \<leftarrow> nth_opt (dn_first_child (rb_dendro s)) c;
     sibling \<leftarrow> set_opt (dn_next_sibling (rb_dendro s)) u first;
     seen \<leftarrow> nth_opt (rb_visited s) c;
     carried \<leftarrow> (if seen then Some (rb_carried s)
                 else do { ws \<leftarrow> touched_weights s (rb_touched s); set_opt (rb_carried s) u (Some ws) });
     Some (s\<lparr>rb_dendro := \<lparr>dn_parent = parent, dn_first_child = (dn_first_child (rb_dendro s))[c := u], dn_next_sibling = sibling\<rparr>,
             rb_degree := (rb_degree s)[c := dc + du], rb_carried := carried\<rparr>) }"

definition rabbit_visit :: "csr_view \<Rightarrow> edge_offset list \<Rightarrow> nat list \<Rightarrow> nat \<Rightarrow> nat \<Rightarrow> rabbit \<Rightarrow> rabbit option" where
  "rabbit_visit view in_offsets in_sources two_m u s = do {
     let s = s\<lparr>rb_touched := []\<rparr>;
     outs \<leftarrow> view_neighbors view (of_nat u);
     s \<leftarrow> rabbit_add_all u (map (\<lambda>v. (unat v, 1)) outs) s;
     a \<leftarrow> nth_opt in_offsets u;
     b \<leftarrow> nth_opt in_offsets (u + 1);
     ins \<leftarrow> slice_opt in_sources (unat a) (unat b);
     s \<leftarrow> rabbit_add_all u (map (\<lambda>v. (v, 1)) ins) s;
     child \<leftarrow> nth_opt (dn_first_child (rb_dendro s)) u;
     s \<leftarrow> absorb_children u child s;
     du \<leftarrow> nth_opt (rb_degree s) u;
     best \<leftarrow> best_merge two_m du s (rb_touched s) None;
     s \<leftarrow> (case best of None \<Rightarrow> Some s | Some (_, c) \<Rightarrow> rabbit_merge u c s);
     weights \<leftarrow> clear_weights (rb_touched s) (rb_weight_to s);
     visited \<leftarrow> set_opt (rb_visited s) u True;
     Some (s\<lparr>rb_weight_to := weights, rb_visited := visited\<rparr>) }"

fun rabbit_loop :: "csr_view \<Rightarrow> edge_offset list \<Rightarrow> nat list \<Rightarrow> nat \<Rightarrow> nat list \<Rightarrow> rabbit \<Rightarrow> rabbit option" where
  "rabbit_loop view in_offsets in_sources two_m [] s = Some s"
| "rabbit_loop view in_offsets in_sources two_m (u # us) s = do {
     s \<leftarrow> rabbit_visit view in_offsets in_sources two_m u s;
     rabbit_loop view in_offsets in_sources two_m us s }"

definition vertex_degree :: "csr_view \<Rightarrow> edge_offset list \<Rightarrow> nat list \<Rightarrow> nat \<Rightarrow> nat option" where
  "vertex_degree view in_offsets in_sources v = do {
     outs \<leftarrow> view_neighbors view (of_nat v);
     a \<leftarrow> nth_opt in_offsets v;
     b \<leftarrow> nth_opt in_offsets (v + 1);
     ins \<leftarrow> slice_opt in_sources (unat a) (unat b);
     Some (length (filter (\<lambda>d. unat d \<noteq> v) outs) + length (filter (\<lambda>s. s \<noteq> v) ins)) }"

definition dendro_new :: "nat \<Rightarrow> dendrogram" where
  "dendro_new n = \<lparr>dn_parent = [0..<n], dn_first_child = replicate n NONE_ID, dn_next_sibling = replicate n NONE_ID\<rparr>"

definition rabbit_dendrogram :: "graph \<Rightarrow> ((graph_error + dendrogram) \<times> graph) option" where
  "rabbit_dendrogram g =
     (if \<not> is_homogeneous g then Some (Inl NotHomogeneous, g)
      else do {
        (r, g) \<leftarrow> validate_with_mode g Full;
        (case r of
           Inl e \<Rightarrow> Some (Inl e, g)
         | Inr _ \<Rightarrow>
             let n = g_num_nodes g; dendro = dendro_new n in
             if n \<le> 1 \<or> g_num_edges g = 0 then Some (Inr dendro, g)
             else do {
               view \<leftarrow> graph_csr_view g;
               (in_offsets, in_sources) \<leftarrow> transpose_graph g;
               degree \<leftarrow> those (map (vertex_degree view in_offsets in_sources) [0..<n]);
               let two_m = sum_list degree;
               (if two_m = 0 then Some (Inr dendro, g)
                else do {
                  s \<leftarrow> rabbit_loop view in_offsets in_sources two_m (sort_key (\<lambda>v. degree ! v) [0..<n])
                    \<lparr>rb_dendro = dendro, rb_degree = degree, rb_carried = replicate n None, rb_visited = replicate n False,
                     rb_weight_to = replicate n 0, rb_touched = []\<rparr>;
                  Some (Inr (rb_dendro s), g) }) }) })"

definition reorder_rabbit :: "graph \<Rightarrow> ((graph_error + nat list) \<times> graph) option" where
  "reorder_rabbit g = do {
     (r, g) \<leftarrow> rabbit_dendrogram g;
     (case r of Inl e \<Rightarrow> Some (Inl e, g) | Inr d \<Rightarrow> do { p \<leftarrow> permutation d; Some (Inr p, g) }) }"

definition rabbit_partitions :: "graph \<Rightarrow> ((graph_error + nat list) \<times> graph) option" where
  "rabbit_partitions g = do {
     (r, g) \<leftarrow> rabbit_dendrogram g;
     (case r of Inl e \<Rightarrow> Some (Inl e, g) | Inr d \<Rightarrow> do { (p, _) \<leftarrow> partitions d; Some (Inr p, g) }) }"

definition reorder_rabbit_with_partitions :: "graph \<Rightarrow> ((graph_error + nat list \<times> nat list) \<times> graph) option" where
  "reorder_rabbit_with_partitions g = do {
     (r, g) \<leftarrow> rabbit_dendrogram g;
     (case r of Inl e \<Rightarrow> Some (Inl e, g)
      | Inr d \<Rightarrow> do { perm \<leftarrow> permutation d; (parts, _) \<leftarrow> partitions d; Some (Inr (perm, parts), g) }) }"

subsection \<open>Applying a permutation\<close>

fun invert_loop :: "nat \<Rightarrow> node_id list \<Rightarrow> nat \<Rightarrow> nat list \<Rightarrow> graph_error + nat list" where
  "invert_loop n [] new_id inv_perm = Inr inv_perm"
| "invert_loop n (old_id # olds) new_id inv_perm =
     (if \<not> unat old_id < n then Inl (PermOutOfRange old_id)
      else if inv_perm ! unat old_id \<noteq> NONE_ID then Inl (PermDuplicate old_id)
      else invert_loop n olds (Suc new_id) (inv_perm[unat old_id := new_id]))"

definition permute_rows :: "(nat \<Rightarrow> 'a list option option) \<Rightarrow> nat \<Rightarrow> 'a list \<Rightarrow> 'a list option" where
  "permute_rows src row old = do {
     s \<leftarrow> src row;
     (case s of None \<Rightarrow> Some old | Some xs \<Rightarrow> do { assert_opt (length old = length xs); Some xs }) }"

definition permute_graph :: "graph \<Rightarrow> node_id list \<Rightarrow> ((graph_error + graph) \<times> graph) option" where
  "permute_graph g perm =
     (if \<not> is_homogeneous g then Some (Inl NotHomogeneous, g)
      else do {
        (r, g) \<leftarrow> validate_with_mode g Full;
        (case r of
           Inl e \<Rightarrow> Some (Inl e, g)
         | Inr _ \<Rightarrow>
             let n = g_num_nodes g in
             if length perm \<noteq> n then Some (Inl PermLength, g)
             else (case invert_loop n perm 0 (replicate n NONE_ID) of
                 Inl e \<Rightarrow> Some (Inl e, g)
               | Inr inv_perm \<Rightarrow> do {
                   sizes \<leftarrow> those (map (\<lambda>p. map_option (\<lambda>ns. of_nat (length ns)) (neighbors g p)) perm);
                   let offsets = prefix_sum [1..<n + 1] (0 # sizes);
                   let num_edges = g_num_edges g;
                   (if offsets ! n \<noteq> of_nat num_edges then Some (Inl PermRows, g)
                    else do {
                      edges \<leftarrow> par_fill_rows (replicate num_edges 0) offsets (\<lambda>new_id row. do {
                        p \<leftarrow> nth_opt perm new_id;
                        ns \<leftarrow> neighbors g p;
                        xs \<leftarrow> those (map (\<lambda>o'. map_option of_nat (nth_opt inv_perm (unat o'))) (take (length row) ns));
                        Some (xs @ drop (length xs) row) });
                      weights \<leftarrow> weights_slice g;
                      weights \<leftarrow> (case weights of None \<Rightarrow> Some None
                        | Some _ \<Rightarrow> do {
                            w \<leftarrow> par_fill_rows (replicate num_edges 0) offsets
                              (permute_rows (\<lambda>new_id. do { p \<leftarrow> nth_opt perm new_id; neighbor_weights g p }));
                            Some (Some w) });
                      stamps \<leftarrow> (case g_timestamps g of None \<Rightarrow> Some None
                        | Some _ \<Rightarrow> do {
                            t \<leftarrow> par_fill_rows (replicate num_edges 0) offsets
                              (permute_rows (\<lambda>new_id. do { p \<leftarrow> nth_opt perm new_id; neighbor_timestamps g p }));
                            Some (Some t) });
                      let new = from_trusted_parts n n offsets edges weights;
                      (case stamps of
                         None \<Rightarrow> Some (Inr new, g)
                       | Some ts \<Rightarrow> Some (set_timestamps new ts, g)) }) })) })"

subsection \<open>Partition-aligned batches\<close>

text \<open>A key packs the partition above the seed's index.\<close>

fun batch_keys :: "nat list \<Rightarrow> node_id list \<Rightarrow> nat \<Rightarrow> u64 list \<Rightarrow> graph_error + u64 list" where
  "batch_keys parts [] i keyed = Inr keyed"
| "batch_keys parts (s # ss) i keyed =
     (if length parts \<le> unat s then Inl (SeedOutOfRange s)
      else batch_keys parts ss (Suc i) (keyed @ [or (push_bit 32 (of_nat (parts ! unat s))) (of_nat i)]))"

fun batch_runs :: "u64 list \<Rightarrow> nat list \<Rightarrow> nat \<Rightarrow> (nat \<times> nat) list \<Rightarrow> (nat \<times> nat) list" where
  "batch_runs keyed [] run_start runs = runs"
| "batch_runs keyed (i # is) run_start runs =
     (if i = length keyed \<or> drop_bit 32 (keyed ! i) \<noteq> drop_bit 32 (keyed ! run_start)
      then batch_runs keyed is i (runs @ [(run_start, i)])
      else batch_runs keyed is run_start runs)"

fun shuffle_runs :: "nat list \<Rightarrow> u64 \<Rightarrow> 'a list \<Rightarrow> 'a list" where
  "shuffle_runs [] rng runs = runs"
| "shuffle_runs (i # is) rng runs =
     (let rng = rng * 0x517cc1b727220a95 + 1;
          j = unat (drop_bit 33 rng) mod (i + 1)
      in shuffle_runs is rng (runs[i := runs ! j, j := runs ! i]))"

fun fill_batches :: "nat \<Rightarrow> node_id list \<Rightarrow> u64 list \<Rightarrow> node_id list list \<Rightarrow> node_id list
    \<Rightarrow> (node_id list list \<times> node_id list) option" where
  "fill_batches batch_size seeds [] batches current = Some (batches, current)"
| "fill_batches batch_size seeds (key # keys) batches current = do {
     s \<leftarrow> nth_opt seeds (unat (ucast key :: u32));
     let current = current @ [s];
     (if length current = batch_size then fill_batches batch_size seeds keys (batches @ [current]) []
      else fill_batches batch_size seeds keys batches current) }"

definition partition_aligned_batches :: "nat list \<Rightarrow> node_id list \<Rightarrow> nat \<Rightarrow> bool \<Rightarrow> u64
    \<Rightarrow> (graph_error + node_id list list) option" where
  "partition_aligned_batches parts seeds batch_size shuffle seed =
     (if \<not> 0 < batch_size then Some (Inl BatchSizeZero)
      else case batch_keys parts seeds 0 [] of
          Inl e \<Rightarrow> Some (Inl e)
        | Inr keyed \<Rightarrow> do {
            let keyed = sort keyed;
            let runs = batch_runs keyed [1..<length keyed + 1] 0 [];
            let runs = (if shuffle then shuffle_runs (rev [1..<length runs]) (seed * 0x517cc1b727220a95 + 1) runs else runs);
            (batches, current) \<leftarrow> fill_batches batch_size seeds (concat (map (\<lambda>(a, b). take (b - a) (drop a keyed)) runs)) [] [];
            Some (Inr (if current \<noteq> [] then batches @ [current] else batches)) })"

end
