(* ===== verification/Dendrogram.thy ===== *)
theory Dendrogram
  imports Reorder
begin

section \<open>The dendrogram as a forest\<close>

text \<open>
  Two structures share one record: the union-find parents, which path compression rewrites, and
  the child lists, which it does not touch. \<open>forest n d kids pr\<close> ties them to a ghost forest:
  \<open>kids v\<close> is the child list of \<open>v\<close> and \<open>pr v\<close> its pre-order walk; the walks of the roots list
  every vertex once. Linking a root under another root keeps it; the loops over it terminate.
\<close>

subsection \<open>Union-find roots\<close>

fun rooted_in :: "nat list \<Rightarrow> nat \<Rightarrow> nat \<Rightarrow> nat \<Rightarrow> bool" where
  "rooted_in p 0 v r \<longleftrightarrow> v < length p \<and> p ! v = v \<and> r = v"
| "rooted_in p (Suc k) v r \<longleftrightarrow> v < length p \<and> p ! v \<noteq> v \<and> rooted_in p k (p ! v) r"

definition rooted :: "nat list \<Rightarrow> nat \<Rightarrow> nat \<Rightarrow> bool" where
  "rooted p v r \<longleftrightarrow> (\<exists>k. rooted_in p k v r)"

lemma rooted_in_unique: "rooted_in p k v r \<Longrightarrow> rooted_in p m v s \<Longrightarrow> k = m \<and> r = s"
proof (induction p k v r arbitrary: m rule: rooted_in.induct)
  case (1 p v r)
  then show ?case by (cases m) auto
next
  case (2 p k v r)
  then show ?case by (cases m) auto
qed

lemma rooted_unique: "rooted p v r \<Longrightarrow> rooted p v s \<Longrightarrow> r = s"
  using rooted_in_unique unfolding rooted_def by blast

lemma rooted_root: "rooted p v r \<Longrightarrow> r < length p \<and> p ! r = r"
proof -
  have "rooted_in p k v r \<Longrightarrow> r < length p \<and> p ! r = r" for k by (induction p k v r rule: rooted_in.induct) auto
  then show "rooted p v r \<Longrightarrow> r < length p \<and> p ! r = r" by (auto simp: rooted_def)
qed

lemma rooted_self: "v < length p \<Longrightarrow> p ! v = v \<Longrightarrow> rooted p v v"
  unfolding rooted_def by (rule exI [of _ 0]) simp

lemma rooted_step: "v < length p \<Longrightarrow> p ! v \<noteq> v \<Longrightarrow> rooted p (p ! v) r \<Longrightarrow> rooted p v r"
  unfolding rooted_def by (metis rooted_in.simps(2))

lemma rooted_bound: "rooted p v r \<Longrightarrow> v < length p"
  unfolding rooted_def by (metis rooted_in.elims(2))

lemma find_root_ok: "rooted p v r \<Longrightarrow> find_root p v = Some r"
proof -
  have "rooted_in p k v r \<Longrightarrow> find_root p v = Some r" for k
  proof (induction p k v r rule: rooted_in.induct)
    case (1 p v r)
    then show ?case by (subst find_root.simps) (simp add: nth_opt_Some)
  next
    case (2 p k v r)
    then show ?case by (subst find_root.simps) (simp add: nth_opt_Some)
  qed
  then show "rooted p v r \<Longrightarrow> find_root p v = Some r" by (auto simp: rooted_def)
qed

text \<open>Short-cutting one vertex to its root changes no root.\<close>

lemma rooted_shortcut:
  assumes v: "rooted p v r" "v \<noteq> r"
  shows "rooted (p[v := r]) x s \<longleftrightarrow> rooted p x s"
proof
  note r = rooted_root [OF v(1)] and vl = rooted_bound [OF v(1)]
  have rr: "rooted (p[v := r]) r r" using r v(2) by (intro rooted_self) auto
  have vr: "rooted (p[v := r]) v r" using rr vl v(2) by - (rule rooted_step, auto)
  have "rooted_in p k x s \<Longrightarrow> rooted (p[v := r]) x s" for k
  proof (induction k arbitrary: x)
    case 0
    then have "x \<noteq> v" using rooted_root [OF v(1)] v rooted_unique [OF v(1) rooted_self] by auto
    then show ?case using 0 by (auto intro!: rooted_self)
  next
    case (Suc k)
    show ?case
    proof (cases "x = v")
      case True
      have "rooted p x s" using Suc.prems unfolding rooted_def by blast
      then have "s = r" using True v(1) rooted_unique by blast
      then show ?thesis using vr True by simp
    next
      case False
      then show ?thesis using Suc by - (rule rooted_step, auto)
    qed
  qed
  then show "rooted p x s \<Longrightarrow> rooted (p[v := r]) x s" by (auto simp: rooted_def)
  have "rooted_in (p[v := r]) k x s \<Longrightarrow> rooted p x s" for k
  proof (induction k arbitrary: x)
    case 0
    then show ?case using v(2) vl by (cases "x = v") (auto intro: rooted_self)
  next
    case (Suc k)
    show ?case
    proof (cases "x = v")
      case True
      then have "rooted (p[v := r]) r s" using Suc.prems vl by (auto simp: rooted_def)
      then have "s = r" using rr rooted_unique by blast
      then show ?thesis using v(1) True by simp
    next
      case False
      then show ?thesis using Suc by - (rule rooted_step, auto)
    qed
  qed
  then show "rooted (p[v := r]) x s \<Longrightarrow> rooted p x s" by (auto simp: rooted_def)
qed

lemma rooted_in_off: "rooted_in p k y r \<Longrightarrow> rooted_in p m x s \<Longrightarrow> k < m \<Longrightarrow> rooted_in (p[x := z]) k y r"
proof (induction k arbitrary: y)
  case 0
  then have "y \<noteq> x" using rooted_in_unique by blast
  then show ?case using 0 by simp
next
  case (Suc k)
  then have "y \<noteq> x" using rooted_in_unique by blast
  then show ?case using Suc by simp
qed

lemma compress_path_ok:
  assumes "rooted p v r"
  shows "\<exists>p'. compress_path p r v = Some p' \<and> length p' = length p \<and> (\<forall>x s. rooted p' x s \<longleftrightarrow> rooted p x s)"
proof -
  have "rooted_in p k v r \<Longrightarrow> \<exists>p'. compress_path p r v = Some p' \<and> length p' = length p \<and> (\<forall>x s. rooted p' x s \<longleftrightarrow> rooted p x s)" for k
  proof (induction k arbitrary: p v)
    case 0
    then show ?case by (subst compress_path.simps) (auto simp: nth_opt_Some)
  next
    case (Suc k)
    show ?case
    proof (cases "p ! v = r")
      case True
      then show ?thesis using Suc.prems by (subst compress_path.simps) (auto simp: nth_opt_Some)
    next
      case False
      have vr: "rooted p v r" using Suc.prems unfolding rooted_def by blast
      have ne: "v \<noteq> r" using rooted_root [OF vr] Suc.prems by auto
      have "rooted_in (p[v := r]) k (p ! v) r" using Suc.prems rooted_in_off [of p k "p ! v" r "Suc k" v r r] by simp
      from Suc.IH [OF this] obtain p' where p': "compress_path (p[v := r]) r (p ! v) = Some p'" "length p' = length p"
        "\<forall>x s. rooted p' x s \<longleftrightarrow> rooted (p[v := r]) x s" by auto
      then show ?thesis using False Suc.prems rooted_shortcut [OF vr ne]
        by (subst compress_path.simps) (auto simp: nth_opt_Some)
    qed
  qed
  then show ?thesis using assms by (auto simp: rooted_def)
qed

lemma is_root_iff: "v < length p \<Longrightarrow> p ! v = v \<longleftrightarrow> rooted p v v"
  using rooted_self rooted_root by blast

lemma dendro_root_ok:
  assumes "rooted p v r"
  shows "\<exists>p'. dendro_root p v = Some (r, p') \<and> length p' = length p \<and> (\<forall>x s. rooted p' x s \<longleftrightarrow> rooted p x s) \<and>
    (\<forall>x<length p. p' ! x = x \<longleftrightarrow> p ! x = x)"
proof -
  obtain p' where "compress_path p r v = Some p'" "length p' = length p" "\<forall>x s. rooted p' x s \<longleftrightarrow> rooted p x s"
    using compress_path_ok [OF assms] by blast
  moreover have "\<forall>x<length p. p' ! x = x \<longleftrightarrow> p ! x = x"
    using is_root_iff [of _ p] is_root_iff [of _ p'] \<open>length p' = length p\<close> \<open>\<forall>x s. rooted p' x s \<longleftrightarrow> rooted p x s\<close> by metis
  ultimately show ?thesis using find_root_ok [OF assms] by (auto simp: dendro_root_def)
qed

lemma rooted_link:
  assumes u: "u < length p" "p ! u = u" and c: "c < length p" "p ! c = c" and uc: "u \<noteq> c" and x: "rooted p x s"
  shows "rooted (p[u := c]) x (if s = u then c else s)"
proof -
  have cc: "rooted (p[u := c]) c c" using c uc by (intro rooted_self) auto
  have uu: "rooted (p[u := c]) u c" using u uc cc by - (rule rooted_step, auto)
  have "rooted_in p k x s \<Longrightarrow> rooted (p[u := c]) x (if s = u then c else s)" for k
  proof (induction k arbitrary: x)
    case 0
    then show ?case using uu by (cases "x = u") (auto intro: rooted_self)
  next
    case (Suc k)
    then have "x \<noteq> u" using u by auto
    then show ?case using Suc by - (rule rooted_step, auto)
  qed
  then show ?thesis using x by (auto simp: rooted_def)
qed

subsection \<open>Child lists\<close>

primrec chain :: "nat list \<Rightarrow> nat \<Rightarrow> nat list \<Rightarrow> bool" where
  "chain nx x [] \<longleftrightarrow> x = NONE_ID"
| "chain nx x (k # ks) \<longleftrightarrow> x = k \<and> k < length nx \<and> chain nx (nx ! k) ks"

lemma chain_update: "chain nx x ks \<Longrightarrow> u \<notin> set ks \<Longrightarrow> chain (nx[u := y]) x ks"
  by (induction ks arbitrary: x) auto

definition roots_of :: "nat list \<Rightarrow> nat list" where
  "roots_of p = filter (\<lambda>r. p ! r = r) [0..<length p]"

definition forest :: "nat \<Rightarrow> dendrogram \<Rightarrow> (nat \<Rightarrow> nat list) \<Rightarrow> (nat \<Rightarrow> nat list) \<Rightarrow> bool" where
  "forest n d kids pr \<longleftrightarrow> n \<le> NONE_ID \<and> length (dn_parent d) = n \<and> length (dn_first_child d) = n \<and> length (dn_next_sibling d) = n \<and>
     (\<forall>v<n. chain (dn_next_sibling d) (dn_first_child d ! v) (kids v)) \<and>
     (\<forall>v<n. \<forall>k\<in>set (kids v). k < n \<and> dn_parent d ! k \<noteq> k) \<and>
     (\<forall>v<n. pr v = v # concat (map pr (kids v))) \<and>
     (\<forall>v<n. \<exists>r. rooted (dn_parent d) v r) \<and>
     (\<Sum>r\<in>{r. r < n \<and> dn_parent d ! r = r}. mset (pr r)) = mset [0..<n] \<and>
     (\<forall>r<n. dn_parent d ! r = r \<longrightarrow> (\<forall>x\<in>set (pr r). rooted (dn_parent d) x r))"

lemma forestD:
  assumes "forest n d kids pr"
  shows "n \<le> NONE_ID" and "length (dn_parent d) = n" and "length (dn_first_child d) = n" and "length (dn_next_sibling d) = n"
    and "\<And>v. v < n \<Longrightarrow> chain (dn_next_sibling d) (dn_first_child d ! v) (kids v)"
    and "\<And>v k. v < n \<Longrightarrow> k \<in> set (kids v) \<Longrightarrow> k < n \<and> dn_parent d ! k \<noteq> k"
    and "\<And>v. v < n \<Longrightarrow> pr v = v # concat (map pr (kids v))"
    and "\<And>v. v < n \<Longrightarrow> \<exists>r. rooted (dn_parent d) v r"
    and "(\<Sum>r\<in>{r. r < n \<and> dn_parent d ! r = r}. mset (pr r)) = mset [0..<n]"
    and "\<And>r x. r < n \<Longrightarrow> dn_parent d ! r = r \<Longrightarrow> x \<in> set (pr r) \<Longrightarrow> rooted (dn_parent d) x r"
  using assms unfolding forest_def by blast+

lemma forest_new:
  assumes "n \<le> NONE_ID"
  shows "forest n (dendro_new n) (\<lambda>_. []) (\<lambda>v. [v])"
proof -
  have s: "(\<Sum>r\<in>{r. r < n \<and> [0..<n] ! r = r}. mset [r]) = mset [0..<n]"
  proof -
    have "{r. r < n \<and> [0..<n] ! r = r} = {0..<n}" by auto
    moreover have "(\<Sum>r\<in>{0..<n}. {#r#}) = mset [0..<n]" by simp
    ultimately show ?thesis by simp
  qed
  have "rooted [0..<n] v v" if "v < n" for v using that by (intro rooted_self) auto
  then show ?thesis using assms s by (auto simp: forest_def dendro_new_def)
qed

text \<open>Path compression keeps the forest.\<close>

lemma forest_compress:
  assumes f: "forest n d kids pr" and p: "length p' = n" "\<forall>x s. rooted p' x s \<longleftrightarrow> rooted (dn_parent d) x s"
    "\<forall>x<n. p' ! x = x \<longleftrightarrow> dn_parent d ! x = x"
  shows "forest n (d\<lparr>dn_parent := p'\<rparr>) kids pr"
proof -
  have "{r. r < n \<and> p' ! r = r} = {r. r < n \<and> dn_parent d ! r = r}" using p(3) by auto
  note same = this
  note D = forestD [OF f]
  show ?thesis
    unfolding forest_def
  proof (intro conjI)
    show "\<forall>v<n. \<forall>k\<in>set (kids v). k < n \<and> dn_parent (d\<lparr>dn_parent := p'\<rparr>) ! k \<noteq> k" using D(6) p(3) by simp
    show "\<forall>v<n. pr v = v # concat (map pr (kids v))" using D(7) by blast
    show "\<forall>v<n. \<exists>r. rooted (dn_parent (d\<lparr>dn_parent := p'\<rparr>)) v r" using D(8) p(2) by simp
    show "(\<Sum>r | r < n \<and> dn_parent (d\<lparr>dn_parent := p'\<rparr>) ! r = r. mset (pr r)) = mset [0..<n]"
      unfolding dendrogram.select_convs dendrogram.update_convs using same D(9) by simp
    show "\<forall>r<n. dn_parent (d\<lparr>dn_parent := p'\<rparr>) ! r = r \<longrightarrow> (\<forall>x\<in>set (pr r). rooted (dn_parent (d\<lparr>dn_parent := p'\<rparr>)) x r)"
      using D(10) p(2,3) by simp
  qed (use D(1-5) p(1) in simp_all)
qed

lemma forest_root:
  assumes "forest n d kids pr" and "v < n"
  shows "\<exists>r p'. dendro_root (dn_parent d) v = Some (r, p') \<and> r < n \<and> dn_parent d ! r = r \<and> rooted (dn_parent d) v r \<and>
    forest n (d\<lparr>dn_parent := p'\<rparr>) kids pr \<and> (\<forall>x<n. p' ! x = x \<longleftrightarrow> dn_parent d ! x = x) \<and>
    (\<forall>x s. rooted p' x s \<longleftrightarrow> rooted (dn_parent d) x s) \<and> length p' = n"
proof -
  obtain r where r: "rooted (dn_parent d) v r" using forestD(8) [OF assms] by blast
  have l: "length (dn_parent d) = n" by (rule forestD(2) [OF assms(1)])
  obtain p' where "dendro_root (dn_parent d) v = Some (r, p')" "length p' = n" "\<forall>x s. rooted p' x s \<longleftrightarrow> rooted (dn_parent d) x s"
    "\<forall>x<n. p' ! x = x \<longleftrightarrow> dn_parent d ! x = x"
    using dendro_root_ok [OF r] l by auto
  then show ?thesis using rooted_root [OF r] r l forest_compress [OF assms(1)] by auto
qed

text \<open>Linking the root \<open>u\<close> as the newest child of the root \<open>c\<close>.\<close>

lemma forest_link:
  assumes f: "forest n d kids pr" and u: "u < n" "dn_parent d ! u = u" and c: "c < n" "dn_parent d ! c = c" and uc: "u \<noteq> c"
  defines "d' \<equiv> \<lparr>dn_parent = (dn_parent d)[u := c], dn_first_child = (dn_first_child d)[c := u],
    dn_next_sibling = (dn_next_sibling d)[u := dn_first_child d ! c]\<rparr>"
  shows "forest n d' (kids(c := u # kids c)) (pr(c := c # pr u @ concat (map pr (kids c))))"
proof -
  let ?p = "dn_parent d" and ?p' = "(dn_parent d)[u := c]"
  define kids' where "kids' = kids(c := u # kids c)"
  define pr' where "pr' = pr(c := c # pr u @ concat (map pr (kids c)))"
  have l: "length ?p = n" "length (dn_first_child d) = n" "length (dn_next_sibling d) = n" "n \<le> NONE_ID"
    and ch: "\<And>v. v < n \<Longrightarrow> chain (dn_next_sibling d) (dn_first_child d ! v) (kids v)"
    and kd: "\<And>v k. v < n \<Longrightarrow> k \<in> set (kids v) \<Longrightarrow> k < n \<and> ?p ! k \<noteq> k"
    and pr: "\<And>v. v < n \<Longrightarrow> pr v = v # concat (map pr (kids v))"
    and rt: "\<And>v. v < n \<Longrightarrow> \<exists>r. rooted ?p v r"
    and sm: "(\<Sum>r\<in>{r. r < n \<and> ?p ! r = r}. mset (pr r)) = mset [0..<n]"
    and un: "\<And>r x. r < n \<Longrightarrow> ?p ! r = r \<Longrightarrow> x \<in> set (pr r) \<Longrightarrow> rooted ?p x r"
    by (fact forestD [OF f])+
  have nu: "u \<notin> set (kids v)" "c \<notin> set (kids v)" if "v < n" for v using kd [OF that] u c by auto
  have kids_pr: "map pr' (kids v) = map pr (kids v)" if "v < n" for v
    using nu(2) [OF that] by (auto simp: pr'_def)
  have chains: "chain (dn_next_sibling d') (dn_first_child d' ! v) (kids' v)" if v: "v < n" for v
    using chain_update [OF ch [OF v] nu(1) [OF v]] u(1) c(1) l by (auto simp: d'_def kids'_def)
  have kd': "k < n \<and> ?p' ! k \<noteq> k" if "v < n" "k \<in> set (kids' v)" for v k
    using that kd [of v k] kd [of c k] u c uc l by (cases "k = u") (auto simp: kids'_def split: if_splits)
  have preq: "pr' v = v # concat (map pr' (kids' v))" if v: "v < n" for v
  proof (cases "v = c")
    case True
    have "map pr' (kids' c) = pr u # map pr (kids c)" using kids_pr [OF c(1)] uc by (simp add: kids'_def) (simp add: pr'_def)
    moreover have "pr' c = c # pr u @ concat (map pr (kids c))" by (simp add: pr'_def)
    ultimately show ?thesis unfolding True by (simp only: concat.simps)
  next
    case False
    have "pr' v = pr v" using False by (simp add: pr'_def)
    also have "\<dots> = v # concat (map pr' (kids v))" unfolding kids_pr [OF v] by (rule pr [OF v])
    finally show ?thesis using False by (simp add: kids'_def)
  qed
  have rt': "\<exists>r. rooted ?p' v r" if v: "v < n" for v
    using rt [OF v] rooted_link [OF _ u(2) _ c(2) uc] l u(1) c(1) by blast
  have roots': "{r. r < n \<and> ?p' ! r = r} = {r. r < n \<and> ?p ! r = r} - {u}"
    using u l uc by (auto simp: nth_list_update)
  have sm': "(\<Sum>r\<in>{r. r < n \<and> ?p' ! r = r}. mset (pr' r)) = mset [0..<n]"
  proof -
    let ?R = "{r. r < n \<and> ?p ! r = r}"
    have fin: "finite ?R" by simp
    have "(\<Sum>r\<in>?R - {u}. mset (pr' r)) = mset (pr' c) + (\<Sum>r\<in>?R - {u} - {c}. mset (pr' r))"
      using c uc fin by (intro sum.remove) auto
    also have "mset (pr' c) = mset (pr u) + mset (pr c)" using pr [OF c(1)] by (simp add: pr'_def)
    also have "(\<Sum>r\<in>?R - {u} - {c}. mset (pr' r)) = (\<Sum>r\<in>?R - {u} - {c}. mset (pr r))" by (rule sum.cong) (auto simp: pr'_def)
    also have "mset (pr u) + mset (pr c) + (\<Sum>r\<in>?R - {u} - {c}. mset (pr r)) = mset (pr u) + (\<Sum>r\<in>?R - {u}. mset (pr r))"
      using sum.remove [of "?R - {u}" c "\<lambda>r. mset (pr r)"] c uc fin by (simp add: add.assoc)
    also have "\<dots> = (\<Sum>r\<in>?R. mset (pr r))" using u fin by (intro sum.remove [symmetric]) auto
    finally show ?thesis unfolding roots' sm .
  qed
  have un': "rooted ?p' x r" if r: "r < n" "?p' ! r = r" "x \<in> set (pr' r)" for r x
  proof -
    have r0: "?p ! r = r" "r \<noteq> u" using r(1,2) u l uc by (auto simp: nth_list_update split: if_splits)
    have cases: "x \<in> set (pr r) \<or> (r = c \<and> x \<in> set (pr u))" using r(3) pr [OF c(1)] by (auto simp: pr'_def split: if_splits)
    then show ?thesis
    proof
      assume "x \<in> set (pr r)"
      then have "rooted ?p x r" using un r(1) r0 by blast
      then show ?thesis using rooted_link [OF _ u(2) _ c(2) uc, of x r] u(1) c(1) l r0(2) by simp
    next
      assume "r = c \<and> x \<in> set (pr u)"
      then show ?thesis using rooted_link [OF _ u(2) _ c(2) uc, of x u] un u c l by simp
    qed
  qed
  have "forest n d' kids' pr'"
    unfolding forest_def
  proof (intro conjI)
    show "n \<le> NONE_ID" "length (dn_parent d') = n" "length (dn_first_child d') = n" "length (dn_next_sibling d') = n"
      using l by (simp_all add: d'_def)
    show "\<forall>v<n. chain (dn_next_sibling d') (dn_first_child d' ! v) (kids' v)" using chains by blast
    show "\<forall>v<n. \<forall>k\<in>set (kids' v). k < n \<and> dn_parent d' ! k \<noteq> k" using kd' by (simp add: d'_def)
    show "\<forall>v<n. pr' v = v # concat (map pr' (kids' v))" using preq by blast
    show "\<forall>v<n. \<exists>r. rooted (dn_parent d') v r" using rt' by (simp add: d'_def)
    show "(\<Sum>r | r < n \<and> dn_parent d' ! r = r. mset (pr' r)) = mset [0..<n]" using sm' by (simp add: d'_def)
    show "\<forall>r<n. dn_parent d' ! r = r \<longrightarrow> (\<forall>x\<in>set (pr' r). rooted (dn_parent d') x r)" using un' by (simp add: d'_def)
  qed
  then show ?thesis by (simp add: kids'_def pr'_def)
qed

subsection \<open>The walk\<close>

lemma perm_loop_chain:
  assumes f: "forest n d kids pr" and "chain (dn_next_sibling d) x ks" and "\<forall>k\<in>set ks. k < n"
  shows "perm_loop d (x # rest) perm = perm_loop d rest (perm @ concat (map pr ks))"
  using assms(2,3)
proof (induction "length (concat (map pr ks))" arbitrary: ks x rest perm rule: less_induct)
  case less
  show ?case
  proof (cases ks)
    case Nil
    then show ?thesis using less.prems by (subst perm_loop.simps) simp
  next
    case (Cons k ks')
    then have k: "x = k" "k < n" "chain (dn_next_sibling d) (dn_next_sibling d ! k) ks'" "\<forall>j\<in>set ks'. j < n"
      using less.prems by auto
    have fk: "length (dn_next_sibling d) = n" "length (dn_first_child d) = n" "n \<le> NONE_ID"
      "chain (dn_next_sibling d) (dn_first_child d ! k) (kids k)" "\<forall>j\<in>set (kids k). j < n" "pr k = k # concat (map pr (kids k))"
      using forestD(1,3,4) [OF f] forestD(5-7) [OF f k(2)] by blast+
    have "perm_loop d (x # rest) perm = perm_loop d (dn_first_child d ! k # dn_next_sibling d ! k # rest) (perm @ [k])"
      using k fk by (subst perm_loop.simps) (simp add: nth_opt_Some)
    also have "\<dots> = perm_loop d (dn_next_sibling d ! k # rest) ((perm @ [k]) @ concat (map pr (kids k)))"
      using fk Cons by (intro less.hyps) auto
    also have "\<dots> = perm_loop d rest (((perm @ [k]) @ concat (map pr (kids k))) @ concat (map pr ks'))"
      using k fk Cons by (intro less.hyps) auto
    finally show ?thesis using Cons fk(6) by simp
  qed
qed

lemma perm_roots_ok:
  assumes f: "forest n d kids pr" and "\<forall>r\<in>set rs. r < n"
  shows "perm_roots d rs perm = Some (perm @ concat (map pr (filter (\<lambda>r. dn_parent d ! r = r) rs)))"
  using assms(2)
proof (induction rs arbitrary: perm)
  case (Cons r rs)
  have fr: "length (dn_parent d) = n" "length (dn_first_child d) = n" "chain (dn_next_sibling d) (dn_first_child d ! r) (kids r)"
    "\<forall>j\<in>set (kids r). j < n" "pr r = r # concat (map pr (kids r))"
    using forestD(2,3) [OF f] forestD(5-7) [OF f, of r] Cons.prems by auto
  have "perm_loop d [dn_first_child d ! r] (perm @ [r]) = Some (perm @ pr r)"
    using perm_loop_chain [OF f fr(3,4), of "[]" "perm @ [r]"] fr(5) by (simp add: perm_loop.simps [of d "[]"])
  then show ?case using Cons fr by (simp add: nth_opt_Some)
qed simp

lemma permutation_ok:
  assumes f: "forest n d kids pr"
  shows "\<exists>perm. permutation d = Some perm \<and> perm = concat (map pr (roots_of (dn_parent d))) \<and> mset perm = mset [0..<n]"
proof -
  note l = forestD(2) [OF f]
  have "permutation d = Some (concat (map pr (roots_of (dn_parent d))))"
    using perm_roots_ok [OF f, of "[0..<n]" "[]"] l by (simp add: permutation_def roots_of_def)
  moreover have "mset (concat (map pr (roots_of (dn_parent d)))) = (\<Sum>r\<in>set (roots_of (dn_parent d)). mset (pr r))"
  proof -
    have d: "distinct (roots_of (dn_parent d))" by (simp add: roots_of_def)
    have "mset (concat (map pr xs)) = sum_list (map (\<lambda>r. mset (pr r)) xs)" for xs by (induction xs) auto
    then show ?thesis using d by (simp add: sum_list_distinct_conv_sum_set)
  qed
  moreover have "set (roots_of (dn_parent d)) = {r. r < n \<and> dn_parent d ! r = r}" by (auto simp: roots_of_def l)
  ultimately show ?thesis using forestD(9) [OF f] by metis
qed

end
