(* ===== verification/Reorder_Facts.thy ===== *)
theory Reorder_Facts
  imports Dendrogram Csr_Properties
begin

section \<open>The transpose and the aggregation loop\<close>

text \<open>
  The transpose represents the in-edges row by row. Each visit of the aggregation loop returns and
  keeps the forest, whatever the weights and gains are: an edge is only ever added under a vertex
  that is a root and is not the visited one.
\<close>

subsection \<open>The transpose\<close>

definition arcs :: "node_id list list \<Rightarrow> (nat \<times> node_id) list" where
  "arcs rows = concat (map (\<lambda>u. map (Pair u) (rows ! u)) [0..<length rows])"

lemma map_snd_arcs: "map snd (arcs rows) = concat rows"
proof -
  have "map snd (arcs rows) = concat (map (\<lambda>u. rows ! u) [0..<length rows])" by (simp add: arcs_def map_concat o_def)
  then show ?thesis by (simp add: map_nth)
qed

lemma length_arcs [simp]: "length (arcs rows) = length (concat rows)"
  by (metis length_map map_snd_arcs)

lemma count_dsts_ok:
  assumes "\<forall>d\<in>set ds. unat d < n" and "length offs = n + 1"
  shows "\<exists>offs'. count_dsts ds offs = Some offs' \<and> length offs' = n + 1 \<and> offs' ! 0 = offs ! 0 \<and>
    (\<forall>s<n. offs' ! (s + 1) = offs ! (s + 1) + of_nat (length (filter (\<lambda>d. unat d = s) ds)))"
  using assms
proof (induction ds arbitrary: offs)
  case (Cons d ds)
  let ?offs = "offs[unat d + 1 := offs ! (unat d + 1) + 1]"
  obtain offs' where IH: "count_dsts ds ?offs = Some offs'" "length offs' = n + 1" "offs' ! 0 = ?offs ! 0"
    "\<forall>s<n. offs' ! (s + 1) = ?offs ! (s + 1) + of_nat (length (filter (\<lambda>d. unat d = s) ds))"
    using Cons.IH [of ?offs] Cons.prems by auto
  have "?offs ! (s + 1) = offs ! (s + 1) + (if unat d = s then 1 else 0)" if "s < n" for s
    using that Cons.prems by auto
  then show ?case using IH Cons.prems by (intro exI [of _ offs']) (auto simp: nth_opt_Some algebra_simps)
qed simp

lemma transpose_row_scatter:
  "transpose_row u ds offs srcs = scatter (\<lambda>p. unat (snd p)) fst (map (Pair u) ds) offs srcs"
proof (induction ds arbitrary: offs srcs)
  case (Cons d ds)
  show ?case unfolding transpose_row.simps list.map scatter.simps Cons.IH by simp
qed simp

lemma scatter_append:
  "scatter key val (xs @ ys) offs zs = do { (offs, zs) \<leftarrow> scatter key val xs offs zs; scatter key val ys offs zs }"
  by (induction xs arbitrary: offs zs) (simp_all cong: Option.bind_cong)

lemma transpose_rows_scatter:
  assumes "\<forall>u\<in>set us. view_neighbors view (of_nat u) = Some (rows ! u)"
  shows "transpose_rows view us offs srcs = scatter (\<lambda>p. unat (snd p)) fst (concat (map (\<lambda>u. map (Pair u) (rev (rows ! u))) us)) offs srcs"
  using assms
proof (induction us arbitrary: offs srcs)
  case (Cons u us)
  have nb: "view_neighbors view (of_nat u) = Some (rows ! u)" using Cons.prems by simp
  have rest: "\<And>offs srcs. transpose_rows view us offs srcs =
      scatter (\<lambda>p. unat (snd p)) fst (concat (map (\<lambda>u. map (Pair u) (rev (rows ! u))) us)) offs srcs"
    by (rule Cons.IH) (use Cons.prems in auto)
  show ?case unfolding transpose_rows.simps list.map concat.simps scatter_append transpose_row_scatter nb rest by simp
qed simp

lemma rev_arcs: "concat (map (\<lambda>u. map (Pair u) (rev (rows ! u))) (rev [0..<length rows])) = rev (arcs rows)"
  by (simp add: arcs_def rev_concat rev_map o_def)

lemma view_of_rep:
  assumes "graph_rep g rows"
  shows "\<exists>view. graph_csr_view g = Some view \<and> cv_edges view = concat rows \<and>
    (\<forall>v. view_neighbors view v = Some (if unat v < length rows then rows ! unat v else []))"
proof -
  obtain offs es where o: "offsets_slice g = Some offs" "edges_slice g = Some es" "csr_rep offs es rows"
    "length rows = g_num_nodes g" "length es = g_num_edges g" using assms by (auto simp: graph_rep_def)
  have "view_neighbors \<lparr>cv_offsets = offs, cv_edges = es, cv_num_nodes = g_num_nodes g, cv_num_edges = g_num_edges g\<rparr> v
      = Some (if unat v < length rows then rows ! unat v else [])" for v
    using slice_rep [OF o(3) refl o(3) refl, of v] o(4,5) by (simp add: view_neighbors_def view_neighbor_range_def)
  then show ?thesis using o by (auto simp: graph_csr_view_def csr_rep_def)
qed

definition in_rows :: "node_id list list \<Rightarrow> nat list list" where
  "in_rows rows = bucket_rows (\<lambda>p. unat (snd p)) fst (arcs rows) (length rows)"

lemma transpose_ok:
  assumes rep: "graph_rep g rows" and dst: "\<forall>d\<in>set (concat rows). unat d < length rows" and lim: "length rows \<le> MAX_NODES"
  shows "\<exists>offs srcs. transpose_graph g = Some (offs, srcs) \<and> csr_rep offs srcs (in_rows rows)"
proof -
  let ?key = "\<lambda>p :: nat \<times> node_id. unat (snd p)"
  define n where "n = length rows"
  obtain view where view: "graph_csr_view g = Some view" "cv_edges view = concat rows"
    "\<And>v. view_neighbors view v = Some (if unat v < length rows then rows ! unat v else [])" using view_of_rep [OF rep] by blast
  have n: "g_num_nodes g = n" "g_num_edges g = length (concat rows)" and small: "length (concat rows) < 2 ^ 64"
    using rep csr_rep_small by (auto simp: graph_rep_def n_def csr_rep_def)
  obtain offs1 where o1: "count_dsts (concat rows) (replicate (n + 1) 0) = Some offs1" "length offs1 = n + 1" "offs1 ! 0 = 0"
    "\<forall>s<n. offs1 ! (s + 1) = of_nat (length (filter (\<lambda>d. unat d = s) (concat rows)))"
    using count_dsts_ok [of "concat rows" n "replicate (n + 1) 0"] dst by (auto simp: n_def)
  have cnt: "\<forall>s<n. offs1 ! (s + 1) = of_nat (length (occs ?key (arcs rows) s))"
  proof -
    have "length (filter (\<lambda>d. unat d = s) (concat rows)) = length (occs ?key (arcs rows) s)" for s
      unfolding map_snd_arcs [symmetric] by (simp add: filter_map o_def)
    then show ?thesis using o1(4) by simp
  qed
  have rng: "\<forall>p\<in>set (arcs rows). ?key p < n"
    using dst unfolding n_def map_snd_arcs [symmetric] by auto
  have sm: "length (arcs rows) < 2 ^ 64" using small by simp
  define offs2 where "offs2 = prefix_sum [1..<n + 1] offs1"
  have st: "unat (offs2 ! i) = row_start ?key (arcs rows) i" if "i \<le> n" for i
    using start_offsets [OF cnt o1(3,2) rng sm that] by (simp add: offs2_def row_start_def)
  obtain offs3 srcs where sc: "scatter ?key fst (rev (arcs rows)) offs2 (replicate (length (concat rows)) 0) = Some (offs3, srcs)"
    "length offs3 = n + 1" "csr_rep (shifted n (length (arcs rows)) offs3) srcs (bucket_rows ?key fst (arcs rows) n)"
    using scatter_csr [OF rng _ st _ sm, of "replicate (length (concat rows)) 0" fst] o1(2) by (auto simp: offs2_def)
  have "\<forall>u\<in>set (rev [0..<n]). view_neighbors view (of_nat u) = Some (rows ! u)"
  proof
    fix u assume "u \<in> set (rev [0..<n])"
    then have "u < n" by simp
    moreover have "unat (of_nat u :: u32) = u" using \<open>u < n\<close> lim by (simp add: MAX_NODES_def n_def)
    ultimately show "view_neighbors view (of_nat u) = Some (rows ! u)" by (simp add: view(3) n_def)
  qed
  then have "transpose_rows view (rev [0..<n]) offs2 (replicate (length (concat rows)) 0) = Some (offs3, srcs)"
    using transpose_rows_scatter [of "rev [0..<n]" view rows] rev_arcs [of rows] sc(1) by (simp add: n_def)
  then have "transpose_graph g = Some (shifted n (length (concat rows)) offs3, srcs)"
    using view(1,2) o1(1) unfolding transpose_graph_def n Let_def offs2_def by (simp add: shifted_def)
  then show ?thesis using sc(3) by (auto simp: in_rows_def n_def)
qed

lemma in_rows_bound: "v < length rows \<Longrightarrow> u \<in> set (in_rows rows ! v) \<Longrightarrow> u < length rows"
  by (auto simp: in_rows_def bucket_rows_def arcs_def)

subsection \<open>One visit keeps the forest\<close>

definition carried_ok :: "nat \<Rightarrow> (nat \<times> nat) list option list \<Rightarrow> bool" where
  "carried_ok n car \<longleftrightarrow> length car = n \<and> (\<forall>i<n. \<forall>l. car ! i = Some l \<longrightarrow> (\<forall>p\<in>set l. fst p < n))"

lemma carried_ok_update:
  assumes "carried_ok n car" and "\<And>l. x = Some l \<Longrightarrow> \<forall>p\<in>set l. fst p < n"
  shows "carried_ok n (car[k := x])"
  unfolding carried_ok_def
proof (intro conjI allI impI)
  show "length (car[k := x]) = n" using assms(1) by (simp add: carried_ok_def)
  fix i l assume i: "i < n" and l: "car[k := x] ! i = Some l"
  show "\<forall>p\<in>set l. fst p < n"
  proof (cases "i = k")
    case True
    then have "x = Some l" using i l assms(1) by (simp add: carried_ok_def)
    then show ?thesis by (rule assms(2))
  next
    case False
    then have "car ! i = Some l" using l by simp
    then show ?thesis using assms(1) i unfolding carried_ok_def by blast
  qed
qed

definition rabbit_wf :: "nat \<Rightarrow> nat set \<Rightarrow> rabbit \<Rightarrow> (nat \<Rightarrow> nat list) \<Rightarrow> (nat \<Rightarrow> nat list) \<Rightarrow> bool" where
  "rabbit_wf n todo s kids pr \<longleftrightarrow> forest n (rb_dendro s) kids pr \<and> length (rb_degree s) = n \<and> carried_ok n (rb_carried s) \<and>
     length (rb_visited s) = n \<and> length (rb_weight_to s) = n \<and>
     (\<forall>v\<in>todo. v < n \<and> dn_parent (rb_dendro s) ! v = v)"

definition touched_ok :: "nat \<Rightarrow> nat \<Rightarrow> rabbit \<Rightarrow> bool" where
  "touched_ok n u s \<longleftrightarrow> (\<forall>c\<in>set (rb_touched s). c < n \<and> dn_parent (rb_dendro s) ! c = c \<and> c \<noteq> u)"

definition same_links :: "rabbit \<Rightarrow> rabbit \<Rightarrow> bool" where
  "same_links s s' \<longleftrightarrow> dn_first_child (rb_dendro s') = dn_first_child (rb_dendro s) \<and>
     dn_next_sibling (rb_dendro s') = dn_next_sibling (rb_dendro s)"

lemma same_links_refl [simp]: "same_links s s"
  by (simp add: same_links_def)

lemma same_links_trans: "same_links s s' \<Longrightarrow> same_links s' s'' \<Longrightarrow> same_links s s''"
  by (simp add: same_links_def)

lemma rabbit_add_ok:
  assumes wf: "rabbit_wf n todo s kids pr" and t: "touched_ok n u s" and c: "c < n"
  shows "\<exists>s'. rabbit_add u c w s = Some s' \<and> rabbit_wf n todo s' kids pr \<and> touched_ok n u s' \<and> same_links s s'"
proof -
  have f: "forest n (rb_dendro s) kids pr" using wf by (simp add: rabbit_wf_def)
  obtain r p' where r: "dendro_root (dn_parent (rb_dendro s)) c = Some (r, p')" "r < n" "dn_parent (rb_dendro s) ! r = r"
    "forest n (rb_dendro s\<lparr>dn_parent := p'\<rparr>) kids pr" "\<forall>x<n. p' ! x = x \<longleftrightarrow> dn_parent (rb_dendro s) ! x = x"
    using forest_root [OF f c] by blast
  define s1 where "s1 = s\<lparr>rb_dendro := (rb_dendro s)\<lparr>dn_parent := p'\<rparr>\<rparr>"
  have wf1: "rabbit_wf n todo s1 kids pr" using wf r(4,5) by (auto simp: rabbit_wf_def s1_def)
  have t1: "touched_ok n u s1" using t r(5) by (auto simp: touched_ok_def s1_def)
  show ?thesis
  proof (cases "r = u")
    case True
    then have "rabbit_add u c w s = Some s1" using r(1) by (simp add: rabbit_add_def s1_def)
    then show ?thesis using wf1 t1 by (auto simp: same_links_def s1_def)
  next
    case False
    define s2 where "s2 = s1\<lparr>rb_touched := (if rb_weight_to s ! r = 0 then rb_touched s @ [r] else rb_touched s),
      rb_weight_to := (rb_weight_to s)[r := rb_weight_to s ! r + w]\<rparr>"
    have "rabbit_add u c w s = Some s2"
      using r(1,2) False wf by (simp add: rabbit_add_def rabbit_wf_def nth_opt_Some s1_def s2_def)
    moreover have "rabbit_wf n todo s2 kids pr" using wf1 wf by (simp add: rabbit_wf_def s2_def s1_def)
    moreover have "touched_ok n u s2" using t1 r(2,3,5) False by (auto simp: touched_ok_def s2_def s1_def)
    ultimately show ?thesis by (auto simp: same_links_def s2_def s1_def)
  qed
qed

lemma rabbit_add_all_ok:
  assumes "rabbit_wf n todo s kids pr" and "touched_ok n u s" and "\<forall>p\<in>set cs. fst p < n"
  shows "\<exists>s'. rabbit_add_all u cs s = Some s' \<and> rabbit_wf n todo s' kids pr \<and> touched_ok n u s' \<and> same_links s s'"
  using assms
proof (induction cs arbitrary: s)
  case (Cons p cs)
  obtain c w where p: "p = (c, w)" by fastforce
  obtain s1 where s1: "rabbit_add u c w s = Some s1" "rabbit_wf n todo s1 kids pr" "touched_ok n u s1" "same_links s s1"
    using rabbit_add_ok [OF Cons.prems(1,2), of c w] Cons.prems(3) p by auto
  obtain s2 where "rabbit_add_all u cs s1 = Some s2" "rabbit_wf n todo s2 kids pr" "touched_ok n u s2" "same_links s1 s2"
    using Cons.IH [OF s1(2,3)] Cons.prems(3) by auto
  then show ?case using s1 same_links_trans by (auto simp: p)
qed auto

lemma absorb_children_ok:
  assumes "rabbit_wf n todo s kids pr" and "touched_ok n u s" and "chain (dn_next_sibling (rb_dendro s)) child ks"
    and "\<forall>k\<in>set ks. k < n"
  shows "\<exists>s'. absorb_children u child s = Some s' \<and> rabbit_wf n todo s' kids pr \<and> touched_ok n u s' \<and> same_links s s'"
  using assms
proof (induction ks arbitrary: child s)
  case Nil
  then show ?case by (subst absorb_children.simps) auto
next
  case (Cons k ks)
  have n: "n \<le> NONE_ID" using Cons.prems(1) forestD(1) by (auto simp: rabbit_wf_def)
  have k: "child = k" "k < n" "k \<noteq> NONE_ID" "k < length (dn_next_sibling (rb_dendro s))"
    "chain (dn_next_sibling (rb_dendro s)) (dn_next_sibling (rb_dendro s) ! k) ks"
    using Cons.prems(3,4) n by auto
  define s1 where "s1 = s\<lparr>rb_carried := (rb_carried s)[k := None]\<rparr>"
  have wf1: "rabbit_wf n todo s1 kids pr"
    using Cons.prems(1) carried_ok_update [of n "rb_carried s" None] by (simp add: rabbit_wf_def s1_def)
  have t1: "touched_ok n u s1" using Cons.prems(2) by (simp add: touched_ok_def s1_def)
  have lc: "length (rb_carried s) = n" using Cons.prems(1) by (simp add: rabbit_wf_def carried_ok_def)
  have "\<exists>s2. (case rb_carried s ! k of None \<Rightarrow> Some s1 | Some list \<Rightarrow> rabbit_add_all u list s1) = Some s2 \<and>
      rabbit_wf n todo s2 kids pr \<and> touched_ok n u s2 \<and> same_links s1 s2"
  proof (cases "rb_carried s ! k")
    case (Some l)
    then have "\<forall>p\<in>set l. fst p < n" using Cons.prems(1) k(2) unfolding rabbit_wf_def carried_ok_def by blast
    then show ?thesis using rabbit_add_all_ok [OF wf1 t1] Some by simp
  qed (use wf1 t1 in auto)
  then obtain s2 where s2: "(case rb_carried s ! k of None \<Rightarrow> Some s1 | Some list \<Rightarrow> rabbit_add_all u list s1) = Some s2"
    "rabbit_wf n todo s2 kids pr" "touched_ok n u s2" "same_links s1 s2" by blast
  have nx: "dn_next_sibling (rb_dendro s2) = dn_next_sibling (rb_dendro s)" using s2(4) by (simp add: same_links_def s1_def)
  obtain s3 where s3: "absorb_children u (dn_next_sibling (rb_dendro s) ! k) s2 = Some s3" "rabbit_wf n todo s3 kids pr"
    "touched_ok n u s3" "same_links s2 s3"
    using Cons.IH [OF s2(2,3), of "dn_next_sibling (rb_dendro s) ! k"] k(5) Cons.prems(4) nx by auto
  have "absorb_children u child s = Some s3"
    using k lc s2(1) s3(1) nx by (subst absorb_children.simps) (simp add: nth_opt_Some Let_def s1_def [symmetric])
  moreover have "same_links s s3" using s2(4) s3(4) by (simp add: same_links_def s1_def)
  ultimately show ?case using s3(2,3) by blast
qed

lemma best_merge_ok:
  assumes "\<forall>c\<in>set cs. c < n" and "length (rb_weight_to s) = n" and "length (rb_degree s) = n"
  shows "\<exists>best'. best_merge two_m du s cs best = Some best' \<and> (\<forall>g c. best' = Some (g, c) \<longrightarrow> c \<in> set cs \<or> best = Some (g, c))"
  using assms(1)
proof (induction cs arbitrary: best)
  case (Cons c cs)
  define gain where "gain = int two_m * int (rb_weight_to s ! c) - int du * int (rb_degree s ! c)"
  define best1 where "best1 = (if (case best of None \<Rightarrow> 0 < gain | Some (g, b) \<Rightarrow> g < gain \<or> (gain = g \<and> c < b)) then Some (gain, c) else best)"
  obtain best' where b: "best_merge two_m du s cs best1 = Some best'" "\<forall>g c. best' = Some (g, c) \<longrightarrow> c \<in> set cs \<or> best1 = Some (g, c)"
    using Cons.IH [of best1] Cons.prems by auto
  have "best_merge two_m du s (c # cs) best = Some best'"
    using b(1) Cons.prems assms(2,3) unfolding best1_def gain_def by (simp add: nth_opt_Some Let_def)
  moreover have "\<forall>g d. best' = Some (g, d) \<longrightarrow> d \<in> set (c # cs) \<or> best = Some (g, d)"
    using b(2) by (auto simp: best1_def split: if_splits)
  ultimately show ?case by blast
qed auto

lemma touched_weights_ok:
  assumes "\<forall>c\<in>set cs. c < n" and "length (rb_weight_to s) = n"
  shows "\<exists>ws. touched_weights s cs = Some ws \<and> (\<forall>p\<in>set ws. fst p < n)"
  using assms by (induction cs) (auto simp: nth_opt_Some)

lemma clear_weights_ok: "\<forall>c\<in>set cs. c < length ws \<Longrightarrow> \<exists>ws'. clear_weights cs ws = Some ws' \<and> length ws' = length ws"
proof (induction cs arbitrary: ws)
  case (Cons c cs)
  then show ?case using Cons.IH [of "ws[c := 0]"] by (auto simp: set_opt_Some)
qed simp

lemma rabbit_merge_ok:
  assumes wf: "rabbit_wf n todo s kids pr" and t: "touched_ok n u s" and c: "c \<in> set (rb_touched s)" and u: "u \<in> todo"
  shows "\<exists>s'. rabbit_merge u c s = Some s' \<and>
    rabbit_wf n (todo - {u}) s' (kids(c := u # kids c)) (pr(c := c # pr u @ concat (map pr (kids c)))) \<and>
    rb_touched s' = rb_touched s \<and> rb_weight_to s' = rb_weight_to s"
proof -
  have f: "forest n (rb_dendro s) kids pr" using wf by (simp add: rabbit_wf_def)
  have l: "length (dn_parent (rb_dendro s)) = n" "length (dn_first_child (rb_dendro s)) = n" "length (dn_next_sibling (rb_dendro s)) = n"
    "length (rb_degree s) = n" "length (rb_carried s) = n" "length (rb_visited s) = n" "length (rb_weight_to s) = n"
    using forestD(2-4) [OF f] wf by (simp_all add: rabbit_wf_def carried_ok_def)
  have cc: "c < n" "dn_parent (rb_dendro s) ! c = c" "u \<noteq> c" using t c by (auto simp: touched_ok_def)
  have uu: "u < n" "dn_parent (rb_dendro s) ! u = u" using wf u by (auto simp: rabbit_wf_def)
  obtain ws where ws: "touched_weights s (rb_touched s) = Some ws" "\<forall>p\<in>set ws. fst p < n"
    using touched_weights_ok [of "rb_touched s" n s] t l(7) by (auto simp: touched_ok_def)
  define car where "car = (if rb_visited s ! c then rb_carried s else (rb_carried s)[u := Some ws])"
  define d' where "d' = \<lparr>dn_parent = (dn_parent (rb_dendro s))[u := c], dn_first_child = (dn_first_child (rb_dendro s))[c := u],
    dn_next_sibling = (dn_next_sibling (rb_dendro s))[u := dn_first_child (rb_dendro s) ! c]\<rparr>"
  define s' where "s' = s\<lparr>rb_dendro := d', rb_degree := (rb_degree s)[c := rb_degree s ! c + rb_degree s ! u], rb_carried := car\<rparr>"
  have run: "rabbit_merge u c s = Some s'"
    using l cc uu ws(1) by (simp add: rabbit_merge_def nth_opt_Some set_opt_Some s'_def d'_def car_def)
  have car: "carried_ok n car"
    using wf carried_ok_update [of n "rb_carried s" "Some ws" u] ws(2) by (simp add: car_def rabbit_wf_def)
  have td: "\<forall>v\<in>todo - {u}. v < n \<and> dn_parent d' ! v = v" using wf by (auto simp: rabbit_wf_def d'_def)
  have "forest n d' (kids(c := u # kids c)) (pr(c := c # pr u @ concat (map pr (kids c))))"
    unfolding d'_def by (rule forest_link [OF f uu cc])
  then have "rabbit_wf n (todo - {u}) s' (kids(c := u # kids c)) (pr(c := c # pr u @ concat (map pr (kids c))))"
    unfolding rabbit_wf_def using l car td by (simp add: s'_def)
  then show ?thesis using run by (simp add: s'_def)
qed

lemma rabbit_wf_less: "rabbit_wf n todo s kids pr \<Longrightarrow> todo' \<subseteq> todo \<Longrightarrow> rabbit_wf n todo' s kids pr"
  by (auto simp: rabbit_wf_def)

lemma rabbit_visit_ok:
  assumes wf: "rabbit_wf n todo s kids pr" and u: "u \<in> todo"
    and outs: "view_neighbors view (of_nat u) = Some outs" "\<forall>d\<in>set outs. unat d < n"
    and ins: "csr_rep in_offs in_srcs irows" "length irows = n" "\<forall>v\<in>set (irows ! u). v < n"
  shows "\<exists>s' kids' pr'. rabbit_visit view in_offs in_srcs two_m u s = Some s' \<and> rabbit_wf n (todo - {u}) s' kids' pr'"
proof -
  have un: "u < n" using wf u by (auto simp: rabbit_wf_def)
  define s0 where "s0 = s\<lparr>rb_touched := []\<rparr>"
  have wf0: "rabbit_wf n todo s0 kids pr" "touched_ok n u s0" using wf by (simp_all add: rabbit_wf_def touched_ok_def s0_def)
  obtain s1 where s1: "rabbit_add_all u (map (\<lambda>v. (unat v, 1)) outs) s0 = Some s1" "rabbit_wf n todo s1 kids pr" "touched_ok n u s1"
    using rabbit_add_all_ok [OF wf0, of "map (\<lambda>v. (unat v, 1)) outs"] outs(2) by auto
  have lo: "length in_offs = n + 1" using csr_rep_lengths [OF ins(1)] ins(2) by simp
  have sl: "slice_opt in_srcs (unat (in_offs ! u)) (unat (in_offs ! (u + 1))) = Some (irows ! u)"
    using csr_rep_row [OF ins(1), of u] un ins(2) by simp
  obtain s2 where s2: "rabbit_add_all u (map (\<lambda>v. (v, 1)) (irows ! u)) s1 = Some s2" "rabbit_wf n todo s2 kids pr" "touched_ok n u s2"
    using rabbit_add_all_ok [OF s1(2,3), of "map (\<lambda>v. (v, 1)) (irows ! u)"] ins(3) by auto
  have f2: "forest n (rb_dendro s2) kids pr" using s2(2) by (simp add: rabbit_wf_def)
  note fd = forestD(3) [OF f2] forestD(5) [OF f2 un] forestD(6) [OF f2 un]
  obtain s3 where s3: "absorb_children u (dn_first_child (rb_dendro s2) ! u) s2 = Some s3" "rabbit_wf n todo s3 kids pr" "touched_ok n u s3"
    using absorb_children_ok [OF s2(2,3) fd(2)] fd(3) by blast
  have l3: "length (rb_weight_to s3) = n" "length (rb_degree s3) = n" "length (rb_visited s3) = n"
    using s3(2) by (simp_all add: rabbit_wf_def)
  have tn: "\<forall>c\<in>set (rb_touched s3). c < n" using s3(3) by (auto simp: touched_ok_def)
  obtain best where best: "best_merge two_m (rb_degree s3 ! u) s3 (rb_touched s3) None = Some best"
    "\<forall>g c. best = Some (g, c) \<longrightarrow> c \<in> set (rb_touched s3)"
    using best_merge_ok [OF tn l3(1,2)] by fastforce
  have "\<exists>s4 kids' pr'. (case best of None \<Rightarrow> Some s3 | Some (_, c) \<Rightarrow> rabbit_merge u c s3) = Some s4 \<and>
      rabbit_wf n (todo - {u}) s4 kids' pr' \<and> rb_touched s4 = rb_touched s3 \<and> rb_weight_to s4 = rb_weight_to s3"
  proof (cases best)
    case None
    have "rabbit_wf n (todo - {u}) s3 kids pr" using rabbit_wf_less [OF s3(2)] by blast
    then show ?thesis using None by auto
  next
    case (Some gc)
    then obtain g c where "best = Some (g, c)" "c \<in> set (rb_touched s3)" using best(2) by (cases gc) auto
    then show ?thesis using rabbit_merge_ok [OF s3(2,3) _ u, of c] by auto
  qed
  then obtain s4 kids' pr' where s4: "(case best of None \<Rightarrow> Some s3 | Some (_, c) \<Rightarrow> rabbit_merge u c s3) = Some s4"
    "rabbit_wf n (todo - {u}) s4 kids' pr'" "rb_touched s4 = rb_touched s3" "rb_weight_to s4 = rb_weight_to s3" by blast
  obtain ws where ws: "clear_weights (rb_touched s4) (rb_weight_to s4) = Some ws" "length ws = n"
    using clear_weights_ok [of "rb_touched s4" "rb_weight_to s4"] tn s4(3,4) l3(1) by auto
  have l4: "length (rb_visited s4) = n" using s4(2) by (simp add: rabbit_wf_def)
  define s5 where "s5 = s4\<lparr>rb_weight_to := ws, rb_visited := (rb_visited s4)[u := True]\<rparr>"
  have "rabbit_visit view in_offs in_srcs two_m u s = Some s5"
    using outs(1) s1(1) lo un sl s2(1) fd(1) s3(1) l3(2) best(1) s4(1) ws(1) l4
    by (simp add: rabbit_visit_def s0_def nth_opt_Some set_opt_Some s5_def)
  moreover have "rabbit_wf n (todo - {u}) s5 kids' pr'" using s4(2) ws(2) by (simp add: rabbit_wf_def s5_def)
  ultimately show ?thesis by blast
qed

end
