(* ===== verification/Permute.thy ===== *)
theory Permute
  imports Csr_Properties Reorder
begin

section \<open>Relabelling a graph\<close>

text \<open>
  The chunked row fill writes each row once, whatever the chunk borders are; a list of ids passes
  the inversion loop exactly when it is a permutation; the permuted graph holds the rows of the
  old one, relabelled.
\<close>

subsection \<open>Segments of a list of rows\<close>

definition seg :: "'a list \<Rightarrow> nat \<Rightarrow> nat \<Rightarrow> 'a list" where
  "seg xs a b = take (b - a) (drop a xs)"

lemma seg_same [simp]: "seg xs a a = []"
  by (simp add: seg_def)

lemma seg_all [simp]: "seg xs 0 (length xs) = xs"
  by (simp add: seg_def)

lemma seg_append: "a \<le> b \<Longrightarrow> b \<le> c \<Longrightarrow> seg xs a b @ seg xs b c = seg xs a c"
  unfolding seg_def using take_add [of "b - a" "c - b" "drop a xs"] by simp

lemma seg_one: "a < length xs \<Longrightarrow> seg xs a (Suc a) = [xs ! a]"
  by (simp add: seg_def take_Suc_conv_app_nth)

lemma seg_Cons: "a < b \<Longrightarrow> b \<le> length xs \<Longrightarrow> seg xs a b = xs ! a # seg xs (Suc a) b"
  using seg_append [of a "Suc a" b xs] seg_one [of a xs] by simp

lemma seg_snoc: "a \<le> b \<Longrightarrow> b < length xs \<Longrightarrow> seg xs a (Suc b) = seg xs a b @ [xs ! b]"
  using seg_append [of a b "Suc b" xs] seg_one [of b xs] by simp

lemma seg_length:
  assumes "csr_rep offs xs rows" and "a \<le> b" and "b \<le> length rows"
  shows "length (concat (seg rows a b)) = unat (offs ! b) - unat (offs ! a)" and "offs ! a \<le> offs ! b"
proof -
  have o: "unat (offs ! b) = length (concat (take b rows))" "unat (offs ! a) = length (concat (take a rows))"
    using assms by (simp_all add: csr_rep_def)
  moreover have "take b rows = take a rows @ seg rows a b" using seg_append [of 0 a b rows] assms(2) by (simp add: seg_def)
  ultimately show "length (concat (seg rows a b)) = unat (offs ! b) - unat (offs ! a)" by simp
  show "offs ! a \<le> offs ! b" using o length_concat_take_mono [OF assms(2)] by (simp add: word_le_nat_alt)
qed

subsection \<open>The chunked fill\<close>

lemma fill_chunk_rows_ok:
  assumes olds: "csr_rep offs out olds" and news: "csr_rep offs ys news" and n: "length olds = length news"
    and fill: "\<And>i. i < length news \<Longrightarrow> fill i (olds ! i) = Some (news ! i)"
    and "s \<le> m" and "m \<le> t" and t: "t \<le> length news"
  shows "fill_chunk_rows offs (offs ! s) fill [m..<t] (concat (seg news s m) @ concat (seg olds m t)) = Some (concat (seg news s t))"
  using assms(5,6)
proof (induction "t - m" arbitrary: m)
  case (Suc k)
  then have m: "m < t" "[m..<t] = m # [Suc m..<t]" by (simp_all add: upt_conv_Cons)
  have lo: "length offs = length news + 1" by (rule csr_rep_lengths [OF news])
  have l0: "length (concat (seg news s m)) = unat (offs ! m - offs ! s)"
    using seg_length [OF news, of s m] Suc.prems m t by (simp add: unat_sub)
  have l1: "length (concat (seg news s (Suc m))) = unat (offs ! Suc m - offs ! s)"
    using seg_length [OF news, of s "Suc m"] Suc.prems m t by (simp add: unat_sub)
  have sn: "seg news s (Suc m) = seg news s m @ [news ! m]" using seg_snoc [of s m news] Suc.prems m t by simp
  have lr: "length (olds ! m) = length (news ! m)"
    using csr_rep_bounds(3) [OF olds, of m] csr_rep_bounds(3) [OF news, of m] m t n by simp
  have so: "seg olds m t = olds ! m # seg olds (Suc m) t" using seg_Cons [of m t olds] m t n by simp
  have hi: "unat (offs ! Suc m - offs ! s) = length (concat (seg news s m)) + length (olds ! m)" using l1 sn lr by simp
  have IH: "fill_chunk_rows offs (offs ! s) fill [Suc m..<t] (concat (seg news s (Suc m)) @ concat (seg olds (Suc m) t)) = Some (concat (seg news s t))"
    using Suc.hyps(1) [of "Suc m"] Suc.hyps(2) Suc.prems m by simp
  have "slice_opt (concat (seg news s m) @ concat (seg olds m t)) (unat (offs ! m - offs ! s)) (unat (offs ! Suc m - offs ! s)) = Some (olds ! m)"
    unfolding hi l0 [symmetric] so by (simp add: slice_opt_def)
  moreover have "take (unat (offs ! m - offs ! s)) (concat (seg news s m) @ concat (seg olds m t)) @ news ! m @
      drop (unat (offs ! Suc m - offs ! s)) (concat (seg news s m) @ concat (seg olds m t)) =
      concat (seg news s (Suc m)) @ concat (seg olds (Suc m) t)"
    unfolding hi l0 [symmetric] so sn by simp
  ultimately show ?case using IH m t lo fill [of m] by (simp add: nth_opt_Some Let_def)
qed simp

lemma fill_chunks_ok:
  assumes olds: "csr_rep offs out olds" and news: "csr_rep offs ys news" and n: "length olds = length news"
    and fill: "\<And>i. i < length news \<Longrightarrow> fill i (olds ! i) = Some (news ! i)" and "s \<le> length news"
  shows "fill_chunks offs fill (length news) s (concat (seg olds s (length news))) = Some (concat (seg news s (length news)))"
  using assms(5)
proof (induction "length news - s" arbitrary: s rule: less_induct)
  case less
  show ?case
  proof (cases "s < length news")
    case False
    then show ?thesis using less.prems by (subst fill_chunks.simps) simp
  next
    case True
    define t where "t = min (s + ROWS_PER_CHUNK) (length news)"
    have t: "s < t" "t \<le> length news" using True by (auto simp: t_def ROWS_PER_CHUNK_def)
    have lo: "length offs = length news + 1" by (rule csr_rep_lengths [OF news])
    have sp: "concat (seg olds s (length news)) = concat (seg olds s t) @ concat (seg olds t (length news))"
      "concat (seg news s (length news)) = concat (seg news s t) @ concat (seg news t (length news))"
      using seg_append [of s t "length news"] t by (metis concat_append less_imp_le)+
    have len: "unat (offs ! t - offs ! s) = length (concat (seg olds s t))"
      using seg_length [OF olds, of s t] t n by (simp add: unat_sub)
    have f: "fill_chunk_rows offs (offs ! s) fill [s..<t] (concat (seg olds s t)) = Some (concat (seg news s t))"
      using fill_chunk_rows_ok [where fill = fill, OF olds news n fill, of s s t] t by simp
    have IH: "fill_chunks offs fill (length news) t (concat (seg olds t (length news))) = Some (concat (seg news t (length news)))"
      using less.hyps [of t] t by simp
    show ?thesis
      using True t lo f IH unfolding sp by (subst fill_chunks.simps) (simp add: nth_opt_Some Let_def len flip: t_def)
  qed
qed

lemma par_fill_rows_ok:
  assumes news: "csr_rep offs ys news" and l: "length out = length ys"
    and fill: "\<And>i old. i < length news \<Longrightarrow> length old = length (news ! i) \<Longrightarrow> fill i old = Some (news ! i)"
  shows "par_fill_rows out offs fill = Some ys"
proof -
  have lo: "length offs = length news + 1" by (rule csr_rep_lengths [OF news])
  have la: "offs ! (length offs - 1) = of_nat (length ys)"
    using csr_rep_last [OF news] lo by (metis add_diff_cancel_right' of_nat_unat_u64)
  have olds: "csr_rep offs out (rows_of offs out)"
    using csr_rep_sorted [OF news] csr_rep_first [OF news] csr_rep_last [OF news] lo l by (intro csr_rep_rows_of) auto
  have n: "length (rows_of offs out) = length news" using lo by simp
  have f: "fill i (rows_of offs out ! i) = Some (news ! i)" if "i < length news" for i
    using fill [OF that] csr_rep_bounds(3) [OF olds, of i] csr_rep_bounds(3) [OF news that] that n by simp
  have "concat (rows_of offs out) = out" "concat news = ys" using olds news by (simp_all add: csr_rep_def)
  moreover have "offs \<noteq> []" using lo by auto
  ultimately have "fill_chunks offs fill (length news) 0 out = Some ys" and "offs \<noteq> []"
    using fill_chunks_ok [where fill = fill, OF olds news n f, of 0] n by (metis le0 seg_all)+
  moreover have "last offs = of_nat (length out)" using la l lo \<open>offs \<noteq> []\<close> by (simp add: last_conv_nth)
  ultimately show ?thesis using lo by (simp add: par_fill_rows_def)
qed


subsection \<open>The offsets of the new rows\<close>

lemma sizes_rep:
  assumes small: "length (concat rows) < 2 ^ 64"
  shows "csr_rep (prefix_sum [1..<length rows + 1] (0 # map (\<lambda>r. of_nat (length r)) rows)) (concat rows) rows"
proof -
  let ?o = "0 # map (\<lambda>r. of_nat (length r) :: u64) rows"
  have "unat (prefix_sum [1..<length rows + 1] ?o ! i) = length (concat (take i rows))" if i: "i \<le> length rows" for i
  proof -
    have "prefix_sum [1..<length rows + 1] ?o ! i = (\<Sum>s<i. ?o ! (s + 1))"
      using prefix_sum_upt [of "length rows" "length rows" ?o] i by simp
    also have "\<dots> = of_nat (\<Sum>s<i. length (rows ! s))" using i by simp
    also have "(\<Sum>s<i. length (rows ! s)) = length (concat (take i rows))"
      using i by (induction i) (simp_all add: concat_take_Suc)
    finally have e: "prefix_sum [1..<length rows + 1] ?o ! i = of_nat (length (concat (take i rows)))" .
    have "length (concat (take i rows)) < 2 ^ 64" using length_concat_take_mono [OF i, of rows] small by simp
    then show ?thesis unfolding e by (rule unat_of_nat_u64)
  qed
  then show ?thesis by (simp add: csr_rep_def)
qed

lemma permuted_length:
  assumes "mset ps = mset [0..<length rows]"
  shows "length (concat (map ((!) rows) ps)) = length (concat rows)"
proof -
  have "length (concat (map ((!) rows) ps)) = sum_mset (image_mset (\<lambda>p. length (rows ! p)) (mset ps))"
    by (simp add: length_concat o_def flip: sum_mset_sum_list)
  also have "\<dots> = sum_list (map (\<lambda>p. length (rows ! p)) [0..<length rows])"
    unfolding assms by (simp only: mset_map [symmetric] sum_mset_sum_list)
  also have "\<dots> = length (concat (map ((!) rows) [0..<length rows]))" by (simp add: length_concat o_def)
  finally show ?thesis by (simp add: map_nth)
qed

subsection \<open>The inversion\<close>

lemma invert_loop_cases:
  assumes "length iv = n" and "k + length olds \<le> NONE_ID"
  shows "if distinct olds \<and> (\<forall>p\<in>set olds. unat p < n \<and> iv ! unat p = NONE_ID)
    then \<exists>iv'. invert_loop n olds k iv = Inr iv' \<and> length iv' = n \<and> (\<forall>i<length olds. iv' ! unat (olds ! i) = k + i) \<and>
      (\<forall>q<n. (\<forall>p\<in>set olds. unat p \<noteq> q) \<longrightarrow> iv' ! q = iv ! q)
    else \<exists>e. invert_loop n olds k iv = Inl e"
  using assms
proof (induction olds arbitrary: k iv)
  case (Cons p ps)
  show ?case
  proof (cases "unat p < n \<and> iv ! unat p = NONE_ID")
    case False
    then show ?thesis by auto
  next
    case True
    let ?iv = "iv[unat p := k]"
    have k: "k \<noteq> NONE_ID" using Cons.prems(2) by simp
    have at: "?iv ! unat q = (if q = p then k else iv ! unat q)" for q
      using Cons.prems(1) True by (simp add: nth_list_update word_unat_eq_iff)
    have c: "(distinct ps \<and> (\<forall>q\<in>set ps. unat q < n \<and> ?iv ! unat q = NONE_ID)) \<longleftrightarrow>
        (distinct (p # ps) \<and> (\<forall>q\<in>set (p # ps). unat q < n \<and> iv ! unat q = NONE_ID))"
      unfolding at using True k by auto
    have run: "invert_loop n (p # ps) k iv = invert_loop n ps (Suc k) ?iv" using True by simp
    have l: "length ?iv = n" "Suc k + length ps \<le> NONE_ID" using Cons.prems by simp_all
    show ?thesis
    proof (cases "distinct ps \<and> (\<forall>q\<in>set ps. unat q < n \<and> ?iv ! unat q = NONE_ID)")
      case False
      have "\<exists>e. invert_loop n ps (Suc k) ?iv = Inl e" using Cons.IH [OF l] unfolding if_not_P [OF False] .
      then show ?thesis unfolding run if_not_P [OF False [unfolded c]] .
    next
      case ok: True
      then obtain iv' where iv': "invert_loop n ps (Suc k) ?iv = Inr iv'" "length iv' = n"
        "\<forall>i<length ps. iv' ! unat (ps ! i) = Suc k + i" "\<forall>q<n. (\<forall>p\<in>set ps. unat p \<noteq> q) \<longrightarrow> iv' ! q = ?iv ! q"
        using Cons.IH [OF l] unfolding if_P [OF ok] by blast
      have d: "p \<notin> set ps" using ok c by auto
      have "iv' ! unat ((p # ps) ! i) = k + i" if "i < length (p # ps)" for i
      proof (cases i)
        case 0
        have "\<forall>q\<in>set ps. unat q \<noteq> unat p" using d by (metis word_unat_eq_iff)
        then show ?thesis using 0 iv'(4) True Cons.prems(1) by simp
      qed (use that iv'(3) in simp)
      moreover have "\<forall>q<n. (\<forall>x\<in>set (p # ps). unat x \<noteq> q) \<longrightarrow> iv' ! q = iv ! q" using iv'(4) by auto
      ultimately show ?thesis using iv'(1,2) unfolding run if_P [OF ok [unfolded c]] by blast
    qed
  qed
qed auto


subsection \<open>The permuted graph\<close>

text \<open>What a validated graph holds, row by row: the destinations, and the edge attributes in the same shape.\<close>

definition attr_rep :: "edge_offset list \<Rightarrow> 'a list option \<Rightarrow> 'a list list option \<Rightarrow> bool" where
  "attr_rep offs xs xrows \<longleftrightarrow> (case xs of None \<Rightarrow> xrows = None | Some ys \<Rightarrow> \<exists>rs. xrows = Some rs \<and> csr_rep offs ys rs)"

definition graph_rows :: "graph \<Rightarrow> edge_offset list \<Rightarrow> node_id list list \<Rightarrow> f32_bits list list option \<Rightarrow> f64_bits list list option \<Rightarrow> bool" where
  "graph_rows g offs rows wrows trows \<longleftrightarrow> (\<exists>es ws. offsets_slice g = Some offs \<and> edges_slice g = Some es \<and> weights_slice g = Some ws \<and>
     csr_rep offs es rows \<and> length rows = g_num_nodes g \<and> length es = g_num_edges g \<and>
     attr_rep offs ws wrows \<and> attr_rep offs (g_timestamps g) trows)"

lemma attr_repE:
  assumes "csr_rep offs es rows" and "\<forall>w. ws = Some w \<longrightarrow> length w = length es"
  shows "\<exists>wrows. attr_rep offs ws wrows"
proof (cases ws)
  case (Some w)
  have "csr_rep offs w (rows_of offs w)"
    using csr_rep_sorted [OF assms(1)] csr_rep_first [OF assms(1)] csr_rep_last [OF assms(1)] csr_rep_lengths [OF assms(1)] assms(2) Some
    by (intro csr_rep_rows_of) auto
  then show ?thesis using Some by (auto simp: attr_rep_def)
qed (simp add: attr_rep_def)

lemma typed_graph_rows:
  assumes "graph_typed g" and "g_proof g = Full" and "g_num_edges g < 2 ^ 64"
  shows "\<exists>offs rows wrows trows. graph_rows g offs rows wrows trows \<and> (\<forall>d\<in>set (concat rows). unat d < g_num_dst_nodes g) \<and>
    g_num_nodes g \<le> MAX_NODES"
proof -
  have "OffsetsOnly \<le> g_proof g" using assms(2) by simp
  then obtain rows where "graph_rep g rows" using typed_rep [OF assms(1) _ assms(3)] by blast
  then obtain offs es where r: "offsets_slice g = Some offs" "edges_slice g = Some es" "csr_rep offs es rows" "length rows = g_num_nodes g"
    "length es = g_num_edges g" by (auto simp: graph_rep_def)
  obtain ws where w: "weights_slice g = Some ws" "\<forall>w. ws = Some w \<longrightarrow> length w = g_num_edges g"
    "\<forall>t. g_timestamps g = Some t \<longrightarrow> length t = g_num_edges g" "\<forall>d\<in>set es. unat d < g_num_dst_nodes g" "g_num_nodes g \<le> MAX_NODES"
    using assms(1,2) r(2) by (auto simp: graph_typed_def)
  have "es = concat rows" using r(3) by (simp add: csr_rep_def)
  moreover obtain wrows trows where "attr_rep offs ws wrows" "attr_rep offs (g_timestamps g) trows"
    using attr_repE [OF r(3), of ws] attr_repE [OF r(3), of "g_timestamps g"] w(2,3) r(5) by auto
  ultimately show ?thesis using r w unfolding graph_rows_def by metis
qed

lemma graph_rows_reads:
  assumes g: "graph_rows g offs rows wrows trows" and v: "unat v < g_num_nodes g"
  shows "neighbors g v = Some (rows ! unat v)" and "neighbor_weights g v = Some (map_option (\<lambda>r. r ! unat v) wrows)"
    and "neighbor_timestamps g v = Some (map_option (\<lambda>r. r ! unat v) trows)"
proof -
  obtain es ws where r: "offsets_slice g = Some offs" "edges_slice g = Some es" "weights_slice g = Some ws"
     "csr_rep offs es rows" "length rows = g_num_nodes g" "length es = g_num_edges g"
     "attr_rep offs ws wrows" "attr_rep offs (g_timestamps g) trows" using g by (auto simp: graph_rows_def)
  have sl: "neighbor_range g v \<bind> (\<lambda>(a, b). slice_opt xs a b \<bind> (\<lambda>s. Some (Some s))) = Some (Some (xrows ! unat v))"
    if "csr_rep offs xs xrows" for xs :: "'b list" and xrows
  proof -
    have n: "length xrows = length rows" using csr_rep_lengths [OF that] csr_rep_lengths [OF r(4)] by simp
    have "length xs = length es" using csr_rep_last [OF that] csr_rep_last [OF r(4)] n by simp
    then have "(neighbor_range g v \<bind> (\<lambda>(a, b). slice_opt xs a b)) = Some (xrows ! unat v)"
      using slice_rep [OF r(4) _ that n, of v] v r(1,5,6) by (simp add: neighbor_range_def)
    then show ?thesis by (auto split: Option.bind_splits)
  qed
  show "neighbors g v = Some (rows ! unat v)"
    using slice_rep [OF r(4) refl r(4) refl, of v] v r(1,2,5,6) by (simp add: neighbors_def neighbor_range_def)
  show "neighbor_weights g v = Some (map_option (\<lambda>r. r ! unat v) wrows)"
    using r(3,7) sl by (cases ws) (auto simp: neighbor_weights_def attr_rep_def)
  show "neighbor_timestamps g v = Some (map_option (\<lambda>r. r ! unat v) trows)"
    using r(8) sl by (cases "g_timestamps g") (auto simp: neighbor_timestamps_def attr_rep_def)
qed


lemma csr_rep_lengths_eq:
  assumes "csr_rep offs xs rows" and "map length rows2 = map length rows"
  shows "csr_rep offs (concat rows2) rows2"
proof -
  have l: "length (concat (take i r)) = sum_list (take i (map length r))" for i and r :: "'z list list"
    by (simp add: length_concat take_map)
  have "length rows2 = length rows" using assms(2) by (metis length_map)
  then show ?thesis using assms unfolding csr_rep_def l by simp
qed

text \<open>One attribute moved with its rows.\<close>

lemma permute_attr:
  assumes new: "csr_rep offs' ys (map (\<lambda>p. rows ! unat p) perm)" and len: "\<And>p. p \<in> set perm \<Longrightarrow> length (xrows ! unat p) = length (rows ! unat p)"
    and src: "\<And>p. p \<in> set perm \<Longrightarrow> src p = Some (Some (xrows ! unat p))" and ne: "length ys = ne"
  shows "par_fill_rows (replicate ne z) offs' (permute_rows (\<lambda>i. do { p \<leftarrow> nth_opt perm i; src p }))
      = Some (concat (map (\<lambda>p. xrows ! unat p) perm)) \<and>
    csr_rep offs' (concat (map (\<lambda>p. xrows ! unat p) perm)) (map (\<lambda>p. xrows ! unat p) perm)"
proof -
  let ?new = "map (\<lambda>p. xrows ! unat p) perm"
  have rep: "csr_rep offs' (concat ?new) ?new" using len by (intro csr_rep_lengths_eq [OF new]) simp
  have "length (concat ?new) = ne" using csr_rep_last [OF rep] csr_rep_last [OF new] ne by simp
  then have "par_fill_rows (replicate ne z) offs' (permute_rows (\<lambda>i. do { p \<leftarrow> nth_opt perm i; src p })) = Some (concat ?new)"
    using src by (intro par_fill_rows_ok [OF rep]) (simp_all add: permute_rows_def nth_opt_Some)
  then show ?thesis using rep by blast
qed

definition relabelled :: "graph \<Rightarrow> node_id list \<Rightarrow> graph \<Rightarrow> bool" where
  "relabelled g perm h \<longleftrightarrow> g_num_nodes h = length perm \<and> g_num_edges h = g_num_edges g \<and>
     (\<forall>i<length perm. \<exists>ms. neighbors h (of_nat i) = Some ms \<and> (\<forall>m\<in>set ms. unat m < length perm) \<and>
        neighbors g (perm ! i) = Some (map (\<lambda>m. perm ! unat m) ms) \<and>
        neighbor_weights h (of_nat i) = neighbor_weights g (perm ! i) \<and>
        neighbor_timestamps h (of_nat i) = neighbor_timestamps g (perm ! i))"

lemma permutation_bounds:
  assumes "mset (map unat perm) = mset [0..<n]"
  shows "length perm = n" and "distinct perm" and "\<And>p. p \<in> set perm \<Longrightarrow> unat p < n" and "\<And>q. q < n \<Longrightarrow> \<exists>i<n. unat (perm ! i) = q"
proof -
  show l: "length perm = n" using arg_cong [OF assms, of size] by simp
  have "distinct (map unat perm)" using assms by (metis distinct_upt mset_eq_imp_distinct_iff)
  then show "distinct perm" by (simp add: distinct_map)
  have s: "set (map unat perm) = {0..<n}" using assms by (metis mset_eq_setD set_upt)
  then show "\<And>p. p \<in> set perm \<Longrightarrow> unat p < n" by auto
  show "\<exists>i<n. unat (perm ! i) = q" if "q < n" for q
  proof -
    have "q \<in> set (map unat perm)" using that s by simp
    then show ?thesis using l by (auto simp: in_set_conv_nth)
  qed
qed


lemma those_map_Some: "(\<And>x. x \<in> set xs \<Longrightarrow> f x = Some (g x)) \<Longrightarrow> those (map f xs) = Some (map g xs)"
  by (induction xs) simp_all

lemma attr_rows_length:
  assumes "csr_rep offs es rows" and "attr_rep offs xs (Some xrows)" and "i < length rows"
  shows "length (xrows ! i) = length (rows ! i)"
proof -
  have x: "csr_rep offs (the xs) xrows" using assms(2) by (cases xs) (auto simp: attr_rep_def)
  have "length xrows = length rows" using csr_rep_lengths [OF x] csr_rep_lengths [OF assms(1)] by simp
  then show ?thesis using csr_rep_bounds(3) [OF x, of i] csr_rep_bounds(3) [OF assms(1,3)] assms(3) by simp
qed

lemma permute_ok:
  assumes g: "graph_rows g offs rows wrows trows" and dst: "\<forall>d\<in>set (concat rows). unat d < g_num_nodes g" and lim: "g_num_nodes g \<le> MAX_NODES"
    and full: "g_proof g = Full" "is_homogeneous g" and perm: "mset (map unat perm) = mset [0..<g_num_nodes g]"
  shows "\<exists>h offs' iv. permute_graph g perm = Some (Inr h, g) \<and> length iv = length perm \<and> (\<forall>i<length perm. iv ! unat (perm ! i) = i) \<and>
    g_num_nodes h = g_num_nodes g \<and> g_num_edges h = g_num_edges g \<and>
    graph_rows h offs' (map (\<lambda>p. map (\<lambda>d. of_nat (iv ! unat d)) (rows ! unat p)) perm)
      (map_option (\<lambda>xr. map (\<lambda>p. xr ! unat p) perm) wrows) (map_option (\<lambda>xr. map (\<lambda>p. xr ! unat p) perm) trows)"
proof -
  define n where "n = g_num_nodes g"
  define ne where "ne = g_num_edges g"
  note P = permutation_bounds [OF perm, folded n_def]
  obtain es ws where r: "offsets_slice g = Some offs" "edges_slice g = Some es" "weights_slice g = Some ws"
     "csr_rep offs es rows" "length rows = n" "length es = ne" "attr_rep offs ws wrows" "attr_rep offs (g_timestamps g) trows"
    using g by (auto simp: graph_rows_def n_def ne_def)
  note reads = graph_rows_reads [OF g, folded n_def]
  have N: "n \<le> NONE_ID" using lim by (simp add: n_def MAX_NODES_def NONE_ID_def)
  obtain iv where iv: "invert_loop n perm 0 (replicate n NONE_ID) = Inr iv" "length iv = n" "\<forall>i<length perm. iv ! unat (perm ! i) = i"
    using invert_loop_cases [of "replicate n NONE_ID" n 0 perm] P N by (auto split: if_splits)
  let ?rel = "\<lambda>d. of_nat (iv ! unat d) :: node_id"
  define prow where "prow = map (\<lambda>p. rows ! unat p) perm"
  have es: "es = concat rows" using r(4) by (simp add: csr_rep_def)
  have tot: "length (concat prow) = ne"
    using permuted_length [of "map unat perm" rows] perm r(5,6) es by (simp add: prow_def n_def o_def)
  have small: "ne < 2 ^ 64" using csr_rep_small [OF r(4)] r(6) by simp
  define offs' where "offs' = prefix_sum [1..<n + 1] (0 # map (\<lambda>r. of_nat (length r)) prow)"
  have new: "csr_rep offs' (concat prow) prow"
    using sizes_rep [of prow] tot small P(1) by (simp add: offs'_def prow_def)
  have sizes: "those (map (\<lambda>p. map_option (\<lambda>ns. of_nat (length ns)) (neighbors g p)) perm) = Some (map (\<lambda>r. of_nat (length r) :: u64) prow)"
  proof -
    have "those (map (\<lambda>p. map_option (\<lambda>ns. of_nat (length ns) :: u64) (neighbors g p)) perm) = Some (map (\<lambda>p. of_nat (length (rows ! unat p))) perm)"
      by (rule those_map_Some) (simp add: reads(1) P(3))
    then show ?thesis by (simp add: prow_def o_def)
  qed
  have "offs' ! n = of_nat ne" using csr_rep_last [OF new] tot P(1) by (metis length_map of_nat_unat_u64 prow_def)
  have erep: "csr_rep offs' (map ?rel (concat prow)) (map (map ?rel) prow)" by (rule csr_rep_map [OF new])
  have edges: "par_fill_rows (replicate ne 0) offs' (\<lambda>new_id row. do {
      p \<leftarrow> nth_opt perm new_id; ns \<leftarrow> neighbors g p;
      xs \<leftarrow> those (map (\<lambda>o'. map_option of_nat (nth_opt iv (unat o'))) (take (length row) ns));
      Some (xs @ drop (length xs) row) }) = Some (map ?rel (concat prow))"
  proof (rule par_fill_rows_ok [OF erep])
    show "length (replicate ne (0 :: node_id)) = length (map ?rel (concat prow))" using tot by simp
    fix i and old :: "node_id list" assume i: "i < length (map (map ?rel) prow)" and old: "length old = length (map (map ?rel) prow ! i)"
    then have pi: "i < length perm" "perm ! i \<in> set perm" by (simp_all add: prow_def)
    have row: "length old = length (rows ! unat (perm ! i))" using old pi(1) by (simp add: prow_def)
    have "set (rows ! unat (perm ! i)) \<subseteq> set (concat rows)" using P(3) [OF pi(2)] r(5) by (auto intro!: bexI [OF _ nth_mem])
    then have "those (map (\<lambda>o'. map_option of_nat (nth_opt iv (unat o'))) (rows ! unat (perm ! i))) = Some (map ?rel (rows ! unat (perm ! i)))"
      using dst iv(2) by (intro those_map_Some) (auto simp: nth_opt_Some n_def)
    then show "(nth_opt perm i \<bind> (\<lambda>p. neighbors g p \<bind> (\<lambda>ns. those (map (\<lambda>o'. map_option of_nat (nth_opt iv (unat o'))) (take (length old) ns)) \<bind>
        (\<lambda>xs. Some (xs @ drop (length xs) old))))) = Some (map (map ?rel) prow ! i)"
      using pi row by (simp add: nth_opt_Some reads(1) P(3) prow_def)
  qed
  have rl: "length (xr ! unat p) = length (rows ! unat p)" if "attr_rep offs xs (Some xr)" "p \<in> set perm" for xs :: "'x list option" and xr p
    using attr_rows_length [OF r(4) that(1)] P(3) [OF that(2)] r(5) by simp
  obtain w' where w': "(case ws of None \<Rightarrow> Some None | Some _ \<Rightarrow> do {
      w \<leftarrow> par_fill_rows (replicate ne 0) offs' (permute_rows (\<lambda>new_id. do { p \<leftarrow> nth_opt perm new_id; neighbor_weights g p }));
      Some (Some w) }) = Some w'" "attr_rep offs' w' (map_option (\<lambda>xr. map (\<lambda>p. xr ! unat p) perm) wrows)"
  proof (cases ws)
    case None
    then show thesis using that r(7) by (auto simp: attr_rep_def)
  next
    case (Some w)
    then obtain xr where xr: "wrows = Some xr" using r(7) by (auto simp: attr_rep_def)
    show thesis
      using that permute_attr [OF new [unfolded prow_def], of xr "neighbor_weights g" ne 0] rl [of ws xr] r(7) xr reads(2) P(3) tot Some
      by (auto simp: attr_rep_def prow_def)
  qed
  obtain t' where t': "(case g_timestamps g of None \<Rightarrow> Some None | Some _ \<Rightarrow> do {
      t \<leftarrow> par_fill_rows (replicate ne 0) offs' (permute_rows (\<lambda>new_id. do { p \<leftarrow> nth_opt perm new_id; neighbor_timestamps g p }));
      Some (Some t) }) = Some t'" "attr_rep offs' t' (map_option (\<lambda>xr. map (\<lambda>p. xr ! unat p) perm) trows)"
  proof (cases "g_timestamps g")
    case None
    then show thesis using that r(8) by (auto simp: attr_rep_def)
  next
    case (Some t)
    then obtain xr where xr: "trows = Some xr" using r(8) by (auto simp: attr_rep_def)
    show thesis
      using that permute_attr [OF new [unfolded prow_def], of xr "neighbor_timestamps g" ne 0] rl [of "g_timestamps g" xr] r(8) xr reads(3) P(3) tot Some
      by (auto simp: attr_rep_def prow_def)
  qed
  define h0 where "h0 = from_trusted_parts n n offs' (map ?rel (concat prow)) w'"
  define h where "h = h0\<lparr>g_timestamps := t'\<rparr>"
  have tl: "length ts = g_num_edges h0" if ts: "t' = Some ts" for ts
  proof -
    obtain tr where "csr_rep offs' ts tr" using t'(2) unfolding attr_rep_def ts option.case by blast
    then have "length ts = length (concat prow)" using csr_rep_last [OF new] csr_rep_last csr_rep_lengths [OF new]
      by (metis csr_rep_lengths add_right_cancel)
    then show ?thesis by (simp add: h0_def from_trusted_parts_def)
  qed
  have stamped: "(case t' of None \<Rightarrow> Some (Inr h0, g) | Some ts \<Rightarrow> Some (set_timestamps h0 ts, g)) = Some (Inr h, g)"
  proof (cases t')
    case None
    have "h0\<lparr>g_timestamps := None\<rparr> = h0" by (simp add: h0_def from_trusted_parts_def)
    then show ?thesis using None by (simp add: h_def)
  next
    case (Some ts)
    then show ?thesis using tl by (simp add: h_def set_timestamps_def)
  qed
  have v: "validate_with_mode g Full = Some (Inr (), g)" using full(1) by (simp add: validate_with_mode_def)
  have run: "permute_graph g perm = Some (Inr h, g)"
    unfolding permute_graph_def
    unfolding v Option.bind.simps prod.case sum.case n_def [symmetric] ne_def [symmetric]
    unfolding Let_def P(1) iv(1) sum.case sizes Option.bind.simps offs'_def [symmetric]
    unfolding edges Option.bind.simps
    unfolding r(3) Option.bind.simps w'(1)
    unfolding t'(1) Option.bind.simps h0_def [symmetric]
    unfolding stamped
    unfolding \<open>offs' ! n = of_nat ne\<close> by (simp only: full(2) simp_thms if_False)
  have "graph_rows h offs' (map (map ?rel) prow) (map_option (\<lambda>xr. map (\<lambda>p. xr ! unat p) perm) wrows) (map_option (\<lambda>xr. map (\<lambda>p. xr ! unat p) perm) trows)"
    using erep w'(2) t'(2) P(1) tot by (simp add: graph_rows_def h_def h0_def from_trusted_parts_def offsets_slice_def edges_slice_def weights_slice_def prow_def)
  then have gr: "graph_rows h offs' (map (\<lambda>p. map ?rel (rows ! unat p)) perm) (map_option (\<lambda>xr. map (\<lambda>p. xr ! unat p) perm) wrows)
      (map_option (\<lambda>xr. map (\<lambda>p. xr ! unat p) perm) trows)" by (simp add: prow_def o_def)
  have hn: "g_num_nodes h = g_num_nodes g" "g_num_edges h = g_num_edges g" using tot by (simp_all add: h_def h0_def from_trusted_parts_def n_def ne_def)
  show ?thesis
    by (rule exI [of _ h], rule exI [of _ offs'], rule exI [of _ iv]) (intro conjI run hn gr; use iv(2,3) P(1) in simp)
qed


lemma relabelled_rows:
  assumes g: "graph_rows g offs rows wrows trows" and dst: "\<forall>d\<in>set (concat rows). unat d < g_num_nodes g" and lim: "g_num_nodes g \<le> MAX_NODES"
    and perm: "mset (map unat perm) = mset [0..<g_num_nodes g]" and iv: "\<forall>i<length perm. iv ! unat (perm ! i) = i"
    and h: "graph_rows h offs' (map (\<lambda>p. map (\<lambda>d. of_nat (iv ! unat d)) (rows ! unat p)) perm)
      (map_option (\<lambda>xr. map (\<lambda>p. xr ! unat p) perm) wrows) (map_option (\<lambda>xr. map (\<lambda>p. xr ! unat p) perm) trows)"
    and n: "g_num_nodes h = g_num_nodes g" "g_num_edges h = g_num_edges g"
  shows "relabelled g perm h"
proof -
  note P = permutation_bounds [OF perm]
  have lr: "length rows = g_num_nodes g" using g by (auto simp: graph_rows_def)
  have small: "unat (of_nat i :: u32) = i" if "i < length perm" for i
    using that P(1) lim by (simp add: MAX_NODES_def)
  have undo: "perm ! unat (of_nat (iv ! unat d) :: u32) = d \<and> unat (of_nat (iv ! unat d) :: u32) < length perm" if d: "unat d < g_num_nodes g" for d
  proof -
    obtain i where i: "i < length perm" "unat (perm ! i) = unat d" using P(4) [OF d] unfolding P(1) by blast
    then have "perm ! i = d" by (metis word_unat_eq_iff)
    moreover have "iv ! unat d = i" using iv i by (metis)
    ultimately show ?thesis using small [OF i(1)] i(1) by simp
  qed
  have "\<exists>ms. neighbors h (of_nat i) = Some ms \<and> (\<forall>m\<in>set ms. unat m < length perm) \<and>
        neighbors g (perm ! i) = Some (map (\<lambda>m. perm ! unat m) ms) \<and>
        neighbor_weights h (of_nat i) = neighbor_weights g (perm ! i) \<and>
        neighbor_timestamps h (of_nat i) = neighbor_timestamps g (perm ! i)" if i: "i < length perm" for i
  proof -
    let ?ms = "map (\<lambda>d. of_nat (iv ! unat d) :: u32) (rows ! unat (perm ! i))"
    have pi: "unat (perm ! i) < g_num_nodes g" using P(3) i by simp
    have hi: "unat (of_nat i :: u32) < g_num_nodes h" using small [OF i] i P(1) n(1) by simp
    have "unat d < g_num_nodes g" if "d \<in> set (rows ! unat (perm ! i))" for d
      using dst that nth_mem [of "unat (perm ! i)" rows] pi lr by auto
    then have m: "\<forall>m\<in>set ?ms. unat m < length perm" "map (\<lambda>m. perm ! unat m) ?ms = rows ! unat (perm ! i)"
      using undo by (auto simp: map_idI)
    have "neighbors h (of_nat i) = Some ?ms" using graph_rows_reads(1) [OF h hi] small [OF i] i by simp
    moreover have "neighbor_weights h (of_nat i) = neighbor_weights g (perm ! i)"
      using graph_rows_reads(2) [OF h hi] graph_rows_reads(2) [OF g pi] small [OF i] i by (simp add: option.map_comp o_def cong: option.map_cong)
    moreover have "neighbor_timestamps h (of_nat i) = neighbor_timestamps g (perm ! i)"
      using graph_rows_reads(3) [OF h hi] graph_rows_reads(3) [OF g pi] small [OF i] i by (simp add: option.map_comp o_def cong: option.map_cong)
    ultimately show ?thesis using graph_rows_reads(1) [OF g pi] m by (intro exI [of _ ?ms]) simp
  qed
  then show ?thesis using P(1) n unfolding relabelled_def by auto
qed

lemma trusted_typed:
  assumes "length offs = n + 1" and "offs ! 0 = 0" and "offs ! n = of_nat (length es)" and "sorted offs" and "\<forall>d\<in>set es. unat d < nd"
    and "n \<le> MAX_NODES" and "nd \<le> MAX_NODES"
  shows "graph_typed (from_trusted_parts n nd offs es None)"
  using assms by (simp add: graph_typed_def from_trusted_parts_def offsets_slice_def edges_slice_def weights_slice_def)

subsection \<open>Properties\<close>

text \<open>C26 (equivalence). On a validated homogeneous graph, \<^verbatim>\<open>permute\<close> accepts exactly the permutations of the
  vertices and returns, never panicking, a graph whose row \<open>i\<close> is the row of \<open>perm[i]\<close> in the old graph under
  the new names, in the same order, with the same weights and timestamps.\<close>

theorem permute_relabels:
  assumes "graph_typed g" and "g_proof g = Full" and "is_homogeneous g" and "g_num_edges g < 2 ^ 64"
  shows "if mset (map unat perm) = mset [0..<g_num_nodes g]
    then \<exists>h. permute_graph g perm = Some (Inr h, g) \<and> relabelled g perm h
    else \<exists>e. permute_graph g perm = Some (Inl e, g)"
proof -
  obtain offs rows wrows trows where g: "graph_rows g offs rows wrows trows" "\<forall>d\<in>set (concat rows). unat d < g_num_nodes g" "g_num_nodes g \<le> MAX_NODES"
    using typed_graph_rows [OF assms(1,2,4)] assms(3) by (auto simp: is_homogeneous_def)
  show ?thesis
  proof (cases "mset (map unat perm) = mset [0..<g_num_nodes g]")
    case True
    show ?thesis
      using permute_ok [OF g assms(2,3) True] relabelled_rows [OF g True] unfolding if_P [OF True] by blast
  next
    case False
    have v: "validate_with_mode g Full = Some (Inr (), g)" using assms(2) by (simp add: validate_with_mode_def)
    have "\<exists>e. permute_graph g perm = Some (Inl e, g)"
    proof (cases "length perm = g_num_nodes g")
      case len: True
      have "\<not> (distinct perm \<and> (\<forall>p\<in>set perm. unat p < g_num_nodes g))"
      proof
        assume a: "distinct perm \<and> (\<forall>p\<in>set perm. unat p < g_num_nodes g)"
        then have "distinct (map unat perm)" by (simp add: distinct_map inj_on_def word_unat_eq_iff)
        moreover have "set (map unat perm) = {0..<g_num_nodes g}"
          using a len distinct_card [OF \<open>distinct (map unat perm)\<close>] by (intro card_subset_eq) auto
        ultimately show False using False by (metis distinct_upt set_eq_iff_mset_eq_distinct set_upt)
      qed
      moreover have "0 + length perm \<le> NONE_ID" using len g(3) by (simp add: MAX_NODES_def NONE_ID_def)
      ultimately obtain e where "invert_loop (g_num_nodes g) perm 0 (replicate (g_num_nodes g) NONE_ID) = Inl e"
        using invert_loop_cases [of "replicate (g_num_nodes g) NONE_ID" "g_num_nodes g" 0 perm] by (auto split: if_splits)
      then show ?thesis using v assms(3) len by (simp add: permute_graph_def)
    qed (use v assms(3) in \<open>simp add: permute_graph_def\<close>)
    then show ?thesis unfolding if_not_P [OF False] .
  qed
qed


theorem permute_relabels_witness:
  "(\<exists>h. permute_graph (from_trusted_parts 2 2 [0, 1, 2] [1, 0] None) [1, 0] = Some (Inr h, from_trusted_parts 2 2 [0, 1, 2] [1, 0] None) \<and>
      relabelled (from_trusted_parts 2 2 [0, 1, 2] [1, 0] None) [1, 0] h) \<and>
   (\<exists>e. permute_graph (from_trusted_parts 2 2 [0, 1, 2] [1, 0] None) [1, 1] = Some (Inl e, from_trusted_parts 2 2 [0, 1, 2] [1, 0] None))"
proof -
  define g :: graph where "g = from_trusted_parts 2 2 [0, 1, 2] [1, 0] None"
  have t: "graph_typed g" unfolding g_def by (rule trusted_typed) (simp_all add: MAX_NODES_def)
  have p: "g_proof g = Full" "is_homogeneous g" "g_num_nodes g = 2" "g_num_edges g < 2 ^ 64"
    by (simp_all add: g_def from_trusted_parts_def is_homogeneous_def)
  have "mset (map unat [1, 0 :: node_id]) = mset [0..<g_num_nodes g]" "mset (map unat [1, 1 :: node_id]) \<noteq> mset [0..<g_num_nodes g]"
    by (simp_all add: p(3) upt_rec)
  then show ?thesis using permute_relabels [OF t p(1,2,4), of "[1, 0]"] permute_relabels [OF t p(1,2,4), of "[1, 1]"]
    unfolding g_def [symmetric] by simp
qed

end
