(* ===== verification/Blocks.thy ===== *)
theory Blocks
  imports AG_Prelude
begin

section \<open>Lists made of blocks\<close>

text \<open>
  A list is \<open>contiguous\<close> for a function when the elements of one value stand together. A
  concatenation of blocks of distinct values is, and filtering it by one value gives that block.
\<close>

definition contiguous :: "('a \<Rightarrow> 'b) \<Rightarrow> 'a list \<Rightarrow> bool" where
  "contiguous h xs \<longleftrightarrow> (\<forall>i j k. i < j \<and> j < k \<and> k < length xs \<and> h (xs ! i) = h (xs ! k) \<longrightarrow> h (xs ! j) = h (xs ! i))"

lemma contiguous_concat:
  assumes "\<And>r x. r \<in> set rs \<Longrightarrow> x \<in> set (f r) \<Longrightarrow> h x = g r" and "distinct rs" and "inj_on g (set rs)"
  shows "contiguous h (concat (map f rs))"
  using assms
proof (induction rs)
  case (Cons r rs)
  let ?rest = "concat (map f rs)"
  have IH: "contiguous h ?rest" by (rule Cons.IH) (use Cons.prems in \<open>auto simp: inj_on_def\<close>)
  have here: "h (f r ! i) = g r" if "i < length (f r)" for i using Cons.prems(1) that by simp
  have there: "h x \<noteq> g r" if x: "x \<in> set ?rest" for x
  proof -
    obtain q where "q \<in> set rs" "x \<in> set (f q)" using x by auto
    then have "h x = g q" "q \<noteq> r" "q \<in> set (r # rs)" using Cons.prems(1,2) by auto
    then show ?thesis using Cons.prems(3) unfolding inj_on_def by auto
  qed
  show ?case
    unfolding contiguous_def
  proof (intro allI impI)
    fix i j k
    let ?xs = "concat (map f (r # rs))"
    assume a: "i < j \<and> j < k \<and> k < length ?xs \<and> h (?xs ! i) = h (?xs ! k)"
    show "h (?xs ! j) = h (?xs ! i)"
    proof (cases "i < length (f r)")
      case True
      have "k < length (f r)"
      proof (rule ccontr)
        assume "\<not> k < length (f r)"
        then have "?xs ! k = ?rest ! (k - length (f r))" "k - length (f r) < length ?rest" using a by (auto simp: nth_append)
        then have "h (?xs ! k) \<noteq> g r" using there nth_mem by metis
        then show False using a here [OF True] True by (simp add: nth_append)
      qed
      then show ?thesis using a True here by (simp add: nth_append)
    next
      case False
      let ?l = "length (f r)"
      have at: "?xs ! x = ?rest ! (x - ?l)" if "i \<le> x" for x using that False by (simp add: nth_append)
      have b: "i - ?l < j - ?l" "j - ?l < k - ?l" "k - ?l < length ?rest" using a False by auto
      have "h (?rest ! (i - ?l)) = h (?rest ! (k - ?l))" using a at [of i] at [of k] by simp
      then have "h (?rest ! (j - ?l)) = h (?rest ! (i - ?l))" using IH b unfolding contiguous_def by blast
      then show ?thesis using a at [of i] at [of j] by simp
    qed
  qed
qed (simp add: contiguous_def)

lemma filter_block_none:
  assumes "\<And>r x. r \<in> set rs \<Longrightarrow> x \<in> set (f r) \<Longrightarrow> h x = g r" and "p \<notin> g ` set rs"
  shows "filter (\<lambda>x. h x = p) (concat (map f rs)) = []"
  using assms by (auto simp: filter_empty_conv)

lemma filter_block:
  assumes "\<And>r x. r \<in> set rs \<Longrightarrow> x \<in> set (f r) \<Longrightarrow> h x = g r" and "distinct (map g rs)" and "r \<in> set rs"
  shows "filter (\<lambda>x. h x = g r) (concat (map f rs)) = f r"
  using assms
proof (induction rs)
  case (Cons q rs)
  have here: "x \<in> set (f q) \<Longrightarrow> h x = g q" for x using Cons.prems(1) by simp
  show ?case
  proof (cases "r = q")
    case True
    have "filter (\<lambda>x. h x = g r) (concat (map f rs)) = []"
      using Cons.prems True by (intro filter_block_none [where g = g]) auto
    moreover have "filter (\<lambda>x. h x = g r) (f q) = f q" using here True by (auto intro: filter_True)
    ultimately show ?thesis using True by simp
  next
    case False
    then have r: "r \<in> set rs" "g q \<noteq> g r" using Cons.prems(2,3) by auto
    have "filter (\<lambda>x. h x = g r) (f q) = []" using here r(2) by (auto simp: filter_empty_conv)
    moreover have "filter (\<lambda>x. h x = g r) (concat (map f rs)) = f r" using Cons.IH Cons.prems r(1) by auto
    ultimately show ?thesis by simp
  qed
qed simp

text \<open>So the order of the blocks does not matter to the filter.\<close>

lemma filter_blocks_permute:
  assumes "\<And>r x. r \<in> set rs \<Longrightarrow> x \<in> set (f r) \<Longrightarrow> h x = g r" and "distinct (map g rs)" and "mset rs' = mset rs"
  shows "filter (\<lambda>x. h x = p) (concat (map f rs')) = filter (\<lambda>x. h x = p) (concat (map f rs))"
proof -
  have s: "set rs' = set rs" using assms(3) by (rule mset_eq_setD)
  have "mset (map g rs') = mset (map g rs)" using assms(3) by simp
  then have d: "distinct (map g rs')" using assms(2) mset_eq_imp_distinct_iff by blast
  show ?thesis
  proof (cases "p \<in> g ` set rs")
    case True
    then obtain r where r: "r \<in> set rs" "p = g r" by blast
    have "filter (\<lambda>x. h x = g r) (concat (map f rs)) = f r" by (rule filter_block) (use assms(1,2) r(1) in auto)
    moreover have "filter (\<lambda>x. h x = g r) (concat (map f rs')) = f r" by (rule filter_block) (use assms(1) d s r(1) in auto)
    ultimately show ?thesis using r(2) by simp
  next
    case False
    then show ?thesis using filter_block_none [of rs f h g p] filter_block_none [of rs' f h g p] assms(1) s by simp
  qed
qed

lemma contiguous_map: "contiguous h (map f xs) = contiguous (h \<circ> f) xs"
  unfolding contiguous_def length_map
proof (intro iff_allI)
  fix i j k
  show "(i < j \<and> j < k \<and> k < length xs \<and> h (map f xs ! i) = h (map f xs ! k) \<longrightarrow> h (map f xs ! j) = h (map f xs ! i)) =
    (i < j \<and> j < k \<and> k < length xs \<and> (h \<circ> f) (xs ! i) = (h \<circ> f) (xs ! k) \<longrightarrow> (h \<circ> f) (xs ! j) = (h \<circ> f) (xs ! i))"
    by (cases "i < j \<and> j < k \<and> k < length xs") auto
qed

end
