(* ===== verification/Reorder_Properties.thy ===== *)
theory Reorder_Properties
  imports Reorder_Facts Permute Blocks
begin

section \<open>Rabbit order: the permutation and the communities\<close>

text \<open>
  The whole ordering on a typed graph: the aggregation loop visits every vertex once and returns a
  forest, the walk of the forest is a permutation, and the partition ids number the trees of the
  forest, so that each community is one contiguous block of the permutation.
\<close>

definition forested :: "nat \<Rightarrow> dendrogram \<Rightarrow> bool" where
  "forested n d \<longleftrightarrow> (\<exists>kids pr. forest n d kids pr)"

subsection \<open>The aggregation loop\<close>

lemma rabbit_loop_ok:
  assumes "rabbit_wf n todo s kids pr" and "set us \<subseteq> todo" and "distinct us" and "n \<le> MAX_NODES"
    and outs: "\<And>v. v < n \<Longrightarrow> \<exists>outs. view_neighbors view (of_nat v) = Some outs \<and> (\<forall>d\<in>set outs. unat d < n)"
    and ins: "csr_rep in_offs in_srcs irows" "length irows = n" "\<And>v x. v < n \<Longrightarrow> x \<in> set (irows ! v) \<Longrightarrow> x < n"
  shows "\<exists>s' kids' pr'. rabbit_loop view in_offs in_srcs two_m us s = Some s' \<and> rabbit_wf n (todo - set us) s' kids' pr'"
  using assms(1-3)
proof (induction us arbitrary: todo s kids pr)
  case (Cons u us)
  have u: "u \<in> todo" "u < n" using Cons.prems(1,2) by (auto simp: rabbit_wf_def)
  obtain ns where ns: "view_neighbors view (of_nat u) = Some ns" "\<forall>d\<in>set ns. unat d < n" using outs [OF u(2)] by blast
  have iu: "\<forall>v\<in>set (irows ! u). v < n" using ins(3) [OF u(2)] by blast
  obtain s1 kids1 pr1 where s1: "rabbit_visit view in_offs in_srcs two_m u s = Some s1" "rabbit_wf n (todo - {u}) s1 kids1 pr1"
    using rabbit_visit_ok [OF Cons.prems(1) u(1) ns ins(1,2) iu] by blast
  have "set us \<subseteq> todo - {u}" "distinct us" using Cons.prems(2,3) by auto
  then obtain s2 kids2 pr2 where s2: "rabbit_loop view in_offs in_srcs two_m us s1 = Some s2"
    "rabbit_wf n (todo - {u} - set us) s2 kids2 pr2" using Cons.IH [OF s1(2)] by blast
  have "todo - {u} - set us = todo - set (u # us)" by auto
  then show ?case using s1(1) s2 by auto
qed auto

lemma vertex_degree_total:
  assumes "view_neighbors view (of_nat v) = Some outs" and "csr_rep in_offs in_srcs irows" and "v < length irows"
  shows "\<exists>d. vertex_degree view in_offs in_srcs v = Some d"
  using assms csr_rep_lengths [OF assms(2)] csr_rep_row [OF assms(2,3)] by (simp add: vertex_degree_def nth_opt_Some)

lemma those_total: "(\<And>x. x \<in> set xs \<Longrightarrow> \<exists>y. f x = Some y) \<Longrightarrow> \<exists>ys. those (map f xs) = Some ys \<and> length ys = length xs"
proof (induction xs)
  case (Cons x xs)
  obtain y where "f x = Some y" using Cons.prems by auto
  moreover obtain ys where "those (map f xs) = Some ys" "length ys = length xs" using Cons by auto
  ultimately show ?case by simp
qed simp

lemma typed_full:
  assumes "graph_typed g" and "g_proof g = Full" and "g_num_edges g < 2 ^ 64"
  shows "\<exists>rows. graph_rep g rows \<and> (\<forall>d\<in>set (concat rows). unat d < g_num_dst_nodes g) \<and> length rows = g_num_nodes g \<and>
    g_num_nodes g \<le> MAX_NODES"
proof -
  have "OffsetsOnly \<le> g_proof g" using assms(2) by simp
  then obtain rows where r: "graph_rep g rows" using typed_rep [OF assms(1) _ assms(3)] by blast
  moreover obtain es where "edges_slice g = Some es" "\<forall>d\<in>set es. unat d < g_num_dst_nodes g" "g_num_nodes g \<le> MAX_NODES"
    using assms(1,2) by (auto simp: graph_typed_def)
  ultimately show ?thesis by (auto simp: graph_rep_def csr_rep_def)
qed

lemma aggregation_ok:
  assumes t: "graph_typed g" "g_proof g = Full" "g_num_edges g < 2 ^ 64" and hom: "is_homogeneous g"
  shows "\<exists>view in_offs in_srcs degree s. graph_csr_view g = Some view \<and> transpose_graph g = Some (in_offs, in_srcs) \<and>
    those (map (vertex_degree view in_offs in_srcs) [0..<g_num_nodes g]) = Some degree \<and>
    rabbit_loop view in_offs in_srcs (sum_list degree) (sort_key (\<lambda>v. degree ! v) [0..<g_num_nodes g])
      \<lparr>rb_dendro = dendro_new (g_num_nodes g), rb_degree = degree, rb_carried = replicate (g_num_nodes g) None,
       rb_visited = replicate (g_num_nodes g) False, rb_weight_to = replicate (g_num_nodes g) 0, rb_touched = []\<rparr> = Some s \<and>
    forested (g_num_nodes g) (rb_dendro s)"
proof -
  define n where "n = g_num_nodes g"
  obtain rows where rows: "graph_rep g rows" "\<forall>d\<in>set (concat rows). unat d < n" "length rows = n" "n \<le> MAX_NODES"
    using typed_full [OF t] hom by (auto simp: n_def is_homogeneous_def)
  obtain view where view: "graph_csr_view g = Some view" "\<And>v. view_neighbors view v = Some (if unat v < n then rows ! unat v else [])"
    using view_of_rep [OF rows(1)] rows(3) by auto
  obtain in_offs in_srcs where tr: "transpose_graph g = Some (in_offs, in_srcs)" "csr_rep in_offs in_srcs (in_rows rows)"
    using transpose_ok [OF rows(1)] rows(2-4) by auto
  have li: "length (in_rows rows) = n" using rows(3) by (simp add: in_rows_def)
  have outs: "\<exists>outs. view_neighbors view (of_nat v) = Some outs \<and> (\<forall>d\<in>set outs. unat d < n)" if "v < n" for v
    using view(2) rows(2,3) by (auto dest: nth_mem)
  have vd: "\<exists>d. vertex_degree view in_offs in_srcs v = Some d" if "v < n" for v
    using outs [OF that] vertex_degree_total [OF _ tr(2)] that li by metis
  obtain degree where deg: "those (map (vertex_degree view in_offs in_srcs) [0..<n]) = Some degree" "length degree = n"
    using those_total [of "[0..<n]" "vertex_degree view in_offs in_srcs"] vd by auto
  define s0 where "s0 = \<lparr>rb_dendro = dendro_new n, rb_degree = degree, rb_carried = replicate n None,
    rb_visited = replicate n False, rb_weight_to = replicate n 0, rb_touched = []\<rparr>"
  have "n \<le> NONE_ID" using rows(4) by (simp add: MAX_NODES_def NONE_ID_def)
  then have wf: "rabbit_wf n {0..<n} s0 (\<lambda>_. []) (\<lambda>v. [v])"
    using forest_new [of n] deg(2) by (simp add: rabbit_wf_def s0_def carried_ok_def dendro_new_def)
  have "set (sort_key (\<lambda>v. degree ! v) [0..<n]) \<subseteq> {0..<n}" "distinct (sort_key (\<lambda>v. degree ! v) [0..<n])" by simp_all
  then obtain s kids pr where "rabbit_loop view in_offs in_srcs (sum_list degree) (sort_key (\<lambda>v. degree ! v) [0..<n]) s0 = Some s"
    "rabbit_wf n ({0..<n} - set (sort_key (\<lambda>v. degree ! v) [0..<n])) s kids pr"
    using rabbit_loop_ok [OF wf _ _ rows(4) outs tr(2) li] in_rows_bound rows(3) by blast
  then show ?thesis using view(1) tr(1) deg(1) unfolding n_def s0_def rabbit_wf_def forested_def by blast
qed

lemma rabbit_dendrogram_ok:
  assumes t: "graph_typed g" and small: "g_num_edges g < 2 ^ 64"
  shows "\<exists>r g'. rabbit_dendrogram g = Some (r, g') \<and> graph_typed g' \<and> g' = g\<lparr>g_proof := g_proof g'\<rparr> \<and>
    (is_homogeneous g \<and> g_proof g = Full \<longrightarrow> (\<exists>d. r = Inr d)) \<and>
    (\<forall>d. r = Inr d \<longrightarrow> g_proof g' = Full \<and> forested (g_num_nodes g) d)"
proof (cases "is_homogeneous g")
  case False
  then show ?thesis using t by (simp add: rabbit_dendrogram_def)
next
  case True
  obtain r g' where v: "validate_with_mode g Full = Some (r, g')" "graph_typed g'" "r = Inr () \<longrightarrow> Full \<le> g_proof g'"
    "g' = g\<lparr>g_proof := g_proof g'\<rparr>" using validate_typed [OF t] by blast
  have full: "g_proof g = Full \<Longrightarrow> r = Inr ()" using v(1) by (simp add: validate_with_mode_def)
  show ?thesis
  proof (cases r)
    case (Inl e)
    then show ?thesis using v full True by (auto simp: rabbit_dendrogram_def)
  next
    case (Inr u)
    have n: "g_num_nodes g' = g_num_nodes g" "g_num_edges g' = g_num_edges g" "is_homogeneous g'" using True
      by (subst v(4), simp add: is_homogeneous_def)+
    have p: "g_proof g' = Full" using v(3) Inr by (cases "g_proof g'") (simp_all add: less_eq_validation_mode_def)
    have "g_num_nodes g \<le> NONE_ID" using v(2) n(1) by (auto simp: graph_typed_def MAX_NODES_def NONE_ID_def)
    then have f0: "forested (g_num_nodes g) (dendro_new (g_num_nodes g))"
      unfolding forested_def using forest_new by blast
    have "\<exists>d. rabbit_dendrogram g = Some (Inr d, g') \<and> forested (g_num_nodes g) d"
      using aggregation_ok [OF v(2) p _ n(3)] small f0 v(1) Inr True
      unfolding rabbit_dendrogram_def n Let_def by (auto simp: n)
    then show ?thesis using v p by auto
  qed
qed


subsection \<open>The communities\<close>

text \<open>After the vertices below \<open>m\<close>: the ids of the roots seen, in the order first seen.\<close>

definition numbered :: "nat list \<Rightarrow> nat \<Rightarrow> nat list \<Rightarrow> nat \<Rightarrow> nat list \<Rightarrow> bool" where
  "numbered p m ids fresh out \<longleftrightarrow> length ids = length p \<and> length out = m \<and> fresh \<le> m \<and> set out = {0..<fresh} \<and>
     (\<forall>v<m. \<forall>r. rooted p v r \<longrightarrow> ids ! r = out ! v) \<and>
     (\<forall>r<length p. ids ! r \<noteq> NONE_ID \<longrightarrow> (\<exists>v<m. rooted p v r)) \<and>
     (\<forall>r<length p. \<forall>s<length p. ids ! r \<noteq> NONE_ID \<and> ids ! r = ids ! s \<longrightarrow> r = s)"

lemma numbered_cong: "\<forall>x s. rooted p' x s \<longleftrightarrow> rooted p x s \<Longrightarrow> length p' = length p \<Longrightarrow> numbered p' m ids fresh out = numbered p m ids fresh out"
  by (simp add: numbered_def)

lemma numbered_old:
  assumes nb: "numbered p m ids fresh out" and r: "rooted p m r" "ids ! r \<noteq> NONE_ID"
  shows "numbered p (Suc m) ids fresh (out @ [ids ! r])"
proof -
  have rl: "r < length p" using rooted_root [OF r(1)] by blast
  obtain v where v: "v < m" "rooted p v r" using nb r(2) rl unfolding numbered_def by blast
  then have "ids ! r = out ! v" "length out = m" using nb unfolding numbered_def by blast+
  then have mem: "ids ! r \<in> set out" using v(1) by (metis nth_mem)
  have "ids ! q = (out @ [ids ! r]) ! w" if "w < Suc m" "rooted p w q" for w q
  proof (cases "w = m")
    case True
    then have "q = r" using that(2) r(1) rooted_unique by blast
    then show ?thesis using True \<open>length out = m\<close> by (simp add: nth_append)
  next
    case False
    then show ?thesis using that nb unfolding numbered_def by (auto simp: nth_append)
  qed
  then show ?thesis using nb mem unfolding numbered_def by (auto simp: less_Suc_eq)
qed

lemma numbered_new:
  assumes nb: "numbered p m ids fresh out" and r: "rooted p m r" "ids ! r = NONE_ID" and m: "m < NONE_ID"
  shows "numbered p (Suc m) (ids[r := fresh]) (fresh + 1) (out @ [fresh])"
proof -
  have rl: "r < length p" using rooted_root [OF r(1)] by blast
  have N: "length ids = length p" "length out = m" "fresh \<le> m" "set out = {0..<fresh}"
    "\<And>v q. v < m \<Longrightarrow> rooted p v q \<Longrightarrow> ids ! q = out ! v"
    "\<And>q. q < length p \<Longrightarrow> ids ! q \<noteq> NONE_ID \<Longrightarrow> \<exists>v<m. rooted p v q"
    "\<And>q s. q < length p \<Longrightarrow> s < length p \<Longrightarrow> ids ! q \<noteq> NONE_ID \<Longrightarrow> ids ! q = ids ! s \<Longrightarrow> q = s"
    using nb unfolding numbered_def by blast+
  have below: "out ! v < fresh" if "v < m" for v using that N(2,4) nth_mem by fastforce
  have unseen: "\<not> rooted p v r" if "v < m" for v using N(5) [OF that, of r] r(2) below [OF that] N(3) m by auto
  have used: "ids ! q < fresh" if q: "q < length p" "ids ! q \<noteq> NONE_ID" for q
    using N(6) [OF q] N(5) below by fastforce
  have A: "(ids[r := fresh]) ! q = (out @ [fresh]) ! w" if w: "w < Suc m" "rooted p w q" for w q
  proof (cases "w = m")
    case True
    then have "q = r" using w(2) r(1) rooted_unique by blast
    then show ?thesis using True N(1,2) rl by (simp add: nth_append)
  next
    case False
    then have "w < m" "q \<noteq> r" using w unseen by auto
    then show ?thesis using N(2) N(5) [of w q] w(2) by (simp add: nth_append)
  qed
  have B: "\<exists>v<Suc m. rooted p v q" if "q < length p" "(ids[r := fresh]) ! q \<noteq> NONE_ID" for q
  proof (cases "q = r")
    case False
    then have "\<exists>v<m. rooted p v q" using N(6) [of q] that by simp
    then show ?thesis using less_SucI by blast
  qed (use r(1) in auto)
  have C: "q = s" if qs: "q < length p" "s < length p" "(ids[r := fresh]) ! q \<noteq> NONE_ID" "(ids[r := fresh]) ! q = (ids[r := fresh]) ! s" for q s
  proof -
    have at: "(ids[r := fresh]) ! x = (if x = r then fresh else ids ! x)" if "x < length p" for x using N(1) that by simp
    have e: "(if q = r then fresh else ids ! q) = (if s = r then fresh else ids ! s)" "(if q = r then fresh else ids ! q) \<noteq> NONE_ID"
      using qs(3,4) unfolding at [OF qs(1)] at [OF qs(2)] by simp_all
    consider "q = r" "s = r" | "q \<noteq> r" "s = r" | "q = r" "s \<noteq> r" | "q \<noteq> r" "s \<noteq> r" by blast
    then show ?thesis
    proof cases
      case 2
      then have "ids ! q = fresh" "ids ! q \<noteq> NONE_ID" using e by simp_all
      then show ?thesis using used [OF qs(1)] by simp
    next
      case 3
      then have "ids ! s = fresh" "ids ! s \<noteq> NONE_ID" using e by simp_all
      then show ?thesis using used [OF qs(2)] by simp
    next
      case 4
      then show ?thesis using e N(7) [OF qs(1,2)] by simp
    qed simp
  qed
  have "set (out @ [fresh]) = {0..<fresh + 1}" using N(4) by auto
  then show ?thesis using N(1-3) A B C unfolding numbered_def by simp
qed

lemma partition_loop_ok:
  assumes "forest n (d\<lparr>dn_parent := p\<rparr>) kids pr" and "numbered p m ids fresh out" and "m \<le> n"
  shows "\<exists>out' p' ids' fresh'. partition_loop [m..<n] p ids fresh out = Some (out', p') \<and> numbered p n ids' fresh' out' \<and>
    forest n (d\<lparr>dn_parent := p'\<rparr>) kids pr"
  using assms
proof (induction "n - m" arbitrary: m p ids fresh out)
  case 0
  then show ?case by auto
next
  case (Suc k)
  then have m: "m < n" "[m..<n] = m # [Suc m..<n]" by (simp_all add: upt_conv_Cons)
  have l: "length p = n" "n \<le> NONE_ID" using forestD(1,2) [OF Suc.prems(1)] by simp_all
  obtain r p1 where r: "dendro_root p m = Some (r, p1)" "r < n" "rooted p m r"
    "forest n (d\<lparr>dn_parent := p1\<rparr>) kids pr" "\<forall>x s. rooted p1 x s \<longleftrightarrow> rooted p x s" "length p1 = n"
    using forest_root [OF Suc.prems(1) m(1)] by auto
  note same = numbered_cong [OF r(5)]
  have li: "length ids = n" using Suc.prems(2) l(1) by (simp add: numbered_def)
  have nb1: "numbered p1 m ids fresh out" "rooted p1 m r" using Suc.prems(2) same r(3,5,6) l(1) by simp_all
  have e: "k = n - Suc m" and sm: "Suc m \<le> n" using Suc.hyps(2) m(1) by simp_all
  show ?case
  proof (cases "ids ! r = NONE_ID")
    case True
    have nb2: "numbered p1 (Suc m) (ids[r := fresh]) (fresh + 1) (out @ [fresh])" using numbered_new [OF nb1 True] m(1) l(2) by simp
    obtain out' p' ids' fresh' where "partition_loop [Suc m..<n] p1 (ids[r := fresh]) (fresh + 1) (out @ [fresh]) = Some (out', p')"
      "numbered p1 n ids' fresh' out'" "forest n (d\<lparr>dn_parent := p'\<rparr>) kids pr"
      using Suc.hyps(1) [OF e r(4) nb2 sm] by blast
    then show ?thesis using r(1,2) True li m(2) same r(6) l(1) by (auto simp: nth_opt_Some)
  next
    case False
    have nb2: "numbered p1 (Suc m) ids fresh (out @ [ids ! r])" using numbered_old [OF nb1 False] by simp
    obtain out' p' ids' fresh' where "partition_loop [Suc m..<n] p1 ids fresh (out @ [ids ! r]) = Some (out', p')"
      "numbered p1 n ids' fresh' out'" "forest n (d\<lparr>dn_parent := p'\<rparr>) kids pr"
      using Suc.hyps(1) [OF e r(4) nb2 sm] by blast
    then show ?thesis using r(1,2) False li m(2) same r(6) l(1) by (auto simp: nth_opt_Some)
  qed
qed

lemma partitions_ok:
  assumes f: "forest n d kids pr"
  shows "\<exists>out d' k. partitions d = Some (out, d') \<and> length out = n \<and> set out = {0..<k} \<and>
    (\<forall>v<n. \<forall>w<n. out ! v = out ! w \<longleftrightarrow> find_root (dn_parent d) v = find_root (dn_parent d) w)"
proof -
  define p where "p = dn_parent d"
  have l: "length p = n" "n \<le> NONE_ID" using forestD(1,2) [OF f] by (simp_all add: p_def)
  have "numbered p 0 (replicate n NONE_ID) 0 []" using l by (simp add: numbered_def)
  moreover have fd: "forest n (d\<lparr>dn_parent := p\<rparr>) kids pr" using f by (simp add: p_def)
  ultimately obtain out p' ids fresh where o: "partition_loop [0..<n] p (replicate n NONE_ID) 0 [] = Some (out, p')"
    "numbered p n ids fresh out" using partition_loop_ok [OF fd] by blast
  have lo: "length out = n" "set out = {0..<fresh}" "fresh \<le> n" using o(2) unfolding numbered_def by blast+
  have "out ! v = out ! w \<longleftrightarrow> find_root p v = find_root p w" if vw: "v < n" "w < n" for v w
  proof -
    obtain r s where rs: "rooted p v r" "rooted p w s" using forestD(8) [OF f] vw unfolding p_def by blast
    then have i: "ids ! r = out ! v" "ids ! s = out ! w" using o(2) vw unfolding numbered_def by blast+
    have rl: "r < length p" "s < length p" using rooted_root rs by blast+
    have "out ! v < fresh" using lo(1,2) nth_mem [of v out] vw by auto
    then have "ids ! r \<noteq> NONE_ID" using i(1) lo(3) l(2) by simp
    then have "ids ! r = ids ! s \<longleftrightarrow> r = s" using o(2) rl unfolding numbered_def by blast
    then show ?thesis using i find_root_ok [OF rs(1)] find_root_ok [OF rs(2)] by simp
  qed
  then show ?thesis using o(1) lo(1,2) l(1) by (auto simp: partitions_def p_def [symmetric])
qed


lemma walk_contiguous:
  assumes f: "forest n d kids pr"
  shows "contiguous (find_root (dn_parent d)) (concat (map pr (roots_of (dn_parent d))))"
proof (rule contiguous_concat)
  fix r x assume "r \<in> set (roots_of (dn_parent d))" and x: "x \<in> set (pr r)"
  then have "r < n" "dn_parent d ! r = r" using forestD(2) [OF f] by (auto simp: roots_of_def)
  then show "find_root (dn_parent d) x = Some r" using forestD(10) [OF f] x find_root_ok by blast
qed (simp_all add: roots_of_def)

lemma forested_ok:
  assumes "forested n d"
  shows "\<exists>perm parts d' k. permutation d = Some perm \<and> partitions d = Some (parts, d') \<and> mset perm = mset [0..<n] \<and>
    length parts = n \<and> set parts = {0..<k} \<and> contiguous ((!) parts) perm"
proof -
  obtain kids pr where f: "forest n d kids pr" using assms unfolding forested_def by blast
  obtain perm where perm: "permutation d = Some perm" "perm = concat (map pr (roots_of (dn_parent d)))" "mset perm = mset [0..<n]"
    using permutation_ok [OF f] by blast
  obtain parts d' k where parts: "partitions d = Some (parts, d')" "length parts = n" "set parts = {0..<k}"
    "\<forall>v<n. \<forall>w<n. parts ! v = parts ! w \<longleftrightarrow> find_root (dn_parent d) v = find_root (dn_parent d) w"
    using partitions_ok [OF f] by blast
  have c: "contiguous (find_root (dn_parent d)) perm" using walk_contiguous [OF f] perm(2) by simp
  have s: "set perm = {0..<n}" using perm(3) by (metis atLeast_upt mset_eq_setD lessThan_atLeast0)
  then have lt: "perm ! i < n" if "i < length perm" for i using nth_mem [OF that] by auto
  have "contiguous ((!) parts) perm"
    unfolding contiguous_def
  proof (intro allI impI)
    fix i j k assume a: "i < j \<and> j < k \<and> k < length perm \<and> parts ! (perm ! i) = parts ! (perm ! k)"
    then have b: "perm ! i < n" "perm ! j < n" "perm ! k < n" using lt by simp_all
    then have "find_root (dn_parent d) (perm ! i) = find_root (dn_parent d) (perm ! k)" using a parts(4) by blast
    then have "find_root (dn_parent d) (perm ! j) = find_root (dn_parent d) (perm ! i)" using a c unfolding contiguous_def by blast
    then show "parts ! (perm ! j) = parts ! (perm ! i)" using b parts(4) by blast
  qed
  then show ?thesis using perm(1,3) parts(1-3) by blast
qed

subsection \<open>Properties\<close>

text \<open>C27 (termination). The ordering returns on every typed graph, whatever its edges: no loop over the dendrogram
  runs forever and no index is out of range. On a validated homogeneous graph it returns a permutation of the
  vertices and dense partition ids, and every partition is one contiguous block of the permutation; the two
  single-result entry points return the same two values.\<close>

theorem rabbit_order_total:
  assumes "graph_typed g" and "g_num_edges g < 2 ^ 64"
  shows "\<exists>r g'. reorder_rabbit_with_partitions g = Some (r, g') \<and> g' = g\<lparr>g_proof := g_proof g'\<rparr> \<and>
    reorder_rabbit g = Some (map_sum id fst r, g') \<and> rabbit_partitions g = Some (map_sum id snd r, g') \<and>
    (is_homogeneous g \<and> g_proof g = Full \<longrightarrow> (\<exists>perm parts. r = Inr (perm, parts))) \<and>
    (\<forall>perm parts. r = Inr (perm, parts) \<longrightarrow> mset perm = mset [0..<g_num_nodes g] \<and> length parts = g_num_nodes g \<and>
       (\<exists>k. set parts = {0..<k}) \<and> contiguous ((!) parts) perm)"
proof -
  obtain r g' where d: "rabbit_dendrogram g = Some (r, g')" "g' = g\<lparr>g_proof := g_proof g'\<rparr>"
    "is_homogeneous g \<and> g_proof g = Full \<longrightarrow> (\<exists>d. r = Inr d)" "\<forall>d. r = Inr d \<longrightarrow> forested (g_num_nodes g) d"
    using rabbit_dendrogram_ok [OF assms] by blast
  show ?thesis
  proof (cases r)
    case (Inl e)
    then show ?thesis using d
      by (intro exI [of _ "Inl e"] exI [of _ g']) (auto simp: reorder_rabbit_with_partitions_def reorder_rabbit_def rabbit_partitions_def)
  next
    case (Inr dn)
    then have "forested (g_num_nodes g) dn" using d(4) by blast
    then obtain perm parts d' k where "permutation dn = Some perm" "partitions dn = Some (parts, d')"
      "mset perm = mset [0..<g_num_nodes g]" "length parts = g_num_nodes g" "set parts = {0..<k}" "contiguous ((!) parts) perm"
      using forested_ok by blast
    then show ?thesis using d Inr
      by (intro exI [of _ "Inr (perm, parts)"] exI [of _ g'])
        (auto simp: reorder_rabbit_with_partitions_def reorder_rabbit_def rabbit_partitions_def)
  qed
qed


theorem rabbit_order_total_witness:
  "\<exists>perm parts. reorder_rabbit (from_trusted_parts 2 2 [0, 1, 2] [1, 0] None) = Some (Inr perm, from_trusted_parts 2 2 [0, 1, 2] [1, 0] None) \<and>
     rabbit_partitions (from_trusted_parts 2 2 [0, 1, 2] [1, 0] None) = Some (Inr parts, from_trusted_parts 2 2 [0, 1, 2] [1, 0] None) \<and>
     mset perm = mset [0, 1] \<and> contiguous ((!) parts) perm"
proof -
  define g :: graph where "g = from_trusted_parts 2 2 [0, 1, 2] [1, 0] None"
  have t: "graph_typed g" unfolding g_def by (rule trusted_typed) (simp_all add: MAX_NODES_def)
  have p: "g_proof g = Full" "is_homogeneous g" "g_num_nodes g = 2" "g_num_edges g < 2 ^ 64"
    by (simp_all add: g_def from_trusted_parts_def is_homogeneous_def)
  obtain r g' where r: "g' = g\<lparr>g_proof := g_proof g'\<rparr>" "reorder_rabbit g = Some (map_sum id fst r, g')"
    "rabbit_partitions g = Some (map_sum id snd r, g')" "\<exists>perm parts. r = Inr (perm, parts)"
    "\<forall>perm parts. r = Inr (perm, parts) \<longrightarrow> mset perm = mset [0..<2] \<and> contiguous ((!) parts) perm"
    using rabbit_order_total [OF t p(4)] p(1-3) by auto
  obtain perm parts where pp: "r = Inr (perm, parts)" using r(4) by blast
  have "validate_with_mode g Full = Some (Inr (), g)" using p(1) by (simp add: validate_with_mode_def)
  then have "g' = g" using r(2) pp unfolding reorder_rabbit_def rabbit_dendrogram_def
    by (auto split: if_splits sum.splits Option.bind_splits simp: Let_def)
  then show ?thesis using r pp unfolding g_def [symmetric] by (auto simp: upt_rec)
qed

end
