(* ===== verification/Batches.thy ===== *)
theory Batches
  imports Blocks Reorder
begin

section \<open>Partition-aligned batches\<close>

text \<open>
  A key packs the partition above the seed's index, so the sorted keys are the seeds grouped by
  partition and in their order inside each; the runs are those groups, and neither the shuffle of
  the runs nor the cut into batches takes a group apart.
\<close>

subsection \<open>The keys\<close>

definition batch_key :: "nat list \<Rightarrow> node_id list \<Rightarrow> nat \<Rightarrow> u64" where
  "batch_key parts seeds i = or (push_bit 32 (of_nat (parts ! unat (seeds ! i)))) (of_nat i)"

lemma bit_of_nat_u64_high: "i < 2 ^ 32 \<Longrightarrow> 32 \<le> m \<Longrightarrow> \<not> bit (of_nat i :: u64) m"
proof -
  assume i: "i < 2 ^ 32" and m: "32 \<le> m"
  have "take_bit 32 i = i" using i by (simp add: take_bit_nat_eq_self)
  then have "bit i m \<Longrightarrow> m < 32" by (metis bit_take_bit_iff)
  then show ?thesis using m by (auto simp: bit_simps)
qed

lemma key_index: "i < 2 ^ 32 \<Longrightarrow> unat (ucast (or (push_bit 32 p) (of_nat i :: u64)) :: u32) = i"
proof -
  assume i: "i < 2 ^ 32"
  have "(ucast (or (push_bit 32 p) (of_nat i :: u64)) :: u32) = of_nat i"
    by (rule bit_word_eqI) (auto simp: bit_simps)
  then show ?thesis using i by simp
qed

lemma key_part: "p < 2 ^ 32 \<Longrightarrow> i < 2 ^ 32 \<Longrightarrow> drop_bit 32 (or (push_bit 32 (of_nat p)) (of_nat i :: u64)) = of_nat p"
proof (rule bit_word_eqI)
  fix m assume p: "p < 2 ^ 32" and i: "i < 2 ^ 32" and "m < LENGTH(64)"
  then show "bit (drop_bit 32 (or (push_bit 32 (of_nat p)) (of_nat i :: u64))) m = bit (of_nat p :: u64) m"
    using bit_of_nat_u64_high [OF p, of m] bit_of_nat_u64_high [OF i, of "32 + m"] by (cases "32 \<le> m") (auto simp: bit_simps)
qed

lemma key_less: "p < 2 ^ 32 \<Longrightarrow> i < j \<Longrightarrow> j < 2 ^ 32 \<Longrightarrow> or (push_bit 32 (of_nat p)) (of_nat i :: u64) < or (push_bit 32 (of_nat p)) (of_nat j)"
proof -
  assume p: "p < 2 ^ 32" and ij: "i < j" and j: "j < 2 ^ 32"
  have e: "or (push_bit 32 (of_nat p)) (of_nat k :: u64) = of_nat (p * 2 ^ 32 + k)" if k: "k < 2 ^ 32" for k
  proof -
    have "and (push_bit 32 (of_nat p)) (of_nat k :: u64) = 0"
      by (rule bit_word_eqI) (use bit_of_nat_u64_high [OF k] in \<open>auto simp: bit_simps\<close>)
    then have "or (push_bit 32 (of_nat p)) (of_nat k :: u64) = push_bit 32 (of_nat p) + of_nat k" by (simp add: disjunctive_add_eq_or)
    then show ?thesis by (simp add: push_bit_eq_mult)
  qed
  have b: "p * 2 ^ 32 + k < 2 ^ 64" if "k < 2 ^ 32" for k
  proof -
    have "p * 2 ^ 32 \<le> (2 ^ 32 - 1) * 2 ^ 32" using p by (intro mult_le_mono1) simp
    then show ?thesis using that by simp
  qed
  have i: "i < 2 ^ 32" using ij j by simp
  have "unat (of_nat (p * 2 ^ 32 + i) :: u64) < unat (of_nat (p * 2 ^ 32 + j) :: u64)"
    unfolding unat_of_nat_u64 [OF b [OF i]] unat_of_nat_u64 [OF b [OF j]] using ij by simp
  then show ?thesis unfolding e [OF i] e [OF j] word_less_nat_alt .
qed

lemma batch_keys_cases:
  "batch_keys parts ss i keyed = (case find (\<lambda>s. length parts \<le> unat s) ss of
     Some s \<Rightarrow> Inl (SeedOutOfRange s)
   | None \<Rightarrow> Inr (keyed @ map (\<lambda>j. or (push_bit 32 (of_nat (parts ! unat (ss ! j)))) (of_nat (i + j))) [0..<length ss]))"
proof (induction ss arbitrary: i keyed)
  case (Cons s ss)
  have "map (\<lambda>j. or (push_bit 32 (of_nat (parts ! unat ((s # ss) ! j)))) (of_nat (i + j)) :: u64) [0..<length (s # ss)] =
      or (push_bit 32 (of_nat (parts ! unat s))) (of_nat i) #
      map (\<lambda>j. or (push_bit 32 (of_nat (parts ! unat (ss ! j)))) (of_nat (Suc i + j))) [0..<length ss]"
    unfolding length_Cons upt_conv_Cons [OF zero_less_Suc] map_Suc_upt [symmetric] by (simp add: ac_simps)
  then show ?case using Cons by (simp split: option.splits)
qed simp

subsection \<open>The runs\<close>

abbreviation top_half :: "u64 \<Rightarrow> u64" where
  "top_half k \<equiv> drop_bit 32 k"

definition same_top :: "u64 list \<Rightarrow> nat \<Rightarrow> nat \<Rightarrow> bool" where
  "same_top ks s b \<longleftrightarrow> (\<forall>j. s \<le> j \<and> j < b \<longrightarrow> top_half (ks ! j) = top_half (ks ! s))"

lemma same_topD: "same_top ks s b \<Longrightarrow> s \<le> j \<Longrightarrow> j < b \<Longrightarrow> top_half (ks ! j) = top_half (ks ! s)"
  unfolding same_top_def by blast

lemma same_top_Suc: "same_top ks s i \<Longrightarrow> top_half (ks ! i) = top_half (ks ! s) \<Longrightarrow> same_top ks s (Suc i)"
  unfolding same_top_def less_Suc_eq by blast

lemma same_top_one: "same_top ks s (Suc s)"
  unfolding same_top_def by (metis le_less_Suc_eq)

fun tiles :: "u64 list \<Rightarrow> nat \<Rightarrow> (nat \<times> nat) list \<Rightarrow> bool" where
  "tiles ks s [] \<longleftrightarrow> s = length ks"
| "tiles ks s ((a, b) # rs) \<longleftrightarrow> a = s \<and> s < b \<and> b \<le> length ks \<and> same_top ks s b \<and>
     (b < length ks \<longrightarrow> top_half (ks ! b) \<noteq> top_half (ks ! s)) \<and> tiles ks b rs"

lemma batch_runs_ok:
  assumes "s < i" and "i \<le> length ks" and "same_top ks s i"
  shows "\<exists>rs. batch_runs ks [i..<length ks + 1] s runs = runs @ rs \<and> tiles ks s rs"
  using assms
proof (induction "length ks - i" arbitrary: i s runs)
  case 0
  then have "[i..<length ks + 1] = [i]" by simp
  then show ?case using 0 by (intro exI [of _ "[(s, i)]"]) simp
next
  case (Suc k)
  then have i: "i < length ks" "[i..<length ks + 1] = i # [Suc i..<length ks + 1]" by (simp_all add: upt_conv_Cons)
  have k: "k = length ks - Suc i" using Suc.hyps(2) by simp
  show ?case
  proof (cases "top_half (ks ! i) = top_half (ks ! s)")
    case True
    have "same_top ks s (Suc i)" by (rule same_top_Suc [OF Suc.prems(3) True])
    then obtain rs where "batch_runs ks [Suc i..<length ks + 1] s runs = runs @ rs" "tiles ks s rs"
      using Suc.hyps(1) [OF k, of s runs] Suc.prems i by auto
    then show ?thesis using True i by auto
  next
    case False
    obtain rs where rs: "batch_runs ks [Suc i..<length ks + 1] i (runs @ [(s, i)]) = (runs @ [(s, i)]) @ rs" "tiles ks i rs"
      using Suc.hyps(1) [OF k, of i "runs @ [(s, i)]"] i same_top_one by auto
    then show ?thesis using False i Suc.prems by (intro exI [of _ "(s, i) # rs"]) simp
  qed
qed

definition run_keys :: "u64 list \<Rightarrow> nat \<times> nat \<Rightarrow> u64 list" where
  "run_keys ks r = take (snd r - fst r) (drop (fst r) ks)"

lemma tiles_concat: "tiles ks s rs \<Longrightarrow> s \<le> length ks \<Longrightarrow> concat (map (run_keys ks) rs) = drop s ks"
proof (induction ks s rs rule: tiles.induct)
  case (2 ks s a b rs)
  then have "concat (map (run_keys ks) rs) = drop b ks" by simp
  moreover have "take (b - s) (drop s ks) @ drop b ks = drop s ks"
    using 2 by (metis append_take_drop_id drop_drop le_add_diff_inverse2 less_imp_le_nat tiles.simps(2))
  ultimately show ?case using 2 by (simp add: run_keys_def)
qed simp

lemma tiles_part:
  "tiles ks s rs \<Longrightarrow> r \<in> set rs \<Longrightarrow> s \<le> fst r \<and> fst r < snd r \<and> snd r \<le> length ks \<and> (\<forall>k\<in>set (run_keys ks r). top_half k = top_half (ks ! fst r))"
proof (induction ks s rs rule: tiles.induct)
  case (2 ks s a b rs)
  show ?case
  proof (cases "r = (a, b)")
    case True
    have "top_half k = top_half (ks ! s)" if k: "k \<in> set (take (b - s) (drop s ks))" for k
    proof -
      obtain j where "j < b - s" "k = ks ! (s + j)" using \<open>tiles ks s ((a, b) # rs)\<close> k by (auto simp: in_set_conv_nth)
      moreover have "same_top ks s b" using \<open>tiles ks s ((a, b) # rs)\<close> by simp
      ultimately show ?thesis using same_topD [of ks s b "s + j"] by simp
    qed
    then show ?thesis using True 2(2) by (auto simp: run_keys_def)
  next
    case False
    then have "r \<in> set rs" using 2(3) by simp
    moreover have "tiles ks b rs" "s < b" using 2(2) by simp_all
    ultimately show ?thesis using 2(1) by fastforce
  qed
qed simp

lemma top_half_mono: "k \<le> l \<Longrightarrow> top_half k \<le> top_half l"
  by (simp add: word_le_nat_alt drop_bit_eq_div unat_div div_le_mono)

lemma tiles_distinct:
  assumes "sorted ks" and "tiles ks s rs"
  shows "distinct (map (\<lambda>r. top_half (ks ! fst r)) rs)"
  using assms(2)
proof (induction rs arbitrary: s)
  case (Cons r rs)
  obtain a b where ab: "r = (a, b)" by fastforce
  have t: "a = s" "s < b" "b < length ks \<longrightarrow> top_half (ks ! b) \<noteq> top_half (ks ! s)" "tiles ks b rs" using Cons.prems by (simp_all add: ab)
  have "top_half (ks ! fst q) \<noteq> top_half (ks ! s)" if q: "q \<in> set rs" for q
  proof -
    have l: "b \<le> fst q" "fst q < length ks" using tiles_part [OF t(4) q] by auto
    then have "ks ! s \<le> ks ! b" "ks ! b \<le> ks ! fst q" using t(2) sorted_nth_mono [OF assms(1)] by simp_all
    then have "top_half (ks ! s) \<le> top_half (ks ! b)" "top_half (ks ! b) \<le> top_half (ks ! fst q)" by (simp_all add: top_half_mono)
    then show ?thesis using t(3) l by auto
  qed
  then have "top_half (ks ! s) \<notin> (\<lambda>r. top_half (ks ! fst r)) ` set rs" by (metis (no_types, lifting) imageE)
  then show ?case using Cons.IH [OF t(4)] ab t(1) by simp
qed simp


subsection \<open>The shuffle\<close>

lemma shuffle_runs_mset:
  assumes "\<forall>i\<in>set is. i < length rs"
  shows "mset (shuffle_runs is rng rs) = mset rs"
  using assms
proof (induction "is" arbitrary: rng rs)
  case (Cons i ix)
  define rng' where "rng' = rng * 0x517cc1b727220a95 + 1"
  define j where "j = unat (drop_bit 33 rng') mod (i + 1)"
  have j: "j < length rs" using Cons.prems by (simp add: j_def) (metis Suc_leI le_trans mod_less_divisor not_less zero_less_Suc)
  have "mset (shuffle_runs ix rng' (rs[i := rs ! j, j := rs ! i])) = mset (rs[i := rs ! j, j := rs ! i])"
    using Cons by simp
  also have "\<dots> = mset rs" using Cons.prems j by (intro mset_swap) auto
  finally show ?case by (simp add: Let_def rng'_def j_def)
qed simp

subsection \<open>The cut into batches\<close>

definition cut_ok :: "nat \<Rightarrow> node_id list list \<Rightarrow> bool" where
  "cut_ok bsz batches \<longleftrightarrow> (\<forall>b\<in>set batches. length b = bsz)"

lemma fill_batches_ok:
  assumes "0 < bsz" and "\<forall>k\<in>set ks. unat (ucast k :: u32) < length seeds" and "cut_ok bsz bs" and "length cur < bsz"
  shows "\<exists>bs' cur'. fill_batches bsz seeds ks bs cur = Some (bs', cur') \<and> cut_ok bsz bs' \<and> length cur' < bsz \<and>
    concat bs' @ cur' = concat bs @ cur @ map (\<lambda>k. seeds ! unat (ucast k :: u32)) ks"
  using assms(2-4)
proof (induction ks arbitrary: bs cur)
  case (Cons k ks)
  let ?cur = "cur @ [seeds ! unat (ucast k :: u32)]"
  show ?case
  proof (cases "length ?cur = bsz")
    case True
    have "cut_ok bsz (bs @ [?cur])" using Cons.prems(2) True by (auto simp: cut_ok_def)
    then obtain bs' cur' where "fill_batches bsz seeds ks (bs @ [?cur]) [] = Some (bs', cur')" "cut_ok bsz bs'" "length cur' < bsz"
      "concat bs' @ cur' = concat (bs @ [?cur]) @ [] @ map (\<lambda>k. seeds ! unat (ucast k :: u32)) ks"
      using Cons.IH [of "bs @ [?cur]" "[]"] Cons.prems(1) assms(1) by auto
    then show ?thesis using Cons.prems(1) True by (simp add: nth_opt_Some)
  next
    case False
    then have "length ?cur < bsz" using Cons.prems(3) by simp
    then obtain bs' cur' where "fill_batches bsz seeds ks bs ?cur = Some (bs', cur')" "cut_ok bsz bs'" "length cur' < bsz"
      "concat bs' @ cur' = concat bs @ ?cur @ map (\<lambda>k. seeds ! unat (ucast k :: u32)) ks"
      using Cons.IH [of bs ?cur] Cons.prems(1,2) by auto
    then show ?thesis using Cons.prems(1) False by (simp add: nth_opt_Some)
  qed
qed simp


subsection \<open>Properties\<close>

definition full_but_last :: "nat \<Rightarrow> node_id list list \<Rightarrow> bool" where
  "full_but_last bsz batches \<longleftrightarrow> (\<forall>b\<in>set (butlast batches). length b = bsz) \<and> (\<forall>b\<in>set batches. b \<noteq> [] \<and> length b \<le> bsz)"

lemma full_but_last_cut:
  assumes "cut_ok bsz bs" and "length cur < bsz"
  shows "full_but_last bsz (if cur \<noteq> [] then bs @ [cur] else bs)"
  using assms by (auto simp: full_but_last_def cut_ok_def dest: in_set_butlastD)

abbreviation part_of :: "nat list \<Rightarrow> node_id \<Rightarrow> nat" where
  "part_of parts s \<equiv> parts ! unat s"

abbreviation seed_of :: "node_id list \<Rightarrow> u64 \<Rightarrow> node_id" where
  "seed_of seeds k \<equiv> seeds ! unat (ucast k :: u32)"

definition keyed_seeds :: "nat list \<Rightarrow> node_id list \<Rightarrow> bool" where
  "keyed_seeds parts seeds \<longleftrightarrow> (\<forall>p\<in>set parts. p < 2 ^ 32) \<and> length seeds < 2 ^ 32 \<and> (\<forall>s\<in>set seeds. unat s < length parts)"

lemma part_small: "keyed_seeds parts seeds \<Longrightarrow> i < length seeds \<Longrightarrow> part_of parts (seeds ! i) < 2 ^ 32"
  unfolding keyed_seeds_def by (meson nth_mem)

lemma key_facts:
  assumes ok: "keyed_seeds parts seeds" and i: "i < length seeds"
  shows "top_half (batch_key parts seeds i) = of_nat (part_of parts (seeds ! i))" and "unat (ucast (batch_key parts seeds i) :: u32) = i"
  using assms part_small [OF assms] key_part [of "part_of parts (seeds ! i)" i] key_index [of i "of_nat (part_of parts (seeds ! i))"]
  by (simp_all add: batch_key_def keyed_seeds_def)

lemma part_eq_iff:
  assumes ok: "keyed_seeds parts seeds" and i: "i < length seeds" and p: "p < 2 ^ 32"
  shows "top_half (batch_key parts seeds i) = of_nat p \<longleftrightarrow> part_of parts (seeds ! i) = p"
proof
  assume "top_half (batch_key parts seeds i) = of_nat p"
  then have "unat (of_nat (part_of parts (seeds ! i)) :: u64) = unat (of_nat p :: u64)" by (simp add: key_facts(1) [OF ok i])
  then show "part_of parts (seeds ! i) = p" using part_small [OF ok i] p by simp
qed (simp add: key_facts(1) [OF ok i])

definition keys :: "nat list \<Rightarrow> node_id list \<Rightarrow> u64 list" where
  "keys parts seeds = map (batch_key parts seeds) [0..<length seeds]"

lemma keys_of_part:
  assumes ok: "keyed_seeds parts seeds" and p: "p < 2 ^ 32"
  shows "filter (\<lambda>k. top_half k = of_nat p) (sort (keys parts seeds)) = map (batch_key parts seeds) (filter (\<lambda>i. part_of parts (seeds ! i) = p) [0..<length seeds])"
proof -
  have f: "filter (\<lambda>k. top_half k = of_nat p) (keys parts seeds) = map (batch_key parts seeds) (filter (\<lambda>i. part_of parts (seeds ! i) = p) [0..<length seeds])"
    unfolding keys_def filter_map using part_eq_iff [OF ok _ p] by (auto intro!: arg_cong [of _ _ "map (batch_key parts seeds)"] filter_cong)
  have "sorted (map (batch_key parts seeds) (filter (\<lambda>i. part_of parts (seeds ! i) = p) [0..<length seeds]))"
    unfolding sorted_map
  proof (rule sorted_wrt_mono_rel [of _ "(<)"])
    show "sorted_wrt (<) (filter (\<lambda>i. part_of parts (seeds ! i) = p) [0..<length seeds])" by (intro sorted_wrt_filter) simp
    fix i j assume i: "i \<in> set (filter (\<lambda>i. part_of parts (seeds ! i) = p) [0..<length seeds])"
      and j: "j \<in> set (filter (\<lambda>i. part_of parts (seeds ! i) = p) [0..<length seeds])" and "i < j"
    then have "batch_key parts seeds i < batch_key parts seeds j" using ok p key_less [OF p, of i j] by (auto simp: batch_key_def keyed_seeds_def)
    then show "batch_key parts seeds i \<le> batch_key parts seeds j" by (rule less_imp_le)
  qed
  then show ?thesis by (simp add: filter_sort f sort_key_id_if_sorted)
qed

lemma seeds_of_keys:
  assumes ok: "keyed_seeds parts seeds" and s: "set ks = set (keys parts seeds)" and f: "\<And>p. p < 2 ^ 32 \<Longrightarrow> filter (\<lambda>k. top_half k = of_nat p) ks = filter (\<lambda>k. top_half k = of_nat p) (sort (keys parts seeds))"
  shows "filter (\<lambda>s. part_of parts s = p) (map (seed_of seeds) ks) = filter (\<lambda>s. part_of parts s = p) seeds"
proof (cases "p < 2 ^ 32")
  case True
  have k: "\<exists>i<length seeds. k = batch_key parts seeds i" if "k \<in> set ks" for k using that s by (auto simp: keys_def)
  have "filter (\<lambda>s. part_of parts s = p) (map (seed_of seeds) ks) = map (seed_of seeds) (filter (\<lambda>k. part_of parts (seed_of seeds k) = p) ks)"
    by (simp add: filter_map o_def)
  also have "filter (\<lambda>k. part_of parts (seed_of seeds k) = p) ks = filter (\<lambda>k. top_half k = of_nat p) ks"
  proof (rule filter_cong [OF refl])
    fix x assume "x \<in> set ks"
    then obtain i where i: "i < length seeds" "x = batch_key parts seeds i" using k by blast
    then show "(part_of parts (seed_of seeds x) = p) = (top_half x = of_nat p)" using key_facts(2) [OF ok i(1)] part_eq_iff [OF ok i(1) True] by simp
  qed
  also have "map (seed_of seeds) \<dots> = map ((!) seeds) (filter (\<lambda>i. part_of parts (seeds ! i) = p) [0..<length seeds])"
    unfolding f [OF True] keys_of_part [OF ok True] using key_facts(2) [OF ok] by simp
  also have "\<dots> = filter (\<lambda>s. part_of parts s = p) (map ((!) seeds) [0..<length seeds])" by (simp add: filter_map o_def)
  finally show ?thesis by (simp add: map_nth)
next
  case False
  have "part_of parts s \<noteq> p" if "s \<in> set seeds" for s using that ok False unfolding keyed_seeds_def by (meson nth_mem)
  moreover have "seed_of seeds k \<in> set seeds" if k: "k \<in> set ks" for k
  proof -
    obtain i where "i < length seeds" "k = batch_key parts seeds i" using k s by (auto simp: keys_def)
    then show ?thesis using key_facts(2) [OF ok] by simp
  qed
  ultimately have "filter (\<lambda>s. part_of parts s = p) (map (seed_of seeds) ks) = []" "filter (\<lambda>s. part_of parts s = p) seeds = []"
    by (auto simp: filter_empty_conv)
  then show ?thesis by simp
qed


lemma contiguous_inj:
  assumes "contiguous h xs" and "\<And>x y. x \<in> set xs \<Longrightarrow> y \<in> set xs \<Longrightarrow> h x = h y \<longleftrightarrow> h' x = h' y"
  shows "contiguous h' xs"
  unfolding contiguous_def
proof (intro allI impI)
  fix i j k assume a: "i < j \<and> j < k \<and> k < length xs \<and> h' (xs ! i) = h' (xs ! k)"
  then have m: "xs ! i \<in> set xs" "xs ! j \<in> set xs" "xs ! k \<in> set xs" by simp_all
  then have "h (xs ! i) = h (xs ! k)" using a assms(2) by blast
  then have "h (xs ! j) = h (xs ! i)" using a assms(1) unfolding contiguous_def by blast
  then show "h' (xs ! j) = h' (xs ! i)" using m assms(2) by blast
qed

text \<open>The sequence of keys after the runs are formed and shuffled.\<close>

lemma shuffled_keys:
  assumes ok: "keyed_seeds parts seeds" and rs: "tiles (sort (keys parts seeds)) 0 rs" and m: "mset rs' = mset rs"
  defines "ks \<equiv> concat (map (run_keys (sort (keys parts seeds))) rs')"
  shows "set ks = set (keys parts seeds)" and "contiguous (\<lambda>k. top_half k) ks"
    and "filter (\<lambda>k. top_half k = q) ks = filter (\<lambda>k. top_half k = q) (sort (keys parts seeds))"
proof -
  let ?ks = "sort (keys parts seeds)"
  have all: "concat (map (run_keys ?ks) rs) = ?ks" using tiles_concat [OF rs] by simp
  have same: "x \<in> set (run_keys ?ks r) \<Longrightarrow> top_half x = top_half (?ks ! fst r)" if "r \<in> set rs" for r x
    using tiles_part [OF rs that] by blast
  have d: "distinct (map (\<lambda>r. top_half (?ks ! fst r)) rs)" by (rule tiles_distinct [OF _ rs]) simp
  have s: "set rs' = set rs" using m by (rule mset_eq_setD)
  have d': "distinct (map (\<lambda>r. top_half (?ks ! fst r)) rs')"
    using d m mset_eq_imp_distinct_iff [of "map (\<lambda>r. top_half (?ks ! fst r)) rs'" "map (\<lambda>r. top_half (?ks ! fst r)) rs"] by simp
  have "set ks = set (concat (map (run_keys ?ks) rs))" using s by (simp add: ks_def)
  then show "set ks = set (keys parts seeds)" by (simp only: all set_sort)
  show "contiguous (\<lambda>k. top_half k) ks"
    unfolding ks_def using same s d' by (intro contiguous_concat [where g = "\<lambda>r. top_half (?ks ! fst r)"]) (auto simp: distinct_map)
  have "filter (\<lambda>k. top_half k = q) ks = filter (\<lambda>k. top_half k = q) (concat (map (run_keys ?ks) rs))"
    unfolding ks_def by (rule filter_blocks_permute [OF same d m])
  then show "filter (\<lambda>k. top_half k = q) ks = filter (\<lambda>k. top_half k = q) ?ks" by (simp only: all)
qed

lemma runs_tile: "tiles ks 0 (batch_runs ks [1..<length ks + 1] 0 [])"
proof (cases "ks = []")
  case False
  then obtain rs where "batch_runs ks [1..<length ks + 1] 0 [] = [] @ rs" "tiles ks 0 rs"
    using batch_runs_ok [of 0 1 ks "[]"] same_top_one [of ks 0] by (cases ks) auto
  then show ?thesis by simp
qed simp

lemma run_keys_split: "map (\<lambda>(a, b). take (b - a) (drop a ks)) rs = map (run_keys ks) rs"
  by (auto simp: run_keys_def)

text \<open>C29 (functional). \<^verbatim>\<open>partition_aligned_batches\<close> refuses a batch size of zero and an unknown seed; otherwise it
  never panics and its batches hold every seed exactly once, each partition's seeds stand together and in
  their order, shuffled or not, and every batch but the last is full.\<close>

theorem batches_keep_communities:
  assumes "\<forall>p\<in>set parts. p < 2 ^ 32" and "length seeds < 2 ^ 32"
  shows "if bsz = 0 \<or> (\<exists>s\<in>set seeds. length parts \<le> unat s)
    then \<exists>e. partition_aligned_batches parts seeds bsz shuffle seed = Some (Inl e)
    else \<exists>batches. partition_aligned_batches parts seeds bsz shuffle seed = Some (Inr batches) \<and>
      (\<forall>p. filter (\<lambda>s. parts ! unat s = p) (concat batches) = filter (\<lambda>s. parts ! unat s = p) seeds) \<and>
      mset (concat batches) = mset seeds \<and> contiguous (\<lambda>s. parts ! unat s) (concat batches) \<and> full_but_last bsz batches"
proof (cases "bsz = 0 \<or> (\<exists>s\<in>set seeds. length parts \<le> unat s)")
  case True
  have "\<exists>e. partition_aligned_batches parts seeds bsz shuffle seed = Some (Inl e)"
  proof (cases "bsz = 0")
    case False
    then obtain s where "find (\<lambda>s. length parts \<le> unat s) seeds = Some s"
      using True by (cases "find (\<lambda>s. length parts \<le> unat s) seeds") (auto simp: find_None_iff)
    then show ?thesis by (simp add: partition_aligned_batches_def batch_keys_cases)
  qed (simp add: partition_aligned_batches_def)
  then show ?thesis unfolding if_P [OF True] .
next
  case False
  have ok: "keyed_seeds parts seeds" using False assms by (simp add: keyed_seeds_def not_le)
  have "find (\<lambda>s. length parts \<le> unat s) seeds = None" using False by (simp add: find_None_iff)
  then have k0: "batch_keys parts seeds 0 [] = Inr (keys parts seeds)" by (simp add: batch_keys_cases keys_def batch_key_def [abs_def])
  let ?ks = "sort (keys parts seeds)"
  define rs where "rs = batch_runs ?ks [1..<length ?ks + 1] 0 []"
  define rs' where "rs' = (if shuffle then shuffle_runs (rev [1..<length rs]) (seed * 0x517cc1b727220a95 + 1) rs else rs)"
  have t: "tiles ?ks 0 rs" unfolding rs_def by (rule runs_tile)
  have m: "mset rs' = mset rs" by (simp add: rs'_def shuffle_runs_mset)
  define ks where "ks = concat (map (run_keys ?ks) rs')"
  note K = shuffled_keys [OF ok t m, folded ks_def]
  have idx: "\<exists>i<length seeds. k = batch_key parts seeds i \<and> unat (ucast k :: u32) = i \<and> seed_of seeds k = seeds ! i" if k: "k \<in> set ks" for k
  proof -
    obtain i where "i < length seeds" "k = batch_key parts seeds i" using k K(1) by (auto simp: keys_def)
    then show ?thesis using key_facts(2) [OF ok] by auto
  qed
  then have rng: "\<forall>k\<in>set ks. unat (ucast k :: u32) < length seeds" by fastforce
  obtain bs cur where f: "fill_batches bsz seeds ks [] [] = Some (bs, cur)" "cut_ok bsz bs" "length cur < bsz"
    "concat bs @ cur = map (seed_of seeds) ks"
    using fill_batches_ok [of bsz ks seeds "[]" "[]"] rng False by (auto simp: cut_ok_def)
  define batches where "batches = (if cur \<noteq> [] then bs @ [cur] else bs)"
  have run: "partition_aligned_batches parts seeds bsz shuffle seed = Some (Inr batches)"
    unfolding partition_aligned_batches_def k0 sum.case Let_def run_keys_split
    unfolding rs_def [symmetric] unfolding rs'_def [symmetric] unfolding ks_def [symmetric]
    unfolding f(1) Option.bind.simps prod.case batches_def [symmetric] using False by simp
  have c: "concat batches = map (seed_of seeds) ks" using f(4) by (cases "cur = []") (simp_all add: batches_def)
  have fl: "\<forall>p. filter (\<lambda>s. parts ! unat s = p) (concat batches) = filter (\<lambda>s. parts ! unat s = p) seeds"
    unfolding c using seeds_of_keys [OF ok K(1)] K(3) by blast
  have "count (mset (concat batches)) s = count (mset seeds) s" for s
  proof -
    have e: "count (mset xs) s = count (mset (filter (\<lambda>x. parts ! unat x = parts ! unat s) xs)) s" for xs by (simp add: mset_filter)
    show ?thesis using fl by (subst (1 2) e) simp
  qed
  then have ms: "mset (concat batches) = mset seeds" by (rule multiset_eqI)
  have "contiguous ((\<lambda>s. parts ! unat s) \<circ> seed_of seeds) ks"
  proof (rule contiguous_inj [OF K(2)])
    fix x y assume "x \<in> set ks" "y \<in> set ks"
    then obtain i j where "i < length seeds" "x = batch_key parts seeds i" "seed_of seeds x = seeds ! i"
      "j < length seeds" "y = batch_key parts seeds j" "seed_of seeds y = seeds ! j" using idx by metis
    then show "top_half x = top_half y \<longleftrightarrow> ((\<lambda>s. parts ! unat s) \<circ> seed_of seeds) x = ((\<lambda>s. parts ! unat s) \<circ> seed_of seeds) y"
      using part_eq_iff [OF ok, of i "part_of parts (seeds ! j)"] key_facts(1) [OF ok, of j] part_small [OF ok, of j] by simp
  qed
  then have ct: "contiguous (\<lambda>s. parts ! unat s) (concat batches)" unfolding c by (simp only: contiguous_map)
  have "full_but_last bsz batches" unfolding batches_def by (rule full_but_last_cut [OF f(2,3)])
  then show ?thesis unfolding if_not_P [OF False] using run fl ms ct by blast
qed


theorem batches_keep_communities_witness:
  "\<exists>batches. partition_aligned_batches [1, 0, 1] [0, 1, 2] 2 True 7 = Some (Inr batches) \<and>
     mset (concat batches) = mset [0, 1, 2] \<and> contiguous (\<lambda>s. [1, 0, 1 :: nat] ! unat s) (concat batches) \<and> full_but_last 2 batches"
  using batches_keep_communities [of "[1, 0, 1]" "[0, 1, 2]" 2 True 7] by auto

end
