(* ===== verification/Genstamp.thy ===== *)
theory Genstamp
  imports Csr
begin

section \<open>Sampling scratch: generation-stamped tables and the generator\<close>

text \<open>
  Models \<^verbatim>\<open>crates/aethergraph-core/src/internal/genstamp.rs\<close>: the dedup table that is reset by a
  counter bump, its hash-map twin, the stamp block of Floyd's sampling, and the wyrand generator.
  A table slot out of range is the panic \<open>None\<close>. The lemmas show that a table means a partial map,
  emptied by \<open>begin\<close> even when the 32-bit generation wraps.
\<close>

unbundle bit_operations_syntax

subsection \<open>The dense dedup table\<close>

record gen_slots =
  sl_slots :: "u64 list"
  sl_generation :: u32

definition slots_new :: "nat \<Rightarrow> gen_slots" where
  "slots_new n = \<lparr>sl_slots = replicate n 0, sl_generation = 0\<rparr>"

definition pack_slot :: "u32 \<Rightarrow> u32 \<Rightarrow> u64" where
  "pack_slot generation idx = (push_bit 32 (ucast generation)) OR ucast idx"

definition slot_tag :: "u64 \<Rightarrow> u32" where
  "slot_tag slot = ucast (drop_bit 32 slot)"

definition slots_begin :: "gen_slots \<Rightarrow> gen_slots" where
  "slots_begin t = (let generation = sl_generation t + 1 in
     if generation = 0 then \<lparr>sl_slots = map (\<lambda>_. 0) (sl_slots t), sl_generation = 1\<rparr>
     else t\<lparr>sl_generation := generation\<rparr>)"

definition slots_probe_or_insert :: "gen_slots \<Rightarrow> node_id \<Rightarrow> u32 \<Rightarrow> ((u32 \<times> bool) \<times> gen_slots) option" where
  "slots_probe_or_insert t global next_local = do {
     let i = unat global;
     slot \<leftarrow> nth_opt (sl_slots t) i;
     (if slot_tag slot = sl_generation t then Some ((ucast slot, False), t)
      else Some ((next_local, True), t\<lparr>sl_slots := (sl_slots t)[i := pack_slot (sl_generation t) next_local]\<rparr>)) }"

definition slots_get :: "gen_slots \<Rightarrow> node_id \<Rightarrow> u32 option" where
  "slots_get t global = (case nth_opt (sl_slots t) (unat global) of
     None \<Rightarrow> None
   | Some slot \<Rightarrow> if slot_tag slot = sl_generation t then Some (ucast slot) else None)"

subsection \<open>The two-mode dedup\<close>

datatype gen_dedup = Dense gen_slots | Hashed "node_id \<Rightarrow> u32 option"

primrec dedup_begin :: "gen_dedup \<Rightarrow> gen_dedup" where
  "dedup_begin (Dense t) = Dense (slots_begin t)"
| "dedup_begin (Hashed m) = Hashed (\<lambda>_. None)"

primrec dedup_probe_or_insert :: "gen_dedup \<Rightarrow> node_id \<Rightarrow> u32 \<Rightarrow> ((u32 \<times> bool) \<times> gen_dedup) option" where
  "dedup_probe_or_insert (Dense t) global next_local = map_option (\<lambda>(r, t). (r, Dense t)) (slots_probe_or_insert t global next_local)"
| "dedup_probe_or_insert (Hashed m) global next_local = (case m global of
     Some i \<Rightarrow> Some ((i, False), Hashed m)
   | None \<Rightarrow> Some ((next_local, True), Hashed (m(global \<mapsto> next_local))))"

primrec dedup_get :: "gen_dedup \<Rightarrow> node_id \<Rightarrow> u32 option" where
  "dedup_get (Dense t) global = slots_get t global"
| "dedup_get (Hashed m) global = m global"

subsection \<open>Floyd stamps\<close>

record floyd_stamps =
  fl_stamp :: "u32 list"
  fl_generation :: u32

definition floyd_new :: floyd_stamps where
  "floyd_new = \<lparr>fl_stamp = replicate 256 0, fl_generation = 0\<rparr>"

definition floyd_begin :: "floyd_stamps \<Rightarrow> floyd_stamps" where
  "floyd_begin f = (let generation = fl_generation f + 1 in
     if generation = 0 then \<lparr>fl_stamp = map (\<lambda>_. 0) (fl_stamp f), fl_generation = 1\<rparr>
     else f\<lparr>fl_generation := generation\<rparr>)"

definition test_and_set :: "floyd_stamps \<Rightarrow> nat \<Rightarrow> (bool \<times> floyd_stamps) option" where
  "test_and_set f i = do {
     stamp \<leftarrow> nth_opt (fl_stamp f) i;
     (if stamp \<noteq> fl_generation f then Some (True, f\<lparr>fl_stamp := (fl_stamp f)[i := fl_generation f]\<rparr>)
      else Some (False, f)) }"

subsection \<open>The generator\<close>

definition next_u64 :: "u64 \<Rightarrow> u64 \<times> u64" where
  "next_u64 state = (let state = state + 0xa0761d6478bd642f;
     t = (ucast state * ucast (state XOR 0xe7037ed1a0b428db) :: 128 word)
   in (ucast (drop_bit 64 t XOR t), state))"

definition next_u32 :: "u64 \<Rightarrow> u32 \<times> u64" where
  "next_u32 state = (let (x, state) = next_u64 state in (ucast x, state))"

subsection \<open>What the tables mean\<close>

lemma word_less_step: "(x :: u32) + 1 \<noteq> 0 \<Longrightarrow> x < x + 1"
  using unatSuc [of x] by (simp add: word_less_nat_alt add.commute)

lemma slot_tag_pack [simp]: "slot_tag (pack_slot g i) = g"
proof (rule bit_word_eqI)
  fix m assume "m < LENGTH(32)"
  moreover have "\<not> bit i (32 + m)" using bit_imp_le_length [of i "32 + m"] by auto
  ultimately show "bit (slot_tag (pack_slot g i)) m = bit g m"
    by (auto simp: slot_tag_def pack_slot_def bit_simps)
qed

lemma slot_index_pack [simp]: "(ucast (pack_slot g i) :: u32) = i"
  by (rule bit_word_eqI) (auto simp: pack_slot_def bit_simps)

lemma slot_tag_zero [simp]: "slot_tag 0 = 0"
  by (simp add: slot_tag_def)

definition slots_wf :: "nat \<Rightarrow> gen_slots \<Rightarrow> bool" where
  "slots_wf n t \<longleftrightarrow> length (sl_slots t) = n \<and> (\<forall>x\<in>set (sl_slots t). slot_tag x \<le> sl_generation t)"

primrec dedup_wf :: "nat \<Rightarrow> gen_dedup \<Rightarrow> bool" where
  "dedup_wf n (Dense t) \<longleftrightarrow> slots_wf n t"
| "dedup_wf n (Hashed m) \<longleftrightarrow> True"

lemma slots_new_wf: "slots_wf n (slots_new n)"
  by (simp add: slots_wf_def slots_new_def)

lemma slots_begin_ok:
  assumes "slots_wf n t"
  shows "slots_wf n (slots_begin t)" and "slots_get (slots_begin t) v = None"
proof -
  have l: "length (sl_slots t) = n" and b: "\<And>x. x \<in> set (sl_slots t) \<Longrightarrow> slot_tag x \<le> sl_generation t"
    using assms by (auto simp: slots_wf_def)
  have "slots_wf n (slots_begin t) \<and> slots_get (slots_begin t) v = None"
  proof (cases "sl_generation t + 1 = 0")
    case True
    then have e: "slots_begin t = \<lparr>sl_slots = map (\<lambda>_. 0) (sl_slots t), sl_generation = 1\<rparr>" by (simp add: slots_begin_def)
    show ?thesis unfolding e using l by (auto simp: slots_wf_def slots_get_def nth_opt_def)
  next
    case False
    then have e: "slots_begin t = t\<lparr>sl_generation := sl_generation t + 1\<rparr>" by (simp add: slots_begin_def)
    have "sl_generation t < sl_generation t + 1" by (rule word_less_step [OF False])
    then have lt: "slot_tag x < sl_generation t + 1" if "x \<in> set (sl_slots t)" for x using b [OF that] by simp
    have "slots_get (slots_begin t) v = None"
      unfolding e slots_get_def using lt [OF nth_mem, of "unat v"] by (auto simp: nth_opt_def)
    moreover have "slots_wf n (slots_begin t)" unfolding e using l lt by (auto simp: slots_wf_def intro: less_imp_le)
    ultimately show ?thesis by simp
  qed
  then show "slots_wf n (slots_begin t)" and "slots_get (slots_begin t) v = None" by simp_all
qed

lemma dedup_begin_ok: "dedup_wf n d \<Longrightarrow> dedup_wf n (dedup_begin d) \<and> dedup_get (dedup_begin d) = (\<lambda>_. None)"
  by (cases d) (auto simp: slots_begin_ok)

lemma dedup_probe_ok:
  assumes "dedup_wf n d" and "unat v < n"
  shows "\<exists>d'. dedup_wf n d' \<and> (case dedup_get d v of
     Some i \<Rightarrow> dedup_probe_or_insert d v k = Some ((i, False), d') \<and> dedup_get d' = dedup_get d
   | None \<Rightarrow> dedup_probe_or_insert d v k = Some ((k, True), d') \<and> dedup_get d' = (dedup_get d)(v \<mapsto> k))"
proof (cases d)
  case (Hashed m)
  show ?thesis
  proof (cases "m v")
    case None
    then show ?thesis using Hashed by (intro exI [of _ "Hashed (m(v \<mapsto> k))"]) (auto simp: fun_eq_iff)
  next
    case (Some i)
    then show ?thesis using Hashed by (intro exI [of _ d]) auto
  qed
next
  case (Dense t)
  have l: "length (sl_slots t) = n" using assms(1) Dense by (simp add: slots_wf_def)
  show ?thesis
  proof (cases "slot_tag (sl_slots t ! unat v) = sl_generation t")
    case True
    then show ?thesis using assms l Dense by (intro exI [of _ d]) (simp add: slots_get_def slots_probe_or_insert_def nth_opt_Some)
  next
    case False
    let ?t = "t\<lparr>sl_slots := (sl_slots t)[unat v := pack_slot (sl_generation t) k]\<rparr>"
    have "dedup_get (Dense ?t) = (dedup_get d)(v \<mapsto> k)"
      using Dense assms(2) l by (auto simp: fun_eq_iff slots_get_def nth_opt_def nth_list_update word_unat_eq_iff)
    moreover have "slots_wf n ?t" using assms Dense l set_update_subset_insert [of "sl_slots t" "unat v" "pack_slot (sl_generation t) k"]
      by (auto simp: slots_wf_def)
    ultimately show ?thesis using False assms l Dense
      by (intro exI [of _ "Dense ?t"]) (simp add: slots_get_def slots_probe_or_insert_def nth_opt_Some)
  qed
qed

text \<open>The stamps mean a set of taken indices.\<close>

definition floyd_wf :: "floyd_stamps \<Rightarrow> bool" where
  "floyd_wf f \<longleftrightarrow> length (fl_stamp f) = 256 \<and> (\<forall>x\<in>set (fl_stamp f). x \<le> fl_generation f)"

definition taken :: "floyd_stamps \<Rightarrow> nat set" where
  "taken f = {i. i < length (fl_stamp f) \<and> fl_stamp f ! i = fl_generation f}"

lemma floyd_new_wf: "floyd_wf floyd_new"
  by (simp add: floyd_wf_def floyd_new_def)

lemma floyd_begin_ok: "floyd_wf f \<Longrightarrow> floyd_wf (floyd_begin f) \<and> taken (floyd_begin f) = {}"
proof (cases "fl_generation f + 1 = 0")
  case True
  assume "floyd_wf f"
  then show ?thesis using True by (auto simp: floyd_begin_def floyd_wf_def taken_def)
next
  case False
  assume wf: "floyd_wf f"
  have e: "floyd_begin f = f\<lparr>fl_generation := fl_generation f + 1\<rparr>" using False by (simp add: floyd_begin_def)
  have "fl_generation f < fl_generation f + 1" by (rule word_less_step [OF False])
  then have lt: "x < fl_generation f + 1" if "x \<in> set (fl_stamp f)" for x using wf that by (auto simp: floyd_wf_def)
  have "fl_stamp f ! i \<noteq> fl_generation f + 1" if "i < length (fl_stamp f)" for i using lt [OF nth_mem [OF that]] by simp
  then show ?thesis unfolding e using wf lt by (auto simp: floyd_wf_def taken_def intro: less_imp_le)
qed

lemma test_and_set_ok:
  assumes "floyd_wf f" and "i < 256"
  shows "\<exists>f'. test_and_set f i = Some (i \<notin> taken f, f') \<and> floyd_wf f' \<and> taken f' = insert i (taken f)"
proof -
  have l: "length (fl_stamp f) = 256" using assms(1) by (simp add: floyd_wf_def)
  show ?thesis
  proof (cases "fl_stamp f ! i = fl_generation f")
    case True
    then show ?thesis using assms l by (auto simp: test_and_set_def nth_opt_Some taken_def)
  next
    case False
    let ?f = "f\<lparr>fl_stamp := (fl_stamp f)[i := fl_generation f]\<rparr>"
    have "floyd_wf ?f" using assms l set_update_subset_insert [of "fl_stamp f" i "fl_generation f"] by (auto simp: floyd_wf_def)
    moreover have "taken ?f = insert i (taken f)" using assms(2) l by (auto simp: taken_def nth_list_update)
    moreover have "i \<notin> taken f" using False by (simp add: taken_def)
    ultimately show ?thesis using False assms(2) l by (simp add: test_and_set_def nth_opt_Some)
  qed
qed

end
