(* ===== verification/Sampler.thy ===== *)
theory Sampler
  imports Genstamp
begin

section \<open>The neighbour sampler\<close>

text \<open>
  Models \<^verbatim>\<open>crates/aethergraph-core/src/loader/sampler.rs\<close>: one sampler with its dedup table, its
  output buffers and its frontiers; the hop loop with its five ways to pick from a row (with
  replacement, whole row, Floyd, weighted, temporal); the rewriting of the edges for induced and
  bidirectional subgraphs; the shared and the disjoint entry points; the batch sampler.

  Times and weights are their bit patterns. Comparisons of times are the IEEE ones, written out.
  The arithmetic behind weighted draws, \<^verbatim>\<open>slice::partition_point\<close> on a slice that a weight may have
  left unordered, and \<^verbatim>\<open>select_nth_unstable_by\<close>, whose order inside the two parts is left open, are
  the parameter \<open>env\<close>. Scratch that is cleared before each use (\<^verbatim>\<open>sample_buf\<close>, \<^verbatim>\<open>seen_set\<close>,
  \<^verbatim>\<open>temporal_filtered\<close>, \<^verbatim>\<open>weighted_keys\<close>, \<^verbatim>\<open>cumsum_buf\<close>, \<^verbatim>\<open>cap_*\<close>, \<^verbatim>\<open>pair_set\<close>) is a local value; prefetch
  hints, telemetry, probes and capacities have no effect on the output and are left out.
\<close>

subsection \<open>Times\<close>

definition f64_magnitude :: "f64_bits \<Rightarrow> nat" where
  "f64_magnitude x = unat (x AND 0x7FFFFFFFFFFFFFFF)"

definition f64_is_nan :: "f64_bits \<Rightarrow> bool" where
  "f64_is_nan x \<longleftrightarrow> 0x7FF0000000000000 < f64_magnitude x"

definition f64_rank :: "f64_bits \<Rightarrow> int" where
  "f64_rank x = (if bit x 63 then - int (f64_magnitude x) else int (f64_magnitude x))"

definition f64_lt :: "f64_bits \<Rightarrow> f64_bits \<Rightarrow> bool" where
  "f64_lt x y \<longleftrightarrow> \<not> f64_is_nan x \<and> \<not> f64_is_nan y \<and> f64_rank x < f64_rank y"

definition f64_ge :: "f64_bits \<Rightarrow> f64_bits \<Rightarrow> bool" where
  "f64_ge x y \<longleftrightarrow> \<not> f64_is_nan x \<and> \<not> f64_is_nan y \<and> f64_rank y \<le> f64_rank x"

definition f64_finite :: "f64_bits \<Rightarrow> bool" where
  "f64_finite x \<longleftrightarrow> f64_magnitude x < 0x7FF0000000000000"

definition f64_infinity :: f64_bits where "f64_infinity = 0x7FF0000000000000"
definition f64_one :: f64_bits where "f64_one = 0x3FF0000000000000"
definition f64_ulp53 :: f64_bits where "f64_ulp53 = 0x3CA0000000000000"

record sampler_env =
  env_add :: "f64_bits \<Rightarrow> f64_bits \<Rightarrow> f64_bits"
  env_mul :: "f64_bits \<Rightarrow> f64_bits \<Rightarrow> f64_bits"
  env_div :: "f64_bits \<Rightarrow> f64_bits \<Rightarrow> f64_bits"
  env_neg_ln :: "f64_bits \<Rightarrow> f64_bits"
  env_of_f32 :: "f32_bits \<Rightarrow> f64_bits"
  env_of_u64 :: "u64 \<Rightarrow> f64_bits"
  env_partition_le :: "f64_bits list \<Rightarrow> f64_bits \<Rightarrow> nat"
  env_select_latest :: "nat \<Rightarrow> (nat \<times> f64_bits) list \<Rightarrow> (nat \<times> f64_bits) list"
  env_select_least :: "nat \<Rightarrow> (f64_bits \<times> nat) list \<Rightarrow> (f64_bits \<times> nat) list"

definition fast_neg_ln_u64 :: "sampler_env \<Rightarrow> u64 \<Rightarrow> f64_bits" where
  "fast_neg_ln_u64 env bits =
     env_neg_ln env (env_mul env (env_add env (env_of_u64 env (drop_bit 11 bits)) f64_one) f64_ulp53)"

definition batch_seed :: "u64 \<Rightarrow> u64 \<Rightarrow> u64" where
  "batch_seed base batch_idx =
     (let z = base XOR (batch_idx * 0x9E3779B97F4A7C15);
          z = (z XOR drop_bit 30 z) * 0xBF58476D1CE4E5B9;
          z = (z XOR drop_bit 27 z) * 0x94D049BB133111EB
      in z XOR drop_bit 31 z)"

subsection \<open>Configuration, seeds and errors\<close>

datatype temporal_strategy = UniformTime | LastTime
datatype subgraph_type = Directional | Induced | Bidirectional

record sampling_config =
  sc_fanout :: "nat list"
  sc_replace :: bool
  sc_seed :: "u64 option"
  sc_max_degree :: "nat option"
  sc_cumulative :: bool
  sc_weighted :: bool
  sc_subgraph_type :: subgraph_type
  sc_track_edge_ids :: bool
  sc_temporal_strategy :: "temporal_strategy option"
  sc_disjoint :: bool

definition config_default :: sampling_config where
  "config_default = \<lparr>sc_fanout = [25, 10], sc_replace = False, sc_seed = None, sc_max_degree = None, sc_cumulative = False,
     sc_weighted = False, sc_subgraph_type = Directional, sc_track_edge_ids = True, sc_temporal_strategy = None, sc_disjoint = False\<rparr>"

datatype sample_error =
    SeedsExceedGraph nat nat | TimesLengthMismatch nat nat | SampleTimestampsMissing | StrategyMissing
datatype sampler_config_error = ConfigWeightsMissing | ConfigTimestampsMissing
datatype seed_error = SeedPastEnd nat node_id nat

record seeds =
  sd_ids :: "node_id list"
  sd_num_nodes :: nat

fun position_from :: "nat \<Rightarrow> nat \<Rightarrow> node_id list \<Rightarrow> nat option" where
  "position_from n i [] = None"
| "position_from n i (x # xs) = (if n \<le> unat x then Some i else position_from n (Suc i) xs)"

definition seeds_new :: "node_id list \<Rightarrow> nat \<Rightarrow> seed_error + seeds" where
  "seeds_new ids num_nodes = (case position_from num_nodes 0 ids of
     Some p \<Rightarrow> Inl (SeedPastEnd p (ids ! p) num_nodes)
   | None \<Rightarrow> Inr \<lparr>sd_ids = ids, sd_num_nodes = num_nodes\<rparr>)"

definition has_timestamps :: "graph \<Rightarrow> bool" where
  "has_timestamps g \<longleftrightarrow> g_timestamps g \<noteq> None"

definition check_config :: "graph \<Rightarrow> sampling_config \<Rightarrow> (sampler_config_error + unit) option" where
  "check_config g cfg = do {
     ws \<leftarrow> weights_slice g;
     Some (if sc_weighted cfg \<and> ws = None then Inl ConfigWeightsMissing
           else if sc_temporal_strategy cfg \<noteq> None \<and> \<not> has_timestamps g then Inl ConfigTimestampsMissing
           else Inr ()) }"

subsection \<open>The sampler\<close>

record sampler =
  sm_rng :: u64
  sm_dedup :: gen_dedup
  sm_node_vec :: "node_id list"
  sm_node_times :: "f64_bits list"
  sm_track_times :: bool
  sm_hop :: nat
  sm_edge_src :: "node_id list"
  sm_edge_dst :: "node_id list"
  sm_edge_ids :: "u64 list"
  sm_src_local :: "u32 list"
  sm_dst_local :: "u32 list"
  sm_seed_locals :: "u32 list"
  sm_frontier :: "(node_id \<times> u32) list"
  sm_next_frontier :: "(node_id \<times> u32) list"
  sm_floyd :: floyd_stamps
  sm_emitted_at :: "u64 \<Rightarrow> nat option"

definition DENSE_DEDUP_MAX_NODES :: nat where "DENSE_DEDUP_MAX_NODES = 8 * 2 ^ 20"

definition pair_key :: "u32 \<Rightarrow> u32 \<Rightarrow> u64" where
  "pair_key src dst = push_bit 32 (ucast src) OR ucast dst"

text \<open>\<open>entropy\<close> is the system randomness used when the configuration has no seed.\<close>

definition sampler_new :: "graph \<Rightarrow> sampling_config \<Rightarrow> u64 \<Rightarrow> sampler" where
  "sampler_new g cfg entropy =
     \<lparr>sm_rng = (case sc_seed cfg of Some s \<Rightarrow> s | None \<Rightarrow> entropy),
      sm_dedup = (if g_num_nodes g \<le> DENSE_DEDUP_MAX_NODES then Dense (slots_new (g_num_nodes g)) else Hashed (\<lambda>_. None)),
      sm_node_vec = [], sm_node_times = [], sm_track_times = False, sm_hop = 0,
      sm_edge_src = [], sm_edge_dst = [], sm_edge_ids = [], sm_src_local = [], sm_dst_local = [], sm_seed_locals = [],
      sm_frontier = [], sm_next_frontier = [], sm_floyd = floyd_new, sm_emitted_at = (\<lambda>_. None)\<rparr>"

definition sampler_try_new :: "graph \<Rightarrow> sampling_config \<Rightarrow> u64 \<Rightarrow> (sampler_config_error + sampler) option" where
  "sampler_try_new g cfg entropy = do {
     r \<leftarrow> check_config g cfg;
     Some (case r of Inl e \<Rightarrow> Inl e | Inr _ \<Rightarrow> Inr (sampler_new g cfg entropy)) }"

definition reseed :: "u64 \<Rightarrow> sampler \<Rightarrow> sampler" where
  "reseed seed s = s\<lparr>sm_rng := seed\<rparr>"

definition begin_pass :: "bool \<Rightarrow> sampler \<Rightarrow> sampler" where
  "begin_pass is_temporal s = s\<lparr>sm_dedup := dedup_begin (sm_dedup s), sm_node_vec := [], sm_node_times := [],
     sm_track_times := is_temporal, sm_edge_src := [], sm_edge_dst := [], sm_edge_ids := [], sm_src_local := [],
     sm_dst_local := [], sm_frontier := [], sm_next_frontier := [], sm_emitted_at := (\<lambda>_. None)\<rparr>"

definition register :: "node_id \<Rightarrow> f64_bits \<Rightarrow> sampler \<Rightarrow> ((u32 \<times> bool) \<times> sampler) option" where
  "register v time s = do {
     ((idx, is_new), d) \<leftarrow> dedup_probe_or_insert (sm_dedup s) v (of_nat (length (sm_node_vec s)));
     let s = s\<lparr>sm_dedup := d\<rparr>;
     (if is_new
      then Some ((idx, is_new), s\<lparr>sm_node_vec := sm_node_vec s @ [v],
             sm_node_times := (if sm_track_times s then sm_node_times s @ [time] else sm_node_times s)\<rparr>)
      else if sm_track_times s
      then do {
        bound \<leftarrow> nth_opt (sm_node_times s) (unat idx);
        Some ((idx, is_new), if f64_lt time bound then s\<lparr>sm_node_times := (sm_node_times s)[unat idx := time]\<rparr> else s) }
      else Some ((idx, is_new), s)) }"

definition insert_node_frontier :: "nat \<Rightarrow> node_id \<Rightarrow> f64_bits \<Rightarrow> sampler \<Rightarrow> (u32 option \<times> sampler) option" where
  "insert_node_frontier n v time s =
     (if n \<le> unat v then Some (None, s)
      else do {
        ((idx, is_new), s) \<leftarrow> register v time s;
        Some (Some idx, if is_new then s\<lparr>sm_next_frontier := sm_next_frontier s @ [(v, idx)]\<rparr> else s) })"

definition fresh_edge :: "u64 \<Rightarrow> sampler \<Rightarrow> bool \<times> sampler" where
  "fresh_edge eid s = (case sm_emitted_at s eid of
     Some h \<Rightarrow> (h = sm_hop s, s)
   | None \<Rightarrow> (True, s\<lparr>sm_emitted_at := (sm_emitted_at s)(eid \<mapsto> sm_hop s)\<rparr>))"

definition push_edge :: "sampling_config \<Rightarrow> node_id \<Rightarrow> u32 \<Rightarrow> node_id \<Rightarrow> u32 \<Rightarrow> u64 \<Rightarrow> sampler \<Rightarrow> sampler" where
  "push_edge cfg src src_local dst dst_local eid s =
     s\<lparr>sm_edge_src := sm_edge_src s @ [src], sm_edge_dst := sm_edge_dst s @ [dst],
       sm_src_local := sm_src_local s @ [src_local], sm_dst_local := sm_dst_local s @ [dst_local],
       sm_edge_ids := (if sc_track_edge_ids cfg then sm_edge_ids s @ [eid] else sm_edge_ids s)\<rparr>"

definition emit_edge :: "sampling_config \<Rightarrow> nat \<Rightarrow> node_id \<Rightarrow> u32 \<Rightarrow> node_id \<Rightarrow> u64 \<Rightarrow> f64_bits \<Rightarrow> sampler \<Rightarrow> sampler option" where
  "emit_edge cfg n src src_local neighbor eid time s =
     (let (fresh, s) = (if sc_cumulative cfg then fresh_edge eid s else (True, s)) in
      if \<not> fresh then Some s
      else do {
        (dst_local, s) \<leftarrow> insert_node_frontier n neighbor time s;
        (case dst_local of None \<Rightarrow> Some s
         | Some dst_local \<Rightarrow> Some (push_edge cfg src src_local neighbor dst_local eid s)) })"

subsection \<open>Draws\<close>

definition rand_below :: "nat \<Rightarrow> u64 \<Rightarrow> nat \<times> u64" where
  "rand_below bound rng = (let (x, rng) = next_u32 rng in (unat (drop_bit 32 (ucast x * of_nat bound :: u64)), rng))"

text \<open>Floyd's draw on a set, as in \<^verbatim>\<open>draw_positions\<close> and the temporal sampling.\<close>

fun floyd_draw :: "nat list \<Rightarrow> nat set \<Rightarrow> u64 \<Rightarrow> nat list \<times> u64" where
  "floyd_draw [] seen rng = ([], rng)"
| "floyd_draw (i # is) seen rng =
     (let (j, rng) = rand_below (i + 1) rng;
          pick = (if j \<notin> seen then j else i);
          (picks, rng) = floyd_draw is (insert pick seen) rng
      in (pick # picks, rng))"

definition draw_positions :: "nat \<Rightarrow> nat \<Rightarrow> u64 \<Rightarrow> nat list \<times> u64" where
  "draw_positions n k rng = (let (picks, rng) = floyd_draw [n - k..<n] {} rng in (sort picks, rng))"

definition hub_cap :: "sampling_config \<Rightarrow> nat \<Rightarrow> nat option" where
  "hub_cap cfg deg = (case sc_max_degree cfg of None \<Rightarrow> None | Some cap \<Rightarrow> if deg \<le> cap then None else Some cap)"

fun weighted_draws :: "sampler_env \<Rightarrow> f64_bits list \<Rightarrow> f64_bits \<Rightarrow> node_id list \<Rightarrow> nat \<Rightarrow> u64 \<Rightarrow> (node_id \<times> nat) list \<times> u64" where
  "weighted_draws env cumsum scale row 0 rng = ([], rng)"
| "weighted_draws env cumsum scale row (Suc k) rng =
     (let (x, rng) = next_u64 rng;
          u = env_mul env (env_of_u64 env x) scale;
          idx = min (env_partition_le env cumsum u) (length row - 1);
          (picks, rng) = weighted_draws env cumsum scale row k rng
      in ((row ! idx, idx) # picks, rng))"

fun cumulate :: "sampler_env \<Rightarrow> f64_bits \<Rightarrow> f32_bits list \<Rightarrow> f64_bits list" where
  "cumulate env acc [] = []"
| "cumulate env acc (w # ws) = (let acc = env_add env acc (env_of_f32 env w) in acc # cumulate env acc ws)"

definition weighted_sample_with_replacement_into ::
  "sampler_env \<Rightarrow> node_id list \<Rightarrow> f32_bits list \<Rightarrow> nat \<Rightarrow> u64 \<Rightarrow> (node_id \<times> nat) list \<times> u64" where
  "weighted_sample_with_replacement_into env row weights k rng =
     (if row = [] then ([], rng)
      else let cumsum = cumulate env 0 weights;
               acc = (if cumsum = [] then 0 else last cumsum);
               scale = env_div env acc (env_of_u64 env (- 1))
           in weighted_draws env cumsum scale row k rng)"

fun weighted_keys :: "sampler_env \<Rightarrow> f32_bits list \<Rightarrow> nat \<Rightarrow> u64 \<Rightarrow> (f64_bits \<times> nat) list \<times> u64" where
  "weighted_keys env [] i rng = ([], rng)"
| "weighted_keys env (weight # ws) i rng =
     (let (u_bits, rng) = next_u64 rng;
          w = env_of_f32 env weight;
          key = (if f64_finite w \<and> f64_lt 0 w then env_div env (fast_neg_ln_u64 env u_bits) w else f64_infinity);
          (keys, rng) = weighted_keys env ws (Suc i) rng
      in ((key, i) # keys, rng))"

definition weighted_sample_without_replacement_into ::
  "sampler_env \<Rightarrow> node_id list \<Rightarrow> f32_bits list \<Rightarrow> nat \<Rightarrow> u64 \<Rightarrow> ((node_id \<times> nat) list \<times> u64) option" where
  "weighted_sample_without_replacement_into env row weights k rng =
     (let n = length row in
      if k = 0 then Some ([], rng)
      else if n \<le> k then Some (zip row [0..<n], rng)
      else do {
        ws \<leftarrow> slice_opt weights 0 n;
        let (keys, rng) = weighted_keys env ws 0 rng;
        let chosen = take k (env_select_least env (k - 1) keys);
        picks \<leftarrow> those (map (\<lambda>(_, idx). map_option (\<lambda>v. (v, idx)) (nth_opt row idx)) chosen);
        Some (picks, rng) })"

definition weighted_into ::
  "sampler_env \<Rightarrow> sampling_config \<Rightarrow> node_id list \<Rightarrow> f32_bits list \<Rightarrow> nat \<Rightarrow> u64 \<Rightarrow> ((node_id \<times> nat) list \<times> u64) option" where
  "weighted_into env cfg row weights k rng =
     (if sc_replace cfg then Some (weighted_sample_with_replacement_into env row weights k rng)
      else weighted_sample_without_replacement_into env row weights k rng)"

subsection \<open>Emission of one row\<close>

text \<open>Emit the picks \<open>(neighbour, position, time)\<close> of one row in order.\<close>

fun emit_picks :: "sampling_config \<Rightarrow> nat \<Rightarrow> node_id \<Rightarrow> u32 \<Rightarrow> u64 \<Rightarrow> (node_id \<times> nat \<times> f64_bits) list \<Rightarrow> sampler \<Rightarrow> sampler option" where
  "emit_picks cfg n src src_local edge_offset [] s = Some s"
| "emit_picks cfg n src src_local edge_offset ((neighbor, idx, time) # ps) s = do {
     s \<leftarrow> emit_edge cfg n src src_local neighbor (edge_offset + of_nat idx) time s;
     emit_picks cfg n src src_local edge_offset ps s }"

fun emit_sample_replace :: "sampling_config \<Rightarrow> nat \<Rightarrow> node_id \<Rightarrow> u32 \<Rightarrow> node_id list \<Rightarrow> u64 \<Rightarrow> nat \<Rightarrow> sampler \<Rightarrow> sampler option" where
  "emit_sample_replace cfg n src src_local row edge_offset 0 s = Some s"
| "emit_sample_replace cfg n src src_local row edge_offset (Suc k) s = do {
     let (idx, rng) = rand_below (length row) (sm_rng s);
     v \<leftarrow> nth_opt row idx;
     s \<leftarrow> emit_edge cfg n src src_local v (edge_offset + of_nat idx) f64_infinity (s\<lparr>sm_rng := rng\<rparr>);
     emit_sample_replace cfg n src src_local row edge_offset k s }"

definition emit_take_all :: "sampling_config \<Rightarrow> nat \<Rightarrow> node_id \<Rightarrow> u32 \<Rightarrow> node_id list \<Rightarrow> u64 \<Rightarrow> sampler \<Rightarrow> sampler option" where
  "emit_take_all cfg n src src_local row edge_offset s =
     emit_picks cfg n src src_local edge_offset (map (\<lambda>idx. (row ! idx, idx, f64_infinity)) [0..<length row]) s"

fun emit_floyd_stamps :: "sampling_config \<Rightarrow> nat \<Rightarrow> node_id \<Rightarrow> u32 \<Rightarrow> node_id list \<Rightarrow> u64 \<Rightarrow> nat list \<Rightarrow> sampler \<Rightarrow> sampler option" where
  "emit_floyd_stamps cfg n src src_local row edge_offset [] s = Some s"
| "emit_floyd_stamps cfg n src src_local row edge_offset (i # is) s = do {
     let (j, rng) = rand_below (i + 1) (sm_rng s);
     (fresh, f) \<leftarrow> test_and_set (sm_floyd s) j;
     (pick, f) \<leftarrow> (if fresh then Some (j, f) else do { (_, f) \<leftarrow> test_and_set f i; Some (i, f) });
     v \<leftarrow> nth_opt row pick;
     s \<leftarrow> emit_edge cfg n src src_local v (edge_offset + of_nat pick) f64_infinity (s\<lparr>sm_rng := rng, sm_floyd := f\<rparr>);
     emit_floyd_stamps cfg n src src_local row edge_offset is s }"

fun emit_floyd_set :: "sampling_config \<Rightarrow> nat \<Rightarrow> node_id \<Rightarrow> u32 \<Rightarrow> node_id list \<Rightarrow> u64 \<Rightarrow> nat list \<Rightarrow> nat set \<Rightarrow> sampler \<Rightarrow> sampler option" where
  "emit_floyd_set cfg n src src_local row edge_offset [] seen s = Some s"
| "emit_floyd_set cfg n src src_local row edge_offset (i # is) seen s = do {
     let (j, rng) = rand_below (i + 1) (sm_rng s);
     let pick = (if j \<notin> seen then j else i);
     v \<leftarrow> nth_opt row pick;
     s \<leftarrow> emit_edge cfg n src src_local v (edge_offset + of_nat pick) f64_infinity (s\<lparr>sm_rng := rng\<rparr>);
     emit_floyd_set cfg n src src_local row edge_offset is (insert pick seen) s }"

definition emit_sample_floyd :: "sampling_config \<Rightarrow> nat \<Rightarrow> node_id \<Rightarrow> u32 \<Rightarrow> node_id list \<Rightarrow> u64 \<Rightarrow> nat \<Rightarrow> sampler \<Rightarrow> sampler option" where
  "emit_sample_floyd cfg n src src_local row edge_offset k s =
     (let m = length row in
      if m \<le> 256
      then emit_floyd_stamps cfg n src src_local row edge_offset [m - k..<m] (s\<lparr>sm_floyd := floyd_begin (sm_floyd s)\<rparr>)
      else emit_floyd_set cfg n src src_local row edge_offset [m - k..<m] {} s)"

end
