(* ===== verification/Sampler_Run.thy ===== *)
theory Sampler_Run
  imports Sampler
begin

section \<open>The sampling passes\<close>

text \<open>
  The second half of \<^verbatim>\<open>loader/sampler.rs\<close>: sampling one row, the hop loop, the rewriting of the edges,
  the shared and the disjoint passes with their checks, the subgraph and its local indices, and
  the batch sampler. Rayon gives each chunk of batches a sampler of the pool or a new one: the
  model takes one sampler per chunk, whatever its history.
\<close>

subsection \<open>One row\<close>

definition with_times :: "f64_bits \<Rightarrow> (node_id \<times> nat) list \<Rightarrow> (node_id \<times> nat \<times> f64_bits) list" where
  "with_times time picks = map (\<lambda>(v, i). (v, i, time)) picks"

definition gather_at :: "'a list \<Rightarrow> nat list \<Rightarrow> 'a list option" where
  "gather_at xs is = those (map (nth_opt xs) is)"

definition sample_normal :: "sampler_env \<Rightarrow> sampling_config \<Rightarrow> nat \<Rightarrow> node_id \<Rightarrow> u32 \<Rightarrow> node_id list \<Rightarrow> f32_bits list option \<Rightarrow> u64
    \<Rightarrow> nat \<Rightarrow> sampler \<Rightarrow> sampler option" where
  "sample_normal env cfg n node node_local row weights edge_offset sample_size s =
     (case weights of
        Some w \<Rightarrow> do {
          (picks, rng) \<leftarrow> (case hub_cap cfg (length row) of
              Some cap \<Rightarrow> do {
                let (cap_idx, rng) = draw_positions (length row) cap (sm_rng s);
                nbrs \<leftarrow> gather_at row cap_idx;
                ws \<leftarrow> gather_at w cap_idx;
                (picks, rng) \<leftarrow> weighted_into env cfg nbrs ws sample_size rng;
                picks \<leftarrow> those (map (\<lambda>(v, i). map_option (Pair v) (nth_opt cap_idx i)) picks);
                Some (picks, rng) }
            | None \<Rightarrow> weighted_into env cfg row w sample_size (sm_rng s));
          emit_picks cfg n node node_local edge_offset (with_times f64_infinity picks) (s\<lparr>sm_rng := rng\<rparr>) }
      | None \<Rightarrow>
          if sc_replace cfg then emit_sample_replace cfg n node node_local row edge_offset sample_size s
          else if length row \<le> sample_size then emit_take_all cfg n node node_local row edge_offset s
          else emit_sample_floyd cfg n node node_local row edge_offset sample_size s)"

text \<open>The positions before the bound, with their times.\<close>

definition filter_times :: "f64_bits list \<Rightarrow> f64_bits \<Rightarrow> nat list \<Rightarrow> (nat \<times> f64_bits) list option" where
  "filter_times ts bound is = do {
     tis \<leftarrow> gather_at ts is;
     Some (filter (\<lambda>(_, t). f64_lt t bound) (zip is tis)) }"

definition sample_temporal :: "sampler_env \<Rightarrow> sampling_config \<Rightarrow> nat \<Rightarrow> node_id \<Rightarrow> u32 \<Rightarrow> node_id list \<Rightarrow> f64_bits list \<Rightarrow> u64
    \<Rightarrow> nat \<Rightarrow> sampler \<Rightarrow> sampler option" where
  "sample_temporal env cfg n node node_local row ts edge_offset sample_size s =
     (case sc_temporal_strategy cfg of
        None \<Rightarrow> Some s
      | Some strategy \<Rightarrow> do {
          node_time \<leftarrow> nth_opt (sm_node_times s) (unat node_local);
          let cap = hub_cap cfg (length row);
          let (idxs, rng) = (case (strategy, cap) of
              (UniformTime, Some cap) \<Rightarrow> draw_positions (length row) cap (sm_rng s)
            | _ \<Rightarrow> ([0..<length ts], sm_rng s));
          valid \<leftarrow> filter_times ts node_time idxs;
          (if valid = [] then Some (s\<lparr>sm_rng := rng\<rparr>)
           else do {
             (chosen, rng) \<leftarrow> (case strategy of
                 UniformTime \<Rightarrow>
                   if length valid \<le> sample_size then Some (map fst valid, rng)
                   else do {
                     let (picks, rng) = floyd_draw [length valid - sample_size..<length valid] {} rng;
                     entries \<leftarrow> gather_at valid picks;
                     Some (map fst entries, rng) }
               | LastTime \<Rightarrow>
                   let take' = min (length valid) sample_size in
                   if take' = 0 then Some ([], rng)
                   else Some (map fst (take take' (if take' < length valid then env_select_latest env (take' - 1) valid else valid)), rng));
             nbrs \<leftarrow> gather_at row chosen;
             tms \<leftarrow> gather_at ts chosen;
             emit_picks cfg n node node_local edge_offset (zip nbrs (zip chosen tms)) (s\<lparr>sm_rng := rng\<rparr>) }) })"

subsection \<open>The hops\<close>

definition expand_row :: "sampler_env \<Rightarrow> sampling_config \<Rightarrow> csr_view \<Rightarrow> f32_bits list option \<Rightarrow> f64_bits list option \<Rightarrow> bool \<Rightarrow> nat
    \<Rightarrow> node_id \<times> u32 \<Rightarrow> sampler \<Rightarrow> sampler option" where
  "expand_row env cfg csr weights timestamps is_temporal sample_size nl s = do {
     let (node, node_local) = nl;
     let n = cv_num_nodes csr;
     (start, stop) \<leftarrow> view_neighbor_range csr node;
     (if stop \<le> start then Some s
      else do {
        row \<leftarrow> slice_opt (cv_edges csr) start stop;
        let edge_offset = of_nat start;
        (if is_temporal
         then (case timestamps of
             None \<Rightarrow> Some s
           | Some ts_all \<Rightarrow> do {
               ts \<leftarrow> slice_opt ts_all start stop;
               sample_temporal env cfg n node node_local row ts edge_offset sample_size s })
         else do {
           w \<leftarrow> (case weights of None \<Rightarrow> Some None | Some w \<Rightarrow> map_option Some (slice_opt w start stop));
           sample_normal env cfg n node node_local row w edge_offset sample_size s }) }) }"

fun expand_rows :: "sampler_env \<Rightarrow> sampling_config \<Rightarrow> csr_view \<Rightarrow> f32_bits list option \<Rightarrow> f64_bits list option \<Rightarrow> bool \<Rightarrow> nat
    \<Rightarrow> (node_id \<times> u32) list \<Rightarrow> sampler \<Rightarrow> sampler option" where
  "expand_rows env cfg csr weights timestamps is_temporal sample_size [] s = Some s"
| "expand_rows env cfg csr weights timestamps is_temporal sample_size (nl # nls) s = do {
     s \<leftarrow> expand_row env cfg csr weights timestamps is_temporal sample_size nl s;
     expand_rows env cfg csr weights timestamps is_temporal sample_size nls s }"

text \<open>The loop over the hops; it returns what \<^verbatim>\<open>record\<close> is told: the new nodes and edges of each hop.\<close>

fun hop_loop :: "sampler_env \<Rightarrow> sampling_config \<Rightarrow> csr_view \<Rightarrow> f32_bits list option \<Rightarrow> f64_bits list option \<Rightarrow> bool \<Rightarrow> nat
    \<Rightarrow> nat list \<Rightarrow> sampler \<Rightarrow> ((nat \<times> nat) list \<times> sampler) option" where
  "hop_loop env cfg csr weights timestamps is_temporal hop [] s = Some ([], s)"
| "hop_loop env cfg csr weights timestamps is_temporal hop (sample_size # sizes) s = do {
     let edges_before = length (sm_edge_src s);
     s \<leftarrow> expand_rows env cfg csr weights timestamps is_temporal sample_size (sm_frontier s) (s\<lparr>sm_hop := hop, sm_next_frontier := []\<rparr>);
     let rec = (length (sm_next_frontier s), length (sm_edge_src s) - edges_before);
     let s = (if sc_cumulative cfg then s\<lparr>sm_frontier := sm_frontier s @ sm_next_frontier s\<rparr>
              else s\<lparr>sm_frontier := sm_next_frontier s, sm_next_frontier := sm_frontier s\<rparr>);
     (recs, s) \<leftarrow> hop_loop env cfg csr weights timestamps is_temporal (Suc hop) sizes s;
     Some (rec # recs, s) }"

definition run_hops :: "sampler_env \<Rightarrow> sampling_config \<Rightarrow> graph \<Rightarrow> bool \<Rightarrow> sampler \<Rightarrow> ((nat \<times> nat) list \<times> sampler) option" where
  "run_hops env cfg g is_temporal s = do {
     csr \<leftarrow> graph_csr_view g;
     weights \<leftarrow> (if sc_weighted cfg then weights_slice g else Some None);
     let timestamps = (if is_temporal then g_timestamps g else None);
     hop_loop env cfg csr weights timestamps is_temporal 0 (sc_fanout cfg) s }"

subsection \<open>Rewriting the edges\<close>

fun induce_row :: "sampling_config \<Rightarrow> f64_bits list option \<Rightarrow> f64_bits \<Rightarrow> node_id \<Rightarrow> u32 \<Rightarrow> nat \<Rightarrow> node_id list \<Rightarrow> sampler \<Rightarrow> sampler option" where
  "induce_row cfg timestamps bound u u_local pos [] s = Some s"
| "induce_row cfg timestamps bound u u_local pos (w # ws) s = do {
     late \<leftarrow> (case timestamps of None \<Rightarrow> Some False | Some ts \<Rightarrow> map_option (\<lambda>t. f64_ge t bound) (nth_opt ts pos));
     (if late then induce_row cfg timestamps bound u u_local (Suc pos) ws s
      else case dedup_get (sm_dedup s) w of
          Some w_local \<Rightarrow> induce_row cfg timestamps bound u u_local (Suc pos) ws (push_edge cfg u u_local w w_local (of_nat pos) s)
        | None \<Rightarrow> induce_row cfg timestamps bound u u_local (Suc pos) ws s) }"

fun induce_loop :: "sampling_config \<Rightarrow> csr_view \<Rightarrow> f64_bits list option \<Rightarrow> nat list \<Rightarrow> sampler \<Rightarrow> sampler option" where
  "induce_loop cfg csr timestamps [] s = Some s"
| "induce_loop cfg csr timestamps (u_local # us) s = do {
     u \<leftarrow> nth_opt (sm_node_vec s) u_local;
     (start, stop) \<leftarrow> view_neighbor_range csr u;
     bound \<leftarrow> (if sm_track_times s then nth_opt (sm_node_times s) u_local else Some f64_infinity);
     row \<leftarrow> slice_opt (cv_edges csr) start stop;
     s \<leftarrow> induce_row cfg timestamps bound u (of_nat u_local) start row s;
     induce_loop cfg csr timestamps us s }"

definition induce :: "sampling_config \<Rightarrow> graph \<Rightarrow> sampler \<Rightarrow> sampler option" where
  "induce cfg g s = do {
     csr \<leftarrow> graph_csr_view g;
     let timestamps = (if sm_track_times s then g_timestamps g else None);
     induce_loop cfg csr timestamps [0..<length (sm_node_vec s)]
       (s\<lparr>sm_edge_src := [], sm_edge_dst := [], sm_edge_ids := [], sm_src_local := [], sm_dst_local := []\<rparr>) }"

fun mirror_loop :: "sampling_config \<Rightarrow> nat list \<Rightarrow> u64 set \<Rightarrow> sampler \<Rightarrow> sampler option" where
  "mirror_loop cfg [] pairs s = Some s"
| "mirror_loop cfg (i # is) pairs s = do {
     sl \<leftarrow> nth_opt (sm_src_local s) i;
     dl \<leftarrow> nth_opt (sm_dst_local s) i;
     (if pair_key dl sl \<in> pairs then mirror_loop cfg is pairs s
      else do {
        src \<leftarrow> nth_opt (sm_edge_src s) i;
        dst \<leftarrow> nth_opt (sm_edge_dst s) i;
        let s = s\<lparr>sm_edge_src := sm_edge_src s @ [dst], sm_edge_dst := sm_edge_dst s @ [src],
                  sm_src_local := sm_src_local s @ [dl], sm_dst_local := sm_dst_local s @ [sl]\<rparr>;
        s \<leftarrow> (if sc_track_edge_ids cfg
              then do { eid \<leftarrow> nth_opt (sm_edge_ids s) i; Some (s\<lparr>sm_edge_ids := sm_edge_ids s @ [eid]\<rparr>) }
              else Some s);
        mirror_loop cfg is (insert (pair_key dl sl) pairs) s }) }"

definition mirror :: "sampling_config \<Rightarrow> sampler \<Rightarrow> sampler option" where
  "mirror cfg s = do {
     let n = length (sm_edge_src s);
     srcs \<leftarrow> slice_opt (sm_src_local s) 0 n;
     dsts \<leftarrow> slice_opt (sm_dst_local s) 0 n;
     mirror_loop cfg [0..<n] (set (map (\<lambda>(a, b). pair_key a b) (zip srcs dsts))) s }"

definition apply_subgraph_type :: "sampling_config \<Rightarrow> graph \<Rightarrow> sampler \<Rightarrow> sampler option" where
  "apply_subgraph_type cfg g s = (case sc_subgraph_type cfg of
     Directional \<Rightarrow> Some s | Induced \<Rightarrow> induce cfg g s | Bidirectional \<Rightarrow> mirror cfg s)"

subsection \<open>The subgraph\<close>

datatype locals = Recorded "u32 list" "u32 list" "u32 list" | Lazy

record subgraph =
  sg_nodes :: "node_id list"
  sg_edge_src :: "node_id list"
  sg_edge_dst :: "node_id list"
  sg_edge_ids :: "u64 list"
  sg_seeds :: "node_id list"
  sg_num_sampled_nodes :: "nat list"
  sg_num_sampled_edges :: "nat list"
  sg_locals :: locals
  sg_batch :: "u32 list option"

definition from_parts :: "node_id list \<Rightarrow> node_id list \<Rightarrow> node_id list \<Rightarrow> u64 list \<Rightarrow> node_id list \<Rightarrow> nat list \<Rightarrow> nat list \<Rightarrow> subgraph" where
  "from_parts nodes edge_src edge_dst edge_ids seeds num_nodes num_edges =
     \<lparr>sg_nodes = nodes, sg_edge_src = edge_src, sg_edge_dst = edge_dst, sg_edge_ids = edge_ids, sg_seeds = seeds,
      sg_num_sampled_nodes = num_nodes, sg_num_sampled_edges = num_edges, sg_locals = Lazy, sg_batch = None\<rparr>"

text \<open>The map collected from \<open>(id, index)\<close> pairs: a repeated id keeps its last index.\<close>

definition lazy_local_index :: "subgraph \<Rightarrow> node_id \<Rightarrow> u32 option" where
  "lazy_local_index sg = foldl (\<lambda>m (v, i). m(v \<mapsto> of_nat i)) (\<lambda>_. None) (zip (sg_nodes sg) [0..<length (sg_nodes sg)])"

definition edge_index_local :: "subgraph \<Rightarrow> (u32 list \<times> u32 list) option" where
  "edge_index_local sg = (case sg_locals sg of
     Recorded src dst _ \<Rightarrow> Some (src, dst)
   | Lazy \<Rightarrow> do {
       src \<leftarrow> those (map (lazy_local_index sg) (sg_edge_src sg));
       dst \<leftarrow> those (map (lazy_local_index sg) (sg_edge_dst sg));
       Some (src, dst) })"

definition seed_indices_local :: "subgraph \<Rightarrow> u32 list option" where
  "seed_indices_local sg = (case sg_locals sg of
     Recorded _ _ seeds \<Rightarrow> Some seeds
   | Lazy \<Rightarrow> those (map (lazy_local_index sg) (sg_seeds sg)))"

subsection \<open>The shared pass\<close>

fun register_seeds :: "f64_bits list option \<Rightarrow> nat \<Rightarrow> node_id list \<Rightarrow> sampler \<Rightarrow> sampler option" where
  "register_seeds tms i [] s = Some s"
| "register_seeds tms i (seed # seeds) s = do {
     time \<leftarrow> (case tms of None \<Rightarrow> Some f64_infinity | Some ts \<Rightarrow> nth_opt ts i);
     ((local, is_new), s) \<leftarrow> register seed time s;
     let s = s\<lparr>sm_seed_locals := sm_seed_locals s @ [local]\<rparr>;
     let s = (if is_new then s\<lparr>sm_frontier := sm_frontier s @ [(seed, local)]\<rparr> else s);
     register_seeds tms (Suc i) seeds s }"

definition sample_neighbors_inner :: "sampler_env \<Rightarrow> sampling_config \<Rightarrow> graph \<Rightarrow> node_id list \<Rightarrow> f64_bits list option \<Rightarrow> sampler
    \<Rightarrow> (subgraph \<times> sampler) option" where
  "sample_neighbors_inner env cfg g seeds tms s = do {
     let is_temporal = (sc_temporal_strategy cfg \<noteq> None);
     s \<leftarrow> register_seeds tms 0 seeds ((begin_pass is_temporal s)\<lparr>sm_seed_locals := []\<rparr>);
     let seed_nodes = length (sm_node_vec s);
     (recs, s) \<leftarrow> run_hops env cfg g is_temporal s;
     s \<leftarrow> apply_subgraph_type cfg g s;
     Some (\<lparr>sg_nodes = sm_node_vec s, sg_edge_src = sm_edge_src s, sg_edge_dst = sm_edge_dst s, sg_edge_ids = sm_edge_ids s,
            sg_seeds = seeds, sg_num_sampled_nodes = seed_nodes # map fst recs, sg_num_sampled_edges = map snd recs,
            sg_locals = Recorded (sm_src_local s) (sm_dst_local s) (sm_seed_locals s), sg_batch = None\<rparr>,
           s\<lparr>sm_node_vec := [], sm_edge_src := [], sm_edge_dst := [], sm_edge_ids := [], sm_src_local := [], sm_dst_local := [],
             sm_seed_locals := []\<rparr>) }"

definition sample_neighbors :: "sampler_env \<Rightarrow> sampling_config \<Rightarrow> graph \<Rightarrow> node_id list \<Rightarrow> sampler \<Rightarrow> (subgraph \<times> sampler) option" where
  "sample_neighbors env cfg g seeds s = sample_neighbors_inner env cfg g seeds None s"

definition sample_neighbors_temporal :: "sampler_env \<Rightarrow> sampling_config \<Rightarrow> graph \<Rightarrow> node_id list \<Rightarrow> f64_bits list \<Rightarrow> sampler
    \<Rightarrow> ((sample_error + subgraph) \<times> sampler) option" where
  "sample_neighbors_temporal env cfg g seeds tms s =
     (if length seeds \<noteq> length tms then Some (Inl (TimesLengthMismatch (length seeds) (length tms)), s)
      else if \<not> has_timestamps g then Some (Inl SampleTimestampsMissing, s)
      else if sc_temporal_strategy cfg = None then Some (Inl StrategyMissing, s)
      else map_option (\<lambda>(sg, s). (Inr sg, s)) (sample_neighbors_inner env cfg g seeds (Some tms) s))"

subsection \<open>The disjoint pass\<close>

record blocks =
  bl_nodes :: "node_id list"
  bl_edge_src :: "node_id list"
  bl_edge_dst :: "node_id list"
  bl_edge_ids :: "u64 list"
  bl_batch :: "u32 list"
  bl_src_local :: "u32 list"
  bl_dst_local :: "u32 list"
  bl_seed_locals :: "u32 list"
  bl_new_nodes :: "nat list"
  bl_new_edges :: "nat list"

fun disjoint_loop :: "sampler_env \<Rightarrow> sampling_config \<Rightarrow> graph \<Rightarrow> bool \<Rightarrow> f64_bits list option \<Rightarrow> nat \<Rightarrow> node_id list \<Rightarrow> blocks \<Rightarrow> sampler
    \<Rightarrow> (blocks \<times> sampler) option" where
  "disjoint_loop env cfg g is_temporal tms seed_idx [] b s = Some (b, s)"
| "disjoint_loop env cfg g is_temporal tms seed_idx (seed # seeds) b s = do {
     let s = begin_pass is_temporal s;
     time \<leftarrow> (case tms of None \<Rightarrow> Some f64_infinity | Some ts \<Rightarrow> nth_opt ts seed_idx);
     ((seed_local, _), s) \<leftarrow> register seed time s;
     let s = s\<lparr>sm_frontier := sm_frontier s @ [(seed, seed_local)]\<rparr>;
     (recs, s) \<leftarrow> run_hops env cfg g is_temporal s;
     s \<leftarrow> apply_subgraph_type cfg g s;
     let node_offset = of_nat (length (bl_nodes b));
     let b = b\<lparr>bl_seed_locals := bl_seed_locals b @ [node_offset + seed_local],
               bl_src_local := bl_src_local b @ map (\<lambda>l. l + node_offset) (sm_src_local s),
               bl_dst_local := bl_dst_local b @ map (\<lambda>l. l + node_offset) (sm_dst_local s),
               bl_nodes := bl_nodes b @ sm_node_vec s, bl_edge_src := bl_edge_src b @ sm_edge_src s,
               bl_edge_dst := bl_edge_dst b @ sm_edge_dst s, bl_edge_ids := bl_edge_ids b @ sm_edge_ids s,
               bl_batch := bl_batch b @ replicate (length (sm_node_vec s)) (of_nat seed_idx),
               bl_new_nodes := map2 (+) (bl_new_nodes b) (map fst recs), bl_new_edges := map2 (+) (bl_new_edges b) (map snd recs)\<rparr>;
     disjoint_loop env cfg g is_temporal tms (Suc seed_idx) seeds b s }"

definition blocks_empty :: "nat \<Rightarrow> blocks" where
  "blocks_empty hops = \<lparr>bl_nodes = [], bl_edge_src = [], bl_edge_dst = [], bl_edge_ids = [], bl_batch = [], bl_src_local = [],
     bl_dst_local = [], bl_seed_locals = [], bl_new_nodes = replicate hops 0, bl_new_edges = replicate hops 0\<rparr>"

definition sample_neighbors_disjoint :: "sampler_env \<Rightarrow> sampling_config \<Rightarrow> graph \<Rightarrow> node_id list \<Rightarrow> f64_bits list option \<Rightarrow> sampler
    \<Rightarrow> (subgraph \<times> sampler) option" where
  "sample_neighbors_disjoint env cfg g seeds tms s = do {
     assert_opt (\<forall>ts. tms = Some ts \<longrightarrow> length ts = length seeds);
     let is_temporal = (sc_temporal_strategy cfg \<noteq> None);
     (b, s) \<leftarrow> disjoint_loop env cfg g is_temporal tms 0 seeds (blocks_empty (length (sc_fanout cfg))) s;
     Some (\<lparr>sg_nodes = bl_nodes b, sg_edge_src = bl_edge_src b, sg_edge_dst = bl_edge_dst b, sg_edge_ids = bl_edge_ids b,
            sg_seeds = seeds, sg_num_sampled_nodes = length seeds # bl_new_nodes b, sg_num_sampled_edges = bl_new_edges b,
            sg_locals = Recorded (bl_src_local b) (bl_dst_local b) (bl_seed_locals b), sg_batch = Some (bl_batch b)\<rparr>, s) }"

subsection \<open>The checked entry point\<close>

definition sample_checked :: "sampler_env \<Rightarrow> sampling_config \<Rightarrow> graph \<Rightarrow> seeds \<Rightarrow> f64_bits list option \<Rightarrow> sampler
    \<Rightarrow> ((sample_error + subgraph) \<times> sampler) option" where
  "sample_checked env cfg g sd tms s =
     (if sc_temporal_strategy cfg \<noteq> None \<and> \<not> has_timestamps g then Some (Inl SampleTimestampsMissing, s)
      else map_option (\<lambda>(sg, s). (Inr sg, s))
        (if sc_disjoint cfg then sample_neighbors_disjoint env cfg g (sd_ids sd) tms s
         else sample_neighbors_inner env cfg g (sd_ids sd) tms s))"

definition sample :: "sampler_env \<Rightarrow> sampling_config \<Rightarrow> graph \<Rightarrow> seeds \<Rightarrow> f64_bits list option \<Rightarrow> sampler
    \<Rightarrow> ((sample_error + subgraph) \<times> sampler) option" where
  "sample env cfg g sd tms s =
     (if g_num_nodes g < sd_num_nodes sd then Some (Inl (SeedsExceedGraph (sd_num_nodes sd) (g_num_nodes g)), s)
      else case tms of
          Some ts \<Rightarrow>
            if length ts \<noteq> length (sd_ids sd) then Some (Inl (TimesLengthMismatch (length (sd_ids sd)) (length ts)), s)
            else if sc_temporal_strategy cfg = None then Some (Inl StrategyMissing, s)
            else sample_checked env cfg g sd tms s
        | None \<Rightarrow> sample_checked env cfg g sd tms s)"

subsection \<open>The batch sampler\<close>

text \<open>One chunk of batches on one sampler: each batch is seeded from its place in the stream.\<close>

fun sample_group :: "sampler_env \<Rightarrow> sampling_config \<Rightarrow> graph \<Rightarrow> u64 \<Rightarrow> u64 \<Rightarrow> seeds list \<Rightarrow> sampler
    \<Rightarrow> ((sample_error + subgraph list) \<times> sampler) option" where
  "sample_group env cfg g base position [] s = Some (Inr [], s)"
| "sample_group env cfg g base position (sd # sds) s = do {
     (r, s) \<leftarrow> sample env cfg g sd None (reseed (batch_seed base position) s);
     (case r of
        Inl e \<Rightarrow> Some (Inl e, s)
      | Inr sg \<Rightarrow> do {
          (rs, s) \<leftarrow> sample_group env cfg g base (position + 1) sds s;
          Some (map_sum id ((#) sg) rs, s) }) }"

text \<open>The chunks; \<open>pool\<close> has the sampler each chunk checks out. The errors are looked at in order.\<close>

fun sample_groups :: "sampler_env \<Rightarrow> sampling_config \<Rightarrow> graph \<Rightarrow> u64 \<Rightarrow> u64 \<Rightarrow> nat \<Rightarrow> seeds list list \<Rightarrow> sampler list
    \<Rightarrow> ((sample_error + subgraph list) list \<times> sampler list) option" where
  "sample_groups env cfg g base first chunk [] pool = Some ([], pool)"
| "sample_groups env cfg g base first chunk (grp # groups) [] = None"
| "sample_groups env cfg g base first chunk (grp # groups) (s # pool) = do {
     (r, s) \<leftarrow> sample_group env cfg g base first grp s;
     (rs, pool) \<leftarrow> sample_groups env cfg g base (first + of_nat chunk) chunk groups pool;
     Some (r # rs, s # pool) }"

fun join_groups :: "(sample_error + subgraph list) list \<Rightarrow> sample_error + subgraph list" where
  "join_groups [] = Inr []"
| "join_groups (Inl e # rs) = Inl e"
| "join_groups (Inr sgs # rs) = map_sum id ((@) sgs) (join_groups rs)"

function chunks_of :: "nat \<Rightarrow> 'a list \<Rightarrow> 'a list list" where
  "chunks_of k xs = (if xs = [] \<or> k = 0 then [] else take k xs # chunks_of k (drop k xs))"
  by pat_completeness auto

termination chunks_of
  by (relation "measure (\<lambda>(k, xs). length xs)") auto

declare chunks_of.simps [simp del]

definition chunk_size :: "nat \<Rightarrow> nat \<Rightarrow> nat" where
  "chunk_size threads batches = (let threads = max threads 1 in max ((batches + threads - 1) div threads) 1)"

definition sample_batches :: "sampler_env \<Rightarrow> sampling_config \<Rightarrow> graph \<Rightarrow> u64 \<Rightarrow> u64 \<Rightarrow> nat \<Rightarrow> seeds list \<Rightarrow> sampler list
    \<Rightarrow> ((sample_error + subgraph list) \<times> u64 \<times> sampler list) option" where
  "sample_batches env cfg g base next_batch threads batches pool = do {
     let chunk = chunk_size threads (length batches);
     (rs, pool) \<leftarrow> sample_groups env cfg g base next_batch chunk (chunks_of chunk batches) pool;
     Some (join_groups rs, next_batch + of_nat (length batches), pool) }"

end
