(* ===== verification/Sampler_Facts.thy ===== *)
theory Sampler_Facts
  imports Sampler_Run
begin

section \<open>The sampler's pass invariant\<close>

text \<open>
  \<open>pass_ok\<close> is the invariant of a pass: the dedup table is the inverse of the node list, the edge
  buffers run in parallel and hold edges of the graph between placed nodes, the frontiers hold
  placed nodes. Two samplers are \<open>twin\<close>s when they satisfy it and differ in their dedup table and
  stamps only, whose contents an earlier pass may have shaped. Every step returns on twins, with
  the same result, and leaves twins.
\<close>

definition placed :: "node_id list \<Rightarrow> node_id \<Rightarrow> u32 \<Rightarrow> bool" where
  "placed nodes v l \<longleftrightarrow> unat l < length nodes \<and> nodes ! unat l = v"

lemma placed_append: "placed nodes v l \<Longrightarrow> placed (nodes @ xs) v l"
  by (simp add: placed_def nth_append)

definition row_edge :: "csr_view \<Rightarrow> node_id \<Rightarrow> u64 \<Rightarrow> node_id \<Rightarrow> bool" where
  "row_edge csr u e v \<longleftrightarrow> (\<exists>a b. view_neighbor_range csr u = Some (a, b) \<and> a \<le> unat e \<and> unat e < b \<and>
     nth_opt (cv_edges csr) (unat e) = Some v)"

definition edges_ok :: "(node_id \<Rightarrow> u64 \<Rightarrow> node_id \<Rightarrow> bool) \<Rightarrow> sampling_config \<Rightarrow> sampler \<Rightarrow> bool" where
  "edges_ok edge cfg s \<longleftrightarrow> (\<exists>E. sm_src_local s = map fst E \<and> sm_dst_local s = map (fst \<circ> snd) E \<and>
     sm_edge_src s = map (\<lambda>x. sm_node_vec s ! unat (fst x)) E \<and> sm_edge_dst s = map (\<lambda>x. sm_node_vec s ! unat (fst (snd x))) E \<and>
     sm_edge_ids s = (if sc_track_edge_ids cfg then map (snd \<circ> snd) E else []) \<and>
     (\<forall>x\<in>set E. unat (fst x) < length (sm_node_vec s) \<and> unat (fst (snd x)) < length (sm_node_vec s) \<and>
        edge (sm_node_vec s ! unat (fst x)) (snd (snd x)) (sm_node_vec s ! unat (fst (snd x)))))"

definition pass_ok :: "csr_view \<Rightarrow> sampling_config \<Rightarrow> sampler \<Rightarrow> bool" where
  "pass_ok csr cfg s \<longleftrightarrow> cv_num_nodes csr \<le> MAX_NODES \<and> dedup_wf (cv_num_nodes csr) (sm_dedup s) \<and> floyd_wf (sm_floyd s) \<and>
     distinct (sm_node_vec s) \<and> (\<forall>v\<in>set (sm_node_vec s). unat v < cv_num_nodes csr) \<and>
     (\<forall>v i. dedup_get (sm_dedup s) v = Some i \<longleftrightarrow> placed (sm_node_vec s) v i) \<and>
     (sm_track_times s \<longrightarrow> length (sm_node_times s) = length (sm_node_vec s)) \<and>
     (\<forall>(v, l)\<in>set (sm_frontier s). placed (sm_node_vec s) v l) \<and> (\<forall>(v, l)\<in>set (sm_next_frontier s). placed (sm_node_vec s) v l) \<and>
     edges_ok (row_edge csr) cfg s"

lemma pass_okD:
  assumes "pass_ok csr cfg s"
  shows "cv_num_nodes csr \<le> MAX_NODES" and "dedup_wf (cv_num_nodes csr) (sm_dedup s)" and "floyd_wf (sm_floyd s)"
    and "distinct (sm_node_vec s)" and "\<forall>v\<in>set (sm_node_vec s). unat v < cv_num_nodes csr"
    and "\<forall>v i. dedup_get (sm_dedup s) v = Some i \<longleftrightarrow> placed (sm_node_vec s) v i"
    and "sm_track_times s \<longrightarrow> length (sm_node_times s) = length (sm_node_vec s)"
    and "\<forall>(v, l)\<in>set (sm_frontier s). placed (sm_node_vec s) v l" and "\<forall>(v, l)\<in>set (sm_next_frontier s). placed (sm_node_vec s) v l"
    and "edges_ok (row_edge csr) cfg s"
  using assms unfolding pass_ok_def by blast+

lemma distinct_below: "distinct (xs :: u32 list) \<Longrightarrow> \<forall>v\<in>set xs. unat v < n \<Longrightarrow> length xs \<le> n"
proof -
  assume d: "distinct xs" and b: "\<forall>v\<in>set xs. unat v < n"
  have "distinct (map unat xs)" using d by (simp add: distinct_map inj_on_def word_unat_eq_iff)
  then have "length xs = card (set (map unat xs))" by (metis distinct_card length_map)
  also have "\<dots> \<le> card {0..<n}" using b by (intro card_mono) auto
  finally show ?thesis by simp
qed

lemma pass_small: "pass_ok csr cfg s \<Longrightarrow> v \<notin> set (sm_node_vec s) \<Longrightarrow> unat v < cv_num_nodes csr \<Longrightarrow> length (sm_node_vec s) < 2 ^ 32"
  using distinct_below [OF pass_okD(4,5)] pass_okD(1) by (fastforce simp: MAX_NODES_def)

text \<open>The index of a node, and what registration does to the part of the state that is output.\<close>

definition local_of :: "node_id list \<Rightarrow> node_id \<Rightarrow> u32 option" where
  "local_of nodes v = map_option of_nat (find (\<lambda>i. nodes ! i = v) [0..<length nodes])"

lemma local_of_placed:
  assumes "distinct nodes" and "length nodes \<le> 2 ^ 32"
  shows "local_of nodes v = Some l \<longleftrightarrow> placed nodes v l"
proof
  assume "local_of nodes v = Some l"
  then obtain i where i: "find (\<lambda>i. nodes ! i = v) [0..<length nodes] = Some i" "l = of_nat i" by (auto simp: local_of_def)
  then have "i < length nodes" "nodes ! i = v" by (auto simp: find_Some_iff)
  moreover have "unat l = i" using i(2) \<open>i < length nodes\<close> assms(2) by simp
  ultimately show "placed nodes v l" by (simp add: placed_def)
next
  assume p: "placed nodes v l"
  then have "find (\<lambda>i. nodes ! i = v) [0..<length nodes] \<noteq> None" by (auto simp: find_None_iff placed_def)
  then obtain i where i: "find (\<lambda>i. nodes ! i = v) [0..<length nodes] = Some i" by blast
  then have "i < length nodes" "nodes ! i = v" by (auto simp: find_Some_iff)
  then have "i = unat l" using p assms(1) by (auto simp: placed_def nth_eq_iff_index_eq)
  then show "local_of nodes v = Some l" using i by (simp add: local_of_def)
qed

definition registered :: "node_id \<Rightarrow> f64_bits \<Rightarrow> sampler \<Rightarrow> sampler" where
  "registered v time s = (case local_of (sm_node_vec s) v of
     None \<Rightarrow> s\<lparr>sm_node_vec := sm_node_vec s @ [v],
               sm_node_times := (if sm_track_times s then sm_node_times s @ [time] else sm_node_times s)\<rparr>
   | Some l \<Rightarrow> if sm_track_times s \<and> f64_lt time (sm_node_times s ! unat l)
               then s\<lparr>sm_node_times := (sm_node_times s)[unat l := time]\<rparr> else s)"

definition local_after :: "node_id \<Rightarrow> sampler \<Rightarrow> u32" where
  "local_after v s = (case local_of (sm_node_vec s) v of None \<Rightarrow> of_nat (length (sm_node_vec s)) | Some l \<Rightarrow> l)"

lemma edges_ok_append: "edges_ok edge cfg s \<Longrightarrow> sm_src_local s' = sm_src_local s \<Longrightarrow> sm_dst_local s' = sm_dst_local s \<Longrightarrow>
    sm_edge_src s' = sm_edge_src s \<Longrightarrow> sm_edge_dst s' = sm_edge_dst s \<Longrightarrow> sm_edge_ids s' = sm_edge_ids s \<Longrightarrow>
    sm_node_vec s' = sm_node_vec s @ xs \<Longrightarrow> edges_ok edge cfg s'"
  unfolding edges_ok_def by (elim exE, rule_tac x = E in exI) (auto simp: nth_append)

lemma registered_simps [simp]:
  "sm_rng (registered v time s) = sm_rng s" "sm_track_times (registered v time s) = sm_track_times s" "sm_hop (registered v time s) = sm_hop s"
  "sm_edge_src (registered v time s) = sm_edge_src s" "sm_edge_dst (registered v time s) = sm_edge_dst s"
  "sm_edge_ids (registered v time s) = sm_edge_ids s" "sm_src_local (registered v time s) = sm_src_local s"
  "sm_dst_local (registered v time s) = sm_dst_local s" "sm_seed_locals (registered v time s) = sm_seed_locals s"
  "sm_frontier (registered v time s) = sm_frontier s" "sm_next_frontier (registered v time s) = sm_next_frontier s"
  "sm_floyd (registered v time s) = sm_floyd s" "sm_emitted_at (registered v time s) = sm_emitted_at s"
  "sm_dedup (registered v time s) = sm_dedup s"
  by (simp_all add: registered_def split: option.split)

lemma registered_nodes: "sm_node_vec (registered v time s) = sm_node_vec s @ (if local_of (sm_node_vec s) v = None then [v] else [])"
  by (simp add: registered_def split: option.split)

lemma register_ok:
  assumes ok: "pass_ok csr cfg s" and v: "unat v < cv_num_nodes csr"
  shows "\<exists>d. register v time s = Some ((local_after v s, local_of (sm_node_vec s) v = None), (registered v time s)\<lparr>sm_dedup := d\<rparr>) \<and>
    pass_ok csr cfg ((registered v time s)\<lparr>sm_dedup := d\<rparr>)" and "placed (sm_node_vec (registered v time s)) v (local_after v s)"
proof -
  note P = pass_okD [OF ok]
  have len: "length (sm_node_vec s) \<le> 2 ^ 32" using distinct_below [OF P(4,5)] P(1) by (simp add: MAX_NODES_def)
  note lo = local_of_placed [OF P(4) len]
  have get: "dedup_get (sm_dedup s) v = local_of (sm_node_vec s) v"
    using P(6) lo by (metis option.exhaust)
  let ?k = "of_nat (length (sm_node_vec s)) :: u32"
  obtain d where d: "dedup_wf (cv_num_nodes csr) d" "case dedup_get (sm_dedup s) v of
     Some i \<Rightarrow> dedup_probe_or_insert (sm_dedup s) v ?k = Some ((i, False), d) \<and> dedup_get d = dedup_get (sm_dedup s)
   | None \<Rightarrow> dedup_probe_or_insert (sm_dedup s) v ?k = Some ((?k, True), d) \<and> dedup_get d = (dedup_get (sm_dedup s))(v \<mapsto> ?k)"
    using dedup_probe_ok [OF P(2) v, of ?k] by blast
  have "(register v time s = Some ((local_after v s, local_of (sm_node_vec s) v = None), (registered v time s)\<lparr>sm_dedup := d\<rparr>) \<and>
    pass_ok csr cfg ((registered v time s)\<lparr>sm_dedup := d\<rparr>)) \<and> placed (sm_node_vec (registered v time s)) v (local_after v s)"
  proof (cases "local_of (sm_node_vec s) v")
    case (Some l)
    have pl: "placed (sm_node_vec s) v l" using lo Some by simp
    have dd: "dedup_probe_or_insert (sm_dedup s) v ?k = Some ((l, False), d)" "dedup_get d = dedup_get (sm_dedup s)"
      using d(2) Some get by simp_all
    have ln: "unat l < length (sm_node_vec s)" using pl by (simp add: placed_def)
    have run: "register v time s = Some ((l, False), (registered v time s)\<lparr>sm_dedup := d\<rparr>)"
      using dd(1) P(7) ln Some by (cases "sm_track_times s") (simp_all add: register_def registered_def nth_opt_Some Let_def)
    have nodes: "sm_node_vec (registered v time s) = sm_node_vec s" using Some by (simp add: registered_nodes)
    have tms: "sm_track_times s \<longrightarrow> length (sm_node_times (registered v time s)) = length (sm_node_vec s)"
      using P(7) Some by (simp add: registered_def)
    have "edges_ok (row_edge csr) cfg ((registered v time s)\<lparr>sm_dedup := d\<rparr>)"
      by (rule edges_ok_append [OF P(10), of _ "[]"]) (simp_all add: nodes)
    then have "pass_ok csr cfg ((registered v time s)\<lparr>sm_dedup := d\<rparr>)"
      using P(1-9) d(1) dd(2) tms unfolding pass_ok_def by (simp add: nodes)
    then show ?thesis using run Some pl nodes by (simp add: local_after_def)
  next
    case None
    have nv: "v \<notin> set (sm_node_vec s)"
    proof
      assume "v \<in> set (sm_node_vec s)"
      then obtain i where "i < length (sm_node_vec s)" "sm_node_vec s ! i = v" by (auto simp: in_set_conv_nth)
      then have "placed (sm_node_vec s) v (of_nat i)" using len by (simp add: placed_def)
      then show False using lo [of v "of_nat i"] None by simp
    qed
    have small: "length (sm_node_vec s) < 2 ^ 32" by (rule pass_small [OF ok nv v])
    have dd: "dedup_probe_or_insert (sm_dedup s) v ?k = Some ((?k, True), d)" "dedup_get d = (dedup_get (sm_dedup s))(v \<mapsto> ?k)"
      using d(2) None get by simp_all
    have run: "register v time s = Some ((?k, True), (registered v time s)\<lparr>sm_dedup := d\<rparr>)"
      using dd(1) None by (simp add: register_def registered_def)
    have nodes: "sm_node_vec (registered v time s) = sm_node_vec s @ [v]" using None by (simp add: registered_nodes)
    have tms: "sm_track_times s \<longrightarrow> length (sm_node_times (registered v time s)) = Suc (length (sm_node_vec s))"
      using P(7) None by (simp add: registered_def)
    have uk: "unat ?k = length (sm_node_vec s)" using small by simp
    have view: "(dedup_get d w = Some i) = placed (sm_node_vec s @ [v]) w i" for w i
    proof (cases "w = v")
      case True
      have "\<not> (unat i < length (sm_node_vec s) \<and> sm_node_vec s ! unat i = v)" using nv nth_mem by metis
      then have "placed (sm_node_vec s @ [v]) v i \<longleftrightarrow> unat i = length (sm_node_vec s)" by (auto simp: placed_def nth_append)
      also have "\<dots> \<longleftrightarrow> i = ?k" using uk word_unat_eq_iff [of i ?k] by simp
      finally have "placed (sm_node_vec s @ [v]) v i \<longleftrightarrow> i = ?k" .
      then show ?thesis using True dd(2) by auto
    next
      case False
      have "placed (sm_node_vec s @ [v]) w i \<longleftrightarrow> placed (sm_node_vec s) w i" using False by (auto simp: placed_def nth_append)
      then show ?thesis using False dd(2) P(6) by simp
    qed
    have "edges_ok (row_edge csr) cfg ((registered v time s)\<lparr>sm_dedup := d\<rparr>)"
      by (rule edges_ok_append [OF P(10), of _ "[v]"]) (simp_all add: nodes)
    then have "pass_ok csr cfg ((registered v time s)\<lparr>sm_dedup := d\<rparr>)"
      using P(1-5,8,9) d(1) view tms nv v unfolding pass_ok_def by (auto simp: nodes intro: placed_append)
    moreover have "placed (sm_node_vec s @ [v]) v ?k" using uk by (simp add: placed_def)
    ultimately show ?thesis using run None nodes by (simp add: local_after_def)
  qed
  then show "\<exists>d. register v time s = Some ((local_after v s, local_of (sm_node_vec s) v = None), (registered v time s)\<lparr>sm_dedup := d\<rparr>) \<and>
    pass_ok csr cfg ((registered v time s)\<lparr>sm_dedup := d\<rparr>)" and "placed (sm_node_vec (registered v time s)) v (local_after v s)" by blast+
qed

end
