(* ===== verification/Sampler_Twins.thy ===== *)
theory Sampler_Twins
  imports Sampler_Facts
begin

section \<open>Every step of the sampler on twins\<close>

definition core :: "sampler \<Rightarrow> sampler" where
  "core s = s\<lparr>sm_dedup := Hashed (\<lambda>_. None), sm_floyd := floyd_new\<rparr>"

lemma core_sel [simp]:
  "sm_rng (core s) = sm_rng s" "sm_node_vec (core s) = sm_node_vec s" "sm_node_times (core s) = sm_node_times s"
  "sm_track_times (core s) = sm_track_times s" "sm_hop (core s) = sm_hop s" "sm_edge_src (core s) = sm_edge_src s"
  "sm_edge_dst (core s) = sm_edge_dst s" "sm_edge_ids (core s) = sm_edge_ids s" "sm_src_local (core s) = sm_src_local s"
  "sm_dst_local (core s) = sm_dst_local s" "sm_seed_locals (core s) = sm_seed_locals s" "sm_frontier (core s) = sm_frontier s"
  "sm_next_frontier (core s) = sm_next_frontier s" "sm_emitted_at (core s) = sm_emitted_at s"
  by (simp_all add: core_def)

lemma core_update [simp]:
  "core (s\<lparr>sm_dedup := d\<rparr>) = core s" "core (s\<lparr>sm_floyd := f\<rparr>) = core s" "core (s\<lparr>sm_rng := r\<rparr>) = (core s)\<lparr>sm_rng := r\<rparr>"
  "core (s\<lparr>sm_node_vec := nv\<rparr>) = (core s)\<lparr>sm_node_vec := nv\<rparr>" "core (s\<lparr>sm_node_times := nt\<rparr>) = (core s)\<lparr>sm_node_times := nt\<rparr>"
  "core (s\<lparr>sm_track_times := tt\<rparr>) = (core s)\<lparr>sm_track_times := tt\<rparr>" "core (s\<lparr>sm_hop := h\<rparr>) = (core s)\<lparr>sm_hop := h\<rparr>"
  "core (s\<lparr>sm_edge_src := es\<rparr>) = (core s)\<lparr>sm_edge_src := es\<rparr>" "core (s\<lparr>sm_edge_dst := ed\<rparr>) = (core s)\<lparr>sm_edge_dst := ed\<rparr>"
  "core (s\<lparr>sm_edge_ids := ei\<rparr>) = (core s)\<lparr>sm_edge_ids := ei\<rparr>" "core (s\<lparr>sm_src_local := sl\<rparr>) = (core s)\<lparr>sm_src_local := sl\<rparr>"
  "core (s\<lparr>sm_dst_local := dl\<rparr>) = (core s)\<lparr>sm_dst_local := dl\<rparr>" "core (s\<lparr>sm_seed_locals := ss\<rparr>) = (core s)\<lparr>sm_seed_locals := ss\<rparr>"
  "core (s\<lparr>sm_frontier := fr\<rparr>) = (core s)\<lparr>sm_frontier := fr\<rparr>" "core (s\<lparr>sm_next_frontier := nf\<rparr>) = (core s)\<lparr>sm_next_frontier := nf\<rparr>"
  "core (s\<lparr>sm_emitted_at := em\<rparr>) = (core s)\<lparr>sm_emitted_at := em\<rparr>"
  by (simp_all add: core_def)

definition twin :: "csr_view \<Rightarrow> sampling_config \<Rightarrow> sampler \<Rightarrow> sampler \<Rightarrow> bool" where
  "twin csr cfg s t \<longleftrightarrow> pass_ok csr cfg s \<and> pass_ok csr cfg t \<and> core s = core t"

definition grown :: "sampler \<Rightarrow> sampler \<Rightarrow> bool" where
  "grown s s' \<longleftrightarrow> (\<exists>xs zs. sm_node_vec s' = sm_node_vec s @ xs \<and> sm_next_frontier s' = sm_next_frontier s @ zs \<and> length zs = length xs) \<and>
     sm_frontier s' = sm_frontier s \<and> sm_track_times s' = sm_track_times s \<and> sm_hop s' = sm_hop s \<and>
     sm_seed_locals s' = sm_seed_locals s \<and> length (sm_edge_src s) \<le> length (sm_edge_src s')"

definition runs :: "csr_view \<Rightarrow> sampling_config \<Rightarrow> (sampler \<Rightarrow> sampler option) \<Rightarrow> sampler \<Rightarrow> sampler \<Rightarrow> bool" where
  "runs csr cfg f s t \<longleftrightarrow> (\<exists>s' t'. f s = Some s' \<and> f t = Some t' \<and> twin csr cfg s' t' \<and> grown s s')"

lemma grown_refl [simp]: "grown s s"
  by (simp add: grown_def)

lemma grown_trans: "grown s s' \<Longrightarrow> grown s' s'' \<Longrightarrow> grown s s''"
  unfolding grown_def by auto

lemma grown_placed: "grown s s' \<Longrightarrow> placed (sm_node_vec s) v l \<Longrightarrow> placed (sm_node_vec s') v l"
  unfolding grown_def by (auto intro: placed_append)

lemma twin_sel:
  assumes "twin csr cfg s t"
  shows "sm_rng s = sm_rng t" "sm_node_vec s = sm_node_vec t" "sm_node_times s = sm_node_times t" "sm_track_times s = sm_track_times t"
    "sm_hop s = sm_hop t" "sm_edge_src s = sm_edge_src t" "sm_edge_dst s = sm_edge_dst t" "sm_edge_ids s = sm_edge_ids t"
    "sm_src_local s = sm_src_local t" "sm_dst_local s = sm_dst_local t" "sm_seed_locals s = sm_seed_locals t"
    "sm_frontier s = sm_frontier t" "sm_next_frontier s = sm_next_frontier t" "sm_emitted_at s = sm_emitted_at t"
proof -
  have c: "core s = core t" using assms by (simp add: twin_def)
  note e = arg_cong [OF c]
  show "sm_rng s = sm_rng t" using e [of sm_rng] by simp
  show "sm_node_vec s = sm_node_vec t" using e [of sm_node_vec] by simp
  show "sm_node_times s = sm_node_times t" using e [of sm_node_times] by simp
  show "sm_track_times s = sm_track_times t" using e [of sm_track_times] by simp
  show "sm_hop s = sm_hop t" using e [of sm_hop] by simp
  show "sm_edge_src s = sm_edge_src t" using e [of sm_edge_src] by simp
  show "sm_edge_dst s = sm_edge_dst t" using e [of sm_edge_dst] by simp
  show "sm_edge_ids s = sm_edge_ids t" using e [of sm_edge_ids] by simp
  show "sm_src_local s = sm_src_local t" using e [of sm_src_local] by simp
  show "sm_dst_local s = sm_dst_local t" using e [of sm_dst_local] by simp
  show "sm_seed_locals s = sm_seed_locals t" using e [of sm_seed_locals] by simp
  show "sm_frontier s = sm_frontier t" using e [of sm_frontier] by simp
  show "sm_next_frontier s = sm_next_frontier t" using e [of sm_next_frontier] by simp
  show "sm_emitted_at s = sm_emitted_at t" using e [of sm_emitted_at] by simp
qed

lemma pass_ok_updates [simp]:
  "pass_ok csr cfg (s\<lparr>sm_rng := r\<rparr>) = pass_ok csr cfg s" "pass_ok csr cfg (s\<lparr>sm_hop := h\<rparr>) = pass_ok csr cfg s"
  "pass_ok csr cfg (s\<lparr>sm_seed_locals := sl\<rparr>) = pass_ok csr cfg s" "pass_ok csr cfg (s\<lparr>sm_emitted_at := em\<rparr>) = pass_ok csr cfg s"
  by (simp_all add: pass_ok_def edges_ok_def)

lemma pass_ok_floyd: "pass_ok csr cfg s \<Longrightarrow> floyd_wf f \<Longrightarrow> pass_ok csr cfg (s\<lparr>sm_floyd := f\<rparr>)"
  by (simp add: pass_ok_def edges_ok_def)

lemma pass_ok_frontiers:
  "pass_ok csr cfg s \<Longrightarrow> \<forall>(v, l)\<in>set fr. placed (sm_node_vec s) v l \<Longrightarrow> \<forall>(v, l)\<in>set nf. placed (sm_node_vec s) v l \<Longrightarrow>
    pass_ok csr cfg (s\<lparr>sm_frontier := fr, sm_next_frontier := nf\<rparr>)"
  by (simp add: pass_ok_def edges_ok_def)

lemma twin_rng: "twin csr cfg s t \<Longrightarrow> twin csr cfg (s\<lparr>sm_rng := r\<rparr>) (t\<lparr>sm_rng := r\<rparr>)"
  by (simp add: twin_def)

lemma twin_refl: "pass_ok csr cfg s \<Longrightarrow> twin csr cfg s s"
  by (simp add: twin_def)


subsection \<open>Emitting one edge\<close>

lemma registered_core [simp]: "core (registered v time s) = registered v time (core s)" "local_after v (core s) = local_after v s"
  by (simp_all add: registered_def local_after_def split: option.split)

lemma push_edge_core [simp]: "core (push_edge cfg src sl dst dl eid s) = push_edge cfg src sl dst dl eid (core s)"
  by (simp add: push_edge_def)

lemma push_edge_ok:
  assumes ok: "pass_ok csr cfg s" and src: "placed (sm_node_vec s) src sl" and dst: "placed (sm_node_vec s) dst dl" and e: "row_edge csr src eid dst"
  shows "pass_ok csr cfg (push_edge cfg src sl dst dl eid s)"
proof -
  obtain E where E: "sm_src_local s = map fst E" "sm_dst_local s = map (fst \<circ> snd) E"
     "sm_edge_src s = map (\<lambda>x. sm_node_vec s ! unat (fst x)) E" "sm_edge_dst s = map (\<lambda>x. sm_node_vec s ! unat (fst (snd x))) E"
     "sm_edge_ids s = (if sc_track_edge_ids cfg then map (snd \<circ> snd) E else [])"
     "\<forall>x\<in>set E. unat (fst x) < length (sm_node_vec s) \<and> unat (fst (snd x)) < length (sm_node_vec s) \<and>
        row_edge csr (sm_node_vec s ! unat (fst x)) (snd (snd x)) (sm_node_vec s ! unat (fst (snd x)))"
    using pass_okD(10) [OF ok] unfolding edges_ok_def by blast
  have "edges_ok (row_edge csr) cfg (push_edge cfg src sl dst dl eid s)"
    unfolding edges_ok_def
    by (rule exI [of _ "E @ [(sl, dl, eid)]"]) (use E src dst e in \<open>auto simp: push_edge_def placed_def\<close>)
  then show ?thesis using pass_okD(1-9) [OF ok] unfolding pass_ok_def by (simp add: push_edge_def)
qed

lemma pass_ok_next:
  assumes ok: "pass_ok csr cfg s" and p: "placed (sm_node_vec s) v l"
  shows "pass_ok csr cfg (s\<lparr>sm_next_frontier := sm_next_frontier s @ [(v, l)]\<rparr>)"
proof -
  have "edges_ok (row_edge csr) cfg (s\<lparr>sm_next_frontier := sm_next_frontier s @ [(v, l)]\<rparr>)"
    by (rule edges_ok_append [OF pass_okD(10) [OF ok], of _ "[]"]) simp_all
  then show ?thesis using pass_okD(1-9) [OF ok] p unfolding pass_ok_def by simp
qed

definition inserted :: "node_id \<Rightarrow> f64_bits \<Rightarrow> sampler \<Rightarrow> sampler" where
  "inserted v time s = (let s' = registered v time s in
     if local_of (sm_node_vec s) v = None then s'\<lparr>sm_next_frontier := sm_next_frontier s' @ [(v, local_after v s)]\<rparr> else s')"

lemma insert_node_ok:
  assumes ok: "pass_ok csr cfg s" and v: "unat v < cv_num_nodes csr"
  shows "\<exists>d. insert_node_frontier (cv_num_nodes csr) v time s = Some (Some (local_after v s), (inserted v time s)\<lparr>sm_dedup := d\<rparr>) \<and>
    pass_ok csr cfg ((inserted v time s)\<lparr>sm_dedup := d\<rparr>)"
    and "placed (sm_node_vec (inserted v time s)) v (local_after v s)" and "grown s (inserted v time s)"
proof -
  obtain d where d: "register v time s = Some ((local_after v s, local_of (sm_node_vec s) v = None), (registered v time s)\<lparr>sm_dedup := d\<rparr>)"
    "pass_ok csr cfg ((registered v time s)\<lparr>sm_dedup := d\<rparr>)" using register_ok(1) [OF ok v] by blast
  have pl: "placed (sm_node_vec (registered v time s)) v (local_after v s)" by (rule register_ok(2) [OF ok v])
  show "placed (sm_node_vec (inserted v time s)) v (local_after v s)" using pl by (simp add: inserted_def Let_def)
  show "grown s (inserted v time s)" by (auto simp: grown_def inserted_def Let_def registered_nodes)
  have e: "(inserted v time s)\<lparr>sm_dedup := d\<rparr> = (let s' = (registered v time s)\<lparr>sm_dedup := d\<rparr> in
     if local_of (sm_node_vec s) v = None then s'\<lparr>sm_next_frontier := sm_next_frontier s' @ [(v, local_after v s)]\<rparr> else s')"
    by (simp add: inserted_def Let_def)
  have "pass_ok csr cfg ((inserted v time s)\<lparr>sm_dedup := d\<rparr>)"
    unfolding e Let_def using d(2) pass_ok_next [OF d(2), of v "local_after v s"] pl by simp
  moreover have "insert_node_frontier (cv_num_nodes csr) v time s = Some (Some (local_after v s), (inserted v time s)\<lparr>sm_dedup := d\<rparr>)"
    using d(1) v unfolding e by (simp add: insert_node_frontier_def Let_def)
  ultimately show "\<exists>d. insert_node_frontier (cv_num_nodes csr) v time s = Some (Some (local_after v s), (inserted v time s)\<lparr>sm_dedup := d\<rparr>) \<and>
    pass_ok csr cfg ((inserted v time s)\<lparr>sm_dedup := d\<rparr>)" by blast
qed

text \<open>What an emission does to the output.\<close>

definition emitted :: "sampling_config \<Rightarrow> nat \<Rightarrow> node_id \<Rightarrow> u32 \<Rightarrow> node_id \<Rightarrow> u64 \<Rightarrow> f64_bits \<Rightarrow> sampler \<Rightarrow> sampler" where
  "emitted cfg n src sl v eid time s =
     (let (fresh, s) = (if sc_cumulative cfg then fresh_edge eid s else (True, s)) in
      if \<not> fresh \<or> n \<le> unat v then s
      else push_edge cfg src sl v (local_after v s) eid (inserted v time s))"

lemma inserted_core [simp]: "core (inserted v time s) = inserted v time (core s)"
  by (simp add: inserted_def Let_def)

lemma fresh_edge_core: "fst (fresh_edge eid (core s)) = fst (fresh_edge eid s)" "snd (fresh_edge eid (core s)) = core (snd (fresh_edge eid s))"
  by (simp_all add: fresh_edge_def split: option.split)

lemma emitted_core: "core (emitted cfg n src sl v eid time s) = emitted cfg n src sl v eid time (core s)"
  by (simp add: emitted_def Let_def split_beta fresh_edge_core)

end
