(* ===== verification/Sampler_Steps.thy ===== *)
theory Sampler_Steps
  imports Sampler_Twins Csr_Properties
begin

section \<open>Emissions and hops on twins\<close>

text \<open>
  \<open>runs f s t\<close>: the step \<open>f\<close> returns on the twins \<open>s\<close> and \<open>t\<close>, leaves twins and only lets the output
  grow. The lemmas go from one edge over the picks of a row to the hop loop.
\<close>

lemma runsI: "f s = Some s' \<Longrightarrow> f t = Some t' \<Longrightarrow> twin csr cfg s' t' \<Longrightarrow> grown s s' \<Longrightarrow> runs csr cfg f s t"
  by (auto simp: runs_def)

lemma runsE:
  assumes "runs csr cfg f s t"
  obtains s' t' where "f s = Some s'" "f t = Some t'" "twin csr cfg s' t'" "grown s s'"
  using assms by (auto simp: runs_def)

lemma runs_Some: "twin csr cfg s t \<Longrightarrow> runs csr cfg Some s t"
  by (simp add: runs_def)

lemma runs_bind:
  assumes "runs csr cfg f s t" and "\<And>s' t'. twin csr cfg s' t' \<Longrightarrow> grown s s' \<Longrightarrow> runs csr cfg k s' t'"
  shows "runs csr cfg (\<lambda>u. f u \<bind> k) s t"
proof -
  obtain s' t' where f: "f s = Some s'" "f t = Some t'" "twin csr cfg s' t'" "grown s s'" using assms(1) by (rule runsE)
  obtain s'' t'' where k: "k s' = Some s''" "k t' = Some t''" "twin csr cfg s'' t''" "grown s' s''"
    using assms(2) [OF f(3,4)] by (rule runsE)
  show ?thesis by (rule runsI [OF _ _ k(3) grown_trans [OF f(4) k(4)]]) (simp_all add: f k)
qed

text \<open>Steps that change the generator and the stamps alone.\<close>

definition scratched :: "sampler \<Rightarrow> sampler \<Rightarrow> bool" where
  "scratched s s' \<longleftrightarrow> (\<exists>r f. s' = s\<lparr>sm_rng := r, sm_floyd := f\<rparr>)"

lemma grown_scratch [simp]: "grown (s\<lparr>sm_rng := r\<rparr>) u = grown s u" "grown (s\<lparr>sm_floyd := f\<rparr>) u = grown s u"
  by (simp_all add: grown_def)

lemma twin_scratch: "twin csr cfg s t \<Longrightarrow> floyd_wf f \<Longrightarrow> floyd_wf f' \<Longrightarrow>
    twin csr cfg (s\<lparr>sm_rng := r, sm_floyd := f\<rparr>) (t\<lparr>sm_rng := r, sm_floyd := f'\<rparr>)"
  unfolding twin_def using pass_ok_floyd [of csr cfg "s\<lparr>sm_rng := r\<rparr>" f] pass_ok_floyd [of csr cfg "t\<lparr>sm_rng := r\<rparr>" f'] by simp

subsection \<open>One edge\<close>

lemma fresh_edge_keeps: "fresh_edge eid s = (b, s') \<Longrightarrow> \<exists>em. s' = s\<lparr>sm_emitted_at := em\<rparr>"
proof -
  have self: "\<exists>em. s = s\<lparr>sm_emitted_at := em\<rparr>" by (rule exI [of _ "sm_emitted_at s"]) simp
  assume "fresh_edge eid s = (b, s')"
  then show ?thesis using self by (auto simp: fresh_edge_def split: option.splits)
qed

lemma grown_emitted_at [simp]: "grown (s\<lparr>sm_emitted_at := em\<rparr>) u = grown s u"
  by (simp add: grown_def)

lemma push_edge_grown: "grown s s' \<Longrightarrow> grown s (push_edge cfg a b c d e s')"
  by (simp add: grown_def push_edge_def)

lemma emit_edge_ok:
  assumes ok: "pass_ok csr cfg s" and src: "placed (sm_node_vec s) src sl" and e: "row_edge csr src eid v"
  shows "\<exists>d. emit_edge cfg (cv_num_nodes csr) src sl v eid time s = Some ((emitted cfg (cv_num_nodes csr) src sl v eid time s)\<lparr>sm_dedup := d\<rparr>) \<and>
      pass_ok csr cfg ((emitted cfg (cv_num_nodes csr) src sl v eid time s)\<lparr>sm_dedup := d\<rparr>)"
    and "grown s (emitted cfg (cv_num_nodes csr) src sl v eid time s)"
proof -
  let ?n = "cv_num_nodes csr"
  define u where "u = (if sc_cumulative cfg then fresh_edge eid s else (True, s))"
  obtain fresh s1 where u: "u = (fresh, s1)" by (cases u)
  obtain em where s1: "s1 = s\<lparr>sm_emitted_at := em\<rparr>"
  proof (cases "sc_cumulative cfg")
    case True
    then show ?thesis using fresh_edge_keeps [of eid s fresh s1] u that by (auto simp: u_def)
  next
    case False
    then have "s1 = s\<lparr>sm_emitted_at := sm_emitted_at s\<rparr>" using u by (simp add: u_def)
    then show ?thesis by (rule that)
  qed
  have ok1: "pass_ok csr cfg s1" and nv: "sm_node_vec s1 = sm_node_vec s" using ok by (simp_all add: s1)
  have em: "emitted cfg ?n src sl v eid time s = (if \<not> fresh \<or> ?n \<le> unat v then s1
      else push_edge cfg src sl v (local_after v s1) eid (inserted v time s1))"
    unfolding emitted_def u_def [symmetric] u by simp
  have ex: "emit_edge cfg ?n src sl v eid time s = (if \<not> fresh then Some s1 else do {
        (dst_local, s) \<leftarrow> insert_node_frontier ?n v time s1;
        (case dst_local of None \<Rightarrow> Some s | Some dst_local \<Rightarrow> Some (push_edge cfg src sl v dst_local eid s)) })"
    unfolding emit_edge_def u_def [symmetric] u by simp
  have "(\<exists>d. emit_edge cfg ?n src sl v eid time s = Some ((emitted cfg ?n src sl v eid time s)\<lparr>sm_dedup := d\<rparr>) \<and>
      pass_ok csr cfg ((emitted cfg ?n src sl v eid time s)\<lparr>sm_dedup := d\<rparr>)) \<and> grown s (emitted cfg ?n src sl v eid time s)"
  proof (cases "\<not> fresh \<or> ?n \<le> unat v")
    case True
    then have "emit_edge cfg ?n src sl v eid time s = Some s1" by (auto simp: ex insert_node_frontier_def)
    moreover have "emitted cfg ?n src sl v eid time s = s1" using True em by simp
    moreover have "s1\<lparr>sm_dedup := sm_dedup s1\<rparr> = s1" by simp
    ultimately show ?thesis using ok1 by (metis grown_emitted_at grown_refl s1)
  next
    case False
    then have v: "unat v < ?n" and fr: fresh by simp_all
    obtain d where d: "insert_node_frontier ?n v time s1 = Some (Some (local_after v s1), (inserted v time s1)\<lparr>sm_dedup := d\<rparr>)"
      "pass_ok csr cfg ((inserted v time s1)\<lparr>sm_dedup := d\<rparr>)" using insert_node_ok(1) [OF ok1 v] by blast
    have g: "grown s1 (inserted v time s1)" and dst: "placed (sm_node_vec (inserted v time s1)) v (local_after v s1)"
      using insert_node_ok(2,3) [OF ok1 v] by blast+
    have sp: "placed (sm_node_vec (inserted v time s1)) src sl" using grown_placed [OF g] src nv by simp
    have eq: "emitted cfg ?n src sl v eid time s = push_edge cfg src sl v (local_after v s1) eid (inserted v time s1)"
      using False em by simp
    have "pass_ok csr cfg (push_edge cfg src sl v (local_after v s1) eid ((inserted v time s1)\<lparr>sm_dedup := d\<rparr>))"
      using push_edge_ok [OF d(2) _ _ e] sp dst by simp
    moreover have "push_edge cfg src sl v (local_after v s1) eid ((inserted v time s1)\<lparr>sm_dedup := d\<rparr>) =
       (emitted cfg ?n src sl v eid time s)\<lparr>sm_dedup := d\<rparr>" unfolding eq by (simp add: push_edge_def)
    moreover have "grown s (emitted cfg ?n src sl v eid time s)"
      unfolding eq using push_edge_grown [OF g] by (simp add: s1)
    ultimately show ?thesis using ex fr d(1) by auto
  qed
  then show "\<exists>d. emit_edge cfg ?n src sl v eid time s = Some ((emitted cfg ?n src sl v eid time s)\<lparr>sm_dedup := d\<rparr>) \<and>
      pass_ok csr cfg ((emitted cfg ?n src sl v eid time s)\<lparr>sm_dedup := d\<rparr>)"
    and "grown s (emitted cfg ?n src sl v eid time s)" by blast+
qed

lemma emitted_floyd [simp]: "sm_floyd (emitted cfg n src sl v eid time s) = sm_floyd s"
proof -
  have "sm_floyd (snd (fresh_edge eid s)) = sm_floyd s" by (simp add: fresh_edge_def split: option.split)
  then show ?thesis by (simp add: emitted_def inserted_def push_edge_def Let_def split_beta)
qed

text \<open>Emission on twins, with the stamps untouched.\<close>

lemma emit_edge_twins:
  assumes tw: "twin csr cfg s t" and src: "placed (sm_node_vec s) src sl" and e: "row_edge csr src eid v"
  obtains s' t' where "emit_edge cfg (cv_num_nodes csr) src sl v eid time s = Some s'"
    "emit_edge cfg (cv_num_nodes csr) src sl v eid time t = Some t'" "twin csr cfg s' t'" "grown s s'"
    "sm_floyd s' = sm_floyd s" "sm_floyd t' = sm_floyd t"
proof -
  let ?n = "cv_num_nodes csr"
  have ok: "pass_ok csr cfg s" "pass_ok csr cfg t" and c: "core s = core t" using tw by (auto simp: twin_def)
  have srct: "placed (sm_node_vec t) src sl" using src twin_sel(2) [OF tw] by simp
  obtain d where d: "emit_edge cfg ?n src sl v eid time s = Some ((emitted cfg ?n src sl v eid time s)\<lparr>sm_dedup := d\<rparr>)"
    "pass_ok csr cfg ((emitted cfg ?n src sl v eid time s)\<lparr>sm_dedup := d\<rparr>)" using emit_edge_ok(1) [OF ok(1) src e] by blast
  obtain d' where d': "emit_edge cfg ?n src sl v eid time t = Some ((emitted cfg ?n src sl v eid time t)\<lparr>sm_dedup := d'\<rparr>)"
    "pass_ok csr cfg ((emitted cfg ?n src sl v eid time t)\<lparr>sm_dedup := d'\<rparr>)" using emit_edge_ok(1) [OF ok(2) srct e] by blast
  have "core (emitted cfg ?n src sl v eid time s) = core (emitted cfg ?n src sl v eid time t)" unfolding emitted_core c ..
  then have "twin csr cfg ((emitted cfg ?n src sl v eid time s)\<lparr>sm_dedup := d\<rparr>) ((emitted cfg ?n src sl v eid time t)\<lparr>sm_dedup := d'\<rparr>)"
    using d(2) d'(2) by (simp add: twin_def)
  moreover have "grown s ((emitted cfg ?n src sl v eid time s)\<lparr>sm_dedup := d\<rparr>)"
    using emit_edge_ok(2) [OF ok(1) src e, of time] by (simp add: grown_def)
  ultimately show thesis by (rule that [OF d(1) d'(1)]) simp_all
qed

lemma emit_edge_runs:
  "twin csr cfg s t \<Longrightarrow> placed (sm_node_vec s) src sl \<Longrightarrow> row_edge csr src eid v \<Longrightarrow>
    runs csr cfg (emit_edge cfg (cv_num_nodes csr) src sl v eid time) s t"
  by (erule (2) emit_edge_twins) (rule runsI)

end
