(* ===== verification/Sampler_Rows.thy ===== *)
theory Sampler_Rows
  imports Sampler_Steps
begin

section \<open>Sampling one row on twins\<close>

text \<open>
  The five ways to pick from a row: every position drawn is inside the row, so each returns on twins
  and leaves twins. \<open>row_at csr src start row\<close> says that \<open>row\<close> is the row of \<open>src\<close>, and
  \<open>env_ok\<close> is the documented contract of \<^verbatim>\<open>slice::select_nth_unstable_by\<close>: it only reorders.
\<close>

definition env_ok :: "sampler_env \<Rightarrow> bool" where
  "env_ok env \<longleftrightarrow> (\<forall>k xs. k < length xs \<longrightarrow> mset (env_select_latest env k xs) = mset xs) \<and>
     (\<forall>k xs. k < length xs \<longrightarrow> mset (env_select_least env k xs) = mset xs)"

lemma env_ok_latest: "env_ok env \<Longrightarrow> k < length xs \<Longrightarrow> set (env_select_latest env k xs) = set xs"
  by (metis env_ok_def set_mset_mset)

lemma env_ok_least: "env_ok env \<Longrightarrow> k < length xs \<Longrightarrow> set (env_select_least env k xs) = set xs"
  by (metis env_ok_def set_mset_mset)

definition row_at :: "csr_view \<Rightarrow> node_id \<Rightarrow> u64 \<Rightarrow> node_id list \<Rightarrow> bool" where
  "row_at csr src off row \<longleftrightarrow> (\<forall>i<length row. row_edge csr src (off + of_nat i) (row ! i))"

definition picks_in :: "node_id list \<Rightarrow> (node_id \<times> nat) list \<Rightarrow> bool" where
  "picks_in row picks \<longleftrightarrow> (\<forall>(v, i)\<in>set picks. i < length row \<and> row ! i = v)"

subsection \<open>Draws\<close>

lemma rand_below_less:
  assumes "0 < b"
  shows "fst (rand_below b rng) < b"
proof -
  obtain x r where x: "next_u32 rng = (x, r)" by (cases "next_u32 rng")
  define p where "p = (ucast x * of_nat b :: u64)"
  have "fst (rand_below b rng) = drop_bit 32 (unat p)" by (simp add: rand_below_def x p_def unat_drop_bit_eq)
  then have e: "fst (rand_below b rng) = unat p div 2 ^ 32" by (simp only: drop_bit_eq_div)
  have xl: "unat x < 2 ^ 32" using unsigned_less [of x] by simp
  have ux: "unat (ucast x :: u64) = unat x" using xl by (simp add: unsigned_ucast_eq take_bit_nat_eq_self)
  show ?thesis
  proof (cases "b < 2 ^ 32")
    case True
    have "unat x * b < 2 ^ 32 * b" using xl assms by (intro mult_strict_right_mono) simp_all
    moreover have "2 ^ 32 * b \<le> (2 ^ 64 :: nat)" using True by simp
    ultimately have "unat x * b < 2 ^ 64" by (rule less_le_trans)
    then have "unat p = unat x * b" using True unfolding p_def by (subst unat_mult_lem [THEN iffD1]) (simp_all add: ux)
    then show ?thesis using e \<open>unat x * b < 2 ^ 32 * b\<close> by (simp add: less_mult_imp_div_less mult.commute)
  next
    case False
    have "unat p < 2 ^ 64" using unsigned_less [of p] by simp
    then have "unat p div 2 ^ 32 < 2 ^ 32" by (intro less_mult_imp_div_less) simp
    then show ?thesis using False e by simp
  qed
qed

text \<open>Floyd's algorithm draws distinct positions below the bound.\<close>

lemma floyd_draw_facts:
  assumes "floyd_draw [a..<b] seen rng = (picks, rng')" and "seen \<subseteq> {..<a}"
  shows "length picks = b - a" and "distinct picks" and "set picks \<subseteq> {..<b}" and "set picks \<inter> seen = {}"
proof -
  have "length picks = b - a \<and> distinct picks \<and> set picks \<subseteq> {..<b} \<and> set picks \<inter> seen = {}"
    using assms
  proof (induction "b - a" arbitrary: a seen rng picks)
    case 0
    then show ?case by simp
  next
    case (Suc k)
    then have ab: "a < b" by simp
    obtain j r where j: "rand_below (a + 1) rng = (j, r)" by (cases "rand_below (a + 1) rng")
    have jl: "j \<le> a" using rand_below_less [of "a + 1" rng] j by simp
    define p where "p = (if j \<notin> seen then j else a)"
    obtain ps r' where ps: "floyd_draw [Suc a..<b] (insert p seen) r = (ps, r')" by (cases "floyd_draw [Suc a..<b] (insert p seen) r")
    have picks: "picks = p # ps" using Suc.prems(1) j ps ab by (simp add: upt_conv_Cons p_def)
    have p: "p \<le> a" "p \<notin> seen" using jl Suc.prems(2) by (auto simp: p_def)
    have "insert p seen \<subseteq> {..<Suc a}" using p(1) Suc.prems(2) by auto
    then have "length ps = b - Suc a \<and> distinct ps \<and> set ps \<subseteq> {..<b} \<and> set ps \<inter> insert p seen = {}"
      using Suc.hyps(1) [of "Suc a" "insert p seen" r ps] Suc.hyps(2) Suc.prems(1) j ps ab by (simp add: upt_conv_Cons p_def)
    then show ?case using p ab by (auto simp: picks)
  qed
  then show "length picks = b - a" and "distinct picks" and "set picks \<subseteq> {..<b}" and "set picks \<inter> seen = {}" by simp_all
qed

lemma draw_positions_facts:
  assumes "draw_positions n k rng = (ps, rng')" and "k \<le> n"
  shows "length ps = k" and "sorted ps" and "distinct ps" and "set ps \<subseteq> {..<n}"
proof -
  obtain picks r where f: "floyd_draw [n - k..<n] {} rng = (picks, r)" by (cases "floyd_draw [n - k..<n] {} rng")
  have ps: "ps = sort picks" using assms(1) f by (simp add: draw_positions_def)
  note ff = floyd_draw_facts [OF f]
  show "length ps = k" "sorted ps" "distinct ps" "set ps \<subseteq> {..<n}" using ff assms(2) by (simp_all add: ps)
qed

lemma hub_cap_less: "hub_cap cfg n = Some cap \<Longrightarrow> cap < n"
  by (auto simp: hub_cap_def split: option.splits if_splits)

lemma those_map_total: "(\<And>x. x \<in> set xs \<Longrightarrow> f x = Some (g x)) \<Longrightarrow> those (map f xs) = Some (map g xs)"
  by (induction xs) simp_all

lemma gather_at_Some: "set is \<subseteq> {..<length xs} \<Longrightarrow> gather_at xs is = Some (map ((!) xs) is)"
  unfolding gather_at_def by (rule those_map_total) (auto simp: nth_opt_def)

lemma weighted_draws_in: "row \<noteq> [] \<Longrightarrow> picks_in row (fst (weighted_draws env cs sc row k rng))"
proof (induction k arbitrary: rng)
  case (Suc k)
  have "min i (length row - Suc 0) < length row" for i using Suc.prems by (simp add: min_def) (metis Suc_pred length_greater_0_conv less_Suc_eq_le nat_le_linear)
  then show ?case using Suc by (simp add: picks_in_def Let_def split_beta)
qed (simp add: picks_in_def)

lemma weighted_keys_idx: "snd ` set (fst (weighted_keys env ws i rng)) = {i..<i + length ws} \<and> length (fst (weighted_keys env ws i rng)) = length ws"
proof (induction ws arbitrary: i rng)
  case (Cons w ws)
  show ?case using Cons [of "Suc i"] by (auto simp: Let_def split_beta)
qed simp

lemma weighted_into_in:
  assumes "env_ok env" and "length ws = length row"
  shows "\<exists>picks r. weighted_into env cfg row ws k rng = Some (picks, r) \<and> picks_in row picks"
proof (cases "sc_replace cfg")
  case True
  have "picks_in row (fst (weighted_sample_with_replacement_into env row ws k rng))"
    using weighted_draws_in [of row env] by (simp add: weighted_sample_with_replacement_into_def Let_def picks_in_def)
  then show ?thesis using True by (metis prod.collapse weighted_into_def)
next
  case False
  show ?thesis
  proof (cases "k = 0 \<or> length row \<le> k")
    case True
    then show ?thesis using False
      by (cases "k = 0") (auto simp: weighted_into_def weighted_sample_without_replacement_into_def picks_in_def set_zip Let_def)
  next
    case no: False
    obtain keys r where keys: "weighted_keys env ws 0 rng = (keys, r)" by (cases "weighted_keys env ws 0 rng")
    have kl: "length keys = length row" and ki: "snd ` set keys = {0..<length row}"
      using weighted_keys_idx [of env ws 0 rng] keys assms(2) by simp_all
    define ch where "ch = take k (env_select_least env (k - 1) keys)"
    have "set ch \<subseteq> set keys"
      using env_ok_least [OF assms(1), of "k - 1" keys] no kl set_take_subset [of k "env_select_least env (k - 1) keys"]
      unfolding ch_def by fastforce
    then have ci: "i < length row" if "(x, i) \<in> set ch" for x i using that ki by force
    have "those (map (\<lambda>(_, idx). map_option (\<lambda>v. (v, idx)) (nth_opt row idx)) ch) = Some (map (\<lambda>(_, idx). (row ! idx, idx)) ch)"
      by (rule those_map_total) (use ci in \<open>auto simp: nth_opt_def\<close>)
    moreover have "slice_opt ws 0 (length row) = Some ws" using assms(2) by (simp add: slice_opt_def)
    ultimately have "weighted_into env cfg row ws k rng = Some (map (\<lambda>(_, idx). (row ! idx, idx)) ch, r)"
      using False no keys by (simp add: weighted_into_def weighted_sample_without_replacement_into_def Let_def ch_def)
    moreover have "picks_in row (map (\<lambda>(_, idx). (row ! idx, idx)) ch)" using ci by (auto simp: picks_in_def)
    ultimately show ?thesis by blast
  qed
qed

subsection \<open>Emitting picks\<close>

lemma picks_in_edge: "row_at csr src off row \<Longrightarrow> picks_in row picks \<Longrightarrow> (v, i) \<in> set picks \<Longrightarrow> row_edge csr src (off + of_nat i) v"
  by (force simp: row_at_def picks_in_def)

lemma emit_picks_runs:
  "twin csr cfg s t \<Longrightarrow> placed (sm_node_vec s) src sl \<Longrightarrow> \<forall>(v, i, tm)\<in>set ps. row_edge csr src (off + of_nat i) v \<Longrightarrow>
    runs csr cfg (emit_picks cfg (cv_num_nodes csr) src sl off ps) s t"
proof (induction ps arbitrary: s t)
  case Nil
  then show ?case by (simp add: runs_def)
next
  case (Cons p ps)
  obtain v i tm where p: "p = (v, i, tm)" by (cases p)
  have e: "row_edge csr src (off + of_nat i) v" using Cons.prems(3) by (simp add: p)
  have "runs csr cfg (\<lambda>u. emit_edge cfg (cv_num_nodes csr) src sl v (off + of_nat i) tm u \<bind>
      emit_picks cfg (cv_num_nodes csr) src sl off ps) s t"
    using Cons.prems(3) grown_placed [OF _ Cons.prems(2)]
    by (intro runs_bind [OF emit_edge_runs [OF Cons.prems(1,2) e]] Cons.IH) simp_all
  then show ?case by (simp add: p runs_def)
qed

lemma emit_replace_runs:
  "twin csr cfg s t \<Longrightarrow> placed (sm_node_vec s) src sl \<Longrightarrow> row_at csr src off row \<Longrightarrow> row \<noteq> [] \<Longrightarrow>
    runs csr cfg (emit_sample_replace cfg (cv_num_nodes csr) src sl row off k) s t"
proof (induction k arbitrary: s t)
  case 0
  then show ?case by (simp add: runs_def)
next
  case (Suc k)
  let ?n = "cv_num_nodes csr"
  obtain i r where i: "rand_below (length row) (sm_rng s) = (i, r)" by (cases "rand_below (length row) (sm_rng s)")
  have il: "i < length row" using rand_below_less [of "length row" "sm_rng s"] i Suc.prems(4) by simp
  have e: "row_edge csr src (off + of_nat i) (row ! i)" using Suc.prems(3) il by (simp add: row_at_def)
  have it: "rand_below (length row) (sm_rng t) = (i, r)" using i twin_sel(1) [OF Suc.prems(1)] by simp
  have "runs csr cfg (\<lambda>u. emit_edge cfg ?n src sl (row ! i) (off + of_nat i) f64_infinity u \<bind>
      emit_sample_replace cfg ?n src sl row off k) (s\<lparr>sm_rng := r\<rparr>) (t\<lparr>sm_rng := r\<rparr>)"
    using Suc.prems(2,3,4) grown_placed [OF _ Suc.prems(2)] twin_rng [OF Suc.prems(1)] e
    by (intro runs_bind [OF emit_edge_runs] Suc.IH) simp_all
  then show ?case using i it il by (simp add: runs_def nth_opt_Some)
qed

lemma emit_floyd_set_runs:
  "twin csr cfg s t \<Longrightarrow> placed (sm_node_vec s) src sl \<Longrightarrow> row_at csr src off row \<Longrightarrow> \<forall>i\<in>set is. i < length row \<Longrightarrow>
    runs csr cfg (emit_floyd_set cfg (cv_num_nodes csr) src sl row off is seen) s t"
proof (induction "is" arbitrary: s t seen)
  case Nil
  then show ?case by (simp add: runs_def)
next
  case (Cons i "is")
  let ?n = "cv_num_nodes csr"
  obtain j r where j: "rand_below (i + 1) (sm_rng s) = (j, r)" by (cases "rand_below (i + 1) (sm_rng s)")
  have jl: "j \<le> i" using rand_below_less [of "i + 1" "sm_rng s"] j by simp
  define p where "p = (if j \<notin> seen then j else i)"
  have pl: "p < length row" using jl Cons.prems(4) by (auto simp: p_def)
  have e: "row_edge csr src (off + of_nat p) (row ! p)" using Cons.prems(3) pl by (simp add: row_at_def)
  have jt: "rand_below (i + 1) (sm_rng t) = (j, r)" using j twin_sel(1) [OF Cons.prems(1)] by simp
  have "runs csr cfg (\<lambda>u. emit_edge cfg ?n src sl (row ! p) (off + of_nat p) f64_infinity u \<bind>
      emit_floyd_set cfg ?n src sl row off is (insert p seen)) (s\<lparr>sm_rng := r\<rparr>) (t\<lparr>sm_rng := r\<rparr>)"
    using Cons.prems(2,3,4) grown_placed [OF _ Cons.prems(2)] twin_rng [OF Cons.prems(1)] e
    by (intro runs_bind [OF emit_edge_runs] Cons.IH) simp_all
  moreover have "emit_floyd_set cfg ?n src sl row off (i # is) seen u = emit_edge cfg ?n src sl (row ! p) (off + of_nat p) f64_infinity
      (u\<lparr>sm_rng := r\<rparr>) \<bind> emit_floyd_set cfg ?n src sl row off is (insert p seen)" if "rand_below (i + 1) (sm_rng u) = (j, r)" for u
    using that pl by (simp add: nth_opt_Some p_def [symmetric] Let_def)
  ultimately show ?case using j jt by (simp only: runs_def grown_scratch)
qed

text \<open>The stamps of one twin stand for the same set as those of the other.\<close>

lemma stamp_pick:
  assumes "floyd_wf f" and "i < 256" and "j \<le> i"
  shows "\<exists>f'. (do { (fresh, f) \<leftarrow> test_and_set f j;
       if fresh then Some (j, f) else do { (_, f) \<leftarrow> test_and_set f i; Some (i, f) } }) = Some (if j \<in> taken f then i else j, f') \<and>
     floyd_wf f' \<and> taken f' = insert i (insert j (taken f)) \<inter> (if j \<in> taken f then UNIV else insert j (taken f))"
proof -
  obtain f1 where f1: "test_and_set f j = Some (j \<notin> taken f, f1)" "floyd_wf f1" "taken f1 = insert j (taken f)"
    using test_and_set_ok [OF assms(1), of j] assms(2,3) by auto
  obtain f2 where f2: "test_and_set f1 i = Some (i \<notin> taken f1, f2)" "floyd_wf f2" "taken f2 = insert i (taken f1)"
    using test_and_set_ok [OF f1(2) assms(2)] by blast
  show ?thesis
  proof (cases "j \<in> taken f")
    case True
    then show ?thesis using f1 f2 by simp
  next
    case False
    then show ?thesis using f1 by auto
  qed
qed

lemma emit_floyd_stamps_runs:
  "twin csr cfg s t \<Longrightarrow> placed (sm_node_vec s) src sl \<Longrightarrow> row_at csr src off row \<Longrightarrow> \<forall>i\<in>set is. i < length row \<Longrightarrow>
    length row \<le> 256 \<Longrightarrow> taken (sm_floyd s) = taken (sm_floyd t) \<Longrightarrow>
    runs csr cfg (emit_floyd_stamps cfg (cv_num_nodes csr) src sl row off is) s t"
proof (induction "is" arbitrary: s t)
  case Nil
  then show ?case by (simp add: runs_def)
next
  case (Cons i "is")
  let ?n = "cv_num_nodes csr"
  obtain j r where j: "rand_below (i + 1) (sm_rng s) = (j, r)" by (cases "rand_below (i + 1) (sm_rng s)")
  have jl: "j \<le> i" using rand_below_less [of "i + 1" "sm_rng s"] j by simp
  have i: "i < 256" using Cons.prems(4,5) by auto
  have jt: "rand_below (i + 1) (sm_rng t) = (j, r)" using j twin_sel(1) [OF Cons.prems(1)] by simp
  have wf: "floyd_wf (sm_floyd s)" "floyd_wf (sm_floyd t)" using Cons.prems(1) by (auto simp: twin_def pass_ok_def)
  define pick where "pick f = (do { (fresh, f) \<leftarrow> test_and_set f j;
       if fresh then Some (j, f) else do { (_, f) \<leftarrow> test_and_set f i; Some (i, f) } })" for f
  define p where "p = (if j \<in> taken (sm_floyd s) then i else j)"
  obtain f where f: "pick (sm_floyd s) = Some (p, f)" "floyd_wf f"
     "taken f = insert i (insert j (taken (sm_floyd s))) \<inter> (if j \<in> taken (sm_floyd s) then UNIV else insert j (taken (sm_floyd s)))"
    using stamp_pick [OF wf(1) i jl] unfolding pick_def p_def by blast
  obtain f' where f': "pick (sm_floyd t) = Some (p, f')" "floyd_wf f'"
     "taken f' = insert i (insert j (taken (sm_floyd t))) \<inter> (if j \<in> taken (sm_floyd t) then UNIV else insert j (taken (sm_floyd t)))"
    using stamp_pick [OF wf(2) i jl] Cons.prems(6) unfolding pick_def p_def by auto
  have tf: "taken f = taken f'" using f(3) f'(3) Cons.prems(6) by simp
  have pl: "p < length row" using jl Cons.prems(4) by (auto simp: p_def)
  have e: "row_edge csr src (off + of_nat p) (row ! p)" using Cons.prems(3) pl by (simp add: row_at_def)
  let ?s = "s\<lparr>sm_rng := r, sm_floyd := f\<rparr>" and ?t = "t\<lparr>sm_rng := r, sm_floyd := f'\<rparr>"
  have tw: "twin csr cfg ?s ?t" by (rule twin_scratch [OF Cons.prems(1) f(2) f'(2)])
  have unfold: "emit_floyd_stamps cfg ?n src sl row off (i # is) u = do {
      (pick, f) \<leftarrow> pick (sm_floyd u); v \<leftarrow> nth_opt row pick;
      s \<leftarrow> emit_edge cfg ?n src sl v (off + of_nat pick) f64_infinity (u\<lparr>sm_rng := r, sm_floyd := f\<rparr>);
      emit_floyd_stamps cfg ?n src sl row off is s }" if "rand_below (i + 1) (sm_rng u) = (j, r)" for u
    using that by (cases "test_and_set (sm_floyd u) j") (auto simp: pick_def)
  have es: "emit_floyd_stamps cfg ?n src sl row off (i # is) s =
      emit_edge cfg ?n src sl (row ! p) (off + of_nat p) f64_infinity ?s \<bind> emit_floyd_stamps cfg ?n src sl row off is"
    unfolding unfold [OF j] using f(1) pl by (simp add: nth_opt_Some)
  have et: "emit_floyd_stamps cfg ?n src sl row off (i # is) t =
      emit_edge cfg ?n src sl (row ! p) (off + of_nat p) f64_infinity ?t \<bind> emit_floyd_stamps cfg ?n src sl row off is"
    unfolding unfold [OF jt] using f'(1) pl by (simp add: nth_opt_Some)
  have src: "placed (sm_node_vec ?s) src sl" using Cons.prems(2) by simp
  obtain s1 t1 where one: "emit_edge cfg ?n src sl (row ! p) (off + of_nat p) f64_infinity ?s = Some s1"
    "emit_edge cfg ?n src sl (row ! p) (off + of_nat p) f64_infinity ?t = Some t1" "twin csr cfg s1 t1" "grown ?s s1"
    "sm_floyd s1 = sm_floyd ?s" "sm_floyd t1 = sm_floyd ?t"
    by (rule emit_edge_twins [OF tw src e])
  have g: "grown s s1" using one(4) by simp
  have "runs csr cfg (emit_floyd_stamps cfg ?n src sl row off is) s1 t1"
    using Cons.prems(3-5) grown_placed [OF g Cons.prems(2)] one tf by (intro Cons.IH) simp_all
  then obtain s2 t2 where two: "emit_floyd_stamps cfg ?n src sl row off is s1 = Some s2"
    "emit_floyd_stamps cfg ?n src sl row off is t1 = Some t2" "twin csr cfg s2 t2" "grown s1 s2" by (rule runsE)
  show ?case by (rule runsI [OF _ _ two(3) grown_trans [OF g two(4)]]) (simp_all only: es et one two Option.bind.simps)
qed

lemma emit_floyd_runs:
  assumes tw: "twin csr cfg s t" and src: "placed (sm_node_vec s) src sl" and row: "row_at csr src off row"
  shows "runs csr cfg (emit_sample_floyd cfg (cv_num_nodes csr) src sl row off k) s t"
proof (cases "length row \<le> 256")
  case True
  have wf: "floyd_wf (sm_floyd s)" "floyd_wf (sm_floyd t)" using tw by (auto simp: twin_def pass_ok_def)
  let ?s = "s\<lparr>sm_floyd := floyd_begin (sm_floyd s)\<rparr>" and ?t = "t\<lparr>sm_floyd := floyd_begin (sm_floyd t)\<rparr>"
  have "twin csr cfg ?s ?t"
    using tw pass_ok_floyd floyd_begin_ok [OF wf(1)] floyd_begin_ok [OF wf(2)] by (simp add: twin_def)
  then have "runs csr cfg (emit_floyd_stamps cfg (cv_num_nodes csr) src sl row off [length row - k..<length row]) ?s ?t"
    using src row True floyd_begin_ok [OF wf(1)] floyd_begin_ok [OF wf(2)] by (intro emit_floyd_stamps_runs) simp_all
  then show ?thesis using True by (simp add: runs_def emit_sample_floyd_def Let_def)
next
  case False
  have "runs csr cfg (emit_floyd_set cfg (cv_num_nodes csr) src sl row off [length row - k..<length row] {}) s t"
    using assms by (intro emit_floyd_set_runs) simp_all
  then show ?thesis using False by (simp add: runs_def emit_sample_floyd_def Let_def)
qed

end
