(* ===== verification/Sampler_Hops.thy ===== *)
theory Sampler_Hops
  imports Sampler_Rows
begin

section \<open>The hop loop on twins\<close>

text \<open>
  One row, one frontier, all hops. \<open>csr_ok\<close> is what a typed graph gives: every row range lies inside
  the edges. \<open>per_edge\<close> says that an optional column has an entry per edge.
\<close>

definition csr_ok :: "csr_view \<Rightarrow> bool" where
  "csr_ok csr \<longleftrightarrow> length (cv_edges csr) < 2 ^ 64 \<and>
     (\<forall>v. \<exists>a b. view_neighbor_range csr v = Some (a, b) \<and> a \<le> b \<and> b \<le> length (cv_edges csr))"

definition per_edge :: "csr_view \<Rightarrow> 'a list option \<Rightarrow> bool" where
  "per_edge csr c \<longleftrightarrow> (\<forall>xs. c = Some xs \<longrightarrow> length xs = length (cv_edges csr))"

lemma row_at_slice:
  assumes "csr_ok csr" and "view_neighbor_range csr v = Some (a, b)" and "a \<le> b" and "b \<le> length (cv_edges csr)"
  shows "row_at csr v (of_nat a) (take (b - a) (drop a (cv_edges csr)))"
proof -
  have u: "unat (of_nat a + of_nat i :: u64) = a + i" if "i < b - a" for i
  proof -
    have "a + i < 2 ^ 64" using that assms unfolding csr_ok_def by linarith
    then show ?thesis by (simp add: unsigned_of_nat take_bit_nat_eq_self flip: of_nat_add)
  qed
  have "row_edge csr v (of_nat a + of_nat i) (cv_edges csr ! (a + i))" if "i < b - a" for i
    unfolding row_edge_def u [OF that] using that assms by (auto simp: nth_opt_Some)
  then show ?thesis using assms(3,4) by (simp add: row_at_def)
qed

lemma floyd_draw_gather:
  assumes "floyd_draw [a..<b] {} rng = (picks, r)" and "b \<le> length xs"
  shows "gather_at xs picks = Some (map ((!) xs) picks)"
  using floyd_draw_facts(3) [OF assms(1)] assms(2) by (intro gather_at_Some) auto

subsection \<open>One row\<close>

lemma weighted_pick_runs:
  assumes tw: "twin csr cfg s t" and src: "placed (sm_node_vec s) src sl" and row: "row_at csr src off row"
    and picks: "picks_in row picks"
  shows "runs csr cfg (emit_picks cfg (cv_num_nodes csr) src sl off (with_times tm picks)) (s\<lparr>sm_rng := r\<rparr>) (t\<lparr>sm_rng := r\<rparr>)"
  using picks_in_edge [OF row picks] src twin_rng [OF tw] by (intro emit_picks_runs) (auto simp: with_times_def)

lemma capped_picks:
  assumes env: "env_ok env" and w: "length w = length row"
  shows "\<exists>picks r. (case hub_cap cfg (length row) of
              Some cap \<Rightarrow> do {
                let (cap_idx, rng) = draw_positions (length row) cap rng;
                nbrs \<leftarrow> gather_at row cap_idx;
                ws \<leftarrow> gather_at w cap_idx;
                (picks, rng) \<leftarrow> weighted_into env cfg nbrs ws k rng;
                picks \<leftarrow> those (map (\<lambda>(v, i). map_option (Pair v) (nth_opt cap_idx i)) picks);
                Some (picks, rng) }
            | None \<Rightarrow> weighted_into env cfg row w k rng) = Some (picks, r) \<and> picks_in row picks"
proof (cases "hub_cap cfg (length row)")
  case None
  then show ?thesis using weighted_into_in [OF env w] by simp
next
  case (Some cap)
  obtain ci r where ci: "draw_positions (length row) cap rng = (ci, r)" by (cases "draw_positions (length row) cap rng")
  have sub: "set ci \<subseteq> {..<length row}" using draw_positions_facts(4) [OF ci] hub_cap_less [OF Some] by simp
  have g: "gather_at row ci = Some (map ((!) row) ci)" "gather_at w ci = Some (map ((!) w) ci)"
    using sub w by (simp_all add: gather_at_Some)
  obtain picks r' where p: "weighted_into env cfg (map ((!) row) ci) (map ((!) w) ci) k r = Some (picks, r')"
    "picks_in (map ((!) row) ci) picks" using weighted_into_in [OF env, of "map ((!) w) ci" "map ((!) row) ci" cfg k r] by auto
  have "those (map (\<lambda>(v, i). map_option (Pair v) (nth_opt ci i)) picks) = Some (map (\<lambda>(v, i). (v, ci ! i)) picks)"
    by (rule those_map_total) (use p(2) in \<open>auto simp: picks_in_def nth_opt_def\<close>)
  moreover have "picks_in row (map (\<lambda>(v, i). (v, ci ! i)) picks)"
    using p(2) sub by (force simp: picks_in_def)
  ultimately show ?thesis using Some ci g p(1) by simp
qed

lemma sample_normal_runs:
  assumes env: "env_ok env" and tw: "twin csr cfg s t" and src: "placed (sm_node_vec s) src sl" and row: "row_at csr src off row"
    and ne: "row \<noteq> []" and w: "\<forall>w. ws = Some w \<longrightarrow> length w = length row"
  shows "runs csr cfg (sample_normal env cfg (cv_num_nodes csr) src sl row ws off k) s t"
proof (cases ws)
  case None
  have "\<forall>(v, i, tm)\<in>set (map (\<lambda>idx. (row ! idx, idx, f64_infinity)) [0..<length row]). row_edge csr src (off + of_nat i) v"
    using row by (auto simp: row_at_def)
  note all = emit_picks_runs [OF tw src this]
  show ?thesis using None emit_replace_runs [OF tw src row ne] emit_floyd_runs [OF tw src row] all
    by (simp add: runs_def sample_normal_def emit_take_all_def)
next
  case (Some wl)
  have wl: "length wl = length row" using w Some by simp
  let ?P = "\<lambda>rng. (case hub_cap cfg (length row) of
              Some cap \<Rightarrow> do {
                let (cap_idx, rng) = draw_positions (length row) cap rng;
                nbrs \<leftarrow> gather_at row cap_idx;
                ws \<leftarrow> gather_at wl cap_idx;
                (picks, rng) \<leftarrow> weighted_into env cfg nbrs ws k rng;
                picks \<leftarrow> those (map (\<lambda>(v, i). map_option (Pair v) (nth_opt cap_idx i)) picks);
                Some (picks, rng) }
            | None \<Rightarrow> weighted_into env cfg row wl k rng)"
  obtain picks r where p: "?P (sm_rng s) = Some (picks, r)" "picks_in row picks" using capped_picks [OF env wl] by blast
  have eq: "sample_normal env cfg (cv_num_nodes csr) src sl row ws off k u = do {
     (picks, rng) \<leftarrow> ?P (sm_rng u);
     emit_picks cfg (cv_num_nodes csr) src sl off (with_times f64_infinity picks) (u\<lparr>sm_rng := rng\<rparr>) }" for u
    by (simp only: sample_normal_def Some option.case)
  have pt: "?P (sm_rng t) = Some (picks, r)" by (rule p(1) [unfolded twin_sel(1) [OF tw]])
  show ?thesis using weighted_pick_runs [OF tw src row p(2), of f64_infinity r]
    by (simp only: runs_def eq p(1) pt Option.bind.simps prod.case grown_scratch)
qed

text \<open>The temporal choice: the positions chosen in the row, whatever the strategy.\<close>

definition choose_in_time :: "sampler_env \<Rightarrow> temporal_strategy \<Rightarrow> nat \<Rightarrow> (nat \<times> f64_bits) list \<Rightarrow> u64 \<Rightarrow> (nat list \<times> u64) option" where
  "choose_in_time env strategy k valid rng = (case strategy of
                 UniformTime \<Rightarrow>
                   if length valid \<le> k then Some (map fst valid, rng)
                   else do {
                     let (picks, rng) = floyd_draw [length valid - k..<length valid] {} rng;
                     entries \<leftarrow> gather_at valid picks;
                     Some (map fst entries, rng) }
               | LastTime \<Rightarrow>
                   let take' = min (length valid) k in
                   if take' = 0 then Some ([], rng)
                   else Some (map fst (take take' (if take' < length valid then env_select_latest env (take' - 1) valid else valid)), rng))"

lemma choose_in_time_ok:
  assumes env: "env_ok env" and ne: "valid \<noteq> []"
  shows "\<exists>ch r. choose_in_time env strategy k valid rng = Some (ch, r) \<and> set ch \<subseteq> fst ` set valid"
proof (cases strategy)
  case LastTime
  define m where "m = min (length valid) k"
  define src where "src = (if m < length valid then env_select_latest env (m - 1) valid else valid)"
  have "m - 1 < length valid" using ne by (cases "length valid") (auto simp: m_def)
  then have "set src = set valid" using env_ok_latest [OF env, of "m - 1" valid] by (simp add: src_def)
  then have "set (map fst (take m src)) \<subseteq> fst ` set valid" using set_take_subset [of m src] by auto
  then show ?thesis using LastTime by (simp add: choose_in_time_def Let_def m_def [symmetric] src_def [symmetric])
next
  case UniformTime
  show ?thesis
  proof (cases "length valid \<le> k")
    case False
    obtain picks r where f: "floyd_draw [length valid - k..<length valid] {} rng = (picks, r)"
      by (cases "floyd_draw [length valid - k..<length valid] {} rng")
    have "set picks \<subseteq> {..<length valid}" by (rule floyd_draw_facts(3) [OF f]) simp
    then have "set (map fst (map ((!) valid) picks)) \<subseteq> fst ` set valid" by auto
    then show ?thesis using False UniformTime f floyd_draw_gather [OF f, of valid] by (simp add: choose_in_time_def)
  qed (use UniformTime in \<open>simp add: choose_in_time_def\<close>)
qed

lemma filter_times_ok:
  assumes "set is \<subseteq> {..<length ts}"
  shows "\<exists>valid. filter_times ts bound is = Some valid \<and> fst ` set valid \<subseteq> set is"
proof -
  have "fst ` set (zip is xs) \<subseteq> set is" for xs :: "f64_bits list" by (auto dest: set_zip_leftD)
  then show ?thesis using gather_at_Some [OF assms] by (fastforce simp: filter_times_def)
qed

lemma sample_temporal_runs:
  assumes env: "env_ok env" and tw: "twin csr cfg s t" and src: "placed (sm_node_vec s) src sl" and row: "row_at csr src off row"
    and ts: "length ts = length row" and track: "sm_track_times s"
  shows "runs csr cfg (sample_temporal env cfg (cv_num_nodes csr) src sl row ts off k) s t"
proof (cases "sc_temporal_strategy cfg")
  case None
  then show ?thesis using tw by (simp add: runs_def sample_temporal_def)
next
  case (Some strategy)
  let ?n = "cv_num_nodes csr"
  have ok: "pass_ok csr cfg s" using tw by (simp add: twin_def)
  have tl: "unat sl < length (sm_node_times s)" using pass_okD(7) [OF ok] track src by (simp add: placed_def)
  define bound where "bound = sm_node_times s ! unat sl"
  have bs: "nth_opt (sm_node_times s) (unat sl) = Some bound" using tl by (simp add: bound_def nth_opt_Some)
  have bt: "nth_opt (sm_node_times t) (unat sl) = Some bound" using bs by (simp only: twin_sel(3) [OF tw])
  define start where "start rng = (case (strategy, hub_cap cfg (length row)) of
              (UniformTime, Some cap) \<Rightarrow> draw_positions (length row) cap rng
            | _ \<Rightarrow> ([0..<length ts], rng))" for rng
  obtain idxs r where st: "start (sm_rng s) = (idxs, r)" by (cases "start (sm_rng s)")
  have stt: "start (sm_rng t) = (idxs, r)" using st by (simp only: twin_sel(1) [OF tw])
  have idxs: "set idxs \<subseteq> {..<length row}"
    using st ts draw_positions_facts(4) [of "length row" _ "sm_rng s" idxs r] hub_cap_less [of cfg "length row"]
    by (auto simp: start_def split: temporal_strategy.splits option.splits)
  obtain valid where v: "filter_times ts bound idxs = Some valid" "fst ` set valid \<subseteq> set idxs"
    using filter_times_ok [of idxs ts bound] idxs ts by auto
  have eq: "sample_temporal env cfg ?n src sl row ts off k u = (if valid = [] then Some (u\<lparr>sm_rng := r\<rparr>) else do {
             (chosen, rng) \<leftarrow> choose_in_time env strategy k valid r;
             nbrs \<leftarrow> gather_at row chosen;
             tms \<leftarrow> gather_at ts chosen;
             emit_picks cfg ?n src sl off (zip nbrs (zip chosen tms)) (u\<lparr>sm_rng := rng\<rparr>) })"
    if "nth_opt (sm_node_times u) (unat sl) = Some bound" "start (sm_rng u) = (idxs, r)" for u
    unfolding sample_temporal_def Some option.case that(1) Option.bind.simps Let_def start_def [symmetric]
    unfolding that(2) prod.case v(1) Option.bind.simps choose_in_time_def Let_def ..
  show ?thesis
  proof (cases "valid = []")
    case True
    have "grown s (s\<lparr>sm_rng := r\<rparr>)" by (simp add: grown_def)
    then show ?thesis using True twin_rng [OF tw, of r] by (simp add: runs_def eq [OF bs st] eq [OF bt stt])
  next
    case False
    obtain ch r' where ch: "choose_in_time env strategy k valid r = Some (ch, r')" "set ch \<subseteq> fst ` set valid"
      using choose_in_time_ok [OF env False] by blast
    have sub: "set ch \<subseteq> {..<length row}" using ch(2) v(2) idxs by blast
    define picks where "picks = zip (map ((!) row) ch) (zip ch (map ((!) ts) ch))"
    have "\<forall>(v, i, tm)\<in>set picks. row_edge csr src (off + of_nat i) v"
      using row sub by (auto simp: picks_def set_zip row_at_def subset_iff)
    then have "runs csr cfg (emit_picks cfg ?n src sl off picks) (s\<lparr>sm_rng := r'\<rparr>) (t\<lparr>sm_rng := r'\<rparr>)"
      using src twin_rng [OF tw] by (intro emit_picks_runs) simp_all
    then show ?thesis
      using False ch(1) gather_at_Some [OF sub] gather_at_Some [of ch ts] sub ts
      by (simp add: runs_def eq [OF bs st] eq [OF bt stt] picks_def [symmetric])
  qed
qed

subsection \<open>A frontier and the hops\<close>

lemma expand_row_runs:
  assumes csr: "csr_ok csr" and env: "env_ok env" and tw: "twin csr cfg s t" and src: "placed (sm_node_vec s) v l"
    and ws: "per_edge csr weights" and ts: "per_edge csr tss" and track: "temporal \<longrightarrow> sm_track_times s"
  shows "runs csr cfg (expand_row env cfg csr weights tss temporal k (v, l)) s t"
proof -
  obtain a b where ab: "view_neighbor_range csr v = Some (a, b)" "a \<le> b" "b \<le> length (cv_edges csr)"
    using csr unfolding csr_ok_def by blast
  show ?thesis
  proof (cases "b \<le> a")
    case True
    then show ?thesis using ab(1) tw by (simp add: runs_def expand_row_def)
  next
    case False
    define row where "row = take (b - a) (drop a (cv_edges csr))"
    have row: "row_at csr v (of_nat a) row" "row \<noteq> []" "length row = b - a"
      using row_at_slice [OF csr ab] False ab by (simp_all add: row_def)
    have sl: "slice_opt (cv_edges csr) a b = Some row" using ab by (simp add: row_def slice_opt_def)
    show ?thesis
    proof (cases temporal)
      case True
      show ?thesis
      proof (cases tss)
        case None
        then show ?thesis using ab(1) False True sl tw by (simp add: runs_def expand_row_def)
      next
        case (Some tl)
        have "slice_opt tl a b = Some (take (b - a) (drop a tl))" and len: "length (take (b - a) (drop a tl)) = length row"
          using ts Some ab row(3) by (simp_all add: per_edge_def slice_opt_def)
        then show ?thesis using sample_temporal_runs [OF env tw src row(1) len] track ab(1) False True sl Some
          by (simp add: runs_def expand_row_def)
      qed
    next
      case no: False
      define wl where "wl = map_option (\<lambda>w. take (b - a) (drop a w)) weights"
      have "(case weights of None \<Rightarrow> Some None | Some w \<Rightarrow> map_option Some (slice_opt w a b)) = Some wl"
        and "\<forall>w. wl = Some w \<longrightarrow> length w = length row"
        using ws ab row(3) by (auto simp: wl_def per_edge_def slice_opt_def split: option.split)
      then show ?thesis using sample_normal_runs [OF env tw src row(1,2), of wl k] ab(1) False no sl
        by (simp add: runs_def expand_row_def)
    qed
  qed
qed

lemma expand_rows_runs:
  assumes csr: "csr_ok csr" and env: "env_ok env" and ws: "per_edge csr weights" and ts: "per_edge csr tss"
  shows "twin csr cfg s t \<Longrightarrow> \<forall>(v, l)\<in>set nls. placed (sm_node_vec s) v l \<Longrightarrow> temporal \<longrightarrow> sm_track_times s \<Longrightarrow>
    runs csr cfg (expand_rows env cfg csr weights tss temporal k nls) s t"
proof (induction nls arbitrary: s t)
  case Nil
  then show ?case by (simp add: runs_def)
next
  case (Cons nl nls)
  obtain v l where nl: "nl = (v, l)" by (cases nl)
  have src: "placed (sm_node_vec s) v l" using Cons.prems(2) by (simp add: nl)
  have "runs csr cfg (\<lambda>u. expand_row env cfg csr weights tss temporal k nl u \<bind> expand_rows env cfg csr weights tss temporal k nls) s t"
  proof (rule runs_bind)
    show "runs csr cfg (expand_row env cfg csr weights tss temporal k nl) s t"
      unfolding nl by (rule expand_row_runs [OF csr env Cons.prems(1) src ws ts Cons.prems(3)])
  next
    fix s' t' assume tw: "twin csr cfg s' t'" and g: "grown s s'"
    show "runs csr cfg (expand_rows env cfg csr weights tss temporal k nls) s' t'"
      using Cons.prems(2,3) grown_placed [OF g] g by (intro Cons.IH [OF tw]) (auto simp: grown_def)
  qed
  then show ?case by (simp add: runs_def)
qed

text \<open>Before the first hop the hop counter may be left over from an earlier pass.\<close>

definition mates :: "csr_view \<Rightarrow> sampling_config \<Rightarrow> sampler \<Rightarrow> sampler \<Rightarrow> bool" where
  "mates csr cfg s t \<longleftrightarrow> twin csr cfg (s\<lparr>sm_hop := 0\<rparr>) (t\<lparr>sm_hop := 0\<rparr>)"

lemma mates_hop: "mates csr cfg s t \<Longrightarrow> twin csr cfg (s\<lparr>sm_hop := h\<rparr>) (t\<lparr>sm_hop := h\<rparr>)"
proof -
  assume "mates csr cfg s t"
  then have ok: "pass_ok csr cfg s" "pass_ok csr cfg t" and c: "(core s)\<lparr>sm_hop := 0\<rparr> = (core t)\<lparr>sm_hop := 0\<rparr>"
    by (simp_all add: mates_def twin_def)
  show ?thesis using ok arg_cong [OF c, of "sm_hop_update (\<lambda>_. h)"] by (simp add: twin_def)
qed

lemma twin_mates: "twin csr cfg s t \<Longrightarrow> mates csr cfg s t"
  by (simp add: mates_def twin_def)

lemma twin_next: "twin csr cfg s t \<Longrightarrow> twin csr cfg (s\<lparr>sm_next_frontier := []\<rparr>) (t\<lparr>sm_next_frontier := []\<rparr>)"
  by (simp add: twin_def pass_ok_def edges_ok_def)

text \<open>What the hops add: nodes and edges, as many as the records say.\<close>

definition hopped :: "sampler \<Rightarrow> (nat \<times> nat) list \<Rightarrow> sampler \<Rightarrow> bool" where
  "hopped s recs s' \<longleftrightarrow> (\<exists>xs. sm_node_vec s' = sm_node_vec s @ xs \<and> length xs = sum_list (map fst recs)) \<and>
     length (sm_edge_src s') = length (sm_edge_src s) + sum_list (map snd recs) \<and>
     sm_track_times s' = sm_track_times s \<and> sm_seed_locals s' = sm_seed_locals s"

lemma hop_loop_twins:
  assumes csr: "csr_ok csr" and env: "env_ok env" and ws: "per_edge csr weights" and ts: "per_edge csr tss"
  shows "mates csr cfg s t \<Longrightarrow> temporal \<longrightarrow> sm_track_times s \<Longrightarrow>
    \<exists>recs s' t'. hop_loop env cfg csr weights tss temporal hop sizes s = Some (recs, s') \<and>
      hop_loop env cfg csr weights tss temporal hop sizes t = Some (recs, t') \<and> mates csr cfg s' t' \<and> hopped s recs s' \<and>
      length recs = length sizes"
proof (induction sizes arbitrary: s t hop)
  case Nil
  then show ?case by (simp add: hopped_def)
next
  case (Cons k sizes)
  let ?s = "s\<lparr>sm_hop := hop, sm_next_frontier := []\<rparr>" and ?t = "t\<lparr>sm_hop := hop, sm_next_frontier := []\<rparr>"
  have tw: "twin csr cfg ?s ?t" using twin_next [OF mates_hop [OF Cons.prems(1), of hop]] by simp
  have ok: "pass_ok csr cfg ?s" using tw by (simp add: twin_def)
  have fr: "\<forall>(v, l)\<in>set (sm_frontier s). placed (sm_node_vec ?s) v l" using pass_okD(8) [OF ok] by simp
  have fe: "sm_frontier t = sm_frontier s" "length (sm_edge_src t) = length (sm_edge_src s)"
    using twin_sel(12) [OF tw] twin_sel(6) [OF tw] by simp_all
  obtain s1 t1 where one: "expand_rows env cfg csr weights tss temporal k (sm_frontier s) ?s = Some s1"
    "expand_rows env cfg csr weights tss temporal k (sm_frontier s) ?t = Some t1" "twin csr cfg s1 t1" "grown ?s s1"
    using expand_rows_runs [OF csr env ws ts tw fr, of temporal k] Cons.prems(2) by (auto elim: runsE)
  define nx where "nx u = (if sc_cumulative cfg then u\<lparr>sm_frontier := sm_frontier u @ sm_next_frontier u\<rparr>
              else u\<lparr>sm_frontier := sm_next_frontier u, sm_next_frontier := sm_frontier u\<rparr>)" for u :: sampler
  have same: "sm_next_frontier t1 = sm_next_frontier s1" "sm_edge_src t1 = sm_edge_src s1" "sm_frontier t1 = sm_frontier s1"
    using twin_sel(13,6,12) [OF one(3)] by simp_all
  have ok1: "pass_ok csr cfg s1" "pass_ok csr cfg t1" and c1: "core s1 = core t1" using one(3) by (simp_all add: twin_def)
  have okn: "pass_ok csr cfg (nx u)" if "pass_ok csr cfg u" for u
    using that pass_okD(8,9) [OF that] unfolding nx_def pass_ok_def edges_ok_def by auto
  have "mates csr cfg (nx s1) (nx t1)"
  proof (rule twin_mates)
    have "core (nx s1) = core (nx t1)" using c1 same by (simp add: nx_def)
    then show "twin csr cfg (nx s1) (nx t1)" using okn [OF ok1(1)] okn [OF ok1(2)] by (simp add: twin_def)
  qed
  moreover have "temporal \<longrightarrow> sm_track_times (nx s1)" using Cons.prems(2) one(4) by (simp add: nx_def grown_def)
  ultimately obtain recs s2 t2 where two: "hop_loop env cfg csr weights tss temporal (Suc hop) sizes (nx s1) = Some (recs, s2)"
    "hop_loop env cfg csr weights tss temporal (Suc hop) sizes (nx t1) = Some (recs, t2)" "mates csr cfg s2 t2"
    "hopped (nx s1) recs s2" "length recs = length sizes" using Cons.IH by blast
  define r where "r = (length (sm_next_frontier s1), length (sm_edge_src s1) - length (sm_edge_src s))"
  have rt: "(length (sm_next_frontier t1), length (sm_edge_src t1) - length (sm_edge_src t)) = r"
    unfolding r_def same fe(2) ..
  have run: "hop_loop env cfg csr weights tss temporal hop (k # sizes) u = (do {
      u1 \<leftarrow> expand_rows env cfg csr weights tss temporal k (sm_frontier u) (u\<lparr>sm_hop := hop, sm_next_frontier := []\<rparr>);
      (recs, u2) \<leftarrow> hop_loop env cfg csr weights tss temporal (Suc hop) sizes (nx u1);
      Some ((length (sm_next_frontier u1), length (sm_edge_src u1) - length (sm_edge_src u)) # recs, u2) })" for u
    by (simp add: Let_def nx_def)
  have "hopped s (r # recs) s2" using one(4) two(4) by (auto simp: hopped_def grown_def r_def nx_def)
  moreover have "hop_loop env cfg csr weights tss temporal hop (k # sizes) s = Some (r # recs, s2)"
    unfolding run one(1) Option.bind.simps two(1) prod.case r_def ..
  moreover have "hop_loop env cfg csr weights tss temporal hop (k # sizes) t = Some (r # recs, t2)"
    unfolding run fe(1) one(2) Option.bind.simps two(2) prod.case rt ..
  ultimately show ?case using two(3,5) by (intro exI [of _ "r # recs"] exI [of _ s2] exI [of _ t2]) simp
qed

end
