(* ===== verification/Sampler_Rewrite.thy ===== *)
theory Sampler_Rewrite
  imports Sampler_Hops
begin

section \<open>Induced and bidirectional subgraphs\<close>

text \<open>
  The edge buffers as one list of triples (source index, destination index, edge id):
  \<open>has_edges\<close>. The two rewritings in these terms: \<open>induced_edges\<close> is the list of the graph's edges
  inside the node list, \<open>mirrored\<close> the reverses that were missing.
\<close>

type_synonym ltriple = "u32 \<times> u32 \<times> u64"

definition has_edges :: "sampling_config \<Rightarrow> ltriple list \<Rightarrow> sampler \<Rightarrow> bool" where
  "has_edges cfg E s \<longleftrightarrow> sm_src_local s = map fst E \<and> sm_dst_local s = map (fst \<circ> snd) E \<and>
     sm_edge_src s = map (\<lambda>x. sm_node_vec s ! unat (fst x)) E \<and> sm_edge_dst s = map (\<lambda>x. sm_node_vec s ! unat (fst (snd x))) E \<and>
     sm_edge_ids s = (if sc_track_edge_ids cfg then map (snd \<circ> snd) E else [])"

definition edges_in :: "(node_id \<Rightarrow> u64 \<Rightarrow> node_id \<Rightarrow> bool) \<Rightarrow> node_id list \<Rightarrow> ltriple list \<Rightarrow> bool" where
  "edges_in edge nodes E \<longleftrightarrow> (\<forall>x\<in>set E. unat (fst x) < length nodes \<and> unat (fst (snd x)) < length nodes \<and>
     edge (nodes ! unat (fst x)) (snd (snd x)) (nodes ! unat (fst (snd x))))"

lemma edges_ok_triples: "edges_ok edge cfg s \<longleftrightarrow> (\<exists>E. has_edges cfg E s \<and> edges_in edge (sm_node_vec s) E)"
  by (simp add: edges_ok_def has_edges_def edges_in_def)

definition with_edges :: "sampling_config \<Rightarrow> ltriple list \<Rightarrow> sampler \<Rightarrow> sampler" where
  "with_edges cfg E s = s\<lparr>sm_src_local := sm_src_local s @ map fst E, sm_dst_local := sm_dst_local s @ map (fst \<circ> snd) E,
     sm_edge_src := sm_edge_src s @ map (\<lambda>x. sm_node_vec s ! unat (fst x)) E,
     sm_edge_dst := sm_edge_dst s @ map (\<lambda>x. sm_node_vec s ! unat (fst (snd x))) E,
     sm_edge_ids := sm_edge_ids s @ (if sc_track_edge_ids cfg then map (snd \<circ> snd) E else [])\<rparr>"

lemma with_edges_sel [simp]:
  "sm_dedup (with_edges cfg E s) = sm_dedup s" "sm_node_vec (with_edges cfg E s) = sm_node_vec s"
  "sm_node_times (with_edges cfg E s) = sm_node_times s" "sm_track_times (with_edges cfg E s) = sm_track_times s"
  "sm_rng (with_edges cfg E s) = sm_rng s" "sm_floyd (with_edges cfg E s) = sm_floyd s"
  "sm_seed_locals (with_edges cfg E s) = sm_seed_locals s" "sm_frontier (with_edges cfg E s) = sm_frontier s"
  by (simp_all add: with_edges_def)

lemma with_edges_nil [simp]: "with_edges cfg [] s = s"
  by (simp add: with_edges_def)

lemma with_edges_append: "with_edges cfg F (with_edges cfg E s) = with_edges cfg (E @ F) s"
  by (simp add: with_edges_def)

lemma has_edges_append: "has_edges cfg E s \<Longrightarrow> has_edges cfg (E @ F) (with_edges cfg F s)"
  by (simp add: has_edges_def with_edges_def)

lemma push_edge_with: "sm_node_vec s ! unat sl = u \<Longrightarrow> sm_node_vec s ! unat dl = w \<Longrightarrow>
    push_edge cfg u sl w dl e s = with_edges cfg [(sl, dl, e)] s"
  by (simp add: push_edge_def with_edges_def)

subsection \<open>Induced\<close>

definition in_time :: "f64_bits list option \<Rightarrow> f64_bits \<Rightarrow> nat \<Rightarrow> bool" where
  "in_time tss bound pos \<longleftrightarrow> (case tss of None \<Rightarrow> True | Some ts \<Rightarrow> \<not> f64_ge (ts ! pos) bound)"

fun row_hits :: "f64_bits list option \<Rightarrow> f64_bits \<Rightarrow> node_id list \<Rightarrow> u32 \<Rightarrow> nat \<Rightarrow> node_id list \<Rightarrow> ltriple list" where
  "row_hits tss bound nodes ul pos [] = []"
| "row_hits tss bound nodes ul pos (w # ws) =
     (if in_time tss bound pos then (case local_of nodes w of None \<Rightarrow> [] | Some l \<Rightarrow> [(ul, l, of_nat pos)]) else []) @
     row_hits tss bound nodes ul (Suc pos) ws"

definition tables_agree :: "sampler \<Rightarrow> bool" where
  "tables_agree s \<longleftrightarrow> (\<forall>w l. dedup_get (sm_dedup s) w = Some l \<longrightarrow> placed (sm_node_vec s) w l) \<and>
     (\<forall>w. dedup_get (sm_dedup s) w = local_of (sm_node_vec s) w)"

lemma pass_tables: "pass_ok csr cfg s \<Longrightarrow> tables_agree s"
proof -
  assume ok: "pass_ok csr cfg s"
  note P = pass_okD [OF ok]
  have len: "length (sm_node_vec s) \<le> 2 ^ 32" using distinct_below [OF P(4,5)] P(1) by (simp add: MAX_NODES_def)
  have "dedup_get (sm_dedup s) w = local_of (sm_node_vec s) w" for w
    using P(6) local_of_placed [OF P(4) len] by (metis option.exhaust)
  then show ?thesis using P(6) by (simp add: tables_agree_def)
qed

lemma tables_with_edges [simp]: "tables_agree (with_edges cfg E s) = tables_agree s"
  by (simp add: tables_agree_def)

lemma induce_row_eq:
  assumes "\<forall>ts. tss = Some ts \<longrightarrow> pos + length ws \<le> length ts"
  shows "tables_agree s \<Longrightarrow> sm_node_vec s ! unat ul = u \<Longrightarrow>
    induce_row cfg tss bound u ul pos ws s = Some (with_edges cfg (row_hits tss bound (sm_node_vec s) ul pos ws) s)"
  using assms
proof (induction ws arbitrary: pos s)
  case Nil
  then show ?case by simp
next
  case (Cons w ws)
  have ts: "\<forall>ts. tss = Some ts \<longrightarrow> Suc pos + length ws \<le> length ts" using Cons.prems(3) by simp
  have late: "(case tss of None \<Rightarrow> Some False | Some ts \<Rightarrow> map_option (\<lambda>t. f64_ge t bound) (nth_opt ts pos)) = Some (\<not> in_time tss bound pos)"
    using Cons.prems(3) by (auto simp: in_time_def nth_opt_def split: option.split)
  have get: "dedup_get (sm_dedup s) w = local_of (sm_node_vec s) w" using Cons.prems(1) by (simp add: tables_agree_def)
  show ?case
  proof (cases "local_of (sm_node_vec s) w")
    case None
    then show ?thesis using Cons.IH [OF Cons.prems(1,2) ts] late get by simp
  next
    case (Some l)
    then have "placed (sm_node_vec s) w l" using Cons.prems(1) get by (simp add: tables_agree_def)
    then have push: "push_edge cfg u ul w l (of_nat pos) s = with_edges cfg [(ul, l, of_nat pos)] s"
      using Cons.prems(2) by (intro push_edge_with) (simp_all add: placed_def)
    have "induce_row cfg tss bound u ul (Suc pos) ws (with_edges cfg [(ul, l, of_nat pos)] s) =
        Some (with_edges cfg ((ul, l, of_nat pos) # row_hits tss bound (sm_node_vec s) ul (Suc pos) ws) s)"
      using Cons.IH [of "with_edges cfg [(ul, l, of_nat pos)] s" "Suc pos"] Cons.prems(1,2) ts by (simp add: with_edges_append)
    then show ?thesis using Cons.IH [OF Cons.prems(1,2) ts] late get Some push by simp
  qed
qed

definition node_hits :: "csr_view \<Rightarrow> f64_bits list option \<Rightarrow> f64_bits list option \<Rightarrow> node_id list \<Rightarrow> nat \<Rightarrow> ltriple list" where
  "node_hits csr tss bounds nodes ul = (case view_neighbor_range csr (nodes ! ul) of None \<Rightarrow> []
     | Some (a, b) \<Rightarrow> row_hits tss (case bounds of None \<Rightarrow> f64_infinity | Some bs \<Rightarrow> bs ! ul) nodes (of_nat ul) a
         (take (b - a) (drop a (cv_edges csr))))"

definition induced_edges :: "csr_view \<Rightarrow> f64_bits list option \<Rightarrow> f64_bits list option \<Rightarrow> node_id list \<Rightarrow> ltriple list" where
  "induced_edges csr tss bounds nodes = concat (map (node_hits csr tss bounds nodes) [0..<length nodes])"

definition time_bounds :: "sampler \<Rightarrow> f64_bits list option" where
  "time_bounds s = (if sm_track_times s then Some (sm_node_times s) else None)"

lemma induce_loop_eq:
  assumes csr: "csr_ok csr" and ts: "per_edge csr tss"
  shows "tables_agree s \<Longrightarrow> (sm_track_times s \<longrightarrow> length (sm_node_times s) = length (sm_node_vec s)) \<Longrightarrow> length (sm_node_vec s) \<le> 2 ^ 32 \<Longrightarrow>
    \<forall>u\<in>set us. u < length (sm_node_vec s) \<Longrightarrow>
    induce_loop cfg csr tss us s = Some (with_edges cfg (concat (map (node_hits csr tss (time_bounds s) (sm_node_vec s)) us)) s)"
proof (induction us arbitrary: s)
  case Nil
  then show ?case by simp
next
  case (Cons ul us)
  obtain a b where ab: "view_neighbor_range csr (sm_node_vec s ! ul) = Some (a, b)" "a \<le> b" "b \<le> length (cv_edges csr)"
    using csr unfolding csr_ok_def by blast
  have ul: "ul < length (sm_node_vec s)" using Cons.prems(4) by simp
  define bound where "bound = (case time_bounds s of None \<Rightarrow> f64_infinity | Some bs \<Rightarrow> bs ! ul)"
  have bd: "(if sm_track_times s then nth_opt (sm_node_times s) ul else Some f64_infinity) = Some bound"
    using Cons.prems(2) ul by (auto simp: bound_def time_bounds_def nth_opt_Some)
  have uul: "unat (of_nat ul :: u32) = ul" using ul Cons.prems(3) by (simp add: unsigned_of_nat take_bit_nat_eq_self)
  have "induce_row cfg tss bound (sm_node_vec s ! ul) (of_nat ul) a (take (b - a) (drop a (cv_edges csr))) s =
     Some (with_edges cfg (row_hits tss bound (sm_node_vec s) (of_nat ul) a (take (b - a) (drop a (cv_edges csr)))) s)"
    using ts ab Cons.prems(1) uul by (intro induce_row_eq) (auto simp: per_edge_def)
  also have "row_hits tss bound (sm_node_vec s) (of_nat ul) a (take (b - a) (drop a (cv_edges csr))) =
     node_hits csr tss (time_bounds s) (sm_node_vec s) ul" using ab(1) by (simp add: node_hits_def bound_def)
  finally have row: "induce_row cfg tss bound (sm_node_vec s ! ul) (of_nat ul) a (take (b - a) (drop a (cv_edges csr))) s =
     Some (with_edges cfg (node_hits csr tss (time_bounds s) (sm_node_vec s) ul) s)" .
  let ?s = "with_edges cfg (node_hits csr tss (time_bounds s) (sm_node_vec s) ul) s"
  have tb: "time_bounds ?s = time_bounds s" by (simp add: time_bounds_def)
  have rest: "induce_loop cfg csr tss us ?s = Some (with_edges cfg (concat (map (node_hits csr tss (time_bounds s) (sm_node_vec s)) us)) ?s)"
    using Cons.IH [of ?s] Cons.prems tb by simp
  have sl: "slice_opt (cv_edges csr) a b = Some (take (b - a) (drop a (cv_edges csr)))" using ab by (simp add: slice_opt_def)
  show ?case
    unfolding induce_loop.simps nth_opt_Some [OF ul] Option.bind.simps ab(1) prod.case bd sl row rest with_edges_append
    by simp
qed

definition cleared :: "sampler \<Rightarrow> sampler" where
  "cleared s = s\<lparr>sm_edge_src := [], sm_edge_dst := [], sm_edge_ids := [], sm_src_local := [], sm_dst_local := []\<rparr>"

lemma induce_eq:
  assumes g: "graph_csr_view g = Some csr" "csr_ok csr" "per_edge csr (g_timestamps g)" and ok: "pass_ok csr cfg s"
  shows "induce cfg g s = Some (with_edges cfg (induced_edges csr (if sm_track_times s then g_timestamps g else None) (time_bounds s)
    (sm_node_vec s)) (cleared s))"
proof -
  note P = pass_okD [OF ok]
  have len: "length (sm_node_vec s) \<le> 2 ^ 32" using distinct_below [OF P(4,5)] P(1) by (simp add: MAX_NODES_def)
  have ta: "tables_agree (cleared s)" using pass_tables [OF ok] by (simp add: tables_agree_def cleared_def)
  have tb: "time_bounds (cleared s) = time_bounds s" by (simp add: time_bounds_def cleared_def)
  have "per_edge csr (if sm_track_times s then g_timestamps g else None)" using g(3) by (simp add: per_edge_def)
  from induce_loop_eq [OF g(2) this ta, of "[0..<length (sm_node_vec s)]" cfg] show ?thesis
    using P(7) len tb g(1) by (simp add: induce_def cleared_def induced_edges_def)
qed

text \<open>The induced edges are the graph's edges inside the node list, those in time.\<close>

lemma row_hits_mem:
  "x \<in> set (row_hits tss bound nodes ul pos ws) \<longleftrightarrow> (\<exists>i l. i < length ws \<and> in_time tss bound (pos + i) \<and> local_of nodes (ws ! i) = Some l \<and>
    x = (ul, l, of_nat (pos + i)))"
proof (induction ws arbitrary: pos)
  case Nil
  then show ?case by simp
next
  case (Cons w ws)
  define c where "c = (of_nat :: nat \<Rightarrow> u64)"
  define Q where "Q i l \<longleftrightarrow> in_time tss bound (pos + i) \<and> local_of nodes ((w # ws) ! i) = Some l \<and> x = (ul, l, c (pos + i))" for i l
  note IH = Cons [of "Suc pos", folded c_def] and step = row_hits.simps(2) [folded c_def]
  have "x \<in> set (row_hits tss bound nodes ul pos (w # ws)) \<longleftrightarrow> (\<exists>l. Q 0 l) \<or> (\<exists>i l. i < length ws \<and> Q (Suc i) l)"
  proof (cases "local_of nodes w")
    case None
    have "set (row_hits tss bound nodes ul pos (w # ws)) = set (row_hits tss bound nodes ul (Suc pos) ws)"
      by (simp only: step None option.case if_cancel append_Nil)
    moreover have "\<not> Q 0 l" for l unfolding Q_def by (simp add: None)
    moreover have "(\<exists>i l. i < length ws \<and> Q (Suc i) l) \<longleftrightarrow> x \<in> set (row_hits tss bound nodes ul (Suc pos) ws)"
      unfolding IH Q_def by simp
    ultimately show ?thesis by blast
  next
    case (Some l)
    have "set (row_hits tss bound nodes ul pos (w # ws)) =
        (if in_time tss bound pos then {(ul, l, c pos)} else {}) \<union> set (row_hits tss bound nodes ul (Suc pos) ws)"
      by (simp only: step Some option.case set_append if_distrib [of set] list.set)
    moreover have "(\<exists>l. Q 0 l) \<longleftrightarrow> x \<in> (if in_time tss bound pos then {(ul, l, c pos)} else {})" unfolding Q_def by (auto simp: Some)
    moreover have "(\<exists>i l. i < length ws \<and> Q (Suc i) l) \<longleftrightarrow> x \<in> set (row_hits tss bound nodes ul (Suc pos) ws)"
      unfolding IH Q_def by simp
    ultimately show ?thesis by blast
  qed
  also have "\<dots> \<longleftrightarrow> (\<exists>i l. i < length (w # ws) \<and> Q i l)"
    unfolding length_Cons by (metis less_Suc_eq_0_disj)
  finally show ?case by (simp only: Q_def c_def)
qed


lemma induced_edges_mem:
  "x \<in> set (induced_edges csr tss bounds nodes) \<longleftrightarrow> (\<exists>ul a b pos l. ul < length nodes \<and>
     view_neighbor_range csr (nodes ! ul) = Some (a, b) \<and> a \<le> pos \<and> pos < b \<and> pos < length (cv_edges csr) \<and>
     in_time tss (case bounds of None \<Rightarrow> f64_infinity | Some bs \<Rightarrow> bs ! ul) pos \<and> local_of nodes (cv_edges csr ! pos) = Some l \<and>
     x = (of_nat ul, l, of_nat pos))"
proof -
  have hits: "x \<in> set (node_hits csr tss bounds nodes ul) \<longleftrightarrow> (\<exists>a b pos l. 
     view_neighbor_range csr (nodes ! ul) = Some (a, b) \<and> a \<le> pos \<and> pos < b \<and> pos < length (cv_edges csr) \<and>
     in_time tss (case bounds of None \<Rightarrow> f64_infinity | Some bs \<Rightarrow> bs ! ul) pos \<and> local_of nodes (cv_edges csr ! pos) = Some l \<and>
     x = (of_nat ul, l, of_nat pos))" for ul
  proof (cases "view_neighbor_range csr (nodes ! ul)")
    case None
    then show ?thesis by (simp add: node_hits_def)
  next
    case (Some ab)
    obtain a b where ab: "ab = (a, b)" by (cases ab)
    let ?Q = "\<lambda>pos l. in_time tss (case bounds of None \<Rightarrow> f64_infinity | Some bs \<Rightarrow> bs ! ul) pos \<and>
        local_of nodes (cv_edges csr ! pos) = Some l \<and> x = (of_nat ul, l, of_nat pos)"
    have "x \<in> set (node_hits csr tss bounds nodes ul) \<longleftrightarrow> (\<exists>i l. i < b - a \<and> i < length (cv_edges csr) - a \<and> ?Q (a + i) l)"
      using Some ab by (auto simp: node_hits_def row_hits_mem)
    also have "\<dots> \<longleftrightarrow> (\<exists>pos l. a \<le> pos \<and> pos < b \<and> pos < length (cv_edges csr) \<and> ?Q pos l)"
    proof
      assume "\<exists>i l. i < b - a \<and> i < length (cv_edges csr) - a \<and> ?Q (a + i) l"
      then obtain i l where i: "i < b - a" "i < length (cv_edges csr) - a" "?Q (a + i) l" by blast
      have "a \<le> a + i" "a + i < b" "a + i < length (cv_edges csr)" using i by simp_all
      then show "\<exists>pos l. a \<le> pos \<and> pos < b \<and> pos < length (cv_edges csr) \<and> ?Q pos l"
        using i(3) by blast
    next
      assume "\<exists>pos l. a \<le> pos \<and> pos < b \<and> pos < length (cv_edges csr) \<and> ?Q pos l"
      then obtain pos l where pos: "a \<le> pos" "pos < b" "pos < length (cv_edges csr)" "?Q pos l" by blast
      have "pos - a < b - a" "pos - a < length (cv_edges csr) - a" "a + (pos - a) = pos" using pos(1-3) by (simp_all add: diff_less_mono)
      then show "\<exists>i l. i < b - a \<and> i < length (cv_edges csr) - a \<and> ?Q (a + i) l"
        using pos(4) by metis
    qed
    finally show ?thesis using Some ab by auto
  qed
  have "x \<in> set (induced_edges csr tss bounds nodes) \<longleftrightarrow> (\<exists>ul<length nodes. x \<in> set (node_hits csr tss bounds nodes ul))"
    by (auto simp: induced_edges_def)
  then show ?thesis unfolding hits by blast
qed

subsection \<open>Bidirectional\<close>

fun mirrored :: "ltriple list \<Rightarrow> u64 set \<Rightarrow> ltriple list" where
  "mirrored [] pairs = []"
| "mirrored ((sl, dl, e) # E) pairs = (if pair_key dl sl \<in> pairs then mirrored E pairs
     else (dl, sl, e) # mirrored E (insert (pair_key dl sl) pairs))"

definition pair_keys :: "ltriple list \<Rightarrow> u64 set" where
  "pair_keys E = (\<lambda>(sl, dl, e). pair_key sl dl) ` set E"

lemma pair_key_inj: "pair_key a b = pair_key c d \<longleftrightarrow> a = c \<and> b = d"
proof -
  have "slot_tag (pair_key x y) = x" "(ucast (pair_key x y) :: u32) = y" for x y
    using slot_tag_pack [of x y] slot_index_pack [of x y] by (simp_all add: pair_key_def pack_slot_def)
  then show ?thesis by metis
qed

lemma mirror_loop_eq:
  assumes "has_edges cfg E s" and "D = drop k E" and "k \<le> length E"
  shows "mirror_loop cfg [k..<length E] pairs (with_edges cfg F s) = Some (with_edges cfg (F @ mirrored D pairs) s)"
  using assms(2,3)
proof (induction D arbitrary: k F pairs)
  case Nil
  then show ?case by simp
next
  case (Cons x D)
  have k: "k < length E" using Cons.prems by (cases "k < length E") simp_all
  have x: "E ! k = x" "drop (Suc k) E = D" using Cons.prems(1) k by (metis Cons_nth_drop_Suc list.inject)+
  obtain sl dl e where t: "x = (sl, dl, e)" by (cases x)
  let ?s = "with_edges cfg F s"
  have he: "has_edges cfg (E @ F) ?s" by (rule has_edges_append [OF assms(1)])
  have nth: "nth_opt (sm_src_local ?s) k = Some sl" "nth_opt (sm_dst_local ?s) k = Some dl"
    "nth_opt (sm_edge_src ?s) k = Some (sm_node_vec s ! unat sl)" "nth_opt (sm_edge_dst ?s) k = Some (sm_node_vec s ! unat dl)"
    "sc_track_edge_ids cfg \<Longrightarrow> nth_opt (sm_edge_ids ?s) k = Some e"
    using he k x(1) t by (simp_all add: has_edges_def nth_opt_def nth_append)
  have split: "[k..<length E] = k # [Suc k..<length E]" using k by (rule upt_conv_Cons)
  show ?case
  proof (cases "pair_key dl sl \<in> pairs")
    case True
    then show ?thesis using Cons.IH [of "Suc k" pairs F] x(2) k by (simp add: split nth t del: upt_Suc)
  next
    case False
    let ?s1 = "?s\<lparr>sm_edge_src := sm_edge_src ?s @ [sm_node_vec s ! unat dl], sm_edge_dst := sm_edge_dst ?s @ [sm_node_vec s ! unat sl],
                  sm_src_local := sm_src_local ?s @ [dl], sm_dst_local := sm_dst_local ?s @ [sl]\<rparr>"
    have ids: "sm_edge_ids ?s1 = sm_edge_ids ?s" by simp
    have one: "(if sc_track_edge_ids cfg then do { eid \<leftarrow> nth_opt (sm_edge_ids ?s1) k; Some (?s1\<lparr>sm_edge_ids := sm_edge_ids ?s1 @ [eid]\<rparr>) }
        else Some ?s1) = Some (with_edges cfg (F @ [(dl, sl, e)]) s)"
      unfolding ids using nth(5) by (auto simp: with_edges_def)
    have "mirror_loop cfg [Suc k..<length E] (insert (pair_key dl sl) pairs) (with_edges cfg (F @ [(dl, sl, e)]) s) =
        Some (with_edges cfg (F @ (dl, sl, e) # mirrored D (insert (pair_key dl sl) pairs)) s)"
      using Cons.IH [of "Suc k" "insert (pair_key dl sl) pairs" "F @ [(dl, sl, e)]"] x(2) k by simp
    then show ?thesis unfolding split mirror_loop.simps nth(1-4) Option.bind.simps Let_def if_not_P [OF False] one
      by (simp add: t False)
  qed
qed

lemma mirror_eq:
  assumes "has_edges cfg E s"
  shows "mirror cfg s = Some (with_edges cfg (mirrored E (pair_keys E)) s)"
proof -
  have len: "length (sm_edge_src s) = length E" "length (sm_src_local s) = length E" "length (sm_dst_local s) = length E"
    using assms by (simp_all add: has_edges_def)
  have "set (map (\<lambda>(a, b). pair_key a b) (zip (sm_src_local s) (sm_dst_local s))) = pair_keys E"
    using assms by (force simp: has_edges_def pair_keys_def zip_map_map zip_same_conv_map)
  then show ?thesis using mirror_loop_eq [OF assms, of E 0 "pair_keys E" "[]"] len
    by (simp add: mirror_def slice_opt_def)
qed

text \<open>What is appended are reverses, at most one per pair and none that was there; then every edge has its reverse.\<close>

lemma mirrored_mem: "(a, b, e) \<in> set (mirrored E pairs) \<Longrightarrow> (b, a, e) \<in> set E \<and> pair_key a b \<notin> pairs"
  by (induction E pairs rule: mirrored.induct) (auto split: if_splits)

lemma mirrored_complete: "(sl, dl, e) \<in> set E \<Longrightarrow> pair_key dl sl \<in> pairs \<or> (\<exists>e'. (dl, sl, e') \<in> set (mirrored E pairs))"
  by (induction E pairs rule: mirrored.induct) (auto simp: pair_key_inj)

lemma mirrored_once: "distinct (map (\<lambda>(a, b, e). (a, b)) (mirrored E pairs))"
proof (induction E pairs rule: mirrored.induct)
  case (2 sl dl e E pairs)
  then show ?case using mirrored_mem [of dl sl _ E "insert (pair_key dl sl) pairs"] by fastforce
qed simp

lemma mirror_symmetric:
  assumes "(a, b, e) \<in> set (E @ mirrored E (pair_keys E))"
  shows "\<exists>e'. (b, a, e') \<in> set (E @ mirrored E (pair_keys E))"
proof (cases "(a, b, e) \<in> set E")
  case True
  have "pair_key b a \<in> pair_keys E \<Longrightarrow> \<exists>e'. (b, a, e') \<in> set E" by (auto simp: pair_keys_def pair_key_inj)
  then show ?thesis using mirrored_complete [OF True, of "pair_keys E"] by auto
next
  case False
  then show ?thesis using assms mirrored_mem [of a b e E "pair_keys E"] by auto
qed

end
