(* ===== verification/Sampler_Pass.thy ===== *)
theory Sampler_Pass
  imports Sampler_Rewrite
begin

section \<open>Whole passes on mates\<close>

text \<open>
  Rewriting the edges, registering the seeds, the shared and the disjoint pass. A sampler is
  \<open>idle\<close> between passes when its tables are well-formed for the graph; a pass starts from any two
  idle samplers with the same generator state, gives the same subgraph and leaves both idle.
\<close>

subsection \<open>The graph\<close>

lemma graph_csr_ok:
  assumes g: "graph_typed g" and small: "g_num_edges g < 2 ^ 64"
  obtains csr ws where "graph_csr_view g = Some csr" "csr_ok csr" "cv_num_nodes csr = g_num_nodes g" "g_num_nodes g \<le> MAX_NODES"
    "weights_slice g = Some ws" "per_edge csr ws" "per_edge csr (g_timestamps g)"
proof -
  obtain offs es ws where t: "offsets_slice g = Some offs" "edges_slice g = Some es" "weights_slice g = Some ws"
    "g_num_nodes g \<le> MAX_NODES" "length offs = g_num_nodes g + 1" "length es = g_num_edges g"
    "\<forall>w. ws = Some w \<longrightarrow> length w = g_num_edges g" "\<forall>t. g_timestamps g = Some t \<longrightarrow> length t = g_num_edges g"
    using g unfolding graph_typed_def by blast
  let ?csr = "\<lparr>cv_offsets = offs, cv_edges = es, cv_num_nodes = g_num_nodes g, cv_num_edges = g_num_edges g\<rparr>"
  have "\<exists>a b. view_neighbor_range ?csr v = Some (a, b) \<and> a \<le> b \<and> b \<le> g_num_edges g" for v
    using typed_range [OF g, of v] t(1) by (simp add: neighbor_range_def view_neighbor_range_def)
  then have "csr_ok ?csr" using small t(6) by (simp add: csr_ok_def)
  then show thesis using t by (intro that [of ?csr ws]) (simp_all add: graph_csr_view_def per_edge_def)
qed

definition idle :: "nat \<Rightarrow> sampler \<Rightarrow> bool" where
  "idle n s \<longleftrightarrow> dedup_wf n (sm_dedup s) \<and> floyd_wf (sm_floyd s) \<and> sm_seed_locals s = []"

lemma sampler_new_idle: "idle (g_num_nodes g) (sampler_new g cfg entropy)"
  by (simp add: idle_def sampler_new_def slots_new_wf floyd_new_wf)

lemma reseed_idle [simp]: "idle n (reseed x s) = idle n s"
  by (simp add: idle_def reseed_def)

lemma begin_pass_mates:
  assumes "idle (cv_num_nodes csr) s" and "idle (cv_num_nodes csr) t" and "sm_rng s = sm_rng t" and "cv_num_nodes csr \<le> MAX_NODES"
  shows "mates csr cfg (begin_pass b s) (begin_pass b t)" and "sm_node_vec (begin_pass b s) = []" and "sm_edge_src (begin_pass b s) = []"
    and "sm_seed_locals (begin_pass b s) = []" and "sm_track_times (begin_pass b s) = b" and "sm_frontier (begin_pass b s) = []"
proof -
  have ok: "pass_ok csr cfg ((begin_pass b u)\<lparr>sm_hop := 0\<rparr>)" if "idle (cv_num_nodes csr) u" for u
  proof -
    have d: "dedup_wf (cv_num_nodes csr) (dedup_begin (sm_dedup u))" "dedup_get (dedup_begin (sm_dedup u)) = (\<lambda>_. None)"
      using dedup_begin_ok that by (auto simp: idle_def)
    have "edges_ok (row_edge csr) cfg (begin_pass b u)"
      unfolding edges_ok_def by (rule exI [of _ "[]"]) (simp add: begin_pass_def)
    then show ?thesis using d that assms(4) by (simp add: pass_ok_def begin_pass_def idle_def placed_def edges_ok_def)
  qed
  have "core ((begin_pass b s)\<lparr>sm_hop := 0\<rparr>) = core ((begin_pass b t)\<lparr>sm_hop := 0\<rparr>)"
    using assms by (simp add: begin_pass_def core_def idle_def)
  then show "mates csr cfg (begin_pass b s) (begin_pass b t)" using ok [OF assms(1)] ok [OF assms(2)]
    by (simp add: mates_def twin_def)
qed (use assms(1) in \<open>simp_all add: begin_pass_def idle_def\<close>)

lemma run_hops_twins:
  assumes g: "graph_csr_view g = Some csr" "csr_ok csr" "weights_slice g = Some ws" "per_edge csr ws" "per_edge csr (g_timestamps g)"
    and env: "env_ok env" and m: "mates csr cfg s t" and tr: "temporal \<longrightarrow> sm_track_times s"
  shows "\<exists>recs s' t'. run_hops env cfg g temporal s = Some (recs, s') \<and> run_hops env cfg g temporal t = Some (recs, t') \<and>
    mates csr cfg s' t' \<and> hopped s recs s' \<and> length recs = length (sc_fanout cfg)"
proof -
  define w where "w = (if sc_weighted cfg then ws else None)"
  define ts where "ts = (if temporal then g_timestamps g else None)"
  have p: "per_edge csr w" "per_edge csr ts" using g(4,5) by (simp_all add: w_def ts_def per_edge_def)
  have "(if sc_weighted cfg then weights_slice g else Some None) = Some w" using g(3) by (simp add: w_def)
  then have run: "run_hops env cfg g temporal u = hop_loop env cfg csr w ts temporal 0 (sc_fanout cfg) u" for u
    unfolding run_hops_def g(1) Option.bind.simps by (simp add: ts_def)
  show ?thesis unfolding run by (rule hop_loop_twins [OF g(2) env p m tr])
qed

subsection \<open>From the seeds to the output\<close>

definition visible :: "sampler \<Rightarrow> node_id list \<times> node_id list \<times> node_id list \<times> u64 list \<times> u32 list \<times> u32 list \<times> u32 list \<times> u64" where
  "visible s = (sm_node_vec s, sm_edge_src s, sm_edge_dst s, sm_edge_ids s, sm_src_local s, sm_dst_local s, sm_seed_locals s, sm_rng s)"

lemma mates_facts:
  assumes "mates csr cfg s t"
  shows "pass_ok csr cfg s" and "pass_ok csr cfg t" and "visible s = visible t" and "time_bounds s = time_bounds t"
    and "sm_track_times s = sm_track_times t"
proof -
  show "pass_ok csr cfg s" "pass_ok csr cfg t" using assms by (simp_all add: mates_def twin_def)
  note tw = twin_sel [OF assms [unfolded mates_def]]
  show "visible s = visible t" using tw by (simp add: visible_def)
  show "time_bounds s = time_bounds t" "sm_track_times s = sm_track_times t" using tw by (simp_all add: time_bounds_def)
qed

text \<open>What each subgraph type promises of the edge triples.\<close>

definition typed_edges :: "csr_view \<Rightarrow> sampling_config \<Rightarrow> f64_bits list option \<Rightarrow> f64_bits list option \<Rightarrow> node_id list \<Rightarrow> ltriple list \<Rightarrow> bool" where
  "typed_edges csr cfg tss bounds nodes E \<longleftrightarrow> (case sc_subgraph_type cfg of
     Directional \<Rightarrow> edges_in (row_edge csr) nodes E
   | Induced \<Rightarrow> E = induced_edges csr tss bounds nodes
   | Bidirectional \<Rightarrow> \<exists>E0. edges_in (row_edge csr) nodes E0 \<and> E = E0 @ mirrored E0 (pair_keys E0))"

definition graph_edge :: "csr_view \<Rightarrow> sampling_config \<Rightarrow> node_id \<Rightarrow> u64 \<Rightarrow> node_id \<Rightarrow> bool" where
  "graph_edge csr cfg u e v \<longleftrightarrow> row_edge csr u e v \<or> sc_subgraph_type cfg = Bidirectional \<and> row_edge csr v e u"

lemma typed_edges_in:
  assumes t: "typed_edges csr cfg tss bounds nodes E" and d: "distinct nodes" "length nodes \<le> 2 ^ 32" and csr: "csr_ok csr"
  shows "edges_in (graph_edge csr cfg) nodes E"
proof (cases "sc_subgraph_type cfg")
  case Directional
  then show ?thesis using t by (auto simp: typed_edges_def edges_in_def graph_edge_def)
next
  case Bidirectional
  then obtain E0 where E0: "edges_in (row_edge csr) nodes E0" "E = E0 @ mirrored E0 (pair_keys E0)" using t by (auto simp: typed_edges_def)
  show ?thesis unfolding edges_in_def
  proof
    fix x assume "x \<in> set E"
    obtain a b e where x: "x = (a, b, e)" by (cases x)
    from \<open>x \<in> set E\<close> have "(a, b, e) \<in> set E0 \<or> (b, a, e) \<in> set E0" using mirrored_mem [of a b e E0] by (auto simp: E0(2) x)
    then show "unat (fst x) < length nodes \<and> unat (fst (snd x)) < length nodes \<and>
      graph_edge csr cfg (nodes ! unat (fst x)) (snd (snd x)) (nodes ! unat (fst (snd x)))"
      using E0(1) Bidirectional by (force simp: x edges_in_def graph_edge_def)
  qed
next
  case Induced
  then have E: "E = induced_edges csr tss bounds nodes" using t by (simp add: typed_edges_def)
  show ?thesis unfolding edges_in_def
  proof
    fix x assume "x \<in> set E"
    then obtain ul a b pos l where x: "ul < length nodes" "view_neighbor_range csr (nodes ! ul) = Some (a, b)" "a \<le> pos" "pos < b"
       "pos < length (cv_edges csr)" "local_of nodes (cv_edges csr ! pos) = Some l" "x = (of_nat ul, l, of_nat pos)"
      unfolding E induced_edges_mem by blast
    have l: "unat l < length nodes" "nodes ! unat l = cv_edges csr ! pos" using x(6) local_of_placed [OF d] by (simp_all add: placed_def)
    have u: "unat (of_nat ul :: u32) = ul" using x(1) d(2) by (simp add: unsigned_of_nat take_bit_nat_eq_self)
    have "pos < 2 ^ 64" using x(5) csr unfolding csr_ok_def by linarith
    then have e: "unat (of_nat pos :: u64) = pos" by (simp add: unsigned_of_nat take_bit_nat_eq_self)
    have "row_edge csr (nodes ! ul) (of_nat pos) (cv_edges csr ! pos)" using x e by (auto simp: row_edge_def nth_opt_Some)
    then show "unat (fst x) < length nodes \<and> unat (fst (snd x)) < length nodes \<and>
      graph_edge csr cfg (nodes ! unat (fst x)) (snd (snd x)) (nodes ! unat (fst (snd x)))"
      using x(1,7) l u by (simp add: graph_edge_def)
  qed
qed

lemma visible_with_edges: "visible s = visible t \<Longrightarrow> visible (with_edges cfg E s) = visible (with_edges cfg E t)"
  by (simp add: visible_def with_edges_def)

lemma visible_cleared: "visible s = visible t \<Longrightarrow> visible (cleared s) = visible (cleared t)"
  by (simp add: visible_def cleared_def)

lemma rewrite_twins:
  assumes g: "graph_csr_view g = Some csr" "csr_ok csr" "per_edge csr (g_timestamps g)" and m: "mates csr cfg s t"
  shows "\<exists>E s' t'. apply_subgraph_type cfg g s = Some s' \<and> apply_subgraph_type cfg g t = Some t' \<and> visible s' = visible t' \<and>
    has_edges cfg E s' \<and> typed_edges csr cfg (if sm_track_times s then g_timestamps g else None) (time_bounds s) (sm_node_vec s) E \<and>
    (sc_subgraph_type cfg = Directional \<longrightarrow> s' = s) \<and> sm_node_vec s' = sm_node_vec s \<and> sm_seed_locals s' = sm_seed_locals s \<and>
    (\<forall>n. idle n (s'\<lparr>sm_seed_locals := []\<rparr>) = idle n (s\<lparr>sm_seed_locals := []\<rparr>)) \<and>
    (\<forall>n. idle n (t'\<lparr>sm_seed_locals := []\<rparr>) = idle n (t\<lparr>sm_seed_locals := []\<rparr>))"
proof -
  note mf = mates_facts [OF m]
  obtain E0 where E0: "has_edges cfg E0 s" "edges_in (row_edge csr) (sm_node_vec s) E0"
    using pass_okD(10) [OF mf(1)] edges_ok_triples by blast
  have same: "sm_src_local t = sm_src_local s" "sm_dst_local t = sm_dst_local s" "sm_edge_src t = sm_edge_src s"
    "sm_edge_dst t = sm_edge_dst s" "sm_edge_ids t = sm_edge_ids s" "sm_node_vec t = sm_node_vec s" using mf(3) by (simp_all add: visible_def)
  have E0t: "has_edges cfg E0 t" using E0(1) unfolding has_edges_def same .
  show ?thesis
  proof (cases "sc_subgraph_type cfg")
    case Directional
    then show ?thesis using E0 mf(3) by (intro exI [of _ E0] exI [of _ s] exI [of _ t]) (simp add: apply_subgraph_type_def typed_edges_def)
  next
    case Bidirectional
    let ?F = "mirrored E0 (pair_keys E0)"
    have "typed_edges csr cfg tss bounds (sm_node_vec s) (E0 @ ?F)" for tss bounds using Bidirectional E0(2) by (auto simp: typed_edges_def)
    then show ?thesis using Bidirectional mirror_eq [OF E0(1)] mirror_eq [OF E0t] has_edges_append [OF E0(1)] visible_with_edges [OF mf(3)]
      by (intro exI [of _ "E0 @ ?F"] exI [of _ "with_edges cfg ?F s"] exI [of _ "with_edges cfg ?F t"])
        (simp add: apply_subgraph_type_def idle_def)
  next
    case Induced
    let ?E = "induced_edges csr (if sm_track_times s then g_timestamps g else None) (time_bounds s) (sm_node_vec s)"
    have nv: "sm_node_vec t = sm_node_vec s" using mf(3) by (simp add: visible_def)
    have run: "induce cfg g s = Some (with_edges cfg ?E (cleared s))" "induce cfg g t = Some (with_edges cfg ?E (cleared t))"
      using induce_eq [OF g mf(1)] induce_eq [OF g mf(2)] mf(4,5) nv by simp_all
    have "has_edges cfg ?E (with_edges cfg ?E (cleared s))" by (simp add: has_edges_def with_edges_def cleared_def)
    moreover have "typed_edges csr cfg (if sm_track_times s then g_timestamps g else None) (time_bounds s) (sm_node_vec s) ?E"
      using Induced by (simp add: typed_edges_def)
    moreover have "visible (with_edges cfg ?E (cleared s)) = visible (with_edges cfg ?E (cleared t))"
      by (rule visible_with_edges [OF visible_cleared [OF mf(3)]])
    ultimately show ?thesis using Induced run
      by (intro exI [of _ ?E] exI [of _ "with_edges cfg ?E (cleared s)"] exI [of _ "with_edges cfg ?E (cleared t)"])
        (simp add: apply_subgraph_type_def idle_def cleared_def)
  qed
qed

end
