(* ===== verification/Sampler_Calls.thy ===== *)
theory Sampler_Calls
  imports Sampler_Pass
begin

section \<open>The sampling calls\<close>

text \<open>
  Registration of the seeds, the shared and the disjoint call. \<open>subgraph_ok\<close> says that a subgraph is
  consistent with itself and with the graph; \<open>shared_ok\<close> adds what the shared pass promises.
\<close>

definition kept :: "sampler \<Rightarrow> sampler \<Rightarrow> bool" where
  "kept s s' \<longleftrightarrow> (\<exists>xs. sm_node_vec s' = sm_node_vec s @ xs) \<and> sm_track_times s' = sm_track_times s \<and> sm_edge_src s' = sm_edge_src s"

lemma kept_refl [simp]: "kept s s"
  by (simp add: kept_def)

lemma kept_trans: "kept s s' \<Longrightarrow> kept s' s'' \<Longrightarrow> kept s s''"
  unfolding kept_def by auto

lemma kept_placed: "kept s s' \<Longrightarrow> placed (sm_node_vec s) v l \<Longrightarrow> placed (sm_node_vec s') v l"
  by (auto simp: kept_def intro: placed_append)

definition core0 :: "sampler \<Rightarrow> sampler" where
  "core0 s = (core s)\<lparr>sm_hop := 0\<rparr>"

lemma core0_update [simp]:
  "core0 (s\<lparr>sm_frontier := fr\<rparr>) = (core0 s)\<lparr>sm_frontier := fr\<rparr>" "core0 (s\<lparr>sm_seed_locals := sl\<rparr>) = (core0 s)\<lparr>sm_seed_locals := sl\<rparr>"
  "core0 (s\<lparr>sm_dedup := d\<rparr>) = core0 s" "core0 (s\<lparr>sm_hop := h\<rparr>) = core0 s"
  by (simp_all add: core0_def core_def)

lemma mates_core0: "mates csr cfg s t \<longleftrightarrow> pass_ok csr cfg s \<and> pass_ok csr cfg t \<and> core0 s = core0 t"
  by (simp add: mates_def twin_def core0_def)

lemma registered_hop: "registered v time (s\<lparr>sm_hop := h\<rparr>) = (registered v time s)\<lparr>sm_hop := h\<rparr>"
  by (simp add: registered_def split: option.split)

lemma registered_core0: "core0 (registered v time s) = registered v time (core0 s)"
  by (simp add: core0_def registered_hop)

lemma register_twins:
  assumes m: "mates csr cfg s t" and v: "unat v < cv_num_nodes csr"
  shows "\<exists>l b s' t'. register v time s = Some ((l, b), s') \<and> register v time t = Some ((l, b), t') \<and> mates csr cfg s' t' \<and>
    placed (sm_node_vec s') v l \<and> kept s s' \<and> sm_seed_locals s' = sm_seed_locals s \<and> sm_frontier s' = sm_frontier s \<and>
    sm_node_vec s' = sm_node_vec s @ (if b then [v] else [])"
proof -
  note mf = mates_facts [OF m]
  have c: "core0 s = core0 t" using m by (simp add: mates_core0)
  have nv: "sm_node_vec t = sm_node_vec s" using mf(3) by (simp add: visible_def)
  have la: "local_after v t = local_after v s" unfolding local_after_def nv ..
  obtain d where d: "register v time s = Some ((local_after v s, local_of (sm_node_vec s) v = None), (registered v time s)\<lparr>sm_dedup := d\<rparr>)"
    "pass_ok csr cfg ((registered v time s)\<lparr>sm_dedup := d\<rparr>)" using register_ok(1) [OF mf(1) v] by blast
  obtain d' where d': "register v time t = Some ((local_after v s, local_of (sm_node_vec s) v = None), (registered v time t)\<lparr>sm_dedup := d'\<rparr>)"
    "pass_ok csr cfg ((registered v time t)\<lparr>sm_dedup := d'\<rparr>)" using register_ok(1) [OF mf(2) v] by (auto simp: la nv)
  have "mates csr cfg ((registered v time s)\<lparr>sm_dedup := d\<rparr>) ((registered v time t)\<lparr>sm_dedup := d'\<rparr>)"
    using d(2) d'(2) c by (simp add: mates_core0 registered_core0)
  moreover have "placed (sm_node_vec (registered v time s)) v (local_after v s)" by (rule register_ok(2) [OF mf(1) v])
  moreover have "kept s (registered v time s)" by (auto simp: kept_def registered_nodes)
  ultimately show ?thesis using d(1) d'(1)
    by (intro exI [of _ "local_after v s"] exI [of _ "local_of (sm_node_vec s) v = None"]
        exI [of _ "(registered v time s)\<lparr>sm_dedup := d\<rparr>"] exI [of _ "(registered v time t)\<lparr>sm_dedup := d'\<rparr>"])
      (simp add: registered_nodes kept_def)
qed

lemma mates_frontier:
  assumes m: "mates csr cfg s t" and p: "placed (sm_node_vec s) v l"
  shows "mates csr cfg (s\<lparr>sm_frontier := sm_frontier s @ [(v, l)]\<rparr>) (t\<lparr>sm_frontier := sm_frontier t @ [(v, l)]\<rparr>)"
proof -
  note mf = mates_facts [OF m]
  have nv: "sm_node_vec t = sm_node_vec s" using mf(3) by (simp add: visible_def)
  have fr: "sm_frontier t = sm_frontier s" using twin_sel(12) [OF m [unfolded mates_def]] by simp
  have c: "core0 s = core0 t" using m by (simp add: mates_core0)
  have ok: "pass_ok csr cfg (u\<lparr>sm_frontier := sm_frontier u @ [(v, l)]\<rparr>)" if "pass_ok csr cfg u" "placed (sm_node_vec u) v l" for u
    using that pass_okD(8) [OF that(1)] unfolding pass_ok_def edges_ok_def by auto
  show ?thesis using ok [OF mf(1) p] ok [OF mf(2)] p nv c fr by (simp add: mates_core0)
qed

lemma mates_seed_locals: "mates csr cfg s t \<Longrightarrow> mates csr cfg (s\<lparr>sm_seed_locals := ls\<rparr>) (t\<lparr>sm_seed_locals := ls\<rparr>)"
proof -
  assume m: "mates csr cfg s t"
  note mf = mates_facts [OF m]
  have c: "core0 s = core0 t" using m by (simp add: mates_core0)
  show ?thesis using mf(1,2) c by (simp add: mates_core0)
qed

lemma register_seeds_twins:
  "mates csr cfg s t \<Longrightarrow> \<forall>v\<in>set seeds. unat v < cv_num_nodes csr \<Longrightarrow> \<forall>ts. tms = Some ts \<longrightarrow> i + length seeds \<le> length ts \<Longrightarrow>
    \<exists>ls s' t'. register_seeds tms i seeds s = Some s' \<and> register_seeds tms i seeds t = Some t' \<and> mates csr cfg s' t' \<and> kept s s' \<and>
      sm_seed_locals s' = sm_seed_locals s @ ls \<and> list_all2 (placed (sm_node_vec s')) seeds ls"
proof (induction seeds arbitrary: i s t)
  case Nil
  then show ?case by simp
next
  case (Cons v seeds)
  have v: "unat v < cv_num_nodes csr" using Cons.prems(2) by simp
  define time where "time = (case tms of None \<Rightarrow> f64_infinity | Some ts \<Rightarrow> ts ! i)"
  have tm: "(case tms of None \<Rightarrow> Some f64_infinity | Some ts \<Rightarrow> nth_opt ts i) = Some time"
    using Cons.prems(3) by (auto simp: time_def nth_opt_def split: option.split)
  obtain l b s1 t1 where one: "register v time s = Some ((l, b), s1)" "register v time t = Some ((l, b), t1)" "mates csr cfg s1 t1"
    "placed (sm_node_vec s1) v l" "kept s s1" "sm_seed_locals s1 = sm_seed_locals s" using register_twins [OF Cons.prems(1) v] by blast
  define st where "st u = (let u = u\<lparr>sm_seed_locals := sm_seed_locals u @ [l]\<rparr> in
     if b then u\<lparr>sm_frontier := sm_frontier u @ [(v, l)]\<rparr> else u)" for u :: sampler
  have sl: "sm_seed_locals t1 = sm_seed_locals s1" using mates_facts(3) [OF one(3)] by (simp add: visible_def)
  let ?s = "s1\<lparr>sm_seed_locals := sm_seed_locals s1 @ [l]\<rparr>" and ?t = "t1\<lparr>sm_seed_locals := sm_seed_locals t1 @ [l]\<rparr>"
  have m1: "mates csr cfg ?s ?t" unfolding sl by (rule mates_seed_locals [OF one(3)])
  have m2: "mates csr cfg (st s1) (st t1)" using m1 mates_frontier [OF m1, of v l] one(4) by (simp add: st_def Let_def)
  have k: "kept s (st s1)" using one(5) by (simp add: st_def kept_def Let_def)
  have nv: "sm_node_vec (st s1) = sm_node_vec s1" "sm_seed_locals (st s1) = sm_seed_locals s @ [l]" using one(6) by (simp_all add: st_def Let_def)
  obtain ls s2 t2 where two: "register_seeds tms (Suc i) seeds (st s1) = Some s2" "register_seeds tms (Suc i) seeds (st t1) = Some t2"
    "mates csr cfg s2 t2" "kept (st s1) s2" "sm_seed_locals s2 = sm_seed_locals (st s1) @ ls" "list_all2 (placed (sm_node_vec s2)) seeds ls"
    using Cons.IH [OF m2, of "Suc i"] Cons.prems(2,3) by auto
  have run: "register_seeds tms i (v # seeds) u = register_seeds tms (Suc i) seeds (st u1)" if "register v time u = Some ((l, b), u1)" for u u1
    unfolding register_seeds.simps tm Option.bind.simps that prod.case by (simp add: st_def Let_def)
  have "placed (sm_node_vec s2) v l" using kept_placed [OF two(4)] one(4) nv(1) by simp
  then show ?case using two run [OF one(1)] run [OF one(2)] kept_trans [OF k two(4)] nv(2)
    by (intro exI [of _ "l # ls"] exI [of _ s2] exI [of _ t2]) simp
qed

subsection \<open>Hops and rewriting together\<close>

definition graph_env :: "graph \<Rightarrow> csr_view \<Rightarrow> sampler_env \<Rightarrow> bool" where
  "graph_env g csr env \<longleftrightarrow> env_ok env \<and> graph_csr_view g = Some csr \<and> csr_ok csr \<and> cv_num_nodes csr = g_num_nodes g \<and>
     g_num_nodes g \<le> MAX_NODES \<and> per_edge csr (g_timestamps g) \<and> (\<exists>ws. weights_slice g = Some ws \<and> per_edge csr ws)"

lemma graph_envI:
  assumes "graph_typed g" and "g_num_edges g < 2 ^ 64" and "env_ok env"
  obtains csr where "graph_env g csr env"
  using graph_csr_ok [OF assms(1,2)] assms(3) by (metis graph_env_def)

definition pass_body :: "sampler_env \<Rightarrow> sampling_config \<Rightarrow> graph \<Rightarrow> bool \<Rightarrow> sampler \<Rightarrow> ((nat \<times> nat) list \<times> sampler) option" where
  "pass_body env cfg g temporal s = do { (recs, s) \<leftarrow> run_hops env cfg g temporal s; s \<leftarrow> apply_subgraph_type cfg g s; Some (recs, s) }"

text \<open>What a pass leaves: the triples \<open>E\<close>, the records and the sampler.\<close>

definition passed :: "csr_view \<Rightarrow> sampling_config \<Rightarrow> bool \<Rightarrow> sampler \<Rightarrow> (nat \<times> nat) list \<Rightarrow> ltriple list \<Rightarrow> sampler \<Rightarrow> bool" where
  "passed csr cfg temporal s recs E s' \<longleftrightarrow> has_edges cfg E s' \<and> edges_in (graph_edge csr cfg) (sm_node_vec s') E \<and>
     (\<not> temporal \<longrightarrow> typed_edges csr cfg None None (sm_node_vec s') E) \<and>
     distinct (sm_node_vec s') \<and> (\<forall>v\<in>set (sm_node_vec s'). unat v < cv_num_nodes csr) \<and>
     (\<exists>xs. sm_node_vec s' = sm_node_vec s @ xs \<and> length xs = sum_list (map fst recs)) \<and>
     (sc_subgraph_type cfg = Directional \<longrightarrow> length E = sum_list (map snd recs)) \<and>
     sm_seed_locals s' = sm_seed_locals s \<and> length recs = length (sc_fanout cfg) \<and>
     idle (cv_num_nodes csr) (s'\<lparr>sm_seed_locals := []\<rparr>)"

lemma pass_idle: "pass_ok csr cfg s \<Longrightarrow> idle (cv_num_nodes csr) (s\<lparr>sm_seed_locals := []\<rparr>)"
  by (simp add: pass_ok_def idle_def)

lemma pass_body_twins:
  assumes ge: "graph_env g csr env" and m: "mates csr cfg s t" and tr: "sm_track_times s = temporal" and e: "sm_edge_src s = []"
  shows "\<exists>recs E s' t'. pass_body env cfg g temporal s = Some (recs, s') \<and> pass_body env cfg g temporal t = Some (recs, t') \<and>
    visible s' = visible t' \<and> passed csr cfg temporal s recs E s' \<and> idle (cv_num_nodes csr) (t'\<lparr>sm_seed_locals := []\<rparr>)"
proof -
  obtain ws where G: "env_ok env" "graph_csr_view g = Some csr" "csr_ok csr" "per_edge csr (g_timestamps g)"
    "weights_slice g = Some ws" "per_edge csr ws" using ge by (auto simp: graph_env_def)
  have "temporal \<longrightarrow> sm_track_times s" using tr by simp
  from run_hops_twins [OF G(2,3,5,6,4,1) m this]
  obtain recs s1 t1 where one: "run_hops env cfg g temporal s = Some (recs, s1)" "run_hops env cfg g temporal t = Some (recs, t1)"
    "mates csr cfg s1 t1" "hopped s recs s1" "length recs = length (sc_fanout cfg)" by blast
  note mf = mates_facts [OF one(3)]
  from rewrite_twins [OF G(2,3,4) one(3)] obtain E s2 t2 where two: "apply_subgraph_type cfg g s1 = Some s2" "apply_subgraph_type cfg g t1 = Some t2"
    "visible s2 = visible t2" "has_edges cfg E s2"
    "typed_edges csr cfg (if sm_track_times s1 then g_timestamps g else None) (time_bounds s1) (sm_node_vec s1) E"
    "sc_subgraph_type cfg = Directional \<longrightarrow> s2 = s1" "sm_node_vec s2 = sm_node_vec s1" "sm_seed_locals s2 = sm_seed_locals s1"
    "\<forall>n. idle n (s2\<lparr>sm_seed_locals := []\<rparr>) = idle n (s1\<lparr>sm_seed_locals := []\<rparr>)"
    "\<forall>n. idle n (t2\<lparr>sm_seed_locals := []\<rparr>) = idle n (t1\<lparr>sm_seed_locals := []\<rparr>)" by blast
  note P = pass_okD [OF mf(1)]
  have len: "length (sm_node_vec s1) \<le> 2 ^ 32" using distinct_below [OF P(4,5)] P(1) by (simp add: MAX_NODES_def)
  have ein: "edges_in (graph_edge csr cfg) (sm_node_vec s2) E" unfolding two(7) by (rule typed_edges_in [OF two(5) P(4) len G(3)])
  have nt: "\<not> temporal \<longrightarrow> typed_edges csr cfg None None (sm_node_vec s2) E"
    using two(5,7) one(4) tr by (auto simp: hopped_def time_bounds_def)
  have dir: "length E = sum_list (map snd recs)" if "sc_subgraph_type cfg = Directional"
  proof -
    have "length E = length (sm_edge_src s1)" using two(4,6) that by (simp add: has_edges_def)
    then show ?thesis using one(4) e by (simp add: hopped_def)
  qed
  have "idle (cv_num_nodes csr) (s2\<lparr>sm_seed_locals := []\<rparr>)" "idle (cv_num_nodes csr) (t2\<lparr>sm_seed_locals := []\<rparr>)"
    using two(9,10) pass_idle [OF mf(1)] pass_idle [OF mf(2)] by simp_all
  moreover from this have "passed csr cfg temporal s recs E s2"
    using one(4,5) two(4,7,8) ein nt dir P(4,5) by (simp add: passed_def hopped_def)
  ultimately show ?thesis using one(1,2) two(1-3)
    by (intro exI [of _ recs] exI [of _ E] exI [of _ s2] exI [of _ t2]) (simp add: pass_body_def)
qed

subsection \<open>The shared call\<close>

definition subgraph_edges :: "sampling_config \<Rightarrow> ltriple list \<Rightarrow> u32 list \<Rightarrow> subgraph \<Rightarrow> bool" where
  "subgraph_edges cfg E ls sg \<longleftrightarrow> sg_locals sg = Recorded (map fst E) (map (fst \<circ> snd) E) ls \<and>
     sg_edge_src sg = map (\<lambda>x. sg_nodes sg ! unat (fst x)) E \<and> sg_edge_dst sg = map (\<lambda>x. sg_nodes sg ! unat (fst (snd x))) E \<and>
     sg_edge_ids sg = (if sc_track_edge_ids cfg then map (snd \<circ> snd) E else [])"

definition subgraph_ok :: "csr_view \<Rightarrow> sampling_config \<Rightarrow> node_id list \<Rightarrow> ltriple list \<Rightarrow> subgraph \<Rightarrow> bool" where
  "subgraph_ok csr cfg seeds E sg \<longleftrightarrow> sg_seeds sg = seeds \<and> (\<forall>v\<in>set (sg_nodes sg). unat v < cv_num_nodes csr) \<and>
     (\<exists>ls. subgraph_edges cfg E ls sg \<and> list_all2 (placed (sg_nodes sg)) seeds ls) \<and> edges_in (graph_edge csr cfg) (sg_nodes sg) E \<and>
     length (sg_num_sampled_nodes sg) = Suc (length (sc_fanout cfg)) \<and> length (sg_num_sampled_edges sg) = length (sc_fanout cfg) \<and>
     sum_list (sg_num_sampled_nodes sg) = length (sg_nodes sg) \<and>
     (sc_subgraph_type cfg = Directional \<longrightarrow> sum_list (sg_num_sampled_edges sg) = length E)"

lemma inner_twins:
  assumes ge: "graph_env g csr env" and i: "idle (g_num_nodes g) s" "idle (g_num_nodes g) t" "sm_rng s = sm_rng t"
    and seeds: "\<forall>v\<in>set seeds. unat v < g_num_nodes g" and tms: "\<forall>ts. tms = Some ts \<longrightarrow> length ts = length seeds"
  shows "\<exists>sg E s' t'. sample_neighbors_inner env cfg g seeds tms s = Some (sg, s') \<and>
    sample_neighbors_inner env cfg g seeds tms t = Some (sg, t') \<and> idle (g_num_nodes g) s' \<and> idle (g_num_nodes g) t' \<and> sm_rng s' = sm_rng t' \<and>
    subgraph_ok csr cfg seeds E sg \<and> distinct (sg_nodes sg) \<and> sg_batch sg = None \<and>
    (sc_temporal_strategy cfg = None \<longrightarrow> typed_edges csr cfg None None (sg_nodes sg) E)"
proof -
  have n: "cv_num_nodes csr = g_num_nodes g" "cv_num_nodes csr \<le> MAX_NODES" using ge by (simp_all add: graph_env_def)
  define temporal where "temporal \<longleftrightarrow> sc_temporal_strategy cfg \<noteq> None"
  let ?b = "\<lambda>u. (begin_pass temporal u)\<lparr>sm_seed_locals := []\<rparr>"
  note bp = begin_pass_mates [OF i(1,2)[folded n(1)] i(3) n(2), where b = temporal]
  have m0: "mates csr cfg (?b s) (?b t)" by (rule mates_seed_locals [OF bp(1)])
  have "\<forall>v\<in>set seeds. unat v < cv_num_nodes csr" "\<forall>ts. tms = Some ts \<longrightarrow> 0 + length seeds \<le> length ts" using seeds tms n(1) by simp_all
  from register_seeds_twins [OF m0 this] obtain ls s1 t1 where one: "register_seeds tms 0 seeds (?b s) = Some s1"
    "register_seeds tms 0 seeds (?b t) = Some t1" "mates csr cfg s1 t1" "kept (?b s) s1" "sm_seed_locals s1 = ls"
    "list_all2 (placed (sm_node_vec s1)) seeds ls" by auto
  have tr: "sm_track_times s1 = temporal" "sm_edge_src s1 = []" using one(4) bp(3,5) by (simp_all add: kept_def)
  from pass_body_twins [OF ge one(3) tr] obtain recs E s2 t2 where two: "pass_body env cfg g temporal s1 = Some (recs, s2)"
    "pass_body env cfg g temporal t1 = Some (recs, t2)" "visible s2 = visible t2" "passed csr cfg temporal s1 recs E s2"
    "idle (cv_num_nodes csr) (t2\<lparr>sm_seed_locals := []\<rparr>)" by blast
  have nv: "sm_node_vec t1 = sm_node_vec s1" using mates_facts(3) [OF one(3)] by (simp add: visible_def)
  define sub where "sub k u = \<lparr>sg_nodes = sm_node_vec u, sg_edge_src = sm_edge_src u, sg_edge_dst = sm_edge_dst u, sg_edge_ids = sm_edge_ids u,
            sg_seeds = seeds, sg_num_sampled_nodes = k # map fst recs, sg_num_sampled_edges = map snd recs,
            sg_locals = Recorded (sm_src_local u) (sm_dst_local u) (sm_seed_locals u), sg_batch = None\<rparr>" for k and u :: sampler
  define taken_out where "taken_out u = u\<lparr>sm_node_vec := [], sm_edge_src := [], sm_edge_dst := [], sm_edge_ids := [], sm_src_local := [],
             sm_dst_local := [], sm_seed_locals := []\<rparr>" for u :: sampler
  have run: "sample_neighbors_inner env cfg g seeds tms u = Some (sub (length (sm_node_vec u1)) u2, taken_out u2)"
    if r: "register_seeds tms 0 seeds (?b u) = Some u1" "pass_body env cfg g temporal u1 = Some (recs, u2)" for u u1 u2
  proof -
    obtain u' where u': "run_hops env cfg g temporal u1 = Some (recs, u')" "apply_subgraph_type cfg g u' = Some u2"
      using r(2) by (auto simp: pass_body_def split: bind_splits)
    show ?thesis unfolding sample_neighbors_inner_def Let_def temporal_def [symmetric] r(1) Option.bind.simps u' prod.case sub_def taken_out_def ..
  qed
  have sub: "sub k s2 = sub k t2" for k using two(3) by (simp add: sub_def visible_def)
  have idl: "idle (g_num_nodes g) (taken_out u)" if "idle (cv_num_nodes csr) (u\<lparr>sm_seed_locals := []\<rparr>)" for u
    using that n(1) by (simp add: idle_def taken_out_def)
  have pl: "list_all2 (placed (sm_node_vec s2)) seeds ls"
  proof -
    obtain xs where xs: "sm_node_vec s2 = sm_node_vec s1 @ xs" using two(4) by (auto simp: passed_def)
    show ?thesis unfolding xs by (rule list_all2_mono [OF one(6)]) (rule placed_append)
  qed
  have "subgraph_ok csr cfg seeds E (sub (length (sm_node_vec s1)) s2)"
  proof -
    obtain xs where xs: "sm_node_vec s2 = sm_node_vec s1 @ xs" "length xs = sum_list (map fst recs)" using two(4) by (auto simp: passed_def)
    have he: "has_edges cfg E s2" and ls: "sm_seed_locals s2 = ls" using two(4) one(5) by (simp_all add: passed_def)
    have se: "subgraph_edges cfg E ls (sub k s2)" for k using he ls by (simp add: subgraph_edges_def has_edges_def sub_def)
    have nodes: "sg_nodes (sub k s2) = sm_node_vec s2" for k by (simp add: sub_def)
    have "sum_list (sg_num_sampled_nodes (sub (length (sm_node_vec s1)) s2)) = length (sm_node_vec s2)" using xs by (simp add: sub_def)
    moreover have "length (sg_num_sampled_nodes (sub k s2)) = Suc (length (sc_fanout cfg))" "length (sg_num_sampled_edges (sub k s2)) = length (sc_fanout cfg)"
      "sc_subgraph_type cfg = Directional \<longrightarrow> sum_list (sg_num_sampled_edges (sub k s2)) = length E" "sg_seeds (sub k s2) = seeds" for k
      using two(4) by (simp_all add: sub_def passed_def)
    moreover have "\<forall>v\<in>set (sm_node_vec s2). unat v < cv_num_nodes csr" "edges_in (graph_edge csr cfg) (sm_node_vec s2) E"
      using two(4) by (simp_all add: passed_def)
    ultimately show ?thesis unfolding subgraph_ok_def nodes using se pl by blast
  qed
  moreover have "sm_rng (taken_out s2) = sm_rng (taken_out t2)" using two(3) by (simp add: taken_out_def visible_def)
  moreover have "idle (g_num_nodes g) (taken_out s2)" "idle (g_num_nodes g) (taken_out t2)" using idl two(4,5) by (simp_all add: passed_def)
  moreover have "distinct (sg_nodes (sub (length (sm_node_vec s1)) s2))" "sg_batch (sub (length (sm_node_vec s1)) s2) = None"
    "sc_temporal_strategy cfg = None \<longrightarrow> typed_edges csr cfg None None (sg_nodes (sub (length (sm_node_vec s1)) s2)) E"
    using two(4) by (simp_all add: sub_def passed_def temporal_def)
  ultimately show ?thesis using run [OF one(1) two(1)] run [OF one(2) two(2), unfolded nv sub [symmetric]]
    by (intro exI [of _ "sub (length (sm_node_vec s1)) s2"] exI [of _ E] exI [of _ "taken_out s2"] exI [of _ "taken_out t2"]) simp
qed

end
