(* ===== verification/Sampler_Disjoint.thy ===== *)
theory Sampler_Disjoint
  imports Sampler_Calls
begin

section \<open>The disjoint call\<close>

text \<open>
  One block per seed, concatenated with shifted indices. As long as the nodes fit the 32-bit
  indices, the concatenation is consistent (\<open>blocks_ok\<close>).
\<close>

definition shift_by :: "nat \<Rightarrow> ltriple \<Rightarrow> ltriple" where
  "shift_by k x = (fst x + of_nat k, fst (snd x) + of_nat k, snd (snd x))"

definition blocks_ok :: "csr_view \<Rightarrow> sampling_config \<Rightarrow> node_id list \<Rightarrow> ltriple list \<Rightarrow> blocks \<Rightarrow> bool" where
  "blocks_ok csr cfg seeds E b \<longleftrightarrow> (\<forall>v\<in>set (bl_nodes b). unat v < cv_num_nodes csr) \<and>
     bl_src_local b = map fst E \<and> bl_dst_local b = map (fst \<circ> snd) E \<and>
     bl_edge_src b = map (\<lambda>x. bl_nodes b ! unat (fst x)) E \<and> bl_edge_dst b = map (\<lambda>x. bl_nodes b ! unat (fst (snd x))) E \<and>
     bl_edge_ids b = (if sc_track_edge_ids cfg then map (snd \<circ> snd) E else []) \<and>
     edges_in (graph_edge csr cfg) (bl_nodes b) E \<and> list_all2 (placed (bl_nodes b)) seeds (bl_seed_locals b) \<and>
     length (bl_new_nodes b) = length (sc_fanout cfg) \<and> length (bl_new_edges b) = length (sc_fanout cfg) \<and>
     length seeds + sum_list (bl_new_nodes b) = length (bl_nodes b) \<and>
     (sc_subgraph_type cfg = Directional \<longrightarrow> sum_list (bl_new_edges b) = length E)"

definition join_block :: "nat \<Rightarrow> u32 \<Rightarrow> (nat \<times> nat) list \<Rightarrow> sampler \<Rightarrow> blocks \<Rightarrow> blocks" where
  "join_block seed_idx seed_local recs s b = (let node_offset = of_nat (length (bl_nodes b)) in
     b\<lparr>bl_seed_locals := bl_seed_locals b @ [node_offset + seed_local],
               bl_src_local := bl_src_local b @ map (\<lambda>l. l + node_offset) (sm_src_local s),
               bl_dst_local := bl_dst_local b @ map (\<lambda>l. l + node_offset) (sm_dst_local s),
               bl_nodes := bl_nodes b @ sm_node_vec s, bl_edge_src := bl_edge_src b @ sm_edge_src s,
               bl_edge_dst := bl_edge_dst b @ sm_edge_dst s, bl_edge_ids := bl_edge_ids b @ sm_edge_ids s,
               bl_batch := bl_batch b @ replicate (length (sm_node_vec s)) (of_nat seed_idx),
               bl_new_nodes := map2 (+) (bl_new_nodes b) (map fst recs), bl_new_edges := map2 (+) (bl_new_edges b) (map snd recs)\<rparr>)"

lemma sum_list_map2: "length xs = length ys \<Longrightarrow> sum_list (map2 (+) xs ys) = sum_list xs + sum_list (ys :: nat list)"
  by (induction xs ys rule: list_induct2) simp_all

lemma shifted:
  assumes "unat (l :: u32) < m" and "k + m \<le> 2 ^ 32"
  shows "unat (l + of_nat k) = k + unat l"
proof -
  have "of_nat (unat l + k) = l + (of_nat k :: u32)" by simp
  moreover have "unat (of_nat (unat l + k) :: u32) = unat l + k"
    using assms by (subst unsigned_of_nat) (simp add: take_bit_nat_eq_self)
  ultimately show ?thesis by simp
qed

lemma join_block_ok:
  assumes b: "blocks_ok csr cfg seeds E b" and p: "passed csr cfg temporal s recs E' s'" and s: "sm_node_vec s = [seed]"
    and pl: "placed [seed] seed l" and fit: "length (bl_nodes b) + length (sm_node_vec s') \<le> 2 ^ 32"
  shows "blocks_ok csr cfg (seeds @ [seed]) (E @ map (shift_by (length (bl_nodes b))) E') (join_block i l recs s' b)"
proof -
  let ?k = "length (bl_nodes b)" and ?N = "bl_nodes b @ sm_node_vec s'"
  note B = b [unfolded blocks_ok_def]
  have he: "has_edges cfg E' s'" and ein: "edges_in (graph_edge csr cfg) (sm_node_vec s') E'" using p by (simp_all add: passed_def)
  obtain xs where xs: "sm_node_vec s' = seed # xs" "length xs = sum_list (map fst recs)" using p s by (auto simp: passed_def)
  have lens: "length recs = length (sc_fanout cfg)" using p by (simp add: passed_def)
  have old: "unat (fst x) < ?k \<and> unat (fst (snd x)) < ?k" if "x \<in> set E" for x using B that by (simp add: edges_in_def)
  have new: "unat (fst (shift_by ?k x)) = ?k + unat (fst x)" "unat (fst (snd (shift_by ?k x))) = ?k + unat (fst (snd x))"
    "snd (snd (shift_by ?k x)) = snd (snd x)" if "x \<in> set E'" for x
    using that ein shifted [OF _ fit] by (auto simp: shift_by_def edges_in_def)
  have nodes: "bl_nodes (join_block i l recs s' b) = ?N" by (simp add: join_block_def Let_def)
  have "\<forall>v\<in>set ?N. unat v < cv_num_nodes csr" using B p by (auto simp: passed_def)
  moreover have "bl_src_local (join_block i l recs s' b) = map fst (E @ map (shift_by ?k) E')"
    "bl_dst_local (join_block i l recs s' b) = map (fst \<circ> snd) (E @ map (shift_by ?k) E')"
    "bl_edge_ids (join_block i l recs s' b) = (if sc_track_edge_ids cfg then map (snd \<circ> snd) (E @ map (shift_by ?k) E') else [])"
    using B he by (simp_all add: join_block_def Let_def has_edges_def shift_by_def)
  moreover have "bl_edge_src (join_block i l recs s' b) = map (\<lambda>x. ?N ! unat (fst x)) (E @ map (shift_by ?k) E')"
    "bl_edge_dst (join_block i l recs s' b) = map (\<lambda>x. ?N ! unat (fst (snd x))) (E @ map (shift_by ?k) E')"
    using B he old new by (simp_all add: join_block_def Let_def has_edges_def nth_append)
  moreover have "edges_in (graph_edge csr cfg) ?N (E @ map (shift_by ?k) E')"
    using B ein old new by (auto simp: edges_in_def nth_append)
  moreover have "list_all2 (placed ?N) (seeds @ [seed]) (bl_seed_locals (join_block i l recs s' b))"
  proof -
    have "l = 0" using pl by (simp add: placed_def unat_eq_0)
    then have "unat (of_nat ?k + l) = ?k" using fit xs(1) by (simp add: unsigned_of_nat take_bit_nat_eq_self)
    then have "placed ?N seed (of_nat ?k + l)" by (simp add: placed_def xs(1))
    moreover have "list_all2 (placed ?N) seeds (bl_seed_locals b)" using B by (auto intro: list_all2_mono placed_append)
    ultimately show ?thesis by (simp add: join_block_def Let_def list_all2_appendI)
  qed
  moreover have "length (bl_new_nodes (join_block i l recs s' b)) = length (sc_fanout cfg)"
    "length (bl_new_edges (join_block i l recs s' b)) = length (sc_fanout cfg)" using B lens by (simp_all add: join_block_def Let_def)
  moreover have "length (seeds @ [seed]) + sum_list (bl_new_nodes (join_block i l recs s' b)) = length ?N"
    using B lens xs sum_list_map2 [of "bl_new_nodes b" "map fst recs"] by (simp add: join_block_def Let_def)
  moreover have "sc_subgraph_type cfg = Directional \<longrightarrow> sum_list (bl_new_edges (join_block i l recs s' b)) = length (E @ map (shift_by ?k) E')"
    using B lens p sum_list_map2 [of "bl_new_edges b" "map snd recs"] by (simp add: join_block_def Let_def passed_def)
  ultimately show ?thesis unfolding blocks_ok_def nodes by blast
qed

lemma blocks_empty_ok: "blocks_ok csr cfg [] [] (blocks_empty (length (sc_fanout cfg)))"
  by (simp add: blocks_ok_def blocks_empty_def edges_in_def)

lemma disjoint_loop_twins:
  assumes ge: "graph_env g csr env"
  shows "idle (g_num_nodes g) s \<Longrightarrow> idle (g_num_nodes g) t \<Longrightarrow> sm_rng s = sm_rng t \<Longrightarrow> \<forall>v\<in>set seeds. unat v < g_num_nodes g \<Longrightarrow>
    \<forall>ts. tms = Some ts \<longrightarrow> i + length seeds \<le> length ts \<Longrightarrow>
    \<exists>b' s' t'. disjoint_loop env cfg g temporal tms i seeds b s = Some (b', s') \<and> disjoint_loop env cfg g temporal tms i seeds b t = Some (b', t') \<and>
      idle (g_num_nodes g) s' \<and> idle (g_num_nodes g) t' \<and> sm_rng s' = sm_rng t' \<and> length (bl_nodes b) \<le> length (bl_nodes b') \<and>
      (\<forall>ps E. length (bl_nodes b') \<le> 2 ^ 32 \<and> blocks_ok csr cfg ps E b \<longrightarrow> (\<exists>E'. blocks_ok csr cfg (ps @ seeds) E' b'))"
proof (induction seeds arbitrary: i b s t)
  case Nil
  then show ?case by auto
next
  case (Cons seed seeds)
  have n: "cv_num_nodes csr = g_num_nodes g" "cv_num_nodes csr \<le> MAX_NODES" using ge by (simp_all add: graph_env_def)
  define time where "time = (case tms of None \<Rightarrow> f64_infinity | Some ts \<Rightarrow> ts ! i)"
  have tm: "(case tms of None \<Rightarrow> Some f64_infinity | Some ts \<Rightarrow> nth_opt ts i) = Some time"
    using Cons.prems(5) by (auto simp: time_def nth_opt_def split: option.split)
  note bp = begin_pass_mates [OF Cons.prems(1,2)[folded n(1)] Cons.prems(3) n(2), where b = temporal]
  have v: "unat seed < cv_num_nodes csr" using Cons.prems(4) n(1) by simp
  from register_twins [OF bp(1) v] obtain l new s1 t1 where one: "register seed time (begin_pass temporal s) = Some ((l, new), s1)"
    "register seed time (begin_pass temporal t) = Some ((l, new), t1)" "mates csr cfg s1 t1" "placed (sm_node_vec s1) seed l"
    "kept (begin_pass temporal s) s1" "sm_seed_locals s1 = []" "sm_node_vec s1 = (if new then [seed] else [])"
    unfolding bp(2,4) append_Nil by blast
  have nv: "sm_node_vec s1 = [seed]" using one(4,7) by (auto simp: placed_def split: if_splits)
  let ?f = "\<lambda>u. u\<lparr>sm_frontier := sm_frontier u @ [(seed, l)]\<rparr>"
  have m1: "mates csr cfg (?f s1) (?f t1)" by (rule mates_frontier [OF one(3,4)])
  have tr: "sm_track_times (?f s1) = temporal" "sm_edge_src (?f s1) = []" using one(5) bp(3,5) by (simp_all add: kept_def)
  from pass_body_twins [OF ge m1 tr] obtain recs E' s2 t2 where two: "pass_body env cfg g temporal (?f s1) = Some (recs, s2)"
    "pass_body env cfg g temporal (?f t1) = Some (recs, t2)" "visible s2 = visible t2" "passed csr cfg temporal (?f s1) recs E' s2"
    "idle (cv_num_nodes csr) (t2\<lparr>sm_seed_locals := []\<rparr>)" by blast
  have sl: "sm_seed_locals s2 = []" "sm_seed_locals t2 = []" using two(3,4) one(6) by (simp_all add: passed_def visible_def)
  have i2: "idle (g_num_nodes g) s2" "idle (g_num_nodes g) t2" using two(4,5) sl n(1) by (simp_all add: passed_def idle_def)
  have rng: "sm_rng s2 = sm_rng t2" using two(3) by (simp add: visible_def)
  have jb: "join_block i l recs t2 b = join_block i l recs s2 b" using two(3) by (simp add: join_block_def visible_def)
  have run: "disjoint_loop env cfg g temporal tms i (seed # seeds) b u =
      disjoint_loop env cfg g temporal tms (Suc i) seeds (join_block i l recs u2 b) u2"
    if r: "register seed time (begin_pass temporal u) = Some ((l, new), u1)" "pass_body env cfg g temporal (?f u1) = Some (recs, u2)" for u u1 u2
  proof -
    obtain u' where u': "run_hops env cfg g temporal (?f u1) = Some (recs, u')" "apply_subgraph_type cfg g u' = Some u2"
      using r(2) by (auto simp: pass_body_def split: bind_splits)
    show ?thesis unfolding disjoint_loop.simps Let_def tm Option.bind.simps r(1) prod.case u' join_block_def ..
  qed
  have ts: "\<forall>ts. tms = Some ts \<longrightarrow> Suc i + length seeds \<le> length ts" and vs: "\<forall>v\<in>set seeds. unat v < g_num_nodes g"
    using Cons.prems(4,5) by auto
  obtain b' s' t' where rest: "disjoint_loop env cfg g temporal tms (Suc i) seeds (join_block i l recs s2 b) s2 = Some (b', s')"
    "disjoint_loop env cfg g temporal tms (Suc i) seeds (join_block i l recs s2 b) t2 = Some (b', t')"
    "idle (g_num_nodes g) s'" "idle (g_num_nodes g) t'" "sm_rng s' = sm_rng t'" "length (bl_nodes (join_block i l recs s2 b)) \<le> length (bl_nodes b')"
    "\<forall>ps E. length (bl_nodes b') \<le> 2 ^ 32 \<and> blocks_ok csr cfg ps E (join_block i l recs s2 b) \<longrightarrow> (\<exists>E'. blocks_ok csr cfg (ps @ seeds) E' b')"
    using Cons.IH [OF i2 rng vs ts] by blast
  have grow: "length (bl_nodes (join_block i l recs s2 b)) = length (bl_nodes b) + length (sm_node_vec s2)" by (simp add: join_block_def Let_def)
  have ok: "\<exists>E'. blocks_ok csr cfg (ps @ seed # seeds) E' b'" if le: "length (bl_nodes b') \<le> 2 ^ 32" and bk: "blocks_ok csr cfg ps E b" for ps E
  proof -
    have "length (bl_nodes b) + length (sm_node_vec s2) \<le> 2 ^ 32" using le rest(6) grow by simp
    moreover have "sm_node_vec (?f s1) = [seed]" "placed [seed] seed l" using nv one(4) by simp_all
    ultimately have "blocks_ok csr cfg (ps @ [seed]) (E @ map (shift_by (length (bl_nodes b))) E') (join_block i l recs s2 b)"
      by (intro join_block_ok [OF bk two(4)])
    then show ?thesis using rest(7) le by fastforce
  qed
  have "disjoint_loop env cfg g temporal tms i (seed # seeds) b s = Some (b', s')"
    "disjoint_loop env cfg g temporal tms i (seed # seeds) b t = Some (b', t')"
    unfolding run [OF one(1) two(1)] run [OF one(2) two(2), unfolded jb] by (rule rest(1), rule rest(2))
  moreover have "length (bl_nodes b) \<le> length (bl_nodes b')" using rest(6) grow by simp
  ultimately show ?case using rest(3-5) ok by blast
qed

lemma disjoint_twins:
  assumes ge: "graph_env g csr env" and i: "idle (g_num_nodes g) s" "idle (g_num_nodes g) t" "sm_rng s = sm_rng t"
    and seeds: "\<forall>v\<in>set seeds. unat v < g_num_nodes g" and tms: "\<forall>ts. tms = Some ts \<longrightarrow> length ts = length seeds"
  shows "\<exists>sg s' t'. sample_neighbors_disjoint env cfg g seeds tms s = Some (sg, s') \<and>
    sample_neighbors_disjoint env cfg g seeds tms t = Some (sg, t') \<and> idle (g_num_nodes g) s' \<and> idle (g_num_nodes g) t' \<and> sm_rng s' = sm_rng t' \<and>
    (length (sg_nodes sg) \<le> 2 ^ 32 \<longrightarrow> (\<exists>E. subgraph_ok csr cfg seeds E sg))"
proof -
  define b where "b = blocks_empty (length (sc_fanout cfg))"
  define temporal where "temporal \<longleftrightarrow> sc_temporal_strategy cfg \<noteq> None"
  have "\<forall>ts. tms = Some ts \<longrightarrow> 0 + length seeds \<le> length ts" using tms by simp
  from disjoint_loop_twins [OF ge i seeds this, of cfg temporal b] obtain b' s' t' where
    r: "disjoint_loop env cfg g temporal tms 0 seeds b s = Some (b', s')" "disjoint_loop env cfg g temporal tms 0 seeds b t = Some (b', t')"
      "idle (g_num_nodes g) s'" "idle (g_num_nodes g) t'" "sm_rng s' = sm_rng t'"
    and ok: "\<forall>ps E. length (bl_nodes b') \<le> 2 ^ 32 \<and> blocks_ok csr cfg ps E b \<longrightarrow> (\<exists>E'. blocks_ok csr cfg (ps @ seeds) E' b')" by blast
  let ?sg = "\<lparr>sg_nodes = bl_nodes b', sg_edge_src = bl_edge_src b', sg_edge_dst = bl_edge_dst b', sg_edge_ids = bl_edge_ids b',
            sg_seeds = seeds, sg_num_sampled_nodes = length seeds # bl_new_nodes b', sg_num_sampled_edges = bl_new_edges b',
            sg_locals = Recorded (bl_src_local b') (bl_dst_local b') (bl_seed_locals b'), sg_batch = Some (bl_batch b')\<rparr>"
  have "\<exists>E. subgraph_ok csr cfg seeds E ?sg" if fits: "length (bl_nodes b') \<le> 2 ^ 32"
  proof -
    have "blocks_ok csr cfg [] [] b" unfolding b_def by (rule blocks_empty_ok)
    then obtain E where "blocks_ok csr cfg ([] @ seeds) E b'" using ok fits by blast
    then show ?thesis by (intro exI [of _ E]) (simp add: blocks_ok_def subgraph_ok_def subgraph_edges_def)
  qed
  moreover have "sample_neighbors_disjoint env cfg g seeds tms u = Some (?sg, u')" if "disjoint_loop env cfg g temporal tms 0 seeds b u = Some (b', u')" for u u'
    using that tms by (simp add: sample_neighbors_disjoint_def temporal_def b_def)
  ultimately show ?thesis using r by (intro exI [of _ ?sg] exI [of _ s'] exI [of _ t']) simp
qed

end
