(* ===== verification/Sampler_Properties.thy ===== *)
theory Sampler_Properties
  imports Sampler_Disjoint
begin

section \<open>Soundness and determinism of sampling\<close>

text \<open>
  The checked entry point on any two idle samplers, then the batch sampler against a serial
  reference that uses a new sampler per batch.
\<close>

definition shared_ok :: "csr_view \<Rightarrow> sampling_config \<Rightarrow> node_id list \<Rightarrow> subgraph \<Rightarrow> bool" where
  "shared_ok csr cfg ids sg \<longleftrightarrow> distinct (sg_nodes sg) \<and> sg_batch sg = None \<and> (\<exists>E. subgraph_ok csr cfg ids E sg \<and>
     (sc_temporal_strategy cfg = None \<longrightarrow> typed_edges csr cfg None None (sg_nodes sg) E))"

definition sampled_ok :: "csr_view \<Rightarrow> sampling_config \<Rightarrow> node_id list \<Rightarrow> subgraph \<Rightarrow> bool" where
  "sampled_ok csr cfg ids sg \<longleftrightarrow> (if sc_disjoint cfg then length (sg_nodes sg) \<le> 2 ^ 32 \<longrightarrow> (\<exists>E. subgraph_ok csr cfg ids E sg)
     else shared_ok csr cfg ids sg)"

definition sample_refuses :: "sampling_config \<Rightarrow> graph \<Rightarrow> seeds \<Rightarrow> f64_bits list option \<Rightarrow> bool" where
  "sample_refuses cfg g sd tms \<longleftrightarrow> g_num_nodes g < sd_num_nodes sd \<or>
     (\<exists>ts. tms = Some ts \<and> (length ts \<noteq> length (sd_ids sd) \<or> sc_temporal_strategy cfg = None)) \<or>
     (sc_temporal_strategy cfg \<noteq> None \<and> \<not> has_timestamps g)"

definition seeds_ok :: "seeds \<Rightarrow> bool" where
  "seeds_ok sd \<longleftrightarrow> (\<forall>v\<in>set (sd_ids sd). unat v < sd_num_nodes sd)"

lemma position_from_None: "position_from n i xs = None \<longleftrightarrow> (\<forall>x\<in>set xs. unat x < n)"
  by (induction xs arbitrary: i) auto

lemma seeds_new_ok: "seeds_new ids n = Inr sd \<Longrightarrow> seeds_ok sd \<and> sd_ids sd = ids \<and> sd_num_nodes sd = n"
  by (auto simp: seeds_new_def seeds_ok_def position_from_None split: option.splits)

lemma sample_checked_twins:
  assumes ge: "graph_env g csr env" and i: "idle (g_num_nodes g) s" "idle (g_num_nodes g) t" "sm_rng s = sm_rng t"
    and sd: "\<forall>v\<in>set (sd_ids sd). unat v < g_num_nodes g" and tms: "\<forall>ts. tms = Some ts \<longrightarrow> length ts = length (sd_ids sd)"
  shows "\<exists>r s' t'. sample_checked env cfg g sd tms s = Some (r, s') \<and> sample_checked env cfg g sd tms t = Some (r, t') \<and>
    idle (g_num_nodes g) s' \<and> idle (g_num_nodes g) t' \<and> sm_rng s' = sm_rng t' \<and>
    (isl r \<longleftrightarrow> sc_temporal_strategy cfg \<noteq> None \<and> \<not> has_timestamps g) \<and> (\<forall>sg. r = Inr sg \<longrightarrow> sampled_ok csr cfg (sd_ids sd) sg)"
proof (cases "sc_temporal_strategy cfg \<noteq> None \<and> \<not> has_timestamps g")
  case True
  then show ?thesis using i by (auto simp: sample_checked_def)
next
  case False
  show ?thesis
  proof (cases "sc_disjoint cfg")
    case True
    from disjoint_twins [OF ge i sd tms, of cfg] obtain sg s' t' where r: "sample_neighbors_disjoint env cfg g (sd_ids sd) tms s = Some (sg, s')"
      "sample_neighbors_disjoint env cfg g (sd_ids sd) tms t = Some (sg, t')" "idle (g_num_nodes g) s'" "idle (g_num_nodes g) t'"
      "sm_rng s' = sm_rng t'" "length (sg_nodes sg) \<le> 2 ^ 32 \<longrightarrow> (\<exists>E. subgraph_ok csr cfg (sd_ids sd) E sg)" by blast
    have "sampled_ok csr cfg (sd_ids sd) sg" using r(6) True by (simp add: sampled_ok_def)
    then show ?thesis using r(1-5) True False by (auto simp: sample_checked_def)
  next
    case no: False
    from inner_twins [OF ge i sd tms] obtain sg E s' t' where r: "sample_neighbors_inner env cfg g (sd_ids sd) tms s = Some (sg, s')"
      "sample_neighbors_inner env cfg g (sd_ids sd) tms t = Some (sg, t')" "idle (g_num_nodes g) s'" "idle (g_num_nodes g) t'"
      "sm_rng s' = sm_rng t'" "subgraph_ok csr cfg (sd_ids sd) E sg" "distinct (sg_nodes sg)" "sg_batch sg = None"
      "sc_temporal_strategy cfg = None \<longrightarrow> typed_edges csr cfg None None (sg_nodes sg) E" by blast
    have "sampled_ok csr cfg (sd_ids sd) sg" using r(6-9) no unfolding sampled_ok_def shared_ok_def by auto
    then show ?thesis using r(1-5) no False by (auto simp: sample_checked_def)
  qed
qed

lemma sample_twins:
  assumes ge: "graph_env g csr env" and i: "idle (g_num_nodes g) s" "idle (g_num_nodes g) t" "sm_rng s = sm_rng t" and sd: "seeds_ok sd"
  shows "\<exists>r s' t'. sample env cfg g sd tms s = Some (r, s') \<and> sample env cfg g sd tms t = Some (r, t') \<and>
    idle (g_num_nodes g) s' \<and> idle (g_num_nodes g) t' \<and> sm_rng s' = sm_rng t' \<and>
    (isl r \<longleftrightarrow> sample_refuses cfg g sd tms) \<and> (\<forall>sg. r = Inr sg \<longrightarrow> sampled_ok csr cfg (sd_ids sd) sg)"
proof (cases "g_num_nodes g < sd_num_nodes sd \<or> (\<exists>ts. tms = Some ts \<and> (length ts \<noteq> length (sd_ids sd) \<or> sc_temporal_strategy cfg = None))")
  case True
  define e where "e = (if g_num_nodes g < sd_num_nodes sd then SeedsExceedGraph (sd_num_nodes sd) (g_num_nodes g)
     else case tms of Some ts \<Rightarrow> if length ts \<noteq> length (sd_ids sd) then TimesLengthMismatch (length (sd_ids sd)) (length ts) else StrategyMissing
       | None \<Rightarrow> StrategyMissing)"
  have "sample env cfg g sd tms u = Some (Inl e, u)" for u
    using True by (cases tms) (auto simp: sample_def e_def)
  moreover have "sample_refuses cfg g sd tms" using True by (auto simp: sample_refuses_def)
  ultimately show ?thesis using i by auto
next
  case False
  have eq: "sample env cfg g sd tms u = sample_checked env cfg g sd tms u" for u
    using False by (auto simp: sample_def split: option.split)
  have ref: "sample_refuses cfg g sd tms \<longleftrightarrow> sc_temporal_strategy cfg \<noteq> None \<and> \<not> has_timestamps g"
    using False unfolding sample_refuses_def by blast
  have "\<forall>v\<in>set (sd_ids sd). unat v < g_num_nodes g" "\<forall>ts. tms = Some ts \<longrightarrow> length ts = length (sd_ids sd)"
    using False sd by (auto simp: seeds_ok_def)
  then show ?thesis unfolding eq ref by (rule sample_checked_twins [OF ge i])
qed

subsection \<open>Batches\<close>

definition lone_batch :: "sampler_env \<Rightarrow> sampling_config \<Rightarrow> graph \<Rightarrow> u64 \<Rightarrow> u64 \<Rightarrow> seeds \<Rightarrow> (sample_error + subgraph) option" where
  "lone_batch env cfg g base position sd = map_option fst (sample env cfg g sd None (reseed (batch_seed base position) (sampler_new g cfg 0)))"

fun serial_batches :: "sampler_env \<Rightarrow> sampling_config \<Rightarrow> graph \<Rightarrow> u64 \<Rightarrow> u64 \<Rightarrow> seeds list \<Rightarrow> (sample_error + subgraph list) option" where
  "serial_batches env cfg g base position [] = Some (Inr [])"
| "serial_batches env cfg g base position (sd # sds) = do {
     r \<leftarrow> lone_batch env cfg g base position sd;
     (case r of Inl e \<Rightarrow> Some (Inl e)
      | Inr sg \<Rightarrow> map_option (map_sum id ((#) sg)) (serial_batches env cfg g base (position + 1) sds)) }"

lemma serial_append: "serial_batches env cfg g base p xs = Some r \<Longrightarrow> serial_batches env cfg g base (p + of_nat (length xs)) ys = Some q \<Longrightarrow>
    serial_batches env cfg g base p (xs @ ys) = Some (case r of Inl e \<Rightarrow> Inl e | Inr sgs \<Rightarrow> map_sum id ((@) sgs) q)"
proof (induction xs arbitrary: p r)
  case Nil
  have "map_sum id ((@) []) q = q" by (cases q) simp_all
  then show ?case using Nil by auto
next
  case (Cons sd xs)
  obtain l where l: "lone_batch env cfg g base p sd = Some l" using Cons.prems(1) by (auto split: bind_splits)
  show ?case
  proof (cases l)
    case (Inl e)
    then have "r = Inl e" using Cons.prems(1) l by simp
    then show ?thesis using l Inl by simp
  next
    case (Inr sg)
    then obtain r' where r': "serial_batches env cfg g base (p + 1) xs = Some r'" "r = map_sum id ((#) sg) r'"
      using Cons.prems(1) l by auto
    have "serial_batches env cfg g base (p + 1 + of_nat (length xs)) ys = Some q" using Cons.prems(2) by (simp add: add.assoc)
    from Cons.IH [OF r'(1) this] show ?thesis using l Inr r'(2) by (cases r'; cases q) simp_all
  qed
qed

lemma sample_group_serial:
  assumes ge: "graph_env g csr env"
  shows "idle (g_num_nodes g) s \<Longrightarrow> \<forall>sd\<in>set sds. seeds_ok sd \<Longrightarrow>
    \<exists>r s'. sample_group env cfg g base p sds s = Some (r, s') \<and> serial_batches env cfg g base p sds = Some r \<and> idle (g_num_nodes g) s'"
proof (induction sds arbitrary: p s)
  case Nil
  then show ?case by simp
next
  case (Cons sd sds)
  have i: "idle (g_num_nodes g) (reseed (batch_seed base p) s)" "idle (g_num_nodes g) (reseed (batch_seed base p) (sampler_new g cfg 0))"
    using Cons.prems(1) sampler_new_idle by simp_all
  have rng: "sm_rng (reseed (batch_seed base p) s) = sm_rng (reseed (batch_seed base p) (sampler_new g cfg 0))" by (simp add: reseed_def)
  have sd: "seeds_ok sd" using Cons.prems(2) by simp
  from sample_twins [OF ge i rng sd, of cfg None] obtain r s1 where one: "sample env cfg g sd None (reseed (batch_seed base p) s) = Some (r, s1)"
    "lone_batch env cfg g base p sd = Some r" "idle (g_num_nodes g) s1" by (auto simp: lone_batch_def)
  show ?case
  proof (cases r)
    case (Inl e)
    then show ?thesis using one by simp
  next
    case (Inr sg)
    obtain q s2 where "sample_group env cfg g base (p + 1) sds s1 = Some (q, s2)" "serial_batches env cfg g base (p + 1) sds = Some q"
      "idle (g_num_nodes g) s2" using Cons.IH [OF one(3), of "p + 1"] Cons.prems(2) by auto
    then show ?thesis using one Inr by simp
  qed
qed

lemma chunks_of_empty [simp]: "chunks_of k [] = []"
  by (subst chunks_of.simps) simp

lemma sample_groups_serial:
  assumes ge: "graph_env g csr env" and k: "0 < k"
  shows "\<forall>s\<in>set pool. idle (g_num_nodes g) s \<Longrightarrow> \<forall>sd\<in>set batches. seeds_ok sd \<Longrightarrow> length batches \<le> k * length pool \<Longrightarrow>
    \<exists>rs pool'. sample_groups env cfg g base p k (chunks_of k batches) pool = Some (rs, pool') \<and>
      serial_batches env cfg g base p batches = Some (join_groups rs) \<and> (\<forall>s\<in>set pool'. idle (g_num_nodes g) s) \<and> length pool' = length pool"
proof (induction pool arbitrary: p batches)
  case Nil
  then show ?case by simp
next
  case (Cons s pool)
  show ?case
  proof (cases "batches = []")
    case True
    then show ?thesis using Cons.prems(1) by simp
  next
    case False
    have ch: "chunks_of k batches = take k batches # chunks_of k (drop k batches)" using False k by (subst chunks_of.simps) simp
    have "\<forall>sd\<in>set (take k batches). seeds_ok sd" using Cons.prems(2) by (meson in_set_takeD)
    then obtain r s1 where one: "sample_group env cfg g base p (take k batches) s = Some (r, s1)"
      "serial_batches env cfg g base p (take k batches) = Some r" "idle (g_num_nodes g) s1"
      using sample_group_serial [OF ge, of s "take k batches" cfg base p] Cons.prems(1) by auto
    have "\<forall>sd\<in>set (drop k batches). seeds_ok sd" using Cons.prems(2) by (meson in_set_dropD)
    moreover have "length (drop k batches) \<le> k * length pool" using Cons.prems(3) by simp
    ultimately obtain rs pool' where two: "sample_groups env cfg g base (p + of_nat k) k (chunks_of k (drop k batches)) pool = Some (rs, pool')"
      "serial_batches env cfg g base (p + of_nat k) (drop k batches) = Some (join_groups rs)" "\<forall>s\<in>set pool'. idle (g_num_nodes g) s"
      "length pool' = length pool" using Cons.IH [of "drop k batches" "p + of_nat k"] Cons.prems(1) by auto
    have tail: "serial_batches env cfg g base (p + of_nat (length (take k batches))) (drop k batches) = Some (join_groups rs)"
    proof (cases "k \<le> length batches")
      case True
      then show ?thesis using two(2) by simp
    next
      case False
      then show ?thesis using two(2) by simp
    qed
    have "join_groups (r # rs) = (case r of Inl e \<Rightarrow> Inl e | Inr sgs \<Rightarrow> map_sum id ((@) sgs) (join_groups rs))" by (cases r) simp_all
    then have "serial_batches env cfg g base p batches = Some (join_groups (r # rs))"
      using serial_append [OF one(2) tail] by simp
    then show ?thesis using one(1,3) two(1,3,4) by (simp add: ch)
  qed
qed

lemma chunk_size_covers: "length batches \<le> chunk_size threads (length batches) * max threads 1"
proof -
  define n where "n = length batches"
  define m where "m = max threads 1"
  have m: "0 < m" by (simp add: m_def)
  have "n + m - 1 < m * ((n + m - 1) div m) + m" using m by (metis add.commute dividend_less_times_div)
  then have "n \<le> ((n + m - 1) div m) * m" using m by (simp add: mult.commute)
  also have "\<dots> \<le> chunk_size threads n * m" by (simp add: chunk_size_def m_def Let_def)
  finally show ?thesis by (simp add: n_def m_def)
qed

subsection \<open>Properties\<close>

text \<open>C13 (safety). On a well-formed graph the checked entry point never panics, whatever the state an earlier
  pass left in the sampler. It refuses exactly the documented inputs, and what it returns is a consistent subgraph:
  every node is a vertex, the recorded local indices name the seeds and the endpoints of every edge, every edge is
  an edge of the graph with its id (or, for a bidirectional subgraph, the reverse of one), and the per-hop counts
  add up; the shared pass lists every node once.\<close>

theorem sample_sound:
  assumes "graph_typed g" and "g_num_edges g < 2 ^ 64" and "env_ok env" and "graph_csr_view g = Some csr"
    and "idle (g_num_nodes g) s" and "seeds_new ids n = Inr sd"
  shows "\<exists>r s'. sample env cfg g sd tms s = Some (r, s') \<and> idle (g_num_nodes g) s' \<and> (isl r \<longleftrightarrow> sample_refuses cfg g sd tms) \<and>
    (\<forall>sg. r = Inr sg \<longrightarrow> sampled_ok csr cfg ids sg)"
proof -
  obtain csr' where "graph_env g csr' env" using graph_envI [OF assms(1,2,3)] by blast
  then have ge: "graph_env g csr env" using assms(4) by (simp add: graph_env_def)
  show ?thesis using sample_twins [OF ge assms(5,5) refl, of sd cfg tms] seeds_new_ok [OF assms(6)] by blast
qed

definition mini_graph :: graph where
  "mini_graph = from_trusted_parts 2 2 [0, 1, 2] [1, 0] None"

definition mini_csr :: csr_view where
  "mini_csr = \<lparr>cv_offsets = [0, 1, 2], cv_edges = [1, 0], cv_num_nodes = 2, cv_num_edges = 2\<rparr>"

definition mini_env :: sampler_env where
  "mini_env = \<lparr>env_add = (+), env_mul = (*), env_div = (\<lambda>x _. x), env_neg_ln = id, env_of_f32 = ucast, env_of_u64 = id,
     env_partition_le = (\<lambda>xs _. length xs), env_select_latest = (\<lambda>_. rev), env_select_least = (\<lambda>_. rev)\<rparr>"

lemma mini_facts: "graph_typed mini_graph" "g_num_edges mini_graph = 2" "g_num_nodes mini_graph = 2" "env_ok mini_env"
  "graph_csr_view mini_graph = Some mini_csr"
proof -
  show "graph_typed mini_graph"
    by (simp add: mini_graph_def from_trusted_parts_def graph_typed_def offsets_slice_def edges_slice_def weights_slice_def MAX_NODES_def)
  show "g_num_edges mini_graph = 2" "g_num_nodes mini_graph = 2" by (simp_all add: mini_graph_def from_trusted_parts_def)
  show "env_ok mini_env" by (simp add: mini_env_def env_ok_def)
  show "graph_csr_view mini_graph = Some mini_csr"
    by (simp add: mini_graph_def mini_csr_def from_trusted_parts_def graph_csr_view_def offsets_slice_def edges_slice_def)
qed

lemma mini_seeds: "seeds_new [1] 2 = Inr \<lparr>sd_ids = [1], sd_num_nodes = 2\<rparr>"
  by (simp add: seeds_new_def)

theorem sample_sound_witness:
  "\<exists>sg s'. sample mini_env config_default mini_graph \<lparr>sd_ids = [1], sd_num_nodes = 2\<rparr> None (sampler_new mini_graph config_default 7) =
      Some (Inr sg, s') \<and> sampled_ok mini_csr config_default [1] sg"
proof -
  have "\<not> sample_refuses config_default mini_graph \<lparr>sd_ids = [1], sd_num_nodes = 2\<rparr> None"
    by (simp add: sample_refuses_def mini_facts config_default_def)
  moreover have "g_num_edges mini_graph < 2 ^ 64" by (simp add: mini_facts)
  from sample_sound [OF mini_facts(1) this mini_facts(4,5) sampler_new_idle [of mini_graph config_default 7] mini_seeds,
      where cfg = config_default and tms = None]
  obtain r s' where r: "sample mini_env config_default mini_graph \<lparr>sd_ids = [1], sd_num_nodes = 2\<rparr> None
      (sampler_new mini_graph config_default 7) = Some (r, s')"
    "isl r \<longleftrightarrow> sample_refuses config_default mini_graph \<lparr>sd_ids = [1], sd_num_nodes = 2\<rparr> None"
    "\<forall>sg. r = Inr sg \<longrightarrow> sampled_ok mini_csr config_default [1] sg" by blast
  ultimately show ?thesis by (cases r) auto
qed

text \<open>C12 (equivalence). The batch sampler gives what a serial run of one new sampler per batch gives, batch by batch
  from its place in the stream: the number of threads, the grouping into chunks, the pool of samplers and whatever
  earlier calls left in their dedup tables and stamps make no difference, and the first error in batch order wins.
  The samplers go back to the pool fit for the next call.\<close>

theorem batches_match_serial:
  assumes "graph_typed g" and "g_num_edges g < 2 ^ 64" and "env_ok env" and "\<forall>sd\<in>set batches. seeds_ok sd"
    and "\<forall>s\<in>set pool. idle (g_num_nodes g) s" and "max threads 1 \<le> length pool"
  shows "\<exists>r pool'. sample_batches env cfg g base next_batch threads batches pool = Some (r, next_batch + of_nat (length batches), pool') \<and>
    serial_batches env cfg g base next_batch batches = Some r \<and> (\<forall>s\<in>set pool'. idle (g_num_nodes g) s) \<and> length pool' = length pool"
proof -
  obtain csr where ge: "graph_env g csr env" using graph_envI [OF assms(1,2,3)] by blast
  let ?k = "chunk_size threads (length batches)"
  have k: "0 < ?k" by (simp add: chunk_size_def Let_def)
  have "length batches \<le> ?k * length pool"
    using chunk_size_covers [of batches threads] mult_le_mono2 [OF assms(6), of ?k] by (rule le_trans)
  from sample_groups_serial [OF ge k assms(5,4) this, of cfg base next_batch] obtain rs pool' where
    "sample_groups env cfg g base next_batch ?k (chunks_of ?k batches) pool = Some (rs, pool')"
    "serial_batches env cfg g base next_batch batches = Some (join_groups rs)" "\<forall>s\<in>set pool'. idle (g_num_nodes g) s"
    "length pool' = length pool" by blast
  then show ?thesis by (intro exI [of _ "join_groups rs"] exI [of _ pool']) (simp add: sample_batches_def Let_def)
qed

theorem batches_match_serial_witness:
  "\<exists>r pool'. sample_batches mini_env config_default mini_graph 5 9 2 [\<lparr>sd_ids = [1], sd_num_nodes = 2\<rparr>, \<lparr>sd_ids = [0, 1], sd_num_nodes = 2\<rparr>]
      [sampler_new mini_graph config_default 7, sampler_new mini_graph config_default 8] = Some (r, 11, pool') \<and>
    serial_batches mini_env config_default mini_graph 5 9 [\<lparr>sd_ids = [1], sd_num_nodes = 2\<rparr>, \<lparr>sd_ids = [0, 1], sd_num_nodes = 2\<rparr>] = Some r"
proof -
  let ?pool = "[sampler_new mini_graph config_default 7, sampler_new mini_graph config_default 8]"
  have "g_num_edges mini_graph < 2 ^ 64" by (simp add: mini_facts)
  moreover have "\<forall>sd\<in>set [\<lparr>sd_ids = [1], sd_num_nodes = 2\<rparr>, \<lparr>sd_ids = [0, 1 :: node_id], sd_num_nodes = 2\<rparr>]. seeds_ok sd"
    by (simp add: seeds_ok_def)
  moreover have "\<forall>s\<in>set ?pool. idle (g_num_nodes mini_graph) s" using sampler_new_idle by simp
  ultimately show ?thesis
    using batches_match_serial [OF mini_facts(1) _ mini_facts(4), of _ ?pool 2 config_default 5 9] by fastforce
qed

lemma induced_set:
  assumes d: "distinct nodes" "length nodes \<le> 2 ^ 32" and csr: "csr_ok csr"
  shows "(\<lambda>x. (nodes ! unat (fst x), snd (snd x), nodes ! unat (fst (snd x)))) ` set (induced_edges csr None None nodes) =
    {(u, e, v). u \<in> set nodes \<and> v \<in> set nodes \<and> row_edge csr u e v}" (is "?f ` ?E = ?S")
proof
  have u: "unat (of_nat i :: u32) = i" if "i < length nodes" for i using that d(2) by (simp add: unsigned_of_nat take_bit_nat_eq_self)
  show "?f ` ?E \<subseteq> ?S"
  proof
    fix y assume "y \<in> ?f ` ?E"
    then obtain x where x: "x \<in> ?E" "y = ?f x" by blast
    then obtain ul a b pos l where m: "ul < length nodes" "view_neighbor_range csr (nodes ! ul) = Some (a, b)" "a \<le> pos" "pos < b"
       "pos < length (cv_edges csr)" "local_of nodes (cv_edges csr ! pos) = Some l" "x = (of_nat ul, l, of_nat pos)"
      unfolding induced_edges_mem by blast
    have l: "unat l < length nodes" "nodes ! unat l = cv_edges csr ! pos" using m(6) local_of_placed [OF d] by (simp_all add: placed_def)
    have "pos < 2 ^ 64" using m(5) csr unfolding csr_ok_def by linarith
    then have e: "unat (of_nat pos :: u64) = pos" by (simp add: unsigned_of_nat take_bit_nat_eq_self)
    have "row_edge csr (nodes ! ul) (of_nat pos) (cv_edges csr ! pos)" using m e by (auto simp: row_edge_def nth_opt_Some)
    then show "y \<in> ?S" using x(2) m(1,7) l u nth_mem [of ul nodes] nth_mem [of "unat l" nodes] by simp
  qed
  show "?S \<subseteq> ?f ` ?E"
  proof
    fix y assume "y \<in> ?S"
    then obtain a e v where y: "y = (a, e, v)" "a \<in> set nodes" "v \<in> set nodes" "row_edge csr a e v" by blast
    obtain i where i: "i < length nodes" "nodes ! i = a" using y(2) by (auto simp: in_set_conv_nth)
    obtain j where j: "j < length nodes" "nodes ! j = v" using y(3) by (auto simp: in_set_conv_nth)
    obtain lo hi where r: "view_neighbor_range csr a = Some (lo, hi)" "lo \<le> unat e" "unat e < hi" "unat e < length (cv_edges csr)"
      "cv_edges csr ! unat e = v" using y(4) by (auto simp: row_edge_def nth_opt_def split: if_splits)
    have "local_of nodes v = Some (of_nat j)" using local_of_placed [OF d] u [OF j(1)] j by (simp add: placed_def)
    then have "(of_nat i, of_nat j, of_nat (unat e)) \<in> ?E"
      unfolding induced_edges_mem using i r by (intro exI [of _ i] exI [of _ lo] exI [of _ hi] exI [of _ "unat e"]) (auto simp: in_time_def)
    then show "y \<in> ?f ` ?E" using y(1) i j u by (force simp: image_iff)
  qed
qed



end
