(* ===== verification/Spec2Isabelle.thy ===== *)
theory Spec2Isabelle
  imports Shared_Ring_Properties Free_List_Properties Epoch_Clock Chunk Pin_Registry Read_Gate Arena_Retire CTree_Properties Dirty Root_Table Wal_Properties Writer_Batch Writer_Edges Stale_Marks Graph_Properties Compact_Properties Embedding_Cache Succinct_Properties Vbyte_Properties Csr_Properties Graph_File_Properties Reorder_Properties Batches Sampler_Properties
begin

text \<open>
  \<^bold>\<open>Aethergraph: a formal model of the graph engine and the training-side graph library.\<close>

  The repository is a Rust workspace for training graph neural networks. Four of its crates carry the core
  logic that is modelled here. \<^verbatim>\<open>crates/aether-graph\<close> is the dynamic graph: one writer inserts edges while
  readers hold consistent snapshots, with the edges of every vertex in a persistent balanced tree inside
  one slab arena, a write-ahead log and epoch-based reuse of superseded slots.
  \<^verbatim>\<open>crates/aethergraph-core\<close> is the static side: a CSR graph that is built, checked, saved, loaded and reordered,
  and the neighbour sampler over it. \<^verbatim>\<open>crates/aether-epoch\<close> is the clock both rest on, \<^verbatim>\<open>crates/aether-mem\<close> holds
  the shared-memory ring of the ingest path.

  \<^bold>\<open>Theories.\<close> \<open>AG_Prelude\<close> fixes the conventions: \<open>None\<close> in result position is a panic (a failed assertion, an
  index out of range, a read outside an unsafe accessor's contract) or a call that does not return; errors
  are values of a sum; \<open>u32\<close> and \<open>u64\<close> are words wherever they wrap, mask or pack.

  \<^item> Dynamic graph. \<open>Epoch_Clock\<close> (\<^verbatim>\<open>aether-epoch/src/lib.rs\<close>); \<open>Chunk\<close> (\<^verbatim>\<open>chunk.rs\<close>); \<open>Pin_Registry\<close>, \<open>Read_Gate\<close>,
    \<open>Arena\<close> (\<^verbatim>\<open>arena.rs\<close>) with \<open>Arena_Facts\<close>, \<open>Arena_Alloc\<close>, \<open>Arena_Retire\<close>; \<open>CTree\<close> (\<^verbatim>\<open>ctree.rs\<close>) with \<open>CTree_Shape\<close>,
    \<open>CTree_Build\<close>, \<open>CTree_Path\<close>, \<open>CTree_Insert\<close>, \<open>CTree_Correct\<close>, \<open>CTree_Properties\<close>; \<open>Dirty\<close> (\<^verbatim>\<open>dirty.rs\<close>); \<open>Root_Table\<close>
    (\<^verbatim>\<open>snapshot.rs\<close>); \<open>Wal\<close>, \<open>Wal_Properties\<close> (\<^verbatim>\<open>wal.rs\<close>); \<open>Graph\<close> (\<^verbatim>\<open>graph.rs\<close>, \<^verbatim>\<open>snapshot.rs\<close>); \<open>Writer\<close> (\<^verbatim>\<open>writer.rs\<close>) with
    \<open>Forest\<close>, \<open>Writer_Facts\<close>, \<open>Writer_Correct\<close>, \<open>Writer_Batch\<close>, \<open>Writer_Edges\<close>, \<open>Stale_Marks\<close>; \<open>Graph_Facts\<close>,
    \<open>Graph_Session\<close>, \<open>Graph_Commit\<close>, \<open>Graph_Api\<close>, \<open>Graph_Properties\<close> for the public interface as a whole; \<open>Compact\<close>, \<open>Compact_Facts\<close>, \<open>Compact_Properties\<close>
    (\<^verbatim>\<open>compact.rs\<close>) and \<open>Embedding_Cache\<close> (\<^verbatim>\<open>embedding_cache.rs\<close>,
    \<^verbatim>\<open>historical.rs\<close>) on top of it.
  \<^item> CSR graph. \<open>Le_Bytes\<close>, \<open>Succinct\<close> (\<^verbatim>\<open>internal/succinct.rs\<close>) with \<open>Succinct_Facts\<close>, \<open>Succinct_Encode\<close>,
    \<open>Succinct_Properties\<close>, \<open>Vbyte_Properties\<close>; \<open>Csr\<close>, \<open>Csr_Build\<close> (\<^verbatim>\<open>graph/csr.rs\<close>) with \<open>Csr_Facts\<close>, \<open>Csr_Correct\<close>,
    \<open>Csr_Properties\<close>; \<open>Graph_File\<close>, \<open>Graph_File_Properties\<close> (\<^verbatim>\<open>internal/mmap.rs\<close>, \<^verbatim>\<open>internal/compressed_graph.rs\<close>);
    \<open>Reorder\<close> (\<^verbatim>\<open>graph/reorder.rs\<close>) with \<open>Dendrogram\<close>, \<open>Reorder_Facts\<close>, \<open>Reorder_Properties\<close>, \<open>Permute\<close>, \<open>Blocks\<close>, \<open>Batches\<close>.
  \<^item> Neighbour sampler. \<open>Genstamp\<close> (\<^verbatim>\<open>internal/genstamp.rs\<close>), \<open>Sampler\<close> and \<open>Sampler_Run\<close> (\<^verbatim>\<open>loader/sampler.rs\<close>) with
    \<open>Sampler_Facts\<close>, \<open>Sampler_Twins\<close>, \<open>Sampler_Steps\<close>, \<open>Sampler_Rows\<close>, \<open>Sampler_Hops\<close>, \<open>Sampler_Rewrite\<close>, \<open>Sampler_Pass\<close>,
    \<open>Sampler_Calls\<close>, \<open>Sampler_Disjoint\<close>, \<open>Sampler_Properties\<close>.
  \<^item> Shared-memory ring (\<^verbatim>\<open>aether-mem/src/ring.rs\<close>). \<open>Free_List\<close> with \<open>Free_List_Facts\<close>, \<open>Free_List_Properties\<close>;
    \<open>Shared_Ring\<close>, \<open>Shared_Ring_Properties\<close>.

  \<^bold>\<open>State and operations.\<close> Every struct is a record with the code's fields, every operation a function from the
  state to the result and the new state, in the order of the code and with its early returns. \<^verbatim>\<open>&self\<close> methods on
  atomics and mutexes thread the record. Where threads interleave (\<open>Read_Gate\<close>, \<open>Free_List\<close>), each atomic access is a step of
  an inductive relation; parallel passes (the CSR builder, the row fill, the batch sampler) are split as the code
  splits them and run chunk by chunk. \<open>Graph_Api\<close> is the state machine of the public calls.

  \<^bold>\<open>What the lemmas show.\<close>
  \<^item> Representation: \<open>wf_chunk\<close>, \<open>arena_inv\<close>, \<open>stored_in\<close>/\<open>tree_at\<close>, \<open>forest_at\<close>, \<open>graph_ok\<close>, \<open>graph_typed\<close>, \<open>pass_ok\<close> say
    what the bytes mean, and every operation keeps them.
  \<^item> Refinement: an insert is set insertion on a chunk, a tree, a vertex, the graph; an Elias-Fano or StreamVByte
    structure is the list it encodes; a CSR graph is its rows; a generation-stamped table is a partial map.
  \<^item> Concurrency and reuse: a freed table version has no reader, a slot is reused only when no pin can reach it, a held
    snapshot reads the edge set of its epoch through every later call.
  \<^item> Errors: a full arena, a failed write or sync, a panic and a poisoned graph leave exactly what the code leaves.
  \<^item> Determinism: the sampler's result depends on the configuration, the graph, the seeds and the generator state
    alone, shown by running every step on two samplers (\<open>twin\<close>) that differ in their scratch tables.

  \<^bold>\<open>Bounds.\<close> Traversals of a tree use the code's stack of 64 entries; the height bound \<open>depth_limit\<close> keeps every tree
  that inserts build below it. The loops over the dendrogram are \<open>partial_function (option)\<close> and shown to return.
  \<^verbatim>\<open>usize\<close> is 64 bits; edge counts are below \<open>2 ^ 64\<close> and vertex counts at most \<open>2 ^ 32 - 1\<close>, which the code checks.
  The arena's capacity is below \<open>2 ^ 32\<close> slots, as \<^verbatim>\<open>Arena::MAX_CAPACITY\<close> demands.

  \<^bold>\<open>Parameters.\<close> The CRC-32 (\<open>crc\<close>), the answers of the kernel to writes and syncs, the address of a mapping, float
  arithmetic, \<^verbatim>\<open>slice::partition_point\<close> on an unordered slice and \<^verbatim>\<open>select_nth_unstable_by\<close> (\<open>sampler_env\<close>, with the
  contract \<open>env_ok\<close>: it reorders its slice), and system randomness are arguments of the definitions that use them.

  \<^bold>\<open>Not modelled.\<close> Kernel interfaces (io_uring, userfaultfd, NVMe passthrough, shared memory, NUMA, perf counters,
  device drivers), RDMA, XDP and GPU code are system calls and FFI with little logic of their own. The feature
  store and its caches, the prefetch pipeline and the asynchronous graph are I/O and thread orchestration around
  them. Python bindings, the command line and the tests are glue. \<^verbatim>\<open>PROJECT.json\<close> lists each with its reason.
\<close>

end
